(* ===== verification/Prelude.thy ===== *)
theory Prelude
  imports
    Complex_Main
    "HOL-Library.Char_ord"
    "HOL-Library.List_Lexorder"
    "HOL-Library.Sublist"
    "HOL-Library.AList"
begin

text \<open>
  Shared vocabulary of the development: the parts of Rust's core library the crate uses on
  strings, machine integers, durations and hash maps, and the generic lemmas on them.

  \<^item> A Rust \<open>String\<close> is its UTF-8 byte sequence; \<open>string\<close> is a list of 8-bit characters, so
    \<open>length\<close> is Rust's \<open>len()\<close> and the lexicographic order is Rust's \<open>Ord\<close>.
  \<^item> \<open>u32\<close>, \<open>u64\<close> and \<open>usize\<close> (64-bit target) values are naturals; every operation that can
    leave the range is written with its saturation or its check.
  \<^item> A \<open>Duration\<close> is its number of nanoseconds; an \<open>Instant\<close> is a number of nanoseconds since
    a fixed origin, and \<open>saturating_duration_since\<close> is the truncated subtraction of naturals.
  \<^item> A \<open>HashMap\<close> is an association list with distinct keys: \<open>map_of\<close>, \<open>AList.update\<close>,
    \<open>AList.delete\<close> and \<open>length\<close> are its \<open>get\<close>, \<open>insert\<close>, \<open>remove\<close> and \<open>len\<close>.
\<close>

type_synonym ('e, 'a) result = "'e + 'a"
type_synonym duration = nat
type_synonym instant = nat
type_synonym ('k, 'v) hash_map = "('k \<times> 'v) list"

named_theorems hash_map_simps \<open>the laws of the association-list hash map\<close>
named_theorems string_simps \<open>the laws of the string operations\<close>

section \<open>Machine integers\<close>

definition u32_max :: nat where "u32_max = 2 ^ 32 - 1"
definition u64_max :: nat where "u64_max = 2 ^ 64 - 1"
definition u128_max :: nat where "u128_max = 2 ^ 128 - 1"
definition usize_max :: nat where "usize_max = 2 ^ 64 - 1"

definition saturating_add_u64 :: "nat \<Rightarrow> nat \<Rightarrow> nat" where
  "saturating_add_u64 a b = min u64_max (a + b)"

definition saturating_mul_u64 :: "nat \<Rightarrow> nat \<Rightarrow> nat" where
  "saturating_mul_u64 a b = min u64_max (a * b)"

definition checked_add_usize :: "nat \<Rightarrow> nat \<Rightarrow> nat option" where
  "checked_add_usize a b = (if a + b \<le> usize_max then Some (a + b) else None)"

definition checked_mul_usize :: "nat \<Rightarrow> nat \<Rightarrow> nat option" where
  "checked_mul_usize a b = (if a * b \<le> usize_max then Some (a * b) else None)"

lemma checked_add_usize_Some [simp]:
  "checked_add_usize a b = Some c \<longleftrightarrow> c = a + b \<and> a + b \<le> usize_max"
  by (auto simp: checked_add_usize_def)

lemma checked_mul_usize_Some [simp]:
  "checked_mul_usize a b = Some c \<longleftrightarrow> c = a * b \<and> a * b \<le> usize_max"
  by (auto simp: checked_mul_usize_def)

lemma saturating_add_u64_le [simp]: "saturating_add_u64 a b \<le> u64_max"
  by (simp add: saturating_add_u64_def)

lemma saturating_add_u64_mono:
  "a \<le> a' \<Longrightarrow> b \<le> b' \<Longrightarrow> saturating_add_u64 a b \<le> saturating_add_u64 a' b'"
  by (simp add: saturating_add_u64_def min_def)

lemma saturating_mul_u64_mono:
  "a \<le> a' \<Longrightarrow> b \<le> b' \<Longrightarrow> saturating_mul_u64 a b \<le> saturating_mul_u64 a' b'"
  by (auto simp: saturating_mul_u64_def min_def intro: order_trans mult_le_mono)

section \<open>Durations\<close>

definition nanos_per_sec :: nat where "nanos_per_sec = 1000000000"

definition from_secs :: "nat \<Rightarrow> duration" where
  "from_secs s = s * nanos_per_sec"

definition from_millis :: "nat \<Rightarrow> duration" where
  "from_millis ms = ms * 1000000"

definition as_secs :: "duration \<Rightarrow> nat" where
  "as_secs d = d div nanos_per_sec"

definition saturating_duration_since :: "instant \<Rightarrow> instant \<Rightarrow> duration" where
  "saturating_duration_since now earlier = now - earlier"

lemma as_secs_from_secs [simp]: "as_secs (from_secs s) = s"
  by (simp add: as_secs_def from_secs_def nanos_per_sec_def)

section \<open>Strings\<close>

definition starts_with :: "string \<Rightarrow> string \<Rightarrow> bool" where
  "starts_with s p \<longleftrightarrow> prefix p s"

definition ends_with :: "string \<Rightarrow> string \<Rightarrow> bool" where
  "ends_with s p \<longleftrightarrow> suffix p s"

definition str_contains :: "string \<Rightarrow> string \<Rightarrow> bool" where
  "str_contains s p \<longleftrightarrow> sublist p s"

definition strip_prefix :: "string \<Rightarrow> string \<Rightarrow> string option" where
  "strip_prefix s p = (if starts_with s p then Some (drop (length p) s) else None)"

fun split_once :: "char \<Rightarrow> string \<Rightarrow> (string \<times> string) option" where
  "split_once c [] = None"
| "split_once c (x # xs) =
     (if x = c then Some ([], xs)
      else map_option (\<lambda>(a, b). (x # a, b)) (split_once c xs))"

lemma starts_with_append [simp, string_simps]: "starts_with (p @ s) p"
  by (simp add: starts_with_def)

lemma strip_prefix_append [simp, string_simps]: "strip_prefix (p @ s) p = Some s"
  by (simp add: strip_prefix_def)

lemma strip_prefix_Some [string_simps]: "strip_prefix s p = Some t \<longleftrightarrow> s = p @ t"
  by (auto simp: strip_prefix_def starts_with_def prefix_def)

lemma split_once_Some:
  "split_once c s = Some (a, b) \<longleftrightarrow> s = a @ c # b \<and> c \<notin> set a"
proof (induction s arbitrary: a)
  case Nil
  then show ?case by simp
next
  case (Cons x xs)
  then show ?case by (cases a) (auto simp: map_option_eq_Some)
qed

lemma split_once_None: "split_once c s = None \<longleftrightarrow> c \<notin> set s"
  by (induction s) auto

text \<open>A number in decimal, as \<open>format!\<close> prints it.\<close>

fun decimal_rev :: "nat \<Rightarrow> string" where
  "decimal_rev n = (if n < 10 then [char_of (48 + n)] else char_of (48 + n mod 10) # decimal_rev (n div 10))"

declare decimal_rev.simps [simp del]

definition decimal :: "nat \<Rightarrow> string" where "decimal n = rev (decimal_rev n)"

section \<open>Hash maps\<close>

abbreviation hm_wf :: "('k, 'v) hash_map \<Rightarrow> bool" where
  "hm_wf m \<equiv> distinct (map fst m)"

lemma map_of_update [hash_map_simps]: "map_of (AList.update k v m) = (map_of m)(k \<mapsto> v)"
  by (simp add: update_conv')

lemma map_of_delete [hash_map_simps]: "map_of (AList.delete k m) = (map_of m)(k := None)"
  by (simp add: delete_conv')

lemma hm_wf_update [hash_map_simps]: "hm_wf m \<Longrightarrow> hm_wf (AList.update k v m)"
  by (rule distinct_update)

lemma hm_wf_delete [hash_map_simps]: "hm_wf m \<Longrightarrow> hm_wf (AList.delete k m)"
  by (rule distinct_delete)

lemma length_update_new [hash_map_simps]:
  "map_of m k = None \<Longrightarrow> length (AList.update k v m) = Suc (length m)"
  by (induction m) (auto split: if_splits)

lemma delete_absent: "map_of m k = None \<Longrightarrow> AList.delete k m = m"
  by (simp add: map_of_eq_None_iff)

lemma set_delete_subset: "set (AList.delete k m) \<subseteq> set m"
  by (induction m) auto

lemma update_absent: "map_of m k = None \<Longrightarrow> AList.update k v m = m @ [(k, v)]"
  by (induction m) (auto split: if_splits)

lemma sum_list_delete:
  fixes f :: "'k \<times> 'v \<Rightarrow> nat"
  assumes "hm_wf m" and "map_of m k = Some v"
  shows "sum_list (map f m) = f (k, v) + sum_list (map f (AList.delete k m))"
  using assms
proof (induction m)
  case Nil
  then show ?case by simp
next
  case (Cons p m)
  obtain k' v' where p: "p = (k', v')" by fastforce
  show ?case
  proof (cases "k' = k")
    case True
    with Cons.prems p have "map_of m k = None" by (auto simp: map_of_eq_None_iff)
    with True Cons.prems p show ?thesis by (simp add: delete_absent)
  next
    case False
    with Cons p show ?thesis by simp
  qed
qed

lemma length_delete_present:
  "hm_wf m \<Longrightarrow> map_of m k = Some v \<Longrightarrow> length m = Suc (length (AList.delete k m))"
  using sum_list_delete [of m k v "\<lambda>_. 1"] by (simp add: sum_list_triv)

text \<open>The sum of a weight over the values of a map.\<close>

definition msum :: "('v \<Rightarrow> nat) \<Rightarrow> ('k, 'v) hash_map \<Rightarrow> nat" where
  "msum f m = sum_list (map (f \<circ> snd) m)"

lemma msum_Nil [simp]: "msum f [] = 0"
  by (simp add: msum_def)

lemma msum_delete: "hm_wf m \<Longrightarrow> map_of m k = Some v \<Longrightarrow> msum f m = f v + msum f (AList.delete k m)"
  using sum_list_delete [of m k v "f \<circ> snd"] by (simp add: msum_def)

lemma msum_insert: "map_of m k = None \<Longrightarrow> msum f (AList.update k v m) = msum f m + f v"
  by (simp add: update_absent msum_def)

lemma delete_update_same: "AList.delete k (AList.update k v m) = AList.delete k m"
  by (induction m) auto

lemma msum_update:
  assumes "hm_wf m" and "map_of m k = Some v"
  shows "msum f (AList.update k v' m) + f v = msum f m + f v'"
  using msum_delete [OF assms, of f] msum_delete [of "AList.update k v' m" k v' f] assms(1)
  by (simp add: hash_map_simps delete_update_same)

lemma msum_ge: "map_of m k = Some v \<Longrightarrow> f v \<le> msum f m"
  by (induction m) (auto simp: msum_def split: if_splits)

section \<open>Ordered maps and sets\<close>

text \<open>A \<open>BTreeMap\<close> is the association list of its entries in key order; a \<open>BTreeSet\<close> the
  sorted list of its members.\<close>

fun btree_insert :: "'k :: linorder \<Rightarrow> 'v \<Rightarrow> ('k \<times> 'v) list \<Rightarrow> ('k \<times> 'v) list" where
  "btree_insert k v [] = [(k, v)]"
| "btree_insert k v ((k', v') # m) =
     (if k = k' then (k, v) # m
      else if k < k' then (k, v) # (k', v') # m
      else (k', v') # btree_insert k v m)"

abbreviation btree_wf :: "('k :: linorder \<times> 'v) list \<Rightarrow> bool" where
  "btree_wf m \<equiv> sorted_wrt (<) (map fst m)"

lemma map_of_btree_insert [simp, hash_map_simps]: "map_of (btree_insert k v m) = (map_of m)(k \<mapsto> v)"
  by (induction m) auto

lemma keys_btree_insert: "fst ` set (btree_insert k v m) = insert k (fst ` set m)"
  by (induction k v m rule: btree_insert.induct) (simp_all add: insert_commute)

lemma btree_wf_insert [hash_map_simps]: "btree_wf m \<Longrightarrow> btree_wf (btree_insert k v m)"
proof (induction m)
  case (Cons p m)
  then show ?case using keys_btree_insert [of k v m] by (cases p) (force simp: not_less)
qed simp

lemma btree_wf_distinct: "btree_wf m \<Longrightarrow> hm_wf m"
  by (simp add: strict_sorted_iff)

end
