(* ===== verification/Errors.thy ===== *)
theory Errors
  imports Prelude
begin

text \<open>
  The error type of the crate (\<open>src/error.rs\<close>). The payloads of \<open>Http\<close> and \<open>Json\<close> are values
  of third-party libraries; only their rendered text is kept.
\<close>

datatype shim_error =
    UnknownProvider string
  | MissingModel
  | Http string
  | Json string
  | ProviderError (err_status: nat) (err_body: string) (err_retry_after: "duration option")
  | Stream string
  | AllFailed "string list"

text \<open>\<open>crate::error::provider_error\<close>.\<close>

definition provider_error :: "nat \<Rightarrow> string \<Rightarrow> shim_error" where
  "provider_error status body = ProviderError status body None"

end
