(* ===== verification/Sse.thy ===== *)
theory Sse
  imports Errors
begin

text \<open>
  The bounded decoder of server-sent events (\<open>src/sse.rs\<close>): \<open>DataStream\<close>, its \<open>finish_line\<close>
  and its \<open>poll_next\<close>. The byte source is the queue of what it will answer when polled; the
  empty queue is the end of the stream. \<open>current_chunk[chunk_offset..]\<close> is kept as the slice
  \<open>rest\<close> that is still to be read, so \<open>chunk_offset == current_chunk.len()\<close> is \<open>rest = []\<close>.
\<close>

section \<open>UTF-8\<close>

abbreviation byte :: "char \<Rightarrow> nat" where
  "byte c \<equiv> of_char c"

definition cont_byte :: "char \<Rightarrow> bool" where
  "cont_byte c \<longleftrightarrow> 128 \<le> byte c \<and> byte c \<le> 191"

text \<open>\<open>std::str::from_utf8\<close>: the well-formed byte sequences of the Unicode standard.\<close>

fun utf8_valid :: "string \<Rightarrow> bool" where
  "utf8_valid [] \<longleftrightarrow> True"
| "utf8_valid (a # r) \<longleftrightarrow>
     (if byte a < 128 then utf8_valid r
      else if 194 \<le> byte a \<and> byte a \<le> 223 then
        (case r of b # r1 \<Rightarrow> cont_byte b \<and> utf8_valid r1 | _ \<Rightarrow> False)
      else if 224 \<le> byte a \<and> byte a \<le> 239 then
        (case r of
           b # c # r2 \<Rightarrow>
             cont_byte b \<and> (byte a = 224 \<longrightarrow> 160 \<le> byte b) \<and> (byte a = 237 \<longrightarrow> byte b \<le> 159) \<and>
             cont_byte c \<and> utf8_valid r2
         | _ \<Rightarrow> False)
      else if 240 \<le> byte a \<and> byte a \<le> 244 then
        (case r of
           b # c # d # r3 \<Rightarrow>
             cont_byte b \<and> (byte a = 240 \<longrightarrow> 144 \<le> byte b) \<and> (byte a = 244 \<longrightarrow> byte b \<le> 143) \<and>
             cont_byte c \<and> cont_byte d \<and> utf8_valid r3
         | _ \<Rightarrow> False)
      else False)"

declare utf8_valid.simps(2) [simp del]

lemma utf8_valid_ascii: "byte a < 128 \<Longrightarrow> utf8_valid (a # r) = utf8_valid r"
  by (simp add: utf8_valid.simps)

lemma utf8_valid_append: "utf8_valid xs \<Longrightarrow> utf8_valid (xs @ ys) = utf8_valid ys"
proof (induction xs rule: length_induct)
  case (1 xs)
  then show ?case
    by (cases xs) (auto simp: utf8_valid.simps split: if_splits list.splits)
qed

lemma utf8_valid_split_ascii:
  "byte a < 128 \<Longrightarrow> utf8_valid (xs @ a # ys) \<longleftrightarrow> utf8_valid xs \<and> utf8_valid ys"
proof (induction xs rule: length_induct)
  case (1 xs)
  show ?case
  proof (cases xs)
    case (Cons x r)
    have IH: "length zs \<le> length r \<Longrightarrow> utf8_valid (zs @ a # ys) \<longleftrightarrow> utf8_valid zs \<and> utf8_valid ys" for zs
      using 1 Cons by simp
    have nc: "\<not> cont_byte a" using 1 by (simp add: cont_byte_def)
    have IHs: "utf8_valid (r @ a # ys) \<longleftrightarrow> utf8_valid r \<and> utf8_valid ys"
      "utf8_valid (tl r @ a # ys) \<longleftrightarrow> utf8_valid (tl r) \<and> utf8_valid ys"
      "utf8_valid (tl (tl r) @ a # ys) \<longleftrightarrow> utf8_valid (tl (tl r)) \<and> utf8_valid ys"
      "utf8_valid (tl (tl (tl r)) @ a # ys) \<longleftrightarrow> utf8_valid (tl (tl (tl r))) \<and> utf8_valid ys"
      by (rule IH, simp)+
    consider "r = []" | r1 where "r = [r1]" | r1 r2 where "r = [r1, r2]"
      | r1 r2 r3 r4 where "r = r1 # r2 # r3 # r4"
      by (metis list.exhaust)
    then have "utf8_valid (x # r @ a # ys) \<longleftrightarrow> utf8_valid (x # r) \<and> utf8_valid ys"
      unfolding utf8_valid.simps(2) [of x] using nc IHs
      by cases (simp_all split: list.split)
    with Cons show ?thesis by simp
  qed (use 1 in \<open>simp add: utf8_valid_ascii\<close>)
qed

lemma utf8_valid_prefix_ascii:
  "list_all (\<lambda>a. byte a < 128) xs \<Longrightarrow> utf8_valid (xs @ ys) = utf8_valid ys"
  by (induction xs) (simp_all add: utf8_valid_ascii)

section \<open>State\<close>

record stream_limits =
  lim_total_bytes :: nat
  lim_line_bytes :: nat
  lim_frame_bytes :: nat
  lim_frames :: nat
  lim_chunks :: nat

definition default_stream_limits :: stream_limits where
  "default_stream_limits =
     \<lparr>lim_total_bytes = 32 * 1024 * 1024, lim_line_bytes = 8 * 1024 * 1024,
      lim_frame_bytes = 8 * 1024 * 1024, lim_frames = 100000, lim_chunks = 1048576\<rparr>"

datatype source_item = Chunk string | SourceError | SourcePending

record data_stream =
  source :: "source_item list"
  limits :: stream_limits
  rest :: string
  line :: string
  event_data :: string
  total_bytes :: nat
  frame_bytes :: nat
  frames :: nat
  chunks :: nat
  first_line :: bool
  after_carriage_return :: bool
  finished :: bool

definition new_stream :: "source_item list \<Rightarrow> stream_limits \<Rightarrow> data_stream" where
  "new_stream src lims =
     \<lparr>source = src, limits = lims, rest = [], line = [], event_data = [], total_bytes = 0,
      frame_bytes = 0, frames = 0, chunks = 0, first_line = True, after_carriage_return = False,
      finished = False\<rparr>"

datatype 'a poll = Pending | Ready 'a

type_synonym item = "(shim_error, string) result"

section \<open>Operations\<close>

definition finish :: "data_stream \<Rightarrow> data_stream" where
  "finish s = s\<lparr>finished := True, source := [], rest := [], line := [], event_data := []\<rparr>"

definition fail :: "data_stream \<Rightarrow> string \<Rightarrow> item option poll \<times> data_stream" where
  "fail s message = (Ready (Some (Inl (Stream message))), finish s)"

definition LF :: char where "LF = CHR 0x0A"
definition CR :: char where "CR = CHR 0x0D"
definition BOM :: string where "BOM = [CHR 0xEF, CHR 0xBB, CHR 0xBF]"

definition strip_bom :: "string \<Rightarrow> string" where
  "strip_bom l = (case strip_prefix l BOM of Some l' \<Rightarrow> l' | None \<Rightarrow> l)"

text \<open>The non-empty line branch of \<open>finish_line\<close>: what a line adds to the event data.\<close>

definition data_field :: "string \<Rightarrow> string option" where
  "data_field l =
     (let (field, val) = (case split_once (CHR '':'') l of Some fv \<Rightarrow> fv | None \<Rightarrow> (l, [])) in
      if field = ''data'' then
        Some (case strip_prefix val '' '' of Some v \<Rightarrow> v | None \<Rightarrow> val)
      else None)"

definition finish_line :: "data_stream \<Rightarrow> (string, string option) result \<times> data_stream" where
  "finish_line s =
     (if \<not> utf8_valid (line s) then (Inl ''invalid upstream SSE UTF-8'', s)
      else
        let l = (if first_line s then strip_bom (line s) else line s);
            s1 = s\<lparr>first_line := False\<rparr>
        in
        if l = [] then
          if frames s1 \<ge> lim_frames (limits s1) then
            (Inl ''upstream SSE frame count exceeds limit'', s1)
          else
            let s2 = s1\<lparr>frames := frames s1 + 1, frame_bytes := 0\<rparr> in
            if event_data s2 = [] then (Inr None, s2\<lparr>line := []\<rparr>)
            else
              let event = butlast (event_data s2); s3 = s2\<lparr>event_data := []\<rparr> in
              if utf8_valid event then (Inr (Some event), s3\<lparr>line := []\<rparr>)
              else (Inl ''invalid upstream SSE UTF-8'', s3)
        else
          let s2 = (case data_field l of
                      Some v \<Rightarrow> s1\<lparr>event_data := event_data s1 @ v @ [LF]\<rparr>
                    | None \<Rightarrow> s1)
          in (Inr None, s2\<lparr>line := []\<rparr>))"

text \<open>
  One pass of the loop in \<open>poll_next\<close>: \<open>None\<close> continues the loop. First the byte part, then the
  whole body.
\<close>

definition take_byte :: "data_stream \<Rightarrow> char \<Rightarrow> item option poll option \<times> data_stream" where
  "take_byte s b =
     (let follows_carriage_return = after_carriage_return s;
          s1 = s\<lparr>total_bytes := total_bytes s + 1, after_carriage_return := False\<rparr>
      in
      if follows_carriage_return \<and> b = LF then (None, s1)
      else if frame_bytes s1 \<ge> lim_frame_bytes (limits s1) then
        map_prod Some id (fail s1 ''upstream SSE frame exceeds size limit'')
      else
        let s2 = s1\<lparr>frame_bytes := frame_bytes s1 + 1\<rparr> in
        if b = LF \<or> b = CR then
          (case finish_line (s2\<lparr>after_carriage_return := (b = CR)\<rparr>) of
             (Inr (Some event), s3) \<Rightarrow> (Some (Ready (Some (Inr event))), s3)
           | (Inr None, s3) \<Rightarrow> (None, s3)
           | (Inl message, s3) \<Rightarrow> map_prod Some id (fail s3 message))
        else if length (line s2) \<ge> lim_line_bytes (limits s2) then
          map_prod Some id (fail s2 ''upstream SSE line exceeds size limit'')
        else (None, s2\<lparr>line := line s2 @ [b]\<rparr>))"

definition iteration :: "data_stream \<Rightarrow> item option poll option \<times> data_stream" where
  "iteration s =
     (case rest s of
        [] \<Rightarrow>
          (case source s of
             Chunk c # src \<Rightarrow>
               let s0 = s\<lparr>source := src\<rparr> in
               if chunks s0 \<ge> lim_chunks (limits s0) then
                 map_prod Some id (fail s0 ''upstream SSE chunk count exceeds limit'')
               else (None, s0\<lparr>chunks := chunks s0 + 1, rest := c\<rparr>)
           | SourceError # src \<Rightarrow>
               map_prod Some id (fail (s\<lparr>source := src\<rparr>) ''could not read upstream SSE'')
           | [] \<Rightarrow>
               if \<not> utf8_valid (line s) then map_prod Some id (fail s ''invalid upstream SSE UTF-8'')
               else (Some (Ready None), finish s)
           | SourcePending # src \<Rightarrow> (Some Pending, s\<lparr>source := src\<rparr>))
      | b # bs \<Rightarrow>
          if total_bytes s \<ge> lim_total_bytes (limits s) then
            map_prod Some id (fail s ''upstream SSE decoded bytes exceed limit'')
          else take_byte (s\<lparr>rest := bs\<rparr>) b)"

fun poll_loop :: "nat \<Rightarrow> data_stream \<Rightarrow> item option poll \<times> data_stream" where
  "poll_loop 0 s = (Pending, s)"
| "poll_loop (Suc n) s =
     (case iteration s of
        (Some r, s') \<Rightarrow> (r, s')
      | (None, s') \<Rightarrow> poll_loop n s')"

definition poll_next :: "data_stream \<Rightarrow> item option poll \<times> data_stream" where
  "poll_next s = (if finished s then (Ready None, s) else poll_loop 65536 s)"

section \<open>Draining a stream\<close>

fun item_size :: "source_item \<Rightarrow> nat" where
  "item_size (Chunk c) = Suc (length c)"
| "item_size _ = 1"

definition remaining :: "data_stream \<Rightarrow> nat" where
  "remaining s = sum_list (map item_size (source s)) + length (rest s) + (if finished s then 0 else 1)"

lemma finish_simps [simp]:
  "finished (finish s)" "source (finish s) = []" "rest (finish s) = []" "limits (finish s) = limits s"
  "line (finish s) = []" "event_data (finish s) = []" "total_bytes (finish s) = total_bytes s"
  "frame_bytes (finish s) = frame_bytes s" "frames (finish s) = frames s" "chunks (finish s) = chunks s"
  by (simp_all add: finish_def)

lemma finish_line_frame:
  "finish_line s = (r, s') \<Longrightarrow> source s' = source s \<and> rest s' = rest s \<and> finished s' = finished s \<and>
     limits s' = limits s \<and> total_bytes s' = total_bytes s \<and> chunks s' = chunks s"
  by (auto simp: finish_line_def Let_def split: if_splits option.splits)

lemma take_byte_frame:
  assumes "take_byte s b = (r, s')"
  shows "limits s' = limits s \<and>
    (s' = finish s' \<and> finished s' \<or> source s' = source s \<and> rest s' = rest s \<and> finished s' = finished s)"
  using assms
  by (auto simp: take_byte_def fail_def Let_def finish_def
      split: if_splits prod.splits sum.splits option.splits dest!: finish_line_frame)

lemma iteration_limits: "iteration s = (r, s') \<Longrightarrow> limits s' = limits s"
  by (auto simp: iteration_def fail_def Let_def
      split: list.splits source_item.splits if_splits dest!: take_byte_frame)

lemma iteration_decreases:
  assumes "iteration s = (r, s')" and "\<not> finished s"
  shows "remaining s' < remaining s"
proof (cases "rest s")
  case Nil
  with assms show ?thesis
    by (auto simp: iteration_def remaining_def fail_def Let_def
        split: list.splits source_item.splits if_splits)
next
  case (Cons b bs)
  show ?thesis
  proof (cases "total_bytes s \<ge> lim_total_bytes (limits s)")
    case True
    with Cons assms show ?thesis by (auto simp: iteration_def remaining_def fail_def)
  next
    case False
    with Cons assms(1) have "take_byte (s\<lparr>rest := bs\<rparr>) b = (r, s')" by (simp add: iteration_def)
    from take_byte_frame [OF this] Cons assms(2) show ?thesis
      by (auto simp: remaining_def) (metis add_0 finish_simps(2,3) list.size(3) list.map(1) sum_list.Nil zero_less_Suc)+
  qed
qed

text \<open>Everything the stream yields, in order, over all polls: the items up to its end.\<close>

function drain :: "data_stream \<Rightarrow> item list" where
  "drain s =
     (if finished s then []
      else case iteration s of
        (Some (Ready (Some x)), s') \<Rightarrow> x # drain s'
      | (_, s') \<Rightarrow> drain s')"
  by pat_completeness auto
termination
  by (relation "measure remaining") (auto dest: iteration_decreases [OF sym])

declare drain.simps [simp del]

lemma drain_finished [simp]: "finished s \<Longrightarrow> drain s = []"
  by (simp add: drain.simps)

lemma poll_loop_drain:
  assumes "poll_loop n s = (r, s')" and "\<not> finished s"
  shows "drain s = (case r of Ready (Some x) \<Rightarrow> x # drain s' | _ \<Rightarrow> drain s') \<and>
    remaining s' \<le> remaining s"
  using assms
proof (induction n arbitrary: s)
  case 0
  then show ?case by simp
next
  case (Suc n)
  obtain q t where it: "iteration s = (q, t)" by fastforce
  have dec: "remaining t < remaining s" using it Suc.prems(2) by (rule iteration_decreases)
  show ?case
  proof (cases q)
    case (Some r')
    with it Suc.prems dec show ?thesis
      by (simp add: drain.simps [of s] split: poll.splits option.splits)
  next
    case None
    with it Suc.prems have loop: "poll_loop n t = (r, s')" by simp
    have ds: "drain s = drain t" using it None Suc.prems(2) by (simp add: drain.simps [of s])
    show ?thesis
    proof (cases "finished t")
      case False
      with Suc.IH [OF loop] ds dec show ?thesis by simp
    next
      case True
      have "\<not> finished t"
        using it None Suc.prems(2)
        by (auto simp: iteration_def take_byte_def fail_def Let_def
            split: list.splits source_item.splits if_splits prod.splits sum.splits option.splits
            dest!: finish_line_frame)
      with True show ?thesis by simp
    qed
  qed
qed

section \<open>The resource invariant\<close>

text \<open>
  Every counter is within its limit, and what the decoder retains (the open line and the data
  of the open event) was paid for by bytes of the current frame.
\<close>

definition stream_ok :: "data_stream \<Rightarrow> bool" where
  "stream_ok s \<longleftrightarrow>
     total_bytes s \<le> lim_total_bytes (limits s) \<and> frames s \<le> lim_frames (limits s) \<and>
     chunks s \<le> lim_chunks (limits s) \<and> frame_bytes s \<le> lim_frame_bytes (limits s) \<and>
     length (line s) \<le> lim_line_bytes (limits s) \<and>
     length (event_data s) + length (line s) \<le> frame_bytes s"

lemma strip_bom_length: "length (strip_bom l) \<le> length l"
  by (auto simp: strip_bom_def strip_prefix_def split: option.splits)

lemma data_field_length: "data_field l = Some v \<Longrightarrow> length v + 4 \<le> length l"
  by (auto simp: data_field_def Let_def strip_prefix_def split_once_Some
      split: option.splits prod.splits if_splits)

lemma stream_ok_finish: "stream_ok s \<Longrightarrow> stream_ok (finish s)"
  by (simp add: stream_ok_def)

lemma finish_line_ok:
  assumes "finish_line s = (r, s')" and "length (event_data s) + length (line s) < frame_bytes s"
    and "stream_ok s"
  shows "(r = Inr ev \<longrightarrow> stream_ok s') \<and> stream_ok (finish s')"
proof -
  let ?l = "if first_line s then strip_bom (line s) else line s"
  have l: "length ?l \<le> length (line s)" using strip_bom_length by simp
  have v: "length v < length (line s)" if "data_field ?l = Some v" for v
    using data_field_length [OF that] l by linarith
  from assms v show ?thesis
    by (auto simp: finish_line_def stream_ok_def Let_def split: if_splits option.splits)
qed

lemma take_byte_ok:
  assumes "take_byte s b = (r, s')" and "stream_ok s"
    and "total_bytes s < lim_total_bytes (limits s)"
  shows "stream_ok s'"
proof -
  define s1 where "s1 = s\<lparr>total_bytes := total_bytes s + 1, after_carriage_return := False\<rparr>"
  define s2 where "s2 = s1\<lparr>frame_bytes := frame_bytes s1 + 1\<rparr>"
  define s2' where "s2' = s2\<lparr>after_carriage_return := (b = CR)\<rparr>"
  have s1: "stream_ok s1" using assms(2,3) by (simp add: stream_ok_def s1_def)
  have tb: "take_byte s b =
     (if after_carriage_return s \<and> b = LF then (None, s1)
      else if frame_bytes s1 \<ge> lim_frame_bytes (limits s1) then
        map_prod Some id (fail s1 ''upstream SSE frame exceeds size limit'')
      else if b = LF \<or> b = CR then
          (case finish_line s2' of
             (Inr (Some event), s3) \<Rightarrow> (Some (Ready (Some (Inr event))), s3)
           | (Inr None, s3) \<Rightarrow> (None, s3)
           | (Inl message, s3) \<Rightarrow> map_prod Some id (fail s3 message))
      else if length (line s2) \<ge> lim_line_bytes (limits s2) then
          map_prod Some id (fail s2 ''upstream SSE line exceeds size limit'')
      else (None, s2\<lparr>line := line s2 @ [b]\<rparr>))"
    by (simp add: take_byte_def s1_def s2_def s2'_def Let_def)
  show ?thesis
  proof (cases "frame_bytes s1 \<ge> lim_frame_bytes (limits s1)")
    case True
    with assms(1) s1 show ?thesis by (auto simp: tb fail_def stream_ok_finish split: if_splits)
  next
    case False
    with s1 have s2: "stream_ok s2" "stream_ok s2'" by (simp_all add: stream_ok_def s2_def s2'_def)
    have fl: "(q = Inr ev \<longrightarrow> stream_ok s3) \<and> stream_ok (finish s3)" if "finish_line s2' = (q, s3)"
      for q s3 ev
      using s1 by (intro finish_line_ok [OF that _ s2(2)]) (simp add: stream_ok_def s2_def s2'_def)
    have push: "stream_ok (s2\<lparr>line := line s2 @ [b]\<rparr>)" if "\<not> length (line s2) \<ge> lim_line_bytes (limits s2)"
      using s1 False that by (simp add: stream_ok_def s2_def)
    from assms(1) False fl push s1 s2(1) show ?thesis
      by (auto simp: tb fail_def split: if_splits prod.splits sum.splits option.splits
          intro: stream_ok_finish)
  qed
qed

lemma iteration_ok: "iteration s = (r, s') \<Longrightarrow> stream_ok s \<Longrightarrow> stream_ok s'"
proof (cases "rest s")
  case Nil
  assume "iteration s = (r, s')" "stream_ok s"
  with Nil show ?thesis
    by (auto simp: iteration_def fail_def Let_def stream_ok_def
        split: list.splits source_item.splits if_splits)
next
  case (Cons b bs)
  assume "iteration s = (r, s')" and ok: "stream_ok s"
  then consider "s' = finish s"
    | "take_byte (s\<lparr>rest := bs\<rparr>) b = (r, s')" "total_bytes s < lim_total_bytes (limits s)"
    using Cons by (auto simp: iteration_def fail_def not_le split: if_splits)
  then show ?thesis
  proof cases
    case 1
    with ok show ?thesis by (simp add: stream_ok_finish)
  next
    case 2
    with ok show ?thesis by (intro take_byte_ok [OF 2(1)]) (simp_all add: stream_ok_def)
  qed
qed

lemma poll_loop_ok: "poll_loop n s = (r, s') \<Longrightarrow> stream_ok s \<Longrightarrow> stream_ok s'"
  by (induction n arbitrary: s) (auto split: prod.splits option.splits dest: iteration_ok)

lemma poll_loop_limits: "poll_loop n s = (r, s') \<Longrightarrow> limits s' = limits s"
  by (induction n arbitrary: s) (auto split: prod.splits option.splits dest: iteration_limits)

fun poll_times :: "nat \<Rightarrow> data_stream \<Rightarrow> data_stream" where
  "poll_times 0 s = s"
| "poll_times (Suc k) s = poll_times k (snd (poll_next s))"

lemma poll_times_ok: "stream_ok s \<Longrightarrow> stream_ok (poll_times k s) \<and> limits (poll_times k s) = limits s"
proof (induction k arbitrary: s)
  case (Suc k)
  have "stream_ok (snd (poll_next s))" "limits (snd (poll_next s)) = limits s"
    using Suc.prems poll_loop_ok [of 65536 s] poll_loop_limits [of 65536 s]
    by (cases "poll_loop 65536 s"; simp add: poll_next_def)+
  with Suc.IH show ?case by simp
qed simp

lemma stream_ok_new: "stream_ok (new_stream src lims)"
  by (simp add: stream_ok_def new_stream_def)

section \<open>The decoded events, declaratively\<close>

text \<open>Line ends are made uniform, the text is cut into complete lines, and the lines are folded
  into events; an unterminated last line and an event without its blank line are dropped.\<close>

fun normalize_eol :: "string \<Rightarrow> string" where
  "normalize_eol [] = []"
| "normalize_eol (a # r) =
     (if a = CR then
        LF # (case r of b # r' \<Rightarrow> if b = LF then normalize_eol r' else normalize_eol r | [] \<Rightarrow> [])
      else a # normalize_eol r)"

fun complete_lines :: "string \<Rightarrow> string \<Rightarrow> string list" where
  "complete_lines acc [] = []"
| "complete_lines acc (a # r) =
     (if a = LF then acc # complete_lines [] r else complete_lines (acc @ [a]) r)"

fun join_lines :: "string list \<Rightarrow> string" where
  "join_lines [] = []"
| "join_lines [v] = v"
| "join_lines (v # vs) = v @ LF # join_lines vs"

fun events_of :: "string list \<Rightarrow> string list \<Rightarrow> string list" where
  "events_of d [] = []"
| "events_of d (l # ls) =
     (if l = [] then (if d = [] then events_of [] ls else join_lines d # events_of [] ls)
      else case data_field l of
             Some v \<Rightarrow> events_of (d @ [v]) ls
           | None \<Rightarrow> events_of d ls)"

definition sse_events :: "string \<Rightarrow> string list" where
  "sse_events bs =
     (case complete_lines [] (normalize_eol bs) of
        [] \<Rightarrow> []
      | l # ls \<Rightarrow> events_of [] (strip_bom l # ls))"

text \<open>The same, one byte at a time, from any state of the decoder.\<close>

definition bom_if :: "bool \<Rightarrow> string list \<Rightarrow> string list" where
  "bom_if b ls = (case ls of [] \<Rightarrow> [] | l # ls' \<Rightarrow> (if b then strip_bom l else l) # ls')"

fun drop_lf :: "bool \<Rightarrow> string \<Rightarrow> string" where
  "drop_lf True (b # bs) = (if b = LF then bs else b # bs)"
| "drop_lf _ bs = bs"

definition events_from :: "bool \<Rightarrow> bool \<Rightarrow> string \<Rightarrow> string list \<Rightarrow> string \<Rightarrow> string list" where
  "events_from cr fl acc d bs =
     events_of d (bom_if fl (complete_lines acc (normalize_eol (drop_lf cr bs))))"

lemma LF_neq_CR [simp]: "LF \<noteq> CR" "CR \<noteq> LF"
  by (simp_all add: LF_def CR_def)

lemma normalize_eol_LF: "normalize_eol (LF # bs) = LF # normalize_eol bs"
  by simp

lemma normalize_eol_CR: "normalize_eol (CR # bs) = LF # normalize_eol (drop_lf True bs)"
  by (cases bs) simp_all

lemma events_from_Nil [simp]: "events_from cr fl acc d [] = []"
  by (simp add: events_from_def bom_if_def)

lemma events_from_skip [simp]: "events_from True fl acc d (LF # bs) = events_from False fl acc d bs"
  by (simp add: events_from_def)

lemma events_from_eol:
  assumes "b = LF \<or> b = CR" and "\<not> (cr \<and> b = LF)"
  shows "events_from cr fl acc d (b # bs) =
    (let l = (if fl then strip_bom acc else acc); go = (\<lambda>d. events_from (b = CR) False [] d bs) in
     if l = [] then (if d = [] then go [] else join_lines d # go [])
     else case data_field l of Some v \<Rightarrow> go (d @ [v]) | None \<Rightarrow> go d)"
proof -
  have bom: "bom_if False ls = ls" for ls by (cases ls) (simp_all add: bom_if_def)
  have "complete_lines acc (normalize_eol (drop_lf cr (b # bs))) =
      acc # complete_lines [] (normalize_eol (drop_lf (b = CR) bs))"
    using assms by (cases cr) (auto simp: normalize_eol_CR normalize_eol_LF simp del: normalize_eol.simps(2))
  then show ?thesis
    by (simp add: events_from_def bom) (auto simp: bom_if_def Let_def split: option.splits)
qed

lemma events_from_char:
  assumes "b \<noteq> LF" and "b \<noteq> CR"
  shows "events_from cr fl acc d (b # bs) = events_from False fl (acc @ [b]) d bs"
  using assms by (cases cr) (simp_all add: events_from_def)

lemma sse_events_from: "sse_events bs = events_from False True [] [] bs"
  by (simp add: sse_events_def events_from_def bom_if_def split: list.splits)

section \<open>The decoder computes the events\<close>

fun chunk_bytes :: "source_item list \<Rightarrow> string" where
  "chunk_bytes [] = []"
| "chunk_bytes (Chunk c # src) = c @ chunk_bytes src"
| "chunk_bytes (_ # src) = chunk_bytes src"

fun chunk_count :: "source_item list \<Rightarrow> nat" where
  "chunk_count [] = 0"
| "chunk_count (Chunk c # src) = Suc (chunk_count src)"
| "chunk_count (_ # src) = chunk_count src"

definition eol_count :: "string \<Rightarrow> nat" where
  "eol_count bs = length (filter (\<lambda>b. b = LF \<or> b = CR) bs)"

abbreviation input :: "data_stream \<Rightarrow> string" where
  "input s \<equiv> rest s @ chunk_bytes (source s)"

text \<open>The input still to come is well-formed and fits the limits; \<open>d\<close> are the data lines of the
  open event.\<close>

definition in_budget :: "string list \<Rightarrow> data_stream \<Rightarrow> bool" where
  "in_budget d s \<longleftrightarrow>
     \<not> finished s \<and> SourceError \<notin> set (source s) \<and>
     event_data s = concat (map (\<lambda>v. v @ [LF]) d) \<and> list_all utf8_valid d \<and>
     utf8_valid (line s @ input s) \<and>
     total_bytes s + length (input s) \<le> lim_total_bytes (limits s) \<and>
     frame_bytes s + length (input s) \<le> lim_frame_bytes (limits s) \<and>
     length (line s) + length (input s) \<le> lim_line_bytes (limits s) \<and>
     frames s + eol_count (input s) \<le> lim_frames (limits s) \<and>
     chunks s + chunk_count (source s) \<le> lim_chunks (limits s)"

definition pending_events :: "string list \<Rightarrow> data_stream \<Rightarrow> string list" where
  "pending_events d s =
     events_from (after_carriage_return s) (first_line s) (line s) d (input s)"

lemma byte_eol: "byte LF < 128" "byte CR < 128"
  by (simp_all add: LF_def CR_def)

lemma join_lines_butlast: "d \<noteq> [] \<Longrightarrow> butlast (concat (map (\<lambda>v. v @ [LF]) d)) = join_lines d"
  by (induction d rule: join_lines.induct) (auto simp: butlast_append)

lemma join_lines_valid: "list_all utf8_valid d \<Longrightarrow> utf8_valid (join_lines d)"
  by (induction d rule: join_lines.induct) (auto simp: utf8_valid_split_ascii byte_eol)

lemma strip_bom_valid: "utf8_valid l \<Longrightarrow> utf8_valid (strip_bom l)"
proof -
  have "utf8_valid BOM" by (simp add: BOM_def utf8_valid.simps cont_byte_def)
  then show "utf8_valid l \<Longrightarrow> utf8_valid (strip_bom l)"
    by (auto simp: strip_bom_def strip_prefix_Some utf8_valid_append split: option.splits)
qed

lemma data_field_valid:
  assumes "utf8_valid l" and "data_field l = Some v"
  shows "utf8_valid v"
proof (cases "split_once (CHR '':'') l")
  case None
  with assms show ?thesis by (auto simp: data_field_def strip_prefix_def starts_with_def split: if_splits)
next
  case (Some fv)
  obtain f w where fv: "fv = (f, w)" by fastforce
  with Some assms have "l = f @ CHR '':'' # w" by (simp add: split_once_Some)
  with assms(1) have w: "utf8_valid w" by (simp add: utf8_valid_split_ascii)
  have "v = w \<or> w = CHR '' '' # v"
    using Some fv assms(2)
    by (auto simp: data_field_def strip_prefix_Some split: option.splits if_splits)
  with w show ?thesis by (auto simp: utf8_valid_ascii)
qed

lemma finish_line_budget:
  assumes "finish_line s = (r, s')" and "in_budget d (s\<lparr>line := []\<rparr>)" and "utf8_valid (line s)"
    and "frames s < lim_frames (limits s)"
    and "frames s + 1 + eol_count (input s) \<le> lim_frames (limits s)"
  defines "l \<equiv> if first_line s then strip_bom (line s) else line s"
  defines "s0 \<equiv> s\<lparr>line := [], first_line := False\<rparr>"
  shows "case r of
      Inr None \<Rightarrow> (if l = [] then d = [] \<and> in_budget [] s' \<and> pending_events [] s' = pending_events [] s0
                   else case data_field l of
                     Some v \<Rightarrow> in_budget (d @ [v]) s' \<and> pending_events (d @ [v]) s' = pending_events (d @ [v]) s0
                   | None \<Rightarrow> in_budget d s' \<and> pending_events d s' = pending_events d s0)
    | Inr (Some e) \<Rightarrow> l = [] \<and> d \<noteq> [] \<and> e = join_lines d \<and> in_budget [] s' \<and>
                      pending_events [] s' = pending_events [] s0
    | Inl _ \<Rightarrow> False"
proof -
  have l: "utf8_valid l" using assms(3) by (simp add: l_def strip_bom_valid)
  have fl: "finish_line s =
     (if l = [] then
        if d = [] then (Inr None, s0\<lparr>frames := frames s + 1, frame_bytes := 0\<rparr>)
        else (Inr (Some (join_lines d)), s0\<lparr>frames := frames s + 1, frame_bytes := 0, event_data := []\<rparr>)
      else (Inr None, (case data_field l of Some v \<Rightarrow> s0\<lparr>event_data := event_data s @ v @ [LF]\<rparr> | None \<Rightarrow> s0)))"
    using assms(2,3,4) join_lines_butlast [of d] join_lines_valid [of d]
    by (auto simp: finish_line_def Let_def l_def s0_def in_budget_def split: option.splits)
  show ?thesis
    using assms(1,2,5) l data_field_valid [OF l]
    by (auto simp: fl s0_def in_budget_def pending_events_def split: if_splits option.splits)
qed

text \<open>What one pass of the loop does to the events still to come.\<close>

fun step_sound :: "string list \<Rightarrow> data_stream \<Rightarrow> item option poll option \<Rightarrow> data_stream \<Rightarrow> bool" where
  "step_sound d s (Some (Ready None)) s' \<longleftrightarrow> finished s' \<and> pending_events d s = []"
| "step_sound d s (Some (Ready (Some (Inl _)))) s' \<longleftrightarrow> False"
| "step_sound d s (Some (Ready (Some (Inr e)))) s' \<longleftrightarrow>
     (\<exists>d'. in_budget d' s' \<and> pending_events d s = e # pending_events d' s')"
| "step_sound d s _ s' \<longleftrightarrow> (\<exists>d'. in_budget d' s' \<and> pending_events d s = pending_events d' s')"

lemma take_byte_char_sound:
  assumes "take_byte (s\<lparr>rest := bs\<rparr>) b = (r, s')" and "in_budget d s" and "rest s = b # bs"
    and "b \<noteq> LF" and "b \<noteq> CR"
  shows "step_sound d s r s'"
proof -
  let ?s' = "s\<lparr>rest := bs, total_bytes := total_bytes s + 1, after_carriage_return := False,
      frame_bytes := frame_bytes s + 1, line := line s @ [b]\<rparr>"
  have "r = None" "s' = ?s'"
    using assms by (auto simp: take_byte_def Let_def in_budget_def fail_def split: if_splits)
  moreover have "in_budget d ?s'" using assms by (auto simp: in_budget_def eol_count_def)
  moreover have "pending_events d s = pending_events d ?s'"
    using assms by (simp add: pending_events_def events_from_char)
  ultimately show ?thesis by auto
qed

lemma take_byte_eol_sound:
  assumes "take_byte (s\<lparr>rest := bs\<rparr>) b = (r, s')" and "in_budget d s" and "rest s = b # bs"
    and "b = LF \<or> b = CR" and "\<not> (after_carriage_return s \<and> b = LF)"
  shows "step_sound d s r s'"
proof -
  define s2 where "s2 = s\<lparr>rest := bs, total_bytes := total_bytes s + 1,
      after_carriage_return := False, frame_bytes := frame_bytes s + 1,
      after_carriage_return := (b = CR)\<rparr>"
  define l where "l = (if first_line s2 then strip_bom (line s2) else line s2)"
  obtain q s3 where q: "finish_line s2 = (q, s3)" by fastforce
  have b: "byte b < 128" using assms(4) byte_eol by auto
  have u: "utf8_valid (line s)" "utf8_valid (input s2)"
    using assms(2,3) b by (auto simp: in_budget_def utf8_valid_split_ascii s2_def)
  have budget: "in_budget d (s2\<lparr>line := []\<rparr>)"
    using assms(2,3,4) u(2) by (auto simp: in_budget_def s2_def eol_count_def)
  have fr: "frames s2 < lim_frames (limits s2)"
    "frames s2 + 1 + eol_count (input s2) \<le> lim_frames (limits s2)"
    using assms(2,3,4) by (auto simp: in_budget_def s2_def eol_count_def)
  have tb: "take_byte (s\<lparr>rest := bs\<rparr>) b =
      (case (q, s3) of
         (Inr (Some event), s3) \<Rightarrow> (Some (Ready (Some (Inr event))), s3)
       | (Inr None, s3) \<Rightarrow> (None, s3)
       | (Inl message, s3) \<Rightarrow> map_prod Some id (fail s3 message))"
    unfolding q [symmetric] using assms(2,3,4,5)
    by (auto simp: take_byte_def s2_def in_budget_def)
  have ev: "pending_events d s =
     (let go = (\<lambda>d. pending_events d (s2\<lparr>line := [], first_line := False\<rparr>)) in
      if l = [] then (if d = [] then go [] else join_lines d # go [])
      else case data_field l of Some v \<Rightarrow> go (d @ [v]) | None \<Rightarrow> go d)"
    using assms(3,4,5) by (simp add: pending_events_def s2_def l_def events_from_eol Let_def)
  from finish_line_budget [OF q budget _ fr] u(1) tb assms(1) ev show ?thesis
    by (auto simp: Let_def l_def s2_def split: sum.splits option.splits if_splits)
qed

lemma take_byte_sound:
  assumes "take_byte (s\<lparr>rest := bs\<rparr>) b = (r, s')" and "in_budget d s" and "rest s = b # bs"
  shows "step_sound d s r s'"
proof (cases "after_carriage_return s \<and> b = LF")
  case True
  let ?s' = "s\<lparr>rest := bs, total_bytes := total_bytes s + 1, after_carriage_return := False\<rparr>"
  have "r = None" "s' = ?s'" using assms True by (auto simp: take_byte_def Let_def)
  moreover have "utf8_valid (line s @ bs @ chunk_bytes (source s))"
    using assms byte_eol True by (auto simp: in_budget_def utf8_valid_split_ascii utf8_valid_append)
  then have "in_budget d ?s'" using assms True by (auto simp: in_budget_def eol_count_def)
  moreover have "pending_events d s = pending_events d ?s'"
    using assms True by (simp add: pending_events_def)
  ultimately show ?thesis by auto
next
  case False
  with assms take_byte_eol_sound take_byte_char_sound show ?thesis by blast
qed

lemma iteration_sound:
  assumes "iteration s = (r, s')" and "in_budget d s"
  shows "step_sound d s r s'"
proof (cases "rest s")
  case (Cons b bs)
  with assms(2) have "total_bytes s < lim_total_bytes (limits s)" by (auto simp: in_budget_def)
  with Cons assms(1) have "take_byte (s\<lparr>rest := bs\<rparr>) b = (r, s')" by (simp add: iteration_def)
  then show ?thesis using assms(2) Cons by (rule take_byte_sound)
next
  case Nil
  show ?thesis
  proof (cases "source s")
    case Nil
    have "utf8_valid (line s)" using assms(2) Nil \<open>rest s = []\<close> by (simp add: in_budget_def)
    with assms(1) Nil \<open>rest s = []\<close> show ?thesis
      by (auto simp: iteration_def pending_events_def)
  next
    case (Cons x src)
    show ?thesis
    proof (cases x)
      case (Chunk c)
      let ?s' = "s\<lparr>source := src, chunks := chunks s + 1, rest := c\<rparr>"
      have "r = None" "s' = ?s'"
        using assms Nil Cons Chunk
        by (auto simp: iteration_def Let_def in_budget_def fail_def split: if_splits)
      moreover have "in_budget d ?s'" "pending_events d s = pending_events d ?s'"
        using assms(2) Nil Cons Chunk by (auto simp: in_budget_def pending_events_def)
      ultimately show ?thesis by auto
    next
      case SourceError
      with Cons assms(2) show ?thesis by (simp add: in_budget_def)
    next
      case SourcePending
      have "in_budget d (s\<lparr>source := src\<rparr>)" "pending_events d s = pending_events d (s\<lparr>source := src\<rparr>)"
        using assms(2) Nil Cons SourcePending by (auto simp: in_budget_def pending_events_def)
      with assms(1) Nil Cons SourcePending show ?thesis by (auto simp: iteration_def)
    qed
  qed
qed

lemma drain_sound: "in_budget d s \<Longrightarrow> drain s = map Inr (pending_events d s)"
proof (induction s arbitrary: d rule: drain.induct)
  case (1 s)
  have nf: "\<not> finished s" using "1.prems" by (simp add: in_budget_def)
  obtain r s' where it: "iteration s = (r, s')" by fastforce
  from iteration_sound [OF it "1.prems"] have "step_sound d s r s'" .
  then show ?case
    using "1.IH" [OF nf it [symmetric]] nf it
    by (cases "(d, s, r, s')" rule: step_sound.cases) (auto simp: drain.simps [of s])
qed

section \<open>Encoded events\<close>

text \<open>How a payload without line ends travels: one \<open>data\<close> line and a blank line.\<close>

definition data_frame :: "string \<Rightarrow> string" where
  "data_frame p = ''data: '' @ p @ [LF, LF]"

definition single_line :: "string \<Rightarrow> bool" where
  "single_line p \<longleftrightarrow> LF \<notin> set p \<and> CR \<notin> set p"

lemma events_from_text:
  "single_line xs \<Longrightarrow> events_from False fl acc d (xs @ bs) = events_from False fl (acc @ xs) d bs"
  by (induction xs arbitrary: acc) (auto simp: single_line_def events_from_char)

lemma data_field_data: "data_field (''data: '' @ p) = Some p"
  by (simp add: data_field_def strip_prefix_def starts_with_def)

lemma strip_bom_data: "strip_bom (''data: '' @ p) = ''data: '' @ p"
  by (simp add: strip_bom_def strip_prefix_def starts_with_def BOM_def)

lemma events_from_frame:
  assumes "single_line p"
  shows "events_from False fl [] [] (data_frame p @ bs) = p # events_from False False [] [] bs"
proof -
  have plain: "single_line (''data: '' @ p)" using assms by (simp add: single_line_def LF_def CR_def)
  have "data_frame p @ bs = (''data: '' @ p) @ [LF, LF] @ bs" by (simp add: data_frame_def)
  then have "events_from False fl [] [] (data_frame p @ bs) =
      events_from False fl (''data: '' @ p) [] (LF # LF # bs)"
    using events_from_text [OF plain] by simp
  also have "\<dots> = events_from False False [] [p] (LF # bs)"
    using data_field_data [of p] strip_bom_data [of p] by (simp add: events_from_eol Let_def)
  also have "\<dots> = p # events_from False False [] [] bs"
    by (simp add: events_from_eol Let_def)
  finally show ?thesis .
qed

lemma sse_events_frames:
  "list_all single_line ps \<Longrightarrow> sse_events (concat (map data_frame ps)) = ps"
proof -
  have "list_all single_line ps \<Longrightarrow> events_from False fl [] [] (concat (map data_frame ps)) = ps" for fl
    by (induction ps arbitrary: fl) (simp_all add: events_from_frame)
  then show "list_all single_line ps \<Longrightarrow> sse_events (concat (map data_frame ps)) = ps"
    by (simp add: sse_events_from)
qed

section \<open>Properties\<close>

text \<open>The limits a source respects.\<close>

definition fits :: "stream_limits \<Rightarrow> source_item list \<Rightarrow> bool" where
  "fits lims src \<longleftrightarrow>
     SourceError \<notin> set src \<and> utf8_valid (chunk_bytes src) \<and>
     length (chunk_bytes src) \<le> lim_total_bytes lims \<and>
     length (chunk_bytes src) \<le> lim_frame_bytes lims \<and>
     length (chunk_bytes src) \<le> lim_line_bytes lims \<and>
     eol_count (chunk_bytes src) \<le> lim_frames lims \<and> chunk_count src \<le> lim_chunks lims"

lemma fits_in_budget: "fits lims src \<Longrightarrow> in_budget [] (new_stream src lims)"
  by (simp add: fits_def in_budget_def new_stream_def)

lemma drain_fits: "fits lims src \<Longrightarrow> drain (new_stream src lims) = map Inr (sse_events (chunk_bytes src))"
  using drain_sound [OF fits_in_budget]
  by (simp add: pending_events_def new_stream_def sse_events_from)





text \<open>Bounded memory. After any number of polls of a fresh stream, whatever the source
  sends, every counter is within its limit, and the bytes retained for the open line and the
  open event together never exceed the frame limit.\<close>

lemma decoder_bounded:
  fixes src :: "source_item list" and lims :: stream_limits
  defines "s \<equiv> \<lambda>k. poll_times k (new_stream src lims)"
  shows "total_bytes (s k) \<le> lim_total_bytes lims \<and> frames (s k) \<le> lim_frames lims \<and>
    chunks (s k) \<le> lim_chunks lims \<and> length (line (s k)) \<le> lim_line_bytes lims \<and>
    length (event_data (s k)) + length (line (s k)) \<le> lim_frame_bytes lims"
proof -
  have "stream_ok (s k)" "limits (s k) = lims"
    using poll_times_ok [OF stream_ok_new, of k src lims] by (simp_all add: s_def new_stream_def)
  then show ?thesis by (auto simp: stream_ok_def)
qed

lemma poll_next_progress:
  assumes "\<not> finished s"
  shows "remaining (snd (poll_next s)) < remaining s"
proof -
  obtain r s' where it: "iteration s = (r, s')" by fastforce
  have dec: "remaining s' < remaining s" using it assms by (rule iteration_decreases)
  have le: "remaining (snd (poll_loop n t)) \<le> remaining t" for n t
  proof (induction n arbitrary: t)
    case (Suc n)
    obtain q u where iu: "iteration t = (q, u)" by fastforce
    have "remaining u \<le> remaining t"
    proof (cases "finished t")
      case False
      with iteration_decreases [OF iu] show ?thesis by simp
    next
      case True
      with iu show ?thesis
        by (auto simp: iteration_def remaining_def fail_def Let_def take_byte_def
            split: list.splits source_item.splits if_splits prod.splits sum.splits option.splits
            dest!: finish_line_frame)
    qed
    with Suc.IH [of u] iu show ?case by (simp split: option.split)
  qed simp
  have "poll_next s = poll_loop (Suc 65535) s" using assms by (simp add: poll_next_def)
  also have "\<dots> = (case r of Some q \<Rightarrow> (q, s') | None \<Rightarrow> poll_loop 65535 s')"
    by (simp only: poll_loop.simps it prod.case)
  finally show ?thesis using dec le [of 65535 s'] by (cases r) simp_all
qed

text \<open>C5. Polling ends. Every poll of an unfinished stream yields the next item of
  \<open>drain\<close> or none, leaves the remaining items to the next poll, and uses up input, so that
  after at most \<open>remaining s\<close> polls the stream is finished.\<close>

theorem polling_terminates:
  "(\<not> finished s \<longrightarrow>
      drain s = (case fst (poll_next s) of
          Ready (Some x) \<Rightarrow> x # drain (snd (poll_next s))
        | _ \<Rightarrow> drain (snd (poll_next s)))) \<and>
   (\<exists>k \<le> remaining s. finished (poll_times k s))"
proof
  show "\<not> finished s \<longrightarrow> drain s = (case fst (poll_next s) of
      Ready (Some x) \<Rightarrow> x # drain (snd (poll_next s)) | _ \<Rightarrow> drain (snd (poll_next s)))"
  proof
    assume nf: "\<not> finished s"
    obtain r s' where p: "poll_loop 65536 s = (r, s')" by fastforce
    with nf have "poll_next s = (r, s')" by (simp add: poll_next_def)
    with poll_loop_drain [OF p nf] show "drain s = (case fst (poll_next s) of
      Ready (Some x) \<Rightarrow> x # drain (snd (poll_next s)) | _ \<Rightarrow> drain (snd (poll_next s)))"
      by (simp split: poll.split option.split)
  qed
  show "\<exists>k \<le> remaining s. finished (poll_times k s)"
  proof (induction "remaining s" arbitrary: s rule: less_induct)
    case less
    show ?case
    proof (cases "finished s")
      case True
      then show ?thesis by (intro exI [of _ 0]) simp
    next
      case False
      then have lt: "remaining (snd (poll_next s)) < remaining s" by (rule poll_next_progress)
      then obtain k where "k \<le> remaining (snd (poll_next s))" "finished (poll_times k (snd (poll_next s)))"
        using less by blast
      with lt show ?thesis by (intro exI [of _ "Suc k"]) simp
    qed
  qed
qed

lemma polling_terminates_witness:
  "\<exists>k \<le> 3. finished (poll_times k (new_stream [Chunk ''a''] default_stream_limits))"
proof -
  have "remaining (new_stream [Chunk ''a''] default_stream_limits) = 3"
    by (simp add: remaining_def new_stream_def)
  with polling_terminates [of "new_stream [Chunk ''a''] default_stream_limits"] show ?thesis
    by (simp only: simp_thms)
qed

end
