(* ===== verification/F64.thy ===== *)
theory F64
  imports Prelude
begin

text \<open>
  Rust's \<open>f64\<close>: IEEE 754 binary64 with round-to-nearest-even. A finite value is the rational
  number it denotes (the two zeros are one value, which no code modelled here distinguishes);
  every arithmetic operation is the exact operation followed by \<open>round_f64\<close>, with the
  overflow to infinity, and the NaN rules of the standard. The lemmas of interest are that
  rounding is monotone and that it is the identity on the integers up to \<open>2 ^ 53\<close>.
\<close>

datatype f64 = Fin rat | Inf bool | NaN

section \<open>Rounding\<close>

definition round_half_even :: "rat \<Rightarrow> int" where
  "round_half_even x =
     (let f = \<lfloor>x\<rfloor>; d = x - of_int f in
      if d < 1 / 2 then f else if d > 1 / 2 then f + 1 else if even f then f else f + 1)"

fun bit_length :: "nat \<Rightarrow> nat" where
  "bit_length n = (if n = 0 then 0 else Suc (bit_length (n div 2)))"

declare bit_length.simps [simp del]

text \<open>The exponent of the unit in the last place of a positive rational.\<close>

definition ulp_exp :: "rat \<Rightarrow> int" where
  "ulp_exp x =
     (let (p, q) = quotient_of x;
          k = int (bit_length (nat p)) - int (bit_length (nat q)) - 53
      in max (-1074) (if x < 2 powi (k + 53) then k else k + 1))"

definition round_pos :: "rat \<Rightarrow> rat" where
  "round_pos x = (let u = 2 powi (ulp_exp x) in of_int (round_half_even (x / u)) * u)"

definition round_rat :: "rat \<Rightarrow> rat" where
  "round_rat x = (if x = 0 then 0 else if 0 < x then round_pos x else - round_pos (- x))"

definition round_f64 :: "rat \<Rightarrow> f64" where
  "round_f64 x = (let r = round_rat x in if \<bar>r\<bar> \<ge> 2 ^ 1024 then Inf (r < 0) else Fin r)"

lemma round_half_even_of_int [simp]: "round_half_even (of_int n) = n"
  by (simp add: round_half_even_def Let_def)

lemma round_half_even_cases: "round_half_even x = \<lfloor>x\<rfloor> \<or> round_half_even x = \<lfloor>x\<rfloor> + 1"
  by (simp add: round_half_even_def Let_def)

lemma round_half_even_mono:
  assumes "x \<le> y"
  shows "round_half_even x \<le> round_half_even y"
proof (cases "\<lfloor>x\<rfloor> = \<lfloor>y\<rfloor>")
  case True
  with assms show ?thesis by (auto simp: round_half_even_def Let_def)
next
  case False
  with assms have "\<lfloor>x\<rfloor> + 1 \<le> \<lfloor>y\<rfloor>" using floor_mono [of x y] by simp
  then show ?thesis using round_half_even_cases [of x] round_half_even_cases [of y] by linarith
qed

lemma round_half_even_ge: "of_int n \<le> x \<Longrightarrow> n \<le> round_half_even x"
  using round_half_even_mono [of "of_int n" x] by simp

lemma round_half_even_le: "x \<le> of_int n \<Longrightarrow> round_half_even x \<le> n"
  using round_half_even_mono [of x "of_int n"] by simp

lemma bit_length_0 [simp]: "bit_length 0 = 0"
  by (simp add: bit_length.simps)

lemma bit_length_upper: "n < 2 ^ bit_length n"
proof (induction n rule: bit_length.induct)
  case (1 n)
  then show ?case by (cases "n = 0") (simp_all add: bit_length.simps [of n])
qed

lemma bit_length_lower: "0 < n \<Longrightarrow> 2 ^ bit_length n \<le> 2 * n"
proof (induction n rule: bit_length.induct)
  case (1 n)
  show ?case
  proof (cases "n div 2 = 0")
    case True
    with 1 have "n = 1" by simp
    then show ?thesis by (simp add: bit_length.simps)
  next
    case False
    with 1 have "2 ^ bit_length (n div 2) \<le> 2 * (n div 2)" by simp
    with 1 show ?thesis by (simp add: bit_length.simps [of n])
  qed
qed

text \<open>Between two powers of two: the quotient of the two bit lengths.\<close>

lemma quotient_bits:
  assumes "0 < x" and "quotient_of x = (p, q)"
  defines "e \<equiv> int (bit_length (nat p)) - int (bit_length (nat q))"
  shows "x < 2 powi (e + 1)" and "2 powi (e - 1) \<le> x"
proof -
  from assms(2) have q: "0 < q" by (rule quotient_of_denom_pos)
  have x: "x = of_int p / of_int q" using assms(2) by (rule quotient_of_div)
  with assms(1) q have p: "0 < p" by (simp add: zero_less_divide_iff)
  let ?P = "2 ^ bit_length (nat p) :: rat" and ?Q = "2 ^ bit_length (nat q) :: rat"
  have "nat p < 2 ^ bit_length (nat p)" "nat q < 2 ^ bit_length (nat q)"
    by (rule bit_length_upper)+
  then have up: "rat_of_nat (nat p) < ?P" "rat_of_nat (nat q) < ?Q"
    by (metis of_nat_less_iff of_nat_numeral of_nat_power)+
  have "2 ^ bit_length (nat p) \<le> 2 * nat p" "2 ^ bit_length (nat q) \<le> 2 * nat q"
    using p q bit_length_lower by simp_all
  then have lo: "?P \<le> 2 * rat_of_nat (nat p)" "?Q \<le> 2 * rat_of_nat (nat q)"
    by (metis of_nat_le_iff of_nat_numeral of_nat_power of_nat_mult)+
  have e: "2 powi e = ?P / ?Q" by (simp add: e_def power_int_diff)
  have pq: "rat_of_nat (nat p) = of_int p" "rat_of_nat (nat q) = of_int q"
    using p q by simp_all
  have "of_int p * ?Q < ?P * (2 * of_int q)"
    using up(1) lo(2) p q unfolding pq by (intro mult_less_le_imp_less) auto
  then show "x < 2 powi (e + 1)"
    using q by (simp add: x e power_int_add field_simps)
  have "?P * of_int q \<le> 2 * of_int p * ?Q"
    using up(2) lo(1) p q unfolding pq by (intro mult_mono) auto
  then show "2 powi (e - 1) \<le> x"
    using q by (simp add: x e power_int_diff field_simps)
qed

lemma ulp_exp_upper: "0 < x \<Longrightarrow> x < 2 powi (ulp_exp x + 53)"
proof -
  assume x: "0 < x"
  obtain p q where pq: "quotient_of x = (p, q)" by fastforce
  define e where "e = int (bit_length (nat p)) - int (bit_length (nat q))"
  have u: "ulp_exp x = max (-1074) (if x < 2 powi e then e - 53 else e - 52)"
    by (simp add: ulp_exp_def pq e_def Let_def)
  have "x < 2 powi (e + 1)" unfolding e_def by (rule quotient_bits [OF x pq])
  then have "x < 2 powi ((if x < 2 powi e then e - 53 else e - 52) + 53)"
    by (simp add: add.commute)
  also have "\<dots> \<le> 2 powi (ulp_exp x + 53)"
    unfolding u by (intro power_int_increasing) auto
  finally show ?thesis .
qed

lemma ulp_exp_lower: "0 < x \<Longrightarrow> ulp_exp x = - 1074 \<or> 2 powi (ulp_exp x + 52) \<le> x"
proof -
  assume x: "0 < x"
  obtain p q where pq: "quotient_of x = (p, q)" by fastforce
  define e where "e = int (bit_length (nat p)) - int (bit_length (nat q))"
  have u: "ulp_exp x = max (-1074) (if x < 2 powi e then e - 53 else e - 52)"
    by (simp add: ulp_exp_def pq e_def Let_def)
  have "2 powi (e - 1) \<le> x" unfolding e_def by (rule quotient_bits [OF x pq])
  then show ?thesis unfolding u by (auto simp: max_def)
qed

lemma ulp_exp_ge: "- 1074 \<le> ulp_exp x"
  by (simp add: ulp_exp_def Let_def split: prod.splits)

lemma ulp_exp_mono:
  assumes "0 < x" and "x \<le> y"
  shows "ulp_exp x \<le> ulp_exp y"
proof (rule ccontr)
  assume less: "\<not> ulp_exp x \<le> ulp_exp y"
  with ulp_exp_ge [of y] have "2 powi (ulp_exp x + 52) \<le> x"
    using ulp_exp_lower [OF assms(1)] by linarith
  also have "\<dots> \<le> y" by fact
  also have "y < 2 powi (ulp_exp y + 53)" using assms by (intro ulp_exp_upper) linarith
  also have "\<dots> \<le> 2 powi (ulp_exp x + 52)"
    using less by (intro power_int_increasing) auto
  finally show False by simp
qed

text \<open>A multiple of the unit in the last place is a fixed point, and rounding respects it.\<close>

lemma round_pos_ge:
  assumes "0 < x" and "of_int n * 2 powi (ulp_exp x) \<le> x"
  shows "of_int n * 2 powi (ulp_exp x) \<le> round_pos x"
proof -
  from assms(2) have "of_int n \<le> x / 2 powi (ulp_exp x)" by (simp add: field_simps)
  then have "n \<le> round_half_even (x / 2 powi (ulp_exp x))" by (rule round_half_even_ge)
  then show ?thesis by (simp add: round_pos_def Let_def)
qed

lemma round_pos_le:
  assumes "0 < x" and "x \<le> of_int n * 2 powi (ulp_exp x)"
  shows "round_pos x \<le> of_int n * 2 powi (ulp_exp x)"
proof -
  from assms(2) have "x / 2 powi (ulp_exp x) \<le> of_int n" by (simp add: field_simps)
  then have "round_half_even (x / 2 powi (ulp_exp x)) \<le> n" by (rule round_half_even_le)
  then show ?thesis by (simp add: round_pos_def Let_def)
qed

lemma round_pos_exact:
  assumes "0 < x" and "x = of_int n * 2 powi (ulp_exp x)"
  shows "round_pos x = x"
  using round_pos_ge [of x n] round_pos_le [of x n] assms by simp

lemma round_pos_mono:
  assumes "0 < x" and "x \<le> y"
  shows "round_pos x \<le> round_pos y"
proof (cases "ulp_exp x = ulp_exp y")
  case True
  have "x / 2 powi (ulp_exp y) \<le> y / 2 powi (ulp_exp y)"
    using assms(2) by (simp add: divide_right_mono)
  then show ?thesis
    using True round_half_even_mono by (simp add: round_pos_def Let_def)
next
  case False
  let ?k = "ulp_exp x" and ?l = "ulp_exp y"
  from False assms ulp_exp_mono have less: "?k < ?l" by fastforce
  from assms have y: "0 < y" by simp
  have "x \<le> of_int (2 ^ 53) * 2 powi ?k"
    using ulp_exp_upper [OF assms(1)] by (simp add: power_int_add)
  then have "round_pos x \<le> of_int (2 ^ 53) * 2 powi ?k" by (rule round_pos_le [OF assms(1)])
  also have "\<dots> = 2 powi (?k + 53)" by (simp add: power_int_add)
  also have "\<dots> \<le> 2 powi (?l + 52)" using less by (intro power_int_increasing) auto
  also have "\<dots> = of_int (2 ^ 52) * 2 powi ?l" by (simp add: power_int_add)
  also have "\<dots> \<le> round_pos y"
  proof (rule round_pos_ge [OF y])
    show "of_int (2 ^ 52) * 2 powi ?l \<le> y"
      using ulp_exp_lower [OF y] less ulp_exp_ge [of x] by (auto simp: power_int_add)
  qed
  finally show ?thesis .
qed

lemma round_pos_nonneg: "0 < x \<Longrightarrow> 0 \<le> round_pos x"
  using round_pos_ge [of x 0] by simp

lemma round_rat_mono: "x \<le> y \<Longrightarrow> round_rat x \<le> round_rat y"
proof -
  assume le: "x \<le> y"
  consider "0 < x" | "x \<le> 0" "0 \<le> y" | "y < 0" by linarith
  then show ?thesis
  proof cases
    case 1
    with le show ?thesis by (simp add: round_rat_def round_pos_mono)
  next
    case 2
    then show ?thesis using round_pos_nonneg [of y] round_pos_nonneg [of "- x"]
      by (auto simp: round_rat_def intro: order_trans [of _ 0])
  next
    case 3
    with le show ?thesis using round_pos_mono [of "- y" "- x"] by (simp add: round_rat_def)
  qed
qed

lemma round_rat_0 [simp]: "round_rat 0 = 0"
  by (simp add: round_rat_def)

lemma round_rat_nonneg: "0 \<le> x \<Longrightarrow> 0 \<le> round_rat x"
  using round_rat_mono [of 0 x] by simp

lemma round_rat_uminus [simp]: "round_rat (- x) = - round_rat x"
  by (simp add: round_rat_def)

text \<open>Numbers with at most 53 significant bits are not rounded.\<close>

lemma round_pos_dyadic:
  assumes "0 < m" and "m \<le> 2 ^ 53" and "- 1074 \<le> j"
  shows "round_pos (of_int m * 2 powi j) = of_int m * 2 powi j"
proof -
  let ?x = "of_int m * 2 powi j :: rat"
  let ?k = "ulp_exp ?x"
  have x: "0 < ?x" using assms(1) by simp
  show ?thesis
  proof (cases "?k \<le> j")
    case True
    have "2 powi j = (2 ^ nat (j - ?k) * 2 powi ?k :: rat)"
      using True by (simp add: power_int_add [symmetric] flip: power_int_of_nat)
    then have "?x = of_int (m * 2 ^ nat (j - ?k)) * 2 powi ?k" by simp
    then show ?thesis by (rule round_pos_exact [OF x])
  next
    case False
    have "2 powi (?k + 52) \<le> ?x" using ulp_exp_lower [OF x] False assms(3) by linarith
    moreover have mx: "?x \<le> 2 powi (j + 53)"
    proof -
      have "rat_of_int m \<le> of_int (2 ^ 53)" using assms(2) by (rule of_int_le_iff [THEN iffD2])
      then have "rat_of_int m * 2 powi j \<le> of_int (2 ^ 53) * 2 powi j" by (rule mult_right_mono) simp
      then show ?thesis by (simp add: power_int_add)
    qed
    ultimately have "(2 :: rat) powi (?k + 52) \<le> 2 powi (j + 53)" by linarith
    then have "\<not> j + 53 < ?k + 52" using power_int_strict_increasing [of "j + 53" "?k + 52" "2 :: rat"] by linarith
    with False have k: "?k = j + 1" by linarith
    with \<open>2 powi (?k + 52) \<le> ?x\<close> mx have "?x = 2 powi (j + 53)" by (simp add: add.commute)
    also have "\<dots> = of_int (2 ^ 52) * 2 powi ?k" by (simp add: k power_int_add)
    finally show ?thesis by (rule round_pos_exact [OF x])
  qed
qed

lemma round_rat_dyadic:
  assumes "\<bar>m\<bar> \<le> 2 ^ 53" and "- 1074 \<le> j"
  shows "round_rat (of_int m * 2 powi j) = of_int m * 2 powi j"
proof -
  consider "m = 0" | "0 < m" | "m < 0" by linarith
  then show ?thesis
  proof cases
    case 3
    have "round_rat (of_int (- m) * 2 powi j) = of_int (- m) * 2 powi j"
      using 3 assms round_pos_dyadic [of "- m" j] mult_neg_pos [of "rat_of_int m" "2 powi j"]
      by (simp add: round_rat_def)
    then show ?thesis by simp
  qed (use assms round_pos_dyadic in \<open>simp_all add: round_rat_def\<close>)
qed

lemma round_rat_int: "\<bar>m\<bar> \<le> 2 ^ 53 \<Longrightarrow> round_rat (of_int m) = of_int m"
  using round_rat_dyadic [of m 0] by simp

lemma round_rat_nat: "n \<le> 2 ^ 53 \<Longrightarrow> round_rat (of_nat n) = of_nat n"
  using round_rat_int [of "int n"] by simp

section \<open>Arithmetic\<close>

fun f64_neg :: "f64 \<Rightarrow> f64" where
  "f64_neg (Fin a) = Fin (- a)"
| "f64_neg (Inf s) = Inf (\<not> s)"
| "f64_neg NaN = NaN"

fun f64_add :: "f64 \<Rightarrow> f64 \<Rightarrow> f64" where
  "f64_add (Fin a) (Fin b) = round_f64 (a + b)"
| "f64_add (Fin _) (Inf s) = Inf s"
| "f64_add (Inf s) (Fin _) = Inf s"
| "f64_add (Inf s) (Inf t) = (if s = t then Inf s else NaN)"
| "f64_add _ _ = NaN"

definition f64_sub :: "f64 \<Rightarrow> f64 \<Rightarrow> f64" where
  "f64_sub a b = f64_add a (f64_neg b)"

fun f64_mul :: "f64 \<Rightarrow> f64 \<Rightarrow> f64" where
  "f64_mul (Fin a) (Fin b) = round_f64 (a * b)"
| "f64_mul (Fin a) (Inf s) = (if a = 0 then NaN else Inf ((a < 0) \<noteq> s))"
| "f64_mul (Inf s) (Fin b) = (if b = 0 then NaN else Inf ((b < 0) \<noteq> s))"
| "f64_mul (Inf s) (Inf t) = Inf (s \<noteq> t)"
| "f64_mul _ _ = NaN"

fun f64_div :: "f64 \<Rightarrow> f64 \<Rightarrow> f64" where
  "f64_div (Fin a) (Fin b) =
     (if b = 0 then (if a = 0 then NaN else Inf (a < 0)) else round_f64 (a / b))"
| "f64_div (Fin _) (Inf _) = Fin 0"
| "f64_div (Inf s) (Fin b) = Inf ((b < 0) \<noteq> s)"
| "f64_div _ _ = NaN"

fun f64_le :: "f64 \<Rightarrow> f64 \<Rightarrow> bool" where
  "f64_le (Fin a) (Fin b) \<longleftrightarrow> a \<le> b"
| "f64_le (Fin _) (Inf s) \<longleftrightarrow> \<not> s"
| "f64_le (Inf s) (Fin _) \<longleftrightarrow> s"
| "f64_le (Inf s) (Inf t) \<longleftrightarrow> s \<or> \<not> t"
| "f64_le _ _ \<longleftrightarrow> False"

fun f64_lt :: "f64 \<Rightarrow> f64 \<Rightarrow> bool" where
  "f64_lt (Fin a) (Fin b) \<longleftrightarrow> a < b"
| "f64_lt (Fin _) (Inf s) \<longleftrightarrow> \<not> s"
| "f64_lt (Inf s) (Fin _) \<longleftrightarrow> s"
| "f64_lt (Inf s) (Inf t) \<longleftrightarrow> s \<and> \<not> t"
| "f64_lt _ _ \<longleftrightarrow> False"

definition f64_min :: "f64 \<Rightarrow> f64 \<Rightarrow> f64" where
  "f64_min a b = (if a = NaN then b else if b = NaN then a else if f64_lt b a then b else a)"

definition f64_max :: "f64 \<Rightarrow> f64 \<Rightarrow> f64" where
  "f64_max a b = (if a = NaN then b else if b = NaN then a else if f64_lt a b then b else a)"

fun is_finite :: "f64 \<Rightarrow> bool" where
  "is_finite (Fin _) \<longleftrightarrow> True"
| "is_finite _ \<longleftrightarrow> False"

fun f64_floor :: "f64 \<Rightarrow> f64" where
  "f64_floor (Fin a) = Fin (of_int \<lfloor>a\<rfloor>)"
| "f64_floor x = x"

fun f64_ceil :: "f64 \<Rightarrow> f64" where
  "f64_ceil (Fin a) = Fin (of_int \<lceil>a\<rceil>)"
| "f64_ceil x = x"

text \<open>Conversions: \<open>n as f64\<close> rounds, \<open>x as u64\<close> and \<open>x as u128\<close> truncate and saturate.\<close>

definition f64_of_nat :: "nat \<Rightarrow> f64" where
  "f64_of_nat n = round_f64 (of_nat n)"

fun f64_as_uint :: "nat \<Rightarrow> f64 \<Rightarrow> nat" where
  "f64_as_uint hi (Fin a) = min hi (nat \<lfloor>a\<rfloor>)"
| "f64_as_uint hi (Inf s) = (if s then 0 else hi)"
| "f64_as_uint hi NaN = 0"

text \<open>
  \<open>Duration::as_secs_f64\<close> is \<open>secs as f64 + nanos as f64 / 1e9\<close>; \<open>Duration::from_secs_f64\<close>
  rounds to the nearest nanosecond, ties to even, and panics (\<open>None\<close>) on a negative, non-finite
  or too large argument.
\<close>

definition as_secs_f64 :: "duration \<Rightarrow> f64" where
  "as_secs_f64 d =
     f64_add (f64_of_nat (d div nanos_per_sec))
       (f64_div (f64_of_nat (d mod nanos_per_sec)) (f64_of_nat nanos_per_sec))"

fun from_secs_f64 :: "f64 \<Rightarrow> duration option" where
  "from_secs_f64 (Fin a) =
     (let n = round_half_even (a * of_nat nanos_per_sec) in
      if a < 0 \<or> n \<ge> 2 ^ 64 * int nanos_per_sec then None else Some (nat n))"
| "from_secs_f64 _ = None"

section \<open>Order and monotonicity\<close>

lemma f64_le_refl [simp]: "f64_le x x \<longleftrightarrow> x \<noteq> NaN"
  by (cases x) auto

lemma f64_le_trans [trans]: "f64_le x y \<Longrightarrow> f64_le y z \<Longrightarrow> f64_le x z"
  by (cases x; cases y; cases z) auto

lemma f64_not_le: "x \<noteq> NaN \<Longrightarrow> y \<noteq> NaN \<Longrightarrow> \<not> f64_le x y \<longleftrightarrow> f64_lt y x"
  by (cases x; cases y) auto

lemma f64_lt_imp_le: "f64_lt x y \<Longrightarrow> f64_le x y"
  by (cases x; cases y) auto

lemma f64_le_NaN [simp]: "\<not> f64_le x NaN" "\<not> f64_le NaN x"
  by (cases x; simp)+

lemma round_f64_neq_NaN [simp]: "round_f64 x \<noteq> NaN"
  by (simp add: round_f64_def Let_def)

lemma round_f64_mono: "x \<le> y \<Longrightarrow> f64_le (round_f64 x) (round_f64 y)"
  using round_rat_mono [of x y] by (auto simp: round_f64_def Let_def)

lemma round_f64_exact: "round_rat x = x \<Longrightarrow> \<bar>x\<bar> < 2 ^ 1024 \<Longrightarrow> round_f64 x = Fin x"
  by (simp add: round_f64_def Let_def)

lemma round_f64_0 [simp]: "round_f64 0 = Fin 0"
  by (simp add: round_f64_def)

lemma round_f64_nonneg: "0 \<le> x \<Longrightarrow> f64_le (Fin 0) (round_f64 x)"
  using round_f64_mono [of 0 x] by simp

lemma pow_53_less: "(2 :: rat) ^ 53 < 2 ^ 1024"
  by (rule power_strict_increasing) simp_all

lemma f64_of_nat_exact: "n \<le> 2 ^ 53 \<Longrightarrow> f64_of_nat n = Fin (of_nat n)"
proof -
  assume n: "n \<le> 2 ^ 53"
  then have "rat_of_nat n \<le> of_nat (2 ^ 53)" by (rule of_nat_le_iff [THEN iffD2])
  then have "rat_of_nat n < 2 ^ 1024" using pow_53_less by simp
  with n show ?thesis by (simp add: f64_of_nat_def round_f64_exact round_rat_nat)
qed

lemma f64_of_nat_mono: "m \<le> n \<Longrightarrow> f64_le (f64_of_nat m) (f64_of_nat n)"
  by (simp add: f64_of_nat_def round_f64_mono)

lemma f64_of_nat_nonneg [simp]: "f64_le (Fin 0) (f64_of_nat n)"
  by (simp add: f64_of_nat_def round_f64_nonneg)

lemma f64_of_nat_0 [simp]: "f64_of_nat 0 = Fin 0"
  by (simp add: f64_of_nat_def)

lemma f64_add_neq_NaN:
  "f64_le (Fin 0) a \<Longrightarrow> f64_le (Fin 0) b \<Longrightarrow> f64_le (Fin 0) (f64_add a b)"
  by (cases a; cases b) (auto intro: round_f64_nonneg)

lemma f64_add_mono:
  assumes "f64_le (Fin 0) a" "f64_le a a'" "f64_le (Fin 0) b" "f64_le b b'"
  shows "f64_le (f64_add a b) (f64_add a' b')"
proof -
  have round_le_Inf: "f64_le (round_f64 x) (Inf False)" for x
    by (simp add: round_f64_def Let_def)
  from assms show ?thesis
    by (cases a; cases a'; cases b; cases b') (auto intro: round_f64_mono round_le_Inf)
qed

lemma f64_mul_mono:
  assumes "0 \<le> a" and "a \<le> a'" and "0 \<le> b" and "b \<le> b'"
  shows "f64_le (f64_mul (Fin a) (Fin b)) (f64_mul (Fin a') (Fin b'))"
  using assms by (auto intro!: round_f64_mono mult_mono)

lemma f64_div_mono:
  assumes "f64_le a a'" and "0 < c"
  shows "f64_le (f64_div a (Fin c)) (f64_div a' (Fin c))"
proof -
  have "f64_le (round_f64 x) (Inf False)" "f64_le (Inf True) (round_f64 x)" for x
    by (simp_all add: round_f64_def Let_def)
  with assms show ?thesis
    by (cases a; cases a') (auto intro!: round_f64_mono divide_right_mono)
qed

lemma f64_min_le: "a \<noteq> NaN \<Longrightarrow> b \<noteq> NaN \<Longrightarrow> f64_le (f64_min a b) a \<and> f64_le (f64_min a b) b"
  by (cases a; cases b) (auto simp: f64_min_def)

lemma f64_of_nat_u64:
  assumes "n \<le> u64_max"
  shows "\<exists>q \<ge> 0. f64_of_nat n = Fin q"
proof -
  have pow: "of_int 1 * 2 powi 64 = (2 ^ 64 :: rat)" by (simp add: power_int_def)
  have "n \<le> 2 ^ 64" using assms by (simp add: u64_max_def)
  then have "rat_of_nat n \<le> of_nat (2 ^ 64)" by (rule of_nat_le_iff [THEN iffD2])
  then have "round_rat (rat_of_nat n) \<le> round_rat (2 ^ 64)" by (intro round_rat_mono) simp
  also have "\<dots> = 2 ^ 64" using round_rat_dyadic [of 1 64] unfolding pow by simp
  also have "\<dots> < 2 ^ 1024" by (rule power_strict_increasing) simp_all
  finally show ?thesis
    using round_rat_nonneg [of "rat_of_nat n"] by (simp add: f64_of_nat_def round_f64_def Let_def)
qed

lemma f64_max_ge: "a \<noteq> NaN \<Longrightarrow> b \<noteq> NaN \<Longrightarrow> f64_le a (f64_max a b) \<and> f64_le b (f64_max a b)"
  by (cases a; cases b) (auto simp: f64_max_def)

section \<open>Rounding errors\<close>

lemma round_half_even_error: "\<bar>of_int (round_half_even x) - x\<bar> \<le> 1 / 2"
proof -
  have "of_int \<lfloor>x\<rfloor> \<le> x" "x < of_int \<lfloor>x\<rfloor> + 1" by linarith+
  then show ?thesis unfolding round_half_even_def Let_def abs_le_iff by (auto; linarith)
qed

lemma round_pos_error:
  assumes "0 < x"
  shows "\<bar>round_pos x - x\<bar> \<le> x / 2 ^ 53 + 1 / 2 ^ 1075"
    and "1 / 2 ^ 1022 \<le> x \<Longrightarrow> \<bar>round_pos x - x\<bar> \<le> x / 2 ^ 53"
proof -
  define u where "u = (2 :: rat) powi (ulp_exp x)"
  have u: "0 < u" by (simp add: u_def)
  have "\<bar>round_pos x - x\<bar> = \<bar>of_int (round_half_even (x / u)) - x / u\<bar> * u"
    using u by (simp add: round_pos_def u_def [symmetric] Let_def abs_mult_pos left_diff_distrib)
  also have "\<dots> \<le> 1 / 2 * u" using round_half_even_error u by (intro mult_right_mono) simp_all
  finally have err: "\<bar>round_pos x - x\<bar> \<le> u / 2" by simp
  have cases: "u = 1 / 2 ^ 1074 \<or> u * 2 ^ 52 \<le> x"
  proof (rule disj_forward [OF ulp_exp_lower [OF assms]])
    assume "ulp_exp x = - 1074"
    then show "u = 1 / 2 ^ 1074" unfolding u_def by (simp add: power_int_minus field_simps)
  next
    assume "2 powi (ulp_exp x + 52) \<le> x"
    then show "u * 2 ^ 52 \<le> x" unfolding u_def by (simp add: power_int_add)
  qed
  have half: "(1 / 2 ^ 1074) / 2 = (1 / 2 ^ 1075 :: rat)" by simp
  have pos: "0 \<le> x / 2 ^ 53" "0 \<le> (1 / 2 ^ 1075 :: rat)" using assms by simp_all
  have small: "u * 2 ^ 52 \<le> x \<Longrightarrow> u / 2 \<le> x / 2 ^ 53" by simp
  have "u / 2 \<le> x / 2 ^ 53 + 1 / 2 ^ 1075"
    using cases
  proof
    assume "u = 1 / 2 ^ 1074"
    then have "u / 2 = 1 / 2 ^ 1075" by (simp only: half)
    with pos show ?thesis by linarith
  next
    assume "u * 2 ^ 52 \<le> x"
    with small pos show ?thesis by linarith
  qed
  with err show "\<bar>round_pos x - x\<bar> \<le> x / 2 ^ 53 + 1 / 2 ^ 1075" by linarith
  assume "1 / 2 ^ 1022 \<le> x"
  moreover have "(1 / 2 ^ 1074) * 2 ^ 52 = (1 / 2 ^ 1022 :: rat)"
    by (simp add: power_add [of 2 1022 52, symmetric, simplified])
  ultimately have "u * 2 ^ 52 \<le> x" using cases by auto
  with small err show "\<bar>round_pos x - x\<bar> \<le> x / 2 ^ 53" by linarith
qed

lemma round_rat_error: "\<bar>round_rat x - x\<bar> \<le> \<bar>x\<bar> / 2 ^ 53 + 1 / 2 ^ 1075"
proof -
  consider "x = 0" | "0 < x" | "x < 0" by linarith
  then show ?thesis
  proof cases
    case 3
    then have "\<bar>round_pos (- x) - (- x)\<bar> \<le> (- x) / 2 ^ 53 + 1 / 2 ^ 1075"
      by (intro round_pos_error(1)) simp
    with 3 show ?thesis by (simp add: round_rat_def abs_minus_commute)
  qed (use round_pos_error(1) in \<open>auto simp: round_rat_def\<close>)
qed

text \<open>The two forms used: relative for normal numbers, absolute for moderate ones.\<close>

lemma round_rat_relative: "x = 0 \<or> 1 / 2 ^ 1022 \<le> x \<Longrightarrow> round_rat x \<le> x * (1 + 1 / 2 ^ 53)"
proof -
  assume x: "x = 0 \<or> 1 / 2 ^ 1022 \<le> x"
  show ?thesis
  proof (cases "x = 0")
    case False
    with x have n: "1 / 2 ^ 1022 \<le> x" by blast
    have "0 < (1 / 2 ^ 1022 :: rat)" by simp
    with n have pos: "0 < x" by linarith
    from round_pos_error(2) [OF pos n] have "round_pos x \<le> x + x / 2 ^ 53" by linarith
    with pos show ?thesis by (simp add: round_rat_def algebra_simps)
  qed simp
qed

lemma round_rat_absolute: "\<bar>x\<bar> \<le> 2 ^ 33 \<Longrightarrow> \<bar>round_rat x - x\<bar> \<le> 1 / 2 ^ 19"
proof -
  assume "\<bar>x\<bar> \<le> 2 ^ 33"
  then have "\<bar>x\<bar> / 2 ^ 53 \<le> 2 ^ 33 / 2 ^ 53" by (rule divide_right_mono) simp
  then have "\<bar>x\<bar> / 2 ^ 53 \<le> 1 / 2 ^ 20" by simp
  moreover have "1 / 2 ^ 1075 \<le> (1 / 2 ^ 20 :: rat)" by (rule divide_left_mono) (simp_all add: power_increasing)
  moreover have "1 / 2 ^ 20 + 1 / 2 ^ 20 = (1 / 2 ^ 19 :: rat)" by simp
  ultimately show ?thesis using round_rat_error [of x] by linarith
qed

lemma round_f64_moderate:
  assumes "\<bar>x\<bar> \<le> 2 ^ 33"
  shows "\<exists>z. round_f64 x = Fin z \<and> z = round_rat x"
proof -
  have "\<bar>round_rat x\<bar> \<le> 2 ^ 33 + 1 / 2 ^ 19" using round_rat_absolute [OF assms] assms by linarith
  also have "\<dots> < (2 ^ 34 :: rat)" by simp
  also have "(2 ^ 34 :: rat) \<le> 2 ^ 1024" by (rule power_increasing) simp_all
  finally show ?thesis by (simp add: round_f64_def Let_def)
qed

end
