(* ===== verification/Json.thy ===== *)
theory Json
  imports F64
begin

text \<open>
  The JSON values of the crate (\<open>serde_json::Value\<close> with its default features): numbers are
  non-negative integers below \<open>2 ^ 64\<close>, negative \<open>i64\<close>s or floats, and an object is an ordered
  map, kept here as the association list of its members in key order. The accessors are the
  ones the code calls; rendering a value as text is left to the places that need it.
\<close>

datatype number = PosInt nat | NegInt int | Float f64

datatype json =
    JNull
  | JBool bool
  | JNumber number
  | JString string
  | JArray "json list"
  | JObject "(string \<times> json) list"

type_synonym json_object = "(string \<times> json) list"

section \<open>Accessors\<close>

fun as_object :: "json \<Rightarrow> json_object option" where
  "as_object (JObject kvs) = Some kvs"
| "as_object _ = None"

fun as_array :: "json \<Rightarrow> json list option" where
  "as_array (JArray vs) = Some vs"
| "as_array _ = None"

fun as_str :: "json \<Rightarrow> string option" where
  "as_str (JString s) = Some s"
| "as_str _ = None"

fun as_bool :: "json \<Rightarrow> bool option" where
  "as_bool (JBool b) = Some b"
| "as_bool _ = None"

fun as_u64 :: "json \<Rightarrow> nat option" where
  "as_u64 (JNumber (PosInt n)) = Some n"
| "as_u64 _ = None"

fun as_f64 :: "json \<Rightarrow> f64 option" where
  "as_f64 (JNumber (PosInt n)) = Some (f64_of_nat n)"
| "as_f64 (JNumber (NegInt i)) = Some (round_f64 (of_int i))"
| "as_f64 (JNumber (Float x)) = Some x"
| "as_f64 _ = None"

definition is_object :: "json \<Rightarrow> bool" where "is_object v \<longleftrightarrow> as_object v \<noteq> None"
definition is_array :: "json \<Rightarrow> bool" where "is_array v \<longleftrightarrow> as_array v \<noteq> None"
definition is_null :: "json \<Rightarrow> bool" where "is_null v \<longleftrightarrow> v = JNull"

text \<open>\<open>value.get(key)\<close>, \<open>value[key]\<close> and \<open>value.get(k1)?.get(k2)?\<close>; a JSON pointer whose tokens
  are not numbers behaves as the last.\<close>

definition get :: "json \<Rightarrow> string \<Rightarrow> json option" where
  "get v key = (case v of JObject kvs \<Rightarrow> map_of kvs key | _ \<Rightarrow> None)"

definition index :: "json \<Rightarrow> string \<Rightarrow> json" where
  "index v key = (case get v key of Some x \<Rightarrow> x | None \<Rightarrow> JNull)"

fun get_path :: "json \<Rightarrow> string list \<Rightarrow> json option" where
  "get_path v [] = Some v"
| "get_path v (key # path) = (case get v key of Some x \<Rightarrow> get_path x path | None \<Rightarrow> None)"

definition get_u64 :: "json \<Rightarrow> string \<Rightarrow> nat option" where
  "get_u64 v key = Option.bind (get v key) as_u64"

definition path_u64 :: "json \<Rightarrow> string list \<Rightarrow> nat option" where
  "path_u64 v path = Option.bind (get_path v path) as_u64"

section \<open>Object updates\<close>

fun object_insert :: "string \<Rightarrow> json \<Rightarrow> json_object \<Rightarrow> json_object" where
  "object_insert k v [] = [(k, v)]"
| "object_insert k v ((k', v') # kvs) =
     (if k = k' then (k, v) # kvs
      else if k < k' then (k, v) # (k', v') # kvs
      else (k', v') # object_insert k v kvs)"

text \<open>\<open>value[key] = x\<close>: inserts into an object, turns \<open>null\<close> into one, panics otherwise.\<close>

fun set_index :: "json \<Rightarrow> string \<Rightarrow> json \<Rightarrow> json option" where
  "set_index (JObject kvs) k x = Some (JObject (object_insert k x kvs))"
| "set_index JNull k x = Some (JObject [(k, x)])"
| "set_index _ k x = None"

fun wf_json :: "json \<Rightarrow> bool" where
  "wf_json (JNumber (PosInt n)) \<longleftrightarrow> n \<le> u64_max"
| "wf_json (JNumber (NegInt i)) \<longleftrightarrow> - (2 ^ 63) \<le> i \<and> i < 0"
| "wf_json (JNumber (Float x)) \<longleftrightarrow> is_finite x"
| "wf_json (JArray vs) \<longleftrightarrow> list_all wf_json vs"
| "wf_json (JObject kvs) \<longleftrightarrow> sorted_wrt (<) (map fst kvs) \<and> list_all (wf_json \<circ> snd) kvs"
| "wf_json _ \<longleftrightarrow> True"

lemma map_of_object_insert [simp]:
  "map_of (object_insert k v kvs) = (map_of kvs)(k \<mapsto> v)"
  by (induction kvs) auto

lemma keys_object_insert: "set (map fst (object_insert k v kvs)) = insert k (set (map fst kvs))"
  by (induction k v kvs rule: object_insert.induct) (simp_all add: insert_commute)

lemma sorted_object_insert:
  "sorted_wrt (<) (map fst kvs) \<Longrightarrow> sorted_wrt (<) (map fst (object_insert k v kvs))"
proof (induction kvs)
  case (Cons p kvs)
  then show ?case
    using keys_object_insert [of k v kvs] by (cases p) (force simp: not_less)
qed simp

lemma get_set_index:
  "set_index v k x = Some v' \<Longrightarrow> get v' key = (if key = k then Some x else get v key)"
  by (cases v) (auto simp: get_def)

lemma get_JNull [simp]: "get JNull k = None"
  by (simp add: get_def)

lemma wf_json_get: "wf_json v \<Longrightarrow> get v k = Some x \<Longrightarrow> wf_json x"
  by (cases v) (force simp: get_def list_all_iff dest: map_of_SomeD)+

lemma wf_json_set_index:
  "wf_json v \<Longrightarrow> wf_json x \<Longrightarrow> set_index v k x = Some v' \<Longrightarrow> wf_json v'"
proof -
  have "list_all (wf_json \<circ> snd) kvs \<Longrightarrow> wf_json x \<Longrightarrow>
      list_all (wf_json \<circ> snd) (object_insert k x kvs)" for kvs
    by (induction kvs) auto
  then show "wf_json v \<Longrightarrow> wf_json x \<Longrightarrow> set_index v k x = Some v' \<Longrightarrow> wf_json v'"
    by (cases v) (auto simp: sorted_object_insert)
qed

lemma get_u64_bound: "wf_json v \<Longrightarrow> get_u64 v k = Some n \<Longrightarrow> n \<le> u64_max"
proof -
  have "wf_json x \<Longrightarrow> as_u64 x = Some n \<Longrightarrow> n \<le> u64_max" for x
    by (cases x rule: as_u64.cases) auto
  then show "wf_json v \<Longrightarrow> get_u64 v k = Some n \<Longrightarrow> n \<le> u64_max"
    by (auto simp: get_u64_def bind_eq_Some_conv dest: wf_json_get)
qed

end
