(* ===== verification/Idempotency.thy ===== *)
theory Idempotency
  imports Json "HOL-Library.Product_Lexorder"
begin

text \<open>
  Request-bound idempotency of completed unary responses (\<open>src/gateway/idempotency.rs\<close>): the
  digests that bind a replay to its owner and request, the conservative size estimate of a
  response, and the bounded cache with its expiry index. SHA-256 and the text rendering of a
  request are arguments of the definitions that use them; the sizes of Rust types are the
  fields of \<open>layout\<close>. A response carries the capacities of its buffers, since the estimate
  reads them. Every public operation runs under the cache's mutex.
\<close>

section \<open>Digests\<close>

text \<open>\<open>(len as u64).to_be_bytes()\<close>.\<close>

fun be_bytes :: "nat \<Rightarrow> nat \<Rightarrow> string" where
  "be_bytes 0 n = []"
| "be_bytes (Suc k) n = be_bytes k (n div 256) @ [char_of (n mod 256)]"

definition be64 :: "nat \<Rightarrow> string" where
  "be64 n = be_bytes 8 n"

definition framed_parts :: "string \<Rightarrow> string list \<Rightarrow> string" where
  "framed_parts tag parts = tag @ concat (map (\<lambda>p. be64 (length p) @ p) parts)"

definition digest_parts :: "(string \<Rightarrow> string) \<Rightarrow> string \<Rightarrow> string list \<Rightarrow> string" where
  "digest_parts sha256 tag parts = sha256 (framed_parts tag parts)"

record idempotency_context =
  storage_key :: string
  request_fingerprint :: string

definition new_context ::
  "(string \<Rightarrow> string) \<Rightarrow> (json \<Rightarrow> string) \<Rightarrow> string \<Rightarrow> string \<Rightarrow> string \<Rightarrow> string \<Rightarrow> json
    \<Rightarrow> idempotency_context" where
  "new_context sha256 to_str tenant_scope credential_scope route_scope client_key canonical_request =
     \<lparr>storage_key = digest_parts sha256 ''llmshim-gateway-idempotency-owner-v1''
        [tenant_scope, credential_scope, route_scope, client_key],
      request_fingerprint = digest_parts sha256 ''llmshim-gateway-idempotency-request-v1''
        [route_scope, to_str canonical_request]\<rparr>"

definition generic_storage_key :: "(string \<Rightarrow> string) \<Rightarrow> string \<Rightarrow> string" where
  "generic_storage_key sha256 client_key =
     digest_parts sha256 ''llmshim-gateway-idempotency-generic-v1'' [client_key]"

lemma length_be_bytes [simp]: "length (be_bytes k n) = k"
  by (induction k arbitrary: n) simp_all

fun be_value :: "nat \<Rightarrow> string \<Rightarrow> nat" where
  "be_value acc [] = acc"
| "be_value acc (c # cs) = be_value (acc * 256 + of_char c) cs"

lemma be_value_snoc: "be_value acc (cs @ [c]) = be_value acc cs * 256 + of_char c"
  by (induction cs arbitrary: acc) simp_all

lemma be_value_be_bytes: "be_value 0 (be_bytes k n) = n mod 256 ^ k"
  by (induction k arbitrary: n)
    (simp_all add: be_value_snoc of_char_of mod_mult2_eq mult.commute)

lemma be64_inj: "m \<le> u64_max \<Longrightarrow> n \<le> u64_max \<Longrightarrow> be64 m = be64 n \<Longrightarrow> m = n"
proof -
  assume "m \<le> u64_max" "n \<le> u64_max" and eq: "be64 m = be64 n"
  then have "m < 256 ^ 8" "n < 256 ^ 8" by (simp_all add: u64_max_def)
  moreover have "m mod 256 ^ 8 = n mod 256 ^ 8"
    using arg_cong [OF eq, of "be_value 0"] by (simp only: be64_def be_value_be_bytes)
  ultimately show ?thesis by simp
qed

lemma framed_parts_inj:
  assumes "length ps = length qs" and "list_all (\<lambda>p. length p \<le> u64_max) (ps @ qs)"
    and "framed_parts tag ps = framed_parts tag qs"
  shows "ps = qs"
  using assms
proof (induction ps qs rule: list_induct2)
  case Nil
  then show ?case by simp
next
  case (Cons p ps q qs)
  define P Q where "P = concat (map (\<lambda>p. be64 (length p) @ p) ps)"
    and "Q = concat (map (\<lambda>p. be64 (length p) @ p) qs)"
  have eq: "be64 (length p) @ (p @ P) = be64 (length q) @ (q @ Q)"
    using Cons.prems(2) by (simp add: framed_parts_def P_def Q_def)
  have "length (be64 (length p)) = length (be64 (length q))" by (simp add: be64_def)
  with eq have be: "be64 (length p) = be64 (length q)" "p @ P = q @ Q"
    using append_eq_append_conv by blast+
  then have "length p = length q" using be64_inj Cons.prems(1) by simp
  with be(2) have "p = q" "P = Q" using append_eq_append_conv by blast+
  with Cons show ?case by (simp add: framed_parts_def P_def Q_def)
qed

section \<open>Footprints\<close>

record footprint =
  fp_bytes :: nat
  fp_nodes :: nat

definition zero_footprint :: footprint where
  "zero_footprint = \<lparr>fp_bytes = 0, fp_nodes = 0\<rparr>"

definition add_bytes :: "footprint \<Rightarrow> nat \<Rightarrow> nat \<Rightarrow> footprint option" where
  "add_bytes f b limit =
     (case checked_add_usize (fp_bytes f) b of
        Some tot \<Rightarrow> if tot \<le> limit then Some (f\<lparr>fp_bytes := tot\<rparr>) else None
      | None \<Rightarrow> None)"

definition add_node :: "footprint \<Rightarrow> nat \<Rightarrow> footprint option" where
  "add_node f limit =
     (case checked_add_usize (fp_nodes f) 1 of
        Some tot \<Rightarrow> if tot \<le> limit then Some (f\<lparr>fp_nodes := tot\<rparr>) else None
      | None \<Rightarrow> None)"

definition fp_checked_add :: "footprint \<Rightarrow> footprint \<Rightarrow> footprint option" where
  "fp_checked_add f g =
     (case checked_add_usize (fp_bytes f) (fp_bytes g) of
        None \<Rightarrow> None
      | Some b \<Rightarrow>
          (case checked_add_usize (fp_nodes f) (fp_nodes g) of
             None \<Rightarrow> None
           | Some n \<Rightarrow> Some \<lparr>fp_bytes = b, fp_nodes = n\<rparr>))"

definition without :: "footprint \<Rightarrow> footprint \<Rightarrow> footprint" where
  "without f g = \<lparr>fp_bytes = fp_bytes f - fp_bytes g, fp_nodes = fp_nodes f - fp_nodes g\<rparr>"

record cache_limits =
  max_entries :: nat
  max_entry_retained_bytes :: nat
  max_retained_bytes :: nat
  max_entry_retained_nodes :: nat
  max_retained_nodes :: nat

definition default_cache_limits :: cache_limits where
  "default_cache_limits =
     \<lparr>max_entries = 100000, max_entry_retained_bytes = 1024 * 1024,
      max_retained_bytes = 64 * 1024 * 1024, max_entry_retained_nodes = 16384,
      max_retained_nodes = 1000000\<rparr>"

definition fits_within :: "footprint \<Rightarrow> cache_limits \<Rightarrow> bool" where
  "fits_within f l \<longleftrightarrow> fp_bytes f \<le> max_retained_bytes l \<and> fp_nodes f \<le> max_retained_nodes l"

section \<open>The estimate of a response\<close>

text \<open>A JSON value together with the capacities of its strings, vectors and keys.\<close>

datatype heap_value =
    HScalar json
  | HString string nat
  | HArray "heap_value list" nat
  | HObject "((string \<times> nat) \<times> heap_value) list"

fun value_of :: "heap_value \<Rightarrow> json" where
  "value_of (HScalar v) = v"
| "value_of (HString s _) = JString s"
| "value_of (HArray vs _) = JArray (map value_of vs)"
| "value_of (HObject kvs) = JObject (map (\<lambda>m. (fst (fst m), value_of (snd m))) kvs)"

record layout =
  size_value :: nat
  size_vec :: nat
  size_string :: nat
  size_scoped_entry :: nat
  size_generic_entry :: nat
  size_expiry_record :: nat
  digest_capacity :: nat

definition JSON_OBJECT_MEMBER_OVERHEAD_BYTES :: nat where "JSON_OBJECT_MEMBER_OVERHEAD_BYTES = 64"
definition EXPIRY_INDEX_MEMBER_OVERHEAD_BYTES :: nat where "EXPIRY_INDEX_MEMBER_OVERHEAD_BYTES = 64"

text \<open>The loop over an object's members: the key's capacity is added, the child is pushed.\<close>

fun push_members ::
  "((string \<times> nat) \<times> heap_value) list \<Rightarrow> footprint \<Rightarrow> nat \<Rightarrow> heap_value list
    \<Rightarrow> (footprint \<times> heap_value list) option" where
  "push_members [] f max_bytes pending = Some (f, pending)"
| "push_members (((k, cap), child) # kvs) f max_bytes pending =
     (case add_bytes f cap max_bytes of
        None \<Rightarrow> None
      | Some f' \<Rightarrow> push_members kvs f' max_bytes (child # pending))"

text \<open>One visit: the value popped from the stack \<open>pending\<close>, whose top is the head of the list.\<close>

definition visit ::
  "layout \<Rightarrow> nat \<Rightarrow> nat \<Rightarrow> footprint \<Rightarrow> heap_value \<Rightarrow> heap_value list
    \<Rightarrow> (footprint \<times> heap_value list) option" where
  "visit lay max_bytes max_nodes f current pending =
     (case add_node f max_nodes of
        None \<Rightarrow> None
      | Some f1 \<Rightarrow>
      (case add_bytes f1 (size_value lay) max_bytes of
        None \<Rightarrow> None
      | Some f2 \<Rightarrow>
      (case current of
         HScalar _ \<Rightarrow> Some (f2, pending)
       | HString _ cap \<Rightarrow> map_option (\<lambda>f3. (f3, pending)) (add_bytes f2 cap max_bytes)
       | HArray vs cap \<Rightarrow>
           (case Option.bind (checked_mul_usize cap (size_value lay))
                   (\<lambda>b. checked_add_usize b (size_vec lay)) of
              None \<Rightarrow> None
            | Some b \<Rightarrow>
                (case add_bytes f2 b max_bytes of
                   None \<Rightarrow> None
                 | Some f3 \<Rightarrow>
                     if length vs > max_nodes - length pending then None
                     else Some (f3, rev vs @ pending)))
       | HObject kvs \<Rightarrow>
           (case checked_mul_usize (length kvs) JSON_OBJECT_MEMBER_OVERHEAD_BYTES of
              None \<Rightarrow> None
            | Some b \<Rightarrow>
                (case add_bytes f2 b max_bytes of
                   None \<Rightarrow> None
                 | Some f3 \<Rightarrow>
                     if length kvs > max_nodes - length pending then None
                     else push_members kvs f3 max_bytes pending)))))"

fun hv_nodes :: "heap_value \<Rightarrow> nat" where
  "hv_nodes (HScalar _) = 1"
| "hv_nodes (HString _ _) = 1"
| "hv_nodes (HArray vs _) = Suc (sum_list (map hv_nodes vs))"
| "hv_nodes (HObject kvs) = Suc (sum_list (map (hv_nodes \<circ> snd) kvs))"

fun hv_bytes :: "layout \<Rightarrow> heap_value \<Rightarrow> nat" where
  "hv_bytes lay (HScalar _) = size_value lay"
| "hv_bytes lay (HString _ cap) = size_value lay + cap"
| "hv_bytes lay (HArray vs cap) =
     size_value lay + cap * size_value lay + size_vec lay + sum_list (map (hv_bytes lay) vs)"
| "hv_bytes lay (HObject kvs) =
     size_value lay + length kvs * JSON_OBJECT_MEMBER_OVERHEAD_BYTES +
     sum_list (map (\<lambda>m. snd (fst m) + hv_bytes lay (snd m)) kvs)"

abbreviation nodes_of :: "heap_value list \<Rightarrow> nat" where
  "nodes_of vs \<equiv> sum_list (map hv_nodes vs)"

abbreviation bytes_of :: "layout \<Rightarrow> heap_value list \<Rightarrow> nat" where
  "bytes_of lay vs \<equiv> sum_list (map (hv_bytes lay) vs)"

lemma add_bytes_if:
  "add_bytes f b limit =
     (if fp_bytes f + b \<le> usize_max \<and> fp_bytes f + b \<le> limit
      then Some (f\<lparr>fp_bytes := fp_bytes f + b\<rparr>) else None)"
  by (simp add: add_bytes_def checked_add_usize_def)

lemma add_node_if:
  "add_node f limit =
     (if fp_nodes f + 1 \<le> usize_max \<and> fp_nodes f + 1 \<le> limit
      then Some (f\<lparr>fp_nodes := fp_nodes f + 1\<rparr>) else None)"
  by (simp add: add_node_def checked_add_usize_def)

lemma hv_nodes_pos: "0 < hv_nodes v"
  by (cases v) simp_all

lemma length_le_nodes: "length vs \<le> nodes_of vs"
proof (induction vs)
  case (Cons v vs)
  then show ?case using hv_nodes_pos [of v] by simp
qed simp

lemma push_members_eq:
  "fp_bytes f \<le> max_bytes \<Longrightarrow> max_bytes \<le> usize_max \<Longrightarrow>
   push_members kvs f max_bytes pending =
     (if fp_bytes f + sum_list (map (\<lambda>m. snd (fst m)) kvs) \<le> max_bytes
      then Some (f\<lparr>fp_bytes := fp_bytes f + sum_list (map (\<lambda>m. snd (fst m)) kvs)\<rparr>,
                 rev (map snd kvs) @ pending)
      else None)"
proof (induction kvs f max_bytes pending rule: push_members.induct)
  case (2 k cap child kvs f max_bytes pending)
  then show ?case by (simp add: add_bytes_if add.assoc)
qed simp

lemma sum_list_members:
  "sum_list (map (\<lambda>m. snd (fst m) + hv_bytes lay (snd m)) kvs) =
     sum_list (map (\<lambda>m. snd (fst m)) kvs) + bytes_of lay (map snd kvs)"
  by (induction kvs) auto

text \<open>A visit that succeeds moves the visited node's own cost from the stack to the footprint.\<close>

lemma visit_Some:
  assumes "visit lay mb mn f v pending = Some (f', pending')"
    and "fp_bytes f \<le> mb" and "mb \<le> usize_max"
  shows "fp_nodes f' + nodes_of pending' = fp_nodes f + nodes_of (v # pending)"
    and "fp_bytes f' + bytes_of lay pending' = fp_bytes f + bytes_of lay (v # pending)"
    and "fp_bytes f' \<le> mb" and "fp_nodes f' \<le> mn"
  using assms
  by (cases v; force simp: visit_def push_members_eq sum_list_members bind_eq_Some_conv
      add_bytes_if add_node_if rev_map [symmetric] split: option.splits if_splits)+

text \<open>A visit that fails was about to exceed one of the limits.\<close>

lemma visit_None:
  assumes "visit lay mb mn f v pending = None" and "fp_bytes f \<le> mb" and "fp_nodes f \<le> mn"
    and "mb \<le> usize_max" and "mn \<le> usize_max"
  shows "mb < fp_bytes f + bytes_of lay (v # pending) \<or> mn < fp_nodes f + nodes_of (v # pending)"
proof (rule ccontr)
  assume "\<not> ?thesis"
  then have b: "fp_bytes f + hv_bytes lay v \<le> mb" and n: "fp_nodes f + hv_nodes v + nodes_of pending \<le> mn"
    by auto
  have len: "length pending \<le> nodes_of pending" by (rule length_le_nodes)
  have nd: "add_node f mn = Some (f\<lparr>fp_nodes := fp_nodes f + 1\<rparr>)"
    using n assms(5) hv_nodes_pos [of v] by (simp add: add_node_if)
  show False
  proof (cases v)
    case (HArray vs cap)
    have "length vs \<le> nodes_of vs" by (rule length_le_nodes)
    with HArray b n nd len assms show False
      by (auto simp: visit_def bind_eq_None_conv checked_mul_usize_def checked_add_usize_def
          add_bytes_if split: option.splits if_splits)
  next
    case (HObject kvs)
    have "length kvs \<le> sum_list (map (hv_nodes \<circ> snd) kvs)"
      using length_le_nodes [of "map snd kvs"] by simp
    with HObject b n nd len assms show False
      by (auto simp: visit_def push_members_eq checked_mul_usize_def checked_add_usize_def
          add_bytes_if sum_list_members split: option.splits if_splits)
  qed (use b n nd assms in \<open>auto simp: visit_def add_bytes_if split: if_splits\<close>)
qed

function estimate_loop ::
  "layout \<Rightarrow> nat \<Rightarrow> nat \<Rightarrow> footprint \<Rightarrow> heap_value list \<Rightarrow> footprint option" where
  "estimate_loop lay max_bytes max_nodes f [] = Some f"
| "estimate_loop lay max_bytes max_nodes f (current # pending) =
     (case visit lay max_bytes max_nodes f current pending of
        None \<Rightarrow> None
      | Some (f', pending') \<Rightarrow> estimate_loop lay max_bytes max_nodes f' pending')"
  by pat_completeness auto

termination
proof (relation "measure (\<lambda>(lay, mb, mn, f, pending). nodes_of pending)", goal_cases)
  case 1
  show ?case by simp
next
  case (2 lay mb mn f current pending r f' pending')
  have push: "push_members kvs f mb p = Some (g, q) \<Longrightarrow> q = rev (map snd kvs) @ p" for kvs f p g q
    by (induction kvs f mb p rule: push_members.induct) (auto split: option.splits)
  from 2 show ?case
    by (cases current) (auto simp: visit_def rev_map [symmetric] split: option.splits if_splits dest!: push)
qed

definition estimate_value_footprint ::
  "layout \<Rightarrow> heap_value \<Rightarrow> nat \<Rightarrow> nat \<Rightarrow> footprint option" where
  "estimate_value_footprint lay v max_bytes max_nodes =
     estimate_loop lay max_bytes max_nodes zero_footprint [v]"

lemma estimate_loop_eq:
  assumes "fp_bytes f \<le> mb" and "fp_nodes f \<le> mn" and "mb \<le> usize_max" and "mn \<le> usize_max"
  shows "estimate_loop lay mb mn f pending =
    (if fp_bytes f + bytes_of lay pending \<le> mb \<and> fp_nodes f + nodes_of pending \<le> mn
     then Some \<lparr>fp_bytes = fp_bytes f + bytes_of lay pending, fp_nodes = fp_nodes f + nodes_of pending\<rparr>
     else None)"
  using assms
proof (induction lay mb mn f pending rule: estimate_loop.induct)
  case (1 lay mb mn f)
  then show ?case by simp
next
  case (2 lay mb mn f v pending)
  show ?case
  proof (cases "visit lay mb mn f v pending")
    case None
    with visit_None [OF None] "2.prems" show ?thesis by (auto simp: add.assoc)
  next
    case (Some r)
    obtain f' p' where r: "r = (f', p')" by fastforce
    note v = visit_Some [OF Some [unfolded r] "2.prems"(1,3)]
    from "2.IH" [OF Some r [symmetric] v(3,4) "2.prems"(3,4)] Some r v(1,2) show ?thesis by simp
  qed
qed

section \<open>Cache state\<close>

datatype idempotency_lookup = Miss | Replay json | Conflict

definition CACHE_ENTRY_VERSION :: nat where "CACHE_ENTRY_VERSION = 1"

record cached_response =
  version :: nat
  cached_fingerprint :: string
  cached_value :: json

definition new_cached :: "idempotency_context \<Rightarrow> json \<Rightarrow> cached_response" where
  "new_cached ctx r =
     \<lparr>version = CACHE_ENTRY_VERSION, cached_fingerprint = request_fingerprint ctx, cached_value = r\<rparr>"

definition cached_lookup :: "cached_response \<Rightarrow> idempotency_context \<Rightarrow> idempotency_lookup" where
  "cached_lookup c ctx =
     (if version c \<noteq> CACHE_ENTRY_VERSION then Miss
      else if cached_fingerprint c \<noteq> request_fingerprint ctx then Conflict
      else Replay (cached_value c))"

record 'v cache_entry =
  entry_value :: 'v
  expires_at :: instant
  entry_footprint :: footprint

datatype cache_namespace = Scoped | Generic

text \<open>The derived \<open>Ord\<close>: constructors in the order of their declaration.\<close>

instantiation cache_namespace :: linorder
begin

definition less_eq_cache_namespace :: "cache_namespace \<Rightarrow> cache_namespace \<Rightarrow> bool" where
  "less_eq_cache_namespace a b \<longleftrightarrow> a = Scoped \<or> b = Generic"

definition less_cache_namespace :: "cache_namespace \<Rightarrow> cache_namespace \<Rightarrow> bool" where
  "less_cache_namespace a b \<longleftrightarrow> a = Scoped \<and> b = Generic"

instance
proof
  fix x y z :: cache_namespace
  show "(x < y) = (x \<le> y \<and> \<not> y \<le> x)"
    by (cases x; cases y) (simp_all add: less_eq_cache_namespace_def less_cache_namespace_def)
  show "x \<le> x" by (cases x) (simp_all add: less_eq_cache_namespace_def)
  show "x \<le> y \<Longrightarrow> y \<le> z \<Longrightarrow> x \<le> z"
    by (cases x; cases y; cases z) (simp_all add: less_eq_cache_namespace_def)
  show "x \<le> y \<Longrightarrow> y \<le> x \<Longrightarrow> x = y"
    by (cases x; cases y) (simp_all add: less_eq_cache_namespace_def)
  show "x \<le> y \<or> y \<le> x"
    by (cases x; cases y) (simp_all add: less_eq_cache_namespace_def)
qed

end

text \<open>\<open>ExpiryRecord\<close>, ordered by its fields in turn; the \<open>BTreeSet\<close> is a strictly sorted list.\<close>

type_synonym expiry_record = "instant \<times> cache_namespace \<times> string"

record cache_state =
  scoped_entries :: "(string, cached_response cache_entry) hash_map"
  generic_entries :: "(string, json cache_entry) hash_map"
  expiry_index :: "expiry_record list"
  retained_footprint :: footprint

definition empty_cache :: cache_state where
  "empty_cache =
     \<lparr>scoped_entries = [], generic_entries = [], expiry_index = [],
      retained_footprint = zero_footprint\<rparr>"

section \<open>Cache operations\<close>

definition entry_count :: "cache_state \<Rightarrow> nat" where
  "entry_count st = length (scoped_entries st) + length (generic_entries st)"

definition can_retain ::
  "cache_state \<Rightarrow> footprint \<Rightarrow> footprint option \<Rightarrow> cache_limits \<Rightarrow> bool" where
  "can_retain st candidate replaced lims =
     (case fp_checked_add
             (without (retained_footprint st)
               (case replaced of Some f \<Rightarrow> f | None \<Rightarrow> zero_footprint))
             candidate of
        Some tot \<Rightarrow> fits_within tot lims
      | None \<Rightarrow> False)"

definition remove_scoped :: "cache_state \<Rightarrow> string \<Rightarrow> cache_state" where
  "remove_scoped st key =
     (case map_of (scoped_entries st) key of
        None \<Rightarrow> st
      | Some entry \<Rightarrow>
          st\<lparr>scoped_entries := AList.delete key (scoped_entries st),
             expiry_index := remove1 (expires_at entry, Scoped, key) (expiry_index st),
             retained_footprint := without (retained_footprint st) (entry_footprint entry)\<rparr>)"

definition remove_generic :: "cache_state \<Rightarrow> string \<Rightarrow> cache_state" where
  "remove_generic st key =
     (case map_of (generic_entries st) key of
        None \<Rightarrow> st
      | Some entry \<Rightarrow>
          st\<lparr>generic_entries := AList.delete key (generic_entries st),
             expiry_index := remove1 (expires_at entry, Generic, key) (expiry_index st),
             retained_footprint := without (retained_footprint st) (entry_footprint entry)\<rparr>)"

definition remove_record :: "cache_state \<Rightarrow> expiry_record \<Rightarrow> cache_state" where
  "remove_record st rec =
     (case rec of
        (_, Scoped, key) \<Rightarrow> remove_scoped st key
      | (_, Generic, key) \<Rightarrow> remove_generic st key)"

lemma length_index_remove_record: "length (expiry_index (remove_record st rec)) \<le> length (expiry_index st)"
  by (auto simp: remove_record_def remove_scoped_def remove_generic_def length_remove1
      split: prod.splits cache_namespace.splits option.splits)

function purge_expired :: "cache_state \<Rightarrow> instant \<Rightarrow> cache_state" where
  "purge_expired st now =
     (case expiry_index st of
        [] \<Rightarrow> st
      | rec # records \<Rightarrow>
          if fst rec \<le> now then purge_expired (remove_record (st\<lparr>expiry_index := records\<rparr>) rec) now
          else st)"
  by pat_completeness auto
termination
proof (relation "measure (\<lambda>(st, now). length (expiry_index st))", goal_cases)
  case (2 st now rec records)
  have "length (expiry_index (remove_record (st\<lparr>expiry_index := records\<rparr>) rec)) \<le> length records"
    using length_index_remove_record [of "st\<lparr>expiry_index := records\<rparr>" rec] by simp
  with 2 show ?case by simp
qed simp

declare purge_expired.simps [simp del]

fun add_all_bytes :: "footprint \<Rightarrow> nat list \<Rightarrow> nat \<Rightarrow> footprint option" where
  "add_all_bytes f [] limit = Some f"
| "add_all_bytes f (b # bs) limit =
     (case add_bytes f b limit of None \<Rightarrow> None | Some f' \<Rightarrow> add_all_bytes f' bs limit)"

text \<open>Every digest is a 64-character string formatted by the same code, so one capacity
  (\<open>digest_capacity\<close>) is that of all storage keys and fingerprints.\<close>

definition scoped_entry_footprint ::
  "layout \<Rightarrow> heap_value \<Rightarrow> cache_limits \<Rightarrow> footprint option" where
  "scoped_entry_footprint lay r lims =
     (case estimate_value_footprint lay r (max_entry_retained_bytes lims) (max_entry_retained_nodes lims) of
        None \<Rightarrow> None
      | Some f \<Rightarrow>
          add_all_bytes f
            [size_scoped_entry lay, size_string lay, size_expiry_record lay,
             EXPIRY_INDEX_MEMBER_OVERHEAD_BYTES, digest_capacity lay, digest_capacity lay,
             digest_capacity lay]
            (max_entry_retained_bytes lims))"

definition generic_entry_footprint ::
  "layout \<Rightarrow> heap_value \<Rightarrow> cache_limits \<Rightarrow> footprint option" where
  "generic_entry_footprint lay r lims =
     (case estimate_value_footprint lay r (max_entry_retained_bytes lims) (max_entry_retained_nodes lims) of
        None \<Rightarrow> None
      | Some f \<Rightarrow>
          add_all_bytes f
            [size_generic_entry lay, size_string lay, size_expiry_record lay,
             EXPIRY_INDEX_MEMBER_OVERHEAD_BYTES, digest_capacity lay, digest_capacity lay]
            (max_entry_retained_bytes lims))"

definition cache_lookup ::
  "cache_state \<Rightarrow> instant \<Rightarrow> idempotency_context \<Rightarrow> idempotency_lookup \<times> cache_state" where
  "cache_lookup st now ctx =
     (case map_of (scoped_entries st) (storage_key ctx) of
        Some entry \<Rightarrow>
          if expires_at entry \<le> now then (Miss, remove_scoped st (storage_key ctx))
          else (cached_lookup (entry_value entry) ctx, st)
      | None \<Rightarrow> (Miss, st))"

text \<open>The tails of \<open>store\<close> and \<open>put\<close> once the footprint is known. \<open>None\<close> is the panic of the
  \<open>expect\<close> on the second addition.\<close>

definition insert_scoped ::
  "cache_limits \<Rightarrow> cache_state \<Rightarrow> string \<Rightarrow> cached_response \<Rightarrow> instant \<Rightarrow> footprint
    \<Rightarrow> cache_state option" where
  "insert_scoped lims st key v expires f =
     (let replaced = map_option entry_footprint (map_of (scoped_entries st) key) in
      if replaced = None \<and> entry_count st \<ge> max_entries lims \<or> \<not> can_retain st f replaced lims
      then Some st
      else
        let st1 = remove_scoped st key in
        (case fp_checked_add (retained_footprint st1) f of
           None \<Rightarrow> None
         | Some tot \<Rightarrow>
             Some (st1\<lparr>retained_footprint := tot,
                       expiry_index := insort_insert (expires, Scoped, key) (expiry_index st1),
                       scoped_entries := AList.update key
                         \<lparr>entry_value = v, expires_at = expires, entry_footprint = f\<rparr>
                         (scoped_entries st1)\<rparr>)))"

definition insert_generic ::
  "cache_limits \<Rightarrow> cache_state \<Rightarrow> string \<Rightarrow> json \<Rightarrow> instant \<Rightarrow> footprint
    \<Rightarrow> cache_state option" where
  "insert_generic lims st key v expires f =
     (let replaced = map_option entry_footprint (map_of (generic_entries st) key) in
      if replaced = None \<and> entry_count st \<ge> max_entries lims \<or> \<not> can_retain st f replaced lims
      then Some st
      else
        let st1 = remove_generic st key in
        (case fp_checked_add (retained_footprint st1) f of
           None \<Rightarrow> None
         | Some tot \<Rightarrow>
             Some (st1\<lparr>retained_footprint := tot,
                       expiry_index := insort_insert (expires, Generic, key) (expiry_index st1),
                       generic_entries := AList.update key
                         \<lparr>entry_value = v, expires_at = expires, entry_footprint = f\<rparr>
                         (generic_entries st1)\<rparr>)))"

definition cache_store ::
  "layout \<Rightarrow> duration \<Rightarrow> cache_limits \<Rightarrow> cache_state \<Rightarrow> instant \<Rightarrow> idempotency_context \<Rightarrow> heap_value
    \<Rightarrow> cache_state option" where
  "cache_store lay ttl lims st now ctx r =
     (let st1 = purge_expired st now in
      case scoped_entry_footprint lay r lims of
        None \<Rightarrow> Some st1
      | Some f \<Rightarrow>
          insert_scoped lims st1 (storage_key ctx) (new_cached ctx (value_of r)) (now + ttl) f)"

definition cache_get ::
  "(string \<Rightarrow> string) \<Rightarrow> cache_state \<Rightarrow> instant \<Rightarrow> string \<Rightarrow> json option \<times> cache_state" where
  "cache_get sha256 st now key =
     (let k = generic_storage_key sha256 key in
      case map_of (generic_entries st) k of
        Some entry \<Rightarrow>
          if expires_at entry \<le> now then (None, remove_generic st k)
          else (Some (entry_value entry), st)
      | None \<Rightarrow> (None, st))"

definition cache_put ::
  "(string \<Rightarrow> string) \<Rightarrow> layout \<Rightarrow> duration \<Rightarrow> cache_limits \<Rightarrow> cache_state \<Rightarrow> instant \<Rightarrow> string \<Rightarrow> heap_value
    \<Rightarrow> cache_state option" where
  "cache_put sha256 lay ttl lims st now key v =
     (let k = generic_storage_key sha256 key; st1 = purge_expired st now in
      case generic_entry_footprint lay v lims of
        None \<Rightarrow> Some st1
      | Some f \<Rightarrow> insert_generic lims st1 k (value_of v) (now + ttl) f)"

section \<open>The ledger\<close>

text \<open>
  What the two entry maps have in common: for each namespace the keys with their expiry and
  their footprint. The index and the retained footprint are functions of it.
\<close>

definition ledger_of :: "(string, 'v cache_entry) hash_map \<Rightarrow> (string \<times> instant \<times> footprint) list" where
  "ledger_of m = map (\<lambda>(k, e). (k, expires_at e, entry_footprint e)) m"

fun ledger :: "cache_state \<Rightarrow> cache_namespace \<Rightarrow> (string \<times> instant \<times> footprint) list" where
  "ledger st Scoped = ledger_of (scoped_entries st)"
| "ledger st Generic = ledger_of (generic_entries st)"

fun other :: "cache_namespace \<Rightarrow> cache_namespace" where
  "other Scoped = Generic"
| "other Generic = Scoped"

definition ledger_bytes :: "(string \<times> instant \<times> footprint) list \<Rightarrow> nat" where
  "ledger_bytes l = sum_list (map (\<lambda>p. fp_bytes (snd (snd p))) l)"

definition ledger_nodes :: "(string \<times> instant \<times> footprint) list \<Rightarrow> nat" where
  "ledger_nodes l = sum_list (map (\<lambda>p. fp_nodes (snd (snd p))) l)"

definition index_of :: "cache_state \<Rightarrow> expiry_record set" where
  "index_of st = {r. \<exists>f. map_of (ledger st (fst (snd r))) (snd (snd r)) = Some (fst r, f)}"

text \<open>The accounts are exact, and everything is within the limits.\<close>

definition accounted :: "cache_state \<Rightarrow> bool" where
  "accounted st \<longleftrightarrow>
     (\<forall>ns. hm_wf (ledger st ns)) \<and>
     fp_bytes (retained_footprint st) = ledger_bytes (ledger st Scoped) + ledger_bytes (ledger st Generic) \<and>
     fp_nodes (retained_footprint st) = ledger_nodes (ledger st Scoped) + ledger_nodes (ledger st Generic)"

definition indexed :: "cache_state \<Rightarrow> bool" where
  "indexed st \<longleftrightarrow> sorted_wrt (<) (expiry_index st) \<and> set (expiry_index st) = index_of st"

definition within_limits :: "cache_limits \<Rightarrow> cache_state \<Rightarrow> bool" where
  "within_limits lims st \<longleftrightarrow>
     entry_count st \<le> max_entries lims \<and> fits_within (retained_footprint st) lims \<and>
     (\<forall>ns. \<forall>(k, t, f) \<in> set (ledger st ns).
        fp_bytes f \<le> max_entry_retained_bytes lims \<and> fp_nodes f \<le> max_entry_retained_nodes lims)"

definition cache_ok :: "cache_limits \<Rightarrow> cache_state \<Rightarrow> bool" where
  "cache_ok lims st \<longleftrightarrow> accounted st \<and> indexed st \<and> within_limits lims st"

lemma ledger_of_delete: "ledger_of (AList.delete k m) = AList.delete k (ledger_of m)"
  by (induction m) (auto simp: ledger_of_def)

lemma map_of_ledger_of:
  "map_of (ledger_of m) k = map_option (\<lambda>e. (expires_at e, entry_footprint e)) (map_of m k)"
  by (induction m) (auto simp: ledger_of_def)

lemma hm_wf_ledger_of [simp]: "hm_wf (ledger_of m) = hm_wf m"
  by (simp add: ledger_of_def comp_def case_prod_unfold)

lemma length_ledger_of [simp]: "length (ledger_of m) = length m"
  by (simp add: ledger_of_def)

lemma ledger_bytes_delete:
  "hm_wf l \<Longrightarrow> map_of l k = Some (t, f) \<Longrightarrow> ledger_bytes l = fp_bytes f + ledger_bytes (AList.delete k l)"
  using sum_list_delete [of l k "(t, f)" "\<lambda>p. fp_bytes (snd (snd p))"] by (simp add: ledger_bytes_def)

lemma ledger_nodes_delete:
  "hm_wf l \<Longrightarrow> map_of l k = Some (t, f) \<Longrightarrow> ledger_nodes l = fp_nodes f + ledger_nodes (AList.delete k l)"
  using sum_list_delete [of l k "(t, f)" "\<lambda>p. fp_nodes (snd (snd p))"] by (simp add: ledger_nodes_def)

lemma ledger_of_update_absent:
  "map_of m k = None \<Longrightarrow>
   ledger_of (AList.update k e m) = ledger_of m @ [(k, expires_at e, entry_footprint e)]"
  by (simp add: update_absent ledger_of_def)

lemma ledger_bytes_snoc [simp]: "ledger_bytes (l @ [(k, t, f)]) = ledger_bytes l + fp_bytes f"
  by (simp add: ledger_bytes_def)

lemma ledger_nodes_snoc [simp]: "ledger_nodes (l @ [(k, t, f)]) = ledger_nodes l + fp_nodes f"
  by (simp add: ledger_nodes_def)

lemma fp_eqI: "fp_bytes f = fp_bytes g \<Longrightarrow> fp_nodes f = fp_nodes g \<Longrightarrow> (f :: footprint) = g"
  by simp

lemma sorted_wrt_less_remove1: "sorted_wrt (<) xs \<Longrightarrow> sorted_wrt (<) (remove1 x (xs :: 'a :: linorder list))"
  by (induction xs) (auto dest: notin_set_remove1)

lemma strict_sorted_insort_insert:
  "sorted_wrt (<) xs \<Longrightarrow> sorted_wrt (<) (insort_insert x (xs :: 'a :: linorder list))"
  by (simp add: strict_sorted_iff sorted_insort_insert distinct_insort_insert)

lemma retained_split:
  "accounted st \<longleftrightarrow>
     hm_wf (ledger st ns) \<and> hm_wf (ledger st (other ns)) \<and>
     fp_bytes (retained_footprint st) = ledger_bytes (ledger st ns) + ledger_bytes (ledger st (other ns)) \<and>
     fp_nodes (retained_footprint st) = ledger_nodes (ledger st ns) + ledger_nodes (ledger st (other ns))"
proof -
  have "(\<forall>n. hm_wf (ledger st n)) \<longleftrightarrow> hm_wf (ledger st ns) \<and> hm_wf (ledger st (other ns))"
    by (metis (full_types) cache_namespace.exhaust other.simps)
  then show ?thesis by (cases ns) (auto simp: accounted_def add.commute)
qed

lemma entry_count_split: "entry_count st = length (ledger st ns) + length (ledger st (other ns))"
  by (cases ns) (simp_all add: entry_count_def)

lemma ledger_update [simp]:
  "ledger (st\<lparr>expiry_index := ix\<rparr>) n = ledger st n"
  "ledger (st\<lparr>retained_footprint := f\<rparr>) n = ledger st n"
  by (cases n; simp)+

lemma other_neq [simp]: "other ns \<noteq> ns" "ns \<noteq> other ns"
  by (cases ns; simp)+

lemma other_cases: "n = ns \<or> n = other ns"
  by (cases n; cases ns) simp_all

text \<open>When an insertion goes ahead: there is room for a new key, and for the footprint once the
  entry it replaces is gone.\<close>

definition accepts ::
  "(cache_state \<Rightarrow> (string, 'v cache_entry) hash_map) \<Rightarrow> cache_limits \<Rightarrow> cache_state \<Rightarrow> string
    \<Rightarrow> footprint \<Rightarrow> bool" where
  "accepts part lims st key f \<longleftrightarrow>
     \<not> (map_of (part st) key = None \<and> entry_count st \<ge> max_entries lims) \<and>
     can_retain st f (map_option entry_footprint (map_of (part st) key)) lims"

text \<open>
  The interface of one namespace of the cache: its entry map inside the state, removal and
  insertion as the code writes them. The two namespaces are its two interpretations.
\<close>

locale cache_partition =
  fixes ns :: cache_namespace
    and part :: "cache_state \<Rightarrow> (string, 'v cache_entry) hash_map"
    and put_part :: "(string, 'v cache_entry) hash_map \<Rightarrow> cache_state \<Rightarrow> cache_state"
    and remove :: "cache_state \<Rightarrow> string \<Rightarrow> cache_state"
    and insert_entry :: "cache_limits \<Rightarrow> cache_state \<Rightarrow> string \<Rightarrow> 'v \<Rightarrow> instant \<Rightarrow> footprint
      \<Rightarrow> cache_state option"
  assumes ledger_part: "ledger st ns = ledger_of (part st)"
    and part_put: "part (put_part m st) = m"
    and part_index: "part (st\<lparr>expiry_index := ix\<rparr>) = part st"
    and ledger_put_other: "ledger (put_part m st) (other ns) = ledger st (other ns)"
    and index_put: "expiry_index (put_part m st) = expiry_index st"
    and retained_put: "retained_footprint (put_part m st) = retained_footprint st"
    and remove_eq: "remove st key =
      (case map_of (part st) key of
         None \<Rightarrow> st
       | Some e \<Rightarrow> put_part (AList.delete key (part st))
           (st\<lparr>expiry_index := remove1 (expires_at e, ns, key) (expiry_index st),
              retained_footprint := without (retained_footprint st) (entry_footprint e)\<rparr>))"
    and insert_eq: "insert_entry lims st key v expires f =
      (let replaced = map_option entry_footprint (map_of (part st) key) in
       if replaced = None \<and> entry_count st \<ge> max_entries lims \<or> \<not> can_retain st f replaced lims
       then Some st
       else
         (case fp_checked_add (retained_footprint (remove st key)) f of
            None \<Rightarrow> None
          | Some tot \<Rightarrow>
              Some (put_part
                (AList.update key \<lparr>entry_value = v, expires_at = expires, entry_footprint = f\<rparr>
                   (part (remove st key)))
                ((remove st key)\<lparr>retained_footprint := tot,
                   expiry_index := insort_insert (expires, ns, key) (expiry_index (remove st key))\<rparr>))))"
begin

lemma remove_absent: "map_of (part st) key = None \<Longrightarrow> remove st key = st"
  by (simp add: remove_eq)

lemma ledger_lookup:
  "map_of (ledger st ns) key = map_option (\<lambda>e. (expires_at e, entry_footprint e)) (map_of (part st) key)"
  by (simp add: ledger_part map_of_ledger_of)

lemma ledger_put: "ledger (put_part m st) ns = ledger_of m"
  by (simp add: ledger_part part_put)

lemma ledger_remove:
  "ledger (remove st key) ns = AList.delete key (ledger st ns)"
  "ledger (remove st key) (other ns) = ledger st (other ns)"
proof -
  have "AList.delete key (ledger_of (part st)) = ledger_of (part st)" if "map_of (part st) key = None"
    using that by (simp add: delete_absent map_of_ledger_of)
  then show "ledger (remove st key) ns = AList.delete key (ledger st ns)"
    by (auto simp: remove_eq part_put ledger_of_delete ledger_part split: option.splits)
  show "ledger (remove st key) (other ns) = ledger st (other ns)"
    by (auto simp: remove_eq ledger_put_other split: option.splits)
qed

lemma part_remove: "part (remove st key) = AList.delete key (part st)"
proof (cases "map_of (part st) key")
  case None
  then show ?thesis by (simp add: remove_absent delete_absent)
next
  case (Some e)
  then show ?thesis by (simp add: remove_eq part_put)
qed

lemma retained_remove:
  assumes "accounted st" and "map_of (part st) key = Some e"
  shows "fp_bytes (retained_footprint st) = fp_bytes (retained_footprint (remove st key)) + fp_bytes (entry_footprint e)"
    and "fp_nodes (retained_footprint st) = fp_nodes (retained_footprint (remove st key)) + fp_nodes (entry_footprint e)"
proof -
  have wf: "hm_wf (ledger st ns)" using assms(1) by (simp add: retained_split [of st ns])
  have e: "map_of (ledger st ns) key = Some (expires_at e, entry_footprint e)"
    using assms(2) by (simp add: ledger_lookup)
  note ledger_bytes_delete [OF wf e] ledger_nodes_delete [OF wf e]
  with assms show "fp_bytes (retained_footprint st) = fp_bytes (retained_footprint (remove st key)) + fp_bytes (entry_footprint e)"
    "fp_nodes (retained_footprint st) = fp_nodes (retained_footprint (remove st key)) + fp_nodes (entry_footprint e)"
    by (simp_all add: retained_split [of st ns] remove_eq retained_put without_def)
qed

lemma accounted_remove:
  assumes "accounted st"
  shows "accounted (remove st key)"
proof (cases "map_of (part st) key")
  case None
  with assms show ?thesis by (simp add: remove_absent)
next
  case (Some e)
  have wf: "hm_wf (ledger st ns)" using assms by (simp add: retained_split [of st ns])
  have e: "map_of (ledger st ns) key = Some (expires_at e, entry_footprint e)"
    using Some by (simp add: ledger_lookup)
  show ?thesis
    using assms retained_remove [OF assms Some] ledger_bytes_delete [OF wf e] ledger_nodes_delete [OF wf e]
    by (auto simp: retained_split [of _ ns] ledger_remove hm_wf_delete)
qed

lemma map_of_ledger_remove:
  "map_of (ledger (remove st key) n) k = (if n = ns \<and> k = key then None else map_of (ledger st n) k)"
  using other_cases [of n ns] by (auto simp: ledger_remove map_of_delete)

lemma index_of_remove:
  assumes "map_of (part st) key = Some e"
  shows "index_of (remove st key) = index_of st - {(expires_at e, ns, key)}"
proof -
  have "map_of (ledger st ns) key = Some (expires_at e, entry_footprint e)"
    using assms by (simp add: ledger_lookup)
  then show ?thesis by (auto simp: index_of_def map_of_ledger_remove split: if_splits)
qed

lemma index_remove:
  assumes "map_of (part st) key = Some e"
  shows "expiry_index (remove st key) = remove1 (expires_at e, ns, key) (expiry_index st)"
  using assms by (simp add: remove_eq index_put)

text \<open>Removal keeps the index exact, also after the record of the removed entry was popped.\<close>

lemma indexed_remove:
  assumes "sorted_wrt (<) (expiry_index st)" and "map_of (part st) key = Some e"
    and "set (expiry_index st) - {(expires_at e, ns, key)} = index_of st - {(expires_at e, ns, key)}"
  shows "indexed (remove st key)"
proof -
  have "distinct (expiry_index st)" using assms(1) by (simp add: strict_sorted_iff)
  with assms show ?thesis
    by (simp add: indexed_def index_remove index_of_remove sorted_wrt_less_remove1)
qed

lemma within_limits_remove:
  assumes "within_limits lims st"
  shows "within_limits lims (remove st key)"
proof -
  have sub: "set (ledger (remove st key) n) \<subseteq> set (ledger st n)" for n
    using other_cases [of n ns] by (auto simp: ledger_remove dest: subsetD [OF set_delete_subset])
  have "length (AList.delete key (ledger st ns)) \<le> length (ledger st ns)" by (rule length_delete_le)
  then have "entry_count (remove st key) \<le> entry_count st"
    by (simp add: entry_count_split [of _ ns] ledger_remove)
  moreover have "fits_within (retained_footprint (remove st key)) lims"
    using assms
    by (auto simp: within_limits_def fits_within_def remove_eq retained_put without_def
        split: option.splits)
  ultimately show ?thesis using assms sub unfolding within_limits_def by fastforce
qed

lemma cache_ok_remove:
  assumes "cache_ok lims st"
  shows "cache_ok lims (remove st key)"
proof (cases "map_of (part st) key")
  case None
  with assms show ?thesis by (simp add: remove_absent)
next
  case (Some e)
  from assms have "indexed (remove st key)"
    by (intro indexed_remove [OF _ Some]) (simp_all add: cache_ok_def indexed_def)
  with assms show ?thesis by (simp add: cache_ok_def accounted_remove within_limits_remove)
qed

text \<open>Insertion: refused, it changes nothing; accepted, it replaces the entry. It never panics.\<close>

lemma room_after_remove:
  assumes "accounted st" and "accepts part lims st key f"
  shows "fp_checked_add (retained_footprint (remove st key)) f =
      Some \<lparr>fp_bytes = fp_bytes (retained_footprint (remove st key)) + fp_bytes f,
            fp_nodes = fp_nodes (retained_footprint (remove st key)) + fp_nodes f\<rparr>"
    and "fp_bytes (retained_footprint (remove st key)) + fp_bytes f \<le> max_retained_bytes lims"
    and "fp_nodes (retained_footprint (remove st key)) + fp_nodes f \<le> max_retained_nodes lims"
proof -
  have eq: "without (retained_footprint st)
      (case map_option entry_footprint (map_of (part st) key) of Some f \<Rightarrow> f | None \<Rightarrow> zero_footprint) =
      retained_footprint (remove st key)"
    by (auto simp: remove_eq retained_put without_def zero_footprint_def split: option.splits)
  from assms(2) show "fp_checked_add (retained_footprint (remove st key)) f =
      Some \<lparr>fp_bytes = fp_bytes (retained_footprint (remove st key)) + fp_bytes f,
            fp_nodes = fp_nodes (retained_footprint (remove st key)) + fp_nodes f\<rparr>"
    "fp_bytes (retained_footprint (remove st key)) + fp_bytes f \<le> max_retained_bytes lims"
    "fp_nodes (retained_footprint (remove st key)) + fp_nodes f \<le> max_retained_nodes lims"
    unfolding accepts_def can_retain_def eq
    by (auto simp: fp_checked_add_def fits_within_def split: option.splits)
qed

lemma insert_refused: "\<not> accepts part lims st key f \<Longrightarrow> insert_entry lims st key v expires f = Some st"
  by (auto simp: insert_eq accepts_def Let_def)

lemma insert_accepted:
  assumes "accounted st" and "accepts part lims st key f"
  shows "\<exists>st'. insert_entry lims st key v expires f = Some st' \<and>
    part st' = AList.update key \<lparr>entry_value = v, expires_at = expires, entry_footprint = f\<rparr>
      (AList.delete key (part st)) \<and>
    ledger st' (other ns) = ledger st (other ns) \<and>
    expiry_index st' = insort_insert (expires, ns, key) (expiry_index (remove st key)) \<and>
    fp_bytes (retained_footprint st') = fp_bytes (retained_footprint (remove st key)) + fp_bytes f \<and>
    fp_nodes (retained_footprint st') = fp_nodes (retained_footprint (remove st key)) + fp_nodes f"
proof -
  have "insert_entry lims st key v expires f =
      Some (put_part
        (AList.update key \<lparr>entry_value = v, expires_at = expires, entry_footprint = f\<rparr>
           (part (remove st key)))
        ((remove st key)\<lparr>retained_footprint :=
            \<lparr>fp_bytes = fp_bytes (retained_footprint (remove st key)) + fp_bytes f,
             fp_nodes = fp_nodes (retained_footprint (remove st key)) + fp_nodes f\<rparr>,
           expiry_index := insort_insert (expires, ns, key) (expiry_index (remove st key))\<rparr>))"
    using assms(2) by (auto simp: insert_eq Let_def accepts_def room_after_remove [OF assms])
  then show ?thesis
    by (simp add: part_put index_put retained_put ledger_put_other ledger_remove part_remove)
qed

lemma cache_ok_insert:
  assumes ok: "cache_ok lims st" and fb: "fp_bytes f \<le> max_entry_retained_bytes lims"
    and fn: "fp_nodes f \<le> max_entry_retained_nodes lims"
  shows "\<exists>st'. insert_entry lims st key v expires f = Some st' \<and> cache_ok lims st'"
proof (cases "accepts part lims st key f")
  case False
  with ok show ?thesis by (simp add: insert_refused)
next
  case True
  from ok have acc: "accounted st" by (simp add: cache_ok_def)
  let ?r = "remove st key"
  have rok: "cache_ok lims ?r" using ok by (rule cache_ok_remove)
  obtain st' where ins: "insert_entry lims st key v expires f = Some st'"
    and part': "part st' = AList.update key \<lparr>entry_value = v, expires_at = expires, entry_footprint = f\<rparr>
      (AList.delete key (part st))"
    and oth: "ledger st' (other ns) = ledger ?r (other ns)"
    and idx: "expiry_index st' = insort_insert (expires, ns, key) (expiry_index ?r)"
    and ret: "fp_bytes (retained_footprint st') = fp_bytes (retained_footprint ?r) + fp_bytes f"
      "fp_nodes (retained_footprint st') = fp_nodes (retained_footprint ?r) + fp_nodes f"
    using insert_accepted [OF acc True] by (auto simp: ledger_remove)
  have fresh: "map_of (AList.delete key (part st)) key = None" by (simp add: map_of_delete)
  then have led: "ledger st' ns = ledger ?r ns @ [(key, expires, f)]"
    by (simp add: ledger_part part' ledger_of_update_absent part_remove)
  have absent: "map_of (ledger ?r ns) key = None" by (simp add: map_of_ledger_remove)
  have "accounted st'"
    using rok absent ret
    by (auto simp: cache_ok_def retained_split [of _ ns] led oth map_of_eq_None_iff)
  moreover have "indexed st'"
  proof -
    have look: "map_of (ledger st' n) k =
        (if n = ns \<and> k = key then Some (expires, f) else map_of (ledger ?r n) k)" for n k
      using other_cases [of n ns] absent by (auto simp: led oth map_add_def split: option.split)
    have "index_of st' = insert (expires, ns, key) (index_of ?r)"
      using absent by (auto simp: index_of_def look)
    with rok show ?thesis
      by (simp add: cache_ok_def indexed_def idx strict_sorted_insort_insert set_insort_insert)
  qed
  moreover have "within_limits lims st'"
  proof -
    have "entry_count st' \<le> max_entries lims"
    proof (cases "map_of (part st) key")
      case None
      then have "ledger ?r ns = ledger st ns" by (simp add: remove_absent)
      with None True show ?thesis
        by (simp add: accepts_def entry_count_split [of _ ns] led oth ledger_remove)
    next
      case (Some e)
      then have "map_of (ledger st ns) key = Some (expires_at e, entry_footprint e)"
        by (simp add: ledger_lookup)
      with acc have "length (ledger st ns) = Suc (length (ledger ?r ns))"
        by (simp add: retained_split [of _ ns] ledger_remove length_delete_present)
      with ok show ?thesis
        by (simp add: cache_ok_def within_limits_def entry_count_split [of _ ns] led oth ledger_remove)
    qed
    moreover have "fits_within (retained_footprint st') lims"
      using room_after_remove(2,3) [OF acc True] ret by (simp add: fits_within_def)
    moreover have "\<forall>(k, t, g) \<in> set (ledger st' n).
        fp_bytes g \<le> max_entry_retained_bytes lims \<and> fp_nodes g \<le> max_entry_retained_nodes lims" for n
    proof -
      have "\<forall>(k, t, g) \<in> set (ledger ?r m).
          fp_bytes g \<le> max_entry_retained_bytes lims \<and> fp_nodes g \<le> max_entry_retained_nodes lims" for m
        using rok by (simp add: cache_ok_def within_limits_def)
      then show ?thesis using other_cases [of n ns] fb fn by (cases "n = ns") (simp_all add: led oth)
    qed
    ultimately show ?thesis by (simp add: within_limits_def)
  qed
  ultimately show ?thesis using ins by (simp add: cache_ok_def)
qed

text \<open>The first record of a correct index names an entry; removing both keeps the cache correct.\<close>

lemma cache_ok_pop:
  assumes ok: "cache_ok lims st" and ix: "expiry_index st = (t, ns, key) # records"
  shows "\<exists>e. map_of (part st) key = Some e \<and> expires_at e = t"
    and "cache_ok lims (remove (st\<lparr>expiry_index := records\<rparr>) key)"
proof -
  let ?s = "st\<lparr>expiry_index := records\<rparr>"
  from ok ix have sorted: "sorted_wrt (<) ((t, ns, key) # records)"
    and set: "insert (t, ns, key) (set records) = index_of st"
    by (simp_all add: cache_ok_def indexed_def)
  from set have "(t, ns, key) \<in> index_of st" by blast
  then obtain e where e: "map_of (part st) key = Some e" "expires_at e = t"
    by (auto simp: index_of_def ledger_lookup)
  then show "\<exists>e. map_of (part st) key = Some e \<and> expires_at e = t" by blast
  have fields: "index_of ?s = index_of st" "accounted ?s = accounted st"
    "within_limits lims ?s = within_limits lims st"
    by (simp_all add: index_of_def accounted_def within_limits_def entry_count_split [of _ ns])
  have "set records - {(t, ns, key)} = index_of st - {(t, ns, key)}"
    unfolding set [symmetric] by auto
  then have "indexed (remove ?s key)"
    using sorted e by (intro indexed_remove [where e = e]) (simp_all add: part_index fields)
  with ok show "cache_ok lims (remove ?s key)"
    using fields by (simp add: cache_ok_def accounted_remove within_limits_remove)
qed

end

interpretation scoped: cache_partition Scoped scoped_entries
  "\<lambda>m st. st\<lparr>scoped_entries := m\<rparr>" remove_scoped insert_scoped
  by unfold_locales (auto simp: remove_scoped_def insert_scoped_def Let_def split: option.splits)

interpretation generic: cache_partition Generic generic_entries
  "\<lambda>m st. st\<lparr>generic_entries := m\<rparr>" remove_generic insert_generic
  by unfold_locales (auto simp: remove_generic_def insert_generic_def Let_def split: option.splits)

section \<open>Purging\<close>

definition live :: "instant \<Rightarrow> (string, 'v cache_entry) hash_map \<Rightarrow> (string, 'v cache_entry) hash_map" where
  "live now m = filter (\<lambda>p. now < expires_at (snd p)) m"

lemma map_of_live:
  "hm_wf m \<Longrightarrow> map_of (live now m) k =
     (case map_of m k of Some e \<Rightarrow> if now < expires_at e then Some e else None | None \<Rightarrow> None)"
  by (induction m) (auto simp: live_def map_of_eq_None_iff split: option.splits
      intro!: map_of_eq_None_iff [THEN iffD2] dest: map_of_SomeD)

lemma live_delete:
  "hm_wf m \<Longrightarrow> map_of m k = Some e \<Longrightarrow> expires_at e \<le> now \<Longrightarrow> live now (AList.delete k m) = live now m"
proof (induction m)
  case (Cons p m)
  show ?case
  proof (cases "fst p = k")
    case True
    with Cons.prems have "p = (k, e)" "k \<notin> fst ` set m" by (cases p; simp)+
    with Cons.prems show ?thesis by (simp add: live_def delete_absent map_of_eq_None_iff)
  next
    case False
    with Cons show ?thesis by (cases p) (simp add: live_def)
  qed
qed simp

lemma live_all:
  "hm_wf m \<Longrightarrow> (\<And>k e. map_of m k = Some e \<Longrightarrow> now < expires_at e) \<Longrightarrow> live now m = m"
  unfolding live_def by (rule filter_True) (metis map_of_is_SomeI prod.collapse)

lemma purge_facts:
  assumes "cache_ok lims st"
  shows "cache_ok lims (purge_expired st now) \<and>
    scoped_entries (purge_expired st now) = live now (scoped_entries st) \<and>
    generic_entries (purge_expired st now) = live now (generic_entries st)"
  using assms
proof (induction st now rule: purge_expired.induct)
  case (1 st now)
  from "1.prems" have wf: "hm_wf (scoped_entries st)" "hm_wf (generic_entries st)"
    by (auto simp: cache_ok_def accounted_def dest: spec [of _ Scoped] spec [of _ Generic])
  show ?case
  proof (cases "\<exists>t n key records. expiry_index st = (t, n, key) # records \<and> t \<le> now")
    case True
    then obtain t n key records where ix: "expiry_index st = (t, n, key) # records" and t: "t \<le> now"
      by blast
    let ?s = "remove_record (st\<lparr>expiry_index := records\<rparr>) (t, n, key)"
    have ok: "cache_ok lims ?s"
      using scoped.cache_ok_pop(2) [OF "1.prems"] generic.cache_ok_pop(2) [OF "1.prems"] ix
      by (cases n) (simp_all add: remove_record_def)
    have parts: "live now (scoped_entries ?s) = live now (scoped_entries st)"
      "live now (generic_entries ?s) = live now (generic_entries st)"
      using scoped.cache_ok_pop(1) [OF "1.prems"] generic.cache_ok_pop(1) [OF "1.prems"] ix t wf
      by (cases n; force simp: remove_record_def remove_scoped_def remove_generic_def live_delete)+
    have "purge_expired st now = purge_expired ?s now"
      using ix t by (simp add: purge_expired.simps [of st])
    with "1.IH" [OF ix] ok parts t show ?thesis by simp
  next
    case False
    then have eq: "purge_expired st now = st"
      by (auto simp: purge_expired.simps [of st] split: list.splits)
    have late: "now < fst r" if "r \<in> set (expiry_index st)" for r
    proof (cases "expiry_index st")
      case (Cons q qs)
      have "now < fst q" using False Cons by (cases q) auto
      moreover have "sorted_wrt (<) (q # qs)"
        using "1.prems" Cons by (simp add: cache_ok_def indexed_def)
      then have "fst q \<le> fst r" using that Cons by (auto simp: less_prod_def)
      ultimately show ?thesis by simp
    qed (use that in simp)
    have "now < expires_at e" if "map_of (scoped_entries st) k = Some e" for k e
      using late [of "(expires_at e, Scoped, k)"] "1.prems" that
      by (simp add: cache_ok_def indexed_def index_of_def map_of_ledger_of)
    moreover have "now < expires_at e" if "map_of (generic_entries st) k = Some e" for k e
      using late [of "(expires_at e, Generic, k)"] "1.prems" that
      by (simp add: cache_ok_def indexed_def index_of_def map_of_ledger_of)
    ultimately show ?thesis
      using "1.prems" live_all [OF wf(1), of now] live_all [OF wf(2), of now] by (simp add: eq)
  qed
qed

section \<open>Sequences of operations\<close>

datatype cache_op =
    Lookup instant idempotency_context
  | Store instant idempotency_context heap_value
  | Get instant string
  | Put instant string heap_value

fun apply_op ::
  "(string \<Rightarrow> string) \<Rightarrow> layout \<Rightarrow> duration \<Rightarrow> cache_limits \<Rightarrow> cache_op \<Rightarrow> cache_state \<Rightarrow> cache_state option" where
  "apply_op sha256 lay ttl lims (Lookup now ctx) st = Some (snd (cache_lookup st now ctx))"
| "apply_op sha256 lay ttl lims (Store now ctx r) st = cache_store lay ttl lims st now ctx r"
| "apply_op sha256 lay ttl lims (Get now key) st = Some (snd (cache_get sha256 st now key))"
| "apply_op sha256 lay ttl lims (Put now key v) st = cache_put sha256 lay ttl lims st now key v"

fun run_ops ::
  "(string \<Rightarrow> string) \<Rightarrow> layout \<Rightarrow> duration \<Rightarrow> cache_limits \<Rightarrow> cache_op list \<Rightarrow> cache_state \<Rightarrow> cache_state option" where
  "run_ops sha256 lay ttl lims [] st = Some st"
| "run_ops sha256 lay ttl lims (c # cs) st =
     Option.bind (apply_op sha256 lay ttl lims c st) (run_ops sha256 lay ttl lims cs)"

text \<open>Footprints of entries never exceed the limits of an entry.\<close>

lemma add_all_bytes_le:
  "add_all_bytes f bs limit = Some g \<Longrightarrow> fp_bytes f \<le> limit \<Longrightarrow> fp_bytes g \<le> limit \<and> fp_nodes g = fp_nodes f"
  by (induction f bs limit rule: add_all_bytes.induct) (auto simp: add_bytes_if split: if_splits)

lemma push_members_le:
  "push_members kvs f mb p = Some (g, q) \<Longrightarrow> fp_bytes f \<le> mb \<Longrightarrow> fp_bytes g \<le> mb \<and> fp_nodes g = fp_nodes f"
  by (induction kvs f mb p rule: push_members.induct) (auto simp: add_bytes_if split: if_splits)

lemma visit_le:
  "visit lay mb mn f v p = Some (g, q) \<Longrightarrow> fp_bytes g \<le> mb \<and> fp_nodes g \<le> mn"
  by (auto simp: visit_def add_bytes_if add_node_if split: option.splits if_splits heap_value.splits
      dest!: push_members_le)

lemma estimate_loop_le:
  "estimate_loop lay mb mn f p = Some g \<Longrightarrow> fp_bytes f \<le> mb \<Longrightarrow> fp_nodes f \<le> mn \<Longrightarrow>
   fp_bytes g \<le> mb \<and> fp_nodes g \<le> mn"
  by (induction lay mb mn f p rule: estimate_loop.induct) (auto dest: visit_le split: option.splits)

lemma estimate_value_le:
  "estimate_value_footprint lay v mb mn = Some f \<Longrightarrow> fp_bytes f \<le> mb \<and> fp_nodes f \<le> mn"
  unfolding estimate_value_footprint_def
  by (drule estimate_loop_le) (simp_all add: zero_footprint_def)

lemma scoped_footprint_le:
  "scoped_entry_footprint lay r lims = Some f \<Longrightarrow>
   fp_bytes f \<le> max_entry_retained_bytes lims \<and> fp_nodes f \<le> max_entry_retained_nodes lims"
  unfolding scoped_entry_footprint_def
  by (cases "estimate_value_footprint lay r (max_entry_retained_bytes lims) (max_entry_retained_nodes lims)")
    (auto simp del: add_all_bytes.simps dest!: estimate_value_le add_all_bytes_le)

lemma generic_footprint_le:
  "generic_entry_footprint lay r lims = Some f \<Longrightarrow>
   fp_bytes f \<le> max_entry_retained_bytes lims \<and> fp_nodes f \<le> max_entry_retained_nodes lims"
  unfolding generic_entry_footprint_def
  by (cases "estimate_value_footprint lay r (max_entry_retained_bytes lims) (max_entry_retained_nodes lims)")
    (auto simp del: add_all_bytes.simps dest!: estimate_value_le add_all_bytes_le)

lemma cache_ok_empty: "cache_ok lims empty_cache"
proof -
  have "ledger empty_cache n = []" for n by (cases n) (simp_all add: empty_cache_def ledger_of_def)
  moreover have "expiry_index empty_cache = []" "retained_footprint empty_cache = zero_footprint"
    by (simp_all add: empty_cache_def)
  ultimately show ?thesis
    by (simp add: cache_ok_def accounted_def indexed_def index_of_def within_limits_def fits_within_def
        entry_count_split [of _ Scoped] ledger_bytes_def ledger_nodes_def zero_footprint_def
        del: ledger.simps)
qed

lemma cache_ok_apply:
  assumes "cache_ok lims st"
  shows "\<exists>st'. apply_op sha256 lay ttl lims c st = Some st' \<and> cache_ok lims st'"
proof (cases c)
  case (Lookup now ctx)
  with assms scoped.cache_ok_remove [OF assms] show ?thesis
    by (simp add: cache_lookup_def split: option.split)
next
  case (Get now key)
  with assms generic.cache_ok_remove [OF assms] show ?thesis
    by (simp add: cache_get_def Let_def split: option.split)
next
  case (Store now ctx r)
  from assms have "cache_ok lims (purge_expired st now)" using purge_facts by blast
  with Store show ?thesis
    by (auto simp: cache_store_def Let_def split: option.split
        dest!: scoped_footprint_le intro: scoped.cache_ok_insert)
next
  case (Put now key v)
  from assms have "cache_ok lims (purge_expired st now)" using purge_facts by blast
  with Put show ?thesis
    by (auto simp: cache_put_def Let_def split: option.split
        dest!: generic_footprint_le intro: generic.cache_ok_insert)
qed

lemma cache_ok_run:
  assumes "cache_ok lims st"
  shows "\<exists>st'. run_ops sha256 lay ttl lims cs st = Some st' \<and> cache_ok lims st'"
  using assms
proof (induction cs arbitrary: st)
  case (Cons c cs)
  obtain st1 where "apply_op sha256 lay ttl lims c st = Some st1" "cache_ok lims st1"
    using cache_ok_apply [OF Cons.prems] by blast
  with Cons.IH show ?case by simp
qed simp

text \<open>Every scoped entry was put there by a \<open>store\<close> of the run.\<close>

definition stored_by :: "duration \<Rightarrow> cache_op list \<Rightarrow> string \<Rightarrow> cached_response cache_entry \<Rightarrow> bool" where
  "stored_by ttl cs key e \<longleftrightarrow>
     (\<exists>now ctx r. Store now ctx r \<in> set cs \<and> storage_key ctx = key \<and>
        entry_value e = new_cached ctx (value_of r) \<and> expires_at e = now + ttl)"

lemma stored_by_append: "stored_by ttl cs key e \<Longrightarrow> stored_by ttl (cs @ ds) key e"
  by (auto simp: stored_by_def)

lemma cache_okD:
  assumes "cache_ok lims st"
  shows "accounted st" and "hm_wf (scoped_entries st)" and "hm_wf (generic_entries st)"
  using assms by (auto simp: cache_ok_def accounted_def dest: spec [of _ Scoped] spec [of _ Generic])

lemma insert_scoped_entries:
  assumes "cache_ok lims st" and "insert_scoped lims st key v expires f = Some st'"
    and "map_of (scoped_entries st') k = Some e"
  shows "map_of (scoped_entries st) k = Some e \<or> k = key \<and> entry_value e = v \<and> expires_at e = expires"
proof (cases "accepts scoped_entries lims st key f")
  case True
  from scoped.insert_accepted [OF cache_okD(1) [OF assms(1)] True, of v expires] assms(2,3) show ?thesis
    by (auto simp: map_of_update map_of_delete split: if_splits)
next
  case False
  with assms show ?thesis by (simp add: scoped.insert_refused)
qed

lemma insert_generic_scoped:
  assumes "cache_ok lims st" and "insert_generic lims st key v expires f = Some st'"
    and "map_of (scoped_entries st') k = Some e"
  shows "map_of (scoped_entries st) k = Some e"
  using assms(2,3)
  by (auto simp: insert_generic_def remove_generic_def Let_def split: option.splits if_splits)

lemma scoped_after:
  assumes ok: "cache_ok lims st" and step: "apply_op sha256 lay ttl lims c st = Some st'"
    and e: "map_of (scoped_entries st') k = Some e"
  shows "map_of (scoped_entries st) k = Some e \<or> stored_by ttl [c] k e"
proof -
  have purged: "map_of (scoped_entries (purge_expired st now)) k = Some e \<Longrightarrow>
      map_of (scoped_entries st) k = Some e" for now
    using purge_facts [OF ok] cache_okD(2) [OF ok] by (simp add: map_of_live split: option.splits if_splits)
  have pok: "cache_ok lims (purge_expired st now)" for now using purge_facts [OF ok] by blast
  show ?thesis
  proof (cases c)
    case (Store now ctx r)
    with step e purged insert_scoped_entries [OF pok] show ?thesis
      by (fastforce simp: cache_store_def Let_def stored_by_def split: option.splits)
  next
    case (Put now key v)
    with step e purged insert_generic_scoped [OF pok] show ?thesis
      by (auto simp: cache_put_def Let_def split: option.splits) metis
  qed (use step e in \<open>auto simp: cache_lookup_def cache_get_def Let_def scoped.part_remove
         remove_generic_def map_of_delete split: option.splits if_splits\<close>)
qed

lemma run_ops_append:
  "run_ops sha256 lay ttl lims (cs @ ds) st =
     Option.bind (run_ops sha256 lay ttl lims cs st) (run_ops sha256 lay ttl lims ds)"
proof (induction cs arbitrary: st)
  case (Cons c cs)
  then show ?case by (cases "apply_op sha256 lay ttl lims c st") simp_all
qed simp

lemma scoped_from_store:
  assumes "run_ops sha256 lay ttl lims cs empty_cache = Some st"
    and "map_of (scoped_entries st) k = Some e"
  shows "stored_by ttl cs k e"
  using assms
proof (induction cs arbitrary: st rule: rev_induct)
  case Nil
  then show ?case by (auto simp: empty_cache_def)
next
  case (snoc c cs)
  obtain st0 where run: "run_ops sha256 lay ttl lims cs empty_cache = Some st0" and ok: "cache_ok lims st0"
    using cache_ok_run [OF cache_ok_empty] by blast
  with snoc.prems(1) have "apply_op sha256 lay ttl lims c st0 = Some st"
    by (cases "apply_op sha256 lay ttl lims c st0") (simp_all add: run_ops_append)
  from scoped_after [OF ok this snoc.prems(2)] show ?case
    using snoc.IH [OF run] by (auto simp: stored_by_def)
qed

section \<open>Properties\<close>

text \<open>What identifies a request to the gateway, and the messages hashed for it.\<close>

record request_id =
  tenant_scope :: string
  credential_scope :: string
  route_scope :: string
  client_key :: string
  canonical_request :: json

definition context_of :: "(string \<Rightarrow> string) \<Rightarrow> (json \<Rightarrow> string) \<Rightarrow> request_id \<Rightarrow> idempotency_context" where
  "context_of sha256 to_str i =
     new_context sha256 to_str (tenant_scope i) (credential_scope i) (route_scope i) (client_key i)
       (canonical_request i)"

definition owner_parts :: "request_id \<Rightarrow> string list" where
  "owner_parts i = [tenant_scope i, credential_scope i, route_scope i, client_key i]"

definition request_parts :: "(json \<Rightarrow> string) \<Rightarrow> request_id \<Rightarrow> string list" where
  "request_parts to_str i = [route_scope i, to_str (canonical_request i)]"

definition hashed_messages :: "(json \<Rightarrow> string) \<Rightarrow> request_id list \<Rightarrow> string set" where
  "hashed_messages to_str ids = set (map (\<lambda>i. framed_parts ''llmshim-gateway-idempotency-owner-v1'' (owner_parts i)) ids
     @ map (\<lambda>i. framed_parts ''llmshim-gateway-idempotency-request-v1'' (request_parts to_str i)) ids)"

definition lengths_fit :: "(json \<Rightarrow> string) \<Rightarrow> request_id \<Rightarrow> bool" where
  "lengths_fit to_str i = list_all (\<lambda>p. length p \<le> u64_max) (owner_parts i @ request_parts to_str i)"

lemma same_context:
  assumes "inj_on sha256 (hashed_messages to_str ids)" and "i \<in> set ids" and "j \<in> set ids"
    and fit: "lengths_fit to_str i" "lengths_fit to_str j"
  shows "storage_key (context_of sha256 to_str i) = storage_key (context_of sha256 to_str j) \<Longrightarrow>
      owner_parts i = owner_parts j"
    and "request_fingerprint (context_of sha256 to_str i) = request_fingerprint (context_of sha256 to_str j) \<Longrightarrow>
      request_parts to_str i = request_parts to_str j"
proof -
  let ?o = "\<lambda>i. framed_parts ''llmshim-gateway-idempotency-owner-v1'' (owner_parts i)"
  let ?q = "\<lambda>i. framed_parts ''llmshim-gateway-idempotency-request-v1'' (request_parts to_str i)"
  have mem: "?o i \<in> hashed_messages to_str ids" "?o j \<in> hashed_messages to_str ids"
    "?q i \<in> hashed_messages to_str ids" "?q j \<in> hashed_messages to_str ids"
    using assms(2,3) by (auto simp: hashed_messages_def)
  { assume "storage_key (context_of sha256 to_str i) = storage_key (context_of sha256 to_str j)"
    then have "?o i = ?o j"
      using inj_onD [OF assms(1) _ mem(1,2)]
      by (simp add: context_of_def new_context_def digest_parts_def owner_parts_def)
    then show "owner_parts i = owner_parts j"
      using fit by (intro framed_parts_inj [of _ _ "''llmshim-gateway-idempotency-owner-v1''"])
        (simp_all add: owner_parts_def lengths_fit_def) }
  { assume "request_fingerprint (context_of sha256 to_str i) = request_fingerprint (context_of sha256 to_str j)"
    then have "?q i = ?q j"
      using inj_onD [OF assms(1) _ mem(3,4)]
      by (simp add: context_of_def new_context_def digest_parts_def request_parts_def)
    then show "request_parts to_str i = request_parts to_str j"
      using fit by (intro framed_parts_inj [of _ _ "''llmshim-gateway-idempotency-request-v1''"])
        (simp_all add: request_parts_def lengths_fit_def) }
qed

lemma cached_lookup_Replay:
  "cached_lookup (new_cached ctx' w) ctx = Replay v \<longleftrightarrow>
     request_fingerprint ctx' = request_fingerprint ctx \<and> w = v"
  by (auto simp: cached_lookup_def new_cached_def)

text \<open>C7. A replay is bound to its owner and its request. In every run of operations from the empty
  cache whose stores are for the requests \<open>ids\<close>, a lookup that replays a response replays one
  that was stored for a request with the same tenant, credential, route and client key and the
  same canonical request text, less than the time to live ago. SHA-256 is assumed to have no
  collision among the messages hashed for these requests.\<close>

theorem replay_bound_to_request:
  assumes run: "run_ops sha256 lay ttl lims cs empty_cache = Some st"
    and stores: "\<forall>now ctx r. Store now ctx r \<in> set cs \<longrightarrow> ctx \<in> context_of sha256 to_str ` set ids"
    and collision_free: "inj_on sha256 (hashed_messages to_str (i # ids))"
    and fit: "list_all (lengths_fit to_str) (i # ids)"
    and replay: "fst (cache_lookup st now (context_of sha256 to_str i)) = Replay v"
  shows "\<exists>t j r. Store t (context_of sha256 to_str j) r \<in> set cs \<and> value_of r = v \<and> now < t + ttl \<and>
      tenant_scope j = tenant_scope i \<and> credential_scope j = credential_scope i \<and>
      route_scope j = route_scope i \<and> client_key j = client_key i \<and>
      to_str (canonical_request j) = to_str (canonical_request i)"
proof -
  let ?ctx = "context_of sha256 to_str i"
  obtain e where e: "map_of (scoped_entries st) (storage_key ?ctx) = Some e" "now < expires_at e"
    "cached_lookup (entry_value e) ?ctx = Replay v"
    using replay by (auto simp: cache_lookup_def split: option.splits if_splits)
  obtain t ctx r where s: "Store t ctx r \<in> set cs" "storage_key ctx = storage_key ?ctx"
    "entry_value e = new_cached ctx (value_of r)" "expires_at e = t + ttl"
    using scoped_from_store [OF run e(1)] by (auto simp: stored_by_def)
  with stores obtain j where j: "j \<in> set ids" "ctx = context_of sha256 to_str j" by blast
  have fits: "lengths_fit to_str j" "lengths_fit to_str i" using fit j(1) by (simp_all add: list_all_iff)
  have "owner_parts j = owner_parts i" "request_parts to_str j = request_parts to_str i"
    using same_context [OF collision_free _ _ fits] j s(2,3) e(3) by (simp_all add: cached_lookup_Replay)
  with s e j show ?thesis
    by (intro exI [of _ t] exI [of _ j] exI [of _ r])
      (auto simp: owner_parts_def request_parts_def cached_lookup_Replay)
qed


text \<open>Within the limits of \<open>usize\<close> the bounded, iterative estimate is the recursive sum over the
  value: it gives up exactly when that sum exceeds a limit, and otherwise returns it.\<close>

lemma estimate_exact:
  assumes "max_bytes \<le> usize_max" and "max_nodes \<le> usize_max"
  shows "estimate_value_footprint lay v max_bytes max_nodes =
    (if hv_bytes lay v \<le> max_bytes \<and> hv_nodes v \<le> max_nodes
     then Some \<lparr>fp_bytes = hv_bytes lay v, fp_nodes = hv_nodes v\<rparr> else None)"
  using estimate_loop_eq [of zero_footprint max_bytes max_nodes lay "[v]"] assms
  by (simp add: estimate_value_footprint_def zero_footprint_def)

text \<open>Purging at a time keeps exactly the entries that expire later, in both namespaces.\<close>

lemma purge_exact:
  assumes "cache_ok lims st"
  shows "map_of (scoped_entries (purge_expired st now)) k =
      (case map_of (scoped_entries st) k of
         Some e \<Rightarrow> if now < expires_at e then Some e else None | None \<Rightarrow> None) \<and>
    map_of (generic_entries (purge_expired st now)) k =
      (case map_of (generic_entries st) k of
         Some e \<Rightarrow> if now < expires_at e then Some e else None | None \<Rightarrow> None)"
  using purge_facts [OF assms] cache_okD [OF assms] by (simp add: map_of_live)

text \<open>A stored response is found again. When the entry fits, a lookup under the same storage key
  before the time to live has passed replays the response if the request fingerprint is the
  same and reports a conflict if it is not; from then on the lookup misses.\<close>

lemma store_then_lookup:
  assumes "cache_ok lims st" and "scoped_entry_footprint lay r lims = Some f"
    and "accepts scoped_entries lims (purge_expired st t) (storage_key ctx) f"
    and "storage_key ctx' = storage_key ctx"
  shows "\<exists>st'. cache_store lay ttl lims st t ctx r = Some st' \<and>
    fst (cache_lookup st' now ctx') =
      (if t + ttl \<le> now then Miss
       else if request_fingerprint ctx' = request_fingerprint ctx then Replay (value_of r)
       else Conflict)"
proof -
  have "accounted (purge_expired st t)" using purge_facts [OF assms(1)] cache_okD(1) by blast
  from scoped.insert_accepted [OF this assms(3), of "new_cached ctx (value_of r)" "t + ttl"] assms(2,4)
  show ?thesis
    by (auto simp: cache_store_def cache_lookup_def map_of_update cached_lookup_def new_cached_def)
qed

subsection \<open>Instances\<close>

definition demo_layout :: layout where
  "demo_layout = \<lparr>size_value = 32, size_vec = 24, size_string = 24, size_scoped_entry = 96,
     size_generic_entry = 72, size_expiry_record = 48, digest_capacity = 64\<rparr>"

definition demo_request :: request_id where
  "demo_request = \<lparr>tenant_scope = ''a'', credential_scope = ''c'', route_scope = ''r'',
     client_key = ''k'', canonical_request = JNull\<rparr>"

definition demo_state :: cache_state where
  "demo_state = the (cache_store demo_layout 60 default_cache_limits empty_cache 5
     (context_of id (\<lambda>_. ''q'') demo_request) (HString ''ok'' 2))"

lemmas demo_eval = cache_store_def purge_expired.simps empty_cache_def scoped_entry_footprint_def
  estimate_value_footprint_def visit_def add_node_if add_bytes_if zero_footprint_def demo_layout_def
  default_cache_limits_def usize_max_def EXPIRY_INDEX_MEMBER_OVERHEAD_BYTES_def insert_scoped_def
  remove_scoped_def entry_count_def can_retain_def without_def fp_checked_add_def checked_add_usize_def
  fits_within_def

lemma demo_run:
  "run_ops id demo_layout 60 default_cache_limits
     [Store 5 (context_of id (\<lambda>_. ''q'') demo_request) (HString ''ok'' 2)] empty_cache = Some demo_state"
  "fst (cache_lookup demo_state 64 (context_of id (\<lambda>_. ''q'') demo_request)) = Replay (JString ''ok'')"
  by (simp_all add: demo_state_def demo_eval Let_def cache_lookup_def cached_lookup_def new_cached_def)

theorem replay_bound_to_request_witness:
  "\<exists>t j r. Store t (context_of id (\<lambda>_. ''q'') j) r
       \<in> {Store 5 (context_of id (\<lambda>_. ''q'') demo_request) (HString ''ok'' 2)} \<and>
     value_of r = JString ''ok'' \<and> 64 < t + 60 \<and> tenant_scope j = ''a''"
  using replay_bound_to_request [OF demo_run(1), of "\<lambda>_. ''q''" "[demo_request]" demo_request 64 "JString ''ok''"]
    demo_run(2)
  by (fastforce simp: lengths_fit_def owner_parts_def request_parts_def demo_request_def u64_max_def)

lemma demo_ok: "cache_ok default_cache_limits demo_state"
  using cache_ok_run [OF cache_ok_empty] demo_run(1) by (metis option.inject)

end
