(* ===== verification/Auth.thy ===== *)
theory Auth
  imports F64
begin

text \<open>
  Gateway authentication (\<open>src/gateway/auth.rs\<close>). Header values are the strings \<open>HeaderValue::to_str\<close>
  gives, so they hold only visible ASCII, blanks and tabs; a header that is absent or not such a
  string is \<open>None\<close>. SHA-256 is an argument. Loading the key file at start-up is not modelled.
\<close>

record identity =
  tenant :: string
  tier :: nat
  id_rpm :: "nat option"
  id_tpm :: "nat option"
  budget_usd :: "f64 option"
  budget_window_secs :: "nat option"
  budget_allow_unpriced :: bool

datatype auth_error = MissingKey | InvalidKey

record identified_caller =
  caller_identity :: identity
  caller_credential_scope :: string

datatype key_store = Open | Enforced "(string, identity) hash_map"

type_synonym header_map = "string \<Rightarrow> string option"

definition anonymous :: string where "anonymous = ''anonymous''"

definition is_blank :: "char \<Rightarrow> bool" where
  "is_blank c \<longleftrightarrow> c = CHR '' '' \<or> c = CHR 0x09"

definition trim :: "string \<Rightarrow> string" where
  "trim s = rev (dropWhile is_blank (rev (dropWhile is_blank s)))"

definition digit_value :: "char \<Rightarrow> nat" where
  "digit_value c = of_char c - of_char (CHR ''0'')"

text \<open>\<open>str::parse::<u8>\<close>: an optional plus sign, then one or more digits, at most 255.\<close>

definition parse_u8 :: "string \<Rightarrow> nat option" where
  "parse_u8 s =
     (let ds = (case s of c # cs \<Rightarrow> if c = CHR ''+'' then cs else s | [] \<Rightarrow> []) in
      if ds = [] \<or> \<not> list_all (\<lambda>c. CHR ''0'' \<le> c \<and> c \<le> CHR ''9'') ds then None
      else
        let n = foldl (\<lambda>acc c. acc * 10 + digit_value c) 0 ds in
        if n \<le> 255 then Some n else None)"

definition header_tier :: "header_map \<Rightarrow> nat" where
  "header_tier headers =
     (case headers ''x-llmshim-priority'' of
        Some s \<Rightarrow> (case parse_u8 (trim s) of Some n \<Rightarrow> n | None \<Rightarrow> 0)
      | None \<Rightarrow> 0)"

definition bearer_token :: "header_map \<Rightarrow> string option" where
  "bearer_token headers =
     Option.bind (headers ''authorization'') (\<lambda>h.
     Option.bind (case strip_prefix h ''Bearer '' of
                    Some t \<Rightarrow> Some t
                  | None \<Rightarrow> strip_prefix h ''bearer '') (\<lambda>t.
     if trim t \<noteq> [] then Some (trim t) else None))"

definition is_enforced :: "key_store \<Rightarrow> bool" where
  "is_enforced ks = (case ks of Enforced _ \<Rightarrow> True | Open \<Rightarrow> False)"

definition identify_caller ::
  "(string \<Rightarrow> string) \<Rightarrow> key_store \<Rightarrow> header_map \<Rightarrow> (auth_error, identified_caller) result" where
  "identify_caller sha256 ks headers =
     (case ks of
        Open \<Rightarrow>
          Inr \<lparr>caller_identity = \<lparr>tenant = anonymous, tier = header_tier headers, id_rpm = None, id_tpm = None,
                 budget_usd = None, budget_window_secs = None, budget_allow_unpriced = False\<rparr>,
               caller_credential_scope = ''open-development-mode''\<rparr>
      | Enforced keys \<Rightarrow>
          (case bearer_token headers of
             None \<Rightarrow> Inl MissingKey
           | Some key \<Rightarrow>
               (case map_of keys key of
                  None \<Rightarrow> Inl InvalidKey
                | Some i \<Rightarrow> Inr \<lparr>caller_identity = i, caller_credential_scope = sha256 key\<rparr>)))"

definition identify :: "(string \<Rightarrow> string) \<Rightarrow> key_store \<Rightarrow> header_map \<Rightarrow> (auth_error, identity) result" where
  "identify sha256 ks headers = map_sum id caller_identity (identify_caller sha256 ks headers)"

text \<open>When keys are enforced a caller is admitted exactly when its bearer token is a configured key, and
  then it is that key's identity; no other header, the priority header included, has any influence.\<close>

lemma identity_from_key_only:
  "identify_caller sha256 (Enforced keys) headers =
     (case bearer_token headers of
        None \<Rightarrow> Inl MissingKey
      | Some key \<Rightarrow> if map_of keys key = None then Inl InvalidKey
          else Inr \<lparr>caller_identity = the (map_of keys key), caller_credential_scope = sha256 key\<rparr>) \<and>
   identify_caller sha256 (Enforced keys) (\<lambda>h. if h = ''authorization'' then headers h else forged h) =
     identify_caller sha256 (Enforced keys) headers"
  by (auto simp: identify_caller_def bearer_token_def split: option.splits)

end
