(* ===== verification/Catalog.thy ===== *)
theory Catalog
  imports Json
begin

text \<open>
  The model catalog (\<open>crates/llmshim-catalog\<close>): variant suffixes, provider and version spellings,
  model metadata with per-field provenance, the precedence merge of layers, context-dependent
  prices, the spelling index with alias resolution, and the import budget. The table of built-in
  models is an argument (\<open>spec\<close>) of the operations that consult it. Dates and time stamps are
  only copied.
\<close>

section \<open>Variant suffixes (\<open>variant.rs\<close>)\<close>

definition KNOWN_SUFFIXES :: "string list" where
  "KNOWN_SUFFIXES = ['':nitro'', '':floor'', '':free'', '':exacto'', '':online'']"

definition known_suffix :: "string \<Rightarrow> string option" where
  "known_suffix base = find (ends_with base) KNOWN_SUFFIXES"

lemma known_suffix_Some:
  "known_suffix base = Some sfx \<Longrightarrow> \<exists>b. base = b @ sfx \<and> sfx \<in> set KNOWN_SUFFIXES \<and> sfx \<noteq> []"
proof -
  assume "known_suffix base = Some sfx"
  then have "sfx \<in> set KNOWN_SUFFIXES" "ends_with base sfx"
    by (auto simp: known_suffix_def find_Some_iff)
  then show ?thesis by (auto simp: KNOWN_SUFFIXES_def ends_with_def suffix_def)
qed

function strip_suffix :: "string \<Rightarrow> string" where
  "strip_suffix base =
     (case known_suffix base of
        Some sfx \<Rightarrow> strip_suffix (take (length base - length sfx) base)
      | None \<Rightarrow> base)"
  by pat_completeness auto
termination
  by (relation "measure length") (use known_suffix_Some in fastforce)+

declare strip_suffix.simps [simp del]

section \<open>Spellings (\<open>aliases.rs\<close>)\<close>

definition PROVIDER_ALIASES :: "(string \<times> string) list" where
  "PROVIDER_ALIASES = [(''google'', ''gemini'')]"

definition REGION_PREFIXES :: "string list" where
  "REGION_PREFIXES = [''us.'', ''eu.'', ''global.'']"

definition provider_key :: "string \<Rightarrow> string" where
  "provider_key key =
     (case find (\<lambda>(alias, _). alias = key) PROVIDER_ALIASES of
        Some (_, canonical) \<Rightarrow> canonical
      | None \<Rightarrow> key)"

definition is_ascii_digit :: "char \<Rightarrow> bool" where
  "is_ascii_digit c \<longleftrightarrow> CHR ''0'' \<le> c \<and> c \<le> CHR ''9''"

definition replace_char :: "char \<Rightarrow> char \<Rightarrow> string \<Rightarrow> string" where
  "replace_char a b s = map (\<lambda>c. if c = a then b else c) s"

text \<open>The loop over the characters: \<open>prev\<close> is the one before \<open>c\<close>, \<open>rest\<close> what follows.\<close>

fun dotted_from :: "char option \<Rightarrow> string \<Rightarrow> string" where
  "dotted_from prev [] = []"
| "dotted_from prev (c # rest) =
     (if c = CHR ''-'' \<and> (case prev of Some p \<Rightarrow> is_ascii_digit p | None \<Rightarrow> False) \<and>
         (case rest of d # _ \<Rightarrow> is_ascii_digit d | [] \<Rightarrow> False) \<and>
         length (takeWhile is_ascii_digit rest) \<noteq> 8
      then CHR ''.'' else c) # dotted_from (Some c) rest"

definition claude_version_spellings :: "string \<Rightarrow> string list" where
  "claude_version_spellings name =
     (if \<not> starts_with name ''claude-'' then []
      else let dashed = replace_char (CHR ''.'') (CHR ''-'') name in [dashed, dotted_from None dashed])"

section \<open>Metadata (\<open>types.rs\<close>, \<open>capabilities.rs\<close>, \<open>reasoning_option.rs\<close>)\<close>

datatype model_family =
    Claude | Gpt | Gemini | Grok | Deepseek | Qwen | Llama | Kimi | Mistral | Glm | Minimax
  | Command | Nova | Gemma | Phi | Nemotron | Olmo | Seed | Doubao

datatype catalog_source = Builtin | ModelsDev | Local | ProviderApi

datatype support = Supported | Unsupported | Unknown

datatype effort_level = ENone | EMinimal | ELow | EMedium | EHigh | EXhigh | EMax

datatype reasoning_option =
    Effort "effort_level list" "effort_level option"
  | BudgetTokens "nat option" "nat option"

fun clear_invalid_default :: "reasoning_option \<Rightarrow> reasoning_option" where
  "clear_invalid_default (Effort vals dflt) =
     Effort vals (case dflt of Some l \<Rightarrow> if l \<in> set vals then Some l else None | None \<Rightarrow> None)"
| "clear_invalid_default (BudgetTokens lo hi) = BudgetTokens lo hi"

record model_capabilities =
  cap_tools :: support
  cap_streaming :: support
  cap_images :: support
  cap_prompt_cache :: support
  cap_structured_output :: support
  cap_parallel_tool_calls :: support
  cap_reasoning :: support
  cap_forced_tool_choice :: support

definition unknown_capabilities :: model_capabilities where
  "unknown_capabilities =
     \<lparr>cap_tools = Unknown, cap_streaming = Unknown, cap_images = Unknown, cap_prompt_cache = Unknown,
      cap_structured_output = Unknown, cap_parallel_tool_calls = Unknown, cap_reasoning = Unknown,
      cap_forced_tool_choice = Unknown\<rparr>"

record cost =
  cost_input :: "f64 option"
  cost_output :: "f64 option"
  cost_cache_read :: "f64 option"
  cost_cache_write :: "f64 option"

definition default_cost :: cost where
  "default_cost = \<lparr>cost_input = None, cost_output = None, cost_cache_read = None, cost_cache_write = None\<rparr>"

record context_cost_tier =
  above_input_tokens :: nat
  tier_cost :: cost

type_synonym naive_date = "int \<times> nat \<times> nat"
type_synonym date_time = int

record model_info =
  mi_id :: string
  mi_provider :: string
  mi_name :: string
  mi_label :: string
  mi_context_window_tokens :: "nat option"
  mi_max_output_tokens :: "nat option"
  mi_capabilities :: model_capabilities
  mi_embeds :: support
  mi_embedding_dimensions :: "nat option"
  mi_family :: "model_family option"
  mi_cost :: "cost option"
  mi_context_cost_tiers :: "context_cost_tier list option"
  mi_reasoning_options :: "reasoning_option list"
  mi_modalities_input :: "string list"
  mi_modalities_output :: "string list"
  mi_knowledge_cutoff :: "naive_date option"
  mi_release_date :: "naive_date option"
  mi_open_weights :: "bool option"
  mi_source :: catalog_source
  mi_fetched_at :: "date_time option"
  mi_field_sources :: "(string \<times> catalog_source) list"

definition new_model :: "string \<Rightarrow> string \<Rightarrow> model_info" where
  "new_model provider name =
     \<lparr>mi_id = provider @ ''/'' @ name, mi_provider = provider, mi_name = name, mi_label = name,
      mi_context_window_tokens = None, mi_max_output_tokens = None,
      mi_capabilities = unknown_capabilities, mi_embeds = Unknown, mi_embedding_dimensions = None,
      mi_family = None, mi_cost = None, mi_context_cost_tiers = None, mi_reasoning_options = [],
      mi_modalities_input = [], mi_modalities_output = [], mi_knowledge_cutoff = None,
      mi_release_date = None, mi_open_weights = None, mi_source = Builtin, mi_fetched_at = None,
      mi_field_sources = []\<rparr>"

text \<open>\<open>ModelFamily::from_catalog_key\<close>: \<open>rsplit('/').next()\<close> is what follows the last slash, and
  the split keeps what precedes the first separator.\<close>

definition to_ascii_lowercase :: "string \<Rightarrow> string" where
  "to_ascii_lowercase s =
     map (\<lambda>c. if CHR ''A'' \<le> c \<and> c \<le> CHR ''Z'' then char_of (of_char c + (32 :: nat)) else c) s"

definition after_last :: "char \<Rightarrow> string \<Rightarrow> string" where
  "after_last c s = rev (takeWhile (\<lambda>x. x \<noteq> c) (rev s))"

definition family_of_word :: "string \<Rightarrow> model_family option" where
  "family_of_word w =
     (if w = ''claude'' then Some Claude
      else if w \<in> {''gpt'', ''o1'', ''o3'', ''o4''} then Some Gpt
      else if w = ''gemini'' then Some Gemini
      else if w = ''grok'' then Some Grok
      else if w = ''deepseek'' then Some Deepseek
      else if w \<in> {''qwen'', ''qwen2'', ''qwen3''} then Some Qwen
      else if w \<in> {''llama'', ''llama2'', ''llama3'', ''llama4''} then Some Llama
      else if w = ''kimi'' then Some Kimi
      else if w \<in> {''mistral'', ''mixtral'', ''codestral'', ''devstral'', ''magistral''} then Some Mistral
      else if w \<in> {''glm'', ''glm4'', ''glm5''} then Some Glm
      else if w = ''minimax'' then Some Minimax
      else if w = ''command'' then Some Command
      else if w = ''nova'' then Some Nova
      else if w \<in> {''gemma'', ''gemma2'', ''gemma3''} then Some Gemma
      else if w = ''phi'' then Some Phi
      else if w = ''nemotron'' then Some Nemotron
      else if w = ''olmo'' then Some Olmo
      else if w = ''seed'' then Some Seed
      else if w = ''doubao'' then Some Doubao
      else None)"

definition from_catalog_key :: "string \<Rightarrow> model_family option" where
  "from_catalog_key key =
     family_of_word (takeWhile (\<lambda>c. c \<notin> set ''-_. '') (after_last (CHR ''/'') (to_ascii_lowercase key)))"

section \<open>The precedence merge (\<open>merge.rs\<close>)\<close>

fun rank :: "catalog_source \<Rightarrow> nat" where
  "rank ModelsDev = 1"
| "rank Builtin = 2"
| "rank ProviderApi = 3"
| "rank Local = 4"

definition accepts_field :: "catalog_source \<Rightarrow> string \<Rightarrow> model_info \<Rightarrow> bool" where
  "accepts_field source field target =
     (case map_of (mi_field_sources target) field of
        None \<Rightarrow> True
      | Some old \<Rightarrow> rank source \<ge> rank old)"

definition record_source :: "string \<Rightarrow> catalog_source \<Rightarrow> model_info \<Rightarrow> model_info" where
  "record_source key source target =
     target\<lparr>mi_field_sources := btree_insert key source (mi_field_sources target)\<rparr>"

text \<open>One use of the macros \<open>field!\<close> and \<open>capability!\<close>: the key, whether the incoming row asserts
  the field, and the assignment. The state is the target with the flag \<open>changed\<close>.\<close>

type_synonym field_assertion = "string \<times> bool \<times> (model_info \<Rightarrow> model_info)"

fun assert_field ::
  "catalog_source \<Rightarrow> field_assertion \<Rightarrow> model_info \<times> bool \<Rightarrow> model_info \<times> bool" where
  "assert_field source (key, asserted, assign) (target, changed) =
     (if asserted \<and> accepts_field source key target
      then (record_source key source (assign target), True)
      else (target, changed))"

definition first_assertions :: "model_info \<Rightarrow> field_assertion list" where
  "first_assertions i =
     [(''label'', mi_label i \<noteq> mi_name i, mi_label_update (\<lambda>_. mi_label i)),
      (''context_window_tokens'', mi_context_window_tokens i \<noteq> None,
        mi_context_window_tokens_update (\<lambda>_. mi_context_window_tokens i)),
      (''max_output_tokens'', mi_max_output_tokens i \<noteq> None,
        mi_max_output_tokens_update (\<lambda>_. mi_max_output_tokens i)),
      (''family'', mi_family i \<noteq> None, mi_family_update (\<lambda>_. mi_family i)),
      (''reasoning_options'', mi_reasoning_options i \<noteq> [],
        mi_reasoning_options_update (\<lambda>_. mi_reasoning_options i))]"

definition listed_assertions :: "model_info \<Rightarrow> field_assertion list" where
  "listed_assertions i =
     [(''knowledge_cutoff'', mi_source i \<noteq> ProviderApi \<and> mi_knowledge_cutoff i \<noteq> None,
        mi_knowledge_cutoff_update (\<lambda>_. mi_knowledge_cutoff i)),
      (''release_date'', mi_source i \<noteq> ProviderApi \<and> mi_release_date i \<noteq> None,
        mi_release_date_update (\<lambda>_. mi_release_date i)),
      (''open_weights'', mi_source i \<noteq> ProviderApi \<and> mi_open_weights i \<noteq> None,
        mi_open_weights_update (\<lambda>_. mi_open_weights i)),
      (''capabilities.tools'', cap_tools (mi_capabilities i) \<noteq> Unknown,
        mi_capabilities_update (cap_tools_update (\<lambda>_. cap_tools (mi_capabilities i)))),
      (''capabilities.streaming'', cap_streaming (mi_capabilities i) \<noteq> Unknown,
        mi_capabilities_update (cap_streaming_update (\<lambda>_. cap_streaming (mi_capabilities i)))),
      (''capabilities.images'', cap_images (mi_capabilities i) \<noteq> Unknown,
        mi_capabilities_update (cap_images_update (\<lambda>_. cap_images (mi_capabilities i)))),
      (''capabilities.prompt_cache'', cap_prompt_cache (mi_capabilities i) \<noteq> Unknown,
        mi_capabilities_update (cap_prompt_cache_update (\<lambda>_. cap_prompt_cache (mi_capabilities i)))),
      (''capabilities.structured_output'', cap_structured_output (mi_capabilities i) \<noteq> Unknown,
        mi_capabilities_update
          (cap_structured_output_update (\<lambda>_. cap_structured_output (mi_capabilities i)))),
      (''capabilities.parallel_tool_calls'', cap_parallel_tool_calls (mi_capabilities i) \<noteq> Unknown,
        mi_capabilities_update
          (cap_parallel_tool_calls_update (\<lambda>_. cap_parallel_tool_calls (mi_capabilities i)))),
      (''capabilities.reasoning'', cap_reasoning (mi_capabilities i) \<noteq> Unknown,
        mi_capabilities_update (cap_reasoning_update (\<lambda>_. cap_reasoning (mi_capabilities i)))),
      (''capabilities.forced_tool_choice'', cap_forced_tool_choice (mi_capabilities i) \<noteq> Unknown,
        mi_capabilities_update
          (cap_forced_tool_choice_update (\<lambda>_. cap_forced_tool_choice (mi_capabilities i)))),
      (''embeds'', mi_embeds i \<noteq> Unknown, mi_embeds_update (\<lambda>_. mi_embeds i)),
      (''embedding_dimensions'', mi_embedding_dimensions i \<noteq> None,
        mi_embedding_dimensions_update (\<lambda>_. mi_embedding_dimensions i)),
      (''modalities.input'', mi_modalities_input i \<noteq> [],
        mi_modalities_input_update (\<lambda>_. mi_modalities_input i)),
      (''modalities.output'', mi_modalities_output i \<noteq> [],
        mi_modalities_output_update (\<lambda>_. mi_modalities_output i)),
      (''context_cost_tiers'', mi_source i \<noteq> ProviderApi \<and> mi_context_cost_tiers i \<noteq> None,
        mi_context_cost_tiers_update (\<lambda>_. mi_context_cost_tiers i))]"

definition valid_rate :: "f64 option \<Rightarrow> bool" where
  "valid_rate r = (case r of Some n \<Rightarrow> is_finite n \<and> f64_le (Fin 0) n | None \<Rightarrow> False)"

text \<open>The loop over the four prices; \<open>merged\<close> is the copy of the target's prices being edited.\<close>

fun assert_price ::
  "catalog_source \<Rightarrow> string \<times> f64 option \<times> (cost \<Rightarrow> cost) \<Rightarrow> (model_info \<times> bool) \<times> cost
    \<Rightarrow> (model_info \<times> bool) \<times> cost" where
  "assert_price source (key, v, assign) ((target, changed), merged) =
     (if valid_rate v \<and> accepts_field source key target
      then ((record_source key source target, True), assign merged)
      else ((target, changed), merged))"

definition price_assertions :: "cost \<Rightarrow> (string \<times> f64 option \<times> (cost \<Rightarrow> cost)) list" where
  "price_assertions c =
     [(''cost.input'', cost_input c, cost_input_update (\<lambda>_. cost_input c)),
      (''cost.output'', cost_output c, cost_output_update (\<lambda>_. cost_output c)),
      (''cost.cache_read'', cost_cache_read c, cost_cache_read_update (\<lambda>_. cost_cache_read c)),
      (''cost.cache_write'', cost_cache_write c, cost_cache_write_update (\<lambda>_. cost_cache_write c))]"

definition merge_prices :: "model_info \<Rightarrow> model_info \<times> bool \<Rightarrow> model_info \<times> bool" where
  "merge_prices i st =
     (case (if mi_source i \<noteq> ProviderApi then mi_cost i else None) of
        None \<Rightarrow> st
      | Some c \<Rightarrow>
          let merged0 = (case mi_cost (fst st) of Some m \<Rightarrow> m | None \<Rightarrow> default_cost);
              ((target, changed), merged) =
                fold (assert_price (mi_source i)) (price_assertions c) (st, merged0)
          in (if merged \<noteq> default_cost then target\<lparr>mi_cost := Some merged\<rparr> else target, changed))"

definition merge :: "model_info \<Rightarrow> model_info \<Rightarrow> model_info" where
  "merge target i =
     (let st1 = fold (assert_field (mi_source i)) (first_assertions i) (target, False);
          st2 = ((fst st1)\<lparr>mi_reasoning_options :=
                   map clear_invalid_default (mi_reasoning_options (fst st1))\<rparr>, snd st1);
          st3 = fold (assert_field (mi_source i)) (listed_assertions i) st2;
          (t, changed) = merge_prices i st3
      in if changed
         then
           let t1 = (if rank (mi_source i) \<ge> rank (mi_source t) then t\<lparr>mi_source := mi_source i\<rparr> else t)
           in (case mi_fetched_at i of Some d \<Rightarrow> t1\<lparr>mi_fetched_at := Some d\<rparr> | None \<Rightarrow> t1)
         else t)"

section \<open>Context-dependent prices\<close>

text \<open>One slot of the inner loop of \<open>cost_for_input_tokens\<close>.\<close>

definition source_of :: "model_info \<Rightarrow> string \<Rightarrow> catalog_source" where
  "source_of m key = (case map_of (mi_field_sources m) key of Some s \<Rightarrow> s | None \<Rightarrow> mi_source m)"

definition tier_rate :: "model_info \<Rightarrow> string \<Rightarrow> f64 option \<Rightarrow> f64 option \<Rightarrow> f64 option" where
  "tier_rate m key rate slot =
     (if valid_rate rate \<and> rank (source_of m ''context_cost_tiers'') \<ge> rank (source_of m key)
      then rate else slot)"

definition apply_tier :: "model_info \<Rightarrow> context_cost_tier \<Rightarrow> cost \<Rightarrow> cost" where
  "apply_tier m tier c =
     \<lparr>cost_input = tier_rate m ''cost.input'' (cost_input (tier_cost tier)) (cost_input c),
      cost_output = tier_rate m ''cost.output'' (cost_output (tier_cost tier)) (cost_output c),
      cost_cache_read = tier_rate m ''cost.cache_read'' (cost_cache_read (tier_cost tier)) (cost_cache_read c),
      cost_cache_write = tier_rate m ''cost.cache_write'' (cost_cache_write (tier_cost tier)) (cost_cache_write c)\<rparr>"

definition cost_for_input_tokens :: "model_info \<Rightarrow> nat \<Rightarrow> cost option" where
  "cost_for_input_tokens m input_tokens =
     (case mi_cost m of
        None \<Rightarrow> None
      | Some c \<Rightarrow>
          let tiers = sort_key above_input_tokens
                (filter (\<lambda>t. input_tokens > above_input_tokens t)
                  (case mi_context_cost_tiers m of Some ts \<Rightarrow> ts | None \<Rightarrow> []))
          in Some (fold (apply_tier m) tiers c))"

section \<open>The catalog (\<open>lib.rs\<close>)\<close>

record catalog =
  cat_models :: "(string \<times> model_info) list"
  cat_aliases :: "(string \<times> string) list"
  cat_spellings :: "(string \<times> string list) list"
  cat_bare_spellings :: "(string \<times> string list) list"

definition empty_catalog :: catalog where
  "empty_catalog = \<lparr>cat_models = [], cat_aliases = [], cat_spellings = [], cat_bare_spellings = []\<rparr>"

text \<open>\<open>map.entry(key).or_default().insert(id)\<close>.\<close>

definition add_spelling :: "string \<Rightarrow> string \<Rightarrow> (string \<times> string list) list \<Rightarrow> (string \<times> string list) list" where
  "add_spelling key mid m =
     btree_insert key (insort_insert mid (case map_of m key of Some ids \<Rightarrow> ids | None \<Rightarrow> [])) m"

definition index_names :: "string \<Rightarrow> string list" where
  "index_names name = name # claude_version_spellings name @ List.map_filter (strip_prefix name) REGION_PREFIXES"

definition index_name :: "model_info \<Rightarrow> string \<Rightarrow> catalog \<Rightarrow> catalog" where
  "index_name model name c =
     c\<lparr>cat_bare_spellings := add_spelling name (mi_id model) (cat_bare_spellings c),
       cat_spellings :=
         fold (\<lambda>(alias, canonical) m.
             if mi_provider model = canonical then add_spelling (alias @ ''/'' @ name) (mi_id model) m else m)
           PROVIDER_ALIASES
           (add_spelling (mi_provider model @ ''/'' @ name) (mi_id model) (cat_spellings c))\<rparr>"

definition index_model :: "model_info \<Rightarrow> catalog \<Rightarrow> catalog" where
  "index_model model c = fold (index_name model) (index_names (mi_name model)) c"

definition merge_model :: "model_info \<Rightarrow> catalog \<Rightarrow> catalog" where
  "merge_model model c =
     (let target = (case map_of (cat_models c) (mi_id model) of
            Some t \<Rightarrow> t
          | None \<Rightarrow> (new_model (mi_provider model) (mi_name model))\<lparr>mi_source := mi_source model\<rparr>)
      in index_model model (c\<lparr>cat_models := btree_insert (mi_id model) (merge target model) (cat_models c)\<rparr>))"

definition add_alias :: "string \<Rightarrow> string \<Rightarrow> catalog \<Rightarrow> catalog" where
  "add_alias alias target c = c\<lparr>cat_aliases := btree_insert alias target (cat_aliases c)\<rparr>"

definition merge_layer :: "catalog \<Rightarrow> catalog \<Rightarrow> catalog" where
  "merge_layer layer c =
     fold (\<lambda>(alias, target). add_alias alias target) (cat_aliases layer)
       (fold merge_model (map snd (cat_models layer)) c)"

text \<open>The alias loop of \<open>resolve\<close>; \<open>None\<close> is its early return on a cycle.\<close>

function follow_aliases :: "(string \<times> string) list \<Rightarrow> string list \<Rightarrow> string \<Rightarrow> string option" where
  "follow_aliases aliases seen key =
     (case map_of aliases key of
        None \<Rightarrow> Some key
      | Some alias \<Rightarrow> if key \<in> set seen then None else follow_aliases aliases (key # seen) alias)"
  by pat_completeness auto
termination
proof (relation "measure (\<lambda>(aliases, seen, key). card (fst ` set aliases - set seen))", goal_cases)
  case (2 aliases seen key target)
  then have "key \<in> fst ` set aliases - set seen" by (force dest: map_of_SomeD)
  then have "fst ` set aliases - set (key # seen) \<subset> fst ` set aliases - set seen" by auto
  then show ?case by (simp add: psubset_card_mono)
qed simp

declare follow_aliases.simps [simp del]

definition resolve :: "(string \<Rightarrow> string option) \<Rightarrow> catalog \<Rightarrow> string \<Rightarrow> model_info option" where
  "resolve spec c mid =
     (case follow_aliases (cat_aliases c) [] mid of
        None \<Rightarrow> None
      | Some key \<Rightarrow>
          (case map_of (cat_models c) key of
             Some model \<Rightarrow> Some model
           | None \<Rightarrow>
               (case Option.bind (spec key) (map_of (cat_models c)) of
                  Some model \<Rightarrow> Some model
                | None \<Rightarrow>
                    (case (case map_of (cat_spellings c) key of
                             Some ids \<Rightarrow> Some ids
                           | None \<Rightarrow> map_of (cat_bare_spellings c) key) of
                       None \<Rightarrow> None
                     | Some ids \<Rightarrow>
                         if length ids \<noteq> 1 then None else map_of (cat_models c) (hd ids)))))"

definition lookup_id :: "(string \<Rightarrow> string option) \<Rightarrow> catalog \<Rightarrow> string \<Rightarrow> model_info option" where
  "lookup_id spec c mid =
     (case resolve spec c mid of
        Some m \<Rightarrow> Some m
      | None \<Rightarrow>
          let stripped = strip_suffix mid in
          if stripped = mid then None else resolve spec c stripped)"

section \<open>The import budget (\<open>import_budget.rs\<close>)\<close>

record import_budget =
  remaining_models :: nat
  remaining_identity_bytes :: nat

definition default_import_budget :: import_budget where
  "default_import_budget =
     \<lparr>remaining_models = 32768, remaining_identity_bytes = 128 * 1024 * 1024\<rparr>"

definition checked_sub :: "nat \<Rightarrow> nat \<Rightarrow> nat option" where
  "checked_sub a b = (if b \<le> a then Some (a - b) else None)"

fun count_aliases :: "string \<Rightarrow> (string \<times> string) list \<Rightarrow> nat \<Rightarrow> nat \<Rightarrow> (nat \<times> nat) option" where
  "count_aliases provider [] n b = Some (n, b)"
| "count_aliases provider ((alias, canonical) # rest) n b =
     (if provider = canonical
      then Option.bind (checked_add_usize n 1) (\<lambda>n'.
           Option.bind (checked_add_usize b (length alias)) (\<lambda>b'. count_aliases provider rest n' b'))
      else count_aliases provider rest n b)"

definition spelling_count :: "string \<Rightarrow> nat" where
  "spelling_count model_name =
     1 + (if starts_with model_name ''claude-'' then 1 else 0) * 2
       + length (filter (starts_with model_name) REGION_PREFIXES)"

definition projected_bytes :: "string \<Rightarrow> string \<Rightarrow> nat option" where
  "projected_bytes provider model_name =
     Option.bind (Option.bind (checked_add_usize (length provider) (length model_name))
       (\<lambda>l. checked_add_usize l 1)) (\<lambda>qualified_length.
     Option.bind (count_aliases provider PROVIDER_ALIASES 0 0) (\<lambda>(alias_count, alias_bytes).
     Option.bind (Option.bind (checked_add_usize 3 alias_count) (\<lambda>k.
         Option.bind (checked_mul_usize (spelling_count model_name) k) (\<lambda>copies. checked_add_usize copies 5)))
       (\<lambda>qualified_copies.
     Option.bind (Option.bind (checked_add_usize 4 alias_count) (\<lambda>k.
         Option.bind (checked_mul_usize (spelling_count model_name) k) (\<lambda>copies. checked_add_usize copies 14)))
       (\<lambda>name_copies.
     Option.bind (Option.bind (checked_add_usize alias_count 2) (\<lambda>n.
         Option.bind (checked_mul_usize n 1024) (\<lambda>b.
         Option.bind (checked_add_usize b alias_bytes) (\<lambda>b'. checked_mul_usize b' (spelling_count model_name)))))
       (\<lambda>index_bytes.
     Option.bind (checked_mul_usize qualified_length qualified_copies) (\<lambda>b.
     Option.bind (checked_mul_usize (length model_name) name_copies) (\<lambda>name_bytes.
     Option.bind (checked_add_usize b name_bytes) (\<lambda>b'.
     Option.bind (checked_add_usize b' index_bytes) (\<lambda>b''. checked_add_usize b'' 4096)))))))))"

definition admit_model :: "import_budget \<Rightarrow> string \<Rightarrow> string \<Rightarrow> import_budget option" where
  "admit_model b provider model_name =
     Option.bind (projected_bytes (provider_key provider) model_name) (\<lambda>projected.
     Option.bind (checked_sub (remaining_models b) 1) (\<lambda>n.
     Option.bind (checked_sub (remaining_identity_bytes b) projected) (\<lambda>r.
     Some \<lparr>remaining_models = n, remaining_identity_bytes = r\<rparr>)))"

section \<open>Precedence of layers\<close>

lemma accepts_record_source [simp]:
  "key \<noteq> k \<Longrightarrow> accepts_field s key (record_source k s' t) = accepts_field s key t"
  by (simp add: accepts_field_def record_source_def)

lemma sources_record_source [simp]:
  "map_of (mi_field_sources (record_source k s t)) key =
     (if key = k then Some s else map_of (mi_field_sources t) key)"
  by (simp add: record_source_def)

text \<open>A view of a row that the bookkeeping of \<open>merge\<close> does not touch.\<close>

definition bookkeeping_free :: "(model_info \<Rightarrow> 'a) \<Rightarrow> bool" where
  "bookkeeping_free val \<longleftrightarrow>
     (\<forall>t k s. val (record_source k s t) = val t) \<and>
     (\<forall>t s. val (t\<lparr>mi_source := s\<rparr>) = val t) \<and>
     (\<forall>t d. val (t\<lparr>mi_fetched_at := d\<rparr>) = val t)"

definition keeps :: "field_assertion list \<Rightarrow> string \<Rightarrow> (model_info \<Rightarrow> 'a) \<Rightarrow> bool" where
  "keeps fs key val \<longleftrightarrow>
     (\<forall>(k, a, u) \<in> set fs. (\<forall>t. mi_field_sources (u t) = mi_field_sources t) \<and>
        (k \<noteq> key \<longrightarrow> (\<forall>t. val (u t) = val t)))"

lemma assert_field_keep:
  assumes "keeps [f] key val" and "bookkeeping_free val" and "fst f \<noteq> key"
  shows "val (fst (assert_field s f st)) = val (fst st)"
    and "map_of (mi_field_sources (fst (assert_field s f st))) key = map_of (mi_field_sources (fst st)) key"
  using assms by (cases f; cases st; simp add: keeps_def bookkeeping_free_def)+

lemma accepts_sources: "map_of (mi_field_sources t) key = map_of (mi_field_sources t') key \<Longrightarrow>
    accepts_field s key t = accepts_field s key t'"
  by (simp add: accepts_field_def)

lemma fold_assert_other:
  assumes "keeps fs key val" and "bookkeeping_free val" and "key \<notin> fst ` set fs"
  shows "val (fst (fold (assert_field s) fs st)) = val (fst st) \<and>
    map_of (mi_field_sources (fst (fold (assert_field s) fs st))) key = map_of (mi_field_sources (fst st)) key"
  using assms
proof (induction fs arbitrary: st)
  case (Cons f fs)
  then have "keeps [f] key val" "keeps fs key val" "fst f \<noteq> key" by (auto simp: keeps_def)
  with Cons assert_field_keep [OF this(1) assms(2) this(3)] show ?case by simp
qed simp

lemma fold_assert_slot:
  assumes "keeps fs key val" and "bookkeeping_free val" and "distinct (map fst fs)"
    and "(key, a, u) \<in> set fs" and "\<forall>t. val (u t) = x"
  shows "val (fst (fold (assert_field s) fs st)) =
      (if a \<and> accepts_field s key (fst st) then x else val (fst st)) \<and>
    map_of (mi_field_sources (fst (fold (assert_field s) fs st))) key =
      (if a \<and> accepts_field s key (fst st) then Some s else map_of (mi_field_sources (fst st)) key)"
  using assms
proof (induction fs arbitrary: st)
  case (Cons f fs)
  then have k: "keeps [f] key val" "keeps fs key val" by (auto simp: keeps_def)
  show ?case
  proof (cases "fst f = key")
    case True
    with Cons.prems(3) have nin: "key \<notin> fst ` set fs" by auto
    with Cons.prems(4) have "f = (key, a, u)" by (auto simp: image_iff)
    with nin fold_assert_other [OF k(2) assms(2)] Cons.prems show ?thesis
      by (cases st) (simp add: bookkeeping_free_def)
  next
    case False
    note keep = assert_field_keep [OF k(1) assms(2) False, of s st]
    with Cons.IH [OF k(2) Cons.prems(2), of "assert_field s f st"] Cons.prems False
      accepts_sources [OF keep(2), of s]
    show ?thesis by auto
  qed
qed simp

text \<open>The price loop.\<close>

fun price_at :: "(cost \<Rightarrow> f64 option) \<Rightarrow> model_info \<Rightarrow> f64 option" where
  "price_at sel m = Option.bind (mi_cost m) sel"

definition price_keys :: "string list" where
  "price_keys = [''cost.input'', ''cost.output'', ''cost.cache_read'', ''cost.cache_write'']"

lemma assert_price_row:
  "bookkeeping_free val \<Longrightarrow> val (fst (fst (assert_price s p st))) = val (fst (fst st))"
  "fst p \<noteq> key \<Longrightarrow>
     map_of (mi_field_sources (fst (fst (assert_price s p st)))) key = map_of (mi_field_sources (fst (fst st))) key"
  by (cases "(s, p, st)" rule: assert_price.cases; simp add: bookkeeping_free_def)+

lemma fold_price_row:
  "bookkeeping_free val \<Longrightarrow> val (fst (fst (fold (assert_price s) ps st))) = val (fst (fst st))"
  "key \<notin> fst ` set ps \<Longrightarrow>
     map_of (mi_field_sources (fst (fst (fold (assert_price s) ps st)))) key = map_of (mi_field_sources (fst (fst st))) key"
proof (induction ps arbitrary: st)
  case (Cons p ps)
  { case 1 then show ?case using Cons.IH(1) assert_price_row(1) [of val s p st] by simp }
  { case 2 then show ?case using Cons.IH(2) assert_price_row(2) [of p key s st] by auto }
qed simp_all

lemma fold_price_slot:
  assumes "distinct (map fst ps)" and "(key, v, u) \<in> set ps" and "\<forall>c. sel (u c) = v"
    and "\<forall>(k, w, u') \<in> set ps. k \<noteq> key \<longrightarrow> (\<forall>c. sel (u' c) = sel c)"
  shows "sel (snd (fold (assert_price s) ps (st, m))) =
      (if valid_rate v \<and> accepts_field s key (fst st) then v else sel m) \<and>
    map_of (mi_field_sources (fst (fst (fold (assert_price s) ps (st, m))))) key =
      (if valid_rate v \<and> accepts_field s key (fst st) then Some s else map_of (mi_field_sources (fst st)) key)"
proof -
  have other: "sel (snd (fold (assert_price s) qs st)) = sel (snd st)"
    if "\<forall>(k, w, u') \<in> set qs. \<forall>c. sel (u' c) = sel c" for qs and st :: "(model_info \<times> bool) \<times> cost"
    using that
  proof (induction qs arbitrary: st)
    case (Cons q qs)
    then have "sel (snd (assert_price s q st)) = sel (snd st)"
      by (cases "(s, q, st)" rule: assert_price.cases) auto
    with Cons show ?case by simp
  qed simp
  show ?thesis
    using assms
  proof (induction ps arbitrary: st m)
    case (Cons p ps)
    obtain t changed where st: "st = (t, changed)" by fastforce
    show ?case
    proof (cases "fst p = key")
      case True
      with Cons.prems(1) have nin: "key \<notin> fst ` set ps" by auto
      with Cons.prems(2) have "p = (key, v, u)" by (auto simp: image_iff)
      moreover have "\<forall>(k, w, u') \<in> set ps. \<forall>c. sel (u' c) = sel c"
        using nin Cons.prems(4) by force
      ultimately show ?thesis
        using nin Cons.prems(3) by (simp add: st other fold_price_row(2))
    next
      case False
      obtain st1 m1 where a: "assert_price s p (st, m) = (st1, m1)" by fastforce
      have "sel m1 = sel m" "map_of (mi_field_sources (fst st1)) key = map_of (mi_field_sources t) key"
        using a False Cons.prems(4) by (cases p; auto simp: st split: if_splits)+
      with Cons.IH [of st1 m1] Cons.prems False a accepts_sources [of "fst st1" key t s] show ?thesis
        by (auto simp: st)
    qed
  qed simp
qed

lemma price_keys_assertions: "map fst (price_assertions c) = price_keys"
  by (simp add: price_assertions_def price_keys_def)

lemma distinct_price_keys: "distinct price_keys"
  by (simp add: price_keys_def)

lemma merge_prices_other:
  assumes "bookkeeping_free val" and "\<forall>t c. val (t\<lparr>mi_cost := c\<rparr>) = val t" and "key \<notin> set price_keys"
  shows "val (fst (merge_prices i st)) = val (fst st) \<and>
    map_of (mi_field_sources (fst (merge_prices i st))) key = map_of (mi_field_sources (fst st)) key"
proof -
  have "key \<notin> fst ` set (price_assertions c)" for c
    using assms(3) by (metis price_keys_assertions list.set_map)
  then show ?thesis
    using assms(1,2) fold_price_row(1) [OF assms(1), of "mi_source i"] fold_price_row(2) [of key _ "mi_source i"]
    by (auto simp: merge_prices_def Let_def case_prod_unfold split: option.split)
qed

lemma merge_prices_slot:
  assumes mem: "\<And>c. \<exists>u. (key, sel c, u) \<in> set (price_assertions c) \<and> (\<forall>d. sel (u d) = sel c)"
    and rest: "\<And>c. \<forall>(k, w, u) \<in> set (price_assertions c). k \<noteq> key \<longrightarrow> (\<forall>d. sel (u d) = sel d)"
    and none: "sel default_cost = None"
  shows "price_at sel (fst (merge_prices i st)) =
      (if mi_source i \<noteq> ProviderApi \<and> valid_rate (price_at sel i) \<and> accepts_field (mi_source i) key (fst st)
       then price_at sel i else price_at sel (fst st)) \<and>
    map_of (mi_field_sources (fst (merge_prices i st))) key =
      (if mi_source i \<noteq> ProviderApi \<and> valid_rate (price_at sel i) \<and> accepts_field (mi_source i) key (fst st)
       then Some (mi_source i) else map_of (mi_field_sources (fst st)) key)"
proof (cases "mi_source i \<noteq> ProviderApi \<and> mi_cost i \<noteq> None")
  case False
  then show ?thesis by (auto simp: merge_prices_def valid_rate_def)
next
  case True
  then obtain c where c: "mi_cost i = Some c" by blast
  obtain u where u: "(key, sel c, u) \<in> set (price_assertions c)" "\<forall>d. sel (u d) = sel c"
    using mem by blast
  let ?m = "case mi_cost (fst st) of Some m \<Rightarrow> m | None \<Rightarrow> default_cost"
  let ?f = "fold (assert_price (mi_source i)) (price_assertions c) (st, ?m)"
  have "distinct (map fst (price_assertions c))"
    by (simp only: price_keys_assertions distinct_price_keys)
  note slot = fold_price_slot [OF this u rest, of "mi_source i" st ?m]
  have cost: "mi_cost (fst (fst ?f)) = mi_cost (fst st)"
    by (subst fold_price_row(1)) (simp_all add: bookkeeping_free_def record_source_def)
  have "sel (snd ?f) = None \<Longrightarrow> sel ?m = None"
    using slot by (auto simp: valid_rate_def split: if_splits)
  then have "price_at sel (fst (merge_prices i st)) = sel (snd ?f)"
    using True c none cost
    by (auto simp: merge_prices_def Let_def case_prod_unfold split: option.splits)
  moreover have "mi_field_sources (fst (merge_prices i st)) = mi_field_sources (fst (fst ?f))"
    using True c by (simp add: merge_prices_def Let_def case_prod_unfold)
  moreover have "sel ?m = price_at sel (fst st)" using none by (cases "mi_cost (fst st)") simp_all
  ultimately show ?thesis using slot True c by simp
qed

text \<open>
  The contract of one field of the merge: the incoming row wins exactly when it asserts the field
  and its source is at least as strong as the recorded one, and then its source is recorded.
\<close>

definition wins :: "string \<Rightarrow> (model_info \<Rightarrow> bool) \<Rightarrow> model_info \<Rightarrow> model_info \<Rightarrow> bool" where
  "wins key asserts t i \<longleftrightarrow> asserts i \<and> accepts_field (mi_source i) key t"

definition strongest :: "model_info list \<Rightarrow> model_info list" where
  "strongest rows = filter (\<lambda>r. \<forall>r' \<in> set rows. rank (mi_source r') \<le> rank (mi_source r)) rows"

text \<open>The row that decides a field: the last one among the strongest rows that assert it.\<close>

definition winner :: "(model_info \<Rightarrow> bool) \<Rightarrow> model_info list \<Rightarrow> model_info option" where
  "winner asserts rows =
     (case strongest (filter asserts rows) of [] \<Rightarrow> None | rs \<Rightarrow> Some (last rs))"

lemma winner_snoc:
  "winner asserts (rows @ [r]) =
     (if asserts r \<and> (case winner asserts rows of None \<Rightarrow> True | Some w \<Rightarrow> rank (mi_source w) \<le> rank (mi_source r))
      then Some r else winner asserts rows)"
proof -
  define rs where "rs = filter asserts rows"
  have ne: "strongest xs \<noteq> []" if "xs \<noteq> []" for xs
  proof -
    let ?R = "(\<lambda>r. rank (mi_source r)) ` set xs"
    have "Max ?R \<in> ?R" using that by (intro Max_in) simp_all
    then obtain x where x: "x \<in> set xs" "rank (mi_source x) = Max ?R" by auto
    have "\<forall>r \<in> set xs. rank (mi_source r) \<le> Max ?R" by simp
    then have "\<forall>r \<in> set xs. rank (mi_source r) \<le> rank (mi_source x)" by (simp only: x(2))
    with x(1) show ?thesis by (auto simp: strongest_def filter_empty_conv)
  qed
  show ?thesis
  proof (cases "asserts r")
    case False
    then show ?thesis by (simp add: winner_def)
  next
    case True
    show ?thesis
    proof (cases "rs = []")
      case True
      with \<open>asserts r\<close> show ?thesis by (simp add: winner_def strongest_def rs_def [symmetric])
    next
      case False
      then obtain w where w: "winner asserts rows = Some w" "w = last (strongest rs)"
        using ne [of rs] by (cases "strongest rs") (simp_all add: winner_def rs_def [symmetric])
      have wr: "w \<in> set rs" "\<forall>r' \<in> set rs. rank (mi_source r') \<le> rank (mi_source w)"
        using last_in_set [OF ne [OF False]] w(2) by (auto simp: strongest_def)
      have "strongest (rs @ [r]) =
          (if rank (mi_source w) < rank (mi_source r) then [r]
           else if rank (mi_source w) = rank (mi_source r) then strongest rs @ [r] else strongest rs)"
      proof -
        let ?P = "\<lambda>x. \<forall>r' \<in> set rs. rank (mi_source r') \<le> rank (mi_source x)"
        let ?Q = "\<lambda>x. rank (mi_source r) \<le> rank (mi_source x)"
        have "strongest (rs @ [r]) = filter (\<lambda>x. ?Q x \<and> ?P x) rs @ (if ?P r then [r] else [])"
          by (simp add: strongest_def)
        moreover have "?P r \<longleftrightarrow> rank (mi_source w) \<le> rank (mi_source r)"
          using wr by (meson le_trans)
        moreover have "?P x \<longleftrightarrow> rank (mi_source x) = rank (mi_source w)" if "x \<in> set rs" for x
          using wr that by (metis le_antisym)
        then have "filter (\<lambda>x. ?Q x \<and> ?P x) rs =
            (if rank (mi_source r) \<le> rank (mi_source w) then strongest rs else [])"
          by (auto simp: strongest_def filter_empty_conv intro!: filter_cong)
        ultimately show ?thesis by auto
      qed
      with True w ne [OF False] show ?thesis
        by (auto simp: winner_def rs_def [symmetric] split: list.splits)
    qed
  qed
qed

definition merge_rows :: "model_info list \<Rightarrow> model_info \<Rightarrow> model_info" where
  "merge_rows rows t = fold (\<lambda>i t. merge t i) rows t"

definition decided :: "(model_info \<Rightarrow> 'a) \<Rightarrow> (model_info \<Rightarrow> bool) \<Rightarrow> model_info list \<Rightarrow> model_info \<Rightarrow> 'a" where
  "decided val asserts rows t = (case winner asserts rows of Some w \<Rightarrow> val w | None \<Rightarrow> val t)"

locale merge_slot =
  fixes key :: string and val :: "model_info \<Rightarrow> 'a" and asserts :: "model_info \<Rightarrow> bool"
  assumes merge_val: "val (merge t i) = (if wins key asserts t i then val i else val t)"
    and merge_source: "map_of (mi_field_sources (merge t i)) key =
      (if wins key asserts t i then Some (mi_source i) else map_of (mi_field_sources t) key)"
begin

lemma fold_merge:
  assumes "map_of (mi_field_sources t) key = None"
  shows "val (fold (\<lambda>i t. merge t i) rows t) =
      (case winner asserts rows of Some w \<Rightarrow> val w | None \<Rightarrow> val t) \<and>
    map_of (mi_field_sources (fold (\<lambda>i t. merge t i) rows t)) key = map_option mi_source (winner asserts rows)"
proof (induction rows rule: rev_induct)
  case Nil
  with assms show ?case by (simp add: winner_def strongest_def)
next
  case (snoc r rows)
  let ?t = "fold (\<lambda>i t. merge t i) rows t"
  have w: "wins key asserts ?t r \<longleftrightarrow>
      asserts r \<and> (case winner asserts rows of None \<Rightarrow> True | Some w \<Rightarrow> rank (mi_source w) \<le> rank (mi_source r))"
    using snoc by (auto simp: wins_def accepts_field_def split: option.splits)
  from snoc show ?case by (simp add: merge_val merge_source winner_snoc flip: w)
qed

lemma merged: "mi_field_sources t = [] \<Longrightarrow> val (merge_rows rows t) = decided val asserts rows t"
  using fold_merge [of t rows] by (simp add: merge_rows_def decided_def)

end

text \<open>The fields of the code's merge satisfy the contract.\<close>

definition asserts_price :: "(cost \<Rightarrow> f64 option) \<Rightarrow> model_info \<Rightarrow> bool" where
  "asserts_price sel i \<longleftrightarrow> mi_source i \<noteq> ProviderApi \<and> valid_rate (price_at sel i)"

definition first_keys :: "string list" where
  "first_keys = [''label'', ''context_window_tokens'', ''max_output_tokens'', ''family'', ''reasoning_options'']"

definition listed_keys :: "string list" where
  "listed_keys = [''knowledge_cutoff'', ''release_date'', ''open_weights'', ''capabilities.tools'',
     ''capabilities.streaming'', ''capabilities.images'', ''capabilities.prompt_cache'',
     ''capabilities.structured_output'', ''capabilities.parallel_tool_calls'', ''capabilities.reasoning'',
     ''capabilities.forced_tool_choice'', ''embeds'', ''embedding_dimensions'', ''modalities.input'',
     ''modalities.output'', ''context_cost_tiers'']"

lemma first_keys_assertions: "map fst (first_assertions i) = first_keys"
  by (simp add: first_assertions_def first_keys_def)

lemma listed_keys_assertions: "map fst (listed_assertions i) = listed_keys"
  by (simp add: listed_assertions_def listed_keys_def)

lemma distinct_field_keys: "distinct (first_keys @ listed_keys @ price_keys)"
  by (simp add: first_keys_def listed_keys_def price_keys_def)

lemmas slot_simps = bookkeeping_free_def keeps_def record_source_def first_assertions_def
  listed_assertions_def price_assertions_def default_cost_def

definition after_first :: "model_info \<Rightarrow> model_info \<Rightarrow> model_info \<times> bool" where
  "after_first t i =
     (let st = fold (assert_field (mi_source i)) (first_assertions i) (t, False)
      in ((fst st)\<lparr>mi_reasoning_options := map clear_invalid_default (mi_reasoning_options (fst st))\<rparr>, snd st))"

definition after_listed :: "model_info \<Rightarrow> model_info \<Rightarrow> model_info \<times> bool" where
  "after_listed t i = fold (assert_field (mi_source i)) (listed_assertions i) (after_first t i)"

lemma merge_val_eq:
  "bookkeeping_free val \<Longrightarrow> val (merge t i) = val (fst (merge_prices i (after_listed t i)))"
  by (simp add: merge_def Let_def after_listed_def after_first_def case_prod_unfold bookkeeping_free_def
      split: option.split)

lemma merge_sources_eq:
  "mi_field_sources (merge t i) = mi_field_sources (fst (merge_prices i (after_listed t i)))"
  by (simp add: merge_def Let_def after_listed_def after_first_def case_prod_unfold split: option.split)

lemma merge_first_slot:
  assumes "bookkeeping_free val" and "\<forall>t c. val (t\<lparr>mi_cost := c\<rparr>) = val t"
    and "\<forall>t ro. val (t\<lparr>mi_reasoning_options := ro\<rparr>) = val t"
    and mem: "\<forall>i. \<exists>u. (key, asserts i, u) \<in> set (first_assertions i) \<and> (\<forall>t. val (u t) = val i)"
    and "\<forall>i. keeps (first_assertions i) key val" and "\<forall>i. keeps (listed_assertions i) key val"
  shows "merge_slot key val asserts"
proof
  fix t i
  obtain u where u: "(key, asserts i, u) \<in> set (first_assertions i)" "\<forall>t. val (u t) = val i" using mem by blast
  then have "key \<in> set first_keys" by (metis first_keys_assertions fst_conv image_eqI list.set_map)
  then have keys: "key \<notin> fst ` set (listed_assertions i)" "key \<notin> set price_keys"
    using distinct_field_keys by (auto simp flip: listed_keys_assertions [of i])
  have "distinct (map fst (first_assertions i))"
    using distinct_field_keys by (simp add: first_keys_assertions)
  note slot = fold_assert_slot [OF spec [OF assms(5)] assms(1) this u, of "mi_source i" "(t, False)"]
  have "val (fst (after_first t i)) = (if wins key asserts t i then val i else val t)"
    "map_of (mi_field_sources (fst (after_first t i))) key =
      (if wins key asserts t i then Some (mi_source i) else map_of (mi_field_sources t) key)"
    using slot assms(3) by (simp_all add: after_first_def Let_def wins_def)
  moreover note fold_assert_other [OF spec [OF assms(6)] assms(1) keys(1), of "mi_source i" "after_first t i"]
    merge_prices_other [OF assms(1,2) keys(2), of i "after_listed t i"]
  ultimately show "val (merge t i) = (if wins key asserts t i then val i else val t)"
    "map_of (mi_field_sources (merge t i)) key =
      (if wins key asserts t i then Some (mi_source i) else map_of (mi_field_sources t) key)"
    by (simp_all add: merge_val_eq [OF assms(1)] merge_sources_eq after_listed_def)
qed

lemma after_first_other:
  assumes "bookkeeping_free val" and "\<forall>t ro. val (t\<lparr>mi_reasoning_options := ro\<rparr>) = val t"
    and "keeps (first_assertions i) key val" and "key \<notin> set first_keys"
  shows "val (fst (after_first t i)) = val t"
    and "map_of (mi_field_sources (fst (after_first t i))) key = map_of (mi_field_sources t) key"
proof -
  have "key \<notin> fst ` set (first_assertions i)"
    using assms(4) by (simp flip: first_keys_assertions [of i])
  note other = fold_assert_other [OF assms(3,1) this, of "mi_source i" "(t, False)"]
  then show "val (fst (after_first t i)) = val t"
    "map_of (mi_field_sources (fst (after_first t i))) key = map_of (mi_field_sources t) key"
    using assms(2) by (simp_all add: after_first_def Let_def)
qed

lemma merge_listed_slot:
  assumes "bookkeeping_free val" and "\<forall>t c. val (t\<lparr>mi_cost := c\<rparr>) = val t"
    and "\<forall>t ro. val (t\<lparr>mi_reasoning_options := ro\<rparr>) = val t"
    and mem: "\<forall>i. \<exists>u. (key, asserts i, u) \<in> set (listed_assertions i) \<and> (\<forall>t. val (u t) = val i)"
    and "\<forall>i. keeps (first_assertions i) key val" and "\<forall>i. keeps (listed_assertions i) key val"
  shows "merge_slot key val asserts"
proof
  fix t i
  obtain u where u: "(key, asserts i, u) \<in> set (listed_assertions i)" "\<forall>t. val (u t) = val i" using mem by blast
  then have "key \<in> set listed_keys" by (metis listed_keys_assertions fst_conv image_eqI list.set_map)
  then have keys: "key \<notin> set first_keys" "key \<notin> set price_keys" using distinct_field_keys by auto
  have "distinct (map fst (listed_assertions i))"
    using distinct_field_keys by (simp add: listed_keys_assertions)
  note slot = fold_assert_slot [OF spec [OF assms(6)] assms(1) this u, of "mi_source i" "after_first t i"]
  note other = after_first_other [OF assms(1,3) spec [OF assms(5)] keys(1), of t]
  have "accepts_field (mi_source i) key (fst (after_first t i)) = accepts_field (mi_source i) key t"
    by (rule accepts_sources [OF other(2)])
  with slot other merge_prices_other [OF assms(1,2) keys(2), of i "after_listed t i"]
  show "val (merge t i) = (if wins key asserts t i then val i else val t)"
    "map_of (mi_field_sources (merge t i)) key =
      (if wins key asserts t i then Some (mi_source i) else map_of (mi_field_sources t) key)"
    by (simp_all add: merge_val_eq [OF assms(1)] merge_sources_eq after_listed_def wins_def)
qed

lemma merge_price_slot:
  assumes mem: "\<forall>c. \<exists>u. (key, sel c, u) \<in> set (price_assertions c) \<and> (\<forall>d. sel (u d) = sel c)"
    and rest: "\<forall>c. \<forall>(k, w, u) \<in> set (price_assertions c). k \<noteq> key \<longrightarrow> (\<forall>d. sel (u d) = sel d)"
    and none: "sel default_cost = None"
  shows "merge_slot key (price_at sel) (asserts_price sel)"
proof
  fix t i
  have "key \<in> set price_keys"
    using mem by (metis price_keys_assertions fst_conv image_eqI list.set_map)
  then have keys: "key \<notin> set first_keys" "key \<notin> fst ` set (listed_assertions i)"
    using distinct_field_keys by (auto simp flip: listed_keys_assertions [of i])
  have free: "bookkeeping_free (price_at sel)" "\<forall>t ro. price_at sel (t\<lparr>mi_reasoning_options := ro\<rparr>) = price_at sel t"
    "keeps (first_assertions i) key (price_at sel)" "keeps (listed_assertions i) key (price_at sel)"
    by (simp_all add: slot_simps)
  note other = after_first_other [OF free(1-3) keys(1), of t]
    fold_assert_other [OF free(4,1) keys(2), of "mi_source i" "after_first t i"]
  have acc: "accepts_field (mi_source i) key (fst (after_listed t i)) = accepts_field (mi_source i) key t"
    by (rule accepts_sources) (use other in \<open>simp add: after_listed_def\<close>)
  note slot = merge_prices_slot [of key sel i "after_listed t i", OF spec [OF mem] spec [OF rest] none]
  with acc other show "price_at sel (merge t i) = (if wins key (asserts_price sel) t i then price_at sel i else price_at sel t)"
    "map_of (mi_field_sources (merge t i)) key =
      (if wins key (asserts_price sel) t i then Some (mi_source i) else map_of (mi_field_sources t) key)"
    by (auto simp: merge_val_eq [OF free(1)] merge_sources_eq after_listed_def wins_def asserts_price_def
        simp del: price_at.simps)
qed

interpretation m_label: merge_slot "''label''" "mi_label" "\<lambda>i. mi_label i \<noteq> mi_name i"
  by (rule merge_first_slot) (simp_all add: slot_simps)

interpretation m_context_window_tokens: merge_slot "''context_window_tokens''" "mi_context_window_tokens" "\<lambda>i. mi_context_window_tokens i \<noteq> None"
  by (rule merge_first_slot) (simp_all add: slot_simps)

interpretation m_max_output_tokens: merge_slot "''max_output_tokens''" "mi_max_output_tokens" "\<lambda>i. mi_max_output_tokens i \<noteq> None"
  by (rule merge_first_slot) (simp_all add: slot_simps)

interpretation m_family: merge_slot "''family''" "mi_family" "\<lambda>i. mi_family i \<noteq> None"
  by (rule merge_first_slot) (simp_all add: slot_simps)

interpretation m_knowledge_cutoff: merge_slot "''knowledge_cutoff''" "mi_knowledge_cutoff" "\<lambda>i. mi_source i \<noteq> ProviderApi \<and> mi_knowledge_cutoff i \<noteq> None"
  by (rule merge_listed_slot) (simp_all add: slot_simps)

interpretation m_release_date: merge_slot "''release_date''" "mi_release_date" "\<lambda>i. mi_source i \<noteq> ProviderApi \<and> mi_release_date i \<noteq> None"
  by (rule merge_listed_slot) (simp_all add: slot_simps)

interpretation m_open_weights: merge_slot "''open_weights''" "mi_open_weights" "\<lambda>i. mi_source i \<noteq> ProviderApi \<and> mi_open_weights i \<noteq> None"
  by (rule merge_listed_slot) (simp_all add: slot_simps)

interpretation m_embedding_dimensions: merge_slot "''embedding_dimensions''" "mi_embedding_dimensions" "\<lambda>i. mi_embedding_dimensions i \<noteq> None"
  by (rule merge_listed_slot) (simp_all add: slot_simps)

interpretation m_context_cost_tiers: merge_slot "''context_cost_tiers''" "mi_context_cost_tiers" "\<lambda>i. mi_source i \<noteq> ProviderApi \<and> mi_context_cost_tiers i \<noteq> None"
  by (rule merge_listed_slot) (simp_all add: slot_simps)

interpretation m_embeds: merge_slot "''embeds''" "mi_embeds" "\<lambda>i. mi_embeds i \<noteq> Unknown"
  by (rule merge_listed_slot) (simp_all add: slot_simps)

interpretation m_modalities_input: merge_slot "''modalities.input''" "mi_modalities_input" "\<lambda>i. mi_modalities_input i \<noteq> []"
  by (rule merge_listed_slot) (simp_all add: slot_simps)

interpretation m_modalities_output: merge_slot "''modalities.output''" "mi_modalities_output" "\<lambda>i. mi_modalities_output i \<noteq> []"
  by (rule merge_listed_slot) (simp_all add: slot_simps)

interpretation m_cap_tools: merge_slot "''capabilities.tools''" "\<lambda>m. cap_tools (mi_capabilities m)" "\<lambda>i. cap_tools (mi_capabilities i) \<noteq> Unknown"
  by (rule merge_listed_slot) (simp_all add: slot_simps)

interpretation m_cap_streaming: merge_slot "''capabilities.streaming''" "\<lambda>m. cap_streaming (mi_capabilities m)" "\<lambda>i. cap_streaming (mi_capabilities i) \<noteq> Unknown"
  by (rule merge_listed_slot) (simp_all add: slot_simps)

interpretation m_cap_images: merge_slot "''capabilities.images''" "\<lambda>m. cap_images (mi_capabilities m)" "\<lambda>i. cap_images (mi_capabilities i) \<noteq> Unknown"
  by (rule merge_listed_slot) (simp_all add: slot_simps)

interpretation m_cap_prompt_cache: merge_slot "''capabilities.prompt_cache''" "\<lambda>m. cap_prompt_cache (mi_capabilities m)" "\<lambda>i. cap_prompt_cache (mi_capabilities i) \<noteq> Unknown"
  by (rule merge_listed_slot) (simp_all add: slot_simps)

interpretation m_cap_structured_output: merge_slot "''capabilities.structured_output''" "\<lambda>m. cap_structured_output (mi_capabilities m)" "\<lambda>i. cap_structured_output (mi_capabilities i) \<noteq> Unknown"
  by (rule merge_listed_slot) (simp_all add: slot_simps)

interpretation m_cap_parallel_tool_calls: merge_slot "''capabilities.parallel_tool_calls''" "\<lambda>m. cap_parallel_tool_calls (mi_capabilities m)" "\<lambda>i. cap_parallel_tool_calls (mi_capabilities i) \<noteq> Unknown"
  by (rule merge_listed_slot) (simp_all add: slot_simps)

interpretation m_cap_reasoning: merge_slot "''capabilities.reasoning''" "\<lambda>m. cap_reasoning (mi_capabilities m)" "\<lambda>i. cap_reasoning (mi_capabilities i) \<noteq> Unknown"
  by (rule merge_listed_slot) (simp_all add: slot_simps)

interpretation m_cap_forced_tool_choice: merge_slot "''capabilities.forced_tool_choice''" "\<lambda>m. cap_forced_tool_choice (mi_capabilities m)" "\<lambda>i. cap_forced_tool_choice (mi_capabilities i) \<noteq> Unknown"
  by (rule merge_listed_slot) (simp_all add: slot_simps)

interpretation m_cost_input: merge_slot "''cost.input''" "price_at cost_input" "asserts_price cost_input"
  by (rule merge_price_slot) (auto simp: slot_simps)

interpretation m_cost_output: merge_slot "''cost.output''" "price_at cost_output" "asserts_price cost_output"
  by (rule merge_price_slot) (auto simp: slot_simps)

interpretation m_cost_cache_read: merge_slot "''cost.cache_read''" "price_at cost_cache_read" "asserts_price cost_cache_read"
  by (rule merge_price_slot) (auto simp: slot_simps)

interpretation m_cost_cache_write: merge_slot "''cost.cache_write''" "price_at cost_cache_write" "asserts_price cost_cache_write"
  by (rule merge_price_slot) (auto simp: slot_simps)

section \<open>Properties of the merge\<close>

lemmas slot_folds =
  m_label.merged m_context_window_tokens.merged m_max_output_tokens.merged m_family.merged
  m_knowledge_cutoff.merged m_release_date.merged m_open_weights.merged m_embedding_dimensions.merged
  m_context_cost_tiers.merged m_embeds.merged m_modalities_input.merged m_modalities_output.merged
  m_cap_tools.merged m_cap_streaming.merged m_cap_images.merged m_cap_prompt_cache.merged
  m_cap_structured_output.merged m_cap_parallel_tool_calls.merged m_cap_reasoning.merged m_cap_forced_tool_choice.merged
  m_cost_input.merged m_cost_output.merged m_cost_cache_read.merged m_cost_cache_write.merged


section \<open>Context-dependent prices: the tier that decides\<close>

definition applicable_tiers :: "model_info \<Rightarrow> nat \<Rightarrow> (cost \<Rightarrow> f64 option) \<Rightarrow> context_cost_tier list" where
  "applicable_tiers m n sel =
     filter (\<lambda>t. above_input_tokens t < n \<and> valid_rate (sel (tier_cost t)))
       (case mi_context_cost_tiers m of Some ts \<Rightarrow> ts | None \<Rightarrow> [])"

definition highest_tiers :: "context_cost_tier list \<Rightarrow> context_cost_tier list" where
  "highest_tiers ts = filter (\<lambda>t. \<forall>t' \<in> set ts. above_input_tokens t' \<le> above_input_tokens t) ts"

text \<open>The rate a field should have: the one of the highest applicable tier that carries one (the
  last of them if several start at the same count), unless the base price has a stronger source.\<close>

definition tiered_rate :: "model_info \<Rightarrow> nat \<Rightarrow> string \<Rightarrow> (cost \<Rightarrow> f64 option) \<Rightarrow> cost \<Rightarrow> f64 option" where
  "tiered_rate m n key sel base =
     (if applicable_tiers m n sel = [] \<or> rank (source_of m ''context_cost_tiers'') < rank (source_of m key)
      then sel base
      else sel (tier_cost (last (highest_tiers (applicable_tiers m n sel)))))"

lemma last_sort_key:
  assumes "xs \<noteq> []"
  shows "last (sort_key f xs) = last (filter (\<lambda>x. \<forall>y \<in> set xs. f y \<le> f x) xs)"
proof -
  let ?s = "sort_key f xs" let ?k = "f (last ?s)"
  have ne: "?s \<noteq> []" using assms by (metis length_0_conv length_sort)
  have last_max: "f y \<le> ?k" if "y \<in> set xs" for y
  proof -
    have split: "?s = butlast ?s @ [last ?s]" using ne by simp
    then have "sorted (map f (butlast ?s @ [last ?s]))" by (metis sorted_sort_key)
    then have "\<forall>y \<in> set (butlast ?s). f y \<le> ?k" by (simp add: sorted_append)
    moreover have "y \<in> set (butlast ?s @ [last ?s])" using that split by (metis set_sort)
    ultimately show ?thesis by auto
  qed
  have in_xs: "last ?s \<in> set xs" using last_in_set [OF ne] by simp
  have "filter (\<lambda>x. \<forall>y \<in> set xs. f y \<le> f x) xs = filter (\<lambda>x. f x = ?k) xs"
    using last_max in_xs by (intro filter_cong) (auto intro: antisym)
  also have "\<dots> = filter (\<lambda>x. f x = ?k) ?s" by (rule sort_key_stable [symmetric])
  also have "\<dots> = filter (\<lambda>x. f x = ?k) (butlast ?s @ [last ?s])" using ne by simp
  also have "last \<dots> = last ?s" by simp
  finally show ?thesis by simp
qed

lemma fold_slot:
  assumes "\<And>t c. sel (apply_tier m t c) = tier_rate m key (sel (tier_cost t)) (sel c)"
  shows "sel (fold (apply_tier m) ts c) =
    (let vs = filter (\<lambda>t. valid_rate (sel (tier_cost t))) ts
     in if vs = [] \<or> rank (source_of m ''context_cost_tiers'') < rank (source_of m key) then sel c
        else sel (tier_cost (last vs)))"
  by (induction ts rule: rev_induct) (auto simp: assms tier_rate_def Let_def)

lemma cost_for_slot:
  assumes "\<And>t c. sel (apply_tier m t c) = tier_rate m key (sel (tier_cost t)) (sel c)"
    and "mi_cost m = Some c" and "cost_for_input_tokens m n = Some c'"
  shows "sel c' = tiered_rate m n key sel c"
proof -
  let ?ts = "filter (\<lambda>t. n > above_input_tokens t) (case mi_context_cost_tiers m of Some ts \<Rightarrow> ts | None \<Rightarrow> [])"
  have vs: "filter (\<lambda>t. valid_rate (sel (tier_cost t))) (sort_key above_input_tokens ?ts) =
      sort_key above_input_tokens (applicable_tiers m n sel)"
    by (simp add: filter_sort applicable_tiers_def conj_commute)
  have nil: "sort_key above_input_tokens xs = [] \<longleftrightarrow> xs = []" for xs :: "context_cost_tier list"
    by (metis length_0_conv length_sort)
  have "c' = fold (apply_tier m) (sort_key above_input_tokens ?ts) c"
    using assms(2,3) by (simp add: cost_for_input_tokens_def Let_def)
  then have "sel c' = (let vs = sort_key above_input_tokens (applicable_tiers m n sel)
     in if vs = [] \<or> rank (source_of m ''context_cost_tiers'') < rank (source_of m key) then sel c
        else sel (tier_cost (last vs)))"
    by (simp only: fold_slot [OF assms(1)] vs)
  then show ?thesis
    using last_sort_key [of "applicable_tiers m n sel" above_input_tokens]
    by (simp add: Let_def nil tiered_rate_def highest_tiers_def)
qed

text \<open>The price of a request of a given input size is fixed per field by the highest tier
  below that size that carries a valid rate, tiers being ordered by their thresholds whatever
  their order in the catalog; a base price from a stronger source than the tiers stands. A model
  has such a price exactly when it has a base price.\<close>

lemma tiered_price:
  "cost_for_input_tokens m n =
     map_option (\<lambda>c. \<lparr>cost_input = tiered_rate m n ''cost.input'' cost_input c,
        cost_output = tiered_rate m n ''cost.output'' cost_output c,
        cost_cache_read = tiered_rate m n ''cost.cache_read'' cost_cache_read c,
        cost_cache_write = tiered_rate m n ''cost.cache_write'' cost_cache_write c\<rparr>) (mi_cost m)"
proof (cases "mi_cost m")
  case None
  then show ?thesis by (simp add: cost_for_input_tokens_def)
next
  case (Some c)
  then obtain c' where c': "cost_for_input_tokens m n = Some c'" by (simp add: cost_for_input_tokens_def)
  note slot = cost_for_slot [OF _ Some c']
  have "cost_input c' = tiered_rate m n ''cost.input'' cost_input c"
    "cost_output c' = tiered_rate m n ''cost.output'' cost_output c"
    "cost_cache_read c' = tiered_rate m n ''cost.cache_read'' cost_cache_read c"
    "cost_cache_write c' = tiered_rate m n ''cost.cache_write'' cost_cache_write c"
    by (rule slot; simp add: apply_tier_def)+
  then show ?thesis using c' Some by simp
qed

section \<open>Aliases\<close>

definition alias_step :: "(string \<times> string) list \<Rightarrow> (string \<times> string) set" where
  "alias_step aliases = {(a, b). map_of aliases a = Some b}"

lemma alias_step_det: "(a, b) \<in> alias_step A \<Longrightarrow> (a, c) \<in> alias_step A \<Longrightarrow> b = c"
  by (simp add: alias_step_def)

lemma follow_cycle:
  assumes "(key, key) \<in> (alias_step A)\<^sup>+" and "(key, k) \<in> (alias_step A)\<^sup>*"
  shows "\<exists>b. (k, b) \<in> alias_step A \<and> (b, key) \<in> (alias_step A)\<^sup>*"
  using assms(2)
proof (induction rule: rtrancl_induct)
  case base
  then show ?case using assms(1) by (meson tranclD)
next
  case (step y z)
  then obtain b where "(y, b) \<in> alias_step A" "(b, key) \<in> (alias_step A)\<^sup>*" by blast
  with step have "(z, key) \<in> (alias_step A)\<^sup>*" by (metis alias_step_det)
  with assms(1) show ?case by (metis converse_rtranclE tranclD)
qed

lemma follow_aliases_spec:
  assumes "\<forall>s \<in> set seen. (s, key) \<in> (alias_step A)\<^sup>+"
  shows "case follow_aliases A seen key of
      Some k \<Rightarrow> (key, k) \<in> (alias_step A)\<^sup>* \<and> map_of A k = None
    | None \<Rightarrow> (\<forall>k. (key, k) \<in> (alias_step A)\<^sup>* \<longrightarrow> map_of A k \<noteq> None)"
  using assms
proof (induction A seen key rule: follow_aliases.induct)
  case (1 A seen key)
  show ?case
  proof (cases "map_of A key")
    case None
    then show ?thesis by (simp add: follow_aliases.simps [of A seen key])
  next
    case (Some b)
    then have st: "(key, b) \<in> alias_step A" by (simp add: alias_step_def)
    show ?thesis
    proof (cases "key \<in> set seen")
      case True
      with "1.prems" have "(key, key) \<in> (alias_step A)\<^sup>+" by blast
      from follow_cycle [OF this] have "\<forall>k. (key, k) \<in> (alias_step A)\<^sup>* \<longrightarrow> map_of A k \<noteq> None"
        by (fastforce simp: alias_step_def)
      with True Some show ?thesis by (simp add: follow_aliases.simps [of A seen key])
    next
      case False
      have "\<forall>s \<in> set (key # seen). (s, b) \<in> (alias_step A)\<^sup>+"
        using "1.prems" st by (auto intro: trancl_into_trancl)
      note ih = "1.IH" [OF Some False this]
      have "(key, k) \<in> (alias_step A)\<^sup>* \<longleftrightarrow> k = key \<or> (b, k) \<in> (alias_step A)\<^sup>*" for k
        using st by (metis alias_step_det converse_rtranclE converse_rtrancl_into_rtrancl rtrancl.rtrancl_refl)
      with ih Some False show ?thesis
        by (auto simp: follow_aliases.simps [of A seen key] split: option.splits)
    qed
  qed
qed

lemma follow_aliases_end: "map_of A k = None \<Longrightarrow> follow_aliases A [] k = Some k"
  by (simp add: follow_aliases.simps)

text \<open>Alias resolution terminates and follows the chain of aliases to its end: an id resolves to
  whatever the id at the end of its chain resolves to, and to nothing when the chain never ends.\<close>

lemma resolve_aliases:
  "resolve spec c mid =
     (if \<exists>k. (mid, k) \<in> (alias_step (cat_aliases c))\<^sup>* \<and> map_of (cat_aliases c) k = None
      then resolve spec c (THE k. (mid, k) \<in> (alias_step (cat_aliases c))\<^sup>* \<and> map_of (cat_aliases c) k = None)
      else None)"
proof -
  let ?R = "alias_step (cat_aliases c)"
  have uniq: "k = k'" if "(mid, k) \<in> ?R\<^sup>*" "map_of (cat_aliases c) k = None"
    "(mid, k') \<in> ?R\<^sup>*" "map_of (cat_aliases c) k' = None" for k k'
  proof -
    have "single_valued ?R" by (simp add: single_valued_def alias_step_def)
    then have "(k, k') \<in> ?R\<^sup>* \<or> (k', k) \<in> ?R\<^sup>*" using single_valued_confluent that(1,3) by metis
    then show ?thesis
      using that(2,4) by (auto simp: alias_step_def elim: converse_rtranclE)
  qed
  show ?thesis
  proof (cases "follow_aliases (cat_aliases c) [] mid")
    case None
    then show ?thesis using follow_aliases_spec [of "[]" mid "cat_aliases c"] by (auto simp: resolve_def)
  next
    case (Some k)
    then have k: "(mid, k) \<in> ?R\<^sup>*" "map_of (cat_aliases c) k = None"
      using follow_aliases_spec [of "[]" mid "cat_aliases c"] by simp_all
    then have "(THE k. (mid, k) \<in> ?R\<^sup>* \<and> map_of (cat_aliases c) k = None) = k"
      using uniq by (intro the_equality) blast+
    with k Some follow_aliases_end [OF k(2)] show ?thesis by (auto simp: resolve_def)
  qed
qed

section \<open>The spelling index\<close>

lemma insort_insert_idem [simp]: "insort_insert x (insort_insert x xs) = insort_insert x xs"
  by (simp add: insort_insert_key_def set_insort_key)

lemma length_insort_insert: "length (insort_insert x xs) = (if x \<in> set xs then length xs else Suc (length xs))"
  by (simp add: insort_insert_key_def)

definition ids_at :: "(string \<times> string list) list \<Rightarrow> string \<Rightarrow> string list" where
  "ids_at m key = (case map_of m key of Some ids \<Rightarrow> ids | None \<Rightarrow> [])"

lemma map_of_add_spelling [simp]:
  "map_of (add_spelling key mid m) k = (if k = key then Some (insort_insert mid (ids_at m key)) else map_of m k)"
  by (simp add: add_spelling_def ids_at_def)

lemma ids_at_add_spelling [simp]:
  "ids_at (add_spelling key mid m) k = (if k = key then insort_insert mid (ids_at m key) else ids_at m k)"
  by (simp add: ids_at_def [of "add_spelling key mid m"]) (simp add: ids_at_def)

text \<open>The qualified spellings of a row.\<close>

definition name_spellings :: "model_info \<Rightarrow> string \<Rightarrow> string set" where
  "name_spellings m name = insert (mi_provider m @ ''/'' @ name)
     (if mi_provider m = ''gemini'' then {''google/'' @ name} else {})"

definition spelling_keys :: "model_info \<Rightarrow> string set" where
  "spelling_keys m = (\<Union>name \<in> set (index_names (mi_name m)). name_spellings m name)"

lemma index_name_spellings:
  "map_of (cat_spellings (index_name m name c)) key =
     (if key \<in> name_spellings m name then Some (insort_insert (mi_id m) (ids_at (cat_spellings c) key))
      else map_of (cat_spellings c) key)"
  by (simp add: index_name_def PROVIDER_ALIASES_def name_spellings_def)

lemma index_name_keeps [simp]:
  "cat_models (index_name m name c) = cat_models c" "cat_aliases (index_name m name c) = cat_aliases c"
  by (simp_all add: index_name_def)

lemma fold_index_spellings:
  "map_of (cat_spellings (fold (index_name m) names c)) key =
     (if key \<in> (\<Union>name \<in> set names. name_spellings m name)
      then Some (insort_insert (mi_id m) (ids_at (cat_spellings c) key))
      else map_of (cat_spellings c) key)"
proof (induction names arbitrary: c)
  case (Cons n ns)
  have "ids_at (cat_spellings (index_name m n c)) key =
      (if key \<in> name_spellings m n then insort_insert (mi_id m) (ids_at (cat_spellings c) key)
       else ids_at (cat_spellings c) key)"
    by (simp add: ids_at_def [of "cat_spellings (index_name m n c)"] index_name_spellings)
      (simp add: ids_at_def)
  with Cons show ?case by (auto simp: index_name_spellings)
qed simp

lemma fold_index_keeps [simp]:
  "cat_models (fold (index_name m) names c) = cat_models c"
  "cat_aliases (fold (index_name m) names c) = cat_aliases c"
  by (induction names arbitrary: c) simp_all

lemma merge_model_keeps:
  "map_of (cat_models (merge_model m c)) (mi_id m) \<noteq> None"
  "k \<noteq> mi_id m \<Longrightarrow> map_of (cat_models (merge_model m c)) k = map_of (cat_models c) k"
  "cat_aliases (merge_model m c) = cat_aliases c"
  by (simp_all add: merge_model_def index_model_def Let_def)

lemma merge_model_spellings:
  "key \<in> spelling_keys m \<Longrightarrow>
   map_of (cat_spellings (merge_model m c)) key = Some (insort_insert (mi_id m) (ids_at (cat_spellings c) key))"
  by (simp add: merge_model_def index_model_def Let_def fold_index_spellings spelling_keys_def)

text \<open>After a row is merged, its id resolves to it, and so does each of its qualified spellings (the
  dashed and dotted version, the name without a region prefix, the alias of its provider) as long
  as no other row claims that spelling; a spelling claimed by two rows resolves to neither.\<close>

lemma spelling_resolves:
  assumes "key \<in> insert (mi_id m) (spelling_keys m)" and "map_of (cat_aliases c) key = None"
    and "key \<noteq> mi_id m \<longrightarrow> map_of (cat_models c) key = None \<and> spec key = None"
    and "distinct (ids_at (cat_spellings c) key)"
  shows "resolve spec (merge_model m c) key =
    (if key = mi_id m \<or> set (ids_at (cat_spellings c) key) \<subseteq> {mi_id m}
     then map_of (cat_models (merge_model m c)) (mi_id m) else None) \<and>
    map_of (cat_models (merge_model m c)) (mi_id m) \<noteq> None"
proof (cases "key = mi_id m")
  case True
  obtain row where "map_of (cat_models (merge_model m c)) (mi_id m) = Some row"
    using merge_model_keeps(1) [of m c] by blast
  with True assms(2) show ?thesis
    by (simp add: resolve_def merge_model_keeps(3) follow_aliases_end)
next
  case False
  define ids where "ids = ids_at (cat_spellings c) key"
  have "insort_insert (mi_id m) ids = [mi_id m]" if "set ids \<subseteq> {mi_id m}"
    using that assms(4) unfolding ids_def [symmetric]
    by (cases ids; cases "tl ids") (auto simp: insort_insert_key_def)
  moreover have "set ids \<subseteq> {mi_id m}" if "length (insort_insert (mi_id m) ids) = 1"
    using that by (cases ids) (auto simp: length_insort_insert split: if_splits)
  moreover have "key \<in> spelling_keys m" using assms(1) False by simp
  note merge_model_spellings [OF this, of c, folded ids_def]
  ultimately show ?thesis
    using False assms(2,3) merge_model_keeps(1) [of m c]
    by (auto simp: resolve_def merge_model_keeps(2,3) follow_aliases_end ids_def [symmetric])
qed

section \<open>The import budget covers the index\<close>

text \<open>The provider and the name a catalog entry gets (the first lines of \<open>model_from_value\<close>).\<close>

definition row_identity :: "string \<Rightarrow> string \<Rightarrow> string \<times> string" where
  "row_identity provider name =
     (provider_key provider,
      if provider_key provider = ''anthropic'' \<and> starts_with name ''claude-''
      then replace_char (CHR ''.'') (CHR ''-'') name else name)"

definition row_of :: "string \<times> string \<Rightarrow> model_info \<Rightarrow> bool" where
  "row_of entry m \<longleftrightarrow>
     (mi_provider m, mi_name m) = row_identity (fst entry) (snd entry) \<and>
     mi_id m = mi_provider m @ ''/'' @ mi_name m"

fun admit_all :: "import_budget \<Rightarrow> (string \<times> string) list \<Rightarrow> import_budget option" where
  "admit_all b [] = Some b"
| "admit_all b (e # es) = Option.bind (admit_model b (fst e) (snd e)) (\<lambda>b'. admit_all b' es)"

definition spelling_bytes :: "(string \<times> string list) list \<Rightarrow> nat" where
  "spelling_bytes m = sum_list (map (\<lambda>p. length (fst p) + sum_list (map length (snd p))) m)"

definition index_bytes :: "catalog \<Rightarrow> nat" where
  "index_bytes c = spelling_bytes (cat_spellings c) + spelling_bytes (cat_bare_spellings c)"

definition index_wf :: "catalog \<Rightarrow> bool" where
  "index_wf c \<longleftrightarrow> btree_wf (cat_models c) \<and> btree_wf (cat_spellings c) \<and> btree_wf (cat_bare_spellings c)"

lemma spelling_bytes_insert:
  "btree_wf m \<Longrightarrow> spelling_bytes (btree_insert k v m) + (case map_of m k of Some w \<Rightarrow> length k + sum_list (map length w) | None \<Rightarrow> 0) =
     spelling_bytes m + length k + sum_list (map length v)"
proof (induction m)
  case (Cons p m)
  have "map_of m k = None" if "k < fst p"
    using Cons.prems that by (force simp: map_of_eq_None_iff)
  moreover have "map_of m k = None" if "k = fst p"
    using Cons.prems that by (force simp: map_of_eq_None_iff)
  ultimately show ?case using Cons by (cases p) (auto simp: spelling_bytes_def split: option.splits)
qed (simp add: spelling_bytes_def)

lemma sum_insort_insert: "sum_list (map length (insort_insert x xs)) \<le> sum_list (map length xs) + length x"
proof -
  have "sum_list (map length (insort x xs)) = sum_list (map length xs) + length x" by (induction xs) auto
  then show ?thesis by (simp add: insort_insert_key_def)
qed

lemma add_spelling_bytes:
  "btree_wf m \<Longrightarrow> spelling_bytes (add_spelling key mid m) \<le> spelling_bytes m + length key + length mid"
  using spelling_bytes_insert [of m key "insort_insert mid (ids_at m key)"] sum_insort_insert [of mid "ids_at m key"]
  by (auto simp: add_spelling_def ids_at_def split: option.splits)

lemma add_spelling_wf: "btree_wf m \<Longrightarrow> btree_wf (add_spelling key mid m)"
  by (simp add: add_spelling_def btree_wf_insert)

abbreviation google_copies :: "model_info \<Rightarrow> nat" where
  "google_copies m \<equiv> if mi_provider m = ''gemini'' then 1 else 0"

lemma index_name_bytes:
  assumes "index_wf c" and "length name \<le> l"
  shows "index_wf (index_name m name c) \<and>
    index_bytes (index_name m name c) \<le> index_bytes c +
      ((2 + google_copies m) * (l + length (mi_id m)) + length (mi_provider m) + 1 + google_copies m * 7)"
proof -
  let ?s = "add_spelling (mi_provider m @ ''/'' @ name) (mi_id m) (cat_spellings c)"
  have wf: "btree_wf ?s" using assms(1) by (simp add: index_wf_def add_spelling_wf)
  have "spelling_bytes ?s \<le> spelling_bytes (cat_spellings c) + (length (mi_provider m) + 1 + length name) + length (mi_id m)"
    using add_spelling_bytes [of "cat_spellings c" "mi_provider m @ ''/'' @ name" "mi_id m"] assms(1)
    by (simp add: index_wf_def)
  moreover have "spelling_bytes (add_spelling (''google/'' @ name) (mi_id m) ?s) \<le>
      spelling_bytes ?s + (7 + length name) + length (mi_id m)"
    using add_spelling_bytes [OF wf, of "''google/'' @ name" "mi_id m"] by simp
  moreover have "spelling_bytes (add_spelling name (mi_id m) (cat_bare_spellings c)) \<le>
      spelling_bytes (cat_bare_spellings c) + length name + length (mi_id m)"
    using add_spelling_bytes assms(1) by (simp add: index_wf_def)
  ultimately show ?thesis
    using assms wf by (auto simp: index_name_def PROVIDER_ALIASES_def index_bytes_def index_wf_def add_spelling_wf)
qed

lemma fold_index_bytes:
  assumes "index_wf c" and "\<forall>n \<in> set names. length n \<le> l"
  shows "index_wf (fold (index_name m) names c) \<and>
    index_bytes (fold (index_name m) names c) \<le> index_bytes c + length names *
      ((2 + google_copies m) * (l + length (mi_id m)) + length (mi_provider m) + 1 + google_copies m * 7)"
  using assms
proof (induction names arbitrary: c)
  case (Cons n ns)
  have "length n \<le> l" using Cons.prems by simp
  from index_name_bytes [OF Cons.prems(1) this, of m] Cons.IH [of "index_name m n c"] Cons.prems
  show ?case by auto
qed simp

lemma length_dotted_from [simp]: "length (dotted_from prev s) = length s"
  by (induction prev s rule: dotted_from.induct) simp_all

lemma index_names_short: "n \<in> set (index_names name) \<Longrightarrow> length n \<le> length name"
  by (auto simp: index_names_def claude_version_spellings_def replace_char_def Let_def map_filter_def
      strip_prefix_def split: if_splits)

lemma length_index_names: "length (index_names name) = spelling_count name"
proof -
  have "length (List.map_filter (strip_prefix name) ps) = length (filter (starts_with name) ps)" for ps
    by (induction ps) (auto simp: List.map_filter_simps strip_prefix_def)
  then show ?thesis
    by (simp add: index_names_def spelling_count_def claude_version_spellings_def Let_def)
qed

text \<open>Replacing dots in a Claude name changes neither its length nor its number of spellings.\<close>

lemma row_identity_name:
  assumes "row_identity provider name = (p, n)"
  shows "p = provider_key provider" and "length n = length name" and "spelling_count n = spelling_count name"
proof -
  show "p = provider_key provider" "length n = length name"
    using assms by (auto simp: row_identity_def replace_char_def split: if_splits)
  have "spelling_count (replace_char (CHR ''.'') (CHR ''-'') name) = spelling_count name"
    if "starts_with name ''claude-''"
  proof -
    from that obtain r where r: "name = ''claude-'' @ r" by (auto simp: starts_with_def prefix_def)
    show ?thesis by (simp add: r replace_char_def spelling_count_def starts_with_def REGION_PREFIXES_def)
  qed
  then show "spelling_count n = spelling_count name" using assms by (auto simp: row_identity_def split: if_splits)
qed

lemma projected_bytes_ge:
  assumes "projected_bytes p n = Some b"
  shows "spelling_count n * ((2 + (if p = ''gemini'' then 1 else 0)) * (length n + (length p + 1 + length n)) + length p + 1
      + (if p = ''gemini'' then 1 else 0) * 7) \<le> b"
  using assms
  by (auto simp: projected_bytes_def bind_eq_Some_conv PROVIDER_ALIASES_def algebra_simps split: if_splits)

lemma merge_model_bytes:
  assumes "index_wf c" and "row_of e m" and "projected_bytes (provider_key (fst e)) (snd e) = Some b"
  shows "index_wf (merge_model m c) \<and> index_bytes (merge_model m c) \<le> index_bytes c + b \<and>
    length (cat_models (merge_model m c)) \<le> Suc (length (cat_models c))"
proof -
  define n where "n = mi_name m"
  define row where "row = (case map_of (cat_models c) (mi_id m) of Some t \<Rightarrow> t
    | None \<Rightarrow> (new_model (mi_provider m) (mi_name m))\<lparr>mi_source := mi_source m\<rparr>)"
  let ?c = "c\<lparr>cat_models := btree_insert (mi_id m) (merge row m) (cat_models c)\<rparr>"
  have eq: "merge_model m c = fold (index_name m) (index_names n) ?c"
    by (simp add: merge_model_def index_model_def Let_def row_def n_def)
  have wf: "index_wf ?c" using assms(1) by (simp add: index_wf_def btree_wf_insert)
  have "row_identity (fst e) (snd e) = (mi_provider m, n)" and mid: "mi_id m = mi_provider m @ ''/'' @ n"
    using assms(2) by (simp_all add: row_of_def n_def)
  note row = row_identity_name [OF this(1)]
  have "length (index_names n) * ((2 + google_copies m) * (length n + length (mi_id m)) + length (mi_provider m) + 1
      + google_copies m * 7) \<le> b"
    using projected_bytes_ge [OF assms(3)] row by (simp add: length_index_names mid add.commute)
  moreover have "length (btree_insert k v xs) \<le> Suc (length xs)" for k :: string and v :: model_info and xs
    by (induction k v xs rule: btree_insert.induct) auto
  ultimately show ?thesis
    using fold_index_bytes [OF wf, of "index_names n" "length n" m] index_names_short [of _ n]
    by (force simp: eq index_bytes_def)
qed

lemma admit_Some:
  "admit_model b p n = Some b' \<Longrightarrow> \<exists>pr. projected_bytes (provider_key p) n = Some pr \<and>
     remaining_models b = Suc (remaining_models b') \<and>
     remaining_identity_bytes b = remaining_identity_bytes b' + pr"
  by (auto simp: admit_model_def bind_eq_Some_conv checked_sub_def split: if_splits)

lemma import_bounded:
  assumes "list_all2 row_of entries rows" and "admit_all b entries = Some b'" and "index_wf c"
  shows "index_bytes (fold merge_model rows c) + remaining_identity_bytes b' \<le> index_bytes c + remaining_identity_bytes b \<and>
    length (cat_models (fold merge_model rows c)) + remaining_models b' \<le> length (cat_models c) + remaining_models b"
  using assms
proof (induction entries rows arbitrary: b c rule: list_all2_induct)
  case (Cons e es m ms)
  then obtain b1 where b1: "admit_model b (fst e) (snd e) = Some b1" "admit_all b1 es = Some b'"
    by (auto simp: bind_eq_Some_conv)
  then obtain pr where pr: "projected_bytes (provider_key (fst e)) (snd e) = Some pr"
    "remaining_models b = Suc (remaining_models b1)"
    "remaining_identity_bytes b = remaining_identity_bytes b1 + pr"
    using admit_Some by blast
  from merge_model_bytes [OF Cons.prems(2) Cons.hyps(1) pr(1)] Cons.IH [OF b1(2), of "merge_model m c"] pr(2,3)
  show ?case by simp
qed simp

text \<open>The import budget bounds what an import builds: when every entry of a listing is admitted, the
  catalog made from its rows has at most 32768 rows and its two spelling indexes hold at most
  128 MiB of keys and ids.\<close>

lemma import_index_bounded:
  assumes "admit_all default_import_budget entries = Some b" and "list_all2 row_of entries rows"
  shows "index_bytes (fold merge_model rows empty_catalog) \<le> 128 * 1024 * 1024 \<and>
    length (cat_models (fold merge_model rows empty_catalog)) \<le> 32768"
  using import_bounded [OF assms(2,1), of empty_catalog]
  by (simp add: index_wf_def empty_catalog_def index_bytes_def spelling_bytes_def default_import_budget_def)

section \<open>Instances\<close>

definition demo_row :: model_info where
  "demo_row = (new_model ''gemini'' ''us.g-1'')\<lparr>mi_source := ModelsDev, mi_max_output_tokens := Some 8,
     mi_cost := Some (default_cost\<lparr>cost_input := Some (Fin 3)\<rparr>)\<rparr>"

definition demo_listing :: model_info where
  "demo_listing = (new_model ''gemini'' ''us.g-1'')\<lparr>mi_source := ProviderApi, mi_max_output_tokens := Some 9,
     mi_cost := Some (default_cost\<lparr>cost_input := Some (Fin 5)\<rparr>)\<rparr>"


end
