(* ===== verification/Cost.thy ===== *)
theory Cost
  imports Catalog
begin

text \<open>
  USD cost of a completed response (\<open>src/cost.rs\<close>): the price of a usage object at catalog rates,
  the provider's own bill, and the stamp on a normalized response. The catalog snapshot and the
  built-in table are arguments; so are, for a stream chunk, the bounded JSON parser and the
  rendering of a value.
\<close>

section \<open>Pricing\<close>

definition PER_MILLION :: f64 where "PER_MILLION = Fin 1000000"

definition count :: "json \<Rightarrow> string \<Rightarrow> nat" where
  "count usage key = (case get_u64 usage key of Some n \<Rightarrow> n | None \<Rightarrow> 0)"

definition charge :: "nat \<Rightarrow> f64 option \<Rightarrow> f64 option" where
  "charge tokens rate =
     (if tokens = 0 then Some (Fin 0)
      else map_option (\<lambda>r. f64_div (f64_mul (f64_of_nat tokens) r) PER_MILLION) rate)"

definition highest_published_rate :: "cost \<Rightarrow> f64 option" where
  "highest_published_rate c =
     fold (\<lambda>rate best. Some (case best of None \<Rightarrow> rate | Some b \<Rightarrow> f64_max b rate))
       (List.map_filter id [cost_input c, cost_output c, cost_cache_read c, cost_cache_write c]) None"

definition or_rate :: "f64 option \<Rightarrow> f64 option \<Rightarrow> f64 option" where
  "or_rate own top_rate = (case own of Some r \<Rightarrow> Some r | None \<Rightarrow> top_rate)"

definition priced_input :: "json \<Rightarrow> nat" where
  "priced_input usage =
     (case get_u64 usage ''uncached_input_tokens'' of Some n \<Rightarrow> n | None \<Rightarrow> count usage ''prompt_tokens'')"

definition price :: "json \<Rightarrow> cost \<Rightarrow> f64 option" where
  "price usage c =
     (let cache_read = count usage ''cache_read_tokens'';
          cache_write = count usage ''cache_write_tokens'';
          input = priced_input usage;
          output = count usage ''completion_tokens'';
          top_rate = highest_published_rate c
      in if input = 0 \<and> cache_read = 0 \<and> cache_write = 0 \<and> output = 0 then None
         else
           Option.bind (charge input (or_rate (cost_input c) top_rate)) (\<lambda>a.
           Option.bind (charge output (or_rate (cost_output c) top_rate)) (\<lambda>b.
           Option.bind (charge cache_read (or_rate (cost_cache_read c) top_rate)) (\<lambda>r.
           Option.bind (charge cache_write (or_rate (cost_cache_write c) top_rate)) (\<lambda>w.
           Some (f64_add (f64_add (f64_add a b) r) w))))))"

section \<open>Targets\<close>

definition for_model :: "(string \<Rightarrow> string option) \<Rightarrow> catalog \<Rightarrow> string \<Rightarrow> cost option" where
  "for_model spec cat model = Option.bind (lookup_id spec cat model) mi_cost"

definition target_info ::
  "(string \<Rightarrow> string option) \<Rightarrow> catalog \<Rightarrow> string \<Rightarrow> string \<Rightarrow> model_info option" where
  "target_info spec cat provider model =
     (let qualified = (case lookup_id spec cat (provider @ ''/'' @ model) of
            Some m \<Rightarrow> if mi_cost m \<noteq> None then Some m else None
          | None \<Rightarrow> None)
      in if starts_with provider ''vertex-'' \<or> provider = ''azure'' then qualified
         else (case qualified of Some m \<Rightarrow> Some m | None \<Rightarrow> lookup_id spec cat model))"

definition for_target :: "(string \<Rightarrow> string option) \<Rightarrow> catalog \<Rightarrow> string \<Rightarrow> string \<Rightarrow> cost option" where
  "for_target spec cat provider model = Option.bind (target_info spec cat provider model) mi_cost"

definition tier_input :: "json \<Rightarrow> nat" where
  "tier_input usage =
     (case get_u64 usage ''uncached_input_tokens'' of
        Some n \<Rightarrow> saturating_add_u64 (saturating_add_u64 n (count usage ''cache_read_tokens''))
                    (count usage ''cache_write_tokens'')
      | None \<Rightarrow> count usage ''prompt_tokens'')"

definition cost_usd :: "(string \<Rightarrow> string option) \<Rightarrow> catalog \<Rightarrow> string \<Rightarrow> string \<Rightarrow> json \<Rightarrow> f64 option" where
  "cost_usd spec cat provider model usage =
     Option.bind (target_info spec cat provider model) (\<lambda>info.
     Option.bind (cost_for_input_tokens info (tier_input usage)) (\<lambda>c. price usage c))"

definition is_priceable :: "(string \<Rightarrow> string option) \<Rightarrow> catalog \<Rightarrow> string \<Rightarrow> string \<Rightarrow> bool" where
  "is_priceable spec cat provider model \<longleftrightarrow> for_target spec cat provider model \<noteq> None"

section \<open>Bills and stamps\<close>

definition SOURCE_PROVIDER :: string where "SOURCE_PROVIDER = ''provider''"
definition SOURCE_PROVIDER_FLOOR :: string where "SOURCE_PROVIDER_FLOOR = ''provider_floor''"
definition SOURCE_CATALOG :: string where "SOURCE_CATALOG = ''catalog''"

definition valid_amount :: "json \<Rightarrow> string \<Rightarrow> f64 option" where
  "valid_amount usage key =
     (case Option.bind (get usage key) as_f64 of
        Some usd \<Rightarrow> if is_finite usd \<and> f64_le (Fin 0) usd then Some usd else None
      | None \<Rightarrow> None)"

definition reported :: "json \<Rightarrow> f64 option" where
  "reported usage = valid_amount usage ''cost''"

definition resolve_cost ::
  "(string \<Rightarrow> string option) \<Rightarrow> catalog \<Rightarrow> string \<Rightarrow> string \<Rightarrow> json \<Rightarrow> f64 option \<times> string" where
  "resolve_cost spec cat provider model usage =
     (case reported usage of
        Some usd \<Rightarrow> (Some usd, SOURCE_PROVIDER)
      | None \<Rightarrow> (cost_usd spec cat provider model usage, SOURCE_CATALOG))"

definition stamped :: "json \<Rightarrow> f64 option" where
  "stamped usage = Option.bind (get usage ''cost_usd'') as_f64"

definition stamped_source :: "json \<Rightarrow> string option" where
  "stamped_source usage = Option.bind (get usage ''cost_source'') as_str"

definition attribute ::
  "(string \<Rightarrow> string option) \<Rightarrow> catalog \<Rightarrow> string \<Rightarrow> string \<Rightarrow> json \<Rightarrow> f64 option \<times> string option" where
  "attribute spec cat provider model usage =
     (case stamped_source usage of
        Some source \<Rightarrow> (stamped usage, Some source)
      | None \<Rightarrow>
          let (usd, source) = resolve_cost spec cat provider model usage in (usd, Some source))"

text \<open>\<open>serde_json::json!\<close> of a float: a non-finite one becomes \<open>null\<close>.\<close>

definition json_of_f64 :: "f64 \<Rightarrow> json" where
  "json_of_f64 x = (if is_finite x then JNumber (Float x) else JNull)"

definition stamp_choice ::
  "(string \<Rightarrow> string option) \<Rightarrow> catalog \<Rightarrow> string \<Rightarrow> string \<Rightarrow> json \<Rightarrow> f64 option \<times> string" where
  "stamp_choice spec cat provider model usage =
     (let (c, source) = resolve_cost spec cat provider model usage;
          floor_usd = valid_amount usage ''provider_cost_floor_usd''
      in if source \<noteq> SOURCE_PROVIDER \<and>
            (case floor_usd of
               Some fl \<Rightarrow> (case c of None \<Rightarrow> True | Some resolved \<Rightarrow> f64_lt resolved fl)
             | None \<Rightarrow> False)
         then (floor_usd, SOURCE_PROVIDER_FLOOR)
         else (c, source))"

text \<open>\<open>None\<close> is the panic of an indexed assignment into a value that is not an object.\<close>

definition stamp ::
  "(string \<Rightarrow> string option) \<Rightarrow> catalog \<Rightarrow> string \<Rightarrow> string \<Rightarrow> json \<Rightarrow> json option" where
  "stamp spec cat provider model response =
     (let usage = index response ''usage'' in
      if \<not> is_object usage then Some response
      else
        let (c, source) = stamp_choice spec cat provider model usage in
        Option.bind (set_index usage ''cost_usd''
            (case c of Some usd \<Rightarrow> json_of_f64 usd | None \<Rightarrow> JNull)) (\<lambda>u1.
        Option.bind (set_index u1 ''cost_source'' (JString source)) (\<lambda>u2.
        set_index response ''usage'' u2)))"

datatype parse_error = Malformed | Complexity

definition stream_complexity_error :: json where
  "stream_complexity_error =
     JObject [(''message'', JString ''stream JSON exceeds complexity limit''), (''type'', JString ''error'')]"

definition stamp_chunk ::
  "(string \<Rightarrow> (parse_error, json) result) \<Rightarrow> (json \<Rightarrow> string) \<Rightarrow> (string \<Rightarrow> string option) \<Rightarrow> catalog
    \<Rightarrow> string \<Rightarrow> string \<Rightarrow> string \<Rightarrow> string option" where
  "stamp_chunk parse_sse to_str spec cat provider model chunk =
     (if \<not> str_contains chunk (CHR 0x22 # ''usage'' @ [CHR 0x22] @ '':{'') then Some chunk
      else
        (case parse_sse chunk of
           Inl Malformed \<Rightarrow> Some chunk
         | Inl Complexity \<Rightarrow> Some (to_str stream_complexity_error)
         | Inr v \<Rightarrow>
             if \<not> is_object (index v ''usage'') then Some chunk
             else map_option to_str (stamp spec cat provider model v)))"

section \<open>When a price is known, and what it bounds\<close>

definition published :: "cost \<Rightarrow> f64 list" where
  "published c = List.map_filter id [cost_input c, cost_output c, cost_cache_read c, cost_cache_write c]"

lemma highest_fold:
  "fold (\<lambda>rate best. Some (case best of None \<Rightarrow> rate | Some b \<Rightarrow> f64_max b rate)) rs (Some b) =
     Some (fold (\<lambda>r b. f64_max b r) rs b)"
  by (induction rs arbitrary: b) simp_all

lemma highest_None: "highest_published_rate c = None \<longleftrightarrow> published c = []"
  unfolding highest_published_rate_def published_def [symmetric]
  by (cases "published c") (simp_all add: highest_fold)

lemma published_Nil: "published c = [] \<longleftrightarrow> c = default_cost"
  by (cases c) (auto simp: published_def default_cost_def List.map_filter_simps split: option.splits)

lemma fold_f64_max:
  assumes "\<forall>r \<in> set (b # rs). f64_le (Fin 0) r"
  shows "fold (\<lambda>r b. f64_max b r) rs b \<in> set (b # rs) \<and> (\<forall>r \<in> set (b # rs). f64_le r (fold (\<lambda>r b. f64_max b r) rs b))"
  using assms
proof (induction rs arbitrary: b)
  case (Cons r rs)
  have nn: "b \<noteq> NaN" "r \<noteq> NaN" using Cons.prems by auto
  have "f64_max b r = b \<or> f64_max b r = r" by (simp add: f64_max_def)
  with Cons.prems Cons.IH [of "f64_max b r"] f64_max_ge [OF nn] show ?case
    by (auto intro: f64_le_trans)
qed auto

definition rates_ok :: "cost \<Rightarrow> bool" where
  "rates_ok c \<longleftrightarrow> (\<forall>r \<in> set (published c). is_finite r \<and> f64_le (Fin 0) r)"

lemma highest_published_rate_max:
  assumes "rates_ok c" and "c \<noteq> default_cost"
  shows "\<exists>h. highest_published_rate c = Some h \<and> h \<in> set (published c) \<and> (\<forall>r \<in> set (published c). f64_le r h)"
proof -
  obtain b rs where p: "published c = b # rs" using assms(2) published_Nil by (cases "published c") auto
  then have "highest_published_rate c = Some (fold (\<lambda>r b. f64_max b r) rs b)"
    unfolding highest_published_rate_def published_def [symmetric] by (simp add: highest_fold)
  with fold_f64_max [of b rs] assms(1) p show ?thesis by (simp add: rates_ok_def)
qed

lemma published_member:
  "cost_input c = Some r \<Longrightarrow> r \<in> set (published c)" "cost_output c = Some r \<Longrightarrow> r \<in> set (published c)"
  "cost_cache_read c = Some r \<Longrightarrow> r \<in> set (published c)" "cost_cache_write c = Some r \<Longrightarrow> r \<in> set (published c)"
  by (auto simp: published_def List.map_filter_simps split: option.splits)

lemma charge_mono:
  assumes "n \<le> u64_max" and "is_finite r" and "f64_le (Fin 0) r" and "is_finite r'" and "f64_le r r'"
  shows "\<exists>x y. charge n (Some r) = Some x \<and> charge n (Some r') = Some y \<and> f64_le (Fin 0) x \<and> f64_le x y"
proof -
  obtain q where q: "f64_of_nat n = Fin q" "0 \<le> q" using f64_of_nat_u64 [OF assms(1)] by blast
  obtain a a' where a: "r = Fin a" "r' = Fin a'" "0 \<le> a" "a \<le> a'"
    using assms by (cases r; cases r') auto
  have "f64_le (f64_mul (Fin q) (Fin 0)) (f64_mul (Fin q) (Fin a))"
    "f64_le (f64_mul (Fin q) (Fin a)) (f64_mul (Fin q) (Fin a'))"
    using q a by (intro f64_mul_mono; simp)+
  then have "f64_le (f64_div (f64_mul (Fin q) (Fin 0)) PER_MILLION) (f64_div (f64_mul (Fin q) (Fin a)) PER_MILLION)"
    "f64_le (f64_div (f64_mul (Fin q) (Fin a)) PER_MILLION) (f64_div (f64_mul (Fin q) (Fin a')) PER_MILLION)"
    unfolding PER_MILLION_def by (intro f64_div_mono; simp)+
  with q a show ?thesis by (auto simp: charge_def PER_MILLION_def)
qed

lemma count_bound: "wf_json usage \<Longrightarrow> count usage key \<le> u64_max"
  by (auto simp: count_def dest: get_u64_bound split: option.splits)

lemma priced_input_bound: "wf_json usage \<Longrightarrow> priced_input usage \<le> u64_max"
  by (auto simp: priced_input_def count_bound dest: get_u64_bound split: option.splits)

definition no_usage :: "json \<Rightarrow> bool" where
  "no_usage usage \<longleftrightarrow> priced_input usage = 0 \<and> count usage ''cache_read_tokens'' = 0 \<and>
     count usage ''cache_write_tokens'' = 0 \<and> count usage ''completion_tokens'' = 0"

text \<open>The rate a class is charged at.\<close>

definition effective :: "cost \<Rightarrow> (cost \<Rightarrow> f64 option) \<Rightarrow> f64 option" where
  "effective c sel = or_rate (sel c) (highest_published_rate c)"

lemma price_eq:
  "price usage c =
     (if no_usage usage then None
      else
        Option.bind (charge (priced_input usage) (effective c cost_input)) (\<lambda>a.
        Option.bind (charge (count usage ''completion_tokens'') (effective c cost_output)) (\<lambda>b.
        Option.bind (charge (count usage ''cache_read_tokens'') (effective c cost_cache_read)) (\<lambda>r.
        Option.bind (charge (count usage ''cache_write_tokens'') (effective c cost_cache_write)) (\<lambda>w.
        Some (f64_add (f64_add (f64_add a b) r) w))))))"
  by (simp add: price_def Let_def no_usage_def effective_def)

text \<open>A price is unknown exactly when the usage reports nothing or the model publishes no rate at all.
  In particular a positive count is never priced at zero for want of a rate.\<close>

lemma price_known_iff:
  "price usage c = None \<longleftrightarrow> no_usage usage \<or> c = default_cost"
proof (cases "c = default_cost")
  case True
  then have "highest_published_rate c = None" by (simp add: highest_None published_Nil)
  with True have "effective c sel = None" if "sel \<in> {cost_input, cost_output, cost_cache_read, cost_cache_write}" for sel
    using that by (auto simp: effective_def or_rate_def default_cost_def)
  with True show ?thesis by (auto simp: price_eq charge_def no_usage_def bind_eq_None_conv)
next
  case False
  then obtain h where "highest_published_rate c = Some h"
    using highest_None [of c] published_Nil [of c] by auto
  then have "effective c sel \<noteq> None" for sel by (simp add: effective_def or_rate_def split: option.split)
  then have "charge n (effective c sel) \<noteq> None" for n sel by (simp add: charge_def)
  with False show ?thesis by (auto simp: price_eq bind_eq_None_conv)
qed

lemma effective_ok:
  assumes "rates_ok c" and "c \<noteq> default_cost"
    and "sel \<in> {cost_input, cost_output, cost_cache_read, cost_cache_write}"
  shows "\<exists>r. effective c sel = Some r \<and> is_finite r \<and> f64_le (Fin 0) r"
proof -
  obtain h where h: "highest_published_rate c = Some h" "h \<in> set (published c)"
    using highest_published_rate_max [OF assms(1,2)] by blast
  have "r \<in> set (published c)" if "effective c sel = Some r" for r
    using that h assms(3)
    by (auto simp: effective_def or_rate_def split: option.splits intro: published_member)
  moreover have "effective c sel \<noteq> None"
    using h by (simp add: effective_def or_rate_def split: option.split)
  ultimately show ?thesis using assms(1) by (auto simp: rates_ok_def)
qed

lemma price_mono:
  assumes "wf_json usage" and "\<not> no_usage usage"
    and "\<forall>sel \<in> {cost_input, cost_output, cost_cache_read, cost_cache_write}. \<exists>r r'.
      effective d sel = Some r \<and> effective c sel = Some r' \<and> is_finite r \<and> f64_le (Fin 0) r \<and> is_finite r' \<and> f64_le r r'"
  shows "\<exists>p q. price usage d = Some p \<and> price usage c = Some q \<and> f64_le (Fin 0) p \<and> f64_le p q"
proof -
  have ch: "\<exists>x y. charge n (effective d sel) = Some x \<and> charge n (effective c sel) = Some y \<and>
      f64_le (Fin 0) x \<and> f64_le x y"
    if "n \<le> u64_max" "sel \<in> {cost_input, cost_output, cost_cache_read, cost_cache_write}" for n sel
    using that assms(3) charge_mono [OF that(1)] by metis
  have sels: "cost_input \<in> {cost_input, cost_output, cost_cache_read, cost_cache_write}"
    "cost_output \<in> {cost_input, cost_output, cost_cache_read, cost_cache_write}"
    "cost_cache_read \<in> {cost_input, cost_output, cost_cache_read, cost_cache_write}"
    "cost_cache_write \<in> {cost_input, cost_output, cost_cache_read, cost_cache_write}"
    by simp_all
  note ch [OF priced_input_bound [OF assms(1)] sels(1)]
    ch [OF count_bound [OF assms(1), of "''completion_tokens''"] sels(2)]
    ch [OF count_bound [OF assms(1), of "''cache_read_tokens''"] sels(3)]
    ch [OF count_bound [OF assms(1), of "''cache_write_tokens''"] sels(4)]
  then show ?thesis
    using assms(2) by (auto simp: price_eq intro!: f64_add_mono f64_add_neq_NaN)
qed

text \<open>C10. Substituting the highest published rate can only over-estimate: under IEEE rounding, the price at
  partially published rates is at least the price at any full rates that agree with the published
  ones and do not exceed the highest of them elsewhere.\<close>

theorem partial_price_overestimates:
  assumes "wf_json usage" and "\<not> no_usage usage" and "rates_ok c" and "c \<noteq> default_cost"
    and "highest_published_rate c = Some h"
    and "\<forall>sel \<in> {cost_input, cost_output, cost_cache_read, cost_cache_write}.
      \<exists>r. sel d = Some r \<and> is_finite r \<and> f64_le (Fin 0) r \<and> (case sel c of Some r' \<Rightarrow> r = r' | None \<Rightarrow> f64_le r h)"
  shows "\<exists>actual estimate. price usage d = Some actual \<and> price usage c = Some estimate \<and> f64_le actual estimate"
proof -
  have "\<exists>r r'. effective d sel = Some r \<and> effective c sel = Some r' \<and> is_finite r \<and> f64_le (Fin 0) r \<and>
      is_finite r' \<and> f64_le r r'"
    if sel: "sel \<in> {cost_input, cost_output, cost_cache_read, cost_cache_write}" for sel
  proof -
    obtain r where r: "sel d = Some r" "is_finite r" "f64_le (Fin 0) r"
      "case sel c of Some r' \<Rightarrow> r = r' | None \<Rightarrow> f64_le r h"
      using assms(6) sel by blast
    obtain r' where r': "effective c sel = Some r'" "is_finite r'" "f64_le (Fin 0) r'"
      using effective_ok [OF assms(3,4) sel] by blast
    have "f64_le r r'"
      using r r' assms(5) by (cases "sel c") (auto simp: effective_def or_rate_def)
    with r r' show ?thesis by (simp add: effective_def or_rate_def)
  qed
  with price_mono [OF assms(1,2), of d c] show ?thesis by blast
qed

section \<open>Catalogs that can be built\<close>

inductive built :: "catalog \<Rightarrow> bool" where
  built_empty: "built empty_catalog"
| built_model: "built c \<Longrightarrow> built (merge_model m c)"
| built_alias: "built c \<Longrightarrow> built (add_alias a t c)"

definition row_ok :: "model_info \<Rightarrow> bool" where
  "row_ok m \<longleftrightarrow>
     (\<forall>sel \<in> {cost_input, cost_output, cost_cache_read, cost_cache_write}.
        price_at sel m = None \<or> valid_rate (price_at sel m))"

lemma row_ok_iff: "row_ok m \<longleftrightarrow> (case mi_cost m of None \<Rightarrow> True | Some c \<Rightarrow> rates_ok c)"
  by (cases "mi_cost m")
    (auto simp: row_ok_def rates_ok_def published_def List.map_filter_simps valid_rate_def split: option.splits)

lemma row_ok_merge: "row_ok t \<Longrightarrow> row_ok (merge t i)"
  by (auto simp: row_ok_def m_cost_input.merge_val m_cost_output.merge_val m_cost_cache_read.merge_val
      m_cost_cache_write.merge_val wins_def asserts_price_def simp del: price_at.simps)

lemma built_rows: "built c \<Longrightarrow> map_of (cat_models c) k = Some m \<Longrightarrow> row_ok m"
proof (induction arbitrary: k m rule: built.induct)
  case (built_model c i)
  then show ?case
    by (cases "map_of (cat_models c) (mi_id i)")
      (auto simp: merge_model_def index_model_def Let_def row_ok_iff new_model_def
        intro!: row_ok_merge [unfolded row_ok_iff] split: if_splits)
qed (simp_all add: empty_catalog_def add_alias_def)

lemma resolve_row: "resolve spec c mid = Some m \<Longrightarrow> \<exists>k. map_of (cat_models c) k = Some m"
  by (auto simp: resolve_def bind_eq_Some_conv split: option.splits if_splits)

lemma lookup_id_row: "lookup_id spec c mid = Some m \<Longrightarrow> \<exists>k. map_of (cat_models c) k = Some m"
  by (auto simp: lookup_id_def Let_def dest: resolve_row split: option.splits if_splits)

lemma target_info_row: "target_info spec c p n = Some m \<Longrightarrow> \<exists>k. map_of (cat_models c) k = Some m"
  by (auto simp: target_info_def Let_def dest: lookup_id_row split: option.splits if_splits)

lemma tier_rate_ok:
  "(slot = None \<or> valid_rate slot) \<Longrightarrow> tier_rate m key rate slot = None \<or> valid_rate (tier_rate m key rate slot)"
  by (simp add: tier_rate_def)

lemma rates_ok_iff:
  "rates_ok c \<longleftrightarrow> (\<forall>sel \<in> {cost_input, cost_output, cost_cache_read, cost_cache_write}. sel c = None \<or> valid_rate (sel c))"
  by (auto simp: rates_ok_def published_def List.map_filter_simps valid_rate_def split: option.splits)

lemma tiers_ok: "rates_ok c \<Longrightarrow> rates_ok (fold (apply_tier m) ts c)"
proof (induction ts arbitrary: c)
  case (Cons t ts)
  have "rates_ok (apply_tier m t c)"
    using Cons.prems tier_rate_ok by (simp add: rates_ok_iff apply_tier_def)
  with Cons show ?case by simp
qed simp

lemma cost_usd_nonneg:
  assumes "built cat" and "wf_json usage" and "cost_usd spec cat provider model usage = Some usd"
  shows "f64_le (Fin 0) usd"
proof -
  obtain info c where info: "target_info spec cat provider model = Some info"
    and c: "cost_for_input_tokens info (tier_input usage) = Some c" and p: "price usage c = Some usd"
    using assms(3) by (auto simp: cost_usd_def bind_eq_Some_conv)
  have "row_ok info" using target_info_row [OF info] built_rows [OF assms(1)] by blast
  with c have ok: "rates_ok c"
    by (auto simp: row_ok_iff cost_for_input_tokens_def Let_def tiers_ok split: option.splits)
  have known: "\<not> no_usage usage" "c \<noteq> default_cost"
    using p by (auto simp: price_eq charge_def effective_def or_rate_def highest_None [THEN iffD2] published_Nil
        bind_eq_Some_conv no_usage_def default_cost_def split: if_splits)
  have "\<exists>r r'. effective c sel = Some r \<and> effective c sel = Some r' \<and> is_finite r \<and> f64_le (Fin 0) r \<and>
      is_finite r' \<and> f64_le r r'"
    if "sel \<in> {cost_input, cost_output, cost_cache_read, cost_cache_write}" for sel
    using effective_ok [OF ok known(2) that] by (metis f64_le_NaN(1) f64_le_refl)
  with price_mono [OF assms(2) known(1), of c c] p show ?thesis by auto
qed

section \<open>The stamp\<close>

text \<open>The cost stamped on a response is the provider's bill when it reports a valid one. Otherwise a
  valid partial bill is a floor: some cost is stamped and it is at least that floor, whatever the
  catalog says, for every catalog built by merging rows and adding aliases.\<close>

lemma stamped_cost_floor:
  assumes "built cat" and "wf_json usage"
    and "valid_amount usage ''provider_cost_floor_usd'' = Some floor_usd"
  shows "\<exists>usd source. stamp_choice spec cat provider model usage = (Some usd, source) \<and>
    (case reported usage of
       Some bill \<Rightarrow> usd = bill \<and> source = SOURCE_PROVIDER
     | None \<Rightarrow> f64_le floor_usd usd \<and>
         (source = SOURCE_CATALOG \<and> cost_usd spec cat provider model usage = Some usd \<or>
          source = SOURCE_PROVIDER_FLOOR \<and> usd = floor_usd))"
proof (cases "reported usage")
  case (Some bill)
  then show ?thesis by (simp add: stamp_choice_def resolve_cost_def)
next
  case None
  have fl: "floor_usd \<noteq> NaN" using assms(3) by (auto simp: valid_amount_def split: option.splits if_splits)
  show ?thesis
  proof (cases "cost_usd spec cat provider model usage")
    case c: None
    with None assms(3) fl show ?thesis
      by (simp add: stamp_choice_def resolve_cost_def SOURCE_CATALOG_def SOURCE_PROVIDER_def)
  next
    case (Some usd)
    then have "usd \<noteq> NaN" using cost_usd_nonneg [OF assms(1,2)] by force
    then have "f64_lt usd floor_usd \<or> f64_le floor_usd usd" using fl f64_not_le by blast
    with Some None assms(3) fl show ?thesis
      by (auto simp: stamp_choice_def resolve_cost_def SOURCE_CATALOG_def SOURCE_PROVIDER_def)
  qed
qed

text \<open>C11. Stamping never panics. It changes only the two accounting members of a usage object, and any later
  attribution of that usage, for whatever target and catalog, reports the stamped cost and source.
  A response without a usage object is left as it is.\<close>

theorem stamp_then_attribute:
  "\<exists>stamped_response. stamp spec cat provider model response = Some stamped_response \<and>
    (if is_object (index response ''usage'')
     then
       (\<forall>k. get stamped_response k = (if k = ''usage'' then Some (index stamped_response ''usage'') else get response k)) \<and>
       (\<forall>k. get (index stamped_response ''usage'') k =
          (if k = ''cost_usd'' then Some (case fst (stamp_choice spec cat provider model (index response ''usage'')) of
                Some usd \<Rightarrow> json_of_f64 usd | None \<Rightarrow> JNull)
           else if k = ''cost_source'' then Some (JString (snd (stamp_choice spec cat provider model (index response ''usage''))))
           else get (index response ''usage'') k)) \<and>
       attribute spec' cat' provider' model' (index stamped_response ''usage'') =
         (case fst (stamp_choice spec cat provider model (index response ''usage'')) of
            Some usd \<Rightarrow> if is_finite usd then Some usd else None | None \<Rightarrow> None,
          Some (snd (stamp_choice spec cat provider model (index response ''usage''))))
     else stamped_response = response)"
proof (cases "is_object (index response ''usage'')")
  case False
  then show ?thesis by (simp add: stamp_def)
next
  case True
  obtain c source where choice: "stamp_choice spec cat provider model (index response ''usage'') = (c, source)"
    by fastforce
  obtain kvs where u: "index response ''usage'' = JObject kvs"
    using True by (cases "index response ''usage''") (simp_all add: is_object_def)
  then obtain rs where r: "response = JObject rs"
    by (cases response) (simp_all add: index_def get_def)
  define v where "v = (case c of Some usd \<Rightarrow> json_of_f64 usd | None \<Rightarrow> JNull)"
  define u2 where "u2 = JObject (object_insert ''cost_source'' (JString source) (object_insert ''cost_usd'' v kvs))"
  have st: "stamp spec cat provider model response = Some (JObject (object_insert ''usage'' u2 rs))"
    using True choice unfolding stamp_def u by (simp add: r u2_def v_def)
  have idx: "index (JObject (object_insert ''usage'' u2 rs)) ''usage'' = u2" by (simp add: index_def get_def)
  have "get u2 k = (if k = ''cost_usd'' then Some v else if k = ''cost_source'' then Some (JString source)
      else get (JObject kvs) k)" for k
    by (simp add: u2_def get_def)
  moreover have "attribute spec' cat' provider' model' u2 =
      (case c of Some usd \<Rightarrow> if is_finite usd then Some usd else None | None \<Rightarrow> None, Some source)"
    by (simp add: attribute_def stamped_source_def stamped_def u2_def get_def v_def json_of_f64_def split: option.split)
  moreover have "get (JObject (object_insert ''usage'' u2 rs)) k =
      (if k = ''usage'' then Some u2 else get response k)" for k
    by (simp add: get_def r)
  ultimately show ?thesis using True choice st idx by (simp add: u v_def)
qed

section \<open>Instances\<close>

definition demo_usage :: json where
  "demo_usage = JObject [(''cache_read_tokens'', JNumber (PosInt 2000000)),
     (''provider_cost_floor_usd'', JNumber (PosInt 7))]"

lemma demo_counts:
  "wf_json demo_usage" "\<not> no_usage demo_usage" "reported demo_usage = None"
  by (simp_all add: demo_usage_def no_usage_def priced_input_def count_def get_u64_def get_def reported_def
      valid_amount_def u64_max_def)

theorem partial_price_overestimates_witness:
  "\<exists>actual estimate.
     price demo_usage \<lparr>cost_input = Some (Fin 3), cost_output = Some (Fin 4), cost_cache_read = Some (Fin 1),
       cost_cache_write = Some (Fin 2)\<rparr> = Some actual \<and>
     price demo_usage \<lparr>cost_input = Some (Fin 3), cost_output = Some (Fin 4), cost_cache_read = None,
       cost_cache_write = None\<rparr> = Some estimate \<and> f64_le actual estimate"
  by (rule partial_price_overestimates [where h = "Fin 4"])
    (simp_all add: demo_counts rates_ok_def published_def List.map_filter_simps default_cost_def
      highest_published_rate_def f64_max_def)

end
