(* ===== verification/Policy.thy ===== *)
theory Policy
  imports Errors Json
begin

text \<open>
  The per-attempt policy hooks (\<open>src/policy.rs\<close>). The policy itself is the embedder's: its callbacks
  are the fields of a record over a policy state, and its answers are unconstrained. Identifiers of
  attempts, clock readings and the URL library behind \<open>sanitized_endpoint\<close> are arguments.
\<close>

section \<open>Data\<close>

datatype wire_format = AnthropicMessages | OpenAiResponses | OpenAiChat | GoogleGenerateContent

datatype attempt_kind = CompletionAttempt | StreamAttempt

datatype attempt_accounting = UsageObserved | NoUsageReported | UnknownUsage

datatype attempt_outcome =
    Completed attempt_accounting
  | HttpFailure nat attempt_accounting
  | TransportFailure attempt_accounting
  | InvalidResponse attempt_accounting
  | StreamFailure attempt_accounting
  | Abandoned attempt_kind attempt_accounting

datatype attempt_event = ResponseHeaders nat | Usage json | Finished attempt_outcome

record attempt_usage_observation =
  obs_usage :: json
  obs_terminal :: bool
  obs_counters_complete :: bool
  obs_explicit_zero :: bool

record replay_target =
  target_provider :: string
  target_model :: string
  target_pricing_model :: string
  target_wire :: wire_format
  target_account :: "string option"

record attempt_identity =
  ai_id :: nat
  ai_kind :: attempt_kind
  ai_provider_name :: string
  ai_resolved_model :: string
  ai_native_model :: string
  ai_pricing_model :: string
  ai_wire :: wire_format
  ai_account_fingerprint :: "string option"
  ai_endpoint :: string

record prepared_attempt =
  pa_identity :: attempt_identity
  pa_method :: string
  pa_native_body :: json

datatype refusal_kind =
  ProviderLimit | TenantLimit | BudgetLimit | UnpriceableTarget | CoordinatorUnavailable | OtherRefusal

record attempt_policy_refusal =
  refusal_kind_of :: refusal_kind
  refusal_retry_after :: "duration option"

datatype policy_error_kind = CoordinatorError | OtherError

definition refusal_status :: "refusal_kind \<Rightarrow> nat \<times> string" where
  "refusal_status k =
     (case k of
        ProviderLimit \<Rightarrow> (429, ''provider attempt limit exceeded'')
      | TenantLimit \<Rightarrow> (429, ''tenant attempt limit exceeded'')
      | BudgetLimit \<Rightarrow> (429, ''attempt budget exhausted'')
      | UnpriceableTarget \<Rightarrow> (400, ''attempt cannot be admitted under the active policy'')
      | CoordinatorUnavailable \<Rightarrow> (503, ''attempt policy coordinator unavailable'')
      | OtherRefusal \<Rightarrow> (429, ''attempt refused by policy''))"

definition refusal_error :: "attempt_policy_refusal \<Rightarrow> shim_error" where
  "refusal_error r =
     (case refusal_status (refusal_kind_of r) of (status, body) \<Rightarrow> ProviderError status body (refusal_retry_after r))"

definition policy_error :: "policy_error_kind \<Rightarrow> shim_error" where
  "policy_error k =
     ProviderError 503
       (case k of CoordinatorError \<Rightarrow> ''attempt policy coordinator unavailable''
        | OtherError \<Rightarrow> ''attempt policy observation failed'') None"

section \<open>Admission of one attempt\<close>

record 'p attempt_policy =
  policy_acquire :: "prepared_attempt \<Rightarrow> 'p \<Rightarrow> (attempt_policy_refusal, unit) result \<times> 'p"
  policy_abandoned :: "attempt_identity \<Rightarrow> attempt_outcome \<Rightarrow> 'p \<Rightarrow> (policy_error_kind, unit) result \<times> 'p"

record dispatch_state =
  last_refusal :: "attempt_policy_refusal option"
  logical_deadline :: "instant option"

record tracker_state =
  usage_observed :: bool
  finished :: bool

datatype acquire_error = Refusal attempt_policy_refusal | LogicalDeadline

definition ensure_logical_active :: "dispatch_state \<Rightarrow> instant \<Rightarrow> bool" where
  "ensure_logical_active st now = (case logical_deadline st of None \<Rightarrow> True | Some d \<Rightarrow> now < d)"

definition take_last_refusal :: "dispatch_state \<Rightarrow> attempt_policy_refusal option \<times> dispatch_state" where
  "take_last_refusal st = (last_refusal st, st\<lparr>last_refusal := None\<rparr>)"

definition accounting :: "tracker_state \<Rightarrow> bool \<Rightarrow> attempt_accounting" where
  "accounting st completed =
     (if usage_observed st then UsageObserved else if completed then NoUsageReported else UnknownUsage)"

text \<open>What dropping a handle does to the shared state, and the outcome it reports, if any.\<close>

definition abandon_attempt :: "attempt_kind \<Rightarrow> tracker_state \<Rightarrow> attempt_outcome option \<times> tracker_state" where
  "abandon_attempt kind st =
     (if finished st then (None, st)
      else (Some (Abandoned kind (if usage_observed st then UsageObserved else UnknownUsage)), st\<lparr>finished := True\<rparr>))"

definition new_identity ::
  "(string \<Rightarrow> string) \<Rightarrow> nat \<Rightarrow> attempt_kind \<Rightarrow> string \<Rightarrow> replay_target \<Rightarrow> string \<Rightarrow> attempt_identity" where
  "new_identity sanitized_endpoint uuid kind resolved_model tgt endpoint =
     \<lparr>ai_id = uuid, ai_kind = kind, ai_provider_name = target_provider tgt, ai_resolved_model = resolved_model,
      ai_native_model = target_model tgt, ai_pricing_model = target_pricing_model tgt, ai_wire = target_wire tgt,
      ai_account_fingerprint = target_account tgt, ai_endpoint = sanitized_endpoint endpoint\<rparr>"

text \<open>\<open>DispatchPolicyContext::acquire\<close>: the clock is read on entry and once more when the callback
  has answered. A late admission drops the tracker, which reports the abandonment.\<close>

definition dispatch_acquire ::
  "'p attempt_policy \<Rightarrow> attempt_identity \<Rightarrow> json \<Rightarrow> instant \<Rightarrow> instant \<Rightarrow> dispatch_state \<times> 'p
    \<Rightarrow> (acquire_error, tracker_state) result \<times> dispatch_state \<times> 'p" where
  "dispatch_acquire P identity native_body entered answered w =
     (case w of (st, p) \<Rightarrow>
        if \<not> ensure_logical_active st entered then (Inl LogicalDeadline, st, p)
        else
          let attempt = \<lparr>pa_identity = identity, pa_method = ''POST'', pa_native_body = native_body\<rparr>;
              st = st\<lparr>last_refusal := None\<rparr>
          in (case policy_acquire P attempt p of
                (Inl refusal, p') \<Rightarrow>
                  if \<not> ensure_logical_active st answered then (Inl LogicalDeadline, st, p')
                  else (Inl (Refusal refusal), st\<lparr>last_refusal := Some refusal\<rparr>, p')
              | (Inr _, p') \<Rightarrow>
                  let tracker = \<lparr>usage_observed = False, finished = False\<rparr> in
                  if \<not> ensure_logical_active st answered
                  then (Inl LogicalDeadline, st,
                    case abandon_attempt (ai_kind identity) tracker of
                      (Some outcome, _) \<Rightarrow> snd (policy_abandoned P identity outcome p')
                    | (None, _) \<Rightarrow> p')
                  else (Inr tracker, st, p')))"

lemma dispatch_acquire_unmetered:
  "logical_deadline st = None \<Longrightarrow>
   dispatch_acquire P i body t0 t1 (st, p) =
     (case policy_acquire P \<lparr>pa_identity = i, pa_method = ''POST'', pa_native_body = body\<rparr> p of
        (Inl r, p') \<Rightarrow> (Inl (Refusal r), st\<lparr>last_refusal := Some r\<rparr>, p')
      | (Inr _, p') \<Rightarrow> (Inr \<lparr>usage_observed = False, finished = False\<rparr>, st\<lparr>last_refusal := None\<rparr>, p'))"
  by (simp add: dispatch_acquire_def ensure_logical_active_def Let_def split: prod.split sum.split)

section \<open>The life of an attempt\<close>

text \<open>
  The tracker belongs to one task and the cancellation guards to others; all share the tracker
  state. A callback is awaited between reading the state and updating it, so a guard may be dropped
  while one is in flight. \<open>Busy\<close> is the tracker's task awaiting a callback. The notification list
  holds, latest first, the callbacks the policy has acknowledged and the abandonments it was sent.
\<close>

datatype tracker_call = Idle | In_usage | In_finish attempt_outcome

datatype notification = Usage_ack | Finish_ack attempt_outcome | Abandon_sent attempt_outcome

record life =
  shared :: tracker_state
  call :: tracker_call
  tracker_alive :: bool
  guards :: nat
  notified :: "notification list"

definition started :: life where
  "started = \<lparr>shared = \<lparr>usage_observed = False, finished = False\<rparr>, call = Idle, tracker_alive = True, guards = 0,
     notified = []\<rparr>"

definition drop_handle :: "attempt_kind \<Rightarrow> life \<Rightarrow> life" where
  "drop_handle kind l =
     (case abandon_attempt kind (shared l) of
        (None, _) \<Rightarrow> l
      | (Some outcome, st) \<Rightarrow> l\<lparr>shared := st, notified := Abandon_sent outcome # notified l\<rparr>)"

inductive life_step :: "attempt_kind \<Rightarrow> life \<Rightarrow> life \<Rightarrow> bool" for kind :: attempt_kind where
  new_guard: "tracker_alive l \<Longrightarrow> call l = Idle \<Longrightarrow> life_step kind l (l\<lparr>guards := Suc (guards l)\<rparr>)"
| usage_begin: "tracker_alive l \<Longrightarrow> call l = Idle \<Longrightarrow> life_step kind l (l\<lparr>call := In_usage\<rparr>)"
| usage_ok: "call l = In_usage \<Longrightarrow>
    life_step kind l (l\<lparr>call := Idle, shared := (shared l)\<lparr>usage_observed := True\<rparr>, notified := Usage_ack # notified l\<rparr>)"
| usage_err: "call l = In_usage \<Longrightarrow> life_step kind l (l\<lparr>call := Idle\<rparr>)"
| finish_begin: "tracker_alive l \<Longrightarrow> call l = Idle \<Longrightarrow> \<not> finished (shared l) \<Longrightarrow>
    life_step kind l (l\<lparr>call := In_finish outcome\<rparr>)"
| finish_ok: "call l = In_finish outcome \<Longrightarrow>
    life_step kind l (l\<lparr>call := Idle, shared := (shared l)\<lparr>finished := True\<rparr>, notified := Finish_ack outcome # notified l\<rparr>)"
| finish_err: "call l = In_finish outcome \<Longrightarrow> life_step kind l (l\<lparr>call := Idle\<rparr>)"
| tracker_drop: "tracker_alive l \<Longrightarrow> life_step kind l (drop_handle kind (l\<lparr>tracker_alive := False, call := Idle\<rparr>))"
| guard_drop: "0 < guards l \<Longrightarrow> life_step kind l (drop_handle kind (l\<lparr>guards := guards l - 1\<rparr>))"

inductive_cases life_stepE: "life_step kind l l'"

inductive lives :: "attempt_kind \<Rightarrow> life \<Rightarrow> bool" for kind :: attempt_kind where
  start: "lives kind started"
| step: "lives kind l \<Longrightarrow> life_step kind l l' \<Longrightarrow> lives kind l'"

fun is_finish_ack :: "notification \<Rightarrow> bool" where
  "is_finish_ack (Finish_ack _) \<longleftrightarrow> True"
| "is_finish_ack _ \<longleftrightarrow> False"

fun is_abandon :: "notification \<Rightarrow> bool" where
  "is_abandon (Abandon_sent _) \<longleftrightarrow> True"
| "is_abandon _ \<longleftrightarrow> False"

definition closes :: "notification \<Rightarrow> bool" where
  "closes n \<longleftrightarrow> is_finish_ack n \<or> is_abandon n"

text \<open>Every abandonment in the list (latest first) names the kind, is marked by whether usage was
  acknowledged before it, and has no closing notification before it.\<close>

fun abandons_ok :: "attempt_kind \<Rightarrow> notification list \<Rightarrow> bool" where
  "abandons_ok kind [] \<longleftrightarrow> True"
| "abandons_ok kind (n # ns) \<longleftrightarrow> abandons_ok kind ns \<and>
     (\<forall>outcome. n = Abandon_sent outcome \<longrightarrow>
        outcome = Abandoned kind (if Usage_ack \<in> set ns then UsageObserved else UnknownUsage) \<and> \<not> list_ex closes ns)"

definition life_ok :: "attempt_kind \<Rightarrow> life \<Rightarrow> bool" where
  "life_ok kind l \<longleftrightarrow>
     (usage_observed (shared l) \<longleftrightarrow> Usage_ack \<in> set (notified l)) \<and>
     (finished (shared l) \<longleftrightarrow> list_ex closes (notified l)) \<and>
     length (filter is_finish_ack (notified l)) \<le> 1 \<and>
     (\<forall>outcome. call l = In_finish outcome \<longrightarrow> filter is_finish_ack (notified l) = []) \<and>
     (\<not> tracker_alive l \<longrightarrow> finished (shared l) \<and> call l = Idle) \<and>
     abandons_ok kind (notified l)"

lemma not_closes: "\<not> list_ex closes ns \<Longrightarrow> filter is_finish_ack ns = [] \<and> filter is_abandon ns = []"
  by (induction ns) (auto simp: closes_def)

lemma drop_handle_ok:
  assumes "life_ok kind (l\<lparr>tracker_alive := True\<rparr>)" and "\<not> tracker_alive l \<Longrightarrow> call l = Idle"
  shows "life_ok kind (drop_handle kind l)"
  using assms not_closes [of "notified l"]
  by (auto simp: drop_handle_def abandon_attempt_def life_ok_def closes_def split: if_splits)

lemma life_step_ok: "life_step kind l l' \<Longrightarrow> life_ok kind l \<Longrightarrow> life_ok kind l'"
proof (induction rule: life_step.induct)
  case (tracker_drop l)
  then show ?case by (intro drop_handle_ok) (auto simp: life_ok_def)
next
  case (guard_drop l)
  then show ?case by (intro drop_handle_ok) (auto simp: life_ok_def)
next
  case (finish_begin l outcome)
  then show ?case using not_closes [of "notified l"] by (auto simp: life_ok_def)
qed (auto simp: life_ok_def closes_def)

lemma lives_ok: "lives kind l \<Longrightarrow> life_ok kind l"
proof (induction rule: lives.induct)
  case start
  show ?case by (simp add: life_ok_def started_def)
qed (rule life_step_ok)

lemma one_abandon: "abandons_ok kind ns \<Longrightarrow> length (filter is_abandon ns) \<le> 1"
proof (induction ns)
  case (Cons n ns)
  then show ?case using not_closes [of ns] by (cases n) auto
qed simp


definition demo_life :: life where
  "demo_life = \<lparr>shared = \<lparr>usage_observed = True, finished = True\<rparr>, call = Idle, tracker_alive = False, guards = 0,
     notified = [Finish_ack (Completed UsageObserved), Abandon_sent (Abandoned StreamAttempt UsageObserved), Usage_ack]\<rparr>"

text \<open>A reader that drops its stream while the finish is being observed: both are reported.\<close>

lemma demo_lives: "lives StreamAttempt demo_life"
proof -
  note go = lives.step
  have "lives StreamAttempt (started\<lparr>guards := Suc 0\<rparr>)"
    using go [OF lives.start life_step.new_guard [of started]] by (simp add: started_def)
  from go [OF this life_step.usage_begin]
  have "lives StreamAttempt (started\<lparr>guards := Suc 0, call := In_usage\<rparr>)" by (simp add: started_def)
  from go [OF this life_step.usage_ok]
  have "lives StreamAttempt (started\<lparr>guards := Suc 0, shared := \<lparr>usage_observed = True, finished = False\<rparr>, notified := [Usage_ack]\<rparr>)"
    by (simp add: started_def)
  from go [OF this life_step.finish_begin [of _ _ "Completed UsageObserved"]]
  have "lives StreamAttempt (started\<lparr>guards := Suc 0, shared := \<lparr>usage_observed = True, finished = False\<rparr>,
      notified := [Usage_ack], call := In_finish (Completed UsageObserved)\<rparr>)"
    by (simp add: started_def)
  from go [OF this life_step.guard_drop]
  have "lives StreamAttempt (started\<lparr>shared := \<lparr>usage_observed = True, finished = True\<rparr>,
      notified := [Abandon_sent (Abandoned StreamAttempt UsageObserved), Usage_ack], call := In_finish (Completed UsageObserved)\<rparr>)"
    by (simp add: started_def drop_handle_def abandon_attempt_def)
  from go [OF this life_step.finish_ok]
  have "lives StreamAttempt (started\<lparr>shared := \<lparr>usage_observed = True, finished = True\<rparr>,
      notified := [Finish_ack (Completed UsageObserved), Abandon_sent (Abandoned StreamAttempt UsageObserved), Usage_ack]\<rparr>)"
    by (simp add: started_def)
  from go [OF this life_step.tracker_drop] show ?thesis
    by (simp add: started_def demo_life_def drop_handle_def abandon_attempt_def)
qed


end
