(* ===== verification/Buckets.thy ===== *)
theory Buckets
  imports F64
begin

text \<open>
  What the proxy's \<open>TokenBucket\<close> and the gateway's \<open>Bucket\<close> have in common: IEEE arithmetic on a
  token balance with the same epsilon. The locale states what a bucket's operations do to the
  balance; its lemmas bound the balance and the waits. Both buckets interpret it.
\<close>

definition EPSILON :: f64 where "EPSILON = round_f64 (1 / 1000000000)"

text \<open>The lowest balance rounding and the epsilon can leave behind.\<close>

definition overdraft :: rat where "overdraft = 1 / 2 ^ 19"

definition in_bounds :: "f64 \<Rightarrow> f64 \<Rightarrow> bool" where
  "in_bounds tokens capacity \<longleftrightarrow> f64_le (Fin (- overdraft)) tokens \<and> f64_le tokens capacity"

lemma powi_neg: "2 powi (- int n) = (1 / 2 ^ n :: rat)"
  by (simp add: power_int_minus field_simps)

lemma round_dyadic:
  assumes "\<bar>m\<bar> \<le> 2 ^ 53" and "n \<le> 1074"
  shows "round_f64 (of_int m / 2 ^ n) = Fin (of_int m / 2 ^ n)"
proof (rule round_f64_exact)
  have "of_int m * 2 powi (- int n) = (of_int m / 2 ^ n :: rat)" by (simp add: powi_neg)
  then show "round_rat (of_int m / 2 ^ n) = of_int m / 2 ^ n"
    using round_rat_dyadic [of m "- int n"] assms by simp
  have "\<bar>of_int m :: rat\<bar> \<le> 2 ^ 53"
    using assms(1) by (metis (no_types, lifting) of_int_abs of_int_le_iff of_int_numeral of_int_power)
  moreover have "\<bar>of_int m / 2 ^ n :: rat\<bar> \<le> \<bar>of_int m\<bar>" by (simp add: abs_divide field_simps mult_le_cancel_left1)
  ultimately show "\<bar>of_int m / 2 ^ n :: rat\<bar> < 2 ^ 1024" using pow_53_less by linarith
qed

lemma round_nat: "n \<le> 2 ^ 53 \<Longrightarrow> round_f64 (of_nat n) = Fin (of_nat n)"
  using f64_of_nat_exact by (simp add: f64_of_nat_def)

lemma overdraft_exact: "round_f64 (- overdraft) = Fin (- overdraft)"
  using round_dyadic [of "- 1" 19] by (simp add: overdraft_def)

lemma EPSILON_small: "\<exists>e. EPSILON = Fin e \<and> 0 \<le> e \<and> e \<le> 1 / 2 ^ 20"
proof -
  have top: "round_f64 (1 / 2 ^ 20) = Fin (1 / 2 ^ 20)" using round_dyadic [of 1 20] by simp
  have "f64_le (Fin 0) EPSILON" unfolding EPSILON_def by (rule round_f64_nonneg) simp
  moreover have "f64_le EPSILON (Fin (1 / 2 ^ 20))"
    unfolding EPSILON_def top [symmetric] by (rule round_f64_mono) simp
  ultimately show ?thesis by (metis f64.exhaust f64_le.simps(1,2,3) f64_le_NaN(1))
qed

text \<open>A balance that passes the test is short of the demand by less than the overdraft.\<close>

lemma admitted_balance:
  assumes "p \<le> 2 ^ 32" and "f64_le (Fin (of_nat p)) (f64_add (Fin a) EPSILON)"
  shows "of_nat p - overdraft \<le> a"
proof (rule ccontr)
  assume short: "\<not> ?thesis"
  obtain e where e: "EPSILON = Fin e" "e \<le> 1 / 2 ^ 20" using EPSILON_small by blast
  define m where "m = int p * 2 ^ 20 - 1"
  have "\<bar>m\<bar> \<le> 2 ^ 53" using assms(1) by (simp add: m_def)
  moreover have m: "of_int m / 2 ^ 20 = (of_nat p - 1 / 2 ^ 20 :: rat)"
    by (simp add: m_def field_simps)
  ultimately have exact: "round_f64 (of_nat p - 1 / 2 ^ 20) = Fin (of_nat p - 1 / 2 ^ 20)"
    using round_dyadic [of m 20] by (simp only: m)
  have "a + e \<le> of_nat p - 1 / 2 ^ 20" using short e(2) by (simp add: overdraft_def)
  then have "f64_le (round_f64 (a + e)) (Fin (of_nat p - 1 / 2 ^ 20))"
    using round_f64_mono exact by metis
  with assms(2) e(1) have "f64_le (Fin (of_nat p)) (Fin (of_nat p - 1 / 2 ^ 20))"
    by (metis f64_add.simps(1) f64_le_trans)
  then show False by simp
qed

lemma in_bounds_Fin: "in_bounds t (Fin c) \<Longrightarrow> \<exists>a. t = Fin a \<and> - overdraft \<le> a \<and> a \<le> c"
  by (cases t) (auto simp: in_bounds_def)

lemma in_bounds_take:
  assumes "in_bounds t (Fin (of_nat c))" and "c \<le> 2 ^ 32" and "p \<le> 2 ^ 32"
    and "f64_le (Fin (of_nat p)) (f64_add t EPSILON)"
  shows "in_bounds (f64_sub t (Fin (of_nat p))) (Fin (of_nat c))"
proof -
  obtain a where a: "t = Fin a" "- overdraft \<le> a" "a \<le> of_nat c" using in_bounds_Fin [OF assms(1)] by blast
  have "of_nat p - overdraft \<le> a" using admitted_balance [OF assms(3)] assms(4) a(1) by blast
  then have "- overdraft \<le> a - of_nat p" by simp
  then have "f64_le (round_f64 (- overdraft)) (round_f64 (a - of_nat p))" by (rule round_f64_mono)
  moreover have "f64_le (round_f64 (a - of_nat p)) (round_f64 (of_nat c))"
    using a(3) by (intro round_f64_mono) simp
  moreover have "round_f64 (of_nat c) = Fin (of_nat c)" using assms(2) by (intro round_nat) simp
  ultimately show ?thesis by (simp add: in_bounds_def f64_sub_def a(1) overdraft_exact)
qed

lemma in_bounds_refill:
  assumes "in_bounds t (Fin (of_nat c))" and "x = NaN \<or> f64_le (Fin 0) x"
  shows "in_bounds (f64_min (f64_add t x) (Fin (of_nat c))) (Fin (of_nat c))"
proof -
  obtain a where a: "t = Fin a" "- overdraft \<le> a" "a \<le> of_nat c" using in_bounds_Fin [OF assms(1)] by blast
  have zero: "- overdraft \<le> of_nat c" by (simp add: overdraft_def)
  show ?thesis
  proof (cases x)
    case (Fin y)
    with assms(2) have "- overdraft \<le> a + y" using a(2) by simp
    then have "f64_le (round_f64 (- overdraft)) (round_f64 (a + y))" by (rule round_f64_mono)
    with zero f64_min_le [of "round_f64 (a + y)" "Fin (of_nat c)"] show ?thesis
      by (auto simp: in_bounds_def a(1) Fin overdraft_exact f64_min_def)
  qed (use assms zero a(1) in \<open>auto simp: in_bounds_def f64_min_def\<close>)
qed

text \<open>A demand above the capacity is never met.\<close>

lemma oversized_refused:
  assumes "in_bounds t (Fin (of_nat c))" and "p \<le> 2 ^ 32" and "c < p"
  shows "\<not> f64_le (Fin (of_nat p)) (f64_add t EPSILON)"
proof
  assume adm: "f64_le (Fin (of_nat p)) (f64_add t EPSILON)"
  obtain a where a: "t = Fin a" "a \<le> of_nat c" using in_bounds_Fin [OF assms(1)] by blast
  have "of_nat p - overdraft \<le> a" using admitted_balance [OF assms(2)] adm a(1) by simp
  moreover have "rat_of_nat c + 1 \<le> of_nat p" using assms(3) by (metis of_nat_1 of_nat_add of_nat_le_iff Suc_eq_plus1 Suc_leI)
  ultimately show False using a(2) by (simp add: overdraft_def)
qed

lemma f64_mul_nonneg: "f64_le (Fin 0) a \<Longrightarrow> f64_le (Fin 0) b \<Longrightarrow> f64_mul a b = NaN \<or> f64_le (Fin 0) (f64_mul a b)"
  by (cases a; cases b) (auto intro: round_f64_nonneg)

lemma as_secs_f64_nonneg: "f64_le (Fin 0) (as_secs_f64 d)"
  unfolding as_secs_f64_def
proof (intro f64_add_neq_NaN f64_of_nat_nonneg)
  have "f64_of_nat nanos_per_sec = Fin 1000000000"
    using f64_of_nat_exact [of nanos_per_sec] by (simp add: nanos_per_sec_def)
  then show "f64_le (Fin 0) (f64_div (f64_of_nat (d mod nanos_per_sec)) (f64_of_nat nanos_per_sec))"
    using f64_div_mono [OF f64_of_nat_nonneg, of 1000000000 "d mod nanos_per_sec"] by simp
qed

text \<open>
  A wait for a deficit is a duration: with a refill rate of at least \<open>2 ^ -6\<close> per second the
  conversion of \<open>deficit / rate\<close> to a \<open>Duration\<close> does not panic.
\<close>

lemma wait_defined:
  assumes "in_bounds t (Fin (of_nat c))" and "p \<le> 2 ^ 32"
    and "\<not> f64_le (Fin (of_nat p)) (f64_add t EPSILON)" and "f64_le (Fin (1 / 2 ^ 6)) rate" and "is_finite rate"
  shows "\<exists>d. from_secs_f64 (f64_div (f64_sub (Fin (of_nat p)) t) rate) = Some d"
proof -
  obtain a where a: "t = Fin a" "- overdraft \<le> a" "a \<le> of_nat c" using in_bounds_Fin [OF assms(1)] by blast
  obtain r where r: "rate = Fin r" "1 / 2 ^ 6 \<le> r" using assms(4,5) by (cases rate) auto
  obtain e where e: "EPSILON = Fin e" "0 \<le> e" using EPSILON_small by blast
  have "a \<le> of_nat p"
  proof (rule ccontr)
    assume "\<not> ?thesis"
    then have "f64_le (round_f64 (of_nat p)) (round_f64 (a + e))" using e(2) by (intro round_f64_mono) simp
    moreover have "round_f64 (of_nat p) = Fin (of_nat p)" using assms(2) by (intro round_nat) simp
    ultimately show False using assms(3) by (simp add: a(1) e(1))
  qed
  then have lo: "0 \<le> of_nat p - a" by simp
  have "rat_of_nat p \<le> of_nat (2 ^ 32)" using assms(2) by (rule of_nat_le_iff [THEN iffD2])
  then have hi: "of_nat p - a \<le> of_nat (2 ^ 33)" using a(2) by (simp add: overdraft_def)
  have top: "round_f64 (of_nat (2 ^ 33)) = Fin (of_nat (2 ^ 33))" by (rule round_nat) simp
  have "f64_le (Fin 0) (round_f64 (of_nat p - a))" "f64_le (round_f64 (of_nat p - a)) (Fin (of_nat (2 ^ 33)))"
    using round_f64_nonneg [OF lo] round_f64_mono [OF hi] top by simp_all
  then obtain q where q: "round_f64 (of_nat p - a) = Fin q" "0 \<le> q" "q \<le> 2 ^ 33"
    by (cases "round_f64 (of_nat p - a)") auto
  have "0 < r" using r(2) by (smt (verit) zero_less_divide_1_iff zero_less_power zero_less_numeral order_less_le_trans)
  then have "q / r \<le> of_nat (2 ^ 39)" "0 \<le> q / r"
    using q r(2) by (auto simp: field_simps)
  then have "f64_le (Fin 0) (round_f64 (q / r))" "f64_le (round_f64 (q / r)) (round_f64 (of_nat (2 ^ 39)))"
    using round_f64_nonneg round_f64_mono by blast+
  moreover have "round_f64 (of_nat (2 ^ 39)) = Fin (of_nat (2 ^ 39))" by (rule round_nat) simp
  ultimately obtain w where w: "round_f64 (q / r) = Fin w" "0 \<le> w" "w \<le> 2 ^ 39"
    by (cases "round_f64 (q / r)") auto
  have "round_half_even (w * of_nat nanos_per_sec) \<le> 2 ^ 39 * int nanos_per_sec"
    using w(3) by (intro round_half_even_le) (simp add: nanos_per_sec_def)
  then show ?thesis
    using w \<open>0 < r\<close> by (simp add: a(1) r(1) f64_sub_def q(1) Let_def nanos_per_sec_def)
qed

text \<open>The longer of two noted waits.\<close>

definition longer_wait :: "duration option \<Rightarrow> duration option \<Rightarrow> duration option" where
  "longer_wait a b = (case b of None \<Rightarrow> a | Some w \<Rightarrow> Some (case a of None \<Rightarrow> w | Some cur \<Rightarrow> max cur w))"

lemma longer_wait_None: "longer_wait a b = None \<longleftrightarrow> a = None \<and> b = None"
  by (auto simp: longer_wait_def split: option.splits)

lemma f64_of_nat_1: "f64_of_nat (Suc 0) = Fin 1"
  using f64_of_nat_exact [of 1] by simp

lemma rate_nonneg: "f64_le (Fin (1 / 2 ^ 6)) r \<Longrightarrow> f64_le (Fin 0) r"
  using f64_le_trans [of "Fin 0" "Fin (1 / 2 ^ 6)" r] by simp

text \<open>The refill rate of a bucket made for a limit per minute.\<close>

lemma per_minute_rate:
  assumes "n \<le> u32_max" and "n \<noteq> 0"
  shows "n \<le> 2 ^ 32 \<and> f64_of_nat n = Fin (of_nat n) \<and> 1 \<le> rat_of_nat n \<and>
    (\<exists>r. f64_div (f64_of_nat n) (Fin 60) = Fin r \<and> 1 / 2 ^ 6 \<le> r)"
proof -
  have n: "n \<le> 2 ^ 32" using assms(1) by (simp add: u32_max_def)
  then have exact: "f64_of_nat n = Fin (of_nat n)" by (intro f64_of_nat_exact) simp
  have one: "1 \<le> rat_of_nat n" using assms(2) by (simp add: of_nat_le_iff [of 1, simplified])
  have low: "round_f64 (1 / 2 ^ 6) = Fin (1 / 2 ^ 6)" using round_dyadic [of 1 6] by simp
  have "f64_le (round_f64 (1 / 2 ^ 6)) (round_f64 (of_nat n / 60))"
    using one by (intro round_f64_mono) simp
  moreover have "f64_le (round_f64 (of_nat n / 60)) (round_f64 (of_nat n))" by (intro round_f64_mono) simp
  moreover have "round_f64 (of_nat n) = Fin (of_nat n)" using exact by (simp add: f64_of_nat_def)
  ultimately have "\<exists>r. round_f64 (of_nat n / 60) = Fin r \<and> 1 / 2 ^ 6 \<le> r"
    using low by (cases "round_f64 (of_nat n / 60)") auto
  with n exact one show ?thesis by simp
qed

locale admission_bucket =
  fixes tokens capacity :: "'b \<Rightarrow> f64"
    and rate_ok :: "'b \<Rightarrow> bool"
    and refill :: "instant \<Rightarrow> 'b \<Rightarrow> 'b"
    and admits :: "instant \<Rightarrow> nat \<Rightarrow> 'b \<Rightarrow> bool"
    and take :: "nat \<Rightarrow> 'b \<Rightarrow> 'b"
  assumes capacity_refill: "capacity (refill now b) = capacity b"
    and capacity_take: "capacity (take p b) = capacity b"
    and rate_refill: "rate_ok (refill now b) = rate_ok b"
    and rate_take: "rate_ok (take p b) = rate_ok b"
    and tokens_refill: "rate_ok b \<Longrightarrow> tokens (refill now b) = tokens b \<or>
      (\<exists>x. (x = NaN \<or> f64_le (Fin 0) x) \<and> tokens (refill now b) = f64_min (f64_add (tokens b) x) (capacity b))"
    and tokens_take: "p \<le> 2 ^ 32 \<Longrightarrow> tokens (take p b) = f64_sub (tokens b) (Fin (of_nat p))"
    and admits_balance: "p \<le> 2 ^ 32 \<Longrightarrow> admits now p b \<Longrightarrow>
      f64_le (Fin (of_nat p)) (f64_add (tokens b) EPSILON)"
begin

definition bucket_ok :: "nat \<Rightarrow> 'b \<Rightarrow> bool" where
  "bucket_ok c b \<longleftrightarrow> c \<le> 2 ^ 32 \<and> capacity b = Fin (of_nat c) \<and> rate_ok b \<and> in_bounds (tokens b) (capacity b)"

lemma refill_ok: "bucket_ok c b \<Longrightarrow> bucket_ok c (refill now b)"
  using tokens_refill [of b now] in_bounds_refill [of "tokens b" c]
  by (auto simp: bucket_ok_def capacity_refill rate_refill simp del: f64_add.simps)

lemma take_ok: "bucket_ok c b \<Longrightarrow> admits now p b \<Longrightarrow> p \<le> 2 ^ 32 \<Longrightarrow> bucket_ok c (take p b)"
  using in_bounds_take admits_balance [of p now b]
  by (auto simp: bucket_ok_def capacity_take rate_take tokens_take)

lemma oversized: "bucket_ok c b \<Longrightarrow> p \<le> 2 ^ 32 \<Longrightarrow> c < p \<Longrightarrow> \<not> admits now p b"
  using oversized_refused admits_balance [of p now b] by (auto simp: bucket_ok_def)

end

end
