(* ===== verification/Quota.thy ===== *)
theory Quota
  imports Auth Buckets Cost
begin

text \<open>
  Per-tenant quotas and the spend cap (\<open>src/gateway/quota.rs\<close>): the token bucket of a tenant, the
  quota check over two maps of buckets, tumbling spend windows, the in-memory spend ledger and the
  cap. Clocks are arguments (an instant for the buckets, seconds since the epoch for windows); a
  panic is \<open>None\<close>.
\<close>

section \<open>Buckets\<close>

record bucket =
  q_capacity :: f64
  q_refill_per_sec :: f64
  q_tokens :: f64
  q_last :: instant

definition ZERO_QUOTA_RETRY_AFTER :: duration where "ZERO_QUOTA_RETRY_AFTER = from_secs 60"

definition q_new :: "nat \<Rightarrow> instant \<Rightarrow> bucket" where
  "q_new per_minute now =
     (let capacity = f64_of_nat per_minute in
      \<lparr>q_capacity = capacity,
       q_refill_per_sec = (if f64_lt (Fin 0) capacity then f64_div capacity (Fin 60) else Fin 0),
       q_tokens = capacity, q_last = now\<rparr>)"

definition q_refill :: "instant \<Rightarrow> bucket \<Rightarrow> bucket" where
  "q_refill now b =
     (if q_capacity b = Fin 0 then b
      else
        let elapsed = as_secs_f64 (saturating_duration_since now (q_last b)) in
        b\<lparr>q_tokens := f64_min (f64_add (q_tokens b) (f64_mul elapsed (q_refill_per_sec b))) (q_capacity b),
          q_last := now\<rparr>)"

definition q_check :: "bucket \<Rightarrow> f64 \<Rightarrow> (duration, unit) result option" where
  "q_check b want =
     (if q_capacity b = Fin 0 then Some (Inl ZERO_QUOTA_RETRY_AFTER)
      else if f64_le want (f64_add (q_tokens b) EPSILON) then Some (Inr ())
      else map_option Inl (from_secs_f64 (f64_div (f64_sub want (q_tokens b)) (q_refill_per_sec b))))"

definition q_commit :: "f64 \<Rightarrow> bucket \<Rightarrow> bucket" where
  "q_commit want b = b\<lparr>q_tokens := f64_sub (q_tokens b) want\<rparr>"

section \<open>Tenant quotas\<close>

record tenant_quota =
  rpm_buckets :: "(string, bucket) hash_map"
  tpm_buckets :: "(string, bucket) hash_map"

text \<open>One bucket of the check: created if absent, refilled, and asked. The result carries the wait
  noted (\<open>None\<close> for no wait) and the updated map.\<close>

definition visit_bucket ::
  "nat option \<Rightarrow> f64 \<Rightarrow> instant \<Rightarrow> string \<Rightarrow> (string, bucket) hash_map
    \<Rightarrow> (duration option \<times> (string, bucket) hash_map) option" where
  "visit_bucket limit want now key m =
     (case limit of
        None \<Rightarrow> Some (None, m)
      | Some r \<Rightarrow>
          let b = q_refill now (case map_of m key of Some b \<Rightarrow> b | None \<Rightarrow> q_new r now);
              m' = AList.update key b m
          in (case q_check b want of
                None \<Rightarrow> None
              | Some (Inl w) \<Rightarrow> Some (Some w, m')
              | Some (Inr _) \<Rightarrow> Some (None, m')))"

definition commit_bucket ::
  "nat option \<Rightarrow> f64 \<Rightarrow> string \<Rightarrow> (string, bucket) hash_map \<Rightarrow> (string, bucket) hash_map option" where
  "commit_bucket limit want key m =
     (case limit of
        None \<Rightarrow> Some m
      | Some _ \<Rightarrow> map_option (\<lambda>b. AList.update key (q_commit want b) m) (map_of m key))"

definition quota_key :: "string \<Rightarrow> string \<Rightarrow> string" where
  "quota_key tnt provider = tnt @ '':'' @ provider"

definition quota_check ::
  "tenant_quota \<Rightarrow> string \<Rightarrow> string \<Rightarrow> nat option \<Rightarrow> nat option \<Rightarrow> nat \<Rightarrow> instant
    \<Rightarrow> ((duration, unit) result \<times> tenant_quota) option" where
  "quota_check st tnt provider rpm tpm est_tokens now =
     (if rpm = None \<and> tpm = None then Some (Inr (), st)
      else if rpm = Some 0 \<or> tpm = Some 0 then Some (Inl ZERO_QUOTA_RETRY_AFTER, st)
      else
        let key = quota_key tnt provider; want = f64_of_nat (max est_tokens 1) in
        Option.bind (visit_bucket rpm (Fin 1) now key (rpm_buckets st)) (\<lambda>(w1, rm).
        Option.bind (visit_bucket tpm want now key (tpm_buckets st)) (\<lambda>(w2, tm).
        case longer_wait w1 w2 of
          Some w \<Rightarrow> Some (Inl w, \<lparr>rpm_buckets = rm, tpm_buckets = tm\<rparr>)
        | None \<Rightarrow>
            Option.bind (commit_bucket rpm (Fin 1) key rm) (\<lambda>rm'.
            Option.bind (commit_bucket tpm want key tm) (\<lambda>tm'.
            Some (Inr (), \<lparr>rpm_buckets = rm', tpm_buckets = tm'\<rparr>))))))"

section \<open>Spend\<close>

definition DEFAULT_BUDGET_WINDOW_SECS :: nat where "DEFAULT_BUDGET_WINDOW_SECS = 86400"

definition window_index :: "duration \<Rightarrow> nat \<Rightarrow> nat" where
  "window_index window epoch_secs = epoch_secs div max (as_secs window) 1"

definition window_reset :: "duration \<Rightarrow> nat \<Rightarrow> duration" where
  "window_reset window epoch_secs =
     (let secs = max (as_secs window) 1 in from_secs (secs - epoch_secs mod secs))"

type_synonym spend_ledger = "(string \<times> nat, f64) hash_map"

definition spent :: "spend_ledger \<Rightarrow> string \<Rightarrow> duration \<Rightarrow> nat \<Rightarrow> f64" where
  "spent windows tnt window epoch_secs =
     (case map_of windows (tnt, window_index window epoch_secs) of Some usd \<Rightarrow> usd | None \<Rightarrow> Fin 0)"

definition record_spend :: "spend_ledger \<Rightarrow> string \<Rightarrow> duration \<Rightarrow> f64 \<Rightarrow> nat \<Rightarrow> spend_ledger" where
  "record_spend windows tnt window usd epoch_secs =
     (let current = window_index window epoch_secs;
          kept = filter (\<lambda>e. snd (fst e) \<ge> current) windows
      in AList.update (tnt, current)
           (f64_add (case map_of kept (tnt, current) of Some x \<Rightarrow> x | None \<Rightarrow> Fin 0) usd) kept)"

datatype budget_refusal = Exhausted duration | Unpriceable

definition budget_window :: "identity \<Rightarrow> duration" where
  "budget_window i =
     from_secs (max (case budget_window_secs i of Some s \<Rightarrow> s | None \<Rightarrow> DEFAULT_BUDGET_WINDOW_SECS) 1)"

definition spend_check ::
  "(string \<Rightarrow> string option) \<Rightarrow> catalog \<Rightarrow> spend_ledger \<Rightarrow> identity \<Rightarrow> string \<Rightarrow> string \<Rightarrow> nat
    \<Rightarrow> (budget_refusal, unit) result" where
  "spend_check spec cat ledger i provider model epoch_secs =
     (case budget_usd i of
        None \<Rightarrow> Inr ()
      | Some budget \<Rightarrow>
          if \<not> is_priceable spec cat provider model \<and> \<not> budget_allow_unpriced i then Inl Unpriceable
          else if f64_le budget (spent ledger (tenant i) (budget_window i) epoch_secs)
          then Inl (Exhausted (window_reset (budget_window i) epoch_secs))
          else Inr ())"

definition is_unpriced_under_cap ::
  "(string \<Rightarrow> string option) \<Rightarrow> catalog \<Rightarrow> identity \<Rightarrow> string \<Rightarrow> string \<Rightarrow> bool" where
  "is_unpriced_under_cap spec cat i provider model \<longleftrightarrow>
     budget_usd i \<noteq> None \<and> \<not> is_priceable spec cat provider model"

definition spend_record :: "spend_ledger \<Rightarrow> identity \<Rightarrow> f64 option \<Rightarrow> nat \<Rightarrow> spend_ledger" where
  "spend_record ledger i usd epoch_secs =
     (case usd of
        Some u \<Rightarrow>
          if f64_lt (Fin 0) u \<and> budget_usd i \<noteq> None
          then record_spend ledger (tenant i) (budget_window i) u epoch_secs
          else ledger
      | None \<Rightarrow> ledger)"

section \<open>Quotas: bounds, panics and isolation\<close>

definition q_rate_ok :: "bucket \<Rightarrow> bool" where
  "q_rate_ok b \<longleftrightarrow> is_finite (q_refill_per_sec b) \<and> f64_le (Fin (1 / 2 ^ 6)) (q_refill_per_sec b)"

definition q_admits :: "nat \<Rightarrow> bucket \<Rightarrow> bool" where
  "q_admits p b \<longleftrightarrow> q_check b (f64_of_nat p) = Some (Inr ())"

interpretation qb: admission_bucket q_tokens q_capacity q_rate_ok q_refill "\<lambda>_. q_admits"
  "\<lambda>p. q_commit (f64_of_nat p)"
proof
  fix now b p
  show "q_capacity (q_refill now b) = q_capacity b" "q_rate_ok (q_refill now b) = q_rate_ok b"
    "q_capacity (q_commit (f64_of_nat p) b) = q_capacity b"
    "q_rate_ok (q_commit (f64_of_nat p) b) = q_rate_ok b"
    by (simp_all add: q_refill_def q_commit_def q_rate_ok_def Let_def)
  show "q_tokens (q_refill now b) = q_tokens b \<or>
      (\<exists>x. (x = NaN \<or> f64_le (Fin 0) x) \<and> q_tokens (q_refill now b) = f64_min (f64_add (q_tokens b) x) (q_capacity b))"
    if "q_rate_ok b"
    using f64_mul_nonneg [OF as_secs_f64_nonneg rate_nonneg] that
    by (auto simp: q_refill_def Let_def q_rate_ok_def)
  assume p: "p \<le> 2 ^ 32"
  then have exact: "f64_of_nat p = Fin (of_nat p)" by (intro f64_of_nat_exact) simp
  then show "q_tokens (q_commit (f64_of_nat p) b) = f64_sub (q_tokens b) (Fin (of_nat p))"
    by (simp add: q_commit_def)
  show "f64_le (Fin (of_nat p)) (f64_add (q_tokens b) EPSILON)" if "q_admits p b"
    using that by (auto simp: q_admits_def q_check_def exact split: if_splits)
qed

definition q_ok :: "bucket \<Rightarrow> bool" where
  "q_ok b \<longleftrightarrow> (\<exists>n. 0 < n \<and> qb.bucket_ok n b)"

lemma q_new_ok:
  assumes "n \<le> u32_max" and "n \<noteq> 0"
  shows "qb.bucket_ok n (q_new n now)"
proof -
  from per_minute_rate [OF assms] obtain r where "n \<le> 2 ^ 32" "f64_of_nat n = Fin (of_nat n)" "1 \<le> rat_of_nat n"
    "f64_div (f64_of_nat n) (Fin 60) = Fin r" "1 / 2 ^ 6 \<le> r" by blast
  with assms(2) show ?thesis
    by (simp add: qb.bucket_ok_def q_new_def q_rate_ok_def in_bounds_def overdraft_def Let_def)
qed

lemma q_check_defined:
  assumes "q_ok b" and "p \<le> 2 ^ 32"
  shows "\<exists>r. q_check b (f64_of_nat p) = Some r"
proof -
  obtain n where n: "qb.bucket_ok n b" using assms(1) by (auto simp: q_ok_def)
  have exact: "f64_of_nat p = Fin (of_nat p)" using assms(2) by (intro f64_of_nat_exact) simp
  have "in_bounds (q_tokens b) (Fin (of_nat n))" "f64_le (Fin (1 / 2 ^ 6)) (q_refill_per_sec b)"
    "is_finite (q_refill_per_sec b)"
    using n by (auto simp: qb.bucket_ok_def q_rate_ok_def)
  then show ?thesis
    using wait_defined [of "q_tokens b" n p "q_refill_per_sec b"] assms(2) by (auto simp: q_check_def exact)
qed

definition map_ok :: "(string, bucket) hash_map \<Rightarrow> bool" where
  "map_ok m \<longleftrightarrow> (\<forall>k b. map_of m k = Some b \<longrightarrow> q_ok b)"

definition entry_bucket :: "nat \<Rightarrow> instant \<Rightarrow> string \<Rightarrow> (string, bucket) hash_map \<Rightarrow> bucket" where
  "entry_bucket r now key m = q_refill now (case map_of m key of Some b \<Rightarrow> b | None \<Rightarrow> q_new r now)"

lemma entry_bucket_ok: "map_ok m \<Longrightarrow> r \<le> u32_max \<Longrightarrow> r \<noteq> 0 \<Longrightarrow> q_ok (entry_bucket r now key m)"
proof -
  assume m: "map_ok m" and r: "r \<le> u32_max" "r \<noteq> 0"
  have "q_ok (case map_of m key of Some b \<Rightarrow> b | None \<Rightarrow> q_new r now)"
  proof (cases "map_of m key")
    case None
    with q_new_ok [OF r, of now] r(2) show ?thesis by (auto simp: q_ok_def intro: exI [of _ r])
  next
    case (Some b)
    with m show ?thesis by (simp add: map_ok_def)
  qed
  then show ?thesis unfolding entry_bucket_def q_ok_def using qb.refill_ok by blast
qed

text \<open>What the check does to the bucket of one limit.\<close>

definition limit_fits :: "nat option \<Rightarrow> bool" where
  "limit_fits limit = (case limit of None \<Rightarrow> True | Some n \<Rightarrow> n \<noteq> 0 \<and> n \<le> u32_max)"

definition has_room :: "nat option \<Rightarrow> nat \<Rightarrow> instant \<Rightarrow> string \<Rightarrow> (string, bucket) hash_map \<Rightarrow> bool" where
  "has_room limit p now key m = (case limit of None \<Rightarrow> True | Some r \<Rightarrow> q_admits p (entry_bucket r now key m))"

definition after_visit ::
  "nat option \<Rightarrow> (bucket \<Rightarrow> bucket) \<Rightarrow> instant \<Rightarrow> string \<Rightarrow> (string, bucket) hash_map \<Rightarrow> (string \<rightharpoonup> bucket)" where
  "after_visit limit f now key m =
     (case limit of None \<Rightarrow> map_of m | Some r \<Rightarrow> (map_of m)(key \<mapsto> f (entry_bucket r now key m)))"

lemma visit_bucket_defined:
  assumes "map_ok m" and "limit_fits limit" and "p \<le> 2 ^ 32"
  shows "\<exists>w m'. visit_bucket limit (f64_of_nat p) now key m = Some (w, m') \<and> (w = None \<longleftrightarrow> has_room limit p now key m) \<and>
    map_ok m' \<and> map_of m' = after_visit limit id now key m"
proof (cases limit)
  case None
  with assms(1) show ?thesis by (simp add: visit_bucket_def has_room_def after_visit_def)
next
  case (Some r)
  let ?b = "entry_bucket r now key m"
  have ok: "q_ok ?b" using assms(1,2) Some by (intro entry_bucket_ok) (simp_all add: limit_fits_def)
  then obtain res where res: "q_check ?b (f64_of_nat p) = Some res" using q_check_defined assms(3) by blast
  have "map_ok (AList.update key ?b m)" using ok assms(1) by (simp add: map_ok_def map_of_update)
  with res Some show ?thesis
    by (cases res) (auto simp: visit_bucket_def has_room_def after_visit_def Let_def q_admits_def map_of_update
        entry_bucket_def [symmetric])
qed

lemma commit_bucket_defined:
  assumes "map_ok m'" and "map_of m' = after_visit limit id now key m" and "has_room limit p now key m" and "p \<le> 2 ^ 32"
  shows "\<exists>m''. commit_bucket limit (f64_of_nat p) key m' = Some m'' \<and> map_ok m'' \<and>
    map_of m'' = after_visit limit (q_commit (f64_of_nat p)) now key m"
proof (cases limit)
  case None
  with assms show ?thesis by (simp add: commit_bucket_def after_visit_def)
next
  case (Some r)
  let ?b = "entry_bucket r now key m"
  have b: "map_of m' key = Some ?b" using assms(2) Some by (simp add: after_visit_def)
  then obtain n where "0 < n" "qb.bucket_ok n ?b" using assms(1) by (auto simp: map_ok_def q_ok_def)
  then have "q_ok (q_commit (f64_of_nat p) ?b)"
    using qb.take_ok assms(3,4) Some by (auto simp: q_ok_def has_room_def)
  then have "map_ok (AList.update key (q_commit (f64_of_nat p) ?b) m')"
    using assms(1) by (simp add: map_ok_def map_of_update)
  with b assms(2) Some show ?thesis by (simp add: commit_bucket_def after_visit_def map_of_update fun_upd_upd)
qed

definition quota_ok :: "tenant_quota \<Rightarrow> bool" where
  "quota_ok st \<longleftrightarrow> map_ok (rpm_buckets st) \<and> map_ok (tpm_buckets st)"

definition applies :: "nat option \<Rightarrow> nat option \<Rightarrow> bool" where
  "applies rpm tpm \<longleftrightarrow> (rpm \<noteq> None \<or> tpm \<noteq> None) \<and> rpm \<noteq> Some 0 \<and> tpm \<noteq> Some 0"

lemma quota_check_spec:
  assumes "quota_ok st" and "applies rpm tpm" and "limit_fits rpm" and "limit_fits tpm" and "est \<le> u32_max"
  shows "\<exists>r st'. quota_check st tnt provider rpm tpm est now = Some (r, st') \<and> quota_ok st' \<and>
    (r = Inr () \<longleftrightarrow> has_room rpm 1 now (quota_key tnt provider) (rpm_buckets st) \<and>
       has_room tpm (max est 1) now (quota_key tnt provider) (tpm_buckets st)) \<and>
    map_of (rpm_buckets st') = after_visit rpm (if r = Inr () then q_commit (Fin 1) else id) now (quota_key tnt provider) (rpm_buckets st) \<and>
    map_of (tpm_buckets st') = after_visit tpm (if r = Inr () then q_commit (f64_of_nat (max est 1)) else id) now
      (quota_key tnt provider) (tpm_buckets st)"
proof -
  let ?k = "quota_key tnt provider" let ?p = "max est 1"
  have p: "?p \<le> 2 ^ 32" using assms(5) by (simp add: u32_max_def)
  have ok: "map_ok (rpm_buckets st)" "map_ok (tpm_buckets st)" using assms(1) by (simp_all add: quota_ok_def)
  have one: "f64_of_nat 1 = Fin 1" by (simp add: f64_of_nat_1)
  obtain w1 rm where rm: "visit_bucket rpm (Fin 1) now ?k (rpm_buckets st) = Some (w1, rm)"
    "w1 = None \<longleftrightarrow> has_room rpm 1 now ?k (rpm_buckets st)" "map_ok rm" "map_of rm = after_visit rpm id now ?k (rpm_buckets st)"
    using visit_bucket_defined [OF ok(1) assms(3), of 1 now ?k] one by auto
  obtain w2 tm where tm: "visit_bucket tpm (f64_of_nat ?p) now ?k (tpm_buckets st) = Some (w2, tm)"
    "w2 = None \<longleftrightarrow> has_room tpm ?p now ?k (tpm_buckets st)" "map_ok tm" "map_of tm = after_visit tpm id now ?k (tpm_buckets st)"
    using visit_bucket_defined [OF ok(2) assms(4) p, of now ?k] by auto
  have eq: "quota_check st tnt provider rpm tpm est now =
      (case longer_wait w1 w2 of
          Some w \<Rightarrow> Some (Inl w, \<lparr>rpm_buckets = rm, tpm_buckets = tm\<rparr>)
        | None \<Rightarrow>
            Option.bind (commit_bucket rpm (Fin 1) ?k rm) (\<lambda>rm'.
            Option.bind (commit_bucket tpm (f64_of_nat ?p) ?k tm) (\<lambda>tm'.
            Some (Inr (), \<lparr>rpm_buckets = rm', tpm_buckets = tm'\<rparr>))))"
    using assms(2) rm(1) tm(1) by (auto simp: quota_check_def applies_def Let_def simp del: One_nat_def)
  show ?thesis
  proof (cases "w1 = None \<and> w2 = None")
    case True
    with rm(2) tm(2) have room: "has_room rpm 1 now ?k (rpm_buckets st)" "has_room tpm ?p now ?k (tpm_buckets st)" by auto
    obtain rm' where rm': "commit_bucket rpm (Fin 1) ?k rm = Some rm'" "map_ok rm'"
      "map_of rm' = after_visit rpm (q_commit (Fin 1)) now ?k (rpm_buckets st)"
      using commit_bucket_defined [OF rm(3,4) room(1)] one by auto
    obtain tm' where tm': "commit_bucket tpm (f64_of_nat ?p) ?k tm = Some tm'" "map_ok tm'"
      "map_of tm' = after_visit tpm (q_commit (f64_of_nat ?p)) now ?k (tpm_buckets st)"
      using commit_bucket_defined [OF tm(3,4) room(2) p] by auto
    have "quota_check st tnt provider rpm tpm est now = Some (Inr (), \<lparr>rpm_buckets = rm', tpm_buckets = tm'\<rparr>)"
      using eq True rm'(1) tm'(1) by (simp add: longer_wait_def)
    with room rm'(2,3) tm'(2,3) show ?thesis by (simp add: quota_ok_def)
  next
    case False
    then obtain w where "longer_wait w1 w2 = Some w" using longer_wait_None by fastforce
    then have "quota_check st tnt provider rpm tpm est now = Some (Inl w, \<lparr>rpm_buckets = rm, tpm_buckets = tm\<rparr>)"
      using eq by simp
    with False rm(2-4) tm(2-4) show ?thesis by (auto simp: quota_ok_def)
  qed
qed

section \<open>Spend windows\<close>

text \<open>
  What a spend store promises for tenants that share a window length: a charge is added to its
  tenant's window and changes no other tenant's, and a window's total depends on the time only
  through the window.
\<close>

locale spend_store =
  fixes spent_in :: "'s \<Rightarrow> string \<Rightarrow> duration \<Rightarrow> nat \<Rightarrow> f64"
    and charge_to :: "'s \<Rightarrow> string \<Rightarrow> duration \<Rightarrow> f64 \<Rightarrow> nat \<Rightarrow> 's"
  assumes charge_same: "spent_in (charge_to s t w u now) t w now = f64_add (spent_in s t w now) u"
    and charge_other: "t' \<noteq> t \<Longrightarrow> spent_in (charge_to s t w u now) t' w now = spent_in s t' w now"
    and spent_window: "window_index w now = window_index w now' \<Longrightarrow> spent_in s t w now = spent_in s t w now'"
begin

text \<open>Charges \<open>(tenant, amount, time)\<close> within one window accumulate per tenant, in order.\<close>

lemma charges_accumulate:
  assumes "\<forall>(t', u, now') \<in> set cs. window_index w now' = window_index w now"
  shows "spent_in (fold (\<lambda>(t', u, now') s. charge_to s t' w u now') cs s) t w now =
    fold (\<lambda>(t', u, now') acc. if t' = t then f64_add acc u else acc) cs (spent_in s t w now)"
  using assms
proof (induction cs arbitrary: s)
  case (Cons c cs)
  obtain t' u now' where c: "c = (t', u, now')" by (cases c) auto
  have win: "window_index w now' = window_index w now" using Cons.prems c by simp
  have "spent_in (charge_to s t' w u now') t w now =
      (if t' = t then f64_add (spent_in s t w now) u else spent_in s t w now)"
    using charge_same [of s t' w u now'] charge_other [of t t' s w u now'] spent_window [OF win] by auto
  with Cons c show ?case by simp
qed simp

end

lemma map_of_filter_key:
  "P k \<Longrightarrow> map_of (filter (\<lambda>e. P (fst e)) m) k = map_of m k"
  by (induction m) auto

lemma spent_record:
  "spent (record_spend m t w u now) t' w' now' =
     (let k = (t', window_index w' now'); c = window_index w now in
      if k = (t, c) then f64_add (spent m t w now) u
      else if c \<le> snd k then spent m t' w' now' else Fin 0)"
proof -
  let ?c = "window_index w now"
  let ?kept = "filter (\<lambda>e. snd (fst e) \<ge> ?c) m"
  have kept: "map_of ?kept k = (if ?c \<le> snd k then map_of m k else None)" for k
    using map_of_filter_key [of "\<lambda>k. snd k \<ge> ?c" k m]
    by (cases "?c \<le> snd k") (auto simp: map_of_eq_None_iff)
  show ?thesis by (simp add: record_spend_def spent_def Let_def map_of_update kept)
qed

interpretation ledger_store: spend_store spent record_spend
  by unfold_locales (auto simp: spent_record Let_def, auto simp: spent_def)

section \<open>Properties\<close>

datatype quota_request = Quota_request string string "nat option" "nat option" nat instant

fun run_quota :: "quota_request list \<Rightarrow> tenant_quota \<Rightarrow> tenant_quota option" where
  "run_quota [] st = Some st"
| "run_quota (Quota_request tnt provider rpm tpm est now # rs) st =
     Option.bind (quota_check st tnt provider rpm tpm est now) (\<lambda>(r, st'). run_quota rs st')"

fun quota_request_fits :: "quota_request \<Rightarrow> bool" where
  "quota_request_fits (Quota_request tnt provider rpm tpm est now) \<longleftrightarrow>
     (case rpm of Some n \<Rightarrow> n \<le> u32_max | None \<Rightarrow> True) \<and> (case tpm of Some n \<Rightarrow> n \<le> u32_max | None \<Rightarrow> True) \<and> est \<le> u32_max"

definition empty_quota :: tenant_quota where
  "empty_quota = \<lparr>rpm_buckets = [], tpm_buckets = []\<rparr>"

lemma quota_run_ok:
  "list_all quota_request_fits rs \<Longrightarrow> quota_ok st \<Longrightarrow> \<exists>st'. run_quota rs st = Some st' \<and> quota_ok st'"
proof (induction rs arbitrary: st)
  case (Cons q rs)
  obtain tnt provider rpm tpm est now where q: "q = Quota_request tnt provider rpm tpm est now" by (cases q)
  have "\<exists>r st1. quota_check st tnt provider rpm tpm est now = Some (r, st1) \<and> quota_ok st1"
  proof (cases "applies rpm tpm")
    case True
    then have "limit_fits rpm" "limit_fits tpm" "est \<le> u32_max"
      using Cons.prems(1) q by (auto simp: limit_fits_def applies_def split: option.splits)
    from quota_check_spec [OF Cons.prems(2) True this] show ?thesis by blast
  next
    case False
    with Cons.prems(2) show ?thesis by (auto simp: quota_check_def applies_def)
  qed
  with Cons q show ?case by auto
qed simp

text \<open>No sequence of quota checks panics. In every state so reached a request under non-zero limits is
  admitted exactly when the tenant's refilled buckets for that provider have room, both are then
  debited or else neither is, and no bucket under another key changes.\<close>

lemma quota_check_correct:
  assumes "list_all quota_request_fits rs" and "applies rpm tpm"
    and "quota_request_fits (Quota_request tnt provider rpm tpm est now)"
  shows "\<exists>st r st'. run_quota rs empty_quota = Some st \<and> quota_check st tnt provider rpm tpm est now = Some (r, st') \<and>
    (r = Inr () \<longleftrightarrow> has_room rpm 1 now (quota_key tnt provider) (rpm_buckets st) \<and>
       has_room tpm (max est 1) now (quota_key tnt provider) (tpm_buckets st)) \<and>
    map_of (rpm_buckets st') = after_visit rpm (if r = Inr () then q_commit (Fin 1) else id) now (quota_key tnt provider) (rpm_buckets st) \<and>
    map_of (tpm_buckets st') = after_visit tpm (if r = Inr () then q_commit (f64_of_nat (max est 1)) else id) now
      (quota_key tnt provider) (tpm_buckets st)"
proof -
  have "quota_ok empty_quota" by (simp add: quota_ok_def map_ok_def empty_quota_def)
  then obtain st where st: "run_quota rs empty_quota = Some st" "quota_ok st"
    using quota_run_ok [OF assms(1)] by blast
  have "limit_fits rpm" "limit_fits tpm" "est \<le> u32_max"
    using assms(2,3) by (auto simp: limit_fits_def applies_def split: option.splits)
  from quota_check_spec [OF st(2) assms(2) this, of tnt provider now] st(1) show ?thesis by blast
qed

lemma window_reset_next:
  "window_index w (now + as_secs (window_reset w now)) = Suc (window_index w now)"
proof -
  define s where "s = max (as_secs w) 1"
  have s: "0 < s" by (simp add: s_def)
  have "now + (s - now mod s) = (now div s) * s + s"
    using mod_less_divisor [OF s, of now] div_mult_mod_eq [of now s] by linarith
  then have "(now + (s - now mod s)) div s = now div s + 1" using s by simp
  then show ?thesis
    by (simp only: window_index_def window_reset_def Let_def s_def [symmetric] as_secs_from_secs Suc_eq_plus1)
qed


text \<open>Across window lengths the ledger forgets. A charge to a tenant whose window is so much shorter that its
  current index is larger erases what any other tenant has spent in its own current window.\<close>

lemma record_erases_longer_windows:
  assumes "budget_usd j \<noteq> None" and "f64_lt (Fin 0) usd" and "tenant i \<noteq> tenant j"
    and "window_index (budget_window i) now < window_index (budget_window j) now"
  shows "spent (spend_record ledger j (Some usd) now) (tenant i) (budget_window i) now = Fin 0"
  using assms by (auto simp: spend_record_def spent_record Let_def)

definition demo_identity :: "string \<Rightarrow> nat \<Rightarrow> identity" where
  "demo_identity name secs = \<lparr>tenant = name, tier = 0, id_rpm = None, id_tpm = None, budget_usd = Some (Fin 5),
     budget_window_secs = Some secs, budget_allow_unpriced = False\<rparr>"


lemma record_erases_longer_windows_witness:
  "spent [((''a'', 0), Fin 4)] ''a'' (from_secs 86400) 150 = Fin 4 \<and>
   spent (spend_record [((''a'', 0), Fin 4)] (demo_identity ''b'' 60) (Some (Fin 1)) 150) ''a'' (from_secs 86400) 150 = Fin 0"
  using record_erases_longer_windows [of "demo_identity ''b'' 60" "Fin 1" "demo_identity ''a'' 86400" 150 "[((''a'', 0), Fin 4)]"]
  by (simp add: demo_identity_def budget_window_def window_index_def spent_def)

end
