(* ===== verification/Budget.thy ===== *)
theory Budget
  imports Auth Cost Policy Quota
begin

text \<open>
  Budget admission (\<open>src/gateway/budget.rs\<close>): the snapshot of a tenant's budget in nano-dollars, the
  conservative reservation quoted before an attempt, and the amount a usage report settles. Prices are
  the model's \<open>f64\<close>s; integer steps carry their checks at the width the code uses.
\<close>

section \<open>Amounts\<close>

definition NANOS_PER_USD :: f64 where "NANOS_PER_USD = Fin 1000000000"
definition PER_MILLION :: nat where "PER_MILLION = 1000000"
definition MAX_EXACT_REDIS_NANOS :: nat where "MAX_EXACT_REDIS_NANOS = 2 ^ 53"

record budget_policy_snapshot =
  limit_nanos :: nat
  window_secs :: nat
  allow_unpriced :: bool
  valid_budget :: bool

definition from_identity :: "identity \<Rightarrow> budget_policy_snapshot option" where
  "from_identity i =
     Option.bind (budget_usd i) (\<lambda>usd.
       let scaled = f64_mul usd NANOS_PER_USD;
           valid = (is_finite usd \<and> f64_le (Fin 0) usd \<and> is_finite scaled \<and>
             f64_le scaled (f64_of_nat MAX_EXACT_REDIS_NANOS))
       in Some \<lparr>limit_nanos = (if valid then f64_as_uint u64_max (f64_floor scaled) else 0),
            window_secs = max (case budget_window_secs i of Some s \<Rightarrow> s | None \<Rightarrow> DEFAULT_BUDGET_WINDOW_SECS) 1,
            allow_unpriced = budget_allow_unpriced i, valid_budget = valid\<rparr>)"

record budget_quote =
  amount_nanos :: nat
  bounded :: bool

datatype budget_plan_error = PlanUnpriceable

definition observed_cost_nanos :: "json \<Rightarrow> nat option" where
  "observed_cost_nanos usage =
     Option.bind (stamped usage) (\<lambda>cost_usd.
       if \<not> is_finite cost_usd \<or> f64_lt cost_usd (Fin 0) then None
       else if f64_le (f64_div (f64_of_nat MAX_EXACT_REDIS_NANOS) NANOS_PER_USD) cost_usd then Some MAX_EXACT_REDIS_NANOS
       else Some (f64_as_uint u64_max (f64_ceil (f64_mul cost_usd NANOS_PER_USD))))"

datatype spend_authority = CatalogPrice | ProviderBill

record spend_observation =
  so_amount_nanos :: "nat option"
  so_authority :: spend_authority
  so_terminal_authoritative :: bool

definition spend_observation_of :: "attempt_usage_observation \<Rightarrow> spend_observation" where
  "spend_observation_of obs =
     (let authority = (if stamped_source (obs_usage obs) = Some SOURCE_PROVIDER then ProviderBill else CatalogPrice);
          stamped_amount = observed_cost_nanos (obs_usage obs);
          inferred_zero = (stamped_amount = None \<and> obs_counters_complete obs \<and> obs_explicit_zero obs);
          amount = (case stamped_amount of Some n \<Rightarrow> Some n | None \<Rightarrow> if inferred_zero then Some 0 else None)
      in \<lparr>so_amount_nanos = amount, so_authority = authority,
          so_terminal_authoritative = (obs_terminal obs \<and> amount \<noteq> None \<and>
            (authority = ProviderBill \<or> obs_counters_complete obs))\<rparr>)"

fun may_finalize :: "attempt_outcome \<Rightarrow> bool" where
  "may_finalize (Completed UsageObserved) \<longleftrightarrow> True"
| "may_finalize (InvalidResponse UsageObserved) \<longleftrightarrow> True"
| "may_finalize _ \<longleftrightarrow> False"

section \<open>Trusted metadata\<close>

definition trusted_limit_source :: "model_info \<Rightarrow> string \<Rightarrow> bool" where
  "trusted_limit_source m field \<longleftrightarrow>
     (case map_of (mi_field_sources m) field of
        Some s \<Rightarrow> s = Local \<or> s = ProviderApi \<or> s = Builtin | None \<Rightarrow> False)"

definition trusted_price_source :: "model_info \<Rightarrow> string \<Rightarrow> bool" where
  "trusted_price_source m field \<longleftrightarrow>
     (case map_of (mi_field_sources m) field of Some s \<Rightarrow> s = Local \<or> s = Builtin | None \<Rightarrow> False)"

fun trust_tiers :: "context_cost_tier list \<Rightarrow> bool \<times> bool \<Rightarrow> bool \<times> bool" where
  "trust_tiers [] t = t"
| "trust_tiers (x # tiers) (input_is_trusted, output_is_trusted) =
     trust_tiers tiers
       (input_is_trusted \<or> cost_input (tier_cost x) \<noteq> None,
        output_is_trusted \<or> cost_output (tier_cost x) \<noteq> None)"

definition trusted_applicable_cost :: "model_info \<Rightarrow> nat \<Rightarrow> cost option" where
  "trusted_applicable_cost m input_tokens =
     (let trusted = (trusted_price_source m ''cost.input'', trusted_price_source m ''cost.output'') in
      case (case mi_context_cost_tiers m of
              None \<Rightarrow> Some trusted
            | Some tiers \<Rightarrow>
                if \<not> trusted_price_source m ''context_cost_tiers'' then None
                else Some (trust_tiers
                  (sort_key above_input_tokens (filter (\<lambda>t. input_tokens > above_input_tokens t) tiers)) trusted)) of
        None \<Rightarrow> None
      | Some (i, out) \<Rightarrow> if \<not> i \<or> \<not> out then None else cost_for_input_tokens m input_tokens)"

section \<open>Output bounds of a native body\<close>

definition declared_output_bound :: "wire_format \<Rightarrow> json \<Rightarrow> nat option" where
  "declared_output_bound wire body =
     (case wire of
        AnthropicMessages \<Rightarrow> get_u64 body ''max_tokens''
      | OpenAiResponses \<Rightarrow> get_u64 body ''max_output_tokens''
      | OpenAiChat \<Rightarrow>
          Option.bind (case get body ''max_completion_tokens'' of Some v \<Rightarrow> Some v | None \<Rightarrow> get body ''max_tokens'') as_u64
      | GoogleGenerateContent \<Rightarrow> path_u64 body [''generationConfig'', ''maxOutputTokens''])"

definition reasoning_output_bound :: "wire_format \<Rightarrow> json \<Rightarrow> nat option" where
  "reasoning_output_bound wire body =
     (case wire of
        AnthropicMessages \<Rightarrow> path_u64 body [''thinking'', ''budget_tokens'']
      | GoogleGenerateContent \<Rightarrow> path_u64 body [''generationConfig'', ''thinkingConfig'', ''thinkingBudget'']
      | _ \<Rightarrow> path_u64 body [''reasoning'', ''max_tokens''])"

definition output_token_bound :: "wire_format \<Rightarrow> json \<Rightarrow> nat \<Rightarrow> nat" where
  "output_token_bound wire body catalog_default =
     max (case declared_output_bound wire body of Some n \<Rightarrow> n | None \<Rightarrow> catalog_default)
         (case reasoning_output_bound wire body of Some n \<Rightarrow> n | None \<Rightarrow> 0)"

section \<open>Shapes that can be priced\<close>

fun contains_key :: "json \<Rightarrow> string \<Rightarrow> bool" where
  "contains_key (JArray vs) needle \<longleftrightarrow> list_ex (\<lambda>v. contains_key v needle) vs"
| "contains_key (JObject kvs) needle \<longleftrightarrow>
     list_ex (\<lambda>e. fst e = needle) kvs \<or> list_ex (\<lambda>e. contains_key (snd e) needle) kvs"
| "contains_key _ needle \<longleftrightarrow> False"

definition MEDIA_KEYS :: "string list" where
  "MEDIA_KEYS = [''image_url'', ''input_image'', ''input_audio'', ''audio'', ''video'', ''file_id'', ''file_url'',
     ''input_file'', ''inlineData'', ''fileData'', ''inline_data'', ''file_data'']"

definition media_kind :: "string \<Rightarrow> bool" where
  "media_kind kind \<longleftrightarrow> str_contains kind ''image'' \<or> str_contains kind ''audio'' \<or> str_contains kind ''video'' \<or>
     str_contains kind ''document'' \<or> kind = ''file'' \<or> ends_with kind ''_file''"

definition media_member :: "string \<Rightarrow> json \<Rightarrow> bool" where
  "media_member key v \<longleftrightarrow> key \<in> set MEDIA_KEYS \<or>
     (key = ''type'' \<and> (case as_str v of Some kind \<Rightarrow> media_kind kind | None \<Rightarrow> False))"

fun contains_unbounded_media :: "json \<Rightarrow> bool" where
  "contains_unbounded_media (JArray vs) \<longleftrightarrow> list_ex contains_unbounded_media vs"
| "contains_unbounded_media (JObject kvs) \<longleftrightarrow>
     list_ex (\<lambda>e. media_member (fst e) (snd e) \<or> contains_unbounded_media (snd e)) kvs"
| "contains_unbounded_media _ \<longleftrightarrow> False"

definition allowed_fields :: "wire_format \<Rightarrow> string list" where
  "allowed_fields wire =
     (case wire of
        OpenAiResponses \<Rightarrow> [''model'', ''input'', ''store'', ''max_output_tokens'', ''temperature'', ''top_p'',
          ''reasoning'', ''stream'', ''tools'', ''tool_choice'', ''include'', ''prompt_cache_key'',
          ''safety_identifier'', ''instructions'', ''text'', ''parallel_tool_calls'', ''metadata'']
      | OpenAiChat \<Rightarrow> [''model'', ''messages'', ''max_tokens'', ''max_completion_tokens'', ''temperature'', ''top_p'',
          ''top_k'', ''frequency_penalty'', ''presence_penalty'', ''repetition_penalty'', ''stop'', ''seed'',
          ''stream'', ''stream_options'', ''usage'', ''tools'', ''tool_choice'', ''parallel_tool_calls'',
          ''response_format'', ''logprobs'', ''top_logprobs'', ''n'', ''reasoning'', ''transforms'']
      | AnthropicMessages \<Rightarrow> [''model'', ''max_tokens'', ''messages'', ''system'', ''temperature'', ''top_p'', ''top_k'',
          ''stop_sequences'', ''stream'', ''tools'', ''tool_choice'', ''thinking'', ''output_config'']
      | GoogleGenerateContent \<Rightarrow> [''contents'', ''systemInstruction'', ''generationConfig'', ''tools'', ''toolConfig''])"

definition ALLOWED_GENERATION :: "string list" where
  "ALLOWED_GENERATION = [''temperature'', ''topP'', ''topK'', ''maxOutputTokens'', ''stopSequences'',
     ''thinkingConfig'', ''responseMimeType'', ''responseSchema'']"

definition only_supported_fields :: "string \<Rightarrow> wire_format \<Rightarrow> json \<Rightarrow> bool" where
  "only_supported_fields provider wire body =
     (case as_object body of
        None \<Rightarrow> False
      | Some object \<Rightarrow>
          if \<not> list_all (\<lambda>e. fst e \<in> set (allowed_fields wire)) object then False
          else if provider = ''openrouter'' \<and> list_ex (\<lambda>e. fst e \<in> {''provider'', ''models'', ''route''}) object then False
          else if wire = GoogleGenerateContent \<and>
            (case Option.bind (get body ''generationConfig'') as_object of
               Some generation \<Rightarrow> list_ex (\<lambda>e. fst e \<notin> set ALLOWED_GENERATION) generation
             | None \<Rightarrow> False)
          then False
          else True)"

definition supported_tool :: "wire_format \<Rightarrow> json \<Rightarrow> bool" where
  "supported_tool wire tool =
     (case wire of
        AnthropicMessages \<Rightarrow>
          get tool ''type'' = None \<and> Option.bind (get tool ''name'') as_str \<noteq> None \<and>
          (case get tool ''input_schema'' of Some v \<Rightarrow> is_object v | None \<Rightarrow> False)
      | GoogleGenerateContent \<Rightarrow>
          (case as_object tool of
             None \<Rightarrow> False
           | Some object \<Rightarrow> length object = 1 \<and>
               (case map_of object ''functionDeclarations'' of Some v \<Rightarrow> is_array v | None \<Rightarrow> False))
      | _ \<Rightarrow> Option.bind (get tool ''type'') as_str = Some ''function'')"

definition supported_pricing_shape :: "string \<Rightarrow> string \<Rightarrow> wire_format \<Rightarrow> json \<Rightarrow> bool" where
  "supported_pricing_shape provider model wire body =
     (if get body ''priority'' \<noteq> None \<or> get body ''service_tier'' \<noteq> None \<or> get body ''speed'' \<noteq> None \<or>
         contains_key body ''cache_control'' \<or> contains_key body ''prompt_cache_retention'' \<or>
         contains_unbounded_media body
      then False
      else if wire = OpenAiChat \<and> (case get body ''n'' of Some v \<Rightarrow> as_u64 v \<noteq> Some 1 | None \<Rightarrow> False)
      then False
      else if provider = ''openrouter'' \<and>
         (model = ''auto'' \<or> starts_with model ''openrouter/'' \<or> strip_suffix model \<noteq> model \<or>
          (case get body ''transforms'' of
             Some transforms \<Rightarrow> (case as_array transforms of Some items \<Rightarrow> items \<noteq> [] | None \<Rightarrow> True)
           | None \<Rightarrow> False))
      then False
      else if \<not> only_supported_fields provider wire body then False
      else (case Option.bind (get body ''tools'') as_array of
              Some tools \<Rightarrow> list_all (supported_tool wire) tools | None \<Rightarrow> True))"

section \<open>Reservations\<close>

definition checked_u128 :: "nat \<Rightarrow> nat option" where
  "checked_u128 n = (if n \<le> u128_max then Some n else None)"

text \<open>\<open>try_fold\<close> over the two rates: the larger, when both are finite and not negative.\<close>

fun highest_rate :: "f64 list \<Rightarrow> f64 \<Rightarrow> f64 option" where
  "highest_rate [] highest = Some highest"
| "highest_rate (r # rs) highest =
     (if is_finite r \<and> f64_le (Fin 0) r then highest_rate rs (f64_max highest r) else None)"

definition reservation_amount :: "nat \<Rightarrow> nat \<Rightarrow> f64 \<Rightarrow> nat option" where
  "reservation_amount input_tokens output_tokens rate_per_million =
     (let rate = f64_ceil (f64_mul rate_per_million NANOS_PER_USD) in
      if \<not> is_finite rate \<or> f64_lt rate (Fin 0) \<or> f64_lt (f64_of_nat u64_max) rate then None
      else
        Option.bind (checked_u128 (input_tokens + output_tokens)) (\<lambda>tokens.
        Option.bind (checked_u128 (tokens * f64_as_uint u128_max rate)) (\<lambda>numerator.
        Option.bind (checked_u128 (numerator + (PER_MILLION - 1))) (\<lambda>n.
        if n div PER_MILLION \<le> u64_max then Some (n div PER_MILLION) else None))))"

definition conservative_reservation_nanos ::
  "(string \<Rightarrow> string option) \<Rightarrow> catalog \<Rightarrow> prepared_attempt \<Rightarrow> nat option" where
  "conservative_reservation_nanos spec cat attempt =
     (let i = pa_identity attempt; provider = ai_provider_name i; model = ai_pricing_model i; body = pa_native_body attempt in
      if \<not> supported_pricing_shape provider model (ai_wire i) body then None
      else
        Option.bind (lookup_id spec cat (provider @ ''/'' @ model)) (\<lambda>m.
        if \<not> trusted_limit_source m ''context_window_tokens'' then None
        else
          Option.bind (mi_context_window_tokens m) (\<lambda>input_tokens.
          Option.bind
            (case declared_output_bound (ai_wire i) body of
               Some _ \<Rightarrow> Some 0
             | None \<Rightarrow> if trusted_limit_source m ''max_output_tokens'' then mi_max_output_tokens m else None) (\<lambda>catalog_output.
          let output_tokens = output_token_bound (ai_wire i) body catalog_output in
          Option.bind (trusted_applicable_cost m input_tokens) (\<lambda>c.
          Option.bind (cost_input c) (\<lambda>ri.
          Option.bind (cost_output c) (\<lambda>ro.
          Option.bind (highest_rate [ri, ro] (Fin 0)) (\<lambda>rate_per_million.
          reservation_amount input_tokens output_tokens rate_per_million))))))))"

definition quote ::
  "(string \<Rightarrow> string option) \<Rightarrow> catalog \<Rightarrow> budget_policy_snapshot option \<Rightarrow> prepared_attempt
    \<Rightarrow> (budget_plan_error, budget_quote option) result" where
  "quote spec cat policy attempt =
     (case policy of
        None \<Rightarrow> Inr None
      | Some p \<Rightarrow>
          if \<not> valid_budget p then Inl PlanUnpriceable
          else if limit_nanos p = 0 then Inr (Some \<lparr>amount_nanos = 0, bounded = True\<rparr>)
          else
            (case (case conservative_reservation_nanos spec cat attempt of
                     Some n \<Rightarrow> if n \<le> MAX_EXACT_REDIS_NANOS then Some n else None | None \<Rightarrow> None) of
               Some n \<Rightarrow> Inr (Some \<lparr>amount_nanos = n, bounded = True\<rparr>)
             | None \<Rightarrow>
                 if allow_unpriced p then Inr (Some \<lparr>amount_nanos = 0, bounded = False\<rparr>)
                 else Inl PlanUnpriceable))"

section \<open>Rounding of amounts\<close>

lemma highest_rate_pair:
  assumes "highest_rate [ri, ro] (Fin 0) = Some r"
  shows "\<exists>a b. ri = Fin a \<and> ro = Fin b \<and> 0 \<le> a \<and> 0 \<le> b \<and> r = Fin (max a b)"
proof -
  obtain a b where ab: "ri = Fin a" "ro = Fin b" "0 \<le> a" "0 \<le> b"
    using assms by (cases ri; cases ro) (auto split: if_splits)
  with assms show ?thesis by (auto simp: f64_max_def max_def split: if_splits)
qed

lemma u64_max_f64: "f64_le (f64_of_nat u64_max) (Fin (2 ^ 64))"
proof -
  have "round_rat (2 ^ 64) = 2 ^ 64" using round_rat_dyadic [of 1 64] by simp
  then have "round_f64 (2 ^ 64) = Fin (2 ^ 64)"
    by (intro round_f64_exact) (simp_all add: power_strict_increasing)
  moreover have "rat_of_nat u64_max \<le> 2 ^ 64" by (simp add: u64_max_def of_nat_diff)
  ultimately show ?thesis using round_f64_mono [of "of_nat u64_max" "2 ^ 64"] by (simp add: f64_of_nat_def)
qed

lemma round_f64_Fin: "round_f64 x = Fin z \<Longrightarrow> z = round_rat x"
  by (simp add: round_f64_def Let_def split: if_splits)

lemma scaled_below: "f64_mul (Fin x) NANOS_PER_USD = Fin z \<Longrightarrow> 0 \<le> x \<Longrightarrow>
    x * 10 ^ 9 * (1 - 1 / 2 ^ 53) \<le> z + 1 / 2 ^ 1075"
  using round_rat_error [of "x * 10 ^ 9"] round_f64_Fin [of "x * 10 ^ 9" z]
  by (simp add: NANOS_PER_USD_def abs_le_iff algebra_simps)

lemma scaled_above: "f64_mul (Fin x) NANOS_PER_USD = Fin z \<Longrightarrow> 0 \<le> x \<Longrightarrow>
    z \<le> x * 10 ^ 9 * (1 + 1 / 2 ^ 53) + 1 / 2 ^ 1075"
  using round_rat_error [of "x * 10 ^ 9"] round_f64_Fin [of "x * 10 ^ 9" z]
  by (simp add: NANOS_PER_USD_def abs_le_iff algebra_simps)

lemma reservation_covers:
  assumes "reservation_amount i out (Fin r) = Some n" and "0 \<le> r" and "t \<le> i + out"
  shows "of_nat t * r * 1000 * (1 - 1 / 2 ^ 53) \<le> of_nat n + of_nat t / 2 ^ 1075"
proof -
  obtain z where z: "f64_mul (Fin r) NANOS_PER_USD = Fin z"
    using assms(1) by (cases "f64_mul (Fin r) NANOS_PER_USD") (auto simp: reservation_amount_def)
  have bounds: "0 \<le> \<lceil>z\<rceil>" "\<lceil>z\<rceil> \<le> 2 ^ 64"
  proof -
    have "\<not> f64_lt (f64_of_nat u64_max) (Fin (of_int \<lceil>z\<rceil>))" "\<not> of_int \<lceil>z\<rceil> < (0 :: rat)"
      using assms(1) z by (auto simp: reservation_amount_def split: if_splits)
    then have "f64_le (Fin (of_int \<lceil>z\<rceil>)) (f64_of_nat u64_max)" "0 \<le> \<lceil>z\<rceil>"
      using f64_not_le [of "Fin (of_int \<lceil>z\<rceil>)" "f64_of_nat u64_max"] by (auto simp: f64_of_nat_def)
    then have "f64_le (Fin (of_int \<lceil>z\<rceil>)) (Fin (2 ^ 64))" "0 \<le> \<lceil>z\<rceil>"
      using f64_le_trans [OF _ u64_max_f64] by blast+
    then show "0 \<le> \<lceil>z\<rceil>" "\<lceil>z\<rceil> \<le> 2 ^ 64" by (simp_all add: of_int_le_iff [of _ "2 ^ 64", where 'a = rat, simplified])
  qed
  define c where "c = nat \<lceil>z\<rceil>"
  have c: "f64_as_uint u128_max (Fin (of_int \<lceil>z\<rceil>)) = c"
    using bounds by (simp add: c_def u128_max_def nat_le_iff)
  have "n = ((i + out) * c + (PER_MILLION - 1)) div PER_MILLION"
    using assms(1) z c by (auto simp: reservation_amount_def checked_u128_def Let_def bind_eq_Some_conv split: if_splits)
  then have "(i + out) * c \<le> n * 1000000" by (simp add: PER_MILLION_def)
  then have "t * c \<le> n * 1000000" using mult_le_mono1 [OF assms(3), of c] by linarith
  then have "rat_of_nat (t * c) \<le> of_nat (n * 1000000)" by (rule of_nat_le_iff [THEN iffD2])
  moreover have "z \<le> of_nat c" using bounds(1) by (simp add: c_def)
  then have "of_nat t * z \<le> of_nat t * rat_of_nat c" by (rule mult_left_mono) simp
  moreover have "of_nat t * (r * 10 ^ 9 * (1 - 1 / 2 ^ 53)) \<le> of_nat t * (z + 1 / 2 ^ 1075)"
    by (intro mult_left_mono scaled_below [OF z assms(2)]) simp
  ultimately have main: "of_nat t * r * 1000 * (1 - 1 / 2 ^ 53) * 10 ^ 6 \<le> of_nat n * 10 ^ 6 + of_nat t * (1 / 2 ^ 1075)"
    by (simp add: algebra_simps)
  have "of_nat t * (1 / 2 ^ 1075) \<le> of_nat t / 2 ^ 1075 * (10 ^ 6 :: rat)" by simp
  with main have "of_nat t * r * 1000 * (1 - 1 / 2 ^ 53) * 10 ^ 6 \<le> (of_nat n + of_nat t / 2 ^ 1075) * 10 ^ 6"
    by (simp add: distrib_right)
  then show ?thesis by (rule mult_right_le_imp_le) simp
qed

lemma output_bound_declared:
  "declared_output_bound wire body \<noteq> None \<Longrightarrow> output_token_bound wire body d = output_token_bound wire body d'"
  by (auto simp: output_token_bound_def)

lemma trusted_applicable_cost_Some:
  "trusted_applicable_cost m t = Some c \<Longrightarrow> cost_for_input_tokens m t = Some c"
  by (simp add: trusted_applicable_cost_def Let_def split: option.splits prod.splits if_splits)

text \<open>The output tokens a reservation covers: what the body declares, or else the catalog's limit.\<close>

definition covered_output :: "model_info \<Rightarrow> wire_format \<Rightarrow> json \<Rightarrow> nat" where
  "covered_output m wire body =
     output_token_bound wire body (case mi_max_output_tokens m of Some n \<Rightarrow> n | None \<Rightarrow> 0)"

text \<open>C15. A reservation is conservative. Whatever mix of tokens an attempt uses within the model's context
  window and its output bound, priced at no more than the higher of the input and output rates that
  apply at a full window, the cost is covered by the amount reserved, up to the one rounding of the
  rate to nano-dollars.\<close>

theorem reservation_conservative:
  assumes "conservative_reservation_nanos spec cat a = Some n"
  shows "\<exists>m window c ri ro.
    lookup_id spec cat (ai_provider_name (pa_identity a) @ ''/'' @ ai_pricing_model (pa_identity a)) = Some m \<and>
    mi_context_window_tokens m = Some window \<and> cost_for_input_tokens m window = Some c \<and>
    cost_input c = Some (Fin ri) \<and> cost_output c = Some (Fin ro) \<and> 0 \<le> ri \<and> 0 \<le> ro \<and>
    (\<forall>t \<le> window + covered_output m (ai_wire (pa_identity a)) (pa_native_body a).
       of_nat t * max ri ro * 1000 * (1 - 1 / 2 ^ 53) \<le> of_nat n + of_nat t / 2 ^ 1075)"
proof -
  let ?w = "ai_wire (pa_identity a)" let ?b = "pa_native_body a"
  obtain m window d c ri ro r where
    m: "lookup_id spec cat (ai_provider_name (pa_identity a) @ ''/'' @ ai_pricing_model (pa_identity a)) = Some m"
      "mi_context_window_tokens m = Some window"
    and d: "(case declared_output_bound ?w ?b of Some _ \<Rightarrow> Some 0
       | None \<Rightarrow> if trusted_limit_source m ''max_output_tokens'' then mi_max_output_tokens m else None) = Some d"
    and c: "trusted_applicable_cost m window = Some c" "cost_input c = Some ri" "cost_output c = Some ro"
      "highest_rate [ri, ro] (Fin 0) = Some r"
    and n: "reservation_amount window (output_token_bound ?w ?b d) r = Some n"
    using assms unfolding conservative_reservation_nanos_def Let_def bind_eq_Some_conv
    by (auto simp: bind_eq_Some_conv simp del: highest_rate.simps split: if_splits)
  obtain x y where xy: "ri = Fin x" "ro = Fin y" "0 \<le> x" "0 \<le> y" "r = Fin (max x y)"
    using highest_rate_pair [OF c(4)] by blast
  have out: "output_token_bound ?w ?b d = covered_output m ?w ?b"
    using d output_bound_declared [of ?w ?b d] by (auto simp: covered_output_def split: option.splits if_splits)
  have "of_nat t * max x y * 1000 * (1 - 1 / 2 ^ 53) \<le> of_nat n + of_nat t / 2 ^ 1075"
    if "t \<le> window + covered_output m ?w ?b" for t
    using reservation_covers [of window "covered_output m ?w ?b" "max x y" n t] n that xy(3-5) out by simp
  with m trusted_applicable_cost_Some [OF c(1)] c(2,3) xy(1-4) show ?thesis by blast
qed

lemma max_exact_f64: "f64_of_nat MAX_EXACT_REDIS_NANOS = Fin (2 ^ 53)"
  using f64_of_nat_exact [of "2 ^ 53"] by (simp add: MAX_EXACT_REDIS_NANOS_def)

lemma round_tie: "round_rat (2 ^ 53 + 1) = 2 ^ 53"
proof -
  let ?x = "2 ^ 53 + 1 :: rat"
  have "\<not> ulp_exp ?x \<le> 0"
  proof
    assume "ulp_exp ?x \<le> 0"
    then have "(2 :: rat) powi (ulp_exp ?x + 53) \<le> 2 powi 53" by (intro power_int_increasing) simp_all
    then show False using ulp_exp_upper [of ?x] by simp
  qed
  moreover have "\<not> 2 \<le> ulp_exp ?x"
  proof
    assume u: "2 \<le> ulp_exp ?x"
    then have "(2 :: rat) powi 54 \<le> 2 powi (ulp_exp ?x + 52)" by (intro power_int_increasing) simp_all
    then show False using ulp_exp_lower [of ?x] u by auto
  qed
  ultimately have u: "ulp_exp ?x = 1" by simp
  have "\<lfloor>?x / 2\<rfloor> = 2 ^ 52" by (simp add: floor_eq_iff)
  then have "round_half_even (?x / 2) = 2 ^ 52" by (simp add: round_half_even_def Let_def)
  then have "round_pos ?x = of_int (2 ^ 52) * 2" using u by (simp add: round_pos_def Let_def)
  then show ?thesis by (simp add: round_rat_def)
qed

lemma limit_rounded:
  assumes "from_identity i = Some p"
  shows "limit_nanos p \<le> 2 ^ 53 \<and> (valid_budget p \<longrightarrow> (\<exists>usd \<ge> 0. budget_usd i = Some (Fin usd) \<and>
    of_nat (limit_nanos p) \<le> usd * 10 ^ 9 * (1 + 1 / 2 ^ 53) + 1 / 2 ^ 1075))"
proof (cases "valid_budget p")
  case True
  then obtain usd z where usd: "budget_usd i = Some (Fin usd)" "0 \<le> usd" "f64_mul (Fin usd) NANOS_PER_USD = Fin z"
      "z \<le> 2 ^ 53" and lim: "limit_nanos p = min u64_max (nat \<lfloor>z\<rfloor>)"
    using assms
    by (auto simp: from_identity_def bind_eq_Some_conv Let_def max_exact_f64 elim!: is_finite.elims)
  have "0 \<le> z" using usd(2,3) round_f64_nonneg [of "usd * 10 ^ 9"] by (simp add: NANOS_PER_USD_def)
  then have z: "of_nat (nat \<lfloor>z\<rfloor>) \<le> z" by simp
  have "nat \<lfloor>z\<rfloor> \<le> nat \<lfloor>2 ^ 53 :: rat\<rfloor>" by (intro nat_mono floor_mono usd(4))
  then have "nat \<lfloor>z\<rfloor> \<le> 2 ^ 53" by simp
  then have "limit_nanos p \<le> 2 ^ 53" using lim min.cobounded2 [of u64_max "nat \<lfloor>z\<rfloor>"] by linarith
  moreover have "of_nat (limit_nanos p) \<le> z" using lim z by (simp add: min_le_iff_disj)
  ultimately show ?thesis using usd(1,2) scaled_above [OF usd(3,2)] by force
next
  case False
  with assms show ?thesis by (auto simp: from_identity_def bind_eq_Some_conv Let_def)
qed

lemma charge_rounded:
  assumes "observed_cost_nanos usage = Some n"
  shows "\<exists>usd \<ge> 0. stamped usage = Some (Fin usd) \<and> n \<le> 2 ^ 53 \<and>
    (n = 2 ^ 53 \<or> usd * 10 ^ 9 * (1 - 1 / 2 ^ 53) \<le> of_nat n + 1 / 2 ^ 1075)"
proof -
  obtain usd where usd: "stamped usage = Some (Fin usd)" "0 \<le> usd"
    using assms by (auto simp: observed_cost_nanos_def bind_eq_Some_conv split: if_splits elim!: is_finite.elims)
  let ?cap = "f64_div (f64_of_nat MAX_EXACT_REDIS_NANOS) NANOS_PER_USD"
  have cap: "?cap = round_f64 (2 ^ 53 / 10 ^ 9)" by (simp add: max_exact_f64 NANOS_PER_USD_def)
  show ?thesis
  proof (cases "f64_le ?cap (Fin usd)")
    case True
    with assms usd show ?thesis by (auto simp: observed_cost_nanos_def MAX_EXACT_REDIS_NANOS_def)
  next
    case False
    then have "f64_lt (Fin usd) ?cap" using f64_not_le [of ?cap "Fin usd"] by (simp add: cap)
    moreover have "round_rat (2 ^ 53 / 10 ^ 9) \<le> (2 ^ 53 + 1) / 10 ^ 9"
      using round_rat_relative [of "2 ^ 53 / 10 ^ 9"] by simp
    ultimately have "usd * 10 ^ 9 \<le> 2 ^ 53 + 1"
      by (simp add: cap round_f64_def Let_def split: if_splits)
    moreover have tie: "round_f64 (2 ^ 53 + 1) = Fin (2 ^ 53)"
      using round_tie pow_53_less unfolding round_f64_def Let_def by simp
    ultimately have small: "f64_le (round_f64 (usd * 10 ^ 9)) (Fin (2 ^ 53))"
      using round_f64_mono [of "usd * 10 ^ 9" "2 ^ 53 + 1"] tie by simp
    moreover have "f64_le (Fin 0) (round_f64 (usd * 10 ^ 9))" using usd(2) by (intro round_f64_nonneg) simp
    ultimately obtain z where z: "f64_mul (Fin usd) NANOS_PER_USD = Fin z" "0 \<le> z" "z \<le> 2 ^ 53"
      by (cases "round_f64 (usd * 10 ^ 9)") (auto simp: NANOS_PER_USD_def)
    have "nat \<lceil>z\<rceil> \<le> nat \<lceil>2 ^ 53 :: rat\<rceil>" by (intro nat_mono ceiling_mono z(3))
    then have nz: "nat \<lceil>z\<rceil> \<le> 2 ^ 53" by simp
    then have "nat \<lceil>z\<rceil> \<le> u64_max" by (simp add: u64_max_def)
    then have n: "n = nat \<lceil>z\<rceil>" using assms usd False z by (auto simp: observed_cost_nanos_def min_def)
    have "z \<le> of_nat n" using z(2) by (simp add: n)
    with scaled_below [OF z(1) usd(2)] have "usd * 10 ^ 9 * (1 - 1 / 2 ^ 53) \<le> of_nat n + 1 / 2 ^ 1075" by linarith
    with usd n nz show ?thesis by blast
  qed
qed

text \<open>Every amount the ledger sees is an integer of at most \<open>2 ^ 53\<close> nano-dollars, so it is exact as a
  double. The limit is the budget rounded down and a charge is the stamped cost rounded up, each up to
  one floating-point rounding, a charge beyond the range saturating.\<close>

lemma budget_amounts_rounded:
  assumes "from_identity i = Some p" and "observed_cost_nanos usage = Some n"
    and "quote spec cat (Some p) a = Inr (Some q)"
  shows "(\<exists>budget \<ge> 0. budget_usd i = Some (Fin budget) \<and>
      of_nat (limit_nanos p) \<le> budget * 10 ^ 9 * (1 + 1 / 2 ^ 53) + 1 / 2 ^ 1075) \<and>
    (\<exists>usd \<ge> 0. stamped usage = Some (Fin usd) \<and>
      (n = 2 ^ 53 \<or> usd * 10 ^ 9 * (1 - 1 / 2 ^ 53) \<le> of_nat n + 1 / 2 ^ 1075)) \<and>
    (\<forall>x \<in> {limit_nanos p, n, amount_nanos q}. x \<le> 2 ^ 53 \<and> f64_of_nat x = Fin (of_nat x))"
proof -
  have "valid_budget p" "amount_nanos q \<le> 2 ^ 53"
    using assms(3) by (auto simp: quote_def MAX_EXACT_REDIS_NANOS_def split: if_splits option.splits)
  with limit_rounded [OF assms(1)] charge_rounded [OF assms(2)] f64_of_nat_exact show ?thesis by auto
qed

section \<open>Nothing unpriceable inside\<close>

inductive inside :: "json \<Rightarrow> json \<Rightarrow> bool" where
  itself: "inside v v"
| element: "v \<in> set vs \<Longrightarrow> inside v w \<Longrightarrow> inside (JArray vs) w"
| member: "(k, v) \<in> set kvs \<Longrightarrow> inside v w \<Longrightarrow> inside (JObject kvs) w"

lemma contains_key_inside:
  "inside body w \<Longrightarrow> w = JObject kvs \<Longrightarrow> (k, v) \<in> set kvs \<Longrightarrow> contains_key body k"
  by (induction rule: inside.induct) (force simp: list_ex_iff)+

lemma contains_media_inside:
  "inside body w \<Longrightarrow> w = JObject kvs \<Longrightarrow> (k, v) \<in> set kvs \<Longrightarrow> media_member k v \<Longrightarrow> contains_unbounded_media body"
  by (induction rule: inside.induct) (force simp: list_ex_iff)+

text \<open>A body with a supported shape is an object whose fields are all on its wire's list, and no object at any
  depth inside it sets a cache directive or carries media, so nothing in it escapes the token prices.\<close>

lemma supported_shape_deep:
  assumes "supported_pricing_shape provider model wire body" and "inside body (JObject kvs)" and "(k, v) \<in> set kvs"
  shows "k \<noteq> ''cache_control'' \<and> k \<noteq> ''prompt_cache_retention'' \<and> \<not> media_member k v \<and>
    (\<exists>fields. body = JObject fields \<and> fst ` set fields \<subseteq> set (allowed_fields wire))"
proof -
  have "\<not> contains_key body ''cache_control''" "\<not> contains_key body ''prompt_cache_retention''"
    "\<not> contains_unbounded_media body" "only_supported_fields provider wire body"
    using assms(1) by (auto simp: supported_pricing_shape_def split: if_splits)
  moreover from this(4) have "\<exists>fields. body = JObject fields \<and> fst ` set fields \<subseteq> set (allowed_fields wire)"
    by (cases body) (auto simp: only_supported_fields_def list_all_iff split: if_splits)
  ultimately show ?thesis
    using contains_key_inside [OF assms(2) refl assms(3)] contains_media_inside [OF assms(2) refl assms(3)] by blast
qed

section \<open>Witnesses\<close>

definition demo_model :: model_info where
  "demo_model = (new_model ''p'' ''m'')\<lparr>mi_context_window_tokens := Some 1000,
     mi_cost := Some (default_cost\<lparr>cost_input := Some (Fin 3), cost_output := Some (Fin 4)\<rparr>),
     mi_field_sources := [(''context_window_tokens'', Local), (''cost.input'', Local), (''cost.output'', Local)]\<rparr>"

definition demo_catalog :: catalog where
  "demo_catalog = empty_catalog\<lparr>cat_models := [(''p/m'', demo_model)]\<rparr>"

definition demo_attempt :: prepared_attempt where
  "demo_attempt = \<lparr>pa_identity = \<lparr>ai_id = 1, ai_kind = CompletionAttempt, ai_provider_name = ''p'', ai_resolved_model = ''m'',
       ai_native_model = ''m'', ai_pricing_model = ''m'', ai_wire = AnthropicMessages, ai_account_fingerprint = None,
       ai_endpoint = []\<rparr>,
     pa_method = ''POST'', pa_native_body = JObject [(''max_tokens'', JNumber (PosInt 500))]\<rparr>"

lemma demo_reservation: "conservative_reservation_nanos (\<lambda>_. None) demo_catalog demo_attempt = Some 6000000"
proof -
  have "f64_mul (Fin 4) NANOS_PER_USD = Fin 4000000000"
    using f64_of_nat_exact [of 4000000000] by (simp add: NANOS_PER_USD_def f64_of_nat_def)
  moreover have "\<not> f64_lt (f64_of_nat u64_max) (Fin 4000000000)"
    using f64_of_nat_mono [of 4000000000 u64_max] f64_of_nat_exact [of 4000000000]
    by (cases "f64_of_nat u64_max") (auto simp: u64_max_def)
  ultimately have amount: "reservation_amount 1000 500 (Fin 4) = Some 6000000"
    by (simp add: reservation_amount_def checked_u128_def u128_max_def u64_max_def PER_MILLION_def Let_def)
  have "lookup_id (\<lambda>_. None) demo_catalog ''p/m'' = Some demo_model"
    by (simp add: lookup_id_def resolve_def follow_aliases.simps [of "[]"] demo_catalog_def empty_catalog_def)
  with amount show ?thesis
    by (simp add: conservative_reservation_nanos_def demo_attempt_def demo_model_def new_model_def supported_pricing_shape_def
        get_def only_supported_fields_def allowed_fields_def trusted_limit_source_def declared_output_bound_def
        get_u64_def output_token_bound_def reasoning_output_bound_def path_u64_def trusted_applicable_cost_def
        trusted_price_source_def cost_for_input_tokens_def default_cost_def f64_max_def media_member_def MEDIA_KEYS_def Let_def)
qed

theorem reservation_conservative_witness:
  "\<exists>ri ro. of_nat 1500 * max ri ro * 1000 * (1 - 1 / 2 ^ 53) \<le> rat_of_nat 6000000 + of_nat 1500 / 2 ^ 1075 \<and> 0 \<le> ri \<and>
     conservative_reservation_nanos (\<lambda>_. None) demo_catalog demo_attempt = Some 6000000"
proof -
  have "lookup_id (\<lambda>_. None) demo_catalog ''p/m'' = Some demo_model"
    by (simp add: lookup_id_def resolve_def follow_aliases.simps [of "[]"] demo_catalog_def empty_catalog_def)
  moreover have "covered_output demo_model AnthropicMessages (pa_native_body demo_attempt) = 500"
    by (simp add: covered_output_def output_token_bound_def declared_output_bound_def reasoning_output_bound_def
        demo_attempt_def get_u64_def path_u64_def get_def)
  moreover have "mi_context_window_tokens demo_model = Some 1000" by (simp add: demo_model_def)
  ultimately show ?thesis
    using reservation_conservative [OF demo_reservation] demo_reservation by (fastforce simp: demo_attempt_def)
qed

lemma demo_snapshot: "from_identity (demo_identity ''a'' 60) =
    Some \<lparr>limit_nanos = 5000000000, window_secs = 60, allow_unpriced = False, valid_budget = True\<rparr>"
proof -
  have "f64_mul (Fin 5) NANOS_PER_USD = Fin 5000000000"
    using f64_of_nat_exact [of 5000000000] by (simp add: NANOS_PER_USD_def f64_of_nat_def)
  then show ?thesis by (simp add: from_identity_def demo_identity_def max_exact_f64 u64_max_def)
qed

end
