(* ===== verification/Ledger.thy ===== *)
theory Ledger
  imports Budget "HOL-Library.Product_Lexorder"
begin

text \<open>
  The gateway's accounting of attempts (\<open>LocalAttemptRates\<close> in \<open>src/gateway/attempt.rs\<close>, its budget
  half): reservations per tenant and window, their growth with observed usage, their settlement and
  the purge of expired ones. Identifiers of attempts are naturals. The binary heap of expirations is
  the sorted list of its entries. A panic is \<open>None\<close>; the clock is an argument.
\<close>

section \<open>State\<close>

definition LATE_SETTLEMENT_RETENTION_SECS :: nat where "LATE_SETTLEMENT_RETENTION_SECS = 86400"
definition ACCOUNTING_EXPIRY_CLEANUP_BATCH :: nat where "ACCOUNTING_EXPIRY_CLEANUP_BATCH = 128"

datatype rate_refusal = RateProvider duration | RateTenant duration | RateBudget duration | RateUnavailable

record budget_window_key =
  wk_tenant_key :: string
  wk_window_secs :: nat
  wk_window_index :: nat

record attempt_liability =
  window_key :: budget_window_key
  pricing_bounded :: bool
  liability_nanos :: nat
  observed_nanos :: "nat option"
  max_provider_nanos :: "nat option"
  terminal_catalog_nanos :: "nat option"
  terminal_provider_nanos :: "nat option"
  finalized :: bool
  expires_at_epoch_secs :: nat

record accounts =
  budget_totals :: "(budget_window_key, nat) hash_map"
  budget_frozen :: "budget_window_key set"
  budget_attempts :: "(nat, attempt_liability) hash_map"
  budget_expirations :: "(nat \<times> nat) list"
  budget_window_references :: "(budget_window_key, nat) hash_map"

definition no_accounts :: accounts where
  "no_accounts = \<lparr>budget_totals = [], budget_frozen = {}, budget_attempts = [], budget_expirations = [],
     budget_window_references = []\<rparr>"

definition checked_add_u64 :: "nat \<Rightarrow> nat \<Rightarrow> nat option" where
  "checked_add_u64 a b = (if a + b \<le> u64_max then Some (a + b) else None)"

section \<open>Purge\<close>

definition forget_window :: "budget_window_key \<Rightarrow> accounts \<Rightarrow> accounts" where
  "forget_window k st =
     st\<lparr>budget_window_references := AList.delete k (budget_window_references st),
        budget_totals := AList.delete k (budget_totals st), budget_frozen := budget_frozen st - {k}\<rparr>"

definition purge_entry :: "nat \<Rightarrow> nat \<Rightarrow> accounts \<Rightarrow> accounts" where
  "purge_entry expires_at aid st =
     (case map_of (budget_attempts st) aid of
        None \<Rightarrow> st
      | Some a \<Rightarrow>
          if expires_at_epoch_secs a \<noteq> expires_at then st
          else
            let st = st\<lparr>budget_attempts := AList.delete aid (budget_attempts st)\<rparr>; k = window_key a in
            (case map_of (budget_window_references st) k of
               Some references \<Rightarrow>
                 if references > 1
                 then st\<lparr>budget_window_references := AList.update k (references - 1) (budget_window_references st)\<rparr>
                 else forget_window k st
             | None \<Rightarrow> forget_window k st))"

fun purge_loop :: "nat \<Rightarrow> nat \<Rightarrow> accounts \<Rightarrow> accounts" where
  "purge_loop 0 now st = st"
| "purge_loop (Suc n) now st =
     (case budget_expirations st of
        [] \<Rightarrow> st
      | (expires_at, aid) # rest \<Rightarrow>
          if expires_at \<le> now then purge_loop n now (purge_entry expires_at aid (st\<lparr>budget_expirations := rest\<rparr>)) else st)"

definition purge_expired_budget_state :: "nat \<Rightarrow> accounts \<Rightarrow> accounts" where
  "purge_expired_budget_state now st = purge_loop ACCOUNTING_EXPIRY_CLEANUP_BATCH now st"

section \<open>Reservation\<close>

definition budget_wait :: "nat \<Rightarrow> nat \<Rightarrow> duration" where
  "budget_wait secs now = from_secs (secs - now mod secs)"

text \<open>The budget's part of \<open>acquire_at_epoch\<close> before the debits: what to commit, if anything. The
  division panics on an empty window.\<close>

definition plan_budget ::
  "nat \<Rightarrow> string \<Rightarrow> budget_policy_snapshot option \<Rightarrow> budget_quote option \<Rightarrow> nat \<Rightarrow> accounts
    \<Rightarrow> (rate_refusal, (budget_window_key \<times> budget_quote \<times> nat) option) result option" where
  "plan_budget retention_secs tkey policy q now st =
     (case (policy, q) of
        (None, None) \<Rightarrow> Some (Inr None)
      | (Some p, Some q) \<Rightarrow>
          if window_secs p = 0 then None
          else
            let idx = now div window_secs p;
                k = \<lparr>wk_tenant_key = tkey, wk_window_secs = window_secs p, wk_window_index = idx\<rparr>;
                current = (case map_of (budget_totals st) k of Some n \<Rightarrow> n | None \<Rightarrow> 0);
                admitted = (k \<notin> budget_frozen st \<and> limit_nanos p \<noteq> 0 \<and>
                  (if bounded q
                   then (case checked_add_u64 current (amount_nanos q) of Some n \<Rightarrow> n \<le> limit_nanos p | None \<Rightarrow> False)
                   else current < limit_nanos p))
            in if \<not> admitted then Some (Inl (RateBudget (budget_wait (window_secs p) now)))
               else
                 let q = (if bounded q then q else q\<lparr>amount_nanos := limit_nanos p - current\<rparr>);
                     next_window = saturating_mul_u64 (saturating_add_u64 idx 1) (window_secs p)
                 in Some (Inr (Some (k, q, saturating_add_u64 next_window retention_secs)))
      | _ \<Rightarrow> Some (Inl RateUnavailable))"

definition new_liability :: "budget_window_key \<Rightarrow> budget_quote \<Rightarrow> nat \<Rightarrow> attempt_liability" where
  "new_liability k q expires =
     \<lparr>window_key = k, pricing_bounded = bounded q, liability_nanos = amount_nanos q, observed_nanos = None,
      max_provider_nanos = None, terminal_catalog_nanos = None, terminal_provider_nanos = None, finalized = False,
      expires_at_epoch_secs = expires\<rparr>"

definition commit_budget ::
  "(budget_window_key \<times> budget_quote \<times> nat) option \<Rightarrow> nat \<Rightarrow> accounts \<Rightarrow> (rate_refusal, unit) result \<times> accounts" where
  "commit_budget commit aid st =
     (case commit of
        None \<Rightarrow> (Inr (), st)
      | Some (k, q, expires) \<Rightarrow>
          let old = (case map_of (budget_totals st) k of Some n \<Rightarrow> n | None \<Rightarrow> 0) in
          (case checked_add_u64 old (amount_nanos q) of
             None \<Rightarrow> (Inl RateUnavailable, st\<lparr>budget_totals := AList.update k old (budget_totals st)\<rparr>)
           | Some n \<Rightarrow>
               (Inr (),
                \<lparr>budget_totals = AList.update k n (budget_totals st), budget_frozen = budget_frozen st,
                 budget_attempts = AList.update aid (new_liability k q expires) (budget_attempts st),
                 budget_expirations = insort (expires, aid) (budget_expirations st),
                 budget_window_references = AList.update k
                   ((case map_of (budget_window_references st) k of Some r \<Rightarrow> r | None \<Rightarrow> 0) + 1)
                   (budget_window_references st)\<rparr>)))"

section \<open>Usage and settlement\<close>

definition option_raise :: "nat option \<Rightarrow> nat \<Rightarrow> nat option" where
  "option_raise old n = Some (case old of None \<Rightarrow> n | Some m \<Rightarrow> max m n)"

text \<open>The total of a window after adding \<open>delta\<close>: saturated and frozen beyond the exact range. \<open>None\<close>
  is the missing total the code answers with an error.\<close>

definition raise_total :: "budget_window_key \<Rightarrow> nat \<Rightarrow> accounts \<Rightarrow> accounts option" where
  "raise_total k delta st =
     (case map_of (budget_totals st) k of
        None \<Rightarrow> None
      | Some t \<Rightarrow>
          Some (case checked_add_u64 t delta of
             Some n \<Rightarrow>
               if n \<le> MAX_EXACT_REDIS_NANOS then st\<lparr>budget_totals := AList.update k n (budget_totals st)\<rparr>
               else st\<lparr>budget_totals := AList.update k MAX_EXACT_REDIS_NANOS (budget_totals st),
                       budget_frozen := insert k (budget_frozen st)\<rparr>
           | None \<Rightarrow> st\<lparr>budget_totals := AList.update k MAX_EXACT_REDIS_NANOS (budget_totals st),
                       budget_frozen := insert k (budget_frozen st)\<rparr>))"

text \<open>What an observation notes on an attempt that is not finalized.\<close>

definition note_amounts :: "spend_observation \<Rightarrow> attempt_liability \<Rightarrow> attempt_liability" where
  "note_amounts obs a =
     (let terminal = (so_terminal_authoritative obs \<and> (pricing_bounded a \<or> so_authority obs \<noteq> CatalogPrice)) in
      case so_amount_nanos obs of
        None \<Rightarrow> a
      | Some n \<Rightarrow>
          let a = (if \<not> terminal then a
                   else (case so_authority obs of
                           ProviderBill \<Rightarrow> a\<lparr>terminal_provider_nanos := Some n\<rparr>
                         | CatalogPrice \<Rightarrow> a\<lparr>terminal_catalog_nanos := option_raise (terminal_catalog_nanos a) n\<rparr>));
              a = (if so_authority obs = ProviderBill then a\<lparr>max_provider_nanos := option_raise (max_provider_nanos a) n\<rparr> else a)
          in if n > (case observed_nanos a of Some m \<Rightarrow> m | None \<Rightarrow> 0)
             then a\<lparr>observed_nanos := Some n, liability_nanos := max (liability_nanos a) n\<rparr>
             else a)"

definition observe_usage :: "bool \<Rightarrow> nat \<Rightarrow> spend_observation \<Rightarrow> accounts \<Rightarrow> (unit, unit) result \<times> accounts" where
  "observe_usage budgeted aid obs st =
     (if \<not> budgeted then (Inr (), st)
      else (case map_of (budget_attempts st) aid of
              None \<Rightarrow> (Inl (), st)
            | Some a \<Rightarrow>
                if finalized a then (Inr (), st)
                else
                  let a' = note_amounts obs a; st' = st\<lparr>budget_attempts := AList.update aid a' (budget_attempts st)\<rparr> in
                  if liability_nanos a < liability_nanos a'
                  then (case raise_total (window_key a) (liability_nanos a' - liability_nanos a) st' of
                          None \<Rightarrow> (Inl (), st') | Some st'' \<Rightarrow> (Inr (), st''))
                  else (Inr (), st')))"

definition final_nanos :: "attempt_liability \<Rightarrow> nat option" where
  "final_nanos a =
     (case terminal_provider_nanos a of
        Some n \<Rightarrow> Some n
      | None \<Rightarrow> map_option (\<lambda>c. max c (case max_provider_nanos a of Some m \<Rightarrow> m | None \<Rightarrow> 0)) (terminal_catalog_nanos a))"

definition finish_attempt :: "bool \<Rightarrow> nat \<Rightarrow> attempt_outcome \<Rightarrow> accounts \<Rightarrow> (unit, unit) result \<times> accounts" where
  "finish_attempt budgeted aid outcome st =
     (if \<not> budgeted then (Inr (), st)
      else (case map_of (budget_attempts st) aid of
              None \<Rightarrow> (Inl (), st)
            | Some a \<Rightarrow>
                if finalized a \<or> \<not> may_finalize outcome then (Inr (), st)
                else (case final_nanos a of
                        None \<Rightarrow> (Inr (), st)
                      | Some final \<Rightarrow>
                          let k = window_key a; prev = liability_nanos a;
                              st' = st\<lparr>budget_attempts := AList.update aid
                                (a\<lparr>liability_nanos := final, finalized := True\<rparr>) (budget_attempts st)\<rparr>
                          in if k \<in> budget_frozen st' then (Inr (), st')
                             else if final \<le> prev
                             then (case map_of (budget_totals st') k of
                                     None \<Rightarrow> (Inl (), st')
                                   | Some t \<Rightarrow>
                                       if prev - final \<le> t
                                       then (Inr (), st'\<lparr>budget_totals := AList.update k (t - (prev - final)) (budget_totals st')\<rparr>)
                                       else (Inl (), st'))
                             else (case raise_total k (final - prev) st' of
                                     None \<Rightarrow> (Inl (), st') | Some st'' \<Rightarrow> (Inr (), st'')))))"

section \<open>The invariant\<close>

text \<open>What the retained attempts of a window owe, and how many they are.\<close>

definition owed :: "budget_window_key \<Rightarrow> (nat, attempt_liability) hash_map \<Rightarrow> nat" where
  "owed k m = msum (\<lambda>a. if window_key a = k then liability_nanos a else 0) m"

definition members :: "budget_window_key \<Rightarrow> (nat, attempt_liability) hash_map \<Rightarrow> nat" where
  "members k m = msum (\<lambda>a. if window_key a = k then 1 else 0) m"

definition refs_ok :: "(nat, attempt_liability) hash_map \<Rightarrow> (budget_window_key, nat) hash_map \<Rightarrow> bool" where
  "refs_ok m refs \<longleftrightarrow> (\<forall>k. map_of refs k = (if members k m = 0 then None else Some (members k m)))"

definition totals_ok ::
  "(nat, attempt_liability) hash_map \<Rightarrow> (budget_window_key, nat) hash_map \<Rightarrow> budget_window_key set \<Rightarrow> bool" where
  "totals_ok m totals frozen \<longleftrightarrow>
     (\<forall>k. case map_of totals k of
        None \<Rightarrow> members k m = 0 \<and> k \<notin> frozen
      | Some t \<Rightarrow> members k m \<noteq> 0 \<and> t \<le> MAX_EXACT_REDIS_NANOS \<and> (if k \<in> frozen then t = MAX_EXACT_REDIS_NANOS else owed k m \<le> t))"

definition expirations_ok :: "(nat, attempt_liability) hash_map \<Rightarrow> (nat \<times> nat) list \<Rightarrow> bool" where
  "expirations_ok m es \<longleftrightarrow> distinct (map snd es) \<and>
     (\<forall>e aid. (e, aid) \<in> set es \<longleftrightarrow> (\<exists>a. map_of m aid = Some a \<and> expires_at_epoch_secs a = e))"

definition accounts_ok :: "accounts \<Rightarrow> bool" where
  "accounts_ok st \<longleftrightarrow> hm_wf (budget_attempts st) \<and> refs_ok (budget_attempts st) (budget_window_references st) \<and>
     totals_ok (budget_attempts st) (budget_totals st) (budget_frozen st) \<and>
     expirations_ok (budget_attempts st) (budget_expirations st)"

lemma accounts_ok_empty: "accounts_ok no_accounts"
  by (simp add: accounts_ok_def no_accounts_def refs_ok_def totals_ok_def expirations_ok_def members_def)

lemmas owed_members_simps = owed_def members_def msum_insert

lemma members_insert: "map_of m aid = None \<Longrightarrow>
    members k (AList.update aid a m) = members k m + (if window_key a = k then 1 else 0)"
  by (simp add: members_def msum_insert)

lemma owed_insert: "map_of m aid = None \<Longrightarrow>
    owed k (AList.update aid a m) = owed k m + (if window_key a = k then liability_nanos a else 0)"
  by (simp add: owed_def msum_insert)

lemma members_delete: "hm_wf m \<Longrightarrow> map_of m aid = Some a \<Longrightarrow>
    members k m = (if window_key a = k then 1 else 0) + members k (AList.delete aid m)"
  unfolding members_def using msum_delete [of m aid a "\<lambda>a. if window_key a = k then 1 else 0"] by simp

lemma owed_delete: "hm_wf m \<Longrightarrow> map_of m aid = Some a \<Longrightarrow>
    owed k m = (if window_key a = k then liability_nanos a else 0) + owed k (AList.delete aid m)"
  unfolding owed_def using msum_delete [of m aid a "\<lambda>a. if window_key a = k then liability_nanos a else 0"] by simp

lemma members_update: "hm_wf m \<Longrightarrow> map_of m aid = Some a \<Longrightarrow> window_key a' = window_key a \<Longrightarrow>
    members k (AList.update aid a' m) = members k m"
  unfolding members_def using msum_update [of m aid a "\<lambda>a. if window_key a = k then 1 else 0" a'] by simp

lemma owed_update: "hm_wf m \<Longrightarrow> map_of m aid = Some a \<Longrightarrow> window_key a' = window_key a \<Longrightarrow>
    owed k (AList.update aid a' m) + (if window_key a = k then liability_nanos a else 0) =
      owed k m + (if window_key a = k then liability_nanos a' else 0)"
  unfolding owed_def using msum_update [of m aid a "\<lambda>a. if window_key a = k then liability_nanos a else 0" a'] by simp

lemma members_positive: "map_of m aid = Some a \<Longrightarrow> 0 < members (window_key a) m"
  unfolding members_def using msum_ge [of m aid a "\<lambda>b. if window_key b = window_key a then 1 else 0"] by simp

section \<open>Purging keeps it\<close>

lemma purge_entry_ok:
  assumes "accounts_ok st" and "budget_expirations st = (e, aid) # rest"
  shows "accounts_ok (purge_entry e aid (st\<lparr>budget_expirations := rest\<rparr>))"
proof -
  let ?m = "budget_attempts st" let ?m' = "AList.delete aid ?m"
  have wf: "hm_wf ?m" and refs: "refs_ok ?m (budget_window_references st)"
    and tot: "totals_ok ?m (budget_totals st) (budget_frozen st)"
    and ex: "expirations_ok ?m ((e, aid) # rest)"
    using assms by (auto simp: accounts_ok_def)
  obtain a where a: "map_of ?m aid = Some a" "expires_at_epoch_secs a = e"
    using ex unfolding expirations_ok_def by (metis list.set_intros(1))
  let ?k = "window_key a"
  note mem = members_delete [OF wf a(1)] and owe = owed_delete [OF wf a(1)]
  have ex': "expirations_ok ?m' rest"
    using ex a by (auto simp: expirations_ok_def map_of_delete) (force)
  have wf': "hm_wf ?m'" using wf by (rule hm_wf_delete)
  have ref: "map_of (budget_window_references st) ?k = Some (members ?k ?m)"
    using refs mem [of ?k] by (simp add: refs_ok_def)
  show ?thesis
  proof (cases "members ?k ?m > 1")
    case True
    then have "refs_ok ?m' (AList.update ?k (members ?k ?m - 1) (budget_window_references st))"
      using refs mem by (auto simp: refs_ok_def map_of_update)
    moreover have "totals_ok ?m' (budget_totals st) (budget_frozen st)"
      unfolding totals_ok_def
    proof
      fix k
      show "case map_of (budget_totals st) k of None \<Rightarrow> members k ?m' = 0 \<and> k \<notin> budget_frozen st
        | Some t \<Rightarrow> members k ?m' \<noteq> 0 \<and> t \<le> MAX_EXACT_REDIS_NANOS \<and>
            (if k \<in> budget_frozen st then t = MAX_EXACT_REDIS_NANOS else owed k ?m' \<le> t)"
        using tot [unfolded totals_ok_def, rule_format, of k] mem [of k] owe [of k] True
        by (cases "k = ?k"; cases "map_of (budget_totals st) k") (auto split: if_splits)
    qed
    ultimately show ?thesis
      using a ref True ex' wf' by (simp add: purge_entry_def accounts_ok_def Let_def)
  next
    case False
    have zero: "members ?k ?m' = 0" using mem [of ?k] False by simp
    have "refs_ok ?m' (AList.delete ?k (budget_window_references st))"
      using refs mem zero by (auto simp: refs_ok_def map_of_delete)
    moreover have "totals_ok ?m' (AList.delete ?k (budget_totals st)) (budget_frozen st - {?k})"
      unfolding totals_ok_def
    proof
      fix k
      show "case map_of (AList.delete ?k (budget_totals st)) k of None \<Rightarrow> members k ?m' = 0 \<and> k \<notin> budget_frozen st - {?k}
        | Some t \<Rightarrow> members k ?m' \<noteq> 0 \<and> t \<le> MAX_EXACT_REDIS_NANOS \<and>
            (if k \<in> budget_frozen st - {?k} then t = MAX_EXACT_REDIS_NANOS else owed k ?m' \<le> t)"
        using tot [unfolded totals_ok_def, rule_format, of k] mem [of k] owe [of k] zero
        by (cases "k = ?k"; cases "map_of (budget_totals st) k") (auto simp: map_of_delete split: if_splits)
    qed
    ultimately show ?thesis
      using a ref False ex' wf' by (simp add: purge_entry_def forget_window_def accounts_ok_def Let_def)
  qed
qed

lemma purge_loop_ok: "accounts_ok st \<Longrightarrow> accounts_ok (purge_loop n now st)"
proof (induction n arbitrary: st)
  case (Suc n)
  then show ?case using purge_entry_ok by (auto split: list.split prod.split)
qed simp

text \<open>The moment a window's attempts expire; within it no attempt of the window is purged, and the
  total stays what it was.\<close>

definition window_expiry :: "nat \<Rightarrow> budget_window_key \<Rightarrow> nat" where
  "window_expiry retention_secs k =
     saturating_add_u64 (saturating_mul_u64 (saturating_add_u64 (wk_window_index k) 1) (wk_window_secs k)) retention_secs"

definition expiry_ok :: "nat \<Rightarrow> accounts \<Rightarrow> bool" where
  "expiry_ok ret st \<longleftrightarrow> (\<forall>aid a. map_of (budget_attempts st) aid = Some a \<longrightarrow>
     expires_at_epoch_secs a = window_expiry ret (window_key a))"

definition exact :: "budget_window_key \<Rightarrow> accounts \<Rightarrow> bool" where
  "exact k st \<longleftrightarrow> k \<notin> budget_frozen st \<longrightarrow>
     owed k (budget_attempts st) = (case map_of (budget_totals st) k of Some t \<Rightarrow> t | None \<Rightarrow> 0)"

lemma purge_entry_other:
  assumes "accounts_ok st" and "budget_expirations st = (e, aid) # rest" and "expiry_ok ret st" and "e < window_expiry ret k"
  defines "st' \<equiv> purge_entry e aid (st\<lparr>budget_expirations := rest\<rparr>)"
  shows "expiry_ok ret st' \<and> (exact k st \<longrightarrow> exact k st')"
proof -
  have wf: "hm_wf (budget_attempts st)" using assms(1) by (simp add: accounts_ok_def)
  obtain a where a: "map_of (budget_attempts st) aid = Some a" "expires_at_epoch_secs a = e"
    using assms(1,2) unfolding accounts_ok_def expirations_ok_def by (metis list.set_intros(1))
  have "window_key a \<noteq> k" using assms(3,4) a by (auto simp: expiry_ok_def)
  moreover from this have "owed k (AList.delete aid (budget_attempts st)) = owed k (budget_attempts st)"
    using owed_delete [OF wf a(1), of k] by simp
  ultimately show ?thesis
    using a assms(3) unfolding st'_def
    by (auto simp: purge_entry_def forget_window_def expiry_ok_def exact_def map_of_delete Let_def split: option.split)
qed

lemma purge_loop_other:
  assumes "accounts_ok st" and "expiry_ok ret st" and "now < window_expiry ret k"
  shows "expiry_ok ret (purge_loop n now st) \<and> (exact k st \<longrightarrow> exact k (purge_loop n now st))"
  using assms(1,2)
proof (induction n arbitrary: st)
  case (Suc n)
  show ?case
  proof (cases "\<exists>e aid rest. budget_expirations st = (e, aid) # rest \<and> e \<le> now")
    case True
    then obtain e aid rest where e: "budget_expirations st = (e, aid) # rest" "e \<le> now" by blast
    then have "e < window_expiry ret k" using assms(3) by simp
    note entry = purge_entry_other [OF Suc.prems(1) e(1) Suc.prems(2) this]
    show ?thesis using Suc.IH [OF purge_entry_ok [OF Suc.prems(1) e(1)]] entry e by simp
  next
    case False
    with Suc.prems(2) show ?thesis by (auto split: list.split prod.split)
  qed
qed simp

section \<open>Reserving keeps it\<close>

lemma plan_budget_commit:
  assumes "plan_budget ret tkey policy q now st = Some (Inr (Some (k, q', expires)))"
  shows "\<exists>p q0. policy = Some p \<and> q = Some q0 \<and> window_secs p \<noteq> 0 \<and>
    k = \<lparr>wk_tenant_key = tkey, wk_window_secs = window_secs p, wk_window_index = now div window_secs p\<rparr> \<and>
    k \<notin> budget_frozen st \<and> expires = window_expiry ret k \<and> bounded q' = bounded q0 \<and>
    (bounded q0 \<longrightarrow> amount_nanos q' = amount_nanos q0) \<and>
    (case map_of (budget_totals st) k of Some n \<Rightarrow> n | None \<Rightarrow> 0) + amount_nanos q' \<le> limit_nanos p"
  using assms
  by (auto simp: plan_budget_def window_expiry_def checked_add_u64_def Let_def split: option.splits if_splits)

lemma commit_budget_ok:
  assumes "accounts_ok st" and "map_of (budget_attempts st) aid = None"
    and "plan_budget ret tkey (Some p) q now st = Some (Inr (Some (k, q', expires)))" and "limit_nanos p \<le> MAX_EXACT_REDIS_NANOS"
  shows "\<exists>st'. commit_budget (Some (k, q', expires)) aid st = (Inr (), st') \<and> accounts_ok st' \<and>
    budget_attempts st' = AList.update aid (new_liability k q' expires) (budget_attempts st) \<and>
    budget_frozen st' = budget_frozen st \<and>
    map_of (budget_totals st') = (map_of (budget_totals st))
      (k \<mapsto> (case map_of (budget_totals st) k of Some n \<Rightarrow> n | None \<Rightarrow> 0) + amount_nanos q')"
proof -
  let ?m = "budget_attempts st" let ?a = "new_liability k q' expires" let ?m' = "AList.update aid ?a ?m"
  let ?old = "case map_of (budget_totals st) k of Some n \<Rightarrow> n | None \<Rightarrow> 0"
  have fits: "?old + amount_nanos q' \<le> MAX_EXACT_REDIS_NANOS" and live: "k \<notin> budget_frozen st"
    using plan_budget_commit [OF assms(3)] assms(4) by auto
  then have add: "checked_add_u64 ?old (amount_nanos q') = Some (?old + amount_nanos q')"
    by (simp add: checked_add_u64_def MAX_EXACT_REDIS_NANOS_def u64_max_def)
  have key: "window_key ?a = k" "liability_nanos ?a = amount_nanos q'" by (simp_all add: new_liability_def)
  note mem = members_insert [OF assms(2), of _ ?a] and owe = owed_insert [OF assms(2), of _ ?a]
  have parts: "hm_wf ?m" "refs_ok ?m (budget_window_references st)" "totals_ok ?m (budget_totals st) (budget_frozen st)"
    "expirations_ok ?m (budget_expirations st)" using assms(1) by (simp_all add: accounts_ok_def)
  have old: "owed k ?m \<le> ?old"
    using parts(3) [unfolded totals_ok_def, rule_format, of k] live
    by (auto simp: owed_def members_def msum_def split: option.splits)
  have refs: "refs_ok ?m' (AList.update k ((case map_of (budget_window_references st) k of Some r \<Rightarrow> r | None \<Rightarrow> 0) + 1)
      (budget_window_references st))"
    using parts(2) mem key by (auto simp: refs_ok_def map_of_update)
  have totals: "totals_ok ?m' (AList.update k (?old + amount_nanos q') (budget_totals st)) (budget_frozen st)"
    unfolding totals_ok_def
  proof
    fix k'
    show "case map_of (AList.update k (?old + amount_nanos q') (budget_totals st)) k' of
        None \<Rightarrow> members k' ?m' = 0 \<and> k' \<notin> budget_frozen st
      | Some t \<Rightarrow> members k' ?m' \<noteq> 0 \<and> t \<le> MAX_EXACT_REDIS_NANOS \<and>
          (if k' \<in> budget_frozen st then t = MAX_EXACT_REDIS_NANOS else owed k' ?m' \<le> t)"
      using parts(3) [unfolded totals_ok_def, rule_format, of k'] mem [of k'] owe [of k'] key fits live old
      by (cases "k' = k") (simp_all add: map_of_update split: option.splits)
  qed
  have "expirations_ok ?m' (insort (expires, aid) (budget_expirations st))"
  proof -
    have "aid \<notin> snd ` set (budget_expirations st)" using parts(4) assms(2) by (force simp: expirations_ok_def)
    then have "distinct (map snd (insort (expires, aid) (budget_expirations st)))"
      using parts(4) by (simp add: expirations_ok_def distinct_map distinct_insort inj_on_def set_insort_key) (force)
    moreover have "(e, i) \<in> set (insort (expires, aid) (budget_expirations st)) \<longleftrightarrow>
        (\<exists>a. map_of ?m' i = Some a \<and> expires_at_epoch_secs a = e)" for e i
      using parts(4) assms(2) by (auto simp: expirations_ok_def set_insort_key map_of_update new_liability_def)
    ultimately show ?thesis by (simp add: expirations_ok_def)
  qed
  with add refs totals parts(1) show ?thesis
    by (simp add: commit_budget_def accounts_ok_def hm_wf_update map_of_update Let_def)
qed

section \<open>Usage and settlement keep it\<close>

text \<open>Changing what one attempt owes, in the ways the total can follow it.\<close>

definition same_place :: "attempt_liability \<Rightarrow> attempt_liability \<Rightarrow> bool" where
  "same_place a a' \<longleftrightarrow> window_key a' = window_key a \<and> expires_at_epoch_secs a' = expires_at_epoch_secs a"

definition with_attempt :: "nat \<Rightarrow> attempt_liability \<Rightarrow> accounts \<Rightarrow> accounts" where
  "with_attempt aid a st = st\<lparr>budget_attempts := AList.update aid a (budget_attempts st)\<rparr>"

definition with_total :: "budget_window_key \<Rightarrow> nat \<Rightarrow> budget_window_key set \<Rightarrow> accounts \<Rightarrow> accounts" where
  "with_total k t frozen st = st\<lparr>budget_totals := AList.update k t (budget_totals st), budget_frozen := frozen\<rparr>"

definition keeps_books :: "nat \<Rightarrow> accounts \<Rightarrow> accounts \<Rightarrow> bool" where
  "keeps_books ret st st' \<longleftrightarrow> accounts_ok st' \<and> (expiry_ok ret st \<longrightarrow> expiry_ok ret st') \<and> (\<forall>k. exact k st \<longrightarrow> exact k st')"

lemma keeps_books_refl: "accounts_ok st \<Longrightarrow> keeps_books ret st st"
  by (simp add: keeps_books_def)

lemma attempt_total:
  assumes "accounts_ok st" and "map_of (budget_attempts st) aid = Some a"
  shows "\<exists>t. map_of (budget_totals st) (window_key a) = Some t \<and> t \<le> MAX_EXACT_REDIS_NANOS \<and>
    (if window_key a \<in> budget_frozen st then t = MAX_EXACT_REDIS_NANOS
     else liability_nanos a \<le> t \<and> owed (window_key a) (budget_attempts st) \<le> t)"
proof -
  have "liability_nanos a \<le> owed (window_key a) (budget_attempts st)"
    unfolding owed_def using msum_ge [OF assms(2), of "\<lambda>b. if window_key b = window_key a then liability_nanos b else 0"] by simp
  moreover have "totals_ok (budget_attempts st) (budget_totals st) (budget_frozen st)" using assms(1) by (simp add: accounts_ok_def)
  from this [unfolded totals_ok_def, rule_format, of "window_key a"] members_positive [OF assms(2)]
  have "\<exists>t. map_of (budget_totals st) (window_key a) = Some t \<and> t \<le> MAX_EXACT_REDIS_NANOS \<and>
      (if window_key a \<in> budget_frozen st then t = MAX_EXACT_REDIS_NANOS
       else owed (window_key a) (budget_attempts st) \<le> t)"
    by (auto split: option.splits)
  ultimately show ?thesis by (meson order_trans)
qed

lemma with_attempt_books:
  assumes "accounts_ok st" and "map_of (budget_attempts st) aid = Some a" and "same_place a a'"
    and "if window_key a \<in> frozen then t' = MAX_EXACT_REDIS_NANOS
      else window_key a \<notin> budget_frozen st \<and> t' \<le> MAX_EXACT_REDIS_NANOS \<and>
        (\<exists>t. map_of (budget_totals st) (window_key a) = Some t \<and> t' + liability_nanos a = t + liability_nanos a')"
    and "frozen = budget_frozen st \<or> frozen = insert (window_key a) (budget_frozen st)"
  shows "keeps_books ret st (with_total (window_key a) t' frozen (with_attempt aid a' st))"
proof -
  let ?k = "window_key a" let ?m = "budget_attempts st" let ?m' = "AList.update aid a' ?m"
  have place: "window_key a' = ?k" "expires_at_epoch_secs a' = expires_at_epoch_secs a" using assms(3) by (simp_all add: same_place_def)
  have parts: "hm_wf ?m" "refs_ok ?m (budget_window_references st)" "totals_ok ?m (budget_totals st) (budget_frozen st)"
    "expirations_ok ?m (budget_expirations st)" using assms(1) by (simp_all add: accounts_ok_def)
  note mem = members_update [OF parts(1) assms(2) place(1)] and owe = owed_update [OF parts(1) assms(2) place(1)]
  have "totals_ok ?m' (AList.update ?k t' (budget_totals st)) frozen"
    unfolding totals_ok_def
  proof
    fix k
    show "case map_of (AList.update ?k t' (budget_totals st)) k of None \<Rightarrow> members k ?m' = 0 \<and> k \<notin> frozen
      | Some t \<Rightarrow> members k ?m' \<noteq> 0 \<and> t \<le> MAX_EXACT_REDIS_NANOS \<and>
          (if k \<in> frozen then t = MAX_EXACT_REDIS_NANOS else owed k ?m' \<le> t)"
    proof (cases "k = ?k")
      case True
      then show ?thesis
        using mem [of ?k] owe [of ?k] members_positive [OF assms(2)] attempt_total [OF assms(1,2)] assms(4)
        by (auto simp: map_of_update split: if_splits)
    next
      case False
      then show ?thesis
        using parts(3) [unfolded totals_ok_def, rule_format, of k] mem [of k] owe [of k] assms(5)
        by (auto simp: map_of_update split: option.splits)
    qed
  qed
  moreover have "refs_ok ?m' (budget_window_references st)" using parts(2) mem by (simp add: refs_ok_def)
  moreover have "expirations_ok ?m' (budget_expirations st)"
    using parts(4) assms(2) place(2) by (auto simp: expirations_ok_def map_of_update)
  ultimately have "accounts_ok (with_total ?k t' frozen (with_attempt aid a' st))"
    using parts(1) by (simp add: accounts_ok_def with_total_def with_attempt_def hm_wf_update)
  moreover have "expiry_ok ret st \<longrightarrow> expiry_ok ret (with_total ?k t' frozen (with_attempt aid a' st))"
    using assms(2) place by (auto simp: expiry_ok_def with_total_def with_attempt_def map_of_update)
  moreover have "exact k (with_total ?k t' frozen (with_attempt aid a' st))" if "exact k st" for k
  proof (cases "k = ?k")
    case True
    with that assms(4) owe [of ?k] show ?thesis
      by (auto simp: exact_def with_total_def with_attempt_def map_of_update split: if_splits)
  next
    case False
    with that assms(5) owe [of k] show ?thesis
      by (auto simp: exact_def with_total_def with_attempt_def map_of_update)
  qed
  ultimately show ?thesis by (simp add: keeps_books_def)
qed

lemma keep_total:
  assumes "accounts_ok st" and "map_of (budget_attempts st) aid = Some a" and "same_place a a'"
    and "liability_nanos a' = liability_nanos a \<or> window_key a \<in> budget_frozen st"
  shows "keeps_books ret st (with_attempt aid a' st)"
proof -
  obtain t where t: "map_of (budget_totals st) (window_key a) = Some t" "t \<le> MAX_EXACT_REDIS_NANOS"
      "window_key a \<in> budget_frozen st \<Longrightarrow> t = MAX_EXACT_REDIS_NANOS"
    using attempt_total [OF assms(1,2)] by (auto split: if_splits)
  let ?st = "with_total (window_key a) t (budget_frozen st) (with_attempt aid a' st)"
  have books: "keeps_books ret st ?st"
    using t assms(4) by (intro with_attempt_books [OF assms(1-3)]) auto
  have "map_of (budget_totals ?st) = map_of (budget_totals (with_attempt aid a' st))"
    using t(1) by (auto simp: with_total_def with_attempt_def map_of_update)
  with books show ?thesis
    by (simp add: keeps_books_def accounts_ok_def totals_ok_def expiry_ok_def exact_def with_total_def with_attempt_def)
qed

lemma raise_books:
  assumes "accounts_ok st" and "map_of (budget_attempts st) aid = Some a" and "same_place a a'"
    and "liability_nanos a < liability_nanos a'"
  shows "\<exists>st'. raise_total (window_key a) (liability_nanos a' - liability_nanos a) (with_attempt aid a' st) = Some st' \<and>
    keeps_books ret st st' \<and> budget_attempts st' = budget_attempts (with_attempt aid a' st)"
proof -
  let ?k = "window_key a" let ?d = "liability_nanos a' - liability_nanos a"
  obtain t where t: "map_of (budget_totals st) ?k = Some t" "t \<le> MAX_EXACT_REDIS_NANOS"
      "?k \<in> budget_frozen st \<Longrightarrow> t = MAX_EXACT_REDIS_NANOS"
    using attempt_total [OF assms(1,2)] by (auto split: if_splits)
  have sat: "checked_add_u64 t ?d = None \<Longrightarrow> MAX_EXACT_REDIS_NANOS < t + ?d"
    by (simp add: checked_add_u64_def MAX_EXACT_REDIS_NANOS_def u64_max_def split: if_splits)
  show ?thesis
  proof (cases "t + ?d \<le> MAX_EXACT_REDIS_NANOS")
    case True
    then have live: "?k \<notin> budget_frozen st" using t(3) assms(4) by auto
    have "keeps_books ret st (with_total ?k (t + ?d) (budget_frozen st) (with_attempt aid a' st))"
      using t True live assms(4) by (intro with_attempt_books [OF assms(1-3)]) auto
    moreover have "raise_total ?k ?d (with_attempt aid a' st) =
        Some (with_total ?k (t + ?d) (budget_frozen st) (with_attempt aid a' st))"
      using t(1) True by (simp add: raise_total_def checked_add_u64_def with_total_def with_attempt_def
          MAX_EXACT_REDIS_NANOS_def u64_max_def)
    ultimately show ?thesis by (simp add: with_total_def)
  next
    case False
    let ?f = "insert ?k (budget_frozen st)"
    have "keeps_books ret st (with_total ?k MAX_EXACT_REDIS_NANOS ?f (with_attempt aid a' st))"
      by (intro with_attempt_books [OF assms(1-3)]) auto
    moreover have "raise_total ?k ?d (with_attempt aid a' st) =
        Some (with_total ?k MAX_EXACT_REDIS_NANOS ?f (with_attempt aid a' st))"
      using t(1) False by (auto simp: raise_total_def checked_add_u64_def with_total_def with_attempt_def)
    ultimately show ?thesis by (simp add: with_total_def)
  qed
qed

lemma note_amounts_place: "same_place a (note_amounts obs a)"
  by (simp add: note_amounts_def same_place_def Let_def split: option.split spend_authority.split)

lemma note_amounts_grows: "liability_nanos a \<le> liability_nanos (note_amounts obs a)"
  by (simp add: note_amounts_def Let_def split: option.split spend_authority.split)

lemma observe_usage_books:
  assumes "accounts_ok st"
  shows "\<exists>st'. observe_usage budgeted aid obs st =
      (if budgeted \<and> map_of (budget_attempts st) aid = None then Inl () else Inr (), st') \<and> keeps_books ret st st'"
proof (cases "budgeted \<and> (\<exists>a. map_of (budget_attempts st) aid = Some a \<and> \<not> finalized a)")
  case True
  then obtain a where a: "map_of (budget_attempts st) aid = Some a" "\<not> finalized a" "budgeted" by blast
  let ?a = "note_amounts obs a"
  note place = note_amounts_place [of a obs]
  show ?thesis
  proof (cases "liability_nanos a < liability_nanos ?a")
    case up: True
    obtain st' where "raise_total (window_key a) (liability_nanos ?a - liability_nanos a) (with_attempt aid ?a st) = Some st'"
      "keeps_books ret st st'" using raise_books [OF assms a(1) place up] by blast
    with a up show ?thesis by (simp add: observe_usage_def Let_def with_attempt_def)
  next
    case False
    then have "liability_nanos ?a = liability_nanos a" using note_amounts_grows [of a obs] by simp
    then have "keeps_books ret st (with_attempt aid ?a st)" using keep_total [OF assms a(1) place] by blast
    with a False show ?thesis by (simp add: observe_usage_def Let_def with_attempt_def)
  qed
next
  case False
  then show ?thesis using keeps_books_refl [OF assms] by (auto simp: observe_usage_def split: option.split)
qed

lemma finish_attempt_books:
  assumes "accounts_ok st"
  shows "\<exists>st'. finish_attempt budgeted aid outcome st =
      (if budgeted \<and> map_of (budget_attempts st) aid = None then Inl () else Inr (), st') \<and> keeps_books ret st st'"
proof (cases "budgeted \<and> (\<exists>a n. map_of (budget_attempts st) aid = Some a \<and> \<not> finalized a \<and> may_finalize outcome \<and> final_nanos a = Some n)")
  case True
  then obtain a n where a: "map_of (budget_attempts st) aid = Some a" "\<not> finalized a" "may_finalize outcome"
    "final_nanos a = Some n" "budgeted" by blast
  let ?a = "a\<lparr>liability_nanos := n, finalized := True\<rparr>" let ?st = "with_attempt aid ?a st"
  have place: "same_place a ?a" by (simp add: same_place_def)
  have eq: "finish_attempt budgeted aid outcome st =
      (if window_key a \<in> budget_frozen st then (Inr (), ?st)
       else if n \<le> liability_nanos a
       then (case map_of (budget_totals st) (window_key a) of
               None \<Rightarrow> (Inl (), ?st)
             | Some t \<Rightarrow>
                 if liability_nanos a - n \<le> t
                 then (Inr (), with_total (window_key a) (t - (liability_nanos a - n)) (budget_frozen st) ?st)
                 else (Inl (), ?st))
       else (case raise_total (window_key a) (n - liability_nanos a) ?st of
               None \<Rightarrow> (Inl (), ?st) | Some st'' \<Rightarrow> (Inr (), st'')))"
    using a by (simp add: finish_attempt_def Let_def with_attempt_def with_total_def split: option.split)
  consider (frozen) "window_key a \<in> budget_frozen st" | (down) "window_key a \<notin> budget_frozen st" "n \<le> liability_nanos a"
    | (up) "window_key a \<notin> budget_frozen st" "liability_nanos a < n" by linarith
  then show ?thesis
  proof cases
    case frozen
    with keep_total [OF assms a(1) place] eq a show ?thesis by simp
  next
    case down
    obtain t where t: "map_of (budget_totals st) (window_key a) = Some t" "t \<le> MAX_EXACT_REDIS_NANOS" "liability_nanos a \<le> t"
      using attempt_total [OF assms a(1)] down(1) by auto
    have "keeps_books ret st (with_total (window_key a) (t - (liability_nanos a - n)) (budget_frozen st) ?st)"
      using t down by (intro with_attempt_books [OF assms a(1) place]) auto
    with eq down t a show ?thesis by simp
  next
    case up
    have "liability_nanos a < liability_nanos ?a" using up(2) by simp
    from raise_books [OF assms a(1) place this] obtain st' where
      "raise_total (window_key a) (n - liability_nanos a) ?st = Some st'" "keeps_books ret st st'" by auto
    with eq up a show ?thesis by simp
  qed
next
  case False
  then show ?thesis using keeps_books_refl [OF assms] by (auto simp: finish_attempt_def split: option.split)
qed

lemma commit_books:
  assumes "accounts_ok st" and "map_of (budget_attempts st) aid = None"
    and "plan_budget ret tkey (Some p) q now st = Some (Inr (Some (k, q', expires)))" and "limit_nanos p \<le> MAX_EXACT_REDIS_NANOS"
  shows "\<exists>st'. commit_budget (Some (k, q', expires)) aid st = (Inr (), st') \<and> keeps_books ret st st' \<and>
    k \<notin> budget_frozen st' \<and> map_of (budget_attempts st') = (map_of (budget_attempts st))(aid \<mapsto> new_liability k q' expires) \<and>
    (exact k st \<longrightarrow> owed k (budget_attempts st') \<le> limit_nanos p)"
proof -
  from commit_budget_ok [OF assms] obtain st' where st': "commit_budget (Some (k, q', expires)) aid st = (Inr (), st')"
    "accounts_ok st'" "budget_attempts st' = AList.update aid (new_liability k q' expires) (budget_attempts st)"
    "budget_frozen st' = budget_frozen st"
    "map_of (budget_totals st') = (map_of (budget_totals st))
      (k \<mapsto> (case map_of (budget_totals st) k of Some n \<Rightarrow> n | None \<Rightarrow> 0) + amount_nanos q')" by blast
  note plan = plan_budget_commit [OF assms(3)]
  have owe: "owed k' (budget_attempts st') = owed k' (budget_attempts st) + (if k = k' then amount_nanos q' else 0)" for k'
    unfolding st'(3) using owed_insert [OF assms(2), of k' "new_liability k q' expires"] by (simp add: new_liability_def)
  have "expiry_ok ret st \<longrightarrow> expiry_ok ret st'"
    using plan assms(2) by (auto simp: expiry_ok_def st'(3) map_of_update new_liability_def)
  moreover have "exact k' st \<longrightarrow> exact k' st'" for k' using owe [of k'] by (auto simp: exact_def st'(4,5))
  moreover have "exact k st \<longrightarrow> owed k (budget_attempts st') \<le> limit_nanos p" using owe [of k] plan by (auto simp: exact_def)
  ultimately show ?thesis using st' plan by (auto simp: keeps_books_def map_of_update)
qed

lemma plan_budget_defined:
  assumes "\<And>p. policy = Some p \<Longrightarrow> window_secs p \<noteq> 0"
  shows "\<exists>r. plan_budget ret tkey policy q now st = Some r"
  using assms by (auto simp: plan_budget_def Let_def split: option.split)

lemma purge_books:
  assumes "accounts_ok st"
  shows "accounts_ok (purge_expired_budget_state now st)"
    and "expiry_ok ret st \<Longrightarrow> now < window_expiry ret k \<Longrightarrow> expiry_ok ret (purge_expired_budget_state now st) \<and>
      (exact k st \<longrightarrow> exact k (purge_expired_budget_state now st))"
  using purge_loop_ok [OF assms] purge_loop_other [OF assms] by (simp_all add: purge_expired_budget_state_def)

section \<open>How a liability may change\<close>

text \<open>A finalized liability is fixed; another grows, or is settled at its final amount.\<close>

definition evolves :: "attempt_liability \<Rightarrow> attempt_liability \<Rightarrow> bool" where
  "evolves a a' \<longleftrightarrow> same_place a a' \<and> (finalized a \<longrightarrow> a' = a) \<and>
     (if finalized a' \<and> \<not> finalized a then final_nanos a = Some (liability_nanos a') else liability_nanos a \<le> liability_nanos a')"

lemma evolves_refl: "evolves a a"
  by (simp add: evolves_def same_place_def)

lemma purge_keeps_attempts:
  "map_of (budget_attempts (purge_expired_budget_state now st)) i = None \<or>
   map_of (budget_attempts (purge_expired_budget_state now st)) i = map_of (budget_attempts st) i"
proof -
  have entry: "map_of (budget_attempts (purge_entry e j st)) i = None \<or>
      map_of (budget_attempts (purge_entry e j st)) i = map_of (budget_attempts st) i" for e j and st :: accounts
    by (simp add: purge_entry_def forget_window_def map_of_delete Let_def split: option.split)
  have "map_of (budget_attempts (purge_loop n now st)) i = None \<or>
      map_of (budget_attempts (purge_loop n now st)) i = map_of (budget_attempts st) i" for n
  proof (induction n arbitrary: st)
    case (Suc n)
    show ?case
    proof (cases "\<exists>e j rest. budget_expirations st = (e, j) # rest \<and> e \<le> now")
      case True
      then obtain e j rest where e: "budget_expirations st = (e, j) # rest" "e \<le> now" by blast
      let ?st = "purge_entry e j (st\<lparr>budget_expirations := rest\<rparr>)"
      have "purge_loop (Suc n) now st = purge_loop n now ?st" using e by simp
      moreover have "map_of (budget_attempts ?st) i = None \<or> map_of (budget_attempts ?st) i = map_of (budget_attempts st) i"
        using entry [of e j "st\<lparr>budget_expirations := rest\<rparr>"] by simp
      ultimately show ?thesis using Suc.IH [of ?st] by auto
    next
      case False
      then show ?thesis by (auto split: list.split prod.split)
    qed
  qed simp
  then show ?thesis by (simp add: purge_expired_budget_state_def)
qed

lemma purge_keeps_unexpired:
  assumes "map_of (budget_attempts st) i = Some a" and "now < expires_at_epoch_secs a"
  shows "map_of (budget_attempts (purge_expired_budget_state now st)) i = Some a"
proof -
  have "map_of (budget_attempts (purge_loop n now st)) i = Some a" for n
    using assms(1)
  proof (induction n arbitrary: st)
    case (Suc n)
    have "map_of (budget_attempts (purge_entry e j st)) i = Some a" if "e \<le> now" "map_of (budget_attempts st) i = Some a"
      for e j and st :: accounts
      using that assms(2)
      by (auto simp: purge_entry_def forget_window_def map_of_delete Let_def split: option.split)
    with Suc show ?case by (auto split: list.split prod.split)
  qed simp
  then show ?thesis by (simp add: purge_expired_budget_state_def)
qed

lemma commit_budget_other: "commit_budget c aid acc = (r, acc') \<Longrightarrow> i \<noteq> aid \<Longrightarrow>
    map_of (budget_attempts acc') i = map_of (budget_attempts acc) i"
  by (auto simp: commit_budget_def map_of_update Let_def split: option.splits prod.splits)

lemma raise_total_attempts: "raise_total k d st = Some st' \<Longrightarrow> budget_attempts st' = budget_attempts st"
  by (auto simp: raise_total_def split: option.splits if_splits)

lemma note_amounts_finalized: "finalized (note_amounts obs a) = finalized a"
  by (simp add: note_amounts_def Let_def split: option.split spend_authority.split)

lemma observe_usage_evolves:
  assumes "map_of (budget_attempts st) i = Some a"
  shows "\<exists>a'. map_of (budget_attempts (snd (observe_usage budgeted aid obs st))) i = Some a' \<and> evolves a a'"
proof -
  have "\<not> finalized a \<Longrightarrow> evolves a (note_amounts obs a)"
    using note_amounts_place note_amounts_grows note_amounts_finalized by (simp add: evolves_def)
  then show ?thesis
    using assms evolves_refl [of a]
    by (cases "i = aid") (auto simp: observe_usage_def Let_def map_of_update dest!: raise_total_attempts split: option.splits)
qed

lemma finish_attempt_evolves:
  assumes "map_of (budget_attempts st) i = Some a"
  shows "\<exists>a'. map_of (budget_attempts (snd (finish_attempt budgeted aid outcome st))) i = Some a' \<and> evolves a a'"
proof -
  have "\<not> finalized a \<Longrightarrow> final_nanos a = Some n \<Longrightarrow> evolves a (a\<lparr>liability_nanos := n, finalized := True\<rparr>)" for n
    by (simp add: evolves_def same_place_def)
  then show ?thesis
    using assms evolves_refl [of a]
    by (cases "i = aid") (auto simp: finish_attempt_def Let_def map_of_update dest!: raise_total_attempts split: option.splits)
qed

end
