(* ===== verification/RateLimit.thy ===== *)
theory RateLimit
  imports Buckets
begin

text \<open>
  The proxy's per-instance rate limiter (\<open>src/proxy/ratelimit.rs\<close>): the token bucket, the pair of
  buckets of a key, the configuration and the in-memory limiter. The clock is an argument. A
  panic (an out-of-range \<open>Duration\<close>) is \<open>None\<close>.
\<close>

section \<open>Token bucket\<close>

record token_bucket =
  tb_capacity :: f64
  tb_refill_per_sec :: f64
  tb_tokens :: f64
  tb_last :: instant
  tb_penalty_until :: "instant option"

definition ZERO_LIMIT_RETRY_AFTER :: duration where "ZERO_LIMIT_RETRY_AFTER = from_secs 60"

definition MIN_POSITIVE :: f64 where "MIN_POSITIVE = Fin (1 / 2 ^ 1022)"

definition from_per_minute :: "f64 \<Rightarrow> instant \<Rightarrow> token_bucket" where
  "from_per_minute per_minute now =
     (let capacity = (if per_minute = Fin 0 then Fin 0 else f64_max per_minute (Fin 1)) in
      \<lparr>tb_capacity = capacity,
       tb_refill_per_sec = (if per_minute = Fin 0 then Fin 0 else f64_max (f64_div per_minute (Fin 60)) MIN_POSITIVE),
       tb_tokens = capacity, tb_last = now, tb_penalty_until = None\<rparr>)"

definition tb_refill :: "instant \<Rightarrow> token_bucket \<Rightarrow> token_bucket" where
  "tb_refill now b =
     (let elapsed = as_secs_f64 (saturating_duration_since now (tb_last b)) in
      if f64_lt (Fin 0) elapsed
      then b\<lparr>tb_tokens := f64_min (f64_add (tb_tokens b) (f64_mul elapsed (tb_refill_per_sec b))) (tb_capacity b),
             tb_last := now\<rparr>
      else b)"

definition penalty_wait :: "token_bucket \<Rightarrow> instant \<Rightarrow> duration option" where
  "penalty_wait b now =
     (case tb_penalty_until b of
        Some until \<Rightarrow> if now < until then Some (saturating_duration_since until now) else None
      | None \<Rightarrow> None)"

definition tb_check :: "token_bucket \<Rightarrow> f64 \<Rightarrow> instant \<Rightarrow> (duration, unit) result option" where
  "tb_check b permits now =
     (case penalty_wait b now of
        Some w \<Rightarrow> Some (Inl w)
      | None \<Rightarrow>
          if f64_le permits (f64_add (tb_tokens b) EPSILON) then Some (Inr ())
          else if f64_le (tb_refill_per_sec b) (Fin 0) then Some (Inl ZERO_LIMIT_RETRY_AFTER)
          else map_option Inl (from_secs_f64 (f64_div (f64_sub permits (tb_tokens b)) (tb_refill_per_sec b))))"

definition tb_commit :: "f64 \<Rightarrow> token_bucket \<Rightarrow> token_bucket" where
  "tb_commit permits b = b\<lparr>tb_tokens := f64_sub (tb_tokens b) permits\<rparr>"

definition tb_penalize :: "duration \<Rightarrow> instant \<Rightarrow> token_bucket \<Rightarrow> token_bucket" where
  "tb_penalize retry_after now b =
     (let until = now + retry_after in
      b\<lparr>tb_penalty_until := Some (case tb_penalty_until b of
            Some existing \<Rightarrow> if existing > until then existing else until
          | None \<Rightarrow> until),
        tb_tokens := Fin 0\<rparr>)"

section \<open>The buckets of one key\<close>

record key_buckets =
  kb_rpm :: "token_bucket option"
  kb_tpm :: "token_bucket option"

text \<open>The wait noted for one bucket: \<open>Some None\<close> when it has room (or there is none).\<close>

definition bucket_wait :: "token_bucket option \<Rightarrow> f64 \<Rightarrow> instant \<Rightarrow> duration option option" where
  "bucket_wait ob permits now =
     (case ob of
        None \<Rightarrow> Some None
      | Some b \<Rightarrow>
          (case tb_check b permits now of
             None \<Rightarrow> None
           | Some (Inl w) \<Rightarrow> Some (Some w)
           | Some (Inr _) \<Rightarrow> Some None))"

definition kb_acquire :: "f64 \<Rightarrow> instant \<Rightarrow> key_buckets \<Rightarrow> ((duration, unit) result \<times> key_buckets) option" where
  "kb_acquire tpm_permits now kb =
     (let kb1 = \<lparr>kb_rpm = map_option (tb_refill now) (kb_rpm kb),
                 kb_tpm = map_option (tb_refill now) (kb_tpm kb)\<rparr> in
      Option.bind (bucket_wait (kb_rpm kb1) (Fin 1) now) (\<lambda>w1.
      Option.bind (bucket_wait (kb_tpm kb1) tpm_permits now) (\<lambda>w2.
      case longer_wait w1 w2 of
        Some w \<Rightarrow> Some (Inl w, kb1)
      | None \<Rightarrow>
          Some (Inr (), \<lparr>kb_rpm = map_option (tb_commit (Fin 1)) (kb_rpm kb1),
                         kb_tpm = map_option (tb_commit tpm_permits) (kb_tpm kb1)\<rparr>))))"

definition kb_penalize :: "duration \<Rightarrow> instant \<Rightarrow> key_buckets \<Rightarrow> key_buckets" where
  "kb_penalize retry_after now kb =
     \<lparr>kb_rpm = map_option (tb_penalize retry_after now) (kb_rpm kb),
      kb_tpm = map_option (tb_penalize retry_after now) (kb_tpm kb)\<rparr>"

section \<open>Configuration\<close>

record provider_limit =
  limit_rpm :: "nat option"
  limit_tpm :: "nat option"

definition limit_is_unlimited :: "provider_limit \<Rightarrow> bool" where
  "limit_is_unlimited l \<longleftrightarrow> limit_rpm l = None \<and> limit_tpm l = None"

definition has_zero_limit :: "provider_limit \<Rightarrow> bool" where
  "has_zero_limit l \<longleftrightarrow> limit_rpm l = Some 0 \<or> limit_tpm l = Some 0"

record rate_limit_config =
  rl_global :: provider_limit
  rl_per_provider :: "(string, provider_limit) hash_map"

definition KNOWN_PROVIDERS :: "string list" where
  "KNOWN_PROVIDERS = [''openai'', ''anthropic'', ''gemini'', ''xai'']"

definition to_ascii_uppercase :: "string \<Rightarrow> string" where
  "to_ascii_uppercase s =
     map (\<lambda>c. if CHR ''a'' \<le> c \<and> c \<le> CHR ''z'' then char_of (of_char c - (32 :: nat)) else c) s"

text \<open>\<open>env\<close> is the parsed environment: the \<open>u32\<close> a variable holds, if it holds one.\<close>

definition config_from_env :: "(string \<Rightarrow> nat option) \<Rightarrow> rate_limit_config" where
  "config_from_env env =
     \<lparr>rl_global = \<lparr>limit_rpm = env ''LLMSHIM_RATE_LIMIT_RPM'', limit_tpm = env ''LLMSHIM_RATE_LIMIT_TPM''\<rparr>,
      rl_per_provider =
        fold (\<lambda>p m.
            let up = to_ascii_uppercase p;
                limit = \<lparr>limit_rpm = env (''LLMSHIM_'' @ up @ ''_RPM''), limit_tpm = env (''LLMSHIM_'' @ up @ ''_TPM'')\<rparr>
            in if \<not> limit_is_unlimited limit then AList.update p limit m else m)
          KNOWN_PROVIDERS []\<rparr>"

definition with_global :: "nat option \<Rightarrow> nat option \<Rightarrow> rate_limit_config" where
  "with_global rpm tpm = \<lparr>rl_global = \<lparr>limit_rpm = rpm, limit_tpm = tpm\<rparr>, rl_per_provider = []\<rparr>"

definition resolve_limit :: "rate_limit_config \<Rightarrow> string \<Rightarrow> provider_limit" where
  "resolve_limit cfg provider =
     (let ov = (case map_of (rl_per_provider cfg) provider of
            Some l \<Rightarrow> l | None \<Rightarrow> \<lparr>limit_rpm = None, limit_tpm = None\<rparr>) in
      \<lparr>limit_rpm = (case limit_rpm ov of Some n \<Rightarrow> Some n | None \<Rightarrow> limit_rpm (rl_global cfg)),
       limit_tpm = (case limit_tpm ov of Some n \<Rightarrow> Some n | None \<Rightarrow> limit_tpm (rl_global cfg))\<rparr>)"

definition config_is_unlimited :: "rate_limit_config \<Rightarrow> bool" where
  "config_is_unlimited cfg \<longleftrightarrow> limit_is_unlimited (rl_global cfg) \<and> rl_per_provider cfg = []"

section \<open>The in-memory limiter\<close>

record rate_key =
  key_provider :: string
  key_tenant :: "string option"

type_synonym limiter_state = "(rate_key, key_buckets) hash_map"

definition buckets_for :: "provider_limit \<Rightarrow> instant \<Rightarrow> key_buckets" where
  "buckets_for limit now =
     \<lparr>kb_rpm = map_option (\<lambda>r. from_per_minute (f64_of_nat r) now) (limit_rpm limit),
      kb_tpm = map_option (\<lambda>t. from_per_minute (f64_of_nat t) now) (limit_tpm limit)\<rparr>"

definition entry_or_new :: "provider_limit \<Rightarrow> instant \<Rightarrow> rate_key \<Rightarrow> limiter_state \<Rightarrow> key_buckets" where
  "entry_or_new limit now key st = (case map_of st key of Some kb \<Rightarrow> kb | None \<Rightarrow> buckets_for limit now)"

definition limiter_acquire ::
  "rate_limit_config \<Rightarrow> rate_key \<Rightarrow> nat \<Rightarrow> instant \<Rightarrow> limiter_state \<Rightarrow> ((duration, unit) result \<times> limiter_state) option" where
  "limiter_acquire cfg key permits now st =
     (let limit = resolve_limit cfg (key_provider key) in
      if limit_is_unlimited limit then Some (Inr (), st)
      else if has_zero_limit limit then Some (Inl ZERO_LIMIT_RETRY_AFTER, st)
      else map_option (\<lambda>(r, kb). (r, AList.update key kb st))
             (kb_acquire (f64_of_nat (max permits 1)) now (entry_or_new limit now key st)))"

definition limiter_penalize ::
  "rate_limit_config \<Rightarrow> rate_key \<Rightarrow> duration \<Rightarrow> instant \<Rightarrow> limiter_state \<Rightarrow> limiter_state" where
  "limiter_penalize cfg key retry_after now st =
     (let limit = resolve_limit cfg (key_provider key) in
      if limit_is_unlimited limit \<or> has_zero_limit limit then st
      else AList.update key (kb_penalize retry_after now (entry_or_new limit now key st)) st)"

section \<open>The token bucket as an admission bucket\<close>

definition tb_admits :: "instant \<Rightarrow> nat \<Rightarrow> token_bucket \<Rightarrow> bool" where
  "tb_admits now p b \<longleftrightarrow> tb_check b (f64_of_nat p) now = Some (Inr ())"

definition rate_defined :: "token_bucket \<Rightarrow> bool" where
  "rate_defined b \<longleftrightarrow> is_finite (tb_refill_per_sec b) \<and> f64_le (Fin (1 / 2 ^ 6)) (tb_refill_per_sec b)"

interpretation tb: admission_bucket tb_tokens tb_capacity rate_defined tb_refill tb_admits
  "\<lambda>p. tb_commit (f64_of_nat p)"
proof
  fix now b p
  show "tb_capacity (tb_refill now b) = tb_capacity b" "rate_defined (tb_refill now b) = rate_defined b"
    "tb_capacity (tb_commit (f64_of_nat p) b) = tb_capacity b"
    "rate_defined (tb_commit (f64_of_nat p) b) = rate_defined b"
    by (simp_all add: tb_refill_def tb_commit_def rate_defined_def Let_def)
  show "tb_tokens (tb_refill now b) = tb_tokens b \<or>
      (\<exists>x. (x = NaN \<or> f64_le (Fin 0) x) \<and> tb_tokens (tb_refill now b) = f64_min (f64_add (tb_tokens b) x) (tb_capacity b))"
    if "rate_defined b"
    using f64_mul_nonneg [OF as_secs_f64_nonneg rate_nonneg] that
    by (auto simp: tb_refill_def Let_def rate_defined_def)
  assume p: "p \<le> 2 ^ 32"
  then have exact: "f64_of_nat p = Fin (of_nat p)" by (intro f64_of_nat_exact) simp
  then show "tb_tokens (tb_commit (f64_of_nat p) b) = f64_sub (tb_tokens b) (Fin (of_nat p))"
    by (simp add: tb_commit_def)
  show "f64_le (Fin (of_nat p)) (f64_add (tb_tokens b) EPSILON)" if "tb_admits now p b"
    using that by (auto simp: tb_admits_def tb_check_def exact split: option.splits if_splits)
qed

section \<open>Reachable limiters\<close>

datatype limiter_op = Acquire instant rate_key nat | Penalize instant rate_key duration

fun limiter_step :: "rate_limit_config \<Rightarrow> limiter_op \<Rightarrow> limiter_state \<Rightarrow> limiter_state option" where
  "limiter_step cfg (Acquire now key permits) st = map_option snd (limiter_acquire cfg key permits now st)"
| "limiter_step cfg (Penalize now key d) st = Some (limiter_penalize cfg key d now st)"

fun run_limiter :: "rate_limit_config \<Rightarrow> limiter_op list \<Rightarrow> limiter_state \<Rightarrow> limiter_state option" where
  "run_limiter cfg [] st = Some st"
| "run_limiter cfg (c # cs) st = Option.bind (limiter_step cfg c st) (run_limiter cfg cs)"

fun op_fits :: "limiter_op \<Rightarrow> bool" where
  "op_fits (Acquire _ _ permits) \<longleftrightarrow> permits \<le> u32_max"
| "op_fits (Penalize _ _ _) \<longleftrightarrow> True"

definition config_fits :: "rate_limit_config \<Rightarrow> bool" where
  "config_fits cfg \<longleftrightarrow> (\<forall>provider n. (limit_rpm (resolve_limit cfg provider) = Some n \<or>
     limit_tpm (resolve_limit cfg provider) = Some n) \<longrightarrow> n \<le> u32_max)"

lemma new_bucket_ok:
  assumes "n \<le> u32_max" and "n \<noteq> 0"
  shows "tb.bucket_ok n (from_per_minute (f64_of_nat n) now)"
proof -
  from per_minute_rate [OF assms] obtain r where n: "n \<le> 2 ^ 32" "f64_of_nat n = Fin (of_nat n)" "1 \<le> rat_of_nat n"
    and r: "f64_div (f64_of_nat n) (Fin 60) = Fin r" "1 / 2 ^ 6 \<le> r" by blast
  have "1 / 2 ^ 1022 \<le> (1 / 2 ^ 6 :: rat)" by (rule divide_left_mono) (simp_all add: power_increasing)
  then have "f64_max (Fin r) MIN_POSITIVE = Fin r" using r(2) by (simp add: f64_max_def MIN_POSITIVE_def)
  with n r assms(2) show ?thesis
    by (simp add: tb.bucket_ok_def from_per_minute_def f64_max_def rate_defined_def in_bounds_def overdraft_def Let_def)
qed

lemma penalize_ok: "tb.bucket_ok n b \<Longrightarrow> tb.bucket_ok n (tb_penalize d now b)"
  by (simp add: tb.bucket_ok_def tb_penalize_def Let_def rate_defined_def in_bounds_def overdraft_def)

lemma check_defined:
  assumes "tb.bucket_ok n b" and "p \<le> 2 ^ 32"
  shows "\<exists>r. tb_check b (f64_of_nat p) now = Some r"
proof -
  have exact: "f64_of_nat p = Fin (of_nat p)" using assms(2) by (intro f64_of_nat_exact) simp
  have "in_bounds (tb_tokens b) (Fin (of_nat n))" "f64_le (Fin (1 / 2 ^ 6)) (tb_refill_per_sec b)"
    "is_finite (tb_refill_per_sec b)"
    using assms(1) by (auto simp: tb.bucket_ok_def rate_defined_def)
  then show ?thesis
    using wait_defined [of "tb_tokens b" n p "tb_refill_per_sec b"] assms(2)
    by (auto simp: tb_check_def exact split: option.split)
qed

text \<open>The buckets of a key under its limit; each balance is within bounds of its own limit.\<close>

definition slot_ok :: "nat option \<Rightarrow> token_bucket option \<Rightarrow> bool" where
  "slot_ok limit ob \<longleftrightarrow>
     (case (limit, ob) of
        (None, None) \<Rightarrow> True
      | (Some n, Some b) \<Rightarrow> tb.bucket_ok n b
      | _ \<Rightarrow> False)"

definition kb_ok :: "provider_limit \<Rightarrow> key_buckets \<Rightarrow> bool" where
  "kb_ok limit kb \<longleftrightarrow> slot_ok (limit_rpm limit) (kb_rpm kb) \<and> slot_ok (limit_tpm limit) (kb_tpm kb)"

lemma slot_ok_refill: "slot_ok l ob \<Longrightarrow> slot_ok l (map_option (tb_refill now) ob)"
  by (auto simp: slot_ok_def intro: tb.refill_ok split: option.splits)

lemma slot_ok_penalize: "slot_ok l ob \<Longrightarrow> slot_ok l (map_option (tb_penalize d now) ob)"
  by (auto simp: slot_ok_def intro: penalize_ok split: option.splits)

lemma slot_ok_wait: "slot_ok l ob \<Longrightarrow> p \<le> 2 ^ 32 \<Longrightarrow> \<exists>w. bucket_wait ob (f64_of_nat p) now = Some w"
  using check_defined [of _ _ p now]
  by (cases ob) (fastforce simp: slot_ok_def bucket_wait_def split: option.splits sum.splits)+

lemma slot_ok_commit:
  "slot_ok l ob \<Longrightarrow> p \<le> 2 ^ 32 \<Longrightarrow> bucket_wait ob (f64_of_nat p) now = Some None \<Longrightarrow>
   slot_ok l (map_option (tb_commit (f64_of_nat p)) ob)"
  using tb.take_ok [of _ _ now p]
  by (auto simp: slot_ok_def bucket_wait_def tb_admits_def split: option.splits sum.splits)

lemma kb_acquire_ok:
  assumes "kb_ok limit kb" and "p \<le> 2 ^ 32"
  shows "\<exists>r kb'. kb_acquire (f64_of_nat p) now kb = Some (r, kb') \<and> kb_ok limit kb'"
proof -
  let ?r = "map_option (tb_refill now) (kb_rpm kb)" let ?t = "map_option (tb_refill now) (kb_tpm kb)"
  have ok: "slot_ok (limit_rpm limit) ?r" "slot_ok (limit_tpm limit) ?t"
    using assms(1) by (simp_all add: kb_ok_def slot_ok_refill)
  obtain w1 w2 where w: "bucket_wait ?r (Fin 1) now = Some w1" "bucket_wait ?t (f64_of_nat p) now = Some w2"
    using slot_ok_wait [OF ok(1), of 1 now] slot_ok_wait [OF ok(2) assms(2), of now] f64_of_nat_1 by auto
  show ?thesis
  proof (cases "longer_wait w1 w2")
    case None
    then have "w1 = None" "w2 = None" by (simp_all add: longer_wait_None)
    with w ok slot_ok_commit [OF ok(1), of 1 now] slot_ok_commit [OF ok(2) assms(2), of now] show ?thesis
      by (simp add: kb_acquire_def kb_ok_def longer_wait_def f64_of_nat_1)
  next
    case (Some w')
    with w ok show ?thesis by (simp add: kb_acquire_def kb_ok_def)
  qed
qed

definition limiter_ok :: "rate_limit_config \<Rightarrow> limiter_state \<Rightarrow> bool" where
  "limiter_ok cfg st \<longleftrightarrow> (\<forall>key kb. map_of st key = Some kb \<longrightarrow> kb_ok (resolve_limit cfg (key_provider key)) kb)"

lemma entry_ok:
  assumes "config_fits cfg" and "limiter_ok cfg st" and "\<not> has_zero_limit (resolve_limit cfg (key_provider key))"
  shows "kb_ok (resolve_limit cfg (key_provider key)) (entry_or_new (resolve_limit cfg (key_provider key)) now key st)"
proof (cases "map_of st key")
  case None
  have "slot_ok l (map_option (\<lambda>r. from_per_minute (f64_of_nat r) now) l)"
    if "l \<noteq> Some 0" "\<forall>n. l = Some n \<longrightarrow> n \<le> u32_max" for l
    using that by (auto simp: slot_ok_def intro: new_bucket_ok split: option.split)
  with None assms(1,3) show ?thesis
    by (auto simp: entry_or_new_def kb_ok_def buckets_for_def has_zero_limit_def config_fits_def)
next
  case (Some kb)
  with assms(2) show ?thesis by (simp add: entry_or_new_def limiter_ok_def)
qed

lemma limiter_acquire_ok:
  assumes "config_fits cfg" and "limiter_ok cfg st" and "permits \<le> u32_max"
  shows "\<exists>r st'. limiter_acquire cfg key permits now st = Some (r, st') \<and> limiter_ok cfg st'"
proof (cases "limit_is_unlimited (resolve_limit cfg (key_provider key)) \<or> has_zero_limit (resolve_limit cfg (key_provider key))")
  case True
  with assms(2) show ?thesis by (auto simp: limiter_acquire_def Let_def)
next
  case False
  have "max permits 1 \<le> 2 ^ 32" using assms(3) by (simp add: u32_max_def)
  from kb_acquire_ok [OF entry_ok [OF assms(1,2)] this, of key now now] False assms(2) show ?thesis
    by (fastforce simp: limiter_acquire_def limiter_ok_def map_of_update)
qed

lemma limiter_penalize_ok:
  assumes "config_fits cfg" and "limiter_ok cfg st"
  shows "limiter_ok cfg (limiter_penalize cfg key d now st)"
proof (cases "limit_is_unlimited (resolve_limit cfg (key_provider key)) \<or> has_zero_limit (resolve_limit cfg (key_provider key))")
  case True
  with assms(2) show ?thesis by (simp add: limiter_penalize_def)
next
  case False
  then have "kb_ok (resolve_limit cfg (key_provider key))
      (kb_penalize d now (entry_or_new (resolve_limit cfg (key_provider key)) now key st))"
    using entry_ok [OF assms] by (simp add: kb_ok_def kb_penalize_def slot_ok_penalize)
  with False assms(2) show ?thesis by (simp add: limiter_penalize_def limiter_ok_def map_of_update)
qed

lemma limiter_run_ok:
  assumes "config_fits cfg" and "list_all op_fits cs" and "limiter_ok cfg st"
  shows "\<exists>st'. run_limiter cfg cs st = Some st' \<and> limiter_ok cfg st'"
  using assms(2,3)
proof (induction cs arbitrary: st)
  case (Cons c cs)
  have "\<exists>st1. limiter_step cfg c st = Some st1 \<and> limiter_ok cfg st1"
  proof (cases c)
    case (Acquire now key permits)
    then have "permits \<le> u32_max" using Cons.prems(1) by simp
    from limiter_acquire_ok [OF assms(1) Cons.prems(2) this, of key now] Acquire show ?thesis by auto
  next
    case (Penalize now key d)
    with limiter_penalize_ok [OF assms(1) Cons.prems(2)] show ?thesis by simp
  qed
  with Cons show ?case by auto
qed simp

lemma limiter_ok_empty: "limiter_ok cfg []"
  by (simp add: limiter_ok_def)

section \<open>Penalties\<close>

text \<open>
  The contract of a limiter that backs off: an acquire leaves deadlines alone, a penalty only
  moves them forward, and a governed key is refused until its deadline.
\<close>

locale penalizing_limiter =
  fixes acquire :: "'k \<Rightarrow> nat \<Rightarrow> instant \<Rightarrow> 's \<Rightarrow> ((duration, unit) result \<times> 's) option"
    and penalize :: "'k \<Rightarrow> duration \<Rightarrow> instant \<Rightarrow> 's \<Rightarrow> 's"
    and deadline :: "'s \<Rightarrow> 'k \<Rightarrow> instant"
    and governed :: "'k \<Rightarrow> bool"
    and wf :: "'s \<Rightarrow> bool"
  assumes acquire_wf: "wf s \<Longrightarrow> acquire k p now s = Some (r, s') \<Longrightarrow> wf s'"
    and penalize_wf: "wf s \<Longrightarrow> wf (penalize k d now s)"
    and acquire_deadline: "acquire k p now s = Some (r, s') \<Longrightarrow> deadline s' k' = deadline s k'"
    and penalize_deadline: "deadline s k' \<le> deadline (penalize k d now s) k'"
    and penalize_sets: "wf s \<Longrightarrow> governed k \<Longrightarrow> now + d \<le> deadline (penalize k d now s) k"
    and refuses: "governed k \<Longrightarrow> now < deadline s k \<Longrightarrow> acquire k p now s = Some (r, s') \<Longrightarrow> r \<noteq> Inr ()"
begin

inductive steps :: "'s \<Rightarrow> 's \<Rightarrow> bool" where
  steps_refl: "steps s s"
| steps_acquire: "steps s s1 \<Longrightarrow> acquire k p now s1 = Some (r, s2) \<Longrightarrow> steps s s2"
| steps_penalize: "steps s s1 \<Longrightarrow> steps s (penalize k d now s1)"

lemma steps_deadline: "steps s s' \<Longrightarrow> deadline s k \<le> deadline s' k"
  by (induction rule: steps.induct) (auto simp: acquire_deadline intro: le_trans penalize_deadline)

lemma steps_wf: "steps s s' \<Longrightarrow> wf s \<Longrightarrow> wf s'"
  by (induction rule: steps.induct) (auto intro: acquire_wf penalize_wf)

lemma penalty_holds:
  assumes "wf s" and "governed k" and "steps (penalize k d t s) s'" and "now < t + d"
    and "acquire k p now s' = Some (r, s'')"
  shows "r \<noteq> Inr ()"
  using refuses [OF assms(2) _ assms(5)] penalize_sets [OF assms(1,2), of t d]
    steps_deadline [OF assms(3), of k] assms(4)
  by simp

end

definition slot_deadline :: "token_bucket option \<Rightarrow> instant" where
  "slot_deadline ob = (case ob of Some b \<Rightarrow> (case tb_penalty_until b of Some t \<Rightarrow> t | None \<Rightarrow> 0) | None \<Rightarrow> 0)"

definition kb_deadline :: "key_buckets \<Rightarrow> instant" where
  "kb_deadline kb = max (slot_deadline (kb_rpm kb)) (slot_deadline (kb_tpm kb))"

definition limiter_deadline :: "limiter_state \<Rightarrow> rate_key \<Rightarrow> instant" where
  "limiter_deadline st key = (case map_of st key of Some kb \<Rightarrow> kb_deadline kb | None \<Rightarrow> 0)"

definition limits_key :: "rate_limit_config \<Rightarrow> rate_key \<Rightarrow> bool" where
  "limits_key cfg key \<longleftrightarrow> \<not> limit_is_unlimited (resolve_limit cfg (key_provider key)) \<and>
     \<not> has_zero_limit (resolve_limit cfg (key_provider key))"

lemma slot_deadline_keeps [simp]:
  "slot_deadline (map_option (tb_refill now) ob) = slot_deadline ob"
  "slot_deadline (map_option (tb_commit p) ob) = slot_deadline ob"
  by (cases ob; simp add: slot_deadline_def tb_refill_def tb_commit_def Let_def)+

lemma slot_deadline_penalize:
  "slot_deadline ob \<le> slot_deadline (map_option (tb_penalize d now) ob)"
  "ob \<noteq> None \<Longrightarrow> now + d \<le> slot_deadline (map_option (tb_penalize d now) ob)"
  by (cases ob; auto simp: slot_deadline_def tb_penalize_def Let_def split: option.splits)+

lemma slot_deadline_refuses:
  "now < slot_deadline ob \<Longrightarrow> bucket_wait (map_option (tb_refill now) ob) p now \<noteq> Some None"
  by (auto simp: slot_deadline_def bucket_wait_def tb_check_def penalty_wait_def tb_refill_def Let_def
      split: option.splits if_splits)

lemma kb_acquire_deadline: "kb_acquire p now kb = Some (r, kb') \<Longrightarrow> kb_deadline kb' = kb_deadline kb"
  by (auto simp: kb_acquire_def Let_def bind_eq_Some_conv kb_deadline_def split: option.splits)

lemma kb_acquire_refuses:
  "now < kb_deadline kb \<Longrightarrow> kb_acquire p now kb = Some (r, kb') \<Longrightarrow> r \<noteq> Inr ()"
  using slot_deadline_refuses [of now "kb_rpm kb" "Fin 1"] slot_deadline_refuses [of now "kb_tpm kb" p]
  by (auto simp: kb_acquire_def Let_def bind_eq_Some_conv kb_deadline_def longer_wait_None max_def
      split: option.splits if_splits)

lemma entry_deadline: "kb_deadline (entry_or_new limit now key st) = limiter_deadline st key"
  by (auto simp: entry_or_new_def limiter_deadline_def buckets_for_def kb_deadline_def slot_deadline_def
      from_per_minute_def Let_def split: option.splits)

text \<open>Every key that is limited has at least one bucket.\<close>

definition slots_present :: "rate_limit_config \<Rightarrow> limiter_state \<Rightarrow> bool" where
  "slots_present cfg st \<longleftrightarrow>
     (\<forall>key kb. map_of st key = Some kb \<longrightarrow> limits_key cfg key \<longrightarrow> kb_rpm kb \<noteq> None \<or> kb_tpm kb \<noteq> None)"

lemma entry_slots:
  assumes "slots_present cfg st" and "limits_key cfg key"
  shows "kb_rpm (entry_or_new (resolve_limit cfg (key_provider key)) now key st) \<noteq> None \<or>
    kb_tpm (entry_or_new (resolve_limit cfg (key_provider key)) now key st) \<noteq> None"
  using assms
  by (auto simp: entry_or_new_def slots_present_def buckets_for_def limits_key_def limit_is_unlimited_def
      split: option.splits)

lemma kb_acquire_slots:
  "kb_acquire p now kb = Some (r, kb') \<Longrightarrow> (kb_rpm kb' = None \<longleftrightarrow> kb_rpm kb = None) \<and> (kb_tpm kb' = None \<longleftrightarrow> kb_tpm kb = None)"
  by (auto simp: kb_acquire_def Let_def bind_eq_Some_conv split: option.splits)

lemma limiter_acquire_cases:
  assumes "limiter_acquire cfg key p now st = Some (r, st')"
  shows "\<not> limits_key cfg key \<and> st' = st \<or>
    limits_key cfg key \<and> (\<exists>kb. kb_acquire (f64_of_nat (max p 1)) now
      (entry_or_new (resolve_limit cfg (key_provider key)) now key st) = Some (r, kb) \<and> st' = AList.update key kb st)"
  using assms by (auto simp: limiter_acquire_def limits_key_def Let_def split: if_splits)

lemma limiter_penalize_cases:
  "limiter_penalize cfg key d now st =
     (if limits_key cfg key
      then AList.update key (kb_penalize d now (entry_or_new (resolve_limit cfg (key_provider key)) now key st)) st
      else st)"
  by (simp add: limiter_penalize_def limits_key_def Let_def)

interpretation in_memory: penalizing_limiter "limiter_acquire cfg" "limiter_penalize cfg" limiter_deadline
  "limits_key cfg" "slots_present cfg" for cfg
proof
  fix s s' k k' p now r d
  assume acq: "limiter_acquire cfg k p now s = Some (r, s')"
  show "limiter_deadline s' k' = limiter_deadline s k'"
    using limiter_acquire_cases [OF acq] kb_acquire_deadline entry_deadline
    by (auto simp: limiter_deadline_def map_of_update) 
  show "slots_present cfg s'" if "slots_present cfg s"
    using limiter_acquire_cases [OF acq] kb_acquire_slots entry_slots [OF that, of k now] that
    by (fastforce simp: slots_present_def map_of_update)
  show "r \<noteq> Inr ()" if "limits_key cfg k" "now < limiter_deadline s k"
    using limiter_acquire_cases [OF acq] kb_acquire_refuses entry_deadline that by metis
next
  fix s k k' d now
  show "slots_present cfg (limiter_penalize cfg k d now s)" if "slots_present cfg s"
    using entry_slots [OF that, of k now] that
    by (auto simp: limiter_penalize_cases slots_present_def map_of_update kb_penalize_def)
  let ?e = "entry_or_new (resolve_limit cfg (key_provider k)) now k s"
  have le: "kb_deadline ?e \<le> kb_deadline (kb_penalize d now ?e)"
    using slot_deadline_penalize(1) by (simp add: kb_deadline_def kb_penalize_def max.coboundedI1 max.coboundedI2)
  then show "limiter_deadline s k' \<le> limiter_deadline (limiter_penalize cfg k d now s) k'"
    by (auto simp: limiter_penalize_cases limiter_deadline_def [of "AList.update _ _ _"] map_of_update entry_deadline)
      (simp_all add: limiter_deadline_def)
  show "now + d \<le> limiter_deadline (limiter_penalize cfg k d now s) k" if "slots_present cfg s" "limits_key cfg k"
    using entry_slots [OF that, of now] slot_deadline_penalize(2) that(2)
    by (auto simp: limiter_penalize_cases limiter_deadline_def map_of_update kb_deadline_def kb_penalize_def
        le_max_iff_disj)
qed

section \<open>How much a bucket admits over time\<close>

text \<open>What happens to one bucket: a request it decides on, a request its sibling bucket refuses,
  and a penalty. The second component counts what was taken.\<close>

datatype bucket_event = Request instant nat | Sibling_refused instant | Penalty instant duration

fun apply_event :: "bucket_event \<Rightarrow> token_bucket \<Rightarrow> token_bucket \<times> nat" where
  "apply_event (Request now p) b =
     (let b1 = tb_refill now b in
      if tb_admits now p b1 then (tb_commit (f64_of_nat p) b1, p) else (b1, 0))"
| "apply_event (Sibling_refused now) b = (tb_refill now b, 0)"
| "apply_event (Penalty now d) b = (tb_penalize d now b, 0)"

fun admitted :: "bucket_event list \<Rightarrow> token_bucket \<Rightarrow> nat" where
  "admitted [] b = 0"
| "admitted (e # es) b = (case apply_event e b of (b', p) \<Rightarrow> p + admitted es b')"

fun event_fits :: "instant \<Rightarrow> bucket_event \<Rightarrow> bool" where
  "event_fits last_time (Request now p) \<longleftrightarrow> now \<le> last_time \<and> p \<le> 2 ^ 32"
| "event_fits last_time (Sibling_refused now) \<longleftrightarrow> now \<le> last_time"
| "event_fits last_time (Penalty now d) \<longleftrightarrow> True"

lemma round_up_bound:
  assumes "x = 0 \<or> 1 / 2 ^ k \<le> x" and "x \<le> 2 ^ 200" and "k \<le> 1022"
  shows "\<exists>y. round_f64 x = Fin y \<and> y \<le> x * (1 + 1 / 2 ^ 53) \<and> (x = 0 \<and> y = 0 \<or> 1 / 2 ^ k \<le> y)"
proof (cases "x = 0")
  case False
  with assms(1) have x: "1 / 2 ^ k \<le> x" by blast
  have "(2 :: rat) ^ k \<le> 2 ^ 1022" using assms(3) by (rule power_increasing) simp
  then have "1 / 2 ^ 1022 \<le> (1 / 2 ^ k :: rat)" by (rule divide_left_mono) simp_all
  then have rel: "round_rat x \<le> x * (1 + 1 / 2 ^ 53)"
    by (intro round_rat_relative disjI2 order_trans [OF _ x])
  have low: "1 / 2 ^ k \<le> round_rat x"
    using round_rat_mono [OF x] round_rat_dyadic [of 1 "- int k"] assms(3) by (simp add: powi_neg)
  have "(0 :: rat) < 1 / 2 ^ k" by simp
  then have pos: "0 < x" using x by (rule less_le_trans)
  have "x * (1 + 1 / 2 ^ 53) \<le> 2 ^ 200 * 2" using assms(2) pos by (intro mult_mono) simp_all
  also have "\<dots> = (2 ^ 201 :: rat)" by simp
  also have "(2 ^ 201 :: rat) < 2 ^ 1024" by (rule power_strict_increasing) simp_all
  finally have "round_rat x < 2 ^ 1024" by (rule le_less_trans [OF rel])
  moreover have "0 \<le> round_rat x" using pos by (intro round_rat_nonneg) simp
  ultimately have "\<bar>round_rat x\<bar> < 2 ^ 1024" by (simp only: abs_of_nonneg)
  then have "round_f64 x = Fin (round_rat x)" by (simp add: round_f64_def Let_def)
  with rel low show ?thesis by blast
qed simp

lemma elapsed_bound:
  assumes "0 < d" and "d \<le> u64_max * nanos_per_sec"
  shows "\<exists>e. as_secs_f64 d = Fin e \<and> 1 / 2 ^ 40 \<le> e \<and> e \<le> of_nat d / 10 ^ 9 * (1 + 1 / 2 ^ 53) ^ 2"
proof -
  define s q where "s = d div nanos_per_sec" and "q = d mod nanos_per_sec"
  have d: "rat_of_nat d / 10 ^ 9 = of_nat s + of_nat q / 10 ^ 9"
    using div_mult_mod_eq [of d nanos_per_sec, symmetric] unfolding s_def [symmetric] q_def [symmetric]
    by (simp add: nanos_per_sec_def field_simps flip: of_nat_mult)
  have "s \<le> u64_max" using assms(2) by (simp add: s_def nanos_per_sec_def u64_max_def)
  then have "s < 2 ^ 64" by (simp add: u64_max_def)
  then have s64: "rat_of_nat s \<le> of_nat (2 ^ 64)" by (intro of_nat_le_iff [THEN iffD2] less_imp_le)
  have "s = 0 \<or> 1 \<le> s" by linarith
  then have s: "rat_of_nat s = 0 \<or> 1 / 2 ^ 40 \<le> rat_of_nat s"
    using of_nat_mono [of 1 s, where 'a = rat] by (force simp: field_simps)
  obtain a where a: "f64_of_nat s = Fin a" "a \<le> of_nat s * (1 + 1 / 2 ^ 53)"
    "rat_of_nat s = 0 \<and> a = 0 \<or> 1 / 2 ^ 40 \<le> a"
    using round_up_bound [OF s] s64 by (auto simp: f64_of_nat_def)
  have q9: "q < 10 ^ 9" by (simp add: q_def nanos_per_sec_def)
  have "q = 0 \<or> 1 \<le> q" by linarith
  then have q: "rat_of_nat q / 10 ^ 9 = 0 \<or> 1 / 2 ^ 40 \<le> rat_of_nat q / 10 ^ 9"
    using of_nat_mono [of 1 q, where 'a = rat] by (force simp: field_simps)
  have "rat_of_nat q \<le> of_nat (10 ^ 9)" using q9 by (intro of_nat_le_iff [THEN iffD2]) simp
  then have "rat_of_nat q / 10 ^ 9 \<le> 2 ^ 200" by (simp add: field_simps)
  then obtain b where b: "round_f64 (of_nat q / 10 ^ 9) = Fin b" "b \<le> of_nat q / 10 ^ 9 * (1 + 1 / 2 ^ 53)"
    "rat_of_nat q / 10 ^ 9 = 0 \<and> b = 0 \<or> 1 / 2 ^ 40 \<le> b"
    using round_up_bound [OF q] by auto
  have "f64_of_nat q = Fin (of_nat q)" using q9 by (intro f64_of_nat_exact) simp
  moreover have "f64_of_nat nanos_per_sec = Fin (10 ^ 9)"
    using f64_of_nat_exact [of nanos_per_sec] by (simp add: nanos_per_sec_def)
  ultimately have sum: "as_secs_f64 d = round_f64 (a + b)"
    using b(1) by (simp add: as_secs_f64_def s_def [symmetric] q_def [symmetric] a(1))
  have "s \<noteq> 0 \<or> q \<noteq> 0" using assms(1) by (auto simp: s_def q_def)
  then have ab: "1 / 2 ^ 40 \<le> a + b" using a(3) b(3) by (auto simp: field_simps)
  have up: "a + b \<le> of_nat d / 10 ^ 9 * (1 + 1 / 2 ^ 53)"
    using a(2) b(2) unfolding d distrib_right by (rule add_mono)
  have "rat_of_nat d / 10 ^ 9 \<le> 2 ^ 65" using s64 q9 \<open>rat_of_nat q \<le> of_nat (10 ^ 9)\<close> unfolding d by simp
  then have "a + b \<le> 2 ^ 200" using up by simp
  then obtain e where e: "round_f64 (a + b) = Fin e" "e \<le> (a + b) * (1 + 1 / 2 ^ 53)" "1 / 2 ^ 40 \<le> e"
    using round_up_bound [of "a + b" 40] ab by (auto simp: field_simps)
  have "e \<le> of_nat d / 10 ^ 9 * (1 + 1 / 2 ^ 53) * (1 + 1 / 2 ^ 53)"
    by (rule order_trans [OF e(2) mult_right_mono [OF up]]) simp
  with e sum show ?thesis by (auto simp: power2_eq_square mult.assoc)
qed

definition rate_value :: "token_bucket \<Rightarrow> rat" where
  "rate_value b = (case tb_refill_per_sec b of Fin r \<Rightarrow> r | _ \<Rightarrow> 0)"

definition balance_value :: "token_bucket \<Rightarrow> rat" where
  "balance_value b = (case tb_tokens b of Fin t \<Rightarrow> t | _ \<Rightarrow> 0)"

text \<open>The balance, less what refilling could have added since time zero (with the rounding of
  the elapsed seconds and of the product). No event raises it by more than a rounding error.\<close>

definition potential :: "token_bucket \<Rightarrow> rat" where
  "potential b = balance_value b - rate_value b * (1 + 1 / 2 ^ 53) ^ 3 * of_nat (tb_last b) / 10 ^ 9"

lemma bucket_ok_values:
  assumes "tb.bucket_ok n b"
  shows "tb_tokens b = Fin (balance_value b)" and "- overdraft \<le> balance_value b" and "balance_value b \<le> of_nat n"
    and "tb_refill_per_sec b = Fin (rate_value b)" and "1 / 2 ^ 6 \<le> rate_value b"
proof -
  have "in_bounds (tb_tokens b) (Fin (of_nat n))" using assms by (auto simp: tb.bucket_ok_def)
  from in_bounds_Fin [OF this] show "tb_tokens b = Fin (balance_value b)" "- overdraft \<le> balance_value b"
    "balance_value b \<le> of_nat n"
    by (auto simp: balance_value_def)
  have "rate_defined b" using assms by (simp add: tb.bucket_ok_def)
  then show "tb_refill_per_sec b = Fin (rate_value b)" "1 / 2 ^ 6 \<le> rate_value b"
    by (cases "tb_refill_per_sec b"; simp add: rate_defined_def rate_value_def)+
qed

lemma refill_gain:
  assumes ok: "tb.bucket_ok n b" and r: "rate_value b \<le> 2 ^ 32" and d: "tb_last b < now" "now \<le> u64_max * nanos_per_sec"
  shows "\<exists>g. f64_mul (as_secs_f64 (now - tb_last b)) (tb_refill_per_sec b) = Fin g \<and>
    g \<le> rate_value b * (1 + 1 / 2 ^ 53) ^ 3 * of_nat (now - tb_last b) / 10 ^ 9"
proof -
  let ?r = "rate_value b" let ?D = "rat_of_nat (now - tb_last b) / 10 ^ 9" let ?k = "1 + 1 / 2 ^ 53 :: rat"
  have "0 < now - tb_last b" "now - tb_last b \<le> u64_max * nanos_per_sec" using d by simp_all
  from elapsed_bound [OF this] obtain e where e: "as_secs_f64 (now - tb_last b) = Fin e" "1 / 2 ^ 40 \<le> e"
    "e \<le> ?D * ?k ^ 2" by blast
  have rpos: "1 / 2 ^ 6 \<le> ?r" by (rule bucket_ok_values [OF ok])
  have D: "?D \<le> 2 ^ 64"
  proof -
    have "now - tb_last b \<le> 2 ^ 64 * 10 ^ 9" using d(2) by (simp add: u64_max_def nanos_per_sec_def)
    then have "rat_of_nat (now - tb_last b) \<le> of_nat (2 ^ 64 * 10 ^ 9)" by (rule of_nat_le_iff [THEN iffD2])
    then show ?thesis unfolding of_nat_mult of_nat_power by (simp only: of_nat_numeral divide_le_eq) simp
  qed
  have "e \<le> 2 ^ 64 * ?k ^ 2" by (rule order_trans [OF e(3) mult_right_mono [OF D]]) simp
  also have "\<dots> \<le> 2 ^ 66" by (simp add: power2_eq_square)
  finally have e66: "e \<le> 2 ^ 66" .
  have e0: "0 \<le> e" using e(2) by (rule order_trans [rotated]) simp
  have r0: "0 \<le> ?r" using rpos by (rule order_trans [rotated]) simp
  have "e * ?r \<le> 2 ^ 66 * 2 ^ 32" using e66 r r0 by (intro mult_mono) simp_all
  also have "\<dots> \<le> (2 ^ 200 :: rat)" by simp
  finally have big: "e * ?r \<le> 2 ^ 200" .
  have "1 / 2 ^ 40 * (1 / 2 ^ 6) \<le> e * ?r" using e(2) rpos e0 by (intro mult_mono) simp_all
  then have "1 / 2 ^ 46 \<le> e * ?r" by simp
  with round_up_bound [of "e * ?r" 46] big obtain g where
    g: "round_f64 (e * ?r) = Fin g" "g \<le> e * ?r * ?k"
    by auto
  have "e * ?r * ?k \<le> ?D * ?k ^ 2 * ?r * ?k" using e(3) r0 by (intro mult_right_mono) simp_all
  then have "g \<le> ?r * ?k ^ 3 * of_nat (now - tb_last b) / 10 ^ 9"
    using g(2) by (simp only: power3_eq_cube power2_eq_square times_divide_eq_left times_divide_eq_right mult_ac)
  with g(1) e(1) bucket_ok_values(4) [OF ok] show ?thesis by auto
qed

lemma refill_potential:
  assumes ok: "tb.bucket_ok n b" and r: "rate_value b \<le> 2 ^ 32" and t: "now \<le> u64_max * nanos_per_sec"
  shows "potential (tb_refill now b) \<le> potential b + 1 / 2 ^ 19"
proof (cases "f64_lt (Fin 0) (as_secs_f64 (saturating_duration_since now (tb_last b)))")
  case False
  then show ?thesis by (simp add: tb_refill_def Let_def)
next
  case True
  have zero: "as_secs_f64 0 = Fin 0"
    using f64_of_nat_exact [of nanos_per_sec] by (simp add: as_secs_f64_def nanos_per_sec_def)
  with True have late: "tb_last b < now" by (cases "tb_last b < now") (auto simp: saturating_duration_since_def)
  then have el: "saturating_duration_since now (tb_last b) = now - tb_last b"
    by (simp add: saturating_duration_since_def)
  let ?gain = "rate_value b * (1 + 1 / 2 ^ 53) ^ 3 * of_nat (now - tb_last b) / 10 ^ 9"
  obtain g where g: "f64_mul (as_secs_f64 (now - tb_last b)) (tb_refill_per_sec b) = Fin g" "g \<le> ?gain"
    using refill_gain [OF ok r late t] by blast
  note vals = bucket_ok_values [OF ok]
  have cap: "tb_capacity b = Fin (of_nat n)" "n \<le> 2 ^ 32" using ok by (simp_all add: tb.bucket_ok_def)
  have ok': "tb.bucket_ok n (tb_refill now b)" using ok by (rule tb.refill_ok)
  have tok: "tb_tokens (tb_refill now b) = f64_min (round_f64 (balance_value b + g)) (Fin (of_nat n))"
    using True g(1) vals(1) cap(1) by (simp add: tb_refill_def el)
  have g0: "0 \<le> g"
    using f64_mul_nonneg [OF as_secs_f64_nonneg rate_nonneg, of "tb_refill_per_sec b" "now - tb_last b"] g(1) vals(4,5)
    by simp
  have gain: "balance_value (tb_refill now b) \<le> balance_value b + g + 1 / 2 ^ 19"
  proof (cases "rat_of_nat n \<le> balance_value b + g")
    case True
    have "(0 :: rat) \<le> 1 / 2 ^ 19" by simp
    with True bucket_ok_values(3) [OF ok'] show ?thesis by linarith
  next
    case False
    have "rat_of_nat n \<le> of_nat (2 ^ 32)" using cap(2) by (rule of_nat_le_iff [THEN iffD2])
    then have "\<bar>balance_value b + g\<bar> \<le> 2 ^ 33" using False vals(2) g0 by (simp add: abs_le_iff overdraft_def)
    then have err: "\<bar>round_rat (balance_value b + g) - (balance_value b + g)\<bar> \<le> 1 / 2 ^ 19"
      and fin: "\<exists>z. round_f64 (balance_value b + g) = Fin z \<and> z = round_rat (balance_value b + g)"
      using round_rat_absolute round_f64_moderate by blast+
    then have "balance_value (tb_refill now b) \<le> round_rat (balance_value b + g)"
      using tok by (auto simp: f64_min_def balance_value_def [of "tb_refill now b"])
    with err show ?thesis by linarith
  qed
  have "tb_last (tb_refill now b) = now" "rate_value (tb_refill now b) = rate_value b"
    using True by (simp_all add: tb_refill_def rate_value_def Let_def)
  moreover have "?gain = rate_value b * (1 + 1 / 2 ^ 53) ^ 3 * of_nat now / 10 ^ 9
      - rate_value b * (1 + 1 / 2 ^ 53) ^ 3 * of_nat (tb_last b) / 10 ^ 9"
    using late by (simp only: of_nat_diff [OF less_imp_le [OF late]] right_diff_distrib diff_divide_distrib)
  moreover have "x \<le> y - z" if "x \<le> g'" "g' = y - z" for x y z g' :: rat using that by simp
  ultimately have "g \<le> rate_value b * (1 + 1 / 2 ^ 53) ^ 3 * of_nat now / 10 ^ 9
      - rate_value b * (1 + 1 / 2 ^ 53) ^ 3 * of_nat (tb_last b) / 10 ^ 9"
    using g(2) by blast
  moreover have "x - a' \<le> y - c + e" if "x \<le> y + g' + e" "g' \<le> a' - c" for x y a' c e g' :: rat
    using that by simp
  ultimately show ?thesis
    unfolding potential_def \<open>tb_last (tb_refill now b) = now\<close> \<open>rate_value (tb_refill now b) = rate_value b\<close>
    using gain by blast
qed

lemma commit_potential:
  assumes ok: "tb.bucket_ok n b" and p: "p \<le> 2 ^ 32"
  shows "potential (tb_commit (f64_of_nat p) b) \<le> potential b - of_nat p + 1 / 2 ^ 19"
proof -
  note vals = bucket_ok_values [OF ok]
  have cap: "n \<le> 2 ^ 32" using ok by (simp add: tb.bucket_ok_def)
  have exact: "f64_of_nat p = Fin (of_nat p)" using p by (intro f64_of_nat_exact) simp
  have "rat_of_nat n \<le> of_nat (2 ^ 32)" "rat_of_nat p \<le> of_nat (2 ^ 32)"
    using cap p by (simp_all only: of_nat_le_iff)
  then have "\<bar>balance_value b - of_nat p\<bar> \<le> 2 ^ 33" using vals(2,3) by (simp add: abs_le_iff overdraft_def)
  then have err: "\<bar>round_rat (balance_value b - of_nat p) - (balance_value b - of_nat p)\<bar> \<le> 1 / 2 ^ 19"
    and "\<exists>z. round_f64 (balance_value b - of_nat p) = Fin z \<and> z = round_rat (balance_value b - of_nat p)"
    using round_rat_absolute round_f64_moderate by blast+
  then have "balance_value (tb_commit (f64_of_nat p) b) = round_rat (balance_value b - of_nat p)"
    using vals(1) by (auto simp: tb_commit_def f64_sub_def exact balance_value_def [of "tb_tokens_update _ b"])
  then have "balance_value (tb_commit (f64_of_nat p) b) \<le> balance_value b - of_nat p + 1 / 2 ^ 19"
    using err by linarith
  then show ?thesis by (simp add: potential_def tb_commit_def rate_value_def)
qed

lemma penalize_potential:
  assumes "tb.bucket_ok n b"
  shows "potential (tb_penalize d now b) \<le> potential b + 1 / 2 ^ 19"
  using bucket_ok_values(2) [OF assms]
  by (simp add: potential_def tb_penalize_def Let_def rate_value_def balance_value_def overdraft_def)

lemma event_bound:
  assumes "tb.bucket_ok n b" and "rate_value b \<le> 2 ^ 32" and "event_fits stop e" and "stop \<le> u64_max * nanos_per_sec"
    and "tb_last b \<le> stop" and "apply_event e b = (b', p)"
  shows "tb.bucket_ok n b'" and "rate_value b' = rate_value b" and "tb_last b' \<le> stop"
    and "of_nat p \<le> potential b - potential b' + 2 / 2 ^ 19"
proof -
  have rf: "rate_value (tb_refill now b) = rate_value b" "now \<le> stop \<Longrightarrow> tb_last (tb_refill now b) \<le> stop" for now
    using assms(5) by (auto simp: tb_refill_def rate_value_def Let_def)
  have "tb.bucket_ok n b' \<and> rate_value b' = rate_value b \<and> tb_last b' \<le> stop \<and>
      of_nat p \<le> potential b - potential b' + 2 / 2 ^ 19"
  proof (cases e)
    case (Request now q)
    with assms(3,4) have now: "now \<le> stop" "now \<le> u64_max * nanos_per_sec" and q: "q \<le> 2 ^ 32" by auto
    have ok: "tb.bucket_ok n (tb_refill now b)" using assms(1) by (rule tb.refill_ok)
    note pot = refill_potential [OF assms(1,2) now(2)] commit_potential [OF ok q]
    show ?thesis
    proof (cases "tb_admits now q (tb_refill now b)")
      case True
      with Request assms(6) have "b' = tb_commit (f64_of_nat q) (tb_refill now b)" "p = q" by auto
      with pot tb.take_ok [OF ok True q] rf(1) rf(2) [OF now(1)] show ?thesis
        by (simp add: tb_commit_def rate_value_def)
    next
      case False
      with Request assms(6) have "b' = tb_refill now b" "p = 0" by auto
      with pot(1) ok rf(1) rf(2) [OF now(1)] show ?thesis by simp
    qed
  next
    case (Sibling_refused now)
    with assms(3,4) have now: "now \<le> stop" "now \<le> u64_max * nanos_per_sec" by auto
    with Sibling_refused assms(6) refill_potential [OF assms(1,2) now(2)] tb.refill_ok [OF assms(1)] rf(1) rf(2) [OF now(1)]
    show ?thesis by auto
  next
    case (Penalty now d)
    with assms(5,6) penalize_potential [OF assms(1), of d now] penalize_ok [OF assms(1)] show ?thesis
      by (auto simp: tb_penalize_def rate_value_def Let_def)
  qed
  then show "tb.bucket_ok n b'" and "rate_value b' = rate_value b" and "tb_last b' \<le> stop"
    and "of_nat p \<le> potential b - potential b' + 2 / 2 ^ 19" by blast+
qed

lemma admitted_bound:
  assumes "tb.bucket_ok n b" and "rate_value b \<le> 2 ^ 32" and "list_all (event_fits stop) es"
    and "stop \<le> u64_max * nanos_per_sec" and "tb_last b \<le> stop"
  shows "of_nat (admitted es b) \<le> potential b + overdraft
    + rate_value b * (1 + 1 / 2 ^ 53) ^ 3 * of_nat stop / 10 ^ 9 + of_nat (length es) * (2 / 2 ^ 19)"
  using assms(1-3,5)
proof (induction es arbitrary: b)
  case Nil
  have r: "0 \<le> rate_value b * (1 + 1 / 2 ^ 53) ^ 3"
    using bucket_ok_values(5) [OF Nil.prems(1)] by (intro mult_nonneg_nonneg) (auto intro: order_trans [rotated])
  have "rate_value b * (1 + 1 / 2 ^ 53) ^ 3 * of_nat (tb_last b) / 10 ^ 9 \<le>
      rate_value b * (1 + 1 / 2 ^ 53) ^ 3 * of_nat stop / 10 ^ 9"
    using Nil.prems(4) r by (intro divide_right_mono mult_left_mono) simp_all
  with bucket_ok_values(2) [OF Nil.prems(1)] show ?case by (simp add: potential_def)
next
  case (Cons e es)
  obtain b' p where ev: "apply_event e b = (b', p)" by fastforce
  note bound = event_bound [OF Cons.prems(1,2) _ assms(4) Cons.prems(4) ev]
  have fit: "event_fits stop e" "list_all (event_fits stop) es" using Cons.prems(3) by simp_all
  have "rate_value b' \<le> 2 ^ 32" using bound(2) [OF fit(1)] Cons.prems(2) by simp
  note ih = Cons.IH [OF bound(1) [OF fit(1)] this fit(2) bound(3) [OF fit(1)]]
  then show ?case
    using bound(2,4) [OF fit(1)] ev by (simp add: add_divide_distrib)
qed

lemma new_rate_value:
  assumes "n \<le> u32_max" and "n \<noteq> 0"
  shows "rate_value (from_per_minute (f64_of_nat n) now) \<le> of_nat n / 60 * (1 + 1 / 2 ^ 53)"
proof -
  have n: "n \<le> 2 ^ 32" using assms(1) by (simp add: u32_max_def)
  then have exact: "f64_of_nat n = Fin (of_nat n)" by (intro f64_of_nat_exact) simp
  have "rat_of_nat 1 \<le> of_nat n" "rat_of_nat n \<le> of_nat (2 ^ 32)"
    using assms(2) n by (simp_all only: of_nat_le_iff)
  then have "1 / 2 ^ 6 \<le> rat_of_nat n / 60" "rat_of_nat n / 60 \<le> 2 ^ 200" by simp_all
  with round_up_bound [of "of_nat n / 60" 6] obtain r where
    r: "round_f64 (of_nat n / 60) = Fin r" "r \<le> of_nat n / 60 * (1 + 1 / 2 ^ 53)" "1 / 2 ^ 6 \<le> r"
    by auto
  have "1 / 2 ^ 1022 \<le> (1 / 2 ^ 6 :: rat)" by (rule divide_left_mono) (simp_all add: power_increasing)
  then have "f64_max (Fin r) MIN_POSITIVE = Fin r" using r(3) by (simp add: f64_max_def MIN_POSITIVE_def)
  with r(1,2) assms(2) show ?thesis by (simp add: rate_value_def from_per_minute_def exact Let_def)
qed

lemma no_wait:
  "bucket_wait ob (f64_of_nat p) now = Some None \<longleftrightarrow> (\<forall>b. ob = Some b \<longrightarrow> tb_admits now p b)"
  by (auto simp: bucket_wait_def tb_admits_def split: option.splits sum.splits)

lemma kb_acquire_cases:
  assumes "kb_acquire p now kb = Some (r, kb')"
  shows "if bucket_wait (map_option (tb_refill now) (kb_rpm kb)) (Fin 1) now = Some None \<and>
      bucket_wait (map_option (tb_refill now) (kb_tpm kb)) p now = Some None
    then r = Inr () \<and> kb' = \<lparr>kb_rpm = map_option (tb_commit (Fin 1)) (map_option (tb_refill now) (kb_rpm kb)),
            kb_tpm = map_option (tb_commit p) (map_option (tb_refill now) (kb_tpm kb))\<rparr>
    else r \<noteq> Inr () \<and> kb' = \<lparr>kb_rpm = map_option (tb_refill now) (kb_rpm kb), kb_tpm = map_option (tb_refill now) (kb_tpm kb)\<rparr>"
  using assms
  by (auto simp: kb_acquire_def Let_def bind_eq_Some_conv longer_wait_def split: option.splits)

section \<open>Properties\<close>

text \<open>C12. What a bucket admits. However requests, refusals by the sibling bucket and penalties follow each
  other, and in whatever order their clocks were read, the tokens a bucket of \<open>n\<close> per minute has
  let through by some time are at most one burst plus \<open>n\<close> per minute elapsed, up to a relative
  error of \<open>2 ^ -50\<close> and two roundings of \<open>2 ^ -19\<close> tokens per event.\<close>

theorem bucket_rate_bound:
  assumes "n \<noteq> 0" and "n \<le> u32_max" and "list_all (event_fits stop) es"
    and "start \<le> stop" and "stop \<le> u64_max * nanos_per_sec"
  shows "of_nat (admitted es (from_per_minute (f64_of_nat n) start)) \<le>
    of_nat n * (1 + of_nat (stop - start) / (60 * 10 ^ 9) * (1 + 1 / 2 ^ 50)) + (2 * of_nat (length es) + 1) / (2 ^ 19 :: rat)"
proof -
  let ?b = "from_per_minute (f64_of_nat n) start" let ?k = "1 + 1 / 2 ^ 53 :: rat"
  have ok: "tb.bucket_ok n ?b" using assms(1,2) by (intro new_bucket_ok)
  have r: "rate_value ?b \<le> of_nat n / 60 * ?k" by (rule new_rate_value [OF assms(2,1)])
  have "rat_of_nat n \<le> of_nat (2 ^ 32)" using assms(2) by (intro of_nat_le_iff [THEN iffD2]) (simp add: u32_max_def)
  with r have r32: "rate_value ?b \<le> 2 ^ 32" by simp
  have exact: "f64_of_nat n = Fin (of_nat n)" using assms(2) by (intro f64_of_nat_exact) (simp add: u32_max_def)
  have last: "tb_last ?b = start" by (simp add: from_per_minute_def Let_def)
  have bal: "balance_value ?b \<le> of_nat n" by (rule bucket_ok_values [OF ok])
  note total = admitted_bound [OF ok r32 assms(3,5)]
  have "rate_value ?b * ?k ^ 3 * of_nat stop / 10 ^ 9 - rate_value ?b * ?k ^ 3 * of_nat start / 10 ^ 9 =
      rate_value ?b * ?k ^ 3 * (of_nat (stop - start) / 10 ^ 9)"
    using assms(4) by (simp add: of_nat_diff right_diff_distrib diff_divide_distrib)
  also have "\<dots> \<le> of_nat n / 60 * ?k * ?k ^ 3 * (of_nat (stop - start) / 10 ^ 9)"
    using r by (intro mult_right_mono) simp_all
  also have "of_nat n / 60 * ?k * ?k ^ 3 \<le> of_nat n / 60 * (1 + 1 / 2 ^ 50)"
    unfolding mult.assoc by (intro mult_left_mono) (simp_all add: power3_eq_cube)
  then have "of_nat n / 60 * ?k * ?k ^ 3 * (of_nat (stop - start) / 10 ^ 9) \<le>
      of_nat n / 60 * (1 + 1 / 2 ^ 50) * (of_nat (stop - start) / 10 ^ 9)"
    by (rule mult_right_mono) simp
  finally have acc: "rate_value ?b * ?k ^ 3 * of_nat stop / 10 ^ 9 - rate_value ?b * ?k ^ 3 * of_nat start / 10 ^ 9 \<le>
      of_nat n * (of_nat (stop - start) / (60 * 10 ^ 9) * (1 + 1 / 2 ^ 50))"
    by (simp add: field_simps)
  have "of_nat (admitted es ?b) \<le> balance_value ?b
      + (rate_value ?b * ?k ^ 3 * of_nat stop / 10 ^ 9 - rate_value ?b * ?k ^ 3 * of_nat start / 10 ^ 9)
      + (overdraft + of_nat (length es) * (2 / 2 ^ 19))"
    using total assms(4) unfolding potential_def last by simp
  also have "\<dots> \<le> of_nat n + of_nat n * (of_nat (stop - start) / (60 * 10 ^ 9) * (1 + 1 / 2 ^ 50))
      + (overdraft + of_nat (length es) * (2 / 2 ^ 19))"
    by (intro add_mono bal acc order_refl)
  also have "overdraft + of_nat (length es) * (2 / 2 ^ 19) = (2 * of_nat (length es) + 1) / (2 ^ 19 :: rat)"
    by (simp add: overdraft_def add_divide_distrib)
  finally show ?thesis by (simp only: distrib_left mult_1_right)
qed

text \<open>No sequence of acquires and penalties makes the limiter panic, and after it every bucket has the
  capacity its limit gives it and a balance between minus \<open>2 ^ -19\<close> and that capacity.\<close>

lemma limiter_balances:
  assumes "config_fits cfg" and "list_all op_fits cs"
  shows "\<exists>st. run_limiter cfg cs [] = Some st \<and>
    (\<forall>key kb n b. map_of st key = Some kb \<longrightarrow>
       kb_rpm kb = Some b \<and> limit_rpm (resolve_limit cfg (key_provider key)) = Some n \<or>
       kb_tpm kb = Some b \<and> limit_tpm (resolve_limit cfg (key_provider key)) = Some n \<longrightarrow>
       tb_capacity b = Fin (of_nat n) \<and> in_bounds (tb_tokens b) (tb_capacity b))"
proof -
  obtain st where st: "run_limiter cfg cs [] = Some st" "limiter_ok cfg st"
    using limiter_run_ok [OF assms limiter_ok_empty] by blast
  have "tb_capacity b = Fin (of_nat n) \<and> in_bounds (tb_tokens b) (tb_capacity b)"
    if "map_of st key = Some kb"
      "kb_rpm kb = Some b \<and> limit_rpm (resolve_limit cfg (key_provider key)) = Some n \<or>
       kb_tpm kb = Some b \<and> limit_tpm (resolve_limit cfg (key_provider key)) = Some n" for key kb n b
  proof -
    have "kb_ok (resolve_limit cfg (key_provider key)) kb" using st(2) that(1) by (simp add: limiter_ok_def)
    then show ?thesis using that(2) by (auto simp: kb_ok_def slot_ok_def tb.bucket_ok_def)
  qed
  with st(1) show ?thesis by blast
qed

text \<open>A request is admitted exactly when both of its key's refilled buckets have room, and then both are
  debited; otherwise neither is. Other keys are not touched.\<close>

lemma acquire_both_or_neither:
  assumes "limits_key cfg key" and "limiter_acquire cfg key permits now st = Some (r, st')"
  shows "\<exists>rpm tpm.
    rpm = map_option (tb_refill now) (kb_rpm (entry_or_new (resolve_limit cfg (key_provider key)) now key st)) \<and>
    tpm = map_option (tb_refill now) (kb_tpm (entry_or_new (resolve_limit cfg (key_provider key)) now key st)) \<and>
    (r = Inr () \<longleftrightarrow> (\<forall>b. rpm = Some b \<longrightarrow> tb_admits now 1 b) \<and> (\<forall>b. tpm = Some b \<longrightarrow> tb_admits now (max permits 1) b)) \<and>
    map_of st' key = Some (if r = Inr ()
      then \<lparr>kb_rpm = map_option (tb_commit (Fin 1)) rpm, kb_tpm = map_option (tb_commit (f64_of_nat (max permits 1))) tpm\<rparr>
      else \<lparr>kb_rpm = rpm, kb_tpm = tpm\<rparr>) \<and>
    (\<forall>k. k \<noteq> key \<longrightarrow> map_of st' k = map_of st k)"
proof -
  define kb where "kb = entry_or_new (resolve_limit cfg (key_provider key)) now key st"
  obtain kb' where kb': "kb_acquire (f64_of_nat (max permits 1)) now kb = Some (r, kb')" "st' = AList.update key kb' st"
    using limiter_acquire_cases [OF assms(2)] assms(1) by (auto simp: kb_def)
  have one: "bucket_wait ob (Fin 1) now = Some None \<longleftrightarrow> (\<forall>b. ob = Some b \<longrightarrow> tb_admits now 1 b)" for ob
    using no_wait [of ob 1 now] by (simp add: f64_of_nat_1)
  from kb_acquire_cases [OF kb'(1)] have
    "r = Inr () \<longleftrightarrow> bucket_wait (map_option (tb_refill now) (kb_rpm kb)) (Fin 1) now = Some None \<and>
      bucket_wait (map_option (tb_refill now) (kb_tpm kb)) (f64_of_nat (max permits 1)) now = Some None"
    by (auto split: if_splits)
  then have "r = Inr () \<longleftrightarrow> (\<forall>b. map_option (tb_refill now) (kb_rpm kb) = Some b \<longrightarrow> tb_admits now 1 b) \<and>
      (\<forall>b. map_option (tb_refill now) (kb_tpm kb) = Some b \<longrightarrow> tb_admits now (max permits 1) b)"
    by (simp only: one no_wait)
  moreover from kb_acquire_cases [OF kb'(1)] have
    "kb' = (if r = Inr ()
      then \<lparr>kb_rpm = map_option (tb_commit (Fin 1)) (map_option (tb_refill now) (kb_rpm kb)),
            kb_tpm = map_option (tb_commit (f64_of_nat (max permits 1))) (map_option (tb_refill now) (kb_tpm kb))\<rparr>
      else \<lparr>kb_rpm = map_option (tb_refill now) (kb_rpm kb), kb_tpm = map_option (tb_refill now) (kb_tpm kb)\<rparr>)"
    by (auto split: if_splits)
  ultimately show ?thesis using kb'(2) unfolding kb_def [symmetric] by (auto simp: map_of_update)
qed

text \<open>A penalty holds. After a key is penalized, and whatever other acquires and penalties follow in any
  order, no request of that key is admitted before the penalty has run its course.\<close>

lemma penalty_respected:
  assumes "run_limiter cfg cs [] = Some st" and "limits_key cfg key"
    and "run_limiter cfg ds (limiter_penalize cfg key d t st) = Some st'"
    and "now < t + d" and "limiter_acquire cfg key permits now st' = Some (r, st'')"
  shows "r \<noteq> Inr ()"
proof -
  have steps: "in_memory.steps cfg s s'" if "run_limiter cfg es s = Some s'" for es s s'
    using that
  proof (induction es arbitrary: s' rule: rev_induct)
    case Nil
    then show ?case by (simp add: in_memory.steps_refl)
  next
    case (snoc c es)
    have "run_limiter cfg (es @ [c]) s = Option.bind (run_limiter cfg es s) (limiter_step cfg c)" for s
      by (induction es arbitrary: s) (auto split: bind_split)
    with snoc.prems obtain s1 where s1: "run_limiter cfg es s = Some s1" "limiter_step cfg c s1 = Some s'"
      by (auto simp: bind_eq_Some_conv)
    with snoc.IH [OF s1(1)] show ?case
      by (cases c) (auto intro: in_memory.steps_acquire in_memory.steps_penalize)
  qed
  have "slots_present cfg []" by (simp add: slots_present_def)
  then have "slots_present cfg st" using in_memory.steps_wf [OF steps [OF assms(1)]] by blast
  then show ?thesis by (rule in_memory.penalty_holds [OF _ assms(2) steps [OF assms(3)] assms(4,5)])
qed

text \<open>A request that asks for more tokens than the limit per minute is refused in every reachable
  state, however long it waits.\<close>

lemma oversized_never_admitted:
  assumes "config_fits cfg" and "list_all op_fits cs" and "run_limiter cfg cs [] = Some st"
    and "limits_key cfg key" and "limit_tpm (resolve_limit cfg (key_provider key)) = Some n"
    and "n < permits" and "permits \<le> u32_max"
  shows "\<exists>w st'. limiter_acquire cfg key permits now st = Some (Inl w, st')"
proof -
  have ok: "limiter_ok cfg st" using limiter_run_ok [OF assms(1,2) limiter_ok_empty] assms(3) by auto
  obtain r st' where acq: "limiter_acquire cfg key permits now st = Some (r, st')"
    using limiter_acquire_ok [OF assms(1) ok assms(7)] by blast
  define e where "e = entry_or_new (resolve_limit cfg (key_provider key)) now key st"
  have p: "max permits 1 \<le> 2 ^ 32" "n < max permits 1" using assms(6,7) by (simp_all add: u32_max_def)
  have "kb_ok (resolve_limit cfg (key_provider key)) e"
    unfolding e_def using assms(1,4) ok by (intro entry_ok) (simp_all add: limits_key_def)
  then obtain b where b: "kb_tpm e = Some b" "tb.bucket_ok n b"
    using assms(5) by (auto simp: kb_ok_def slot_ok_def split: option.splits)
  have "\<not> tb_admits now (max permits 1) (tb_refill now b)"
    by (rule tb.oversized [OF tb.refill_ok [OF b(2)] p])
  then have "bucket_wait (map_option (tb_refill now) (kb_tpm e)) (f64_of_nat (max permits 1)) now \<noteq> Some None"
    using b(1) by (auto simp: bucket_wait_def tb_admits_def split: option.splits sum.splits)
  then have "r \<noteq> Inr ()"
    using limiter_acquire_cases [OF acq] assms(4) unfolding e_def [symmetric]
    by (auto simp: kb_acquire_def Let_def bind_eq_Some_conv longer_wait_None split: option.splits)
  then show ?thesis using acq by (cases r) auto
qed

subsection \<open>Instances\<close>

definition demo_config :: rate_limit_config where
  "demo_config = with_global (Some 60) (Some 1000)"

definition demo_key :: rate_key where
  "demo_key = \<lparr>key_provider = ''openai'', key_tenant = None\<rparr>"

lemma demo_limits:
  "resolve_limit demo_config p = \<lparr>limit_rpm = Some 60, limit_tpm = Some 1000\<rparr>"
  "limits_key demo_config demo_key" "config_fits demo_config"
  by (simp_all add: demo_config_def with_global_def resolve_limit_def limits_key_def limit_is_unlimited_def
      has_zero_limit_def config_fits_def u32_max_def)

theorem bucket_rate_bound_witness:
  "of_nat (admitted [Request 0 40, Penalty 5 7, Request (60 * 10 ^ 9) 30] (from_per_minute (f64_of_nat 60) 0)) \<le>
     of_nat 60 * (1 + of_nat (60 * 10 ^ 9 - 0) / (60 * 10 ^ 9) * (1 + 1 / 2 ^ 50)) + (2 * of_nat 3 + 1) / (2 ^ 19 :: rat)"
  using bucket_rate_bound [of 60 "60 * 10 ^ 9" "[Request 0 40, Penalty 5 7, Request (60 * 10 ^ 9) 30]" 0]
  by (simp add: u32_max_def u64_max_def nanos_per_sec_def)

lemma demo_acquire: "\<exists>r st'. limiter_acquire demo_config demo_key 400 5 [] = Some (r, st')"
  using limiter_acquire_ok [OF demo_limits(3) limiter_ok_empty, of 400 demo_key 5] by (auto simp: u32_max_def)

end
