(* ===== verification/Estimate.thy ===== *)
theory Estimate
  imports Budget
begin

text \<open>
  Token estimation for rate admission (\<open>src/proxy/ratelimit.rs\<close>, \<open>estimate_*\<close> and the helpers below
  them). Rendering JSON is \<open>serde_json\<close>'s: the length in bytes of a value's text is the argument
  \<open>text_len\<close>. The catalog and its builtin table are arguments as in \<open>Catalog\<close>.
\<close>

definition DEFAULT_MAX_TOKENS_ESTIMATE :: nat where "DEFAULT_MAX_TOKENS_ESTIMATE = 1024"

definition saturating_add_usize :: "nat \<Rightarrow> nat \<Rightarrow> nat" where
  "saturating_add_usize a b = min usize_max (a + b)"

definition clamp_u32 :: "nat \<Rightarrow> nat" where
  "clamp_u32 n = max 1 (min u32_max n)"

section \<open>Native bodies\<close>

definition GEMINI_OUTPUT_TOKEN_PATHS :: "string list list" where
  "GEMINI_OUTPUT_TOKEN_PATHS =
     [[''generationConfig'', ''maxOutputTokens''], [''generationConfig'', ''max_output_tokens''],
      [''generation_config'', ''maxOutputTokens''], [''generation_config'', ''max_output_tokens'']]"

definition GEMINI_CANDIDATE_COUNT_PATHS :: "string list list" where
  "GEMINI_CANDIDATE_COUNT_PATHS =
     [[''generationConfig'', ''candidateCount''], [''generationConfig'', ''candidate_count''],
      [''generation_config'', ''candidateCount''], [''generation_config'', ''candidate_count'']]"

definition GEMINI_THINKING_BUDGET_PATHS :: "string list list" where
  "GEMINI_THINKING_BUDGET_PATHS =
     [[''generationConfig'', ''thinkingConfig'', ''thinkingBudget''],
      [''generationConfig'', ''thinkingConfig'', ''thinking_budget''],
      [''generationConfig'', ''thinking_config'', ''thinkingBudget''],
      [''generationConfig'', ''thinking_config'', ''thinking_budget''],
      [''generation_config'', ''thinkingConfig'', ''thinkingBudget''],
      [''generation_config'', ''thinkingConfig'', ''thinking_budget''],
      [''generation_config'', ''thinking_config'', ''thinkingBudget''],
      [''generation_config'', ''thinking_config'', ''thinking_budget'']]"

text \<open>\<open>filter_map\<close> and \<open>max\<close> of an iterator.\<close>

definition max_of :: "nat list \<Rightarrow> nat option" where
  "max_of ns = (if ns = [] then None else Some (fold max ns 0))"

definition native_values_at_paths :: "json \<Rightarrow> string list list \<Rightarrow> json list" where
  "native_values_at_paths body paths = List.map_filter (get_path body) paths"

definition native_u64_at_paths :: "json \<Rightarrow> string list list \<Rightarrow> nat option" where
  "native_u64_at_paths body paths = max_of (List.map_filter as_u64 (native_values_at_paths body paths))"

definition native_output_limit_values :: "wire_format \<Rightarrow> json \<Rightarrow> json list" where
  "native_output_limit_values wire body =
     (case wire of
        AnthropicMessages \<Rightarrow> List.map_filter (get body) [''max_tokens'']
      | OpenAiResponses \<Rightarrow> List.map_filter (get body) [''max_output_tokens'']
      | OpenAiChat \<Rightarrow> List.map_filter (get body) [''max_completion_tokens'', ''max_tokens'']
      | GoogleGenerateContent \<Rightarrow> native_values_at_paths body GEMINI_OUTPUT_TOKEN_PATHS)"

definition candidate_controls :: "wire_format \<Rightarrow> json \<Rightarrow> json list" where
  "candidate_controls wire body =
     (case wire of
        OpenAiChat \<Rightarrow> List.map_filter (get body) [''n'', ''best_of'', ''bestOf'']
      | GoogleGenerateContent \<Rightarrow> native_values_at_paths body GEMINI_CANDIDATE_COUNT_PATHS
      | _ \<Rightarrow> [])"

fun max_candidates :: "json list \<Rightarrow> nat \<Rightarrow> nat option" where
  "max_candidates [] c = Some c"
| "max_candidates (v # vs) c =
     (case as_u64 v of Some n \<Rightarrow> if 0 < n then max_candidates vs (max c n) else None | None \<Rightarrow> None)"

definition native_output_candidate_count :: "wire_format \<Rightarrow> json \<Rightarrow> nat option" where
  "native_output_candidate_count wire body = max_candidates (candidate_controls wire body) 1"

definition catalog_output_budget ::
  "(string \<Rightarrow> string option) \<Rightarrow> catalog \<Rightarrow> string \<Rightarrow> string \<Rightarrow> nat option" where
  "catalog_output_budget spec cat provider model =
     Option.bind (case lookup_id spec cat (provider @ ''/'' @ model) of Some m \<Rightarrow> Some m | None \<Rightarrow> lookup_id spec cat model)
       mi_max_output_tokens"

definition omitted_native_output_budget ::
  "(string \<Rightarrow> string option) \<Rightarrow> catalog \<Rightarrow> string \<Rightarrow> string \<Rightarrow> json \<Rightarrow> nat" where
  "omitted_native_output_budget spec cat provider model body =
     (let primary = (case catalog_output_budget spec cat provider model of
            Some n \<Rightarrow> n
          | None \<Rightarrow>
              if provider = ''anthropic'' then 8192 else if provider = ''gemini'' then 65536
              else if provider = ''openai'' \<or> provider = ''chatgpt'' \<or> provider = ''xai'' then 128000
              else if provider = ''openrouter'' then 1048576 else 1024)
      in if provider \<noteq> ''openrouter'' then primary
         else fold max
           (map (\<lambda>m. case catalog_output_budget spec cat ''openrouter'' m of Some n \<Rightarrow> n | None \<Rightarrow> 1048576)
             (List.map_filter as_str
               (case Option.bind (get body ''models'') as_array of Some vs \<Rightarrow> vs | None \<Rightarrow> [])))
           primary)"

definition explicit_output :: "wire_format \<Rightarrow> json \<Rightarrow> nat option" where
  "explicit_output wire body =
     (case wire of
        AnthropicMessages \<Rightarrow> get_u64 body ''max_tokens''
      | OpenAiResponses \<Rightarrow> get_u64 body ''max_output_tokens''
      | OpenAiChat \<Rightarrow>
          (case get_u64 body ''max_completion_tokens'' of Some n \<Rightarrow> Some n | None \<Rightarrow> get_u64 body ''max_tokens'')
      | GoogleGenerateContent \<Rightarrow> native_u64_at_paths body GEMINI_OUTPUT_TOKEN_PATHS)"

definition reasoning_output :: "wire_format \<Rightarrow> json \<Rightarrow> nat option" where
  "reasoning_output wire body =
     (case wire of
        AnthropicMessages \<Rightarrow> path_u64 body [''thinking'', ''budget_tokens'']
      | GoogleGenerateContent \<Rightarrow> native_u64_at_paths body GEMINI_THINKING_BUDGET_PATHS
      | _ \<Rightarrow> path_u64 body [''reasoning'', ''max_tokens''])"

definition estimate_native_attempt_tokens ::
  "(json \<Rightarrow> nat) \<Rightarrow> (string \<Rightarrow> string option) \<Rightarrow> catalog \<Rightarrow> string \<Rightarrow> string \<Rightarrow> wire_format \<Rightarrow> json \<Rightarrow> nat" where
  "estimate_native_attempt_tokens text_len spec cat provider model wire body =
     (if list_ex (\<lambda>v. \<not> is_null v \<and> as_u64 v = None) (native_output_limit_values wire body) then u32_max
      else
        let prompt_tokens = text_len body div 4;
            default_output = omitted_native_output_budget spec cat provider model body
        in (case native_output_candidate_count wire body of
              None \<Rightarrow> u32_max
            | Some candidates \<Rightarrow>
                if candidates = u64_max then u32_max
                else clamp_u32 (saturating_add_u64 prompt_tokens
                  (saturating_mul_u64
                    (max (case explicit_output wire body of Some n \<Rightarrow> n | None \<Rightarrow> default_output)
                         (case reasoning_output wire body of Some n \<Rightarrow> n | None \<Rightarrow> 0))
                    candidates))))"

definition estimate_attempt_tokens ::
  "(json \<Rightarrow> nat) \<Rightarrow> (string \<Rightarrow> string option) \<Rightarrow> catalog \<Rightarrow> prepared_attempt \<Rightarrow> nat" where
  "estimate_attempt_tokens text_len spec cat attempt =
     estimate_native_attempt_tokens text_len spec cat (ai_provider_name (pa_identity attempt))
       (ai_native_model (pa_identity attempt)) (ai_wire (pa_identity attempt)) (pa_native_body attempt)"

section \<open>Prepared requests\<close>

record request_admission_policy =
  native_namespace :: "string option"
  protected_native_fields :: "string list"
  native_prompt_fields :: "string list"
  native_output_limit_fields :: "string list"

record admission_target =
  at_provider_name :: string
  at_model :: string
  at_policy :: request_admission_policy

record prepared_request =
  pr_payload :: json
  pr_target :: admission_target

definition active_native_prompt_characters :: "(json \<Rightarrow> nat) \<Rightarrow> prepared_request \<Rightarrow> nat" where
  "active_native_prompt_characters text_len prepared =
     (case native_namespace (at_policy (pr_target prepared)) of
        None \<Rightarrow> 0
      | Some namespace \<Rightarrow>
          (case Option.bind (get (pr_payload prepared) namespace) as_object of
             None \<Rightarrow> 0
           | Some native_configuration \<Rightarrow>
               fold (\<lambda>field acc. saturating_add_usize acc
                   (case map_of native_configuration field of Some v \<Rightarrow> text_len v | None \<Rightarrow> 0))
                 (native_prompt_fields (at_policy (pr_target prepared))) 0))"

definition portable_output_budget :: "json \<Rightarrow> nat option" where
  "portable_output_budget request =
     (case get_u64 request ''max_tokens'' of Some n \<Rightarrow> Some n | None \<Rightarrow> get_u64 request ''max_completion_tokens'')"

definition native_u64 :: "json \<Rightarrow> string \<Rightarrow> string list \<Rightarrow> nat option" where
  "native_u64 request namespace path = path_u64 request (namespace # path)"

definition native_direct_output_budget :: "json \<Rightarrow> admission_target \<Rightarrow> nat option" where
  "native_direct_output_budget request tgt =
     Option.bind (native_namespace (at_policy tgt)) (\<lambda>namespace.
       max_of (List.map_filter (\<lambda>field. native_u64 request namespace [field])
         (native_output_limit_fields (at_policy tgt))))"

definition reasoning_output_budget :: "json \<Rightarrow> admission_target \<Rightarrow> nat option" where
  "reasoning_output_budget request tgt =
     Option.bind (native_namespace (at_policy tgt)) (\<lambda>namespace.
       let p = at_provider_name tgt in
       if p = ''openrouter'' \<or> p = ''chatgpt'' then native_u64 request namespace [''reasoning'', ''max_tokens'']
       else if p = ''anthropic'' then
         (if Option.bind (get request namespace) (\<lambda>c. get c ''thinking'') \<noteq> None
          then native_u64 request namespace [''thinking'', ''budget_tokens'']
          else path_u64 request [''thinking'', ''budget_tokens''])
       else if p = ''gemini'' then native_u64 request namespace [''thinkingConfig'', ''thinkingBudget'']
       else None)"

definition omitted_output_budget ::
  "(string \<Rightarrow> string option) \<Rightarrow> catalog \<Rightarrow> admission_target \<Rightarrow> nat" where
  "omitted_output_budget spec cat tgt =
     (let p = at_provider_name tgt in
      if p = ''anthropic'' then 8192
      else
        (case Option.bind
           (case resolve spec cat (p @ ''/'' @ at_model tgt) of Some m \<Rightarrow> Some m | None \<Rightarrow> resolve spec cat (at_model tgt))
           mi_max_output_tokens of
           Some n \<Rightarrow> n
         | None \<Rightarrow>
             if p = ''openai'' \<or> p = ''chatgpt'' \<or> p = ''xai'' then 128000
             else if p = ''gemini'' then 65536
             else if p = ''openrouter'' then 1048576
             else DEFAULT_MAX_TOKENS_ESTIMATE))"

definition omitted_prepared_output_budget ::
  "(string \<Rightarrow> string option) \<Rightarrow> catalog \<Rightarrow> prepared_request \<Rightarrow> nat" where
  "omitted_prepared_output_budget spec cat prepared =
     (let primary = omitted_output_budget spec cat (pr_target prepared) in
      if at_provider_name (pr_target prepared) \<noteq> ''openrouter'' then primary
      else fold max
        (map (\<lambda>m. case Option.bind
               (case resolve spec cat (''openrouter/'' @ m) of Some i \<Rightarrow> Some i | None \<Rightarrow> resolve spec cat m)
               mi_max_output_tokens of Some n \<Rightarrow> n | None \<Rightarrow> 1048576)
          (List.map_filter as_str
            (case Option.bind (get_path (pr_payload prepared) [''x-openrouter'', ''models'']) as_array of
               Some vs \<Rightarrow> vs | None \<Rightarrow> [])))
        primary)"

definition effective_output_budget ::
  "(string \<Rightarrow> string option) \<Rightarrow> catalog \<Rightarrow> prepared_request \<Rightarrow> nat" where
  "effective_output_budget spec cat prepared =
     (let requested =
        (if at_provider_name (pr_target prepared) = ''chatgpt'' then None
         else (case native_direct_output_budget (pr_payload prepared) (pr_target prepared) of
                 Some n \<Rightarrow> Some n | None \<Rightarrow> portable_output_budget (pr_payload prepared)))
      in max (case requested of Some n \<Rightarrow> n | None \<Rightarrow> omitted_prepared_output_budget spec cat prepared)
           (case reasoning_output_budget (pr_payload prepared) (pr_target prepared) of Some n \<Rightarrow> n | None \<Rightarrow> 0))"

definition estimate_prepared_request_tokens ::
  "(json \<Rightarrow> nat) \<Rightarrow> (string \<Rightarrow> string option) \<Rightarrow> catalog \<Rightarrow> prepared_request \<Rightarrow> nat" where
  "estimate_prepared_request_tokens text_len spec cat prepared =
     (let add = (\<lambda>field acc. case get (pr_payload prepared) field of
            Some v \<Rightarrow> saturating_add_usize acc (text_len v) | None \<Rightarrow> acc);
          chars = fold add [''messages'', ''tools'', ''response_format'', ''x-shim''] 0;
          chars = (if at_provider_name (pr_target prepared) = ''anthropic'' then add ''output_config'' chars else chars);
          chars = saturating_add_usize chars (active_native_prompt_characters text_len prepared)
      in clamp_u32 (saturating_add_u64 (chars div 4) (effective_output_budget spec cat prepared)))"

section \<open>The typed envelope\<close>

definition direct_output_budget :: "json_object \<Rightarrow> nat option" where
  "direct_output_budget config =
     max_of (List.map_filter (\<lambda>field. Option.bind (map_of config field) as_u64)
       [''max_tokens'', ''max_completion_tokens'', ''max_output_tokens'', ''maxOutputTokens''])"

text \<open>\<open>Option<u64>::max\<close>, where \<open>None\<close> is least.\<close>

definition option_max :: "nat option \<Rightarrow> nat option \<Rightarrow> nat option" where
  "option_max a b =
     (case a of None \<Rightarrow> b | Some x \<Rightarrow> (case b of None \<Rightarrow> a | Some y \<Rightarrow> Some (max x y)))"

definition native_budget :: "json_object \<Rightarrow> nat option \<Rightarrow> nat option" where
  "native_budget native_config largest =
     (let largest = option_max largest (direct_output_budget native_config) in
      case Option.bind (map_of native_config ''generationConfig'') as_object of
        Some generation_config \<Rightarrow> option_max largest (direct_output_budget generation_config)
      | None \<Rightarrow> largest)"

definition largest_provider_output_budget :: "json \<Rightarrow> nat option" where
  "largest_provider_output_budget provider_config =
     (case as_object provider_config of
        None \<Rightarrow> None
      | Some config \<Rightarrow>
          fold (\<lambda>e largest.
              if \<not> starts_with (fst e) ''x-'' then largest
              else (case as_object (snd e) of Some native_config \<Rightarrow> native_budget native_config largest | None \<Rightarrow> largest))
            config (direct_output_budget config))"

record chat_request =
  cr_messages :: json
  cr_config_max_tokens :: "nat option"
  cr_provider_config :: "json option"
  cr_response_format :: "json option"

definition estimate_request_tokens :: "(json \<Rightarrow> nat) \<Rightarrow> chat_request \<Rightarrow> nat" where
  "estimate_request_tokens text_len req =
     (let chars = fold (\<lambda>v acc. saturating_add_usize acc (text_len v))
            (List.map_filter id [cr_provider_config req, cr_response_format req]) (text_len (cr_messages req));
          output_tokens =
            (case option_max (cr_config_max_tokens req) (Option.bind (cr_provider_config req) largest_provider_output_budget) of
               Some n \<Rightarrow> n | None \<Rightarrow> DEFAULT_MAX_TOKENS_ESTIMATE)
      in clamp_u32 (saturating_add_u64 (chars div 4) output_tokens))"

section \<open>What an estimate covers\<close>

lemma fold_max_ge: "n \<in> set ns \<or> n \<le> m \<Longrightarrow> n \<le> fold max ns (m :: nat)"
proof (induction ns arbitrary: m)
  case (Cons k ns)
  then have "n \<in> set ns \<or> n \<le> max k m" by (auto simp: le_max_iff_disj)
  with Cons.IH [of "max k m"] show ?case by simp
qed simp

lemma max_of_ge: "n \<in> set ns \<Longrightarrow> \<exists>k. max_of ns = Some k \<and> n \<le> k"
  using fold_max_ge [of n ns 0] by (auto simp: max_of_def)

lemma path_u64_counted:
  assumes "path \<in> set paths" and "path_u64 body path = Some n"
  shows "\<exists>k. native_u64_at_paths body paths = Some k \<and> n \<le> k"
proof -
  have "n \<in> set (List.map_filter as_u64 (native_values_at_paths body paths))"
    using assms by (force simp: native_values_at_paths_def List.map_filter_def path_u64_def bind_eq_Some_conv image_iff)
  then show ?thesis unfolding native_u64_at_paths_def by (rule max_of_ge)
qed

lemma declared_counted:
  assumes "declared_output_bound wire body = Some n"
  shows "\<exists>k. explicit_output wire body = Some k \<and> n \<le> k"
proof (cases wire)
  case GoogleGenerateContent
  with assms show ?thesis
    using path_u64_counted [of "[''generationConfig'', ''maxOutputTokens'']" GEMINI_OUTPUT_TOKEN_PATHS body n]
    by (simp add: declared_output_bound_def explicit_output_def GEMINI_OUTPUT_TOKEN_PATHS_def)
qed (use assms in \<open>auto simp: declared_output_bound_def explicit_output_def get_u64_def split: option.splits\<close>)

lemma reasoning_counted:
  assumes "reasoning_output_bound wire body = Some n"
  shows "\<exists>k. reasoning_output wire body = Some k \<and> n \<le> k"
proof (cases wire)
  case GoogleGenerateContent
  with assms show ?thesis
    using path_u64_counted
      [of "[''generationConfig'', ''thinkingConfig'', ''thinkingBudget'']" GEMINI_THINKING_BUDGET_PATHS body n]
    by (simp add: reasoning_output_bound_def reasoning_output_def GEMINI_THINKING_BUDGET_PATHS_def)
qed (use assms in \<open>auto simp: reasoning_output_bound_def reasoning_output_def\<close>)

lemma max_candidates_Some:
  "max_candidates vs c = Some k \<Longrightarrow> c \<le> k \<and> (\<forall>v \<in> set vs. \<exists>n. as_u64 v = Some n \<and> 0 < n \<and> n \<le> k)"
  by (induction vs arbitrary: c) (fastforce split: option.splits if_splits)+

lemma estimate_unsaturated:
  assumes "clamp_u32 (saturating_add_u64 p (saturating_mul_u64 x c)) < u32_max"
  shows "p + x * c \<le> clamp_u32 (saturating_add_u64 p (saturating_mul_u64 x c))"
proof -
  have "u32_max < u64_max" by (simp add: u32_max_def u64_max_def)
  with assms show ?thesis
    by (simp add: clamp_u32_def saturating_add_u64_def saturating_mul_u64_def min_def max_def split: if_splits)
qed

text \<open>A rate estimate lies between 1 and the largest 32-bit value, and below that value it covers the
  prompt and every bound the budget reservation uses: a quarter of the body's text plus the declared
  output, or the reasoning budget if larger, for as many candidates as any control in the body asks for.\<close>

lemma estimate_covers_reservation:
  assumes "estimate_native_attempt_tokens text_len spec cat provider model wire body = e" and "e < u32_max"
  shows "1 \<le> e \<and> (\<exists>c \<ge> 1. (\<forall>v \<in> set (candidate_controls wire body). \<exists>n. as_u64 v = Some n \<and> n \<le> c) \<and>
    (\<forall>n. declared_output_bound wire body = Some n \<or> reasoning_output_bound wire body = Some n \<longrightarrow>
       text_len body div 4 + n * c \<le> e))"
proof -
  let ?x = "max (case explicit_output wire body of Some n \<Rightarrow> n
      | None \<Rightarrow> omitted_native_output_budget spec cat provider model body)
    (case reasoning_output wire body of Some n \<Rightarrow> n | None \<Rightarrow> 0)"
  obtain c where c: "native_output_candidate_count wire body = Some c"
    and e: "e = clamp_u32 (saturating_add_u64 (text_len body div 4) (saturating_mul_u64 ?x c))"
    using assms unfolding estimate_native_attempt_tokens_def Let_def by (auto split: if_splits option.splits)
  have cs: "1 \<le> c" "\<forall>v \<in> set (candidate_controls wire body). \<exists>n. as_u64 v = Some n \<and> n \<le> c"
    using max_candidates_Some [OF c [unfolded native_output_candidate_count_def]] by auto
  have cover: "text_len body div 4 + ?x * c \<le> e"
    using assms(2) estimate_unsaturated [of "text_len body div 4" ?x c] unfolding e by blast
  have "text_len body div 4 + n * c \<le> e"
    if "declared_output_bound wire body = Some n \<or> reasoning_output_bound wire body = Some n" for n
  proof -
    have "n \<le> ?x" using that declared_counted [of wire body n] reasoning_counted [of wire body n]
      by (auto simp: le_max_iff_disj)
    then have "n * c \<le> ?x * c" by (rule mult_le_mono1)
    with cover show ?thesis by linarith
  qed
  moreover have "1 \<le> e" unfolding e by (simp add: clamp_u32_def)
  ultimately show ?thesis using cs by blast
qed

end
