(* ===== verification/Attempts.thy ===== *)
theory Attempts
  imports Ledger RateLimit Estimate
begin

text \<open>
  Admission of attempts in one gateway instance (\<open>src/gateway/attempt.rs\<close>): the rate buckets of a
  provider and of a tenant on it, the handlers of \<open>LocalAttemptRates\<close> over the buckets and the accounts
  of \<open>Ledger\<close>, and the coordinator that bounds concurrency and implements the attempt policy. Clocks
  are arguments; a panic is \<open>None\<close>. SHA-256 is an argument of the scope's constructor.
\<close>

section \<open>Scopes\<close>

record legacy_spend_floor =
  floor_window_index :: nat
  floor_amount_nanos :: nat

record trusted_policy_scope =
  scope_version :: nat
  tenant_key :: string
  scope_rpm :: "nat option"
  scope_tpm :: "nat option"
  scope_budget :: "budget_policy_snapshot option"
  scope_floor :: "legacy_spend_floor option"

definition scope_from_identity :: "(string \<Rightarrow> string) \<Rightarrow> identity \<Rightarrow> trusted_policy_scope" where
  "scope_from_identity sha256_hex i =
     \<lparr>scope_version = 1, tenant_key = sha256_hex (tenant i), scope_rpm = id_rpm i, scope_tpm = id_tpm i,
      scope_budget = from_identity i, scope_floor = None\<rparr>"

definition set_legacy_spend_floor :: "nat \<Rightarrow> nat \<Rightarrow> trusted_policy_scope \<Rightarrow> trusted_policy_scope" where
  "set_legacy_spend_floor idx amount s =
     (if scope_budget s \<noteq> None
      then s\<lparr>scope_floor := Some \<lparr>floor_window_index = idx, floor_amount_nanos = amount\<rparr>\<rparr> else s)"

section \<open>Buckets\<close>

record attempt_bucket =
  ab_capacity :: f64
  ab_refill_per_second :: f64
  ab_tokens :: f64
  ab_last_refill :: instant
  ab_penalty_until :: "instant option"

definition ab_new :: "nat \<Rightarrow> instant \<Rightarrow> attempt_bucket" where
  "ab_new per_minute now =
     (let capacity = f64_of_nat per_minute in
      \<lparr>ab_capacity = capacity, ab_refill_per_second = f64_div capacity (Fin 60), ab_tokens = capacity,
       ab_last_refill = now, ab_penalty_until = None\<rparr>)"

text \<open>\<open>Bucket::check\<close>: the balance is brought up to date, then asked.\<close>

definition ab_refill :: "instant \<Rightarrow> attempt_bucket \<Rightarrow> attempt_bucket" where
  "ab_refill now b =
     (let elapsed = as_secs_f64 (saturating_duration_since now (ab_last_refill b)) in
      b\<lparr>ab_tokens := f64_min (f64_add (ab_tokens b) (f64_mul elapsed (ab_refill_per_second b))) (ab_capacity b),
        ab_last_refill := now\<rparr>)"

definition ab_ask :: "f64 \<Rightarrow> instant \<Rightarrow> attempt_bucket \<Rightarrow> (duration, unit) result option" where
  "ab_ask required now b =
     (case (case ab_penalty_until b of Some deadline \<Rightarrow> if deadline > now then Some deadline else None | None \<Rightarrow> None) of
        Some deadline \<Rightarrow> Some (Inl (saturating_duration_since deadline now))
      | None \<Rightarrow>
          if f64_le required (f64_add (ab_tokens b) EPSILON) then Some (Inr ())
          else if f64_le (ab_refill_per_second b) (Fin 0) then Some (Inl ZERO_LIMIT_RETRY_AFTER)
          else map_option Inl (from_secs_f64 (f64_div (f64_sub required (ab_tokens b)) (ab_refill_per_second b))))"

definition ab_debit :: "f64 \<Rightarrow> attempt_bucket \<Rightarrow> attempt_bucket" where
  "ab_debit required b = b\<lparr>ab_tokens := f64_sub (ab_tokens b) required\<rparr>"

definition ab_penalize :: "duration \<Rightarrow> instant \<Rightarrow> attempt_bucket \<Rightarrow> attempt_bucket" where
  "ab_penalize d now b =
     (let deadline = now + d in
      b\<lparr>ab_penalty_until := Some (case ab_penalty_until b of None \<Rightarrow> deadline | Some old \<Rightarrow> max old deadline),
        ab_tokens := Fin 0\<rparr>)"

type_synonym dimension = "(string, attempt_bucket) hash_map"

definition entry_of :: "nat \<Rightarrow> instant \<Rightarrow> string \<Rightarrow> dimension \<Rightarrow> attempt_bucket" where
  "entry_of limit now key m = (case map_of m key of Some b \<Rightarrow> b | None \<Rightarrow> ab_new limit now)"

definition check_dimension ::
  "nat option \<Rightarrow> f64 \<Rightarrow> instant \<Rightarrow> string \<Rightarrow> dimension \<Rightarrow> (duration option \<times> dimension) option" where
  "check_dimension limit required now key m =
     (case limit of
        None \<Rightarrow> Some (None, m)
      | Some l \<Rightarrow>
          if l = 0 then Some (Some ZERO_LIMIT_RETRY_AFTER, m)
          else
            let b = ab_refill now (entry_of l now key m) in
            (case ab_ask required now b of
               None \<Rightarrow> None
             | Some r \<Rightarrow> Some (case r of Inl w \<Rightarrow> Some w | Inr _ \<Rightarrow> None, AList.update key b m)))"

definition debit_dimension :: "nat option \<Rightarrow> f64 \<Rightarrow> string \<Rightarrow> dimension \<Rightarrow> dimension option" where
  "debit_dimension limit required key m =
     (if limit = None then Some m
      else map_option (\<lambda>b. AList.update key (ab_debit required b) m) (map_of m key))"

section \<open>Handlers\<close>

record local_attempt_rates =
  ar_config :: rate_limit_config
  max_retained_attempts :: nat
  retention_secs :: nat

record local_rate_state =
  global_rpm :: dimension
  global_tpm :: dimension
  tenant_rpm :: dimension
  tenant_tpm :: dimension
  accounts_of :: accounts

definition empty_rates :: local_rate_state where
  "empty_rates = \<lparr>global_rpm = [], global_tpm = [], tenant_rpm = [], tenant_tpm = [], accounts_of = no_accounts\<rparr>"

definition tenant_bucket_key :: "trusted_policy_scope \<Rightarrow> string \<Rightarrow> string" where
  "tenant_bucket_key scope provider = tenant_key scope @ '':'' @ provider"

text \<open>The four checks of \<open>acquire_at_epoch\<close> and the four debits.\<close>

definition check_all ::
  "provider_limit \<Rightarrow> trusted_policy_scope \<Rightarrow> string \<Rightarrow> f64 \<Rightarrow> instant \<Rightarrow> local_rate_state
    \<Rightarrow> (duration option \<times> duration option \<times> local_rate_state) option" where
  "check_all limit scope provider want now st =
     Option.bind (check_dimension (limit_rpm limit) (Fin 1) now provider (global_rpm st)) (\<lambda>(w1, gr).
     Option.bind (check_dimension (limit_tpm limit) want now provider (global_tpm st)) (\<lambda>(w2, gt).
     Option.bind (check_dimension (scope_rpm scope) (Fin 1) now (tenant_bucket_key scope provider) (tenant_rpm st)) (\<lambda>(w3, tr).
     Option.bind (check_dimension (scope_tpm scope) want now (tenant_bucket_key scope provider) (tenant_tpm st)) (\<lambda>(w4, tt).
       Some (longer_wait w1 w2, longer_wait w3 w4,
         st\<lparr>global_rpm := gr, global_tpm := gt, tenant_rpm := tr, tenant_tpm := tt\<rparr>)))))"

definition debit_all ::
  "provider_limit \<Rightarrow> trusted_policy_scope \<Rightarrow> string \<Rightarrow> f64 \<Rightarrow> local_rate_state \<Rightarrow> local_rate_state option" where
  "debit_all limit scope provider want st =
     Option.bind (debit_dimension (limit_rpm limit) (Fin 1) provider (global_rpm st)) (\<lambda>gr.
     Option.bind (debit_dimension (limit_tpm limit) want provider (global_tpm st)) (\<lambda>gt.
     Option.bind (debit_dimension (scope_rpm scope) (Fin 1) (tenant_bucket_key scope provider) (tenant_rpm st)) (\<lambda>tr.
     Option.bind (debit_dimension (scope_tpm scope) want (tenant_bucket_key scope provider) (tenant_tpm st)) (\<lambda>tt.
       Some (st\<lparr>global_rpm := gr, global_tpm := gt, tenant_rpm := tr, tenant_tpm := tt\<rparr>)))))"

definition acquire_at_epoch ::
  "local_attempt_rates \<Rightarrow> string \<Rightarrow> trusted_policy_scope \<Rightarrow> nat \<Rightarrow> nat \<Rightarrow> budget_quote option \<Rightarrow> instant \<Rightarrow> nat
    \<Rightarrow> local_rate_state \<Rightarrow> ((rate_refusal, unit) result \<times> local_rate_state) option" where
  "acquire_at_epoch rates provider scope permits aid q now epoch st =
     (let limit = resolve_limit (ar_config rates) provider;
          want = f64_of_nat (max permits 1);
          acc = purge_expired_budget_state epoch (accounts_of st);
          st = st\<lparr>accounts_of := acc\<rparr>
      in if scope_budget scope \<noteq> None \<and> q \<noteq> None \<and>
            (map_of (budget_attempts acc) aid \<noteq> None \<or> length (budget_attempts acc) \<ge> max_retained_attempts rates)
         then Some (Inl RateUnavailable, st)
         else
           Option.bind (check_all limit scope provider want now st) (\<lambda>(provider_wait, tenant_wait, st).
           case tenant_wait of
             Some w \<Rightarrow> Some (Inl (RateTenant w), st)
           | None \<Rightarrow>
               (case provider_wait of
                  Some w \<Rightarrow> Some (Inl (RateProvider w), st)
                | None \<Rightarrow>
                    Option.bind (plan_budget (retention_secs rates) (tenant_key scope) (scope_budget scope) q epoch acc) (\<lambda>plan.
                    case plan of
                      Inl r \<Rightarrow> Some (Inl r, st)
                    | Inr commit \<Rightarrow>
                        Option.bind (debit_all limit scope provider want st) (\<lambda>st.
                        case commit_budget commit aid acc of (r, acc) \<Rightarrow> Some (r, st\<lparr>accounts_of := acc\<rparr>))))))"

definition penalize_dimension :: "nat option \<Rightarrow> duration \<Rightarrow> instant \<Rightarrow> string \<Rightarrow> dimension \<Rightarrow> dimension" where
  "penalize_dimension limit d now key m =
     (case limit of
        Some l \<Rightarrow> if 0 < l then AList.update key (ab_penalize d now (entry_of l now key m)) m else m
      | None \<Rightarrow> m)"

definition rates_penalize ::
  "local_attempt_rates \<Rightarrow> string \<Rightarrow> duration \<Rightarrow> instant \<Rightarrow> local_rate_state \<Rightarrow> local_rate_state" where
  "rates_penalize rates provider d now st =
     (let limit = resolve_limit (ar_config rates) provider in
      st\<lparr>global_rpm := penalize_dimension (limit_rpm limit) d now provider (global_rpm st),
         global_tpm := penalize_dimension (limit_tpm limit) d now provider (global_tpm st)\<rparr>)"

definition rates_observe_usage ::
  "trusted_policy_scope \<Rightarrow> nat \<Rightarrow> spend_observation \<Rightarrow> local_rate_state \<Rightarrow> (unit, unit) result \<times> local_rate_state" where
  "rates_observe_usage scope aid obs st =
     (case observe_usage (scope_budget scope \<noteq> None) aid obs (accounts_of st) of
        (r, acc) \<Rightarrow> (r, st\<lparr>accounts_of := acc\<rparr>))"

definition rates_finish ::
  "trusted_policy_scope \<Rightarrow> nat \<Rightarrow> attempt_outcome \<Rightarrow> local_rate_state \<Rightarrow> (unit, unit) result \<times> local_rate_state" where
  "rates_finish scope aid outcome st =
     (case finish_attempt (scope_budget scope \<noteq> None) aid outcome (accounts_of st) of
        (r, acc) \<Rightarrow> (r, st\<lparr>accounts_of := acc\<rparr>))"

section \<open>Buckets stay within bounds\<close>

definition ab_admits :: "instant \<Rightarrow> nat \<Rightarrow> attempt_bucket \<Rightarrow> bool" where
  "ab_admits now p b \<longleftrightarrow> ab_ask (f64_of_nat p) now b = Some (Inr ())"

definition ab_rate_ok :: "attempt_bucket \<Rightarrow> bool" where
  "ab_rate_ok b \<longleftrightarrow> is_finite (ab_refill_per_second b) \<and> f64_le (Fin (1 / 2 ^ 6)) (ab_refill_per_second b)"

interpretation ab: admission_bucket ab_tokens ab_capacity ab_rate_ok ab_refill ab_admits
  "\<lambda>p. ab_debit (f64_of_nat p)"
proof
  fix now b p
  show "ab_capacity (ab_refill now b) = ab_capacity b" "ab_rate_ok (ab_refill now b) = ab_rate_ok b"
    "ab_capacity (ab_debit (f64_of_nat p) b) = ab_capacity b"
    "ab_rate_ok (ab_debit (f64_of_nat p) b) = ab_rate_ok b"
    by (simp_all add: ab_refill_def ab_debit_def ab_rate_ok_def Let_def)
  show "ab_tokens (ab_refill now b) = ab_tokens b \<or>
      (\<exists>x. (x = NaN \<or> f64_le (Fin 0) x) \<and> ab_tokens (ab_refill now b) = f64_min (f64_add (ab_tokens b) x) (ab_capacity b))"
    if "ab_rate_ok b"
    using f64_mul_nonneg [OF as_secs_f64_nonneg rate_nonneg] that
    by (auto simp: ab_refill_def Let_def ab_rate_ok_def)
  assume p: "p \<le> 2 ^ 32"
  then have exact: "f64_of_nat p = Fin (of_nat p)" by (intro f64_of_nat_exact) simp
  then show "ab_tokens (ab_debit (f64_of_nat p) b) = f64_sub (ab_tokens b) (Fin (of_nat p))"
    by (simp add: ab_debit_def)
  show "f64_le (Fin (of_nat p)) (f64_add (ab_tokens b) EPSILON)" if "ab_admits now p b"
    using that by (auto simp: ab_admits_def ab_ask_def exact split: option.splits if_splits)
qed

definition ab_ok :: "attempt_bucket \<Rightarrow> bool" where
  "ab_ok b \<longleftrightarrow> (\<exists>n. ab.bucket_ok n b)"

lemma ab_new_ok: "n \<le> u32_max \<Longrightarrow> n \<noteq> 0 \<Longrightarrow> ab_ok (ab_new n now)"
proof -
  assume n: "n \<le> u32_max" "n \<noteq> 0"
  from per_minute_rate [OF n] obtain r where "n \<le> 2 ^ 32" "f64_of_nat n = Fin (of_nat n)" "1 \<le> rat_of_nat n"
    "f64_div (f64_of_nat n) (Fin 60) = Fin r" "1 / 2 ^ 6 \<le> r" by blast
  then have "ab.bucket_ok n (ab_new n now)"
    by (simp add: ab.bucket_ok_def ab_new_def ab_rate_ok_def in_bounds_def overdraft_def Let_def)
  then show "ab_ok (ab_new n now)" by (auto simp: ab_ok_def)
qed

lemma ab_penalize_ok: "ab_ok b \<Longrightarrow> ab_ok (ab_penalize d now b)"
  by (auto simp: ab_ok_def ab.bucket_ok_def ab_penalize_def Let_def ab_rate_ok_def in_bounds_def overdraft_def)

lemma ab_ask_defined: "ab_ok b \<Longrightarrow> p \<le> 2 ^ 32 \<Longrightarrow> \<exists>r. ab_ask (f64_of_nat p) now b = Some r"
proof -
  assume "ab_ok b" and p: "p \<le> 2 ^ 32"
  then obtain n where n: "ab.bucket_ok n b" by (auto simp: ab_ok_def)
  have exact: "f64_of_nat p = Fin (of_nat p)" using p by (intro f64_of_nat_exact) simp
  have "in_bounds (ab_tokens b) (Fin (of_nat n))" "f64_le (Fin (1 / 2 ^ 6)) (ab_refill_per_second b)"
    "is_finite (ab_refill_per_second b)"
    using n by (auto simp: ab.bucket_ok_def ab_rate_ok_def)
  then show ?thesis
    using wait_defined [of "ab_tokens b" n p "ab_refill_per_second b"] p by (auto simp: ab_ask_def exact split: option.split)
qed

definition dimension_ok :: "dimension \<Rightarrow> bool" where
  "dimension_ok m \<longleftrightarrow> (\<forall>k b. map_of m k = Some b \<longrightarrow> ab_ok b)"

definition limit_ok :: "nat option \<Rightarrow> bool" where
  "limit_ok limit = (case limit of Some n \<Rightarrow> n \<le> u32_max | None \<Rightarrow> True)"

lemma entry_of_ok: "dimension_ok m \<Longrightarrow> l \<le> u32_max \<Longrightarrow> l \<noteq> 0 \<Longrightarrow> ab_ok (entry_of l now key m)"
  using ab_new_ok by (auto simp: entry_of_def dimension_ok_def split: option.split)

text \<open>The bucket of a dimension after a check, and whether the check passed.\<close>

definition dimension_room :: "nat option \<Rightarrow> nat \<Rightarrow> instant \<Rightarrow> string \<Rightarrow> dimension \<Rightarrow> bool" where
  "dimension_room limit p now key m =
     (case limit of None \<Rightarrow> True | Some l \<Rightarrow> l \<noteq> 0 \<and> ab_admits now p (ab_refill now (entry_of l now key m)))"

definition dimension_after :: "nat option \<Rightarrow> (attempt_bucket \<Rightarrow> attempt_bucket) \<Rightarrow> instant \<Rightarrow> string \<Rightarrow> dimension \<Rightarrow> (string \<rightharpoonup> attempt_bucket)" where
  "dimension_after limit f now key m =
     (case limit of
        None \<Rightarrow> map_of m
      | Some l \<Rightarrow> if l = 0 then map_of m else (map_of m)(key \<mapsto> f (ab_refill now (entry_of l now key m))))"

lemma check_dimension_spec:
  assumes "dimension_ok m" and "limit_ok limit" and "p \<le> 2 ^ 32"
  shows "\<exists>w m'. check_dimension limit (f64_of_nat p) now key m = Some (w, m') \<and> (w = None \<longleftrightarrow> dimension_room limit p now key m) \<and>
    dimension_ok m' \<and> map_of m' = dimension_after limit id now key m"
proof (cases "limit = None \<or> limit = Some 0")
  case True
  with assms(1) show ?thesis by (auto simp: check_dimension_def dimension_room_def dimension_after_def)
next
  case False
  then obtain l where l: "limit = Some l" "l \<noteq> 0" by auto
  let ?b = "ab_refill now (entry_of l now key m)"
  have "ab_ok (entry_of l now key m)" using assms(1,2) l by (intro entry_of_ok) (simp_all add: limit_ok_def)
  then have ok: "ab_ok ?b" unfolding ab_ok_def using ab.refill_ok by blast
  then obtain r where r: "ab_ask (f64_of_nat p) now ?b = Some r" using ab_ask_defined assms(3) by blast
  have "dimension_ok (AList.update key ?b m)" using ok assms(1) by (simp add: dimension_ok_def map_of_update)
  with r l show ?thesis
    by (cases r) (auto simp: check_dimension_def dimension_room_def dimension_after_def Let_def ab_admits_def map_of_update)
qed

lemma debit_dimension_spec:
  assumes "dimension_ok m'" and "map_of m' = dimension_after limit id now key m" and "dimension_room limit p now key m"
    and "p \<le> 2 ^ 32"
  shows "\<exists>m''. debit_dimension limit (f64_of_nat p) key m' = Some m'' \<and> dimension_ok m'' \<and>
    map_of m'' = dimension_after limit (ab_debit (f64_of_nat p)) now key m"
proof (cases limit)
  case None
  with assms show ?thesis by (simp add: debit_dimension_def dimension_after_def)
next
  case (Some l)
  let ?b = "ab_refill now (entry_of l now key m)"
  have l: "l \<noteq> 0" "ab_admits now p ?b" using assms(3) Some by (simp_all add: dimension_room_def)
  have b: "map_of m' key = Some ?b" using assms(2) Some l(1) by (simp add: dimension_after_def)
  then have "ab_ok ?b" using assms(1) unfolding dimension_ok_def by blast
  then have "ab_ok (ab_debit (f64_of_nat p) ?b)" unfolding ab_ok_def using ab.take_ok l(2) assms(4) by blast
  then have "dimension_ok (AList.update key (ab_debit (f64_of_nat p) ?b) m')"
    using assms(1) by (simp add: dimension_ok_def map_of_update)
  with b assms(2) Some l(1) show ?thesis by (simp add: debit_dimension_def dimension_after_def map_of_update fun_upd_upd)
qed

section \<open>One admission\<close>

definition buckets_ok :: "local_rate_state \<Rightarrow> bool" where
  "buckets_ok st \<longleftrightarrow> dimension_ok (global_rpm st) \<and> dimension_ok (global_tpm st) \<and>
     dimension_ok (tenant_rpm st) \<and> dimension_ok (tenant_tpm st)"

definition rates_ok :: "local_rate_state \<Rightarrow> bool" where
  "rates_ok st \<longleftrightarrow> buckets_ok st \<and> accounts_ok (accounts_of st)"

definition limits_ok :: "provider_limit \<Rightarrow> trusted_policy_scope \<Rightarrow> bool" where
  "limits_ok limit scope \<longleftrightarrow> limit_ok (limit_rpm limit) \<and> limit_ok (limit_tpm limit) \<and>
     limit_ok (scope_rpm scope) \<and> limit_ok (scope_tpm scope)"

definition tenant_room :: "trusted_policy_scope \<Rightarrow> string \<Rightarrow> nat \<Rightarrow> instant \<Rightarrow> local_rate_state \<Rightarrow> bool" where
  "tenant_room scope provider p now st \<longleftrightarrow>
     dimension_room (scope_rpm scope) 1 now (tenant_bucket_key scope provider) (tenant_rpm st) \<and>
     dimension_room (scope_tpm scope) p now (tenant_bucket_key scope provider) (tenant_tpm st)"

definition provider_room :: "provider_limit \<Rightarrow> string \<Rightarrow> nat \<Rightarrow> instant \<Rightarrow> local_rate_state \<Rightarrow> bool" where
  "provider_room limit provider p now st \<longleftrightarrow>
     dimension_room (limit_rpm limit) 1 now provider (global_rpm st) \<and>
     dimension_room (limit_tpm limit) p now provider (global_tpm st)"

text \<open>The buckets after a check, with the given debits of the configured ones.\<close>

definition buckets_after ::
  "provider_limit \<Rightarrow> trusted_policy_scope \<Rightarrow> string \<Rightarrow> (attempt_bucket \<Rightarrow> attempt_bucket) \<Rightarrow> (attempt_bucket \<Rightarrow> attempt_bucket)
    \<Rightarrow> instant \<Rightarrow> local_rate_state \<Rightarrow> local_rate_state \<Rightarrow> bool" where
  "buckets_after limit scope provider fr ft now st st' \<longleftrightarrow>
     map_of (global_rpm st') = dimension_after (limit_rpm limit) fr now provider (global_rpm st) \<and>
     map_of (global_tpm st') = dimension_after (limit_tpm limit) ft now provider (global_tpm st) \<and>
     map_of (tenant_rpm st') = dimension_after (scope_rpm scope) fr now (tenant_bucket_key scope provider) (tenant_rpm st) \<and>
     map_of (tenant_tpm st') = dimension_after (scope_tpm scope) ft now (tenant_bucket_key scope provider) (tenant_tpm st)"

lemma check_all_spec:
  assumes "buckets_ok st" and "limits_ok limit scope" and "p \<le> 2 ^ 32"
  shows "\<exists>pw tw st'. check_all limit scope provider (f64_of_nat p) now st = Some (pw, tw, st') \<and>
    (pw = None \<longleftrightarrow> provider_room limit provider p now st) \<and> (tw = None \<longleftrightarrow> tenant_room scope provider p now st) \<and>
    buckets_ok st' \<and> accounts_of st' = accounts_of st \<and> buckets_after limit scope provider id id now st st'"
proof -
  have ok: "dimension_ok (global_rpm st)" "dimension_ok (global_tpm st)" "dimension_ok (tenant_rpm st)" "dimension_ok (tenant_tpm st)"
    using assms(1) by (simp_all add: buckets_ok_def)
  have lim: "limit_ok (limit_rpm limit)" "limit_ok (limit_tpm limit)" "limit_ok (scope_rpm scope)" "limit_ok (scope_tpm scope)"
    using assms(2) by (simp_all add: limits_ok_def)
  note one = f64_of_nat_1
  let ?k = "tenant_bucket_key scope provider"
  from check_dimension_spec [OF ok(1) lim(1), of 1 now provider] check_dimension_spec [OF ok(2) lim(2) assms(3), of now provider]
    check_dimension_spec [OF ok(3) lim(3), of 1 now ?k] check_dimension_spec [OF ok(4) lim(4) assms(3), of now ?k]
  show ?thesis
    by (clarsimp simp: one check_all_def buckets_ok_def buckets_after_def provider_room_def tenant_room_def longer_wait_None)
qed

lemma debit_all_spec:
  assumes "buckets_ok st'" and "buckets_after limit scope provider id id now st st'" and "p \<le> 2 ^ 32"
    and "provider_room limit provider p now st" and "tenant_room scope provider p now st"
  shows "\<exists>st''. debit_all limit scope provider (f64_of_nat p) st' = Some st'' \<and> buckets_ok st'' \<and> accounts_of st'' = accounts_of st' \<and>
    buckets_after limit scope provider (ab_debit (Fin 1)) (ab_debit (f64_of_nat p)) now st st''"
proof -
  have ok: "dimension_ok (global_rpm st')" "dimension_ok (global_tpm st')" "dimension_ok (tenant_rpm st')" "dimension_ok (tenant_tpm st')"
    using assms(1) by (simp_all add: buckets_ok_def)
  note one = f64_of_nat_1
  have after: "map_of (global_rpm st') = dimension_after (limit_rpm limit) id now provider (global_rpm st)"
    "map_of (global_tpm st') = dimension_after (limit_tpm limit) id now provider (global_tpm st)"
    "map_of (tenant_rpm st') = dimension_after (scope_rpm scope) id now (tenant_bucket_key scope provider) (tenant_rpm st)"
    "map_of (tenant_tpm st') = dimension_after (scope_tpm scope) id now (tenant_bucket_key scope provider) (tenant_tpm st)"
    using assms(2) by (simp_all add: buckets_after_def)
  have room: "dimension_room (limit_rpm limit) 1 now provider (global_rpm st)" "dimension_room (limit_tpm limit) p now provider (global_tpm st)"
    "dimension_room (scope_rpm scope) 1 now (tenant_bucket_key scope provider) (tenant_rpm st)"
    "dimension_room (scope_tpm scope) p now (tenant_bucket_key scope provider) (tenant_tpm st)"
    using assms(4,5) by (simp_all add: provider_room_def tenant_room_def)
  from debit_dimension_spec [OF ok(1) after(1) room(1)] debit_dimension_spec [OF ok(2) after(2) room(2) assms(3)]
    debit_dimension_spec [OF ok(3) after(3) room(3)] debit_dimension_spec [OF ok(4) after(4) room(4) assms(3)]
  show ?thesis by (clarsimp simp: one debit_all_def buckets_ok_def buckets_after_def)
qed

definition scope_ok :: "trusted_policy_scope \<Rightarrow> bool" where
  "scope_ok scope = (case scope_budget scope of Some p \<Rightarrow> window_secs p \<noteq> 0 \<and> limit_nanos p \<le> MAX_EXACT_REDIS_NANOS | None \<Rightarrow> True)"

definition admission_ok ::
  "local_attempt_rates \<Rightarrow> string \<Rightarrow> trusted_policy_scope \<Rightarrow> nat \<Rightarrow> bool" where
  "admission_ok rates provider scope permits \<longleftrightarrow>
     limits_ok (resolve_limit (ar_config rates) provider) scope \<and> scope_ok scope \<and> permits \<le> u32_max"

text \<open>What an admission leaves behind when it is refused and when it is granted.\<close>

definition refused_as ::
  "local_attempt_rates \<Rightarrow> string \<Rightarrow> trusted_policy_scope \<Rightarrow> instant \<Rightarrow> nat \<Rightarrow> local_rate_state \<Rightarrow> local_rate_state \<Rightarrow> bool" where
  "refused_as rates provider scope now epoch st st' \<longleftrightarrow>
     accounts_of st' = purge_expired_budget_state epoch (accounts_of st) \<and>
     (st' = st\<lparr>accounts_of := accounts_of st'\<rparr> \<or>
      buckets_after (resolve_limit (ar_config rates) provider) scope provider id id now st st')"

definition granted_as ::
  "local_attempt_rates \<Rightarrow> string \<Rightarrow> trusted_policy_scope \<Rightarrow> nat \<Rightarrow> nat \<Rightarrow> budget_quote option \<Rightarrow> instant \<Rightarrow> nat
    \<Rightarrow> local_rate_state \<Rightarrow> local_rate_state \<Rightarrow> bool" where
  "granted_as rates provider scope permits aid q now epoch st st' \<longleftrightarrow>
     provider_room (resolve_limit (ar_config rates) provider) provider (max permits 1) now st \<and>
     tenant_room scope provider (max permits 1) now st \<and>
     buckets_after (resolve_limit (ar_config rates) provider) scope provider
       (ab_debit (Fin 1)) (ab_debit (f64_of_nat (max permits 1))) now st st' \<and>
     (let acc = purge_expired_budget_state epoch (accounts_of st) in
      \<exists>commit. plan_budget (retention_secs rates) (tenant_key scope) (scope_budget scope) q epoch acc = Some (Inr commit) \<and>
        commit_budget commit aid acc = (Inr (), accounts_of st') \<and>
        (commit \<noteq> None \<longrightarrow> map_of (budget_attempts acc) aid = None \<and> length (budget_attempts acc) < max_retained_attempts rates))"

lemma plan_none: "plan_budget ret tkey policy q now st = Some (Inr None) \<Longrightarrow> policy = None \<and> q = None"
  by (auto simp: plan_budget_def Let_def split: option.splits if_splits)

lemma plan_refusal: "plan_budget ret tkey policy q now st = Some (Inl r) \<Longrightarrow>
    r = RateUnavailable \<or> (\<exists>p. policy = Some p \<and> r = RateBudget (budget_wait (window_secs p) now))"
  by (auto simp: plan_budget_def Let_def split: option.splits if_splits)

text \<open>Which refusal is given: the tenant's limits come first, then the provider's, then the budget.\<close>

definition refusal_reason ::
  "local_attempt_rates \<Rightarrow> string \<Rightarrow> trusted_policy_scope \<Rightarrow> nat \<Rightarrow> instant \<Rightarrow> nat \<Rightarrow> local_rate_state \<Rightarrow> rate_refusal \<Rightarrow> bool" where
  "refusal_reason rates provider scope permits now epoch st r \<longleftrightarrow>
     (let fits = tenant_room scope provider (max permits 1) now st;
          room = provider_room (resolve_limit (ar_config rates) provider) provider (max permits 1) now st
      in case r of
           RateTenant _ \<Rightarrow> \<not> fits
         | RateProvider _ \<Rightarrow> fits \<and> \<not> room
         | RateBudget w \<Rightarrow> fits \<and> room \<and> (\<exists>b. scope_budget scope = Some b \<and> w = budget_wait (window_secs b) epoch)
         | RateUnavailable \<Rightarrow> True)"

lemma acquire_spec:
  assumes "rates_ok st" and "admission_ok rates provider scope permits"
  shows "\<exists>r st'. acquire_at_epoch rates provider scope permits aid q now epoch st = Some (r, st') \<and> rates_ok st' \<and>
    (case r of Inl x \<Rightarrow> refused_as rates provider scope now epoch st st' \<and> refusal_reason rates provider scope permits now epoch st x
     | Inr _ \<Rightarrow> granted_as rates provider scope permits aid q now epoch st st')"
proof -
  define limit where "limit = resolve_limit (ar_config rates) provider"
  define p where "p = max permits 1"
  define acc where "acc = purge_expired_budget_state epoch (accounts_of st)"
  define st0 where "st0 = st\<lparr>accounts_of := acc\<rparr>"
  define full where "full \<longleftrightarrow> scope_budget scope \<noteq> None \<and> q \<noteq> None \<and>
    (map_of (budget_attempts acc) aid \<noteq> None \<or> length (budget_attempts acc) \<ge> max_retained_attempts rates)"
  have acc: "accounts_ok acc" using assms(1) purge_books(1) by (simp add: acc_def rates_ok_def)
  have p: "p \<le> 2 ^ 32" and lim: "limits_ok limit scope" and scope: "scope_ok scope"
    using assms(2) by (auto simp: p_def limit_def admission_ok_def u32_max_def)
  have st0: "buckets_ok st0" "accounts_of st0 = acc" using assms(1) by (simp_all add: st0_def rates_ok_def buckets_ok_def)
  have same: "buckets_after limit scope provider f g now st0 x = buckets_after limit scope provider f g now st x"
    "provider_room limit provider p now st0 = provider_room limit provider p now st"
    "tenant_room scope provider p now st0 = tenant_room scope provider p now st" for f g x
    by (simp_all add: st0_def buckets_after_def provider_room_def tenant_room_def)
  obtain pw tw st1 where st1: "check_all limit scope provider (f64_of_nat p) now st0 = Some (pw, tw, st1)"
    "pw = None \<longleftrightarrow> provider_room limit provider p now st" "tw = None \<longleftrightarrow> tenant_room scope provider p now st"
    "buckets_ok st1" "accounts_of st1 = acc" "buckets_after limit scope provider id id now st st1"
    using check_all_spec [OF st0(1) lim p, of provider now] st0(2) unfolding same by auto
  obtain plan where plan: "plan_budget (retention_secs rates) (tenant_key scope) (scope_budget scope) q epoch acc = Some plan"
    using plan_budget_defined [of "scope_budget scope"] scope by (fastforce simp: scope_ok_def)
  have eq: "acquire_at_epoch rates provider scope permits aid q now epoch st =
      (if full then Some (Inl RateUnavailable, st0)
       else (case tw of Some w \<Rightarrow> Some (Inl (RateTenant w), st1)
         | None \<Rightarrow> (case pw of Some w \<Rightarrow> Some (Inl (RateProvider w), st1)
         | None \<Rightarrow> (case plan of Inl r \<Rightarrow> Some (Inl r, st1)
         | Inr commit \<Rightarrow> Option.bind (debit_all limit scope provider (f64_of_nat p) st1) (\<lambda>st.
             case commit_budget commit aid acc of (r, acc) \<Rightarrow> Some (r, st\<lparr>accounts_of := acc\<rparr>))))))"
    unfolding acquire_at_epoch_def Let_def limit_def [symmetric] p_def [symmetric] acc_def [symmetric] st0_def [symmetric]
      full_def [symmetric] st1(1) plan by (cases tw; cases pw) (simp_all add: st0(2) full_def)
  have refused: "rates_ok st0 \<and> refused_as rates provider scope now epoch st st0"
    "rates_ok st1 \<and> refused_as rates provider scope now epoch st st1"
    using st0 st1(4-6) acc by (simp_all add: rates_ok_def refused_as_def limit_def [symmetric] acc_def) (simp add: st0_def acc_def)
  show ?thesis
  proof (cases "\<not> full \<and> tw = None \<and> pw = None \<and> (\<exists>commit. plan = Inr commit)")
    case True
    then obtain commit where commit: "plan = Inr commit" by blast
    have room: "provider_room limit provider p now st" "tenant_room scope provider p now st" using True st1(2,3) by auto
    obtain st2 where st2: "debit_all limit scope provider (f64_of_nat p) st1 = Some st2" "buckets_ok st2"
      "buckets_after limit scope provider (ab_debit (Fin 1)) (ab_debit (f64_of_nat p)) now st st2"
      using debit_all_spec [OF st1(4,6) p room] by blast
    have "\<exists>acc'. commit_budget commit aid acc = (Inr (), acc') \<and> accounts_ok acc' \<and>
        (commit \<noteq> None \<longrightarrow> map_of (budget_attempts acc) aid = None \<and> length (budget_attempts acc) < max_retained_attempts rates)"
    proof (cases commit)
      case None
      with acc show ?thesis by (simp add: commit_budget_def)
    next
      case (Some c)
      obtain k q' e where c: "c = (k, q', e)" by (cases c)
      note pl = plan [unfolded commit Some c]
      obtain pol where pol: "scope_budget scope = Some pol" "q \<noteq> None" using plan_budget_commit [OF pl] by auto
      then have free: "map_of (budget_attempts acc) aid = None" "length (budget_attempts acc) < max_retained_attempts rates"
        using True by (auto simp: full_def)
      have "limit_nanos pol \<le> MAX_EXACT_REDIS_NANOS" using scope pol(1) by (simp add: scope_ok_def)
      from commit_books [OF acc free(1) pl [unfolded pol(1)] this] free show ?thesis
        by (auto simp: Some c keeps_books_def)
    qed
    then obtain acc' where acc': "commit_budget commit aid acc = (Inr (), acc')" "accounts_ok acc'"
      "commit \<noteq> None \<longrightarrow> map_of (budget_attempts acc) aid = None \<and> length (budget_attempts acc) < max_retained_attempts rates" by blast
    let ?st = "st2\<lparr>accounts_of := acc'\<rparr>"
    have "acquire_at_epoch rates provider scope permits aid q now epoch st = Some (Inr (), ?st)"
      unfolding eq using True commit st2(1) acc'(1) by simp
    moreover have "rates_ok ?st" using st2(2) acc'(2) by (simp add: rates_ok_def buckets_ok_def)
    moreover have "granted_as rates provider scope permits aid q now epoch st ?st"
      unfolding granted_as_def Let_def limit_def [symmetric] p_def [symmetric] acc_def [symmetric]
      using room st2(3) plan commit acc' by (auto simp: buckets_after_def)
    ultimately show ?thesis by simp
  next
    case False
    have reason: "refusal_reason rates provider scope permits now epoch st x =
        (case x of RateTenant _ \<Rightarrow> tw \<noteq> None | RateProvider _ \<Rightarrow> tw = None \<and> pw \<noteq> None
         | RateBudget w \<Rightarrow> tw = None \<and> pw = None \<and> (\<exists>b. scope_budget scope = Some b \<and> w = budget_wait (window_secs b) epoch)
         | RateUnavailable \<Rightarrow> True)" for x
      unfolding refusal_reason_def Let_def limit_def [symmetric] p_def [symmetric] st1(2,3) by simp
    consider (full) full | (tenant) w where "\<not> full" "tw = Some w" | (provider) w where "\<not> full" "tw = None" "pw = Some w"
      | (budget) x where "\<not> full" "tw = None" "pw = None" "plan = Inl x"
      using False by (cases tw; cases pw; cases plan) auto
    then show ?thesis
    proof cases
      case budget
      then have "refusal_reason rates provider scope permits now epoch st x"
        using plan_refusal [OF plan [unfolded budget(4)]] by (auto simp: reason)
      with eq refused budget show ?thesis by simp
    qed (use eq refused reason in simp_all)
  qed
qed

section \<open>Runs\<close>

datatype rate_op =
    Admit_op string trusted_policy_scope nat nat "budget_quote option" instant nat
  | Penalty_op string duration instant
  | Usage_op trusted_policy_scope nat spend_observation
  | Finish_op trusted_policy_scope nat attempt_outcome

fun rate_step :: "local_attempt_rates \<Rightarrow> rate_op \<Rightarrow> local_rate_state \<Rightarrow> local_rate_state option" where
  "rate_step rates (Admit_op provider scope permits aid q now epoch) st =
     map_option snd (acquire_at_epoch rates provider scope permits aid q now epoch st)"
| "rate_step rates (Penalty_op provider d now) st = Some (rates_penalize rates provider d now st)"
| "rate_step rates (Usage_op scope aid obs) st = Some (snd (rates_observe_usage scope aid obs st))"
| "rate_step rates (Finish_op scope aid outcome) st = Some (snd (rates_finish scope aid outcome st))"

fun run_rates :: "local_attempt_rates \<Rightarrow> rate_op list \<Rightarrow> local_rate_state \<Rightarrow> local_rate_state option" where
  "run_rates rates [] st = Some st"
| "run_rates rates (op # ops) st = Option.bind (rate_step rates op st) (run_rates rates ops)"

lemma run_rates_append: "run_rates rates (xs @ ys) st = Option.bind (run_rates rates xs st) (run_rates rates ys)"
  by (induction xs arbitrary: st) (auto simp: fun_eq_iff intro!: arg_cong2 [where f = Option.bind])

fun op_ok :: "local_attempt_rates \<Rightarrow> rate_op \<Rightarrow> bool" where
  "op_ok rates (Admit_op provider scope permits aid q now epoch) \<longleftrightarrow> admission_ok rates provider scope permits"
| "op_ok rates (Penalty_op provider d now) \<longleftrightarrow>
     limit_ok (limit_rpm (resolve_limit (ar_config rates) provider)) \<and> limit_ok (limit_tpm (resolve_limit (ar_config rates) provider))"
| "op_ok rates _ \<longleftrightarrow> True"

fun op_before :: "nat \<Rightarrow> rate_op \<Rightarrow> bool" where
  "op_before t (Admit_op provider scope permits aid q now epoch) \<longleftrightarrow> epoch < t"
| "op_before t _ \<longleftrightarrow> True"

lemma rates_ok_empty: "rates_ok empty_rates"
  by (simp add: rates_ok_def buckets_ok_def dimension_ok_def empty_rates_def accounts_ok_empty)

lemma penalize_dimension_ok: "dimension_ok m \<Longrightarrow> limit_ok limit \<Longrightarrow> dimension_ok (penalize_dimension limit d now key m)"
  using ab_penalize_ok entry_of_ok
  by (auto simp: penalize_dimension_def dimension_ok_def limit_ok_def map_of_update split: option.split)

text \<open>Every handler keeps the books; an admission does so for the windows that have not expired.\<close>

definition step_books :: "nat \<Rightarrow> rate_op \<Rightarrow> accounts \<Rightarrow> accounts \<Rightarrow> bool" where
  "step_books ret op acc acc' \<longleftrightarrow>
     (\<forall>k. op_before (window_expiry ret k) op \<longrightarrow> expiry_ok ret acc \<longrightarrow>
        expiry_ok ret acc' \<and> (exact k acc \<longrightarrow> exact k acc'))"

lemma granted_books:
  assumes "accounts_ok (accounts_of st)" and "scope_ok scope" and "granted_as rates provider scope permits aid q now epoch st st'"
  shows "step_books (retention_secs rates) (Admit_op provider scope permits aid q now epoch) (accounts_of st) (accounts_of st') \<and>
    (\<forall>p. scope_budget scope = Some p \<longrightarrow>
      (\<exists>k amount. k = \<lparr>wk_tenant_key = tenant_key scope, wk_window_secs = window_secs p, wk_window_index = epoch div window_secs p\<rparr> \<and>
        k \<notin> budget_frozen (accounts_of st') \<and>
        map_of (budget_attempts (accounts_of st')) aid = Some amount \<and> window_key amount = k \<and>
        (expiry_ok (retention_secs rates) (accounts_of st) \<longrightarrow> epoch < window_expiry (retention_secs rates) k \<longrightarrow>
           exact k (accounts_of st) \<longrightarrow> owed k (budget_attempts (accounts_of st')) \<le> limit_nanos p)))"
proof -
  define acc where "acc = purge_expired_budget_state epoch (accounts_of st)"
  have purge: "accounts_ok acc"
    "expiry_ok ret (accounts_of st) \<Longrightarrow> epoch < window_expiry ret k \<Longrightarrow>
      expiry_ok ret acc \<and> (exact k (accounts_of st) \<longrightarrow> exact k acc)" for ret k
    unfolding acc_def using purge_books [OF assms(1)] by blast+
  obtain commit where plan: "plan_budget (retention_secs rates) (tenant_key scope) (scope_budget scope) q epoch acc = Some (Inr commit)"
    and com: "commit_budget commit aid acc = (Inr (), accounts_of st')"
    and free: "commit \<noteq> None \<longrightarrow> map_of (budget_attempts acc) aid = None"
    using assms(3) by (auto simp: granted_as_def Let_def acc_def)
  show ?thesis
  proof (cases commit)
    case None
    then have "accounts_of st' = acc" "scope_budget scope = None"
      using com plan plan_none by (auto simp: commit_budget_def)
    then show ?thesis using purge(2) by (simp add: step_books_def)
  next
    case (Some c)
    obtain k q' e where c: "c = (k, q', e)" by (cases c)
    note pl = plan [unfolded Some c]
    obtain pol where pol: "scope_budget scope = Some pol"
        "k = \<lparr>wk_tenant_key = tenant_key scope, wk_window_secs = window_secs pol, wk_window_index = epoch div window_secs pol\<rparr>"
      using plan_budget_commit [OF pl] by auto
    have "limit_nanos pol \<le> MAX_EXACT_REDIS_NANOS" using assms(2) pol(1) by (simp add: scope_ok_def)
    from commit_books [OF purge(1) _ pl [unfolded pol(1)] this, of aid] free com Some c
    have books: "keeps_books (retention_secs rates) acc (accounts_of st')" "k \<notin> budget_frozen (accounts_of st')"
      "map_of (budget_attempts (accounts_of st')) aid = Some (new_liability k q' e)"
      "exact k acc \<longrightarrow> owed k (budget_attempts (accounts_of st')) \<le> limit_nanos pol" by auto
    have "step_books (retention_secs rates) (Admit_op provider scope permits aid q now epoch) (accounts_of st) (accounts_of st')"
      using books(1) purge(2) by (simp add: step_books_def keeps_books_def)
    moreover have "\<exists>k' amount. k' = \<lparr>wk_tenant_key = tenant_key scope, wk_window_secs = window_secs p, wk_window_index = epoch div window_secs p\<rparr> \<and>
        k' \<notin> budget_frozen (accounts_of st') \<and> map_of (budget_attempts (accounts_of st')) aid = Some amount \<and> window_key amount = k' \<and>
        (expiry_ok (retention_secs rates) (accounts_of st) \<longrightarrow> epoch < window_expiry (retention_secs rates) k' \<longrightarrow>
           exact k' (accounts_of st) \<longrightarrow> owed k' (budget_attempts (accounts_of st')) \<le> limit_nanos p)"
      if "scope_budget scope = Some p" for p
      using that pol books(2-4) purge(2) [of "retention_secs rates" k]
      by (intro exI [of _ k] exI [of _ "new_liability k q' e"]) (auto simp: new_liability_def)
    ultimately show ?thesis by blast
  qed
qed

lemma rate_step_ok:
  assumes "rates_ok st" and "op_ok rates op"
  shows "\<exists>st'. rate_step rates op st = Some st' \<and> rates_ok st' \<and> step_books (retention_secs rates) op (accounts_of st) (accounts_of st')"
proof -
  have acc: "accounts_ok (accounts_of st)" using assms(1) by (simp add: rates_ok_def)
  show ?thesis
  proof (cases op)
    case (Admit_op provider scope permits aid q now epoch)
    have ok: "admission_ok rates provider scope permits" using assms(2) Admit_op by simp
    from acquire_spec [OF assms(1) ok] obtain r st' where st': "acquire_at_epoch rates provider scope permits aid q now epoch st = Some (r, st')"
      "rates_ok st'" "case r of Inl x \<Rightarrow> refused_as rates provider scope now epoch st st' \<and> refusal_reason rates provider scope permits now epoch st x
        | Inr _ \<Rightarrow> granted_as rates provider scope permits aid q now epoch st st'" by blast
    have "step_books (retention_secs rates) op (accounts_of st) (accounts_of st')"
    proof (cases r)
      case (Inl x)
      with st'(3) purge_books(2) [OF acc] Admit_op show ?thesis by (simp add: refused_as_def step_books_def)
    next
      case (Inr x)
      then have "granted_as rates provider scope permits aid q now epoch st st'" using st'(3) by simp
      from granted_books [OF acc _ this] ok Admit_op show ?thesis by (simp add: admission_ok_def)
    qed
    with st' Admit_op show ?thesis by simp
  next
    case (Penalty_op provider d now)
    with assms show ?thesis
      by (auto simp: rates_ok_def buckets_ok_def rates_penalize_def step_books_def Let_def intro: penalize_dimension_ok)
  next
    case (Usage_op scope aid obs)
    with assms(1) observe_usage_books [OF acc, of "scope_budget scope \<noteq> None" aid obs "retention_secs rates"] show ?thesis
      by (auto simp: rates_observe_usage_def rates_ok_def buckets_ok_def keeps_books_def step_books_def)
  next
    case (Finish_op scope aid outcome)
    with assms(1) finish_attempt_books [OF acc, of "scope_budget scope \<noteq> None" aid outcome "retention_secs rates"] show ?thesis
      by (auto simp: rates_finish_def rates_ok_def buckets_ok_def keeps_books_def step_books_def)
  qed
qed

lemma run_rates_ok:
  assumes "list_all (op_ok rates) ops" and "rates_ok st"
  shows "\<exists>st'. run_rates rates ops st = Some st' \<and> rates_ok st' \<and>
    (\<forall>k. list_all (op_before (window_expiry (retention_secs rates) k)) ops \<longrightarrow> expiry_ok (retention_secs rates) (accounts_of st) \<longrightarrow>
       expiry_ok (retention_secs rates) (accounts_of st') \<and> (exact k (accounts_of st) \<longrightarrow> exact k (accounts_of st')))"
  using assms
proof (induction ops arbitrary: st)
  case (Cons op ops)
  obtain st1 where st1: "rate_step rates op st = Some st1" "rates_ok st1"
    "step_books (retention_secs rates) op (accounts_of st) (accounts_of st1)"
    using rate_step_ok [of st rates op] Cons.prems by auto
  from Cons.IH [of st1] Cons.prems st1 show ?case by (fastforce simp: step_books_def)
qed simp

text \<open>How a handler may change the record of one attempt it does not admit.\<close>

fun admits :: "nat \<Rightarrow> rate_op \<Rightarrow> bool" where
  "admits i (Admit_op provider scope permits aid q now epoch) \<longleftrightarrow> aid = i"
| "admits i _ \<longleftrightarrow> False"

lemma rate_step_evolves:
  assumes "rates_ok st" and "op_ok rates op" and "rate_step rates op st = Some st'" and "\<not> admits i op"
    and "map_of (budget_attempts (accounts_of st)) i = Some a"
  shows "map_of (budget_attempts (accounts_of st')) i = None \<and> \<not> op_before (expires_at_epoch_secs a) op \<or>
    (\<exists>a'. map_of (budget_attempts (accounts_of st')) i = Some a' \<and> evolves a a')"
proof (cases op)
  case (Admit_op provider scope permits aid q now epoch)
  let ?acc = "purge_expired_budget_state epoch (accounts_of st)"
  have ok: "admission_ok rates provider scope permits" and i: "aid \<noteq> i" using assms(2,4) Admit_op by simp_all
  obtain r where r: "acquire_at_epoch rates provider scope permits aid q now epoch st = Some (r, st')"
    using assms(3) Admit_op by auto
  have "map_of (budget_attempts (accounts_of st')) i = map_of (budget_attempts ?acc) i"
    using acquire_spec [OF assms(1) ok, of aid q now epoch] i
    by (cases r) (auto simp: r refused_as_def granted_as_def Let_def dest: commit_budget_other)
  with purge_keeps_attempts [of epoch "accounts_of st" i] purge_keeps_unexpired [OF assms(5)] assms(5) evolves_refl Admit_op
  show ?thesis by (cases "epoch < expires_at_epoch_secs a") auto
next
  case (Penalty_op provider d now)
  with assms(3,5) evolves_refl show ?thesis by (auto simp: rates_penalize_def Let_def)
next
  case (Usage_op scope aid obs)
  with assms(3) observe_usage_evolves [OF assms(5), of "scope_budget scope \<noteq> None" aid obs] show ?thesis
    by (auto simp: rates_observe_usage_def split: prod.splits)
next
  case (Finish_op scope aid outcome)
  with assms(3) finish_attempt_evolves [OF assms(5), of "scope_budget scope \<noteq> None" aid outcome] show ?thesis
    by (auto simp: rates_finish_def split: prod.splits)
qed

definition kept_or_settled :: "attempt_liability \<Rightarrow> attempt_liability \<Rightarrow> bool" where
  "kept_or_settled a a' \<longleftrightarrow> window_key a' = window_key a \<and> expires_at_epoch_secs a' = expires_at_epoch_secs a \<and>
     (finalized a \<longrightarrow> a' = a) \<and> (\<not> finalized a' \<longrightarrow> liability_nanos a \<le> liability_nanos a')"

lemma run_rates_keeps:
  assumes "rates_ok st" and "list_all (op_ok rates) ops" and "run_rates rates ops st = Some st'"
    and "list_all (\<lambda>op. \<not> admits i op \<and> op_before (expires_at_epoch_secs a) op) ops"
    and "map_of (budget_attempts (accounts_of st)) i = Some a"
  shows "\<exists>a'. map_of (budget_attempts (accounts_of st')) i = Some a' \<and> kept_or_settled a a'"
  using assms
proof (induction ops arbitrary: st a)
  case Nil
  then show ?case by (simp add: kept_or_settled_def)
next
  case (Cons op ops)
  obtain st1 where st1: "rate_step rates op st = Some st1" "rates_ok st1" "run_rates rates ops st1 = Some st'"
    using rate_step_ok [OF Cons.prems(1), of rates op] Cons.prems(2,3) by auto
  have "op_ok rates op" "\<not> admits i op" "op_before (expires_at_epoch_secs a) op" using Cons.prems by auto
  from rate_step_evolves [OF Cons.prems(1) this(1) st1(1) this(2) Cons.prems(5)] this(3) obtain a1 where
    a1: "map_of (budget_attempts (accounts_of st1)) i = Some a1" "evolves a a1" by blast
  then have same: "expires_at_epoch_secs a1 = expires_at_epoch_secs a" "window_key a1 = window_key a"
    by (simp_all add: evolves_def same_place_def)
  obtain a' where a': "map_of (budget_attempts (accounts_of st')) i = Some a'" "kept_or_settled a1 a'"
    using Cons.IH [OF st1(2) _ st1(3) _ a1(1)] Cons.prems(2,4) same(1) by auto
  have "kept_or_settled a a'"
    using a1(2) a'(2) same unfolding kept_or_settled_def evolves_def
    by (cases "finalized a1") (auto split: if_splits)
  with a'(1) show ?case by blast
qed

section \<open>Penalties\<close>

text \<open>Until when the buckets of a provider refuse: the later of the two deadlines.\<close>

definition deadline_of :: "attempt_bucket \<Rightarrow> instant" where
  "deadline_of b = (case ab_penalty_until b of Some t \<Rightarrow> t | None \<Rightarrow> 0)"

definition bucket_deadline :: "attempt_bucket option \<Rightarrow> instant" where
  "bucket_deadline ob = (case ob of Some b \<Rightarrow> deadline_of b | None \<Rightarrow> 0)"

definition deadlines_kept :: "local_rate_state \<Rightarrow> local_rate_state \<Rightarrow> bool" where
  "deadlines_kept st st' \<longleftrightarrow>
     (\<forall>k. bucket_deadline (map_of (global_rpm st) k) \<le> bucket_deadline (map_of (global_rpm st') k) \<and>
          bucket_deadline (map_of (global_tpm st) k) \<le> bucket_deadline (map_of (global_tpm st') k))"

lemma deadline_simps [simp]:
  "deadline_of (ab_refill now b) = deadline_of b"
  "deadline_of (ab_debit x b) = deadline_of b"
  "deadline_of (ab_penalize d now b) = max (deadline_of b) (now + d)"
  "deadline_of (entry_of l now key m) = bucket_deadline (map_of m key)"
  "bucket_deadline (Some b) = deadline_of b"
  by (simp_all add: bucket_deadline_def deadline_of_def ab_refill_def ab_debit_def ab_penalize_def entry_of_def ab_new_def Let_def
      split: option.split)

lemma dimension_after_deadline:
  assumes "\<And>b. deadline_of (f b) = deadline_of b"
  shows "bucket_deadline (dimension_after limit f now key m k) = bucket_deadline (map_of m k)"
  using assms by (simp add: dimension_after_def split: option.split)

lemma buckets_after_deadline:
  assumes "buckets_after limit scope provider f g now st st'"
    and "\<And>b. deadline_of (f b) = deadline_of b" "\<And>b. deadline_of (g b) = deadline_of b"
  shows "deadlines_kept st st'"
  using assms by (simp add: deadlines_kept_def buckets_after_def dimension_after_deadline)

lemma penalize_dimension_deadline:
  "bucket_deadline (map_of m k) \<le> bucket_deadline (map_of (penalize_dimension limit d now key m) k)"
  "limit = Some l \<Longrightarrow> 0 < l \<Longrightarrow> now + d \<le> bucket_deadline (map_of (penalize_dimension limit d now key m) key)"
  by (auto simp: penalize_dimension_def map_of_update split: option.split)

lemma rate_step_deadline:
  assumes "rates_ok st" and "op_ok rates op" and "rate_step rates op st = Some st'"
  shows "deadlines_kept st st'"
proof (cases op)
  case (Admit_op provider scope permits aid q now epoch)
  have ok: "admission_ok rates provider scope permits" using assms(2) Admit_op by simp
  obtain r where r: "acquire_at_epoch rates provider scope permits aid q now epoch st = Some (r, st')"
    using assms(3) Admit_op by auto
  have "st' = st\<lparr>accounts_of := accounts_of st'\<rparr> \<or> (\<exists>limit. buckets_after limit scope provider id id now st st') \<or>
      (\<exists>limit p. buckets_after limit scope provider (ab_debit (Fin 1)) (ab_debit p) now st st')"
    using acquire_spec [OF assms(1) ok, of aid q now epoch]
    by (cases r) (auto simp: r refused_as_def granted_as_def)
  moreover have "deadlines_kept st (st\<lparr>accounts_of := acc\<rparr>)" for acc by (simp add: deadlines_kept_def)
  ultimately show ?thesis
    using buckets_after_deadline [where st = st and st' = st'] by (metis deadline_simps(2) id_apply)
next
  case (Penalty_op provider d now)
  with assms(3) show ?thesis
    by (auto simp: deadlines_kept_def rates_penalize_def Let_def intro: penalize_dimension_deadline(1))
next
  case (Usage_op scope aid obs)
  with assms(3) show ?thesis by (auto simp: deadlines_kept_def rates_observe_usage_def split: prod.splits)
next
  case (Finish_op scope aid outcome)
  with assms(3) show ?thesis by (auto simp: deadlines_kept_def rates_finish_def split: prod.splits)
qed

lemma run_rates_deadline:
  assumes "rates_ok st" and "list_all (op_ok rates) ops" and "run_rates rates ops st = Some st'"
  shows "deadlines_kept st st'"
  using assms
proof (induction ops arbitrary: st)
  case (Cons op ops)
  obtain st1 where st1: "rate_step rates op st = Some st1" "rates_ok st1" "run_rates rates ops st1 = Some st'"
    using rate_step_ok [OF Cons.prems(1), of rates op] Cons.prems(2,3) by auto
  with rate_step_deadline [OF Cons.prems(1) _ st1(1)] Cons.IH [OF st1(2) _ st1(3)] Cons.prems(2) show ?case
    by (auto simp: deadlines_kept_def intro: order_trans)
qed (simp add: deadlines_kept_def)

lemma deadline_refuses:
  assumes "now < bucket_deadline (map_of m key)" and "limit \<noteq> None"
  shows "\<not> dimension_room limit p now key m"
proof -
  have "ab_ask x now b \<noteq> Some (Inr ())" if "now < deadline_of b" for x b
    using that by (auto simp: ab_ask_def deadline_of_def split: option.splits)
  then show ?thesis using assms by (auto simp: dimension_room_def ab_admits_def split: option.split)
qed

section \<open>Properties\<close>

definition current_window :: "trusted_policy_scope \<Rightarrow> budget_policy_snapshot \<Rightarrow> nat \<Rightarrow> budget_window_key" where
  "current_window scope p epoch =
     \<lparr>wk_tenant_key = tenant_key scope, wk_window_secs = window_secs p, wk_window_index = epoch div window_secs p\<rparr>"

lemma current_window_open:
  assumes "window_secs p \<noteq> 0" and "epoch < u64_max"
  shows "epoch < window_expiry ret (current_window scope p epoch)"
proof -
  have "epoch < (epoch div window_secs p + 1) * window_secs p"
    using assms(1) dividend_less_div_times [of "window_secs p" epoch] by (simp add: algebra_simps)
  moreover have "epoch div window_secs p + 1 \<le> u64_max" using assms(2) div_le_dividend [of epoch "window_secs p"] by linarith
  ultimately show ?thesis using assms(2)
    by (simp add: window_expiry_def current_window_def saturating_add_u64_def saturating_mul_u64_def)
qed

lemma list_all_before_mono: "list_all (op_before (Suc t)) ops \<Longrightarrow> t < t' \<Longrightarrow> list_all (op_before t') ops"
proof (induction ops)
  case (Cons op ops)
  then show ?case by (cases op) auto
qed simp

text \<open>Admission under a budget never overcommits it: after any run of admissions, penalties, usage
  reports and settlements whose clock readings do not lie ahead of the present, an admission that is
  granted leaves the liabilities of the tenant's current window, its own included, within the tenant's limit.\<close>

lemma admitted_within_budget:
  assumes "list_all (op_ok rates) ops" and "run_rates rates ops empty_rates = Some st"
    and "list_all (op_before (Suc epoch)) ops" and "epoch < u64_max"
    and "admission_ok rates provider scope permits" and "scope_budget scope = Some p"
    and "acquire_at_epoch rates provider scope permits aid q now epoch st = Some (Inr (), st')"
  shows "(\<exists>a. map_of (budget_attempts (accounts_of st')) aid = Some a \<and> window_key a = current_window scope p epoch) \<and>
    owed (current_window scope p epoch) (budget_attempts (accounts_of st')) \<le> limit_nanos p"
proof -
  let ?k = "current_window scope p epoch" let ?ret = "retention_secs rates"
  have scope: "scope_ok scope" using assms(5) by (simp add: admission_ok_def)
  have open': "epoch < window_expiry ?ret ?k"
    using scope assms(4,6) by (intro current_window_open) (simp_all add: scope_ok_def)
  have "expiry_ok ?ret (accounts_of empty_rates)" "exact ?k (accounts_of empty_rates)"
    by (simp_all add: expiry_ok_def exact_def empty_rates_def no_accounts_def owed_def)
  with run_rates_ok [OF assms(1) rates_ok_empty] assms(2) list_all_before_mono [OF assms(3) open']
  have st: "rates_ok st" "expiry_ok ?ret (accounts_of st)" "exact ?k (accounts_of st)" by auto
  then have "granted_as rates provider scope permits aid q now epoch st st'"
    using acquire_spec [OF st(1) assms(5), of aid q now epoch] assms(7) by auto
  from granted_books [OF _ scope this] st open' assms(6) show ?thesis
    by (fastforce simp: rates_ok_def current_window_def)
qed

text \<open>No sequence of handler calls panics, and afterwards the accounts are sound: each window with a
  retained attempt has a total of at most $2^{53}$ that covers all its liabilities unless the window is
  frozen, where it stands at that bound; a window without one has no total; and usage reports and
  settlements under a budget fail exactly for attempts that are not retained.\<close>

lemma rates_never_panic:
  assumes "list_all (op_ok rates) ops"
  shows "\<exists>st. run_rates rates ops empty_rates = Some st \<and>
    (\<forall>k. case map_of (budget_totals (accounts_of st)) k of
       None \<Rightarrow> \<forall>aid a. map_of (budget_attempts (accounts_of st)) aid = Some a \<longrightarrow> window_key a \<noteq> k
     | Some t \<Rightarrow> t \<le> 2 ^ 53 \<and> (if k \<in> budget_frozen (accounts_of st) then t = 2 ^ 53 else owed k (budget_attempts (accounts_of st)) \<le> t)) \<and>
    (\<forall>scope aid obs outcome. scope_budget scope \<noteq> None \<longrightarrow>
       (fst (rates_observe_usage scope aid obs st) = Inl () \<longleftrightarrow> map_of (budget_attempts (accounts_of st)) aid = None) \<and>
       (fst (rates_finish scope aid outcome st) = Inl () \<longleftrightarrow> map_of (budget_attempts (accounts_of st)) aid = None))"
proof -
  obtain st where st: "run_rates rates ops empty_rates = Some st" "rates_ok st"
    using run_rates_ok [OF assms rates_ok_empty] by blast
  then have ok: "accounts_ok (accounts_of st)" by (simp add: rates_ok_def)
  have "case map_of (budget_totals (accounts_of st)) k of
       None \<Rightarrow> \<forall>aid a. map_of (budget_attempts (accounts_of st)) aid = Some a \<longrightarrow> window_key a \<noteq> k
     | Some t \<Rightarrow> t \<le> 2 ^ 53 \<and> (if k \<in> budget_frozen (accounts_of st) then t = 2 ^ 53 else owed k (budget_attempts (accounts_of st)) \<le> t)"
    for k
    using ok [unfolded accounts_ok_def totals_ok_def, THEN conjunct2, THEN conjunct2, THEN conjunct1, rule_format, of k] members_positive
    by (fastforce simp: MAX_EXACT_REDIS_NANOS_def split: option.splits)
  moreover have "fst (rates_observe_usage scope aid obs st) = Inl () \<longleftrightarrow> map_of (budget_attempts (accounts_of st)) aid = None"
    "fst (rates_finish scope aid outcome st) = Inl () \<longleftrightarrow> map_of (budget_attempts (accounts_of st)) aid = None"
    if "scope_budget scope \<noteq> None" for scope aid obs outcome
    using observe_usage_books [OF ok, of "scope_budget scope \<noteq> None" aid obs 0]
      finish_attempt_books [OF ok, of "scope_budget scope \<noteq> None" aid outcome 0] that
    by (auto simp: rates_observe_usage_def rates_finish_def split: if_splits)
  ultimately show ?thesis using st(1) by blast
qed


text \<open>C19. The record of an admitted attempt is kept, in its window, for as long as the clock has not reached its
  expiry, whatever is reported; its liability never shrinks before the attempt is settled, and once settled
  it never changes, so no attempt is settled twice.\<close>

theorem liability_settled_once:
  assumes "list_all (op_ok rates) ops" and "run_rates rates ops empty_rates = Some st"
    and "map_of (budget_attempts (accounts_of st)) i = Some a"
    and "list_all (op_ok rates) later" and "run_rates rates later st = Some st'"
    and "list_all (\<lambda>op. \<not> admits i op \<and> op_before (expires_at_epoch_secs a) op) later"
  shows "\<exists>a'. map_of (budget_attempts (accounts_of st')) i = Some a' \<and> window_key a' = window_key a \<and>
    (finalized a \<longrightarrow> a' = a) \<and> (\<not> finalized a' \<longrightarrow> liability_nanos a \<le> liability_nanos a')"
proof -
  have "rates_ok st" using run_rates_ok [OF assms(1) rates_ok_empty] assms(2) by auto
  from run_rates_keeps [OF this assms(4,5,6,3)] show ?thesis by (auto simp: kept_or_settled_def)
qed

text \<open>C20. A rate-limit answer from a provider stops this instance: once a limited provider has been penalized,
  no admission to it, of any tenant, is granted before the penalty has elapsed, whatever happens in between.\<close>

theorem penalty_stops_admissions:
  assumes "list_all (op_ok rates) (before @ Penalty_op provider d t # later)"
    and "run_rates rates (before @ Penalty_op provider d t # later) empty_rates = Some st"
    and "limit_rpm (resolve_limit (ar_config rates) provider) \<noteq> None \<or> limit_tpm (resolve_limit (ar_config rates) provider) \<noteq> None"
    and "admission_ok rates provider scope permits" and "now < t + d"
  shows "\<exists>r st'. acquire_at_epoch rates provider scope permits aid q now epoch st = Some (Inl r, st')"
proof -
  let ?limit = "resolve_limit (ar_config rates) provider"
  obtain st0 where st0: "run_rates rates before empty_rates = Some st0" "rates_ok st0"
    using run_rates_ok [OF _ rates_ok_empty, of rates before] assms(1) by auto
  let ?st1 = "rates_penalize rates provider d t st0"
  have "rates_ok ?st1" "op_ok rates (Penalty_op provider d t)"
    using rate_step_ok [OF st0(2), of rates "Penalty_op provider d t"] assms(1) by auto
  moreover have "run_rates rates later ?st1 = Some st" using assms(2) st0(1) by (simp add: run_rates_append)
  ultimately have st: "rates_ok st" "deadlines_kept ?st1 st"
    using run_rates_ok [of rates later ?st1] run_rates_deadline [of ?st1 rates later st] assms(1) by auto
  have refuses: "\<not> dimension_room limit p now provider m'"
    if "limit \<noteq> None" "bucket_deadline (map_of (penalize_dimension limit d t provider m) provider) \<le> bucket_deadline (map_of m' provider)"
    for limit p m m'
  proof (cases "limit = Some 0")
    case False
    with that(1) obtain l where "limit = Some l" "0 < l" by auto
    from penalize_dimension_deadline(2) [OF this, of t d provider m] that assms(5) show ?thesis by (intro deadline_refuses) auto
  qed (simp add: dimension_room_def)
  have "\<not> provider_room ?limit provider (max permits 1) now st"
    using assms(3) st(2) refuses [of "limit_rpm ?limit" "global_rpm st0" "global_rpm st" 1]
      refuses [of "limit_tpm ?limit" "global_tpm st0" "global_tpm st" "max permits 1"]
    by (auto simp: provider_room_def deadlines_kept_def rates_penalize_def Let_def)
  then have "\<not> granted_as rates provider scope permits aid q now epoch st st'" for st' by (simp add: granted_as_def)
  with acquire_spec [OF st(1) assms(4), of aid q now epoch] show ?thesis by (metis sum.case(2) sum.exhaust_sel)
qed

section \<open>Witnesses\<close>

text \<open>A tenant with a daily limit of one dollar, and a run that admits, prices and settles one attempt.\<close>

definition demo_rates :: local_attempt_rates where
  "demo_rates = \<lparr>ar_config = with_global None None, max_retained_attempts = 8, retention_secs = LATE_SETTLEMENT_RETENTION_SECS\<rparr>"

definition demo_budget :: budget_policy_snapshot where
  "demo_budget = \<lparr>limit_nanos = 1000000000, window_secs = 86400, allow_unpriced = False, valid_budget = True\<rparr>"

definition demo_scope :: trusted_policy_scope where
  "demo_scope = \<lparr>scope_version = 1, tenant_key = ''t'', scope_rpm = None, scope_tpm = None, scope_budget = Some demo_budget, scope_floor = None\<rparr>"

definition demo_admit :: "nat \<Rightarrow> nat \<Rightarrow> rate_op" where
  "demo_admit aid epoch = Admit_op ''openai'' demo_scope 5 aid (Some \<lparr>amount_nanos = 700000000, bounded = True\<rparr>) 0 epoch"

definition demo_ops :: "rate_op list" where
  "demo_ops =
     [demo_admit 1 100000,
      Usage_op demo_scope 1 \<lparr>so_amount_nanos = Some 200000000, so_authority = ProviderBill, so_terminal_authoritative = True\<rparr>,
      Finish_op demo_scope 1 (Completed UsageObserved)]"

definition demo_liability :: attempt_liability where
  "demo_liability =
     \<lparr>window_key = current_window demo_scope demo_budget 100000, pricing_bounded = True, liability_nanos = 200000000,
      observed_nanos = Some 200000000, max_provider_nanos = Some 200000000, terminal_catalog_nanos = None,
      terminal_provider_nanos = Some 200000000, finalized = True, expires_at_epoch_secs = 259200\<rparr>"

definition demo_state :: local_rate_state where
  "demo_state = empty_rates\<lparr>accounts_of :=
     \<lparr>budget_totals = [(current_window demo_scope demo_budget 100000, 200000000)], budget_frozen = {},
      budget_attempts = [(1, demo_liability)], budget_expirations = [(259200, 1)],
      budget_window_references = [(current_window demo_scope demo_budget 100000, 1)]\<rparr>\<rparr>"

lemmas demo_defs = demo_rates_def demo_budget_def demo_scope_def demo_admit_def demo_ops_def demo_liability_def demo_state_def

lemma demo_ops_ok: "list_all (op_ok demo_rates) demo_ops" "admission_ok demo_rates ''openai'' demo_scope 5"
  by (simp_all add: demo_defs admission_ok_def limits_ok_def limit_ok_def scope_ok_def resolve_limit_def with_global_def
      u32_max_def MAX_EXACT_REDIS_NANOS_def Let_def)

lemmas demo_eval = acquire_at_epoch_def check_all_def check_dimension_def debit_all_def debit_dimension_def resolve_limit_def
  with_global_def purge_expired_budget_state_def ACCOUNTING_EXPIRY_CLEANUP_BATCH_def longer_wait_def plan_budget_def
  commit_budget_def new_liability_def checked_add_u64_def saturating_add_u64_def saturating_mul_u64_def
  LATE_SETTLEMENT_RETENTION_SECS_def u64_max_def no_accounts_def current_window_def Let_def

lemma purge_none: "budget_expirations st = [] \<or> now < fst (hd (budget_expirations st)) \<Longrightarrow> purge_loop n now st = st"
  by (cases n) (auto split: list.split)

lemma rates_demo_run: "run_rates demo_rates demo_ops empty_rates = Some demo_state"
  by (simp add: demo_defs demo_eval purge_none empty_rates_def rates_observe_usage_def observe_usage_def rates_finish_def
      finish_attempt_def note_amounts_def option_raise_def final_nanos_def)


theorem liability_settled_once_witness:
  "\<exists>st'. run_rates demo_rates (demo_admit 2 100001 # tl demo_ops) demo_state = Some st' \<and>
     map_of (budget_attempts (accounts_of st')) 1 = Some demo_liability"
proof -
  let ?later = "demo_admit 2 100001 # tl demo_ops"
  have ok: "list_all (op_ok demo_rates) ?later" using demo_ops_ok by (simp add: demo_ops_def demo_admit_def)
  have "rates_ok demo_state" using run_rates_ok [OF demo_ops_ok(1) rates_ok_empty] rates_demo_run by auto
  then obtain st' where st': "run_rates demo_rates ?later demo_state = Some st'" using run_rates_ok [OF ok] by blast
  have "list_all (\<lambda>op. \<not> admits 1 op \<and> op_before (expires_at_epoch_secs demo_liability) op) ?later"
    "map_of (budget_attempts (accounts_of demo_state)) 1 = Some demo_liability" "finalized demo_liability"
    by (simp_all add: demo_defs)
  with liability_settled_once [OF demo_ops_ok(1) rates_demo_run _ ok st'] st' show ?thesis by blast
qed

theorem penalty_stops_admissions_witness:
  "\<exists>st r st'. run_rates (demo_rates\<lparr>ar_config := with_global (Some 60) None\<rparr>) (demo_ops @ [Penalty_op ''openai'' 5000 7]) empty_rates = Some st \<and>
     acquire_at_epoch (demo_rates\<lparr>ar_config := with_global (Some 60) None\<rparr>) ''openai'' demo_scope 1 3 None 5006 100002 st = Some (Inl r, st')"
proof -
  let ?rates = "demo_rates\<lparr>ar_config := with_global (Some 60) None\<rparr>"
  have ok: "list_all (op_ok ?rates) (demo_ops @ Penalty_op ''openai'' 5000 7 # [])" "admission_ok ?rates ''openai'' demo_scope 1"
    by (simp_all add: demo_defs admission_ok_def limits_ok_def limit_ok_def scope_ok_def resolve_limit_def with_global_def
        u32_max_def MAX_EXACT_REDIS_NANOS_def Let_def)
  from run_rates_ok [OF ok(1) rates_ok_empty] obtain st where
    st: "run_rates ?rates (demo_ops @ Penalty_op ''openai'' 5000 7 # []) empty_rates = Some st" by blast
  have "limit_rpm (resolve_limit (ar_config ?rates) ''openai'') \<noteq> None" by (simp add: resolve_limit_def with_global_def Let_def)
  with penalty_stops_admissions [OF ok(1) st _ ok(2), of 5006 3 None 100002] st show ?thesis by auto
qed

end
