(* ===== verification/Coordinator.thy ===== *)
theory Coordinator
  imports Attempts
begin

text \<open>
  The coordinator of attempts (\<open>AttemptCoordinator\<close> and \<open>CoordinatedAttemptPolicy\<close> in
  \<open>src/gateway/attempt.rs\<close>). The trait \<open>AttemptRates\<close> is a record of functions over a world, which
  \<open>local_rates\<close> fills with the handlers of \<open>Attempts\<close>; \<open>None\<close> is a panic. A semaphore is the number of
  its free permits, and a permit is the provider whose semaphore it came from. A call of \<open>acquire\<close>
  suspends twice, so it is a task with two phases, which other tasks interleave with and whose caller may drop it.
\<close>

section \<open>The interface of the rates\<close>

record 'r attempt_rates =
  at_acquire :: "string \<Rightarrow> trusted_policy_scope \<Rightarrow> nat \<Rightarrow> nat \<Rightarrow> budget_quote option \<Rightarrow> 'r \<Rightarrow> ((rate_refusal, unit) result \<times> 'r) option"
  at_penalize :: "string \<Rightarrow> duration \<Rightarrow> 'r \<Rightarrow> (unit, unit) result \<times> 'r"
  at_observe_usage :: "trusted_policy_scope \<Rightarrow> nat \<Rightarrow> spend_observation \<Rightarrow> 'r \<Rightarrow> (unit, unit) result \<times> 'r"
  at_finish :: "trusted_policy_scope \<Rightarrow> nat \<Rightarrow> attempt_outcome \<Rightarrow> 'r \<Rightarrow> (unit, unit) result \<times> 'r"

text \<open>The local rates, with the clocks they read in their world.\<close>

record local_world =
  lw_now :: instant
  lw_epoch :: nat
  lw_state :: local_rate_state

definition local_rates :: "local_attempt_rates \<Rightarrow> local_world attempt_rates" where
  "local_rates rates =
     \<lparr>at_acquire = (\<lambda>provider scope permits aid q w.
        map_option (\<lambda>(r, st). (r, w\<lparr>lw_state := st\<rparr>))
          (acquire_at_epoch rates provider scope permits aid q (lw_now w) (lw_epoch w) (lw_state w))),
      at_penalize = (\<lambda>provider d w. (Inr (), w\<lparr>lw_state := rates_penalize rates provider d (lw_now w) (lw_state w)\<rparr>)),
      at_observe_usage = (\<lambda>scope aid obs w.
        case rates_observe_usage scope aid obs (lw_state w) of (r, st) \<Rightarrow> (r, w\<lparr>lw_state := st\<rparr>)),
      at_finish = (\<lambda>scope aid outcome w.
        case rates_finish scope aid outcome (lw_state w) of (r, st) \<Rightarrow> (r, w\<lparr>lw_state := st\<rparr>))\<rparr>"

section \<open>The coordinator\<close>

record coordinator =
  concurrency_limit :: nat
  concurrency_wait :: duration

definition new_coordinator :: "nat \<Rightarrow> duration \<Rightarrow> coordinator" where
  "new_coordinator limit wait = \<lparr>concurrency_limit = max limit 1, concurrency_wait = wait\<rparr>"

record 'r coordination =
  semaphores :: "(string, nat) hash_map"
  active_permits :: "(nat, string) hash_map"
  rates_world :: 'r

definition semaphore_entry :: "nat \<Rightarrow> string \<Rightarrow> 'r coordination \<Rightarrow> 'r coordination" where
  "semaphore_entry limit provider st =
     (case map_of (semaphores st) provider of
        Some _ \<Rightarrow> st
      | None \<Rightarrow> st\<lparr>semaphores := AList.update provider limit (semaphores st)\<rparr>)"

definition take_permit :: "string \<Rightarrow> 'r coordination \<Rightarrow> 'r coordination option" where
  "take_permit provider st =
     (case map_of (semaphores st) provider of
        Some (Suc n) \<Rightarrow> Some (st\<lparr>semaphores := AList.update provider n (semaphores st)\<rparr>)
      | _ \<Rightarrow> None)"

definition drop_permit :: "string \<Rightarrow> 'r coordination \<Rightarrow> 'r coordination" where
  "drop_permit provider st =
     (case map_of (semaphores st) provider of
        Some n \<Rightarrow> st\<lparr>semaphores := AList.update provider (Suc n) (semaphores st)\<rparr>
      | None \<Rightarrow> st)"

text \<open>Removing or replacing an entry of \<open>active_permits\<close> drops the permit it held.\<close>

definition release :: "nat \<Rightarrow> 'r coordination \<Rightarrow> 'r coordination" where
  "release aid st =
     (case map_of (active_permits st) aid of
        None \<Rightarrow> st
      | Some provider \<Rightarrow> drop_permit provider (st\<lparr>active_permits := AList.delete aid (active_permits st)\<rparr>))"

definition store_permit :: "nat \<Rightarrow> string \<Rightarrow> 'r coordination \<Rightarrow> 'r coordination" where
  "store_permit aid provider st =
     (let st' = release aid st in st'\<lparr>active_permits := AList.update aid provider (active_permits st')\<rparr>)"

definition refused :: "refusal_kind \<Rightarrow> duration option \<Rightarrow> (attempt_policy_refusal, unit) result" where
  "refused k wait = Inl \<lparr>refusal_kind_of = k, refusal_retry_after = wait\<rparr>"

fun rate_refused :: "rate_refusal \<Rightarrow> (attempt_policy_refusal, unit) result" where
  "rate_refused (RateProvider w) = refused ProviderLimit (Some w)"
| "rate_refused (RateTenant w) = refused TenantLimit (Some w)"
| "rate_refused (RateBudget w) = refused BudgetLimit (Some w)"
| "rate_refused RateUnavailable = refused CoordinatorUnavailable None"

text \<open>What \<open>acquire\<close> reads of its surroundings: the estimate's text length, the catalog and its builder.\<close>

record surroundings =
  sr_text_len :: "json \<Rightarrow> nat"
  sr_spec :: "string \<Rightarrow> string option"
  sr_catalog :: catalog

text \<open>The first part of \<open>acquire\<close>, before it waits for a permit.\<close>

definition acquire_begin ::
  "coordinator \<Rightarrow> prepared_attempt \<Rightarrow> trusted_policy_scope \<Rightarrow> 'r coordination \<Rightarrow> (attempt_policy_refusal, 'r coordination) result" where
  "acquire_begin c attempt scope st =
     (if scope_version scope \<noteq> 1 then Inl \<lparr>refusal_kind_of = CoordinatorUnavailable, refusal_retry_after = None\<rparr>
      else Inr (semaphore_entry (concurrency_limit c) (ai_provider_name (pa_identity attempt)) st))"

definition acquire_timeout :: "coordinator \<Rightarrow> (attempt_policy_refusal, unit) result" where
  "acquire_timeout c = refused CoordinatorUnavailable (Some (concurrency_wait c))"

text \<open>The last part, with the permit in hand; the permit is dropped on every path but the granted one.\<close>

definition acquire_end ::
  "'r attempt_rates \<Rightarrow> surroundings \<Rightarrow> prepared_attempt \<Rightarrow> trusted_policy_scope \<Rightarrow> 'r coordination
    \<Rightarrow> (attempt_policy_refusal, unit) result option \<times> 'r coordination" where
  "acquire_end R s attempt scope st =
     (let provider = ai_provider_name (pa_identity attempt); aid = ai_id (pa_identity attempt) in
      case quote (sr_spec s) (sr_catalog s) (scope_budget scope) attempt of
        Inl _ \<Rightarrow> (Some (refused UnpriceableTarget None), drop_permit provider st)
      | Inr q \<Rightarrow>
          (case at_acquire R provider scope (estimate_attempt_tokens (sr_text_len s) (sr_spec s) (sr_catalog s) attempt) aid q
                  (rates_world st) of
             None \<Rightarrow> (None, drop_permit provider st)
           | Some (Inr _, w) \<Rightarrow> (Some (Inr ()), store_permit aid provider (st\<lparr>rates_world := w\<rparr>))
           | Some (Inl x, w) \<Rightarrow> (Some (rate_refused x), drop_permit provider (st\<lparr>rates_world := w\<rparr>))))"

section \<open>Events\<close>

definition unavailable :: "(unit, unit) result \<Rightarrow> (policy_error_kind, unit) result" where
  "unavailable r = (case r of Inl _ \<Rightarrow> Inl CoordinatorError | Inr _ \<Rightarrow> Inr ())"

definition policy_observe_usage ::
  "'r attempt_rates \<Rightarrow> trusted_policy_scope \<Rightarrow> attempt_identity \<Rightarrow> attempt_usage_observation \<Rightarrow> 'r coordination
    \<Rightarrow> (policy_error_kind, unit) result \<times> 'r coordination" where
  "policy_observe_usage R scope attempt obs st =
     (case at_observe_usage R scope (ai_id attempt) (spend_observation_of obs) (rates_world st) of
        (r, w) \<Rightarrow> (unavailable r, st\<lparr>rates_world := w\<rparr>))"

definition policy_observe ::
  "'r attempt_rates \<Rightarrow> duration \<Rightarrow> trusted_policy_scope \<Rightarrow> attempt_identity \<Rightarrow> attempt_event \<Rightarrow> 'r coordination
    \<Rightarrow> (policy_error_kind, unit) result \<times> 'r coordination" where
  "policy_observe R penalty scope attempt event st =
     (case event of
        ResponseHeaders status \<Rightarrow>
          if status = 429
          then (case at_penalize R (ai_provider_name attempt) penalty (rates_world st) of
                  (r, w) \<Rightarrow> (unavailable r, st\<lparr>rates_world := w\<rparr>))
          else (Inr (), st)
      | Finished outcome \<Rightarrow>
          let st = release (ai_id attempt) st in
          (case at_finish R scope (ai_id attempt) outcome (rates_world st) of
             (r, w) \<Rightarrow> (unavailable r, st\<lparr>rates_world := w\<rparr>))
      | Usage usage \<Rightarrow>
          policy_observe_usage R scope attempt
            \<lparr>obs_usage = usage, obs_terminal = False, obs_counters_complete = False, obs_explicit_zero = False\<rparr> st)"

definition policy_observe_abandoned ::
  "attempt_identity \<Rightarrow> attempt_outcome \<Rightarrow> 'r coordination \<Rightarrow> (policy_error_kind, unit) result \<times> 'r coordination" where
  "policy_observe_abandoned attempt outcome st = (Inr (), release (ai_id attempt) st)"

section \<open>Tasks\<close>

text \<open>
  Calls of \<open>acquire\<close> in flight: those waiting for a permit and those holding one while the rates
  decide. A wait ends with a permit or with the timeout; a caller may drop a call in either phase. The
  answered calls are not recorded. Events arrive at any time and for any attempt. \<open>tick\<close> is what time does
  to the world of the rates, \<open>trusted\<close> the scopes the gateway builds.
\<close>

record 'r tasks =
  waiting :: "(prepared_attempt \<times> trusted_policy_scope) list"
  holding :: "(prepared_attempt \<times> trusted_policy_scope) list"
  coord :: "'r coordination"

abbreviation provider_of :: "prepared_attempt \<times> trusted_policy_scope \<Rightarrow> string" where
  "provider_of x \<equiv> ai_provider_name (pa_identity (fst x))"

record 'r setting =
  the_rates :: "'r attempt_rates"
  the_coordinator :: coordinator
  tick :: "'r \<Rightarrow> 'r \<Rightarrow> bool"
  trusted :: "trusted_policy_scope \<Rightarrow> bool"

inductive task_step :: "'r setting \<Rightarrow> 'r tasks \<Rightarrow> 'r tasks \<Rightarrow> bool" for S :: "'r setting" where
  call: "trusted S scope \<Longrightarrow> acquire_begin (the_coordinator S) attempt scope (coord t) = Inr st \<Longrightarrow>
    task_step S t (t\<lparr>waiting := (attempt, scope) # waiting t, coord := st\<rparr>)"
| permit: "x \<in> set (waiting t) \<Longrightarrow> take_permit (provider_of x) (coord t) = Some st \<Longrightarrow>
    task_step S t (t\<lparr>waiting := remove1 x (waiting t), holding := x # holding t, coord := st\<rparr>)"
| give_up: "x \<in> set (waiting t) \<Longrightarrow> task_step S t (t\<lparr>waiting := remove1 x (waiting t)\<rparr>)"
| answer: "x \<in> set (holding t) \<Longrightarrow> acquire_end (the_rates S) s (fst x) (snd x) (coord t) = (r, st) \<Longrightarrow>
    task_step S t (t\<lparr>holding := remove1 x (holding t), coord := st\<rparr>)"
| cancel: "x \<in> set (holding t) \<Longrightarrow>
    task_step S t (t\<lparr>holding := remove1 x (holding t), coord := drop_permit (provider_of x) (coord t)\<rparr>)"
| event: "trusted S scope \<Longrightarrow> policy_observe (the_rates S) penalty scope attempt e (coord t) = (r, st) \<Longrightarrow> task_step S t (t\<lparr>coord := st\<rparr>)"
| usage: "trusted S scope \<Longrightarrow> policy_observe_usage (the_rates S) scope attempt obs (coord t) = (r, st) \<Longrightarrow> task_step S t (t\<lparr>coord := st\<rparr>)"
| abandoned: "policy_observe_abandoned attempt outcome (coord t) = (r, st) \<Longrightarrow> task_step S t (t\<lparr>coord := st\<rparr>)"
| time: "tick S (rates_world (coord t)) w \<Longrightarrow> task_step S t (t\<lparr>coord := (coord t)\<lparr>rates_world := w\<rparr>\<rparr>)"

inductive_cases task_stepE: "task_step S t t'"

definition idle :: "'r \<Rightarrow> 'r tasks" where
  "idle w = \<lparr>waiting = [], holding = [], coord = \<lparr>semaphores = [], active_permits = [], rates_world = w\<rparr>\<rparr>"

inductive runs :: "'r setting \<Rightarrow> 'r \<Rightarrow> 'r tasks \<Rightarrow> bool" for S :: "'r setting" and w :: 'r where
  start: "runs S w (idle w)"
| step: "runs S w t \<Longrightarrow> task_step S t t' \<Longrightarrow> runs S w t'"

section \<open>Permits are conserved\<close>

definition active_on :: "string \<Rightarrow> 'r coordination \<Rightarrow> nat" where
  "active_on provider st = msum (\<lambda>q. if q = provider then 1 else 0) (active_permits st)"

definition held_on :: "'r tasks \<Rightarrow> string \<Rightarrow> nat" where
  "held_on t provider = length (filter (\<lambda>x. provider_of x = provider) (holding t))"

lemma held_on_simps [simp]: "held_on (t\<lparr>coord := s\<rparr>) = held_on t" "held_on (t\<lparr>waiting := ws\<rparr>) = held_on t"
  by (simp_all add: held_on_def fun_eq_iff)

text \<open>With \<open>held\<close> permits outside, every permit of a semaphore is free, held or active.\<close>

definition balanced :: "nat \<Rightarrow> nat option \<Rightarrow> nat \<Rightarrow> nat \<Rightarrow> bool" where
  "balanced limit free held active = (case free of Some n \<Rightarrow> n + held + active = limit | None \<Rightarrow> held = 0 \<and> active = 0)"

definition conserved :: "nat \<Rightarrow> (string \<Rightarrow> nat) \<Rightarrow> 'r coordination \<Rightarrow> bool" where
  "conserved limit held st \<longleftrightarrow> hm_wf (active_permits st) \<and>
     (\<forall>p. balanced limit (map_of (semaphores st) p) (held p) (active_on p st))"

lemma balanced_simps [simp]:
  "balanced limit (Some n) h a \<longleftrightarrow> n + h + a = limit"
  "balanced limit None h a \<longleftrightarrow> h = 0 \<and> a = 0"
  by (simp_all add: balanced_def)

lemma conservedD: "conserved limit held st \<Longrightarrow> balanced limit (map_of (semaphores st) p) (held p) (active_on p st)"
  by (simp add: conserved_def)

text \<open>A change at one provider only.\<close>

lemma conserved_at:
  assumes "conserved limit held st" and "hm_wf (active_permits st')"
    and "\<And>q. q \<noteq> p \<Longrightarrow> map_of (semaphores st') q = map_of (semaphores st) q \<and> held' q = held q \<and> active_on q st' = active_on q st"
    and "balanced limit (map_of (semaphores st') p) (held' p) (active_on p st')"
  shows "conserved limit held' st'"
  unfolding conserved_def
proof (intro conjI allI)
  fix q
  show "balanced limit (map_of (semaphores st') q) (held' q) (active_on q st')"
    using assms(3) [of q] assms(4) conservedD [OF assms(1), of q] by (cases "q = p") auto
qed (rule assms(2))

lemma conserved_wf: "conserved limit held st \<Longrightarrow> hm_wf (active_permits st)"
  by (simp add: conserved_def)

lemma active_on_cong: "active_permits st' = active_permits st \<Longrightarrow> active_on p st' = active_on p st"
  by (simp add: active_on_def)

lemma semaphore_entry_conserved:
  assumes "conserved limit held st"
  shows "conserved limit held (semaphore_entry limit p st)"
  using conservedD [OF assms, of p] conserved_wf [OF assms] assms
  by (cases "map_of (semaphores st) p")
    (auto simp: semaphore_entry_def map_of_update active_on_def intro!: conserved_at [OF assms, where p = p])

lemma take_permit_conserved:
  assumes "conserved limit held st" and "take_permit p st = Some st'"
  shows "conserved limit (held(p := Suc (held p))) st'"
proof -
  obtain n where n: "map_of (semaphores st) p = Some (Suc n)" "st' = st\<lparr>semaphores := AList.update p n (semaphores st)\<rparr>"
    using assms(2) by (auto simp: take_permit_def split: option.splits nat.splits)
  show ?thesis
    using conservedD [OF assms(1), of p] conserved_wf [OF assms(1)] n
    by (intro conserved_at [OF assms(1), where p = p]) (auto simp: active_on_def map_of_update)
qed

lemma drop_permit_conserved:
  assumes "conserved limit (held(p := Suc h)) st"
  shows "conserved limit (held(p := h)) (drop_permit p st)"
proof -
  obtain n where n: "map_of (semaphores st) p = Some n"
    using conservedD [OF assms, of p] by (cases "map_of (semaphores st) p") auto
  show ?thesis
    using conservedD [OF assms, of p] conserved_wf [OF assms] n
    by (intro conserved_at [OF assms, where p = p]) (auto simp: active_on_def drop_permit_def map_of_update)
qed

lemma release_conserved:
  assumes "conserved limit held st"
  shows "conserved limit held (release aid st)"
proof (cases "map_of (active_permits st) aid")
  case (Some p)
  let ?st = "st\<lparr>active_permits := AList.delete aid (active_permits st)\<rparr>"
  note wf = conserved_wf [OF assms]
  have "active_on q st = (if p = q then 1 else 0) + active_on q ?st" for q
    using msum_delete [OF wf Some] by (auto simp: active_on_def)
  then have "conserved limit (held(p := Suc (held p))) ?st"
    using conservedD [OF assms, of p] wf
    by (intro conserved_at [OF assms, where p = p]) (auto simp: hm_wf_delete balanced_def split: option.splits)
  from drop_permit_conserved [OF this] Some show ?thesis by (simp add: release_def)
qed (simp add: release_def assms)

lemma release_active: "map_of (active_permits (release aid st)) = (map_of (active_permits st))(aid := None)"
  by (auto simp: release_def drop_permit_def map_of_delete split: option.splits)

lemma store_permit_conserved:
  assumes "conserved limit (held(p := Suc h)) st"
  shows "conserved limit (held(p := h)) (store_permit aid p st)"
proof -
  let ?st = "release aid st"
  have ok: "conserved limit (held(p := Suc h)) ?st" using release_conserved [OF assms] .
  have "map_of (active_permits ?st) aid = None" by (simp add: release_active)
  from msum_insert [OF this] have "active_on q (store_permit aid p st) = active_on q ?st + (if p = q then 1 else 0)" for q
    by (simp add: active_on_def store_permit_def Let_def)
  then show ?thesis
    using conservedD [OF ok, of p] conserved_wf [OF ok]
    by (intro conserved_at [OF ok, where p = p])
      (auto simp: store_permit_def Let_def hm_wf_update balanced_def split: option.splits)
qed

lemma world_conserved [simp]: "conserved limit held (st\<lparr>rates_world := w\<rparr>) = conserved limit held st"
  by (simp add: conserved_def active_on_def)

lemma acquire_end_conserved:
  assumes "conserved limit (held(provider_of x := Suc h)) st" and "acquire_end R s (fst x) (snd x) st = (r, st')"
  shows "conserved limit (held(provider_of x := h)) st'"
  using assms(2) drop_permit_conserved [OF assms(1)]
    drop_permit_conserved [of limit held "provider_of x" h "st\<lparr>rates_world := w\<rparr>" for w]
    store_permit_conserved [of limit held "provider_of x" h "st\<lparr>rates_world := w\<rparr>" for w] assms(1)
  by (auto simp: acquire_end_def Let_def split: sum.splits option.splits prod.splits)

lemma policy_observe_conserved:
  assumes "conserved limit held st"
  shows "conserved limit held (snd (policy_observe_usage R scope attempt obs st))"
    and "conserved limit held (snd (policy_observe R penalty scope attempt e st))"
    and "conserved limit held (snd (policy_observe_abandoned attempt outcome st))"
  using assms release_conserved [OF assms]
  by (auto simp: policy_observe_usage_def policy_observe_def policy_observe_abandoned_def Let_def split: prod.splits attempt_event.split)

definition tasks_ok :: "coordinator \<Rightarrow> 'r tasks \<Rightarrow> bool" where
  "tasks_ok c t \<longleftrightarrow> conserved (concurrency_limit c) (held_on t) (coord t)"

lemma held_remove:
  assumes "x \<in> set (holding t)"
  shows "held_on t = (held_on (t\<lparr>holding := remove1 x (holding t), coord := st\<rparr>))
    (provider_of x := Suc (held_on (t\<lparr>holding := remove1 x (holding t), coord := st\<rparr>) (provider_of x)))"
proof
  fix p
  have "length (filter f xs) = length (filter f (remove1 x xs)) + (if f x then 1 else 0)" if "x \<in> set xs" for f xs
    using that by (induction xs) auto
  from this [OF assms, of "\<lambda>y. provider_of y = p"]
  show "held_on t p = ((held_on (t\<lparr>holding := remove1 x (holding t), coord := st\<rparr>))
    (provider_of x := Suc (held_on (t\<lparr>holding := remove1 x (holding t), coord := st\<rparr>) (provider_of x)))) p"
    by (auto simp: held_on_def)
qed

lemma task_step_ok: "task_step S t t' \<Longrightarrow> tasks_ok (the_coordinator S) t \<Longrightarrow> tasks_ok (the_coordinator S) t'"
proof (induction rule: task_step.induct)
  case (call scope attempt t st)
  then show ?case using semaphore_entry_conserved by (auto simp: tasks_ok_def held_on_def acquire_begin_def split: if_splits)
next
  case (permit x t st)
  from take_permit_conserved [OF permit(3) [unfolded tasks_ok_def] permit(2)] show ?case
    by (auto simp: tasks_ok_def held_on_def fun_upd_def elim!: back_subst [of "\<lambda>h. conserved (concurrency_limit (the_coordinator S)) h st"])
next
  case (answer x t s r st)
  from acquire_end_conserved [OF answer(3) [unfolded tasks_ok_def, unfolded held_remove [OF answer(1), of st]] answer(2)] show ?case
    by (simp add: tasks_ok_def)
next
  case (cancel x t)
  let ?st = "drop_permit (provider_of x) (coord t)"
  from drop_permit_conserved [OF cancel(2) [unfolded tasks_ok_def, unfolded held_remove [OF cancel(1), of ?st]]] show ?case
    by (simp add: tasks_ok_def)
next
  case (event scope penalty attempt e t r st)
  with policy_observe_conserved(2) [of _ _ "coord t" "the_rates S" penalty scope attempt e] show ?case by (simp add: tasks_ok_def)
next
  case (usage scope attempt obs t r st)
  with policy_observe_conserved(1) [of _ _ "coord t" "the_rates S" scope attempt obs] show ?case by (simp add: tasks_ok_def)
next
  case (abandoned attempt outcome t r st)
  with policy_observe_conserved(3) [of _ _ "coord t" attempt outcome] show ?case by (simp add: tasks_ok_def)
qed (simp_all add: tasks_ok_def held_on_def)

lemma runs_ok: "runs S w t \<Longrightarrow> tasks_ok (the_coordinator S) t"
proof (induction rule: runs.induct)
  case start
  show ?case by (simp add: tasks_ok_def idle_def conserved_def held_on_def active_on_def)
qed (rule task_step_ok)

section \<open>The local rates behind the coordinator\<close>

text \<open>What the coordinator does to the local rates is a run of their handlers.\<close>

definition local_setting :: "local_attempt_rates \<Rightarrow> coordinator \<Rightarrow> (trusted_policy_scope \<Rightarrow> bool) \<Rightarrow> local_world setting" where
  "local_setting rates c trust =
     \<lparr>the_rates = local_rates rates, the_coordinator = c,
      tick = (\<lambda>w w'. lw_state w' = lw_state w \<and> lw_now w \<le> lw_now w' \<and> lw_epoch w \<le> lw_epoch w'), trusted = trust\<rparr>"

definition reached_by :: "local_attempt_rates \<Rightarrow> local_world \<Rightarrow> rate_op list \<Rightarrow> bool" where
  "reached_by rates w ops \<longleftrightarrow> list_all (op_ok rates) ops \<and> list_all (op_before (Suc (lw_epoch w))) ops \<and>
     run_rates rates ops empty_rates = Some (lw_state w)"

definition config_ok :: "rate_limit_config \<Rightarrow> bool" where
  "config_ok cfg \<longleftrightarrow> (\<forall>p. limit_ok (limit_rpm (resolve_limit cfg p)) \<and> limit_ok (limit_tpm (resolve_limit cfg p)))"

definition trusted_scope :: "trusted_policy_scope \<Rightarrow> bool" where
  "trusted_scope scope \<longleftrightarrow> scope_ok scope \<and> limit_ok (scope_rpm scope) \<and> limit_ok (scope_tpm scope)"

lemma estimate_le: "estimate_attempt_tokens text_len spec cat attempt \<le> u32_max"
  by (auto simp: estimate_attempt_tokens_def estimate_native_attempt_tokens_def clamp_u32_def u32_max_def Let_def split: option.split)

lemma reached_by_step:
  assumes "reached_by rates w ops" and "op_ok rates op" and "op_before (Suc (lw_epoch w)) op"
    and "rate_step rates op (lw_state w) = Some st"
  shows "reached_by rates (w\<lparr>lw_state := st\<rparr>) (ops @ [op])"
  using assms by (simp add: reached_by_def run_rates_append)

definition reached :: "local_attempt_rates \<Rightarrow> local_world \<Rightarrow> bool" where
  "reached rates w \<longleftrightarrow> (\<exists>ops. reached_by rates w ops)"

lemma reachedI: "reached_by rates w ops \<Longrightarrow> reached rates w"
  by (auto simp: reached_def)

lemma local_handlers_reached:
  assumes "reached rates w" and "config_ok (ar_config rates)" and "trusted_scope scope"
  shows "permits \<le> u32_max \<Longrightarrow> at_acquire (local_rates rates) provider scope permits aid q w = Some (r, w') \<Longrightarrow> reached rates w'"
    and "reached rates (snd (at_penalize (local_rates rates) provider d w))"
    and "reached rates (snd (at_observe_usage (local_rates rates) scope aid obs w))"
    and "reached rates (snd (at_finish (local_rates rates) scope aid outcome w))"
proof -
  obtain ops where ops: "reached_by rates w ops" using assms(1) by (auto simp: reached_def)
  note go = reachedI [OF reached_by_step [OF ops]]
  show "reached rates w'" if "permits \<le> u32_max" "at_acquire (local_rates rates) provider scope permits aid q w = Some (r, w')"
    using go [of "Admit_op provider scope permits aid q (lw_now w) (lw_epoch w)"] that assms(2,3)
    by (auto simp: local_rates_def config_ok_def trusted_scope_def admission_ok_def limits_ok_def)
  show "reached rates (snd (at_penalize (local_rates rates) provider d w))"
    using go [of "Penalty_op provider d (lw_now w)"] assms(2) by (auto simp: local_rates_def config_ok_def)
  show "reached rates (snd (at_observe_usage (local_rates rates) scope aid obs w))"
    using go [of "Usage_op scope aid obs"] by (auto simp: local_rates_def split: prod.split)
  show "reached rates (snd (at_finish (local_rates rates) scope aid outcome w))"
    using go [of "Finish_op scope aid outcome"] by (auto simp: local_rates_def split: prod.split)
qed

lemma permit_keeps_world [simp]:
  "rates_world (semaphore_entry limit p st) = rates_world st"
  "rates_world (drop_permit p st) = rates_world st"
  "rates_world (release aid st) = rates_world st"
  "rates_world (store_permit aid p st) = rates_world st"
  "take_permit p st = Some st' \<Longrightarrow> rates_world st' = rates_world st"
  by (auto simp: semaphore_entry_def drop_permit_def release_def store_permit_def take_permit_def Let_def
      split: option.splits nat.splits)

definition local_ok :: "local_attempt_rates \<Rightarrow> local_world tasks \<Rightarrow> bool" where
  "local_ok rates t \<longleftrightarrow> reached rates (rates_world (coord t)) \<and> 
     (\<forall>x \<in> set (waiting t). trusted_scope (snd x)) \<and> (\<forall>x \<in> set (holding t). trusted_scope (snd x))"

lemma acquire_end_reached:
  assumes "reached rates (rates_world st)" and "config_ok (ar_config rates)" and "trusted_scope scope"
    and "acquire_end (local_rates rates) s attempt scope st = (r, st')"
  shows "reached rates (rates_world st')"
  using assms(4) local_handlers_reached(1) [OF assms(1-3) estimate_le] assms(1)
  by (auto simp: acquire_end_def Let_def split: sum.splits option.splits prod.splits)

lemma policy_observe_reached:
  assumes "reached rates (rates_world st)" and "config_ok (ar_config rates)" and "trusted_scope scope"
  shows "reached rates (rates_world (snd (policy_observe_usage (local_rates rates) scope attempt obs st)))"
    and "reached rates (rates_world (snd (policy_observe (local_rates rates) penalty scope attempt e st)))"
  using local_handlers_reached(2-4) [OF assms] assms(1)
  by (simp_all add: policy_observe_usage_def policy_observe_def Let_def case_prod_unfold split: attempt_event.split)

lemma task_step_reached:
  assumes "task_step S t t'" and "S = local_setting rates c trusted_scope" and "config_ok (ar_config rates)" and "local_ok rates t"
  shows "local_ok rates t'"
  using assms(1,4)
proof cases
  case (time w)
  have "list_all (op_before (Suc (lw_epoch w))) ops" if "list_all (op_before (Suc m)) ops" "m \<le> lw_epoch w" for m ops
    using list_all_before_mono [OF that(1)] that(2) by simp
  with time assms(2,4) show ?thesis by (auto simp: local_setting_def local_ok_def reached_def reached_by_def)
next
  case (answer x s r st)
  then have "trusted_scope (snd x)" "reached rates (rates_world (coord t))" using assms(4) by (auto simp: local_ok_def)
  from acquire_end_reached [OF this(2) assms(3) this(1), of s "fst x" r st] answer assms(2,4) show ?thesis
    by (auto simp: local_setting_def local_ok_def dest!: set_remove1_subset [THEN subsetD])
next
  case (event scope penalty attempt e r st)
  then have "trusted_scope scope" "reached rates (rates_world (coord t))" using assms(2,4) by (auto simp: local_ok_def local_setting_def)
  from policy_observe_reached(2) [OF this(2) assms(3) this(1), of penalty attempt e] event assms(2,4) show ?thesis
    by (simp add: local_setting_def local_ok_def)
next
  case (usage scope attempt obs r st)
  then have "trusted_scope scope" "reached rates (rates_world (coord t))" using assms(2,4) by (auto simp: local_ok_def local_setting_def)
  from policy_observe_reached(1) [OF this(2) assms(3) this(1), of attempt obs] usage assms(2,4) show ?thesis
    by (simp add: local_setting_def local_ok_def)
qed (use assms(2,4) in \<open>auto simp: local_setting_def local_ok_def acquire_begin_def policy_observe_abandoned_def
    split: if_splits dest!: set_remove1_subset [THEN subsetD]\<close>)

lemma runs_reached:
  assumes "runs (local_setting rates c trusted_scope) w t" and "config_ok (ar_config rates)" and "lw_state w = empty_rates"
  shows "local_ok rates t"
  using assms(1)
proof (induction rule: runs.induct)
  case start
  have "reached_by rates w []" using assms(3) by (simp add: reached_by_def)
  then show ?case by (simp add: local_ok_def idle_def reachedI)
next
  case (step t t')
  with task_step_reached [OF step.hyps(2) refl assms(2)] show ?case by blast
qed

section \<open>Properties\<close>

text \<open>C22. However calls, timeouts, cancellations, answers and events interleave, and whatever the rates answer,
  the attempts of one provider that hold a permit, counting those still waiting for the rates, never
  exceed the concurrency limit, and no permit is lost: every other permit of the provider is free.\<close>

theorem concurrency_bounded:
  assumes "runs S w t"
  shows "held_on t p + active_on p (coord t) \<le> concurrency_limit (the_coordinator S) \<and>
    (\<forall>n. map_of (semaphores (coord t)) p = Some n \<longrightarrow>
       n = concurrency_limit (the_coordinator S) - (held_on t p + active_on p (coord t)))"
  using conservedD [OF runs_ok [OF assms, unfolded tasks_ok_def], of p] by (auto simp: balanced_def split: option.splits)

text \<open>C21. End to end, a budget is never overcommitted by admission: in every interleaving of calls and events on
  one gateway instance, with a clock that does not go back, an attempt that the coordinator admits for a
  budgeted tenant leaves the liabilities of the tenant's current window within the tenant's limit, and
  holds its permit.\<close>

theorem coordinated_within_budget:
  assumes "runs (local_setting rates c trusted_scope) w t" and "lw_state w = empty_rates" and "config_ok (ar_config rates)"
    and "(attempt, scope) \<in> set (holding t)" and "scope_budget scope = Some p" and "lw_epoch (rates_world (coord t)) < u64_max"
    and "acquire_end (local_rates rates) s attempt scope (coord t) = (Some (Inr ()), st')"
  shows "owed (current_window scope p (lw_epoch (rates_world (coord t)))) (budget_attempts (accounts_of (lw_state (rates_world st'))))
      \<le> limit_nanos p \<and> map_of (active_permits st') (ai_id (pa_identity attempt)) = Some (ai_provider_name (pa_identity attempt))"
proof -
  let ?w = "rates_world (coord t)"
  have ok: "local_ok rates t" using runs_reached [OF assms(1,3,2)] .
  then obtain ops where ops: "reached_by rates ?w ops" by (auto simp: local_ok_def reached_def)
  have scope: "trusted_scope scope" using ok assms(4) by (auto simp: local_ok_def)
  let ?permits = "estimate_attempt_tokens (sr_text_len s) (sr_spec s) (sr_catalog s) attempt"
  have adm: "admission_ok rates provider scope ?permits" for provider
    using scope assms(3) estimate_le by (simp add: admission_ok_def limits_ok_def config_ok_def trusted_scope_def)
  from assms(7) obtain q st where q: "acquire_at_epoch rates (ai_provider_name (pa_identity attempt)) scope ?permits
      (ai_id (pa_identity attempt)) q (lw_now ?w) (lw_epoch ?w) (lw_state ?w) = Some (Inr (), st)"
    "st' = store_permit (ai_id (pa_identity attempt)) (ai_provider_name (pa_identity attempt)) ((coord t)\<lparr>rates_world := ?w\<lparr>lw_state := st\<rparr>\<rparr>)"
    by (auto simp: acquire_end_def local_rates_def refused_def Let_def split: sum.splits option.splits prod.splits elim!: rate_refused.elims)
  have "owed (current_window scope p (lw_epoch ?w)) (budget_attempts (accounts_of st)) \<le> limit_nanos p"
    using admitted_within_budget [OF _ _ _ assms(6) adm assms(5) q(1)] ops unfolding reached_by_def by blast
  then show ?thesis using q(2) by (simp add: store_permit_def Let_def map_of_update)
qed

text \<open>The scopes that the gateway builds from an identity are trusted.\<close>

lemma scope_from_identity_trusted:
  assumes "limit_ok (id_rpm i)" and "limit_ok (id_tpm i)"
  shows "trusted_scope (scope_from_identity sha256_hex i)"
proof -
  have "window_secs p \<noteq> 0 \<and> limit_nanos p \<le> MAX_EXACT_REDIS_NANOS" if "from_identity i = Some p" for p
    using limit_rounded [OF that] that
    by (auto simp: from_identity_def bind_eq_Some_conv Let_def MAX_EXACT_REDIS_NANOS_def)
  with assms show ?thesis by (auto simp: trusted_scope_def scope_ok_def scope_from_identity_def split: option.split)
qed

text \<open>An attempt holds a permit exactly from the moment it is granted until it is reported finished or
  abandoned: a refusal, an unpriceable body or a panic of the rates leaves the active permits as they were,
  and the report gives the permit back even when the rates fail to settle the attempt; no other event does.\<close>

lemma permit_until_closed:
  assumes "acquire_end R s attempt scope st = (r, st')"
  shows "map_of (active_permits st') = (if r = Some (Inr ())
      then (map_of (active_permits st))(ai_id (pa_identity attempt) \<mapsto> ai_provider_name (pa_identity attempt))
      else map_of (active_permits st)) \<and>
    map_of (active_permits (snd (policy_observe R penalty scope i e st))) =
      (if \<exists>outcome. e = Finished outcome then (map_of (active_permits st))(ai_id i := None) else map_of (active_permits st)) \<and>
    active_permits (snd (policy_observe_usage R scope i obs st)) = active_permits st \<and>
    map_of (active_permits (snd (policy_observe_abandoned i outcome st))) = (map_of (active_permits st))(ai_id i := None)"
proof -
  have drop: "active_permits (drop_permit p st) = active_permits st" for p and st :: "'a coordination"
    by (simp add: drop_permit_def split: option.split)
  have store: "map_of (active_permits (store_permit aid p st)) = (map_of (active_permits st))(aid \<mapsto> p)" for aid p and st :: "'a coordination"
    by (simp add: store_permit_def Let_def map_of_update release_active)
  have "rate_refused x \<noteq> Inr ()" for x by (cases x) (simp_all add: refused_def)
  then have "map_of (active_permits st') = (if r = Some (Inr ())
      then (map_of (active_permits st))(ai_id (pa_identity attempt) \<mapsto> ai_provider_name (pa_identity attempt))
      else map_of (active_permits st))"
    using assms by (auto simp: acquire_end_def Let_def drop store refused_def split: sum.splits option.splits prod.splits)
  then show ?thesis
    by (simp add: policy_observe_def policy_observe_usage_def policy_observe_abandoned_def release_active Let_def
        case_prod_unfold split: attempt_event.split)
qed

section \<open>Witnesses\<close>

definition demo_surroundings :: surroundings where
  "demo_surroundings = \<lparr>sr_text_len = (\<lambda>_. 0), sr_spec = (\<lambda>_. None), sr_catalog = demo_catalog\<rparr>"

definition demo_world :: local_world where
  "demo_world = \<lparr>lw_now = 0, lw_epoch = 100000, lw_state = empty_rates\<rparr>"

definition demo_setting :: "local_world setting" where
  "demo_setting = local_setting demo_rates (new_coordinator 2 0) trusted_scope"

definition demo_tasks :: "local_world tasks" where
  "demo_tasks = \<lparr>waiting = [], holding = [(demo_attempt, demo_scope)],
     coord = \<lparr>semaphores = [(''p'', 1)], active_permits = [], rates_world = demo_world\<rparr>\<rparr>"

lemma demo_trusted: "trusted_scope demo_scope" "config_ok (ar_config demo_rates)"
  by (simp_all add: demo_defs trusted_scope_def scope_ok_def config_ok_def limit_ok_def resolve_limit_def with_global_def
      MAX_EXACT_REDIS_NANOS_def Let_def)

lemma demo_runs: "runs demo_setting demo_world demo_tasks"
proof -
  note go = runs.step
  let ?st = "\<lparr>semaphores = [(''p'', 2)], active_permits = [], rates_world = demo_world\<rparr>"
  have "acquire_begin (the_coordinator demo_setting) demo_attempt demo_scope (coord (idle demo_world)) = Inr ?st"
    by (simp add: acquire_begin_def demo_setting_def local_setting_def idle_def semaphore_entry_def demo_scope_def demo_attempt_def
        new_coordinator_def)
  from go [OF runs.start task_step.call [OF _ this]]
  have "runs demo_setting demo_world \<lparr>waiting = [(demo_attempt, demo_scope)], holding = [], coord = ?st\<rparr>"
    using demo_trusted(1) by (simp add: idle_def demo_setting_def local_setting_def)
  from go [OF this task_step.permit [of "(demo_attempt, demo_scope)" _ "coord demo_tasks"]] show ?thesis
    by (simp add: demo_tasks_def take_permit_def demo_attempt_def eval_nat_numeral)
qed

theorem concurrency_bounded_witness:
  "held_on demo_tasks ''p'' + active_on ''p'' (coord demo_tasks) \<le> 2 \<and> map_of (semaphores (coord demo_tasks)) ''p'' = Some 1"
  using concurrency_bounded [OF demo_runs, of "''p''"]
  by (simp add: demo_setting_def local_setting_def new_coordinator_def demo_tasks_def)

lemma demo_granted: "\<exists>st'. acquire_end (local_rates demo_rates) demo_surroundings demo_attempt demo_scope (coord demo_tasks) = (Some (Inr ()), st')"
  by (simp add: acquire_end_def demo_surroundings_def quote_def demo_reservation demo_tasks_def local_rates_def demo_world_def
      demo_defs demo_eval purge_none empty_rates_def MAX_EXACT_REDIS_NANOS_def)

theorem coordinated_within_budget_witness:
  "\<exists>st'. acquire_end (local_rates demo_rates) demo_surroundings demo_attempt demo_scope (coord demo_tasks) = (Some (Inr ()), st') \<and>
     owed (current_window demo_scope demo_budget 100000) (budget_attempts (accounts_of (lw_state (rates_world st')))) \<le> 1000000000"
proof -
  obtain st' where st': "acquire_end (local_rates demo_rates) demo_surroundings demo_attempt demo_scope (coord demo_tasks) =
      (Some (Inr ()), st')" using demo_granted by blast
  have world: "lw_epoch (rates_world (coord demo_tasks)) = 100000" "lw_state demo_world = empty_rates"
    by (simp_all add: demo_tasks_def demo_world_def)
  from coordinated_within_budget [OF demo_runs [unfolded demo_setting_def] world(2) demo_trusted(2) _ _ _ st', of demo_budget] world(1) st'
  show ?thesis by (simp add: demo_tasks_def demo_scope_def demo_budget_def u64_max_def)
qed

end
