(* ===== verification/RedisRates.thy ===== *)
theory RedisRates
  imports Attempts
begin

text \<open>
  Admission of attempts by several gateway instances over one Redis (\<open>RedisAttemptRates\<close> in
  \<open>src/gateway/attempt.rs\<close>). The Lua scripts run atomically, each is one function on the store. A stored
  value carries the moment it expires, in milliseconds; \<open>None\<close> is a value without expiry. Lua numbers that
  hold amounts, times and flags are integers: all of them stay below \<open>2 ^ 53\<close>, where doubles are exact;
  balances and waits are IEEE doubles. Key strings are constructors, one for each format of key.
  The sorted set is the list of its members by score. A failed connection is not modelled.
\<close>

section \<open>The store\<close>

datatype redis_key =
    RateKey string
  | TotalKey budget_window_key
  | FreezeKey budget_window_key
  | AppliedFloorKey budget_window_key
  | KnownFloorKey budget_window_key
  | GlobalFreezeKey
  | AttemptKey string nat

record redis_attempt =
  ra_liability :: int
  ra_bounded :: int
  ra_observed :: int
  ra_finalized :: int
  ra_total_key :: redis_key
  ra_freeze_key :: redis_key
  ra_provider_floor :: int
  ra_terminal_catalog :: int
  ra_terminal_provider :: int

record redis_bucket =
  rb_tokens :: "f64 option"
  rb_ts :: "nat option"
  rb_penalty :: "nat option"

record redis_store =
  rd_values :: "(redis_key, int \<times> nat option) hash_map"
  rd_attempts :: "(redis_key, redis_attempt \<times> nat option) hash_map"
  rd_buckets :: "(redis_key, redis_bucket \<times> nat option) hash_map"
  rd_index :: "(nat \<times> redis_key) list"

definition empty_store :: redis_store where
  "empty_store = \<lparr>rd_values = [], rd_attempts = [], rd_buckets = [], rd_index = []\<rparr>"

definition live :: "nat \<Rightarrow> nat option \<Rightarrow> bool" where
  "live now e = (case e of None \<Rightarrow> True | Some t \<Rightarrow> now \<le> t)"

definition live_of :: "nat \<Rightarrow> ('k, 'v \<times> nat option) hash_map \<Rightarrow> 'k \<Rightarrow> 'v option" where
  "live_of now m k = (case map_of m k of Some (v, e) \<Rightarrow> if live now e then Some v else None | None \<Rightarrow> None)"

definition redis_get :: "nat \<Rightarrow> redis_key \<Rightarrow> redis_store \<Rightarrow> int option" where
  "redis_get now k st = live_of now (rd_values st) k"

definition redis_exists :: "nat \<Rightarrow> redis_key \<Rightarrow> redis_store \<Rightarrow> bool" where
  "redis_exists now k st \<longleftrightarrow> live_of now (rd_values st) k \<noteq> None \<or> live_of now (rd_attempts st) k \<noteq> None"

text \<open>\<open>SET k v PX ttl\<close> and \<open>SET k v KEEPTTL\<close>; \<open>PTTL\<close> is \<open>-2\<close> without the key and \<open>-1\<close> without an expiry.\<close>

definition redis_set_px :: "nat \<Rightarrow> redis_key \<Rightarrow> int \<Rightarrow> int \<Rightarrow> redis_store \<Rightarrow> redis_store" where
  "redis_set_px now k v ttl st = st\<lparr>rd_values := AList.update k (v, Some (now + nat ttl)) (rd_values st)\<rparr>"

definition redis_set_keepttl :: "nat \<Rightarrow> redis_key \<Rightarrow> int \<Rightarrow> redis_store \<Rightarrow> redis_store" where
  "redis_set_keepttl now k v st =
     st\<lparr>rd_values := AList.update k
       (v, case map_of (rd_values st) k of Some (_, e) \<Rightarrow> if live now e then e else None | None \<Rightarrow> None) (rd_values st)\<rparr>"

definition redis_pttl :: "nat \<Rightarrow> redis_key \<Rightarrow> redis_store \<Rightarrow> int" where
  "redis_pttl now k st =
     (case map_of (rd_values st) k of
        Some (_, e) \<Rightarrow> if live now e then (case e of Some t \<Rightarrow> int t - int now | None \<Rightarrow> - 1) else - 2
      | None \<Rightarrow> - 2)"

definition redis_get_or :: "nat \<Rightarrow> redis_key \<Rightarrow> int \<Rightarrow> redis_store \<Rightarrow> int" where
  "redis_get_or now k d st = (case redis_get now k st of Some v \<Rightarrow> v | None \<Rightarrow> d)"

text \<open>The index of retained keys: \<open>ZADD NX\<close>, \<open>ZSCORE\<close>, and the cleanup by \<open>ZRANGEBYSCORE\<close> and \<open>ZREM\<close>.\<close>

definition index_add :: "nat \<Rightarrow> redis_key \<Rightarrow> redis_store \<Rightarrow> redis_store" where
  "index_add score k st =
     (if k \<in> snd ` set (rd_index st) then st else st\<lparr>rd_index := insort_key fst (score, k) (rd_index st)\<rparr>)"

definition index_clean :: "nat \<Rightarrow> nat \<Rightarrow> redis_store \<Rightarrow> redis_store" where
  "index_clean now batch st =
     (let expired = take batch (filter (\<lambda>(score, _). score \<le> now) (rd_index st)) in
      st\<lparr>rd_index := filter (\<lambda>m. m \<notin> set expired) (rd_index st)\<rparr>)"

section \<open>Settlement\<close>

text \<open>\<open>SETTLE_BUDGET_LUA\<close>, in three parts: what is noted on the attempt, the growth of its liability, and
  the final settlement.\<close>

definition note_incoming :: "int \<Rightarrow> int \<Rightarrow> bool \<Rightarrow> redis_attempt \<Rightarrow> redis_attempt" where
  "note_incoming incoming authority terminal a =
     (let terminal = (terminal \<and> \<not> (ra_bounded a = 0 \<and> authority \<noteq> 1));
          a = (if authority = 1 \<and> incoming > ra_provider_floor a then a\<lparr>ra_provider_floor := incoming\<rparr> else a);
          a = (if terminal \<and> incoming \<ge> 0
               then if authority = 1 then a\<lparr>ra_terminal_provider := incoming\<rparr>
                    else if authority = 0 \<and> incoming > ra_terminal_catalog a then a\<lparr>ra_terminal_catalog := incoming\<rparr> else a
               else a)
      in if incoming \<ge> 0 \<and> incoming > ra_observed a then a\<lparr>ra_observed := incoming\<rparr> else a)"

text \<open>Adding to a total, or freezing the window at the largest exact amount.\<close>

definition add_or_freeze :: "nat \<Rightarrow> int \<Rightarrow> int \<Rightarrow> redis_attempt \<Rightarrow> redis_store \<Rightarrow> bool \<times> redis_store" where
  "add_or_freeze now max_exact delta a st =
     (let t = redis_get_or now (ra_total_key a) 0 st in
      if t > max_exact - delta
      then (True, redis_set_keepttl now (ra_total_key a) max_exact
              (redis_set_px now (ra_freeze_key a) 1 (max 1 (redis_pttl now (ra_total_key a) st)) st))
      else (False, redis_set_keepttl now (ra_total_key a) (t + delta) st))"

definition grow_liability :: "nat \<Rightarrow> int \<Rightarrow> redis_attempt \<Rightarrow> redis_store \<Rightarrow> redis_attempt \<times> redis_store" where
  "grow_liability now max_exact a st =
     (if ra_observed a > ra_liability a
      then (case add_or_freeze now max_exact (ra_observed a - ra_liability a) a st of
              (froze, st) \<Rightarrow> (a\<lparr>ra_liability := (if froze then max_exact else ra_observed a)\<rparr>, st))
      else (a, st))"

definition final_amount :: "redis_attempt \<Rightarrow> int" where
  "final_amount a =
     (if ra_terminal_provider a < 0 \<and> ra_terminal_catalog a \<ge> 0 then max (ra_terminal_catalog a) (ra_provider_floor a)
      else ra_terminal_provider a)"

definition settle_final :: "nat \<Rightarrow> int \<Rightarrow> redis_attempt \<Rightarrow> redis_store \<Rightarrow> redis_attempt \<times> redis_store" where
  "settle_final now max_exact a st =
     (let final = final_amount a in
      if final < 0 then (a, st)
      else
        (a\<lparr>ra_liability := final, ra_finalized := 1\<rparr>,
         if redis_exists now (ra_freeze_key a) st then st
         else if final > ra_liability a then snd (add_or_freeze now max_exact (final - ra_liability a) a st)
         else redis_set_keepttl now (ra_total_key a)
           (let t = redis_get_or now (ra_total_key a) 0 st in
            if final < ra_liability a then max 0 (t - (ra_liability a - final)) else t) st))"

definition put_attempt :: "redis_key \<Rightarrow> redis_attempt \<Rightarrow> redis_store \<Rightarrow> redis_store" where
  "put_attempt key a st =
     st\<lparr>rd_attempts := AList.update key (a, case map_of (rd_attempts st) key of Some (_, e) \<Rightarrow> e | None \<Rightarrow> None) (rd_attempts st)\<rparr>"

definition settle_script ::
  "nat \<Rightarrow> redis_key \<Rightarrow> int \<Rightarrow> bool \<Rightarrow> int \<Rightarrow> int \<Rightarrow> bool \<Rightarrow> redis_store \<Rightarrow> int \<times> redis_store" where
  "settle_script now key incoming should_finalize max_exact authority terminal st =
     (case live_of now (rd_attempts st) key of
        None \<Rightarrow> (- 1, st)
      | Some a \<Rightarrow>
          if ra_finalized a = 1 then (1, st)
          else
            (case grow_liability now max_exact (note_incoming incoming authority terminal a) st of
               (a, st) \<Rightarrow>
                 (case (if should_finalize then settle_final now max_exact a st else (a, st)) of
                    (a, st) \<Rightarrow> (1, put_attempt key a st))))"

text \<open>\<open>settle_budget\<close> and the two callers.\<close>

definition settle_budget ::
  "nat \<Rightarrow> trusted_policy_scope \<Rightarrow> nat \<Rightarrow> spend_observation option \<Rightarrow> bool \<Rightarrow> redis_store \<Rightarrow> (unit, unit) result \<times> redis_store" where
  "settle_budget now scope aid observation finalize st =
     (if scope_budget scope = None then (Inr (), st)
      else
        (case settle_script now (AttemptKey (tenant_key scope) aid)
                (case Option.bind observation so_amount_nanos of Some n \<Rightarrow> int n | None \<Rightarrow> - 1) finalize (int MAX_EXACT_REDIS_NANOS)
                (case observation of
                   Some x \<Rightarrow> (case so_authority x of CatalogPrice \<Rightarrow> 0 | ProviderBill \<Rightarrow> 1) | None \<Rightarrow> - 1)
                (case observation of Some x \<Rightarrow> so_terminal_authoritative x | None \<Rightarrow> False) st of
           (r, st) \<Rightarrow> (if r = 1 then Inr () else Inl (), st)))"

definition redis_observe_usage ::
  "nat \<Rightarrow> trusted_policy_scope \<Rightarrow> nat \<Rightarrow> spend_observation \<Rightarrow> redis_store \<Rightarrow> (unit, unit) result \<times> redis_store" where
  "redis_observe_usage now scope aid obs st = settle_budget now scope aid (Some obs) False st"

definition redis_finish ::
  "nat \<Rightarrow> trusted_policy_scope \<Rightarrow> nat \<Rightarrow> attempt_outcome \<Rightarrow> redis_store \<Rightarrow> (unit, unit) result \<times> redis_store" where
  "redis_finish now scope aid outcome st = settle_budget now scope aid None (may_finalize outcome) st"

section \<open>Admission\<close>

text \<open>The arguments of \<open>COMBINED_RATE_LUA\<close> for one dimension, as \<open>add_dimension\<close> gives them.\<close>

record dimension_args =
  da_key :: redis_key
  da_enabled :: bool
  da_capacity :: f64
  da_refill :: f64
  da_required :: f64

definition add_dimension :: "redis_key \<Rightarrow> nat option \<Rightarrow> f64 \<Rightarrow> dimension_args" where
  "add_dimension key limit required =
     (let per_minute = f64_of_nat (max (case limit of Some n \<Rightarrow> n | None \<Rightarrow> 1) 1) in
      \<lparr>da_key = key, da_enabled = (limit \<noteq> None), da_capacity = per_minute, da_refill = f64_div per_minute (Fin 60),
       da_required = required\<rparr>)"

definition lua_min :: "f64 \<Rightarrow> f64 \<Rightarrow> f64" where "lua_min a b = (if f64_lt b a then b else a)"
definition lua_max :: "f64 \<Rightarrow> f64 \<Rightarrow> f64" where "lua_max a b = (if f64_lt a b then b else a)"

definition stored_bucket :: "nat \<Rightarrow> redis_key \<Rightarrow> redis_store \<Rightarrow> redis_bucket" where
  "stored_bucket now key st =
     (case live_of now (rd_buckets st) key of
        Some b \<Rightarrow> b | None \<Rightarrow> \<lparr>rb_tokens = None, rb_ts = None, rb_penalty = None\<rparr>)"

text \<open>The balance a dimension has now, and how long it asks to wait.\<close>

definition dimension_balance :: "nat \<Rightarrow> dimension_args \<Rightarrow> redis_bucket \<Rightarrow> f64" where
  "dimension_balance now d b =
     (let balance = (case rb_tokens b of Some t \<Rightarrow> t | None \<Rightarrow> da_capacity d);
          timestamp = (case rb_ts b of Some t \<Rightarrow> t | None \<Rightarrow> now);
          elapsed = now - timestamp
      in lua_min (da_capacity d) (f64_add balance (f64_mul (f64_div (f64_of_nat elapsed) (Fin 1000)) (da_refill d))))"

definition dimension_wait :: "nat \<Rightarrow> dimension_args \<Rightarrow> redis_bucket \<Rightarrow> f64" where
  "dimension_wait now d b =
     (let penalty = (case rb_penalty b of Some t \<Rightarrow> t | None \<Rightarrow> 0); balance = dimension_balance now d b in
      if penalty > now then f64_of_nat (penalty - now)
      else if f64_lt balance (da_required d)
      then f64_ceil (f64_mul (f64_div (f64_sub (da_required d) balance) (da_refill d)) (Fin 1000))
      else Fin 0)"

record verdict =
  vd_admitted :: bool
  vd_wait :: f64
  vd_refusal :: nat

definition judge_dimension :: "nat \<Rightarrow> redis_store \<Rightarrow> nat \<times> dimension_args \<Rightarrow> verdict \<Rightarrow> verdict" where
  "judge_dimension now st x v =
     (case x of (i, d) \<Rightarrow>
        if \<not> da_enabled d then v
        else
          let w = dimension_wait now d (stored_bucket now (da_key d) st) in
          if f64_lt (Fin 0) w
          then \<lparr>vd_admitted = False, vd_wait = lua_max (vd_wait v) w,
                vd_refusal = (if i \<ge> 3 then 2 else if vd_refusal v = 0 then 1 else vd_refusal v)\<rparr>
          else v)"

definition write_dimension :: "nat \<Rightarrow> nat \<Rightarrow> bool \<Rightarrow> redis_store \<Rightarrow> dimension_args \<Rightarrow> redis_store \<Rightarrow> redis_store" where
  "write_dimension now ttl granted old d st =
     (if \<not> da_enabled d then st
      else
        let b = stored_bucket now (da_key d) old;
            balance = dimension_balance now d b;
            balance = (if granted then f64_sub balance (da_required d) else balance)
        in st\<lparr>rd_buckets := AList.update (da_key d)
             (\<lparr>rb_tokens = Some balance, rb_ts = Some now, rb_penalty = Some (case rb_penalty b of Some t \<Rightarrow> t | None \<Rightarrow> 0)\<rparr>,
              Some (now + ttl)) (rd_buckets st)\<rparr>)"

text \<open>The budget's arguments. The window key stands for the prefix of the totals and the index in it.\<close>

record budget_args =
  ba_tenant :: string
  ba_attempt :: redis_key
  ba_bounded :: bool
  ba_limit :: int
  ba_reservation :: int
  ba_window_secs :: nat
  ba_retention_secs :: nat
  ba_max_retained :: nat
  ba_cleanup :: nat
  ba_floor_window :: int
  ba_floor_incoming :: int

definition window_at :: "budget_args \<Rightarrow> nat \<Rightarrow> budget_window_key" where
  "window_at ba now =
     \<lparr>wk_tenant_key = ba_tenant ba, wk_window_secs = ba_window_secs ba,
      wk_window_index = now div 1000 div ba_window_secs ba\<rparr>"

definition budget_ttl :: "budget_args \<Rightarrow> nat \<Rightarrow> int" where
  "budget_ttl ba now =
     max 1 (int (((wk_window_index (window_at ba now) + 1) * ba_window_secs ba + ba_retention_secs ba) * 1000) - int now)"

text \<open>Reading and retaining the legacy floor: the known floor, the applied one, the new store and whether
  the index was full.\<close>

definition retain_floor :: "nat \<Rightarrow> budget_args \<Rightarrow> redis_store \<Rightarrow> int \<times> int \<times> bool \<times> redis_store" where
  "retain_floor now ba st =
     (let k = window_at ba now; ttl = budget_ttl ba now;
          applied = redis_get_or now (AppliedFloorKey k) 0 st;
          known = redis_get_or now (KnownFloorKey k) applied st;
          known = (if ba_floor_window ba = int (wk_window_index k) \<and> ba_floor_incoming ba > known then ba_floor_incoming ba else known);
          indexed = (KnownFloorKey k \<in> snd ` set (rd_index st));
          room = (length (rd_index st) < ba_max_retained ba);
          st = (if known > 0 \<and> \<not> indexed
                then if room then index_add (now + nat ttl) (KnownFloorKey k) st
                     else if redis_pttl now GlobalFreezeKey st < ttl then redis_set_px now GlobalFreezeKey 1 ttl st else st
                else st);
          st = (if known > 0 \<and> (indexed \<or> room) then redis_set_px now (KnownFloorKey k) known ttl st else st)
      in (known, applied, known > 0 \<and> \<not> indexed \<and> \<not> room, st))"

definition refuse :: "nat \<Rightarrow> f64 \<Rightarrow> verdict \<Rightarrow> verdict" where
  "refuse kind w v = \<lparr>vd_admitted = False, vd_wait = w, vd_refusal = kind\<rparr>"

text \<open>The budget's verdict, with the next total and the reservation when it admits.\<close>

definition judge_budget :: "nat \<Rightarrow> budget_args \<Rightarrow> int \<Rightarrow> int \<Rightarrow> redis_store \<Rightarrow> verdict \<Rightarrow> verdict \<times> int \<times> int" where
  "judge_budget now ba known applied st v =
     (let k = window_at ba now;
          delta = known - applied;
          current = redis_get_or now (TotalKey k) 0 st;
          full = refuse 4 (vd_wait v) v;
          exhausted = refuse 3
            (lua_max (vd_wait v) (f64_of_nat ((wk_window_index k + 1) * ba_window_secs ba * 1000 - now))) v
      in if redis_exists now GlobalFreezeKey st \<or> redis_exists now (ba_attempt ba) st \<or> length (rd_index st) \<ge> ba_max_retained ba
         then (full, 0, ba_reservation ba)
         else if redis_exists now (FreezeKey k) st \<or> ba_limit ba = 0 \<or> delta > ba_limit ba \<or> current > ba_limit ba - delta
         then (exhausted, 0, ba_reservation ba)
         else if ba_bounded ba
         then if ba_reservation ba > ba_limit ba \<or> current + delta > ba_limit ba - ba_reservation ba
              then (exhausted, 0, ba_reservation ba)
              else (v, current + delta + ba_reservation ba, ba_reservation ba)
         else if current \<ge> ba_limit ba - delta then (exhausted, 0, ba_reservation ba)
         else (v, ba_limit ba, ba_limit ba - (current + delta)))"

definition commit_reservation :: "nat \<Rightarrow> budget_args \<Rightarrow> int \<Rightarrow> int \<Rightarrow> int \<Rightarrow> redis_store \<Rightarrow> redis_store" where
  "commit_reservation now ba known next reservation st =
     (let k = window_at ba now; ttl = budget_ttl ba now;
          st = redis_set_px now (TotalKey k) next ttl st;
          st = (if known > 0 \<or> redis_exists now (KnownFloorKey k) st
                then redis_set_px now (KnownFloorKey k) known ttl (redis_set_px now (AppliedFloorKey k) known ttl st) else st)
      in index_add (now + nat ttl) (ba_attempt ba)
           (st\<lparr>rd_attempts := AList.update (ba_attempt ba)
              (\<lparr>ra_liability = reservation, ra_bounded = (if ba_bounded ba then 1 else 0), ra_observed = - 1, ra_finalized = 0,
                ra_total_key = TotalKey k, ra_freeze_key = FreezeKey k, ra_provider_floor = - 1, ra_terminal_catalog = - 1,
                ra_terminal_provider = - 1\<rparr>, Some (now + nat ttl)) (rd_attempts st)\<rparr>))"

definition combined_script ::
  "nat \<Rightarrow> nat \<Rightarrow> dimension_args list \<Rightarrow> budget_args option \<Rightarrow> redis_store \<Rightarrow> verdict \<times> redis_store" where
  "combined_script now ttl dims budget st =
     (let v = fold (judge_dimension now st) (enumerate 1 dims) \<lparr>vd_admitted = True, vd_wait = Fin 0, vd_refusal = 0\<rparr> in
      case (case budget of
              None \<Rightarrow> (v, st)
            | Some ba \<Rightarrow>
                (case retain_floor now ba (index_clean now (ba_cleanup ba) st) of
                   (known, applied, over, st') \<Rightarrow>
                     let v = (if over then refuse 4 (vd_wait v) v else v) in
                     (case judge_budget now ba known applied st' v of
                        (v, next, reservation) \<Rightarrow>
                          (v, if vd_admitted v then commit_reservation now ba known next reservation st' else st')))) of
        (v, st') \<Rightarrow> (v, fold (write_dimension now ttl (vd_admitted v) st) dims st'))"

definition KEY_TTL_MS :: nat where "KEY_TTL_MS = 3600000"

record redis_attempt_rates =
  rr_config :: rate_limit_config
  rr_max_retained :: nat
  rr_retention_secs :: nat

definition global_key :: "string \<Rightarrow> string \<Rightarrow> redis_key" where
  "global_key provider dimension = RateKey (''llmshim:rl:'' @ provider @ '':'' @ dimension)"

definition tenant_rate_key :: "trusted_policy_scope \<Rightarrow> string \<Rightarrow> string \<Rightarrow> redis_key" where
  "tenant_rate_key scope provider dimension =
     RateKey (''llmshim:rl:tenant:'' @ tenant_key scope @ '':'' @ provider @ '':'' @ dimension)"

definition redis_budget_args ::
  "redis_attempt_rates \<Rightarrow> trusted_policy_scope \<Rightarrow> budget_policy_snapshot \<Rightarrow> nat \<Rightarrow> budget_quote \<Rightarrow> budget_args" where
  "redis_budget_args rates scope policy aid q =
     \<lparr>ba_tenant = tenant_key scope, ba_attempt = AttemptKey (tenant_key scope) aid, ba_bounded = bounded q,
      ba_limit = int (limit_nanos policy), ba_reservation = int (amount_nanos q), ba_window_secs = window_secs policy,
      ba_retention_secs = rr_retention_secs rates, ba_max_retained = rr_max_retained rates,
      ba_cleanup = ACCOUNTING_EXPIRY_CLEANUP_BATCH,
      ba_floor_window = (case scope_floor scope of Some f \<Rightarrow> int (floor_window_index f) | None \<Rightarrow> - 1),
      ba_floor_incoming = (case scope_floor scope of Some f \<Rightarrow> int (floor_amount_nanos f) | None \<Rightarrow> 0)\<rparr>"

definition redis_acquire ::
  "redis_attempt_rates \<Rightarrow> string \<Rightarrow> trusted_policy_scope \<Rightarrow> nat \<Rightarrow> nat \<Rightarrow> budget_quote option \<Rightarrow> nat \<Rightarrow> redis_store
    \<Rightarrow> (rate_refusal, unit) result \<times> redis_store" where
  "redis_acquire rates provider scope permits aid q now st =
     (let global = resolve_limit (rr_config rates) provider; want = f64_of_nat (max permits 1) in
      if scope_rpm scope = Some 0 \<or> scope_tpm scope = Some 0 then (Inl (RateTenant ZERO_LIMIT_RETRY_AFTER), st)
      else if limit_rpm global = Some 0 \<or> limit_tpm global = Some 0 then (Inl (RateProvider ZERO_LIMIT_RETRY_AFTER), st)
      else if (scope_budget scope = None) \<noteq> (q = None) then (Inl RateUnavailable, st)
      else
        let dims =
              [add_dimension (global_key provider ''rpm'') (limit_rpm global) (Fin 1),
               add_dimension (global_key provider ''tpm'') (limit_tpm global) want,
               add_dimension (tenant_rate_key scope provider ''rpm'') (scope_rpm scope) (Fin 1),
               add_dimension (tenant_rate_key scope provider ''tpm'') (scope_tpm scope) want];
            budget = (case (scope_budget scope, q) of
              (Some policy, Some q) \<Rightarrow> Some (redis_budget_args rates scope policy aid q) | _ \<Rightarrow> None)
        in (case combined_script now KEY_TTL_MS dims budget st of
              (v, st) \<Rightarrow>
                let wait_ms = f64_as_uint u64_max (vd_wait v) in
                (if vd_admitted v then Inr ()
                 else if vd_refusal v = 3 then Inl (RateBudget (from_millis (max wait_ms 1)))
                 else if vd_refusal v = 4 then Inl RateUnavailable
                 else if vd_refusal v = 2 then Inl (RateTenant (from_millis wait_ms))
                 else Inl (RateProvider (from_millis wait_ms)), st)))"

text \<open>\<open>PENALTY_LUA\<close> and its caller; \<open>client_now\<close> is the instance's clock, \<open>now\<close> that of the store.\<close>

definition penalty_script :: "nat \<Rightarrow> nat \<Rightarrow> nat \<Rightarrow> redis_key list \<Rightarrow> redis_store \<Rightarrow> redis_store" where
  "penalty_script now deadline ttl keys st =
     fold (\<lambda>key st. st\<lparr>rd_buckets := AList.update key
        ((stored_bucket now key st)\<lparr>rb_penalty := Some deadline, rb_tokens := Some (Fin 0)\<rparr>, Some (now + ttl)) (rd_buckets st)\<rparr>) keys st"

definition redis_penalize :: "redis_attempt_rates \<Rightarrow> string \<Rightarrow> nat \<Rightarrow> nat \<Rightarrow> nat \<Rightarrow> redis_store \<Rightarrow> (unit, unit) result \<times> redis_store" where
  "redis_penalize rates provider duration_ms client_now now st =
     (let limit = resolve_limit (rr_config rates) provider in
      if limit_is_unlimited limit then (Inr (), st)
      else (Inr (), penalty_script now (saturating_add_u64 client_now duration_ms) KEY_TTL_MS
             [global_key provider ''rpm'', global_key provider ''tpm''] st))"

section \<open>The legacy spend floor\<close>

text \<open>\<open>RETAIN_LEGACY_SPEND_FLOOR_LUA\<close>. What is stored under the older version's key of the tenant's window:
  nothing, a value of another type, or a string with the number \<open>tonumber\<close> reads from it, if any.\<close>

datatype legacy_value = LegacyMissing | LegacyWrongType | LegacyText "f64 option"

definition incoming_floor :: "f64 \<Rightarrow> int" where
  "incoming_floor usd =
     (if f64_lt usd (f64_div (f64_of_nat MAX_EXACT_REDIS_NANOS) NANOS_PER_USD)
      then int (f64_as_uint u64_max (f64_ceil (f64_mul usd NANOS_PER_USD))) else int MAX_EXACT_REDIS_NANOS)"

definition legacy_usd :: "legacy_value \<Rightarrow> f64 option" where
  "legacy_usd v =
     (case v of
        LegacyMissing \<Rightarrow> Some (Fin 0)
      | LegacyWrongType \<Rightarrow> None
      | LegacyText None \<Rightarrow> None
      | LegacyText (Some x) \<Rightarrow> if \<not> is_finite x \<or> f64_lt x (Fin 0) then None else Some x)"

definition extend_global_freeze :: "nat \<Rightarrow> int \<Rightarrow> redis_store \<Rightarrow> redis_store" where
  "extend_global_freeze now ttl st =
     (let e = redis_pttl now GlobalFreezeKey st in
      if e = - 2 \<or> e \<ge> 0 \<and> e < ttl then redis_set_px now GlobalFreezeKey 1 ttl st else st)"

definition retain_script :: "nat \<Rightarrow> budget_args \<Rightarrow> legacy_value \<Rightarrow> redis_store \<Rightarrow> (int \<times> nat \<times> int) \<times> redis_store" where
  "retain_script now ba v st =
     (let k = window_at ba now; ttl = budget_ttl ba now; idx = wk_window_index k in
      case legacy_usd v of
        None \<Rightarrow> ((- 1, idx, 0), extend_global_freeze now ttl st)
      | Some usd \<Rightarrow>
          let st = index_clean now (ba_cleanup ba) st;
              applied = redis_get_or now (AppliedFloorKey k) 0 st;
              known = redis_get_or now (KnownFloorKey k) applied st;
              known = max known (incoming_floor usd);
              indexed = (KnownFloorKey k \<in> snd ` set (rd_index st))
          in if known > 0 \<and> \<not> indexed \<and> length (rd_index st) \<ge> ba_max_retained ba
             then ((0, idx, known), extend_global_freeze now ttl st)
             else
               let st = (if known > 0 \<and> \<not> indexed then index_add (now + nat ttl) (KnownFloorKey k) st else st);
                   st = (if known > 0 then redis_set_px now (KnownFloorKey k) known ttl st else st)
               in ((if redis_exists now GlobalFreezeKey st then 0 else 1, idx, known), st))"

definition retain_legacy_spend_floor ::
  "redis_attempt_rates \<Rightarrow> nat \<Rightarrow> (nat \<Rightarrow> legacy_value) \<Rightarrow> trusted_policy_scope \<Rightarrow> redis_store \<Rightarrow> (unit, legacy_spend_floor) result \<times> redis_store" where
  "retain_legacy_spend_floor rates now legacy scope st =
     (case scope_budget scope of
        None \<Rightarrow> (Inl (), st)
      | Some policy \<Rightarrow>
          let ba = redis_budget_args rates scope policy 0 \<lparr>amount_nanos = 0, bounded = True\<rparr> in
          (case retain_script now ba (legacy (wk_window_index (window_at ba now))) st of
             ((code, idx, amount), st) \<Rightarrow>
               (if code = 1 then Inr \<lparr>floor_window_index = idx, floor_amount_nanos = nat amount\<rparr> else Inl (), st)))"

text \<open>\<open>AttemptCoordinator::retain_legacy_spend_floor\<close>: the scope carries the floor to the admissions.\<close>

definition scope_with_floor ::
  "redis_attempt_rates \<Rightarrow> nat \<Rightarrow> (nat \<Rightarrow> legacy_value) \<Rightarrow> trusted_policy_scope \<Rightarrow> redis_store
    \<Rightarrow> (unit, trusted_policy_scope) result \<times> redis_store" where
  "scope_with_floor rates now legacy scope st =
     (if scope_budget scope = None then (Inr scope, st)
      else (case retain_legacy_spend_floor rates now legacy scope st of
              (Inl e, st) \<Rightarrow> (Inl e, st)
            | (Inr f, st) \<Rightarrow> (Inr (set_legacy_spend_floor (floor_window_index f) (floor_amount_nanos f) scope), st)))"

text \<open>A later penalty replaces an earlier one even when it ends sooner; the local buckets keep the longer.\<close>

lemma penalty_replaced:
  "rb_penalty (stored_bucket now key (penalty_script now d2 ttl [key] (penalty_script now d1 ttl [key] st))) = Some d2"
  by (simp add: penalty_script_def stored_bucket_def live_of_def live_def map_of_update)

end
