(* ===== verification/RedisAgreement.thy ===== *)
theory RedisAgreement
  imports RedisRates
begin

text \<open>
  The scripts of \<open>RedisRates\<close> against the accounts of one instance (\<open>Ledger\<close>): a simulation relation between the
  store and the accounts, kept by reservations, usage reports and settlements until the first key can
  expire, and the agreement of whole runs that follows from it.
\<close>

section \<open>The store before its keys expire\<close>

definition val :: "redis_store \<Rightarrow> redis_key \<rightharpoonup> int" where
  "val st k = map_option fst (map_of (rd_values st) k)"

definition att :: "redis_store \<Rightarrow> redis_key \<rightharpoonup> redis_attempt" where
  "att st k = map_option fst (map_of (rd_attempts st) k)"

text \<open>Nothing stored for the budget expires before the horizon.\<close>

definition fresh :: "nat \<Rightarrow> redis_store \<Rightarrow> bool" where
  "fresh horizon st \<longleftrightarrow>
     (\<forall>k v e. map_of (rd_values st) k = Some (v, e) \<longrightarrow> (\<exists>t. e = Some t \<and> horizon \<le> t)) \<and>
     (\<forall>k v e. map_of (rd_attempts st) k = Some (v, e) \<longrightarrow> (\<exists>t. e = Some t \<and> horizon \<le> t)) \<and>
     (\<forall>x \<in> set (rd_index st). horizon \<le> fst x)"

lemma live_of_fresh:
  assumes "\<forall>k v e. map_of m k = Some (v, e) \<longrightarrow> (\<exists>t. e = Some t \<and> horizon \<le> t)" and "now < horizon"
  shows "live_of now m k = map_option fst (map_of m k)"
proof (cases "map_of m k")
  case (Some x)
  with assms(1) obtain v t where "map_of m k = Some (v, Some t)" "horizon \<le> t" by (cases x) blast
  with assms(2) show ?thesis by (simp add: live_of_def live_def)
qed (simp add: live_of_def)

lemma get_fresh: "fresh horizon st \<Longrightarrow> now < horizon \<Longrightarrow> redis_get now k st = val st k"
  by (auto simp: redis_get_def val_def fresh_def intro: live_of_fresh)

lemma attempt_fresh: "fresh horizon st \<Longrightarrow> now < horizon \<Longrightarrow> live_of now (rd_attempts st) k = att st k"
  by (auto simp: att_def fresh_def intro: live_of_fresh)

lemma exists_fresh: "fresh horizon st \<Longrightarrow> now < horizon \<Longrightarrow> redis_exists now k st \<longleftrightarrow> val st k \<noteq> None \<or> att st k \<noteq> None"
  using get_fresh [of horizon st now k] attempt_fresh [of horizon st now k] by (simp add: redis_exists_def redis_get_def)

lemma clean_fresh:
  assumes "fresh horizon st" and "now < horizon"
  shows "index_clean now batch st = st"
proof -
  have "filter (\<lambda>(score, _). score \<le> now) (rd_index st) = []"
    using assms by (force simp: fresh_def filter_empty_conv)
  then show ?thesis by (simp add: index_clean_def)
qed

text \<open>A write keeps the expiries beyond the horizon and changes one value.\<close>

definition writes :: "nat \<Rightarrow> redis_store \<Rightarrow> (redis_key \<rightharpoonup> int) \<Rightarrow> redis_store \<Rightarrow> bool" where
  "writes horizon st f st' \<longleftrightarrow> fresh horizon st' \<and> val st' = f \<and> att st' = att st \<and> rd_index st' = rd_index st"

lemma set_px_writes:
  "fresh horizon st \<Longrightarrow> horizon \<le> now + nat ttl \<Longrightarrow> writes horizon st ((val st)(k \<mapsto> v)) (redis_set_px now k v ttl st)"
  by (auto simp: writes_def fresh_def redis_set_px_def val_def att_def fun_eq_iff map_of_update)

lemma set_keepttl_writes:
  assumes "fresh horizon st" and "now < horizon" and "val st k \<noteq> None"
  shows "writes horizon st ((val st)(k \<mapsto> v)) (redis_set_keepttl now k v st)"
proof -
  obtain w t where "map_of (rd_values st) k = Some (w, Some t)" "horizon \<le> t"
    using assms(1,3) by (fastforce simp: val_def fresh_def)
  with assms(1,2) show ?thesis
    by (auto simp: writes_def fresh_def redis_set_keepttl_def val_def att_def fun_eq_iff map_of_update live_def)
qed

lemma pttl_fresh:
  assumes "fresh horizon st" and "now < horizon" and "val st k \<noteq> None"
  shows "horizon \<le> now + nat (max 1 (redis_pttl now k st))"
proof -
  obtain w t where "map_of (rd_values st) k = Some (w, Some t)" "horizon \<le> t"
    using assms(1,3) by (fastforce simp: val_def fresh_def)
  with assms(2) show ?thesis by (simp add: redis_pttl_def live_def)
qed

lemma add_or_freeze_fresh:
  assumes "fresh horizon st" and "now < horizon" and "val st (ra_total_key a) = Some t" and "ra_freeze_key a \<noteq> ra_total_key a"
  shows "\<exists>st'. add_or_freeze now max_exact delta a st = (t > max_exact - delta, st') \<and>
    writes horizon st (if t > max_exact - delta then (val st)(ra_total_key a \<mapsto> max_exact, ra_freeze_key a \<mapsto> 1)
      else (val st)(ra_total_key a \<mapsto> t + delta)) st'"
proof (cases "t > max_exact - delta")
  case True
  let ?st = "redis_set_px now (ra_freeze_key a) 1 (max 1 (redis_pttl now (ra_total_key a) st)) st"
  have frz: "writes horizon st ((val st)(ra_freeze_key a \<mapsto> 1)) ?st"
    using assms(1-3) by (intro set_px_writes pttl_fresh) auto
  then have "writes horizon ?st ((val ?st)(ra_total_key a \<mapsto> max_exact)) (redis_set_keepttl now (ra_total_key a) max_exact ?st)"
    using assms(2-4) by (intro set_keepttl_writes) (auto simp: writes_def)
  with frz True assms show ?thesis
    by (auto simp: add_or_freeze_def redis_get_or_def get_fresh writes_def fun_upd_twist)
next
  case False
  then show ?thesis
    using assms set_keepttl_writes [OF assms(1,2)] by (auto simp: add_or_freeze_def redis_get_or_def get_fresh)
qed

lemma put_attempt_fresh:
  assumes "fresh horizon st" and "att st key \<noteq> None"
  shows "fresh horizon (put_attempt key a st) \<and> val (put_attempt key a st) = val st \<and>
    att (put_attempt key a st) = (att st)(key \<mapsto> a) \<and> rd_index (put_attempt key a st) = rd_index st"
  using assms by (fastforce simp: fresh_def put_attempt_def val_def att_def map_of_update fun_eq_iff)

section \<open>The store follows the accounts of one instance\<close>

definition enc :: "nat option \<Rightarrow> int" where
  "enc x = (case x of Some n \<Rightarrow> int n | None \<Rightarrow> - 1)"

text \<open>A stored attempt and a liability. Once its window is frozen the script parks the liability of an
  attempt that grows at the largest exact amount, where the accounts keep the amount itself.\<close>

definition same_observed :: "nat option \<Rightarrow> int \<Rightarrow> bool" where
  "same_observed x y = (case x of None \<Rightarrow> y \<in> {- 1, 0} | Some n \<Rightarrow> y = int n)"

definition same_notes :: "attempt_liability \<Rightarrow> redis_attempt \<Rightarrow> bool" where
  "same_notes a h \<longleftrightarrow>
     ra_bounded h = (if pricing_bounded a then 1 else 0) \<and> ra_finalized h = (if finalized a then 1 else 0) \<and>
     ra_total_key h = TotalKey (window_key a) \<and> ra_freeze_key h = FreezeKey (window_key a) \<and>
     ra_provider_floor h = enc (max_provider_nanos a) \<and> ra_terminal_catalog h = enc (terminal_catalog_nanos a) \<and>
     ra_terminal_provider h = enc (terminal_provider_nanos a) \<and>
     same_observed (observed_nanos a) (ra_observed h)"

definition same_liability :: "bool \<Rightarrow> attempt_liability \<Rightarrow> redis_attempt \<Rightarrow> bool" where
  "same_liability frozen a h \<longleftrightarrow>
     liability_nanos a \<le> MAX_EXACT_REDIS_NANOS \<and> ra_observed h \<le> int (liability_nanos a) \<and>
     (ra_liability h = int (liability_nanos a) \<or> frozen \<and> ra_liability h = int MAX_EXACT_REDIS_NANOS)"

definition same_attempt :: "bool \<Rightarrow> attempt_liability \<Rightarrow> redis_attempt \<Rightarrow> bool" where
  "same_attempt frozen a h \<longleftrightarrow> same_notes a h \<and> (finalized a \<or> same_liability frozen a h)"

definition same_totals :: "(redis_key \<rightharpoonup> int) \<Rightarrow> (budget_window_key, nat) hash_map \<Rightarrow> budget_window_key set \<Rightarrow> bool" where
  "same_totals f totals frozen \<longleftrightarrow>
     (\<forall>k. f (TotalKey k) = map_option int (map_of totals k) \<and> (f (FreezeKey k) \<noteq> None \<longleftrightarrow> k \<in> frozen) \<and>
          f (AppliedFloorKey k) = None \<and> f (KnownFloorKey k) = None) \<and>
     f GlobalFreezeKey = None \<and> (\<forall>t i. f (AttemptKey t i) = None)"

definition same_slot ::
  "nat \<Rightarrow> (nat \<Rightarrow> string) \<Rightarrow> budget_window_key set \<Rightarrow> nat \<Rightarrow> redis_attempt option \<Rightarrow> attempt_liability option \<Rightarrow> bool" where
  "same_slot horizon owner frozen i x y \<longleftrightarrow>
     (case y of
        None \<Rightarrow> x = None
      | Some a \<Rightarrow> wk_tenant_key (window_key a) = owner i \<and> horizon \<le> 1000 * expires_at_epoch_secs a \<and>
          (\<exists>h. x = Some h \<and> same_attempt (window_key a \<in> frozen) a h))"

definition follows :: "nat \<Rightarrow> (nat \<Rightarrow> string) \<Rightarrow> redis_store \<Rightarrow> accounts \<Rightarrow> bool" where
  "follows horizon owner st acc \<longleftrightarrow> fresh horizon st \<and>
     same_totals (val st) (budget_totals acc) (budget_frozen acc) \<and>
     (\<forall>i. same_slot horizon owner (budget_frozen acc) i (att st (AttemptKey (owner i) i)) (map_of (budget_attempts acc) i)) \<and>
     (\<forall>k. att st k \<noteq> None \<longrightarrow> (\<exists>i. k = AttemptKey (owner i) i)) \<and>
     length (rd_index st) = length (budget_attempts acc) \<and>
     snd ` set (rd_index st) = (\<lambda>i. AttemptKey (owner i) i) ` {i. map_of (budget_attempts acc) i \<noteq> None}"

lemma same_attempt_mono: "same_attempt f a h \<Longrightarrow> f \<longrightarrow> f' \<Longrightarrow> same_attempt f' a h"
  by (auto simp: same_attempt_def same_liability_def)

lemma length_update_present: "map_of m k \<noteq> None \<Longrightarrow> length (AList.update k v m) = length m"
  by (induction m) auto

text \<open>One attempt and the totals change on both sides.\<close>

lemma follows_update:
  assumes "follows horizon owner st acc" and "map_of (budget_attempts acc) i = Some a" and "same_place a a'"
    and "fresh horizon st'" "att st' = (att st)(AttemptKey (owner i) i \<mapsto> h')" "rd_index st' = rd_index st"
    and "budget_attempts acc' = AList.update i a' (budget_attempts acc)" "budget_frozen acc \<subseteq> budget_frozen acc'"
    and "same_totals (val st') (budget_totals acc') (budget_frozen acc')"
    and "same_attempt (window_key a \<in> budget_frozen acc') a' h'"
  shows "follows horizon owner st' acc'"
  unfolding follows_def
proof (intro conjI allI)
  note old = assms(1) [unfolded follows_def]
  show "fresh horizon st'" "same_totals (val st') (budget_totals acc') (budget_frozen acc')" by (rule assms)+
  show "length (rd_index st') = length (budget_attempts acc')"
    using old assms(2) by (simp add: assms(6,7) length_update_present)
  show "snd ` set (rd_index st') = (\<lambda>i. AttemptKey (owner i) i) ` {i. map_of (budget_attempts acc') i \<noteq> None}"
    using old assms(2) by (simp add: assms(6,7) map_of_update insert_absorb Collect_mono set_eq_iff) (auto simp: image_iff)
  show "att st' k \<noteq> None \<longrightarrow> (\<exists>i. k = AttemptKey (owner i) i)" for k using old by (auto simp: assms(5))
  fix j
  have slot: "same_slot horizon owner (budget_frozen acc) j (att st (AttemptKey (owner j) j)) (map_of (budget_attempts acc) j)"
    using old by blast
  show "same_slot horizon owner (budget_frozen acc') j (att st' (AttemptKey (owner j) j)) (map_of (budget_attempts acc') j)"
  proof (cases "j = i")
    case True
    with slot assms(2,3,10) show ?thesis by (auto simp: assms(5,7) map_of_update same_place_def same_slot_def)
  next
    case False
    with slot assms(8) show ?thesis
      by (auto simp: assms(5,7) map_of_update same_slot_def split: option.splits intro: same_attempt_mono)
  qed
qed

definition authority_code :: "spend_observation \<Rightarrow> int" where
  "authority_code obs = (case so_authority obs of CatalogPrice \<Rightarrow> 0 | ProviderBill \<Rightarrow> 1)"

lemma enc_simps [simp]: "enc None = - 1" "enc (Some n) = int n"
  by (simp_all add: enc_def)

lemma enc_raise: "enc (option_raise x n) = max (enc x) (int n)"
  by (cases x) (auto simp: option_raise_def)

lemma note_same:
  assumes "same_notes a h"
  shows "same_notes (note_amounts obs a)
      (note_incoming (enc (so_amount_nanos obs)) (authority_code obs) (so_terminal_authoritative obs) h) \<and>
    ra_liability (note_incoming (enc (so_amount_nanos obs)) (authority_code obs) (so_terminal_authoritative obs) h) = ra_liability h"
proof (cases "so_amount_nanos obs")
  case None
  have "\<not> enc x < - 1" for x by (cases x) auto
  with None assms show ?thesis
    by (auto simp: note_amounts_def note_incoming_def authority_code_def same_notes_def same_observed_def Let_def)
next
  case (Some n)
  then show ?thesis
    using assms
    by (cases "so_authority obs"; cases "observed_nanos a"; cases "so_terminal_authoritative obs"; cases "pricing_bounded a")
      (auto simp: note_amounts_def note_incoming_def authority_code_def same_notes_def same_observed_def Let_def enc_raise max_def)
qed

lemma note_liability:
  assumes "same_notes a h" and "ra_observed h \<le> int (liability_nanos a)" and "enc (so_amount_nanos obs) \<le> m" and "int (liability_nanos a) \<le> m"
  shows "int (liability_nanos (note_amounts obs a)) = max (int (liability_nanos a))
      (ra_observed (note_incoming (enc (so_amount_nanos obs)) (authority_code obs) (so_terminal_authoritative obs) h)) \<and>
    int (liability_nanos (note_amounts obs a)) \<le> m"
  using assms
  by (cases "so_amount_nanos obs"; cases "so_authority obs"; cases "observed_nanos a")
    (auto simp: note_amounts_def note_incoming_def authority_code_def same_notes_def same_observed_def Let_def max_def)

lemma raise_total_eq:
  assumes "map_of (budget_totals acc) k = Some t" and "t \<le> MAX_EXACT_REDIS_NANOS"
  shows "raise_total k d acc = Some (if t + d \<le> MAX_EXACT_REDIS_NANOS
    then acc\<lparr>budget_totals := AList.update k (t + d) (budget_totals acc)\<rparr>
    else acc\<lparr>budget_totals := AList.update k MAX_EXACT_REDIS_NANOS (budget_totals acc), budget_frozen := insert k (budget_frozen acc)\<rparr>)"
  using assms by (simp add: raise_total_def checked_add_u64_def MAX_EXACT_REDIS_NANOS_def u64_max_def)

lemma totals_set:
  assumes "same_totals f totals frozen"
  shows "same_totals (f(TotalKey k \<mapsto> int t)) (AList.update k t totals) frozen"
    and "same_totals (f(TotalKey k \<mapsto> int t, FreezeKey k \<mapsto> 1)) (AList.update k t totals) (insert k frozen)"
  using assms by (auto simp: same_totals_def map_of_update)

lemma totals_cong: "same_totals f totals frozen \<Longrightarrow> map_of totals' = map_of totals \<Longrightarrow> same_totals f totals' frozen"
  by (simp add: same_totals_def)

lemma add_or_freeze_totals:
  assumes "fresh horizon st" and "now < horizon" and "same_totals (val st) totals frozen" and "map_of totals k = Some t"
    and "ra_total_key a = TotalKey k" and "ra_freeze_key a = FreezeKey k"
  shows "\<exists>st'. add_or_freeze now (int MAX_EXACT_REDIS_NANOS) (int d) a st = (\<not> t + d \<le> MAX_EXACT_REDIS_NANOS, st') \<and>
    fresh horizon st' \<and> att st' = att st \<and> rd_index st' = rd_index st \<and>
    same_totals (val st') (AList.update k (if t + d \<le> MAX_EXACT_REDIS_NANOS then t + d else MAX_EXACT_REDIS_NANOS) totals)
      (if t + d \<le> MAX_EXACT_REDIS_NANOS then frozen else insert k frozen)"
proof -
  have t: "val st (ra_total_key a) = Some (int t)" using assms(3-5) by (simp add: same_totals_def)
  have over: "int t > int MAX_EXACT_REDIS_NANOS - int d \<longleftrightarrow> \<not> t + d \<le> MAX_EXACT_REDIS_NANOS" by linarith
  have "ra_freeze_key a \<noteq> ra_total_key a" using assms(5,6) by simp
  from add_or_freeze_fresh [OF assms(1,2) t this, of "int MAX_EXACT_REDIS_NANOS" "int d"]
  show ?thesis unfolding over assms(5,6)
    using totals_set(1) [OF assms(3), of k "t + d"] totals_set(2) [OF assms(3), of k MAX_EXACT_REDIS_NANOS]
    by (cases "t + d \<le> MAX_EXACT_REDIS_NANOS") (auto simp: writes_def)
qed

lemma followsD:
  assumes "follows horizon owner st acc"
  shows "fresh horizon st" "same_totals (val st) (budget_totals acc) (budget_frozen acc)"
    "same_slot horizon owner (budget_frozen acc) i (att st (AttemptKey (owner i) i)) (map_of (budget_attempts acc) i)"
  using assms unfolding follows_def by blast+

lemma total_stored:
  assumes "accounts_ok acc" and "same_totals f (budget_totals acc) (budget_frozen acc)" and "map_of (budget_attempts acc) i = Some a"
  shows "\<exists>t. map_of (budget_totals acc) (window_key a) = Some t \<and> f (TotalKey (window_key a)) = Some (int t) \<and>
    t \<le> MAX_EXACT_REDIS_NANOS \<and> (window_key a \<in> budget_frozen acc \<longrightarrow> t = MAX_EXACT_REDIS_NANOS) \<and>
    (window_key a \<notin> budget_frozen acc \<longrightarrow> liability_nanos a \<le> t)"
  using attempt_total [OF assms(1,3)] assms(2) by (auto simp: same_totals_def split: if_splits)

lemma observe_follows:
  assumes "follows horizon owner st acc" and "accounts_ok acc" and "now < horizon"
    and "enc (so_amount_nanos obs) \<le> int MAX_EXACT_REDIS_NANOS"
    and "map_of (budget_attempts acc) i = Some a" and "\<not> finalized a"
  shows "\<exists>st'. settle_script now (AttemptKey (owner i) i) (enc (so_amount_nanos obs)) False (int MAX_EXACT_REDIS_NANOS)
      (authority_code obs) (so_terminal_authoritative obs) st = (1, st') \<and>
    follows horizon owner st' (snd (observe_usage True i obs acc))"
proof -
  let ?key = "AttemptKey (owner i) i" and ?k = "window_key a" and ?M = MAX_EXACT_REDIS_NANOS
  note f = followsD [OF assms(1)]
  obtain h where h: "att st ?key = Some h" "same_notes a h" "same_liability (?k \<in> budget_frozen acc) a h"
    using f(3) [of i] assms(5,6) by (auto simp: same_slot_def same_attempt_def)
  define h1 where "h1 = note_incoming (enc (so_amount_nanos obs)) (authority_code obs) (so_terminal_authoritative obs) h"
  define a1 where "a1 = note_amounts obs a"
  have noted: "same_notes a1 h1" "ra_liability h1 = ra_liability h" using note_same [OF h(2), of obs] by (simp_all add: h1_def a1_def)
  have liab: "int (liability_nanos a1) = max (int (liability_nanos a)) (ra_observed h1)" "int (liability_nanos a1) \<le> int ?M"
    using note_liability [OF h(2) _ assms(4)] h(3) unfolding h1_def a1_def same_liability_def of_nat_le_iff by blast+
  have place: "same_place a a1" "finalized a1 = finalized a" by (simp_all add: a1_def note_amounts_place note_amounts_finalized)
  obtain t where t: "map_of (budget_totals acc) ?k = Some t" "val st (TotalKey ?k) = Some (int t)" "t \<le> ?M"
    "?k \<in> budget_frozen acc \<longrightarrow> t = ?M" using total_stored [OF assms(2) f(2) assms(5)] by blast
  have keys: "ra_total_key h1 = TotalKey ?k" "ra_freeze_key h1 = FreezeKey ?k" "ra_finalized h = 0"
    using noted(1) h(2) assms(6) place(1) by (auto simp: same_notes_def same_place_def)
  have script: "settle_script now ?key (enc (so_amount_nanos obs)) False (int ?M) (authority_code obs) (so_terminal_authoritative obs) st =
      (1, put_attempt ?key h2 st2)" if "grow_liability now (int ?M) h1 st = (h2, st2)" for h2 st2
    using that h(1) keys(3) by (simp add: settle_script_def attempt_fresh [OF f(1) assms(3)] h1_def)
  let ?d = "liability_nanos a1 - liability_nanos a"
  define acc1 where "acc1 = with_attempt i a1 acc"
  have acc1: "map_of (budget_totals acc1) ?k = Some t" using t(1) by (simp add: acc1_def with_attempt_def)
  have acc1s: "budget_attempts acc1 = AList.update i a1 (budget_attempts acc)" "budget_frozen acc1 = budget_frozen acc"
    "budget_totals acc1 = budget_totals acc" by (simp_all add: acc1_def with_attempt_def)
  have local: "snd (observe_usage True i obs acc) =
      (if liability_nanos a < liability_nanos a1 then the (raise_total ?k ?d acc1) else acc1)"
    using assms(5,6) raise_total_eq [OF acc1 t(3), of ?d]
    by (simp add: observe_usage_def Let_def a1_def [symmetric] acc1_def with_attempt_def split: option.split)
  show ?thesis
  proof (cases "ra_liability h1 < ra_observed h1")
    case True
    then have lia: "ra_liability h = int (liability_nanos a)" "liability_nanos a < liability_nanos a1" "ra_observed h1 = int (liability_nanos a1)"
      using h(3) noted(2) liab by (auto simp: same_liability_def max_def split: if_splits)
    then have d: "ra_observed h1 - ra_liability h1 = int ?d" using noted(2) by simp
    obtain st2 where st2: "add_or_freeze now (int ?M) (int ?d) h1 st = (\<not> t + ?d \<le> ?M, st2)"
      "fresh horizon st2" "att st2 = att st" "rd_index st2 = rd_index st"
      "same_totals (val st2) (AList.update ?k (if t + ?d \<le> ?M then t + ?d else ?M) (budget_totals acc))
        (if t + ?d \<le> ?M then budget_frozen acc else insert ?k (budget_frozen acc))"
      using add_or_freeze_totals [OF f(1) assms(3) f(2) t(1) keys(1,2), of ?d] by blast
    define h2 where "h2 = h1\<lparr>ra_liability := (if t + ?d \<le> ?M then ra_observed h1 else int ?M)\<rparr>"
    have grow: "grow_liability now (int ?M) h1 st = (h2, st2)"
      using True d st2(1) by (simp add: grow_liability_def h2_def)
    have "att st2 ?key \<noteq> None" using st2(3) h(1) by simp
    note put = put_attempt_fresh [OF st2(2) this, of h2]
    note res = raise_total_eq [OF acc1 t(3), of ?d]
    let ?acc = "the (raise_total ?k ?d acc1)"
    have "follows horizon owner (put_attempt ?key h2 st2) ?acc"
    proof (rule follows_update [OF assms(1,5) place(1), where h' = h2])
      show "budget_attempts ?acc = AList.update i a1 (budget_attempts acc)" "budget_frozen acc \<subseteq> budget_frozen ?acc"
        by (auto simp: res acc1s)
      show "same_totals (val (put_attempt ?key h2 st2)) (budget_totals ?acc) (budget_frozen ?acc)"
        using put st2(5) by (cases "t + ?d \<le> ?M") (simp_all add: res acc1s)
      show "same_attempt (?k \<in> budget_frozen ?acc) a1 h2"
        using noted(1) lia(3) liab(2) place(2) assms(6)
        by (simp add: same_attempt_def same_liability_def h2_def same_notes_def res acc1s)
    qed (use put st2 in simp_all)
    with script [OF grow] local lia(2) show ?thesis by auto
  next
    case False
    have grow: "grow_liability now (int ?M) h1 st = (h1, st)" using False by (simp add: grow_liability_def)
    have "att st ?key \<noteq> None" using h(1) by simp
    note put = put_attempt_fresh [OF f(1) this, of h1]
    let ?acc = "snd (observe_usage True i obs acc)"
    have frz: "?k \<in> budget_frozen acc" if "liability_nanos a < liability_nanos a1"
      using that False h(3) noted(2) liab by (auto simp: same_liability_def max_def split: if_splits)
    have acc: "budget_attempts ?acc = AList.update i a1 (budget_attempts acc)" "budget_frozen ?acc = budget_frozen acc"
      "map_of (budget_totals ?acc) = map_of (budget_totals acc)"
      using frz t local raise_total_eq [OF acc1 t(3), of ?d]
      by (auto simp: acc1s map_of_update)
    have lower: "ra_observed h1 \<le> int (liability_nanos a1)" using liab(1) by simp
    have eq: "ra_liability h1 = int (liability_nanos a1) \<or> ?k \<in> budget_frozen acc \<and> ra_liability h1 = int ?M"
      using h(3) [unfolded same_liability_def, THEN conjunct2, THEN conjunct2] False liab(1) unfolding noted(2) by (auto simp: max_def split: if_splits)
    have "follows horizon owner (put_attempt ?key h1 st) ?acc"
    proof (rule follows_update [OF assms(1,5) place(1), where h' = h1])
      show "same_totals (val (put_attempt ?key h1 st)) (budget_totals ?acc) (budget_frozen ?acc)"
        using put totals_cong [OF f(2)] acc by simp
      show "same_attempt (?k \<in> budget_frozen ?acc) a1 h1"
        using noted(1) lower eq liab(2) acc(2) by (simp add: same_attempt_def same_liability_def)
    qed (use put acc in auto)
    with script [OF grow] show ?thesis by auto
  qed
qed

lemma final_same: "same_notes a h \<Longrightarrow> final_amount h = enc (final_nanos a)"
  by (cases "terminal_provider_nanos a"; cases "terminal_catalog_nanos a"; cases "max_provider_nanos a")
    (auto simp: same_notes_def final_amount_def final_nanos_def max_def)

lemma no_note: "same_notes a h \<Longrightarrow> note_incoming (- 1) (- 1) False h = h"
  by (simp add: note_incoming_def Let_def)

text \<open>The total after a settlement, on both sides.\<close>

lemma settle_final_totals:
  assumes "follows horizon owner st acc" and "accounts_ok acc" and "now < horizon" and "map_of (budget_attempts acc) i = Some a"
    and "\<not> finalized a" and "same_notes a h" and "same_liability (window_key a \<in> budget_frozen acc) a h" and "final_nanos a = Some n"
  shows "\<exists>st'. settle_final now (int MAX_EXACT_REDIS_NANOS) h st = (h\<lparr>ra_liability := int n, ra_finalized := 1\<rparr>, st') \<and>
    fresh horizon st' \<and> att st' = att st \<and> rd_index st' = rd_index st \<and>
    (may_finalize outcome \<longrightarrow>
      same_totals (val st') (budget_totals (snd (finish_attempt True i outcome acc))) (budget_frozen (snd (finish_attempt True i outcome acc))) \<and>
      budget_attempts (snd (finish_attempt True i outcome acc)) =
        AList.update i (a\<lparr>liability_nanos := n, finalized := True\<rparr>) (budget_attempts acc) \<and>
      budget_frozen acc \<subseteq> budget_frozen (snd (finish_attempt True i outcome acc)))"
proof -
  let ?k = "window_key a" and ?M = MAX_EXACT_REDIS_NANOS
  note f = followsD [OF assms(1)]
  obtain t where t: "map_of (budget_totals acc) ?k = Some t" "val st (TotalKey ?k) = Some (int t)" "t \<le> ?M"
    "?k \<in> budget_frozen acc \<longrightarrow> t = ?M" "?k \<notin> budget_frozen acc \<longrightarrow> liability_nanos a \<le> t"
    using total_stored [OF assms(2) f(2) assms(4)] by blast
  have keys: "ra_total_key h = TotalKey ?k" "ra_freeze_key h = FreezeKey ?k" using assms(6) by (simp_all add: same_notes_def)
  have final: "final_amount h = int n" using final_same [OF assms(6)] assms(8) by simp
  have "att st (FreezeKey ?k) = None" using assms(1) unfolding follows_def by blast
  then have frozen: "redis_exists now (FreezeKey ?k) st \<longleftrightarrow> ?k \<in> budget_frozen acc"
    using f(2) by (simp add: exists_fresh [OF f(1) assms(3)] same_totals_def)
  define a1 where "a1 = a\<lparr>liability_nanos := n, finalized := True\<rparr>"
  define acc1 where "acc1 = with_attempt i a1 acc"
  have acc1s: "budget_attempts acc1 = AList.update i a1 (budget_attempts acc)" "budget_frozen acc1 = budget_frozen acc"
    "budget_totals acc1 = budget_totals acc" by (simp_all add: acc1_def with_attempt_def)
  have acc1: "map_of (budget_totals acc1) ?k = Some t" using t(1) acc1s by simp
  have local: "snd (finish_attempt True i outcome acc) =
      (if ?k \<in> budget_frozen acc then acc1
       else if n \<le> liability_nanos a then acc1\<lparr>budget_totals := AList.update ?k (t - (liability_nanos a - n)) (budget_totals acc1)\<rparr>
       else the (raise_total ?k (n - liability_nanos a) acc1))" if "may_finalize outcome"
    using that assms(4,5,8) t(1,5) raise_total_eq [OF acc1 t(3), of "n - liability_nanos a"]
    by (auto simp: finish_attempt_def Let_def acc1_def a1_def with_attempt_def split: option.split)
  consider (frozen) "?k \<in> budget_frozen acc" | (down) "?k \<notin> budget_frozen acc" "n \<le> liability_nanos a"
    | (up) "?k \<notin> budget_frozen acc" "liability_nanos a < n" by linarith
  then show ?thesis
  proof cases
    case frozen
    with f frozen local final keys show ?thesis
      by (simp add: settle_final_def \<open>redis_exists now (FreezeKey ?k) st \<longleftrightarrow> _\<close> acc1s a1_def)
  next
    case down
    let ?t = "t - (liability_nanos a - n)"
    have lia: "ra_liability h = int (liability_nanos a)" using assms(7) down(1) by (simp add: same_liability_def)
    have "writes horizon st ((val st)(TotalKey ?k \<mapsto> int ?t)) (redis_set_keepttl now (TotalKey ?k) (int ?t) st)"
      using t(2) by (intro set_keepttl_writes [OF f(1) assms(3)]) simp
    moreover have "settle_final now (int ?M) h st = (h\<lparr>ra_liability := int n, ra_finalized := 1\<rparr>, redis_set_keepttl now (TotalKey ?k) (int ?t) st)"
      using down frozen final keys lia t(2,5) by (auto simp: settle_final_def redis_get_or_def get_fresh [OF f(1) assms(3)] Let_def of_nat_diff algebra_simps)
    moreover have "same_totals ((val st)(TotalKey ?k \<mapsto> int ?t)) (AList.update ?k ?t (budget_totals acc)) (budget_frozen acc)"
      by (rule totals_set(1) [OF f(2)])
    ultimately show ?thesis using local down by (auto simp: writes_def acc1s a1_def)
  next
    case up
    let ?d = "n - liability_nanos a"
    have lia: "ra_liability h = int (liability_nanos a)" using assms(7) up(1) by (simp add: same_liability_def)
    obtain st2 where st2: "add_or_freeze now (int ?M) (int ?d) h st = (\<not> t + ?d \<le> ?M, st2)"
      "fresh horizon st2" "att st2 = att st" "rd_index st2 = rd_index st"
      "same_totals (val st2) (AList.update ?k (if t + ?d \<le> ?M then t + ?d else ?M) (budget_totals acc))
        (if t + ?d \<le> ?M then budget_frozen acc else insert ?k (budget_frozen acc))"
      using add_or_freeze_totals [OF f(1) assms(3) f(2) t(1) keys, of ?d] by blast
    have d: "int n - int (liability_nanos a) = int ?d" using up(2) by simp
    have "settle_final now (int ?M) h st = (h\<lparr>ra_liability := int n, ra_finalized := 1\<rparr>, st2)"
      unfolding settle_final_def Let_def final keys lia d st2(1) using up frozen by simp
    moreover have "snd (finish_attempt True i outcome acc) =
        acc1\<lparr>budget_totals := AList.update ?k (if t + ?d \<le> ?M then t + ?d else ?M) (budget_totals acc1),
             budget_frozen := (if t + ?d \<le> ?M then budget_frozen acc1 else insert ?k (budget_frozen acc1))\<rparr>" if "may_finalize outcome"
      using local [OF that] up raise_total_eq [OF acc1 t(3), of ?d] by simp
    ultimately show ?thesis using st2(2-5) by (cases "t + ?d \<le> ?M") (simp_all add: acc1s a1_def subset_insertI)
  qed
qed

lemma finish_follows:
  assumes "follows horizon owner st acc" and "accounts_ok acc" and "now < horizon"
    and "map_of (budget_attempts acc) i = Some a" and "\<not> finalized a"
  shows "\<exists>st'. settle_script now (AttemptKey (owner i) i) (- 1) (may_finalize outcome) (int MAX_EXACT_REDIS_NANOS) (- 1) False st = (1, st') \<and>
    follows horizon owner st' (snd (finish_attempt True i outcome acc))"
proof -
  let ?key = "AttemptKey (owner i) i"
  note f = followsD [OF assms(1)]
  obtain h where h: "att st ?key = Some h" "same_notes a h" "same_liability (window_key a \<in> budget_frozen acc) a h"
    using f(3) [of i] assms(4,5) by (auto simp: same_slot_def same_attempt_def)
  have "ra_finalized h = 0" "ra_observed h \<le> ra_liability h"
    using h(2,3) assms(5) by (auto simp: same_notes_def same_liability_def)
  then have script: "settle_script now ?key (- 1) fin (int MAX_EXACT_REDIS_NANOS) (- 1) False st =
      (case (if fin then settle_final now (int MAX_EXACT_REDIS_NANOS) h st else (h, st)) of (a, st) \<Rightarrow> (1, put_attempt ?key a st))" for fin
    using h(1) by (simp add: settle_script_def attempt_fresh [OF f(1) assms(3)] no_note [OF h(2)] grow_liability_def)
  show ?thesis
  proof (cases "may_finalize outcome \<and> (\<exists>n. final_nanos a = Some n)")
    case True
    then obtain n where n: "final_nanos a = Some n" by blast
    let ?h = "h\<lparr>ra_liability := int n, ra_finalized := 1\<rparr>" and ?a = "a\<lparr>liability_nanos := n, finalized := True\<rparr>"
    let ?acc = "snd (finish_attempt True i outcome acc)"
    from settle_final_totals [OF assms h(2,3) n, of outcome] True obtain st2 where
      st2: "settle_final now (int MAX_EXACT_REDIS_NANOS) h st = (?h, st2)" "fresh horizon st2" "att st2 = att st" "rd_index st2 = rd_index st"
        "same_totals (val st2) (budget_totals ?acc) (budget_frozen ?acc)" "budget_attempts ?acc = AList.update i ?a (budget_attempts acc)"
        "budget_frozen acc \<subseteq> budget_frozen ?acc" by blast
    have "att st2 ?key \<noteq> None" using st2(3) h(1) by simp
    note put = put_attempt_fresh [OF st2(2) this, of ?h]
    have "follows horizon owner (put_attempt ?key ?h st2) ?acc"
      by (rule follows_update [OF assms(1,4), where h' = ?h and a' = ?a])
        (use put st2 h(2) in \<open>simp_all add: same_place_def same_attempt_def same_notes_def\<close>)
    with script [of True] st2(1) True show ?thesis by simp
  next
    case False
    have st: "snd (finish_attempt True i outcome acc) = acc"
      using False assms(4) by (auto simp: finish_attempt_def split: option.splits)
    have "settle_final now (int MAX_EXACT_REDIS_NANOS) h st = (h, st)" if "final_nanos a = None"
      using final_same [OF h(2)] that by (simp add: settle_final_def)
    then have res: "settle_script now ?key (- 1) (may_finalize outcome) (int MAX_EXACT_REDIS_NANOS) (- 1) False st = (1, put_attempt ?key h st)"
      using script False by auto
    have "att st ?key \<noteq> None" using h(1) by simp
    note put = put_attempt_fresh [OF f(1) this, of h]
    have "follows horizon owner (put_attempt ?key h st) acc"
      by (rule follows_update [OF assms(1,4), where h' = h and a' = a])
        (use put f(2) h assms(4,5) in \<open>simp_all add: same_place_def same_attempt_def AList.update_triv\<close>)
    with res st show ?thesis by simp
  qed
qed

section \<open>Reservations agree\<close>

lemma purge_unexpired:
  assumes "accounts_ok acc" and "\<And>i a. map_of (budget_attempts acc) i = Some a \<Longrightarrow> epoch < expires_at_epoch_secs a"
  shows "purge_expired_budget_state epoch acc = acc"
proof -
  have "epoch < e" if "(e, i) \<in> set (budget_expirations acc)" for e i
    using that assms unfolding accounts_ok_def expirations_ok_def by metis
  then have "budget_expirations acc = [] \<or> epoch < fst (hd (budget_expirations acc))"
    by (metis list.set_sel(1) prod.collapse)
  then show ?thesis by (simp add: purge_expired_budget_state_def purge_none)
qed

lemma follows_unexpired:
  assumes "follows horizon owner st acc" and "now < horizon" and "map_of (budget_attempts acc) i = Some a"
  shows "now div 1000 < expires_at_epoch_secs a"
  using followsD(3) [OF assms(1), of i] assms(2,3) by (simp add: same_slot_def less_mult_imp_div_less mult.commute)

text \<open>Without a legacy floor nothing is retained for one.\<close>

lemma retain_nothing:
  assumes "follows horizon owner st acc" and "now < horizon" and "ba_floor_window ba < 0"
  shows "retain_floor now ba st = (0, 0, False, st)"
  using followsD(1,2) [OF assms(1)] assms(2,3)
  by (simp add: retain_floor_def redis_get_or_def get_fresh [OF followsD(1) [OF assms(1)] assms(2)] same_totals_def Let_def)

lemma judge_budget_follows:
  assumes "follows horizon owner st acc" and "now < horizon" and "ba_attempt ba = AttemptKey (owner i) i" and "0 \<le> ba_limit ba"
  defines "k \<equiv> window_at ba now"
  defines "current \<equiv> (case map_of (budget_totals acc) k of Some n \<Rightarrow> n | None \<Rightarrow> 0)"
  shows "judge_budget now ba 0 0 st v =
     (if map_of (budget_attempts acc) i \<noteq> None \<or> length (budget_attempts acc) \<ge> ba_max_retained ba
      then (refuse 4 (vd_wait v) v, 0, ba_reservation ba)
      else if k \<in> budget_frozen acc \<or> ba_limit ba = 0 \<or> int current > ba_limit ba \<or>
        (if ba_bounded ba then ba_reservation ba > ba_limit ba \<or> int current + ba_reservation ba > ba_limit ba else int current \<ge> ba_limit ba)
      then (refuse 3 (lua_max (vd_wait v) (f64_of_nat ((wk_window_index k + 1) * ba_window_secs ba * 1000 - now))) v, 0, ba_reservation ba)
      else if ba_bounded ba then (v, int current + ba_reservation ba, ba_reservation ba)
      else (v, ba_limit ba, ba_limit ba - int current))"
proof -
  note f = followsD [OF assms(1)]
  have none: "att st GlobalFreezeKey = None" "att st (FreezeKey k) = None" using assms(1) unfolding follows_def by blast+
  have "redis_exists now GlobalFreezeKey st = False" "redis_exists now (FreezeKey k) st = (k \<in> budget_frozen acc)"
    "redis_get_or now (TotalKey k) 0 st = int current"
    using f(2) none by (auto simp: exists_fresh [OF f(1) assms(2)] redis_get_or_def get_fresh [OF f(1) assms(2)] same_totals_def current_def
        split: option.splits)
  moreover have "redis_exists now (ba_attempt ba) st = (map_of (budget_attempts acc) i \<noteq> None)"
    using f(2) f(3) [of i] by (auto simp: exists_fresh [OF f(1) assms(2)] assms(3) same_totals_def same_slot_def split: option.splits)
  moreover have "length (rd_index st) = length (budget_attempts acc)" using assms(1) by (simp add: follows_def)
  ultimately show ?thesis using assms(4) by (auto simp: judge_budget_def Let_def k_def [symmetric])
qed

lemma index_add_fresh:
  "fresh horizon st \<Longrightarrow> horizon \<le> score \<Longrightarrow> fresh horizon (index_add score k st)"
  "val (index_add score k st) = val st" "att (index_add score k st) = att st"
  "k \<notin> snd ` set (rd_index st) \<Longrightarrow> length (rd_index (index_add score k st)) = Suc (length (rd_index st))"
  "snd ` set (rd_index (index_add score k st)) = insert k (snd ` set (rd_index st))"
  by (auto simp: index_add_def fresh_def val_def att_def set_insort_key fun_eq_iff)

lemma new_attempt_fresh:
  assumes "fresh horizon st" and "horizon \<le> e" and "st' = st\<lparr>rd_attempts := AList.update key (h, Some e) (rd_attempts st)\<rparr>"
  shows "fresh horizon st' \<and> val st' = val st \<and> att st' = (att st)(key \<mapsto> h) \<and> rd_index st' = rd_index st"
  using assms by (auto simp: fresh_def val_def att_def map_of_update fun_eq_iff)

lemma commit_follows:
  assumes "follows horizon owner st acc" and "now < horizon" and "map_of (budget_attempts acc) i = None"
    and "ba_attempt ba = AttemptKey (owner i) i" and "ba_tenant ba = owner i"
    and "window_at ba now = k" and "int now + budget_ttl ba now = int (1000 * expires)" and "horizon \<le> 1000 * expires"
    and "bounded q = ba_bounded ba" and "amount_nanos q \<le> MAX_EXACT_REDIS_NANOS"
    and "budget_attempts acc' = AList.update i (new_liability k q expires) (budget_attempts acc)"
    and "budget_totals acc' = AList.update k n (budget_totals acc)" and "budget_frozen acc' = budget_frozen acc"
  shows "follows horizon owner (commit_reservation now ba 0 (int n) (int (amount_nanos q)) st) acc'"
proof -
  let ?key = "AttemptKey (owner i) i" and ?e = "1000 * expires"
  note f = followsD [OF assms(1)]
  define h where "h = \<lparr>ra_liability = int (amount_nanos q), ra_bounded = (if ba_bounded ba then 1 else 0), ra_observed = - 1,
    ra_finalized = 0, ra_total_key = TotalKey k, ra_freeze_key = FreezeKey k, ra_provider_floor = - 1, ra_terminal_catalog = - 1,
    ra_terminal_provider = - 1\<rparr>"
  have ttl: "now + nat (budget_ttl ba now) = ?e" using assms(7) by (simp add: budget_ttl_def nat_add_distrib)
  define st1 where "st1 = redis_set_px now (TotalKey k) (int n) (budget_ttl ba now) st"
  have st1: "writes horizon st ((val st)(TotalKey k \<mapsto> int n)) st1"
    unfolding st1_def using f(1) assms(8) ttl by (intro set_px_writes) simp_all
  then have fresh1: "fresh horizon st1" by (simp add: writes_def)
  have "att st (KnownFloorKey k) = None" using assms(1) unfolding follows_def by blast
  then have none: "\<not> redis_exists now (KnownFloorKey k) st1"
    using st1 f(2) by (simp add: exists_fresh [OF fresh1 assms(2)] writes_def same_totals_def)
  define st2 where "st2 = st1\<lparr>rd_attempts := AList.update ?key (h, Some ?e) (rd_attempts st1)\<rparr>"
  have st2: "fresh horizon st2" "val st2 = (val st)(TotalKey k \<mapsto> int n)" "att st2 = (att st)(?key \<mapsto> h)" "rd_index st2 = rd_index st"
    using new_attempt_fresh [OF fresh1 assms(8) st2_def] st1 by (simp_all add: writes_def)
  have eq: "commit_reservation now ba 0 (int n) (int (amount_nanos q)) st = index_add ?e ?key st2"
    using none by (simp add: commit_reservation_def assms(4,6) ttl st1_def [symmetric] st2_def h_def Let_def)
  have idx: "snd ` set (rd_index st) = (\<lambda>i. AttemptKey (owner i) i) ` {i. map_of (budget_attempts acc) i \<noteq> None}"
    "length (rd_index st) = length (budget_attempts acc)" using assms(1) by (simp_all add: follows_def)
  then have fresh_key: "?key \<notin> snd ` set (rd_index st2)" using assms(3) st2(4) by auto
  have same: "same_attempt b (new_liability k q expires) h" for b
    using assms(9,10) by (simp add: same_attempt_def same_notes_def same_liability_def same_observed_def new_liability_def h_def)
  show ?thesis
    unfolding eq follows_def
  proof (intro conjI allI)
    show "fresh horizon (index_add ?e ?key st2)" using index_add_fresh(1) st2(1) assms(8) by blast
    show "same_totals (val (index_add ?e ?key st2)) (budget_totals acc') (budget_frozen acc')"
      using totals_set(1) [OF f(2)] by (simp add: index_add_fresh(2) st2(2) assms(12,13))
    show "att (index_add ?e ?key st2) x \<noteq> None \<longrightarrow> (\<exists>i. x = AttemptKey (owner i) i)" for x
      using assms(1) unfolding follows_def by (auto simp: index_add_fresh(3) st2(3))
    show "length (rd_index (index_add ?e ?key st2)) = length (budget_attempts acc')"
      using index_add_fresh(4) [OF fresh_key] idx(2) st2(4) assms(3) by (simp add: assms(11) update_absent)
    show "snd ` set (rd_index (index_add ?e ?key st2)) = (\<lambda>i. AttemptKey (owner i) i) ` {i. map_of (budget_attempts acc') i \<noteq> None}"
      using idx(1) by (simp add: index_add_fresh(5) st2(4) assms(11) map_of_update) (auto simp: image_iff)
    fix j
    have tenant: "wk_tenant_key k = owner i" using assms(5,6) by (auto simp: window_at_def)
    show "same_slot horizon owner (budget_frozen acc') j (att (index_add ?e ?key st2) (AttemptKey (owner j) j)) (map_of (budget_attempts acc') j)"
      using f(3) [of j] same assms(8) tenant
      by (cases "j = i") (auto simp: index_add_fresh(3) st2(3) assms(11,13) map_of_update same_slot_def new_liability_def)
  qed
qed

fun answer_kind :: "(rate_refusal, unit) result \<Rightarrow> nat" where
  "answer_kind (Inr _) = 0"
| "answer_kind (Inl (RateProvider _)) = 1"
| "answer_kind (Inl (RateTenant _)) = 2"
| "answer_kind (Inl (RateBudget _)) = 3"
| "answer_kind (Inl RateUnavailable) = 4"

text \<open>A budgeted scope that no rate limit applies to, without a legacy floor.\<close>

definition budget_only :: "rate_limit_config \<Rightarrow> string \<Rightarrow> trusted_policy_scope \<Rightarrow> budget_policy_snapshot \<Rightarrow> bool" where
  "budget_only cfg provider scope p \<longleftrightarrow>
     limit_is_unlimited (resolve_limit cfg provider) \<and> scope_rpm scope = None \<and> scope_tpm scope = None \<and>
     scope_budget scope = Some p \<and> scope_floor scope = None \<and> window_secs p \<noteq> 0 \<and> limit_nanos p \<le> MAX_EXACT_REDIS_NANOS"

lemma acquire_budget_only:
  assumes "budget_only (ar_config rates) provider scope p" and "purge_expired_budget_state epoch (accounts_of lst) = accounts_of lst"
    and "plan_budget (retention_secs rates) (tenant_key scope) (Some p) (Some q) epoch (accounts_of lst) = Some plan"
  shows "acquire_at_epoch rates provider scope permits aid (Some q) now epoch lst =
    (if map_of (budget_attempts (accounts_of lst)) aid \<noteq> None \<or> length (budget_attempts (accounts_of lst)) \<ge> max_retained_attempts rates
     then Some (Inl RateUnavailable, lst)
     else case plan of Inl r \<Rightarrow> Some (Inl r, lst)
       | Inr c \<Rightarrow> Some (fst (commit_budget c aid (accounts_of lst)), lst\<lparr>accounts_of := snd (commit_budget c aid (accounts_of lst))\<rparr>))"
  using assms
  by (auto simp: acquire_at_epoch_def budget_only_def limit_is_unlimited_def check_all_def check_dimension_def debit_all_def
      debit_dimension_def longer_wait_def Let_def case_prod_unfold split: sum.split)

lemma redis_budget_only:
  assumes "budget_only (rr_config rates) provider scope p" and "follows horizon owner st acc" and "now < horizon"
    and ba_def: "ba = redis_budget_args rates scope p aid q"
  shows "\<exists>r. redis_acquire rates provider scope permits aid (Some q) now st =
    (case judge_budget now ba 0 0 st \<lparr>vd_admitted = True, vd_wait = Fin 0, vd_refusal = 0\<rparr> of
       (v, n, reservation) \<Rightarrow> (r, if vd_admitted v then commit_reservation now ba 0 n reservation st else st)) \<and>
    answer_kind r = (case judge_budget now ba 0 0 st \<lparr>vd_admitted = True, vd_wait = Fin 0, vd_refusal = 0\<rparr> of
       (v, _) \<Rightarrow> if vd_admitted v then 0 else if vd_refusal v \<in> {2, 3, 4} then vd_refusal v else 1)"
proof -
  have dims: "\<not> da_enabled (add_dimension key None x)" for key x by (simp add: add_dimension_def Let_def)
  have floor: "ba_floor_window ba < 0" "ba_cleanup ba = ACCOUNTING_EXPIRY_CLEANUP_BATCH"
    using assms(1) by (simp_all add: ba_def redis_budget_args_def budget_only_def)
  note keep = clean_fresh [OF followsD(1) [OF assms(2)] assms(3)] retain_nothing [OF assms(2,3) floor(1)]
  show ?thesis
    using assms(1) keep dims
    by (auto simp: redis_acquire_def budget_only_def limit_is_unlimited_def combined_script_def judge_dimension_def write_dimension_def
        ba_def [symmetric] Let_def case_prod_unfold)
qed

definition same_limits :: "local_attempt_rates \<Rightarrow> redis_attempt_rates \<Rightarrow> bool" where
  "same_limits rates rr \<longleftrightarrow> rr_config rr = ar_config rates \<and> rr_max_retained rr = max_retained_attempts rates \<and>
     rr_retention_secs rr = retention_secs rates"

definition expiry_of :: "nat \<Rightarrow> budget_policy_snapshot \<Rightarrow> nat \<Rightarrow> nat" where
  "expiry_of ret p epoch = (epoch div window_secs p + 1) * window_secs p + ret"

lemma expiry_of_later: "window_secs p \<noteq> 0 \<Longrightarrow> now + 1000 * ret < 1000 * expiry_of ret p (now div 1000)"
proof -
  assume "window_secs p \<noteq> 0"
  then have "now div 1000 < (now div 1000 div window_secs p + 1) * window_secs p"
    using dividend_less_div_times [of "window_secs p" "now div 1000"] by (simp add: algebra_simps)
  moreover have "now + 1000 * ret < 1000 * (x + ret)" if "now div 1000 < x" for x
    using that by (simp add: div_less_iff_less_mult)
  ultimately show ?thesis unfolding expiry_of_def by blast
qed

lemma plan_budget_unsaturated:
  assumes "window_secs p \<noteq> 0" and "expiry_of ret p epoch \<le> u64_max" and "limit_nanos p \<le> MAX_EXACT_REDIS_NANOS"
    and k_def: "k = \<lparr>wk_tenant_key = tkey, wk_window_secs = window_secs p, wk_window_index = epoch div window_secs p\<rparr>"
    and current_def: "current = (case map_of (budget_totals acc) k of Some n \<Rightarrow> n | None \<Rightarrow> 0)"
  shows "plan_budget ret tkey (Some p) (Some q) epoch acc = Some
    (if k \<in> budget_frozen acc \<or> limit_nanos p = 0 \<or> (if bounded q then limit_nanos p < current + amount_nanos q else limit_nanos p \<le> current)
     then Inl (RateBudget (budget_wait (window_secs p) epoch))
     else Inr (Some (k, if bounded q then q else q\<lparr>amount_nanos := limit_nanos p - current\<rparr>, expiry_of ret p epoch)))"
proof -
  have "epoch div window_secs p + 1 \<le> (epoch div window_secs p + 1) * window_secs p"
    using assms(1) mult_le_mono2 [of 1 "window_secs p" "epoch div window_secs p + 1"] by simp
  then have sat: "saturating_add_u64 (saturating_mul_u64 (saturating_add_u64 (epoch div window_secs p) 1) (window_secs p)) ret = expiry_of ret p epoch"
    using assms(2) by (simp add: expiry_of_def saturating_add_u64_def saturating_mul_u64_def)
  have "checked_add_u64 current (amount_nanos q) = None \<Longrightarrow> limit_nanos p < current + amount_nanos q"
    using assms(3) by (simp add: checked_add_u64_def MAX_EXACT_REDIS_NANOS_def u64_max_def split: if_splits)
  moreover have "checked_add_u64 current (amount_nanos q) = Some n \<Longrightarrow> n = current + amount_nanos q" for n
    by (simp add: checked_add_u64_def split: if_splits)
  ultimately show ?thesis
    using assms(1)
    by (simp only: plan_budget_def option.case prod.case Let_def sat k_def [symmetric] current_def [symmetric])
      (auto split: option.split)
qed

lemma reserve_follows:
  assumes "follows horizon owner st (accounts_of lst)" and "accounts_ok (accounts_of lst)" and "now < horizon"
    and "same_limits rates rr" and "budget_only (ar_config rates) provider scope p" and "owner aid = tenant_key scope"
    and "expiry_of (retention_secs rates) p (now div 1000) \<le> u64_max"
    and "horizon \<le> 1000 * expiry_of (retention_secs rates) p (now div 1000)"
  shows "\<exists>r st' r' lst'. redis_acquire rr provider scope permits aid (Some q) now st = (r, st') \<and>
    acquire_at_epoch rates provider scope permits aid (Some q) t (now div 1000) lst = Some (r', lst') \<and>
    answer_kind r = answer_kind r' \<and> follows horizon owner st' (accounts_of lst')"
proof -
  let ?acc = "accounts_of lst" and ?epoch = "now div 1000" and ?E = "expiry_of (retention_secs rates) p (now div 1000)"
  define ba where "ba = redis_budget_args rr scope p aid q"
  define k where "k = \<lparr>wk_tenant_key = tenant_key scope, wk_window_secs = window_secs p, wk_window_index = ?epoch div window_secs p\<rparr>"
  define current where "current = (case map_of (budget_totals ?acc) k of Some n \<Rightarrow> n | None \<Rightarrow> 0)"
  have p: "window_secs p \<noteq> 0" "limit_nanos p \<le> MAX_EXACT_REDIS_NANOS" using assms(5) by (simp_all add: budget_only_def)
  have ba: "ba_attempt ba = AttemptKey (owner aid) aid" "0 \<le> ba_limit ba" "ba_tenant ba = owner aid" "window_at ba now = k"
    "ba_max_retained ba = max_retained_attempts rates" "ba_limit ba = int (limit_nanos p)" "ba_reservation ba = int (amount_nanos q)"
    "ba_bounded ba = bounded q"
    using assms(4,6) by (simp_all add: ba_def redis_budget_args_def window_at_def k_def same_limits_def)
  have ttl: "int now + budget_ttl ba now = int (1000 * ?E)"
  proof -
    have "budget_ttl ba now = max 1 (int (?E * 1000) - int now)"
      using assms(4) by (simp add: budget_ttl_def ba_def redis_budget_args_def window_at_def same_limits_def expiry_of_def)
    moreover have "now < ?E * 1000" using expiry_of_later [OF p(1), of now "retention_secs rates"] by linarith
    ultimately show ?thesis by linarith
  qed
  define full where "full \<longleftrightarrow> map_of (budget_attempts ?acc) aid \<noteq> None \<or> length (budget_attempts ?acc) \<ge> max_retained_attempts rates"
  define over where "over \<longleftrightarrow> k \<in> budget_frozen ?acc \<or> limit_nanos p = 0 \<or>
    (if bounded q then limit_nanos p < current + amount_nanos q else limit_nanos p \<le> current)"
  define q' where "q' = (if bounded q then q else q\<lparr>amount_nanos := limit_nanos p - current\<rparr>)"
  have plan: "plan_budget (retention_secs rates) (tenant_key scope) (Some p) (Some q) ?epoch ?acc = Some
      (if over then Inl (RateBudget (budget_wait (window_secs p) ?epoch)) else Inr (Some (k, q', ?E)))"
    unfolding over_def q'_def by (rule plan_budget_unsaturated [OF p(1) assms(7) p(2) k_def current_def])
  have purge: "purge_expired_budget_state ?epoch ?acc = ?acc"
    using purge_unexpired [OF assms(2)] follows_unexpired [OF assms(1,3)] by blast
  note local = acquire_budget_only [OF assms(5) purge plan, of permits aid t, folded full_def]
  have cfg: "budget_only (rr_config rr) provider scope p" using assms(4,5) by (simp add: same_limits_def)
  let ?v = "\<lparr>vd_admitted = True, vd_wait = Fin 0, vd_refusal = 0\<rparr>"
  have judge: "\<exists>w. judge_budget now ba 0 0 st ?v =
      (if full then (refuse 4 w ?v, 0, ba_reservation ba) else if over then (refuse 3 w ?v, 0, ba_reservation ba)
       else (?v, int (current + amount_nanos q'), int (amount_nanos q')))"
    unfolding judge_budget_follows [OF assms(1,3) ba(1,2)] ba(4-8) full_def [symmetric] current_def [symmetric]
    by (cases full; cases "bounded q"; cases over) (auto simp: over_def q'_def of_nat_diff split: if_splits)
  obtain r w where r: "redis_acquire rr provider scope permits aid (Some q) now st =
      (r, if full \<or> over then st else commit_reservation now ba 0 (int (current + amount_nanos q')) (int (amount_nanos q')) st)"
    "answer_kind r = (if full then 4 else if over then 3 else 0)"
    using redis_budget_only [OF cfg assms(1,3) ba_def, of permits] judge by (cases full; cases over) (auto simp: refuse_def)
  show ?thesis
  proof (cases "full \<or> over")
    case True
    then show ?thesis using r local assms(1) by (cases full) auto
  next
    case False
    have small: "current + amount_nanos q' \<le> limit_nanos p" using False by (auto simp: over_def q'_def split: if_splits)
    then have add: "checked_add_u64 current (amount_nanos q') = Some (current + amount_nanos q')"
      using p(2) by (simp add: checked_add_u64_def MAX_EXACT_REDIS_NANOS_def u64_max_def)
    obtain acc' where acc': "commit_budget (Some (k, q', ?E)) aid ?acc = (Inr (), acc')"
      "budget_attempts acc' = AList.update aid (new_liability k q' ?E) (budget_attempts ?acc)"
      "budget_totals acc' = AList.update k (current + amount_nanos q') (budget_totals ?acc)" "budget_frozen acc' = budget_frozen ?acc"
      using add by (simp add: commit_budget_def current_def [symmetric] Let_def)
    have "follows horizon owner (commit_reservation now ba 0 (int (current + amount_nanos q')) (int (amount_nanos q')) st) acc'"
      using False small p(2) ba(8)
      by (intro commit_follows [OF assms(1,3) _ ba(1,3,4) ttl assms(8) _ _ acc'(2-4)]) (auto simp: full_def q'_def)
    with r local acc'(1) False show ?thesis by auto
  qed
qed

section \<open>Runs agree\<close>

datatype budget_op =
    Reserve_op string trusted_policy_scope nat nat budget_quote
  | Report_op trusted_policy_scope nat spend_observation
  | Settle_op trusted_policy_scope nat attempt_outcome

definition report_kind :: "(unit, unit) result \<Rightarrow> nat" where
  "report_kind r = (case r of Inr _ \<Rightarrow> 0 | Inl _ \<Rightarrow> 5)"

fun redis_step :: "redis_attempt_rates \<Rightarrow> nat \<times> budget_op \<Rightarrow> redis_store \<Rightarrow> nat \<times> redis_store" where
  "redis_step rr (now, Reserve_op provider scope permits aid q) st =
     (case redis_acquire rr provider scope permits aid (Some q) now st of (r, st) \<Rightarrow> (answer_kind r, st))"
| "redis_step rr (now, Report_op scope aid obs) st =
     (case redis_observe_usage now scope aid obs st of (r, st) \<Rightarrow> (report_kind r, st))"
| "redis_step rr (now, Settle_op scope aid outcome) st =
     (case redis_finish now scope aid outcome st of (r, st) \<Rightarrow> (report_kind r, st))"

fun local_step :: "local_attempt_rates \<Rightarrow> nat \<times> budget_op \<Rightarrow> local_rate_state \<Rightarrow> (nat \<times> local_rate_state) option" where
  "local_step rates (now, Reserve_op provider scope permits aid q) st =
     map_option (\<lambda>(r, st). (answer_kind r, st))
       (acquire_at_epoch rates provider scope permits aid (Some q) (from_millis now) (now div 1000) st)"
| "local_step rates (now, Report_op scope aid obs) st =
     (case rates_observe_usage scope aid obs st of (r, st) \<Rightarrow> Some (report_kind r, st))"
| "local_step rates (now, Settle_op scope aid outcome) st =
     (case rates_finish scope aid outcome st of (r, st) \<Rightarrow> Some (report_kind r, st))"

fun run_redis :: "redis_attempt_rates \<Rightarrow> (nat \<times> budget_op) list \<Rightarrow> redis_store \<Rightarrow> nat list \<times> redis_store" where
  "run_redis rr [] st = ([], st)"
| "run_redis rr (x # xs) st =
     (case redis_step rr x st of (a, st) \<Rightarrow> (case run_redis rr xs st of (as, st) \<Rightarrow> (a # as, st)))"

fun run_local :: "local_attempt_rates \<Rightarrow> (nat \<times> budget_op) list \<Rightarrow> local_rate_state \<Rightarrow> (nat list \<times> local_rate_state) option" where
  "run_local rates [] st = Some ([], st)"
| "run_local rates (x # xs) st =
     Option.bind (local_step rates x st) (\<lambda>(a, st). Option.bind (run_local rates xs st) (\<lambda>(as, st). Some (a # as, st)))"

text \<open>Operations within the retention time of \<open>t0\<close>, on attempts that keep their tenant, with amounts in the
  exact range and no legacy floor.\<close>

fun comparable :: "local_attempt_rates \<Rightarrow> (nat \<Rightarrow> string) \<Rightarrow> nat \<Rightarrow> nat \<times> budget_op \<Rightarrow> bool" where
  "comparable rates owner t0 (now, op) \<longleftrightarrow> t0 \<le> now \<and> now < t0 + 1000 * retention_secs rates \<and>
     (case op of
        Reserve_op provider scope permits aid q \<Rightarrow>
          (case scope_budget scope of
             None \<Rightarrow> False
           | Some p \<Rightarrow> budget_only (ar_config rates) provider scope p \<and> owner aid = tenant_key scope \<and> permits \<le> u32_max \<and>
               expiry_of (retention_secs rates) p (now div 1000) \<le> u64_max)
      | Report_op scope aid obs \<Rightarrow> owner aid = tenant_key scope \<and>
          (case so_amount_nanos obs of None \<Rightarrow> True | Some n \<Rightarrow> n \<le> MAX_EXACT_REDIS_NANOS)
      | Settle_op scope aid outcome \<Rightarrow> owner aid = tenant_key scope)"

lemma settle_follows:
  assumes "follows horizon owner st acc" and "now < horizon" and "owner aid = tenant_key scope" and "scope_budget scope \<noteq> None"
    and "\<And>a. map_of (budget_attempts acc) aid = Some a \<Longrightarrow> \<not> finalized a \<Longrightarrow>
      \<exists>st'. settle_script now (AttemptKey (owner aid) aid) x fin (int MAX_EXACT_REDIS_NANOS) au term st = (1, st') \<and>
        follows horizon owner st' acc'"
    and "\<And>a. map_of (budget_attempts acc) aid = None \<or> map_of (budget_attempts acc) aid = Some a \<and> finalized a \<Longrightarrow> acc' = acc"
  shows "\<exists>r st'. settle_script now (AttemptKey (owner aid) aid) x fin (int MAX_EXACT_REDIS_NANOS) au term st = (r, st') \<and>
    (r = 1 \<longleftrightarrow> map_of (budget_attempts acc) aid \<noteq> None) \<and> follows horizon owner st' acc'"
proof -
  note f = followsD [OF assms(1)]
  consider (none) "map_of (budget_attempts acc) aid = None"
    | (done') a where "map_of (budget_attempts acc) aid = Some a" "finalized a"
    | (live) a where "map_of (budget_attempts acc) aid = Some a" "\<not> finalized a"
    by (cases "map_of (budget_attempts acc) aid") auto
  then show ?thesis
  proof cases
    case none
    then have "att st (AttemptKey (owner aid) aid) = None" using f(3) [of aid] by (simp add: same_slot_def)
    then show ?thesis using none assms(1,6) by (simp add: settle_script_def attempt_fresh [OF f(1) assms(2)])
  next
    case done'
    then obtain h where "att st (AttemptKey (owner aid) aid) = Some h" "ra_finalized h = 1"
      using f(3) [of aid] by (auto simp: same_slot_def same_attempt_def same_notes_def)
    then show ?thesis using done' assms(1,6) by (simp add: settle_script_def attempt_fresh [OF f(1) assms(2)])
  next
    case live
    with assms(5) show ?thesis by fastforce
  qed
qed

lemma report_follows:
  assumes "follows horizon owner st (accounts_of lst)" and "accounts_ok (accounts_of lst)" and "now < horizon"
    and "owner aid = tenant_key scope" and "case so_amount_nanos obs of None \<Rightarrow> True | Some n \<Rightarrow> n \<le> MAX_EXACT_REDIS_NANOS"
  shows "\<exists>r st' lst'. redis_observe_usage now scope aid obs st = (r, st') \<and> rates_observe_usage scope aid obs lst = (r, lst') \<and>
    follows horizon owner st' (accounts_of lst')"
proof (cases "scope_budget scope")
  case None
  with assms(1) show ?thesis by (simp add: redis_observe_usage_def settle_budget_def rates_observe_usage_def observe_usage_def)
next
  case (Some p)
  let ?acc = "accounts_of lst"
  have amount: "enc (so_amount_nanos obs) \<le> int MAX_EXACT_REDIS_NANOS" using assms(5) by (cases "so_amount_nanos obs") auto
  have budgeted: "scope_budget scope \<noteq> None" using Some by simp
  have code: "(case so_amount_nanos obs of Some n \<Rightarrow> int n | None \<Rightarrow> - 1) = enc (so_amount_nanos obs)" by (simp add: enc_def)
  have keeps: "snd (observe_usage True aid obs ?acc) = ?acc"
    if "map_of (budget_attempts ?acc) aid = None \<or> map_of (budget_attempts ?acc) aid = Some a \<and> finalized a" for a
    using that by (auto simp: observe_usage_def)
  obtain r st' where r: "settle_script now (AttemptKey (owner aid) aid) (enc (so_amount_nanos obs)) False (int MAX_EXACT_REDIS_NANOS)
      (authority_code obs) (so_terminal_authoritative obs) st = (r, st')"
    "r = 1 \<longleftrightarrow> map_of (budget_attempts ?acc) aid \<noteq> None" "follows horizon owner st' (snd (observe_usage True aid obs ?acc))"
    by (atomize_elim, rule settle_follows [OF assms(1,3,4) budgeted], rule observe_follows [OF assms(1-3) amount], assumption+, rule keeps, assumption)
  have "fst (observe_usage True aid obs ?acc) = (if r = 1 then Inr () else Inl ())"
    using observe_usage_books [OF assms(2), of True aid obs 0] r(2) by (auto split: if_splits)
  with r(1,3) Some show ?thesis
    by (simp add: redis_observe_usage_def settle_budget_def rates_observe_usage_def code authority_code_def assms(4) case_prod_unfold)
qed

lemma settle_follows_finish:
  assumes "follows horizon owner st (accounts_of lst)" and "accounts_ok (accounts_of lst)" and "now < horizon"
    and "owner aid = tenant_key scope"
  shows "\<exists>r st' lst'. redis_finish now scope aid outcome st = (r, st') \<and> rates_finish scope aid outcome lst = (r, lst') \<and>
    follows horizon owner st' (accounts_of lst')"
proof (cases "scope_budget scope")
  case None
  with assms(1) show ?thesis by (simp add: redis_finish_def settle_budget_def rates_finish_def finish_attempt_def)
next
  case (Some p)
  let ?acc = "accounts_of lst"
  have budgeted: "scope_budget scope \<noteq> None" using Some by simp
  have keeps: "snd (finish_attempt True aid outcome ?acc) = ?acc"
    if "map_of (budget_attempts ?acc) aid = None \<or> map_of (budget_attempts ?acc) aid = Some a \<and> finalized a" for a
    using that by (auto simp: finish_attempt_def)
  obtain r st' where r: "settle_script now (AttemptKey (owner aid) aid) (- 1) (may_finalize outcome) (int MAX_EXACT_REDIS_NANOS)
      (- 1) False st = (r, st')"
    "r = 1 \<longleftrightarrow> map_of (budget_attempts ?acc) aid \<noteq> None" "follows horizon owner st' (snd (finish_attempt True aid outcome ?acc))"
    by (atomize_elim, rule settle_follows [OF assms(1,3,4) budgeted], rule finish_follows [OF assms(1-3)], assumption+, rule keeps, assumption)
  have "fst (finish_attempt True aid outcome ?acc) = (if r = 1 then Inr () else Inl ())"
    using finish_attempt_books [OF assms(2), of True aid outcome 0] r(2) by (auto split: if_splits)
  with r(1,3) Some show ?thesis
    by (simp add: redis_finish_def settle_budget_def rates_finish_def assms(4) case_prod_unfold)
qed

lemma step_agrees:
  assumes "follows (t0 + 1000 * retention_secs rates) owner st (accounts_of lst)" and "rates_ok lst" and "same_limits rates rr"
    and "comparable rates owner t0 x"
  shows "\<exists>a st' lst'. redis_step rr x st = (a, st') \<and> local_step rates x lst = Some (a, lst') \<and>
    follows (t0 + 1000 * retention_secs rates) owner st' (accounts_of lst') \<and> rates_ok lst'"
proof -
  obtain now op where x: "x = (now, op)" by (cases x)
  have now: "t0 \<le> now" "now < t0 + 1000 * retention_secs rates" using assms(4) by (simp_all add: x)
  have ok: "accounts_ok (accounts_of lst)" using assms(2) by (simp add: rates_ok_def)
  show ?thesis
  proof (cases op)
    case (Reserve_op provider scope permits aid q)
    then obtain p where p: "budget_only (ar_config rates) provider scope p" "owner aid = tenant_key scope" "permits \<le> u32_max"
      "expiry_of (retention_secs rates) p (now div 1000) \<le> u64_max" using assms(4) by (auto simp: x split: option.splits)
    have "window_secs p \<noteq> 0" using p(1) by (simp add: budget_only_def)
    then have later: "t0 + 1000 * retention_secs rates \<le> 1000 * expiry_of (retention_secs rates) p (now div 1000)"
      using expiry_of_later [of p now "retention_secs rates"] now(1) by linarith
    obtain r st' r' lst' where r: "redis_acquire rr provider scope permits aid (Some q) now st = (r, st')"
      "acquire_at_epoch rates provider scope permits aid (Some q) (from_millis now) (now div 1000) lst = Some (r', lst')"
      "answer_kind r = answer_kind r'" "follows (t0 + 1000 * retention_secs rates) owner st' (accounts_of lst')"
      using reserve_follows [OF assms(1) ok now(2) assms(3) p(1,2,4) later] by metis
    have "admission_ok rates provider scope permits"
      using p(1,3) by (simp add: admission_ok_def limits_ok_def limit_ok_def scope_ok_def budget_only_def limit_is_unlimited_def)
    from rate_step_ok [OF assms(2), of rates "Admit_op provider scope permits aid (Some q) (from_millis now) (now div 1000)"] this r(2)
    have "rates_ok lst'" by simp
    with r x Reserve_op show ?thesis by simp
  next
    case (Report_op scope aid obs)
    then have "owner aid = tenant_key scope" "case so_amount_nanos obs of None \<Rightarrow> True | Some n \<Rightarrow> n \<le> MAX_EXACT_REDIS_NANOS"
      using assms(4) by (auto simp: x)
    from report_follows [OF assms(1) ok now(2) this] obtain r st' lst' where
      "redis_observe_usage now scope aid obs st = (r, st')" "rates_observe_usage scope aid obs lst = (r, lst')"
      "follows (t0 + 1000 * retention_secs rates) owner st' (accounts_of lst')" by blast
    with rate_step_ok [OF assms(2), of rates "Usage_op scope aid obs"] x Report_op show ?thesis by simp
  next
    case (Settle_op scope aid outcome)
    then have "owner aid = tenant_key scope" using assms(4) by (auto simp: x)
    from settle_follows_finish [OF assms(1) ok now(2) this] obtain r st' lst' where
      "redis_finish now scope aid outcome st = (r, st')" "rates_finish scope aid outcome lst = (r, lst')"
      "follows (t0 + 1000 * retention_secs rates) owner st' (accounts_of lst')" by blast
    with rate_step_ok [OF assms(2), of rates "Finish_op scope aid outcome"] x Settle_op show ?thesis by simp
  qed
qed

lemma run_agrees:
  assumes "follows (t0 + 1000 * retention_secs rates) owner st (accounts_of lst)" and "rates_ok lst" and "same_limits rates rr"
    and "list_all (comparable rates owner t0) xs"
  shows "\<exists>as st' lst'. run_redis rr xs st = (as, st') \<and> run_local rates xs lst = Some (as, lst') \<and>
    follows (t0 + 1000 * retention_secs rates) owner st' (accounts_of lst')"
  using assms(1,2,4)
proof (induction xs arbitrary: st lst)
  case (Cons x xs)
  obtain a st1 lst1 where one: "redis_step rr x st = (a, st1)" "local_step rates x lst = Some (a, lst1)"
    "follows (t0 + 1000 * retention_secs rates) owner st1 (accounts_of lst1)" "rates_ok lst1"
    using step_agrees [OF Cons.prems(1,2) assms(3), of x] Cons.prems(3) unfolding list.pred_inject(2) by blast
  with Cons.IH [OF one(3,4)] Cons.prems(3) show ?case by auto
qed simp

lemma follows_empty: "follows horizon owner empty_store no_accounts"
  by (simp add: follows_def fresh_def same_totals_def same_slot_def val_def att_def empty_store_def no_accounts_def)

text \<open>C23. The accounts that several instances share in Redis and those one instance keeps for itself agree. Take any
  sequence of reservations, usage reports and settlements for budgeted tenants, within the retention time, on
  scopes without rate limits and without a legacy floor: the scripts give the same answers as the local
  handlers, grant for grant and refusal for refusal, and every window ends with the same total.\<close>

theorem redis_agrees_with_local:
  assumes "same_limits rates rr" and "list_all (comparable rates owner t0) xs"
  shows "\<exists>as st lst. run_redis rr xs empty_store = (as, st) \<and> run_local rates xs empty_rates = Some (as, lst) \<and>
    (\<forall>k. val st (TotalKey k) = map_option int (map_of (budget_totals (accounts_of lst)) k)) \<and>
    (\<forall>k. val st (FreezeKey k) \<noteq> None \<longleftrightarrow> k \<in> budget_frozen (accounts_of lst))"
proof -
  have "follows (t0 + 1000 * retention_secs rates) owner empty_store (accounts_of empty_rates)"
    by (simp add: follows_empty empty_rates_def)
  from run_agrees [OF this rates_ok_empty assms] obtain as st lst where
    run: "run_redis rr xs empty_store = (as, st)" "run_local rates xs empty_rates = Some (as, lst)"
      "follows (t0 + 1000 * retention_secs rates) owner st (accounts_of lst)" by blast
  with followsD(2) [OF run(3)] show ?thesis by (auto simp: same_totals_def)
qed

definition demo_redis :: redis_attempt_rates where
  "demo_redis = \<lparr>rr_config = with_global None None, rr_max_retained = 8, rr_retention_secs = LATE_SETTLEMENT_RETENTION_SECS\<rparr>"

definition demo_budget_ops :: "(nat \<times> budget_op) list" where
  "demo_budget_ops =
     [(100000000, Reserve_op ''openai'' demo_scope 5 1 \<lparr>amount_nanos = 700000000, bounded = True\<rparr>),
      (100000500, Reserve_op ''openai'' demo_scope 5 2 \<lparr>amount_nanos = 700000000, bounded = True\<rparr>),
      (100001000, Report_op demo_scope 1 \<lparr>so_amount_nanos = Some 200000000, so_authority = ProviderBill, so_terminal_authoritative = True\<rparr>),
      (100002000, Settle_op demo_scope 1 (Completed UsageObserved))]"

theorem redis_agrees_with_local_witness:
  "\<exists>as st lst. run_redis demo_redis demo_budget_ops empty_store = (as, st) \<and>
     run_local demo_rates demo_budget_ops empty_rates = Some (as, lst)"
proof -
  have "same_limits demo_rates demo_redis" by (simp add: same_limits_def demo_redis_def demo_rates_def)
  moreover have "list_all (comparable demo_rates (\<lambda>_. ''t'') 100000000) demo_budget_ops"
    by (simp add: demo_budget_ops_def demo_defs budget_only_def limit_is_unlimited_def resolve_limit_def with_global_def expiry_of_def
        LATE_SETTLEMENT_RETENTION_SECS_def MAX_EXACT_REDIS_NANOS_def u32_max_def u64_max_def Let_def)
  ultimately show ?thesis using redis_agrees_with_local [of demo_rates demo_redis "\<lambda>_. ''t''" 100000000 demo_budget_ops] by blast
qed

end
