(* ===== verification/Router.thy ===== *)
theory Router
  imports Catalog Json Errors
begin

text \<open>
  The router (\<open>src/router.rs\<close>): the registry of providers, aliases and named routes, and how a model
  string becomes a provider and a model name. A provider is whatever value is registered. The
  process-wide catalog is an argument, or the text of its configuration error. Building a router from
  the environment and from stored credentials is not modelled.
\<close>

section \<open>Text\<close>

text \<open>\<open>str::to_lowercase\<close>, for the comparisons with ASCII words made here: the Kelvin sign and the
  dotted capital I are the only other characters that lower to ASCII letters; the bytes of any other
  non-ASCII character stand for its lower-case form.\<close>

fun to_lowercase :: "string \<Rightarrow> string" where
  "to_lowercase (a # b # c # s) =
     (if a = CHR 0xE2 \<and> b = CHR 0x84 \<and> c = CHR 0xAA then CHR ''k'' # to_lowercase s
      else if a = CHR 0xC4 \<and> b = CHR 0xB0 then CHR ''i'' # CHR 0xCC # CHR 0x87 # to_lowercase (c # s)
      else to_ascii_lowercase [a] @ to_lowercase (b # c # s))"
| "to_lowercase [a, b] =
     (if a = CHR 0xC4 \<and> b = CHR 0xB0 then [CHR ''i'', CHR 0xCC, CHR 0x87] else to_ascii_lowercase [a, b])"
| "to_lowercase s = to_ascii_lowercase s"

text \<open>The \<open>Debug\<close> rendering of a string and of a list of strings (non-ASCII characters are taken to be
  printable).\<close>

definition hex_digit :: "nat \<Rightarrow> char" where
  "hex_digit n = (if n < 10 then char_of (48 + n) else char_of (87 + n))"

definition debug_char :: "char \<Rightarrow> string" where
  "debug_char c =
     (let n = of_char c :: nat in
      if n = 0 then [CHR 0x5C, CHR ''0''] else if n = 9 then [CHR 0x5C, CHR ''t'']
      else if n = 10 then [CHR 0x5C, CHR ''n''] else if n = 13 then [CHR 0x5C, CHR ''r'']
      else if n = 34 \<or> n = 92 then [CHR 0x5C, c]
      else if n < 32 \<or> n = 127 then
        [CHR 0x5C] @ ''u{'' @ (if n < 16 then [hex_digit n] else [hex_digit (n div 16), hex_digit (n mod 16)]) @ ''}''
      else [c])"

definition debug_str :: "string \<Rightarrow> string" where
  "debug_str s = [CHR 0x22] @ concat (map debug_char s) @ [CHR 0x22]"

fun comma_separated :: "string list \<Rightarrow> string" where
  "comma_separated [] = []"
| "comma_separated [s] = s"
| "comma_separated (s # ss) = s @ '', '' @ comma_separated ss"

definition debug_strs :: "string list \<Rightarrow> string" where
  "debug_strs ss = ''['' @ comma_separated (map debug_str ss) @ '']''"

section \<open>Model strings\<close>

definition parse_model :: "string \<Rightarrow> (string, string) hash_map \<Rightarrow> (shim_error, string \<times> string) result" where
  "parse_model model aliases =
     (let resolved = (case map_of aliases model of Some s \<Rightarrow> s | None \<Rightarrow> model) in
      case split_once (CHR ''/'') resolved of
        Some (provider, model_name) \<Rightarrow> Inr (provider, model_name)
      | None \<Rightarrow>
          let lower = to_lowercase resolved in
          if starts_with lower ''gpt'' \<or> starts_with lower ''o1'' \<or> starts_with lower ''o3'' \<or> starts_with lower ''o4''
          then Inr (''openai'', resolved)
          else if lower = ''qwen-3.8-27b'' then Inr (''cerebras'', resolved)
          else if starts_with lower ''claude'' then Inr (''anthropic'', resolved)
          else if starts_with lower ''gemini'' then Inr (''gemini'', resolved)
          else if starts_with lower ''grok'' then Inr (''xai'', resolved)
          else Inl (UnknownProvider resolved))"

definition ROUTE_PREFIX :: string where "ROUTE_PREFIX = ''route/''"

record route =
  route_model :: string
  route_settings :: "(string \<times> json) list"

record 'p router =
  providers :: "(string, 'p) hash_map"
  aliases :: "(string, string) hash_map"
  routes :: "(string \<times> route) list"

definition new_router :: "'p router" where
  "new_router = \<lparr>providers = [], aliases = [], routes = []\<rparr>"

definition register :: "string \<Rightarrow> 'p \<Rightarrow> 'p router \<Rightarrow> 'p router" where
  "register key provider r = r\<lparr>providers := AList.update key provider (providers r)\<rparr>"

definition alias_model :: "string \<Rightarrow> string \<Rightarrow> 'p router \<Rightarrow> 'p router" where
  "alias_model from_name to_name r = r\<lparr>aliases := AList.update from_name to_name (aliases r)\<rparr>"

definition add_route :: "string \<Rightarrow> route \<Rightarrow> 'p router \<Rightarrow> 'p router" where
  "add_route name rt r = r\<lparr>routes := btree_insert name rt (routes r)\<rparr>"

definition route_names :: "'p router \<Rightarrow> string list" where
  "route_names r = map fst (routes r)"

definition get_provider :: "'p router \<Rightarrow> string \<Rightarrow> (shim_error, 'p) result" where
  "get_provider r key = (case map_of (providers r) key of Some p \<Rightarrow> Inr p | None \<Rightarrow> Inl (UnknownProvider key))"

section \<open>Named routes\<close>

definition route_target :: "'p router \<Rightarrow> string \<Rightarrow> (shim_error, route option) result" where
  "route_target r model =
     (case strip_prefix model ROUTE_PREFIX of
        None \<Rightarrow> Inr None
      | Some name \<Rightarrow>
          (case map_of (routes r) name of
             None \<Rightarrow> Inl (ProviderError 400 (''unknown named route: '' @ debug_str name @ '' (configured: '' @
               debug_strs (route_names r) @ '')'') None)
           | Some rt \<Rightarrow>
               if starts_with (route_model rt) ROUTE_PREFIX
               then Inl (ProviderError 400 (''named route '' @ debug_str name @
                 '' targets another route; routes do not chain'') None)
               else Inr (Some rt)))"

text \<open>The loop over the route's settings; \<open>None\<close> is the panic of an indexed assignment.\<close>

fun apply_settings :: "(string \<times> json) list \<Rightarrow> json \<Rightarrow> json option" where
  "apply_settings [] v = Some v"
| "apply_settings ((key, x) # rest) v =
     (if key = ''model'' \<or> get v key \<noteq> None then apply_settings rest v
      else Option.bind (set_index v key x) (apply_settings rest))"

definition expand_route :: "'p router \<Rightarrow> json \<Rightarrow> (shim_error, json) result option" where
  "expand_route r request =
     (case Option.bind (get request ''model'') as_str of
        None \<Rightarrow> Some (Inr request)
      | Some model \<Rightarrow>
          (case route_target r model of
             Inl e \<Rightarrow> Some (Inl e)
           | Inr None \<Rightarrow> Some (Inr request)
           | Inr (Some rt) \<Rightarrow>
               Option.bind (apply_settings (route_settings rt) request) (\<lambda>expanded.
               map_option Inr (set_index expanded ''model'' (JString (route_model rt))))))"

section \<open>Resolution\<close>

definition provider_prefix_matches :: "string \<Rightarrow> model_info \<Rightarrow> bool" where
  "provider_prefix_matches requested m =
     (case split_once (CHR ''/'') requested of
        None \<Rightarrow> True
      | Some (pfx, _) \<Rightarrow> pfx = mi_provider m \<or>
          list_ex (\<lambda>(a, canonical). pfx = a \<and> mi_provider m = canonical) PROVIDER_ALIASES)"

definition resolve_key ::
  "(string \<Rightarrow> string option) \<Rightarrow> (string, catalog) result \<Rightarrow> 'p router \<Rightarrow> string
    \<Rightarrow> (shim_error, string \<times> string) result" where
  "resolve_key spec global r model =
     (case route_target r model of
        Inl e \<Rightarrow> Inl e
      | Inr routed \<Rightarrow>
          let model = (case routed of Some rt \<Rightarrow> route_model rt | None \<Rightarrow> model) in
          (case global of
             Inl e \<Rightarrow> Inl (ProviderError 400 (''invalid model catalog configuration: '' @ e) None)
           | Inr cat \<Rightarrow>
               let requested = (case map_of (aliases r) model of Some s \<Rightarrow> s | None \<Rightarrow> model) in
               (case resolve spec cat requested of
                  Some m \<Rightarrow>
                    if provider_prefix_matches requested m then Inr (mi_provider m, mi_name m)
                    else parse_model model (aliases r)
                | None \<Rightarrow> parse_model model (aliases r))))"

definition resolve_model ::
  "(string \<Rightarrow> string option) \<Rightarrow> (string, catalog) result \<Rightarrow> 'p router \<Rightarrow> string
    \<Rightarrow> (shim_error, 'p \<times> string) result" where
  "resolve_model spec global r model =
     (case resolve_key spec global r model of
        Inl e \<Rightarrow> Inl e
      | Inr (key, name) \<Rightarrow> (case get_provider r key of Inl e \<Rightarrow> Inl e | Inr p \<Rightarrow> Inr (p, name)))"

section \<open>Properties\<close>

lemma apply_settings_get:
  "is_object v \<Longrightarrow> \<exists>v'. apply_settings ss v = Some v' \<and> is_object v' \<and>
     (\<forall>k. get v' k = (case get v k of Some x \<Rightarrow> Some x | None \<Rightarrow> if k = ''model'' then None else map_of ss k))"
proof (induction ss arbitrary: v)
  case Nil
  then show ?case by (auto split: option.split)
next
  case (Cons s ss)
  obtain key x where s: "s = (key, x)" by (cases s)
  show ?case
  proof (cases "key = ''model'' \<or> get v key \<noteq> None")
    case True
    with Cons.IH [OF Cons.prems] s show ?thesis by (auto split: option.split)
  next
    case False
    obtain v1 where v1: "set_index v key x = Some v1" "is_object v1"
      using Cons.prems by (cases v) (auto simp: is_object_def)
    from Cons.IH [OF v1(2)] obtain v' where v': "apply_settings ss v1 = Some v'" "is_object v'"
      "\<forall>k. get v' k = (case get v1 k of Some x \<Rightarrow> Some x | None \<Rightarrow> if k = ''model'' then None else map_of ss k)" by blast
    with False s v1(1) get_set_index [OF v1(1)] show ?thesis by (auto split: option.split)
  qed
qed

lemma route_target_prefixed: "route_target r (ROUTE_PREFIX @ name) =
    (case map_of (routes r) name of
       None \<Rightarrow> Inl (ProviderError 400 (''unknown named route: '' @ debug_str name @ '' (configured: '' @
         debug_strs (route_names r) @ '')'') None)
     | Some rt \<Rightarrow>
         if starts_with (route_model rt) ROUTE_PREFIX
         then Inl (ProviderError 400 (''named route '' @ debug_str name @ '' targets another route; routes do not chain'') None)
         else Inr (Some rt))"
  by (simp add: route_target_def strip_prefix_def)

lemma route_target_unprefixed: "\<not> starts_with model ROUTE_PREFIX \<Longrightarrow> route_target r model = Inr None"
  by (simp add: route_target_def strip_prefix_def)

text \<open>Addressing a request to a named route never panics and gives the route's model and, for each other
  field, the request's own value if it sets the field (even to null) and the route's default otherwise;
  the result names no route, so expanding it again changes nothing, and an unknown name or a route to
  a route is an error and never some other model.\<close>

lemma route_expansion:
  assumes "get request ''model'' = Some (JString (ROUTE_PREFIX @ name))"
  shows "case map_of (routes r) name of
      None \<Rightarrow> \<exists>body. expand_route r request = Some (Inl (ProviderError 400 body None))
    | Some rt \<Rightarrow>
        if starts_with (route_model rt) ROUTE_PREFIX
        then \<exists>body. expand_route r request = Some (Inl (ProviderError 400 body None))
        else \<exists>v. expand_route r request = Some (Inr v) \<and> expand_route r v = Some (Inr v) \<and>
          get v ''model'' = Some (JString (route_model rt)) \<and>
          (\<forall>k. k \<noteq> ''model'' \<longrightarrow> get v k = (case get request k of Some x \<Rightarrow> Some x | None \<Rightarrow> map_of (route_settings rt) k))"
proof -
  have model: "Option.bind (get request ''model'') as_str = Some (ROUTE_PREFIX @ name)" using assms by simp
  have obj: "is_object request" using assms by (cases request) (auto simp: get_def is_object_def)
  show ?thesis
  proof (cases "\<exists>rt. map_of (routes r) name = Some rt \<and> \<not> starts_with (route_model rt) ROUTE_PREFIX")
    case True
    then obtain rt where rt: "map_of (routes r) name = Some rt" "\<not> starts_with (route_model rt) ROUTE_PREFIX" by blast
    from apply_settings_get [OF obj, of "route_settings rt"] obtain v1 where v1:
      "apply_settings (route_settings rt) request = Some v1" "is_object v1"
      "\<forall>k. get v1 k = (case get request k of Some x \<Rightarrow> Some x | None \<Rightarrow> if k = ''model'' then None else map_of (route_settings rt) k)"
      by blast
    obtain v where v: "set_index v1 ''model'' (JString (route_model rt)) = Some v"
      using v1(2) by (cases v1) (auto simp: is_object_def)
    note gets = get_set_index [OF v]
    have "expand_route r request = Some (Inr v)"
      using model rt v1(1) v by (simp add: expand_route_def route_target_prefixed)
    moreover have "expand_route r v = Some (Inr v)"
      using gets [of "''model''"] rt(2) by (simp add: expand_route_def route_target_unprefixed)
    ultimately show ?thesis using rt gets v1(3) by auto
  next
    case False
    with model show ?thesis by (auto simp: expand_route_def route_target_prefixed split: option.split)
  qed
qed

text \<open>A model string that names its provider, once aliases are applied, is never resolved to another: the
  provider is the prefix or its canonical spelling, whatever the catalog holds. And a named route
  resolves exactly as its model does.\<close>

lemma resolution_keeps_provider:
  assumes "resolve_key spec global r model = Inr (provider, name)" and "\<not> starts_with model ROUTE_PREFIX"
    and "split_once (CHR ''/'') (case map_of (aliases r) model of Some s \<Rightarrow> s | None \<Rightarrow> model) = Some (pfx, rest)"
  shows "(provider = pfx \<or> (pfx, provider) \<in> set PROVIDER_ALIASES) \<and>
    (\<forall>route_name rt. map_of (routes r) route_name = Some rt \<and> route_model rt = model \<longrightarrow>
       resolve_key spec global r (ROUTE_PREFIX @ route_name) = Inr (provider, name))"
proof -
  note direct = route_target_unprefixed [OF assms(2), of r]
  have "provider = pfx \<or> (pfx, provider) \<in> set PROVIDER_ALIASES"
    using assms(1,3) direct
    by (auto simp: resolve_key_def parse_model_def provider_prefix_matches_def list_ex_iff
        split: sum.splits option.splits if_splits)
  moreover have "resolve_key spec global r (ROUTE_PREFIX @ route_name) = resolve_key spec global r model"
    if "map_of (routes r) route_name = Some rt" "route_model rt = model" for route_name rt
    using that assms(2) direct by (simp add: resolve_key_def route_target_prefixed)
  ultimately show ?thesis using assms(1) by simp
qed

definition demo_router :: "nat router" where
  "demo_router = add_route ''fast'' \<lparr>route_model = ''google/g-1'', route_settings = [(''max_tokens'', JNumber (PosInt 9))]\<rparr>
     (register ''gemini'' 7 new_router)"

end
