(* ===== verification/Breaker.thy ===== *)
theory Breaker
  imports Errors
begin

text \<open>
  The provider circuit breaker (\<open>src/breaker.rs\<close>): the classification of failures, the
  per-target state (closed with a sliding failure window, open, half-open), and the registry
  operations \<open>should_skip\<close>, \<open>try_admit_probe\<close>, \<open>record_success\<close>, \<open>record_failure\<close>, \<open>admit\<close>
  and \<open>observe\<close>. Each operation holds the registry's mutex for its whole body, so an
  execution is a sequence of operations with the instants at which they ran.
  The fleet-wide view \<open>SharedHealth\<close> is a trait object: a record of functions on its own state.
\<close>

section \<open>Failure classification\<close>

definition UNHEALTHY_STATUSES :: "nat list" where
  "UNHEALTHY_STATUSES = [500, 502, 503, 504, 529]"

fun counts_toward_health :: "shim_error \<Rightarrow> bool" where
  "counts_toward_health (ProviderError status _ _) \<longleftrightarrow> status \<in> set UNHEALTHY_STATUSES"
| "counts_toward_health (Http _) \<longleftrightarrow> True"
| "counts_toward_health _ \<longleftrightarrow> False"

section \<open>State\<close>

record breaker_config =
  window :: duration
  trip_threshold :: nat
  cooldown :: duration

definition default_breaker_config :: breaker_config where
  "default_breaker_config =
     \<lparr>window = from_secs 60, trip_threshold = 3, cooldown = from_secs 30\<rparr>"

definition is_disabled :: "breaker_config \<Rightarrow> bool" where
  "is_disabled c \<longleftrightarrow> trip_threshold c = 0"

datatype target_state = Closed "instant list" | Open instant | HalfOpen instant

record provider_breaker =
  cfg :: breaker_config
  targets :: "string \<rightharpoonup> target_state"

definition with_config :: "breaker_config \<Rightarrow> provider_breaker" where
  "with_config c = \<lparr>cfg = c, targets = Map.empty\<rparr>"

record 's shared_health =
  sh_is_open :: "'s \<Rightarrow> string \<Rightarrow> bool \<times> 's"
  sh_try_admit_probe :: "'s \<Rightarrow> string \<Rightarrow> bool \<times> 's"
  sh_observe :: "'s \<Rightarrow> string \<Rightarrow> bool \<Rightarrow> 's"

section \<open>Operations\<close>

definition should_skip :: "provider_breaker \<Rightarrow> string \<Rightarrow> bool" where
  "should_skip b target =
     (case targets b target of
        Some (Open _) \<Rightarrow> True
      | Some (HalfOpen _) \<Rightarrow> True
      | _ \<Rightarrow> False)"

definition try_admit_probe ::
  "provider_breaker \<Rightarrow> string \<Rightarrow> instant \<Rightarrow> bool \<times> provider_breaker" where
  "try_admit_probe b target now =
     (case targets b target of
        Some (Open opened_at) \<Rightarrow>
          if saturating_duration_since now opened_at < cooldown (cfg b) then (False, b)
          else (True, b\<lparr>targets := (targets b)(target \<mapsto> HalfOpen opened_at)\<rparr>)
      | _ \<Rightarrow> (False, b))"

definition record_success :: "provider_breaker \<Rightarrow> string \<Rightarrow> provider_breaker" where
  "record_success b target = b\<lparr>targets := (targets b)(target := None)\<rparr>"

text \<open>The \<open>while\<close> loop of \<open>record_failure\<close>: expired entries leave the front of the queue.\<close>

fun pop_expired :: "duration \<Rightarrow> instant \<Rightarrow> instant list \<Rightarrow> instant list" where
  "pop_expired w now [] = []"
| "pop_expired w now (f # fs) =
     (if saturating_duration_since now f > w then pop_expired w now fs else f # fs)"

definition count_failure ::
  "breaker_config \<Rightarrow> target_state option \<Rightarrow> instant \<Rightarrow> target_state" where
  "count_failure c st now =
     (case st of
        None \<Rightarrow>
          let failures = [now] in
          if length failures \<ge> trip_threshold c then Open now else Closed failures
      | Some (Closed failures) \<Rightarrow>
          let failures = pop_expired (window c) now failures @ [now] in
          if length failures \<ge> trip_threshold c then Open now else Closed failures
      | Some (Open _) \<Rightarrow> Open now
      | Some (HalfOpen _) \<Rightarrow> Open now)"

definition record_failure ::
  "provider_breaker \<Rightarrow> string \<Rightarrow> bool \<Rightarrow> instant \<Rightarrow> provider_breaker" where
  "record_failure b target counts now =
     (if is_disabled (cfg b) then b
      else if \<not> counts then
        (case targets b target of
           Some (HalfOpen opened_at) \<Rightarrow> b\<lparr>targets := (targets b)(target \<mapsto> Open opened_at)\<rparr>
         | _ \<Rightarrow> b)
      else b\<lparr>targets :=
               (targets b)(target \<mapsto> count_failure (cfg b) (targets b target) now)\<rparr>)"

definition admit ::
  "provider_breaker \<Rightarrow> ('s shared_health \<times> 's) option \<Rightarrow> string \<Rightarrow> instant
    \<Rightarrow> bool \<times> provider_breaker \<times> 's option" where
  "admit b shared target now =
     (if is_disabled (cfg b) then (True, b, map_option snd shared)
      else if should_skip b target then
        (let (ok, b') = try_admit_probe b target now in (ok, b', map_option snd shared))
      else
        (case shared of
           None \<Rightarrow> (True, b, None)
         | Some (sh, s) \<Rightarrow>
             (let (is_open, s1) = sh_is_open sh s target in
              if \<not> is_open then (True, b, Some s1)
              else (let (ok, s2) = sh_try_admit_probe sh s1 target in (ok, b, Some s2)))))"

definition observe ::
  "provider_breaker \<Rightarrow> ('s shared_health \<times> 's) option \<Rightarrow> string \<Rightarrow> shim_error option \<Rightarrow> instant
    \<Rightarrow> provider_breaker \<times> 's option" where
  "observe b shared target failure now =
     (let b' = (case failure of
                  None \<Rightarrow> record_success b target
                | Some e \<Rightarrow> record_failure b target (counts_toward_health e) now);
          healthy = (case failure of None \<Rightarrow> True | Some e \<Rightarrow> \<not> counts_toward_health e)
      in (b', map_option (\<lambda>(sh, s). sh_observe sh s target healthy) shared))"

section \<open>Steps of the local registry\<close>

text \<open>
  One registry operation at an instant. \<open>Probe\<close> is a call of \<open>try_admit_probe\<close> and records
  whether it was granted.
\<close>

datatype breaker_event =
    Probe string bool
  | Success string
  | Failure string bool

fun event_target :: "breaker_event \<Rightarrow> string" where
  "event_target (Probe t _) = t"
| "event_target (Success t) = t"
| "event_target (Failure t _) = t"

inductive breaker_step ::
  "provider_breaker \<Rightarrow> instant \<Rightarrow> breaker_event \<Rightarrow> provider_breaker \<Rightarrow> bool" where
  probe: "try_admit_probe b t now = (ok, b') \<Longrightarrow> breaker_step b now (Probe t ok) b'"
| success: "breaker_step b now (Success t) (record_success b t)"
| failure: "breaker_step b now (Failure t counts) (record_failure b t counts now)"

inductive_simps breaker_step_Probe [simp]: "breaker_step b now (Probe t ok) b'"
inductive_simps breaker_step_Success [simp]: "breaker_step b now (Success t) b'"
inductive_simps breaker_step_Failure [simp]: "breaker_step b now (Failure t counts) b'"

inductive breaker_run ::
  "provider_breaker \<Rightarrow> (instant \<times> breaker_event) list \<Rightarrow> provider_breaker \<Rightarrow> bool" where
  run_nil: "breaker_run b [] b"
| run_cons: "breaker_step b now e b' \<Longrightarrow> breaker_run b' es b'' \<Longrightarrow>
     breaker_run b ((now, e) # es) b''"

inductive_cases breaker_run_NilE [elim!]: "breaker_run b [] b'"
inductive_cases breaker_run_ConsE [elim!]: "breaker_run b (x # es) b'"

section \<open>Frame and shape lemmas\<close>

lemma cfg_try_admit_probe [simp]: "cfg (snd (try_admit_probe b t now)) = cfg b"
  by (simp add: try_admit_probe_def split: option.splits target_state.splits)

lemma cfg_record_success [simp]: "cfg (record_success b t) = cfg b"
  by (simp add: record_success_def)

lemma cfg_record_failure [simp]: "cfg (record_failure b t c now) = cfg b"
  by (simp add: record_failure_def split: option.splits target_state.splits)

lemma cfg_step: "breaker_step b now e b' \<Longrightarrow> cfg b' = cfg b"
  by (induction rule: breaker_step.induct) (simp_all, metis cfg_try_admit_probe snd_conv)

lemma try_admit_probe_True:
  "try_admit_probe b t now = (True, b') \<longleftrightarrow>
     (\<exists>opened. targets b t = Some (Open opened) \<and> cooldown (cfg b) \<le> now - opened \<and>
           b' = b\<lparr>targets := (targets b)(t \<mapsto> HalfOpen opened)\<rparr>)"
  by (auto simp: try_admit_probe_def saturating_duration_since_def not_less
      split: option.splits target_state.splits if_splits)

lemma try_admit_probe_False:
  "try_admit_probe b t now = (False, b') \<Longrightarrow> b' = b"
  by (auto simp: try_admit_probe_def split: option.splits target_state.splits if_splits)

lemma targets_other:
  "breaker_step b now e b' \<Longrightarrow> t \<noteq> event_target e \<Longrightarrow> targets b' t = targets b t"
proof (induction rule: breaker_step.induct)
  case (probe b u now ok b')
  then show ?case
    by (cases ok) (auto simp: try_admit_probe_True dest: try_admit_probe_False)
qed (auto simp: record_success_def record_failure_def split: option.splits target_state.splits)

section \<open>The well-formedness invariant\<close>

text \<open>
  A closed target keeps fewer failures than the threshold, and at least one; its window is in
  the order in which the failures were recorded and none of them lies in the future.
\<close>

fun target_ok :: "breaker_config \<Rightarrow> instant \<Rightarrow> target_state \<Rightarrow> bool" where
  "target_ok c now (Closed fs) \<longleftrightarrow>
     fs \<noteq> [] \<and> length fs < trip_threshold c \<and> sorted fs \<and> (\<forall>f \<in> set fs. f \<le> now)"
| "target_ok c now (Open opened) \<longleftrightarrow> opened \<le> now"
| "target_ok c now (HalfOpen opened) \<longleftrightarrow> opened \<le> now"

definition breaker_ok :: "instant \<Rightarrow> provider_breaker \<Rightarrow> bool" where
  "breaker_ok now b \<longleftrightarrow> (\<forall>t st. targets b t = Some st \<longrightarrow> target_ok (cfg b) now st)"

lemma pop_expired_sorted:
  "sorted fs \<Longrightarrow> pop_expired w now fs = filter (\<lambda>f. now - f \<le> w) fs"
proof (induction fs)
  case Nil
  then show ?case by simp
next
  case (Cons f fs)
  show ?case
  proof (cases "now - f > w")
    case True
    with Cons show ?thesis by (simp add: saturating_duration_since_def)
  next
    case False
    with Cons.prems have "\<forall>g \<in> set fs. now - g \<le> w" by force
    then have "filter (\<lambda>f. now - f \<le> w) fs = fs" by (simp add: filter_id_conv)
    with False show ?thesis by (simp add: saturating_duration_since_def)
  qed
qed

lemma target_ok_mono: "target_ok c now st \<Longrightarrow> now \<le> now' \<Longrightarrow> target_ok c now' st"
  by (cases st) force+

lemma target_ok_count_failure:
  assumes "\<And>s. st = Some s \<Longrightarrow> target_ok c now s"
  shows "target_ok c now (count_failure c st now)"
proof (cases st)
  case None
  then show ?thesis by (simp add: count_failure_def Let_def)
next
  case (Some s)
  with assms show ?thesis
    by (cases s)
      (auto simp: count_failure_def Let_def pop_expired_sorted sorted_append sorted_wrt_filter)
qed

lemma breaker_ok_step:
  assumes "breaker_ok now b" and "now \<le> now'" and "breaker_step b now' e b'"
  shows "breaker_ok now' b'"
proof -
  from assms(1,2) have ok: "breaker_ok now' b"
    by (auto simp: breaker_ok_def intro: target_ok_mono)
  from assms(3) show ?thesis
  proof cases
    case (probe t ok)
    with \<open>breaker_ok now' b\<close> show ?thesis
      by (cases ok)
        (fastforce simp: try_admit_probe_True breaker_ok_def dest: try_admit_probe_False
          split: if_splits)+
  next
    case (success t)
    with ok show ?thesis by (auto simp: record_success_def breaker_ok_def split: if_splits)
  next
    case (failure t counts)
    have "target_ok (cfg b) now' (count_failure (cfg b) (targets b t) now')"
      using ok by (intro target_ok_count_failure) (simp add: breaker_ok_def)
    with failure ok show ?thesis
      by (fastforce simp: record_failure_def breaker_ok_def
          split: if_splits option.splits target_state.splits)
  qed
qed

fun ascending :: "instant \<Rightarrow> (instant \<times> 'e) list \<Rightarrow> bool" where
  "ascending now [] \<longleftrightarrow> True"
| "ascending now ((t, e) # es) \<longleftrightarrow> now \<le> t \<and> ascending t es"

fun last_instant :: "instant \<Rightarrow> (instant \<times> 'e) list \<Rightarrow> instant" where
  "last_instant now [] = now"
| "last_instant now ((t, e) # es) = last_instant t es"

lemma breaker_ok_init: "breaker_ok now (with_config c)"
  by (simp add: breaker_ok_def with_config_def)

section \<open>Runs\<close>

lemma cfg_run: "breaker_run b es b' \<Longrightarrow> cfg b' = cfg b"
  by (induction rule: breaker_run.induct) (auto dest: cfg_step)

lemma breaker_run_append:
  "breaker_run b (xs @ ys) b'' \<longleftrightarrow> (\<exists>b'. breaker_run b xs b' \<and> breaker_run b' ys b'')"
  by (induction xs arbitrary: b) (fastforce intro: breaker_run.intros)+

lemma breaker_run_snoc:
  "breaker_run b (xs @ [(now, e)]) b'' \<longleftrightarrow> (\<exists>b'. breaker_run b xs b' \<and> breaker_step b' now e b'')"
  by (auto simp: breaker_run_append intro: breaker_run.intros)

lemma ascending_append:
  "ascending now (xs @ ys) \<longleftrightarrow> ascending now xs \<and> ascending (last_instant now xs) ys"
  by (induction now xs rule: ascending.induct) auto

lemma last_instant_snoc [simp]: "last_instant now (xs @ [(m, e)]) = m"
  by (induction now xs rule: last_instant.induct) auto

lemma ascending_last: "ascending now es \<Longrightarrow> now \<le> last_instant now es"
  by (induction now es rule: ascending.induct) auto

lemma breaker_ok_run:
  "breaker_run b es b' \<Longrightarrow> breaker_ok now b \<Longrightarrow> ascending now es \<Longrightarrow> breaker_ok (last_instant now es) b'"
  by (induction arbitrary: now rule: breaker_run.induct) (auto intro: breaker_ok_step)

text \<open>A target that is not open can only become open through a counted failure.\<close>

lemma opens_only_by_failure:
  assumes "breaker_step b now e b'" and "\<not> should_skip b t" and "should_skip b' t"
  shows "e = Failure t True"
proof (cases "event_target e = t")
  case False
  with targets_other [OF assms(1)] assms(2,3) show ?thesis by (simp add: should_skip_def)
next
  case True
  with assms show ?thesis
    by (cases e; cases "targets b t")
      (auto simp: should_skip_def try_admit_probe_def record_success_def record_failure_def
        split: target_state.splits if_splits)
qed

text \<open>A half-open target grants no probe until an outcome for it is recorded.\<close>

lemma half_open_stays:
  assumes "breaker_run b es b'" and "targets b t = Some (HalfOpen opened)"
    and "\<forall>(n, e) \<in> set es. event_target e = t \<longrightarrow> (\<exists>ok. e = Probe t ok)"
  shows "targets b' t = Some (HalfOpen opened)"
  using assms
proof (induction rule: breaker_run.induct)
  case (run_cons b now e b' es b'')
  have "targets b' t = Some (HalfOpen opened)"
  proof (cases "event_target e = t")
    case True
    with run_cons.prems obtain ok where "e = Probe t ok" by auto
    with run_cons.hyps(1) run_cons.prems(1) show ?thesis
      by (auto simp: try_admit_probe_def)
  next
    case False
    with targets_other [OF run_cons.hyps(1)] run_cons.prems(1) show ?thesis by simp
  qed
  with run_cons show ?case by simp
qed simp

text \<open>While no success is recorded, an opened target stays unavailable and remembers an opening
  no earlier than the given instant.\<close>

definition opened_since :: "instant \<Rightarrow> target_state option \<Rightarrow> bool" where
  "opened_since n st \<longleftrightarrow> (\<exists>opened \<ge> n. st = Some (Open opened) \<or> st = Some (HalfOpen opened))"

lemma opened_since_step:
  assumes "breaker_step b now e b'" and "opened_since n (targets b t)" and "n \<le> now"
    and "e \<noteq> Success t"
  shows "opened_since n (targets b' t)"
proof (cases "event_target e = t")
  case True
  with assms show ?thesis
    by (cases e)
      (auto simp: opened_since_def try_admit_probe_def record_failure_def count_failure_def
        split: if_splits)
next
  case False
  with targets_other [OF assms(1)] assms(2) show ?thesis by simp
qed

lemma opened_since_run:
  assumes "breaker_run b es b'" and "opened_since n (targets b t)" and "ascending now es"
    and "n \<le> now" and "\<forall>m. (m, Success t) \<notin> set es"
  shows "opened_since n (targets b' t)"
  using assms
proof (induction arbitrary: now rule: breaker_run.induct)
  case (run_cons b m e b' es b'')
  from run_cons.prems have "opened_since n (targets b' t)"
    by (intro opened_since_step [OF run_cons.hyps(1)]) auto
  moreover have "ascending m es" "n \<le> m" "\<forall>m. (m, Success t) \<notin> set es"
    using run_cons.prems by auto
  ultimately show ?case by (rule run_cons.IH)
qed simp

section \<open>The abstract failure history\<close>

text \<open>
  The specification side of the sliding window: the instants of all counted failures of a target
  since its last success, however old they are.
\<close>

fun history_step :: "string \<Rightarrow> instant list \<Rightarrow> instant \<times> breaker_event \<Rightarrow> instant list" where
  "history_step t hist (now, e) =
     (if e = Success t then [] else if e = Failure t True then hist @ [now] else hist)"

definition failures_since_success :: "string \<Rightarrow> (instant \<times> breaker_event) list \<Rightarrow> instant list" where
  "failures_since_success t es = foldl (history_step t) [] es"

lemma failures_since_success_snoc:
  "failures_since_success t (es @ [(now, e)]) = history_step t (failures_since_success t es) (now, e)"
  by (simp add: failures_since_success_def)

definition recent :: "duration \<Rightarrow> instant \<Rightarrow> instant list \<Rightarrow> instant list" where
  "recent w now fs = filter (\<lambda>f. now - f \<le> w) fs"

lemma recent_recent: "now \<le> now' \<Longrightarrow> recent w now' (recent w now fs) = recent w now' fs"
  by (induction fs) (auto simp: recent_def)

lemma recent_append [simp]: "recent w now (xs @ ys) = recent w now xs @ recent w now ys"
  by (simp add: recent_def)

text \<open>The simulation: seen from now on, the stored window and the whole history agree.\<close>

definition window_refines :: "breaker_config \<Rightarrow> instant \<Rightarrow> target_state option \<Rightarrow> instant list \<Rightarrow> bool" where
  "window_refines c now st hist =
     (case st of
        None \<Rightarrow> hist = []
      | Some (Closed fs) \<Rightarrow> \<forall>n \<ge> now. recent (window c) n fs = recent (window c) n hist
      | _ \<Rightarrow> True)"

lemma window_refines_mono: "window_refines c now st hist \<Longrightarrow> now \<le> now' \<Longrightarrow> window_refines c now' st hist"
  by (auto simp: window_refines_def split: option.splits target_state.splits)

lemma window_refines_count:
  assumes "window_refines c now st hist" and "\<And>s. st = Some s \<Longrightarrow> target_ok c now s"
  shows "window_refines c now (Some (count_failure c st now)) (hist @ [now])"
proof (cases st)
  case None
  with assms show ?thesis by (simp add: window_refines_def count_failure_def Let_def)
next
  case (Some s)
  show ?thesis
  proof (cases s)
    case (Closed fs)
    with Some assms have "sorted fs" and eq: "\<forall>n \<ge> now. recent (window c) n fs = recent (window c) n hist"
      by (auto simp: window_refines_def)
    then have "pop_expired (window c) now fs = recent (window c) now fs"
      by (simp add: pop_expired_sorted recent_def)
    with Some Closed eq show ?thesis
      by (auto simp: window_refines_def count_failure_def Let_def recent_recent)
  qed (use Some in \<open>simp_all add: window_refines_def count_failure_def\<close>)
qed

lemma window_refines_step:
  assumes "breaker_step b now e b'" and "breaker_ok now b" and "trip_threshold (cfg b) > 0"
    and "window_refines (cfg b) now (targets b t) (failures_since_success t es)"
  shows "window_refines (cfg b) now (targets b' t) (failures_since_success t (es @ [(now, e)]))"
proof (cases "event_target e = t")
  case False
  with assms targets_other [OF assms(1)] show ?thesis
    by (auto simp: failures_since_success_snoc)
next
  case True
  have count: "window_refines (cfg b) now (Some (count_failure (cfg b) (targets b t) now))
      (failures_since_success t es @ [now])"
    using assms(2,4) by (intro window_refines_count) (auto simp: breaker_ok_def)
  show ?thesis
  proof (cases e)
    case (Failure u counts)
    with True assms count show ?thesis
      by (auto simp: failures_since_success_snoc record_failure_def is_disabled_def window_refines_def
          split: option.splits target_state.splits)
  qed (use True assms in \<open>auto simp: failures_since_success_snoc record_success_def
        window_refines_def try_admit_probe_def split: option.splits target_state.splits if_splits\<close>)
qed

lemma window_refines_run:
  assumes "breaker_run (with_config c) es b" and "ascending 0 es" and "0 < trip_threshold c"
  shows "window_refines c (last_instant 0 es) (targets b t) (failures_since_success t es)"
  using assms
proof (induction es arbitrary: b rule: rev_induct)
  case Nil
  then show ?case by (auto simp: window_refines_def with_config_def failures_since_success_def)
next
  case (snoc x es)
  obtain now e where x: "x = (now, e)" by fastforce
  with snoc.prems obtain b0 where run: "breaker_run (with_config c) es b0"
    and step: "breaker_step b0 now e b"
    by (auto simp: breaker_run_snoc)
  have asc: "ascending 0 es" "last_instant 0 es \<le> now"
    using snoc.prems(2) x by (auto simp: ascending_append)
  have cfg: "cfg b0 = c" using cfg_run [OF run] by (simp add: with_config_def)
  have ok: "breaker_ok now b0"
    using breaker_ok_run [OF run breaker_ok_init asc(1)] asc(2)
    by (auto simp: breaker_ok_def intro: target_ok_mono)
  have "window_refines c now (targets b0 t) (failures_since_success t es)"
    using snoc.IH [OF run asc(1) snoc.prems(3)] asc(2) by (rule window_refines_mono)
  with window_refines_step [OF step ok] cfg snoc.prems(3)
  have "window_refines c now (targets b t) (failures_since_success t (es @ [(now, e)]))" by simp
  then show ?case using x by (simp add: last_instant_snoc)
qed

section \<open>Outcomes of dispatches\<close>

text \<open>A sequence of dispatch outcomes observed for one target by an instance with no shared view.\<close>

fun observe_all ::
  "provider_breaker \<Rightarrow> string \<Rightarrow> (instant \<times> shim_error option) list \<Rightarrow> provider_breaker" where
  "observe_all b t [] = b"
| "observe_all b t ((now, outcome) # rest) =
     observe_all (fst (observe b (None :: (unit shared_health \<times> unit) option) t outcome now)) t rest"

definition harmless :: "shim_error option \<Rightarrow> bool" where
  "harmless outcome = (case outcome of None \<Rightarrow> True | Some e \<Rightarrow> \<not> counts_toward_health e)"

lemma observe_harmless:
  "harmless outcome \<Longrightarrow> \<not> should_skip b t \<Longrightarrow> \<not> should_skip (fst (observe b None t outcome now)) t"
  by (auto simp: harmless_def observe_def record_success_def record_failure_def should_skip_def Let_def
      split: option.splits target_state.splits)

lemma observe_all_harmless:
  "\<not> should_skip b t \<Longrightarrow> list_all (harmless \<circ> snd) outcomes \<Longrightarrow> \<not> should_skip (observe_all b t outcomes) t"
  by (induction b t outcomes rule: observe_all.induct) (simp_all add: observe_harmless)

section \<open>Properties\<close>

text \<open>C1. The circuit opens exactly at the threshold. After any run of operations from an
  empty registry at non-decreasing instants, a counted failure of a target that is still
  available makes it unavailable if and only if the counted failures recorded since the
  target's last success and no older than the window, this one included, number at least
  \<open>trip_threshold\<close>: dropping expired entries from the queue never changes the decision.\<close>

theorem circuit_opens_iff:
  assumes "breaker_run (with_config c) es b" and "ascending 0 (es @ [(now, Failure t True)])"
    and "0 < trip_threshold c" and "\<not> should_skip b t"
  shows "should_skip (record_failure b t True now) t \<longleftrightarrow>
           trip_threshold c \<le> length (recent (window c) now (failures_since_success t es)) + 1"
proof -
  have asc: "ascending 0 es" "last_instant 0 es \<le> now"
    using assms(2) by (auto simp: ascending_append)
  have cfg: "cfg b = c" using cfg_run [OF assms(1)] by (simp add: with_config_def)
  have ref: "window_refines c (last_instant 0 es) (targets b t) (failures_since_success t es)"
    by (rule window_refines_run [OF assms(1) asc(1) assms(3)])
  have ok: "breaker_ok (last_instant 0 es) b"
    by (rule breaker_ok_run [OF assms(1) breaker_ok_init asc(1)])
  show ?thesis
  proof (cases "targets b t")
    case None
    with ref assms(3) cfg show ?thesis
      by (simp add: window_refines_def recent_def record_failure_def is_disabled_def
          should_skip_def count_failure_def Let_def)
  next
    case (Some st)
    with assms(4) obtain fs where st: "st = Closed fs"
      by (cases st) (simp_all add: should_skip_def)
    from ok Some st have "sorted fs" by (fastforce simp: breaker_ok_def)
    then have "pop_expired (window c) now fs = recent (window c) now fs"
      by (simp add: pop_expired_sorted recent_def)
    also have "\<dots> = recent (window c) now (failures_since_success t es)"
      using ref Some st asc(2) by (simp add: window_refines_def)
    finally show ?thesis using Some st assms(3) cfg
      by (simp add: record_failure_def is_disabled_def should_skip_def count_failure_def Let_def)
  qed
qed

definition sample_config :: breaker_config where
  "sample_config = \<lparr>window = 60, trip_threshold = 2, cooldown = 30\<rparr>"

definition sample_open :: provider_breaker where
  "sample_open = \<lparr>cfg = sample_config, targets = [''p'' \<mapsto> Open 20]\<rparr>"

lemma sample_run:
  "breaker_run (with_config sample_config) [(10, Failure ''p'' True)]
     \<lparr>cfg = sample_config, targets = [''p'' \<mapsto> Closed [10]]\<rparr>"
  by (rule run_cons [OF failure, THEN back_subst [where P = "breaker_run _ _"]], rule run_nil)
    (simp add: record_failure_def with_config_def is_disabled_def sample_config_def
      count_failure_def)

lemma circuit_opens_iff_witness:
  "should_skip
     (record_failure \<lparr>cfg = sample_config, targets = [''p'' \<mapsto> Closed [10]]\<rparr> ''p'' True 20) ''p''"
  using circuit_opens_iff [OF sample_run, of 20 "''p''"]
  by (simp add: sample_config_def should_skip_def failures_since_success_def recent_def)



text \<open>A dead target is left alone for the cooldown. When an unavailable target fails
  again with a counted failure at \<open>n1\<close>, no probe of it is granted before \<open>n1 + cooldown\<close>
  unless a success was recorded for it in between, whatever other operations run.\<close>

lemma no_probe_before_cooldown:
  assumes "breaker_run b ((n1, Failure t True) # ys @ [(n2, Probe t True)]) b'"
    and "should_skip b t" and "\<not> is_disabled (cfg b)"
    and "ascending n1 (ys @ [(n2, Probe t True)])" and "\<forall>m. (m, Success t) \<notin> set ys"
  shows "n1 + cooldown (cfg b) \<le> n2"
proof -
  from assms(1) obtain b1 b2 where f: "breaker_step b n1 (Failure t True) b1"
    and ys: "breaker_run b1 ys b2" and p: "breaker_step b2 n2 (Probe t True) b'"
    by (auto simp: breaker_run_snoc)
  have "opened_since n1 (targets b1 t)"
    using f assms(2,3)
    by (auto simp: record_failure_def should_skip_def opened_since_def count_failure_def
        split: option.splits target_state.splits)
  with ys assms(4,5) have "opened_since n1 (targets b2 t)"
    by (intro opened_since_run [OF ys, of n1 t n1]) (auto simp: ascending_append)
  moreover have "cfg b2 = cfg b" using cfg_step [OF f] cfg_run [OF ys] by simp
  moreover have "n1 \<le> n2"
    using assms(4) ascending_last [of n1 ys] by (auto simp: ascending_append)
  ultimately show ?thesis using p by (auto simp: try_admit_probe_True opened_since_def)
qed

lemma no_probe_before_cooldown_witness: "20 + cooldown sample_config \<le> 50"
proof -
  let ?o = "\<lparr>cfg = sample_config, targets = [''p'' \<mapsto> Open 5]\<rparr>"
  let ?h = "\<lparr>cfg = sample_config, targets = [''p'' \<mapsto> HalfOpen 20]\<rparr>"
  have "breaker_step ?o 20 (Failure ''p'' True) sample_open"
    by (simp add: record_failure_def is_disabled_def count_failure_def sample_config_def
        sample_open_def)
  moreover have "breaker_step sample_open 50 (Probe ''p'' True) ?h"
    by (simp add: try_admit_probe_True sample_open_def sample_config_def)
  ultimately have "breaker_run ?o ((20, Failure ''p'' True) # [] @ [(50, Probe ''p'' True)]) ?h"
    by (auto intro!: breaker_run.intros simp del: breaker_step_Probe breaker_step_Failure)
  then show ?thesis
    using no_probe_before_cooldown [of ?o 20 "''p''" "[]" 50 ?h]
    by (simp add: should_skip_def is_disabled_def sample_config_def)
qed

text \<open>Only ill health takes a provider out. However many dispatches to an available
  target succeed or fail with errors that do not count (rate limits, client errors, missing
  models, JSON and stream errors), the target stays admitted.\<close>

lemma harmless_outcomes_keep_admitting:
  assumes "\<not> should_skip b t" and "list_all (harmless \<circ> snd) outcomes"
  shows "fst (admit (observe_all b t outcomes) None t now)"
  using observe_all_harmless [OF assms] by (simp add: admit_def)



end
