(* ===== verification/Fallback.thy ===== *)
theory Fallback
  imports Router Policy Breaker
begin

text \<open>
  Retry and fallback across models (\<open>src/fallback.rs\<close>, with \<open>breaker_outcome\<close> and \<open>observe\<close> of
  \<open>src/client.rs\<close>). One dispatch of the client, the clock and sleeping act on an arbitrary world and
  are fields of a record; their answers are unconstrained. Logging, which has no effect on the
  result, is left out. A panic is \<open>None\<close>.
\<close>

section \<open>Errors as text\<close>

fun display_error :: "shim_error \<Rightarrow> string" where
  "display_error (UnknownProvider s) = ''unknown provider in model string: '' @ s"
| "display_error MissingModel = ''missing model field in request''"
| "display_error (Http s) = ''HTTP error: '' @ s"
| "display_error (Errors.Json s) = ''JSON error: '' @ s"
| "display_error (ProviderError status body _) = ''provider error ('' @ decimal status @ ''): '' @ body"
| "display_error (Stream s) = ''stream error: '' @ s"
| "display_error (AllFailed ss) = ''all providers failed: '' @ debug_strs ss"

section \<open>Dispatch\<close>

datatype dispatch_failure =
    Upstream shim_error
  | LocalFailure shim_error
  | LocalTimeout shim_error
  | LogicalTimeout shim_error
  | PolicyRefusal attempt_policy_refusal
  | PolicyObservation policy_error_kind

type_synonym dispatch_result = "(dispatch_failure, json) result"

fun breaker_outcome :: "dispatch_result \<Rightarrow> shim_error option option" where
  "breaker_outcome (Inr _) = Some None"
| "breaker_outcome (Inl (Upstream e)) = Some (Some e)"
| "breaker_outcome (Inl _) = None"

record ('p, 'w) client =
  provider_name :: "'p \<Rightarrow> string"
  completion_dispatch :: "'p \<Rightarrow> string \<Rightarrow> json \<Rightarrow> 'w \<Rightarrow> dispatch_result \<times> 'w"
  clock :: "'w \<Rightarrow> instant"
  sleep :: "duration \<Rightarrow> 'w \<Rightarrow> 'w"

text \<open>The router's breaker with its shared store if any, and the world. \<open>calls\<close> is a ghost: the
  dispatches made, latest first, with the provider's name and the answer.\<close>

record ('s, 'w) scene =
  local_breaker :: provider_breaker
  shared_store :: "('s shared_health \<times> 's) option"
  outside :: 'w
  calls :: "(string \<times> dispatch_result) list"

definition put_shared :: "'s option \<Rightarrow> ('s shared_health \<times> 's) option \<Rightarrow> ('s shared_health \<times> 's) option" where
  "put_shared s store = (case store of Some (h, old) \<Rightarrow> Some (h, case s of Some new \<Rightarrow> new | None \<Rightarrow> old) | None \<Rightarrow> None)"

definition breaker_admit :: "('p, 'w) client \<Rightarrow> string \<Rightarrow> ('s, 'w) scene \<Rightarrow> bool \<times> ('s, 'w) scene" where
  "breaker_admit C name w =
     (case admit (local_breaker w) (shared_store w) name (clock C (outside w)) of
        (ok, b, s) \<Rightarrow> (ok, w\<lparr>local_breaker := b, shared_store := put_shared s (shared_store w)\<rparr>))"

definition client_observe :: "('p, 'w) client \<Rightarrow> string \<Rightarrow> shim_error option \<Rightarrow> ('s, 'w) scene \<Rightarrow> ('s, 'w) scene" where
  "client_observe C name failure w =
     (case observe (local_breaker w) (shared_store w) name failure (clock C (outside w)) of
        (b, s) \<Rightarrow> w\<lparr>local_breaker := b, shared_store := put_shared s (shared_store w)\<rparr>)"

definition dispatch_once ::
  "('p, 'w) client \<Rightarrow> 'p \<Rightarrow> string \<Rightarrow> json \<Rightarrow> ('s, 'w) scene \<Rightarrow> dispatch_result \<times> ('s, 'w) scene" where
  "dispatch_once C p model req w =
     (case completion_dispatch C p model req (outside w) of
        (res, out) \<Rightarrow>
          let w = w\<lparr>outside := out, calls := (provider_name C p, res) # calls w\<rparr> in
          (res, case breaker_outcome res of Some failure \<Rightarrow> client_observe C (provider_name C p) failure w | None \<Rightarrow> w))"

section \<open>Configuration\<close>

record fallback_config =
  fb_models :: "string list"
  max_retries :: nat
  initial_backoff :: duration
  retryable_statuses :: "nat list"

definition default_fallback_config :: fallback_config where
  "default_fallback_config =
     \<lparr>fb_models = [], max_retries = 2, initial_backoff = from_millis 500,
      retryable_statuses = [429, 500, 502, 503, 529]\<rparr>"

fun is_retryable :: "shim_error \<Rightarrow> nat list \<Rightarrow> bool" where
  "is_retryable (ProviderError status _ _) statuses \<longleftrightarrow> status \<in> set statuses"
| "is_retryable (Http _) statuses \<longleftrightarrow> True"
| "is_retryable _ statuses \<longleftrightarrow> False"

definition duration_max :: duration where
  "duration_max = u64_max * nanos_per_sec + (nanos_per_sec - 1)"

section \<open>The loops\<close>

text \<open>How the attempts on one model end: the call returns, or the next model is tried, with the
  provider's capacity refusal if that was the reason.\<close>

datatype model_end = Return "(shim_error, json) result" | Next "string list" "shim_error option"

text \<open>The loop over attempts; \<open>left\<close> is \<open>max_retries - attempt\<close>.\<close>

fun run_attempts ::
  "('p, 'w) client \<Rightarrow> fallback_config \<Rightarrow> string \<Rightarrow> 'p \<Rightarrow> string \<Rightarrow> json \<Rightarrow> nat \<Rightarrow> duration \<Rightarrow> string list
    \<Rightarrow> ('s, 'w) scene \<Rightarrow> (model_end \<times> ('s, 'w) scene) option" where
  "run_attempts C conf model_str p model req left backoff errors w =
     (let name = provider_name C p; (ok, w) = breaker_admit C name w in
      if \<not> ok then Some (Next (errors @ [model_str @ '': circuit open for provider '' @ name]) None, w)
      else
        let (res, w) = dispatch_once C p model req w in
        case res of
          Inr v \<Rightarrow> Some (Return (Inr v), w)
        | Inl (Upstream e) \<Rightarrow>
            (case left of
               Suc left' \<Rightarrow>
                 if is_retryable e (retryable_statuses conf) then
                   let w = w\<lparr>outside := sleep C backoff (outside w)\<rparr> in
                   if backoff * 2 \<le> duration_max
                   then run_attempts C conf model_str p model req left' (backoff * 2)
                     (errors @ [model_str @ '' (attempt '' @ decimal (max_retries conf - left + 1) @ ''): '' @ display_error e]) w
                   else None
                 else Some (Next (errors @ [model_str @ '': '' @ display_error e]) None, w)
             | 0 \<Rightarrow> Some (Next (errors @ [model_str @ '': '' @ display_error e]) None, w))
        | Inl (LocalFailure e) \<Rightarrow> Some (Next (errors @ [model_str @ '': '' @ display_error e]) None, w)
        | Inl (LocalTimeout e) \<Rightarrow>
            if is_retryable e (retryable_statuses conf)
            then Some (Next (errors @ [model_str @ '': '' @ display_error e]) None, w)
            else Some (Return (Inl e), w)
        | Inl (LogicalTimeout e) \<Rightarrow> Some (Return (Inl e), w)
        | Inl (PolicyRefusal r) \<Rightarrow>
            if refusal_kind_of r = ProviderLimit
            then Some (Next (errors @ [model_str @ '': '' @ display_error (refusal_error r)]) (Some (refusal_error r)), w)
            else Some (Return (Inl (refusal_error r)), w)
        | Inl (PolicyObservation k) \<Rightarrow> Some (Return (Inl (policy_error k)), w))"

declare run_attempts.simps [simp del]

record chain =
  errors_so_far :: "string list"
  policy_limited :: "string list"
  provider_limit_error :: "shim_error option"
  attempted_distinct :: bool

definition push_error :: "string \<Rightarrow> chain \<Rightarrow> chain" where
  "push_error e ch = ch\<lparr>errors_so_far := errors_so_far ch @ [e]\<rparr>"

text \<open>The loop over models, and what is returned when none is left.\<close>

fun run_models ::
  "('p, 'w) client \<Rightarrow> (string \<Rightarrow> string option) \<Rightarrow> (string, catalog) result \<Rightarrow> 'p router \<Rightarrow> fallback_config \<Rightarrow> json
    \<Rightarrow> string list \<Rightarrow> chain \<Rightarrow> ('s, 'w) scene \<Rightarrow> ((shim_error, json) result \<times> ('s, 'w) scene) option" where
  "run_models C spec global r conf request [] ch w =
     Some (Inl (case provider_limit_error ch of
        Some e \<Rightarrow> if attempted_distinct ch then AllFailed (errors_so_far ch) else e
      | None \<Rightarrow> AllFailed (errors_so_far ch)), w)"
| "run_models C spec global r conf request (m # ms) ch w =
     Option.bind (set_index request ''model'' (JString m)) (\<lambda>req.
     Option.bind (expand_route r req) (\<lambda>expanded.
     case expanded of
       Inl e \<Rightarrow> run_models C spec global r conf request ms (push_error (m @ '': '' @ display_error e) ch) w
     | Inr req \<Rightarrow>
         (case resolve_model spec global r m of
            Inl e \<Rightarrow> run_models C spec global r conf request ms (push_error (m @ '': '' @ display_error e) ch) w
          | Inr (p, model) \<Rightarrow>
              if provider_name C p \<in> set (policy_limited ch)
              then run_models C spec global r conf request ms
                (push_error (m @ '': skipped provider '' @ provider_name C p @ '' after attempt policy refusal'') ch) w
              else
                let ch = (if policy_limited ch \<noteq> [] then ch\<lparr>attempted_distinct := True\<rparr> else ch) in
                (case run_attempts C conf m p model req (max_retries conf) (initial_backoff conf) (errors_so_far ch) w of
                   None \<Rightarrow> None
                 | Some (Return res, w) \<Rightarrow> Some (res, w)
                 | Some (Next errs None, w) \<Rightarrow>
                     run_models C spec global r conf request ms (ch\<lparr>errors_so_far := errs\<rparr>) w
                 | Some (Next errs (Some e), w) \<Rightarrow>
                     run_models C spec global r conf request ms
                       (ch\<lparr>errors_so_far := errs, policy_limited := provider_name C p # policy_limited ch,
                          provider_limit_error := Some e, attempted_distinct := False\<rparr>) w))))"

definition first_chain :: chain where
  "first_chain = \<lparr>errors_so_far = [], policy_limited = [], provider_limit_error = None, attempted_distinct = False\<rparr>"

definition models_of :: "fallback_config \<Rightarrow> json \<Rightarrow> (shim_error, string list) result" where
  "models_of conf request =
     (if fb_models conf = [] then
        (case Option.bind (get request ''model'') as_str of Some m \<Rightarrow> Inr [m] | None \<Rightarrow> Inl MissingModel)
      else Inr (fb_models conf))"

text \<open>\<open>bound\<close> is the outcome of \<open>crate::bound_client\<close>.\<close>

definition completion_with_fallback ::
  "(shim_error, ('p, 'w) client) result \<Rightarrow> (string \<Rightarrow> string option) \<Rightarrow> (string, catalog) result \<Rightarrow> 'p router \<Rightarrow> json
    \<Rightarrow> fallback_config \<Rightarrow> ('s, 'w) scene \<Rightarrow> ((shim_error, json) result \<times> ('s, 'w) scene) option" where
  "completion_with_fallback bound spec global r request conf w =
     (case models_of conf request of
        Inl e \<Rightarrow> Some (Inl e, w)
      | Inr models \<Rightarrow>
          (case bound of
             Inl e \<Rightarrow> Some (Inl e, w)
           | Inr C \<Rightarrow> run_models C spec global r conf request models first_chain w))"

section \<open>What the calls of a run look like\<close>

fun succeeded :: "string \<times> dispatch_result \<Rightarrow> bool" where
  "succeeded (_, Inr _) \<longleftrightarrow> True"
| "succeeded (_, Inl _) \<longleftrightarrow> False"

fun limit_refused :: "string \<times> dispatch_result \<Rightarrow> bool" where
  "limit_refused (_, Inl (PolicyRefusal r)) \<longleftrightarrow> refusal_kind_of r = ProviderLimit"
| "limit_refused _ \<longleftrightarrow> False"

definition plain_failure :: "string \<times> dispatch_result \<Rightarrow> bool" where
  "plain_failure c \<longleftrightarrow> \<not> succeeded c \<and> \<not> limit_refused c"

text \<open>Latest first: no call is to a provider that an earlier call was refused for capacity.\<close>

fun no_redial :: "(string \<times> dispatch_result) list \<Rightarrow> bool" where
  "no_redial [] \<longleftrightarrow> True"
| "no_redial (c # cs) \<longleftrightarrow> no_redial cs \<and> (\<forall>d \<in> set cs. limit_refused d \<longrightarrow> fst d \<noteq> fst c)"

fun ended :: "string \<Rightarrow> model_end \<Rightarrow> (string \<times> dispatch_result) list \<Rightarrow> bool" where
  "ended name (Return (Inr v)) new \<longleftrightarrow>
     (case new of [] \<Rightarrow> False | c # cs \<Rightarrow> c = (name, Inr v) \<and> list_all plain_failure cs)"
| "ended name (Return (Inl _)) new \<longleftrightarrow> list_all plain_failure new"
| "ended name (Next _ None) new \<longleftrightarrow> list_all plain_failure new"
| "ended name (Next _ (Some _)) new \<longleftrightarrow>
     (case new of [] \<Rightarrow> False | c # cs \<Rightarrow> limit_refused c \<and> \<not> succeeded c \<and> list_all plain_failure cs)"

lemma ended_snoc:
  assumes "ended name out new" and "plain_failure c"
  shows "ended name out (new @ [c])"
  using assms by (cases "(name, out, new)" rule: ended.cases) (auto split: list.splits)

lemma breaker_admit_calls: "breaker_admit C n w = (ok, w') \<Longrightarrow> calls w' = calls w"
  by (auto simp: breaker_admit_def split: prod.splits)

lemma dispatch_once_calls:
  "dispatch_once C p model req w = (res, w') \<Longrightarrow> calls w' = (provider_name C p, res) # calls w"
  by (auto simp: dispatch_once_def client_observe_def Let_def split: prod.splits option.splits)

text \<open>One round of the attempts.\<close>

lemma run_attempts_round:
  assumes "breaker_admit C (provider_name C p) w = (ok, w1)" and "dispatch_once C p model req w1 = (res, w2)"
  shows "(\<not> ok \<and> (\<exists>errs. run_attempts C conf m p model req left backoff errors w = Some (Next errs None, w1))) \<or>
    (\<exists>out. run_attempts C conf m p model req left backoff errors w = Some (out, w2) \<and> ended (provider_name C p) out [(provider_name C p, res)]) \<or>
    (\<exists>e left'. res = Inl (Upstream e) \<and> left = Suc left' \<and>
      (\<exists>errs. run_attempts C conf m p model req left backoff errors w =
        (if backoff * 2 \<le> duration_max
         then run_attempts C conf m p model req left' (backoff * 2) errs (w2\<lparr>outside := sleep C backoff (outside w2)\<rparr>)
         else None)))"
  using assms
  by (subst (1 2 3) run_attempts.simps)
    (auto simp: plain_failure_def Let_def split: sum.split dispatch_failure.split nat.split)

lemma run_attempts_spec:
  assumes "run_attempts C conf m p model req left backoff errors w = Some (out, w')"
  shows "\<exists>new. calls w' = new @ calls w \<and> length new \<le> Suc left \<and> list_all (\<lambda>c. fst c = provider_name C p) new \<and>
    ended (provider_name C p) out new"
  using assms
proof (induction left arbitrary: backoff errors w rule: nat_less_induct)
  case (1 left)
  obtain ok w1 where adm: "breaker_admit C (provider_name C p) w = (ok, w1)" by fastforce
  obtain res w2 where dis: "dispatch_once C p model req w1 = (res, w2)" by fastforce
  have c1: "calls w1 = calls w" using breaker_admit_calls [OF adm] .
  have c2: "calls w2 = [(provider_name C p, res)] @ calls w" using dispatch_once_calls [OF dis] c1 by simp
  consider (skip) errs where "out = Next errs None" "w' = w1"
    | (one) "w' = w2" "ended (provider_name C p) out [(provider_name C p, res)]"
    | (again) e left' errs where "res = Inl (Upstream e)" "left = Suc left'"
        "run_attempts C conf m p model req left' (backoff * 2) errs (w2\<lparr>outside := sleep C backoff (outside w2)\<rparr>) = Some (out, w')"
    using run_attempts_round [OF adm dis, of conf m left backoff errors] 1(2) by (auto split: if_splits)
  then show ?case
  proof cases
    case skip
    with c1 show ?thesis by (intro exI [of _ "[]"]) simp
  next
    case one
    with c2 show ?thesis by (intro exI [of _ "[(provider_name C p, res)]"]) simp
  next
    case again
    have "left' < left" using again(2) by simp
    from 1(1) [rule_format, OF this again(3)] obtain new where new: "calls w' = new @ calls w2"
      "length new \<le> Suc left'" "list_all (\<lambda>c. fst c = provider_name C p) new" "ended (provider_name C p) out new"
      by auto
    with c2 again(1,2) ended_snoc [OF new(4), of "(provider_name C p, res)"] show ?thesis
      by (intro exI [of _ "new @ [(provider_name C p, res)]"]) (simp add: plain_failure_def)
  qed
qed

lemma run_attempts_defined:
  "backoff * 2 ^ left \<le> duration_max \<Longrightarrow> \<exists>out w'. run_attempts C conf m p model req left backoff errors w = Some (out, w')"
proof (induction left arbitrary: backoff errors w rule: nat_less_induct)
  case (1 left)
  obtain ok w1 where adm: "breaker_admit C (provider_name C p) w = (ok, w1)" by fastforce
  obtain res w2 where dis: "dispatch_once C p model req w1 = (res, w2)" by fastforce
  have next_ok: "backoff * 2 \<le> duration_max \<and> backoff * 2 * 2 ^ left' \<le> duration_max" if "left = Suc left'" for left'
  proof -
    have "backoff * 2 * 2 ^ left' \<le> duration_max" using 1(2) that by (simp add: mult.assoc)
    moreover have "backoff * 2 * 1 \<le> backoff * 2 * 2 ^ left'" by (intro mult_le_mono2) simp
    ultimately show ?thesis by linarith
  qed
  from run_attempts_round [OF adm dis, of conf m left backoff errors] 1(1) next_ok show ?case by fastforce
qed

lemma no_redial_plain:
  "no_redial old \<Longrightarrow> list_all plain_failure new \<Longrightarrow> list_all (\<lambda>c. fst c = name) new \<Longrightarrow>
   (\<forall>d \<in> set old. limit_refused d \<longrightarrow> fst d \<noteq> name) \<Longrightarrow> no_redial (new @ old)"
  by (induction new) (auto simp: plain_failure_def list_all_iff)

lemma no_redial_ended:
  assumes "no_redial old" and "ended name out new" and "list_all (\<lambda>c. fst c = name) new"
    and "\<forall>d \<in> set old. limit_refused d \<longrightarrow> fst d \<noteq> name"
  shows "no_redial (new @ old)"
proof (cases new)
  case (Cons c cs)
  have plain: "list_all plain_failure cs"
    using assms(2) Cons by (cases "(name, out, new)" rule: ended.cases) auto
  then have "no_redial (cs @ old)" using assms(1,3,4) Cons by (intro no_redial_plain) auto
  with plain assms(3,4) Cons show ?thesis by (auto simp: plain_failure_def list_all_iff)
qed (use assms(1) in simp)

text \<open>The invariant of the loop over models.\<close>

definition chain_ok :: "chain \<Rightarrow> (string \<times> dispatch_result) list \<Rightarrow> bool" where
  "chain_ok ch cs \<longleftrightarrow> no_redial cs \<and> (\<forall>c \<in> set cs. limit_refused c \<longrightarrow> fst c \<in> set (policy_limited ch)) \<and>
     \<not> list_ex succeeded cs"

definition outcome_ok :: "(shim_error, json) result \<Rightarrow> (string \<times> dispatch_result) list \<Rightarrow> bool" where
  "outcome_ok res cs \<longleftrightarrow> no_redial cs \<and>
     (case res of
        Inr v \<Rightarrow> (case cs of [] \<Rightarrow> False | c # rest \<Rightarrow> snd c = Inr v \<and> \<not> list_ex succeeded rest)
      | Inl _ \<Rightarrow> \<not> list_ex succeeded cs)"

lemma plain_not_succeeded: "list_all plain_failure cs \<Longrightarrow> \<not> list_ex succeeded cs \<and> (\<forall>c \<in> set cs. \<not> limit_refused c)"
  by (induction cs) (auto simp: plain_failure_def)

lemma chain_ok_attempts:
  assumes "chain_ok ch old" and "name \<notin> set (policy_limited ch)" and "ended name out new"
    and "list_all (\<lambda>c. fst c = name) new"
  shows "case out of
      Return res \<Rightarrow> outcome_ok res (new @ old)
    | Next _ None \<Rightarrow> chain_ok ch (new @ old)
    | Next _ (Some _) \<Rightarrow> chain_ok (ch\<lparr>policy_limited := name # policy_limited ch\<rparr>) (new @ old)"
proof -
  have redial: "no_redial (new @ old)"
    using assms by (intro no_redial_ended [of old name out]) (auto simp: chain_ok_def)
  show ?thesis
  proof (cases "(name, out, new)" rule: ended.cases)
    case (1 n v cs)
    with assms(1,3) redial show ?thesis
      using plain_not_succeeded [of "tl new"] by (auto simp: outcome_ok_def chain_ok_def split: list.splits)
  next
    case (4 n errs e cs)
    with assms(1,3,4) redial show ?thesis
      using plain_not_succeeded [of "tl new"] by (auto simp: chain_ok_def split: list.splits)
  qed (use assms(1,3) redial plain_not_succeeded [of new] in \<open>auto simp: outcome_ok_def chain_ok_def\<close>)
qed

lemma chain_ok_cong: "policy_limited ch = policy_limited ch' \<Longrightarrow> chain_ok ch cs \<Longrightarrow> chain_ok ch' cs"
  by (simp add: chain_ok_def)

text \<open>How a run goes on after the attempts on one provider.\<close>

definition goes_on ::
  "('p, 'w) client \<Rightarrow> (string \<Rightarrow> string option) \<Rightarrow> (string, catalog) result \<Rightarrow> 'p router \<Rightarrow> fallback_config \<Rightarrow> json
    \<Rightarrow> string list \<Rightarrow> chain \<Rightarrow> string \<Rightarrow> model_end \<Rightarrow> ('s, 'w) scene \<Rightarrow> (shim_error, json) result \<times> ('s, 'w) scene \<Rightarrow> bool" where
  "goes_on C spec global r conf request ms ch name out w1 final \<longleftrightarrow>
     (case out of
        Return res \<Rightarrow> final = (res, w1)
      | Next _ cap \<Rightarrow> \<exists>ch'. policy_limited ch' = (if cap = None then policy_limited ch else name # policy_limited ch) \<and>
          run_models C spec global r conf request ms ch' w1 = Some final)"

lemma policy_limited_push [simp]: "policy_limited (push_error e ch) = policy_limited ch"
  by (simp add: push_error_def)

text \<open>What happens with the first model of the list: it is passed over, or its attempts are run.\<close>

lemma run_models_cases:
  assumes "run_models C spec global r conf request (m # ms) ch w = Some final"
  shows "(\<exists>e. run_models C spec global r conf request ms (push_error e ch) w = Some final) \<or>
    (\<exists>p model req out w1 errors. provider_name C p \<notin> set (policy_limited ch) \<and>
       run_attempts C conf m p model req (max_retries conf) (initial_backoff conf) errors w = Some (out, w1) \<and>
       goes_on C spec global r conf request ms ch (provider_name C p) out w1 final)"
proof -
  obtain req expanded where "set_index request ''model'' (JString m) = Some req" "expand_route r req = Some expanded"
    using assms by (auto simp: bind_eq_Some_conv)
  note unfolded = assms [unfolded run_models.simps this Option.bind.simps]
  show ?thesis
  proof (cases "\<exists>req p model. expanded = Inr req \<and> resolve_model spec global r m = Inr (p, model) \<and>
      provider_name C p \<notin> set (policy_limited ch)")
    case False
    with unfolded have "\<exists>e. run_models C spec global r conf request ms (push_error e ch) w = Some final"
      by (auto split: sum.splits prod.splits if_splits)
    then show ?thesis by blast
  next
    case True
    then obtain req p model where tgt: "expanded = Inr req" "resolve_model spec global r m = Inr (p, model)"
      "provider_name C p \<notin> set (policy_limited ch)" by blast
    define ch1 where "ch1 = (if policy_limited ch \<noteq> [] then ch\<lparr>attempted_distinct := True\<rparr> else ch)"
    have keep: "policy_limited ch1 = policy_limited ch" by (simp add: ch1_def)
    obtain out w1 where run: "run_attempts C conf m p model req (max_retries conf) (initial_backoff conf)
        (errors_so_far ch1) w = Some (out, w1)"
      using unfolded tgt by (auto simp: Let_def ch1_def [symmetric] split: option.splits)
    have "goes_on C spec global r conf request ms ch (provider_name C p) out w1 final"
    proof (cases out)
      case (Return res)
      with unfolded tgt run show ?thesis by (simp add: goes_on_def Let_def ch1_def [symmetric])
    next
      case (Next errs cap)
      let ?ch = "case cap of None \<Rightarrow> ch1\<lparr>errors_so_far := errs\<rparr>
        | Some e \<Rightarrow> ch1\<lparr>errors_so_far := errs, policy_limited := provider_name C p # policy_limited ch1,
            provider_limit_error := Some e, attempted_distinct := False\<rparr>"
      have "run_models C spec global r conf request ms ?ch w1 = Some final"
        using unfolded tgt run Next by (simp add: Let_def ch1_def [symmetric] split: option.splits)
      moreover have "policy_limited ?ch = (if cap = None then policy_limited ch else provider_name C p # policy_limited ch)"
        using keep by (simp split: option.split)
      ultimately show ?thesis unfolding goes_on_def Next model_end.case by blast
    qed
    with run tgt(3) show ?thesis by blast
  qed
qed

lemma run_models_spec:
  assumes "run_models C spec global r conf request ms ch w = Some (res, w')" and "chain_ok ch (calls w)"
  shows "outcome_ok res (calls w') \<and> length (calls w') \<le> length (calls w) + length ms * Suc (max_retries conf)"
  using assms
proof (induction ms arbitrary: ch w)
  case Nil
  then show ?case by (auto simp: outcome_ok_def chain_ok_def)
next
  case (Cons m ms)
  from run_models_cases [OF Cons.prems(1)] consider
      (skip) e where "run_models C spec global r conf request ms (push_error e ch) w = Some (res, w')"
    | (tried) p model req out w1 errors where "provider_name C p \<notin> set (policy_limited ch)"
      "run_attempts C conf m p model req (max_retries conf) (initial_backoff conf) errors w = Some (out, w1)"
      "goes_on C spec global r conf request ms ch (provider_name C p) out w1 (res, w')" by blast
  then show ?case
  proof cases
    case skip
    from Cons.IH [OF this] Cons.prems(2) chain_ok_cong [of ch "push_error e ch"] show ?thesis by fastforce
  next
    case tried
    from run_attempts_spec [OF tried(2)] obtain new where new: "calls w1 = new @ calls w"
      "length new \<le> Suc (max_retries conf)" "list_all (\<lambda>c. fst c = provider_name C p) new"
      "ended (provider_name C p) out new" by blast
    note inv = chain_ok_attempts [OF Cons.prems(2) tried(1) new(4,3)]
    show ?thesis
    proof (cases out)
      case (Return res')
      with tried(3) inv new(1,2) show ?thesis by (simp add: goes_on_def)
    next
      case (Next errs cap)
      then obtain ch' where ch': "policy_limited ch' = (if cap = None then policy_limited ch else provider_name C p # policy_limited ch)"
        "run_models C spec global r conf request ms ch' w1 = Some (res, w')"
        using tried(3) by (auto simp: goes_on_def)
      have "chain_ok ch' (calls w1)" using inv Next ch'(1) new(1) by (cases cap) (simp_all add: chain_ok_def)
      from Cons.IH [OF ch'(2) this] new(1,2) show ?thesis by simp
    qed
  qed
qed

lemma expand_route_defined: "is_object v \<Longrightarrow> expand_route r v \<noteq> None"
proof -
  assume v: "is_object v"
  have "Option.bind (apply_settings ss v) (\<lambda>x. map_option Inr (set_index x k y)) \<noteq> None" for ss k y
    using apply_settings_get [OF v, of ss] by (auto simp: is_object_def elim!: as_object.elims)
  note settings = this
  show ?thesis
  proof (cases "\<exists>model rt. Option.bind (get v ''model'') as_str = Some model \<and> route_target r model = Inr (Some rt)")
    case True
    then obtain model rt where "Option.bind (get v ''model'') as_str = Some model" "route_target r model = Inr (Some rt)"
      by blast
    then show ?thesis using settings [of "route_settings rt"] unfolding expand_route_def by simp
  next
    case False
    then show ?thesis unfolding expand_route_def by (auto split: option.split sum.split)
  qed
qed

lemma run_models_defined:
  assumes "is_object request" and "initial_backoff conf * 2 ^ max_retries conf \<le> duration_max"
  shows "\<exists>res w'. run_models C spec global r conf request ms ch w = Some (res, w')"
proof (induction ms arbitrary: ch w)
  case (Cons m ms)
  obtain req where req: "set_index request ''model'' (JString m) = Some req" "is_object req"
    using assms(1) by (cases request) (auto simp: is_object_def)
  obtain expanded where ex: "expand_route r req = Some expanded" using expand_route_defined [OF req(2), of r] by blast
  have att: "\<exists>out w'. run_attempts C conf m p model req' (max_retries conf) (initial_backoff conf) errors w = Some (out, w')"
    for p model req' errors by (rule run_attempts_defined [OF assms(2)])
  show ?case
  proof (cases "\<exists>req p model. expanded = Inr req \<and> resolve_model spec global r m = Inr (p, model) \<and>
      provider_name C p \<notin> set (policy_limited ch)")
    case True
    then obtain req' p model where tgt: "expanded = Inr req'" "resolve_model spec global r m = Inr (p, model)"
      "provider_name C p \<notin> set (policy_limited ch)" by blast
    obtain out w1 where "run_attempts C conf m p model req' (max_retries conf) (initial_backoff conf)
        (errors_so_far (if policy_limited ch \<noteq> [] then ch\<lparr>attempted_distinct := True\<rparr> else ch)) w = Some (out, w1)"
      using att by blast
    with Cons.IH req(1) ex tgt show ?thesis by (auto simp: Let_def split: model_end.split option.split)
  next
    case False
    with Cons.IH req(1) ex show ?thesis by (auto split: sum.split prod.split)
  qed
qed simp

section \<open>Properties\<close>

text \<open>C16. Once a provider has refused an attempt for lack of capacity, no later attempt of the same call is made
  on it, by whatever model string, route or alias it is reached.\<close>

theorem limited_provider_not_redialled:
  assumes "completion_with_fallback bound spec global r request conf w = Some (res, w')" and "calls w = []"
  shows "no_redial (calls w')"
proof -
  have start: "chain_ok first_chain (calls w)" using assms(2) by (simp add: chain_ok_def)
  show ?thesis
  proof (cases "\<exists>C models. bound = Inr C \<and> models_of conf request = Inr models")
    case True
    then obtain C models where "bound = Inr C" "models_of conf request = Inr models" by blast
    then have "run_models C spec global r conf request models first_chain w = Some (res, w')"
      using assms(1) by (simp add: completion_with_fallback_def)
    from run_models_spec [OF this start] show ?thesis by (simp add: outcome_ok_def)
  next
    case False
    then have "w' = w" using assms(1) by (auto simp: completion_with_fallback_def split: sum.splits)
    with assms(2) show ?thesis by simp
  qed
qed

text \<open>C17. A call on a JSON object whose backoff doubles within range never panics, makes at most one attempt plus
  the retries for each model, and answers truthfully: a value is the answer of the last attempt, the only
  one that succeeded, and an error means that no attempt succeeded.\<close>

theorem fallback_outcome:
  assumes "is_object request" and "initial_backoff conf * 2 ^ max_retries conf \<le> duration_max"
    and "models_of conf request = Inr models" and "calls w = []"
  shows "\<exists>res w'. completion_with_fallback (Inr C) spec global r request conf w = Some (res, w') \<and>
    length (calls w') \<le> length models * Suc (max_retries conf) \<and>
    (case res of
       Inr v \<Rightarrow> \<exists>name cs. calls w' = (name, Inr v) # cs \<and> \<not> list_ex succeeded cs
     | Inl _ \<Rightarrow> \<not> list_ex succeeded (calls w'))"
proof -
  have start: "chain_ok first_chain (calls w)" using assms(4) by (simp add: chain_ok_def)
  obtain res w' where run: "run_models C spec global r conf request models first_chain w = Some (res, w')"
    using run_models_defined [OF assms(1,2)] by blast
  then have "completion_with_fallback (Inr C) spec global r request conf w = Some (res, w')"
    using assms(3) by (simp add: completion_with_fallback_def)
  with run_models_spec [OF run start] assms(4) show ?thesis
    by (auto simp: outcome_ok_def split: sum.splits list.splits)
qed

text \<open>A world in which every dispatch is refused for capacity.\<close>

definition demo_client :: "(nat, nat) client" where
  "demo_client = \<lparr>provider_name = (\<lambda>_. ''gemini''),
     completion_dispatch = (\<lambda>_ _ _ w. (Inl (PolicyRefusal \<lparr>refusal_kind_of = ProviderLimit, refusal_retry_after = None\<rparr>), w)),
     clock = id, sleep = (+)\<rparr>"

definition demo_scene :: "(unit, nat) scene" where
  "demo_scene = \<lparr>local_breaker = with_config default_breaker_config, shared_store = None, outside = 0, calls = []\<rparr>"

definition demo_chain :: fallback_config where
  "demo_chain = default_fallback_config\<lparr>fb_models := [''gemini/a'', ''gemini/b'']\<rparr>"

definition demo_request :: json where
  "demo_request = JObject [(''model'', JString ''m'')]"

theorem fallback_outcome_witness:
  "\<exists>res w'. completion_with_fallback (Inr demo_client) (\<lambda>_. None) (Inr empty_catalog) demo_router demo_request demo_chain
       demo_scene = Some (res, w') \<and> length (calls w') \<le> 2 * 3"
  using fallback_outcome [of demo_request demo_chain "[''gemini/a'', ''gemini/b'']" demo_scene demo_client "\<lambda>_. None"
      "Inr empty_catalog" demo_router]
  by (auto simp: demo_request_def demo_chain_def demo_scene_def is_object_def default_fallback_config_def models_of_def
      duration_max_def from_millis_def nanos_per_sec_def u64_max_def)

theorem limited_provider_not_redialled_witness:
  "\<exists>res w'. completion_with_fallback (Inr demo_client) (\<lambda>_. None) (Inr empty_catalog) demo_router demo_request demo_chain
       demo_scene = Some (res, w') \<and> no_redial (calls w')"
proof -
  have "initial_backoff demo_chain * 2 ^ max_retries demo_chain \<le> duration_max" "is_object demo_request"
    by (simp_all add: demo_chain_def default_fallback_config_def duration_max_def from_millis_def nanos_per_sec_def
        u64_max_def demo_request_def is_object_def)
  then obtain res w' where "run_models demo_client (\<lambda>_. None) (Inr empty_catalog) demo_router demo_chain demo_request
      [''gemini/a'', ''gemini/b''] first_chain demo_scene = Some (res, w')"
    using run_models_defined by blast
  moreover have "models_of demo_chain demo_request = Inr [''gemini/a'', ''gemini/b'']"
    by (simp add: models_of_def demo_chain_def)
  ultimately have run: "completion_with_fallback (Inr demo_client) (\<lambda>_. None) (Inr empty_catalog) demo_router
      demo_request demo_chain demo_scene = Some (res, w')"
    unfolding completion_with_fallback_def by simp
  from limited_provider_not_redialled [OF run] run show ?thesis by (simp add: demo_scene_def)
qed

end
