(* ===== verification/BoundedJson.thy ===== *)
theory BoundedJson
  imports Json
begin

text \<open>
  The bounded JSON reader of the catalog crate (\<open>bounded_json.rs\<close>): a visitor that builds a value while
  charging nodes, owned bytes and depth against limits, and the measurement of a value that is already
  built. The tokenizer underneath is a library; what it presents to the visitor is the type \<open>source\<close>: the
  tree of visitor calls for one input, with the places where the library reports a syntax error.
\<close>

section \<open>Limits and sizes\<close>

record json_limits =
  max_depth :: nat
  max_nodes :: nat
  max_owned_bytes :: nat

record json_usage =
  u_nodes :: nat
  u_bytes :: nat

definition limits_UNARY :: json_limits where
  "limits_UNARY = \<lparr>max_depth = 128, max_nodes = 65536, max_owned_bytes = 40 * 1024 * 1024\<rparr>"
definition limits_SSE :: json_limits where
  "limits_SSE = \<lparr>max_depth = 128, max_nodes = 16384, max_owned_bytes = 16 * 1024 * 1024\<rparr>"
definition limits_INBOUND :: json_limits where
  "limits_INBOUND = \<lparr>max_depth = 128, max_nodes = 32768, max_owned_bytes = 8 * 1024 * 1024\<rparr>"
definition limits_OAUTH :: json_limits where
  "limits_OAUTH = \<lparr>max_depth = 64, max_nodes = 4096, max_owned_bytes = 1024 * 1024\<rparr>"
definition limits_CATALOG :: json_limits where
  "limits_CATALOG = \<lparr>max_depth = 128, max_nodes = 262144, max_owned_bytes = 128 * 1024 * 1024\<rparr>"

datatype json_error = Malformed | Complexity

text \<open>Sizes on a 64-bit target, and the growth of a vector: \<open>try_reserve(1)\<close> on a full vector doubles it and
  allocates at least four slots. A string reserved exactly has its length as capacity.\<close>

definition size_of_value :: nat where "size_of_value = 32"
definition size_of_string :: nat where "size_of_string = 24"
definition size_of_usize :: nat where "size_of_usize = 8"

definition entry_overhead :: nat where
  "entry_overhead = size_of_string + size_of_value + 3 * size_of_usize"

definition reserve_one :: "nat \<Rightarrow> nat \<Rightarrow> nat" where
  "reserve_one capacity len = (if len < capacity then capacity else max 4 (max (2 * capacity) (len + 1)))"

section \<open>Reading\<close>

text \<open>\<open>SBad\<close> is an input whose value is not JSON, \<open>SFail\<close> one where the library fails before it asks for the
  value (a missing colon); the flag of a sequence or map tells whether it is closed.\<close>

datatype source =
    SNull
  | SBool bool
  | SU64 nat
  | SI64 int
  | SF64 f64
  | SStr string
  | SSeq "source list" bool
  | SMap "(string \<times> source) list" bool
  | SBad
  | SFail

definition charge_bytes :: "json_limits \<Rightarrow> nat \<Rightarrow> json_usage \<Rightarrow> (json_error, json_usage) result" where
  "charge_bytes lims bytes u =
     (case checked_add_usize (u_bytes u) bytes of
        None \<Rightarrow> Inl Complexity
      | Some b \<Rightarrow> if max_owned_bytes lims < b then Inl Complexity else Inr (u\<lparr>u_bytes := b\<rparr>))"

definition charge_node :: "json_limits \<Rightarrow> nat \<Rightarrow> json_usage \<Rightarrow> (json_error, json_usage) result" where
  "charge_node lims bytes u =
     (case checked_add_usize (u_nodes u) 1 of
        None \<Rightarrow> Inl Complexity
      | Some n \<Rightarrow>
          (case Option.bind (checked_add_usize (u_bytes u) size_of_value) (\<lambda>b. checked_add_usize b bytes) of
             None \<Rightarrow> Inl Complexity
           | Some b \<Rightarrow>
               if max_nodes lims < n \<or> max_owned_bytes lims < b then Inl Complexity
               else Inr \<lparr>u_nodes = n, u_bytes = b\<rparr>))"

definition then_do :: "('e, 'a) result \<Rightarrow> ('a \<Rightarrow> ('e, 'b) result) \<Rightarrow> ('e, 'b) result" where
  "then_do r f = (case r of Inl e \<Rightarrow> Inl e | Inr x \<Rightarrow> f x)"

lemma then_do_cong [fundef_cong]:
  "r = r' \<Longrightarrow> (\<And>x. r' = Inr x \<Longrightarrow> f x = f' x) \<Longrightarrow> then_do r f = then_do r' f'"
  by (simp add: then_do_def split: sum.split)

lemma then_do_simps [simp]: "then_do (Inl e) f = Inl e" "then_do (Inr x) f = f x"
  by (simp_all add: then_do_def)

lemma then_do_Inr: "then_do r f = Inr y \<longleftrightarrow> (\<exists>x. r = Inr x \<and> f x = Inr y)"
  by (cases r) simp_all

lemma then_do_Inl: "then_do r f = Inl e \<longleftrightarrow> r = Inl e \<or> (\<exists>x. r = Inr x \<and> f x = Inl e)"
  by (cases r) simp_all

definition number_of_i64 :: "int \<Rightarrow> json" where
  "number_of_i64 i = JNumber (if i < 0 then NegInt i else PosInt (nat i))"

definition grow_vec :: "json_limits \<Rightarrow> nat \<Rightarrow> nat \<Rightarrow> json_usage \<Rightarrow> (json_error, json_usage) result" where
  "grow_vec lims capacity capacity' u =
     (case checked_mul_usize (capacity' - capacity) size_of_value of
        None \<Rightarrow> Inl Complexity
      | Some bytes \<Rightarrow> charge_bytes lims bytes u)"

definition at_depth :: "json_limits \<Rightarrow> nat \<Rightarrow> (json_error, 'a) result \<Rightarrow> (json_error, 'a) result" where
  "at_depth lims depth r = (if max_depth lims < depth then Inl Complexity else r)"

fun parse_value :: "json_limits \<Rightarrow> nat \<Rightarrow> source \<Rightarrow> json_usage \<Rightarrow> (json_error, json \<times> json_usage) result"
and visit_seq :: "json_limits \<Rightarrow> nat \<Rightarrow> source list \<Rightarrow> bool \<Rightarrow> nat \<Rightarrow> json list \<Rightarrow> json_usage \<Rightarrow> (json_error, json \<times> json_usage) result"
and visit_map :: "json_limits \<Rightarrow> nat \<Rightarrow> (string \<times> source) list \<Rightarrow> bool \<Rightarrow> json_object \<Rightarrow> json_usage \<Rightarrow> (json_error, json \<times> json_usage) result"
where
  "parse_value lims depth SNull u =
     at_depth lims depth (then_do (charge_node lims 0 u) (\<lambda>u. Inr (JNull, u)))"
| "parse_value lims depth (SBool b) u =
     at_depth lims depth (then_do (charge_node lims 0 u) (\<lambda>u. Inr (JBool b, u)))"
| "parse_value lims depth (SU64 n) u =
     at_depth lims depth (then_do (charge_node lims 0 u) (\<lambda>u. Inr (JNumber (PosInt n), u)))"
| "parse_value lims depth (SI64 i) u =
     at_depth lims depth (then_do (charge_node lims 0 u) (\<lambda>u. Inr (number_of_i64 i, u)))"
| "parse_value lims depth (SF64 x) u =
     at_depth lims depth (then_do (charge_node lims 0 u)
       (\<lambda>u. if is_finite x then Inr (JNumber (Float x), u) else Inl Malformed))"
| "parse_value lims depth (SStr t) u =
     at_depth lims depth (then_do (charge_node lims (length t) u) (\<lambda>u. Inr (JString t, u)))"
| "parse_value lims depth (SSeq xs ends) u =
     at_depth lims depth (then_do (charge_node lims 0 u) (\<lambda>u. visit_seq lims depth xs ends 0 [] u))"
| "parse_value lims depth (SMap kvs ends) u =
     at_depth lims depth (then_do (charge_node lims 0 u) (\<lambda>u. visit_map lims depth kvs ends [] u))"
| "parse_value lims depth SBad u = at_depth lims depth (Inl Malformed)"
| "parse_value lims depth SFail u = Inl Malformed"
| "visit_seq lims depth [] ends capacity values u =
     then_do (grow_vec lims capacity (reserve_one capacity (length values)) u)
       (\<lambda>u. if ends then Inr (JArray values, u) else Inl Malformed)"
| "visit_seq lims depth (x # xs) ends capacity values u =
     then_do (grow_vec lims capacity (reserve_one capacity (length values)) u)
       (\<lambda>u. then_do (parse_value lims (depth + 1) x u)
         (\<lambda>(v, u). visit_seq lims depth xs ends (reserve_one capacity (length values)) (values @ [v]) u))"
| "visit_map lims depth [] ends values u = (if ends then Inr (JObject values, u) else Inl Malformed)"
| "visit_map lims depth ((k, x) # kvs) ends values u =
     (case checked_add_usize (length k) entry_overhead of
        None \<Rightarrow> Inl Complexity
      | Some bytes \<Rightarrow>
          then_do (charge_bytes lims bytes u)
            (\<lambda>u. then_do (parse_value lims (depth + 1) x u)
              (\<lambda>(v, u). visit_map lims depth kvs ends (object_insert k v values) u)))"

text \<open>One document: the value and then the end of the input.\<close>

definition parse_source :: "json_limits \<Rightarrow> source \<times> bool \<Rightarrow> (json_error, json \<times> json_usage) result" where
  "parse_source lims doc =
     then_do (parse_value lims 1 (fst doc) \<lparr>u_nodes = 0, u_bytes = 0\<rparr>)
       (\<lambda>r. if snd doc then Inr r else Inl Malformed)"

definition parse_str_with_usage :: "(string \<Rightarrow> source \<times> bool) \<Rightarrow> string \<Rightarrow> json_limits \<Rightarrow> (json_error, json \<times> json_usage) result" where
  "parse_str_with_usage read input lims = parse_source lims (read input)"

definition parse_str :: "(string \<Rightarrow> source \<times> bool) \<Rightarrow> string \<Rightarrow> json_limits \<Rightarrow> (json_error, json) result" where
  "parse_str read input lims = then_do (parse_str_with_usage read input lims) (\<lambda>(v, _). Inr v)"

section \<open>Measuring a value that is already built\<close>

fun json_nodes :: "json \<Rightarrow> nat" where
  "json_nodes (JArray vs) = Suc (sum_list (map json_nodes vs))"
| "json_nodes (JObject kvs) = Suc (sum_list (map (\<lambda>(k, v). json_nodes v) kvs))"
| "json_nodes _ = 1"

text \<open>The capacities of strings and vectors are not part of a JSON value: they are arguments. The pending work is
  a stack whose top is the head of the list.\<close>

definition remaining_nodes :: "json_limits \<Rightarrow> json_usage \<Rightarrow> nat \<Rightarrow> nat option" where
  "remaining_nodes lims u pending =
     (if u_nodes u + pending \<le> max_nodes lims then Some (max_nodes lims - u_nodes u - pending) else None)"

fun charge_members :: "(string \<Rightarrow> nat) \<Rightarrow> json_limits \<Rightarrow> json_object \<Rightarrow> nat \<Rightarrow> nat option" where
  "charge_members scap lims [] bytes = Some bytes"
| "charge_members scap lims ((k, _) # kvs) bytes =
     (case Option.bind (checked_add_usize bytes (scap k)) (\<lambda>b. checked_add_usize b entry_overhead) of
        None \<Rightarrow> None
      | Some b \<Rightarrow> if max_owned_bytes lims < b then None else charge_members scap lims kvs b)"

definition measure_body ::
  "(string \<Rightarrow> nat) \<Rightarrow> (json list \<Rightarrow> nat) \<Rightarrow> json_limits \<Rightarrow> json \<Rightarrow> nat \<Rightarrow> nat \<Rightarrow> json_usage \<Rightarrow> ((json \<times> nat) list \<times> json_usage) option" where
  "measure_body scap vcap lims v depth pending u =
     (case v of
        JString t \<Rightarrow> map_option (\<lambda>b. ([], u\<lparr>u_bytes := b\<rparr>)) (checked_add_usize (u_bytes u) (scap t))
      | JArray vs \<Rightarrow>
          (case Option.bind (checked_mul_usize (vcap vs) size_of_value) (checked_add_usize (u_bytes u)) of
             None \<Rightarrow> None
           | Some b \<Rightarrow>
               if max_owned_bytes lims < b then None
               else case remaining_nodes lims u pending of
                   None \<Rightarrow> None
                 | Some left \<Rightarrow>
                     if left < length vs then None
                     else map_option (\<lambda>d. (rev (map (\<lambda>c. (c, d)) vs), u\<lparr>u_bytes := b\<rparr>)) (checked_add_usize depth 1))
      | JObject kvs \<Rightarrow>
          (case remaining_nodes lims u pending of
             None \<Rightarrow> None
           | Some left \<Rightarrow>
               if left < length kvs then None
               else case checked_add_usize depth 1 of
                   None \<Rightarrow> None
                 | Some d \<Rightarrow>
                     map_option (\<lambda>b. (rev (map (\<lambda>(_, c). (c, d)) kvs), u\<lparr>u_bytes := b\<rparr>))
                       (charge_members scap lims kvs (u_bytes u)))
      | _ \<Rightarrow> Some ([], u))"

definition measure_node ::
  "(string \<Rightarrow> nat) \<Rightarrow> (json list \<Rightarrow> nat) \<Rightarrow> json_limits \<Rightarrow> json \<Rightarrow> nat \<Rightarrow> nat \<Rightarrow> json_usage \<Rightarrow> ((json \<times> nat) list \<times> json_usage) option" where
  "measure_node scap vcap lims v depth pending u =
     (if max_depth lims < depth then None
      else case (checked_add_usize (u_nodes u) 1, checked_add_usize (u_bytes u) size_of_value) of
          (Some n, Some b) \<Rightarrow>
            if max_nodes lims < n \<or> max_owned_bytes lims < b then None
            else (case measure_body scap vcap lims v depth pending \<lparr>u_nodes = n, u_bytes = b\<rparr> of
                None \<Rightarrow> None
              | Some (children, u) \<Rightarrow>
                  if max_nodes lims < u_nodes u \<or> max_owned_bytes lims < u_bytes u then None
                  else Some (children, u))
        | _ \<Rightarrow> None)"

lemma sum_nodes_members: "sum_list (map (json_nodes \<circ> (fst \<circ> (\<lambda>(k, c). (c, d)))) kvs) = sum_list (map (\<lambda>(k, v). json_nodes v) kvs)"
  by (induction kvs) auto

lemma sum_nodes_rev: "sum_list (map f (rev xs)) = (sum_list (map f xs) :: nat)"
  by (induction xs) simp_all

lemma measure_children:
  assumes "measure_node scap vcap lims v depth pending u = Some (children, u')"
  shows "sum_list (map (json_nodes \<circ> fst) children) < json_nodes v"
  using assms
  by (cases v) (auto simp: measure_node_def measure_body_def sum_nodes_members sum_nodes_rev comp_def case_prod_unfold
      split: option.splits if_splits)

function measure_loop ::
  "(string \<Rightarrow> nat) \<Rightarrow> (json list \<Rightarrow> nat) \<Rightarrow> json_limits \<Rightarrow> (json \<times> nat) list \<Rightarrow> json_usage \<Rightarrow> (json_error, json_usage) result" where
  "measure_loop scap vcap lims [] u = Inr u"
| "measure_loop scap vcap lims ((v, depth) # pending) u =
     (case measure_node scap vcap lims v depth (length pending) u of
        None \<Rightarrow> Inl Complexity
      | Some (children, u') \<Rightarrow> measure_loop scap vcap lims (children @ pending) u')"
  by pat_completeness auto
termination
  by (relation "measure (\<lambda>(_, _, _, pending, _). sum_list (map (json_nodes \<circ> fst) pending))")
    (auto dest: measure_children)

definition measure_value ::
  "(string \<Rightarrow> nat) \<Rightarrow> (json list \<Rightarrow> nat) \<Rightarrow> json \<Rightarrow> json_limits \<Rightarrow> (json_error, json_usage) result" where
  "measure_value scap vcap v lims = measure_loop scap vcap lims [(v, 1)] \<lparr>u_nodes = 0, u_bytes = 0\<rparr>"

section \<open>What the limits mean\<close>

text \<open>The document without limits: its value, and its depth, nodes and bytes.\<close>

fun src_value :: "source \<Rightarrow> json option"
and seq_value :: "source list \<Rightarrow> bool \<Rightarrow> json list \<Rightarrow> json option"
and map_value :: "(string \<times> source) list \<Rightarrow> bool \<Rightarrow> json_object \<Rightarrow> json option" where
  "src_value SNull = Some JNull"
| "src_value (SBool b) = Some (JBool b)"
| "src_value (SU64 n) = Some (JNumber (PosInt n))"
| "src_value (SI64 i) = Some (number_of_i64 i)"
| "src_value (SF64 x) = (if is_finite x then Some (JNumber (Float x)) else None)"
| "src_value (SStr t) = Some (JString t)"
| "src_value (SSeq xs ends) = seq_value xs ends []"
| "src_value (SMap kvs ends) = map_value kvs ends []"
| "src_value SBad = None"
| "src_value SFail = None"
| "seq_value [] ends vs = (if ends then Some (JArray vs) else None)"
| "seq_value (x # xs) ends vs = Option.bind (src_value x) (\<lambda>v. seq_value xs ends (vs @ [v]))"
| "map_value [] ends kvs = (if ends then Some (JObject kvs) else None)"
| "map_value ((k, x) # rest) ends kvs = Option.bind (src_value x) (\<lambda>v. map_value rest ends (object_insert k v kvs))"

fun grown :: "nat \<Rightarrow> nat \<Rightarrow> nat \<Rightarrow> nat" where
  "grown capacity len 0 = reserve_one capacity len"
| "grown capacity len (Suc n) = grown (reserve_one capacity len) (Suc len) n"

fun src_depth :: "source \<Rightarrow> nat" where
  "src_depth (SSeq xs _) = Suc (foldr (\<lambda>x. max (src_depth x)) xs 0)"
| "src_depth (SMap kvs _) = Suc (foldr (\<lambda>(k, x). max (src_depth x)) kvs 0)"
| "src_depth _ = 1"

fun src_nodes :: "source \<Rightarrow> nat" where
  "src_nodes (SSeq xs _) = Suc (sum_list (map src_nodes xs))"
| "src_nodes (SMap kvs _) = Suc (sum_list (map (\<lambda>(k, x). src_nodes x) kvs))"
| "src_nodes _ = 1"

fun src_bytes :: "source \<Rightarrow> nat" where
  "src_bytes (SStr t) = size_of_value + length t"
| "src_bytes (SSeq xs _) = size_of_value + grown 0 0 (length xs) * size_of_value + sum_list (map src_bytes xs)"
| "src_bytes (SMap kvs _) = size_of_value + sum_list (map (\<lambda>(k, x). length k + entry_overhead + src_bytes x) kvs)"
| "src_bytes _ = size_of_value"

definition limits_ok :: "json_limits \<Rightarrow> bool" where
  "limits_ok lims \<longleftrightarrow> max_depth lims < usize_max \<and> max_nodes lims \<le> usize_max \<and> max_owned_bytes lims \<le> usize_max"

definition in_limits :: "json_limits \<Rightarrow> json_usage \<Rightarrow> bool" where
  "in_limits lims u \<longleftrightarrow> u_nodes u \<le> max_nodes lims \<and> u_bytes u \<le> max_owned_bytes lims"

definition plus_usage :: "json_usage \<Rightarrow> nat \<Rightarrow> nat \<Rightarrow> json_usage" where
  "plus_usage u n b = \<lparr>u_nodes = u_nodes u + n, u_bytes = u_bytes u + b\<rparr>"

lemma plus_usage_simps [simp]:
  "u_nodes (plus_usage u n b) = u_nodes u + n" "u_bytes (plus_usage u n b) = u_bytes u + b"
  "plus_usage (plus_usage u n b) n' b' = plus_usage u (n + n') (b + b')" "plus_usage u 0 0 = u"
  by (simp_all add: plus_usage_def)

lemma charge_bytes_Inr:
  assumes "limits_ok lims"
  shows "charge_bytes lims b u = Inr u' \<longleftrightarrow> u' = plus_usage u 0 b \<and> u_bytes u + b \<le> max_owned_bytes lims"
  using assms by (auto simp: charge_bytes_def checked_add_usize_def limits_ok_def plus_usage_def usize_max_def)

lemma charge_node_Inr:
  assumes "limits_ok lims"
  shows "charge_node lims b u = Inr u' \<longleftrightarrow> u' = plus_usage u 1 (size_of_value + b) \<and> in_limits lims u'"
  using assms
  by (auto simp: charge_node_def checked_add_usize_def limits_ok_def plus_usage_def usize_max_def in_limits_def add.assoc)

lemma reserve_one_ge: "capacity \<le> reserve_one capacity len"
  by (auto simp: reserve_one_def)

lemma grown_ge: "reserve_one capacity len \<le> grown capacity len n"
proof (induction n arbitrary: capacity len)
  case (Suc n)
  then show ?case using reserve_one_ge order_trans by fastforce
qed simp

lemma grow_vec_Inr:
  assumes "limits_ok lims" and "in_limits lims u"
  shows "grow_vec lims c c' u = Inr u' \<longleftrightarrow> u' = plus_usage u 0 ((c' - c) * size_of_value) \<and> in_limits lims u'"
  using assms charge_bytes_Inr [OF assms(1)]
  by (auto simp: grow_vec_def checked_mul_usize_def in_limits_def limits_ok_def usize_max_def)

lemma at_depth_Inr [simp]: "at_depth lims depth r = Inr x \<longleftrightarrow> depth \<le> max_depth lims \<and> r = Inr x"
  by (auto simp: at_depth_def)

lemma foldr_max_le: "d + foldr (\<lambda>x. max (f x)) xs 0 \<le> (n :: nat) \<longleftrightarrow> d \<le> n \<and> (\<forall>x \<in> set xs. d + f x \<le> n)"
  by (induction xs) (auto simp: nat_add_max_right)

lemma foldr_max_members_le:
  "d + foldr (\<lambda>(k, x). max (f x)) kvs 0 \<le> (n :: nat) \<longleftrightarrow> d \<le> n \<and> (\<forall>x \<in> set kvs. d + f (snd x) \<le> n)"
  by (induction kvs) (auto simp: nat_add_max_right)

definition reads_as :: "json_limits \<Rightarrow> json option \<Rightarrow> bool \<Rightarrow> json_usage \<Rightarrow> (json_error, json \<times> json_usage) result \<Rightarrow> bool" where
  "reads_as lims v fits u r \<longleftrightarrow> (\<forall>w u'. r = Inr (w, u') \<longleftrightarrow> v = Some w \<and> fits \<and> u' = u \<and> in_limits lims u)"

lemma reads_leaf:
  assumes "limits_ok lims"
  shows "reads_as lims (Some w) (d \<le> max_depth lims) (plus_usage u (Suc 0) size_of_value)
      (at_depth lims d (then_do (charge_node lims 0 u) (\<lambda>u. Inr (w, u))))"
    and "reads_as lims (Some w) (d \<le> max_depth lims) (plus_usage u (Suc 0) (size_of_value + b))
      (at_depth lims d (then_do (charge_node lims b u) (\<lambda>u. Inr (w, u))))"
    and "reads_as lims None fits u' (at_depth lims d (then_do (charge_node lims b u) (\<lambda>u. Inl Malformed)))"
    and "reads_as lims None fits u' (at_depth lims d (Inl Malformed))"
    and "reads_as lims None fits u' (Inl Malformed)"
  using charge_node_Inr [OF assms] by (auto simp: reads_as_def then_do_Inr)

lemma reads_then:
  assumes "\<And>x. r = Inr x \<longleftrightarrow> x = u \<and> in_limits lims u"
    and "r = Inr u \<Longrightarrow> in_limits lims u \<Longrightarrow> reads_as lims w fits (plus_usage u n b) (f u)"
  shows "reads_as lims w fits (plus_usage u n b) (then_do r f)"
  unfolding reads_as_def
proof (intro allI)
  fix v u'
  have le: "in_limits lims (plus_usage u n b) \<Longrightarrow> in_limits lims u"
    by (simp add: in_limits_def)
  have "then_do r f = Inr (v, u') \<longleftrightarrow> in_limits lims u \<and> f u = Inr (v, u')"
    using assms(1) by (auto simp: then_do_Inr)
  with le assms show "then_do r f = Inr (v, u') \<longleftrightarrow> w = Some v \<and> fits \<and> u' = plus_usage u n b \<and> in_limits lims (plus_usage u n b)"
    by (auto simp: reads_as_def)
qed

lemma reads_node:
  assumes "limits_ok lims"
    and "\<And>x. charge_node lims 0 u = Inr x \<Longrightarrow> in_limits lims x \<Longrightarrow> reads_as lims w fits (plus_usage x n b) (f x)"
    and "fits' \<longleftrightarrow> d \<le> max_depth lims \<and> fits"
  shows "reads_as lims w fits' (plus_usage u (Suc n) (size_of_value + b)) (at_depth lims d (then_do (charge_node lims 0 u) f))"
proof -
  have "reads_as lims w fits (plus_usage (plus_usage u 1 size_of_value) n b) (then_do (charge_node lims 0 u) f)"
    by (rule reads_then) (use charge_node_Inr [OF assms(1), of 0] assms(2) in auto)
  with assms(3) show ?thesis by (auto simp: reads_as_def)
qed

lemma reads_grown:
  assumes "limits_ok lims" and "in_limits lims u"
    and "\<And>x. grow_vec lims c c' u = Inr x \<Longrightarrow> in_limits lims x \<Longrightarrow> reads_as lims v fits (plus_usage x n b) (f x)"
    and "bytes = (c' - c) * size_of_value + b"
  shows "reads_as lims v fits (plus_usage u n bytes) (then_do (grow_vec lims c c' u) f)"
proof -
  have "reads_as lims v fits (plus_usage (plus_usage u 0 ((c' - c) * size_of_value)) n b) (then_do (grow_vec lims c c' u) f)"
    by (rule reads_then) (use grow_vec_Inr [OF assms(1,2), of c c'] assms(3) in auto)
  with assms(4) show ?thesis by simp
qed

lemma reads_member:
  assumes "limits_ok lims" and "in_limits lims u"
    and "\<And>x. checked_add_usize (length k) entry_overhead = Some (length k + entry_overhead) \<Longrightarrow>
      charge_bytes lims (length k + entry_overhead) u = Inr x \<Longrightarrow> in_limits lims x \<Longrightarrow> reads_as lims v fits (plus_usage x n b) (f x)"
  shows "reads_as lims v fits (plus_usage u n (length k + entry_overhead + b))
    (case checked_add_usize (length k) entry_overhead of
       None \<Rightarrow> Inl Complexity
     | Some bytes \<Rightarrow> then_do (charge_bytes lims bytes u) f)"
proof (cases "length k + entry_overhead \<le> usize_max")
  case True
  have "reads_as lims v fits (plus_usage (plus_usage u 0 (length k + entry_overhead)) n b)
      (then_do (charge_bytes lims (length k + entry_overhead) u) f)"
    by (rule reads_then)
      (use charge_bytes_Inr [OF assms(1), of "length k + entry_overhead" u] assms(2,3) True in \<open>auto simp: in_limits_def\<close>)
  with True show ?thesis by (simp add: checked_add_usize_def)
next
  case False
  with assms(1) show ?thesis by (auto simp: reads_as_def checked_add_usize_def in_limits_def limits_ok_def)
qed

lemma reads_bind:
  assumes r: "reads_as lims v d u r"
    and f: "\<And>w. r = Inr (w, u) \<Longrightarrow> in_limits lims u \<Longrightarrow> reads_as lims (g w) fits (plus_usage u a b) (f (w, u))"
    and "fits' \<longleftrightarrow> d \<and> fits"
  shows "reads_as lims (Option.bind v g) fits' (plus_usage u a b) (then_do r f)"
  unfolding reads_as_def
proof (intro allI)
  fix w u'
  have le: "in_limits lims (plus_usage u a b) \<Longrightarrow> in_limits lims u"
    by (simp add: in_limits_def)
  have r': "r = Inr (x, y) \<longleftrightarrow> v = Some x \<and> d \<and> y = u \<and> in_limits lims u" for x y
    using r by (simp add: reads_as_def)
  show "then_do r f = Inr (w, u') \<longleftrightarrow>
      Option.bind v g = Some w \<and> fits' \<and> u' = plus_usage u a b \<and> in_limits lims (plus_usage u a b)"
  proof (cases "\<exists>x. v = Some x \<and> d \<and> in_limits lims u")
    case True
    then obtain x where "r = Inr (x, u)" "v = Some x" "d" "in_limits lims u" using r' by blast
    with f assms(3) show ?thesis by (simp add: reads_as_def)
  next
    case False
    then have "then_do r f \<noteq> Inr (w, u')" using r' by (auto simp: then_do_Inr)
    with False le assms(3) show ?thesis by (auto simp: bind_eq_Some_conv)
  qed
qed

definition fits_in :: "json_limits \<Rightarrow> nat \<Rightarrow> source \<Rightarrow> bool" where
  "fits_in lims d x \<longleftrightarrow> d + src_depth x \<le> Suc (max_depth lims)"

lemma reads_done: "in_limits lims u \<Longrightarrow> reads_as lims (if ends then Some w else None) True u (if ends then Inr (w, u) else Inl Malformed)"
  by (auto simp: reads_as_def)

lemma parse_reads:
  "limits_ok lims \<Longrightarrow> reads_as lims (src_value s) (fits_in lims d s) (plus_usage u (src_nodes s) (src_bytes s)) (parse_value lims d s u)"
  "limits_ok lims \<Longrightarrow> in_limits lims u \<Longrightarrow> reads_as lims (seq_value xs ends vs) (\<forall>x \<in> set xs. fits_in lims (Suc d) x)
      (plus_usage u (sum_list (map src_nodes xs)) ((grown c (length vs) (length xs) - c) * size_of_value + sum_list (map src_bytes xs)))
      (visit_seq lims d xs ends c vs u)"
  "limits_ok lims \<Longrightarrow> in_limits lims u \<Longrightarrow> reads_as lims (map_value kvs ends ws) (\<forall>x \<in> set kvs. fits_in lims (Suc d) (snd x))
      (plus_usage u (sum_list (map (\<lambda>(k, x). src_nodes x) kvs)) (sum_list (map (\<lambda>(k, x). length k + entry_overhead + src_bytes x) kvs)))
      (visit_map lims d kvs ends ws u)"
proof (induction lims d s u and lims d xs ends c vs u and lims d kvs ends ws u rule: parse_value_visit_seq_visit_map.induct)
  case (7 lims depth xs ends u)
  show ?case
    unfolding parse_value.simps src_value.simps src_nodes.simps src_bytes.simps add.assoc
    by (rule reads_node [OF 7(2)]) (use 7 in \<open>auto simp: fits_in_def foldr_max_le\<close>)
next
  case (8 lims depth kvs ends u)
  show ?case
    unfolding parse_value.simps src_value.simps src_nodes.simps src_bytes.simps
    by (rule reads_node [OF 8(2)]) (use 8 in \<open>auto simp: fits_in_def foldr_max_members_le\<close>)
next
  case (11 lims depth ends c vs u)
  show ?case
    unfolding visit_seq.simps seq_value.simps list.map sum_list.Nil
    by (rule reads_grown [OF 11, where b = 0]) (auto simp: reads_done)
next
  case (12 lims depth x xs ends c vs u)
  have "(grown c (length vs) (Suc (length xs)) - c) * size_of_value =
      (reserve_one c (length vs) - c) * size_of_value + (grown (reserve_one c (length vs)) (Suc (length vs)) (length xs) - reserve_one c (length vs)) * size_of_value"
    using reserve_one_ge [of c "length vs"] reserve_one_ge [of "reserve_one c (length vs)" "Suc (length vs)"]
      grown_ge [of "reserve_one c (length vs)" "Suc (length vs)" "length xs"]
    by (simp add: algebra_simps flip: distrib_right)
  then have bytes: "(grown c (length vs) (length (x # xs)) - c) * size_of_value + (src_bytes x + sum_list (map src_bytes xs)) =
      (reserve_one c (length vs) - c) * size_of_value + (src_bytes x +
        ((grown (reserve_one c (length vs)) (Suc (length vs)) (length xs) - reserve_one c (length vs)) * size_of_value + sum_list (map src_bytes xs)))"
    by simp
  show ?case
    unfolding visit_seq.simps seq_value.simps list.map sum_list.Cons
  proof (rule reads_grown [OF 12(3,4) _ bytes])
    fix y
    assume y: "grow_vec lims c (reserve_one c (length vs)) u = Inr y" "in_limits lims y"
    show "reads_as lims (Option.bind (src_value x) (\<lambda>v. seq_value xs ends (vs @ [v]))) (\<forall>x \<in> set (x # xs). fits_in lims (Suc depth) x)
      (plus_usage y (src_nodes x + sum_list (map src_nodes xs)) (src_bytes x +
        ((grown (reserve_one c (length vs)) (Suc (length vs)) (length xs) - reserve_one c (length vs)) * size_of_value + sum_list (map src_bytes xs))))
      (then_do (parse_value lims (depth + 1) x y) (\<lambda>(v, u). visit_seq lims depth xs ends (reserve_one c (length vs)) (vs @ [v]) u))"
      unfolding plus_usage_simps(3) [symmetric]
      by (rule reads_bind [OF 12(1) [OF y(1) 12(3)]]) (use 12(2) [OF y(1) _ _ 12(3)] in auto)
  qed
next
  case (14 lims depth k x kvs ends vs u)
  show ?case
    unfolding visit_map.simps map_value.simps list.map sum_list.Cons prod.case add.assoc [of "length k + entry_overhead"]
  proof (rule reads_member [OF 14(3,4)])
    fix y
    assume y: "checked_add_usize (length k) entry_overhead = Some (length k + entry_overhead)"
      "charge_bytes lims (length k + entry_overhead) u = Inr y" "in_limits lims y"
    show "reads_as lims (Option.bind (src_value x) (\<lambda>v. map_value kvs ends (object_insert k v vs))) (\<forall>x \<in> set ((k, x) # kvs). fits_in lims (Suc depth) (snd x))
      (plus_usage y (src_nodes x + sum_list (map (\<lambda>(k, x). src_nodes x) kvs))
        (src_bytes x + sum_list (map (\<lambda>(k, x). length k + entry_overhead + src_bytes x) kvs)))
      (then_do (parse_value lims (depth + 1) x y) (\<lambda>(v, u). visit_map lims depth kvs ends (object_insert k v vs) u))"
      unfolding plus_usage_simps(3) [symmetric]
      by (rule reads_bind [OF 14(1) [OF y(1,2) 14(3)]]) (use 14(2) [OF y(1,2) _ _ 14(3)] in auto)
  qed
qed (auto simp: reads_leaf fits_in_def reads_done [of _ _ True, simplified] reads_done [of _ _ False, simplified])

section \<open>The measurement of a value\<close>

fun json_depth :: "json \<Rightarrow> nat" where
  "json_depth (JArray vs) = Suc (foldr (\<lambda>x. max (json_depth x)) vs 0)"
| "json_depth (JObject kvs) = Suc (foldr (\<lambda>(k, x). max (json_depth x)) kvs 0)"
| "json_depth _ = 1"

fun json_bytes :: "(string \<Rightarrow> nat) \<Rightarrow> (json list \<Rightarrow> nat) \<Rightarrow> json \<Rightarrow> nat" where
  "json_bytes scap vcap (JString t) = size_of_value + scap t"
| "json_bytes scap vcap (JArray vs) = size_of_value + vcap vs * size_of_value + sum_list (map (json_bytes scap vcap) vs)"
| "json_bytes scap vcap (JObject kvs) =
     size_of_value + sum_list (map (\<lambda>(k, x). scap k + entry_overhead + json_bytes scap vcap x) kvs)"
| "json_bytes scap vcap _ = size_of_value"

fun own_bytes :: "(string \<Rightarrow> nat) \<Rightarrow> (json list \<Rightarrow> nat) \<Rightarrow> json \<Rightarrow> nat" where
  "own_bytes scap vcap (JString t) = scap t"
| "own_bytes scap vcap (JArray vs) = vcap vs * size_of_value"
| "own_bytes scap vcap (JObject kvs) = sum_list (map (\<lambda>(k, x). scap k + entry_overhead) kvs)"
| "own_bytes scap vcap _ = 0"

fun kids :: "nat \<Rightarrow> json \<Rightarrow> (json \<times> nat) list" where
  "kids d (JArray vs) = rev (map (\<lambda>c. (c, d)) vs)"
| "kids d (JObject kvs) = rev (map (\<lambda>(_, c). (c, d)) kvs)"
| "kids d _ = []"

lemma charge_members_Some:
  assumes "limits_ok lims" and "b \<le> max_owned_bytes lims"
  shows "charge_members scap lims kvs b = Some b' \<longleftrightarrow>
    b' = b + sum_list (map (\<lambda>(k, x). scap k + entry_overhead) kvs) \<and> b' \<le> max_owned_bytes lims"
  using assms
proof (induction scap lims kvs b rule: charge_members.induct)
  case (2 scap lims k v kvs b)
  let ?b = "b + scap k + entry_overhead"
  have step: "Option.bind (checked_add_usize b (scap k)) (\<lambda>b. checked_add_usize b entry_overhead) =
      (if ?b \<le> usize_max then Some ?b else None)"
    by (simp add: checked_add_usize_def)
  show ?case
  proof (cases "?b \<le> max_owned_bytes lims")
    case True
    then have "?b \<le> usize_max" using 2(2) by (simp add: limits_ok_def)
    with True 2 step show ?thesis by (simp add: add.assoc)
  next
    case False
    with 2(2) step show ?thesis by (auto simp: limits_ok_def)
  qed
qed auto

lemma measure_node_Some:
  assumes ok: "limits_ok lims" and "in_limits lims u"
    and r: "u' = plus_usage u 1 (size_of_value + own_bytes scap vcap v)"
  shows "measure_node scap vcap lims v d p u = Some (cs, x) \<Longrightarrow> x = u' \<and> cs = kids (Suc d) v \<and> d \<le> max_depth lims \<and> in_limits lims u'"
    and "d \<le> max_depth lims \<Longrightarrow> in_limits lims u' \<Longrightarrow> u_nodes u' + p + length (kids (Suc d) v) \<le> max_nodes lims \<Longrightarrow>
      measure_node scap vcap lims v d p u = Some (kids (Suc d) v, u')"
proof -
  have members: "charge_members scap lims kvs b = Some b' \<longleftrightarrow>
      b' = b + sum_list (map (\<lambda>(k, x). scap k + entry_overhead) kvs) \<and> b' \<le> max_owned_bytes lims"
    if "b \<le> max_owned_bytes lims" for kvs b b'
    using charge_members_Some [OF ok that] by blast
  have fits: "charge_members scap lims kvs b = Some (b + sum_list (map (\<lambda>(k, x). scap k + entry_overhead) kvs))"
    if "b + sum_list (map (\<lambda>(k, x). scap k + entry_overhead) kvs) \<le> max_owned_bytes lims" for kvs b
    using members that by simp
  show "measure_node scap vcap lims v d p u = Some (cs, x) \<Longrightarrow> x = u' \<and> cs = kids (Suc d) v \<and> d \<le> max_depth lims \<and> in_limits lims u'"
    unfolding r
    by (cases v) (auto simp: measure_node_def measure_body_def in_limits_def plus_usage_def remaining_nodes_def members bind_eq_Some_conv
        split: if_splits option.splits prod.splits)
  show "d \<le> max_depth lims \<Longrightarrow> in_limits lims u' \<Longrightarrow> u_nodes u' + p + length (kids (Suc d) v) \<le> max_nodes lims \<Longrightarrow>
      measure_node scap vcap lims v d p u = Some (kids (Suc d) v, u')"
    using ok unfolding r
    by (cases v) (auto simp: fits measure_node_def measure_body_def in_limits_def plus_usage_def remaining_nodes_def checked_add_usize_def
        checked_mul_usize_def limits_ok_def)
qed

lemma sum_plus: "sum_list (map (\<lambda>x. f x + g x) xs) = sum_list (map f xs) + (sum_list (map g xs) :: nat)"
  by (induction xs) auto

lemma kids_totals:
  "json_nodes v = Suc (sum_list (map (json_nodes \<circ> fst) (kids d v)))"
  "json_bytes scap vcap v = size_of_value + own_bytes scap vcap v + sum_list (map (json_bytes scap vcap \<circ> fst) (kids d v))"
  "d + json_depth v \<le> Suc n \<longleftrightarrow> d \<le> n \<and> (\<forall>(x, e) \<in> set (kids (Suc d) v). e + json_depth x \<le> Suc n)"
  by (cases v; auto simp: sum_nodes_rev comp_def case_prod_unfold foldr_max_le foldr_max_members_le [unfolded case_prod_unfold] sum_plus)+

lemma json_nodes_pos: "0 < json_nodes v"
  by (cases v) simp_all

lemma pending_le_nodes: "length ns \<le> sum_list (map (json_nodes \<circ> fst) ns)"
proof (induction ns)
  case (Cons x ns)
  then show ?case using json_nodes_pos [of "fst x"] by simp
qed simp

lemma measure_loop_exact:
  assumes "limits_ok lims" and "in_limits lims u"
  shows "measure_loop scap vcap lims ns u =
    (let total = plus_usage u (sum_list (map (json_nodes \<circ> fst) ns)) (sum_list (map (json_bytes scap vcap \<circ> fst) ns))
     in if (\<forall>(v, d) \<in> set ns. d + json_depth v \<le> Suc (max_depth lims)) \<and> in_limits lims total then Inr total else Inl Complexity)"
  using assms
proof (induction scap vcap lims ns u rule: measure_loop.induct)
  case (2 scap vcap lims v d ns u)
  let ?u = "plus_usage u 1 (size_of_value + own_bytes scap vcap v)"
  let ?all = "kids (Suc d) v @ ns"
  let ?fits = "\<lambda>ns. \<forall>(v, d) \<in> set ns. d + json_depth v \<le> Suc (max_depth lims)"
  define whole where "whole = plus_usage u (sum_list (map (json_nodes \<circ> fst) ((v, d) # ns))) (sum_list (map (json_bytes scap vcap \<circ> fst) ((v, d) # ns)))"
  have whole: "plus_usage ?u (sum_list (map (json_nodes \<circ> fst) ?all)) (sum_list (map (json_bytes scap vcap \<circ> fst) ?all)) = whole"
    using kids_totals(1) [of v "Suc d"] kids_totals(2) [of scap vcap v "Suc d"] by (simp add: whole_def algebra_simps)
  have fits: "?fits ((v, d) # ns) \<longleftrightarrow> d \<le> max_depth lims \<and> ?fits ?all"
    using kids_totals(3) [of d v "max_depth lims"] by auto
  have limits: "in_limits lims whole \<Longrightarrow> in_limits lims ?u"
    by (simp flip: whole add: in_limits_def)
  have room: "u_nodes ?u + length ns + length (kids (Suc d) v) \<le> max_nodes lims" if "in_limits lims whole"
  proof -
    have "u_nodes ?u + sum_list (map (json_nodes \<circ> fst) ?all) \<le> max_nodes lims"
      using that by (simp flip: whole add: in_limits_def)
    then show ?thesis using pending_le_nodes [of ?all] by simp
  qed
  show ?case
  proof (cases "measure_node scap vcap lims v d (length ns) u")
    case None
    then have "\<not> (d \<le> max_depth lims \<and> in_limits lims whole)"
      using measure_node_Some(2) [OF 2(2,3) refl, where d = d and p = "length ns" and scap = scap and vcap = vcap and v = v] limits room by auto
    with None fits show ?thesis unfolding whole_def [symmetric] Let_def by simp
  next
    case (Some r)
    obtain cs x where r: "r = (cs, x)" by (cases r)
    with Some have node: "measure_node scap vcap lims v d (length ns) u = Some (cs, x)" by simp
    have eq: "x = ?u" "cs = kids (Suc d) v" "d \<le> max_depth lims" "in_limits lims x"
      using measure_node_Some(1) [OF 2(2,3) refl node] by simp_all
    have "measure_loop scap vcap lims ?all ?u = (if ?fits ?all \<and> in_limits lims whole then Inr whole else Inl Complexity)"
      using 2(1) [OF Some r [symmetric] 2(2)] eq whole by (simp only: Let_def)
    with Some r eq fits show ?thesis unfolding whole_def [symmetric] Let_def by simp
  qed
qed (simp add: Let_def)

lemma measure_value_exact:
  assumes "limits_ok lims"
  shows "measure_value scap vcap v lims =
    (if json_depth v \<le> max_depth lims \<and> in_limits lims \<lparr>u_nodes = json_nodes v, u_bytes = json_bytes scap vcap v\<rparr>
     then Inr \<lparr>u_nodes = json_nodes v, u_bytes = json_bytes scap vcap v\<rparr> else Inl Complexity)"
  using measure_loop_exact [OF assms, of "\<lparr>u_nodes = 0, u_bytes = 0\<rparr>" scap vcap "[(v, 1)]"]
  by (simp add: measure_value_def Let_def in_limits_def plus_usage_def)

section \<open>Reading and measuring agree\<close>

definition parsed_capacity :: "json list \<Rightarrow> nat" where
  "parsed_capacity vs = grown 0 0 (length vs)"

fun no_duplicates :: "source \<Rightarrow> bool" where
  "no_duplicates (SSeq xs _) \<longleftrightarrow> list_all no_duplicates xs"
| "no_duplicates (SMap kvs _) \<longleftrightarrow> distinct (map fst kvs) \<and> list_all (\<lambda>(k, x). no_duplicates x) kvs"
| "no_duplicates _ \<longleftrightarrow> True"

lemma sum_object_insert_le: "sum_list (map f (object_insert k v kvs)) \<le> f (k, v) + (sum_list (map f kvs) :: nat)"
  by (induction k v kvs rule: object_insert.induct) auto

lemma sum_object_insert_new: "k \<notin> set (map fst kvs) \<Longrightarrow> sum_list (map f (object_insert k v kvs)) = f (k, v) + (sum_list (map f kvs) :: nat)"
  by (induction k v kvs rule: object_insert.induct) auto

lemma depth_object_insert_le:
  "foldr (\<lambda>(k, x). max (f x)) (object_insert k v kvs) 0 \<le> max (f v) (foldr (\<lambda>(k, x). max (f x)) kvs (0 :: nat))"
  by (induction k v kvs rule: object_insert.induct) auto

abbreviation parsed_bytes :: "json \<Rightarrow> nat" where
  "parsed_bytes \<equiv> json_bytes length parsed_capacity"

lemma parsed_le:
  "src_value s = Some v \<Longrightarrow> json_nodes v \<le> src_nodes s \<and> parsed_bytes v \<le> src_bytes s \<and> json_depth v \<le> src_depth s"
  "seq_value xs ends vs = Some v \<Longrightarrow> \<exists>ws. v = JArray (vs @ ws) \<and> length ws = length xs \<and>
     sum_list (map json_nodes ws) \<le> sum_list (map src_nodes xs) \<and> sum_list (map parsed_bytes ws) \<le> sum_list (map src_bytes xs) \<and>
     foldr (\<lambda>x. max (json_depth x)) ws 0 \<le> foldr (\<lambda>x. max (src_depth x)) xs 0"
  "map_value kvs ends ws = Some v \<Longrightarrow> \<exists>us. v = JObject us \<and>
     sum_list (map (\<lambda>(k, x). json_nodes x) us) \<le> sum_list (map (\<lambda>(k, x). json_nodes x) ws) + sum_list (map (\<lambda>(k, x). src_nodes x) kvs) \<and>
     sum_list (map (\<lambda>(k, x). length k + entry_overhead + parsed_bytes x) us) \<le>
       sum_list (map (\<lambda>(k, x). length k + entry_overhead + parsed_bytes x) ws) + sum_list (map (\<lambda>(k, x). length k + entry_overhead + src_bytes x) kvs) \<and>
     foldr (\<lambda>(k, x). max (json_depth x)) us 0 \<le> max (foldr (\<lambda>(k, x). max (json_depth x)) ws 0) (foldr (\<lambda>(k, x). max (src_depth x)) kvs 0)"
proof (induction s and xs ends vs and kvs ends ws arbitrary: v and v and v rule: src_value_seq_value_map_value.induct)
  case (12 x xs ends vs)
  then obtain y where y: "src_value x = Some y" "seq_value xs ends (vs @ [y]) = Some v" by (auto simp: bind_eq_Some_conv)
  from 12(2) [OF y] obtain ws where "v = JArray (vs @ y # ws)" "length ws = length xs"
     "sum_list (map json_nodes ws) \<le> sum_list (map src_nodes xs)" "sum_list (map parsed_bytes ws) \<le> sum_list (map src_bytes xs)"
     "foldr (\<lambda>x. max (json_depth x)) ws 0 \<le> foldr (\<lambda>x. max (src_depth x)) xs 0"
    by auto
  with 12(1) [OF y(1)] show ?case by (intro exI [of _ "y # ws"]) auto
next
  case (14 k x rest ends kvs)
  then obtain y where y: "src_value x = Some y" "map_value rest ends (object_insert k y kvs) = Some v" by (auto simp: bind_eq_Some_conv)
  from 14(2) [OF y] 14(1) [OF y(1)]
    sum_object_insert_le [of "\<lambda>(k, x). json_nodes x" k y kvs] depth_object_insert_le [of json_depth k y kvs]
    sum_object_insert_le [of "\<lambda>(k, x). length k + entry_overhead + parsed_bytes x" k y kvs]
  show ?case by fastforce
next
  case (7 xs ends)
  then have "seq_value xs ends [] = Some v" by simp
  from 7(1) [OF this] show ?case by (force simp: parsed_capacity_def)
next
  case (8 kvs ends)
  then have "map_value kvs ends [] = Some v" by simp
  from 8(1) [OF this] show ?case by force
qed (auto simp: number_of_i64_def split: if_splits)

lemma parsed_eq:
  "src_value s = Some v \<Longrightarrow> no_duplicates s \<Longrightarrow> json_nodes v = src_nodes s \<and> parsed_bytes v = src_bytes s"
  "seq_value xs ends vs = Some v \<Longrightarrow> list_all no_duplicates xs \<Longrightarrow> \<exists>ws. v = JArray (vs @ ws) \<and> length ws = length xs \<and>
     sum_list (map json_nodes ws) = sum_list (map src_nodes xs) \<and> sum_list (map parsed_bytes ws) = sum_list (map src_bytes xs)"
  "map_value kvs ends ws = Some v \<Longrightarrow> distinct (map fst kvs) \<Longrightarrow> list_all (\<lambda>(k, x). no_duplicates x) kvs \<Longrightarrow> set (map fst kvs) \<inter> set (map fst ws) = {} \<Longrightarrow>
    \<exists>us. v = JObject us \<and>
     sum_list (map (\<lambda>(k, x). json_nodes x) us) = sum_list (map (\<lambda>(k, x). json_nodes x) ws) + sum_list (map (\<lambda>(k, x). src_nodes x) kvs) \<and>
     sum_list (map (\<lambda>(k, x). length k + entry_overhead + parsed_bytes x) us) =
       sum_list (map (\<lambda>(k, x). length k + entry_overhead + parsed_bytes x) ws) + sum_list (map (\<lambda>(k, x). length k + entry_overhead + src_bytes x) kvs)"
proof (induction s and xs ends vs and kvs ends ws arbitrary: v and v and v rule: src_value_seq_value_map_value.induct)
  case (12 x xs ends vs)
  then obtain y where y: "src_value x = Some y" "seq_value xs ends (vs @ [y]) = Some v" by (auto simp: bind_eq_Some_conv)
  from 12(2) [OF y] 12(4) obtain ws where "v = JArray (vs @ y # ws)" "length ws = length xs"
     "sum_list (map json_nodes ws) = sum_list (map src_nodes xs)" "sum_list (map parsed_bytes ws) = sum_list (map src_bytes xs)"
    by auto
  with 12(1) [OF y(1)] 12(4) show ?case by (intro exI [of _ "y # ws"]) auto
next
  case (14 k x rest ends kvs)
  then obtain y where y: "src_value x = Some y" "map_value rest ends (object_insert k y kvs) = Some v" by (auto simp: bind_eq_Some_conv)
  have new: "k \<notin> set (map fst kvs)" and rest: "set (map fst rest) \<inter> set (map fst (object_insert k y kvs)) = {}"
    using 14(4,6) unfolding keys_object_insert by auto
  from 14(2) [OF y _ _ rest] 14(1) [OF y(1)] 14(4,5)
    sum_object_insert_new [OF new, of "\<lambda>(k, x). json_nodes x" y]
    sum_object_insert_new [OF new, of "\<lambda>(k, x). length k + entry_overhead + parsed_bytes x" y]
  show ?case by fastforce
next
  case (7 xs ends)
  then have "seq_value xs ends [] = Some v" "list_all no_duplicates xs" by simp_all
  from 7(1) [OF this] show ?case by (force simp: parsed_capacity_def)
next
  case (8 kvs ends)
  then have "map_value kvs ends [] = Some v" "distinct (map fst kvs)" "list_all (\<lambda>(k, x). no_duplicates x) kvs" by simp_all
  from 8(1) [OF this] show ?case by force
qed (auto simp: number_of_i64_def split: if_splits)

text \<open>What the library promises of its numbers.\<close>

fun tokens_in_range :: "source \<Rightarrow> bool" where
  "tokens_in_range (SU64 n) \<longleftrightarrow> n \<le> u64_max"
| "tokens_in_range (SI64 i) \<longleftrightarrow> - (2 ^ 63) \<le> i \<and> i < 2 ^ 63"
| "tokens_in_range (SSeq xs _) \<longleftrightarrow> list_all tokens_in_range xs"
| "tokens_in_range (SMap kvs _) \<longleftrightarrow> list_all (\<lambda>(k, x). tokens_in_range x) kvs"
| "tokens_in_range _ \<longleftrightarrow> True"

lemma wf_object_insert: "wf_json (JObject kvs) \<Longrightarrow> wf_json x \<Longrightarrow> wf_json (JObject (object_insert k x kvs))"
  using wf_json_set_index [of "JObject kvs" x k] by simp

lemma read_well_formed:
  "src_value s = Some v \<Longrightarrow> tokens_in_range s \<Longrightarrow> wf_json v"
  "seq_value xs ends vs = Some v \<Longrightarrow> list_all tokens_in_range xs \<Longrightarrow> list_all wf_json vs \<Longrightarrow> wf_json v"
  "map_value kvs ends ws = Some v \<Longrightarrow> list_all (\<lambda>(k, x). tokens_in_range x) kvs \<Longrightarrow> wf_json (JObject ws) \<Longrightarrow> wf_json v"
proof (induction s and xs ends vs and kvs ends ws arbitrary: v and v and v rule: src_value_seq_value_map_value.induct)
  case (14 k x rest ends kvs)
  then obtain y where y: "src_value x = Some y" "map_value rest ends (object_insert k y kvs) = Some v" by (auto simp: bind_eq_Some_conv)
  from 14(2) [OF y _ wf_object_insert [OF 14(5) 14(1) [OF y(1)]]] 14(4) show ?case by simp
qed (auto simp: number_of_i64_def bind_eq_Some_conv u64_max_def split: if_splits)

lemma parse_source_Inr:
  assumes "limits_ok lims"
  shows "parse_source lims (s, ends) = Inr (v, u) \<longleftrightarrow>
    src_value s = Some v \<and> ends \<and> src_depth s \<le> max_depth lims \<and> u = \<lparr>u_nodes = src_nodes s, u_bytes = src_bytes s\<rparr> \<and> in_limits lims u"
  using parse_reads(1) [OF assms, of s 1 "\<lparr>u_nodes = 0, u_bytes = 0\<rparr>"]
  by (auto simp: parse_source_def then_do_Inr reads_as_def fits_in_def plus_usage_def split: if_splits)

lemma parse_str_Inr:
  "parse_str read input lims = Inr v \<longleftrightarrow> (\<exists>u. parse_source lims (read input) = Inr (v, u))"
  by (auto simp: parse_str_def parse_str_with_usage_def then_do_Inr)

lemma parse_str_reads: "limits_ok lims \<Longrightarrow> parse_str read input lims = Inr v \<Longrightarrow> src_value (fst (read input)) = Some v"
  using parse_source_Inr [of lims "fst (read input)" "snd (read input)"] by (auto simp: parse_str_Inr)

section \<open>Properties\<close>

text \<open>C24. The bounded reader accepts an input exactly when it is one complete JSON value within the limits: nested no
  deeper than allowed, with no more nodes and no more owned bytes. It then returns that value (the last member of
  a repeated key) and reports its true size; in every other case it fails.\<close>

theorem bounded_parse_exact:
  assumes "limits_ok lims" and "read input = (s, ends)"
  shows "parse_str_with_usage read input lims = Inr (v, u) \<longleftrightarrow>
    src_value s = Some v \<and> ends \<and> src_depth s \<le> max_depth lims \<and> src_nodes s \<le> max_nodes lims \<and>
    src_bytes s \<le> max_owned_bytes lims \<and> u = \<lparr>u_nodes = src_nodes s, u_bytes = src_bytes s\<rparr>"
  using parse_source_Inr [OF assms(1), of s ends v u] assms(2) by (auto simp: parse_str_with_usage_def in_limits_def)

definition demo_read :: "string \<Rightarrow> source \<times> bool" where
  "demo_read input =
     (if input = ''[0,1]'' then (SSeq [SU64 0, SU64 1] True, True)
      else if input = ''{'' then (SMap [] False, True) else (SStr input, True))"

theorem bounded_parse_exact_witness:
  "parse_str_with_usage demo_read ''[0,1]'' \<lparr>max_depth = 8, max_nodes = 3, max_owned_bytes = 224\<rparr> =
     Inr (JArray [JNumber (PosInt 0), JNumber (PosInt 1)], \<lparr>u_nodes = 3, u_bytes = 224\<rparr>)"
  using bounded_parse_exact [of "\<lparr>max_depth = 8, max_nodes = 3, max_owned_bytes = 224\<rparr>" demo_read "''[0,1]''"
      "SSeq [SU64 0, SU64 1] True" True "JArray [JNumber (PosInt 0), JNumber (PosInt 1)]" "\<lparr>u_nodes = 3, u_bytes = 224\<rparr>"]
  by (simp add: demo_read_def limits_ok_def usize_max_def size_of_value_def reserve_one_def)



text \<open>Measuring a value after the fact agrees with what was charged while reading it: the value of an accepted input is
  accepted by the measurement under the same limits, with at most the usage that was charged, and exactly that
  usage when no object of the input repeats a key.\<close>

lemma measured_as_parsed:
  assumes "limits_ok lims" and "parse_str_with_usage read input lims = Inr (v, u)"
  shows "\<exists>m. measure_value length parsed_capacity v lims = Inr m \<and> u_nodes m \<le> u_nodes u \<and> u_bytes m \<le> u_bytes u \<and>
    (no_duplicates (fst (read input)) \<longrightarrow> m = u)"
proof -
  let ?m = "\<lparr>u_nodes = json_nodes v, u_bytes = parsed_bytes v\<rparr>"
  from assms(2) have read: "src_value (fst (read input)) = Some v" "src_depth (fst (read input)) \<le> max_depth lims" "in_limits lims u"
    "u = \<lparr>u_nodes = src_nodes (fst (read input)), u_bytes = src_bytes (fst (read input))\<rparr>"
    using parse_source_Inr [OF assms(1), of "fst (read input)" "snd (read input)" v u] by (auto simp: parse_str_with_usage_def)
  from parsed_le(1) [OF read(1)] read have "measure_value length parsed_capacity v lims = Inr ?m"
    by (auto simp: measure_value_exact [OF assms(1)] in_limits_def)
  with parsed_le(1) [OF read(1)] parsed_eq(1) [OF read(1)] read(4) show ?thesis by (intro exI [of _ ?m]) auto
qed

end
