(* ===== verification/JsonEdit.thy ===== *)
theory JsonEdit
  imports BoundedJson
begin

text \<open>
  Reading and editing JSON the way the translation code does: absent members read as \<open>null\<close>, arrays that are not
  there read as empty, members are removed and replaced in place, and an index assignment into something that is
  not an object panics (the outer option of \<open>outcome\<close>).
\<close>

definition is_string :: "json \<Rightarrow> bool" where "is_string v \<longleftrightarrow> as_str v \<noteq> None"
definition is_u64 :: "json \<Rightarrow> bool" where "is_u64 v \<longleftrightarrow> as_u64 v \<noteq> None"

text \<open>\<open>v[k].as_str()\<close>, \<open>v[k].as_u64()\<close> and \<open>v[k].as_array().into_iter().flatten()\<close>.\<close>

definition str_at :: "json \<Rightarrow> string \<Rightarrow> string option" where "str_at v k = as_str (index v k)"
definition u64_at :: "json \<Rightarrow> string \<Rightarrow> nat option" where "u64_at v k = as_u64 (index v k)"

definition elements :: "json \<Rightarrow> json list" where
  "elements v = (case v of JArray vs \<Rightarrow> vs | _ \<Rightarrow> [])"

definition items_at :: "json \<Rightarrow> string \<Rightarrow> json list" where "items_at v k = elements (index v k)"

definition has_str :: "json \<Rightarrow> string \<Rightarrow> string \<Rightarrow> bool" where "has_str v k s \<longleftrightarrow> index v k = JString s"

definition is_nonempty :: "string option \<Rightarrow> bool" where "is_nonempty s \<longleftrightarrow> (case s of Some t \<Rightarrow> t \<noteq> [] | None \<Rightarrow> False)"

definition path_str :: "json \<Rightarrow> string list \<Rightarrow> string option" where
  "path_str v path = Option.bind (get_path v path) as_str"

definition remove_key :: "string \<Rightarrow> json \<Rightarrow> json" where
  "remove_key k v = (case v of JObject kvs \<Rightarrow> JObject (filter (\<lambda>p. fst p \<noteq> k) kvs) | _ \<Rightarrow> v)"

definition edit_key :: "string \<Rightarrow> (json \<Rightarrow> json) \<Rightarrow> json \<Rightarrow> json" where
  "edit_key k f v = (case v of JObject kvs \<Rightarrow> JObject (map (\<lambda>(k', x). (k', if k' = k then f x else x)) kvs) | _ \<Rightarrow> v)"

definition insert_key :: "string \<Rightarrow> json \<Rightarrow> json \<Rightarrow> json" where
  "insert_key k x v = (case v of JObject kvs \<Rightarrow> JObject (object_insert k x kvs) | _ \<Rightarrow> v)"

section \<open>Results that may also panic\<close>

type_synonym ('e, 'a) outcome = "('e, 'a) result option"

definition ok :: "'a \<Rightarrow> ('e, 'a) outcome" where "ok x = Some (Inr x)"
definition fails :: "'e \<Rightarrow> ('e, 'a) outcome" where "fails e = Some (Inl e)"
definition lift :: "('e, 'a) result \<Rightarrow> ('e, 'a) outcome" where "lift r = Some r"

definition bind_outcome :: "('e, 'a) outcome \<Rightarrow> ('a \<Rightarrow> ('e, 'b) outcome) \<Rightarrow> ('e, 'b) outcome" where
  "bind_outcome r f = (case r of None \<Rightarrow> None | Some (Inl e) \<Rightarrow> Some (Inl e) | Some (Inr x) \<Rightarrow> f x)"

definition unwrap :: "'a option \<Rightarrow> ('e, 'a) outcome" where "unwrap x = map_option Inr x"

lemma bind_outcome_simps [simp]:
  "bind_outcome None f = None" "bind_outcome (fails e) f = fails e" "bind_outcome (ok x) f = f x"
  "bind_outcome (Some (Inl e)) f = fails e" "bind_outcome (Some (Inr x)) f = f x"
  by (simp_all add: bind_outcome_def ok_def fails_def)

lemma bind_outcome_ok: "bind_outcome r f = ok y \<longleftrightarrow> (\<exists>x. r = ok x \<and> f x = ok y)"
  by (auto simp: bind_outcome_def ok_def split: option.splits sum.splits)

lemma bind_outcome_panics: "bind_outcome r f = None \<longleftrightarrow> r = None \<or> (\<exists>x. r = ok x \<and> f x = None)"
  by (auto simp: bind_outcome_def ok_def split: option.splits sum.splits)

lemma outcome_simps [simp]:
  "ok x \<noteq> None" "None \<noteq> ok x" "fails e \<noteq> None" "lift r \<noteq> None" "ok x = ok y \<longleftrightarrow> x = y" "fails e \<noteq> ok x" "ok x \<noteq> fails e"
  "lift (Inr x) = ok x" "lift (Inl e) = fails e" "lift r = ok x \<longleftrightarrow> r = Inr x"
  "unwrap None = None" "unwrap (Some x) = ok x" "unwrap z = ok x \<longleftrightarrow> z = Some x" "unwrap z = None \<longleftrightarrow> z = None"
  by (auto simp: ok_def fails_def lift_def unwrap_def)

definition panics :: "('e, 'a) outcome \<Rightarrow> bool" where "panics r \<longleftrightarrow> r = None"

lemma panics_simps [simp]:
  "panics None" "\<not> panics (ok x)" "\<not> panics (fails e)" "\<not> panics (lift q)" "panics (unwrap z) \<longleftrightarrow> z = None"
  "panics (bind_outcome r f) \<longleftrightarrow> panics r \<or> (\<exists>x. r = ok x \<and> panics (f x))"
  by (auto simp: panics_def bind_outcome_panics)

lemma bind_outcome_cong [fundef_cong]:
  "r = r' \<Longrightarrow> (\<And>x. r' = ok x \<Longrightarrow> f x = f' x) \<Longrightarrow> bind_outcome r f = bind_outcome r' f'"
  by (auto simp: bind_outcome_def ok_def split: option.splits sum.splits)

lemma bind_outcome_cases:
  obtains "r = None" "bind_outcome r f = None" | e where "r = fails e" "bind_outcome r f = fails e"
  | x where "r = ok x" "bind_outcome r f = f x"
  by (cases r; cases "the r") (auto simp: bind_outcome_def ok_def fails_def)

section \<open>Laws\<close>

named_theorems json_edit \<open>what an edit leaves of the other members\<close>

lemma map_of_remove: "map_of (filter (\<lambda>p. fst p \<noteq> k) kvs) k' = (if k' = k then None else map_of kvs k')"
  by (induction kvs) auto

lemma get_remove_key [json_edit]: "get (remove_key k v) k' = (if k' = k then None else get v k')"
  by (cases v) (simp_all add: remove_key_def get_def map_of_remove)

lemma map_of_edit: "map_of (map (\<lambda>(k', x). (k', if k' = k then f x else x)) kvs) k' = (if k' = k then map_option f (map_of kvs k) else map_of kvs k')"
  by (induction kvs) auto

lemma get_edit_key [json_edit]: "get (edit_key k f v) k' = (if k' = k then map_option f (get v k) else get v k')"
  by (cases v) (auto simp: edit_key_def get_def map_of_edit)

lemma get_insert_key [json_edit]: "is_object v \<Longrightarrow> get (insert_key k x v) k' = (if k' = k then Some x else get v k')"
  by (cases v) (auto simp: insert_key_def get_def is_object_def)

lemma is_object_edits [simp]:
  "is_object (remove_key k v) \<longleftrightarrow> is_object v" "is_object (edit_key k f v) \<longleftrightarrow> is_object v" "is_object (insert_key k x v) \<longleftrightarrow> is_object v"
  by (cases v; simp add: remove_key_def edit_key_def insert_key_def is_object_def)+

lemma get_object: "get v k = Some x \<Longrightarrow> is_object v"
  by (cases v) (simp_all add: get_def is_object_def)

lemma str_at_Some: "str_at v k = Some s \<longleftrightarrow> get v k = Some (JString s)"
  by (cases "get v k"; cases "the (get v k)") (auto simp: str_at_def index_def)

lemma has_str_iff: "has_str v k s \<longleftrightarrow> get v k = Some (JString s)"
  by (cases "get v k") (auto simp: has_str_def index_def)

lemma has_str_object: "has_str v k s \<Longrightarrow> is_object v"
  by (auto simp: has_str_iff dest: get_object)

lemma set_index_object: "is_object v \<Longrightarrow> set_index v k x = Some (insert_key k x v)"
  by (cases v) (simp_all add: is_object_def insert_key_def)

lemma sorted_filter_keys: "sorted_wrt (<) (map fst kvs) \<Longrightarrow> sorted_wrt (<) (map fst (filter P kvs))"
  by (induction kvs) auto

lemma wf_remove_key: "wf_json v \<Longrightarrow> wf_json (remove_key k v)"
  by (cases v) (auto simp: remove_key_def list_all_iff intro: sorted_filter_keys)

lemma wf_insert_key: "wf_json v \<Longrightarrow> wf_json x \<Longrightarrow> wf_json (insert_key k x v)"
  using wf_object_insert by (cases v) (auto simp: insert_key_def simp del: wf_json.simps)

lemma wf_edit_key:
  assumes "wf_json v" and "\<And>x. get v k = Some x \<Longrightarrow> wf_json x \<Longrightarrow> wf_json (f x)"
  shows "wf_json (edit_key k f v)"
proof (cases v)
  case (JObject kvs)
  have keys: "map fst (map (\<lambda>(k', x). (k', if k' = k then f x else x)) kvs) = map fst kvs"
    by auto
  have "wf_json (f x)" if "(k, x) \<in> set kvs" for x
  proof -
    have "distinct (map fst kvs)" using assms(1) JObject by (simp add: strict_sorted_iff)
    with that have "get v k = Some x" by (simp add: get_def JObject)
    with assms that JObject show ?thesis by (auto simp: list_all_iff)
  qed
  with assms(1) JObject keys show ?thesis by (force simp: edit_key_def list_all_iff simp del: map_map)
qed (use assms(1) in \<open>simp_all add: edit_key_def\<close>)

end
