(* ===== verification/Retention.thy ===== *)
theory Retention
  imports BoundedJson Errors
begin

text \<open>
  What one response may keep in memory: the limits and the shared budget of a stream
  (\<open>stream_retention.rs\<close>) and the budget for metadata derived from a response (\<open>derived_response.rs\<close>). The
  budget of a stream sits behind a mutex shared by the parts of a normalizer; here it is a state that is
  passed along, and a holder is a component together with the footprint it currently has in the budget.
\<close>

section \<open>Limits\<close>

definition MAX_BYTES :: nat where "MAX_BYTES = 64 * 1024 * 1024"
definition MAX_ENTRIES :: nat where "MAX_ENTRIES = 65536"
definition MAP_ENTRY_OVERHEAD :: nat where "MAP_ENTRY_OVERHEAD = 64"

definition retention_error :: shim_error where
  "retention_error = Stream ''upstream stream retained state exceeds limit''"

record retention_limits =
  normalizer_bytes :: nat
  normalizer_entries :: nat
  native_usage_bytes :: nat
  native_usage_entries :: nat

definition default_retention_limits :: retention_limits where
  "default_retention_limits =
     \<lparr>normalizer_bytes = 16 * 1024 * 1024, normalizer_entries = 4096,
      native_usage_bytes = 4 * 1024 * 1024, native_usage_entries = 4096\<rparr>"

definition new_retention_limits :: "nat \<Rightarrow> nat \<Rightarrow> nat \<Rightarrow> nat \<Rightarrow> (shim_error, retention_limits) result" where
  "new_retention_limits nb ne ub ue =
     (if list_ex (\<lambda>limit. limit = 0 \<or> MAX_BYTES < limit) [nb, ub] \<or> list_ex (\<lambda>limit. limit = 0 \<or> MAX_ENTRIES < limit) [ne, ue]
      then Inl retention_error
      else Inr \<lparr>normalizer_bytes = nb, normalizer_entries = ne, native_usage_bytes = ub, native_usage_entries = ue\<rparr>)"

section \<open>Footprints and the shared budget\<close>

definition saturating_add_usize :: "nat \<Rightarrow> nat \<Rightarrow> nat" where
  "saturating_add_usize a b = min usize_max (a + b)"

record retained_footprint =
  rf_bytes :: nat
  rf_entries :: nat

definition no_footprint :: retained_footprint where "no_footprint = \<lparr>rf_bytes = 0, rf_entries = 0\<rparr>"

definition rf_record :: "nat \<Rightarrow> retained_footprint" where
  "rf_record bytes = \<lparr>rf_bytes = saturating_add_usize bytes MAP_ENTRY_OVERHEAD, rf_entries = 1\<rparr>"

definition rf_checked_add :: "retained_footprint \<Rightarrow> retained_footprint \<Rightarrow> retained_footprint option" where
  "rf_checked_add a b =
     Option.bind (checked_add_usize (rf_bytes a) (rf_bytes b))
       (\<lambda>x. Option.bind (checked_add_usize (rf_entries a) (rf_entries b)) (\<lambda>y. Some \<lparr>rf_bytes = x, rf_entries = y\<rparr>))"

record retained_budget =
  rb_retained :: retained_footprint
  rb_max_bytes :: nat
  rb_max_entries :: nat

definition new_budget :: "nat \<Rightarrow> nat \<Rightarrow> retained_budget" where
  "new_budget bytes entries = \<lparr>rb_retained = no_footprint, rb_max_bytes = bytes, rb_max_entries = entries\<rparr>"

definition swap_usize :: "nat \<Rightarrow> nat \<Rightarrow> nat \<Rightarrow> nat option" where
  "swap_usize held previous replacement =
     (if previous \<le> held then checked_add_usize (held - previous) replacement else None)"

definition budget_replace :: "retained_footprint \<Rightarrow> retained_footprint \<Rightarrow> retained_budget \<Rightarrow> (shim_error, unit) result \<times> retained_budget" where
  "budget_replace previous replacement b =
     (case swap_usize (rf_bytes (rb_retained b)) (rf_bytes previous) (rf_bytes replacement) of
        None \<Rightarrow> (Inl retention_error, b)
      | Some bytes \<Rightarrow>
          (case swap_usize (rf_entries (rb_retained b)) (rf_entries previous) (rf_entries replacement) of
             None \<Rightarrow> (Inl retention_error, b)
           | Some entries \<Rightarrow>
               if rb_max_bytes b < bytes \<or> rb_max_entries b < entries then (Inl retention_error, b)
               else (Inr (), b\<lparr>rb_retained := \<lparr>rf_bytes = bytes, rf_entries = entries\<rparr>\<rparr>)))"

definition budget_reserve :: "retained_footprint \<Rightarrow> retained_budget \<Rightarrow> (shim_error, unit) result \<times> retained_budget" where
  "budget_reserve fp = budget_replace no_footprint fp"

definition rf_saturating_sub :: "retained_footprint \<Rightarrow> retained_footprint \<Rightarrow> retained_footprint" where
  "rf_saturating_sub a b = \<lparr>rf_bytes = rf_bytes a - rf_bytes b, rf_entries = rf_entries a - rf_entries b\<rparr>"

definition budget_release :: "retained_footprint \<Rightarrow> retained_budget \<Rightarrow> retained_budget" where
  "budget_release fp b = b\<lparr>rb_retained := rf_saturating_sub (rb_retained b) fp\<rparr>"

definition budget_reset :: "retained_budget \<Rightarrow> retained_budget" where
  "budget_reset b = b\<lparr>rb_retained := no_footprint\<rparr>"

section \<open>The footprint of a JSON value\<close>

definition size_of_vec :: nat where "size_of_vec = 24"

fun add_members :: "(string \<Rightarrow> nat) \<Rightarrow> json_object \<Rightarrow> nat \<Rightarrow> nat option" where
  "add_members scap [] bytes = Some bytes"
| "add_members scap ((k, _) # kvs) bytes = Option.bind (checked_add_usize bytes (scap k)) (add_members scap kvs)"

definition retained_body ::
  "(string \<Rightarrow> nat) \<Rightarrow> (json list \<Rightarrow> nat) \<Rightarrow> json \<Rightarrow> nat \<Rightarrow> nat \<Rightarrow> (json list \<times> nat) option" where
  "retained_body scap vcap v pending bytes =
     (case v of
        JString t \<Rightarrow> map_option (Pair []) (checked_add_usize bytes (scap t))
      | JArray vs \<Rightarrow>
          if MAX_ENTRIES - pending < length vs then None
          else map_option (Pair (rev vs))
            (Option.bind (checked_add_usize bytes size_of_vec)
               (\<lambda>b. Option.bind (checked_mul_usize (vcap vs) size_of_value) (checked_add_usize b)))
      | JObject kvs \<Rightarrow>
          if MAX_ENTRIES - pending < length kvs then None
          else map_option (Pair (rev (map snd kvs)))
            (Option.bind (Option.bind (checked_mul_usize (length kvs) MAP_ENTRY_OVERHEAD) (checked_add_usize bytes)) (add_members scap kvs))
      | _ \<Rightarrow> Some ([], bytes))"

definition retained_node ::
  "(string \<Rightarrow> nat) \<Rightarrow> (json list \<Rightarrow> nat) \<Rightarrow> json \<Rightarrow> nat \<Rightarrow> retained_footprint \<Rightarrow> (json list \<times> retained_footprint) option" where
  "retained_node scap vcap v pending fp =
     (case rf_checked_add fp (rf_record size_of_value) of
        None \<Rightarrow> None
      | Some fp' \<Rightarrow>
          if MAX_BYTES < rf_bytes fp' \<or> MAX_ENTRIES < rf_entries fp' then None
          else map_option (\<lambda>(children, b). (children, fp'\<lparr>rf_bytes := b\<rparr>)) (retained_body scap vcap v pending (rf_bytes fp')))"

lemma retained_children:
  assumes "retained_node scap vcap v pending fp = Some (children, fp')"
  shows "sum_list (map json_nodes children) < json_nodes v"
  using assms
  by (cases v) (auto simp: retained_node_def retained_body_def sum_nodes_rev comp_def case_prod_unfold split: option.splits if_splits)

function retained_loop :: "(string \<Rightarrow> nat) \<Rightarrow> (json list \<Rightarrow> nat) \<Rightarrow> json list \<Rightarrow> retained_footprint \<Rightarrow> (shim_error, retained_footprint) result" where
  "retained_loop scap vcap [] fp = Inr fp"
| "retained_loop scap vcap (v # pending) fp =
     (case retained_node scap vcap v (length pending) fp of
        None \<Rightarrow> Inl retention_error
      | Some (children, fp') \<Rightarrow> retained_loop scap vcap (children @ pending) fp')"
  by pat_completeness auto
termination
  by (relation "measure (\<lambda>(_, _, pending, _). sum_list (map json_nodes pending))") (auto dest: retained_children)

definition retained_value :: "(string \<Rightarrow> nat) \<Rightarrow> (json list \<Rightarrow> nat) \<Rightarrow> json \<Rightarrow> (shim_error, retained_footprint) result" where
  "retained_value scap vcap v = retained_loop scap vcap [v] no_footprint"

section \<open>Metadata derived from a response\<close>

definition derived_record :: "nat \<Rightarrow> retained_footprint option" where
  "derived_record bytes = map_option (\<lambda>b. \<lparr>rf_bytes = b, rf_entries = 1\<rparr>) (checked_add_usize bytes 64)"

definition derived_strings :: "nat \<Rightarrow> retained_footprint" where
  "derived_strings bytes = \<lparr>rf_bytes = bytes, rf_entries = 0\<rparr>"

definition rf_checked_multiply :: "retained_footprint \<Rightarrow> nat \<Rightarrow> retained_footprint option" where
  "rf_checked_multiply a n =
     Option.bind (checked_mul_usize (rf_bytes a) n)
       (\<lambda>x. Option.bind (checked_mul_usize (rf_entries a) n) (\<lambda>y. Some \<lparr>rf_bytes = x, rf_entries = y\<rparr>))"

datatype failure_mode = FailUnary | FailStream

record derived_budget =
  db_retained :: retained_footprint
  db_maximum :: retained_footprint
  db_mode :: failure_mode

definition derived_new :: "failure_mode \<Rightarrow> derived_budget" where
  "derived_new mode = \<lparr>db_retained = no_footprint, db_maximum = \<lparr>rf_bytes = 16 * 1024 * 1024, rf_entries = 4096\<rparr>, db_mode = mode\<rparr>"

definition derived_error :: "derived_budget \<Rightarrow> shim_error" where
  "derived_error b =
     (case db_mode b of
        FailUnary \<Rightarrow> ProviderError 502 ''upstream derived response metadata exceeds limit'' None
      | FailStream \<Rightarrow> Stream ''upstream derived response metadata exceeds limit'')"

definition derived_reserve :: "retained_footprint \<Rightarrow> derived_budget \<Rightarrow> (shim_error, derived_budget) result" where
  "derived_reserve fp b =
     (case rf_checked_add (db_retained b) fp of
        None \<Rightarrow> Inl (derived_error b)
      | Some whole \<Rightarrow>
          if rf_bytes (db_maximum b) < rf_bytes whole \<or> rf_entries (db_maximum b) < rf_entries whole then Inl (derived_error b)
          else Inr (b\<lparr>db_retained := whole\<rparr>))"

definition derived_reserve_value :: "(string \<Rightarrow> nat) \<Rightarrow> (json list \<Rightarrow> nat) \<Rightarrow> json \<Rightarrow> derived_budget \<Rightarrow> (shim_error, derived_budget) result" where
  "derived_reserve_value scap vcap v b =
     (case retained_value scap vcap v of
        Inl _ \<Rightarrow> Inl (derived_error b)
      | Inr fp \<Rightarrow> derived_reserve fp b)"

end
