(* ===== verification/ToolCalls.thy ===== *)
theory ToolCalls
  imports JsonEdit Policy Retention
begin

text \<open>
  Tool calls across providers (\<open>toolcall.rs\<close>): the identities the crate owns and their wire identities, the checks
  on a conversation's calls and results, and the translation of a request's identities to one provider.
  Random identifiers, the JSON text of a value, the decoding of stored wire identities, the encoding of a thought
  signature (it contains the time of receipt) and the sizes of three structs are fields of \<open>tool_env\<close>.
\<close>

section \<open>Identities\<close>

record replay_target =
  rt_provider :: string
  rt_model :: string
  rt_wire :: wire_format
  rt_account :: "string option"

record wire_tool_id =
  wt_provider :: string
  wt_wire :: wire_format
  wt_scope :: string
  wt_part_id :: string
  wt_id :: "string option"
  wt_item_id :: "string option"
  wt_signature_field :: "string option"

record tool_env =
  te_read :: "string \<Rightarrow> source \<times> bool"
  te_render :: "json \<Rightarrow> string"
  te_decode :: "json \<Rightarrow> wire_tool_id list option"
  te_uuid :: "nat \<Rightarrow> string"
  te_signature :: "replay_target \<Rightarrow> string \<Rightarrow> json"
  te_size_binding :: nat
  te_size_signature :: nat
  te_size_origin :: nat

definition CALL_PREFIX :: string where "CALL_PREFIX = ''call_ls_''"

definition mint :: "tool_env \<Rightarrow> nat \<Rightarrow> string" where
  "mint env n = CALL_PREFIX @ te_uuid env n"

definition invalid :: "string \<Rightarrow> shim_error" where
  "invalid message = ProviderError 400 (''invalid tool history: '' @ message) None"

definition upstream :: "string \<Rightarrow> shim_error" where
  "upstream message = ProviderError 502 (''invalid upstream tool call: '' @ message) None"

text \<open>The key of a wire identity; the code renders this tuple as JSON text.\<close>

datatype correlation = ById string | ByPart string

datatype wire_key = WireKey string wire_format string correlation

definition wire_key :: "wire_tool_id \<Rightarrow> wire_key" where
  "wire_key b = WireKey (wt_provider b) (wt_wire b) (wt_scope b)
     (case wt_id b of Some i \<Rightarrow> ById i | None \<Rightarrow> ByPart (wt_part_id b))"

record tool_call_map =
  by_internal :: "(string, wire_tool_id list) hash_map"
  by_wire :: "(wire_key, string) hash_map"

definition empty_map :: tool_call_map where
  "empty_map = \<lparr>by_internal = [], by_wire = []\<rparr>"

fun check_bindings :: "string \<Rightarrow> wire_tool_id list \<Rightarrow> tool_call_map \<Rightarrow> (shim_error, unit) result" where
  "check_bindings cid [] m = Inr ()"
| "check_bindings cid (b # bs) m =
     (if wt_provider b = [] \<or> wt_part_id b = [] \<or> wt_scope b = [] then Inl (invalid ''wire mapping is incomplete'')
      else if (case map_of (by_wire m) (wire_key b) of Some old \<Rightarrow> old \<noteq> cid | None \<Rightarrow> False)
      then Inl (invalid ''wire identity belongs to two calls'')
      else check_bindings cid bs m)"

definition add_binding :: "string \<Rightarrow> wire_tool_id \<Rightarrow> tool_call_map \<Rightarrow> tool_call_map" where
  "add_binding cid b m =
     (let entries = (case map_of (by_internal m) cid of Some bs \<Rightarrow> bs | None \<Rightarrow> [])
      in \<lparr>by_internal = AList.update cid (if b \<in> set entries then entries else entries @ [b]) (by_internal m),
          by_wire = AList.update (wire_key b) cid (by_wire m)\<rparr>)"

definition map_insert :: "string \<Rightarrow> wire_tool_id list \<Rightarrow> tool_call_map \<Rightarrow> (shim_error, tool_call_map) result" where
  "map_insert cid bs m =
     (if \<not> starts_with cid CALL_PREFIX \<or> bs = [] then Inl (invalid ''owned call is missing its wire mapping'')
      else then_do (check_bindings cid bs m) (\<lambda>_. Inr (fold (add_binding cid) bs m)))"

text \<open>\<open>register_id\<close> returns the identifier, the map and the number of identifiers minted so far.\<close>

definition register_id :: "tool_env \<Rightarrow> wire_tool_id \<Rightarrow> nat \<Rightarrow> tool_call_map \<Rightarrow> (shim_error, string \<times> nat \<times> tool_call_map) result" where
  "register_id env b n m =
     (case map_of (by_wire m) (wire_key b) of
        Some cid \<Rightarrow> Inr (cid, n, m)
      | None \<Rightarrow> then_do (map_insert (mint env n) [b] m) (\<lambda>m'. Inr (mint env n, Suc n, m')))"

definition internal_id :: "wire_tool_id \<Rightarrow> tool_call_map \<Rightarrow> string option" where
  "internal_id b m = map_of (by_wire m) (wire_key b)"

definition wire_ids :: "string \<Rightarrow> tool_call_map \<Rightarrow> wire_tool_id list option" where
  "wire_ids cid m = map_of (by_internal m) cid"

definition replay_binding :: "string \<Rightarrow> replay_target \<Rightarrow> wire_tool_id" where
  "replay_binding cid target =
     \<lparr>wt_provider = rt_provider target, wt_wire = rt_wire target, wt_scope = ''replay:'' @ cid, wt_part_id = cid,
      wt_id = Some cid, wt_item_id = None, wt_signature_field = None\<rparr>"

definition wire_for_target :: "string \<Rightarrow> replay_target \<Rightarrow> tool_call_map \<Rightarrow> (shim_error, wire_tool_id \<times> tool_call_map) result" where
  "wire_for_target cid target m =
     (case map_of (by_internal m) cid of
        None \<Rightarrow> Inl (invalid ''unknown owned call id'')
      | Some entries \<Rightarrow>
          (case find (\<lambda>b. wt_provider b = rt_provider target \<and> wt_wire b = rt_wire target) entries of
             Some b \<Rightarrow> Inr (b, m)
           | None \<Rightarrow>
               then_do (map_insert cid [replay_binding cid target] m) (\<lambda>m'. Inr (replay_binding cid target, m'))))"

definition nonempty_str :: "string option \<Rightarrow> string option" where
  "nonempty_str s = Option.bind s (\<lambda>t. if t = [] then None else Some t)"

definition binding :: "replay_target \<Rightarrow> string \<Rightarrow> string \<Rightarrow> string option \<Rightarrow> string option \<Rightarrow> wire_tool_id" where
  "binding target scope part cid item =
     \<lparr>wt_provider = rt_provider target, wt_wire = rt_wire target, wt_scope = scope, wt_part_id = part,
      wt_id = nonempty_str cid, wt_item_id = nonempty_str item, wt_signature_field = None\<rparr>"

section \<open>Checking a conversation\<close>

definition validate_arguments :: "tool_env \<Rightarrow> string \<Rightarrow> bool \<Rightarrow> (shim_error, unit) result" where
  "validate_arguments env arguments is_upstream =
     (case parse_str (te_read env) arguments (if is_upstream then limits_SSE else limits_INBOUND) of
        Inr _ \<Rightarrow> Inr ()
      | Inl Complexity \<Rightarrow>
          Inl (if is_upstream then upstream ''tool arguments exceed JSON complexity limit''
               else invalid ''tool arguments exceed JSON complexity limit'')
      | Inl Malformed \<Rightarrow>
          Inl (if is_upstream then upstream ''arguments are not complete JSON''
               else invalid ''arguments are not complete JSON''))"

definition owned_call :: "string \<Rightarrow> json \<Rightarrow> bool" where
  "owned_call cid tc \<longleftrightarrow> starts_with cid CALL_PREFIX \<or> get tc ''wire_ids'' \<noteq> None"

type_synonym open_calls = "string set \<times> string set"

fun check_calls :: "tool_env \<Rightarrow> json list \<Rightarrow> open_calls \<Rightarrow> (shim_error, open_calls) result" where
  "check_calls env [] st = Inr st"
| "check_calls env (tc # calls) (pending, seen) =
     (case nonempty_str (str_at tc ''id'') of
        None \<Rightarrow> Inl (invalid ''call has no id'')
      | Some cid \<Rightarrow>
          if cid \<in> pending \<or> (cid \<in> seen \<and> owned_call cid tc) then Inl (invalid ''duplicate call id'')
          else if \<not> is_nonempty (path_str tc [''function'', ''name'']) then Inl (invalid ''call has no function name'')
          else then_do (validate_arguments env (case path_str tc [''function'', ''arguments''] of Some t \<Rightarrow> t | None \<Rightarrow> []) False)
            (\<lambda>_. check_calls env calls (insert cid pending, insert cid seen)))"

definition bad_tool_calls :: "json \<Rightarrow> bool" where
  "bad_tool_calls message \<longleftrightarrow>
     (case get message ''tool_calls'' of Some calls \<Rightarrow> \<not> is_null calls \<and> \<not> is_array calls | None \<Rightarrow> False)"

definition check_message :: "tool_env \<Rightarrow> json \<Rightarrow> open_calls \<Rightarrow> (shim_error, open_calls) result" where
  "check_message env message st =
     (if bad_tool_calls message then Inl (invalid ''tool_calls must be an array or null'')
      else if has_str message ''role'' ''assistant'' then
        (if fst st \<noteq> {} then Inl (invalid ''an assistant turn follows unanswered tool calls'')
         else check_calls env (items_at message ''tool_calls'') st)
      else if has_str message ''role'' ''tool'' then
        (case str_at message ''tool_call_id'' of
           None \<Rightarrow> Inl (invalid ''result has no call id'')
         | Some cid \<Rightarrow>
             if cid \<in> fst st then Inr (fst st - {cid}, snd st)
             else Inl (invalid ''tool result has no unanswered matching call''))
      else Inr st)"

fun check_messages :: "tool_env \<Rightarrow> json list \<Rightarrow> open_calls \<Rightarrow> (shim_error, open_calls) result" where
  "check_messages env [] st = Inr st"
| "check_messages env (m # ms) st = then_do (check_message env m st) (check_messages env ms)"

definition validate_history :: "tool_env \<Rightarrow> json list \<Rightarrow> (shim_error, unit) result" where
  "validate_history env messages =
     then_do (check_messages env messages ({}, {}))
       (\<lambda>(pending, _).
          if pending \<noteq> {} then Inl (invalid ''tool calls must be answered before requesting another assistant turn'')
          else Inr ())"

definition plain_assistant :: "json \<Rightarrow> bool" where
  "plain_assistant m \<longleftrightarrow> has_str m ''role'' ''assistant'' \<and> (is_null (index m ''tool_calls'') \<or> is_array (index m ''tool_calls''))"

fun merge_turns :: "json list \<Rightarrow> json list \<Rightarrow> json list" where
  "merge_turns [] turns = turns"
| "merge_turns (m # ms) turns =
     (if plain_assistant m \<and> turns \<noteq> [] \<and> plain_assistant (last turns)
      then merge_turns ms (butlast turns @
        [insert_key ''tool_calls'' (JArray (items_at (last turns) ''tool_calls'' @ items_at m ''tool_calls'')) (last turns)])
      else merge_turns ms (turns @ [m]))"

definition validate_request_history :: "tool_env \<Rightarrow> json \<Rightarrow> wire_format \<Rightarrow> (shim_error, unit) result" where
  "validate_request_history env request wire =
     (case as_array (index request ''messages'') of
        None \<Rightarrow> Inr ()
      | Some messages \<Rightarrow>
          if wire = OpenAiResponses \<and> get request ''x-responses-controls'' \<noteq> None
          then validate_history env (merge_turns messages [])
          else validate_history env messages)"

section \<open>The map is a correspondence\<close>

definition map_ok :: "tool_call_map \<Rightarrow> bool" where
  "map_ok m \<longleftrightarrow>
     (\<forall>cid bs b. map_of (by_internal m) cid = Some bs \<longrightarrow> b \<in> set bs \<longrightarrow> map_of (by_wire m) (wire_key b) = Some cid) \<and>
     (\<forall>k cid. map_of (by_wire m) k = Some cid \<longrightarrow> (\<exists>bs. map_of (by_internal m) cid = Some bs \<and> k \<in> wire_key ` set bs)) \<and>
     (\<forall>cid bs. map_of (by_internal m) cid = Some bs \<longrightarrow> bs \<noteq> [] \<and> starts_with cid CALL_PREFIX)"

lemma map_ok_empty: "map_ok empty_map"
  by (simp add: map_ok_def empty_map_def)

lemma map_okD: "map_ok m \<Longrightarrow> map_of (by_internal m) cid = Some bs \<Longrightarrow> b \<in> set bs \<Longrightarrow> map_of (by_wire m) (wire_key b) = Some cid"
  unfolding map_ok_def by blast

lemma map_of_add_binding:
  "map_of (by_wire (add_binding cid b m)) = (map_of (by_wire m))(wire_key b \<mapsto> cid)"
  "map_of (by_internal (add_binding cid b m)) = (map_of (by_internal m))(cid \<mapsto>
     (let entries = (case map_of (by_internal m) cid of Some bs \<Rightarrow> bs | None \<Rightarrow> []) in if b \<in> set entries then entries else entries @ [b]))"
  by (simp_all add: add_binding_def Let_def hash_map_simps)

lemma map_ok_add_binding:
  assumes "map_ok m" and "starts_with cid CALL_PREFIX"
    and free: "map_of (by_wire m) (wire_key b) = None \<or> map_of (by_wire m) (wire_key b) = Some cid"
  shows "map_ok (add_binding cid b m)"
proof -
  define es where "es = (case map_of (by_internal m) cid of Some bs \<Rightarrow> bs | None \<Rightarrow> [])"
  define new where "new = (if b \<in> set es then es else es @ [b])"
  have inner: "map_of (by_internal (add_binding cid b m)) = (map_of (by_internal m))(cid \<mapsto> new)"
    unfolding map_of_add_binding new_def es_def Let_def ..
  have new: "set new = insert b (set es)" by (auto simp: new_def)
  then have new_not: "new \<noteq> []" by auto
  have old: "map_of (by_wire m) (wire_key x) = Some cid" if "x \<in> set es" for x
    using that map_okD [OF assms(1)] by (cases "map_of (by_internal m) cid") (auto simp: es_def)
  have "map_of (by_wire (add_binding cid b m)) (wire_key x) = Some c"
    if "map_of (by_internal (add_binding cid b m)) c = Some bs" "x \<in> set bs" for c bs x
  proof (cases "c = cid")
    case True
    with that have "x \<in> set new" by (simp add: inner)
    then have "x = b \<or> x \<in> set es" by (simp add: new)
    with True old show ?thesis by (auto simp: map_of_add_binding)
  next
    case False
    with that have "map_of (by_wire m) (wire_key x) = Some c" using map_okD [OF assms(1)] by (simp add: inner)
    with False free show ?thesis by (auto simp: map_of_add_binding)
  qed
  moreover have "\<exists>bs. map_of (by_internal (add_binding cid b m)) c = Some bs \<and> k \<in> wire_key ` set bs"
    if "map_of (by_wire (add_binding cid b m)) k = Some c" for k c
  proof (cases "k = wire_key b")
    case True
    with that have "c = cid" by (simp add: map_of_add_binding)
    with True show ?thesis by (auto simp: inner new)
  next
    case False
    with that have "map_of (by_wire m) k = Some c" by (simp add: map_of_add_binding)
    with assms(1) obtain bs where "map_of (by_internal m) c = Some bs" "k \<in> wire_key ` set bs" unfolding map_ok_def by blast
    then show ?thesis by (cases "c = cid") (auto simp: inner new es_def)
  qed
  ultimately show ?thesis
    using assms(1,2) new_not unfolding map_ok_def inner by auto
qed

lemma check_bindings_Inr:
  "check_bindings cid bs m = Inr () \<longleftrightarrow>
     (\<forall>b \<in> set bs. wt_provider b \<noteq> [] \<and> wt_part_id b \<noteq> [] \<and> wt_scope b \<noteq> [] \<and>
       (\<forall>old. map_of (by_wire m) (wire_key b) = Some old \<longrightarrow> old = cid))"
  by (induction cid bs m rule: check_bindings.induct) (auto split: option.splits)

lemma map_insert_steps:
  assumes "map_ok m" and "starts_with cid CALL_PREFIX"
    and "\<forall>b \<in> set bs. \<forall>old. map_of (by_wire m) (wire_key b) = Some old \<longrightarrow> old = cid"
  shows "map_ok (fold (add_binding cid) bs m) \<and>
    (\<forall>k. map_of (by_wire (fold (add_binding cid) bs m)) k = (if k \<in> wire_key ` set bs then Some cid else map_of (by_wire m) k))"
  using assms
proof (induction bs arbitrary: m)
  case (Cons b bs)
  have "map_ok (add_binding cid b m)"
    using map_ok_add_binding [OF Cons.prems(1,2)] Cons.prems(3) by (cases "map_of (by_wire m) (wire_key b)") auto
  moreover have "\<forall>x \<in> set bs. \<forall>old. map_of (by_wire (add_binding cid b m)) (wire_key x) = Some old \<longrightarrow> old = cid"
    using Cons.prems(3) by (auto simp: map_of_add_binding)
  ultimately show ?case using Cons.IH [OF _ Cons.prems(2)] by (auto simp: map_of_add_binding)
qed simp

lemma map_insert_ok:
  assumes "map_ok m" and "map_insert cid bs m = Inr m'"
  shows "map_ok m'" and "map_of (by_wire m') k = (if k \<in> wire_key ` set bs then Some cid else map_of (by_wire m) k)"
proof -
  from assms(2) have "starts_with cid CALL_PREFIX" "check_bindings cid bs m = Inr ()" "m' = fold (add_binding cid) bs m"
    by (auto simp: map_insert_def then_do_Inr split: if_splits)
  with map_insert_steps [OF assms(1), of cid bs] show "map_ok m'"
    "map_of (by_wire m') k = (if k \<in> wire_key ` set bs then Some cid else map_of (by_wire m) k)"
    by (auto simp: check_bindings_Inr)
qed

lemma register_id_ok:
  assumes "map_ok m" and "register_id env b n m = Inr (cid, n', m')"
  shows "map_ok m'" and "internal_id b m' = Some cid"
  using assms map_insert_ok [of m "mint env n" "[b]"]
  by (auto simp: register_id_def internal_id_def then_do_Inr split: option.splits)

lemma wire_for_target_ok:
  assumes "map_ok m" and "wire_for_target cid target m = Inr (b, m')"
  shows "map_ok m'" and "internal_id b m' = Some cid" and "wt_provider b = rt_provider target" and "wt_wire b = rt_wire target"
proof -
  show "wt_provider b = rt_provider target" "wt_wire b = rt_wire target"
    using assms(2) by (auto simp: wire_for_target_def then_do_Inr replay_binding_def find_Some_iff split: option.splits)
  from assms(2) obtain bs where bs: "map_of (by_internal m) cid = Some bs" by (auto simp: wire_for_target_def split: option.splits)
  have "map_ok m' \<and> internal_id b m' = Some cid"
  proof (cases "find (\<lambda>b. wt_provider b = rt_provider target \<and> wt_wire b = rt_wire target) bs")
    case None
    with assms(2) bs have "map_insert cid [replay_binding cid target] m = Inr m'" "b = replay_binding cid target"
      by (auto simp: wire_for_target_def then_do_Inr)
    with map_insert_ok [OF assms(1)] show ?thesis by (auto simp: internal_id_def)
  next
    case (Some x)
    with assms(2) bs have "m' = m" "x = b" by (simp_all add: wire_for_target_def)
    moreover have "x \<in> set bs" using Some by (auto simp: find_Some_iff)
    ultimately show ?thesis
      using assms(1) map_okD [OF assms(1) bs] by (simp add: internal_id_def)
  qed
  then show "map_ok m'" "internal_id b m' = Some cid" by simp_all
qed

text \<open>What a translation needs of such a map, whatever its representation.\<close>

locale identities =
  fixes inv :: "'m \<Rightarrow> bool"
    and initial :: 'm
    and record_ids :: "'id \<Rightarrow> 'w list \<Rightarrow> 'm \<Rightarrow> ('e, 'm) result"
    and owner :: "'m \<Rightarrow> 'w \<Rightarrow> 'id option"
    and wires :: "'m \<Rightarrow> 'id \<Rightarrow> 'w list"
    and same :: "'w \<Rightarrow> 'w \<Rightarrow> bool"
  assumes inv_initial: "inv initial"
    and inv_record: "inv m \<Longrightarrow> record_ids i ws m = Inr m' \<Longrightarrow> inv m'"
    and owner_recorded: "inv m \<Longrightarrow> record_ids i ws m = Inr m' \<Longrightarrow> w \<in> set ws \<Longrightarrow> owner m' w = Some i"
    and owner_kept: "inv m \<Longrightarrow> record_ids i ws m = Inr m' \<Longrightarrow> owner m w = Some j \<Longrightarrow> owner m' w = Some j"
    and owner_wires: "inv m \<Longrightarrow> owner m w = Some i \<longleftrightarrow> (\<exists>v \<in> set (wires m i). same v w)"
begin

inductive recorded :: "'m \<Rightarrow> bool" where
  start: "recorded initial"
| record_more: "recorded m \<Longrightarrow> record_ids i ws m = Inr m' \<Longrightarrow> recorded m'"

lemma recorded_inv: "recorded m \<Longrightarrow> inv m"
  by (induction rule: recorded.induct) (auto intro: inv_initial inv_record)

lemma one_owner:
  assumes "recorded m" and "v \<in> set (wires m i)" and "w \<in> set (wires m j)" and "same v u" and "same w u"
  shows "i = j"
proof -
  have "owner m u = Some i" "owner m u = Some j" using assms owner_wires [OF recorded_inv [OF assms(1)]] by blast+
  then show ?thesis by simp
qed

end

definition wires_of :: "tool_call_map \<Rightarrow> string \<Rightarrow> wire_tool_id list" where
  "wires_of m cid = (case wire_ids cid m of Some bs \<Rightarrow> bs | None \<Rightarrow> [])"

definition same_wire :: "wire_tool_id \<Rightarrow> wire_tool_id \<Rightarrow> bool" where
  "same_wire a b \<longleftrightarrow> wire_key a = wire_key b"

lemma owner_iff: "map_ok m \<Longrightarrow> internal_id b m = Some cid \<longleftrightarrow> (\<exists>v \<in> set (wires_of m cid). same_wire v b)"
proof
  assume m: "map_ok m"
  show "internal_id b m = Some cid \<Longrightarrow> \<exists>v \<in> set (wires_of m cid). same_wire v b"
    using m unfolding map_ok_def internal_id_def wires_of_def wire_ids_def same_wire_def by force
  show "\<exists>v \<in> set (wires_of m cid). same_wire v b \<Longrightarrow> internal_id b m = Some cid"
    using m unfolding map_ok_def internal_id_def wires_of_def wire_ids_def same_wire_def
    by (auto split: option.splits) metis
qed

interpretation tool_ids: identities map_ok empty_map map_insert "\<lambda>m b. internal_id b m" wires_of same_wire
proof unfold_locales
  show "map_ok empty_map" by (rule map_ok_empty)
  show "map_ok m'" if "map_ok m" "map_insert i ws m = Inr m'" for m i ws m'
    using map_insert_ok(1) that .
  show "internal_id w m' = Some i" if "map_ok m" "map_insert i ws m = Inr m'" "w \<in> set ws" for m i ws m' w
    using map_insert_ok(2) [OF that(1,2)] that(3) by (simp add: internal_id_def)
  show "internal_id w m' = Some j" if "map_ok m" "map_insert i ws m = Inr m'" "internal_id w m = Some j" for m i ws m' w j
  proof -
    have "check_bindings i ws m = Inr ()" using that(2) by (auto simp: map_insert_def then_do_Inr split: if_splits)
    with that map_insert_ok(2) [OF that(1,2)] show ?thesis by (auto simp: check_bindings_Inr internal_id_def)
  qed
  show "internal_id w m = Some i \<longleftrightarrow> (\<exists>v \<in> set (wires_of m i). same_wire v w)" if "map_ok m" for m w i
    using owner_iff that .
qed

section \<open>What a valid conversation is\<close>

abbreviation is_assistant :: "json \<Rightarrow> bool" where "is_assistant m \<equiv> has_str m ''role'' ''assistant''"
abbreviation is_tool :: "json \<Rightarrow> bool" where "is_tool m \<equiv> has_str m ''role'' ''tool''"

definition call_id :: "json \<Rightarrow> string" where
  "call_id tc = the (str_at tc ''id'')"

definition call_ok :: "tool_env \<Rightarrow> json \<Rightarrow> bool" where
  "call_ok env tc \<longleftrightarrow>
     is_nonempty (str_at tc ''id'') \<and> is_nonempty (path_str tc [''function'', ''name'']) \<and>
     (\<exists>v. parse_str (te_read env) (case path_str tc [''function'', ''arguments''] of Some t \<Rightarrow> t | None \<Rightarrow> []) limits_INBOUND = Inr v)"

definition answers :: "json list \<Rightarrow> string list" where
  "answers seg = map (\<lambda>m. the (str_at m ''tool_call_id'')) (filter is_tool seg)"

text \<open>An assistant message with the messages up to the next one.\<close>

fun turns :: "json list \<Rightarrow> (json \<times> json list) list" where
  "turns [] = []"
| "turns (m # ms) =
     (if is_assistant m then (m, takeWhile (\<lambda>x. \<not> is_assistant x) ms) # turns ms else turns ms)"

definition calls_of :: "json \<Rightarrow> json list" where
  "calls_of m = items_at m ''tool_calls''"

fun owned_once :: "string set \<Rightarrow> json list \<Rightarrow> bool" where
  "owned_once seen [] \<longleftrightarrow> True"
| "owned_once seen (tc # calls) \<longleftrightarrow>
     (owned_call (call_id tc) tc \<longrightarrow> call_id tc \<notin> seen) \<and> owned_once (insert (call_id tc) seen) calls"

definition turn_ok :: "tool_env \<Rightarrow> json \<times> json list \<Rightarrow> bool" where
  "turn_ok env t \<longleftrightarrow>
     list_all (call_ok env) (calls_of (fst t)) \<and> distinct (map call_id (calls_of (fst t))) \<and>
     distinct (answers (snd t)) \<and> set (answers (snd t)) = call_id ` set (calls_of (fst t))"

definition conversation_ok :: "tool_env \<Rightarrow> json list \<Rightarrow> bool" where
  "conversation_ok env ms \<longleftrightarrow>
     (\<forall>m \<in> set ms. \<not> bad_tool_calls m \<and> (is_tool m \<longrightarrow> str_at m ''tool_call_id'' \<noteq> None)) \<and>
     answers (takeWhile (\<lambda>x. \<not> is_assistant x) ms) = [] \<and>
     list_all (turn_ok env) (turns ms) \<and>
     owned_once {} (concat (map (calls_of \<circ> fst) (turns ms)))"

lemma validate_arguments_Inr:
  "validate_arguments env t up = Inr () \<longleftrightarrow> (\<exists>v. parse_str (te_read env) t (if up then limits_SSE else limits_INBOUND) = Inr v)"
  by (simp add: validate_arguments_def split: sum.splits json_error.splits)

lemma nonempty_str_Some: "nonempty_str x = Some t \<longleftrightarrow> x = Some t \<and> t \<noteq> []"
  by (auto simp: nonempty_str_def bind_eq_Some_conv split: if_splits)

lemma check_calls_Inr:
  "check_calls env calls (P, S) = Inr st \<longleftrightarrow>
     list_all (call_ok env) calls \<and> distinct (map call_id calls) \<and> call_id ` set calls \<inter> P = {} \<and> owned_once S calls \<and>
     st = (P \<union> call_id ` set calls, S \<union> call_id ` set calls)"
proof (induction calls arbitrary: P S)
  case (Cons tc calls)
  show ?case
  proof (cases "nonempty_str (str_at tc ''id'')")
    case None
    then have "\<not> call_ok env tc"
      by (auto simp: call_ok_def is_nonempty_def nonempty_str_def split: option.splits if_splits)
    with None show ?thesis by simp
  next
    case (Some cid)
    then have cid: "call_id tc = cid" "is_nonempty (str_at tc ''id'')"
      by (auto simp: call_id_def nonempty_str_Some is_nonempty_def)
    have step: "check_calls env (tc # calls) (P, S) = Inr st \<longleftrightarrow>
        cid \<notin> P \<and> (owned_call cid tc \<longrightarrow> cid \<notin> S) \<and> call_ok env tc \<and> check_calls env calls (insert cid P, insert cid S) = Inr st"
      using Some cid(2) by (auto simp: then_do_Inr validate_arguments_Inr call_ok_def)
    show ?thesis unfolding step Cons.IH by (auto simp: cid(1))
  qed
qed auto

lemma check_segment:
  assumes "\<forall>m \<in> set seg. \<not> is_assistant m"
  shows "check_messages env seg (P, S) = Inr st \<longleftrightarrow>
    (\<forall>m \<in> set seg. \<not> bad_tool_calls m \<and> (is_tool m \<longrightarrow> str_at m ''tool_call_id'' \<noteq> None)) \<and>
    distinct (answers seg) \<and> set (answers seg) \<subseteq> P \<and> st = (P - set (answers seg), S)"
  using assms
proof (induction seg arbitrary: P)
  case (Cons m seg)
  show ?case
  proof (cases "is_tool m \<and> str_at m ''tool_call_id'' \<noteq> None")
    case True
    then obtain cid where cid: "str_at m ''tool_call_id'' = Some cid" by auto
    have "check_messages env (m # seg) (P, S) = Inr st \<longleftrightarrow> \<not> bad_tool_calls m \<and> cid \<in> P \<and> check_messages env seg (P - {cid}, S) = Inr st"
      using True cid Cons.prems by (auto simp: check_message_def)
    with True cid Cons.IH [of "P - {cid}"] Cons.prems show ?thesis by (auto simp: answers_def)
  next
    case False
    then have "check_messages env (m # seg) (P, S) = Inr st \<longleftrightarrow> \<not> bad_tool_calls m \<and> \<not> is_tool m \<and> check_messages env seg (P, S) = Inr st"
      using Cons.prems by (auto simp: check_message_def)
    with False Cons.IH [of P] Cons.prems show ?thesis by (auto simp: answers_def)
  qed
qed (auto simp: answers_def)

lemma check_append: "check_messages env (xs @ ys) st = then_do (check_messages env xs st) (check_messages env ys)"
  by (induction xs arbitrary: st) (auto simp: then_do_def split: sum.splits)

lemma owned_once_append: "owned_once S (xs @ ys) \<longleftrightarrow> owned_once S xs \<and> owned_once (S \<union> call_id ` set xs) ys"
  by (induction xs arbitrary: S) auto

definition message_ok :: "json \<Rightarrow> bool" where
  "message_ok m \<longleftrightarrow> \<not> bad_tool_calls m \<and> (is_tool m \<longrightarrow> str_at m ''tool_call_id'' \<noteq> None)"

lemma turns_segment: "\<forall>m \<in> set seg. \<not> is_assistant m \<Longrightarrow> turns (seg @ rest) = turns rest"
  by (induction seg) auto

lemma not_both: "is_assistant m \<Longrightarrow> \<not> is_tool m"
  by (simp add: has_str_def)

abbreviation lead :: "json list \<Rightarrow> json list" where "lead \<equiv> takeWhile (\<lambda>x. \<not> is_assistant x)"
abbreviation rest_of :: "json list \<Rightarrow> json list" where "rest_of \<equiv> dropWhile (\<lambda>x. \<not> is_assistant x)"

definition answered :: "(shim_error, open_calls) result \<Rightarrow> bool" where
  "answered r \<longleftrightarrow> (\<exists>S. r = Inr ({}, S))"

lemma rest_starts: "rest_of ms = m # xs \<Longrightarrow> is_assistant m"
  using hd_dropWhile [of "\<lambda>x. \<not> is_assistant x" ms] by auto

lemma pending_stops:
  assumes "P \<noteq> {}"
  shows "\<not> answered (check_messages env (rest_of ms) (P, S))"
proof (cases "rest_of ms")
  case Nil
  from assms show ?thesis unfolding Nil by (simp add: answered_def)
next
  case (Cons m xs)
  from assms rest_starts [OF Cons] show ?thesis unfolding Cons by (auto simp: check_message_def answered_def)
qed

lemma check_lead:
  "answered (check_messages env ms (P, S)) \<longleftrightarrow>
     (\<forall>m \<in> set (lead ms). message_ok m) \<and> distinct (answers (lead ms)) \<and> set (answers (lead ms)) = P \<and>
     answered (check_messages env (rest_of ms) ({}, S))"
proof -
  have lead: "\<forall>m \<in> set (lead ms). \<not> is_assistant m" by (auto dest: set_takeWhileD)
  have "check_messages env ms (P, S) = then_do (check_messages env (lead ms) (P, S)) (check_messages env (rest_of ms))"
    by (simp flip: check_append)
  moreover have "check_messages env (lead ms) (P, S) = Inr st \<longleftrightarrow>
      (\<forall>m \<in> set (lead ms). message_ok m) \<and> distinct (answers (lead ms)) \<and> set (answers (lead ms)) \<subseteq> P \<and> st = (P - set (answers (lead ms)), S)" for st
    using check_segment [OF lead] by (simp add: message_ok_def)
  ultimately have "answered (check_messages env ms (P, S)) \<longleftrightarrow>
      (\<forall>m \<in> set (lead ms). message_ok m) \<and> distinct (answers (lead ms)) \<and> set (answers (lead ms)) \<subseteq> P \<and>
      answered (check_messages env (rest_of ms) (P - set (answers (lead ms)), S))"
    by (auto simp: answered_def then_do_Inr)
  then show ?thesis using pending_stops [of "P - set (answers (lead ms))" env ms S] by (cases "P - set (answers (lead ms)) = {}") auto
qed

lemma turns_rest: "turns (rest_of ms) = turns ms"
proof -
  have "\<forall>m \<in> set (lead ms). \<not> is_assistant m" by (auto dest: set_takeWhileD)
  from turns_segment [OF this, of "rest_of ms"] show ?thesis by simp
qed

lemma check_turns:
  "answered (check_messages env (rest_of ms) ({}, S)) \<longleftrightarrow>
     (\<forall>m \<in> set (rest_of ms). message_ok m) \<and> list_all (turn_ok env) (turns ms) \<and>
     owned_once S (concat (map (calls_of \<circ> fst) (turns ms)))"
proof (induction "length ms" arbitrary: ms S rule: less_induct)
  case less
  show ?case
  proof (cases "rest_of ms")
    case Nil
    then have "turns ms = []" using turns_rest [of ms, symmetric] by (simp only: turns.simps)
    then show ?thesis unfolding Nil by (simp add: answered_def)
  next
    case (Cons m xs)
    then have m: "is_assistant m" by (rule rest_starts)
    have "length xs < length ms" using Cons length_dropWhile_le [of "\<lambda>x. \<not> is_assistant x" ms] by simp
    note IH = less [OF this]
    let ?ids = "call_id ` set (calls_of m)"
    have turns: "turns ms = (m, lead xs) # turns xs" using turns_rest [of ms] Cons m by simp
    have step: "check_message env m ({}, S) = Inr st \<longleftrightarrow> message_ok m \<and> list_all (call_ok env) (calls_of m) \<and> distinct (map call_id (calls_of m)) \<and>
        owned_once S (calls_of m) \<and> st = (?ids, S \<union> ?ids)" for st
      using m not_both [OF m] check_calls_Inr [of env "calls_of m" "{}" S st]
      by (auto simp: check_message_def message_ok_def calls_of_def)
    have "answered (check_messages env (m # xs) ({}, S)) \<longleftrightarrow> message_ok m \<and> list_all (call_ok env) (calls_of m) \<and>
        distinct (map call_id (calls_of m)) \<and> owned_once S (calls_of m) \<and> answered (check_messages env xs (?ids, S \<union> ?ids))"
      by (auto simp: answered_def then_do_Inr step)
    also have "\<dots> \<longleftrightarrow> (\<forall>x \<in> set (m # xs). message_ok x) \<and> list_all (turn_ok env) (turns ms) \<and>
        owned_once S (concat (map (calls_of \<circ> fst) (turns ms)))"
      unfolding check_lead [of env xs] IH turns
      using set_append [of "lead xs" "rest_of xs"] by (auto simp: turn_ok_def owned_once_append)
    finally show ?thesis using Cons by simp
  qed
qed

text \<open>C26. The check of a conversation accepts exactly the well-paired ones: every assistant message's calls have an id, a
  function name and complete JSON arguments, their ids are distinct, and each is answered by exactly one tool result
  before the next assistant message or the end; no result stands anywhere else, and a call the crate owns never
  reuses the id of an earlier call.\<close>

theorem history_check_exact:
  "validate_history env ms = Inr () \<longleftrightarrow> conversation_ok env ms"
proof -
  have "validate_history env ms = Inr () \<longleftrightarrow> answered (check_messages env ms ({}, {}))"
    by (auto simp: validate_history_def then_do_Inr answered_def split: if_splits)
  also have "\<dots> \<longleftrightarrow> (\<forall>m \<in> set (lead ms) \<union> set (rest_of ms). message_ok m) \<and> answers (lead ms) = [] \<and>
      list_all (turn_ok env) (turns ms) \<and> owned_once {} (concat (map (calls_of \<circ> fst) (turns ms)))"
    unfolding check_lead [of env ms] check_turns by auto
  also have "set (lead ms) \<union> set (rest_of ms) = set ms"
    by (metis set_append takeWhile_dropWhile_id)
  finally show ?thesis unfolding conversation_ok_def message_ok_def .
qed

section \<open>Owned identities\<close>

text \<open>The maps that insertions, registrations and lookups for a target build.\<close>

inductive built :: "tool_env \<Rightarrow> tool_call_map \<Rightarrow> bool" for env where
  built_empty: "built env empty_map"
| built_insert: "built env m \<Longrightarrow> map_insert cid bs m = Inr m' \<Longrightarrow> built env m'"
| built_register: "built env m \<Longrightarrow> register_id env b n m = Inr (cid, n', m') \<Longrightarrow> built env m'"
| built_target: "built env m \<Longrightarrow> wire_for_target cid target m = Inr (b, m') \<Longrightarrow> built env m'"

lemma built_recorded: "built env m \<Longrightarrow> tool_ids.recorded m"
proof (induction rule: built.induct)
  case (built_register m b n cid n' m')
  then show ?case
    by (auto simp: register_id_def then_do_Inr intro: tool_ids.record_more split: option.splits)
next
  case (built_target m cid target b m')
  then show ?case
    by (auto simp: wire_for_target_def then_do_Inr intro: tool_ids.record_more split: option.splits)
qed (auto intro: tool_ids.start tool_ids.record_more)

text \<open>C27. A wire identity belongs to one call: however a map of identities is built, no two owned calls share a wire
  identity, and looking a wire identity up gives the call that it was recorded for.\<close>

theorem wire_identity_unique:
  assumes "built env m" and "v \<in> set (wires_of m i)" and "w \<in> set (wires_of m j)" and "wire_key v = wire_key w"
  shows "i = j \<and> internal_id v m = Some i"
  using tool_ids.one_owner [OF built_recorded [OF assms(1)] assms(2,3), of w] assms(2-4)
    owner_iff [OF tool_ids.recorded_inv [OF built_recorded [OF assms(1)]], of v i]
  by (auto simp: same_wire_def)

theorem wire_identity_unique_witness:
  "internal_id (replay_binding ''call_ls_1'' \<lparr>rt_provider = ''openai'', rt_model = ''m'', rt_wire = OpenAiChat, rt_account = None\<rparr>)
    (add_binding ''call_ls_1''
      (replay_binding ''call_ls_1'' \<lparr>rt_provider = ''openai'', rt_model = ''m'', rt_wire = OpenAiChat, rt_account = None\<rparr>) empty_map)
    = Some ''call_ls_1''"
proof -
  let ?b = "replay_binding ''call_ls_1'' \<lparr>rt_provider = ''openai'', rt_model = ''m'', rt_wire = OpenAiChat, rt_account = None\<rparr>"
  let ?env = "\<lparr>te_read = (\<lambda>t. (SBad, True)), te_render = (\<lambda>_. []), te_decode = (\<lambda>_. None), te_uuid = decimal,
    te_signature = (\<lambda>_ _. JNull), te_size_binding = 160, te_size_signature = 160, te_size_origin = 136\<rparr>"
  have "map_insert ''call_ls_1'' [?b] empty_map = Inr (add_binding ''call_ls_1'' ?b empty_map)"
    by (simp add: map_insert_def replay_binding_def empty_map_def starts_with_def CALL_PREFIX_def)
  then have "built ?env (add_binding ''call_ls_1'' ?b empty_map)" by (rule built_insert [OF built_empty])
  moreover have "?b \<in> set (wires_of (add_binding ''call_ls_1'' ?b empty_map) ''call_ls_1'')"
    by (simp add: wires_of_def wire_ids_def add_binding_def empty_map_def)
  ultimately show ?thesis using wire_identity_unique by blast
qed

end
