(* ===== verification/ToolRequests.thy ===== *)
theory ToolRequests
  imports ToolCalls
begin

text \<open>
  The request side of tool calls: what a request keeps of Responses-only controls on another transport
  (\<open>responses_tools.rs\<close>) and the translation of the identities of its calls and results to one target
  (\<open>toolcall::prepare_request\<close>).
\<close>

section \<open>Responses controls on other transports\<close>

definition strip_fields :: "json \<Rightarrow> json" where
  "strip_fields message =
     fold remove_key [''reasoning'', ''reasoning_content'', ''reasoning_signature'', ''redacted_reasoning_content'',
       ''reasoning_origin'', ''reasoning_details'', ''thinking_blocks''] message"

definition supports_verbosity :: "replay_target \<Rightarrow> bool" where
  "supports_verbosity target \<longleftrightarrow> rt_wire target = OpenAiResponses \<and> rt_provider target \<noteq> ''xai''"

definition str_in :: "string option \<Rightarrow> string list \<Rightarrow> bool" where
  "str_in s options \<longleftrightarrow> (case s of Some t \<Rightarrow> t \<in> set options | None \<Rightarrow> False)"

definition native_only :: "json \<Rightarrow> bool" where
  "native_only request \<longleftrightarrow>
     (let controls = index request ''x-responses-controls''
      in list_ex (\<lambda>m. get m ''x-responses-item'' \<noteq> None) (items_at request ''messages'') \<or>
         get controls ''access_programs'' \<noteq> None \<or>
         is_u64 (index (index controls ''reasoning'') ''effort'') \<or>
         str_in (str_at (index controls ''reasoning'') ''summary'') [''concise'', ''detailed''] \<or>
         list_ex (\<lambda>tool. str_in (str_at tool ''type'') [''web_search'', ''tool_search'']) (items_at request ''x-responses-tools''))"

definition rposition :: "('a \<Rightarrow> bool) \<Rightarrow> 'a list \<Rightarrow> nat option" where
  "rposition p xs = (if list_ex p xs then Some (length xs - 1 - length (takeWhile (\<lambda>x. \<not> p x) (rev xs))) else None)"

definition strip_earlier :: "json \<Rightarrow> json" where
  "strip_earlier messages =
     (case messages of
        JArray ms \<Rightarrow>
          (let current = (case rposition (\<lambda>m. has_str m ''role'' ''user'') ms of Some i \<Rightarrow> i | None \<Rightarrow> 0)
           in JArray (map strip_fields (take current ms) @ drop current ms))
      | v \<Rightarrow> v)"

fun join_lines :: "string list \<Rightarrow> string" where
  "join_lines [] = []"
| "join_lines [t] = t"
| "join_lines (t # ts) = t @ [CHR 0x0A] @ join_lines ts"

definition transport_message :: "replay_target \<Rightarrow> json \<Rightarrow> (shim_error, json) result" where
  "transport_message target message =
     then_do
       (case get message ''x-responses-output'' of
          Some (JArray parts) \<Rightarrow>
            if list_ex (\<lambda>part. str_in (str_at part ''type'') [''input_audio'', ''encrypted_content'']) parts \<or>
               (rt_wire target = GoogleGenerateContent \<and> list_ex (\<lambda>part. \<not> has_str part ''type'' ''input_text'') parts)
            then Inl (invalid ''tool output content requires a native Responses provider'')
            else Inr (if list_all (\<lambda>part. has_str part ''type'' ''input_text'') parts
              then insert_key ''content'' (JString (join_lines (List.map_filter (\<lambda>part. str_at part ''text'') parts))) message
              else message)
        | _ \<Rightarrow> Inr message)
       (\<lambda>message. Inr (remove_key ''x-responses-output''
          (edit_key ''tool_calls''
             (\<lambda>calls. case calls of JArray cs \<Rightarrow> JArray (map (remove_key ''x-responses-call'') cs) | v \<Rightarrow> v) message)))"

fun transport_messages :: "replay_target \<Rightarrow> json list \<Rightarrow> (shim_error, json list) result" where
  "transport_messages target [] = Inr []"
| "transport_messages target (m # ms) =
     then_do (transport_message target m) (\<lambda>m'. then_do (transport_messages target ms) (\<lambda>ms'. Inr (m' # ms')))"

definition drop_controls :: "replay_target \<Rightarrow> json \<Rightarrow> json" where
  "drop_controls target request =
     (let request = (if supports_verbosity target then request
        else edit_key ''x-responses-controls'' (edit_key ''text'' (remove_key ''verbosity'')) request)
      in if rt_wire target \<noteq> OpenAiResponses \<and>
            has_str (index (index request ''x-responses-controls'') ''reasoning'') ''context'' ''current_turn''
         then edit_key ''messages'' strip_earlier
           (if get request ''messages'' = None then insert_key ''messages'' JNull request else request)
         else request)"

definition prepare_transport :: "json \<Rightarrow> replay_target \<Rightarrow> (shim_error, json) result" where
  "prepare_transport request target =
     (if (rt_wire target = GoogleGenerateContent \<or> rt_provider target = ''xai'') \<and>
         (get request ''parallel_tool_calls'' \<noteq> None \<or> get (index request ''x-responses-controls'') ''parallel_tool_calls'' \<noteq> None)
      then Inl (invalid ''parallel_tool_calls is unsupported by this provider'')
      else if rt_wire target \<noteq> OpenAiResponses \<and> native_only request
      then Inl (invalid ''requested Responses controls or hosted tools require a native provider'')
      else
        let request = drop_controls target request
        in case get request ''messages'' of
            Some (JArray ms) \<Rightarrow>
              if rt_wire target \<noteq> OpenAiResponses
              then then_do (transport_messages target ms) (\<lambda>ms'. Inr (edit_key ''messages'' (\<lambda>_. JArray ms') request))
              else Inr request
          | _ \<Rightarrow> Inr request)"

section \<open>Renaming calls and results\<close>

record call_renaming =
  cr_map :: tool_call_map
  cr_calls :: "(string, wire_tool_id \<times> string \<times> string \<times> nat) hash_map"
  cr_order :: nat
  cr_minted :: nat

definition SIGNATURE_FIELD :: string where "SIGNATURE_FIELD = ''extra_content.google.thought_signature''"

definition resolve_call ::
  "tool_env \<Rightarrow> replay_target \<Rightarrow> string \<Rightarrow> nat \<Rightarrow> string \<Rightarrow> json \<Rightarrow> call_renaming \<Rightarrow> (shim_error, string \<times> call_renaming) result" where
  "resolve_call env target scope i logical tc st =
     (case get tc ''wire_ids'' of
        Some stored \<Rightarrow>
          (case te_decode env stored of
             None \<Rightarrow> Inl (invalid ''malformed wire mapping'')
           | Some bs \<Rightarrow> then_do (map_insert logical bs (cr_map st)) (\<lambda>m. Inr (logical, st\<lparr>cr_map := m\<rparr>)))
      | None \<Rightarrow>
          if starts_with logical CALL_PREFIX
          then Inl (invalid ''owned call is missing wire_ids; preserve the complete tool call'')
          else then_do (register_id env (binding target scope (decimal i)
                 (if rt_wire target = GoogleGenerateContent then None else Some logical) None) (cr_minted st) (cr_map st))
               (\<lambda>(cid, n, m). Inr (cid, st\<lparr>cr_map := m, cr_minted := n\<rparr>)))"

text \<open>The native nested signature of a chat call.\<close>

definition nest_signature :: "json \<Rightarrow> (shim_error, json) result" where
  "nest_signature tc =
     (case get tc ''thought_signature'' of
        None \<Rightarrow> Inr tc
      | Some sig \<Rightarrow>
          let tc = remove_key ''thought_signature'' tc;
              extra = (case get tc ''extra_content'' of Some x \<Rightarrow> x | None \<Rightarrow> JObject [])
          in if \<not> is_object extra then Inl (invalid ''signature container must be an object'')
             else
               let extra = (if get extra ''google'' = None then insert_key ''google'' (JObject []) extra else extra)
               in if \<not> is_object (index extra ''google'') then Inl (invalid ''signature container must be an object'')
                  else Inr (insert_key ''extra_content''
                    (insert_key ''google'' (insert_key ''thought_signature'' sig (index extra ''google'')) extra) tc))"

definition option_str :: "string option \<Rightarrow> json" where
  "option_str x = (case x of Some t \<Rightarrow> JString t | None \<Rightarrow> JNull)"

definition wire_name :: "wire_tool_id \<Rightarrow> string \<Rightarrow> string" where
  "wire_name wire internal = (case wt_id wire of Some t \<Rightarrow> t | None \<Rightarrow> internal)"

definition rewrite_call :: "replay_target \<Rightarrow> wire_tool_id \<Rightarrow> string \<Rightarrow> json \<Rightarrow> (shim_error, json) result" where
  "rewrite_call target wire internal tc =
     (let tc = remove_key ''index'' (remove_key ''wire_ids'' (insert_key ''id'' (JString (wire_name wire internal)) tc))
      in then_do
           (if rt_wire target = OpenAiChat \<and> wt_signature_field wire = Some SIGNATURE_FIELD then nest_signature tc else Inr tc)
           (\<lambda>tc.
              let tc = (if rt_wire target = OpenAiResponses
                     then (case wt_item_id wire of Some item \<Rightarrow> insert_key ''_llmshim_item_id'' (JString item) tc | None \<Rightarrow> tc)
                     else tc)
              in Inr (if rt_wire target = GoogleGenerateContent then insert_key ''_llmshim_wire_id'' (option_str (wt_id wire)) tc else tc)))"

definition prepare_call ::
  "tool_env \<Rightarrow> replay_target \<Rightarrow> string \<Rightarrow> bool \<Rightarrow> nat \<Rightarrow> json \<Rightarrow> call_renaming \<Rightarrow> (shim_error, json \<times> call_renaming) outcome" where
  "prepare_call env target scope needs_signature i tc st =
     bind_outcome (unwrap (str_at tc ''id'')) (\<lambda>logical.
     bind_outcome (lift (resolve_call env target scope i logical tc st)) (\<lambda>(internal, st).
     bind_outcome (lift (wire_for_target internal target (cr_map st))) (\<lambda>(wire, m).
     bind_outcome (unwrap (str_at (index tc ''function'') ''name'')) (\<lambda>name.
       if needs_signature \<and> i = 0 \<and> \<not> is_nonempty (str_at tc ''thought_signature'')
       then fails (invalid ''first Gemini tool call is missing a compatible thought signature'')
       else bind_outcome (lift (rewrite_call target wire internal tc)) (\<lambda>tc'.
         ok (tc', st\<lparr>cr_map := m, cr_calls := AList.update logical (wire, name, internal, cr_order st) (cr_calls st),
                    cr_order := Suc (cr_order st)\<rparr>))))))"

fun prepare_calls ::
  "tool_env \<Rightarrow> replay_target \<Rightarrow> string \<Rightarrow> bool \<Rightarrow> nat \<Rightarrow> json list \<Rightarrow> call_renaming \<Rightarrow> (shim_error, json list \<times> call_renaming) outcome" where
  "prepare_calls env target scope needs_signature i [] st = ok ([], st)"
| "prepare_calls env target scope needs_signature i (tc # calls) st =
     bind_outcome (prepare_call env target scope needs_signature i tc st) (\<lambda>(tc', st).
     bind_outcome (prepare_calls env target scope needs_signature (Suc i) calls st) (\<lambda>(calls', st).
       ok (tc' # calls', st)))"

definition mark_error :: "tool_env \<Rightarrow> json \<Rightarrow> json" where
  "mark_error env content =
     (case content of
        JString t \<Rightarrow> JString (''Tool error: '' @ t)
      | JArray blocks \<Rightarrow> JArray (JObject [(''text'', JString ''Tool error:''), (''type'', JString ''text'')] # blocks)
      | v \<Rightarrow> JString (''Tool error: '' @ te_render env v))"

definition result_error :: "tool_env \<Rightarrow> replay_target \<Rightarrow> json \<Rightarrow> json" where
  "result_error env target message =
     (if rt_wire target = AnthropicMessages then message
      else
        let flagged = get message ''is_error'' = Some (JBool True);
            message = remove_key ''is_error'' message
        in if flagged then insert_key ''content'' (mark_error env (index message ''content'')) message else message)"

definition rewrite_result :: "replay_target \<Rightarrow> wire_tool_id \<times> string \<times> string \<times> nat \<Rightarrow> json \<Rightarrow> json" where
  "rewrite_result target known message =
     (case known of (wire, name, internal, order) \<Rightarrow>
        let message = insert_key ''tool_call_id'' (JString (wire_name wire internal)) message
        in if rt_wire target = GoogleGenerateContent
           then insert_key ''_llmshim_wire_id'' (option_str (wt_id wire))
             (insert_key ''_llmshim_call_order'' (JNumber (PosInt order)) (insert_key ''name'' (JString name) message))
           else message)"

definition name_differs :: "json \<Rightarrow> string \<Rightarrow> bool" where
  "name_differs message name \<longleftrightarrow> (case str_at message ''name'' of Some n \<Rightarrow> n \<noteq> name | None \<Rightarrow> False)"

definition prepare_result :: "tool_env \<Rightarrow> replay_target \<Rightarrow> json \<Rightarrow> call_renaming \<Rightarrow> (shim_error, json) outcome" where
  "prepare_result env target message st =
     bind_outcome (if is_object message then ok (result_error env target message) else None) (\<lambda>message.
     bind_outcome (unwrap (str_at message ''tool_call_id'')) (\<lambda>logical.
       case map_of (cr_calls st) logical of
         None \<Rightarrow> fails (invalid ''result mapping is missing'')
       | Some known \<Rightarrow>
           if name_differs message (fst (snd known))
           then fails (invalid ''result name does not match the call'')
           else ok (rewrite_result target known message)))"

definition prepare_message ::
  "tool_env \<Rightarrow> replay_target \<Rightarrow> string \<Rightarrow> nat option \<Rightarrow> nat \<Rightarrow> json \<Rightarrow> call_renaming \<Rightarrow> (shim_error, json \<times> call_renaming) outcome" where
  "prepare_message env target scope current_turn mi message st =
     (if is_assistant message then
        (case get message ''tool_calls'' of
           Some (JArray calls) \<Rightarrow>
             bind_outcome
               (prepare_calls env target (scope @ ''/'' @ decimal mi)
                  (rt_wire target = GoogleGenerateContent \<and> (case current_turn of Some start \<Rightarrow> start < mi | None \<Rightarrow> True) \<and>
                   \<not> starts_with (rt_model target) ''gemini-2'') 0 calls st)
               (\<lambda>(calls', st). ok (edit_key ''tool_calls'' (\<lambda>_. JArray calls') message, st))
         | _ \<Rightarrow> ok (message, st))
      else if is_tool message then bind_outcome (prepare_result env target message st) (\<lambda>message'. ok (message', st))
      else ok (message, st))"

fun prepare_messages ::
  "tool_env \<Rightarrow> replay_target \<Rightarrow> string \<Rightarrow> nat option \<Rightarrow> nat \<Rightarrow> json list \<Rightarrow> call_renaming \<Rightarrow> (shim_error, json list \<times> call_renaming) outcome" where
  "prepare_messages env target scope current_turn mi [] st = ok ([], st)"
| "prepare_messages env target scope current_turn mi (m # ms) st =
     bind_outcome (prepare_message env target scope current_turn mi m st) (\<lambda>(m', st).
     bind_outcome (prepare_messages env target scope current_turn (Suc mi) ms st) (\<lambda>(ms', st). ok (m' # ms', st)))"

text \<open>Gemini answers the calls of a turn in their order: each run of results is sorted by the order of its calls.\<close>

definition call_order :: "json \<Rightarrow> nat" where
  "call_order m = (case u64_at m ''_llmshim_call_order'' of Some n \<Rightarrow> n | None \<Rightarrow> 0)"

function sort_runs :: "json list \<Rightarrow> json list" where
  "sort_runs [] = []"
| "sort_runs (m # ms) =
     (if is_tool m
      then map (remove_key ''_llmshim_call_order'') (sort_key call_order (m # takeWhile is_tool ms)) @ sort_runs (dropWhile is_tool ms)
      else m # sort_runs ms)"
  by pat_completeness auto
termination
  by (relation "measure length") (auto simp: le_imp_less_Suc length_dropWhile_le)

definition new_renaming :: "nat \<Rightarrow> call_renaming" where
  "new_renaming n = \<lparr>cr_map = empty_map, cr_calls = [], cr_order = 0, cr_minted = n\<rparr>"

definition prepare_request :: "tool_env \<Rightarrow> json \<Rightarrow> replay_target \<Rightarrow> (shim_error, json) outcome" where
  "prepare_request env request target =
     bind_outcome (lift (prepare_transport request target)) (\<lambda>request.
     bind_outcome (lift (validate_request_history env request (rt_wire target))) (\<lambda>_.
       case get request ''messages'' of
         Some (JArray ms) \<Rightarrow>
           bind_outcome
             (prepare_messages env target (te_uuid env 0) (rposition (\<lambda>m. has_str m ''role'' ''user'') ms) 0 ms (new_renaming 1))
             (\<lambda>(ms', _). ok (edit_key ''messages''
                (\<lambda>_. JArray (if rt_wire target = GoogleGenerateContent then sort_runs ms' else ms')) request))
       | _ \<Rightarrow> ok request))"

section \<open>The unwraps are safe\<close>

definition call_readable :: "json \<Rightarrow> bool" where
  "call_readable tc \<longleftrightarrow> str_at tc ''id'' \<noteq> None \<and> str_at (index tc ''function'') ''name'' \<noteq> None"

definition message_readable :: "json \<Rightarrow> bool" where
  "message_readable m \<longleftrightarrow> (is_assistant m \<longrightarrow> list_all call_readable (calls_of m)) \<and> (is_tool m \<longrightarrow> str_at m ''tool_call_id'' \<noteq> None)"

lemma path_str_2: "path_str v [k, l] = str_at (index v k) l"
  by (simp add: path_str_def str_at_def index_def split: option.splits)

lemma call_ok_readable: "call_ok env tc \<Longrightarrow> call_readable tc"
  by (auto simp: call_ok_def call_readable_def is_nonempty_def path_str_2 split: option.splits)

lemma turns_assistants: "fst ` set (turns ms) = {m \<in> set ms. is_assistant m}"
  by (induction ms) auto

lemma conversation_readable:
  assumes "conversation_ok env ms"
  shows "list_all message_readable ms"
proof -
  have "list_all call_readable (calls_of m)" if "m \<in> set ms" "is_assistant m" for m
  proof -
    have "m \<in> fst ` set (turns ms)" using that by (simp add: turns_assistants)
    then have "list_all (call_ok env) (calls_of m)"
      using assms by (auto simp: conversation_ok_def turn_ok_def list_all_iff)
    then show ?thesis by (auto simp: list_all_iff intro: call_ok_readable)
  qed
  with assms show ?thesis by (auto simp: message_readable_def conversation_ok_def list_all_iff)
qed

lemma calls_of_insert: "is_object m \<Longrightarrow> calls_of (insert_key ''tool_calls'' (JArray cs) m) = cs"
  by (simp add: calls_of_def items_at_def elements_def index_def get_insert_key)

lemma role_insert: "is_object m \<Longrightarrow> has_str (insert_key ''tool_calls'' x m) ''role'' r \<longleftrightarrow> has_str m ''role'' r"
  by (simp add: has_str_iff get_insert_key)

lemma merge_readable: "list_all message_readable (merge_turns ms ts) \<Longrightarrow> list_all message_readable (ts @ ms)"
proof (induction ms ts rule: merge_turns.induct)
  case (2 m ms turns)
  show ?case
  proof (cases "plain_assistant m \<and> turns \<noteq> [] \<and> plain_assistant (last turns)")
    case True
    let ?last = "insert_key ''tool_calls'' (JArray (items_at (last turns) ''tool_calls'' @ items_at m ''tool_calls'')) (last turns)"
    have obj: "is_object (last turns)" using True by (auto simp: plain_assistant_def dest: has_str_object)
    have "list_all message_readable (butlast turns @ ?last # ms)" using 2(1) [OF True] 2(3) True by simp
    then have rest: "list_all message_readable (butlast turns)" "message_readable ?last" "list_all message_readable ms" by simp_all
    have "list_all call_readable (calls_of (last turns))" "list_all call_readable (calls_of m)"
      using rest(2) True obj by (auto simp: message_readable_def role_insert calls_of_insert plain_assistant_def calls_of_def [symmetric])
    then have "message_readable (last turns)" "message_readable m"
      using True not_both by (simp_all add: message_readable_def plain_assistant_def)
    moreover have "turns = butlast turns @ [last turns]" using True by simp
    ultimately show ?thesis using rest(1,3) by (metis list.pred_inject(1,2) list_all_append)
  next
    case False
    with 2 show ?thesis by simp
  qed
qed simp

lemma validated_readable:
  assumes "validate_request_history env request wire = Inr ()" and "get request ''messages'' = Some (JArray ms)"
  shows "list_all message_readable ms"
proof -
  from assms have "conversation_ok env ms \<or> conversation_ok env (merge_turns ms [])"
    by (auto simp: validate_request_history_def index_def split: if_splits simp flip: history_check_exact)
  then show ?thesis using conversation_readable merge_readable [of ms "[]"] by auto
qed

lemma prepare_call_total: "call_readable tc \<Longrightarrow> \<not> panics (prepare_call env target scope need i tc st)"
  by (auto simp: prepare_call_def call_readable_def split: prod.splits)

lemma prepare_calls_total: "list_all call_readable calls \<Longrightarrow> \<not> panics (prepare_calls env target scope need i calls st)"
  by (induction calls arbitrary: i st) (auto simp: prepare_call_total split: prod.splits)

lemma result_error_id: "is_object m \<Longrightarrow> str_at (result_error env target m) ''tool_call_id'' = str_at m ''tool_call_id''"
  by (simp add: str_at_def index_def result_error_def Let_def json_edit)

lemma prepare_result_total: "is_object m \<Longrightarrow> str_at m ''tool_call_id'' \<noteq> None \<Longrightarrow> \<not> panics (prepare_result env target m st)"
  by (auto simp: prepare_result_def result_error_id Let_def split: option.splits)

lemma prepare_message_total:
  assumes "message_readable m"
  shows "\<not> panics (prepare_message env target scope cur mi m st)"
proof (cases "is_assistant m")
  case True
  then have "list_all call_readable calls" if "get m ''tool_calls'' = Some (JArray calls)" for calls
    using assms that by (simp add: message_readable_def calls_of_def items_at_def elements_def index_def)
  with True show ?thesis by (auto simp: prepare_message_def prepare_calls_total split: option.splits json.splits)
next
  case False
  with assms show ?thesis
    by (auto simp: prepare_message_def message_readable_def prepare_result_total dest: has_str_object)
qed

lemma prepare_messages_total: "list_all message_readable ms \<Longrightarrow> \<not> panics (prepare_messages env target scope cur mi ms st)"
  by (induction ms arbitrary: mi st) (auto simp: prepare_message_total split: prod.splits)

section \<open>Results follow their calls\<close>

text \<open>The walk that a reader of the original and of the translated conversation makes: calls give their ids new names,
  and a result must carry the name its call has been given last.\<close>

definition rename_calls :: "json list \<Rightarrow> json list \<Rightarrow> (string \<rightharpoonup> string) \<Rightarrow> (string \<rightharpoonup> string)" where
  "rename_calls calls calls' ren = fold (\<lambda>(tc, tc') r. r(call_id tc \<mapsto> call_id tc')) (zip calls calls') ren"

fun ids_follow :: "(string \<rightharpoonup> string) \<Rightarrow> json list \<Rightarrow> json list \<Rightarrow> bool" where
  "ids_follow ren [] [] \<longleftrightarrow> True"
| "ids_follow ren (m # ms) (m' # ms') \<longleftrightarrow>
     index m' ''role'' = index m ''role'' \<and>
     (if is_assistant m
      then length (calls_of m') = length (calls_of m) \<and> ids_follow (rename_calls (calls_of m) (calls_of m') ren) ms ms'
      else (is_tool m \<longrightarrow> str_at m' ''tool_call_id'' = ren (the (str_at m ''tool_call_id'')) \<and> str_at m' ''tool_call_id'' \<noteq> None) \<and>
        ids_follow ren ms ms')"
| "ids_follow ren _ _ \<longleftrightarrow> False"

definition names_given :: "call_renaming \<Rightarrow> (string \<rightharpoonup> string)" where
  "names_given st = map_option (\<lambda>(wire, _, internal, _). wire_name wire internal) \<circ> map_of (cr_calls st)"

lemma rewrite_call_id:
  assumes "is_object tc" and "rewrite_call target wire internal tc = Inr tc'"
  shows "str_at tc' ''id'' = Some (wire_name wire internal)"
  using assms
  by (auto simp: rewrite_call_def nest_signature_def str_at_def index_def Let_def then_do_Inr json_edit
      split: if_splits option.splits)

lemma prepare_call_names:
  assumes "prepare_call env target scope need i tc st = ok (tc', st')"
  shows "names_given st' = (names_given st)(call_id tc \<mapsto> call_id tc')"
proof -
  from assms obtain logical internal st1 wire m name where
    *: "str_at tc ''id'' = Some logical" "resolve_call env target scope i logical tc st = Inr (internal, st1)"
      "rewrite_call target wire internal tc = Inr tc'"
      "st' = st1\<lparr>cr_map := m, cr_calls := AList.update logical (wire, name, internal, cr_order st1) (cr_calls st1), cr_order := Suc (cr_order st1)\<rparr>"
    by (auto simp: prepare_call_def bind_outcome_ok split: if_splits)
  have "cr_calls st1 = cr_calls st" using *(2)
    by (auto simp: resolve_call_def then_do_Inr split: option.splits if_splits)
  moreover have "call_id tc' = wire_name wire internal"
    using rewrite_call_id [OF get_object *(3)] *(1) by (simp add: call_id_def str_at_Some [of tc])
  ultimately show ?thesis using * by (auto simp: names_given_def call_id_def hash_map_simps fun_eq_iff)
qed

lemma prepare_calls_names:
  assumes "prepare_calls env target scope need i calls st = ok (calls', st')"
  shows "length calls' = length calls \<and> names_given st' = rename_calls calls calls' (names_given st)"
  using assms
proof (induction calls arbitrary: i st calls')
  case (Cons tc calls)
  then obtain tc' cs st1 where *: "prepare_call env target scope need i tc st = ok (tc', st1)"
      "prepare_calls env target scope need (Suc i) calls st1 = ok (cs, st')" "calls' = tc' # cs"
    by (auto simp: bind_outcome_ok)
  from Cons.IH [OF *(2)] prepare_call_names [OF *(1)] *(3) show ?case by (simp add: rename_calls_def del: fun_upd_apply)
qed (simp add: rename_calls_def)

lemma prepare_result_names:
  assumes "prepare_result env target m st = ok m'"
  shows "str_at m' ''tool_call_id'' = names_given st (the (str_at m ''tool_call_id''))" and "str_at m' ''tool_call_id'' \<noteq> None"
    and "index m' ''role'' = index m ''role''"
proof -
  have obj: "is_object m" using assms by (auto simp: prepare_result_def bind_outcome_ok split: if_splits)
  then obtain logical where logical: "str_at m ''tool_call_id'' = Some logical"
    using assms by (auto simp: prepare_result_def bind_outcome_ok result_error_id)
  obtain known where "map_of (cr_calls st) logical = Some known" "m' = rewrite_result target known (result_error env target m)"
    using assms obj logical
    by (cases "map_of (cr_calls st) logical") (auto simp: prepare_result_def result_error_id split: if_splits)
  note * = obj logical this
  obtain wire name internal order where known: "known = (wire, name, internal, order)" by (cases known)
  have obj: "is_object (result_error env target m)" using *(1) by (simp add: result_error_def Let_def)
  have "str_at m' ''tool_call_id'' = Some (wire_name wire internal)"
    unfolding *(4) str_at_def index_def rewrite_result_def known Let_def by (auto simp: obj json_edit)
  with *(2,3) known show "str_at m' ''tool_call_id'' = names_given st (the (str_at m ''tool_call_id''))" "str_at m' ''tool_call_id'' \<noteq> None"
    by (auto simp: names_given_def)
  show "index m' ''role'' = index m ''role''"
    using *(1) unfolding *(4) index_def rewrite_result_def known Let_def result_error_def by (auto simp: json_edit Let_def)
qed

lemma index_edit_other: "k' \<noteq> k \<Longrightarrow> index (edit_key k f v) k' = index v k'"
  by (simp add: index_def json_edit)

lemma prepare_messages_follow:
  assumes "prepare_messages env target scope cur mi ms st = ok (ms', st')" and "list_all message_readable ms"
  shows "ids_follow (names_given st) ms ms'"
  using assms
proof (induction ms arbitrary: mi st ms')
  case (Cons m ms)
  then obtain m' cs st1 where *: "prepare_message env target scope cur mi m st = ok (m', st1)"
      "prepare_messages env target scope cur (Suc mi) ms st1 = ok (cs, st')" "ms' = m' # cs"
    by (auto simp: bind_outcome_ok)
  have IH: "ids_follow (names_given st1) ms cs" using Cons.IH [OF *(2)] Cons.prems(2) by simp
  show ?case
  proof (cases "is_assistant m")
    case asst: True
    show ?thesis
    proof (cases "\<exists>calls. get m ''tool_calls'' = Some (JArray calls)")
      case True
      then obtain calls where calls: "get m ''tool_calls'' = Some (JArray calls)" by blast
      with *(1) asst obtain calls' need where prep: "prepare_calls env target (scope @ ''/'' @ decimal mi) need 0 calls st = ok (calls', st1)"
          "m' = edit_key ''tool_calls'' (\<lambda>_. JArray calls') m"
        by (auto simp: prepare_message_def bind_outcome_ok)
      have "calls_of m = calls" "calls_of m' = calls'"
        using calls prep(2) by (simp_all add: calls_of_def items_at_def elements_def index_def json_edit)
      with prepare_calls_names [OF prep(1)] prep(2) IH asst *(3) show ?thesis by (simp add: index_edit_other)
    next
      case False
      with *(1) asst have "m' = m" "st1 = st" by (auto simp: prepare_message_def split: option.splits json.splits)
      moreover have "calls_of m = []"
        using False by (auto simp: calls_of_def items_at_def elements_def index_def split: option.splits json.splits)
      ultimately show ?thesis using IH asst *(3) by (simp add: rename_calls_def)
    qed
  next
    case False
    with *(1) have "st1 = st" "is_tool m \<Longrightarrow> prepare_result env target m st = ok m'" "\<not> is_tool m \<Longrightarrow> m' = m"
      by (auto simp: prepare_message_def bind_outcome_ok split: if_splits)
    with False IH *(3) prepare_result_names [of env target m st m'] show ?thesis by auto
  qed
qed auto

section \<open>Properties\<close>

lemma prepare_request_cases:
  assumes "prepare_transport request target = Inr q" and "validate_request_history env q (rt_wire target) = Inr ()"
    and "get q ''messages'' = Some (JArray ms)"
  shows "prepare_request env request target =
    bind_outcome (prepare_messages env target (te_uuid env 0) (rposition (\<lambda>m. has_str m ''role'' ''user'') ms) 0 ms (new_renaming 1))
      (\<lambda>(ms', _). ok (edit_key ''messages'' (\<lambda>_. JArray (if rt_wire target = GoogleGenerateContent then sort_runs ms' else ms')) q))"
  using assms by (simp add: prepare_request_def)

text \<open>Preparing a request for a target never panics, whatever the request is: every unwrap of the translation is
  covered by the check of the conversation that precedes it.\<close>

lemma prepare_request_total: "\<not> panics (prepare_request env request target)"
proof -
  have "\<not> panics (prepare_messages env target scope cur mi ms st)"
    if "validate_request_history env q (rt_wire target) = Inr ()" "get q ''messages'' = Some (JArray ms)" for q ms scope cur mi st
    using prepare_messages_total [OF validated_readable [OF that]] .
  then show ?thesis by (auto simp: prepare_request_def split: option.splits json.splits)
qed

text \<open>In a prepared request every tool result carries exactly the identifier that its call was given: walking the
  conversation, calls keep their number and order, and the result for a call is renamed to the new name of that
  call. For Gemini the results of a run are then put in the order of their calls.\<close>

lemma results_follow_calls:
  assumes "prepare_transport request target = Inr q" and "get q ''messages'' = Some (JArray ms)"
    and "prepare_request env request target = ok r"
  shows "\<exists>ms'. ids_follow Map.empty ms ms' \<and>
    get r ''messages'' = Some (JArray (if rt_wire target = GoogleGenerateContent then sort_runs ms' else ms'))"
proof -
  have valid: "validate_request_history env q (rt_wire target) = Inr ()"
    using assms by (auto simp: prepare_request_def bind_outcome_ok)
  with prepare_request_cases [OF assms(1) _ assms(2)] assms(3) obtain ms' st where
    prep: "prepare_messages env target (te_uuid env 0) (rposition (\<lambda>m. has_str m ''role'' ''user'') ms) 0 ms (new_renaming 1) = ok (ms', st)"
    "r = edit_key ''messages'' (\<lambda>_. JArray (if rt_wire target = GoogleGenerateContent then sort_runs ms' else ms')) q"
    by (auto simp: bind_outcome_ok)
  have "names_given (new_renaming 1) = Map.empty" by (auto simp: names_given_def new_renaming_def)
  with prepare_messages_follow [OF prep(1) validated_readable [OF valid assms(2)]] prep(2) assms(2) show ?thesis
    by (intro exI [of _ ms']) (simp add: json_edit)
qed

definition demo_tool_env :: tool_env where
  "demo_tool_env = \<lparr>te_read = (\<lambda>t. if t = ''{}'' then (SMap [] True, True) else (SBad, True)), te_render = (\<lambda>_. []),
     te_decode = (\<lambda>_. None), te_uuid = decimal, te_signature = (\<lambda>_ _. JNull), te_size_binding = 160, te_size_signature = 160, te_size_origin = 136\<rparr>"

definition demo_target :: replay_target where
  "demo_target = \<lparr>rt_provider = ''openai'', rt_model = ''m'', rt_wire = OpenAiChat, rt_account = None\<rparr>"

definition demo_conversation :: "json list" where
  "demo_conversation =
     [JObject [(''role'', JString ''assistant''), (''tool_calls'', JArray
        [JObject [(''function'', JObject [(''arguments'', JString ''{}''), (''name'', JString ''f'')]), (''id'', JString ''a'')]])],
      JObject [(''role'', JString ''tool''), (''tool_call_id'', JString ''a'')]]"

lemma demo_arguments: "validate_arguments demo_tool_env ''{}'' False = Inr ()"
proof -
  have "limits_ok limits_INBOUND" by (simp add: limits_ok_def limits_INBOUND_def usize_max_def)
  then show ?thesis unfolding validate_arguments_Inr parse_str_Inr demo_tool_env_def
    by (simp add: parse_source_Inr) (simp add: in_limits_def limits_INBOUND_def size_of_value_def)
qed

lemmas demo_json = demo_conversation_def demo_target_def get_def index_def items_at_def elements_def str_at_def has_str_def is_nonempty_def
  path_str_def insert_key_def edit_key_def remove_key_def is_object_def is_null_def is_array_def nonempty_str_def

lemma demo_valid: "validate_history demo_tool_env demo_conversation = Inr ()"
  by (simp add: validate_history_def demo_json check_message_def bad_tool_calls_def demo_arguments owned_call_def CALL_PREFIX_def starts_with_def)

lemma demo_prepared:
  "prepare_request demo_tool_env (JObject [(''messages'', JArray demo_conversation)]) demo_target =
     ok (JObject [(''messages'', JArray demo_conversation)])"
proof -
  let ?r = "JObject [(''messages'', JArray demo_conversation)]"
  have valid: "validate_request_history demo_tool_env ?r (rt_wire demo_target) = Inr ()"
    by (simp add: validate_request_history_def demo_valid) (simp add: demo_valid demo_target_def index_def get_def)
  have "prepare_transport ?r demo_target = Inr ?r" by code_simp
  from prepare_request_cases [OF this valid] show ?thesis
    by (simp add: demo_json prepare_message_def prepare_call_def resolve_call_def starts_with_def CALL_PREFIX_def binding_def new_renaming_def
        register_id_def empty_map_def wire_key_def map_insert_def mint_def add_binding_def wire_for_target_def rewrite_call_def wire_name_def
        prepare_result_def result_error_def rewrite_result_def name_differs_def demo_tool_env_def decimal_def decimal_rev.simps Let_def)
qed

end
