(* ===== verification/ToolResponses.thy ===== *)
theory ToolResponses
  imports ToolRequests
begin

text \<open>
  The response side of tool calls (\<open>toolcall::capture_response\<close>): every call of a response gets an owned identifier and
  keeps its wire identity, within the budget for derived metadata, so that a later request can be translated back.
\<close>

section \<open>Wire identities as JSON\<close>

fun wire_text :: "wire_format \<Rightarrow> string" where
  "wire_text AnthropicMessages = ''anthropic-messages''"
| "wire_text OpenAiResponses = ''openai-responses''"
| "wire_text OpenAiChat = ''openai-chat''"
| "wire_text GoogleGenerateContent = ''google-generate-content''"

definition optional_member :: "string \<Rightarrow> string option \<Rightarrow> json_object" where
  "optional_member k x = (case x of Some t \<Rightarrow> [(k, JString t)] | None \<Rightarrow> [])"

definition encode_binding :: "wire_tool_id \<Rightarrow> json" where
  "encode_binding b = JObject
     ([(''id'', option_str (wt_id b))] @ optional_member ''item_id'' (wt_item_id b) @
      [(''part_id'', JString (wt_part_id b)), (''provider'', JString (wt_provider b)), (''scope'', JString (wt_scope b))] @
      optional_member ''signature_field'' (wt_signature_field b) @ [(''wire'', JString (wire_text (wt_wire b)))])"

section \<open>Budgeted capture\<close>

definition opt_len :: "string option \<Rightarrow> nat" where
  "opt_len s = (case s of Some t \<Rightarrow> length t | None \<Rightarrow> 0)"

fun checked_sum :: "nat list \<Rightarrow> nat option" where
  "checked_sum [] = Some 0"
| "checked_sum [n] = Some n"
| "checked_sum (n # m # ns) = Option.bind (checked_add_usize n m) (\<lambda>k. checked_sum (k # ns))"

definition binding_footprint :: "tool_env \<Rightarrow> replay_target \<Rightarrow> string \<Rightarrow> string \<Rightarrow> string option \<Rightarrow> string option \<Rightarrow> retained_footprint option" where
  "binding_footprint env target scope part cid item =
     Option.bind (checked_add_usize 64 size_of_value) (\<lambda>slot.
     Option.bind (checked_mul_usize 7 slot) (\<lambda>slots.
     Option.bind (checked_add_usize slots (length ''providerwirescopepart_ididitem_idsignature_field'')) (\<lambda>container.
     Option.bind (checked_sum [length (rt_provider target), length scope, length part, opt_len cid, opt_len item, 72]) (\<lambda>strings.
     Option.bind (checked_add_usize (te_size_binding env) container) (\<lambda>bytes.
     Option.bind (derived_record bytes) (\<lambda>rec.
     Option.bind (rf_checked_add rec (derived_strings strings)) (\<lambda>fp. rf_checked_multiply fp 2)))))))"

definition reserve_option :: "retained_footprint option \<Rightarrow> derived_budget \<Rightarrow> (shim_error, derived_budget) result" where
  "reserve_option fp b = (case fp of None \<Rightarrow> Inl (derived_error b) | Some x \<Rightarrow> derived_reserve x b)"

definition budgeted_binding ::
  "tool_env \<Rightarrow> replay_target \<Rightarrow> string \<Rightarrow> string \<Rightarrow> string option \<Rightarrow> string option \<Rightarrow> derived_budget \<Rightarrow>
     (shim_error, wire_tool_id \<times> derived_budget) result" where
  "budgeted_binding env target scope part cid item b =
     then_do (reserve_option (binding_footprint env target scope part cid item) b)
       (\<lambda>b'. Inr (binding target scope part cid item, b'))"

text \<open>The native calls of one choice: position, correlation id and item id.\<close>

definition index_nth :: "json \<Rightarrow> nat \<Rightarrow> json" where
  "index_nth v i = (case v of JArray vs \<Rightarrow> if i < length vs then vs ! i else JNull | _ \<Rightarrow> JNull)"

definition enumerated :: "'a list \<Rightarrow> (nat \<times> 'a) list" where "enumerated xs = zip [0..<length xs] xs"

definition native_calls :: "wire_format \<Rightarrow> json \<Rightarrow> nat \<Rightarrow> (nat \<times> string option \<times> string option) list" where
  "native_calls wire native choice =
     (case wire of
        AnthropicMessages \<Rightarrow>
          map (\<lambda>(i, p). (i, str_at p ''id'', None))
            (filter (\<lambda>(i, p). has_str p ''type'' ''tool_use'') (enumerated (items_at native ''content'')))
      | OpenAiResponses \<Rightarrow>
          map (\<lambda>(i, p). (i, str_at p ''call_id'', str_at p ''id''))
            (filter (\<lambda>(i, p). str_in (str_at p ''type'') [''function_call'', ''custom_tool_call'']) (enumerated (items_at native ''output'')))
      | OpenAiChat \<Rightarrow>
          map (\<lambda>(i, p). (i, str_at p ''id'', None))
            (enumerated (items_at (index (index_nth (index native ''choices'') choice) ''message'') ''tool_calls''))
      | GoogleGenerateContent \<Rightarrow>
          map (\<lambda>(i, p). (i, str_at (index p ''functionCall'') ''id'', None))
            (filter (\<lambda>(i, p). get p ''functionCall'' \<noteq> None)
              (enumerated (items_at (index (index_nth (index native ''candidates'') choice) ''content'') ''parts''))))"

definition choice_scope :: "wire_format \<Rightarrow> string \<Rightarrow> nat \<Rightarrow> string" where
  "choice_scope wire scope choice =
     (case wire of
        OpenAiChat \<Rightarrow> scope @ ''/choice:'' @ decimal choice
      | GoogleGenerateContent \<Rightarrow> scope @ ''/choice:'' @ decimal choice
      | _ \<Rightarrow> scope)"

fun collect_bindings ::
  "tool_env \<Rightarrow> replay_target \<Rightarrow> string \<Rightarrow> (nat \<times> string option \<times> string option) list \<Rightarrow> derived_budget \<Rightarrow>
     (shim_error, wire_tool_id list \<times> derived_budget) result" where
  "collect_bindings env target scope [] b = Inr ([], b)"
| "collect_bindings env target scope ((i, cid, item) # calls) b =
     then_do (budgeted_binding env target scope (decimal i) cid item b) (\<lambda>(w, b).
     then_do (collect_bindings env target scope calls b) (\<lambda>(ws, b). Inr (w # ws, b)))"

definition origin_footprint :: "tool_env \<Rightarrow> replay_target \<Rightarrow> retained_footprint option" where
  "origin_footprint env target =
     Option.bind (checked_sum [length (rt_provider target), length (rt_model target), opt_len (rt_account target)]) (\<lambda>strings.
     Option.bind (checked_add_usize 64 size_of_value) (\<lambda>slot.
     Option.bind (checked_mul_usize 6 slot) (\<lambda>slots.
     Option.bind (checked_add_usize slots (length ''providermodelfamilywirereceived_ataccount'')) (\<lambda>container.
     Option.bind (checked_add_usize (te_size_origin env) container) (\<lambda>bytes.
     Option.bind (derived_record bytes) (\<lambda>rec. rf_checked_add rec (derived_strings strings)))))))"

definition signature_footprint :: "tool_env \<Rightarrow> replay_target \<Rightarrow> string \<Rightarrow> retained_footprint option" where
  "signature_footprint env target sig =
     Option.bind (derived_record (te_size_signature env)) (\<lambda>rec.
     Option.bind (origin_footprint env target) (\<lambda>origin.
     Option.bind (rf_checked_add rec origin) (\<lambda>fp.
     Option.bind (rf_checked_add fp (derived_strings (length sig))) (\<lambda>fp. rf_checked_multiply fp 2))))"

text \<open>Removal of the nested signature of a chat call, with its empty containers.\<close>

definition empty_object_at :: "json \<Rightarrow> string \<Rightarrow> bool" where
  "empty_object_at v k \<longleftrightarrow> get v k = Some (JObject [])"

definition remove_nested_signature :: "json \<Rightarrow> json" where
  "remove_nested_signature tc =
     (let tc = edit_key ''extra_content'' (edit_key ''google'' (remove_key ''thought_signature'')) tc;
          tc = edit_key ''extra_content'' (\<lambda>extra. if empty_object_at extra ''google'' then remove_key ''google'' extra else extra) tc
      in if empty_object_at tc ''extra_content'' then remove_key ''extra_content'' tc else tc)"

definition lift_signature ::
  "tool_env \<Rightarrow> replay_target \<Rightarrow> json \<Rightarrow> wire_tool_id \<Rightarrow> derived_budget \<Rightarrow> (shim_error, json \<times> wire_tool_id \<times> derived_budget) result" where
  "lift_signature env target tc w b =
     (case path_str tc [''extra_content'', ''google'', ''thought_signature''] of
        None \<Rightarrow> Inr (tc, w, b)
      | Some sig \<Rightarrow>
          then_do (reserve_option (Option.bind (derived_record (length SIGNATURE_FIELD)) (\<lambda>fp. rf_checked_multiply fp 2)) b) (\<lambda>b.
          then_do (reserve_option (signature_footprint env target sig) b) (\<lambda>b.
            Inr (insert_key ''thought_signature'' (te_signature env target sig) tc, w\<lparr>wt_signature_field := Some SIGNATURE_FIELD\<rparr>, b))))"

record capture =
  cp_map :: tool_call_map
  cp_ids :: "string set"
  cp_minted :: nat
  cp_budget :: derived_budget

definition check_captured :: "tool_env \<Rightarrow> replay_target \<Rightarrow> json \<Rightarrow> wire_tool_id \<Rightarrow> string set \<Rightarrow> (shim_error, string set) result" where
  "check_captured env target tc w ids =
     (if rt_wire target \<noteq> GoogleGenerateContent \<and> wt_id w = None then Inl (upstream ''missing correlation id'')
      else if (case wt_id w of Some i \<Rightarrow> i \<in> ids | None \<Rightarrow> False) then Inl (upstream ''duplicate correlation id'')
      else then_do (validate_arguments env (case path_str tc [''function'', ''arguments''] of Some t \<Rightarrow> t | None \<Rightarrow> []) True)
        (\<lambda>_. Inr (case wt_id w of Some i \<Rightarrow> insert i ids | None \<Rightarrow> ids)))"

definition capture_call ::
  "tool_env \<Rightarrow> replay_target \<Rightarrow> json \<Rightarrow> wire_tool_id \<Rightarrow> capture \<Rightarrow> (shim_error, json \<times> capture) result" where
  "capture_call env target tc w st =
     (if \<not> is_nonempty (path_str tc [''function'', ''name'']) then Inl (upstream ''call has no function name'')
      else if (case get tc ''type'' of Some t \<Rightarrow> t \<noteq> JString ''function'' | None \<Rightarrow> False) then Inl (upstream ''unsupported call type'')
      else then_do (lift_signature env target (insert_key ''type'' (JString ''function'') tc) w (cp_budget st)) (\<lambda>(tc, w, b).
        let tc = remove_nested_signature tc
        in then_do (check_captured env target tc w (cp_ids st)) (\<lambda>ids.
           then_do (register_id env w (cp_minted st) (cp_map st)) (\<lambda>(cid, n, m).
             Inr (insert_key ''wire_ids'' (JArray [encode_binding w]) (insert_key ''id'' (JString cid) tc),
                  \<lparr>cp_map = m, cp_ids = ids, cp_minted = n, cp_budget = b\<rparr>)))))"

fun capture_calls ::
  "tool_env \<Rightarrow> replay_target \<Rightarrow> json list \<Rightarrow> wire_tool_id list \<Rightarrow> capture \<Rightarrow> (shim_error, json list \<times> capture) result" where
  "capture_calls env target (tc # calls) (w # ws) st =
     then_do (capture_call env target tc w st) (\<lambda>(tc', st).
     then_do (capture_calls env target calls ws st) (\<lambda>(calls', st). Inr (tc' # calls', st)))"
| "capture_calls env target _ _ st = Inr ([], st)"

definition captured_reason :: "json list \<Rightarrow> json \<Rightarrow> json" where
  "captured_reason calls choice =
     (if calls \<noteq> [] \<and> has_str choice ''finish_reason'' ''stop''
      then insert_key ''finish_reason'' (JString ''tool_calls'') choice else choice)"

definition choice_calls :: "json \<Rightarrow> json list option" where
  "choice_calls choice = Option.bind (get_path choice [''message'', ''tool_calls'']) as_array"

definition capture_choice ::
  "tool_env \<Rightarrow> replay_target \<Rightarrow> string \<Rightarrow> json \<Rightarrow> nat \<Rightarrow> json \<Rightarrow> nat \<Rightarrow> derived_budget \<Rightarrow> (shim_error, json \<times> nat \<times> derived_budget) result" where
  "capture_choice env target scope native ci choice n b =
     then_do (collect_bindings env target (choice_scope (rt_wire target) scope ci) (native_calls (rt_wire target) native ci) b) (\<lambda>(sources, b).
       case choice_calls choice of
         None \<Rightarrow> if sources \<noteq> [] then Inl (upstream ''call projection lost its wire identity'') else Inr (choice, n, b)
       | Some calls \<Rightarrow>
           if length calls \<noteq> length sources then Inl (upstream ''call projection lost its wire identity'')
           else then_do (capture_calls env target calls sources \<lparr>cp_map = empty_map, cp_ids = {}, cp_minted = n, cp_budget = b\<rparr>) (\<lambda>(calls', st).
             Inr (captured_reason calls' (edit_key ''message'' (edit_key ''tool_calls'' (\<lambda>_. JArray calls')) choice),
                  cp_minted st, cp_budget st)))"

fun capture_choices ::
  "tool_env \<Rightarrow> replay_target \<Rightarrow> string \<Rightarrow> json \<Rightarrow> nat \<Rightarrow> json list \<Rightarrow> nat \<Rightarrow> derived_budget \<Rightarrow> (shim_error, json list \<times> nat \<times> derived_budget) result" where
  "capture_choices env target scope native ci [] n b = Inr ([], n, b)"
| "capture_choices env target scope native ci (c # cs) n b =
     then_do (capture_choice env target scope native ci c n b) (\<lambda>(c', n, b).
     then_do (capture_choices env target scope native (Suc ci) cs n b) (\<lambda>(cs', n, b). Inr (c' # cs', n, b)))"

definition capture_response :: "tool_env \<Rightarrow> replay_target \<Rightarrow> json \<Rightarrow> json \<Rightarrow> derived_budget \<Rightarrow> (shim_error, json \<times> derived_budget) result" where
  "capture_response env target native response b =
     (case get response ''choices'' of
        Some (JArray choices) \<Rightarrow>
          then_do (capture_choices env target (te_uuid env 0) native 0 choices 1 b) (\<lambda>(choices', _, b).
            Inr (edit_key ''choices'' (\<lambda>_. JArray choices') response, b))
      | _ \<Rightarrow> Inr (response, b))"

section \<open>What is captured can be replayed\<close>

definition same_wire_target :: "replay_target \<Rightarrow> wire_tool_id \<Rightarrow> bool" where
  "same_wire_target target w \<longleftrightarrow> wt_provider w = rt_provider target \<and> wt_wire w = rt_wire target"

text \<open>A call that carries its identifier and one recorded wire identity.\<close>

definition carries :: "json \<Rightarrow> wire_tool_id \<Rightarrow> bool" where
  "carries tc w \<longleftrightarrow>
     (\<exists>v cid. get tc ''wire_ids'' = Some (JArray [encode_binding v]) \<and> get tc ''id'' = Some (JString cid) \<and>
       wt_id v = wt_id w \<and> wt_provider v = wt_provider w \<and> wt_wire v = wt_wire w)"

lemma lift_signature_keeps:
  assumes "lift_signature env target tc w b = Inr (tc', w', b')"
  shows "wt_id w' = wt_id w \<and> wt_provider w' = wt_provider w \<and> wt_wire w' = wt_wire w \<and> (is_object tc \<longrightarrow> is_object tc')"
  using assms by (auto simp: lift_signature_def then_do_Inr split: option.splits)

lemma is_object_remove_nested [simp]: "is_object (remove_nested_signature tc) \<longleftrightarrow> is_object tc"
  by (simp add: remove_nested_signature_def Let_def)

lemma named_object: "is_nonempty (path_str tc [k, l]) \<Longrightarrow> is_object tc"
proof (cases "get tc k")
  case None
  moreover assume "is_nonempty (path_str tc [k, l])"
  ultimately show ?thesis by (simp add: path_str_def is_nonempty_def)
qed (auto dest: get_object)

lemma capture_call_carries:
  assumes "capture_call env target tc w st = Inr (tc', st')"
  shows "carries tc' w"
proof -
  from assms obtain tc1 w1 b cid where
    *: "is_nonempty (path_str tc [''function'', ''name''])"
      "lift_signature env target (insert_key ''type'' (JString ''function'') tc) w (cp_budget st) = Inr (tc1, w1, b)"
      "tc' = insert_key ''wire_ids'' (JArray [encode_binding w1]) (insert_key ''id'' (JString cid) (remove_nested_signature tc1))"
    by (auto simp: capture_call_def then_do_Inr Let_def split: if_splits)
  have "is_object tc1" using lift_signature_keeps [OF *(2)] named_object [OF *(1)] by simp
  then have "get tc' ''wire_ids'' = Some (JArray [encode_binding w1])" "get tc' ''id'' = Some (JString cid)"
    by (simp_all add: *(3) json_edit)
  with lift_signature_keeps [OF *(2)] show ?thesis unfolding carries_def by blast
qed

lemma capture_calls_carry:
  "capture_calls env target calls ws st = Inr (calls', st') \<Longrightarrow> length calls = length ws \<Longrightarrow> list_all2 carries calls' ws"
proof (induction env target calls ws st arbitrary: calls' rule: capture_calls.induct)
  case (1 env target tc calls w ws st)
  then obtain tc' cs st1 where *: "capture_call env target tc w st = Inr (tc', st1)"
      "capture_calls env target calls ws st1 = Inr (cs, st')" "calls' = tc' # cs"
    by (auto simp: then_do_Inr)
  from 1(1) [OF *(1) refl *(2)] capture_call_carries [OF *(1)] 1(3) *(3) show ?case by simp
qed auto

definition decodes :: "tool_env \<Rightarrow> bool" where
  "decodes env \<longleftrightarrow> (\<forall>w. te_decode env (JArray [encode_binding w]) = Some [w])"

definition sent_id :: "replay_target \<Rightarrow> wire_tool_id \<Rightarrow> string \<Rightarrow> string" where
  "sent_id target w cid = (if same_wire_target target w then wire_name w cid else cid)"

lemma by_internal_insert:
  assumes "map_insert cid [v] m = Inr m'" and "map_of (by_internal m) cid = None"
  shows "map_of (by_internal m') = (map_of (by_internal m))(cid \<mapsto> [v])"
  using assms by (auto simp: map_insert_def then_do_Inr map_of_add_binding Let_def split: if_splits)

lemma by_internal_other:
  "map_insert cid bs m = Inr m' \<Longrightarrow> other \<noteq> cid \<Longrightarrow> map_of (by_internal m') other = map_of (by_internal m) other"
proof -
  have "map_of (by_internal (fold (add_binding cid) bs m)) other = map_of (by_internal m) other" if "other \<noteq> cid" for m
    using that by (induction bs arbitrary: m) (auto simp: map_of_add_binding)
  then show "map_insert cid bs m = Inr m' \<Longrightarrow> other \<noteq> cid \<Longrightarrow> ?thesis"
    by (auto simp: map_insert_def then_do_Inr split: if_splits)
qed

lemma prepare_captured_call:
  assumes dec: "decodes env" and "carries tc w" and fresh: "map_of (by_internal (cr_map st)) (call_id tc) = None"
    and "prepare_call env target scope need i tc st = ok (tc', st')"
  shows "str_at tc' ''id'' = Some (sent_id target w (call_id tc))"
    and "other \<noteq> call_id tc \<Longrightarrow> map_of (by_internal (cr_map st')) other = map_of (by_internal (cr_map st)) other"
proof -
  from assms(2) obtain v cid where v: "get tc ''wire_ids'' = Some (JArray [encode_binding v])" "get tc ''id'' = Some (JString cid)"
      "wt_id v = wt_id w" "wt_provider v = wt_provider w" "wt_wire v = wt_wire w"
    unfolding carries_def by blast
  have cid: "call_id tc = cid" "str_at tc ''id'' = Some cid" using v(2) by (simp_all add: call_id_def str_at_def index_def)
  from dec have decode: "te_decode env (JArray [encode_binding v]) = Some [v]" by (simp add: decodes_def)
  from assms(4) obtain m1 wire m where
    *: "map_insert cid [v] (cr_map st) = Inr m1" "wire_for_target cid target m1 = Inr (wire, m)" "rewrite_call target wire cid tc = Inr tc'"
      "cr_map st' = m"
    by (auto simp: prepare_call_def resolve_call_def bind_outcome_ok then_do_Inr cid(2) v(1) decode split: if_splits)
  have m1: "map_of (by_internal m1) = (map_of (by_internal (cr_map st)))(cid \<mapsto> [v])"
    by (rule by_internal_insert [OF *(1)]) (use fresh cid in simp)
  have "wire_name wire cid = sent_id target w cid"
    using *(2) v(3-5) by (auto simp: wire_for_target_def m1 then_do_Inr sent_id_def same_wire_target_def wire_name_def replay_binding_def split: if_splits)
  with rewrite_call_id [OF get_object *(3)] v(2) cid show "str_at tc' ''id'' = Some (sent_id target w (call_id tc))" by simp
  have "map_of (by_internal m1) cid = Some [v]" by (simp add: m1)
  with *(2) have "map_of (by_internal m) other = map_of (by_internal m1) other" if "other \<noteq> cid"
    using that by (auto simp: wire_for_target_def then_do_Inr by_internal_other split: if_splits)
  then show "other \<noteq> call_id tc \<Longrightarrow> map_of (by_internal (cr_map st')) other = map_of (by_internal (cr_map st)) other"
    by (simp add: *(4) m1 cid)
qed

lemma prepare_captured_calls:
  assumes "decodes env"
  shows "list_all2 carries calls ws \<Longrightarrow> distinct (map call_id calls) \<Longrightarrow> \<forall>tc \<in> set calls. map_of (by_internal (cr_map st)) (call_id tc) = None \<Longrightarrow>
    prepare_calls env target scope need i calls st = ok (calls', st') \<Longrightarrow>
    map (\<lambda>tc. str_at tc ''id'') calls' = map (\<lambda>(w, tc). Some (sent_id target w (call_id tc))) (zip ws calls)"
proof (induction calls ws arbitrary: i st calls' rule: list_all2_induct)
  case (Cons tc calls w ws)
  from Cons.prems(3) obtain tc' cs st1 where *: "prepare_call env target scope need i tc st = ok (tc', st1)"
      "prepare_calls env target scope need (Suc i) calls st1 = ok (cs, st')" "calls' = tc' # cs"
    by (auto simp: bind_outcome_ok)
  have fresh: "map_of (by_internal (cr_map st)) (call_id tc) = None" using Cons.prems(2) by simp
  have "map_of (by_internal (cr_map st1)) (call_id x) = None" if "x \<in> set calls" for x
  proof -
    have "call_id x \<noteq> call_id tc" using that Cons.prems(1) by (metis distinct.simps(2) image_eqI list.simps(9) set_map)
    with prepare_captured_call(2) [OF assms Cons.hyps(1) fresh *(1)] that Cons.prems(2) show ?thesis by simp
  qed
  with Cons.IH [OF _ _ *(2)] Cons.prems(1) prepare_captured_call(1) [OF assms Cons.hyps(1) fresh *(1)] *(3) show ?case by simp
qed simp


definition demo_decode :: "json \<Rightarrow> wire_tool_id list option" where
  "demo_decode v =
     (case v of
        JArray [b] \<Rightarrow>
          Some [\<lparr>wt_provider = the (str_at b ''provider''),
             wt_wire = the (find (\<lambda>w. str_at b ''wire'' = Some (wire_text w)) [AnthropicMessages, OpenAiResponses, OpenAiChat, GoogleGenerateContent]),
             wt_scope = the (str_at b ''scope''), wt_part_id = the (str_at b ''part_id''), wt_id = str_at b ''id'',
             wt_item_id = str_at b ''item_id'', wt_signature_field = str_at b ''signature_field''\<rparr>]
      | _ \<Rightarrow> None)"

lemma demo_decode_encodes: "demo_decode (JArray [encode_binding w]) = Some [w]"
proof -
  have wire: "find (\<lambda>x. wire_text (wt_wire w) = wire_text x) [AnthropicMessages, OpenAiResponses, OpenAiChat, GoogleGenerateContent] = Some (wt_wire w)"
    by (cases "wt_wire w") simp_all
  have opt: "map_of (optional_member k x @ rest) k' = (if k' = k \<and> x \<noteq> None then map_option JString x else map_of rest k')" for k x rest k'
    by (cases x) (simp_all add: optional_member_def)
  have "as_str (option_str x) = x" for x by (cases x) (simp_all add: option_str_def)
  moreover have "(case map_option JString x of None \<Rightarrow> None | Some y \<Rightarrow> as_str y) = x" for x by (cases x) simp_all
  ultimately show ?thesis
    using wire by (cases "wt_item_id w"; cases "wt_signature_field w"; cases w)
      (simp_all add: demo_decode_def encode_binding_def str_at_def index_def get_def opt optional_member_def)
qed

definition demo_capture_env :: tool_env where
  "demo_capture_env = demo_tool_env\<lparr>te_decode := demo_decode, te_read := (\<lambda>t. if t = ''{}'' then (SMap [] True, True) else (SBad, True))\<rparr>"

definition demo_native_call :: json where
  "demo_native_call = JObject [(''function'', JObject [(''arguments'', JString ''{}''), (''name'', JString ''f'')]), (''id'', JString ''native'')]"

definition demo_binding :: wire_tool_id where
  "demo_binding = binding demo_target ''s'' ''0'' (Some ''native'') None"

definition demo_captured :: json where
  "demo_captured = JObject [(''function'', JObject [(''arguments'', JString ''{}''), (''name'', JString ''f'')]), (''id'', JString ''call_ls_1''),
     (''type'', JString ''function''), (''wire_ids'', JArray [encode_binding demo_binding])]"

lemma demo_upstream_arguments: "validate_arguments demo_capture_env ''{}'' True = Inr ()"
proof -
  have "limits_ok limits_SSE" by (simp add: limits_ok_def limits_SSE_def usize_max_def)
  then show ?thesis unfolding validate_arguments_Inr parse_str_Inr demo_capture_env_def
    by (simp add: parse_source_Inr) (simp add: in_limits_def limits_SSE_def size_of_value_def)
qed

lemmas demo_calls = demo_json binding_def demo_binding_def demo_native_call_def starts_with_def CALL_PREFIX_def mint_def decimal_def
  decimal_rev.simps empty_map_def wire_key_def map_insert_def add_binding_def register_id_def wire_for_target_def Let_def

lemma demo_capture:
  "\<exists>cap. capture_calls demo_capture_env demo_target [demo_native_call] [demo_binding]
     \<lparr>cp_map = empty_map, cp_ids = {}, cp_minted = 1, cp_budget = derived_new FailUnary\<rparr> = Inr ([demo_captured], cap)"
  by (simp add: capture_call_def lift_signature_def check_captured_def remove_nested_signature_def empty_object_at_def demo_upstream_arguments
      demo_captured_def demo_calls) (simp add: demo_capture_env_def demo_tool_env_def decimal_def decimal_rev.simps char_of_def bit_0)


end
