(* ===== verification/ToolStream.thy ===== *)
theory ToolStream
  imports ToolResponses
begin

text \<open>
  Assembly of streamed tool calls (\<open>toolcall/streaming.rs\<close>, \<open>toolcall/progress.rs\<close>): native events become updates of parts,
  fragments are appended within the retention budget of the stream, complete calls are exposed once their choice
  ends, and progress is reported on the way. Strings carry their capacity because the budget charges it; what the
  allocator returns for an exact request, the capacity of formatted text and two struct sizes are arguments.
\<close>

section \<open>State\<close>

record rust_string =
  rs_text :: string
  rs_cap :: nat

definition exact :: "string \<Rightarrow> rust_string" where
  "exact t = \<lparr>rs_text = t, rs_cap = length t\<rparr>"

definition empty_string :: rust_string where "empty_string = exact []"

datatype tool_update =
    UName rust_string
  | UNameFragment string
  | UWireId rust_string
  | UWireIdFragment string
  | UItemId rust_string
  | UArgumentsStart rust_string
  | UArgumentsFragment string
  | UArguments rust_string
  | USignature string
  | USignatureField rust_string
  | UEnd

record tool_delta =
  td_part :: string
  td_choice :: nat
  td_index :: nat
  td_update :: tool_update

record part =
  pt_id :: rust_string
  pt_choice :: nat
  pt_index :: nat
  pt_name :: rust_string
  pt_wire_id :: "rust_string option"
  pt_item_id :: "rust_string option"
  pt_arguments :: rust_string
  pt_initial :: bool
  pt_signature :: "rust_string option"
  pt_signature_field :: "rust_string option"
  pt_ended :: bool

datatype part_string_field = FieldName | FieldWireId | FieldArguments

datatype progress_event = Started string | ArgumentsStep string "string option" | Ended | Abandoned

record progress_step =
  ps_key :: string
  ps_choice :: nat
  ps_index :: nat
  ps_id :: string
  ps_event :: progress_event

record reporter =
  rp_started :: "string set"
  rp_steps :: "progress_step list"

record stream_env =
  se_tools :: tool_env
  se_alloc :: "nat \<Rightarrow> nat option"
  se_cap :: "string \<Rightarrow> nat"
  se_sha :: "json \<Rightarrow> string"
  se_from_str :: "string \<Rightarrow> (string, json) result"
  se_scap :: "string \<Rightarrow> nat"
  se_vcap :: "json list \<Rightarrow> nat"
  se_size_part :: nat

record tool_stream =
  ts_target :: replay_target
  ts_scope :: string
  ts_parts :: "(string \<times> part) list"
  ts_gemini_last :: "(nat \<times> string \<times> nat \<times> nat) list"
  ts_gemini_by_id :: "(nat \<times> (string \<times> rust_string \<times> rust_string) list) list"
  ts_frame :: nat
  ts_gemini_next :: "(nat \<times> nat) list"
  ts_emitted :: "nat list"
  ts_budget :: retained_budget
  ts_retained :: retained_footprint
  ts_progress :: "reporter option"
  ts_minted :: nat

type_synonym 'a stream_step = "tool_stream \<Rightarrow> (shim_error, 'a) result \<times> tool_stream"

definition pure_step :: "'a \<Rightarrow> 'a stream_step" where "pure_step x st = (Inr x, st)"
definition failing :: "shim_error \<Rightarrow> 'a stream_step" where "failing e st = (Inl e, st)"

definition seq_step :: "'a stream_step \<Rightarrow> ('a \<Rightarrow> 'b stream_step) \<Rightarrow> 'b stream_step" where
  "seq_step m f st = (case m st of (Inl e, st') \<Rightarrow> (Inl e, st') | (Inr x, st') \<Rightarrow> f x st')"

definition from_result :: "(shim_error, 'a) result \<Rightarrow> 'a stream_step" where "from_result r st = (r, st)"

definition new_tool_stream :: "stream_env \<Rightarrow> replay_target \<Rightarrow> retained_budget \<Rightarrow> tool_stream" where
  "new_tool_stream env target b =
     \<lparr>ts_target = target, ts_scope = te_uuid (se_tools env) 0, ts_parts = [], ts_gemini_last = [], ts_gemini_by_id = [], ts_frame = 0,
      ts_gemini_next = [], ts_emitted = [], ts_budget = b, ts_retained = no_footprint, ts_progress = None, ts_minted = 1\<rparr>"

section \<open>Accounting\<close>

definition rf_swap :: "retained_footprint \<Rightarrow> retained_footprint \<Rightarrow> retained_footprint \<Rightarrow> retained_footprint" where
  "rf_swap held previous replacement =
     \<lparr>rf_bytes = saturating_add_usize (rf_bytes held - rf_bytes previous) (rf_bytes replacement),
      rf_entries = saturating_add_usize (rf_entries held - rf_entries previous) (rf_entries replacement)\<rparr>"

definition ts_reserve :: "retained_footprint \<Rightarrow> unit stream_step" where
  "ts_reserve fp st =
     (case budget_reserve fp (ts_budget st) of
        (Inl e, b) \<Rightarrow> (Inl e, st\<lparr>ts_budget := b\<rparr>)
      | (Inr _, b) \<Rightarrow>
          (case rf_checked_add (ts_retained st) fp of
             None \<Rightarrow> (Inl retention_error, st\<lparr>ts_budget := b\<rparr>)
           | Some held \<Rightarrow> (Inr (), st\<lparr>ts_budget := b, ts_retained := held\<rparr>)))"

definition ts_replace :: "retained_footprint \<Rightarrow> retained_footprint \<Rightarrow> unit stream_step" where
  "ts_replace previous replacement st =
     (case budget_replace previous replacement (ts_budget st) of
        (Inl e, b) \<Rightarrow> (Inl e, st\<lparr>ts_budget := b\<rparr>)
      | (Inr _, b) \<Rightarrow> (Inr (), st\<lparr>ts_budget := b, ts_retained := rf_swap (ts_retained st) previous replacement\<rparr>))"

definition ts_release :: "retained_footprint \<Rightarrow> tool_stream \<Rightarrow> tool_stream" where
  "ts_release fp st = st\<lparr>ts_budget := budget_release fp (ts_budget st), ts_retained := rf_saturating_sub (ts_retained st) fp\<rparr>"

fun saturating_sum :: "nat list \<Rightarrow> nat" where
  "saturating_sum [] = 0"
| "saturating_sum [n] = n"
| "saturating_sum (n # m # ns) = saturating_sum (saturating_add_usize n m # ns)"

definition cap_of :: "rust_string option \<Rightarrow> nat" where
  "cap_of s = (case s of Some t \<Rightarrow> rs_cap t | None \<Rightarrow> 0)"

definition origin_strings :: "replay_target \<Rightarrow> nat list" where
  "origin_strings target = [length (rt_provider target), length (rt_model target), opt_len (rt_account target)]"

definition part_footprint_with_capacity ::
  "stream_env \<Rightarrow> replay_target \<Rightarrow> string \<Rightarrow> part \<Rightarrow> part_string_field \<Rightarrow> nat \<Rightarrow> retained_footprint" where
  "part_footprint_with_capacity env target key p field replacement =
     (let capacity = (\<lambda>candidate actual. if candidate = field then replacement else actual)
      in rf_record (saturating_sum
           ([se_size_part env, length key, rs_cap (pt_id p), capacity FieldName (rs_cap (pt_name p)),
             capacity FieldArguments (rs_cap (pt_arguments p)), capacity FieldWireId (cap_of (pt_wire_id p))] @
            (case pt_item_id p of Some t \<Rightarrow> [rs_cap t] | None \<Rightarrow> []) @
            (case pt_signature_field p of Some t \<Rightarrow> [rs_cap t] | None \<Rightarrow> []) @
            (case pt_signature p of Some t \<Rightarrow> [te_size_signature (se_tools env), rs_cap t] @ origin_strings target | None \<Rightarrow> []))))"

definition part_footprint :: "stream_env \<Rightarrow> replay_target \<Rightarrow> string \<Rightarrow> part \<Rightarrow> retained_footprint" where
  "part_footprint env target key p = part_footprint_with_capacity env target key p FieldName (rs_cap (pt_name p))"

definition part_footprint_with_signature :: "stream_env \<Rightarrow> replay_target \<Rightarrow> string \<Rightarrow> part \<Rightarrow> nat \<Rightarrow> retained_footprint" where
  "part_footprint_with_signature env target key p bytes =
     (let projected = part_footprint env target key p;
          previous = (case pt_signature p of
              Some t \<Rightarrow> saturating_sum ([te_size_signature (se_tools env), rs_cap t] @ origin_strings target)
            | None \<Rightarrow> 0);
          replacement = saturating_sum ([te_size_signature (se_tools env), bytes] @ origin_strings target)
      in projected\<lparr>rf_bytes := saturating_add_usize (rf_bytes projected - previous) replacement\<rparr>)"

definition part_string :: "part \<Rightarrow> part_string_field \<Rightarrow> rust_string" where
  "part_string p field =
     (case field of
        FieldName \<Rightarrow> pt_name p
      | FieldWireId \<Rightarrow> (case pt_wire_id p of Some t \<Rightarrow> t | None \<Rightarrow> empty_string)
      | FieldArguments \<Rightarrow> pt_arguments p)"

definition set_part_string :: "part_string_field \<Rightarrow> rust_string \<Rightarrow> part \<Rightarrow> part" where
  "set_part_string field s p =
     (case field of
        FieldName \<Rightarrow> p\<lparr>pt_name := s\<rparr>
      | FieldWireId \<Rightarrow> p\<lparr>pt_wire_id := Some s\<rparr>
      | FieldArguments \<Rightarrow> p\<lparr>pt_arguments := s\<rparr>)"

definition put_part :: "string \<Rightarrow> part \<Rightarrow> tool_stream \<Rightarrow> tool_stream" where
  "put_part key p st = st\<lparr>ts_parts := btree_insert key p (ts_parts st)\<rparr>"

text \<open>\<open>String::try_reserve_exact\<close>: nothing happens when the room is there.\<close>

definition reserve_exact :: "stream_env \<Rightarrow> rust_string \<Rightarrow> nat \<Rightarrow> rust_string option" where
  "reserve_exact env s additional =
     (if length (rs_text s) + additional \<le> rs_cap s then Some s
      else map_option (\<lambda>c. s\<lparr>rs_cap := c\<rparr>) (se_alloc env (length (rs_text s) + additional)))"

definition push_str :: "string \<Rightarrow> rust_string \<Rightarrow> rust_string" where
  "push_str t s = s\<lparr>rs_text := rs_text s @ t\<rparr>"

definition fallible_string :: "stream_env \<Rightarrow> string \<Rightarrow> (shim_error, rust_string) result" where
  "fallible_string env t =
     (case reserve_exact env empty_string (length t) of
        None \<Rightarrow> Inl retention_error
      | Some s \<Rightarrow> Inr (push_str t s))"

section \<open>Updates of a part\<close>

definition append_fragment :: "stream_env \<Rightarrow> string \<Rightarrow> part_string_field \<Rightarrow> string \<Rightarrow> bool \<Rightarrow> unit stream_step" where
  "append_fragment env key field fragment replace_initial st =
     (let p = the (map_of (ts_parts st) key);
          target = ts_target st;
          s = part_string p field;
          base = (if replace_initial then 0 else length (rs_text s))
      in case checked_add_usize base (length fragment) of
          None \<Rightarrow> (Inl retention_error, st)
        | Some final \<Rightarrow>
            let previous = part_footprint env target key p;
                projected = part_footprint_with_capacity env target key p field (if replace_initial then final else max (rs_cap s) final)
            in seq_step (ts_replace previous projected) (\<lambda>_ st.
                 if replace_initial then
                   (case reserve_exact env empty_string (length fragment) of
                      None \<Rightarrow> seq_step (ts_replace projected previous) (\<lambda>_. failing retention_error) st
                    | Some s' \<Rightarrow>
                        seq_step (ts_replace projected (part_footprint_with_capacity env target key p field (rs_cap s')))
                          (\<lambda>_ st. (Inr (), put_part key (p\<lparr>pt_arguments := push_str fragment s', pt_initial := False\<rparr>) st)) st)
                 else
                   (case reserve_exact env s (length fragment) of
                      None \<Rightarrow>
                        seq_step (ts_replace projected previous) (\<lambda>_. failing retention_error) (put_part key (set_part_string field s p) st)
                    | Some s' \<Rightarrow>
                        seq_step (ts_replace projected (part_footprint env target key (set_part_string field s' p)))
                          (\<lambda>_ st. (Inr (), put_part key (set_part_string field (push_str fragment s') p) st))
                          (put_part key (set_part_string field s' p) st))) st)"

definition apply_signature :: "stream_env \<Rightarrow> string \<Rightarrow> string \<Rightarrow> unit stream_step" where
  "apply_signature env key data st =
     (let p = the (map_of (ts_parts st) key);
          projected = part_footprint_with_signature env (ts_target st) key p (length data)
      in seq_step (ts_replace (part_footprint env (ts_target st) key p) projected) (\<lambda>_ st.
           case fallible_string env data of
             Inl e \<Rightarrow> (Inl e, st)
           | Inr s \<Rightarrow>
               let p' = p\<lparr>pt_signature := Some s\<rparr>
               in ts_replace projected (part_footprint env (ts_target st) key p') (put_part key p' st)) st)"

definition update_part :: "stream_env \<Rightarrow> tool_update \<Rightarrow> part \<Rightarrow> (shim_error, part) result" where
  "update_part env u p =
     (case u of
        UName v \<Rightarrow> Inr (p\<lparr>pt_name := v\<rparr>)
      | UWireId v \<Rightarrow> Inr (p\<lparr>pt_wire_id := Some v\<rparr>)
      | UItemId v \<Rightarrow> Inr (p\<lparr>pt_item_id := Some v\<rparr>)
      | UArgumentsStart v \<Rightarrow> Inr (p\<lparr>pt_arguments := v, pt_initial := True\<rparr>)
      | UArguments v \<Rightarrow>
          Inr (p\<lparr>pt_ended := (if rs_text (pt_arguments p) \<noteq> rs_text v then False else pt_ended p), pt_arguments := v, pt_initial := False\<rparr>)
      | USignatureField v \<Rightarrow> Inr (p\<lparr>pt_signature_field := Some v\<rparr>)
      | UEnd \<Rightarrow> then_do (validate_arguments (se_tools env) (rs_text (pt_arguments p)) True) (\<lambda>_. Inr (p\<lparr>pt_ended := True\<rparr>))
      | _ \<Rightarrow> Inr p)"

definition ensure_part :: "stream_env \<Rightarrow> tool_delta \<Rightarrow> unit stream_step" where
  "ensure_part env d st =
     (if map_of (ts_parts st) (td_part d) \<noteq> None then (Inr (), st)
      else
        let cid = mint (se_tools env) (ts_minted st);
            p = \<lparr>pt_id = \<lparr>rs_text = cid, rs_cap = se_cap env cid\<rparr>, pt_choice = td_choice d, pt_index = td_index d, pt_name = empty_string,
                 pt_wire_id = None, pt_item_id = None, pt_arguments = empty_string, pt_initial = False, pt_signature = None,
                 pt_signature_field = None, pt_ended = False\<rparr>
        in seq_step (ts_reserve (part_footprint env (ts_target st) (td_part d) p))
             (\<lambda>_ st. (Inr (), put_part (td_part d) p st)) (st\<lparr>ts_minted := Suc (ts_minted st)\<rparr>))"

definition apply_update :: "stream_env \<Rightarrow> string \<Rightarrow> tool_update \<Rightarrow> unit stream_step" where
  "apply_update env key update st =
     (let p = the (map_of (ts_parts st) key)
      in case update of
          UNameFragment t \<Rightarrow> append_fragment env key FieldName t False st
        | UWireIdFragment t \<Rightarrow> append_fragment env key FieldWireId t False st
        | UArgumentsFragment t \<Rightarrow>
            if pt_ended p then (Inl (upstream ''argument delta followed a completed tool part''), st)
            else append_fragment env key FieldArguments t (pt_initial p) st
        | USignature data \<Rightarrow> apply_signature env key data st
        | u \<Rightarrow>
            (case update_part env u p of
               Inl e \<Rightarrow> (Inl e, st)
             | Inr p' \<Rightarrow>
                 ts_replace (part_footprint env (ts_target st) key p) (part_footprint env (ts_target st) key p') (put_part key p' st)))"

definition apply_inner :: "stream_env \<Rightarrow> tool_delta \<Rightarrow> unit stream_step" where
  "apply_inner env d st =
     (if td_choice d \<in> set (ts_emitted st) then (Inl (upstream ''tool data arrived after completion''), st)
      else seq_step (ensure_part env d) (\<lambda>_. apply_update env (td_part d) (td_update d)) st)"

section \<open>Progress\<close>

record call_view =
  cv_key :: string
  cv_choice :: nat
  cv_index :: nat
  cv_id :: string
  cv_name :: string
  cv_arguments :: string

definition visible_arguments :: "part \<Rightarrow> string" where
  "visible_arguments p = (if pt_initial p then [] else rs_text (pt_arguments p))"

definition view_of :: "string \<Rightarrow> part \<Rightarrow> call_view" where
  "view_of key p =
     \<lparr>cv_key = key, cv_choice = pt_choice p, cv_index = pt_index p, cv_id = rs_text (pt_id p), cv_name = rs_text (pt_name p),
      cv_arguments = visible_arguments p\<rparr>"

definition emit_step :: "call_view \<Rightarrow> progress_event \<Rightarrow> reporter \<Rightarrow> reporter" where
  "emit_step v e r = r\<lparr>rp_steps := rp_steps r @ [\<lparr>ps_key = cv_key v, ps_choice = cv_choice v, ps_index = cv_index v, ps_id = cv_id v, ps_event = e\<rparr>]\<rparr>"

definition report_start :: "call_view \<Rightarrow> reporter \<Rightarrow> reporter" where
  "report_start v r =
     (let r = emit_step v (Started (cv_name v)) (r\<lparr>rp_started := insert (cv_key v) (rp_started r)\<rparr>)
      in if cv_arguments v \<noteq> [] then emit_step v (ArgumentsStep (cv_arguments v) (Some (cv_arguments v))) r else r)"

definition report_updated :: "call_view \<Rightarrow> bool \<Rightarrow> nat \<Rightarrow> bool \<Rightarrow> reporter \<Rightarrow> reporter" where
  "report_updated v name_settled len kept r =
     (if cv_key v \<notin> rp_started r then (if name_settled \<and> cv_name v \<noteq> [] then report_start v r else r)
      else if kept \<and> length (cv_arguments v) = len then r
      else emit_step v (ArgumentsStep (cv_arguments v)
        (if kept \<and> len \<le> length (cv_arguments v) then Some (drop len (cv_arguments v)) else None)) r)"

definition report_ended :: "call_view \<Rightarrow> reporter \<Rightarrow> reporter" where
  "report_ended v r =
     (let r = (if cv_key v \<notin> rp_started r then report_start v r else r)
      in emit_step v Ended (r\<lparr>rp_started := rp_started r - {cv_key v}\<rparr>))"

definition report_abandoned :: "call_view \<Rightarrow> reporter \<Rightarrow> reporter" where
  "report_abandoned v r =
     (if cv_key v \<in> rp_started r then emit_step v Abandoned (r\<lparr>rp_started := rp_started r - {cv_key v}\<rparr>) else r)"

definition abandon_open :: "tool_stream \<Rightarrow> tool_stream" where
  "abandon_open st = st\<lparr>ts_progress := map_option (fold (\<lambda>(key, p). report_abandoned (view_of key p)) (ts_parts st)) (ts_progress st)\<rparr>"

definition clear_stream :: "tool_stream \<Rightarrow> tool_stream" where
  "clear_stream st =
     (abandon_open st)\<lparr>ts_parts := [], ts_gemini_last := [], ts_gemini_by_id := [], ts_gemini_next := [], ts_emitted := [],
       ts_budget := budget_release (ts_retained st) (ts_budget st), ts_retained := no_footprint\<rparr>"

definition report_progress :: "tool_stream \<Rightarrow> tool_stream" where
  "report_progress st = st\<lparr>ts_progress := Some \<lparr>rp_started = {}, rp_steps = []\<rparr>\<rparr>"

definition arguments_kept :: "tool_update \<Rightarrow> string \<Rightarrow> bool" where
  "arguments_kept u visible =
     (case u of
        UArgumentsStart _ \<Rightarrow> visible = []
      | UArguments t \<Rightarrow> starts_with (rs_text t) visible
      | _ \<Rightarrow> True)"

definition is_name_fragment :: "tool_update \<Rightarrow> bool" where
  "is_name_fragment u = (case u of UNameFragment _ \<Rightarrow> True | _ \<Rightarrow> False)"

definition apply_delta :: "stream_env \<Rightarrow> tool_delta \<Rightarrow> unit stream_step" where
  "apply_delta env d st =
     (let visible = (case map_of (ts_parts st) (td_part d) of Some p \<Rightarrow> visible_arguments p | None \<Rightarrow> []);
          kept = arguments_kept (td_update d) visible
      in case apply_inner env d st of
          (Inl e, st') \<Rightarrow> (Inl e, clear_stream st')
        | (Inr _, st') \<Rightarrow>
            (Inr (), st'\<lparr>ts_progress :=
               (case map_of (ts_parts st') (td_part d) of
                  None \<Rightarrow> ts_progress st'
                | Some p \<Rightarrow>
                    map_option (report_updated (view_of (td_part d) p) (\<not> is_name_fragment (td_update d)) (length visible) kept) (ts_progress st'))\<rparr>))"

definition stream_update :: "stream_env \<Rightarrow> string \<Rightarrow> nat \<Rightarrow> nat \<Rightarrow> tool_update \<Rightarrow> unit stream_step" where
  "stream_update env key choice idx u = apply_delta env \<lparr>td_part = key, td_choice = choice, td_index = idx, td_update = u\<rparr>"

definition when_some :: "'a option \<Rightarrow> ('a \<Rightarrow> unit stream_step) \<Rightarrow> unit stream_step" where
  "when_some x f = (case x of Some y \<Rightarrow> f y | None \<Rightarrow> pure_step ())"

fun each_step :: "('a \<Rightarrow> unit stream_step) \<Rightarrow> 'a list \<Rightarrow> unit stream_step" where
  "each_step f [] = pure_step ()"
| "each_step f (x # xs) = seq_step (f x) (\<lambda>_. each_step f xs)"

section \<open>Native events\<close>

definition tool_name_of :: "json \<Rightarrow> (string, string) result" where
  "tool_name_of item = (case nonempty_str (str_at item ''name'') of Some t \<Rightarrow> Inr t | None \<Rightarrow> Inl ''tool name must be a nonempty string'')"

definition namespaced :: "stream_env \<Rightarrow> string \<Rightarrow> string option \<Rightarrow> string" where
  "namespaced env name namespace =
     (case namespace of
        None \<Rightarrow> name
      | Some ns \<Rightarrow> take 63 (''rt_'' @ se_sha env (JArray [JString ns, JString name])))"

definition canonical_call :: "stream_env \<Rightarrow> json \<Rightarrow> (shim_error, json) result" where
  "canonical_call env item =
     (if get item ''namespace'' \<noteq> None \<and> \<not> is_nonempty (str_at item ''namespace'') then Inl (upstream ''call namespace must be a nonempty string'')
      else case tool_name_of item of
          Inl e \<Rightarrow> Inl (upstream e)
        | Inr name \<Rightarrow>
            then_do
              (if has_str item ''type'' ''custom_tool_call''
               then (case str_at item ''input'' of
                       None \<Rightarrow> Inl (upstream ''custom tool input must be text'')
                     | Some input \<Rightarrow> Inr (te_render (se_tools env) (JObject [(''input'', JString input)])))
               else Inr (case str_at item ''arguments'' of Some t \<Rightarrow> t | None \<Rightarrow> ''{}''))
              (\<lambda>arguments. Inr (JObject
                 [(''function'', JObject [(''arguments'', JString arguments), (''name'', JString (namespaced env name (str_at item ''namespace'')))]),
                  (''id'', index item ''call_id''), (''type'', JString ''function'')])))"

definition response_item :: "stream_env \<Rightarrow> string \<Rightarrow> nat \<Rightarrow> json \<Rightarrow> bool \<Rightarrow> unit stream_step" where
  "response_item env key idx item done =
     seq_step (when_some (str_at item ''call_id'') (\<lambda>t. stream_update env key 0 idx (UWireId (exact t)))) (\<lambda>_.
     seq_step (when_some (str_at item ''id'') (\<lambda>t. stream_update env key 0 idx (UItemId (exact t)))) (\<lambda>_.
     seq_step (from_result (canonical_call env item)) (\<lambda>tc.
     seq_step (when_some (str_at (index tc ''function'') ''name'') (\<lambda>t. stream_update env key 0 idx (UName (exact t)))) (\<lambda>_.
     seq_step (when_some
         (if is_string (index item ''arguments'') \<or> has_str item ''type'' ''custom_tool_call'' then str_at (index tc ''function'') ''arguments'' else None)
         (\<lambda>t. stream_update env key 0 idx (if done then UArguments (exact t) else UArgumentsStart (exact t)))) (\<lambda>_.
       if done then stream_update env key 0 idx UEnd else pure_step ())))))"

definition parse_anthropic :: "stream_env \<Rightarrow> json \<Rightarrow> unit stream_step" where
  "parse_anthropic env event =
     (let idx = (case u64_at event ''index'' of Some n \<Rightarrow> n | None \<Rightarrow> 0);
          key = ''anthropic:'' @ decimal idx;
          block = index event ''content_block''
      in if has_str event ''type'' ''content_block_start'' \<and> has_str block ''type'' ''tool_use'' then
           seq_step (when_some (str_at block ''id'') (\<lambda>t. stream_update env key 0 idx (UWireId (exact t)))) (\<lambda>_.
           seq_step (when_some (str_at block ''name'') (\<lambda>t. stream_update env key 0 idx (UName (exact t)))) (\<lambda>_.
             let text = te_render (se_tools env) (case get block ''input'' of Some v \<Rightarrow> v | None \<Rightarrow> JObject [])
             in stream_update env key 0 idx (UArgumentsStart \<lparr>rs_text = text, rs_cap = se_cap env text\<rparr>)))
         else if has_str event ''type'' ''content_block_delta'' \<and> has_str (index event ''delta'') ''type'' ''input_json_delta'' then
           (case str_at (index event ''delta'') ''partial_json'' of
              None \<Rightarrow> failing (upstream ''argument fragment is not text'')
            | Some t \<Rightarrow> stream_update env key 0 idx (UArgumentsFragment t))
         else if has_str event ''type'' ''content_block_stop'' then
           (\<lambda>st. if map_of (ts_parts st) key \<noteq> None then stream_update env key 0 idx UEnd st else (Inr (), st))
         else pure_step ())"

definition parse_responses :: "stream_env \<Rightarrow> json \<Rightarrow> unit stream_step" where
  "parse_responses env event =
     (let idx = (case u64_at event ''output_index'' of Some n \<Rightarrow> n | None \<Rightarrow> 0);
          key = ''responses:'' @ decimal idx;
          item = index event ''item'';
          done = has_str event ''type'' ''response.output_item.done''
      in if str_in (str_at event ''type'') [''response.output_item.added'', ''response.output_item.done''] \<and>
            (has_str item ''type'' ''function_call'' \<or> (has_str item ''type'' ''custom_tool_call'' \<and> done))
         then response_item env key idx item done
         else if has_str event ''type'' ''response.function_call_arguments.delta'' then
           (case str_at event ''delta'' of
              None \<Rightarrow> failing (upstream ''argument fragment is not text'')
            | Some t \<Rightarrow> stream_update env key 0 idx (UArgumentsFragment t))
         else if has_str event ''type'' ''response.function_call_arguments.done'' then
           when_some (str_at event ''arguments'') (\<lambda>t. stream_update env key 0 idx (UArguments (exact t)))
         else if str_in (str_at event ''type'') [''response.completed'', ''response.incomplete''] then
           each_step (\<lambda>(i, item).
               if str_in (str_at item ''type'') [''function_call'', ''custom_tool_call'']
               then response_item env (''responses:'' @ decimal i) i item True else pure_step ())
             (enumerated (items_at (index event ''response'') ''output''))
         else pure_step ())"

text \<open>A fragment of a chat call finds its part by explicit index, by its id, or as the only one.\<close>

definition wrapping_succ_u64 :: "nat \<Rightarrow> nat" where "wrapping_succ_u64 n = (n + 1) mod 2 ^ 64"

definition chat_index :: "nat \<Rightarrow> json \<Rightarrow> tool_stream \<Rightarrow> nat option" where
  "chat_index choice tc st =
     (let own = filter (\<lambda>p. pt_choice p = choice) (map snd (ts_parts st));
          known = Option.bind (str_at tc ''id'') (\<lambda>t. map_option pt_index
            (find (\<lambda>p. map_option rs_text (pt_wire_id p) = Some t) own))
      in case u64_at tc ''index'' of
          Some n \<Rightarrow> Some n
        | None \<Rightarrow>
            (case known of
               Some n \<Rightarrow> Some n
             | None \<Rightarrow>
                 if is_string (index tc ''id'')
                 then Some (if own = [] then 0 else wrapping_succ_u64 (Max (set (map pt_index own))))
                 else if length own = 1 then Some (pt_index (hd own)) else None))"

definition bounded_json_complete :: "tool_env \<Rightarrow> string \<Rightarrow> (shim_error, bool) result" where
  "bounded_json_complete env t =
     (case parse_str (te_read env) t limits_SSE of
        Inr _ \<Rightarrow> Inr True
      | Inl Malformed \<Rightarrow> Inr False
      | Inl Complexity \<Rightarrow> Inl (Stream ''upstream JSON exceeds complexity limit''))"

definition chat_atomic :: "stream_env \<Rightarrow> json \<Rightarrow> (shim_error, bool) result" where
  "chat_atomic env tc =
     (if u64_at tc ''index'' = None \<and> is_string (index tc ''id'') \<and> is_string (index (index tc ''function'') ''name'')
      then (case str_at (index tc ''function'') ''arguments'' of
              Some t \<Rightarrow> bounded_json_complete (se_tools env) t
            | None \<Rightarrow> Inr False)
      else Inr False)"

definition chat_updates :: "stream_env \<Rightarrow> nat \<Rightarrow> json \<Rightarrow> nat \<Rightarrow> unit stream_step" where
  "chat_updates env choice tc idx =
     (let key = ''chat:'' @ decimal choice @ '':'' @ decimal idx;
          fn = index tc ''function'';
          nested = get_path tc [''extra_content'', ''google'', ''thought_signature'']
      in seq_step (from_result (chat_atomic env tc)) (\<lambda>atomic.
         seq_step (when_some (str_at tc ''id'') (\<lambda>t. stream_update env key choice idx
           (if u64_at tc ''index'' \<noteq> None then UWireIdFragment t else UWireId (exact t)))) (\<lambda>_.
         seq_step (when_some (str_at fn ''name'') (\<lambda>t. stream_update env key choice idx (if atomic then UName (exact t) else UNameFragment t))) (\<lambda>_.
         seq_step (when_some (str_at fn ''arguments'') (\<lambda>t. stream_update env key choice idx
           (if atomic then UArguments (exact t) else UArgumentsFragment t))) (\<lambda>_.
         seq_step (if nested \<noteq> None then stream_update env key choice idx (USignatureField (exact SIGNATURE_FIELD)) else pure_step ()) (\<lambda>_.
           when_some (case str_at tc ''thought_signature'' of Some t \<Rightarrow> Some t | None \<Rightarrow> Option.bind nested as_str)
             (\<lambda>t. stream_update env key choice idx (USignature t))))))))"

definition parse_chat_call :: "stream_env \<Rightarrow> nat \<Rightarrow> json \<Rightarrow> unit stream_step" where
  "parse_chat_call env choice tc st =
     (case chat_index choice tc st of
        None \<Rightarrow> (Inl (upstream ''tool fragment has no unambiguous part index''), st)
      | Some idx \<Rightarrow> chat_updates env choice tc idx st)"

definition parse_chat :: "stream_env \<Rightarrow> json \<Rightarrow> unit stream_step" where
  "parse_chat env event =
     each_step (\<lambda>(ci, choice).
         each_step (parse_chat_call env (case u64_at choice ''index'' of Some n \<Rightarrow> n | None \<Rightarrow> ci)) (items_at (index choice ''delta'') ''tool_calls''))
       (enumerated (items_at event ''choices''))"

text \<open>Code that may also panic: the outer option.\<close>

type_synonym 'a stream_run = "tool_stream \<Rightarrow> ((shim_error, 'a) result \<times> tool_stream) option"

definition run_step :: "'a stream_step \<Rightarrow> 'a stream_run" where "run_step m st = Some (m st)"

definition seq_run :: "'a stream_run \<Rightarrow> ('a \<Rightarrow> 'b stream_run) \<Rightarrow> 'b stream_run" where
  "seq_run m f st =
     (case m st of
        None \<Rightarrow> None
      | Some (Inl e, st') \<Rightarrow> Some (Inl e, st')
      | Some (Inr x, st') \<Rightarrow> f x st')"

definition run_outcome :: "(shim_error, 'a) outcome \<Rightarrow> 'a stream_run" where
  "run_outcome r st = map_option (\<lambda>x. (x, st)) r"

fun each_run :: "('a \<Rightarrow> unit stream_run) \<Rightarrow> 'a list \<Rightarrow> unit stream_run" where
  "each_run f [] = run_step (pure_step ())"
| "each_run f (x # xs) = seq_run (f x) (\<lambda>_. each_run f xs)"

definition next_gemini :: "nat \<Rightarrow> nat stream_step" where
  "next_gemini choice st =
     seq_step (if map_of (ts_gemini_next st) choice = None then ts_reserve (rf_record 0) else pure_step ()) (\<lambda>_ st.
       let n = (case map_of (ts_gemini_next st) choice of Some n \<Rightarrow> n | None \<Rightarrow> 0)
       in (Inr n, st\<lparr>ts_gemini_next := btree_insert choice (wrapping_succ_u64 n) (ts_gemini_next st)\<rparr>)) st"

definition mappings_of :: "tool_stream \<Rightarrow> nat \<Rightarrow> (string \<times> rust_string \<times> rust_string) list" where
  "mappings_of st choice = (case map_of (ts_gemini_by_id st) choice of Some m \<Rightarrow> m | None \<Rightarrow> [])"

definition gemini_id_mapping :: "tool_stream \<Rightarrow> nat \<Rightarrow> string \<Rightarrow> string option" where
  "gemini_id_mapping st choice cid = map_option (rs_text \<circ> snd) (map_of (mappings_of st choice) cid)"

definition mapping_footprint :: "rust_string \<times> rust_string \<Rightarrow> retained_footprint" where
  "mapping_footprint = (\<lambda>(stored, key). rf_record (saturating_add_usize (rs_cap stored) (rs_cap key)))"

definition put_mapping :: "nat \<Rightarrow> string \<Rightarrow> rust_string \<times> rust_string \<Rightarrow> tool_stream \<Rightarrow> tool_stream" where
  "put_mapping choice cid entry st =
     st\<lparr>ts_gemini_by_id := btree_insert choice (btree_insert cid entry (mappings_of st choice)) (ts_gemini_by_id st)\<rparr>"

definition undo_slot :: "bool \<Rightarrow> tool_stream \<Rightarrow> tool_stream" where
  "undo_slot choice_exists st = (if choice_exists then st else ts_release (rf_record 0) st)"

definition give_up_mapping :: "bool \<Rightarrow> retained_footprint \<Rightarrow> retained_footprint \<Rightarrow> shim_error \<Rightarrow> unit stream_step" where
  "give_up_mapping choice_exists replacement previous e =
     seq_step (ts_replace replacement previous) (\<lambda>_ st. (Inl e, undo_slot choice_exists st))"

definition keep_mapping :: "nat \<Rightarrow> string \<Rightarrow> retained_footprint \<Rightarrow> rust_string \<times> rust_string \<Rightarrow> unit stream_step" where
  "keep_mapping choice cid replacement entry =
     seq_step (ts_replace replacement (mapping_footprint entry)) (\<lambda>_ st. (Inr (), put_mapping choice cid entry st))"

definition own_mapping :: "stream_env \<Rightarrow> nat \<Rightarrow> string \<Rightarrow> string \<Rightarrow> (rust_string \<times> rust_string) option \<Rightarrow> bool \<Rightarrow> retained_footprint \<Rightarrow> retained_footprint \<Rightarrow> unit stream_step" where
  "own_mapping env choice cid key existing choice_exists replacement previous =
     (case fallible_string env key of
        Inl e \<Rightarrow> give_up_mapping choice_exists replacement previous e
      | Inr value \<Rightarrow>
          (case existing of
             Some (stored, _) \<Rightarrow> keep_mapping choice cid replacement (stored, value)
           | None \<Rightarrow>
               (case fallible_string env cid of
                  Inl e \<Rightarrow> give_up_mapping choice_exists replacement previous e
                | Inr stored \<Rightarrow> keep_mapping choice cid replacement (stored, value))))"

definition existing_footprint :: "(rust_string \<times> rust_string) option \<Rightarrow> retained_footprint" where
  "existing_footprint existing = (case existing of Some entry \<Rightarrow> mapping_footprint entry | None \<Rightarrow> no_footprint)"

definition has_choice :: "tool_stream \<Rightarrow> nat \<Rightarrow> bool" where
  "has_choice st choice \<longleftrightarrow> map_of (ts_gemini_by_id st) choice \<noteq> None"

definition store_mapping :: "stream_env \<Rightarrow> nat \<Rightarrow> string \<Rightarrow> string \<Rightarrow> unit stream_step" where
  "store_mapping env choice cid key st =
     (let choice_exists = has_choice st choice;
          existing = map_of (mappings_of st choice) cid;
          previous = existing_footprint existing;
          replacement = rf_record (saturating_add_usize (length cid) (length key))
      in seq_step (if choice_exists then pure_step () else ts_reserve (rf_record 0)) (\<lambda>_ st.
           case ts_replace previous replacement st of
             (Inl e, st) \<Rightarrow> (Inl e, undo_slot choice_exists st)
           | (Inr _, st) \<Rightarrow> own_mapping env choice cid key existing choice_exists replacement previous st) st)"

definition remember_last :: "nat \<Rightarrow> string \<Rightarrow> nat \<Rightarrow> unit stream_step" where
  "remember_last choice key position st =
     (let previous = (case map_of (ts_gemini_last st) choice of Some (k, _) \<Rightarrow> rf_record (length k) | None \<Rightarrow> no_footprint)
      in seq_step (ts_replace previous (rf_record (length key)))
           (\<lambda>_ st. (Inr (), st\<lparr>ts_gemini_last := btree_insert choice (key, ts_frame st, position) (ts_gemini_last st)\<rparr>)) st)"

definition gemini_key :: "nat \<Rightarrow> nat \<Rightarrow> json \<Rightarrow> tool_stream \<Rightarrow> string option" where
  "gemini_key choice position tc st =
     (let named = is_nonempty (str_at tc ''name'');
          prior = Option.bind (map_of (ts_gemini_last st) choice)
            (\<lambda>(key, frame, slot). if frame \<noteq> ts_frame st \<or> slot = position then Some key else None)
      in case Option.bind (str_at tc ''id'') (gemini_id_mapping st choice) of
          Some key \<Rightarrow> Some key
        | None \<Rightarrow>
            Option.bind prior (\<lambda>key. Option.bind (map_of (ts_parts st) key)
              (\<lambda>p. if \<not> named \<or> rs_text (pt_name p) = [] then Some key else None)))"

definition gemini_slot :: "nat \<Rightarrow> nat \<Rightarrow> json \<Rightarrow> (string \<times> nat) stream_run" where
  "gemini_slot choice position tc st =
     (case gemini_key choice position tc st of
        Some key \<Rightarrow> map_option (\<lambda>p. (Inr (key, pt_index p), st)) (map_of (ts_parts st) key)
      | None \<Rightarrow>
          run_step (seq_step (next_gemini choice)
            (\<lambda>idx. pure_step (''gemini:'' @ decimal choice @ '':'' @ decimal idx, idx))) st)"

definition gemini_arguments :: "stream_env \<Rightarrow> nat \<Rightarrow> json \<Rightarrow> string \<Rightarrow> nat \<Rightarrow> unit stream_step" where
  "gemini_arguments env choice tc key idx st =
     (if index tc ''args'' \<noteq> JNull then
        (let text = te_render (se_tools env) (index tc ''args'')
         in stream_update env key choice idx (UArguments \<lparr>rs_text = text, rs_cap = se_cap env text\<rparr>) st)
      else if is_nonempty (str_at tc ''name'') \<or> map_of (ts_parts st) key = None
      then stream_update env key choice idx (UArgumentsStart (exact ''{}'')) st
      else (Inr (), st))"

definition gemini_updates :: "stream_env \<Rightarrow> nat \<Rightarrow> nat \<Rightarrow> json \<Rightarrow> json \<Rightarrow> string \<times> nat \<Rightarrow> unit stream_step" where
  "gemini_updates env choice position native tc = (\<lambda>(key, idx).
     seq_step (when_some (str_at tc ''id'') (\<lambda>t. store_mapping env choice t key)) (\<lambda>_.
     seq_step (remember_last choice key position) (\<lambda>_.
     seq_step (when_some (str_at tc ''id'') (\<lambda>t. stream_update env key choice idx (UWireId (exact t)))) (\<lambda>_.
     seq_step (when_some (nonempty_str (str_at tc ''name'')) (\<lambda>t. stream_update env key choice idx (UName (exact t)))) (\<lambda>_.
     seq_step (gemini_arguments env choice tc key idx) (\<lambda>_.
       when_some (str_at native ''thoughtSignature'') (\<lambda>t. stream_update env key choice idx (USignature t))))))))"

definition parse_gemini_part :: "stream_env \<Rightarrow> nat \<Rightarrow> nat \<Rightarrow> json \<Rightarrow> unit stream_run" where
  "parse_gemini_part env choice position native =
     (case get native ''functionCall'' of
        None \<Rightarrow> run_step (pure_step ())
      | Some tc \<Rightarrow> seq_run (gemini_slot choice position tc) (\<lambda>slot. run_step (gemini_updates env choice position native tc slot)))"

definition parse_gemini :: "stream_env \<Rightarrow> json \<Rightarrow> unit stream_run" where
  "parse_gemini env event =
     each_run (\<lambda>(ci, candidate).
         each_run (\<lambda>(position, native).
             parse_gemini_part env (case u64_at candidate ''index'' of Some n \<Rightarrow> n | None \<Rightarrow> ci) position native)
           (enumerated (items_at (index candidate ''content'') ''parts'')))
       (enumerated (items_at event ''candidates''))"

definition parse_event :: "stream_env \<Rightarrow> json \<Rightarrow> unit stream_run" where
  "parse_event env event st =
     (let st = st\<lparr>ts_frame := wrapping_succ_u64 (ts_frame st)\<rparr>
      in case rt_wire (ts_target st) of
          AnthropicMessages \<Rightarrow> run_step (parse_anthropic env event) st
        | OpenAiResponses \<Rightarrow> run_step (parse_responses env event) st
        | OpenAiChat \<Rightarrow> run_step (parse_chat env event) st
        | GoogleGenerateContent \<Rightarrow> parse_gemini env event st)"

section \<open>Completion\<close>

definition stream_binding :: "tool_stream \<Rightarrow> string \<Rightarrow> part \<Rightarrow> wire_tool_id" where
  "stream_binding st key p =
     (binding (ts_target st) (choice_scope (rt_wire (ts_target st)) (ts_scope st) (pt_choice p)) key
        (map_option rs_text (pt_wire_id p)) (map_option rs_text (pt_item_id p)))\<lparr>wt_signature_field := map_option rs_text (pt_signature_field p)\<rparr>"

definition doubled :: "nat \<Rightarrow> nat option \<Rightarrow> retained_footprint option" where
  "doubled bytes_of_record bytes =
     Option.bind bytes (\<lambda>bytes. Option.bind (derived_record bytes_of_record) (\<lambda>rec.
       Option.bind (rf_checked_add rec (derived_strings bytes)) (\<lambda>fp. rf_checked_multiply fp 2)))"

definition frame_charges :: "stream_env \<Rightarrow> tool_stream \<Rightarrow> string \<Rightarrow> part \<Rightarrow> derived_budget \<Rightarrow> (shim_error, derived_budget) result" where
  "frame_charges env st key p b =
     then_do (reserve_option (doubled (te_size_binding (se_tools env))
         (Option.bind (checked_add_usize (length (ts_scope st)) 32) (\<lambda>scope.
            checked_sum [length (rt_provider (ts_target st)), scope, length key, opt_len (map_option rs_text (pt_wire_id p)),
              opt_len (map_option rs_text (pt_item_id p)), opt_len (map_option rs_text (pt_signature_field p)), 40]))) b) (\<lambda>b.
       case pt_signature p of
         None \<Rightarrow> Inr b
       | Some sig \<Rightarrow>
           reserve_option (doubled (te_size_signature (se_tools env)) (checked_sum (length (rs_text sig) # origin_strings (ts_target st)))) b)"

definition completed_call :: "stream_env \<Rightarrow> tool_stream \<Rightarrow> string \<Rightarrow> part \<Rightarrow> json" where
  "completed_call env st key p =
     JObject ([(''function'', JObject [(''arguments'', JString (rs_text (pt_arguments p))), (''name'', JString (rs_text (pt_name p)))]),
       (''id'', JString (rs_text (pt_id p))), (''index'', JNumber (PosInt (pt_index p)))] @
       (case pt_signature p of Some sig \<Rightarrow> [(''thought_signature'', te_signature (se_tools env) (ts_target st) (rs_text sig))] | None \<Rightarrow> []) @
       [(''type'', JString ''function''), (''wire_ids'', JArray [encode_binding (stream_binding st key p)])])"

definition completable :: "stream_env \<Rightarrow> tool_stream \<Rightarrow> string set \<Rightarrow> part \<Rightarrow> (shim_error, string set) result" where
  "completable env st ids p =
     (if rs_text (pt_name p) = [] then Inl (upstream ''completed call has no name'')
      else then_do (validate_arguments (se_tools env) (rs_text (pt_arguments p)) True) (\<lambda>_.
        if rt_wire (ts_target st) \<noteq> GoogleGenerateContent \<and> \<not> is_nonempty (map_option rs_text (pt_wire_id p))
        then Inl (upstream ''completed call has no correlation id'')
        else case pt_wire_id p of
            None \<Rightarrow> Inr ids
          | Some t \<Rightarrow> if rs_text t \<in> ids then Inl (upstream ''duplicate correlation id'') else Inr (insert (rs_text t) ids)))"

fun complete_calls ::
  "stream_env \<Rightarrow> tool_stream \<Rightarrow> (string \<times> part) list \<Rightarrow> string set \<Rightarrow> tool_call_map \<Rightarrow> derived_budget \<Rightarrow>
     (shim_error, json list \<times> derived_budget) result" where
  "complete_calls env st [] ids m b = Inr ([], b)"
| "complete_calls env st ((key, p) # ordered) ids m b =
     then_do (completable env st ids p) (\<lambda>ids.
     then_do (frame_charges env st key p b) (\<lambda>b.
     then_do (map_insert (rs_text (pt_id p)) [stream_binding st key p] m) (\<lambda>m.
     then_do (complete_calls env st ordered ids m b) (\<lambda>(calls, b). Inr (completed_call env st key p # calls, b)))))"

definition own_parts :: "nat \<Rightarrow> tool_stream \<Rightarrow> (string \<times> part) list" where
  "own_parts choice st = filter (\<lambda>(_, p). pt_choice p = choice) (ts_parts st)"

definition ordered_parts :: "nat \<Rightarrow> tool_stream \<Rightarrow> (string \<times> part) list" where
  "ordered_parts choice st = sort_key (\<lambda>(_, p). pt_index p) (own_parts choice st)"

definition without_key :: "'k \<Rightarrow> ('k \<times> 'v) list \<Rightarrow> ('k \<times> 'v) list" where
  "without_key k m = filter (\<lambda>e. fst e \<noteq> k) m"

definition drop_parts :: "stream_env \<Rightarrow> nat \<Rightarrow> tool_stream \<Rightarrow> tool_stream" where
  "drop_parts env choice st =
     fold (\<lambda>(key, p) st. ts_release (part_footprint env (ts_target st) key p) (st\<lparr>ts_parts := without_key key (ts_parts st)\<rparr>)) (own_parts choice st) st"

definition drop_last :: "nat \<Rightarrow> tool_stream \<Rightarrow> tool_stream" where
  "drop_last choice st =
     (case map_of (ts_gemini_last st) choice of
        Some (key, _) \<Rightarrow> ts_release (rf_record (length key)) (st\<lparr>ts_gemini_last := without_key choice (ts_gemini_last st)\<rparr>)
      | None \<Rightarrow> st)"

definition drop_mappings :: "nat \<Rightarrow> tool_stream \<Rightarrow> tool_stream" where
  "drop_mappings choice st =
     (case map_of (ts_gemini_by_id st) choice of
        Some mappings \<Rightarrow>
          ts_release (rf_record 0) (fold (\<lambda>(_, entry). ts_release (mapping_footprint entry)) mappings
            (st\<lparr>ts_gemini_by_id := without_key choice (ts_gemini_by_id st)\<rparr>))
      | None \<Rightarrow> st)"

definition drop_next :: "nat \<Rightarrow> tool_stream \<Rightarrow> tool_stream" where
  "drop_next choice st =
     (if map_of (ts_gemini_next st) choice \<noteq> None
      then ts_release (rf_record 0) (st\<lparr>ts_gemini_next := without_key choice (ts_gemini_next st)\<rparr>) else st)"

definition report_completed :: "nat \<Rightarrow> tool_stream \<Rightarrow> tool_stream" where
  "report_completed choice st =
     st\<lparr>ts_progress := map_option (fold (\<lambda>(key, p). report_ended (view_of key p)) (ordered_parts choice st)) (ts_progress st)\<rparr>"

definition complete_choice :: "stream_env \<Rightarrow> nat \<Rightarrow> derived_budget \<Rightarrow> (json list option \<times> derived_budget) stream_step" where
  "complete_choice env choice b st =
     (if choice \<in> set (ts_emitted st) then (Inr (None, b), st)
      else case complete_calls env st (ordered_parts choice st) {} empty_map b of
          Inl e \<Rightarrow> (Inl e, st)
        | Inr (calls, b) \<Rightarrow>
            seq_step (ts_reserve (rf_record 0)) (\<lambda>_ st.
              (Inr (if calls = [] then None else Some calls, b),
               drop_next choice (drop_mappings choice (drop_last choice (drop_parts env choice
                 (report_completed choice (st\<lparr>ts_emitted := insort_insert choice (ts_emitted st)\<rparr>))))))) st)"

section \<open>One event\<close>

text \<open>\<open>value[k]\<close> as a place: the member is created, and what is neither an object nor \<open>null\<close> panics.\<close>

definition place :: "string \<Rightarrow> json \<Rightarrow> json option" where
  "place k v = set_index v k (index v k)"

definition edit_choices :: "(json list \<Rightarrow> (shim_error, json list) outcome) \<Rightarrow> json \<Rightarrow> (shim_error, json) outcome" where
  "edit_choices f v =
     bind_outcome (unwrap (place ''choices'' v)) (\<lambda>v.
       case index v ''choices'' of
         JArray cs \<Rightarrow> bind_outcome (f cs) (\<lambda>cs. ok (edit_key ''choices'' (\<lambda>_. JArray cs) v))
       | _ \<Rightarrow> None)"

definition index_of_choice :: "json \<Rightarrow> nat" where
  "index_of_choice c = (case u64_at c ''index'' of Some n \<Rightarrow> n | None \<Rightarrow> 0)"

definition empty_choice :: "nat \<Rightarrow> string \<Rightarrow> json" where
  "empty_choice n reason = JObject [(''delta'', JObject []), (''finish_reason'', JString reason), (''index'', JNumber (PosInt n))]"

definition default_chunk :: "tool_stream \<Rightarrow> json" where
  "default_chunk st = JObject
     [(''choices'', JArray [JObject [(''delta'', JObject []), (''finish_reason'', JNull), (''index'', JNumber (PosInt 0))]]),
      (''model'', JString (rt_model (ts_target st))), (''object'', JString ''chat.completion.chunk'')]"

definition strip_calls :: "json \<Rightarrow> json" where
  "strip_calls v =
     edit_key ''choices'' (\<lambda>cs. case cs of JArray vs \<Rightarrow> JArray (map (edit_key ''delta'' (remove_key ''tool_calls'')) vs) | _ \<Rightarrow> cs) v"

definition present :: "'a option list \<Rightarrow> 'a list" where
  "present xs = List.map_filter id xs"

fun reserve_values :: "stream_env \<Rightarrow> json list \<Rightarrow> derived_budget \<Rightarrow> (shim_error, derived_budget) result" where
  "reserve_values env [] b = Inr b"
| "reserve_values env (v # vs) b = then_do (derived_reserve_value (se_scap env) (se_vcap env) v b) (reserve_values env vs)"

definition metadata_of :: "json \<Rightarrow> json list" where
  "metadata_of message =
     present [get message ''reasoning''] @ concat (map (\<lambda>tc. present [get tc ''thought_signature'', get tc ''wire_ids'']) (items_at message ''tool_calls''))"

definition reserve_existing_metadata :: "stream_env \<Rightarrow> json \<Rightarrow> derived_budget \<Rightarrow> (shim_error, derived_budget) result" where
  "reserve_existing_metadata env response =
     reserve_values env (concat (map (\<lambda>c. concat (map metadata_of (present [get c ''message'', get c ''delta''])))
       (items_at response ''choices'')))"

definition gemini_reason :: "string \<Rightarrow> (shim_error, string) result" where
  "gemini_reason r =
     (if r = ''STOP'' then Inr ''stop'' else if r = ''MAX_TOKENS'' then Inr ''length'' else if r = ''SAFETY'' then Inr ''content_filter''
      else Inl (upstream ''unsupported terminal reason''))"

definition gemini_first_index :: "json \<Rightarrow> json \<Rightarrow> (shim_error, json) outcome" where
  "gemini_first_index event v =
     (case u64_at (index_nth (index event ''candidates'') 0) ''index'' of
        None \<Rightarrow> ok v
      | Some n \<Rightarrow>
          bind_outcome (unwrap (place ''choices'' v)) (\<lambda>v.
            case index v ''choices'' of
              JArray (c # cs) \<Rightarrow>
                bind_outcome (unwrap (set_index c ''index'' (JNumber (PosInt n)))) (\<lambda>c. ok (edit_key ''choices'' (\<lambda>_. JArray (c # cs)) v))
            | _ \<Rightarrow> ok v))"

fun gemini_terminals :: "(nat \<times> json) list \<Rightarrow> json \<Rightarrow> (shim_error, json) outcome" where
  "gemini_terminals [] v = ok v"
| "gemini_terminals ((i, candidate) # candidates) v =
     (case str_at candidate ''finishReason'' of
        None \<Rightarrow> gemini_terminals candidates v
      | Some reason \<Rightarrow>
          let n = (case u64_at candidate ''index'' of Some n \<Rightarrow> n | None \<Rightarrow> i)
          in bind_outcome (edit_choices (\<lambda>cs.
               if list_ex (\<lambda>c. index_of_choice c = n) cs then ok cs
               else bind_outcome (lift (gemini_reason reason)) (\<lambda>r. ok (cs @ [empty_choice n r]))) v) (gemini_terminals candidates))"

definition terminal_choices :: "json \<Rightarrow> nat list" where
  "terminal_choices v =
     map (\<lambda>(i, c). case u64_at c ''index'' of Some n \<Rightarrow> n | None \<Rightarrow> i)
       (filter (\<lambda>(_, c). is_string (index c ''finish_reason'')) (enumerated (items_at v ''choices'')))"

definition attach_calls :: "json list \<Rightarrow> json \<Rightarrow> (shim_error, json) outcome" where
  "attach_calls calls c =
     bind_outcome (unwrap (place ''delta'' c)) (\<lambda>c.
     bind_outcome (unwrap (set_index (index c ''delta'') ''tool_calls'' (JArray calls))) (\<lambda>d.
       let c = edit_key ''delta'' (\<lambda>_. d) c
       in ok (if has_str c ''finish_reason'' ''stop'' then insert_key ''finish_reason'' (JString ''tool_calls'') c else c)))"

definition expose_calls :: "nat \<Rightarrow> json list \<Rightarrow> json list \<Rightarrow> (shim_error, json list) outcome" where
  "expose_calls choice calls cs =
     (let cs = (if list_ex (\<lambda>c. index_of_choice c = choice) cs then cs else cs @ [empty_choice choice ''tool_calls'']);
          position = length (takeWhile (\<lambda>c. index_of_choice c \<noteq> choice) cs)
      in bind_outcome (attach_calls calls (cs ! position)) (\<lambda>c. ok (cs[position := c])))"

fun complete_all :: "stream_env \<Rightarrow> nat list \<Rightarrow> json \<Rightarrow> derived_budget \<Rightarrow> json stream_run" where
  "complete_all env [] v b = run_step (pure_step v)"
| "complete_all env (choice # choices) v b =
     seq_run (run_step (complete_choice env choice b)) (\<lambda>(calls, b).
     seq_run (run_outcome (case calls of None \<Rightarrow> ok v | Some cs \<Rightarrow> edit_choices (expose_calls choice cs) v)) (\<lambda>v.
       complete_all env choices v b))"

definition useful :: "json \<Rightarrow> bool" where
  "useful v \<longleftrightarrow>
     get v ''usage'' \<noteq> None \<or>
     list_ex (\<lambda>c. is_string (index c ''finish_reason'') \<or> (case index c ''delta'' of JObject kvs \<Rightarrow> kvs \<noteq> [] | _ \<Rightarrow> False)) (items_at v ''choices'')"

definition read_chunk :: "stream_env \<Rightarrow> string option \<Rightarrow> tool_stream \<Rightarrow> (shim_error, json) result" where
  "read_chunk env chunk st =
     (case chunk of
        None \<Rightarrow> Inr (default_chunk st)
      | Some t \<Rightarrow> (case se_from_str env t of Inr v \<Rightarrow> Inr v | Inl e \<Rightarrow> Inl (Json e)))"

definition chunk_value :: "stream_env \<Rightarrow> string option \<Rightarrow> json stream_run" where
  "chunk_value env chunk st = run_outcome (lift (read_chunk env chunk st)) st"

definition candidate_choices :: "json \<Rightarrow> json \<Rightarrow> json stream_run" where
  "candidate_choices event v st = run_outcome
     (if rt_wire (ts_target st) = GoogleGenerateContent
      then bind_outcome (gemini_first_index event v) (gemini_terminals (enumerated (items_at event ''candidates'')))
      else ok v) st"

definition push_inner :: "stream_env \<Rightarrow> json \<Rightarrow> string option \<Rightarrow> string option stream_run" where
  "push_inner env event chunk =
     seq_run (parse_event env event) (\<lambda>_.
     seq_run (chunk_value env chunk) (\<lambda>v.
     seq_run (run_outcome (lift (reserve_existing_metadata env (strip_calls v) (derived_new FailStream)))) (\<lambda>b.
     seq_run (candidate_choices event (strip_calls v)) (\<lambda>v.
     seq_run (complete_all env (terminal_choices v) v b) (\<lambda>v'.
       run_step (pure_step (if useful v' \<and> (chunk \<noteq> None \<or> terminal_choices v \<noteq> []) then Some (te_render (se_tools env) v') else None)))))))"

definition push_event :: "stream_env \<Rightarrow> json \<Rightarrow> string option \<Rightarrow> string option stream_run" where
  "push_event env event chunk st =
     (case push_inner env event chunk st of
        None \<Rightarrow> None
      | Some (Inl e, st') \<Rightarrow> Some (Inl e, clear_stream st')
      | Some (Inr x, st') \<Rightarrow> Some (Inr x, st'))"

definition finish_stream :: "unit stream_step" where
  "finish_stream st =
     (if list_ex (\<lambda>(_, p). pt_choice p \<notin> set (ts_emitted st)) (ts_parts st)
      then (Inl (upstream ''stream ended before all tool choices completed''), clear_stream st)
      else (Inr (), clear_stream st))"

definition drop_stream :: "tool_stream \<Rightarrow> tool_stream" where
  "drop_stream = abandon_open"

end
