(* ===== verification/StreamLaws.thy ===== *)
theory StreamLaws
  imports ToolStream
begin

text \<open>
  How invariants of a tool stream are proved: what is known of composed steps, and locales that lift the laws of the
  primitive operations to whole events and whole streams. Every invariant of a stream is an interpretation.
\<close>

section \<open>Outcomes of steps\<close>

definition step_ok :: "(tool_stream \<Rightarrow> bool) \<Rightarrow> 'a stream_step \<Rightarrow> (tool_stream \<Rightarrow> bool) \<Rightarrow> (tool_stream \<Rightarrow> bool) \<Rightarrow> bool" where
  "step_ok P m Q R \<longleftrightarrow> (\<forall>st. P st \<longrightarrow> (case m st of (Inr _, st') \<Rightarrow> Q st' | (Inl _, st') \<Rightarrow> R st'))"

named_theorems steps \<open>what is known of composed steps\<close>

lemma step_ok_pure [steps]: "(\<And>st. P st \<Longrightarrow> Q st) \<Longrightarrow> step_ok P (pure_step x) Q R"
  by (simp add: step_ok_def pure_step_def)

lemma step_ok_failing [steps]: "(\<And>st. P st \<Longrightarrow> R st) \<Longrightarrow> step_ok P (failing e) Q R"
  by (simp add: step_ok_def failing_def)

lemma step_ok_result [steps]: "(\<And>st. P st \<Longrightarrow> Q st) \<Longrightarrow> (\<And>st. P st \<Longrightarrow> R st) \<Longrightarrow> step_ok P (from_result r) Q R"
  by (cases r) (simp_all add: step_ok_def from_result_def)

lemma step_ok_seq [steps]:
  assumes "step_ok P m Q R" and "\<And>x. step_ok Q (f x) S R"
  shows "step_ok P (seq_step m f) S R"
  unfolding step_ok_def
proof (intro allI impI)
  fix st assume "P st"
  with assms(1) have *: "case m st of (Inr _, st') \<Rightarrow> Q st' | (Inl _, st') \<Rightarrow> R st'" by (simp add: step_ok_def)
  show "case seq_step m f st of (Inr _, st') \<Rightarrow> S st' | (Inl _, st') \<Rightarrow> R st'"
  proof (cases "m st")
    case (Pair r st')
    show ?thesis
    proof (cases r)
      case (Inr x)
      with Pair * assms(2) [of x] show ?thesis by (simp add: seq_step_def step_ok_def)
    qed (use Pair * in \<open>simp add: seq_step_def\<close>)
  qed
qed

lemma step_ok_when [steps]: "(\<And>x. step_ok P (f x) P R) \<Longrightarrow> step_ok P (when_some y f) P R"
  by (cases y) (auto simp: when_some_def intro: steps)

lemma step_ok_each [steps]: "(\<And>x. step_ok P (f x) P R) \<Longrightarrow> step_ok P (each_step f xs) P R"
  by (induction xs) (auto intro!: steps)

lemma step_ok_option [steps]: "step_ok P m Q R \<Longrightarrow> (\<And>y. step_ok P (f y) Q R) \<Longrightarrow> step_ok P (case x of None \<Rightarrow> m | Some y \<Rightarrow> f y) Q R"
  by (cases x) simp_all

lemma step_ok_if [steps]: "step_ok P m Q R \<Longrightarrow> step_ok P n Q R \<Longrightarrow> step_ok P (if c then m else n) Q R"
  by simp

definition run_ok :: "(tool_stream \<Rightarrow> bool) \<Rightarrow> 'a stream_run \<Rightarrow> (tool_stream \<Rightarrow> bool) \<Rightarrow> (tool_stream \<Rightarrow> bool) \<Rightarrow> bool" where
  "run_ok P m Q R \<longleftrightarrow> (\<forall>st. P st \<longrightarrow> (case m st of None \<Rightarrow> True | Some (Inr _, st') \<Rightarrow> Q st' | Some (Inl _, st') \<Rightarrow> R st'))"

lemma run_ok_step [steps]: "step_ok P m Q R \<Longrightarrow> run_ok P (run_step m) Q R"
  by (auto simp: step_ok_def run_ok_def run_step_def split: prod.splits sum.splits)

lemma run_ok_outcome [steps]: "(\<And>st. P st \<Longrightarrow> Q st) \<Longrightarrow> (\<And>st. P st \<Longrightarrow> R st) \<Longrightarrow> run_ok P (run_outcome r) Q R"
  by (cases r; cases "the r") (auto simp: run_ok_def run_outcome_def)

lemma run_ok_seq [steps]:
  assumes "run_ok P m Q R" and "\<And>x. run_ok Q (f x) S R"
  shows "run_ok P (seq_run m f) S R"
  unfolding run_ok_def
proof (intro allI impI)
  fix st assume "P st"
  with assms(1) have *: "case m st of None \<Rightarrow> True | Some (Inr _, st') \<Rightarrow> Q st' | Some (Inl _, st') \<Rightarrow> R st'"
    by (simp add: run_ok_def)
  show "case seq_run m f st of None \<Rightarrow> True | Some (Inr _, st') \<Rightarrow> S st' | Some (Inl _, st') \<Rightarrow> R st'"
  proof (cases "m st")
    case (Some z)
    obtain r st' where z: "z = (r, st')" by (cases z)
    show ?thesis
    proof (cases r)
      case (Inr x)
      with Some z * assms(2) [of x] show ?thesis by (simp add: seq_run_def run_ok_def)
    qed (use Some z * in \<open>simp add: seq_run_def\<close>)
  qed (simp add: seq_run_def)
qed

lemma run_ok_each [steps]: "(\<And>x. run_ok P (f x) P R) \<Longrightarrow> run_ok P (each_run f xs) P R"
  by (induction xs) (auto intro!: steps)

section \<open>Invariants of a stream\<close>

text \<open>
  What an invariant has to satisfy so that whole events keep it: it survives every operation that succeeds, a failing one
  leaves at least a state that clearing repairs. The contracts are layered by how far the parsing of an event is taken apart.
\<close>

locale stream_base =
  fixes env :: stream_env and I J :: "tool_stream \<Rightarrow> bool"
  assumes weaken: "I st \<Longrightarrow> J st"
    and cleared: "J st \<Longrightarrow> I (clear_stream st)"
    and completed: "step_ok I (complete_choice env choice b) I J"
begin

lemma safe_seq:
  "step_ok I m I J \<Longrightarrow> (\<And>x. step_ok I (f x) I J) \<Longrightarrow> step_ok I (seq_step m f) I J"
  "run_ok I q I J \<Longrightarrow> (\<And>x. run_ok I (g x) I J) \<Longrightarrow> run_ok I (seq_run q g) I J"
  by (auto intro: step_ok_seq run_ok_seq)

lemma safe_pure: "step_ok I (pure_step x) I J" "step_ok I (failing e) I J" "step_ok I (from_result r) I J" "run_ok I (run_outcome z) I J"
  by (auto intro: steps weaken)

lemmas safe_steps = safe_seq safe_pure step_ok_when step_ok_each step_ok_option step_ok_if run_ok_each run_ok_step completed

end

text \<open>Whole events.\<close>

locale event_laws = stream_base +
  assumes parsed: "run_ok I (parse_event env event) I J"
begin

lemma completed_all: "run_ok I (complete_all env choices v b) I J"
proof (induction choices arbitrary: v b)
  case (Cons choice choices)
  then show ?case by (auto intro!: safe_steps weaken split: option.splits)
qed (auto intro!: safe_steps weaken)

lemma pushed_inner: "run_ok I (push_inner env event chunk) I J"
proof -
  have "run_ok I (chunk_value env chunk) I J" "run_ok I (candidate_choices event v) I J" for v
    by (auto simp: run_ok_def chunk_value_def candidate_choices_def run_outcome_def weaken split: option.splits sum.splits if_splits)
  then show ?thesis unfolding push_inner_def by (intro safe_steps parsed completed_all)
qed

lemma push_keeps:
  assumes "I st" and "push_event env event chunk st = Some (r, st')"
  shows "I st'"
proof -
  from assms(2) obtain q s where inner: "push_inner env event chunk st = Some (q, s)"
    by (auto simp: push_event_def split: option.splits)
  with assms(1) pushed_inner [of event chunk] have "case q of Inr _ \<Rightarrow> I s | Inl _ \<Rightarrow> J s"
    by (fastforce simp: run_ok_def split: sum.splits)
  with assms(2) inner show ?thesis by (auto simp: push_event_def cleared split: sum.splits)
qed

lemma finish_keeps: "I st \<Longrightarrow> I (snd (finish_stream st))"
  by (simp add: finish_stream_def cleared weaken)

end

text \<open>Events as sequences of updates.\<close>

locale update_laws = stream_base +
  assumes framed: "I st \<Longrightarrow> I (st\<lparr>ts_frame := n\<rparr>)"
    and updated: "step_ok I (stream_update env key choice idx u) I J"

locale stream_laws = update_laws +
  assumes gemini: "run_ok I (parse_gemini_part env choice position native) I J"
begin

lemmas law_steps = safe_steps updated gemini

lemma response_item_ok: "step_ok I (response_item env key idx item b) I J"
  unfolding response_item_def by (intro law_steps)

lemma stop_ok: "step_ok I (\<lambda>st. if map_of (ts_parts st) key \<noteq> None then stream_update env key 0 n UEnd st else (Inr (), st)) I J"
  using updated [of key 0 n UEnd] by (simp add: step_ok_def)

lemma anthropic_ok: "step_ok I (parse_anthropic env event) I J"
  unfolding parse_anthropic_def Let_def by (intro law_steps stop_ok)

lemma responses_ok: "step_ok I (parse_responses env event) I J"
  unfolding parse_responses_def Let_def case_prod_unfold by (intro law_steps response_item_ok)

lemma chat_call_ok: "step_ok I (parse_chat_call env choice tc) I J"
proof -
  have "step_ok I (chat_updates env choice tc idx) I J" for idx
    unfolding chat_updates_def Let_def by (intro law_steps)
  then show ?thesis by (auto simp: step_ok_def parse_chat_call_def weaken split: option.splits)
qed

lemma parse_ok: "run_ok I (parse_event env event) I J"
proof -
  have "run_ok I (parse_gemini env event) I J" "step_ok I (parse_chat env event) I J"
    unfolding parse_gemini_def parse_chat_def by (auto intro!: law_steps chat_call_ok)
  then show ?thesis
    using anthropic_ok responses_ok framed
    by (auto simp: run_ok_def step_ok_def parse_event_def Let_def run_step_def split: wire_format.splits prod.splits sum.splits)
qed

end

sublocale stream_laws \<subseteq> event_laws
  by unfold_locales (rule parse_ok)

text \<open>For most invariants the Gemini bookkeeping can be taken apart further.\<close>

locale stream_step_laws = update_laws +
  assumes mapped: "step_ok I (store_mapping env choice cid key) I J"
    and remembered: "step_ok I (remember_last choice key position) I J"
    and numbered: "step_ok I (next_gemini choice) I J"
begin

lemma gemini_slot_ok: "run_ok I (gemini_slot choice position tc) I J"
proof -
  have "step_ok I (seq_step (next_gemini choice) (\<lambda>idx. pure_step (f idx))) I J" for f :: "nat \<Rightarrow> string \<times> nat"
    by (intro step_ok_seq [OF numbered] step_ok_pure)
  then have new: "case seq_step (next_gemini choice) (\<lambda>idx. pure_step (f idx)) st of (Inr _, st') \<Rightarrow> I st' | (Inl _, st') \<Rightarrow> J st'" if "I st"
    for f :: "nat \<Rightarrow> string \<times> nat" and st using that by (simp add: step_ok_def)
  show ?thesis
    unfolding run_ok_def gemini_slot_def run_step_def option.case_distrib
    by (intro allI impI) (simp add: new split: option.split)
qed

lemma gemini_part_ok: "run_ok I (parse_gemini_part env choice position native) I J"
proof -
  have "step_ok I (gemini_arguments env choice tc key idx) I J" for tc key idx
    using updated [of key choice idx] by (auto simp: step_ok_def gemini_arguments_def Let_def)
  then have "step_ok I (gemini_updates env choice position native tc slot) I J" for tc slot
    unfolding gemini_updates_def case_prod_unfold
    by (intro step_ok_seq [where Q = I] step_ok_when mapped remembered updated)
  then have "run_ok I (seq_run (gemini_slot choice position tc) (\<lambda>slot. run_step (gemini_updates env choice position native tc slot))) I J" for tc
    by (intro run_ok_seq [OF gemini_slot_ok] run_ok_step)
  then show ?thesis
    by (auto simp: parse_gemini_part_def split: option.splits intro!: run_ok_step step_ok_pure)
qed

end

sublocale stream_step_laws \<subseteq> stream_laws
  by unfold_locales (rule gemini_part_ok)

section \<open>A whole stream\<close>

fun pushes :: "stream_env \<Rightarrow> (json \<times> string option) list \<Rightarrow> tool_stream \<Rightarrow> tool_stream option" where
  "pushes env [] st = Some st"
| "pushes env ((event, chunk) # events) st = Option.bind (push_event env event chunk st) (\<lambda>(_, st). pushes env events st)"

lemma pushes_keep: "event_laws env I J \<Longrightarrow> I st \<Longrightarrow> pushes env events st = Some st' \<Longrightarrow> I st'"
proof (induction events arbitrary: st)
  case (Cons e events)
  obtain event chunk where e: "e = (event, chunk)" by fastforce
  with Cons.prems(3) obtain r s where s: "push_event env event chunk st = Some (r, s)" "pushes env events s = Some st'"
    by (auto simp: bind_eq_Some_conv)
  from Cons.IH [OF Cons.prems(1) event_laws.push_keeps [OF Cons.prems(1,2) s(1)] s(2)] show ?case .
qed simp

end
