(* ===== verification/StreamAccounts.thy ===== *)
theory StreamAccounts
  imports StreamLaws
begin

text \<open>
  The retention account of a tool stream: what the stream says it retains is what it holds, entry by entry, the shared
  budget carries exactly that on top of what its other users hold, and a failed or finished stream gives everything
  back.
\<close>

section \<open>The account\<close>

datatype meter = Bytes | Entries

fun metered :: "meter \<Rightarrow> retained_footprint \<Rightarrow> nat" where
  "metered Bytes fp = rf_bytes fp"
| "metered Entries fp = rf_entries fp"

fun room :: "meter \<Rightarrow> retained_budget \<Rightarrow> nat" where
  "room Bytes b = rb_max_bytes b"
| "room Entries b = rb_max_entries b"

lemma all_meters: "(\<forall>k. P k) \<longleftrightarrow> P Bytes \<and> P Entries"
  by (metis meter.exhaust)

lemma metered_none [simp]: "metered k no_footprint = 0"
  by (cases k) (simp_all add: no_footprint_def)

text \<open>
  The budget carries what its other users have in it (\<open>others\<close>, the budget without the stream) and the stream's own
  share, within its limits.
\<close>

definition charged :: "retained_budget \<Rightarrow> tool_stream \<Rightarrow> bool" where
  "charged others st \<longleftrightarrow>
     (\<forall>k. metered k (rb_retained (ts_budget st)) = metered k (rb_retained others) + metered k (ts_retained st) \<and>
          metered k (rb_retained (ts_budget st)) \<le> room k others \<and> room k (ts_budget st) = room k others \<and> room k others \<le> usize_max)"

text \<open>Two states that differ in the account only.\<close>

definition settled :: "tool_stream \<Rightarrow> tool_stream \<Rightarrow> bool" where
  "settled st st' \<longleftrightarrow> (\<exists>b fp. st' = st\<lparr>ts_budget := b, ts_retained := fp\<rparr>)"

lemma budget_replace_cases:
  obtains (refused) e where "budget_replace previous replacement b = (Inl e, b)"
  | (replaced) fp where "budget_replace previous replacement b = (Inr (), b\<lparr>rb_retained := fp\<rparr>)"
      "\<And>k. metered k fp = metered k (rb_retained b) - metered k previous + metered k replacement"
      "\<And>k. metered k fp \<le> room k b" "\<And>k. metered k fp \<le> usize_max"
proof (cases "budget_replace previous replacement b")
  case (Pair r b')
  show ?thesis
  proof (cases r)
    case (Inl e)
    with Pair have "b' = b" by (auto simp: budget_replace_def split: option.splits if_splits)
    with Pair Inl refused show ?thesis by simp
  next
    case (Inr u)
    let ?fp = "rb_retained b'"
    from Inr Pair have fp: "b' = b\<lparr>rb_retained := ?fp\<rparr>"
      "\<forall>k. metered k ?fp = metered k (rb_retained b) - metered k previous + metered k replacement \<and> metered k ?fp \<le> room k b \<and> metered k ?fp \<le> usize_max"
      by (auto simp: budget_replace_def swap_usize_def checked_add_usize_def all_meters split: option.splits if_splits)
    show ?thesis by (rule replaced [of ?fp]; use Pair Inr fp in \<open>metis old.unit.exhaust\<close>)
  qed
qed

lemma replace_cases [consumes 2]:
  assumes "charged others st" and "\<And>k. metered k previous \<le> metered k (ts_retained st)"
  obtains (refused) e where "ts_replace previous replacement st = (Inl e, st)"
  | (replaced) st' where "ts_replace previous replacement st = (Inr (), st')" "settled st st'" "charged others st'"
      "\<And>k. metered k (ts_retained st') = metered k (ts_retained st) - metered k previous + metered k replacement"
proof (cases rule: budget_replace_cases [of previous replacement "ts_budget st"])
  case (refused e)
  then have "ts_replace previous replacement st = (Inl e, st)" by (simp add: ts_replace_def)
  then show ?thesis using that(1) by blast
next
  case (replaced fp)
  let ?st = "st\<lparr>ts_budget := (ts_budget st)\<lparr>rb_retained := fp\<rparr>, ts_retained := rf_swap (ts_retained st) previous replacement\<rparr>"
  have swap: "metered k (rf_swap (ts_retained st) previous replacement) = metered k (ts_retained st) - metered k previous + metered k replacement" for k
  proof -
    have "metered k (ts_retained st) \<le> metered k (rb_retained (ts_budget st))" using assms(1) by (simp add: charged_def)
    with replaced(2,4) [of k] have "metered k (ts_retained st) - metered k previous + metered k replacement \<le> usize_max" by simp
    then show ?thesis by (cases k) (simp_all add: rf_swap_def saturating_add_usize_def)
  qed
  have room: "room k ((ts_budget st)\<lparr>rb_retained := fp\<rparr>) = room k (ts_budget st)" for k by (cases k) simp_all
  have "charged others ?st"
    unfolding charged_def
  proof
    fix k
    from assms(1) have "metered k (rb_retained (ts_budget st)) = metered k (rb_retained others) + metered k (ts_retained st)"
      "room k (ts_budget st) = room k others" "room k others \<le> usize_max"
      by (auto simp: charged_def)
    with assms(2) [of k] replaced(2,3) [of k] swap [of k] room [of k]
    show "metered k (rb_retained (ts_budget ?st)) = metered k (rb_retained others) + metered k (ts_retained ?st) \<and>
          metered k (rb_retained (ts_budget ?st)) \<le> room k others \<and> room k (ts_budget ?st) = room k others \<and> room k others \<le> usize_max" by simp
  qed
  moreover have "settled st ?st" unfolding settled_def by blast
  moreover have "ts_replace previous replacement st = (Inr (), ?st)" using replaced(1) by (simp add: ts_replace_def)
  ultimately show ?thesis using swap that(2) [of ?st] by simp
qed

lemma reserve_is_replace: "charged others st \<Longrightarrow> ts_reserve fp st = ts_replace no_footprint fp st"
proof (cases rule: budget_replace_cases [of no_footprint fp "ts_budget st"])
  case (refused e)
  then show ?thesis by (simp add: ts_reserve_def ts_replace_def budget_reserve_def)
next
  case (replaced whole)
  assume st: "charged others st"
  have "metered k (ts_retained st) + metered k fp \<le> usize_max" for k
    using st replaced(2,4) [of k] by (simp add: charged_def)
  from this [of Bytes] this [of Entries]
  have "rf_checked_add (ts_retained st) fp = Some (rf_swap (ts_retained st) no_footprint fp)"
    by (simp add: rf_checked_add_def checked_add_usize_def rf_swap_def saturating_add_usize_def no_footprint_def)
  with replaced(1) show ?thesis by (simp add: ts_reserve_def ts_replace_def budget_reserve_def)
qed

lemma release_charged:
  assumes "charged others st" and "\<And>k. metered k fp \<le> metered k (ts_retained st)"
  shows "charged others (ts_release fp st)"
  using assms
  by (fastforce simp: charged_def ts_release_def budget_release_def rf_saturating_sub_def all_meters)

lemma metered_release [simp]: "metered k (ts_retained (ts_release fp st)) = metered k (ts_retained st) - metered k fp"
  by (cases k) (simp_all add: ts_release_def rf_saturating_sub_def)

lemma settled_release [simp]: "settled st (ts_release fp st)"
  unfolding settled_def ts_release_def by blast

text \<open>What the stream holds, entry by entry.\<close>

definition held_list :: "stream_env \<Rightarrow> tool_stream \<Rightarrow> retained_footprint list" where
  "held_list env st =
     map (\<lambda>(key, p). part_footprint env (ts_target st) key p) (ts_parts st) @
     map (\<lambda>(_, key, _). rf_record (length key)) (ts_gemini_last st) @
     concat (map (\<lambda>(_, ms). rf_record 0 # map (mapping_footprint \<circ> snd) ms) (ts_gemini_by_id st)) @
     map (\<lambda>_. rf_record 0) (ts_gemini_next st) @ map (\<lambda>_. rf_record 0) (ts_emitted st)"

definition held :: "stream_env \<Rightarrow> meter \<Rightarrow> tool_stream \<Rightarrow> nat" where
  "held env k st = sum_list (map (metered k) (held_list env st))"

definition ordered :: "tool_stream \<Rightarrow> bool" where
  "ordered st \<longleftrightarrow> btree_wf (ts_parts st) \<and> btree_wf (ts_gemini_last st) \<and> btree_wf (ts_gemini_by_id st) \<and>
     (\<forall>ms \<in> snd ` set (ts_gemini_by_id st). btree_wf ms) \<and> btree_wf (ts_gemini_next st) \<and> distinct (ts_emitted st)"

definition accounted :: "stream_env \<Rightarrow> retained_budget \<Rightarrow> tool_stream \<Rightarrow> bool" where
  "accounted env others st \<longleftrightarrow> charged others st \<and> ordered st \<and> (\<forall>k. metered k (ts_retained st) = held env k st)"

lemma sum_btree_insert:
  fixes f :: "'k :: linorder \<times> 'v \<Rightarrow> nat"
  assumes "btree_wf m"
  shows "sum_list (map f (btree_insert k v m)) + (case map_of m k of Some w \<Rightarrow> f (k, w) | None \<Rightarrow> 0) = sum_list (map f m) + f (k, v)"
  using assms
proof (induction m)
  case (Cons p m)
  have "map_of m k = None" if "k \<le> fst p"
    using Cons.prems that by (force simp: map_of_eq_None_iff)
  with Cons show ?case by (cases p) (auto split: option.splits)
qed simp

lemma sum_without_key:
  fixes f :: "'k \<times> 'v \<Rightarrow> nat"
  assumes "distinct (map fst m)"
  shows "sum_list (map f (without_key k m)) + (case map_of m k of Some w \<Rightarrow> f (k, w) | None \<Rightarrow> 0) = sum_list (map f m)"
  using assms
proof (induction m)
  case (Cons p m)
  have "map_of m k = None" "without_key k m = m" if "k = fst p"
    using Cons.prems that by (force simp: map_of_eq_None_iff without_key_def filter_id_conv image_iff)+
  with Cons show ?case by (cases p) (auto simp: without_key_def split: option.splits)
qed (simp add: without_key_def)

lemma set_without_key: "set (without_key k m) = {e \<in> set m. fst e \<noteq> k}"
  by (auto simp: without_key_def)

lemma btree_wf_without_key: "btree_wf m \<Longrightarrow> btree_wf (without_key k m)"
  by (induction m) (auto simp: without_key_def)

lemma map_of_without_key: "map_of (without_key k m) k' = (if k' = k then None else map_of m k')"
  by (induction m) (auto simp: without_key_def)

lemma held_sums:
  "held env k st =
     (\<Sum>(key, p) \<leftarrow> ts_parts st. metered k (part_footprint env (ts_target st) key p)) +
     (\<Sum>(_, key, _) \<leftarrow> ts_gemini_last st. metered k (rf_record (length key))) +
     (\<Sum>(_, ms) \<leftarrow> ts_gemini_by_id st. metered k (rf_record 0) + (\<Sum>(_, e) \<leftarrow> ms. metered k (mapping_footprint e))) +
     (\<Sum>_ \<leftarrow> ts_gemini_next st. metered k (rf_record 0)) + (\<Sum>_ \<leftarrow> ts_emitted st. metered k (rf_record 0))"
proof -
  have "sum_list (map (metered k) (concat (map (\<lambda>(_, ms). rf_record 0 # map (mapping_footprint \<circ> snd) ms) xs))) =
     (\<Sum>(_, ms) \<leftarrow> xs. metered k (rf_record 0) + (\<Sum>(_, e) \<leftarrow> ms. metered k (mapping_footprint e)))"
    for xs :: "(nat \<times> (string \<times> rust_string \<times> rust_string) list) list"
    by (induction xs) (auto simp: comp_def case_prod_unfold)
  then show ?thesis by (simp add: held_def held_list_def comp_def case_prod_unfold)
qed

lemma settled_held: "settled st st' \<Longrightarrow> held env k st' = held env k st"
  by (auto simp: settled_def held_sums)

lemma settled_ordered: "settled st st' \<Longrightarrow> ordered st' \<longleftrightarrow> ordered st"
  by (auto simp: settled_def ordered_def)

section \<open>Updates keep the account\<close>

abbreviation part_meter :: "stream_env \<Rightarrow> tool_stream \<Rightarrow> meter \<Rightarrow> string \<Rightarrow> part \<Rightarrow> nat" where
  "part_meter env st k key p \<equiv> metered k (part_footprint env (ts_target st) key p)"

lemma put_part_fields [simp]:
  "ts_target (put_part key p st) = ts_target st" "ts_retained (put_part key p st) = ts_retained st" "ts_budget (put_part key p st) = ts_budget st"
  "map_of (ts_parts (put_part key p st)) = (map_of (ts_parts st))(key \<mapsto> p)"
  by (simp_all add: put_part_def)

lemma charged_put_part [simp]: "charged others (put_part key p st) = charged others st"
  by (simp add: charged_def)

lemma charged_other_fields [simp]:
  "charged others (st\<lparr>ts_parts := a\<rparr>) = charged others st" "charged others (st\<lparr>ts_gemini_last := l\<rparr>) = charged others st"
  "charged others (st\<lparr>ts_gemini_by_id := c\<rparr>) = charged others st" "charged others (st\<lparr>ts_gemini_next := n\<rparr>) = charged others st"
  "charged others (st\<lparr>ts_emitted := e\<rparr>) = charged others st" "charged others (st\<lparr>ts_progress := r\<rparr>) = charged others st"
  by (simp_all add: charged_def)

lemma ordered_put_part: "ordered st \<Longrightarrow> ordered (put_part key p st)"
  by (simp add: ordered_def put_part_def btree_wf_insert)

lemma held_put_part:
  assumes "ordered st"
  shows "held env k (put_part key p st) + (case map_of (ts_parts st) key of Some q \<Rightarrow> part_meter env st k key q | None \<Rightarrow> 0) =
    held env k st + part_meter env st k key p"
proof -
  have "btree_wf (ts_parts st)" using assms by (simp add: ordered_def)
  from sum_btree_insert [OF this, of "\<lambda>(key, p). part_meter env st k key p" key p]
  show ?thesis by (simp add: held_sums put_part_def split: option.splits)
qed

lemma part_held:
  assumes "ordered st" and "map_of (ts_parts st) key = Some p"
  shows "part_meter env st k key p \<le> held env k st"
proof -
  have "distinct (map fst (ts_parts st))" using assms(1) btree_wf_distinct by (auto simp: ordered_def)
  from sum_without_key [OF this, of "\<lambda>(key, p). part_meter env st k key p" key] assms(2)
  show ?thesis by (simp add: held_sums)
qed

lemma btree_insert_twice: "btree_insert k v (btree_insert k w m) = btree_insert k v m"
  by (induction m) auto

lemma put_part_twice [simp]: "put_part key p (put_part key q st) = put_part key p st"
  by (simp add: put_part_def btree_insert_twice)

lemma replace_put_part: "ts_replace a b (put_part key q st) = map_prod id (put_part key q) (ts_replace a b st)"
  by (auto simp: ts_replace_def put_part_def split: prod.splits sum.splits)

lemma settled_fields:
  assumes "settled st st'"
  shows "ts_target st' = ts_target st" "ts_parts st' = ts_parts st" "ts_gemini_last st' = ts_gemini_last st" "ts_gemini_by_id st' = ts_gemini_by_id st"
    "ts_gemini_next st' = ts_gemini_next st" "ts_emitted st' = ts_emitted st" "ts_frame st' = ts_frame st" "ts_progress st' = ts_progress st"
  using assms by (auto simp: settled_def)

lemma settled_refl [simp]: "settled st st"
  unfolding settled_def by (rule exI [of _ "ts_budget st"], rule exI [of _ "ts_retained st"]) simp

lemma settled_trans: "settled st st' \<Longrightarrow> settled st' st'' \<Longrightarrow> settled st st''"
  by (force simp: settled_def)

abbreviation account_result :: "stream_env \<Rightarrow> retained_budget \<Rightarrow> ('e, 'a) result \<times> tool_stream \<Rightarrow> bool" where
  "account_result env others r \<equiv> (case r of (Inr _, st') \<Rightarrow> accounted env others st' | (Inl _, st') \<Rightarrow> charged others st')"

lemma part_charged:
  "accounted env others st \<Longrightarrow> map_of (ts_parts st) key = Some p \<Longrightarrow> part_meter env st k key p \<le> metered k (ts_retained st)"
  by (simp add: accounted_def part_held)

lemma accounted_charged: "accounted env others st \<Longrightarrow> charged others st"
  by (simp add: accounted_def)

text \<open>A part is charged at a projected size first and at its actual size once the allocation is done.\<close>

lemma accounted_swap:
  assumes "accounted env others st" and "map_of (ts_parts st) key = Some p"
    and "settled st st'" and "charged others st'"
    and "\<And>k. metered k (ts_retained st') = metered k (ts_retained st) - part_meter env st k key p + part_meter env st k key p'"
  shows "accounted env others (put_part key p' st')"
proof -
  have "metered k (ts_retained st') = held env k (put_part key p' st')" for k
    using assms(1,2) held_put_part [of st' env k key p'] part_held [of st key p k env] assms(5) [of k]
    by (auto simp: accounted_def settled_fields [OF assms(3)] settled_held [OF assms(3)] settled_ordered [OF assms(3)])
  with assms show ?thesis by (simp add: accounted_def ordered_put_part settled_ordered [OF assms(3)])
qed

lemma projected_step:
  assumes st: "accounted env others st" and p: "map_of (ts_parts st) key = Some p"
    and g: "g = id \<or> (\<exists>q. g = put_part key q)"
    and actual: "actual = part_footprint env (ts_target st) key p'"
  shows "account_result env others (seq_step (ts_replace (part_footprint env (ts_target st) key p) projected)
    (\<lambda>_ s. seq_step (ts_replace projected actual) (\<lambda>_ s. (Inr (), put_part key p' s)) (g s)) st)"
proof -
  note le = part_charged [OF st p] and ch = accounted_charged [OF st]
  show ?thesis
  using ch le
  proof (cases rule: replace_cases [where replacement = projected])
    case (replaced s1)
    note 1 = this
    then have le1: "metered k projected \<le> metered k (ts_retained s1)" for k by simp
    show ?thesis
      using 1(3) le1
    proof (cases rule: replace_cases [where replacement = actual])
      case (replaced s2)
      then have "accounted env others (put_part key p' s2)"
        using 1(4) le actual by (intro accounted_swap [OF st p] settled_trans [OF 1(2)]) simp_all
      with g 1(1) replaced(1) show ?thesis by (auto simp: seq_step_def replace_put_part)
    qed (use g 1 in \<open>auto simp: seq_step_def replace_put_part\<close>)
  qed (simp add: seq_step_def ch)
qed

lemma refused_step:
  assumes st: "accounted env others st" and p: "map_of (ts_parts st) key = Some p"
    and g: "g = id \<or> (\<exists>q. g = put_part key q)"
  shows "account_result env others (seq_step (ts_replace (part_footprint env (ts_target st) key p) projected)
    (\<lambda>_ s. seq_step (ts_replace projected previous) (\<lambda>_. failing e) (g s)) st)"
proof -
  note le = part_charged [OF st p] and ch = accounted_charged [OF st]
  show ?thesis
  using ch le
  proof (cases rule: replace_cases [where replacement = projected])
    case (replaced s1)
    note 1 = this
    then have le1: "metered k projected \<le> metered k (ts_retained s1)" for k by simp
    show ?thesis
      using 1(3) le1
      by (cases rule: replace_cases [where replacement = previous])
        (use g 1 in \<open>auto simp: seq_step_def replace_put_part failing_def\<close>)
  qed (simp add: seq_step_def ch)
qed

lemma footprint_of_field:
  "part_footprint_with_capacity env target key p field (rs_cap s) = part_footprint env target key (set_part_string field s p)"
  by (cases field) (simp_all add: part_footprint_def part_footprint_with_capacity_def set_part_string_def cap_of_def)

lemma footprint_push [simp]:
  "part_footprint env target key (set_part_string field (push_str t s) p) = part_footprint env target key (set_part_string field s p)"
  by (simp add: footprint_of_field [symmetric] push_str_def)

lemma append_accounted:
  assumes "accounted env others st" and "map_of (ts_parts st) key = Some p" and "replace_initial \<longrightarrow> field = FieldArguments"
  shows "account_result env others (append_fragment env key field t replace_initial st)"
proof (cases "(if replace_initial then 0 else length (rs_text (part_string p field))) + length t \<le> usize_max")
  case False
  with assms show ?thesis by (simp add: append_fragment_def accounted_def checked_add_usize_def)
next
  case final: True
  let ?s = "part_string p field"
  show ?thesis
  proof (cases replace_initial)
    case True
    then have field: "field = FieldArguments" using assms(3) by simp
    show ?thesis
    proof (cases "reserve_exact env empty_string (length t)")
      case None
      with True final assms(2) refused_step [OF assms(1,2), of id] show ?thesis
        by (simp add: append_fragment_def Let_def checked_add_usize_def field)
    next
      case (Some s')
      have initial: "part_footprint_with_capacity env (ts_target st) key p FieldArguments (rs_cap s') =
          part_footprint env (ts_target st) key (p\<lparr>pt_arguments := push_str t s', pt_initial := False\<rparr>)"
        by (simp add: part_footprint_with_capacity_def part_footprint_def push_str_def)
      with True final Some assms(2) projected_step [OF assms(1,2) _ initial, of id] show ?thesis
        by (simp add: append_fragment_def Let_def checked_add_usize_def field)
    qed
  next
    case False
    show ?thesis
    proof (cases "reserve_exact env ?s (length t)")
      case None
      have "put_part key (set_part_string field ?s p) = id \<or> (\<exists>q. put_part key (set_part_string field ?s p) = put_part key q)" by blast
      from refused_step [OF assms(1,2) this] False final assms(2) None show ?thesis
        by (simp add: append_fragment_def Let_def checked_add_usize_def)
    next
      case (Some s')
      have "put_part key (set_part_string field s' p) = id \<or> (\<exists>q. put_part key (set_part_string field s' p) = put_part key q)" by blast
      from projected_step [OF assms(1,2) this footprint_push [symmetric]] False final assms(2) Some show ?thesis
        by (simp add: append_fragment_def Let_def checked_add_usize_def)
    qed
  qed
qed

lemma late_put:
  "ts_replace a b (put_part key q s) = seq_step (ts_replace a b) (\<lambda>_ s. (Inr (), put_part key q s)) (put_part key q s)"
  by (cases "ts_replace a b s"; cases "fst (ts_replace a b s)") (auto simp: replace_put_part seq_step_def)

lemma signature_accounted:
  assumes "accounted env others st" and "map_of (ts_parts st) key = Some p"
  shows "account_result env others (apply_signature env key t st)"
proof (cases "fallible_string env t")
  case (Inl e)
  note le = part_charged [OF assms] and ch = accounted_charged [OF assms(1)]
  from ch le show ?thesis
    by (cases rule: replace_cases [where replacement = "part_footprint_with_signature env (ts_target st) key p (length t)"])
      (use assms(2) Inl ch in \<open>auto simp: apply_signature_def Let_def seq_step_def\<close>)
next
  case (Inr s)
  let ?p = "p\<lparr>pt_signature := Some s\<rparr>"
  let ?fp = "part_footprint_with_signature env (ts_target st) key p (length t)"
  have "put_part key ?p = id \<or> (\<exists>q. put_part key ?p = put_part key q)" by blast
  from projected_step [OF assms this refl, of ?fp] Inr assms(2)
  have "account_result env others (seq_step (ts_replace (part_footprint env (ts_target st) key p) ?fp)
    (\<lambda>_ s. ts_replace ?fp (part_footprint env (ts_target st) key ?p) (put_part key ?p s)) st)"
    by (subst late_put) simp
  moreover have "ts_target s = ts_target st" if "ts_replace a b st = (Inr (), s)" for a b s
    using that by (auto simp: ts_replace_def split: prod.splits sum.splits)
  ultimately show ?thesis
    by (auto simp: apply_signature_def Let_def seq_step_def assms(2) Inr split: prod.splits sum.splits)
qed

lemma replaced_part_accounted:
  assumes "accounted env others st" and "map_of (ts_parts st) key = Some p"
  shows "account_result env others (ts_replace (part_footprint env (ts_target st) key p) (part_footprint env (ts_target st) key p') (put_part key p' st))"
proof -
  note le = part_charged [OF assms] and ch = accounted_charged [OF assms(1)]
  from ch le show ?thesis
  proof (cases rule: replace_cases [where replacement = "part_footprint env (ts_target st) key p'"])
    case (replaced s)
    from accounted_swap [OF assms replaced(2,3,4)] replaced(1) show ?thesis by (simp add: replace_put_part)
  qed (simp add: replace_put_part ch)
qed

lemma accounted_irrelevant [simp]:
  "accounted env others (st\<lparr>ts_minted := n\<rparr>) = accounted env others st"
  "accounted env others (st\<lparr>ts_frame := n\<rparr>) = accounted env others st"
  "accounted env others (st\<lparr>ts_progress := r\<rparr>) = accounted env others st"
  by (simp_all add: accounted_def charged_def ordered_def held_sums)

lemma ensure_accounted:
  assumes "accounted env others st"
  shows "case ensure_part env d st of
      (Inr _, st') \<Rightarrow> accounted env others st' \<and> (\<exists>p. map_of (ts_parts st') (td_part d) = Some p)
    | (Inl _, st') \<Rightarrow> charged others st'"
proof (cases "map_of (ts_parts st) (td_part d)")
  case None
  let ?key = "td_part d"
  let ?cid = "mint (se_tools env) (ts_minted st)"
  define p where "p = \<lparr>pt_id = \<lparr>rs_text = ?cid, rs_cap = se_cap env ?cid\<rparr>, pt_choice = td_choice d, pt_index = td_index d, pt_name = empty_string,
     pt_wire_id = None, pt_item_id = None, pt_arguments = empty_string, pt_initial = False, pt_signature = None,
     pt_signature_field = None, pt_ended = False\<rparr>"
  let ?st = "st\<lparr>ts_minted := Suc (ts_minted st)\<rparr>"
  have st: "accounted env others ?st" using assms by simp
  then have ch: "charged others ?st" by (simp add: accounted_def)
  have eq: "ensure_part env d st = seq_step (ts_replace no_footprint (part_footprint env (ts_target st) ?key p))
      (\<lambda>_ s. (Inr (), put_part ?key p s)) ?st"
    using None by (simp add: ensure_part_def Let_def p_def seq_step_def reserve_is_replace [OF ch])
  from ch have "\<And>k. metered k no_footprint \<le> metered k (ts_retained ?st)" by simp
  with ch show ?thesis
  proof (cases rule: replace_cases [where replacement = "part_footprint env (ts_target st) ?key p"])
    case (replaced s)
    note same = settled_fields [OF replaced(2)]
    have "metered k (ts_retained s) = held env k (put_part ?key p s)" for k
      using held_put_part [of s env k ?key p] st None replaced(4) [of k]
      by (simp add: accounted_def settled_ordered [OF replaced(2)] settled_held [OF replaced(2)] same)
    with replaced st have "accounted env others (put_part ?key p s)"
      by (simp add: accounted_def ordered_put_part settled_ordered [OF replaced(2)])
    with replaced(1) show ?thesis by (simp add: eq seq_step_def)
  qed (use ch in \<open>simp add: eq seq_step_def\<close>)
qed (use assms in \<open>simp add: ensure_part_def\<close>)

lemma inner_accounted:
  assumes "accounted env others st"
  shows "account_result env others (apply_inner env d st)"
proof (cases "td_choice d \<in> set (ts_emitted st)")
  case True
  with assms show ?thesis by (simp add: apply_inner_def accounted_def)
next
  case False
  obtain r s where r: "ensure_part env d st = (r, s)" by fastforce
  note made = ensure_accounted [OF assms, of d, unfolded r]
  show ?thesis
  proof (cases r)
    case (Inl e)
    with made r False show ?thesis by (simp add: apply_inner_def seq_step_def)
  next
    case (Inr u)
    with made obtain p where s: "accounted env others s" and p: "map_of (ts_parts s) (td_part d) = Some p" by auto
    have ch: "charged others s" using s by (simp add: accounted_def)
    note parts = append_accounted [OF s p] signature_accounted [OF s p] replaced_part_accounted [OF s p]
    show ?thesis
    proof (cases "td_update d")
      case UEnd
      then show ?thesis using False r Inr p parts ch
        by (cases "update_part env UEnd p") (simp_all add: apply_inner_def apply_update_def seq_step_def Let_def)
    qed (use False r Inr p parts ch in \<open>simp_all add: apply_inner_def apply_update_def seq_step_def Let_def update_part_def\<close>)
  qed
qed

lemma clear_accounted:
  assumes "charged others st"
  shows "accounted env others (clear_stream st)"
proof -
  have "charged others (clear_stream st)"
    using assms release_charged [of others st "ts_retained st"]
    by (simp add: charged_def clear_stream_def ts_release_def abandon_open_def no_footprint_def rf_saturating_sub_def all_meters)
  then show ?thesis
    by (simp add: accounted_def ordered_def held_sums clear_stream_def abandon_open_def)
qed

lemma update_accounted: "step_ok (accounted env others) (stream_update env key choice idx u) (accounted env others) (charged others)"
proof (unfold step_ok_def, intro allI impI)
  fix st assume st: "accounted env others st"
  let ?d = "\<lparr>td_part = key, td_choice = choice, td_index = idx, td_update = u\<rparr>"
  obtain r s where r: "apply_inner env ?d st = (r, s)" by fastforce
  with inner_accounted [OF st, of ?d]
  show "account_result env others (stream_update env key choice idx u st)"
    by (cases r) (simp_all add: stream_update_def apply_delta_def Let_def clear_accounted [THEN accounted_charged])
qed

section \<open>Gemini bookkeeping and completion keep the account\<close>

lemma optional_reserve [consumes 1]:
  assumes "charged others st"
  obtains (refused) e where "(if c then pure_step () else ts_reserve fp) st = (Inl e, st)"
  | (passed) s where "(if c then pure_step () else ts_reserve fp) st = (Inr (), s)" "settled st s" "charged others s"
      "\<And>k. metered k (ts_retained s) = metered k (ts_retained st) + (if c then 0 else metered k fp)"
proof (cases c)
  case True
  then show ?thesis using passed [of st] assms by (simp add: pure_step_def)
next
  case False
  have "\<And>k. metered k no_footprint \<le> metered k (ts_retained st)" by simp
  with assms show ?thesis
    by (cases rule: replace_cases [where replacement = fp]) (use False refused passed reserve_is_replace [OF assms] in auto)
qed

lemma next_accounted: "step_ok (accounted env others) (next_gemini choice) (accounted env others) (charged others)"
proof (unfold step_ok_def, intro allI impI)
  fix st assume st: "accounted env others st"
  let ?c = "map_of (ts_gemini_next st) choice \<noteq> None"
  have eq: "next_gemini choice st = seq_step (if ?c then pure_step () else ts_reserve (rf_record 0)) (\<lambda>_ st.
       let n = (case map_of (ts_gemini_next st) choice of Some n \<Rightarrow> n | None \<Rightarrow> 0)
       in (Inr n, st\<lparr>ts_gemini_next := btree_insert choice (wrapping_succ_u64 n) (ts_gemini_next st)\<rparr>)) st"
    by (auto simp: next_gemini_def)
  from accounted_charged [OF st] show "account_result env others (next_gemini choice st)"
  proof (cases rule: optional_reserve [where c = ?c and fp = "rf_record 0"])
    case (passed s)
    note same = settled_fields [OF passed(2)] settled_held [OF passed(2)] settled_ordered [OF passed(2)]
    define n where "n = (case map_of (ts_gemini_next st) choice of Some n \<Rightarrow> n | None \<Rightarrow> 0)"
    let ?s = "s\<lparr>ts_gemini_next := btree_insert choice (wrapping_succ_u64 n) (ts_gemini_next s)\<rparr>"
    have wf: "btree_wf (ts_gemini_next st)" using st by (simp add: accounted_def ordered_def)
    have "held env k ?s = held env k s + (if ?c then 0 else metered k (rf_record 0))" for k
      using sum_btree_insert [OF wf, of "\<lambda>_. metered k (rf_record 0)" choice "wrapping_succ_u64 n"]
      by (auto simp: held_sums same split: option.splits)
    moreover have "ordered ?s" using st by (simp add: accounted_def ordered_def same btree_wf_insert)
    ultimately have "accounted env others ?s"
      using passed(3,4) st by (simp add: accounted_def same)
    with passed(1) show ?thesis by (simp add: eq seq_step_def n_def same Let_def)
  qed (use accounted_charged [OF st] in \<open>simp add: eq seq_step_def\<close>)
qed

lemma last_accounted: "step_ok (accounted env others) (remember_last choice key position) (accounted env others) (charged others)"
proof (unfold step_ok_def, intro allI impI)
  fix st assume st: "accounted env others st"
  define previous where "previous = (case map_of (ts_gemini_last st) choice of Some (k, _) \<Rightarrow> rf_record (length k) | None \<Rightarrow> no_footprint)"
  have wf: "btree_wf (ts_gemini_last st)" using st by (simp add: accounted_def ordered_def)
  have held: "held env k (st\<lparr>ts_gemini_last := btree_insert choice (key, f, position) (ts_gemini_last st)\<rparr>) + metered k previous =
      held env k st + metered k (rf_record (length key))" for k f
    using sum_btree_insert [OF wf, of "\<lambda>(_, key, _). metered k (rf_record (length key))" choice "(key, f, position)"]
    by (auto simp: held_sums previous_def split: option.splits)
  have le: "metered k previous \<le> metered k (ts_retained st)" for k
  proof -
    from sum_without_key [OF btree_wf_distinct [OF wf], of "\<lambda>(_, key, _). metered k (rf_record (length key))" choice]
    have "metered k previous \<le> held env k st" by (auto simp: held_sums previous_def split: option.splits)
    with st show ?thesis by (simp add: accounted_def)
  qed
  from accounted_charged [OF st] le show "account_result env others (remember_last choice key position st)"
  proof (cases rule: replace_cases [where replacement = "rf_record (length key)"])
    case (replaced s)
    note same = settled_fields [OF replaced(2)] settled_held [OF replaced(2)] settled_ordered [OF replaced(2)]
    let ?s = "s\<lparr>ts_gemini_last := btree_insert choice (key, ts_frame s, position) (ts_gemini_last s)\<rparr>"
    have "held env k ?s = held env k (st\<lparr>ts_gemini_last := btree_insert choice (key, ts_frame s, position) (ts_gemini_last st)\<rparr>)" for k
      by (simp add: held_sums same)
    then have "metered k (ts_retained ?s) = held env k ?s" for k
      using held [of k "ts_frame s"] replaced(4) [of k] le [of k] st by (simp add: accounted_def)
    moreover have "ordered ?s" using st by (simp add: accounted_def ordered_def same btree_wf_insert)
    ultimately have "accounted env others ?s"
      using replaced(3) by (simp add: accounted_def)
    with replaced(1) show ?thesis by (simp add: remember_last_def seq_step_def previous_def [symmetric] Let_def)
  qed (use accounted_charged [OF st] in \<open>simp add: remember_last_def seq_step_def previous_def [symmetric] Let_def\<close>)
qed

abbreviation mapping_meter :: "meter \<Rightarrow> rust_string \<times> rust_string \<Rightarrow> nat" where
  "mapping_meter k e \<equiv> metered k (mapping_footprint e)"

abbreviation mappings_meter :: "meter \<Rightarrow> nat \<times> (string \<times> rust_string \<times> rust_string) list \<Rightarrow> nat" where
  "mappings_meter k \<equiv> (\<lambda>(_, ms). metered k (rf_record 0) + (\<Sum>(_, e) \<leftarrow> ms. mapping_meter k e))"

lemma mappings_wf: "ordered st \<Longrightarrow> btree_wf (mappings_of st choice)"
  by (auto simp: ordered_def mappings_of_def split: option.splits dest!: map_of_SomeD)

lemma mapping_held:
  assumes "ordered st"
  shows "(case map_of (mappings_of st choice) cid of Some e \<Rightarrow> mapping_meter k e | None \<Rightarrow> 0) \<le> held env k st"
proof (cases "map_of (ts_gemini_by_id st) choice")
  case (Some ms)
  have wf: "btree_wf (ts_gemini_by_id st)" using assms by (simp add: ordered_def)
  have "btree_wf ms" using mappings_wf [OF assms, of choice] Some by (simp add: mappings_of_def)
  from sum_without_key [OF btree_wf_distinct [OF this], of "\<lambda>(_, e). mapping_meter k e" cid]
    sum_without_key [OF btree_wf_distinct [OF wf], of "mappings_meter k" choice] Some
  show ?thesis by (auto simp: held_sums mappings_of_def split: option.splits)
qed (simp add: mappings_of_def)

lemma held_put_mapping:
  assumes "ordered st"
  shows "held env k (put_mapping choice cid e st) + (case map_of (mappings_of st choice) cid of Some e' \<Rightarrow> mapping_meter k e' | None \<Rightarrow> 0) =
    held env k st + mapping_meter k e + (if map_of (ts_gemini_by_id st) choice \<noteq> None then 0 else metered k (rf_record 0))"
proof -
  have wf: "btree_wf (ts_gemini_by_id st)" using assms by (simp add: ordered_def)
  note inner = sum_btree_insert [OF mappings_wf [OF assms], of "\<lambda>(_, e). mapping_meter k e" cid e choice]
  show ?thesis
    using inner sum_btree_insert [OF wf, of "mappings_meter k" choice "btree_insert cid e (mappings_of st choice)"]
    by (cases "map_of (ts_gemini_by_id st) choice") (auto simp: held_sums put_mapping_def mappings_of_def split: option.splits)
qed

lemma ordered_put_mapping:
  assumes "ordered st"
  shows "ordered (put_mapping choice cid e st)"
proof -
  have "snd ` set (btree_insert c v m) \<subseteq> insert v (snd ` set m)" for c :: nat and v :: "(string \<times> rust_string \<times> rust_string) list" and m
    by (induction c v m rule: btree_insert.induct) auto
  with assms mappings_wf [OF assms, of choice] show ?thesis
    by (fastforce simp: ordered_def put_mapping_def btree_wf_insert)
qed

lemma undo_charged:
  assumes "charged others s" and "\<And>k. \<not> c \<Longrightarrow> metered k (rf_record 0) \<le> metered k (ts_retained s)"
  shows "charged others (undo_slot c s)"
  using assms release_charged [of others s "rf_record 0"] by (auto simp: undo_slot_def)

lemma give_up_charged:
  assumes "charged others s" and "\<And>k. metered k replacement \<le> metered k (ts_retained s)"
    and "\<And>k. \<not> c \<Longrightarrow> metered k (rf_record 0) + metered k replacement \<le> metered k (ts_retained s) + metered k previous"
  shows "account_result env others (give_up_mapping c replacement previous e s)"
  using assms(1,2)
proof (cases rule: replace_cases [where replacement = previous])
  case (replaced s')
  have "metered k (rf_record 0) \<le> metered k (ts_retained s')" if "\<not> c" for k
    using replaced(4) [of k] assms(2) [of k] assms(3) [OF that, of k] by simp
  from undo_charged [OF replaced(3) this] replaced(1) show ?thesis by (simp add: give_up_mapping_def seq_step_def)
qed (use assms(1) in \<open>simp add: give_up_mapping_def seq_step_def\<close>)

lemma keep_accounted:
  assumes "charged others s" and "\<And>k. metered k replacement \<le> metered k (ts_retained s)" and "ordered s"
    and share: "\<And>k. metered k (ts_retained s) + metered k (existing_footprint (map_of (mappings_of s choice) cid)) =
      held env k s + metered k replacement + (if has_choice s choice then 0 else metered k (rf_record 0))"
  shows "account_result env others (keep_mapping choice cid replacement entry s)"
  using assms(1,2)
proof (cases rule: replace_cases [where replacement = "mapping_footprint entry"])
  case (replaced s')
  note same = settled_fields [OF replaced(2)] settled_held [OF replaced(2)] settled_ordered [OF replaced(2)]
  have prev: "metered k (existing_footprint (map_of (mappings_of s' choice) cid)) =
      (case map_of (mappings_of s' choice) cid of Some e' \<Rightarrow> mapping_meter k e' | None \<Rightarrow> 0)" for k
    by (simp add: existing_footprint_def split: option.splits)
  have unchanged: "mappings_of s' choice = mappings_of s choice" "has_choice s' choice = has_choice s choice"
    by (simp_all add: mappings_of_def has_choice_def same)
  have "metered k (ts_retained s') = held env k (put_mapping choice cid entry s')" for k
    using held_put_mapping [of s' env k choice cid entry] assms(3) replaced(4) [of k] share [of k] assms(2) [of k] prev [of k]
    by (simp add: same unchanged has_choice_def [symmetric] del: not_None_eq split: if_splits)
  moreover have "ts_retained (put_mapping choice cid entry s') = ts_retained s'"
    "charged others (put_mapping choice cid entry s') = charged others s'"
    by (simp_all add: put_mapping_def)
  ultimately have "accounted env others (put_mapping choice cid entry s')"
    using replaced(3) assms(3) by (simp add: accounted_def ordered_put_mapping same)
  with replaced(1) show ?thesis by (simp add: keep_mapping_def seq_step_def)
qed (use assms(1) in \<open>simp add: keep_mapping_def seq_step_def\<close>)

lemma option_pair_cases: obtains "x = None" | a b where "x = Some (a, b)"
  by (cases x) auto

lemma mapping_accounted: "step_ok (accounted env others) (store_mapping env choice cid key) (accounted env others) (charged others)"
proof (unfold step_ok_def, intro allI impI)
  fix st assume st: "accounted env others st"
  let ?c = "has_choice st choice" and ?existing = "map_of (mappings_of st choice) cid"
  let ?previous = "existing_footprint ?existing" and ?replacement = "rf_record (saturating_add_usize (length cid) (length key))"
  have le: "metered k ?previous \<le> metered k (ts_retained st)" for k
    using mapping_held [of st k choice cid env] st by (auto simp: existing_footprint_def accounted_def split: option.splits)
  from accounted_charged [OF st] show "account_result env others (store_mapping env choice cid key st)"
  proof (cases rule: optional_reserve [where c = ?c and fp = "rf_record 0"])
    case (passed s)
    note 0 = this
    have le0: "metered k ?previous \<le> metered k (ts_retained s)" for k using le [of k] 0(4) by simp
    from 0(3) le0 show ?thesis
    proof (cases rule: replace_cases [where replacement = ?replacement])
      case (refused e)
      with 0 undo_charged [OF 0(3), of ?c] show ?thesis by (simp add: store_mapping_def Let_def seq_step_def)
    next
      case (replaced s1)
      note same = settled_fields [OF settled_trans [OF 0(2) replaced(2)]] settled_held [OF settled_trans [OF 0(2) replaced(2)]]
        settled_ordered [OF settled_trans [OF 0(2) replaced(2)]]
      have unchanged: "mappings_of s1 choice = mappings_of st choice" "has_choice s1 choice = ?c"
        by (simp_all add: mappings_of_def has_choice_def same)
      have le1: "metered k ?replacement \<le> metered k (ts_retained s1)" for k using replaced(4) [of k] by simp
      have "account_result env others (give_up_mapping ?c ?replacement ?previous e s1)" for e
        using replaced(4) 0(4) le by (intro give_up_charged [OF replaced(3) le1]) (simp add: algebra_simps)
      moreover have "account_result env others (keep_mapping choice cid ?replacement entry s1)" for entry
        using replaced(4) 0(4) le st by (intro keep_accounted [OF replaced(3) le1]) (simp_all add: same unchanged accounted_def trans_le_add1)
      ultimately have "account_result env others (own_mapping env choice cid key ?existing ?c ?replacement ?previous s1)"
        by (cases "fallible_string env key"; cases "fallible_string env cid"; cases ?existing rule: option_pair_cases)
          (simp_all add: own_mapping_def)
      with 0(1) replaced(1) show ?thesis by (simp add: store_mapping_def Let_def seq_step_def)
    qed
  qed (use accounted_charged [OF st] in \<open>simp add: store_mapping_def Let_def seq_step_def\<close>)
qed

text \<open>Entries that go are released at the size they were charged at.\<close>

lemma release_accounted:
  assumes "accounted env others s" and "ts_budget s' = ts_budget s" "ts_retained s' = ts_retained s" and "ordered s'"
    and "\<And>k. held env k s' + metered k fp = held env k s"
  shows "accounted env others (ts_release fp s')"
proof -
  have ch: "charged others s'" using accounted_charged [OF assms(1)] unfolding charged_def assms(2,3) .
  have "metered k fp \<le> metered k (ts_retained s')" for k
    using assms(1,3) assms(5) [of k] by (simp add: accounted_def)
  note released = release_charged [OF ch this]
  have "metered k (ts_retained s') - metered k fp = held env k s'" for k
    using assms(1,3) assms(5) [of k] by (simp add: accounted_def)
  with released assms(4) settled_ordered [OF settled_release] settled_held [OF settled_release]
  show ?thesis by (simp add: accounted_def)
qed

lemma drop_part_accounted:
  assumes "accounted env others s" and "map_of (ts_parts s) key = Some p"
  shows "accounted env others (ts_release (part_footprint env (ts_target s) key p) (s\<lparr>ts_parts := without_key key (ts_parts s)\<rparr>))"
proof (rule release_accounted [OF assms(1)])
  fix k
  have wf: "btree_wf (ts_parts s)" using assms(1) by (simp add: accounted_def ordered_def)
  from sum_without_key [OF btree_wf_distinct [OF wf], of "\<lambda>(key, p). part_meter env s k key p" key] assms(2)
  show "held env k (s\<lparr>ts_parts := without_key key (ts_parts s)\<rparr>) + part_meter env s k key p = held env k s"
    by (simp add: held_sums)
qed (use assms(1) in \<open>simp_all add: accounted_def ordered_def btree_wf_without_key\<close>)

lemma drop_listed_accounted:
  assumes "accounted env others s" and "distinct (map fst xs)" and "\<And>key p. (key, p) \<in> set xs \<Longrightarrow> map_of (ts_parts s) key = Some p"
  shows "accounted env others
    (fold (\<lambda>(key, p) st. ts_release (part_footprint env (ts_target st) key p) (st\<lparr>ts_parts := without_key key (ts_parts st)\<rparr>)) xs s)"
  using assms
proof (induction xs arbitrary: s)
  case (Cons x xs)
  obtain key p where x: "x = (key, p)" by fastforce
  let ?s = "ts_release (part_footprint env (ts_target s) key p) (s\<lparr>ts_parts := without_key key (ts_parts s)\<rparr>)"
  have "accounted env others ?s" using Cons.prems x by (intro drop_part_accounted) auto
  moreover have "map_of (ts_parts ?s) key' = Some p'" if "(key', p') \<in> set xs" for key' p'
    using Cons.prems x that by (force simp: ts_release_def map_of_without_key)
  ultimately show ?case using Cons.IH [of ?s] Cons.prems(2) x by simp
qed simp

lemma drop_parts_accounted: "accounted env others s \<Longrightarrow> accounted env others (drop_parts env choice s)"
proof -
  assume s: "accounted env others s"
  then have wf: "distinct (map fst (ts_parts s))" by (simp add: accounted_def ordered_def btree_wf_distinct)
  then have "distinct (map fst (own_parts choice s))" by (simp add: own_parts_def distinct_map_filter)
  with s wf show ?thesis unfolding drop_parts_def by (intro drop_listed_accounted) (auto simp: own_parts_def)
qed

lemma drop_last_accounted: "accounted env others s \<Longrightarrow> accounted env others (drop_last choice s)"
proof (cases "map_of (ts_gemini_last s) choice")
  case (Some x)
  assume s: "accounted env others s"
  obtain key r where x: "x = (key, r)" by (cases x)
  have wf: "btree_wf (ts_gemini_last s)" using s by (simp add: accounted_def ordered_def)
  have "accounted env others (ts_release (rf_record (length key)) (s\<lparr>ts_gemini_last := without_key choice (ts_gemini_last s)\<rparr>))"
  proof (rule release_accounted [OF s])
    fix k
    from sum_without_key [OF btree_wf_distinct [OF wf], of "\<lambda>(_, key, _). metered k (rf_record (length key))" choice] Some x
    show "held env k (s\<lparr>ts_gemini_last := without_key choice (ts_gemini_last s)\<rparr>) + metered k (rf_record (length key)) = held env k s"
      by (cases r) (simp add: held_sums)
  qed (use s in \<open>simp_all add: accounted_def ordered_def btree_wf_without_key\<close>)
  with Some x show ?thesis by (simp add: drop_last_def)
qed (simp add: drop_last_def)

lemma drop_next_accounted: "accounted env others s \<Longrightarrow> accounted env others (drop_next choice s)"
proof (cases "map_of (ts_gemini_next s) choice")
  case (Some n)
  assume s: "accounted env others s"
  have wf: "btree_wf (ts_gemini_next s)" using s by (simp add: accounted_def ordered_def)
  have "accounted env others (ts_release (rf_record 0) (s\<lparr>ts_gemini_next := without_key choice (ts_gemini_next s)\<rparr>))"
  proof (rule release_accounted [OF s])
    fix k
    from sum_without_key [OF btree_wf_distinct [OF wf], of "\<lambda>_. metered k (rf_record 0)" choice] Some
    show "held env k (s\<lparr>ts_gemini_next := without_key choice (ts_gemini_next s)\<rparr>) + metered k (rf_record 0) = held env k s"
      by (simp add: held_sums)
  qed (use s in \<open>simp_all add: accounted_def ordered_def btree_wf_without_key\<close>)
  with Some show ?thesis by (simp add: drop_next_def)
qed (simp add: drop_next_def)

lemma fold_release:
  assumes "charged others s" and "\<forall>k. (\<Sum>(_, e) \<leftarrow> xs. mapping_meter k e) \<le> metered k (ts_retained s)"
  shows "let s' = fold (\<lambda>(_, e). ts_release (mapping_footprint e)) xs s
    in charged others s' \<and> settled s s' \<and>
       (\<forall>k. metered k (ts_retained s') = metered k (ts_retained s) - (\<Sum>(_, e) \<leftarrow> xs. mapping_meter k e))"
  using assms
proof (induction xs arbitrary: s)
  case (Cons x xs)
  obtain key e where x: "x = (key, e)" by (cases x)
  let ?s = "ts_release (mapping_footprint e) s"
  have le: "mapping_meter k e + (\<Sum>(_, e) \<leftarrow> xs. mapping_meter k e) \<le> metered k (ts_retained s)" for k
    using Cons.prems(2) x by (auto dest: spec [of _ k])
  then have "charged others ?s" using release_charged [OF Cons.prems(1), of "mapping_footprint e"] by (meson add_leD1)
  moreover have "(\<Sum>(_, e) \<leftarrow> xs. mapping_meter k e) \<le> metered k (ts_retained ?s)" for k using le [of k] by simp
  ultimately show ?case
    using Cons.IH [of ?s] x settled_trans [OF settled_release [of s "mapping_footprint e"]] by (simp add: Let_def)
qed simp

lemma drop_mappings_accounted: "accounted env others s \<Longrightarrow> accounted env others (drop_mappings choice s)"
proof (cases "map_of (ts_gemini_by_id s) choice")
  case (Some ms)
  assume s: "accounted env others s"
  let ?s = "s\<lparr>ts_gemini_by_id := without_key choice (ts_gemini_by_id s)\<rparr>"
  let ?f = "fold (\<lambda>(_, e). ts_release (mapping_footprint e)) ms ?s"
  have wf: "btree_wf (ts_gemini_by_id s)" using s by (simp add: accounted_def ordered_def)
  have held: "held env k ?s + (metered k (rf_record 0) + (\<Sum>(_, e) \<leftarrow> ms. mapping_meter k e)) = held env k s" for k
    using sum_without_key [OF btree_wf_distinct [OF wf], of "mappings_meter k" choice] Some by (simp add: held_sums)
  have ch: "charged others ?s" using accounted_charged [OF s] by simp
  have total: "metered k (ts_retained ?s) = held env k s" for k using s by (simp add: accounted_def)
  have le: "(\<Sum>(_, e) \<leftarrow> ms. mapping_meter k e) \<le> metered k (ts_retained ?s)" for k using held [of k] total [of k] by simp
  have f: "charged others ?f" "settled ?s ?f"
      "\<And>k. metered k (ts_retained ?f) = metered k (ts_retained ?s) - (\<Sum>(_, e) \<leftarrow> ms. mapping_meter k e)"
    using fold_release [OF ch allI [OF le]] unfolding Let_def by blast+
  have "metered k (rf_record 0) \<le> metered k (ts_retained ?f)" for k using f(3) [of k] held [of k] total [of k] by simp
  then have "charged others (ts_release (rf_record 0) ?f)" by (rule release_charged [OF f(1)])
  moreover have "ordered ?s" using s by (simp add: accounted_def ordered_def btree_wf_without_key set_without_key)
  moreover have "settled ?s (ts_release (rf_record 0) ?f)" by (rule settled_trans [OF f(2) settled_release])
  moreover have "metered k (ts_retained (ts_release (rf_record 0) ?f)) = held env k ?s" for k
    using f(3) [of k] held [of k] total [of k] by simp
  ultimately have "accounted env others (ts_release (rf_record 0) ?f)"
    using settled_held settled_ordered by (simp add: accounted_def)
  with Some show ?thesis by (simp add: drop_mappings_def)
qed (simp add: drop_mappings_def)

lemma complete_accounted: "step_ok (accounted env others) (complete_choice env choice b) (accounted env others) (charged others)"
proof (unfold step_ok_def, intro allI impI)
  fix st assume st: "accounted env others st"
  note ch = accounted_charged [OF st]
  show "account_result env others (complete_choice env choice b st)"
  proof (cases "choice \<in> set (ts_emitted st)")
    case False
    show ?thesis
    proof (cases "complete_calls env st (ordered_parts choice st) {} empty_map b")
      case (Inr x)
      have "\<And>k. metered k no_footprint \<le> metered k (ts_retained st)" by simp
      with ch show ?thesis
      proof (cases rule: replace_cases [where replacement = "rf_record 0"])
        case (replaced s)
        note same = settled_fields [OF replaced(2)] settled_held [OF replaced(2)] settled_ordered [OF replaced(2)]
        let ?s = "s\<lparr>ts_emitted := insort_insert choice (ts_emitted s)\<rparr>"
        have "held env k ?s = held env k s + metered k (rf_record 0)" for k
          using False same by (simp add: held_sums insort_insert_key_def map_replicate_const sum_list_replicate)
        moreover have "ordered ?s"
          using st False same by (simp add: accounted_def ordered_def insort_insert_key_def distinct_insort)
        ultimately have "accounted env others ?s"
          using replaced(3,4) st by (simp add: accounted_def same)
        then have "accounted env others (drop_next choice (drop_mappings choice (drop_last choice (drop_parts env choice (report_completed choice ?s)))))"
          by (intro drop_next_accounted drop_mappings_accounted drop_last_accounted drop_parts_accounted) (simp add: report_completed_def)
        with replaced(1) Inr False show ?thesis
          by (cases x) (simp add: complete_choice_def seq_step_def reserve_is_replace [OF ch])
      qed (use Inr False ch in \<open>cases x; simp add: complete_choice_def seq_step_def reserve_is_replace [OF ch]\<close>)
    qed (use False ch in \<open>simp add: complete_choice_def\<close>)
  qed (use st in \<open>simp add: complete_choice_def\<close>)
qed

interpretation account: stream_step_laws env "accounted env others" "charged others"
  by unfold_locales (auto intro: accounted_charged clear_accounted update_accounted complete_accounted mapping_accounted last_accounted next_accounted)

section \<open>A whole stream\<close>

lemma new_accounted:
  assumes "\<And>k. metered k (rb_retained b) \<le> room k b" and "\<And>k. room k b \<le> usize_max"
  shows "accounted env b (new_tool_stream env target b)"
  using assms by (simp add: accounted_def charged_def ordered_def held_sums new_tool_stream_def)

lemma cleared_budget: "charged others st \<Longrightarrow> rb_retained (ts_budget (clear_stream st)) = rb_retained others"
proof -
  assume "charged others st"
  then have "rf_bytes (rb_retained (ts_budget st)) = rf_bytes (rb_retained others) + rf_bytes (ts_retained st)"
    "rf_entries (rb_retained (ts_budget st)) = rf_entries (rb_retained others) + rf_entries (ts_retained st)"
    by (simp_all add: charged_def all_meters)
  then show ?thesis
    by (simp add: clear_stream_def abandon_open_def budget_release_def rf_saturating_sub_def)
qed

lemma stream_accounted:
  assumes "\<And>k. metered k (rb_retained b) \<le> room k b" and "\<And>k. room k b \<le> usize_max"
    and "pushes env events (new_tool_stream env target b) = Some st"
  shows "accounted env b st"
proof -
  have "event_laws env (accounted env b) (charged b)" by unfold_locales
  from pushes_keep [OF this new_accounted [OF assms(1,2)] assms(3)] show ?thesis .
qed

lemma failed_event_refunded:
  assumes "\<And>k. metered k (rb_retained b) \<le> room k b" and "\<And>k. room k b \<le> usize_max"
    and "pushes env events (new_tool_stream env target b) = Some st" and "push_event env event chunk st = Some (Inl e, st')"
  shows "rb_retained (ts_budget st') = rb_retained b"
proof -
  from assms(4) obtain s where s: "push_inner env event chunk st = Some (Inl e, s)" "st' = clear_stream s"
    by (auto simp: push_event_def split: option.splits sum.splits prod.splits)
  with account.pushed_inner [of env b event chunk] stream_accounted [OF assms(1-3)] have "charged b s" by (fastforce simp: run_ok_def)
  with s(2) show ?thesis by (simp add: cleared_budget)
qed

text \<open>C29. However a stream of native events goes, including failures in the middle of an event, the budget carries exactly the
  footprints of what the stream holds on top of what was there before, stays within its limits, and the end of the
  stream gives everything back.\<close>

theorem tool_stream_account:
  assumes "\<And>k. metered k (rb_retained b) \<le> room k b" and "\<And>k. room k b \<le> usize_max"
    and "pushes env events (new_tool_stream env target b) = Some st"
  shows "(\<forall>k. metered k (rb_retained (ts_budget st)) = metered k (rb_retained b) + held env k st \<and>
              metered k (rb_retained b) + held env k st \<le> room k b) \<and>
    rb_retained (ts_budget (snd (finish_stream st))) = rb_retained b"
proof -
  have st: "accounted env b st" by (rule stream_accounted [OF assms])
  have "metered k (rb_retained (ts_budget st)) = metered k (rb_retained b) + held env k st \<and>
      metered k (rb_retained (ts_budget st)) \<le> room k b" for k
    using st unfolding accounted_def charged_def by metis
  moreover from cleared_budget [OF accounted_charged [OF st]] have "rb_retained (ts_budget (snd (finish_stream st))) = rb_retained b"
    by (simp add: finish_stream_def)
  ultimately show ?thesis by metis
qed

section \<open>A concrete stream\<close>

definition demo_stream_env :: stream_env where
  "demo_stream_env = \<lparr>se_tools = demo_tool_env, se_alloc = Some, se_cap = length, se_sha = (\<lambda>_. []), se_from_str = (\<lambda>_. Inl []),
     se_scap = length, se_vcap = length, se_size_part = 256\<rparr>"

definition demo_fragment :: json where
  "demo_fragment = JObject [(''delta'', JString ''{}''), (''type'', JString ''response.function_call_arguments.delta'')]"

definition demo_responses :: replay_target where
  "demo_responses = \<lparr>rt_provider = ''o'', rt_model = ''m'', rt_wire = OpenAiResponses, rt_account = None\<rparr>"

text \<open>With a sink for progress or without one; nothing is reported of a call that has no name yet.\<close>

definition quiet :: "reporter option \<Rightarrow> bool" where
  "quiet r \<longleftrightarrow> r = None \<or> r = Some \<lparr>rp_started = {}, rp_steps = []\<rparr>"

definition demo_new :: "reporter option \<Rightarrow> tool_stream" where
  "demo_new r = (new_tool_stream demo_stream_env demo_responses (new_budget 1000 10))\<lparr>ts_progress := r\<rparr>"

definition demo_start :: "reporter option \<Rightarrow> tool_stream" where
  "demo_start r = (demo_new r)\<lparr>ts_frame := wrapping_succ_u64 0\<rparr>"

definition demo_part :: "rust_string \<Rightarrow> part" where
  "demo_part arguments = \<lparr>pt_id = exact ''call_ls_1'', pt_choice = 0, pt_index = 0, pt_name = empty_string, pt_wire_id = None, pt_item_id = None,
     pt_arguments = arguments, pt_initial = False, pt_signature = None, pt_signature_field = None, pt_ended = False\<rparr>"

definition demo_holding :: "reporter option \<Rightarrow> nat \<Rightarrow> rust_string \<Rightarrow> tool_stream" where
  "demo_holding r n arguments = (demo_start r)\<lparr>ts_parts := [(''responses:0'', demo_part arguments)], ts_minted := 2,
     ts_budget := \<lparr>rb_retained = \<lparr>rf_bytes = n, rf_entries = 1\<rparr>, rb_max_bytes = 1000, rb_max_entries = 10\<rparr>,
     ts_retained := \<lparr>rf_bytes = n, rf_entries = 1\<rparr>\<rparr>"

lemma demo_footprint:
  "n \<le> 10 \<Longrightarrow> part_footprint_with_capacity demo_stream_env target ''responses:0'' (demo_part s) FieldArguments n = \<lparr>rf_bytes = 340 + n, rf_entries = 1\<rparr>"
  by (simp add: part_footprint_with_capacity_def demo_part_def demo_stream_env_def exact_def empty_string_def cap_of_def rf_record_def
    saturating_add_usize_def usize_max_def MAP_ENTRY_OVERHEAD_def)

lemma demo_part_footprint:
  "rs_cap s \<le> 10 \<Longrightarrow> part_footprint demo_stream_env target ''responses:0'' (demo_part s) = \<lparr>rf_bytes = 340 + rs_cap s, rf_entries = 1\<rparr>"
  using demo_footprint [of "rs_cap s" target s] footprint_of_field [of demo_stream_env target "''responses:0''" "demo_part s" FieldArguments s]
  by (simp add: set_part_string_def demo_part_def)

lemma demo_update:
  assumes "quiet r"
  shows "stream_update demo_stream_env ''responses:0'' 0 0 (UArgumentsFragment ''{}'') (demo_start r) = (Inr (), demo_holding r 342 (exact ''{}''))"
proof -
  have minted: "mint (se_tools demo_stream_env) (Suc 0) = ''call_ls_1''"
    by (simp add: mint_def demo_stream_env_def demo_tool_env_def CALL_PREFIX_def decimal_def decimal_rev.simps char_of_def bit_0)
  have cap: "se_cap demo_stream_env = length" "se_alloc demo_stream_env = Some" by (simp_all add: demo_stream_env_def)
  have new: "ensure_part demo_stream_env \<lparr>td_part = ''responses:0'', td_choice = 0, td_index = 0, td_update = u\<rparr> (demo_start r) =
      (Inr (), demo_holding r 340 empty_string)" for u
    using demo_part_footprint [of empty_string demo_responses]
    by (simp add: ensure_part_def demo_start_def demo_new_def new_tool_stream_def minted cap Let_def seq_step_def ts_reserve_def budget_reserve_def budget_replace_def
        new_budget_def swap_usize_def no_footprint_def checked_add_usize_def usize_max_def rf_checked_add_def put_part_def demo_holding_def
        demo_part_def exact_def empty_string_def)
  have start: "ts_emitted (demo_start r) = []" "ts_parts (demo_start r) = []" "ts_progress (demo_start r) = r"
    by (simp_all add: demo_start_def demo_new_def new_tool_stream_def)
  have holding: "map_of (ts_parts (demo_holding r n a)) ''responses:0'' = Some (demo_part a)" "ts_progress (demo_holding r n a) = r" for n a
    by (simp_all add: demo_holding_def start)
  have swap: "ts_replace \<lparr>rf_bytes = m, rf_entries = 1\<rparr> \<lparr>rf_bytes = 342, rf_entries = 1\<rparr> (demo_holding r m a) = (Inr (), demo_holding r 342 a)"
    if "m \<le> 342" for m a
    using that by (simp add: ts_replace_def demo_holding_def budget_replace_def swap_usize_def checked_add_usize_def rf_swap_def
        saturating_add_usize_def usize_max_def)
  have put: "put_part ''responses:0'' (demo_part a) (demo_holding r m a') = demo_holding r m a" for m a a'
    by (simp add: put_part_def demo_holding_def)
  have part: "part_string (demo_part a) FieldArguments = a" "set_part_string FieldArguments a' (demo_part a) = demo_part a'" for a a'
    by (simp_all add: part_string_def set_part_string_def demo_part_def)
  have room: "reserve_exact demo_stream_env empty_string 2 = Some \<lparr>rs_text = [], rs_cap = 2\<rparr>" "push_str ''{}'' \<lparr>rs_text = [], rs_cap = 2\<rparr> = exact ''{}''"
    by (simp_all add: reserve_exact_def empty_string_def exact_def cap push_str_def)
  have "Suc (Suc 0) \<le> usize_max" by (simp add: usize_max_def)
  then have "append_fragment demo_stream_env ''responses:0'' FieldArguments ''{}'' False (demo_holding r 340 empty_string) =
      (Inr (), demo_holding r 342 (exact ''{}''))"
    using swap [of 340 empty_string] swap [of 342 "\<lparr>rs_text = [], rs_cap = 2\<rparr>"] demo_footprint [of 2] demo_part_footprint [of empty_string]
      demo_part_footprint [of "\<lparr>rs_text = [], rs_cap = 2\<rparr>"] room
    by (simp add: append_fragment_def Let_def holding part put seq_step_def checked_add_usize_def
        empty_string_def [unfolded exact_def] numeral_2_eq_2 del: One_nat_def)
  moreover have "map_option (report_updated (view_of key (demo_part a)) named n kept) r = r" for key a named n kept
    using assms by (auto simp: quiet_def report_updated_def view_of_def demo_part_def empty_string_def exact_def)
  moreover have "(demo_holding r n a)\<lparr>ts_progress := r\<rparr> = demo_holding r n a" for n a
    by (simp add: demo_holding_def demo_start_def demo_new_def)
  moreover have "pt_initial (demo_part a) = False" "pt_ended (demo_part a) = False" for a by (simp_all add: demo_part_def)
  ultimately show ?thesis
    by (simp add: stream_update_def apply_delta_def apply_inner_def apply_update_def new seq_step_def start holding Let_def arguments_kept_def)
qed

lemma demo_pushed:
  assumes "quiet r"
  shows "pushes demo_stream_env [(demo_fragment, None)] (demo_new r) = Some (demo_holding r 342 (exact ''{}''))"
proof -
  have zero: "decimal 0 = ''0''" by (simp add: decimal_def decimal_rev.simps char_of_def bit_0)
  have start: "(demo_new r)\<lparr>ts_frame := wrapping_succ_u64 (ts_frame (demo_new r))\<rparr> = demo_start r" "rt_wire (ts_target (demo_start r)) = OpenAiResponses"
    by (simp_all add: demo_start_def demo_new_def new_tool_stream_def demo_responses_def)
  then have "parse_event demo_stream_env demo_fragment (demo_new r) = Some (Inr (), demo_holding r 342 (exact ''{}''))"
    using demo_update [OF assms]
    by (simp add: parse_event_def Let_def run_step_def parse_responses_def demo_fragment_def u64_at_def str_at_def
      index_def get_def has_str_def str_in_def zero)
  moreover have "ts_target (demo_holding r n a) = demo_responses" for n a by (simp add: demo_holding_def demo_start_def demo_new_def new_tool_stream_def)
  ultimately show ?thesis
    by (simp add: push_event_def push_inner_def seq_run_def chunk_value_def read_chunk_def run_outcome_def lift_def default_chunk_def
      strip_calls_def edit_key_def reserve_existing_metadata_def items_at_def elements_def index_def get_def present_def metadata_of_def
      candidate_choices_def demo_responses_def ok_def terminal_choices_def enumerated_def is_string_def run_step_def pure_step_def
      useful_def remove_key_def List.map_filter_def)
qed

lemma demo_new_None: "demo_new None = new_tool_stream demo_stream_env demo_responses (new_budget 1000 10)"
  by (simp add: demo_new_def new_tool_stream_def)

lemma demo_budget: "metered k (rb_retained (new_budget 1000 10)) \<le> room k (new_budget 1000 10)" "room k (new_budget 1000 10) \<le> usize_max"
  by (cases k; simp add: new_budget_def usize_max_def)+

theorem tool_stream_account_witness:
  "rb_retained (ts_budget (snd (finish_stream (demo_holding None 342 (exact ''{}''))))) = no_footprint \<and>
   held demo_stream_env Bytes (demo_holding None 342 (exact ''{}'')) = 342"
proof -
  have "quiet None" by (simp add: quiet_def)
  from tool_stream_account [OF demo_budget demo_pushed [OF this, unfolded demo_new_None]] show ?thesis
    by (simp add: new_budget_def all_meters no_footprint_def) (simp add: demo_holding_def)
qed

end
