(* ===== verification/StreamProgress.thy ===== *)
theory StreamProgress
  imports StreamAccounts
begin

text \<open>
  The progress a tool stream reports (\<open>toolcall/progress.rs\<close>) follows its documented protocol: a call is started once
  with its name, then its arguments grow or are replaced, then it is ended or abandoned; the text reported is the text
  the stream holds, and no call is left open when the stream fails, ends or is dropped.
\<close>

section \<open>The protocol\<close>

text \<open>What a reader knows after a step: the calls that are open, with the argument text last shown for each.\<close>

fun advance :: "progress_step \<Rightarrow> (string \<rightharpoonup> string) \<Rightarrow> (string \<rightharpoonup> string) option" where
  "advance s shown =
     (case ps_event s of
        Started name \<Rightarrow> if shown (ps_key s) = None \<and> name \<noteq> [] then Some (shown(ps_key s \<mapsto> [])) else None
      | ArgumentsStep t appended \<Rightarrow>
          (case shown (ps_key s) of
             None \<Rightarrow> None
           | Some before \<Rightarrow>
               if (case appended of Some x \<Rightarrow> t = before @ x | None \<Rightarrow> True) then Some (shown(ps_key s \<mapsto> t)) else None)
      | _ \<Rightarrow> if shown (ps_key s) = None then None else Some (shown(ps_key s := None)))"

declare advance.simps [simp del]

fun replay :: "progress_step list \<Rightarrow> (string \<rightharpoonup> string) \<Rightarrow> (string \<rightharpoonup> string) option" where
  "replay [] shown = Some shown"
| "replay (s # steps) shown = Option.bind (advance s shown) (replay steps)"

lemma replay_append: "replay (xs @ ys) shown = Option.bind (replay xs shown) (replay ys)"
  by (induction xs arbitrary: shown) (auto split: Option.bind_splits)

definition tracks :: "reporter \<Rightarrow> (string \<rightharpoonup> string) \<Rightarrow> bool" where
  "tracks r shown \<longleftrightarrow> replay (rp_steps r) Map.empty = Some shown \<and> dom shown = rp_started r"

lemma tracks_key: "tracks r shown \<Longrightarrow> key \<in> rp_started r \<longleftrightarrow> shown key \<noteq> None"
  by (auto simp: tracks_def dom_def)

lemma tracks_start:
  assumes "tracks r shown" and "cv_key v \<notin> rp_started r" and "cv_name v \<noteq> []"
  shows "tracks (report_start v r) (shown(cv_key v \<mapsto> cv_arguments v))"
  using assms tracks_key [OF assms(1), of "cv_key v"]
  by (auto simp: tracks_def report_start_def emit_step_def Let_def replay_append advance.simps)

lemma tracks_updated:
  assumes "tracks r shown"
    and "\<And>before. shown (cv_key v) = Some before \<Longrightarrow> kept \<Longrightarrow> starts_with (cv_arguments v) before \<and> n = length before"
  shows "tracks (report_updated v named n kept r) (shown(cv_key v \<mapsto> cv_arguments v)) \<or>
    (cv_key v \<notin> rp_started r \<and> tracks (report_updated v named n kept r) shown)"
proof (cases "shown (cv_key v)")
  case None
  with assms(1) tracks_key [OF assms(1), of "cv_key v"] tracks_start [OF assms(1)] show ?thesis
    by (auto simp: report_updated_def)
next
  case (Some before)
  with tracks_key [OF assms(1), of "cv_key v"] have started: "cv_key v \<in> rp_started r" by simp
  show ?thesis
  proof (cases "kept \<and> length (cv_arguments v) = n")
    case True
    with assms(2) [OF Some] have "cv_arguments v = before" by (auto simp: starts_with_def prefix_def)
    with Some True started assms(1) show ?thesis by (simp add: report_updated_def fun_upd_idem)
  next
    case False
    moreover have "cv_arguments v = before @ drop n (cv_arguments v)" if kept
      using assms(2) [OF Some that] by (auto simp: starts_with_def prefix_def)
    ultimately show ?thesis using started Some assms(1)
      by (auto simp: report_updated_def tracks_def emit_step_def replay_append advance.simps)
  qed
qed

lemma tracks_close:
  assumes "tracks r shown" and "cv_key v \<in> rp_started r" and "e = Ended \<or> e = Abandoned"
  shows "tracks (emit_step v e (r\<lparr>rp_started := rp_started r - {cv_key v}\<rparr>)) (shown(cv_key v := None))"
  using assms tracks_key [OF assms(1), of "cv_key v"]
  by (auto simp: tracks_def emit_step_def replay_append advance.simps)

lemma tracks_ended:
  assumes "tracks r shown" and "cv_name v \<noteq> []"
  shows "tracks (report_ended v r) (shown(cv_key v := None))"
proof (cases "cv_key v \<in> rp_started r")
  case True
  with tracks_close [OF assms(1), of v Ended] show ?thesis by (simp add: report_ended_def Let_def)
next
  case False
  note started = tracks_start [OF assms(1) False assms(2)]
  have "cv_key v \<in> rp_started (report_start v r)" by (simp add: report_start_def emit_step_def Let_def)
  from tracks_close [OF started this, of Ended] False show ?thesis by (simp add: report_ended_def Let_def)
qed

lemma tracks_abandoned: "tracks r shown \<Longrightarrow> tracks (report_abandoned v r) (shown(cv_key v := None))"
  using tracks_close [of r shown v Abandoned] tracks_key [of r shown "cv_key v"]
  by (auto simp: report_abandoned_def fun_upd_idem)

lemma tracks_abandon_all:
  "tracks r shown \<Longrightarrow> tracks (fold (\<lambda>(key, p). report_abandoned (view_of key p)) ps r) (shown |` (- fst ` set ps))"
proof (induction ps arbitrary: r shown)
  case (Cons x ps)
  obtain key p where x: "x = (key, p)" by (cases x)
  have "cv_key (view_of key p) = key" by (simp add: view_of_def)
  with tracks_abandoned [OF Cons.prems, of "view_of key p"] have "tracks (report_abandoned (view_of key p) r) (shown(key := None))" by simp
  moreover have "(shown(key := None)) |` (- fst ` set ps) = shown |` (- fst ` set (x # ps))" by (auto simp: x restrict_map_def)
  ultimately show ?case using Cons.IH x by fastforce
qed (simp add: restrict_map_def)

lemma tracks_end_all:
  "tracks r shown \<Longrightarrow> (\<And>key p. (key, p) \<in> set ps \<Longrightarrow> rs_text (pt_name p) \<noteq> []) \<Longrightarrow>
    tracks (fold (\<lambda>(key, p). report_ended (view_of key p)) ps r) (shown |` (- fst ` set ps))"
proof (induction ps arbitrary: r shown)
  case (Cons x ps)
  obtain key p where x: "x = (key, p)" by (cases x)
  have "cv_key (view_of key p) = key" "cv_name (view_of key p) \<noteq> []" using Cons.prems(2) x by (auto simp: view_of_def)
  with tracks_ended [OF Cons.prems(1), of "view_of key p"] have "tracks (report_ended (view_of key p) r) (shown(key := None))" by simp
  moreover have "(shown(key := None)) |` (- fst ` set ps) = shown |` (- fst ` set (x # ps))" by (auto simp: x restrict_map_def)
  ultimately show ?case using Cons.IH Cons.prems(2) x by fastforce
qed (simp add: restrict_map_def)

section \<open>What the steps do to the parts\<close>

lemma settledI: "settled st (st\<lparr>ts_budget := b, ts_retained := fp\<rparr>)" "settled st (st\<lparr>ts_budget := b\<rparr>)"
proof -
  have both: "settled st (st\<lparr>ts_budget := b, ts_retained := fp\<rparr>)" for b fp unfolding settled_def by blast
  then show "settled st (st\<lparr>ts_budget := b, ts_retained := fp\<rparr>)" .
  from both [where b = b and fp = "ts_retained st"] show "settled st (st\<lparr>ts_budget := b\<rparr>)" by simp
qed

lemma replace_settled: "ts_replace a b st = (r, st') \<Longrightarrow> settled st st'"
  by (auto simp: ts_replace_def split: prod.splits sum.splits intro: settledI)

lemma reserve_settled: "ts_reserve a st = (r, st') \<Longrightarrow> settled st st'"
  by (auto simp: ts_reserve_def split: prod.splits sum.splits option.splits intro: settledI)

text \<open>A step that touches one part at most: the rest of the stream a reader can see stays.\<close>

definition touches :: "string \<Rightarrow> tool_stream \<Rightarrow> tool_stream \<Rightarrow> bool" where
  "touches key st st' \<longleftrightarrow> ts_progress st' = ts_progress st \<and> ts_emitted st' = ts_emitted st \<and> ts_target st' = ts_target st \<and>
     (\<exists>p. map_of (ts_parts st') = map_of (ts_parts st) \<or> map_of (ts_parts st') = (map_of (ts_parts st))(key \<mapsto> p))"

lemma touches_refl [simp]: "touches key st st"
  by (simp add: touches_def)

lemma touches_settled: "settled st st' \<Longrightarrow> touches key st st'"
  by (auto simp: touches_def settled_def)

lemma touches_put [simp]: "touches key st (put_part key p st)"
  by (auto simp: touches_def put_part_def)

lemma touches_trans: "touches key st st' \<Longrightarrow> touches key st' st'' \<Longrightarrow> touches key st st''"
  by (auto simp: touches_def)

lemma touches_seq:
  assumes "touches key st (snd (m st))" and "\<And>x s. touches key s (snd (f x s))"
  shows "touches key st (snd (seq_step m f st))"
  using assms touches_trans by (auto simp: seq_step_def split: prod.splits sum.splits)

lemma touches_accounts [simp]:
  "touches key st (snd (ts_replace a b st))" "touches key st (snd (ts_reserve a st))"
  using replace_settled [of a b st] reserve_settled [of a st] by (metis prod.collapse touches_settled)+

lemma touches_failing [simp]: "touches key st (snd (failing e st))"
  by (simp add: failing_def)

lemma seq_step_Inr: "seq_step m f st = (Inr y, s') \<longleftrightarrow> (\<exists>x s. m st = (Inr x, s) \<and> f x s = (Inr y, s'))"
  by (auto simp: seq_step_def split: prod.splits sum.splits)

lemma append_touches: "touches key st (snd (append_fragment env key field t replace_initial st))"
proof -
  have put: "touches key s (snd (seq_step (ts_replace a b) f (put_part key p s)))" if "\<And>x s. touches key s (snd (f x s))"
    for a b p s and f :: "unit \<Rightarrow> unit stream_step"
    using touches_trans [OF touches_put touches_seq [of key _ "ts_replace a b" f]] that by simp
  show ?thesis
    by (auto simp: append_fragment_def Let_def split: option.splits if_splits intro!: touches_seq put)
qed

lemma append_effect:
  assumes "append_fragment env key field t replace_initial st = (Inr (), st')" and "map_of (ts_parts st) key = Some p"
    and "replace_initial \<longrightarrow> field = FieldArguments"
  shows "\<exists>s'. map_of (ts_parts st') = (map_of (ts_parts st))(key \<mapsto>
      (if replace_initial then p\<lparr>pt_arguments := s', pt_initial := False\<rparr> else set_part_string field s' p)) \<and>
    rs_text s' = (if replace_initial then [] else rs_text (part_string p field)) @ t"
proof -
  have same: "reserve_exact env s n = Some s' \<Longrightarrow> rs_text s' = rs_text s" for s n s'
    by (auto simp: reserve_exact_def split: if_splits)
  have parts: "ts_replace a b s = (Inr x, s') \<Longrightarrow> ts_parts s' = ts_parts s" for a b s x s'
    using replace_settled settled_fields(2) by blast
  show ?thesis
  proof (cases replace_initial)
    case True
    with assms(1,2) obtain s' a b a' b' s1 s2 where "reserve_exact env empty_string (length t) = Some s'"
        "ts_replace a b st = (Inr (), s1)" "ts_replace a' b' s1 = (Inr (), s2)" "st' = put_part key (p\<lparr>pt_arguments := push_str t s', pt_initial := False\<rparr>) s2"
      by (auto simp: append_fragment_def Let_def seq_step_Inr failing_def split: option.splits)
    with True show ?thesis
      by (intro exI [of _ "push_str t s'"]) (auto simp: push_str_def put_part_def same [of empty_string] empty_string_def exact_def dest!: parts)
  next
    case False
    with assms(1,2) obtain s' a b a' b' s1 s2 where "reserve_exact env (part_string p field) (length t) = Some s'"
        "ts_replace a b st = (Inr (), s1)" "ts_replace a' b' (put_part key (set_part_string field s' p) s1) = (Inr (), s2)"
        "st' = put_part key (set_part_string field (push_str t s') p) s2"
      by (auto simp: append_fragment_def Let_def seq_step_Inr failing_def split: option.splits)
    with False show ?thesis
      by (intro exI [of _ "push_str t s'"]) (auto simp: push_str_def put_part_def same dest!: parts)
  qed
qed

lemma ensure_touches: "touches (td_part d) st (snd (ensure_part env d st))"
proof -
  have "touches (td_part d) st (snd (seq_step (ts_reserve fp) (\<lambda>_ s. (Inr (), put_part (td_part d) p s)) (st\<lparr>ts_minted := n\<rparr>)))" for fp p n
  proof -
    have "touches (td_part d) st (st\<lparr>ts_minted := n\<rparr>)" by (simp add: touches_def)
    then show ?thesis by (rule touches_trans [OF _ touches_seq]) simp_all
  qed
  then show ?thesis by (simp add: ensure_part_def Let_def)
qed

lemma ensure_effect:
  assumes "ensure_part env d st = (Inr (), s)"
  shows "\<exists>p. map_of (ts_parts s) = (map_of (ts_parts st))(td_part d \<mapsto> p) \<and>
    visible_arguments p = (case map_of (ts_parts st) (td_part d) of Some q \<Rightarrow> visible_arguments q | None \<Rightarrow> [])"
proof (cases "map_of (ts_parts st) (td_part d)")
  case None
  with assms obtain fp p s1 where "ts_reserve fp (st\<lparr>ts_minted := Suc (ts_minted st)\<rparr>) = (Inr (), s1)" "s = put_part (td_part d) p s1"
      "visible_arguments p = []"
    by (auto simp: ensure_part_def Let_def seq_step_Inr visible_arguments_def empty_string_def exact_def)
  with None settled_fields(2) [OF reserve_settled] show ?thesis by (fastforce simp: put_part_def)
next
  case (Some p)
  with assms have "s = st" by (simp add: ensure_part_def)
  with Some show ?thesis by (intro exI [of _ p]) (simp add: fun_upd_idem)
qed

lemma signature_touches: "touches key st (snd (apply_signature env key t st))"
proof -
  have put: "touches key s (snd (ts_replace a b (put_part key p s)))" for a b p s
    by (rule touches_trans [OF touches_put touches_accounts(1)])
  show ?thesis
    by (auto simp: apply_signature_def Let_def put split: sum.splits intro!: touches_seq)
qed

lemma inner_touches: "touches (td_part d) st (snd (apply_inner env d st))"
proof -
  have put: "touches key s (snd (ts_replace a b (put_part key p s)))" for key a b p s
    by (rule touches_trans [OF touches_put touches_accounts(1)])
  have "touches key s (snd (apply_update env key u s))" for key u s
    by (cases u) (simp_all add: apply_update_def Let_def append_touches signature_touches put split: sum.splits)
  then show ?thesis by (simp add: apply_inner_def touches_seq ensure_touches)
qed

lemma update_effect:
  assumes "apply_update env key u st = (Inr (), st')" and p: "map_of (ts_parts st) key = Some p"
  shows "\<exists>p'. map_of (ts_parts st') = (map_of (ts_parts st))(key \<mapsto> p') \<and>
    (arguments_kept u (visible_arguments p) \<longrightarrow> starts_with (visible_arguments p') (visible_arguments p))"
proof -
  have parts: "ts_replace a b s = (Inr x, s') \<Longrightarrow> ts_parts s' = ts_parts s" for a b s x s'
    using replace_settled settled_fields(2) by blast
  consider (plain) "\<nexists>t. u = UNameFragment t \<or> u = UWireIdFragment t \<or> u = UArgumentsFragment t \<or> u = USignature t"
    | (UArgumentsFragment) t where "u = UArgumentsFragment t" | (UNameFragment) t where "u = UNameFragment t"
    | (UWireIdFragment) t where "u = UWireIdFragment t" | (USignature) t where "u = USignature t" by blast
  then show ?thesis
  proof cases
    case plain
    from assms plain obtain p' where p': "map_of (ts_parts st') = (map_of (ts_parts st))(key \<mapsto> p')" "update_part env u p = Inr p'"
      by (cases u) (auto simp: apply_update_def Let_def put_part_def split: sum.splits dest!: parts)
    from p'(2) plain have "arguments_kept u (visible_arguments p) \<longrightarrow> starts_with (visible_arguments p') (visible_arguments p)"
      by (cases u) (auto simp: update_part_def visible_arguments_def arguments_kept_def starts_with_def then_do_Inr)
    with p'(1) show ?thesis by blast
  next
    case (UArgumentsFragment t)
    with assms have "append_fragment env key FieldArguments t (pt_initial p) st = (Inr (), st')"
      by (simp add: apply_update_def Let_def split: if_splits)
    from append_effect [OF this p] show ?thesis
      by (auto simp: visible_arguments_def set_part_string_def part_string_def starts_with_def split: if_splits)
  next
    case (UNameFragment t)
    with assms have "append_fragment env key FieldName t False st = (Inr (), st')" by (simp add: apply_update_def Let_def)
    from append_effect [OF this p] show ?thesis by (auto simp: visible_arguments_def set_part_string_def starts_with_def)
  next
    case (UWireIdFragment t)
    with assms have "append_fragment env key FieldWireId t False st = (Inr (), st')" by (simp add: apply_update_def Let_def)
    from append_effect [OF this p] show ?thesis by (auto simp: visible_arguments_def set_part_string_def starts_with_def)
  next
    case (USignature t)
    with assms have "apply_signature env key t st = (Inr (), st')" by (simp add: apply_update_def Let_def)
    then obtain sig a b a' b' s where "ts_replace a b st = (Inr (), s)" "ts_replace a' b' (put_part key (p\<lparr>pt_signature := Some sig\<rparr>) s) = (Inr (), st')"
      by (cases "fallible_string env t") (auto simp: apply_signature_def Let_def seq_step_Inr p)
    then show ?thesis
      by (intro exI [of _ "p\<lparr>pt_signature := Some sig\<rparr>"]) (auto simp: put_part_def visible_arguments_def starts_with_def dest!: parts)
  qed
qed

lemma inner_effect:
  assumes "apply_inner env d st = (Inr (), st')" and "visible = (case map_of (ts_parts st) (td_part d) of Some q \<Rightarrow> visible_arguments q | None \<Rightarrow> [])"
  shows "\<exists>p. map_of (ts_parts st') = (map_of (ts_parts st))(td_part d \<mapsto> p) \<and>
    (arguments_kept (td_update d) visible \<longrightarrow> starts_with (visible_arguments p) visible)"
proof -
  from assms(1) obtain s where s: "ensure_part env d st = (Inr (), s)" "apply_update env (td_part d) (td_update d) s = (Inr (), st')"
    by (auto simp: apply_inner_def seq_step_Inr split: if_splits)
  from ensure_effect [OF s(1)] obtain p where p: "map_of (ts_parts s) = (map_of (ts_parts st))(td_part d \<mapsto> p)" "visible_arguments p = visible"
    using assms(2) by auto
  then have "map_of (ts_parts s) (td_part d) = Some p" by simp
  from update_effect [OF s(2) this] p show ?thesis by auto
qed

section \<open>The invariant\<close>

text \<open>Between events the text last shown of every open call is the text the stream holds for it.\<close>

definition reported :: "tool_stream \<Rightarrow> bool" where
  "reported st \<longleftrightarrow> (\<forall>r. ts_progress st = Some r \<longrightarrow> (\<exists>shown. tracks r shown \<and>
     (\<forall>key t. shown key = Some t \<longrightarrow> (\<exists>p. map_of (ts_parts st) key = Some p \<and> visible_arguments p = t))))"

definition reportable :: "tool_stream \<Rightarrow> bool" where
  "reportable st \<longleftrightarrow> (\<forall>r. ts_progress st = Some r \<longrightarrow> (\<exists>shown. tracks r shown \<and> dom shown \<subseteq> dom (map_of (ts_parts st))))"

lemma reported_reportable: "reported st \<Longrightarrow> reportable st"
  unfolding reported_def reportable_def by (metis domD domI subsetI)

lemma abandon_tracks: "reportable st \<Longrightarrow> ts_progress (abandon_open st) = Some r \<Longrightarrow> tracks r Map.empty"
proof -
  assume st: "reportable st" and "ts_progress (abandon_open st) = Some r"
  then obtain r0 where r0: "ts_progress st = Some r0" "r = fold (\<lambda>(key, p). report_abandoned (view_of key p)) (ts_parts st) r0"
    by (auto simp: abandon_open_def)
  with st obtain shown where shown: "tracks r0 shown" "dom shown \<subseteq> dom (map_of (ts_parts st))" by (auto simp: reportable_def)
  then have "shown |` (- fst ` set (ts_parts st)) = Map.empty" by (auto simp: dom_map_of_conv_image_fst restrict_map_def fun_eq_iff)
  with tracks_abandon_all [OF shown(1), of "ts_parts st"] r0(2) show ?thesis by simp
qed

lemma clear_reported: "reportable st \<Longrightarrow> reported (clear_stream st)"
proof -
  assume st: "reportable st"
  have "ts_progress (clear_stream st) = ts_progress (abandon_open st)" by (simp add: clear_stream_def)
  with abandon_tracks [OF st] show ?thesis unfolding reported_def by (intro allI impI exI [of _ Map.empty]) auto
qed

lemma reported_same: "ts_progress st' = ts_progress st \<Longrightarrow> map_of (ts_parts st') = map_of (ts_parts st) \<Longrightarrow> reported st' = reported st"
  by (simp add: reported_def)

lemma report_after_update:
  assumes st: "reported st" and "ts_progress s = ts_progress st" and p: "map_of (ts_parts s) = (map_of (ts_parts st))(key \<mapsto> p)"
    and visible: "visible = (case map_of (ts_parts st) key of Some p \<Rightarrow> visible_arguments p | None \<Rightarrow> [])"
    and kept: "kept \<Longrightarrow> starts_with (visible_arguments p) visible"
  shows "reported (s\<lparr>ts_progress := map_option (report_updated (view_of key p) named (length visible) kept) (ts_progress s)\<rparr>)"
  unfolding reported_def
proof (intro allI impI)
  let ?report = "report_updated (view_of key p) named (length visible) kept"
  let ?s = "s\<lparr>ts_progress := map_option ?report (ts_progress s)\<rparr>"
  fix q assume "ts_progress ?s = Some q"
  then obtain q0 where q0: "ts_progress st = Some q0" "q = ?report q0" using assms(2) by auto
  with st obtain shown where shown: "tracks q0 shown"
      "\<And>k t. shown k = Some t \<Longrightarrow> \<exists>p. map_of (ts_parts st) k = Some p \<and> visible_arguments p = t" by (auto simp: reported_def)
  have "starts_with (cv_arguments (view_of key p)) before \<and> length visible = length before"
    if "shown (cv_key (view_of key p)) = Some before" "kept" for before
    using shown(2) [of key before] that kept by (auto simp: view_of_def visible)
  from tracks_updated [OF shown(1) this, where named = named] q0(2)
  have "tracks q (shown(key \<mapsto> visible_arguments p)) \<or> (key \<notin> rp_started q0 \<and> tracks q shown)" by (simp add: view_of_def)
  then show "\<exists>shown. tracks q shown \<and> (\<forall>k t. shown k = Some t \<longrightarrow> (\<exists>p. map_of (ts_parts ?s) k = Some p \<and> visible_arguments p = t))"
  proof
    assume "tracks q (shown(key \<mapsto> visible_arguments p))"
    with shown(2) p show ?thesis by (intro exI [of _ "shown(key \<mapsto> visible_arguments p)"]) auto
  next
    assume *: "key \<notin> rp_started q0 \<and> tracks q shown"
    with tracks_key [OF shown(1), of key] shown(2) p show ?thesis by (intro exI [of _ shown]) auto
  qed
qed

lemma touched_reportable: "reportable st \<Longrightarrow> touches key st s \<Longrightarrow> reportable s"
  unfolding reportable_def touches_def by (auto simp: dom_def) blast+

lemma update_reported: "step_ok reported (stream_update env key choice idx u) reported reportable"
proof (unfold step_ok_def, intro allI impI)
  fix st assume st: "reported st"
  let ?d = "\<lparr>td_part = key, td_choice = choice, td_index = idx, td_update = u\<rparr>"
  define visible where "visible = (case map_of (ts_parts st) key of Some p \<Rightarrow> visible_arguments p | None \<Rightarrow> [])"
  obtain r s where r: "apply_inner env ?d st = (r, s)" by fastforce
  from inner_touches [of ?d st env] r have touched: "touches key st s" by simp
  show "case stream_update env key choice idx u st of (Inr _, st') \<Rightarrow> reported st' | (Inl _, st') \<Rightarrow> reportable st'"
  proof (cases r)
    case (Inl e)
    from clear_reported [OF touched_reportable [OF reported_reportable [OF st] touched], THEN reported_reportable] r Inl show ?thesis
      by (simp add: stream_update_def apply_delta_def Let_def)
  next
    case (Inr x)
    with r inner_effect [of env ?d st s visible] obtain p where
      p: "map_of (ts_parts s) = (map_of (ts_parts st))(key \<mapsto> p)" "arguments_kept u visible \<Longrightarrow> starts_with (visible_arguments p) visible"
      by (auto simp: visible_def)
    from report_after_update [OF st _ p(1) visible_def p(2)] touched
    have "reported (s\<lparr>ts_progress := map_option (report_updated (view_of key p) (\<not> is_name_fragment u) (length visible) (arguments_kept u visible)) (ts_progress s)\<rparr>)"
      by (simp add: touches_def)
    with r Inr p(1) show ?thesis by (simp add: stream_update_def apply_delta_def Let_def visible_def [symmetric])
  qed
qed

section \<open>Bookkeeping and completion\<close>

definition unseen :: "tool_stream \<Rightarrow> tool_stream \<Rightarrow> bool" where
  "unseen st st' \<longleftrightarrow> ts_progress st' = ts_progress st \<and> ts_emitted st' = ts_emitted st \<and> ts_target st' = ts_target st \<and> ts_parts st' = ts_parts st"

lemma unseen_settled: "settled st st' \<Longrightarrow> unseen st st'"
  by (auto simp: unseen_def settled_def)

lemma unseen_trans: "unseen st st' \<Longrightarrow> unseen st' st'' \<Longrightarrow> unseen st st''"
  by (simp add: unseen_def)

lemma unseen_accounts [simp]: "unseen st (snd (ts_replace a b st))" "unseen st (snd (ts_reserve a st))" "unseen st (ts_release a st)"
  using replace_settled [of a b st] reserve_settled [of a st] by (auto simp: unseen_settled) (metis prod.collapse unseen_settled)+

lemma unseen_seq:
  assumes "unseen st (snd (m st))" and "\<And>x s. unseen s (snd (f x s))"
  shows "unseen st (snd (seq_step m f st))"
  using assms unseen_trans by (auto simp: seq_step_def split: prod.splits sum.splits)

lemma unseen_self [simp]: "unseen st st" "unseen st (put_mapping choice cid e st)" "unseen st (st\<lparr>ts_gemini_last := l\<rparr>)"
  "unseen st (st\<lparr>ts_gemini_next := n\<rparr>)" "unseen st (st\<lparr>ts_gemini_by_id := c\<rparr>)" "unseen st (snd (pure_step x st))" "unseen st (undo_slot b st)"
  by (simp_all add: unseen_def put_mapping_def pure_step_def undo_slot_def ts_release_def)

lemma next_unseen: "unseen st (snd (next_gemini choice st))"
  unfolding next_gemini_def Let_def by (rule unseen_seq) simp_all

lemma last_unseen: "unseen st (snd (remember_last choice key position st))"
  unfolding remember_last_def Let_def by (rule unseen_seq) simp_all

lemma mapping_unseen: "unseen st (snd (store_mapping env choice cid key st))"
proof -
  have "unseen s (snd (own_mapping env choice cid key existing c fp fp' s))" for s existing c fp fp'
    by (auto simp: own_mapping_def give_up_mapping_def keep_mapping_def split: sum.splits option.splits intro!: unseen_seq)
  then have "unseen s (snd (case ts_replace a b s of (Inl e, st) \<Rightarrow> (Inl e, undo_slot c st) | (Inr _, st) \<Rightarrow> own_mapping env choice cid key existing c b a st))"
    for a b s c existing
    using unseen_accounts(1) [of s a b] unseen_trans
    by (cases "ts_replace a b s"; cases "fst (ts_replace a b s)") (auto intro: unseen_trans)
  then show ?thesis unfolding store_mapping_def Let_def by (intro unseen_seq) simp_all
qed

lemma unseen_reported: "unseen st s \<Longrightarrow> reported s = reported st"
  by (rule reported_same) (simp_all add: unseen_def)

lemma unseen_step: "(\<And>st. unseen st (snd (m st))) \<Longrightarrow> step_ok reported m reported reportable"
  unfolding step_ok_def
proof (intro allI impI)
  fix st assume "\<And>st. unseen st (snd (m st))" "reported st"
  with unseen_reported [of st "snd (m st)"] have "reported (snd (m st))" by simp
  then show "case m st of (Inr _, st') \<Rightarrow> reported st' | (Inl _, st') \<Rightarrow> reportable st'"
    by (cases "m st"; cases "fst (m st)") (auto intro: reported_reportable)
qed

definition wire_texts :: "(string \<times> part) list \<Rightarrow> string list" where
  "wire_texts ps = concat (map (\<lambda>(_, p). case pt_wire_id p of Some t \<Rightarrow> [rs_text t] | None \<Rightarrow> []) ps)"

definition call_complete :: "stream_env \<Rightarrow> tool_stream \<Rightarrow> part \<Rightarrow> bool" where
  "call_complete env st p \<longleftrightarrow> rs_text (pt_name p) \<noteq> [] \<and> validate_arguments (se_tools env) (rs_text (pt_arguments p)) True = Inr () \<and>
     (rt_wire (ts_target st) \<noteq> GoogleGenerateContent \<longrightarrow> is_nonempty (map_option rs_text (pt_wire_id p)))"

lemma complete_calls_ok:
  "complete_calls env st ps ids m b = Inr (calls, b') \<Longrightarrow>
    calls = map (\<lambda>(key, p). completed_call env st key p) ps \<and> (\<forall>(key, p) \<in> set ps. call_complete env st p) \<and>
    distinct (wire_texts ps) \<and> set (wire_texts ps) \<inter> ids = {}"
proof (induction env st ps ids m b arbitrary: calls b' rule: complete_calls.induct)
  case (2 env st key p ps ids m b)
  then obtain ids' b1 m' cs where *: "completable env st ids p = Inr ids'" "frame_charges env st key p b = Inr b1"
      "map_insert (rs_text (pt_id p)) [stream_binding st key p] m = Inr m'" "complete_calls env st ps ids' m' b1 = Inr (cs, b')"
      "calls = completed_call env st key p # cs"
    by (auto simp: then_do_Inr)
  from *(1) have "call_complete env st p" "ids' = ids \<union> set (wire_texts [(key, p)])" "set (wire_texts [(key, p)]) \<inter> ids = {}"
    by (auto simp: completable_def call_complete_def wire_texts_def then_do_Inr split: if_splits option.splits)
  moreover have "wire_texts ((key, p) # ps) = wire_texts [(key, p)] @ wire_texts ps" "distinct (wire_texts [(key, p)])"
    by (auto simp: wire_texts_def split: option.splits)
  ultimately show ?case using 2(1) [OF *(1-4)] *(5) by auto
qed (simp add: wire_texts_def)

lemma drop_listed:
  "let s' = fold (\<lambda>(key, p) st. ts_release (part_footprint env (ts_target st) key p) (st\<lparr>ts_parts := without_key key (ts_parts st)\<rparr>)) xs s
   in ts_parts s' = filter (\<lambda>e. fst e \<notin> fst ` set xs) (ts_parts s) \<and> ts_progress s' = ts_progress s \<and> ts_emitted s' = ts_emitted s"
proof (induction xs arbitrary: s)
  case (Cons x xs)
  then show ?case by (cases x) (auto simp: Let_def ts_release_def without_key_def conj_commute)
qed simp

lemma drop_parts_effect:
  "ts_progress (drop_parts env choice s) = ts_progress s" "ts_emitted (drop_parts env choice s) = ts_emitted s"
  "ts_parts (drop_parts env choice s) = filter (\<lambda>e. fst e \<notin> fst ` set (own_parts choice s)) (ts_parts s)"
  using drop_listed [of env "own_parts choice s" s] by (simp_all add: Let_def drop_parts_def)

lemma drops_unseen: "unseen s (drop_last choice s)" "unseen s (drop_mappings choice s)" "unseen s (drop_next choice s)"
proof -
  have "unseen s (fold (\<lambda>(_, e). ts_release (mapping_footprint e)) ms s)" for ms :: "(string \<times> rust_string \<times> rust_string) list" and s
    by (induction ms arbitrary: s) (auto intro: unseen_trans [OF unseen_accounts(3)])
  then show "unseen s (drop_mappings choice s)"
    by (auto simp: drop_mappings_def split: option.splits intro!: unseen_trans [OF _ unseen_accounts(3)] intro: unseen_trans [OF unseen_self(5)])
qed (auto simp: drop_last_def drop_next_def split: option.splits intro!: unseen_trans [OF _ unseen_accounts(3)])

lemma map_of_filter_keys: "k \<notin> K \<Longrightarrow> map_of (filter (\<lambda>e. fst e \<notin> K) m) k = map_of m k"
  by (induction m) auto

lemma ended_reported:
  assumes st: "reported s" and names: "\<forall>(key, p) \<in> set (own_parts choice s). rs_text (pt_name p) \<noteq> []"
  shows "reported (drop_parts env choice (report_completed choice s))"
  unfolding reported_def
proof (intro allI impI)
  let ?own = "fst ` set (own_parts choice s)"
  have own: "set (ordered_parts choice s) = set (own_parts choice s)" "own_parts choice (report_completed choice s) = own_parts choice s"
    by (simp_all add: ordered_parts_def own_parts_def report_completed_def)
  fix q assume "ts_progress (drop_parts env choice (report_completed choice s)) = Some q"
  then obtain q0 where q0: "ts_progress s = Some q0" "q = fold (\<lambda>(key, p). report_ended (view_of key p)) (ordered_parts choice s) q0"
    unfolding drop_parts_effect by (auto simp: report_completed_def)
  with st obtain shown where shown: "tracks q0 shown"
      "\<And>k t. shown k = Some t \<Longrightarrow> \<exists>p. map_of (ts_parts s) k = Some p \<and> visible_arguments p = t" by (auto simp: reported_def)
  have "tracks q (shown |` (- ?own))"
    using tracks_end_all [OF shown(1), of "ordered_parts choice s"] names own(1) q0(2) by auto
  moreover have "map_of (filter (\<lambda>e. fst e \<notin> ?own) (ts_parts s)) k = map_of (ts_parts s) k" if "k \<notin> ?own" for k
    using that by (rule map_of_filter_keys)
  moreover have "ts_parts (drop_parts env choice (report_completed choice s)) = filter (\<lambda>e. fst e \<notin> ?own) (ts_parts s)"
    by (simp add: drop_parts_effect own) (simp add: report_completed_def)
  ultimately show "\<exists>shown. tracks q shown \<and> (\<forall>key t. shown key = Some t \<longrightarrow>
      (\<exists>p. map_of (ts_parts (drop_parts env choice (report_completed choice s))) key = Some p \<and> visible_arguments p = t))"
    using shown(2) by (intro exI [of _ "shown |` (- ?own)"]) (auto simp: restrict_map_def split: if_splits)
qed

lemma complete_cases:
  obtains (emitted) "choice \<in> set (ts_emitted st)" "complete_choice env choice b st = (Inr (None, b), st)"
  | (invalid) e where "complete_choice env choice b st = (Inl e, st)"
  | (refused) e s where "complete_choice env choice b st = (Inl e, s)" "settled st s"
  | (finished) calls b' s where "choice \<notin> set (ts_emitted st)" "complete_calls env st (ordered_parts choice st) {} empty_map b = Inr (calls, b')" "settled st s"
      "complete_choice env choice b st = (Inr (if calls = [] then None else Some calls, b'),
        drop_next choice (drop_mappings choice (drop_last choice (drop_parts env choice (report_completed choice (s\<lparr>ts_emitted := insort_insert choice (ts_emitted s)\<rparr>))))))"
proof (cases "choice \<in> set (ts_emitted st)")
  case True
  with emitted show ?thesis by (simp add: complete_choice_def)
next
  case False
  show ?thesis
  proof (cases "complete_calls env st (ordered_parts choice st) {} empty_map b")
    case (Inl e)
    with False invalid show ?thesis by (simp add: complete_choice_def)
  next
    case (Inr x)
    obtain calls b' where x: "x = (calls, b')" by (cases x)
    obtain r s where r: "ts_reserve (rf_record 0) st = (r, s)" by fastforce
    note un = reserve_settled [OF r]
    show ?thesis
      by (cases r) (use False Inr x r un refused [of _ s] finished [of calls b' s] in \<open>auto simp: complete_choice_def seq_step_def\<close>)
  qed
qed

lemma complete_reported: "step_ok reported (complete_choice env choice b) reported reportable"
proof (unfold step_ok_def, intro allI impI)
  fix st assume st: "reported st"
  show "case complete_choice env choice b st of (Inr _, st') \<Rightarrow> reported st' | (Inl _, st') \<Rightarrow> reportable st'"
  proof (cases rule: complete_cases [of choice st env b])
    case (refused e s)
    with st unseen_reported [OF unseen_settled, of st s] show ?thesis by (simp add: reported_reportable)
  next
    case (finished calls b' s)
    let ?s = "s\<lparr>ts_emitted := insort_insert choice (ts_emitted s)\<rparr>"
    have "reported ?s" using st unseen_reported [OF unseen_settled [OF finished(3)]] by (simp add: reported_def)
    moreover have "\<forall>(key, p) \<in> set (own_parts choice ?s). rs_text (pt_name p) \<noteq> []"
      using complete_calls_ok [OF finished(2)] settled_fields [OF finished(3)] by (auto simp: ordered_parts_def own_parts_def call_complete_def)
    ultimately have "reported (drop_parts env choice (report_completed choice ?s))" by (rule ended_reported)
    then have "reported (drop_next choice (drop_mappings choice (drop_last choice (drop_parts env choice (report_completed choice ?s)))))"
      by (simp add: unseen_reported [OF drops_unseen(1)] unseen_reported [OF drops_unseen(2)] unseen_reported [OF drops_unseen(3)])
    with finished(4) show ?thesis by simp
  qed (use st in \<open>simp_all add: reported_reportable\<close>)
qed

interpretation reports: stream_step_laws env reported reportable
proof
  show "reported (st\<lparr>ts_frame := n\<rparr>)" if "reported st" for st n using that by (simp add: reported_def)
qed (auto intro: reported_reportable clear_reported update_reported complete_reported unseen_step next_unseen last_unseen mapping_unseen)




definition demo_ready :: tool_stream where
  "demo_ready = (demo_new None)\<lparr>ts_parts := [(''responses:0'', (demo_part (exact ''{}''))\<lparr>pt_name := exact ''f'', pt_wire_id := Some (exact ''a'')\<rparr>)]\<rparr>"

lemma demo_stream_arguments: "validate_arguments demo_tool_env ''{}'' True = Inr ()"
proof -
  have "limits_ok limits_SSE" by (simp add: limits_ok_def limits_SSE_def usize_max_def)
  then show ?thesis unfolding validate_arguments_Inr parse_str_Inr demo_tool_env_def
    by (simp add: parse_source_Inr) (simp add: in_limits_def limits_SSE_def size_of_value_def)
qed

lemma demo_completed: "\<exists>calls b' st'. complete_choice demo_stream_env 0 (derived_new FailStream) demo_ready = (Inr (Some calls, b'), st')"
proof -
  let ?p = "(demo_part (exact ''{}''))\<lparr>pt_name := exact ''f'', pt_wire_id := Some (exact ''a'')\<rparr>"
  have env: "se_tools demo_stream_env = demo_tool_env" by (simp add: demo_stream_env_def)
  have parts: "ordered_parts 0 demo_ready = [(''responses:0'', ?p)]"
    by (simp add: ordered_parts_def own_parts_def demo_ready_def demo_part_def)
  have "completable demo_stream_env demo_ready {} ?p = Inr {''a''}"
    using demo_stream_arguments by (simp add: completable_def env demo_part_def exact_def is_nonempty_def)
  moreover have "\<exists>b. frame_charges demo_stream_env demo_ready ''responses:0'' ?p (derived_new FailStream) = Inr b"
    by (simp add: frame_charges_def env demo_tool_env_def demo_ready_def demo_new_def new_tool_stream_def demo_stream_env_def demo_responses_def demo_part_def
        exact_def doubled_def checked_add_usize_def checked_mul_usize_def usize_max_def opt_len_def derived_record_def derived_strings_def
        rf_checked_add_def rf_checked_multiply_def reserve_option_def derived_reserve_def derived_new_def no_footprint_def decimal_def decimal_rev.simps)
  moreover have "\<exists>m. map_insert (rs_text (pt_id ?p)) [stream_binding demo_ready ''responses:0'' ?p] empty_map = Inr m"
    by (simp add: map_insert_def empty_map_def demo_part_def exact_def CALL_PREFIX_def starts_with_def stream_binding_def binding_def choice_scope_def
        demo_ready_def demo_new_def new_tool_stream_def demo_responses_def demo_stream_env_def demo_tool_env_def decimal_def decimal_rev.simps)
  ultimately obtain cs b where calls: "complete_calls demo_stream_env demo_ready (ordered_parts 0 demo_ready) {} empty_map (derived_new FailStream) = Inr (cs, b)" "cs \<noteq> []"
    by (auto simp: parts)
  have "\<exists>s. ts_reserve (rf_record 0) demo_ready = (Inr (), s)"
    by (simp add: ts_reserve_def demo_ready_def demo_new_def new_tool_stream_def new_budget_def budget_reserve_def budget_replace_def swap_usize_def
        checked_add_usize_def rf_record_def saturating_add_usize_def MAP_ENTRY_OVERHEAD_def usize_max_def no_footprint_def rf_checked_add_def)
  with calls show ?thesis by (auto simp: complete_choice_def seq_step_def demo_ready_def demo_new_def new_tool_stream_def)
qed


end
