(* ===== verification/StreamSafety.thy ===== *)
theory StreamSafety
  imports StreamProgress
begin

text \<open>
  Text assembly and panic freedom of a tool stream: argument fragments add up to the text they came from, a placeholder
  is replaced by the first one, and the indexing of the part table for Gemini events, which would panic on a missing
  key, never does.
\<close>

section \<open>Fragments\<close>

definition text_held :: "tool_stream \<Rightarrow> string \<Rightarrow> string" where
  "text_held st key = (case map_of (ts_parts st) key of Some p \<Rightarrow> visible_arguments p | None \<Rightarrow> [])"

lemma update_inner:
  assumes "stream_update env key choice idx u st = (Inr (), s)"
  obtains s0 s1 r where "ensure_part env \<lparr>td_part = key, td_choice = choice, td_index = idx, td_update = u\<rparr> st = (Inr (), s0)"
    "apply_update env key u s0 = (Inr (), s1)" "s = s1\<lparr>ts_progress := r\<rparr>"
proof -
  let ?d = "\<lparr>td_part = key, td_choice = choice, td_index = idx, td_update = u\<rparr>"
  obtain q s1 where q: "apply_inner env ?d st = (q, s1)" by fastforce
  with assms have "q = Inr ()" by (cases q) (simp_all add: stream_update_def apply_delta_def Let_def)
  with q obtain s0 where "ensure_part env ?d st = (Inr (), s0)" "apply_update env key u s0 = (Inr (), s1)"
    by (auto simp: apply_inner_def seq_step_Inr split: if_splits)
  moreover have "s = s1\<lparr>ts_progress := ts_progress s\<rparr>"
    using assms q \<open>q = Inr ()\<close> by (auto simp: stream_update_def apply_delta_def Let_def)
  ultimately show ?thesis using that by blast
qed

lemma fragment_effect:
  assumes "stream_update env key choice idx (UArgumentsFragment t) st = (Inr (), st')"
  shows "text_held st' key = text_held st key @ t"
proof -
  from assms obtain s s' r where s: "ensure_part env \<lparr>td_part = key, td_choice = choice, td_index = idx, td_update = UArgumentsFragment t\<rparr> st = (Inr (), s)"
      "apply_update env key (UArgumentsFragment t) s = (Inr (), s')" and st': "st' = s'\<lparr>ts_progress := r\<rparr>"
    by (rule update_inner)
  from ensure_effect [OF s(1)] obtain p where p: "map_of (ts_parts s) key = Some p" "visible_arguments p = text_held st key"
    by (auto simp: text_held_def)
  with s(2) have "append_fragment env key FieldArguments t (pt_initial p) s = (Inr (), s')"
    by (simp add: apply_update_def Let_def split: if_splits)
  from append_effect [OF this p(1)] p(2) st' show ?thesis
    by (auto simp: text_held_def visible_arguments_def set_part_string_def part_string_def split: if_splits)
qed

text \<open>C32. Argument fragments add up: after any accepted sequence of fragments for a part, the arguments a reader may see are what was there,
  a placeholder counting as nothing, followed by the fragments in order.\<close>

theorem fragments_concatenate:
  "each_step (\<lambda>t. stream_update env key choice idx (UArgumentsFragment t)) ts st = (Inr (), st') \<Longrightarrow>
    text_held st' key = text_held st key @ concat ts"
proof (induction ts arbitrary: st)
  case (Cons t ts)
  then obtain s where s: "stream_update env key choice idx (UArgumentsFragment t) st = (Inr (), s)"
      "each_step (\<lambda>t. stream_update env key choice idx (UArgumentsFragment t)) ts s = (Inr (), st')"
    by (auto simp: seq_step_Inr)
  from Cons.IH [OF s(2)] fragment_effect [OF s(1)] show ?case by simp
qed (simp add: pure_step_def)

theorem fragments_concatenate_witness:
  "\<exists>st'. each_step (\<lambda>t. stream_update demo_stream_env ''responses:0'' 0 0 (UArgumentsFragment t)) [''{}''] (demo_start None) = (Inr (), st') \<and>
     text_held st' ''responses:0'' = ''{}''"
proof -
  let ?st = "demo_holding None 342 (exact ''{}'')"
  have run: "each_step (\<lambda>t. stream_update demo_stream_env ''responses:0'' 0 0 (UArgumentsFragment t)) [''{}''] (demo_start None) = (Inr (), ?st)"
    using demo_update [of None] by (simp add: quiet_def seq_step_def pure_step_def)
  have "text_held (demo_start None) ''responses:0'' = []" by (simp add: text_held_def demo_start_def demo_new_def new_tool_stream_def)
  with fragments_concatenate [OF run] run show ?thesis by simp
qed

section \<open>Keys of Gemini parts\<close>

definition gemini_name :: "nat \<Rightarrow> nat \<Rightarrow> string" where
  "gemini_name choice idx = ''gemini:'' @ decimal choice @ '':'' @ decimal idx"

lemma digit_code: "d < 10 \<Longrightarrow> of_char (char_of (48 + d :: nat) :: char) = 48 + d"
  by (simp add: take_bit_eq_mod)

lemma decimal_rev_digits: "c \<in> set (decimal_rev n) \<Longrightarrow> \<exists>d < 10. c = char_of (48 + d :: nat)"
proof (induction n rule: less_induct)
  case (less n)
  show ?case
  proof (cases "n < 10")
    case False
    then have "decimal_rev n = char_of (48 + n mod 10) # decimal_rev (n div 10)" by (simp add: decimal_rev.simps [of n])
    with less.prems have "c = char_of (48 + n mod 10) \<or> c \<in> set (decimal_rev (n div 10))" by simp
    then show ?thesis
    proof
      assume "c = char_of (48 + n mod 10)"
      then show ?thesis by (intro exI [of _ "n mod 10"]) simp
    next
      assume "c \<in> set (decimal_rev (n div 10))"
      with False less.IH [of "n div 10"] show ?thesis by simp
    qed
  qed (use less.prems in \<open>auto simp: decimal_rev.simps [of n]\<close>)
qed

lemma decimal_rev_nonempty: "decimal_rev n \<noteq> []"
  by (simp add: decimal_rev.simps [of n])

lemma decimal_rev_inj: "decimal_rev m = decimal_rev n \<Longrightarrow> m = n"
proof (induction m arbitrary: n rule: less_induct)
  case (less m)
  have cons: "decimal_rev k = char_of (48 + k mod 10) # (if k < 10 then [] else decimal_rev (k div 10))" for k
    by (simp add: decimal_rev.simps [of k])
  from less.prems have heads: "(char_of (48 + m mod 10) :: char) = char_of (48 + n mod 10)"
    and tails: "(if m < 10 then [] else decimal_rev (m div 10)) = (if n < 10 then [] else decimal_rev (n div 10))"
    unfolding cons [of m] cons [of n] by simp_all
  have "m mod 10 = n mod 10" using arg_cong [OF heads, of "of_char :: char \<Rightarrow> nat"] digit_code [of "m mod 10"] digit_code [of "n mod 10"] by simp
  moreover have "m div 10 = n div 10"
    using tails less.IH [of "m div 10" "n div 10"] decimal_rev_nonempty [of "n div 10"] decimal_rev_nonempty [of "m div 10"]
    by (auto split: if_splits)
  ultimately show ?case by (metis div_mult_mod_eq)
qed

lemma no_colon: "CHR '':'' \<notin> set (decimal n)"
proof
  assume "CHR '':'' \<in> set (decimal n)"
  with decimal_rev_digits obtain d where d: "d < 10" "CHR '':'' = char_of (48 + d :: nat)" by (auto simp: decimal_def)
  from arg_cong [OF d(2), of "of_char :: char \<Rightarrow> nat"] digit_code [OF d(1)] d(1) show False by simp
qed

lemma gemini_name_choice: "gemini_name c i = gemini_name c' i' \<Longrightarrow> c = c'"
proof -
  assume "gemini_name c i = gemini_name c' i'"
  then have "takeWhile (\<lambda>x. x \<noteq> CHR '':'') (decimal c @ '':'' @ decimal i) = takeWhile (\<lambda>x. x \<noteq> CHR '':'') (decimal c' @ '':'' @ decimal i')"
    by (simp add: gemini_name_def)
  moreover have "takeWhile (\<lambda>x. x \<noteq> CHR '':'') (decimal c @ '':'' @ s) = decimal c" for c s
    using no_colon [of c] by (subst takeWhile_append2) auto
  ultimately have "decimal c = decimal c'" by simp
  then show ?thesis using decimal_rev_inj by (simp add: decimal_def)
qed

section \<open>The tables of a Gemini stream\<close>

text \<open>What an update does to the tables: it settles the account and stores parts of one choice under one key.\<close>

inductive puts :: "string \<Rightarrow> nat \<Rightarrow> tool_stream \<Rightarrow> tool_stream \<Rightarrow> bool" for key choice where
  settle: "settled st st' \<Longrightarrow> puts key choice st st'"
| mint: "puts key choice st (st\<lparr>ts_minted := n\<rparr>)"
| put: "pt_choice p = choice \<Longrightarrow> puts key choice st (put_part key p st)"
| trans: "puts key choice st s \<Longrightarrow> puts key choice s st' \<Longrightarrow> puts key choice st st'"

definition keys :: "tool_stream \<Rightarrow> string set" where "keys st = fst ` set (ts_parts st)"

lemma puts_effect:
  assumes "puts key choice st st'"
  shows "ts_target st' = ts_target st \<and> ts_gemini_last st' = ts_gemini_last st \<and> ts_gemini_by_id st' = ts_gemini_by_id st \<and>
    keys st \<subseteq> keys st' \<and> (\<forall>x \<in> set (ts_parts st'). x \<in> set (ts_parts st) \<or> (fst x = key \<and> pt_choice (snd x) = choice))"
  using assms
proof (induction rule: puts.induct)
  case (put p st)
  have "set (btree_insert key p m) \<subseteq> insert (key, p) (set m)" for m
    by (induction key p m rule: btree_insert.induct) (auto split: if_splits)
  from this [of "ts_parts st"] put keys_btree_insert [of key p "ts_parts st"] show ?case by (fastforce simp: put_part_def keys_def)
next
  case (trans st s st')
  then show ?case by (intro conjI) (simp_all, blast+)
qed (auto simp: settled_def keys_def)

lemma puts_refl [simp]: "puts key choice st st"
  by (simp add: puts.settle)

lemma puts_accounts: "puts key choice st (snd (ts_replace a b st))" "puts key choice st (snd (ts_reserve a st))"
  using replace_settled [of a b st] reserve_settled [of a st] by (metis prod.collapse puts.settle)+

lemma puts_seq:
  assumes "puts key choice st (snd (m st))" and "\<And>x s. puts key choice s (snd (f x s))"
  shows "puts key choice st (snd (seq_step m f st))"
  using assms by (auto simp: seq_step_def split: prod.splits sum.splits intro: puts.trans)

lemma puts_put_then: "pt_choice p = choice \<Longrightarrow> puts key choice (put_part key p st) st' \<Longrightarrow> puts key choice st st'"
  by (rule puts.trans [OF puts.put])

lemma choice_set_part_string [simp]: "pt_choice (set_part_string field s p) = pt_choice p"
  by (cases field) (simp_all add: set_part_string_def)

lemma append_puts:
  assumes "map_of (ts_parts st) key = Some p"
  shows "puts key (pt_choice p) st (snd (append_fragment env key field t replace_initial st))"
proof -
  have put: "puts key (pt_choice p) s (snd (seq_step (ts_replace a b) f (put_part key p' s)))"
    if "pt_choice p' = pt_choice p" "\<And>x s. puts key (pt_choice p) s (snd (f x s))" for a b p' s and f :: "unit \<Rightarrow> unit stream_step"
    by (rule puts_put_then [OF that(1)], rule puts_seq [OF puts_accounts(1) that(2)])
  have fail: "puts key (pt_choice p) s (snd (failing e s))" for s and e :: shim_error by (simp add: failing_def)
  show ?thesis
    using assms by (auto simp: append_fragment_def Let_def split: option.splits if_splits intro!: puts_seq [OF puts_accounts(1)] put fail puts.put)
qed

lemma update_puts:
  assumes "map_of (ts_parts st) key = Some p"
  shows "puts key (pt_choice p) st (snd (apply_update env key u st))"
proof -
  have replaced: "puts key (pt_choice p) s (snd (ts_replace a b (put_part key p' s)))" if "pt_choice p' = pt_choice p" for a b p' s
    by (rule puts_put_then [OF that puts_accounts(1)])
  have "puts key (pt_choice p) st (snd (apply_signature env key t st))" for t
    using assms by (auto simp: apply_signature_def Let_def split: sum.splits intro!: puts_seq puts_accounts replaced)
  moreover have "update_part env u p = Inr p' \<Longrightarrow> pt_choice p' = pt_choice p" for p'
    by (cases u) (auto simp: update_part_def then_do_Inr)
  ultimately show ?thesis
    using assms append_puts [OF assms] replaced by (cases u) (auto simp: apply_update_def Let_def split: sum.splits)
qed

text \<open>Every part is filed under the name of its choice, and every mapped name that is not in \<open>K\<close> has a part.\<close>

definition tables :: "string set \<Rightarrow> tool_stream \<Rightarrow> bool" where
  "tables K st \<longleftrightarrow>
     (\<forall>(key, p) \<in> set (ts_parts st). \<exists>i. key = gemini_name (pt_choice p) i) \<and>
     (\<forall>c key r. map_of (ts_gemini_last st) c = Some (key, r) \<longrightarrow> (\<exists>i. key = gemini_name c i)) \<and>
     (\<forall>c cid stored v. map_of (mappings_of st c) cid = Some (stored, v) \<longrightarrow> (\<exists>i. rs_text v = gemini_name c i) \<and> rs_text v \<in> keys st \<union> K)"

lemma tables_unchanged:
  "ts_parts st' = ts_parts st \<Longrightarrow> ts_gemini_last st' = ts_gemini_last st \<Longrightarrow> ts_gemini_by_id st' = ts_gemini_by_id st \<Longrightarrow> tables K st' = tables K st"
  by (simp add: tables_def mappings_of_def keys_def)

lemma tables_settled: "settled st st' \<Longrightarrow> tables K st' = tables K st"
  by (rule tables_unchanged) (simp_all add: settled_fields)

lemma tables_weaken: "tables K st \<Longrightarrow> K \<subseteq> keys st \<union> K' \<Longrightarrow> tables K' st"
  unfolding tables_def by (elim conjE, intro conjI, assumption, assumption) blast

lemma tables_puts:
  assumes "tables K st" and "puts (gemini_name choice i) choice st st'"
  shows "tables K st'"
proof -
  note eff = puts_effect [OF assms(2)]
  then have "mappings_of st' c = mappings_of st c" for c by (simp add: mappings_of_def)
  with assms(1) eff show ?thesis unfolding tables_def by fastforce
qed

lemma gemini_update:
  assumes "tables K st" and "stream_update env (gemini_name choice i) choice idx u st = (Inr (), s)"
  shows "tables (K - {gemini_name choice i}) s \<and> ts_target s = ts_target st"
proof -
  let ?key = "gemini_name choice i"
  let ?d = "\<lparr>td_part = ?key, td_choice = choice, td_index = idx, td_update = u\<rparr>"
  from assms(2) obtain s0 s1 r where s0: "ensure_part env ?d st = (Inr (), s0)" "apply_update env ?key u s0 = (Inr (), s1)"
      and s: "s = s1\<lparr>ts_progress := r\<rparr>" by (rule update_inner)
  have "puts ?key choice st (snd (seq_step (ts_reserve fp) (\<lambda>_ s. (Inr (), put_part ?key p s)) (st\<lparr>ts_minted := n\<rparr>)))" if "pt_choice p = choice" for fp p n
    by (rule puts.trans [OF puts.mint], rule puts_seq [OF puts_accounts(2)], simp, rule puts.put [OF that])
  then have made: "puts ?key choice st (snd (ensure_part env ?d st))" by (simp add: ensure_part_def Let_def)
  with s0(1) have t0: "tables K s0" using tables_puts [OF assms(1)] by simp
  from ensure_effect [OF s0(1)] obtain p where p: "map_of (ts_parts s0) ?key = Some p" by auto
  then have "(?key, p) \<in> set (ts_parts s0)" by (rule map_of_SomeD)
  with t0 have "pt_choice p = choice" unfolding tables_def by (auto dest: gemini_name_choice)
  with update_puts [OF p, of env u] s0(2) have later: "puts ?key choice s0 s1" by simp
  have "?key \<in> keys s0" using p by (force simp: keys_def dest: map_of_SomeD)
  with puts_effect [OF later] have "?key \<in> keys s1" by blast
  then have "K \<subseteq> keys s1 \<union> (K - {?key})" by blast
  then have "tables (K - {?key}) s1" by (rule tables_weaken [OF tables_puts [OF t0 later]])
  moreover have "ts_target s1 = ts_target st" using puts_effect [OF made] puts_effect [OF later] s0(1) by simp
  ultimately show ?thesis using tables_unchanged [of s s1] s by simp
qed

lemma mapping_effect:
  assumes "store_mapping env choice cid key st = (Inr (), s)"
  obtains stored v s1 where "rs_text v = key" "settled st s1" "s = put_mapping choice cid (stored, v) s1"
proof -
  have owned: "fallible_string env t = Inr v \<Longrightarrow> rs_text v = t" for t v
    by (auto simp: fallible_string_def push_str_def reserve_exact_def empty_string_def exact_def split: option.splits if_splits)
  have kept: "own_mapping env choice cid key existing c fp fp' s0 = (Inr (), s) \<Longrightarrow>
      \<exists>stored v a b s1. rs_text v = key \<and> ts_replace a b s0 = (Inr (), s1) \<and> s = put_mapping choice cid (stored, v) s1" for existing c fp fp' s0
    by (auto simp: own_mapping_def give_up_mapping_def keep_mapping_def seq_step_Inr split: sum.splits option.splits) (metis owned)+
  obtain existing c fp fp' s0 s2 a b where "settled st s2" "ts_replace a b s2 = (Inr (), s0)" "own_mapping env choice cid key existing c fp fp' s0 = (Inr (), s)"
  proof -
    let ?c = "has_choice st choice" and ?e = "map_of (mappings_of st choice) cid"
    let ?fp = "rf_record (saturating_add_usize (length cid) (length key))" and ?fp' = "existing_footprint ?e"
    from assms obtain s2 where s2: "(if ?c then pure_step () else ts_reserve (rf_record 0)) st = (Inr (), s2)"
        "(case ts_replace ?fp' ?fp s2 of (Inl e, st) \<Rightarrow> (Inl e, undo_slot ?c st) | (Inr _, st) \<Rightarrow> own_mapping env choice cid key ?e ?c ?fp ?fp' st) = (Inr (), s)"
      by (auto simp: store_mapping_def Let_def seq_step_Inr)
    from s2(1) have "settled st s2" by (cases ?c) (auto simp: pure_step_def intro: reserve_settled)
    moreover from s2(2) obtain s0 where "ts_replace ?fp' ?fp s2 = (Inr (), s0)" "own_mapping env choice cid key ?e ?c ?fp ?fp' s0 = (Inr (), s)"
      by (auto split: prod.splits sum.splits)
    ultimately show ?thesis using that by blast
  qed
  note made = this
  from kept [OF made(3)] obtain stored v a' b' s1 where "rs_text v = key" "ts_replace a' b' s0 = (Inr (), s1)" "s = put_mapping choice cid (stored, v) s1"
    by blast
  with that settled_trans [OF made(1) settled_trans [OF replace_settled [OF made(2)] replace_settled]] show ?thesis by blast
qed

lemma gemini_mapping:
  assumes "tables K st" and "store_mapping env choice cid (gemini_name choice i) st = (Inr (), s)"
  shows "tables (insert (gemini_name choice i) K) s \<and> ts_target s = ts_target st"
proof -
  from assms(2) obtain stored v s1 where v: "rs_text v = gemini_name choice i" "settled st s1" "s = put_mapping choice cid (stored, v) s1"
    by (rule mapping_effect)
  have "tables K s1" using tables_settled [OF v(2)] assms(1) by simp
  moreover have "mappings_of s c = (if c = choice then btree_insert cid (stored, v) (mappings_of s1 choice) else mappings_of s1 c)" for c
    by (simp add: v(3) put_mapping_def mappings_of_def)
  moreover have "ts_parts s = ts_parts s1" "ts_gemini_last s = ts_gemini_last s1" "keys s = keys s1" "ts_target s = ts_target st"
    using settled_fields [OF v(2)] by (simp_all add: v(3) put_mapping_def keys_def)
  ultimately show ?thesis using v(1) unfolding tables_def by (auto split: if_splits)
qed

lemma gemini_last:
  assumes "tables K st" and "remember_last choice (gemini_name choice i) position st = (Inr (), s)"
  shows "tables K s \<and> ts_target s = ts_target st"
proof -
  from assms(2) obtain s1 f where s1: "settled st s1" "s = s1\<lparr>ts_gemini_last := btree_insert choice (gemini_name choice i, f, position) (ts_gemini_last s1)\<rparr>"
    by (auto simp: remember_last_def Let_def seq_step_Inr intro: replace_settled)
  have "tables K s1" using tables_settled [OF s1(1)] assms(1) by simp
  then show ?thesis using settled_fields [OF s1(1)] unfolding tables_def s1(2) by (auto simp: mappings_of_def keys_def)
qed

lemma gemini_next:
  assumes "tables K st" and "next_gemini choice st = (Inr n, s)"
  shows "tables K s \<and> ts_target s = ts_target st"
proof -
  from assms(2) obtain s1 m where step: "(if map_of (ts_gemini_next st) choice = None then ts_reserve (rf_record 0) else pure_step ()) st = (Inr (), s1)"
      and s: "s = s1\<lparr>ts_gemini_next := m\<rparr>"
    by (auto simp: next_gemini_def Let_def seq_step_Inr)
  from step have "settled st s1"
    by (cases "map_of (ts_gemini_next st) choice = None") (auto simp: pure_step_def intro: reserve_settled)
  note s1 = this s
  then show ?thesis using assms(1) tables_settled [OF s1(1)] settled_fields [OF s1(1)] tables_unchanged [of s s1] by simp
qed

lemma gemini_slot_safe:
  assumes "tables {} st"
  shows "\<exists>r s. gemini_slot choice position tc st = Some (r, s) \<and>
    (\<forall>key idx. r = Inr (key, idx) \<longrightarrow> tables {} s \<and> ts_target s = ts_target st \<and> (\<exists>i. key = gemini_name choice i))"
proof (cases "gemini_key choice position tc st")
  case None
  let ?m = "seq_step (next_gemini choice) (\<lambda>idx. pure_step (''gemini:'' @ decimal choice @ '':'' @ decimal idx, idx))"
  obtain r s where r: "?m st = (r, s)" by fastforce
  have "tables {} s \<and> ts_target s = ts_target st \<and> (\<exists>i. key = gemini_name choice i)" if "r = Inr (key, idx)" for key idx
  proof -
    from r that obtain n where "next_gemini choice st = (Inr n, s)" "key = gemini_name choice n"
      by (auto simp: seq_step_Inr pure_step_def gemini_name_def)
    with gemini_next [OF assms] show ?thesis by blast
  qed
  with None r show ?thesis by (auto simp: gemini_slot_def run_step_def)
next
  case (Some key)
  have "(\<exists>i. key = gemini_name choice i) \<and> key \<in> keys st"
  proof (cases "Option.bind (str_at tc ''id'') (gemini_id_mapping st choice)")
    case None
    with Some obtain r p where "map_of (ts_gemini_last st) choice = Some (key, r)" "map_of (ts_parts st) key = Some p"
      by (auto simp: gemini_key_def Let_def bind_eq_Some_conv split: if_splits)
    moreover from this(2) have "key \<in> keys st" by (force simp: keys_def dest: map_of_SomeD)
    ultimately show ?thesis using assms unfolding tables_def by blast
  next
    case (Some k)
    with \<open>gemini_key choice position tc st = Some key\<close> obtain cid stored v where "map_of (mappings_of st choice) cid = Some (stored, v)" "key = rs_text v"
      by (auto simp: gemini_key_def gemini_id_mapping_def bind_eq_Some_conv)
    with assms show ?thesis unfolding tables_def by blast
  qed
  moreover from this have "map_of (ts_parts st) key \<noteq> None" by (simp add: keys_def map_of_eq_None_iff)
  ultimately show ?thesis using Some assms by (auto simp: gemini_slot_def)
qed

lemma gemini_arguments_safe:
  assumes "tables K st" and "gemini_arguments env choice tc (gemini_name choice i) idx st = (Inr (), s)"
  shows "tables (K - {gemini_name choice i}) s \<and> ts_target s = ts_target st \<or> s = st"
  using assms gemini_update [OF assms(1), of env choice i idx] by (auto simp: gemini_arguments_def Let_def split: if_splits)

lemma when_some_Inr: "when_some x f st = (Inr (), s) \<Longrightarrow> (x = None \<and> s = st) \<or> (\<exists>y. x = Some y \<and> f y st = (Inr (), s))"
  by (cases x) (auto simp: when_some_def pure_step_def)

lemma gemini_updates_safe:
  assumes "tables {} st" and "gemini_updates env choice position native tc (gemini_name choice i, idx) st = (Inr (), s)"
  shows "tables {} s \<and> ts_target s = ts_target st"
proof -
  let ?key = "gemini_name choice i"
  from assms(2) obtain s1 s2 s3 s4 s5 where
    1: "when_some (str_at tc ''id'') (\<lambda>t. store_mapping env choice t ?key) st = (Inr (), s1)" and
    2: "remember_last choice ?key position s1 = (Inr (), s2)" and
    3: "when_some (str_at tc ''id'') (\<lambda>t. stream_update env ?key choice idx (UWireId (exact t))) s2 = (Inr (), s3)" and
    4: "when_some (nonempty_str (str_at tc ''name'')) (\<lambda>t. stream_update env ?key choice idx (UName (exact t))) s3 = (Inr (), s4)" and
    5: "gemini_arguments env choice tc ?key idx s4 = (Inr (), s5)" and
    6: "when_some (str_at native ''thoughtSignature'') (\<lambda>t. stream_update env ?key choice idx (USignature t)) s5 = (Inr (), s)"
    by (auto simp: gemini_updates_def seq_step_Inr)
  have "tables (if str_at tc ''id'' = None then {} else {?key}) s1 \<and> ts_target s1 = ts_target st"
    using when_some_Inr [OF 1] assms(1) gemini_mapping [OF assms(1)] by auto
  then have "tables (if str_at tc ''id'' = None then {} else {?key}) s2 \<and> ts_target s2 = ts_target st"
    using gemini_last [OF _ 2] by auto
  then have t3: "tables {} s3 \<and> ts_target s3 = ts_target st"
    using when_some_Inr [OF 3] gemini_update [of "{?key}" s2 env choice i] by auto
  then have t4: "tables {} s4 \<and> ts_target s4 = ts_target st"
    using when_some_Inr [OF 4] gemini_update [of "{}" s3 env choice i] by auto
  then have t5: "tables {} s5 \<and> ts_target s5 = ts_target st"
    using gemini_arguments_safe [where K = "{}", OF _ 5] by auto
  then show ?thesis using when_some_Inr [OF 6] gemini_update [of "{}" s5 env choice i] by auto
qed

section \<open>No panic\<close>

text \<open>The target of a stream never changes.\<close>

definition aimed :: "replay_target \<Rightarrow> tool_stream \<Rightarrow> bool" where "aimed target st \<longleftrightarrow> ts_target st = target"

lemma aimed_step:
  assumes "\<And>st. ts_target (snd (m st)) = ts_target st"
  shows "step_ok (aimed target) m (aimed target) (aimed target)"
  unfolding step_ok_def
proof (intro allI impI)
  fix st assume "aimed target st"
  with assms [of st] have "aimed target (snd (m st))" by (simp add: aimed_def)
  then show "case m st of (Inr _, st') \<Rightarrow> aimed target st' | (Inl _, st') \<Rightarrow> aimed target st'"
    by (cases "m st"; cases "fst (m st)") simp_all
qed

lemma clear_target [simp]: "ts_target (clear_stream st) = ts_target st"
  by (simp add: clear_stream_def abandon_open_def)

lemma update_target: "ts_target (snd (stream_update env key choice idx u st)) = ts_target st"
proof -
  let ?d = "\<lparr>td_part = key, td_choice = choice, td_index = idx, td_update = u\<rparr>"
  obtain r s where r: "apply_inner env ?d st = (r, s)" by fastforce
  from inner_touches [of ?d st env] r have "ts_target s = ts_target st" by (simp add: touches_def)
  with r show ?thesis by (cases r) (simp_all add: stream_update_def apply_delta_def Let_def)
qed

lemma drop_parts_target: "ts_target (drop_parts env choice s) = ts_target s"
proof -
  have "ts_target (fold (\<lambda>(key, p) st. ts_release (part_footprint env (ts_target st) key p) (st\<lparr>ts_parts := without_key key (ts_parts st)\<rparr>)) xs s) = ts_target s" for xs
    by (induction xs arbitrary: s) (auto simp: ts_release_def)
  then show ?thesis by (simp add: drop_parts_def)
qed

lemma complete_target: "ts_target (snd (complete_choice env choice b st)) = ts_target st"
proof (cases rule: complete_cases [of choice st env b])
  case (finished calls b' s)
  then show ?thesis using drops_unseen by (simp add: unseen_def drop_parts_target) (simp add: report_completed_def settled_fields)
qed (simp_all add: settled_fields)

lemma unseen_target: "unseen st s \<Longrightarrow> ts_target s = ts_target st"
  by (simp add: unseen_def)

interpretation target: stream_step_laws env "aimed target" "aimed target"
proof
  show "aimed target (st\<lparr>ts_frame := n\<rparr>)" if "aimed target st" for st n using that by (simp add: aimed_def)
  show "aimed target (clear_stream st)" if "aimed target st" for st using that by (simp add: aimed_def)
qed (auto intro!: aimed_step update_target complete_target unseen_target mapping_unseen last_unseen next_unseen)

text \<open>The tables of a Gemini stream are in order between events.\<close>

definition filed :: "tool_stream \<Rightarrow> bool" where
  "filed st \<longleftrightarrow> (rt_wire (ts_target st) = GoogleGenerateContent \<longrightarrow> tables {} st)"

lemma tables_empty: "ts_parts st = [] \<Longrightarrow> ts_gemini_last st = [] \<Longrightarrow> ts_gemini_by_id st = [] \<Longrightarrow> tables K st"
  by (simp add: tables_def mappings_of_def)

lemma gemini_part_filed:
  assumes "tables {} st"
  shows "\<exists>r s. parse_gemini_part env choice position native st = Some (r, s) \<and> (\<forall>u. r = Inr u \<longrightarrow> tables {} s \<and> ts_target s = ts_target st)"
proof (cases "get native ''functionCall''")
  case (Some tc)
  obtain r s where slot: "gemini_slot choice position tc st = Some (r, s)"
      "\<And>key idx. r = Inr (key, idx) \<Longrightarrow> tables {} s \<and> ts_target s = ts_target st \<and> (\<exists>i. key = gemini_name choice i)"
    using gemini_slot_safe [OF assms, of choice position tc] by blast
  show ?thesis
  proof (cases r)
    case (Inr x)
    obtain key idx where x: "x = (key, idx)" by (cases x)
    with slot(2) Inr obtain i where s: "tables {} s" "ts_target s = ts_target st" "key = gemini_name choice i" by auto
    obtain q s' where q: "gemini_updates env choice position native tc (key, idx) s = (q, s')" by fastforce
    with gemini_updates_safe [OF s(1), of env choice position native tc i idx s'] s Inr x slot(1) Some show ?thesis
      by (auto simp: parse_gemini_part_def seq_run_def run_step_def)
  qed (use Some slot(1) in \<open>simp add: parse_gemini_part_def seq_run_def\<close>)
qed (use assms in \<open>simp add: parse_gemini_part_def run_step_def pure_step_def\<close>)

lemma each_run_filed:
  assumes "\<And>x st. tables {} st \<Longrightarrow> \<exists>r s. f x st = Some (r, s) \<and> (\<forall>u. r = Inr u \<longrightarrow> tables {} s \<and> ts_target s = ts_target st)"
  shows "tables {} st \<Longrightarrow> \<exists>r s. each_run f xs st = Some (r, s) \<and> (\<forall>u. r = Inr u \<longrightarrow> tables {} s \<and> ts_target s = ts_target st)"
proof (induction xs arbitrary: st)
  case (Cons x xs)
  obtain r s where s: "f x st = Some (r, s)" "\<And>u. r = Inr u \<Longrightarrow> tables {} s \<and> ts_target s = ts_target st"
    using assms [OF Cons.prems, of x] by blast
  show ?case
  proof (cases r)
    case (Inr u)
    with s(2) Cons.IH [of s] s(1) show ?thesis by (auto simp: seq_run_def)
  qed (use s(1) in \<open>simp add: seq_run_def\<close>)
qed (simp add: run_step_def pure_step_def)

lemma gemini_filed:
  assumes "tables {} st"
  shows "\<exists>r s. parse_gemini env event st = Some (r, s) \<and> (\<forall>u. r = Inr u \<longrightarrow> tables {} s \<and> ts_target s = ts_target st)"
  unfolding parse_gemini_def case_prod_unfold by (intro each_run_filed gemini_part_filed assms)

lemma parse_filed: "run_ok filed (parse_event env event) filed (\<lambda>_. True)"
proof (unfold run_ok_def, intro allI impI)
  fix st assume st: "filed st"
  let ?st = "st\<lparr>ts_frame := wrapping_succ_u64 (ts_frame st)\<rparr>"
  show "case parse_event env event st of None \<Rightarrow> True | Some (Inr _, st') \<Rightarrow> filed st' | Some (Inl _, st') \<Rightarrow> True"
  proof (cases "rt_wire (ts_target st) = GoogleGenerateContent")
    case True
    with st have "tables {} ?st" using tables_unchanged [of ?st st] by (simp add: filed_def)
    with gemini_filed [of ?st env event] True show ?thesis
      by (auto simp: parse_event_def Let_def filed_def split: sum.splits)
  next
    case False
    have "case parse_event env event st of None \<Rightarrow> True | Some (Inr _, st') \<Rightarrow> aimed (ts_target st) st' | Some (Inl _, st') \<Rightarrow> aimed (ts_target st) st'"
      using target.parse_ok [of "ts_target st" env event] by (simp add: run_ok_def aimed_def)
    with False show ?thesis by (auto simp: filed_def aimed_def split: option.splits sum.splits prod.splits)
  qed
qed

lemma dropped_tables:
  fixes s choice env
  defines "s' \<equiv> drop_next choice (drop_mappings choice (drop_last choice (drop_parts env choice s)))"
  shows "map_of (ts_gemini_last s') = (map_of (ts_gemini_last s))(choice := None)"
    and "mappings_of s' c = (if c = choice then [] else mappings_of s c)"
    and "ts_parts s' = filter (\<lambda>e. fst e \<notin> fst ` set (own_parts choice s)) (ts_parts s)"
proof -
  have rel: "ts_gemini_last (ts_release fp st) = ts_gemini_last st" "ts_gemini_by_id (ts_release fp st) = ts_gemini_by_id st" for fp st
    by (simp_all add: ts_release_def)
  have mid: "ts_gemini_last (fold (\<lambda>(_, e). ts_release (mapping_footprint e)) ms st) = ts_gemini_last st"
      "ts_gemini_by_id (fold (\<lambda>(_, e). ts_release (mapping_footprint e)) ms st) = ts_gemini_by_id st"
    for ms :: "(string \<times> rust_string \<times> rust_string) list" and st by (induction ms arbitrary: st) (auto simp: rel)
  have parts: "ts_gemini_last (drop_parts env choice st) = ts_gemini_last st" "ts_gemini_by_id (drop_parts env choice st) = ts_gemini_by_id st" for st
  proof -
    have "ts_gemini_last (fold (\<lambda>(key, p) st. ts_release (part_footprint env (ts_target st) key p) (st\<lparr>ts_parts := without_key key (ts_parts st)\<rparr>)) xs st) = ts_gemini_last st \<and>
        ts_gemini_by_id (fold (\<lambda>(key, p) st. ts_release (part_footprint env (ts_target st) key p) (st\<lparr>ts_parts := without_key key (ts_parts st)\<rparr>)) xs st) = ts_gemini_by_id st" for xs
      by (induction xs arbitrary: st) (auto simp: rel)
    then show "ts_gemini_last (drop_parts env choice st) = ts_gemini_last st" "ts_gemini_by_id (drop_parts env choice st) = ts_gemini_by_id st"
      by (simp_all add: drop_parts_def)
  qed
  have last: "map_of (ts_gemini_last (drop_last choice st)) = (map_of (ts_gemini_last st))(choice := None)" for st
    by (auto simp: drop_last_def rel fun_eq_iff map_of_without_key split: option.splits)
  show "map_of (ts_gemini_last s') = (map_of (ts_gemini_last s))(choice := None)"
    by (simp add: s'_def drop_next_def drop_mappings_def rel mid last parts split: option.splits)
  show "mappings_of s' c = (if c = choice then [] else mappings_of s c)"
    by (auto simp: s'_def drop_next_def drop_mappings_def drop_last_def mappings_of_def rel mid parts map_of_without_key split: option.splits)
  show "ts_parts s' = filter (\<lambda>e. fst e \<notin> fst ` set (own_parts choice s)) (ts_parts s)"
    using drops_unseen by (simp add: s'_def unseen_def drop_parts_effect)
qed

lemma tables_dropped:
  assumes "tables {} s"
  shows "tables {} (drop_next choice (drop_mappings choice (drop_last choice (drop_parts env choice s))))" (is "tables {} ?s")
proof -
  have "rs_text v \<in> keys ?s" if "map_of (mappings_of s c) cid = Some (stored, v)" "c \<noteq> choice" for c cid stored v
  proof -
    have "(\<exists>i. rs_text v = gemini_name c i) \<and> rs_text v \<in> keys s" using assms that(1) unfolding tables_def by blast
    then obtain i p where v: "rs_text v = gemini_name c i" "(rs_text v, p) \<in> set (ts_parts s)" by (auto simp: keys_def)
    have "rs_text v \<notin> fst ` set (own_parts choice s)"
    proof
      assume "rs_text v \<in> fst ` set (own_parts choice s)"
      then obtain q where "(rs_text v, q) \<in> set (ts_parts s)" "pt_choice q = choice" by (auto simp: own_parts_def)
      moreover from this(1) obtain j where "rs_text v = gemini_name (pt_choice q) j" using assms unfolding tables_def by blast
      ultimately show False using v(1) that(2) gemini_name_choice by metis
    qed
    with v(2) show ?thesis by (force simp: keys_def dropped_tables(3))
  qed
  with assms show ?thesis unfolding tables_def dropped_tables by (auto split: if_splits)
qed

lemma complete_filed: "step_ok filed (complete_choice env choice b) filed (\<lambda>_. True)"
proof (unfold step_ok_def, intro allI impI)
  fix st assume st: "filed st"
  show "case complete_choice env choice b st of (Inr _, st') \<Rightarrow> filed st' | (Inl _, st') \<Rightarrow> True"
  proof (cases rule: complete_cases [of choice st env b])
    case (finished calls b' s)
    let ?s = "report_completed choice (s\<lparr>ts_emitted := insort_insert choice (ts_emitted s)\<rparr>)"
    have "tables {} ?s = tables {} st"
      using tables_unchanged [of ?s st] settled_fields [OF finished(3)] by (simp add: report_completed_def)
    with st tables_dropped [of ?s choice env] complete_target [of env choice b st] finished(4) show ?thesis by (simp add: filed_def)
  qed (use st in simp_all)
qed

interpretation filing: event_laws env filed "\<lambda>_. True"
proof
  show "filed (clear_stream st)" for st by (simp add: filed_def tables_empty clear_stream_def)
qed (auto intro: complete_filed parse_filed)

text \<open>Reading an event never panics, whatever came before: a Gemini call whose identifier is known, or that continues the last call, always
  finds the part it is indexed under.\<close>

lemma events_never_panic:
  assumes "pushes env events (new_tool_stream env target b) = Some st"
  shows "parse_event env event st \<noteq> None"
proof -
  have "filed (new_tool_stream env target b)" by (simp add: filed_def tables_empty new_tool_stream_def)
  moreover have "event_laws env filed (\<lambda>_. True)" by unfold_locales
  ultimately have st: "filed st" using pushes_keep assms by blast
  let ?st = "st\<lparr>ts_frame := wrapping_succ_u64 (ts_frame st)\<rparr>"
  from st have "rt_wire (ts_target st) = GoogleGenerateContent \<Longrightarrow> tables {} ?st"
    using tables_unchanged [of ?st st] by (simp add: filed_def)
  with gemini_filed [of ?st env event] show ?thesis
    by (cases "rt_wire (ts_target st)") (auto simp: parse_event_def Let_def run_step_def)
qed

end
