(* ===== verification/Lifecycle.thy ===== *)
theory Lifecycle
  imports F64
begin

text \<open>
  The jobs of the distributed gateway (\<open>src/gateway/distributed.rs\<close>, \<open>src/gateway/distributed/lifecycle.rs\<close>): submission,
  queues, leases, results and their retention in a Redis that several instances share. Every Lua script runs atomically and is
  one function on the store, with the answer of \<open>TIME\<close> (in milliseconds) as an argument. Keys are constructors and functions
  instead of strings: a queue, a set of leases or a dead-letter set belongs to a lane (protocol and provider), a member
  \<open>id:generation\<close> is the pair, and metadata, payload and result belong to the id and carry the moment they expire. Numbers
  are naturals: times, charges and counters stay below \<open>2 ^ 53\<close>, where Lua's doubles are exact. A failing connection is a
  script that does not run, or whose answer is lost. What is published on a channel is kept as a log.
\<close>

section \<open>The store\<close>

datatype queue_protocol = LegacyUnscoped | ScopedV1

type_synonym lane = "queue_protocol \<times> string"
type_synonym member = "string \<times> nat"

datatype job_state = PendingOrigin | Waiting | Processing | Terminal | Dlq

record job_meta =
  jm_generation :: "nat option"
  jm_nonce :: "string option"
  jm_state :: "job_state option"
  jm_stream :: bool
  jm_priority :: "rat option"
  jm_base_charge :: "nat option"
  jm_cancel_requested :: bool
  jm_origin_token :: "string option"
  jm_origin_expires :: "nat option"
  jm_origin_max :: "nat option"
  jm_owner :: "string option"
  jm_terminal_charge :: "nat option"

definition no_meta :: job_meta where
  "no_meta = \<lparr>jm_generation = None, jm_nonce = None, jm_state = None, jm_stream = False, jm_priority = None, jm_base_charge = None,
     jm_cancel_requested = False, jm_origin_token = None, jm_origin_expires = None, jm_origin_max = None, jm_owner = None,
     jm_terminal_charge = None\<rparr>"

text \<open>The sets of earlier releases, which this one only counts.\<close>

datatype era = Released | L1 | Prior
datatype old_kind = OldQueue | OldProcessing
type_synonym old_set = "era \<times> queue_protocol \<times> old_kind \<times> string"

datatype publication = StreamFrame | FinalFrame

type_synonym 's zset = "('s \<times> member) list"

record lifecycle =
  lc_generation :: nat
  lc_jobs :: int
  lc_base_bytes :: int
  lc_terminal_bytes :: int
  lc_dlq_bytes :: int
  lc_dlq_overflow :: int
  lc_reservations :: "member \<rightharpoonup> nat"
  lc_terminal_res :: "member \<rightharpoonup> nat"
  lc_dlq_res :: "member \<rightharpoonup> nat"
  lc_states :: "member \<rightharpoonup> job_state"
  lc_scopes :: "member \<rightharpoonup> queue_protocol"
  lc_providers :: "member \<rightharpoonup> string"
  lc_expiry :: "nat zset"
  lc_origin_expiry :: "nat zset"
  lc_queue :: "lane \<Rightarrow> rat zset"
  lc_processing :: "lane \<Rightarrow> nat zset"
  lc_leased :: "lane \<Rightarrow> member \<rightharpoonup> rat"
  lc_owners :: "lane \<Rightarrow> member \<rightharpoonup> string"
  lc_dlq :: "lane \<Rightarrow> nat zset"
  lc_meta :: "string \<rightharpoonup> job_meta \<times> nat option"
  lc_payload :: "string \<rightharpoonup> string \<times> nat option"
  lc_terminal :: "string \<rightharpoonup> string \<times> nat option"
  lc_done :: "queue_protocol \<times> string \<rightharpoonup> unit \<times> nat option"
  lc_attempts :: "queue_protocol \<times> string \<rightharpoonup> nat \<times> nat option"
  lc_old :: "old_set \<Rightarrow> nat"
  lc_published :: "(queue_protocol \<times> member \<times> publication \<times> string) list"

text \<open>The text of a member is split again at its last colon.\<close>

definition member_text :: "member \<Rightarrow> string" where
  "member_text m = fst m @ '':'' @ decimal (snd m)"

definition rsplit_once :: "char \<Rightarrow> string \<Rightarrow> (string \<times> string) option" where
  "rsplit_once c s = map_option (\<lambda>(a, b). (rev b, rev a)) (split_once c (rev s))"

text \<open>Sorted sets: by score, and by the text of the member for equal scores.\<close>

definition zrem :: "member \<Rightarrow> 's zset \<Rightarrow> 's zset" where
  "zrem m z = filter (\<lambda>e. snd e \<noteq> m) z"

fun zinsert :: "'s :: linorder \<Rightarrow> member \<Rightarrow> 's zset \<Rightarrow> 's zset" where
  "zinsert s m [] = [(s, m)]"
| "zinsert s m ((t, k) # z) =
     (if s < t \<or> s = t \<and> member_text m < member_text k then (s, m) # (t, k) # z else (t, k) # zinsert s m z)"

definition zadd :: "'s :: linorder \<Rightarrow> member \<Rightarrow> 's zset \<Rightarrow> 's zset" where
  "zadd s m z = zinsert s m (zrem m z)"

definition zmembers :: "'s zset \<Rightarrow> member set" where
  "zmembers z = snd ` set z"

definition zscore :: "member \<Rightarrow> 's zset \<Rightarrow> 's option" where
  "zscore m z = map_option fst (find (\<lambda>e. snd e = m) z)"

definition zrange_by_score :: "nat \<Rightarrow> nat \<Rightarrow> nat zset \<Rightarrow> member list" where
  "zrange_by_score now limit z = map snd (take limit (filter (\<lambda>e. fst e \<le> now) z))"

text \<open>\<open>ZADD GT\<close> and \<open>ZADD XX\<close>.\<close>

definition zadd_gt :: "nat \<Rightarrow> member \<Rightarrow> nat zset \<Rightarrow> nat zset" where
  "zadd_gt s m z = (case zscore m z of Some t \<Rightarrow> if t < s then zadd s m z else z | None \<Rightarrow> zadd s m z)"

definition zadd_xx :: "nat \<Rightarrow> member \<Rightarrow> nat zset \<Rightarrow> nat zset" where
  "zadd_xx s m z = (case zscore m z of Some _ \<Rightarrow> zadd s m z | None \<Rightarrow> z)"

text \<open>Keys with an expiry: \<open>PEXPIRE\<close> does nothing to a key that is not there.\<close>

definition unexpired :: "nat \<Rightarrow> nat option \<Rightarrow> bool" where
  "unexpired now e = (case e of None \<Rightarrow> True | Some t \<Rightarrow> now \<le> t)"

definition lookup_live :: "nat \<Rightarrow> 'k \<Rightarrow> ('k \<rightharpoonup> 'v \<times> nat option) \<Rightarrow> 'v option" where
  "lookup_live now k m = (case m k of Some (v, e) \<Rightarrow> if unexpired now e then Some v else None | None \<Rightarrow> None)"

definition pexpire :: "nat \<Rightarrow> nat \<Rightarrow> 'k \<Rightarrow> ('k \<rightharpoonup> 'v \<times> nat option) \<Rightarrow> ('k \<rightharpoonup> 'v \<times> nat option)" where
  "pexpire now ttl k m = (case lookup_live now k m of Some v \<Rightarrow> m(k \<mapsto> (v, Some (now + ttl))) | None \<Rightarrow> m)"

text \<open>The metadata of a job: \<open>HSET\<close> keeps the expiry of the hash and creates a missing one without.\<close>

definition meta_of :: "nat \<Rightarrow> string \<Rightarrow> lifecycle \<Rightarrow> job_meta option" where
  "meta_of now jid st = lookup_live now jid (lc_meta st)"

definition set_meta :: "nat \<Rightarrow> string \<Rightarrow> (job_meta \<Rightarrow> job_meta) \<Rightarrow> lifecycle \<Rightarrow> lifecycle" where
  "set_meta now jid f st =
     st\<lparr>lc_meta := (lc_meta st)(jid \<mapsto>
       (case lc_meta st jid of
          Some (mt, e) \<Rightarrow> if unexpired now e then (f mt, e) else (f no_meta, None)
        | None \<Rightarrow> (f no_meta, None)))\<rparr>"

definition has_generation :: "nat \<Rightarrow> string \<Rightarrow> nat \<Rightarrow> lifecycle \<Rightarrow> bool" where
  "has_generation now jid g st \<longleftrightarrow> Option.bind (meta_of now jid st) jm_generation = Some g"

definition meta_state :: "nat \<Rightarrow> string \<Rightarrow> lifecycle \<Rightarrow> job_state option" where
  "meta_state now jid st = Option.bind (meta_of now jid st) jm_state"

definition meta_number :: "nat \<Rightarrow> string \<Rightarrow> (job_meta \<Rightarrow> nat option) \<Rightarrow> lifecycle \<Rightarrow> nat" where
  "meta_number now jid f st = (case Option.bind (meta_of now jid st) f of Some n \<Rightarrow> n | None \<Rightarrow> 0)"

definition cancel_requested :: "nat \<Rightarrow> string \<Rightarrow> lifecycle \<Rightarrow> bool" where
  "cancel_requested now jid st \<longleftrightarrow> (case meta_of now jid st of Some mt \<Rightarrow> jm_cancel_requested mt | None \<Rightarrow> False)"

definition request_cancel :: "nat \<Rightarrow> string \<Rightarrow> lifecycle \<Rightarrow> lifecycle" where
  "request_cancel now jid = set_meta now jid (\<lambda>mt. mt\<lparr>jm_cancel_requested := True\<rparr>)"

definition origin_expired :: "nat \<Rightarrow> string \<Rightarrow> lifecycle \<Rightarrow> bool" where
  "origin_expired now jid st \<longleftrightarrow> meta_number now jid jm_origin_expires st \<le> now \<or> meta_number now jid jm_origin_max st \<le> now"

text \<open>The check every script of a worker makes: a job whose origin is gone is cancelled.\<close>

definition note_origin :: "nat \<Rightarrow> string \<Rightarrow> lifecycle \<Rightarrow> lifecycle" where
  "note_origin now jid st = (if origin_expired now jid st then request_cancel now jid st else st)"

definition retain_job :: "nat \<Rightarrow> nat \<Rightarrow> string \<Rightarrow> lifecycle \<Rightarrow> lifecycle" where
  "retain_job now ttl jid st = st\<lparr>lc_meta := pexpire now ttl jid (lc_meta st), lc_payload := pexpire now ttl jid (lc_payload st)\<rparr>"

text \<open>A channel belongs to a protocol and an id.\<close>

definition publish :: "queue_protocol \<Rightarrow> member \<Rightarrow> publication \<Rightarrow> string \<Rightarrow> lifecycle \<Rightarrow> lifecycle" where
  "publish protocol m kind payload st = st\<lparr>lc_published := lc_published st @ [(protocol, m, kind, payload)]\<rparr>"

fun batch :: "(member \<Rightarrow> lifecycle \<Rightarrow> bool \<times> lifecycle) \<Rightarrow> member list \<Rightarrow> lifecycle \<Rightarrow> nat \<times> lifecycle" where
  "batch f [] st = (0, st)"
| "batch f (m # ms) st =
     (case f m st of (counted, st) \<Rightarrow> (case batch f ms st of (n, st) \<Rightarrow> (if counted then Suc n else n, st)))"

section \<open>The origin: reserve, activate, heartbeat, cancel\<close>

definition METADATA_BYTES :: nat where "METADATA_BYTES = 4 * 1024"
definition ACTIVATION_TTL_MS :: nat where "ACTIVATION_TTL_MS = 15000"
definition CLEANUP_GRACE_MS :: nat where "CLEANUP_GRACE_MS = 60 * 60 * 1000"
definition MIN_TERMINAL_BYTES :: nat where "MIN_TERMINAL_BYTES = 4 * 1024"

record lifecycle_limits =
  ll_max_jobs :: nat
  ll_max_base_bytes :: nat
  ll_max_terminal_bytes :: nat
  ll_unary_terminal_bytes :: nat
  ll_stream_terminal_bytes :: nat

definition default_lifecycle_limits :: lifecycle_limits where
  "default_lifecycle_limits =
     \<lparr>ll_max_jobs = 10000, ll_max_base_bytes = 512 * 1024 * 1024, ll_max_terminal_bytes = 512 * 1024 * 1024,
      ll_unary_terminal_bytes = 64 * 1024 * 1024, ll_stream_terminal_bytes = 128 * 1024\<rparr>"

text \<open>What the environment sets, \<open>None\<close> where it sets no positive number.\<close>

definition limits_from_env :: "(string \<Rightarrow> nat option) \<Rightarrow> lifecycle_limits" where
  "limits_from_env var =
     (let positive_env = (\<lambda>name fallback. case var name of Some n \<Rightarrow> if 0 < n then n else fallback | None \<Rightarrow> fallback);
          d = default_lifecycle_limits
      in \<lparr>ll_max_jobs = positive_env ''LLMSHIM_GATEWAY_RETAINED_JOBS'' (ll_max_jobs d),
          ll_max_base_bytes = positive_env ''LLMSHIM_GATEWAY_RETAINED_BASE_BYTES'' (ll_max_base_bytes d),
          ll_max_terminal_bytes = positive_env ''LLMSHIM_GATEWAY_RETAINED_TERMINAL_BYTES'' (ll_max_terminal_bytes d),
          ll_unary_terminal_bytes = max (positive_env ''LLMSHIM_GATEWAY_UNARY_TERMINAL_BYTES'' (ll_unary_terminal_bytes d)) MIN_TERMINAL_BYTES,
          ll_stream_terminal_bytes = max (positive_env ''LLMSHIM_GATEWAY_STREAM_TERMINAL_BYTES'' (ll_stream_terminal_bytes d)) MIN_TERMINAL_BYTES\<rparr>)"

text \<open>The virtual deadline of a job, smaller is sooner; the product is that of \<open>u64\<close>.\<close>

definition deadline_score :: "nat \<Rightarrow> nat \<Rightarrow> nat \<Rightarrow> f64" where
  "deadline_score tier enqueue_ms aging_step_ms =
     f64_sub (f64_of_nat enqueue_ms) (f64_of_nat (tier * aging_step_ms mod 2 ^ 64))"

record submission =
  sb_id :: string
  sb_nonce :: string
  sb_payload :: string
  sb_lane :: lane
  sb_stream :: bool
  sb_priority :: rat
  sb_origin_lease :: nat
  sb_origin_total :: nat
  sb_origin_token :: string

definition both_protocols :: "queue_protocol list" where "both_protocols = [LegacyUnscoped, ScopedV1]"

definition old_sets :: "old_kind list \<Rightarrow> string \<Rightarrow> old_set list" where
  "old_sets kinds provider =
     concat (map (\<lambda>e. concat (map (\<lambda>p. map (\<lambda>k. (e, p, k, provider)) kinds) both_protocols)) [Released, L1, Prior])"

definition reserve_script :: "lifecycle_limits \<Rightarrow> nat \<Rightarrow> submission \<Rightarrow> lifecycle \<Rightarrow> (int \<times> nat option) \<times> lifecycle" where
  "reserve_script lims now sb st =
     (case meta_of now (sb_id sb) st of
        Some mt \<Rightarrow> if jm_nonce mt = Some (sb_nonce sb) then ((1, jm_generation mt), st) else ((- 3, None), st)
      | None \<Rightarrow>
          if list_ex (\<lambda>k. 0 < lc_old st k) (old_sets [OldQueue, OldProcessing] (snd (sb_lane sb))) then ((- 4, None), st)
          else
            let charge = length (sb_payload sb) + METADATA_BYTES in
            if int (ll_max_jobs lims) \<le> lc_jobs st \<or> int (ll_max_base_bytes lims) < lc_base_bytes st + int charge then ((- 1, None), st)
            else
              let generation = Suc (lc_generation st);
                  m = (sb_id sb, generation);
                  origin_max = now + sb_origin_total sb;
                  origin_expiry = min (now + sb_origin_lease sb) origin_max;
                  hard = Some (now + (ACTIVATION_TTL_MS + CLEANUP_GRACE_MS));
                  mt = \<lparr>jm_generation = Some generation, jm_nonce = Some (sb_nonce sb), jm_state = Some PendingOrigin, jm_stream = sb_stream sb,
                        jm_priority = Some (sb_priority sb), jm_base_charge = Some charge, jm_cancel_requested = False,
                        jm_origin_token = Some (sb_origin_token sb), jm_origin_expires = Some origin_expiry, jm_origin_max = Some origin_max,
                        jm_owner = None, jm_terminal_charge = None\<rparr>
              in ((2, Some generation),
                  st\<lparr>lc_generation := generation, lc_jobs := lc_jobs st + 1, lc_base_bytes := lc_base_bytes st + int charge,
                     lc_reservations := (lc_reservations st)(m \<mapsto> charge), lc_terminal_res := (lc_terminal_res st)(m \<mapsto> 0),
                     lc_dlq_res := (lc_dlq_res st)(m \<mapsto> 0), lc_states := (lc_states st)(m \<mapsto> PendingOrigin),
                     lc_scopes := (lc_scopes st)(m \<mapsto> fst (sb_lane sb)), lc_providers := (lc_providers st)(m \<mapsto> snd (sb_lane sb)),
                     lc_expiry := zadd (now + ACTIVATION_TTL_MS) m (lc_expiry st), lc_origin_expiry := zadd origin_expiry m (lc_origin_expiry st),
                     lc_meta := (lc_meta st)(sb_id sb \<mapsto> (mt, hard)), lc_payload := (lc_payload st)(sb_id sb \<mapsto> (sb_payload sb, hard))\<rparr>))"

datatype reserve_failure = Capacity | Collision | Migration | RedisFailure

definition reserve_result :: "int \<times> nat option \<Rightarrow> (reserve_failure, nat) result" where
  "reserve_result r =
     (case r of
        (code, Some g) \<Rightarrow>
          if code = 1 \<or> code = 2 then Inr g
          else if code = - 1 then Inl Capacity else if code = - 3 then Inl Collision else if code = - 4 then Inl Migration else Inl RedisFailure
      | (code, None) \<Rightarrow>
          if code = - 1 then Inl Capacity else if code = - 3 then Inl Collision else if code = - 4 then Inl Migration else Inl RedisFailure)"

fun other_protocol :: "queue_protocol \<Rightarrow> queue_protocol" where
  "other_protocol LegacyUnscoped = ScopedV1"
| "other_protocol ScopedV1 = LegacyUnscoped"

definition waiting_jobs :: "lane \<Rightarrow> lifecycle \<Rightarrow> nat" where
  "waiting_jobs l st =
     length (lc_queue st l) + length (lc_queue st (other_protocol (fst l), snd l)) + sum_list (map (lc_old st) (old_sets [OldQueue] (snd l)))"

definition activate_script :: "nat \<Rightarrow> lane \<Rightarrow> member \<Rightarrow> rat \<Rightarrow> nat \<Rightarrow> nat \<Rightarrow> lifecycle \<Rightarrow> int \<times> lifecycle" where
  "activate_script now l m priority waiting_ttl maximum_waiting st =
     (let jid = fst m in
      if \<not> has_generation now jid (snd m) st \<or> meta_state now jid st \<noteq> Some PendingOrigin then (0, st)
      else if maximum_waiting \<le> waiting_jobs l st then (- 1, st)
      else
        (1, retain_job now (waiting_ttl + CLEANUP_GRACE_MS) jid (set_meta now jid (\<lambda>mt. mt\<lparr>jm_state := Some Waiting\<rparr>)
          (st\<lparr>lc_states := (lc_states st)(m \<mapsto> Waiting), lc_queue := (lc_queue st)(l := zadd priority m (lc_queue st l)),
             lc_expiry := zadd (now + waiting_ttl) m (lc_expiry st)\<rparr>))))"

text \<open>A job that is not yet with a worker ends at once.\<close>

definition end_unleased :: "nat \<Rightarrow> lane \<Rightarrow> member \<Rightarrow> nat \<Rightarrow> (job_meta \<Rightarrow> job_meta) \<Rightarrow> string \<Rightarrow> lifecycle \<Rightarrow> lifecycle" where
  "end_unleased now l m terminal_ttl note envelope st =
     (let jid = fst m; hard = terminal_ttl + CLEANUP_GRACE_MS in
      publish (fst l) m FinalFrame envelope (retain_job now hard jid
        (set_meta now jid (\<lambda>mt. note (mt\<lparr>jm_state := Some Terminal, jm_terminal_charge := Some 0\<rparr>))
          (st\<lparr>lc_queue := (lc_queue st)(l := zrem m (lc_queue st l)),
             lc_terminal := (lc_terminal st)(jid \<mapsto> (envelope, Some (now + hard))), lc_states := (lc_states st)(m \<mapsto> Terminal),
             lc_expiry := zadd (now + terminal_ttl) m (lc_expiry st), lc_origin_expiry := zrem m (lc_origin_expiry st)\<rparr>))))"

definition cancel_script :: "nat \<Rightarrow> lane \<Rightarrow> member \<Rightarrow> nat \<Rightarrow> string \<Rightarrow> string \<Rightarrow> lifecycle \<Rightarrow> int \<times> lifecycle" where
  "cancel_script now l m terminal_ttl token envelope st =
     (let jid = fst m in
      if \<not> has_generation now jid (snd m) st then (0, st)
      else if Option.bind (meta_of now jid st) jm_origin_token \<noteq> Some token then (0, st)
      else if meta_state now jid st = Some Processing
      then (2, publish (fst l) m FinalFrame envelope (request_cancel now jid (st\<lparr>lc_origin_expiry := zrem m (lc_origin_expiry st)\<rparr>)))
      else if meta_state now jid st = Some PendingOrigin \<or> meta_state now jid st = Some Waiting
      then (1, end_unleased now l m terminal_ttl id envelope st)
      else (3, st))"

definition origin_heartbeat_script :: "nat \<Rightarrow> member \<Rightarrow> string \<Rightarrow> nat \<Rightarrow> lifecycle \<Rightarrow> int \<times> lifecycle" where
  "origin_heartbeat_script now m token origin_lease st =
     (let jid = fst m in
      if \<not> has_generation now jid (snd m) st \<or> Option.bind (meta_of now jid st) jm_origin_token \<noteq> Some token then (0, st)
      else if meta_state now jid st \<noteq> Some PendingOrigin \<and> meta_state now jid st \<noteq> Some Waiting \<and> meta_state now jid st \<noteq> Some Processing
      then (0, st)
      else if origin_expired now jid st then (- 1, request_cancel now jid st)
      else
        let next_expiry = min (now + origin_lease) (meta_number now jid jm_origin_max st)
        in (1, set_meta now jid (\<lambda>mt. mt\<lparr>jm_origin_expires := Some next_expiry\<rparr>)
             (st\<lparr>lc_origin_expiry := zadd next_expiry m (lc_origin_expiry st)\<rparr>)))"

text \<open>One member of \<open>EXPIRE_ORIGINS_LUA\<close>; the answer counts it.\<close>

definition expire_origin :: "nat \<Rightarrow> nat \<Rightarrow> string \<Rightarrow> member \<Rightarrow> lifecycle \<Rightarrow> bool \<times> lifecycle" where
  "expire_origin now terminal_ttl envelope m st =
     (let jid = fst m;
          forget = (\<lambda>st. st\<lparr>lc_origin_expiry := zrem m (lc_origin_expiry st)\<rparr>)
      in if has_generation now jid (snd m) st then
           (if meta_state now jid st = Some Processing then
              (True, forget
                (case lc_scopes st m of
                   Some p \<Rightarrow> publish p m FinalFrame envelope (request_cancel now jid st)
                 | None \<Rightarrow> request_cancel now jid st))
            else if meta_state now jid st = Some PendingOrigin \<or> meta_state now jid st = Some Waiting then
              (case (lc_scopes st m, lc_providers st m) of
                 (Some p, Some q) \<Rightarrow>
                   (True, end_unleased now (p, q) m terminal_ttl (\<lambda>mt. mt\<lparr>jm_cancel_requested := True\<rparr>) envelope st)
               | _ \<Rightarrow> (False, forget st))
            else (False, forget st))
         else (False, forget st))"

definition expire_origins_script :: "nat \<Rightarrow> nat \<Rightarrow> nat \<Rightarrow> string \<Rightarrow> lifecycle \<Rightarrow> nat \<times> lifecycle" where
  "expire_origins_script now limit terminal_ttl envelope st =
     batch (expire_origin now terminal_ttl envelope) (zrange_by_score now limit (lc_origin_expiry st)) st"

section \<open>The worker: lease, release, refresh, publish, complete\<close>

definition set_owner :: "lane \<Rightarrow> member \<Rightarrow> string option \<Rightarrow> lifecycle \<Rightarrow> lifecycle" where
  "set_owner l m owner st = st\<lparr>lc_owners := (lc_owners st)(l := (lc_owners st l)(m := owner))\<rparr>"

definition set_leased :: "lane \<Rightarrow> member \<Rightarrow> rat option \<Rightarrow> lifecycle \<Rightarrow> lifecycle" where
  "set_leased l m score st = st\<lparr>lc_leased := (lc_leased st)(l := (lc_leased st l)(m := score))\<rparr>"

text \<open>The end of a delivery: out of the set of leases, with its score and its owner.\<close>

definition drop_lease :: "lane \<Rightarrow> member \<Rightarrow> lifecycle \<Rightarrow> lifecycle" where
  "drop_lease l m st =
     set_owner l m None (set_leased l m None (st\<lparr>lc_processing := (lc_processing st)(l := zrem m (lc_processing st l))\<rparr>))"

definition take_lease :: "nat \<Rightarrow> lane \<Rightarrow> member \<Rightarrow> rat \<Rightarrow> nat \<Rightarrow> string \<Rightarrow> lifecycle \<Rightarrow> lifecycle" where
  "take_lease now l m score lease_ms owner st =
     set_owner l m (Some owner) (set_leased l m (Some score)
       (st\<lparr>lc_queue := (lc_queue st)(l := zrem m (lc_queue st l)),
          lc_processing := (lc_processing st)(l := zadd (now + lease_ms) m (lc_processing st l))\<rparr>))"

definition LEASED_GRACE_MS :: nat where "LEASED_GRACE_MS = 60 * 60 * 1000"

definition lease_script ::
  "lifecycle_limits \<Rightarrow> nat \<Rightarrow> lane \<Rightarrow> nat \<Rightarrow> string \<Rightarrow> nat \<Rightarrow> lifecycle \<Rightarrow> (member \<times> rat \<times> string) option \<times> lifecycle" where
  "lease_script lims now l lease_ms owner job_timeout_ms st =
     (case lc_queue st l of
        [] \<Rightarrow> (None, st)
      | (score, m) # _ \<Rightarrow>
          let jid = fst m in
          if \<not> has_generation now jid (snd m) st \<or> meta_state now jid st \<noteq> Some Waiting
          then (None, st\<lparr>lc_queue := (lc_queue st)(l := zrem m (lc_queue st l))\<rparr>)
          else
            let st = note_origin now jid st in
            if cancel_requested now jid st then (None, st)
            else
              let headroom = (case meta_of now jid st of
                    Some mt \<Rightarrow> if jm_stream mt then ll_stream_terminal_bytes lims else ll_unary_terminal_bytes lims
                  | None \<Rightarrow> ll_unary_terminal_bytes lims);
                  existing = meta_number now jid jm_terminal_charge st;
                  charge = (if 0 < existing then existing else headroom)
              in if existing = 0 \<and> int (ll_max_terminal_bytes lims) < lc_terminal_bytes st + int charge then (None, st)
                 else
                   (case lookup_live now jid (lc_payload st) of
                      None \<Rightarrow> (None, st)
                    | Some payload \<Rightarrow>
                        (Some (m, score, payload),
                         retain_job now (job_timeout_ms + LEASED_GRACE_MS) jid
                           (set_meta now jid (\<lambda>mt. mt\<lparr>jm_state := Some Processing, jm_owner := Some owner, jm_terminal_charge := Some charge\<rparr>)
                             (take_lease now l m score lease_ms owner
                               (st\<lparr>lc_terminal_bytes := lc_terminal_bytes st + (if existing = 0 then int charge else 0),
                                  lc_terminal_res := (lc_terminal_res st)(m \<mapsto> charge), lc_states := (lc_states st)(m \<mapsto> Processing),
                                  lc_expiry := zadd (now + job_timeout_ms) m (lc_expiry st)\<rparr>))))))"

definition ack_script :: "lane \<Rightarrow> member \<Rightarrow> string \<Rightarrow> lifecycle \<Rightarrow> int \<times> lifecycle" where
  "ack_script l m owner st = (if lc_owners st l m \<noteq> Some owner then (0, st) else (1, drop_lease l m st))"

definition release_script :: "nat \<Rightarrow> lane \<Rightarrow> member \<Rightarrow> rat \<Rightarrow> string \<Rightarrow> lifecycle \<Rightarrow> int \<times> lifecycle" where
  "release_script now l m score owner st =
     (let jid = fst m in
      if lc_owners st l m \<noteq> Some owner then (0, st)
      else if \<not> has_generation now jid (snd m) st then (0, st)
      else
        let st = note_origin now jid st in
        if cancel_requested now jid st then (- 1, st)
        else
          (1, drop_lease l m (set_meta now jid (\<lambda>mt. mt\<lparr>jm_state := Some Waiting, jm_owner := Some [], jm_terminal_charge := Some 0\<rparr>)
             (st\<lparr>lc_terminal_bytes := lc_terminal_bytes st - int (meta_number now jid jm_terminal_charge st),
                lc_terminal_res := (lc_terminal_res st)(m \<mapsto> 0), lc_states := (lc_states st)(m \<mapsto> Waiting),
                lc_queue := (lc_queue st)(l := zadd score m (lc_queue st l))\<rparr>))))"

text \<open>One member of \<open>REAP_LUA\<close>.\<close>

definition reap_one :: "nat \<Rightarrow> lane \<Rightarrow> nat \<Rightarrow> string \<Rightarrow> member \<Rightarrow> lifecycle \<Rightarrow> bool \<times> lifecycle" where
  "reap_one now l terminal_ttl envelope m st =
     (let jid = fst m;
          hard = terminal_ttl + CLEANUP_GRACE_MS;
          st = note_origin now jid st
      in (True, drop_lease l m
        (if has_generation now jid (snd m) st \<and> cancel_requested now jid st then
           (let charge = meta_number now jid jm_terminal_charge st
            in retain_job now hard jid (set_meta now jid (\<lambda>mt. mt\<lparr>jm_state := Some Terminal, jm_terminal_charge := Some (length envelope)\<rparr>)
                 (st\<lparr>lc_terminal_bytes := lc_terminal_bytes st + (if 0 < charge then int (length envelope) - int charge else 0),
                    lc_terminal := (lc_terminal st)(jid \<mapsto> (envelope, Some (now + hard))),
                    lc_terminal_res := (lc_terminal_res st)(m \<mapsto> length envelope), lc_states := (lc_states st)(m \<mapsto> Terminal),
                    lc_expiry := zadd (now + terminal_ttl) m (lc_expiry st), lc_origin_expiry := zrem m (lc_origin_expiry st)\<rparr>)))
         else if has_generation now jid (snd m) st then
           set_meta now jid (\<lambda>mt. mt\<lparr>jm_state := Some Waiting, jm_owner := Some []\<rparr>)
             (st\<lparr>lc_queue := (case lc_leased st l m of Some s \<Rightarrow> (lc_queue st)(l := zadd s m (lc_queue st l)) | None \<Rightarrow> lc_queue st),
                lc_states := (lc_states st)(m \<mapsto> Waiting)\<rparr>)
         else st)))"

definition reap_script :: "nat \<Rightarrow> lane \<Rightarrow> nat \<Rightarrow> nat \<Rightarrow> string \<Rightarrow> lifecycle \<Rightarrow> nat \<times> lifecycle" where
  "reap_script now l limit terminal_ttl envelope st =
     batch (reap_one now l terminal_ttl envelope) (zrange_by_score now limit (lc_processing st l)) st"

text \<open>The guard of the scripts that act for a delivery: its owner, still leased, of the same generation.\<close>

definition holds_lease :: "nat \<Rightarrow> lane \<Rightarrow> member \<Rightarrow> string \<Rightarrow> lifecycle \<Rightarrow> bool" where
  "holds_lease now l m owner st \<longleftrightarrow>
     lc_owners st l m = Some owner \<and> zscore m (lc_processing st l) \<noteq> None \<and> has_generation now (fst m) (snd m) st"

definition refresh_script :: "nat \<Rightarrow> lane \<Rightarrow> member \<Rightarrow> string \<Rightarrow> nat \<Rightarrow> lifecycle \<Rightarrow> int \<times> lifecycle" where
  "refresh_script now l m owner lease_ms st =
     (if \<not> holds_lease now l m owner st then (0, st)
      else
        let st = note_origin now (fst m) st in
        if cancel_requested now (fst m) st then (- 1, st)
        else (1, st\<lparr>lc_processing := (lc_processing st)(l := zadd_xx (now + lease_ms) m (lc_processing st l))\<rparr>))"

text \<open>The number of subscribers is the answer of \<open>PUBLISH\<close>.\<close>

definition publish_script :: "nat \<Rightarrow> lane \<Rightarrow> member \<Rightarrow> string \<Rightarrow> string \<Rightarrow> nat \<Rightarrow> lifecycle \<Rightarrow> int \<times> lifecycle" where
  "publish_script now l m owner payload subscribers st =
     (if \<not> holds_lease now l m owner st then (- 1, st)
      else
        let st = note_origin now (fst m) st in
        if cancel_requested now (fst m) st then (- 2, st)
        else (int subscribers, publish (fst l) m StreamFrame payload st))"

definition DONE_TTL_SECS :: nat where "DONE_TTL_SECS = 10 * 60"

definition terminal_script :: "nat \<Rightarrow> lane \<Rightarrow> member \<Rightarrow> string \<Rightarrow> string \<Rightarrow> string \<Rightarrow> lifecycle \<Rightarrow> int \<times> lifecycle" where
  "terminal_script now l m owner payload envelope st =
     (let jid = fst m in
      if \<not> holds_lease now l m owner st then (0, st)
      else
        let reserved = meta_number now jid jm_terminal_charge st;
            st = note_origin now jid st;
            result = (if cancel_requested now jid st then envelope else payload);
            actual = length result;
            ttl = DONE_TTL_SECS * 1000;
            hard = ttl + CLEANUP_GRACE_MS
        in if reserved < actual then (- 2, st)
           else
             (1, drop_lease l m (publish (fst l) m FinalFrame result (retain_job now hard jid
               (set_meta now jid (\<lambda>mt. mt\<lparr>jm_state := Some Terminal, jm_terminal_charge := Some actual\<rparr>)
                 (st\<lparr>lc_terminal := (lc_terminal st)(jid \<mapsto> (result, Some (now + hard))),
                    lc_terminal_res := (lc_terminal_res st)(m \<mapsto> actual), lc_states := (lc_states st)(m \<mapsto> Terminal),
                    lc_terminal_bytes := lc_terminal_bytes st + (int actual - int reserved),
                    lc_expiry := zadd (now + ttl) m (lc_expiry st), lc_origin_expiry := zrem m (lc_origin_expiry st),
                    lc_done := (lc_done st)((fst l, jid) \<mapsto> ((), Some (now + ttl)))\<rparr>))))))"

definition DLQ_TTL_MS :: nat where "DLQ_TTL_MS = 24 * 60 * 60 * 1000"
definition DLQ_MAX_COUNT :: nat where "DLQ_MAX_COUNT = 1000"
definition DLQ_MAX_BYTES :: nat where "DLQ_MAX_BYTES = 64 * 1024 * 1024"
definition TERMINAL_TTL_MS :: nat where "TERMINAL_TTL_MS = 10 * 60 * 1000"

definition dead_letter_script :: "nat \<Rightarrow> lane \<Rightarrow> member \<Rightarrow> string \<Rightarrow> string \<Rightarrow> string \<Rightarrow> lifecycle \<Rightarrow> int \<times> lifecycle" where
  "dead_letter_script now l m owner dlq_envelope envelope st =
     (let jid = fst m in
      if \<not> holds_lease now l m owner st then (0, st)
      else
        let base = meta_number now jid jm_base_charge st;
            canceled = (cancel_requested now jid st \<or> origin_expired now jid st);
            st = (if canceled then request_cancel now jid st else st);
            overflow = (DLQ_MAX_COUNT \<le> length (lc_dlq st l) \<or> int DLQ_MAX_BYTES < lc_dlq_bytes st + int base);
            charge = meta_number now jid jm_terminal_charge st;
            result = (if canceled then envelope else dlq_envelope);
            ended = (canceled \<or> overflow);
            retention = (if ended then TERMINAL_TTL_MS else DLQ_TTL_MS);
            hard = retention + CLEANUP_GRACE_MS
        in (1, drop_lease l m (publish (fst l) m FinalFrame result (retain_job now hard jid
             (set_meta now jid (\<lambda>mt. mt\<lparr>jm_state := Some (if ended then Terminal else Dlq), jm_terminal_charge := Some 0\<rparr>)
               (st\<lparr>lc_terminal_bytes := lc_terminal_bytes st - int charge,
                  lc_terminal := (lc_terminal st)(jid \<mapsto> (result, Some (now + hard))),
                  lc_terminal_res := (lc_terminal_res st)(m \<mapsto> 0),
                  lc_dlq_res := (lc_dlq_res st)(m \<mapsto> (if ended then 0 else base)),
                  lc_states := (lc_states st)(m \<mapsto> (if ended then Terminal else Dlq)),
                  lc_dlq_overflow := lc_dlq_overflow st + (if \<not> canceled \<and> overflow then 1 else 0),
                  lc_dlq := (lc_dlq st)(l := (if canceled then zrem m (lc_dlq st l) else if overflow then lc_dlq st l else zadd now m (lc_dlq st l))),
                  lc_dlq_bytes := lc_dlq_bytes st + (if ended then 0 else int base),
                  lc_expiry := zadd (now + retention) m (lc_expiry st),
                  lc_origin_expiry := zrem m (lc_origin_expiry st)\<rparr>))))))"

definition bump_attempts_script :: "nat \<Rightarrow> queue_protocol \<times> string \<Rightarrow> nat \<Rightarrow> lifecycle \<Rightarrow> nat \<times> lifecycle" where
  "bump_attempts_script now k ttl_secs st =
     (let n = (case lookup_live now k (lc_attempts st) of Some n \<Rightarrow> Suc n | None \<Rightarrow> 1)
      in (n, st\<lparr>lc_attempts := (lc_attempts st)(k \<mapsto> (n, Some (now + ttl_secs * 1000)))\<rparr>))"

definition is_done :: "nat \<Rightarrow> queue_protocol \<times> string \<Rightarrow> lifecycle \<Rightarrow> bool" where
  "is_done now k st \<longleftrightarrow> lookup_live now k (lc_done st) \<noteq> None"

section \<open>Retention\<close>

text \<open>One member of \<open>CLEANUP_LUA\<close>.\<close>

definition drop_reservation :: "member \<Rightarrow> nat \<Rightarrow> nat \<Rightarrow> nat \<Rightarrow> lane \<Rightarrow> lifecycle \<Rightarrow> lifecycle" where
  "drop_reservation m base charge dlq l st =
     (let jid = fst m in
      drop_lease l m
        (st\<lparr>lc_queue := (lc_queue st)(l := zrem m (lc_queue st l)), lc_dlq := (lc_dlq st)(l := zrem m (lc_dlq st l)),
           lc_jobs := lc_jobs st - 1, lc_base_bytes := lc_base_bytes st - int base,
           lc_terminal_bytes := lc_terminal_bytes st - int charge, lc_dlq_bytes := lc_dlq_bytes st - int dlq,
           lc_reservations := (lc_reservations st)(m := None), lc_terminal_res := (lc_terminal_res st)(m := None),
           lc_dlq_res := (lc_dlq_res st)(m := None), lc_states := (lc_states st)(m := None),
           lc_scopes := (lc_scopes st)(m := None), lc_providers := (lc_providers st)(m := None),
           lc_meta := (lc_meta st)(jid := None), lc_payload := (lc_payload st)(jid := None), lc_terminal := (lc_terminal st)(jid := None),
           lc_expiry := zrem m (lc_expiry st), lc_origin_expiry := zrem m (lc_origin_expiry st)\<rparr>))"

definition cleanup_one :: "nat \<Rightarrow> member \<Rightarrow> lifecycle \<Rightarrow> bool \<times> lifecycle" where
  "cleanup_one now m st =
     (case (lc_reservations st m, lc_terminal_res st m, lc_dlq_res st m, lc_states st m, lc_scopes st m, lc_providers st m) of
        (Some base, Some charge, Some dlq, Some s, Some p, Some q) \<Rightarrow>
          if s = Processing \<and> meta_of now (fst m) st \<noteq> None then (False, st\<lparr>lc_expiry := zadd (now + 60000) m (lc_expiry st)\<rparr>)
          else (True, drop_reservation m base charge dlq (p, q) st)
      | _ \<Rightarrow> (False, st\<lparr>lc_expiry := zadd (now + 3600000) m (lc_expiry st)\<rparr>))"

definition cleanup_script :: "nat \<Rightarrow> nat \<Rightarrow> lifecycle \<Rightarrow> nat \<times> lifecycle" where
  "cleanup_script now limit st = batch (cleanup_one now) (zrange_by_score now limit (lc_expiry st)) st"

definition extend_one :: "nat \<Rightarrow> nat \<Rightarrow> 'k \<Rightarrow> ('k \<rightharpoonup> 'v \<times> nat option) \<Rightarrow> ('k \<rightharpoonup> 'v \<times> nat option)" where
  "extend_one now hard k m =
     (case m k of
        Some (v, e) \<Rightarrow> (case e of Some t \<Rightarrow> if t < now + hard then pexpire now hard k m else m | None \<Rightarrow> pexpire now hard k m)
      | None \<Rightarrow> m)"

definition extend_terminal_script :: "nat \<Rightarrow> member \<Rightarrow> nat \<Rightarrow> lifecycle \<Rightarrow> int \<times> lifecycle" where
  "extend_terminal_script now m ttl_ms st =
     (let jid = fst m; hard = ttl_ms + CLEANUP_GRACE_MS in
      if \<not> has_generation now jid (snd m) st \<or> meta_state now jid st \<noteq> Some Terminal then (0, st)
      else
        (1, st\<lparr>lc_expiry := zadd_gt (now + ttl_ms) m (lc_expiry st),
           lc_meta := extend_one now hard jid (lc_meta st), lc_terminal := extend_one now hard jid (lc_terminal st),
           lc_payload := extend_one now hard jid (lc_payload st)\<rparr>))"

definition read_terminal_script :: "nat \<Rightarrow> string \<Rightarrow> nat \<Rightarrow> lifecycle \<Rightarrow> string option" where
  "read_terminal_script now jid g st = (if has_generation now jid g st then lookup_live now jid (lc_terminal st) else None)"

end
