(* ===== verification/LifecycleLaws.thy ===== *)
theory LifecycleLaws
  imports Lifecycle
begin

text \<open>
  What every script keeps of the store: each member is seen as one view of all structures it occurs in, the metadata of an id
  describes the member of its generation, and the counters are the sums over the reservations. A script changes the view of one
  member at a time, so one rule carries all of them.
\<close>

section \<open>Sorted sets and maps\<close>

text \<open>Members stay members in the proofs.\<close>

declare split_paired_All [simp del] split_paired_Ex [simp del]

lemma zmembers_Nil [simp]: "zmembers [] = {}"
  by (simp add: zmembers_def)

lemma zmembers_zinsert: "zmembers (zinsert s m z) = insert m (zmembers z)"
  by (induction s m z rule: zinsert.induct) (auto simp: zmembers_def)

lemma zmembers_zrem [simp]: "zmembers (zrem m z) = zmembers z - {m}"
  by (auto simp: zmembers_def zrem_def)

lemma zmembers_zadd [simp]: "zmembers (zadd s m z) = insert m (zmembers z)"
  by (auto simp: zadd_def zmembers_zinsert)

lemma zscore_None: "zscore m z = None \<longleftrightarrow> m \<notin> zmembers z"
  by (force simp: zscore_def zmembers_def find_None_iff)

lemma zmembers_zadd_xx [simp]: "zmembers (zadd_xx s m z) = zmembers z"
  by (auto simp: zadd_xx_def zscore_None split: option.split) (metis zscore_None option.distinct(1))

lemma zmembers_zadd_gt [simp]: "zmembers (zadd_gt s m z) = insert m (zmembers z)"
  by (auto simp: zadd_gt_def split: option.split) (metis zscore_None option.distinct(1))

lemma length_zrem: "length (zrem m z) \<le> length z"
  by (simp add: zrem_def)

lemma length_zadd: "length (zadd s m z) \<le> Suc (length z)"
proof -
  have "length (zinsert s m z) = Suc (length z)" for z :: "'a zset"
    by (induction s m z rule: zinsert.induct) auto
  then show ?thesis using length_zrem [of m z] by (simp add: zadd_def)
qed

lemma range_members: "m \<in> set (zrange_by_score now limit z) \<Longrightarrow> m \<in> zmembers z"
  by (force simp: zrange_by_score_def zmembers_def dest: in_set_takeD)

text \<open>The sum over a hash of charges.\<close>

definition total_of :: "('k \<rightharpoonup> nat) \<Rightarrow> nat" where
  "total_of f = (\<Sum>k \<in> dom f. the (f k))"

definition charge_of :: "nat option \<Rightarrow> nat" where
  "charge_of x = (case x of Some n \<Rightarrow> n | None \<Rightarrow> 0)"

lemma charge_of_simps [simp]: "charge_of None = 0" "charge_of (Some n) = n"
  by (simp_all add: charge_of_def)

lemma total_of_split: "finite (dom f) \<Longrightarrow> total_of f = total_of (f(k := None)) + charge_of (f k)"
  by (cases "f k") (auto simp: total_of_def dom_def sum.remove [of "{a. \<exists>y. f a = Some y}" k] intro!: sum.cong)

lemma total_of_change:
  assumes "finite (dom f)" and "\<And>k'. k' \<noteq> k \<Longrightarrow> f' k' = f k'"
  shows "finite (dom f')" and "total_of f' + charge_of (f k) = total_of f + charge_of (f' k)"
proof -
  have eq: "f'(k := None) = f(k := None)" using assms(2) by auto
  have "dom f' \<subseteq> insert k (dom f)" using assms(2) by (force simp: dom_def)
  then show fin: "finite (dom f')" using assms(1) finite_subset by blast
  show "total_of f' + charge_of (f k) = total_of f + charge_of (f' k)"
    using total_of_split [OF fin, of k] total_of_split [OF assms(1), of k] eq by simp
qed

definition present_in :: "'a option \<Rightarrow> nat" where
  "present_in x = (if x = None then 0 else 1)"

lemma present_in_simps [simp]: "present_in None = 0" "present_in (Some x) = 1"
  by (simp_all add: present_in_def)

lemma card_dom_change:
  fixes f :: "'k \<rightharpoonup> 'v"
  assumes "finite (dom f)" and "\<And>k'. k' \<noteq> k \<Longrightarrow> f' k' = f k'"
  shows "card (dom f') + present_in (f k) = card (dom f) + present_in (f' k)"
proof -
  have d: "dom f' - {k} = dom f - {k}" using assms(2) by (force simp: dom_def)
  have "dom f' \<subseteq> insert k (dom f)" using assms(2) by (force simp: dom_def)
  then have fin: "finite (dom f')" using assms(1) finite_subset by blast
  have c: "card (dom g) = card (dom g - {k}) + present_in (g k)" if "finite (dom g)" for g :: "'k \<rightharpoonup> 'v"
    using card_Suc_Diff1 [OF that, of k] by (cases "g k") (auto simp: domIff)
  from c [OF assms(1)] c [OF fin] d show ?thesis by simp
qed

section \<open>The view of a member\<close>

record job_view =
  jv_base :: "nat option"
  jv_charge :: "nat option"
  jv_dlq_charge :: "nat option"
  jv_state :: "job_state option"
  jv_scope :: "queue_protocol option"
  jv_provider :: "string option"
  jv_indexed :: bool
  jv_queued :: "lane \<Rightarrow> bool"
  jv_leased :: "lane \<Rightarrow> bool"
  jv_owned :: "lane \<Rightarrow> bool"
  jv_scored :: "lane \<Rightarrow> bool"
  jv_dead :: "lane \<Rightarrow> bool"

definition about :: "lifecycle \<Rightarrow> member \<Rightarrow> job_view" where
  "about st m =
     \<lparr>jv_base = lc_reservations st m, jv_charge = lc_terminal_res st m, jv_dlq_charge = lc_dlq_res st m, jv_state = lc_states st m,
      jv_scope = lc_scopes st m, jv_provider = lc_providers st m, jv_indexed = (m \<in> zmembers (lc_expiry st)),
      jv_queued = (\<lambda>l. m \<in> zmembers (lc_queue st l)), jv_leased = (\<lambda>l. m \<in> zmembers (lc_processing st l)),
      jv_owned = (\<lambda>l. lc_owners st l m \<noteq> None), jv_scored = (\<lambda>l. lc_leased st l m \<noteq> None), jv_dead = (\<lambda>l. m \<in> zmembers (lc_dlq st l))\<rparr>"

definition nowhere :: "lane \<Rightarrow> bool" where "nowhere l \<longleftrightarrow> False"

definition absent_view :: job_view where
  "absent_view =
     \<lparr>jv_base = None, jv_charge = None, jv_dlq_charge = None, jv_state = None, jv_scope = None, jv_provider = None, jv_indexed = False,
      jv_queued = nowhere, jv_leased = nowhere, jv_owned = nowhere, jv_scored = nowhere, jv_dead = nowhere\<rparr>"

text \<open>The text every cancelled job ends with, as the JSON library writes it.\<close>

definition CANCEL_ENVELOPE :: string where
  "CANCEL_ENVELOPE = ''{\"t\":\"Error\",\"v\":\"distributed origin canceled\"}''"

definition open_state :: "job_state \<Rightarrow> bool" where
  "open_state s \<longleftrightarrow> s \<noteq> Terminal \<and> s \<noteq> Dlq"

definition placed :: "lane \<Rightarrow> job_state \<Rightarrow> job_view \<Rightarrow> bool" where
  "placed h s v \<longleftrightarrow>
     (\<forall>l. (jv_queued v l \<longrightarrow> l = h \<and> s = Waiting) \<and> (jv_leased v l \<longrightarrow> l = h \<and> s = Processing) \<and> (jv_dead v l \<longleftrightarrow> l = h \<and> s = Dlq) \<and>
        (jv_owned v l \<longleftrightarrow> jv_leased v l) \<and> (jv_scored v l \<longleftrightarrow> jv_leased v l))"

definition charged_ok :: "job_state \<Rightarrow> nat \<Rightarrow> bool" where
  "charged_ok s t \<longleftrightarrow> (open_state s \<longrightarrow> t = 0 \<or> length CANCEL_ENVELOPE \<le> t) \<and> (s = Processing \<longrightarrow> length CANCEL_ENVELOPE \<le> t)"

definition view_ok :: "lane \<Rightarrow> job_view \<Rightarrow> bool" where
  "view_ok h v \<longleftrightarrow>
     v = absent_view \<or>
     (\<exists>base t s. jv_base v = Some base \<and> jv_charge v = Some t \<and> jv_state v = Some s \<and> jv_dlq_charge v = Some (if s = Dlq then base else 0) \<and>
        jv_scope v = Some (fst h) \<and> jv_provider v = Some (snd h) \<and> jv_indexed v \<and> placed h s v \<and> charged_ok s t)"

definition stored_meta :: "lifecycle \<Rightarrow> string \<Rightarrow> job_meta option" where
  "stored_meta st jid = map_option fst (lc_meta st jid)"

definition meta_ok :: "lifecycle \<Rightarrow> string \<Rightarrow> bool" where
  "meta_ok st jid \<longleftrightarrow>
     (\<forall>mt g. stored_meta st jid = Some mt \<longrightarrow> jm_generation mt = Some g \<longrightarrow>
        (\<exists>base s. jm_base_charge mt = Some base \<and> lc_reservations st (jid, g) = Some base \<and> jm_state mt = Some s \<and>
           lc_states st (jid, g) = Some s \<and> (open_state s \<longrightarrow> lc_terminal_res st (jid, g) = Some (charge_of (jm_terminal_charge mt)))))"

definition books :: "lifecycle \<Rightarrow> bool" where
  "books st \<longleftrightarrow>
     lc_jobs st = int (card (dom (lc_reservations st))) \<and> lc_base_bytes st = int (total_of (lc_reservations st)) \<and>
     lc_terminal_bytes st = int (total_of (lc_terminal_res st)) \<and> lc_dlq_bytes st = int (total_of (lc_dlq_res st))"

definition in_bounds :: "lifecycle_limits \<Rightarrow> lifecycle \<Rightarrow> bool" where
  "in_bounds lims st \<longleftrightarrow>
     lc_jobs st \<le> int (ll_max_jobs lims) \<and> lc_base_bytes st \<le> int (ll_max_base_bytes lims) \<and>
     lc_terminal_bytes st \<le> int (ll_max_terminal_bytes lims) \<and> lc_dlq_bytes st \<le> int DLQ_MAX_BYTES \<and>
     (\<forall>l. length (lc_dlq st l) \<le> DLQ_MAX_COUNT)"

definition tidy :: "lifecycle_limits \<Rightarrow> (string \<Rightarrow> lane) \<Rightarrow> lifecycle \<Rightarrow> bool" where
  "tidy lims home st \<longleftrightarrow>
     finite (dom (lc_reservations st)) \<and> (\<forall>m. view_ok (home (fst m)) (about st m)) \<and>
     (\<forall>m. lc_reservations st m \<noteq> None \<longrightarrow> snd m \<le> lc_generation st) \<and> (\<forall>jid. meta_ok st jid) \<and> books st \<and> in_bounds lims st"

lemma view_okI:
  assumes "jv_base v = Some base" "jv_charge v = Some t" "jv_state v = Some s" "jv_dlq_charge v = Some (if s = Dlq then base else 0)"
    "jv_scope v = Some (fst h)" "jv_provider v = Some (snd h)" "jv_indexed v" "placed h s v" "charged_ok s t"
  shows "view_ok h v"
  using assms unfolding view_ok_def by blast

lemma tidy_view: "tidy lims home st \<Longrightarrow> view_ok (home (fst m)) (about st m)"
  by (simp add: tidy_def)

lemma tidy_meta: "tidy lims home st \<Longrightarrow> meta_ok st jid"
  by (simp add: tidy_def)

lemma tidy_bounds: "tidy lims home st \<Longrightarrow> in_bounds lims st"
  by (simp add: tidy_def)

text \<open>The domains agree, because every view is all or nothing.\<close>

lemma view_cases:
  assumes "tidy lims home st"
  obtains "about st m = absent_view"
  | base t s where "lc_reservations st m = Some base" "lc_terminal_res st m = Some t" "lc_states st m = Some s"
      "lc_dlq_res st m = Some (if s = Dlq then base else 0)" "lc_scopes st m = Some (fst (home (fst m)))"
      "lc_providers st m = Some (snd (home (fst m)))" "m \<in> zmembers (lc_expiry st)" "placed (home (fst m)) s (about st m)" "charged_ok s t"
  using tidy_view [OF assms, of m] by (auto simp: view_ok_def about_def)

lemma absent_iff: "tidy lims home st \<Longrightarrow> about st m = absent_view \<longleftrightarrow> lc_reservations st m = None"
  by (cases rule: view_cases [of lims home st m]) (auto simp: about_def absent_view_def)

lemma domains:
  assumes "tidy lims home st"
  shows "dom (lc_terminal_res st) = dom (lc_reservations st)" and "dom (lc_dlq_res st) = dom (lc_reservations st)"
    and "finite (dom (lc_reservations st))"
proof -
  have "(lc_terminal_res st m = None) = (lc_reservations st m = None) \<and> (lc_dlq_res st m = None) = (lc_reservations st m = None)" for m
    by (cases rule: view_cases [OF assms, of m]) (auto simp: about_def absent_view_def)
  then show "dom (lc_terminal_res st) = dom (lc_reservations st)" "dom (lc_dlq_res st) = dom (lc_reservations st)"
    by (auto simp: dom_def)
  show "finite (dom (lc_reservations st))" using assms by (simp add: tidy_def)
qed

text \<open>The rule: a step that changes one member, and the metadata of its id only.\<close>

definition local_to :: "member \<Rightarrow> lifecycle \<Rightarrow> lifecycle \<Rightarrow> bool" where
  "local_to m st st' \<longleftrightarrow> (\<forall>m'. m' \<noteq> m \<longrightarrow> about st' m' = about st m') \<and> (\<forall>jid. jid \<noteq> fst m \<longrightarrow> stored_meta st' jid = stored_meta st jid)"

definition booked :: "member \<Rightarrow> lifecycle \<Rightarrow> lifecycle \<Rightarrow> bool" where
  "booked m st st' \<longleftrightarrow>
     lc_jobs st' = lc_jobs st + int (present_in (lc_reservations st' m)) - int (present_in (lc_reservations st m)) \<and>
     lc_base_bytes st' = lc_base_bytes st + int (charge_of (lc_reservations st' m)) - int (charge_of (lc_reservations st m)) \<and>
     lc_terminal_bytes st' = lc_terminal_bytes st + int (charge_of (lc_terminal_res st' m)) - int (charge_of (lc_terminal_res st m)) \<and>
     lc_dlq_bytes st' = lc_dlq_bytes st + int (charge_of (lc_dlq_res st' m)) - int (charge_of (lc_dlq_res st m))"

lemma local_fields:
  assumes "local_to m st st'" and "m' \<noteq> m"
  shows "lc_reservations st' m' = lc_reservations st m'" "lc_terminal_res st' m' = lc_terminal_res st m'"
    "lc_dlq_res st' m' = lc_dlq_res st m'" "lc_states st' m' = lc_states st m'"
  using assms by (auto simp: local_to_def about_def)

lemma books_step:
  assumes "tidy lims home st" and "local_to m st st'" and "booked m st st'"
  shows "books st'" and "finite (dom (lc_reservations st'))"
proof -
  note f = local_fields [OF assms(2)] and d = domains [OF assms(1)]
  have b: "books st" using assms(1) by (simp add: tidy_def)
  have t: "finite (dom (lc_terminal_res st))" "finite (dom (lc_dlq_res st))" using d by simp_all
  show "finite (dom (lc_reservations st'))" by (rule total_of_change(1) [OF d(3) f(1)])
  show "books st'"
    using b assms(3) card_dom_change [OF d(3) f(1), of m] total_of_change(2) [OF d(3) f(1), of m]
      total_of_change(2) [OF t(1) f(2), of m] total_of_change(2) [OF t(2) f(3), of m]
    by (simp add: books_def booked_def)
qed

lemma meta_ok_frame: "local_to m st st' \<Longrightarrow> jid \<noteq> fst m \<Longrightarrow> meta_ok st jid \<Longrightarrow> meta_ok st' jid"
  using local_fields [of m st st' "(jid, _)"] by (cases m) (auto simp: meta_ok_def local_to_def)

lemma tidy_step:
  assumes "tidy lims home st" and "local_to m st st'" and "booked m st st'" and "in_bounds lims st'"
    and "view_ok (home (fst m)) (about st' m)" and "meta_ok st' (fst m)" and "lc_generation st \<le> lc_generation st'"
    and "lc_reservations st' m \<noteq> None \<Longrightarrow> snd m \<le> lc_generation st'"
  shows "tidy lims home st'"
proof -
  have v: "view_ok (home (fst m')) (about st' m')" for m'
    using assms(1,2,5) by (cases "m' = m") (auto simp: tidy_def local_to_def)
  have g: "snd m' \<le> lc_generation st'" if "lc_reservations st' m' \<noteq> None" for m'
    using that assms(1,7,8) local_fields(1) [OF assms(2), of m'] by (cases "m' = m") (auto simp: tidy_def intro: order_trans)
  have mt: "meta_ok st' jid" for jid
    using assms(6) meta_ok_frame [OF assms(2)] tidy_meta [OF assms(1)] by (cases "jid = fst m") auto
  from v g mt books_step [OF assms(1-3)] assms(4) show ?thesis by (simp add: tidy_def)
qed

section \<open>The pieces of the scripts\<close>

lemma generationE:
  assumes "has_generation now jid g st"
  obtains mt e where "lc_meta st jid = Some (mt, e)" "unexpired now e" "stored_meta st jid = Some mt" "meta_of now jid st = Some mt"
    "jm_generation mt = Some g"
  using assms by (auto simp: has_generation_def meta_of_def lookup_live_def stored_meta_def bind_eq_Some_conv split: option.splits if_splits)

lemma stored_retain [simp]: "stored_meta (retain_job now ttl jid st) = stored_meta st"
  by (auto simp: stored_meta_def retain_job_def pexpire_def lookup_live_def fun_eq_iff split: option.splits if_splits)

lemma stored_simps [simp]: "stored_meta (publish p m k t st) = stored_meta st" "stored_meta (drop_lease l m st) = stored_meta st"
  "stored_meta (take_lease now l m s d w st) = stored_meta st"
  by (auto simp: stored_meta_def publish_def drop_lease_def take_lease_def set_owner_def set_leased_def fun_eq_iff)

lemma stored_set_meta: "stored_meta (set_meta now jid f st) = (stored_meta st)(jid \<mapsto> f (case meta_of now jid st of Some mt \<Rightarrow> mt | None \<Rightarrow> no_meta))"
  by (auto simp: stored_meta_def set_meta_def meta_of_def lookup_live_def fun_eq_iff split: option.splits if_splits)

lemma meta_of_set_meta: "meta_of now jid (set_meta now jid f st) = Some (f (case meta_of now jid st of Some mt \<Rightarrow> mt | None \<Rightarrow> no_meta))"
  by (auto simp: set_meta_def meta_of_def lookup_live_def unexpired_def split: option.splits if_splits)

lemma about_simps [simp]: "about (retain_job now ttl jid st) = about st" "about (publish p m k t st) = about st" "about (set_meta now jid f st) = about st"
  by (simp_all add: about_def retain_job_def publish_def set_meta_def fun_eq_iff)

definition ledger :: "lifecycle \<Rightarrow> nat \<times> int \<times> int \<times> int \<times> int \<times> (lane \<Rightarrow> nat zset)" where
  "ledger st = (lc_generation st, lc_jobs st, lc_base_bytes st, lc_terminal_bytes st, lc_dlq_bytes st, lc_dlq st)"

lemma ledger_simps [simp]: "ledger (retain_job now ttl jid st) = ledger st" "ledger (publish p m k t st) = ledger st"
  "ledger (set_meta now jid f st) = ledger st" "ledger (drop_lease l m st) = ledger st" "ledger (take_lease now l m s d w st) = ledger st"
  by (simp_all add: ledger_def retain_job_def publish_def set_meta_def drop_lease_def take_lease_def set_owner_def set_leased_def)

lemma ledger_eqD: "ledger st' = ledger st \<Longrightarrow> in_bounds lims st' = in_bounds lims st"
  by (simp add: ledger_def in_bounds_def)

text \<open>What changes no view and no counter keeps the store tidy, if the metadata still describes its member.\<close>

lemma tidy_same:
  assumes "tidy lims home st" and "about st' = about st" and "ledger st' = ledger st" and "\<And>jid. meta_ok st' jid"
  shows "tidy lims home st'"
proof -
  have f: "lc_reservations st' = lc_reservations st" "lc_terminal_res st' = lc_terminal_res st" "lc_dlq_res st' = lc_dlq_res st"
    using assms(2) by (auto simp: about_def fun_eq_iff)
  with assms ledger_eqD [OF assms(3)] show ?thesis by (auto simp: tidy_def books_def ledger_def)
qed

lemma meta_ok_cong: "about st' = about st \<Longrightarrow> stored_meta st' jid = stored_meta st jid \<Longrightarrow> meta_ok st' jid = meta_ok st jid"
  by (auto simp: meta_ok_def about_def fun_eq_iff)

lemma tidy_retain: "tidy lims home st \<Longrightarrow> tidy lims home (retain_job now ttl jid st)"
  by (rule tidy_same) (auto simp: tidy_def meta_ok_cong [of "retain_job now ttl jid st" st])

lemma tidy_publish: "tidy lims home st \<Longrightarrow> tidy lims home (publish p m k t st)"
  by (rule tidy_same) (auto simp: tidy_def meta_ok_cong [of "publish p m k t st" st])

text \<open>Changes of the metadata that keep what it says about the member.\<close>

definition same_job :: "(job_meta \<Rightarrow> job_meta) \<Rightarrow> bool" where
  "same_job f \<longleftrightarrow> (\<forall>mt. jm_generation (f mt) = jm_generation mt \<and> jm_state (f mt) = jm_state mt \<and> jm_base_charge (f mt) = jm_base_charge mt \<and>
     jm_terminal_charge (f mt) = jm_terminal_charge mt)"

lemma tidy_set_meta:
  assumes "tidy lims home st" and "same_job f"
  shows "tidy lims home (set_meta now jid f st)"
proof (rule tidy_same [OF assms(1)])
  fix k
  show "meta_ok (set_meta now jid f st) k"
  proof (cases "k = jid")
    case False
    then have "stored_meta (set_meta now jid f st) k = stored_meta st k" by (simp add: stored_set_meta)
    with tidy_meta [OF assms(1), of k] meta_ok_cong [of "set_meta now jid f st" st k] show ?thesis by simp
  next
    case True
    have none: "jm_generation (f no_meta) = None" using assms(2) by (simp add: same_job_def no_meta_def)
    have f: "lc_reservations (set_meta now jid f st) = lc_reservations st" "lc_states (set_meta now jid f st) = lc_states st"
        "lc_terminal_res (set_meta now jid f st) = lc_terminal_res st" by (simp_all add: set_meta_def)
    show ?thesis
    proof (cases "meta_of now jid st")
      case None
      with True none show ?thesis by (simp add: meta_ok_def stored_set_meta)
    next
      case (Some mt)
      then have "stored_meta st jid = Some mt" by (auto simp: meta_of_def lookup_live_def stored_meta_def split: option.splits if_splits)
      with tidy_meta [OF assms(1), of jid] assms(2) True Some f show ?thesis by (auto simp: meta_ok_def stored_set_meta same_job_def)
    qed
  qed
qed simp_all

lemma tidy_request_cancel: "tidy lims home st \<Longrightarrow> tidy lims home (request_cancel now jid st)"
  unfolding request_cancel_def by (rule tidy_set_meta) (simp_all add: same_job_def)

lemma tidy_note_origin: "tidy lims home st \<Longrightarrow> tidy lims home (note_origin now jid st)"
  by (simp add: note_origin_def tidy_request_cancel)

lemma about_note [simp]: "about (note_origin now jid st) = about st" "about (request_cancel now jid st) = about st"
  by (simp_all add: note_origin_def request_cancel_def)

lemma ledger_note [simp]: "ledger (note_origin now jid st) = ledger st" "ledger (request_cancel now jid st) = ledger st"
  by (simp_all add: note_origin_def request_cancel_def)

lemma note_meta:
  assumes "meta_of now jid st = Some mt"
  shows "\<exists>c. meta_of now jid (note_origin now jid st) = Some (mt\<lparr>jm_cancel_requested := c\<rparr>) \<and>
      stored_meta (note_origin now jid st) jid = Some (mt\<lparr>jm_cancel_requested := c\<rparr>)"
proof (cases "origin_expired now jid st")
  case True
  with assms show ?thesis by (intro exI [of _ True]) (simp add: note_origin_def request_cancel_def meta_of_set_meta stored_set_meta)
next
  case False
  from assms have "stored_meta st jid = Some mt" by (auto simp: meta_of_def lookup_live_def stored_meta_def split: option.splits if_splits)
  moreover have "mt\<lparr>jm_cancel_requested := jm_cancel_requested mt\<rparr> = mt" by simp
  ultimately show ?thesis using False assms by (intro exI [of _ "jm_cancel_requested mt"]) (simp only: note_origin_def if_False)
qed

lemma generation_note: "has_generation now jid g (note_origin now jid st) = has_generation now jid g st"
proof (cases "meta_of now jid st")
  case None
  then show ?thesis by (simp add: note_origin_def request_cancel_def has_generation_def meta_of_set_meta no_meta_def)
next
  case (Some mt)
  with note_meta [OF Some] show ?thesis by (auto simp: has_generation_def)
qed

lemma number_note:
  assumes "has_generation now jid g st"
  shows "meta_number now jid jm_terminal_charge (note_origin now jid st) = meta_number now jid jm_terminal_charge st"
    and "meta_number now jid jm_base_charge (note_origin now jid st) = meta_number now jid jm_base_charge st"
  using assms note_meta [of now jid st] by (auto simp: has_generation_def meta_number_def bind_eq_Some_conv)

end
