(* ===== verification/LifecycleSteps.thy ===== *)
theory LifecycleSteps
  imports LifecycleLaws
begin

text \<open>Every script of the distributed job store keeps it tidy, whatever its arguments and in whatever order the scripts run.\<close>

section \<open>One job moves\<close>

text \<open>What is known of a job whose generation a script has checked.\<close>

definition held :: "(string \<Rightarrow> lane) \<Rightarrow> nat \<Rightarrow> lifecycle \<Rightarrow> member \<Rightarrow> job_meta \<Rightarrow> nat \<Rightarrow> nat \<Rightarrow> job_state \<Rightarrow> bool" where
  "held home now st m mt base t s \<longleftrightarrow>
     meta_of now (fst m) st = Some mt \<and> jm_generation mt = Some (snd m) \<and> jm_base_charge mt = Some base \<and> jm_state mt = Some s \<and>
     lc_reservations st m = Some base \<and> lc_terminal_res st m = Some t \<and> lc_states st m = Some s \<and>
     lc_dlq_res st m = Some (if s = Dlq then base else 0) \<and> lc_scopes st m = Some (fst (home (fst m))) \<and>
     lc_providers st m = Some (snd (home (fst m))) \<and> m \<in> zmembers (lc_expiry st) \<and> placed (home (fst m)) s (about st m) \<and> charged_ok s t \<and>
     (open_state s \<longrightarrow> charge_of (jm_terminal_charge mt) = t)"

lemma held_job:
  assumes "tidy lims home st" and "has_generation now (fst m) (snd m) st"
  obtains mt base t s where "held home now st m mt base t s"
proof -
  from assms(2) obtain mt where mt: "meta_of now (fst m) st = Some mt" "stored_meta st (fst m) = Some mt" "jm_generation mt = Some (snd m)"
    by (rule generationE)
  with tidy_meta [OF assms(1), of "fst m"] obtain base s where
    b: "jm_base_charge mt = Some base" "lc_reservations st m = Some base" "jm_state mt = Some s" "lc_states st m = Some s"
    "open_state s \<longrightarrow> lc_terminal_res st m = Some (charge_of (jm_terminal_charge mt))"
    by (auto simp: meta_ok_def)
  show ?thesis
  proof (cases rule: view_cases [OF assms(1), of m])
    case 1
    with b(2) show ?thesis by (simp add: about_def absent_view_def)
  next
    case (2 base' t s')
    with b mt have "held home now st m mt base t s" by (auto simp: held_def)
    with that show ?thesis .
  qed
qed

lemma meta_state_held: "meta_of now jid st = Some mt \<Longrightarrow> meta_state now jid st = jm_state mt"
  by (simp add: meta_state_def)

lemma meta_number_held: "meta_of now jid st = Some mt \<Longrightarrow> meta_number now jid f st = charge_of (f mt)"
  by (simp add: meta_number_def charge_of_def)

text \<open>The rule for a job that stays reserved.\<close>

lemma tidy_move:
  assumes "tidy lims home st" and "about st' = (about st)(m := v)" and "stored_meta st' = (stored_meta st)(fst m \<mapsto> mt)"
    and "lc_reservations st m = Some base" and "jv_base v = Some base" and "view_ok (home (fst m)) v"
    and "jm_generation mt = Some (snd m)" and "jm_base_charge mt = Some base" and "jm_state mt = jv_state v"
    and "\<And>s. jv_state v = Some s \<Longrightarrow> open_state s \<Longrightarrow> jv_charge v = Some (charge_of (jm_terminal_charge mt))"
    and "lc_generation st' = lc_generation st" "lc_jobs st' = lc_jobs st" "lc_base_bytes st' = lc_base_bytes st"
    and "lc_terminal_bytes st' = lc_terminal_bytes st + int (charge_of (jv_charge v)) - int (charge_of (lc_terminal_res st m))"
    and "lc_dlq_bytes st' = lc_dlq_bytes st + int (charge_of (jv_dlq_charge v)) - int (charge_of (lc_dlq_res st m))"
    and "lc_terminal_bytes st' \<le> int (ll_max_terminal_bytes lims)" and "lc_dlq_bytes st' \<le> int DLQ_MAX_BYTES"
    and "\<And>l. length (lc_dlq st' l) \<le> DLQ_MAX_COUNT"
  shows "tidy lims home st'"
proof (rule tidy_step [OF assms(1), of m])
  have v: "about st' m = v" using assms(2) by simp
  then have f: "lc_reservations st' m = jv_base v" "lc_terminal_res st' m = jv_charge v" "lc_dlq_res st' m = jv_dlq_charge v"
      "lc_states st' m = jv_state v" by (auto simp: about_def)
  show "local_to m st st'" using assms(2,3) by (simp add: local_to_def)
  show "booked m st st'" using assms(4,5,12-15) f by (simp add: booked_def)
  show "in_bounds lims st'" using assms(1,12,13,16-18) by (simp add: tidy_def in_bounds_def)
  show "view_ok (home (fst m)) (about st' m)" using assms(6) v by simp
  from assms(5,6) obtain s where "jv_state v = Some s" by (auto simp: view_ok_def absent_view_def)
  with assms(3,5,7-10) f show "meta_ok st' (fst m)" by (auto simp: meta_ok_def)
  show "lc_generation st \<le> lc_generation st'" using assms(11) by simp
  show "snd m \<le> lc_generation st'" using assms(1,4,11) by (auto simp: tidy_def)
qed

lemma tidy_moveI:
  assumes "tidy lims home st" and "held home now st m mt0 base t0 s0" and "about st' = (about st)(m := v)" and "stored_meta st' = (stored_meta st)(fst m \<mapsto> mt)"
    and "jv_base v = Some base" "jv_scope v = jv_scope (about st m)" "jv_provider v = jv_provider (about st m)" "jv_indexed v"
    and "jv_state v = Some s" "jv_charge v = Some t" "jv_dlq_charge v = Some (if s = Dlq then base else 0)" "placed (home (fst m)) s v" "charged_ok s t"
    and "jm_generation mt = Some (snd m)" "jm_base_charge mt = Some base" "jm_state mt = Some s" "open_state s \<Longrightarrow> charge_of (jm_terminal_charge mt) = t"
    and "lc_generation st' = lc_generation st" "lc_jobs st' = lc_jobs st" "lc_base_bytes st' = lc_base_bytes st"
    and "lc_terminal_bytes st' = lc_terminal_bytes st + int t - int t0"
    and "lc_dlq_bytes st' = lc_dlq_bytes st + int (if s = Dlq then base else 0) - int (if s0 = Dlq then base else 0)"
    and "lc_terminal_bytes st' \<le> int (ll_max_terminal_bytes lims)" and "lc_dlq_bytes st' \<le> int DLQ_MAX_BYTES"
    and "\<And>l. length (lc_dlq st' l) \<le> DLQ_MAX_COUNT"
  shows "tidy lims home st'"
proof (rule tidy_move [OF assms(1,3,4), of base])
  show "view_ok (home (fst m)) v"
    using assms(2,5-13) by (intro view_okI [of v base t s]) (simp_all add: held_def about_def)
qed (use assms in \<open>auto simp: held_def\<close>)

text \<open>The metadata after a script wrote it.\<close>

lemma stored_written:
  assumes "meta_of now jid st = Some mt" and "lc_meta st' = lc_meta st"
  shows "stored_meta (set_meta now jid f st') = (stored_meta st)(jid \<mapsto> f mt)"
proof -
  have "meta_of now jid st' = Some mt" using assms unfolding meta_of_def by simp
  moreover have "stored_meta st' = stored_meta st" using assms(2) by (simp add: stored_meta_def fun_eq_iff)
  ultimately show ?thesis by (simp add: stored_set_meta)
qed

lemma piece_ledger [simp]:
  "lc_generation (retain_job now ttl jid st) = lc_generation st" "lc_jobs (retain_job now ttl jid st) = lc_jobs st" "lc_base_bytes (retain_job now ttl jid st) = lc_base_bytes st" "lc_terminal_bytes (retain_job now ttl jid st) = lc_terminal_bytes st" "lc_dlq_bytes (retain_job now ttl jid st) = lc_dlq_bytes st" "lc_dlq (retain_job now ttl jid st) = lc_dlq st"
  "lc_generation (publish p m k x st) = lc_generation st" "lc_jobs (publish p m k x st) = lc_jobs st" "lc_base_bytes (publish p m k x st) = lc_base_bytes st" "lc_terminal_bytes (publish p m k x st) = lc_terminal_bytes st" "lc_dlq_bytes (publish p m k x st) = lc_dlq_bytes st" "lc_dlq (publish p m k x st) = lc_dlq st"
  "lc_generation (set_meta now jid f st) = lc_generation st" "lc_jobs (set_meta now jid f st) = lc_jobs st" "lc_base_bytes (set_meta now jid f st) = lc_base_bytes st" "lc_terminal_bytes (set_meta now jid f st) = lc_terminal_bytes st" "lc_dlq_bytes (set_meta now jid f st) = lc_dlq_bytes st" "lc_dlq (set_meta now jid f st) = lc_dlq st"
  "lc_generation (drop_lease l m st) = lc_generation st" "lc_jobs (drop_lease l m st) = lc_jobs st" "lc_base_bytes (drop_lease l m st) = lc_base_bytes st" "lc_terminal_bytes (drop_lease l m st) = lc_terminal_bytes st" "lc_dlq_bytes (drop_lease l m st) = lc_dlq_bytes st" "lc_dlq (drop_lease l m st) = lc_dlq st"
  "lc_generation (take_lease now l m r d w st) = lc_generation st" "lc_jobs (take_lease now l m r d w st) = lc_jobs st" "lc_base_bytes (take_lease now l m r d w st) = lc_base_bytes st" "lc_terminal_bytes (take_lease now l m r d w st) = lc_terminal_bytes st" "lc_dlq_bytes (take_lease now l m r d w st) = lc_dlq_bytes st" "lc_dlq (take_lease now l m r d w st) = lc_dlq st"
  by (simp_all add: retain_job_def publish_def set_meta_def drop_lease_def take_lease_def set_owner_def set_leased_def)

lemma about_drop [simp]:
  "about (drop_lease l m st) = (about st)(m := (about st m)\<lparr>jv_leased := (jv_leased (about st m))(l := False),
     jv_owned := (jv_owned (about st m))(l := False), jv_scored := (jv_scored (about st m))(l := False)\<rparr>)"
  by (auto simp: drop_lease_def set_owner_def set_leased_def about_def fun_eq_iff)

lemma about_take [simp]:
  "about (take_lease now l m r d w st) = (about st)(m := (about st m)\<lparr>jv_queued := (jv_queued (about st m))(l := False),
     jv_leased := (jv_leased (about st m))(l := True), jv_owned := (jv_owned (about st m))(l := True), jv_scored := (jv_scored (about st m))(l := True)\<rparr>)"
  by (auto simp: take_lease_def set_owner_def set_leased_def about_def fun_eq_iff)

lemma in_boundsD: "in_bounds lims st \<Longrightarrow> lc_terminal_bytes st \<le> int (ll_max_terminal_bytes lims) \<and> lc_dlq_bytes st \<le> int DLQ_MAX_BYTES \<and>
    (\<forall>l. length (lc_dlq st l) \<le> DLQ_MAX_COUNT)"
  by (simp add: in_bounds_def)

section \<open>The origin\<close>

lemmas move_simps = held_def about_def fun_eq_iff open_state_def view_ok_def placed_def charged_ok_def

lemma activate_tidy:
  assumes "tidy lims home st"
  shows "tidy lims home (snd (activate_script now (home (fst m)) m priority ttl cap st))"
proof (cases "has_generation now (fst m) (snd m) st \<and> meta_state now (fst m) st = Some PendingOrigin \<and> waiting_jobs (home (fst m)) st < cap")
  case False
  with assms show ?thesis by (auto simp: activate_script_def Let_def)
next
  case True
  then obtain mt base t s where h: "held home now st m mt base t s" using held_job [OF assms] by metis
  with True have s: "s = PendingOrigin" by (simp add: meta_state_held held_def)
  let ?v = "(about st m)\<lparr>jv_state := Some Waiting, jv_queued := (jv_queued (about st m))(home (fst m) := True)\<rparr>"
  from True show ?thesis
    by (simp add: activate_script_def Let_def, intro tidy_move [OF assms, of _ m ?v "mt\<lparr>jm_state := Some Waiting\<rparr>" base])
      (use h s in_boundsD [OF tidy_bounds [OF assms]] in \<open>auto simp: move_simps stored_written [of now "fst m" st mt]\<close>)
qed

lemma end_unleased_tidy:
  assumes "tidy lims home st" and "held home now st m mt base t s" and "s = PendingOrigin \<or> s = Waiting" and "same_job note"
  shows "tidy lims home (end_unleased now (home (fst m)) m ttl note envelope st)"
proof -
  let ?v = "(about st m)\<lparr>jv_state := Some Terminal, jv_queued := (jv_queued (about st m))(home (fst m) := False)\<rparr>"
  show ?thesis
    by (simp add: end_unleased_def Let_def, intro tidy_move [OF assms(1), of _ m ?v "note (mt\<lparr>jm_state := Some Terminal, jm_terminal_charge := Some 0\<rparr>)" base])
      (use assms(2-4) in_boundsD [OF tidy_bounds [OF assms(1)]] in \<open>auto simp: move_simps same_job_def stored_written [of now "fst m" st mt]\<close>)
qed

lemma tidy_forget: "tidy lims home st \<Longrightarrow> tidy lims home (st\<lparr>lc_origin_expiry := z\<rparr>)"
  by (simp add: tidy_def about_def meta_ok_def stored_meta_def books_def in_bounds_def)

lemma cancel_tidy:
  assumes "tidy lims home st"
  shows "tidy lims home (snd (cancel_script now (home (fst m)) m ttl token envelope st))"
proof (cases "has_generation now (fst m) (snd m) st")
  case True
  then obtain mt base t s where h: "held home now st m mt base t s" using held_job [OF assms] by metis
  then have "meta_state now (fst m) st = Some s" by (simp add: held_def meta_state_held)
  with assms True end_unleased_tidy [OF assms h, of id ttl envelope] show ?thesis
    by (auto simp: cancel_script_def Let_def same_job_def intro: tidy_publish tidy_request_cancel tidy_forget)
qed (simp add: cancel_script_def assms)

lemma heartbeat_tidy:
  assumes "tidy lims home st"
  shows "tidy lims home (snd (origin_heartbeat_script now m token lease st))"
  using assms by (auto simp: origin_heartbeat_script_def Let_def same_job_def intro!: tidy_set_meta tidy_forget tidy_request_cancel)

lemma expire_one_tidy:
  assumes "tidy lims home st"
  shows "tidy lims home (snd (expire_origin now ttl envelope m st))"
proof (cases "has_generation now (fst m) (snd m) st")
  case True
  then obtain mt base t s where h: "held home now st m mt base t s" using held_job [OF assms] by metis
  then have "meta_state now (fst m) st = Some s" "lc_scopes st m = Some (fst (home (fst m)))" "lc_providers st m = Some (snd (home (fst m)))"
    by (simp_all add: held_def meta_state_held)
  with assms True end_unleased_tidy [OF assms h, of "\<lambda>mt. mt\<lparr>jm_cancel_requested := True\<rparr>" ttl envelope] show ?thesis
    by (auto simp: expire_origin_def Let_def same_job_def intro!: tidy_publish tidy_request_cancel tidy_forget)
qed (simp add: expire_origin_def assms tidy_forget)

lemma batch_Cons: "snd (batch f (m # ms) st) = snd (batch f ms (snd (f m st)))"
  by (simp split: prod.split)

lemma batch_keeps: "(\<And>m st. P st \<Longrightarrow> P (snd (f m st))) \<Longrightarrow> P st \<Longrightarrow> P (snd (batch f ms st))"
proof (induction ms arbitrary: st)
  case (Cons m ms)
  from Cons.IH [OF Cons.prems(1)] Cons.prems(1) [OF Cons.prems(2), of m] show ?case unfolding batch_Cons by simp
qed simp

lemma expire_tidy: "tidy lims home st \<Longrightarrow> tidy lims home (snd (expire_origins_script now limit ttl envelope st))"
  unfolding expire_origins_script_def by (rule batch_keeps) (simp_all add: expire_one_tidy)

lemma fresh_generation: "tidy lims home st \<Longrightarrow> about st (jid, Suc (lc_generation st)) = absent_view"
  by (simp add: absent_iff) (force simp: tidy_def)

lemma reserve_tidy:
  assumes "tidy lims home st" and "sb_lane sb = home (sb_id sb)"
  shows "tidy lims home (snd (reserve_script lims now sb st))"
proof -
  let ?m = "(sb_id sb, Suc (lc_generation st))" and ?charge = "length (sb_payload sb) + METADATA_BYTES"
  note a = fresh_generation [OF assms(1), of "sb_id sb"]
  have n: "lc_reservations st ?m = None" "lc_terminal_res st ?m = None" "lc_dlq_res st ?m = None"
    using a by (simp_all add: about_def absent_view_def)
  show ?thesis
  proof (cases "meta_of now (sb_id sb) st = None \<and> \<not> list_ex (\<lambda>k. 0 < lc_old st k) (old_sets [OldQueue, OldProcessing] (snd (sb_lane sb))) \<and>
      lc_jobs st < int (ll_max_jobs lims) \<and> lc_base_bytes st + int ?charge \<le> int (ll_max_base_bytes lims)")
    case False
    with assms(1) show ?thesis by (auto simp: reserve_script_def Let_def split: option.splits)
  next
    case True
    with assms(1) have b: "in_bounds lims (st\<lparr>lc_jobs := lc_jobs st + 1, lc_base_bytes := lc_base_bytes st + int ?charge\<rparr>)"
      by (auto simp: tidy_def in_bounds_def)
    from True show ?thesis
      by (simp add: reserve_script_def Let_def, intro tidy_step [OF assms(1), of ?m])
        (use a n b assms(2) in \<open>auto simp: local_to_def about_def absent_view_def stored_meta_def booked_def in_bounds_def view_ok_def placed_def charged_ok_def
          meta_ok_def open_state_def nowhere_def fun_eq_iff\<close>)
  qed
qed

section \<open>The worker\<close>

definition roomy :: "lifecycle_limits \<Rightarrow> bool" where
  "roomy lims \<longleftrightarrow> MIN_TERMINAL_BYTES \<le> ll_unary_terminal_bytes lims \<and> MIN_TERMINAL_BYTES \<le> ll_stream_terminal_bytes lims"

lemma limits_roomy: "roomy (limits_from_env var)"
  by (simp add: roomy_def limits_from_env_def Let_def)

lemma envelope_fits: "length CANCEL_ENVELOPE \<le> MIN_TERMINAL_BYTES" "0 < length CANCEL_ENVELOPE"
  by (simp_all add: CANCEL_ENVELOPE_def MIN_TERMINAL_BYTES_def)

lemma tidy_dequeue:
  assumes "tidy lims home st"
  shows "tidy lims home (st\<lparr>lc_queue := (lc_queue st)(l := zrem m (lc_queue st l))\<rparr>)"
proof (rule tidy_step [OF assms, of m])
  let ?st = "st\<lparr>lc_queue := (lc_queue st)(l := zrem m (lc_queue st l))\<rparr>"
  show "local_to m st ?st" by (auto simp: local_to_def about_def stored_meta_def fun_eq_iff)
  show "view_ok (home (fst m)) (about ?st m)"
  proof (cases rule: view_cases [OF assms, of m])
    case 1
    then have "about ?st m = absent_view" by (auto simp: about_def absent_view_def nowhere_def fun_eq_iff)
    then show ?thesis by (simp add: view_ok_def)
  next
    case (2 base t s)
    then show ?thesis by (intro view_okI [of _ base t s]) (auto simp: about_def placed_def)
  qed
qed (use assms in \<open>auto simp: booked_def tidy_def in_bounds_def meta_ok_def stored_meta_def\<close>)

lemma queued_lane: "tidy lims home st \<Longrightarrow> m \<in> zmembers (lc_queue st l) \<Longrightarrow> l = home (fst m)"
  using tidy_view [of lims home st m] by (auto simp: view_ok_def about_def absent_view_def nowhere_def placed_def fun_eq_iff)

lemma owned_leased:
  assumes "tidy lims home st" and "lc_owners st l m \<noteq> None"
  shows "l = home (fst m)" and "lc_states st m = Some Processing" and "m \<in> zmembers (lc_processing st l)"
  using tidy_view [OF assms(1), of m] assms(2) by (auto simp: view_ok_def about_def absent_view_def nowhere_def placed_def fun_eq_iff)

lemma lease_core:
  assumes "tidy lims home st" and "held home now st m mt base t Waiting" and "jv_queued (about st m) (home (fst m))"
    and "length CANCEL_ENVELOPE \<le> c" and "0 < t \<Longrightarrow> c = t"
    and "t = 0 \<Longrightarrow> lc_terminal_bytes st + int c \<le> int (ll_max_terminal_bytes lims)"
  shows "tidy lims home (retain_job now d (fst m) (set_meta now (fst m)
      (\<lambda>mt. mt\<lparr>jm_state := Some Processing, jm_owner := Some owner, jm_terminal_charge := Some c\<rparr>)
      (take_lease now (home (fst m)) m score lease_ms owner
        (st\<lparr>lc_terminal_bytes := lc_terminal_bytes st + (if t = 0 then int c else 0), lc_terminal_res := (lc_terminal_res st)(m \<mapsto> c),
           lc_states := (lc_states st)(m \<mapsto> Processing), lc_expiry := zadd e m (lc_expiry st)\<rparr>))))"
proof -
  let ?h = "home (fst m)"
  let ?v = "(about st m)\<lparr>jv_charge := Some c, jv_state := Some Processing, jv_queued := (jv_queued (about st m))(?h := False),
      jv_leased := (jv_leased (about st m))(?h := True), jv_owned := (jv_owned (about st m))(?h := True), jv_scored := (jv_scored (about st m))(?h := True)\<rparr>"
  have w: "lc_meta (take_lease now l m score lease_ms owner st) = lc_meta st" for l st
    by (simp add: take_lease_def set_owner_def set_leased_def)
  show ?thesis
  proof (rule tidy_moveI [OF assms(1,2), of _ ?v "mt\<lparr>jm_state := Some Processing, jm_owner := Some owner, jm_terminal_charge := Some c\<rparr>" Processing c], goal_cases)
    case 1
    show ?case using assms(2) by (simp add: fun_eq_iff) (simp add: about_def held_def)
  next
    case 10
    show ?case using assms(2) by (auto simp: held_def placed_def)
  qed (use assms(2-6) in_boundsD [OF tidy_bounds [OF assms(1)]] in \<open>simp_all add: held_def about_def charged_ok_def w stored_written [of now "fst m" st mt]\<close>)
qed

lemma owner_note [simp]: "lc_owners (note_origin now jid st) = lc_owners st" "lc_processing (note_origin now jid st) = lc_processing st"
  "lc_states (note_origin now jid st) = lc_states st" "lc_leased (note_origin now jid st) = lc_leased st"
  by (simp_all add: note_origin_def request_cancel_def set_meta_def)

lemma held_note:
  assumes "tidy lims home st" and "has_generation now (fst m) (snd m) st"
  obtains mt base t s where "held home now (note_origin now (fst m) st) m mt base t s" "lc_states st m = Some s"
proof -
  have "has_generation now (fst m) (snd m) (note_origin now (fst m) st)" using assms(2) by (simp add: generation_note)
  then obtain mt base t s where h: "held home now (note_origin now (fst m) st) m mt base t s"
    by (rule held_job [OF tidy_note_origin [OF assms(1), of now "fst m"]])
  moreover have "lc_states (note_origin now (fst m) st) = lc_states st" by (simp add: note_origin_def request_cancel_def set_meta_def)
  ultimately show ?thesis using that by (auto simp: held_def)
qed

lemma lease_tidy:
  assumes "tidy lims home st" and "roomy lims"
  shows "tidy lims home (snd (lease_script lims now l lease_ms owner timeout st))"
proof (cases "lc_queue st l")
  case Nil
  with assms(1) show ?thesis by (simp add: lease_script_def)
next
  case (Cons e z)
  obtain score m where e: "e = (score, m)" by (cases e) auto
  let ?st = "note_origin now (fst m) st"
  have q: "m \<in> zmembers (lc_queue st l)" using Cons e by (simp add: zmembers_def)
  have t1: "tidy lims home ?st" by (rule tidy_note_origin [OF assms(1)])
  show ?thesis
  proof (cases "has_generation now (fst m) (snd m) st \<and> meta_state now (fst m) st = Some Waiting")
    case False
    with Cons e tidy_dequeue [OF assms(1), of l m] show ?thesis by (auto simp: lease_script_def Let_def)
  next
    case True
    obtain mt base t s where h: "held home now ?st m mt base t s" "lc_states st m = Some s"
      using held_note [OF assms(1)] True by metis
    obtain mt' base' t' s' where h': "held home now st m mt' base' t' s'" using held_job [OF assms(1)] True by metis
    with True h(2) have s: "s = Waiting" by (auto simp: held_def meta_state_held)
    have c: "meta_number now (fst m) jm_terminal_charge ?st = t" using h(1) s by (simp add: held_def meta_number_held open_state_def)
    have qq: "jv_queued (about ?st m) (home (fst m))" using q queued_lane [OF assms(1) q] by (simp add: about_def)
    have mt: "meta_of now (fst m) ?st = Some mt" using h(1) by (simp add: held_def)
    have env: "length CANCEL_ENVELOPE \<le> t" if "0 < t" using h(1) s that by (auto simp: held_def charged_ok_def open_state_def)
    have room: "length CANCEL_ENVELOPE \<le> ll_unary_terminal_bytes lims" "length CANCEL_ENVELOPE \<le> ll_stream_terminal_bytes lims"
      using assms(2) envelope_fits(1) by (auto simp: roomy_def)
    have l: "l = home (fst m)" by (rule queued_lane [OF assms(1) q])
    note core = lease_core [OF t1 h(1) [unfolded s] qq]
    have new: "tidy lims home (retain_job now d (fst m) (set_meta now (fst m)
        (\<lambda>mt. mt\<lparr>jm_state := Some Processing, jm_owner := Some owner, jm_terminal_charge := Some c\<rparr>)
        (take_lease now l m score lease_ms owner (?st\<lparr>lc_terminal_bytes := lc_terminal_bytes ?st + int c,
          lc_terminal_res := (lc_terminal_res ?st)(m \<mapsto> c), lc_states := (lc_states st)(m \<mapsto> Processing), lc_expiry := zadd e m (lc_expiry ?st)\<rparr>))))"
      if "t = 0" "length CANCEL_ENVELOPE \<le> c" "lc_terminal_bytes ?st + int c \<le> int (ll_max_terminal_bytes lims)" for c d e
      using core [of c d owner score lease_ms e] that l by simp
    have again: "tidy lims home (retain_job now d (fst m) (set_meta now (fst m)
        (\<lambda>mt. mt\<lparr>jm_state := Some Processing, jm_owner := Some owner, jm_terminal_charge := Some t\<rparr>)
        (take_lease now l m score lease_ms owner (?st\<lparr>lc_terminal_res := (lc_terminal_res ?st)(m \<mapsto> t), lc_states := (lc_states st)(m \<mapsto> Processing), lc_expiry := zadd e m (lc_expiry ?st)\<rparr>))))"
      if "0 < t" for d e
      using core [of t d owner score lease_ms e] that l env by simp
    from True Cons e t1 s mt room show ?thesis
      by (auto simp: lease_script_def Let_def c split: option.splits intro!: new again)
  qed
qed

lemma drop_core:
  assumes "tidy lims home st" and "lc_owners st l m \<noteq> None"
  shows "tidy lims home (drop_lease l m st)"
proof (rule tidy_step [OF assms(1), of m])
  have l: "l = home (fst m)" by (rule owned_leased [OF assms])
  show "view_ok (home (fst m)) (about (drop_lease l m st) m)"
  proof (cases rule: view_cases [OF assms(1), of m])
    case 1
    with assms(2) show ?thesis by (auto simp: about_def absent_view_def nowhere_def fun_eq_iff)
  next
    case (2 base t s)
    then show ?thesis by (intro view_okI [of _ base t s]) (auto simp: about_def placed_def)
  qed
  show "local_to m st (drop_lease l m st)" by (simp add: local_to_def)
  show "in_bounds lims (drop_lease l m st)" using assms(1) by (simp add: tidy_def in_bounds_def)
  show "meta_ok (drop_lease l m st) (fst m)"
    using tidy_meta [OF assms(1), of "fst m"] by (simp add: meta_ok_def) (simp add: drop_lease_def set_owner_def set_leased_def)
qed (use assms in \<open>auto simp: booked_def tidy_def drop_lease_def set_owner_def set_leased_def\<close>)

lemma ack_tidy: "tidy lims home st \<Longrightarrow> tidy lims home (snd (ack_script l m owner st))"
  by (simp add: ack_script_def drop_core)

lemma release_core:
  assumes "tidy lims home st" and "held home now st m mt base t Processing"
  shows "tidy lims home (drop_lease (home (fst m)) m (set_meta now (fst m) (\<lambda>mt. mt\<lparr>jm_state := Some Waiting, jm_owner := Some [], jm_terminal_charge := Some 0\<rparr>)
      (st\<lparr>lc_terminal_bytes := lc_terminal_bytes st - int t, lc_terminal_res := (lc_terminal_res st)(m \<mapsto> 0),
         lc_states := (lc_states st)(m \<mapsto> Waiting), lc_queue := (lc_queue st)(home (fst m) := zadd score m (lc_queue st (home (fst m))))\<rparr>)))"
proof -
  let ?h = "home (fst m)"
  let ?v = "(about st m)\<lparr>jv_charge := Some 0, jv_state := Some Waiting, jv_queued := (jv_queued (about st m))(?h := True),
      jv_leased := (jv_leased (about st m))(?h := False), jv_owned := (jv_owned (about st m))(?h := False), jv_scored := (jv_scored (about st m))(?h := False)\<rparr>"
  show ?thesis
  proof (rule tidy_moveI [OF assms, of _ ?v "mt\<lparr>jm_state := Some Waiting, jm_owner := Some [], jm_terminal_charge := Some 0\<rparr>" Waiting 0], goal_cases)
    case 1
    show ?case by (simp add: fun_eq_iff) (auto simp: about_def)
  next
    case 10
    show ?case using assms(2) by (auto simp: held_def placed_def)
  qed (use assms(2) in_boundsD [OF tidy_bounds [OF assms(1)]] in
      \<open>simp_all add: held_def about_def charged_ok_def open_state_def stored_written [of now "fst m" st mt]\<close>)
qed

lemma release_tidy:
  assumes "tidy lims home st"
  shows "tidy lims home (snd (release_script now l m score owner st))"
proof (cases "lc_owners st l m = Some owner \<and> has_generation now (fst m) (snd m) st")
  case False
  with assms show ?thesis by (auto simp: release_script_def Let_def)
next
  case True
  let ?st = "note_origin now (fst m) st"
  have t1: "tidy lims home ?st" by (rule tidy_note_origin [OF assms])
  from True have o: "l = home (fst m)" "lc_states st m = Some Processing" using owned_leased [OF assms, of l m] by simp_all
  with held_note [OF assms, of now m] True obtain mt base t where h: "held home now ?st m mt base t Processing"
    by (metis option.inject)
  then have "meta_number now (fst m) jm_terminal_charge ?st = t" by (simp add: held_def meta_number_held open_state_def)
  with True t1 release_core [OF t1 h, of score] o(1) show ?thesis by (simp add: release_script_def Let_def)
qed

lemma leased_held:
  assumes "tidy lims home st" and "holds_lease now l m owner st"
  obtains mt base t where "held home now (note_origin now (fst m) st) m mt base t Processing" "l = home (fst m)"
    "meta_number now (fst m) jm_terminal_charge st = t" "meta_number now (fst m) jm_base_charge st = base"
proof -
  from assms(2) have a: "lc_owners st l m \<noteq> None" "has_generation now (fst m) (snd m) st" by (simp_all add: holds_lease_def)
  note o = owned_leased [OF assms(1) a(1)]
  obtain mt base t s where h: "held home now (note_origin now (fst m) st) m mt base t s" "lc_states st m = Some s" using held_note [OF assms(1) a(2)] by metis
  with o(2) have s: "s = Processing" by simp
  with h(1) have "meta_number now (fst m) jm_terminal_charge (note_origin now (fst m) st) = t"
      "meta_number now (fst m) jm_base_charge (note_origin now (fst m) st) = base"
    by (simp_all add: held_def meta_number_held open_state_def)
  with that h(1) s o(1) number_note [OF a(2)] show ?thesis by simp
qed

lemma tidy_postpone:
  assumes "tidy lims home st"
  shows "tidy lims home (st\<lparr>lc_processing := (lc_processing st)(l := zadd_xx e m (lc_processing st l))\<rparr>)" (is "tidy _ _ ?st'")
proof (rule tidy_same [OF assms])
  show v: "about ?st' = about st" by (auto simp: about_def fun_eq_iff)
  have "stored_meta ?st' = stored_meta st" by (simp add: stored_meta_def fun_eq_iff)
  with tidy_meta [OF assms] meta_ok_cong [OF v] show "meta_ok ?st' jid" for jid by simp
qed (simp add: ledger_def)

lemma refresh_tidy: "tidy lims home st \<Longrightarrow> tidy lims home (snd (refresh_script now l m owner lease_ms st))"
  using tidy_postpone [OF tidy_note_origin] by (simp add: refresh_script_def Let_def tidy_note_origin)

lemma publish_script_tidy: "tidy lims home st \<Longrightarrow> tidy lims home (snd (publish_script now l m owner payload n st))"
  by (simp add: publish_script_def Let_def tidy_publish tidy_note_origin)

text \<open>The end of a delivery that stays reserved: a result, a cancellation, or the dead-letter set.\<close>

lemma finish_core:
  assumes "tidy lims home st" and "held home now st m mt base t Processing" and "t' \<le> t"
    and "dead \<Longrightarrow> lc_dlq_bytes st + int base \<le> int DLQ_MAX_BYTES" and "dead \<Longrightarrow> length (lc_dlq st (home (fst m))) < DLQ_MAX_COUNT"
    and "about st' = (about st)(m := (about st m)\<lparr>jv_charge := Some t', jv_state := Some (if dead then Dlq else Terminal),
        jv_dlq_charge := Some (if dead then base else 0), jv_dead := (jv_dead (about st m))(home (fst m) := dead),
        jv_leased := (jv_leased (about st m))(home (fst m) := False), jv_owned := (jv_owned (about st m))(home (fst m) := False),
        jv_scored := (jv_scored (about st m))(home (fst m) := False)\<rparr>)"
    and "stored_meta st' = (stored_meta st)(fst m \<mapsto> mt\<lparr>jm_state := Some (if dead then Dlq else Terminal), jm_terminal_charge := Some c\<rparr>)"
    and "lc_generation st' = lc_generation st" "lc_jobs st' = lc_jobs st" "lc_base_bytes st' = lc_base_bytes st"
    and "lc_terminal_bytes st' = lc_terminal_bytes st + int t' - int t" "lc_dlq_bytes st' = lc_dlq_bytes st + (if dead then int base else 0)"
    and "\<And>l. length (lc_dlq st' l) \<le> (if dead \<and> l = home (fst m) then Suc (length (lc_dlq st l)) else length (lc_dlq st l))"
  shows "tidy lims home st'"
proof (rule tidy_moveI [OF assms(1,2,6,7), of "if dead then Dlq else Terminal" t'], goal_cases)
  case 8
  show ?case using assms(2) by (auto simp: held_def placed_def)
next
  case (21 l)
  then show ?case using assms(5) assms(13) [of l] in_boundsD [OF tidy_bounds [OF assms(1)]] by (cases "dead \<and> l = home (fst m)") (auto intro: order_trans)
qed (use assms(2-5,8-12) in_boundsD [OF tidy_bounds [OF assms(1)]] in \<open>auto simp: held_def about_def charged_ok_def open_state_def split: if_splits\<close>)

lemma drop_meta [simp]: "lc_meta (drop_lease l m st) = lc_meta st" "lc_meta (publish p m k x st) = lc_meta st"
  by (simp_all add: drop_lease_def set_owner_def set_leased_def publish_def)

text \<open>The three ways a delivery ends, on a store in which the origin has been looked at.\<close>

definition finish_job :: "nat \<Rightarrow> lane \<Rightarrow> member \<Rightarrow> nat \<Rightarrow> nat \<Rightarrow> string \<Rightarrow> bool \<Rightarrow> lifecycle \<Rightarrow> lifecycle" where
  "finish_job now l m hard c result dead st =
     drop_lease l m (publish (fst l) m FinalFrame result (retain_job now hard (fst m)
       (set_meta now (fst m) (\<lambda>mt. mt\<lparr>jm_state := Some (if dead then Dlq else Terminal), jm_terminal_charge := Some c\<rparr>) st)))"

lemma about_finish: "about (finish_job now l m hard c result dead st) = (about st)(m := (about st m)\<lparr>jv_leased := (jv_leased (about st m))(l := False),
     jv_owned := (jv_owned (about st m))(l := False), jv_scored := (jv_scored (about st m))(l := False)\<rparr>)"
  by (simp add: finish_job_def)

lemma finish_tidy:
  assumes "tidy lims home st" and "held home now st m mt base t Processing" and "t' \<le> t"
    and "dead \<Longrightarrow> lc_dlq_bytes st + int base \<le> int DLQ_MAX_BYTES" and "dead \<Longrightarrow> length (lc_dlq st (home (fst m))) < DLQ_MAX_COUNT"
    and "about st' = (about st)(m := (about st m)\<lparr>jv_charge := Some t', jv_state := Some (if dead then Dlq else Terminal),
        jv_dlq_charge := Some (if dead then base else 0), jv_dead := (jv_dead (about st m))(home (fst m) := dead)\<rparr>)"
    and "lc_meta st' = lc_meta st"
    and "lc_generation st' = lc_generation st" "lc_jobs st' = lc_jobs st" "lc_base_bytes st' = lc_base_bytes st"
    and "lc_terminal_bytes st' = lc_terminal_bytes st + int t' - int t" "lc_dlq_bytes st' = lc_dlq_bytes st + (if dead then int base else 0)"
    and "\<And>l. length (lc_dlq st' l) \<le> (if dead \<and> l = home (fst m) then Suc (length (lc_dlq st l)) else length (lc_dlq st l))"
  shows "tidy lims home (finish_job now (home (fst m)) m hard c result dead st')"
proof (rule finish_core [OF assms(1-3), where c = c and dead = dead], goal_cases)
  case 3
  show ?case unfolding about_finish assms(6) by (simp add: fun_eq_iff)
next
  case 4
  show ?case using assms(2,7) by (simp add: finish_job_def stored_written [of now "fst m" st mt] held_def)
qed (use assms in \<open>simp_all add: finish_job_def\<close>)

lemma terminal_tidy:
  assumes "tidy lims home st"
  shows "tidy lims home (snd (terminal_script now l m owner payload envelope st))"
proof (cases "holds_lease now l m owner st")
  case True
  let ?st = "note_origin now (fst m) st"
  note t1 = tidy_note_origin [OF assms, of now "fst m"]
  from True obtain mt base t where h: "held home now ?st m mt base t Processing" "l = home (fst m)"
    "meta_number now (fst m) jm_terminal_charge st = t" using leased_held [OF assms] by metis
  define r where "r = (if cancel_requested now (fst m) ?st then envelope else payload)"
  define ttl where "ttl = DONE_TTL_SECS * 1000"
  have eq: "snd (terminal_script now l m owner payload envelope st) =
      (if t < length r then ?st
       else finish_job now l m (ttl + CLEANUP_GRACE_MS) (length r) r False
           (?st\<lparr>lc_terminal := (lc_terminal ?st)(fst m \<mapsto> (r, Some (now + (ttl + CLEANUP_GRACE_MS)))),
              lc_terminal_res := (lc_terminal_res ?st)(m \<mapsto> length r), lc_states := (lc_states ?st)(m \<mapsto> Terminal),
              lc_terminal_bytes := lc_terminal_bytes ?st + (int (length r) - int t),
              lc_expiry := zadd (now + ttl) m (lc_expiry ?st), lc_origin_expiry := zrem m (lc_origin_expiry ?st),
              lc_done := (lc_done ?st)((fst l, fst m) \<mapsto> ((), Some (now + ttl)))\<rparr>))"
    using True h(3) unfolding terminal_script_def finish_job_def Let_def r_def [symmetric] ttl_def [symmetric] by simp
  have fin: "tidy lims home (finish_job now (home (fst m)) m hard c r False
           (st\<lparr>lc_terminal := T, lc_terminal_res := (lc_terminal_res st)(m \<mapsto> length r), lc_states := (lc_states st)(m \<mapsto> Terminal),
              lc_terminal_bytes := lc_terminal_bytes st + (int (length r) - int t), lc_expiry := zadd x m (lc_expiry st), lc_origin_expiry := z, lc_done := D\<rparr>))"
    if "tidy lims home st" "held home now st m mt base t Processing" "length r \<le> t" for st hard c T x z D
  proof (rule finish_tidy [OF that, where dead = False], goal_cases)
    case 3
    show ?case using that(2) by (auto simp: held_def about_def placed_def fun_eq_iff)
  qed simp_all
  show ?thesis
  proof (cases "t < length r")
    case False
    then have "length r \<le> t" by simp
    from fin [OF t1 h(1) this] show ?thesis unfolding eq if_not_P [OF False] unfolding h(2) .
  qed (simp add: eq t1)
qed (simp add: terminal_script_def Let_def assms)

lemma dead_letter_tidy:
  assumes "tidy lims home st"
  shows "tidy lims home (snd (dead_letter_script now l m owner dlq_envelope envelope st))"
proof (cases "holds_lease now l m owner st")
  case True
  define canceled where "canceled = (cancel_requested now (fst m) st \<or> origin_expired now (fst m) st)"
  define s1 where "s1 = (if canceled then request_cancel now (fst m) st else st)"
  have t1: "tidy lims home s1" using assms by (simp add: s1_def tidy_request_cancel)
  have g: "has_generation now (fst m) (snd m) st" using True by (simp add: holds_lease_def)
  then have g1: "has_generation now (fst m) (snd m) s1"
    by (auto simp: s1_def request_cancel_def has_generation_def meta_of_set_meta bind_eq_Some_conv)
  have o: "lc_owners s1 l m \<noteq> None" using True by (simp add: s1_def holds_lease_def request_cancel_def set_meta_def)
  from owned_leased [OF t1 o] have l: "l = home (fst m)" and p: "lc_states s1 m = Some Processing" by simp_all
  from held_job [OF t1 g1] p obtain mt base t where h: "held home now s1 m mt base t Processing" by (metis held_def option.inject)
  have b: "meta_number now (fst m) jm_base_charge st = base"
    using h g by (auto simp: s1_def request_cancel_def held_def meta_number_def has_generation_def meta_of_set_meta bind_eq_Some_conv split: if_splits)
  have c: "meta_number now (fst m) jm_terminal_charge s1 = t" using h by (simp add: held_def meta_number_held open_state_def)
  define overflow where "overflow = (DLQ_MAX_COUNT \<le> length (lc_dlq s1 l) \<or> int DLQ_MAX_BYTES < lc_dlq_bytes s1 + int base)"
  define dead where "dead = (\<not> (canceled \<or> overflow))"
  define hard where "hard = (if canceled \<or> overflow then TERMINAL_TTL_MS else DLQ_TTL_MS)"
  define r where "r = (if canceled then envelope else dlq_envelope)"
  have eq: "snd (dead_letter_script now l m owner dlq_envelope envelope st) =
      finish_job now l m (hard + CLEANUP_GRACE_MS) 0 r dead
        (s1\<lparr>lc_terminal_bytes := lc_terminal_bytes s1 - int t, lc_terminal := (lc_terminal s1)(fst m \<mapsto> (r, Some (now + (hard + CLEANUP_GRACE_MS)))),
           lc_terminal_res := (lc_terminal_res s1)(m \<mapsto> 0), lc_dlq_res := (lc_dlq_res s1)(m \<mapsto> (if dead then base else 0)),
           lc_states := (lc_states s1)(m \<mapsto> (if dead then Dlq else Terminal)),
           lc_dlq_overflow := lc_dlq_overflow s1 + (if \<not> canceled \<and> overflow then 1 else 0),
           lc_dlq := (lc_dlq s1)(l := (if canceled then zrem m (lc_dlq s1 l) else if overflow then lc_dlq s1 l else zadd now m (lc_dlq s1 l))),
           lc_dlq_bytes := lc_dlq_bytes s1 + (if dead then int base else 0), lc_expiry := zadd (now + hard) m (lc_expiry s1),
           lc_origin_expiry := zrem m (lc_origin_expiry s1)\<rparr>)"
  proof -
    have "\<not> \<not> holds_lease now l m owner st" using True by simp
    then show ?thesis
      unfolding dead_letter_script_def finish_job_def Let_def if_not_P [OF \<open>\<not> \<not> holds_lease now l m owner st\<close>] snd_conv
        canceled_def [symmetric] s1_def [symmetric] b c overflow_def [symmetric] r_def [symmetric] hard_def [symmetric]
      by (cases "canceled \<or> overflow") (simp_all add: dead_def)
  qed
  show ?thesis
    unfolding eq unfolding l
  proof (rule finish_tidy [OF t1 h le0, where dead = dead], goal_cases)
    case 3
    show ?case using h l by (auto simp: held_def about_def placed_def fun_eq_iff dead_def overflow_def)
  next
    case (10 l')
    show ?case using length_zadd [of now m "lc_dlq s1 l"] length_zrem [of m "lc_dlq s1 l"] l by (auto simp: dead_def)
  qed (auto simp: dead_def overflow_def l)
qed (simp add: dead_letter_script_def Let_def assms)

section \<open>The reaper\<close>

lemma leased_owned:
  assumes "tidy lims home st" and "m \<in> zmembers (lc_processing st l)"
  shows "lc_owners st l m \<noteq> None" and "lc_leased st l m \<noteq> None"
  using tidy_view [OF assms(1), of m] assms(2) by (auto simp: view_ok_def about_def absent_view_def nowhere_def placed_def fun_eq_iff)

lemma reap_end:
  assumes "tidy lims home st" and "held home now st m mt base t Processing" and "length envelope \<le> length CANCEL_ENVELOPE"
  shows "tidy lims home (drop_lease (home (fst m)) m (retain_job now d (fst m)
      (set_meta now (fst m) (\<lambda>mt. mt\<lparr>jm_state := Some Terminal, jm_terminal_charge := Some (length envelope)\<rparr>)
        (st\<lparr>lc_terminal_bytes := lc_terminal_bytes st + (int (length envelope) - int t), lc_terminal := T,
           lc_terminal_res := (lc_terminal_res st)(m \<mapsto> length envelope), lc_states := (lc_states st)(m \<mapsto> Terminal),
           lc_expiry := zadd e m (lc_expiry st), lc_origin_expiry := z\<rparr>))))"
proof (rule finish_core [OF assms(1,2), where dead = False and c = "length envelope" and t' = "length envelope"], goal_cases)
  case 1
  show ?case using assms(2,3) by (auto simp: held_def charged_ok_def)
next
  case 4
  show ?case using assms(2) by (simp add: fun_eq_iff) (auto simp: held_def about_def placed_def)
qed (use assms(2) in \<open>simp_all add: held_def stored_written [of now "fst m" st mt]\<close>)

lemma reap_requeue:
  assumes "tidy lims home st" and "held home now st m mt base t Processing"
  shows "tidy lims home (drop_lease (home (fst m)) m (set_meta now (fst m) (\<lambda>mt. mt\<lparr>jm_state := Some Waiting, jm_owner := Some []\<rparr>)
      (st\<lparr>lc_queue := (lc_queue st)(home (fst m) := zadd score m (lc_queue st (home (fst m)))), lc_states := (lc_states st)(m \<mapsto> Waiting)\<rparr>)))"
proof -
  let ?h = "home (fst m)"
  let ?v = "(about st m)\<lparr>jv_state := Some Waiting, jv_queued := (jv_queued (about st m))(?h := True),
      jv_leased := (jv_leased (about st m))(?h := False), jv_owned := (jv_owned (about st m))(?h := False), jv_scored := (jv_scored (about st m))(?h := False)\<rparr>"
  show ?thesis
  proof (rule tidy_moveI [OF assms, of _ ?v "mt\<lparr>jm_state := Some Waiting, jm_owner := Some []\<rparr>" Waiting t], goal_cases)
    case 1
    show ?case by (simp add: fun_eq_iff) (auto simp: about_def)
  next
    case 10
    show ?case using assms(2) by (auto simp: held_def placed_def)
  qed (use assms(2) in_boundsD [OF tidy_bounds [OF assms(1)]] in
      \<open>simp_all add: held_def about_def charged_ok_def open_state_def stored_written [of now "fst m" st mt]\<close>)
qed

lemma reap_one_tidy:
  assumes "tidy lims home st" and "m \<in> zmembers (lc_processing st l)" and "length envelope \<le> length CANCEL_ENVELOPE"
  shows "tidy lims home (snd (reap_one now l ttl envelope m st))"
proof -
  let ?st = "note_origin now (fst m) st"
  have t1: "tidy lims home ?st" by (rule tidy_note_origin [OF assms(1)])
  have p: "m \<in> zmembers (lc_processing ?st l)" using assms(2) by simp
  note o = leased_owned [OF t1 p]
  note ol = owned_leased [OF t1 o(1)]
  show ?thesis
  proof (cases "has_generation now (fst m) (snd m) ?st")
    case False
    with drop_core [OF t1 o(1)] show ?thesis by (simp add: reap_one_def Let_def)
  next
    case True
    with ol(2) obtain mt base t where h: "held home now ?st m mt base t Processing" by (metis held_job [OF t1] held_def option.inject)
    then have c: "meta_number now (fst m) jm_terminal_charge ?st = t" by (simp add: held_def meta_number_held open_state_def)
    from h have "length CANCEL_ENVELOPE \<le> t" by (simp add: held_def charged_ok_def)
    with envelope_fits(2) have "0 < t" by linarith
    from o(2) obtain score where "lc_leased ?st l m = Some score" by auto
    with True c \<open>0 < t\<close> reap_end [OF t1 h assms(3)] reap_requeue [OF t1 h, of score] show ?thesis
      unfolding reap_one_def Let_def ol(1) by simp
  qed
qed

lemma processing_note [simp]: "lc_processing (retain_job now d jid st) = lc_processing st" "lc_processing (set_meta now jid f st) = lc_processing st"
  "lc_processing (publish p m k x st) = lc_processing st" "lc_processing (drop_lease l m st) = (lc_processing st)(l := zrem m (lc_processing st l))"
  "lc_processing (take_lease now l m r d w st) = (lc_processing st)(l := zadd (now + d) m (lc_processing st l))"
  by (simp_all add: retain_job_def set_meta_def publish_def drop_lease_def take_lease_def set_owner_def set_leased_def)

lemma reap_one_leases: "lc_processing (snd (reap_one now l ttl envelope m st)) = (lc_processing st)(l := zrem m (lc_processing st l))"
  by (simp add: reap_one_def Let_def)

lemma reap_batch_tidy:
  assumes "tidy lims home st" and "distinct ms" and "set ms \<subseteq> zmembers (lc_processing st l)" and "length envelope \<le> length CANCEL_ENVELOPE"
  shows "tidy lims home (snd (batch (reap_one now l ttl envelope) ms st))"
  using assms(1-3)
proof (induction ms arbitrary: st)
  case (Cons m ms)
  let ?s1 = "snd (reap_one now l ttl envelope m st)"
  from Cons.prems reap_one_tidy [OF Cons.prems(1) _ assms(4), of m l now ttl] have t: "tidy lims home ?s1" by simp
  from Cons.prems(2,3) have "set ms \<subseteq> zmembers (lc_processing ?s1 l)" by (auto simp: reap_one_leases)
  with Cons.IH [OF t] Cons.prems(2) show ?case unfolding batch_Cons by simp
qed simp

text \<open>No member is twice among the leases or in the index of expiry times.\<close>

definition single_leases :: "lifecycle \<Rightarrow> bool" where
  "single_leases st \<longleftrightarrow> (\<forall>l. distinct (map snd (lc_processing st l))) \<and> distinct (map snd (lc_expiry st))"

lemma distinct_zrem: "distinct (map snd z) \<Longrightarrow> distinct (map snd (zrem m z))"
  by (simp add: zrem_def distinct_map_filter)

lemma distinct_zadd: "distinct (map snd z) \<Longrightarrow> distinct (map snd (zadd s m z))"
proof -
  have "distinct (map snd (zinsert s m z))" if "distinct (map snd z)" "m \<notin> zmembers z" for z :: "'a zset"
    using that
  proof (induction s m z rule: zinsert.induct)
    case (2 s m t k z)
    then show ?case using zmembers_zinsert [of s m z] by (auto simp: zmembers_def)
  qed simp
  moreover assume "distinct (map snd z)"
  ultimately show ?thesis by (simp add: zadd_def distinct_zrem)
qed

lemma expiry_note [simp]: "lc_expiry (retain_job now d jid st) = lc_expiry st" "lc_expiry (set_meta now jid f st) = lc_expiry st"
  "lc_expiry (publish p m k x st) = lc_expiry st" "lc_expiry (drop_lease l m st) = lc_expiry st" "lc_expiry (take_lease now l m r d w st) = lc_expiry st"
  "lc_expiry (note_origin now jid st) = lc_expiry st" "lc_expiry (request_cancel now jid st) = lc_expiry st"
  "lc_processing (request_cancel now jid st) = lc_processing st"
  by (simp_all add: retain_job_def set_meta_def publish_def drop_lease_def take_lease_def set_owner_def set_leased_def note_origin_def request_cancel_def)

lemmas single_simps = single_leases_def distinct_zrem distinct_zadd

lemma distinct_range: "distinct (map snd z) \<Longrightarrow> distinct (zrange_by_score now limit z)"
  by (simp add: zrange_by_score_def take_map [symmetric] distinct_take distinct_map_filter)

lemma reap_tidy:
  assumes "tidy lims home st" and "single_leases st"
  shows "tidy lims home (snd (reap_script now l limit ttl CANCEL_ENVELOPE st))"
  unfolding reap_script_def
proof (rule reap_batch_tidy [OF assms(1)])
  show "distinct (zrange_by_score now limit (lc_processing st l))" using assms(2) by (simp add: single_leases_def distinct_range)
  show "set (zrange_by_score now limit (lc_processing st l)) \<subseteq> zmembers (lc_processing st l)" using range_members by auto
qed simp

section \<open>Retention\<close>

lemma drop_reservation_tidy:
  assumes "tidy lims home st" and "lc_reservations st m = Some base" and "lc_terminal_res st m = Some t" and "lc_dlq_res st m = Some d"
  shows "tidy lims home (drop_reservation m base t d (home (fst m)) st)" (is "tidy _ _ ?st'")
proof (rule tidy_step [OF assms(1), of m])
  have n: "lc_reservations ?st' m = None" "lc_terminal_res ?st' m = None" "lc_dlq_res ?st' m = None"
    by (simp_all add: drop_reservation_def drop_lease_def set_owner_def set_leased_def Let_def)
  have c: "lc_jobs ?st' = lc_jobs st - 1" "lc_base_bytes ?st' = lc_base_bytes st - int base" "lc_terminal_bytes ?st' = lc_terminal_bytes st - int t"
      "lc_dlq_bytes ?st' = lc_dlq_bytes st - int d" "lc_generation ?st' = lc_generation st"
      "lc_dlq ?st' = (lc_dlq st)(home (fst m) := zrem m (lc_dlq st (home (fst m))))"
    by (simp_all add: drop_reservation_def Let_def)
  from assms(1) have bounds: "in_bounds lims st" by (rule tidy_bounds)
  show "local_to m st ?st'"
    by (simp add: local_to_def drop_reservation_def Let_def) (auto simp: about_def stored_meta_def fun_eq_iff)
  show "booked m st ?st'" using n c assms(2-4) by (simp add: booked_def)
  show "in_bounds lims ?st'" using bounds c length_zrem [of m "lc_dlq st (home (fst m))"] by (auto simp: in_bounds_def intro: order_trans)
  show "meta_ok ?st' (fst m)" by (simp add: meta_ok_def drop_reservation_def Let_def) (simp add: stored_meta_def)
  from view_cases [OF assms(1), of m] assms(2) obtain s where "placed (home (fst m)) s (about st m)"
    by (metis absent_iff assms(1) option.distinct(1))
  then have "about ?st' m = absent_view"
    by (simp add: drop_reservation_def Let_def) (auto simp: about_def absent_view_def nowhere_def placed_def fun_eq_iff)
  then show "view_ok (home (fst m)) (about ?st' m)" by (simp add: view_ok_def)
  show "lc_generation st \<le> lc_generation ?st'" using c by simp
  show "snd m \<le> lc_generation ?st'" if "lc_reservations ?st' m \<noteq> None" using that n by simp
qed

lemma tidy_reindex:
  assumes "tidy lims home st" and "m \<in> zmembers (lc_expiry st)" and "zmembers z = zmembers (lc_expiry st)"
  shows "tidy lims home (st\<lparr>lc_expiry := z\<rparr>)" (is "tidy _ _ ?st'")
proof (rule tidy_same [OF assms(1)])
  show v: "about ?st' = about st" using assms(3) by (simp add: about_def fun_eq_iff)
  have "stored_meta ?st' = stored_meta st" by (simp add: stored_meta_def fun_eq_iff)
  with tidy_meta [OF assms(1)] meta_ok_cong [OF v] show "meta_ok ?st' jid" for jid by simp
qed (simp add: ledger_def)

lemma cleanup_one_tidy:
  assumes "tidy lims home st" and "m \<in> zmembers (lc_expiry st)"
  shows "tidy lims home (snd (cleanup_one now m st))"
proof (cases rule: view_cases [OF assms(1), of m])
  case 1
  with assms(2) show ?thesis by (simp add: about_def absent_view_def)
next
  case (2 base t s)
  with drop_reservation_tidy [OF assms(1) 2(1,2,4)] tidy_reindex [OF assms, of "zadd x m (lc_expiry st)" for x] assms(2) show ?thesis
    by (auto simp: cleanup_one_def insert_absorb)
qed

lemma drop_reservation_index: "lc_expiry (drop_reservation m base t d l st) = zrem m (lc_expiry st)"
  "lc_processing (drop_reservation m base t d l st) = (lc_processing st)(l := zrem m (lc_processing st l))"
  by (simp_all add: drop_reservation_def Let_def)

lemma cleanup_one_index: "zmembers (lc_expiry st) - {m} \<subseteq> zmembers (lc_expiry (snd (cleanup_one now m st)))"
  by (auto simp: cleanup_one_def drop_reservation_index split: option.splits prod.splits)

lemma cleanup_batch_tidy:
  assumes "tidy lims home st" and "distinct ms" and "set ms \<subseteq> zmembers (lc_expiry st)"
  shows "tidy lims home (snd (batch (cleanup_one now) ms st))"
  using assms
proof (induction ms arbitrary: st)
  case (Cons m ms)
  from Cons.prems cleanup_one_tidy [OF Cons.prems(1), of m now] have t: "tidy lims home (snd (cleanup_one now m st))" by simp
  from Cons.prems(2,3) cleanup_one_index [of st m now] have "set ms \<subseteq> zmembers (lc_expiry (snd (cleanup_one now m st)))" by auto
  with Cons.IH [OF t] Cons.prems(2) show ?case unfolding batch_Cons by simp
qed simp

lemma cleanup_tidy: "tidy lims home st \<Longrightarrow> single_leases st \<Longrightarrow> tidy lims home (snd (cleanup_script now limit st))"
  unfolding cleanup_script_def by (rule cleanup_batch_tidy) (auto simp: single_leases_def distinct_range dest: range_members)

lemma stored_extend: "map_option fst (extend_one now hard k f k') = map_option fst (f k')"
  by (auto simp: extend_one_def pexpire_def lookup_live_def split: option.splits if_splits)

lemma extend_tidy:
  assumes "tidy lims home st"
  shows "tidy lims home (snd (extend_terminal_script now m ttl st))"
proof (cases "has_generation now (fst m) (snd m) st \<and> meta_state now (fst m) st = Some Terminal")
  case True
  then obtain mt base t s where h: "held home now st m mt base t s" using held_job [OF assms] by metis
  let ?st' = "snd (extend_terminal_script now m ttl st)"
  show ?thesis
  proof (rule tidy_same [OF assms])
    show v: "about ?st' = about st"
      using True h by (auto simp: extend_terminal_script_def Let_def about_def held_def fun_eq_iff insert_absorb)
    have "stored_meta ?st' = stored_meta st" using True by (simp add: extend_terminal_script_def Let_def stored_meta_def stored_extend fun_eq_iff)
    with tidy_meta [OF assms] meta_ok_cong [OF v] show "meta_ok ?st' jid" for jid by simp
    show "ledger ?st' = ledger st" using True by (simp add: extend_terminal_script_def Let_def ledger_def)
  qed
qed (auto simp: extend_terminal_script_def Let_def assms)

lemma bump_tidy: "tidy lims home st \<Longrightarrow> tidy lims home (snd (bump_attempts_script now k ttl st))"
  by (simp add: bump_attempts_script_def Let_def tidy_def about_def meta_ok_def stored_meta_def books_def in_bounds_def)

end
