(* ===== verification/JobStore.thy ===== *)
theory JobStore
  imports LifecycleSteps
begin

text \<open>
  Runs of the distributed gateway: any interleaving of the scripts of origins, workers and reapers of all instances, with the
  clock of Redis never going back, and what holds in all of them. A lost connection is a step that is not taken, or is taken
  with nobody hearing the answer. Each id has one home lane, since an origin submits it with one protocol and provider.
\<close>

section \<open>Runs\<close>

datatype job_op =
    Reserve submission
  | Activate member rat nat nat
  | Heartbeat member string nat
  | Cancel member string
  | ExpireOrigins nat
  | Lease lane nat string nat
  | Ack member string
  | Release member rat string
  | Refresh member string nat
  | PublishFrame member string string nat
  | Complete member string string
  | DeadLetter member string
  | BumpAttempts "queue_protocol \<times> string" nat
  | Reap lane nat
  | Cleanup nat
  | ExtendTerminal member nat

definition DLQ_ENVELOPE :: string where
  "DLQ_ENVELOPE = ''{\"t\":\"Error\",\"v\":\"distributed job moved to dead letter retention\"}''"

text \<open>The scripts with the constants their callers pass; a member is served on its home lane.\<close>

fun run_op :: "lifecycle_limits \<Rightarrow> (string \<Rightarrow> lane) \<Rightarrow> nat \<Rightarrow> job_op \<Rightarrow> lifecycle \<Rightarrow> lifecycle" where
  "run_op lims home now (Reserve sb) st = snd (reserve_script lims now sb st)"
| "run_op lims home now (Activate m priority ttl cap) st = snd (activate_script now (home (fst m)) m priority ttl cap st)"
| "run_op lims home now (Heartbeat m token lease) st = snd (origin_heartbeat_script now m token lease st)"
| "run_op lims home now (Cancel m token) st = snd (cancel_script now (home (fst m)) m TERMINAL_TTL_MS token CANCEL_ENVELOPE st)"
| "run_op lims home now (ExpireOrigins limit) st = snd (expire_origins_script now limit TERMINAL_TTL_MS CANCEL_ENVELOPE st)"
| "run_op lims home now (Lease l lease_ms owner timeout) st = snd (lease_script lims now l lease_ms owner timeout st)"
| "run_op lims home now (Ack m owner) st = snd (ack_script (home (fst m)) m owner st)"
| "run_op lims home now (Release m score owner) st = snd (release_script now (home (fst m)) m score owner st)"
| "run_op lims home now (Refresh m owner lease_ms) st = snd (refresh_script now (home (fst m)) m owner lease_ms st)"
| "run_op lims home now (PublishFrame m owner payload n) st = snd (publish_script now (home (fst m)) m owner payload n st)"
| "run_op lims home now (Complete m owner payload) st = snd (terminal_script now (home (fst m)) m owner payload CANCEL_ENVELOPE st)"
| "run_op lims home now (DeadLetter m owner) st = snd (dead_letter_script now (home (fst m)) m owner DLQ_ENVELOPE CANCEL_ENVELOPE st)"
| "run_op lims home now (BumpAttempts k ttl) st = snd (bump_attempts_script now k ttl st)"
| "run_op lims home now (Reap l limit) st = snd (reap_script now l limit TERMINAL_TTL_MS CANCEL_ENVELOPE st)"
| "run_op lims home now (Cleanup limit) st = snd (cleanup_script now limit st)"
| "run_op lims home now (ExtendTerminal m ttl) st = snd (extend_terminal_script now m ttl st)"

definition empty_lifecycle :: "(old_set \<Rightarrow> nat) \<Rightarrow> lifecycle" where
  "empty_lifecycle old =
     \<lparr>lc_generation = 0, lc_jobs = 0, lc_base_bytes = 0, lc_terminal_bytes = 0, lc_dlq_bytes = 0, lc_dlq_overflow = 0,
      lc_reservations = Map.empty, lc_terminal_res = Map.empty, lc_dlq_res = Map.empty, lc_states = Map.empty, lc_scopes = Map.empty,
      lc_providers = Map.empty, lc_expiry = [], lc_origin_expiry = [], lc_queue = (\<lambda>_. []), lc_processing = (\<lambda>_. []),
      lc_leased = (\<lambda>_. Map.empty), lc_owners = (\<lambda>_. Map.empty), lc_dlq = (\<lambda>_. []), lc_meta = Map.empty, lc_payload = Map.empty,
      lc_terminal = Map.empty, lc_done = Map.empty, lc_attempts = Map.empty, lc_old = old, lc_published = []\<rparr>"

definition op_home :: "(string \<Rightarrow> lane) \<Rightarrow> job_op \<Rightarrow> bool" where
  "op_home home opn = (case opn of Reserve sb \<Rightarrow> sb_lane sb = home (sb_id sb) | _ \<Rightarrow> True)"

inductive job_run :: "lifecycle_limits \<Rightarrow> (string \<Rightarrow> lane) \<Rightarrow> nat \<Rightarrow> lifecycle \<Rightarrow> bool" for lims home where
  start: "job_run lims home now (empty_lifecycle old)"
| step: "job_run lims home now st \<Longrightarrow> now \<le> now' \<Longrightarrow> op_home home opn \<Longrightarrow> job_run lims home now' (run_op lims home now' opn st)"

text \<open>What may follow a state of a run.\<close>

inductive job_path :: "lifecycle_limits \<Rightarrow> (string \<Rightarrow> lane) \<Rightarrow> nat \<Rightarrow> lifecycle \<Rightarrow> nat \<Rightarrow> lifecycle \<Rightarrow> bool" for lims home now\<^sub>0 st\<^sub>0 where
  here: "job_path lims home now\<^sub>0 st\<^sub>0 now\<^sub>0 st\<^sub>0"
| further: "job_path lims home now\<^sub>0 st\<^sub>0 now st \<Longrightarrow> now \<le> now' \<Longrightarrow> op_home home opn \<Longrightarrow>
    job_path lims home now\<^sub>0 st\<^sub>0 now' (run_op lims home now' opn st)"

section \<open>Every run is tidy\<close>

lemma single_end: "single_leases st \<Longrightarrow> single_leases (end_unleased now l m ttl f envelope st)"
  by (simp add: end_unleased_def Let_def single_simps)

lemma single_batch:
  "(\<And>m st. single_leases st \<Longrightarrow> single_leases (snd (f m st))) \<Longrightarrow> single_leases st \<Longrightarrow> single_leases (snd (batch f ms st))"
  by (rule batch_keeps)

lemma single_expire: "single_leases st \<Longrightarrow> single_leases (snd (expire_origin now ttl envelope m st))"
  using single_end [of st now _ m ttl] by (auto simp: expire_origin_def Let_def split: option.splits) (auto simp: single_simps)

lemma single_cleanup: "single_leases st \<Longrightarrow> single_leases (snd (cleanup_one now m st))"
  by (auto simp: cleanup_one_def drop_reservation_index single_simps split: option.splits prod.splits)

lemma single_reap: "single_leases st \<Longrightarrow> single_leases (snd (reap_one now l ttl envelope m st))"
  by (auto simp: reap_one_def Let_def single_simps)

lemma distinct_zadd_xx: "distinct (map snd z) \<Longrightarrow> distinct (map snd (zadd_xx s m z))"
  by (simp add: zadd_xx_def distinct_zadd split: option.split)

lemma distinct_zadd_gt: "distinct (map snd z) \<Longrightarrow> distinct (map snd (zadd_gt s m z))"
  by (simp add: zadd_gt_def distinct_zadd split: option.split)

lemma single_op:
  assumes "single_leases st"
  shows "single_leases (run_op lims home now opn st)"
proof (cases opn)
  case (ExpireOrigins n)
  with assms single_batch [OF single_expire] show ?thesis by (simp add: expire_origins_script_def)
next
  case (Reap l n)
  with assms single_batch [OF single_reap] show ?thesis by (simp add: reap_script_def)
next
  case (Cleanup n)
  with assms single_batch [OF single_cleanup] show ?thesis by (simp add: cleanup_script_def)
next
  case (Reserve sb)
  with assms show ?thesis by (auto simp: reserve_script_def Let_def single_simps split: option.split)
next
  case (Lease l d w t)
  with assms show ?thesis by (auto simp: lease_script_def Let_def single_simps split: list.split option.split)
next
  case (Cancel m token)
  with assms single_end [OF assms] show ?thesis by (auto simp: cancel_script_def Let_def) (auto simp: single_simps)
next
  case (DeadLetter m owner)
  with assms show ?thesis by (auto simp: dead_letter_script_def Let_def single_simps)
next
  case (Complete m owner payload)
  with assms show ?thesis by (auto simp: terminal_script_def Let_def single_simps)
qed (use assms in \<open>auto simp: activate_script_def origin_heartbeat_script_def ack_script_def release_script_def refresh_script_def publish_script_def
    bump_attempts_script_def extend_terminal_script_def Let_def single_simps distinct_zadd_xx distinct_zadd_gt\<close>)

lemma tidy_op:
  assumes "tidy lims home st" and "single_leases st" and "roomy lims" and "op_home home opn"
  shows "tidy lims home (run_op lims home now opn st)"
  using assms
  by (cases opn) (auto simp: op_home_def reserve_tidy activate_tidy heartbeat_tidy cancel_tidy expire_tidy lease_tidy ack_tidy release_tidy refresh_tidy
    publish_script_tidy terminal_tidy dead_letter_tidy bump_tidy reap_tidy cleanup_tidy extend_tidy)

lemma empty_tidy: "tidy lims home (empty_lifecycle old)" "single_leases (empty_lifecycle old)"
proof -
  have "about (empty_lifecycle old) m = absent_view" for m
    by (simp add: about_def empty_lifecycle_def absent_view_def nowhere_def fun_eq_iff)
  then show "tidy lims home (empty_lifecycle old)"
    by (simp add: tidy_def view_ok_def meta_ok_def books_def in_bounds_def) (simp add: empty_lifecycle_def stored_meta_def total_of_def)
qed (simp add: single_leases_def empty_lifecycle_def)

lemma run_tidy: "job_run lims home now st \<Longrightarrow> roomy lims \<Longrightarrow> tidy lims home st \<and> single_leases st"
  by (induction rule: job_run.induct) (simp_all add: empty_tidy tidy_op single_op)

section \<open>Steps on one job\<close>

text \<open>The batches of a script are steps on single members.\<close>

inductive atomic_step :: "lifecycle_limits \<Rightarrow> (string \<Rightarrow> lane) \<Rightarrow> nat \<Rightarrow> lifecycle \<Rightarrow> lifecycle \<Rightarrow> bool" for lims home now where
  script: "op_home home opn \<Longrightarrow> (case opn of ExpireOrigins _ \<Rightarrow> False | Reap _ _ \<Rightarrow> False | Cleanup _ \<Rightarrow> False | _ \<Rightarrow> True) \<Longrightarrow>
    atomic_step lims home now st (run_op lims home now opn st)"
| expire_one: "atomic_step lims home now st (snd (expire_origin now TERMINAL_TTL_MS CANCEL_ENVELOPE m st))"
| reap_member: "m \<in> zmembers (lc_processing st l) \<Longrightarrow> atomic_step lims home now st (snd (reap_one now l TERMINAL_TTL_MS CANCEL_ENVELOPE m st))"
| clean_one: "m \<in> zmembers (lc_expiry st) \<Longrightarrow> atomic_step lims home now st (snd (cleanup_one now m st))"

lemma atomic_tidy:
  assumes "atomic_step lims home now st st'" and "tidy lims home st" and "roomy lims" and "single_leases st"
  shows "tidy lims home st' \<and> single_leases st'"
  using assms
  by (induction rule: atomic_step.induct)
    (auto simp: tidy_op single_op expire_one_tidy single_expire reap_one_tidy single_reap cleanup_one_tidy single_cleanup)

text \<open>A property that atomic steps and the passing of time keep holds in every run.\<close>

locale job_invariant =
  fixes lims :: lifecycle_limits and home :: "string \<Rightarrow> lane" and P :: "nat \<Rightarrow> lifecycle \<Rightarrow> bool"
  assumes roomy_limits: "roomy lims"
    and later: "\<And>now now' st. P now st \<Longrightarrow> now \<le> now' \<Longrightarrow> P now' st"
    and atomically: "\<And>now st st'. tidy lims home st \<Longrightarrow> P now st \<Longrightarrow> atomic_step lims home now st st' \<Longrightarrow> P now st'"
begin

definition good :: "nat \<Rightarrow> lifecycle \<Rightarrow> bool" where
  "good now st \<longleftrightarrow> tidy lims home st \<and> single_leases st \<and> P now st"

lemma good_atomic: "good now st \<Longrightarrow> atomic_step lims home now st st' \<Longrightarrow> good now st'"
  using atomic_tidy roomy_limits atomically by (auto simp: good_def)

lemma good_batch:
  assumes "\<And>m st. m \<in> Q st \<Longrightarrow> atomic_step lims home now st (snd (f m st))" and "\<And>m st. Q st - {m} \<subseteq> Q (snd (f m st))"
  shows "good now st \<Longrightarrow> distinct ms \<Longrightarrow> set ms \<subseteq> Q st \<Longrightarrow> good now (snd (batch f ms st))"
proof (induction ms arbitrary: st)
  case (Cons m ms)
  from Cons.prems good_atomic assms(1) have g: "good now (snd (f m st))" by (auto simp: subset_iff)
  have "set ms \<subseteq> Q (snd (f m st))" using Cons.prems(2,3) assms(2) [of st m] by auto
  with Cons.IH [OF g] Cons.prems(2) show ?case unfolding batch_Cons by simp
qed simp

lemma good_op:
  assumes "good now st" and "op_home home opn"
  shows "good now (run_op lims home now opn st)"
proof (cases opn)
  case (ExpireOrigins n)
  have "good now st' \<Longrightarrow> good now (snd (batch (expire_origin now TERMINAL_TTL_MS CANCEL_ENVELOPE) ms st'))" for ms st'
    by (rule batch_keeps) (auto intro: good_atomic atomic_step.expire_one)
  with assms(1) ExpireOrigins show ?thesis by (simp add: expire_origins_script_def)
next
  case (Reap l n)
  have d: "distinct (zrange_by_score now n (lc_processing st l))" using assms(1) by (simp add: good_def single_leases_def distinct_range)
  show ?thesis unfolding Reap run_op.simps reap_script_def
    by (rule good_batch [where Q = "\<lambda>st. zmembers (lc_processing st l)", OF _ _ assms(1) d])
      (auto intro: atomic_step.reap_member simp: reap_one_leases dest: range_members)
next
  case (Cleanup n)
  have d: "distinct (zrange_by_score now n (lc_expiry st))" using assms(1) by (simp add: good_def single_leases_def distinct_range)
  show ?thesis unfolding Cleanup run_op.simps cleanup_script_def
    by (rule good_batch [where Q = "\<lambda>st. zmembers (lc_expiry st)", OF _ _ assms(1) d])
      (use cleanup_one_index in \<open>auto intro: atomic_step.clean_one dest: range_members\<close>)
qed (use assms in \<open>auto intro!: good_atomic [OF assms(1)] atomic_step.script simp del: run_op.simps\<close>)

lemma path_good:
  assumes "job_path lims home now\<^sub>0 st\<^sub>0 now st" and "good now\<^sub>0 st\<^sub>0"
  shows "good now st"
  using assms
proof (induction rule: job_path.induct)
  case (further now st now' opn)
  then have "good now' st" by (auto simp: good_def intro: later)
  with further.hyps(3) show ?case by (rule good_op [rotated])
qed

lemma run_good:
  assumes "job_run lims home now st" and "\<And>now old. P now (empty_lifecycle old)"
  shows "good now st"
  using assms(1)
proof (induction rule: job_run.induct)
  case (start now old)
  then show ?case by (simp add: good_def assms(2) empty_tidy)
next
  case (step now st now' opn)
  then have "good now' st" by (auto simp: good_def intro: later)
  with step.hyps(3) show ?case by (rule good_op [rotated])
qed

end

end
