(* ===== verification/JobResults.thy ===== *)
theory JobResults
  imports JobStore
begin

text \<open>
  What a step does to the metadata and the stored result of an id, and what follows for readers: a result that has been read
  never changes, and no frame of a stream follows the final message of its job.
\<close>

section \<open>The effect of a step\<close>

definition edited :: "lifecycle \<Rightarrow> lifecycle \<Rightarrow> string \<Rightarrow> job_meta \<times> nat option \<Rightarrow> job_meta \<times> nat option \<Rightarrow> bool" where
  "edited st st' jid old new \<longleftrightarrow>
     (jm_state (fst new) = jm_state (fst old) \<and> snd new = snd old \<and> lc_terminal st' jid = lc_terminal st jid) \<or>
     (\<exists>s s'. jm_state (fst old) = Some s \<and> jm_state (fst new) = Some s' \<and> open_state s \<and>
        (if open_state s' then lc_terminal st' jid = lc_terminal st jid else \<exists>v. lc_terminal st' jid = Some (v, snd new))) \<or>
     (jm_state (fst old) = Some Terminal \<and> jm_state (fst new) = Some Terminal \<and>
        (\<forall>v. lc_terminal st jid = Some (v, snd old) \<longrightarrow> lc_terminal st' jid = Some (v, snd new)))"

inductive meta_effect :: "nat \<Rightarrow> lifecycle \<Rightarrow> lifecycle \<Rightarrow> string \<Rightarrow> bool" for now st st' jid where
  keep: "lc_meta st' jid = lc_meta st jid \<Longrightarrow> lc_terminal st' jid = lc_terminal st jid \<Longrightarrow> meta_effect now st st' jid"
| gone: "lc_meta st' jid = None \<Longrightarrow> lc_terminal st' jid = None \<Longrightarrow> meta_effect now st st' jid"
| fresh: "meta_of now jid st = None \<Longrightarrow> lc_meta st' jid = Some (mt, e) \<Longrightarrow> lc_terminal st' jid = lc_terminal st jid \<Longrightarrow>
    jm_generation mt = None \<and> jm_state mt = None \<or> jm_generation mt = Some (Suc (lc_generation st)) \<and> jm_state mt = Some PendingOrigin \<Longrightarrow>
    meta_effect now st st' jid"
| edit: "lc_meta st jid = Some (mt, e) \<Longrightarrow> unexpired now e \<Longrightarrow> lc_meta st' jid = Some (mt', e') \<Longrightarrow> jm_generation mt' = jm_generation mt \<Longrightarrow>
    (jm_cancel_requested mt \<longrightarrow> jm_cancel_requested mt') \<Longrightarrow> edited st st' jid (mt, e) (mt', e') \<Longrightarrow> meta_effect now st st' jid"

lemma liveE:
  assumes "has_generation now jid g st"
  obtains mt e where "lc_meta st jid = Some (mt, e)" "unexpired now e" "meta_of now jid st = Some mt"
  using generationE [OF assms] by metis

lemma meta_written: "lc_meta st jid = Some (mt, e) \<Longrightarrow> unexpired now e \<Longrightarrow> lc_meta (set_meta now jid f st) = (lc_meta st)(jid \<mapsto> (f mt, e))"
  by (simp add: set_meta_def)

lemma meta_retained: "lc_meta st jid = Some (mt, e) \<Longrightarrow> unexpired now e \<Longrightarrow> lc_meta (retain_job now d jid st) = (lc_meta st)(jid \<mapsto> (mt, Some (now + d)))"
  by (simp add: retain_job_def pexpire_def lookup_live_def)

lemma meta_noted:
  "lc_meta st jid = Some (mt, e) \<Longrightarrow> unexpired now e \<Longrightarrow>
    lc_meta (note_origin now jid st) = (lc_meta st)(jid \<mapsto> (mt\<lparr>jm_cancel_requested := jm_cancel_requested mt \<or> origin_expired now jid st\<rparr>, e))"
  by (auto simp: note_origin_def request_cancel_def meta_written)

lemma meta_pieces [simp]: "lc_meta (take_lease now l m r d w st) = lc_meta st" "lc_meta (publish p m k x st) = lc_meta st" "lc_meta (drop_lease l m st) = lc_meta st"
  "lc_terminal (retain_job now d jid st) = lc_terminal st"
  "lc_terminal (set_meta now jid f st) = lc_terminal st" "lc_terminal (publish p m k x st) = lc_terminal st"
  "lc_terminal (drop_lease l m st) = lc_terminal st" "lc_terminal (take_lease now l m r d w st) = lc_terminal st"
  "lc_terminal (note_origin now jid st) = lc_terminal st" "lc_terminal (request_cancel now jid st) = lc_terminal st"
  by (simp_all add: retain_job_def set_meta_def publish_def drop_lease_def take_lease_def set_owner_def set_leased_def note_origin_def request_cancel_def)

lemma meta_other: "k \<noteq> jid \<Longrightarrow> lc_meta (set_meta now jid f st) k = lc_meta st k" "k \<noteq> jid \<Longrightarrow> lc_meta (retain_job now d jid st) k = lc_meta st k"
  "k \<noteq> jid \<Longrightarrow> lc_meta (note_origin now jid st) k = lc_meta st k" "k \<noteq> jid \<Longrightarrow> lc_meta (request_cancel now jid st) k = lc_meta st k"
  by (simp_all add: set_meta_def retain_job_def pexpire_def note_origin_def request_cancel_def split: option.split)

text \<open>A request to cancel, on live metadata or on none.\<close>

lemma cancel_effect: "lc_meta st' = lc_meta st \<Longrightarrow> lc_terminal st' = lc_terminal st \<Longrightarrow> meta_effect now st (request_cancel now jid st') k"
proof (cases "k = jid")
  case False
  assume "lc_meta st' = lc_meta st" "lc_terminal st' = lc_terminal st"
  with False show ?thesis by (intro keep) (simp_all add: meta_other)
next
  case True
  assume eq: "lc_meta st' = lc_meta st" "lc_terminal st' = lc_terminal st"
  show ?thesis
  proof (cases "meta_of now jid st")
    case None
    then have "meta_of now jid st' = None" using eq by (simp add: meta_of_def)
    then have "\<exists>e. lc_meta (request_cancel now jid st') jid = Some (no_meta\<lparr>jm_cancel_requested := True\<rparr>, e)"
      by (auto simp: request_cancel_def set_meta_def meta_of_def lookup_live_def split: option.splits if_splits)
    with None True eq show ?thesis by (auto intro!: fresh simp: no_meta_def)
  next
    case (Some mt)
    then obtain e where e: "lc_meta st jid = Some (mt, e)" "unexpired now e"
      by (auto simp: meta_of_def lookup_live_def split: option.splits if_splits)
    with eq True show ?thesis
      by (intro edit [of _ _ mt e _ _ "mt\<lparr>jm_cancel_requested := True\<rparr>" e]) (simp_all add: request_cancel_def meta_written edited_def)
  qed
qed

lemma note_effect: "meta_effect now st (note_origin now jid st) k"
  using cancel_effect [of st st now jid k] by (auto simp: note_origin_def intro: keep)

lemma effect_cong:
  assumes "meta_effect now st st' k" and "lc_meta st'' = lc_meta st'" and "lc_terminal st'' = lc_terminal st'"
  shows "meta_effect now st st'' k"
  using assms(1) unfolding meta_effect.simps edited_def assms(2,3) .

lemma forget_effect: "meta_effect now st st' k \<Longrightarrow> meta_effect now st (st'\<lparr>lc_origin_expiry := z\<rparr>) k"
  by (erule effect_cong) simp_all

lemma publish_effect: "meta_effect now st st' k \<Longrightarrow> meta_effect now st (publish p m kind x st') k"
  by (erule effect_cong) simp_all

lemma write_effect:
  assumes "lc_meta st jid = Some (mt, e)" and "unexpired now e" and "lc_meta st' = (lc_meta st)(jid \<mapsto> (mt', e'))"
    and "\<And>k. k \<noteq> jid \<Longrightarrow> lc_terminal st' k = lc_terminal st k" and "jm_generation mt' = jm_generation mt"
    and "jm_cancel_requested mt \<Longrightarrow> jm_cancel_requested mt'" and "edited st st' jid (mt, e) (mt', e')"
  shows "meta_effect now st st' k"
  using assms by (cases "k = jid") (auto intro: keep edit)

lemma held_live:
  assumes "held home now st m mt base t s"
  obtains e where "lc_meta st (fst m) = Some (mt, e)" "unexpired now e" "jm_state mt = Some s"
  using assms by (auto simp: held_def meta_of_def lookup_live_def split: option.splits if_splits)

text \<open>A job between two open states, and a job that ends: the written metadata and the written result expire together.\<close>

lemma open_effect:
  assumes "held home now st m mt base t s" and "open_state s" and "open_state s'" and "jm_state mt' = Some s'" and "jm_generation mt' = jm_generation mt"
    and "jm_cancel_requested mt \<Longrightarrow> jm_cancel_requested mt'" and "lc_terminal st' = lc_terminal st"
    and "\<And>e. lc_meta st (fst m) = Some (mt, e) \<Longrightarrow> unexpired now e \<Longrightarrow> \<exists>e'. lc_meta st' = (lc_meta st)(fst m \<mapsto> (mt', e'))"
  shows "meta_effect now st st' k"
proof -
  obtain e where e: "lc_meta st (fst m) = Some (mt, e)" "unexpired now e" "jm_state mt = Some s" by (rule held_live [OF assms(1)])
  from assms(8) [OF e(1,2)] obtain e' where "lc_meta st' = (lc_meta st)(fst m \<mapsto> (mt', e'))" ..
  with e assms(2-7) show ?thesis by (intro write_effect [of st "fst m" mt e now]) (auto simp: edited_def)
qed

lemma end_effect:
  assumes "held home now st m mt base t s" and "open_state s" and "\<not> open_state s'" and "jm_state mt' = Some s'" and "jm_generation mt' = jm_generation mt"
    and "jm_cancel_requested mt \<Longrightarrow> jm_cancel_requested mt'" and "lc_terminal st' = (lc_terminal st)(fst m \<mapsto> (v, e'))"
    and "\<And>e. lc_meta st (fst m) = Some (mt, e) \<Longrightarrow> unexpired now e \<Longrightarrow> lc_meta st' = (lc_meta st)(fst m \<mapsto> (mt', e'))"
  shows "meta_effect now st st' k"
proof -
  obtain e where e: "lc_meta st (fst m) = Some (mt, e)" "unexpired now e" "jm_state mt = Some s" by (rule held_live [OF assms(1)])
  with assms(8) [OF e(1,2)] assms(2-7) show ?thesis by (intro write_effect [of st "fst m" mt e now]) (auto simp: edited_def)
qed

section \<open>The effect of every script\<close>

lemma activate_effect:
  assumes "tidy lims home st"
  shows "meta_effect now st (snd (activate_script now l m priority ttl cap st)) k"
proof (cases "has_generation now (fst m) (snd m) st \<and> meta_state now (fst m) st = Some PendingOrigin \<and> waiting_jobs l st < cap")
  case False
  then show ?thesis by (auto simp: activate_script_def Let_def intro: keep)
next
  case True
  then obtain mt base t s where h: "held home now st m mt base t s" using held_job [OF assms] by metis
  with True have s: "s = PendingOrigin" by (simp add: meta_state_held held_def)
  show ?thesis
    by (rule open_effect [OF h, of Waiting "mt\<lparr>jm_state := Some Waiting\<rparr>"])
      (use True s in \<open>auto simp: activate_script_def Let_def open_state_def set_meta_def retain_job_def pexpire_def lookup_live_def\<close>)
qed

lemmas written_simps = open_state_def set_meta_def retain_job_def pexpire_def lookup_live_def meta_noted

lemma heartbeat_effect:
  assumes "tidy lims home st"
  shows "meta_effect now st (snd (origin_heartbeat_script now m token lease st)) k"
proof -
  have "meta_effect now st (set_meta now (fst m) (\<lambda>mt. mt\<lparr>jm_origin_expires := x\<rparr>) (st\<lparr>lc_origin_expiry := z\<rparr>)) k"
    if g: "has_generation now (fst m) (snd m) st" for x z
  proof -
    obtain mt e where "lc_meta st (fst m) = Some (mt, e)" "unexpired now e" using liveE [OF g] by metis
    then show ?thesis by (intro write_effect [of st "fst m" mt e now _ "mt\<lparr>jm_origin_expires := x\<rparr>" e]) (auto simp: set_meta_def edited_def)
  qed
  with cancel_effect [of st st now "fst m" k] show ?thesis by (auto simp: origin_heartbeat_script_def Let_def intro: keep)
qed

lemma end_unleased_effect:
  assumes "held home now st m mt base t s" and "open_state s" and "same_job note" and "\<And>mt. jm_cancel_requested mt \<Longrightarrow> jm_cancel_requested (note mt)"
  shows "meta_effect now st (end_unleased now l m ttl note envelope st) k"
  by (rule end_effect [OF assms(1,2), of Terminal "note (mt\<lparr>jm_state := Some Terminal, jm_terminal_charge := Some 0\<rparr>)"])
    (use assms(3,4) in \<open>auto simp: end_unleased_def Let_def written_simps same_job_def\<close>)

lemma cancel_script_effect:
  assumes "tidy lims home st"
  shows "meta_effect now st (snd (cancel_script now l m ttl token envelope st)) k"
proof (cases "has_generation now (fst m) (snd m) st")
  case True
  then obtain mt base t s where h: "held home now st m mt base t s" using held_job [OF assms] by metis
  then have s: "meta_state now (fst m) st = Some s" by (simp add: held_def meta_state_held)
  have "meta_effect now st (publish (fst l) m FinalFrame envelope (request_cancel now (fst m) (st\<lparr>lc_origin_expiry := z\<rparr>))) k" for z
    by (rule publish_effect, rule cancel_effect) simp_all
  with s end_unleased_effect [OF h, of id l ttl envelope k] show ?thesis
    by (auto simp: cancel_script_def Let_def open_state_def same_job_def intro: keep)
qed (simp add: cancel_script_def keep)

lemma expire_effect:
  assumes "tidy lims home st"
  shows "meta_effect now st (snd (expire_origin now ttl envelope m st)) k"
proof (cases "has_generation now (fst m) (snd m) st")
  case True
  then obtain mt base t s where h: "held home now st m mt base t s" using held_job [OF assms] by metis
  then have s: "meta_state now (fst m) st = Some s" by (simp add: held_def meta_state_held)
  with end_unleased_effect [OF h, of "\<lambda>mt. mt\<lparr>jm_cancel_requested := True\<rparr>"] cancel_effect [of st st now "fst m" k] True show ?thesis
    by (auto simp: expire_origin_def Let_def open_state_def same_job_def split: option.split intro!: forget_effect publish_effect intro: keep)
qed (auto simp: expire_origin_def Let_def intro: forget_effect keep)

lemma reserve_effect: "meta_effect now st (snd (reserve_script lims now sb st)) k"
proof (cases "fst (fst (reserve_script lims now sb st)) = 2 \<and> k = sb_id sb")
  case True
  then have "meta_of now k st = None" by (auto simp: reserve_script_def split: option.splits if_splits)
  with True show ?thesis by (intro fresh) (auto simp: reserve_script_def Let_def split: option.splits if_splits)
next
  case False
  then show ?thesis by (intro keep) (auto simp: reserve_script_def Let_def split: option.splits)
qed

lemma lease_effect:
  assumes "tidy lims home st"
  shows "meta_effect now st (snd (lease_script lims now l d owner timeout st)) k"
proof (cases "lc_queue st l")
  case Nil
  then show ?thesis by (simp add: lease_script_def keep)
next
  case (Cons entry z)
  obtain score m where e: "entry = (score, m)" by (cases entry) auto
  let ?st = "note_origin now (fst m) st"
  show ?thesis
  proof (cases "has_generation now (fst m) (snd m) st \<and> meta_state now (fst m) st = Some Waiting")
    case False
    with Cons e show ?thesis by (auto simp: lease_script_def Let_def intro: keep)
  next
    case True
    then obtain mt base t s where h: "held home now st m mt base t s" using held_job [OF assms] by metis
    with True have s: "s = Waiting" by (simp add: meta_state_held held_def)
    have "meta_effect now st (retain_job now r (fst m) (set_meta now (fst m) (\<lambda>mt. mt\<lparr>jm_state := Some Processing, jm_owner := Some owner, jm_terminal_charge := Some c\<rparr>)
        (take_lease now l m score d owner st1))) k" if "lc_meta st1 = lc_meta ?st" "lc_terminal st1 = lc_terminal st" for r c st1
      by (rule open_effect [OF h, of Processing "mt\<lparr>jm_cancel_requested := jm_cancel_requested mt \<or> origin_expired now (fst m) st,
            jm_state := Some Processing, jm_owner := Some owner, jm_terminal_charge := Some c\<rparr>"])
        (use s that in \<open>auto simp: written_simps\<close>)
    with Cons e True note_effect [of now st "fst m" k] show ?thesis
      by (auto simp: lease_script_def Let_def split: option.split)
  qed
qed

lemma owned_held:
  assumes "tidy lims home st" and "lc_owners st l m \<noteq> None" and "has_generation now (fst m) (snd m) st"
  shows "\<exists>mt base t. held home now st m mt base t Processing"
  using held_job [OF assms(1,3)] owned_leased(2) [OF assms(1,2)] by (metis held_def option.inject)

lemma release_effect:
  assumes "tidy lims home st"
  shows "meta_effect now st (snd (release_script now l m score owner st)) k"
proof (cases "lc_owners st l m = Some owner \<and> has_generation now (fst m) (snd m) st")
  case False
  then show ?thesis by (auto simp: release_script_def Let_def intro: keep)
next
  case True
  then obtain mt base t where h: "held home now st m mt base t Processing" using owned_held [OF assms, of l m now] by auto
  let ?f = "\<lambda>mt. mt\<lparr>jm_state := Some Waiting, jm_owner := Some [], jm_terminal_charge := Some 0\<rparr>"
  have "meta_effect now st (drop_lease l m (set_meta now (fst m) ?f
      (note_origin now (fst m) st\<lparr>lc_terminal_bytes := b, lc_terminal_res := t, lc_states := ss, lc_queue := x\<rparr>))) k" for b t ss x
    by (rule open_effect [OF h, of Waiting "?f (mt\<lparr>jm_cancel_requested := jm_cancel_requested mt \<or> origin_expired now (fst m) st\<rparr>)"])
      (auto simp: written_simps)
  with True note_effect [of now st "fst m" k] show ?thesis by (simp add: release_script_def Let_def)
qed

lemma refresh_effect: "meta_effect now st (snd (refresh_script now l m owner d st)) k"
proof (cases "holds_lease now l m owner st")
  case True
  with note_effect [of now st "fst m" k] show ?thesis
    by (cases "cancel_requested now (fst m) (note_origin now (fst m) st)") (auto simp: refresh_script_def Let_def elim: effect_cong)
qed (simp add: refresh_script_def keep)

lemma frame_effect: "meta_effect now st (snd (publish_script now l m owner payload n st)) k"
  using note_effect [of now st "fst m" k] by (auto simp: publish_script_def Let_def intro: keep publish_effect)

lemma terminal_effect:
  assumes "tidy lims home st"
  shows "meta_effect now st (snd (terminal_script now l m owner payload envelope st)) k"
proof (cases "holds_lease now l m owner st")
  case False
  then show ?thesis by (simp add: terminal_script_def keep)
next
  case True
  then obtain mt base t where h: "held home now st m mt base t Processing" using owned_held [OF assms, of l m now] by (auto simp: holds_lease_def)
  let ?f = "\<lambda>c mt. mt\<lparr>jm_state := Some Terminal, jm_terminal_charge := Some c\<rparr>"
  have "meta_effect now st (drop_lease l m (publish p m FinalFrame x (retain_job now hard (fst m) (set_meta now (fst m) (?f c)
      (note_origin now (fst m) st\<lparr>lc_terminal := (lc_terminal st)(fst m \<mapsto> (x, Some (now + hard))), lc_terminal_res := t, lc_states := ss,
        lc_terminal_bytes := b, lc_expiry := y, lc_origin_expiry := z, lc_done := w\<rparr>))))) k" for p x hard c t ss b y z w
    by (rule end_effect [OF h, of Terminal "?f c (mt\<lparr>jm_cancel_requested := jm_cancel_requested mt \<or> origin_expired now (fst m) st\<rparr>)"])
      (auto simp: written_simps)
  with True note_effect [of now st "fst m" k] show ?thesis by (simp add: terminal_script_def Let_def)
qed

lemma dead_letter_effect:
  assumes "tidy lims home st"
  shows "meta_effect now st (snd (dead_letter_script now l m owner dlq_envelope envelope st)) k"
proof (cases "holds_lease now l m owner st")
  case False
  then show ?thesis by (simp add: dead_letter_script_def keep)
next
  case True
  then obtain mt base t where h: "held home now st m mt base t Processing" using owned_held [OF assms, of l m now] by (auto simp: holds_lease_def)
  let ?f = "\<lambda>s mt. mt\<lparr>jm_state := Some s, jm_terminal_charge := Some 0\<rparr>"
  have e: "meta_effect now st (drop_lease l m (publish p m FinalFrame x (retain_job now hard (fst m) (set_meta now (fst m) (?f s) st1)))) k"
    if "lc_terminal st1 = (lc_terminal st)(fst m \<mapsto> (x, Some (now + hard)))"
      "lc_meta st1 = lc_meta (if c then request_cancel now (fst m) st else st)" "\<not> open_state s" for c p x hard s st1
    by (rule end_effect [OF h, of s "?f s (mt\<lparr>jm_cancel_requested := jm_cancel_requested mt \<or> c\<rparr>)"])
      (use that in \<open>auto simp: written_simps request_cancel_def\<close>)
  from e [of _ _ _ True] e [of _ _ _ False] True show ?thesis
    by (auto simp: dead_letter_script_def Let_def open_state_def)
qed

lemma reap_effect:
  assumes "tidy lims home st" and "m \<in> zmembers (lc_processing st l)"
  shows "meta_effect now st (snd (reap_one now l ttl envelope m st)) k"
proof (cases "has_generation now (fst m) (snd m) st")
  case False
  then have "\<not> has_generation now (fst m) (snd m) (note_origin now (fst m) st)" by (simp add: generation_note)
  then show ?thesis by (auto simp: reap_one_def Let_def intro!: effect_cong [OF note_effect [of now st "fst m" k]])
next
  case True
  have "lc_owners st l m \<noteq> None" using tidy_view [OF assms(1), of m] assms(2)
    by (auto simp: view_ok_def about_def absent_view_def nowhere_def placed_def fun_eq_iff)
  then obtain mt base t where h: "held home now st m mt base t Processing" using owned_held [OF assms(1) _ True, of l] by blast
  let ?n = "mt\<lparr>jm_cancel_requested := jm_cancel_requested mt \<or> origin_expired now (fst m) st\<rparr>"
  let ?f = "\<lambda>c mt. mt\<lparr>jm_state := Some Terminal, jm_terminal_charge := Some c\<rparr>" and ?g = "\<lambda>mt. mt\<lparr>jm_state := Some Waiting, jm_owner := Some []\<rparr>"
  have "meta_effect now st (drop_lease l m (retain_job now hard (fst m) (set_meta now (fst m) (?f c) st1))) k"
    if "lc_terminal st1 = (lc_terminal st)(fst m \<mapsto> (x, Some (now + hard)))" "lc_meta st1 = lc_meta (note_origin now (fst m) st)" for x hard c st1
    by (rule end_effect [OF h, of Terminal "?f c ?n"]) (use that in \<open>auto simp: written_simps\<close>)
  moreover have "meta_effect now st (drop_lease l m (set_meta now (fst m) ?g st1)) k"
    if "lc_terminal st1 = lc_terminal st" "lc_meta st1 = lc_meta (note_origin now (fst m) st)" for st1
    by (rule open_effect [OF h, of Waiting "?g ?n"]) (use that in \<open>auto simp: written_simps\<close>)
  ultimately show ?thesis using True by (auto simp: reap_one_def Let_def generation_note)
qed

lemma cleanup_effect: "meta_effect now st (snd (cleanup_one now m st)) k"
proof -
  have "meta_effect now st (drop_reservation m base charge dlq l st) k" for base charge dlq l
    by (cases "k = fst m") (auto simp: drop_reservation_def Let_def intro: keep gone)
  then show ?thesis by (auto simp: cleanup_one_def intro: keep split: option.split)
qed

lemma extend_live: "m k = Some (v, e) \<Longrightarrow> unexpired now e \<Longrightarrow>
    extend_one now hard k m = m(k \<mapsto> (v, case e of Some t \<Rightarrow> if t < now + hard then Some (now + hard) else e | None \<Rightarrow> Some (now + hard)))"
  by (auto simp: extend_one_def pexpire_def lookup_live_def fun_upd_idem split: option.split)

lemma extend_other: "k \<noteq> j \<Longrightarrow> extend_one now hard j m k = m k"
  by (auto simp: extend_one_def pexpire_def split: option.split)

lemma extend_effect: "meta_effect now st (snd (extend_terminal_script now m ttl st)) k"
proof (cases "has_generation now (fst m) (snd m) st \<and> meta_state now (fst m) st = Some Terminal")
  case False
  then show ?thesis by (auto simp: extend_terminal_script_def Let_def intro: keep)
next
  case True
  then obtain mt e where e: "lc_meta st (fst m) = Some (mt, e)" "unexpired now e" "meta_of now (fst m) st = Some mt" using liveE by metis
  with True have s: "jm_state mt = Some Terminal" by (simp add: meta_state_held)
  show ?thesis
    by (rule write_effect [of st "fst m" mt e now _ mt, OF e(1,2)])
      (use True e s in \<open>auto simp: extend_terminal_script_def Let_def extend_live [of "lc_meta st", OF e(1,2)] edited_def extend_live [of "lc_terminal st"] extend_other\<close>)
qed

lemma atomic_effect:
  assumes "tidy lims home st" and "atomic_step lims home now st st'"
  shows "meta_effect now st st' k"
  using assms(2)
proof cases
  case (script opn)
  have kept: "meta_effect now st (snd (ack_script l m owner st)) k" "meta_effect now st (snd (bump_attempts_script now j n st)) k" for l m owner j n
    by (rule keep; simp add: ack_script_def bump_attempts_script_def Let_def)+
  from script show ?thesis
    by (cases opn) (simp_all add: reserve_effect activate_effect [OF assms(1)] heartbeat_effect [OF assms(1)] cancel_script_effect [OF assms(1)]
      lease_effect [OF assms(1)] kept release_effect [OF assms(1)] refresh_effect frame_effect terminal_effect [OF assms(1)]
      dead_letter_effect [OF assms(1)] extend_effect)
qed (simp_all add: expire_effect [OF assms(1)] reap_effect [OF assms(1)] cleanup_effect)

text \<open>Generations are never given twice.\<close>

lemma generation_pieces [simp]: "lc_generation (note_origin now jid st) = lc_generation st" "lc_generation (request_cancel now jid st) = lc_generation st"
  "lc_generation (end_unleased now l m ttl f envelope st) = lc_generation st" "lc_generation (drop_reservation m base charge dlq l st) = lc_generation st"
  by (simp_all add: note_origin_def request_cancel_def end_unleased_def drop_reservation_def Let_def)

lemma generation_grows:
  assumes "atomic_step lims home now st st'"
  shows "lc_generation st \<le> lc_generation st'"
  using assms
proof cases
  case (script opn)
  then show ?thesis
    by (cases opn) (auto simp: reserve_script_def activate_script_def origin_heartbeat_script_def cancel_script_def lease_script_def ack_script_def
      release_script_def refresh_script_def publish_script_def terminal_script_def dead_letter_script_def bump_attempts_script_def
      extend_terminal_script_def Let_def split: option.split list.split)
qed (auto simp: expire_origin_def reap_one_def cleanup_one_def Let_def split: option.split)

section \<open>Results are read once and for all\<close>

definition ended :: "job_meta \<Rightarrow> bool" where
  "ended mt \<longleftrightarrow> (\<exists>s. jm_state mt = Some s \<and> \<not> open_state s)"

text \<open>A result lives exactly as long as the metadata of its ended job.\<close>

definition paired :: "nat \<Rightarrow> lifecycle \<Rightarrow> bool" where
  "paired now st \<longleftrightarrow> (\<forall>jid e. unexpired now e \<longrightarrow>
     (\<exists>v. lc_terminal st jid = Some (v, e)) = (\<exists>mt. lc_meta st jid = Some (mt, e) \<and> ended mt))"

lemma unexpired_later: "unexpired now' e \<Longrightarrow> now \<le> now' \<Longrightarrow> unexpired now e"
  by (auto simp: unexpired_def split: option.splits)

lemma pairedD: "paired now st \<Longrightarrow> unexpired now e \<Longrightarrow>
    (\<exists>v. lc_terminal st jid = Some (v, e)) = (\<exists>mt. lc_meta st jid = Some (mt, e) \<and> ended mt)"
  unfolding paired_def by blast

lemma paired_later: "paired now st \<Longrightarrow> now \<le> now' \<Longrightarrow> paired now' st"
  using unexpired_later by (auto simp: paired_def)

lemma paired_atomic:
  assumes "tidy lims home st" and "paired now st" and "atomic_step lims home now st st'"
  shows "paired now st'"
proof -
  have "(\<exists>v. lc_terminal st' jid = Some (v, e)) = (\<exists>mt. lc_meta st' jid = Some (mt, e) \<and> ended mt)" if e: "unexpired now e" for jid e
    using atomic_effect [OF assms(1,3), of jid]
  proof cases
    case keep
    with assms(2) e show ?thesis by (simp add: paired_def)
  next
    case gone
    then show ?thesis by simp
  next
    case (fresh mt f)
    then have "\<not> ended mt" by (auto simp: ended_def open_state_def)
    moreover have "lc_terminal st jid \<noteq> Some (v, e)" for v
      using fresh(1) pairedD [OF assms(2) e, of jid] e by (auto simp: meta_of_def lookup_live_def split: option.splits if_splits)
    ultimately show ?thesis using fresh by auto
  next
    case (edit mt f mt' f')
    have p: "unexpired now e \<Longrightarrow> (\<exists>v. lc_terminal st jid = Some (v, e)) = (e = f \<and> ended mt)" for e
      using assms(2) edit(1) by (auto simp: paired_def)
    from edit(6) show ?thesis
      unfolding edited_def
    proof (elim disjE exE conjE)
      assume "jm_state (fst (mt', f')) = jm_state (fst (mt, f))" "snd (mt', f') = snd (mt, f)" "lc_terminal st' jid = lc_terminal st jid"
      with p [OF e] edit(3) show ?thesis by (auto simp: ended_def)
    next
      fix s s'
      assume s: "jm_state (fst (mt, f)) = Some s" "jm_state (fst (mt', f')) = Some s'" "open_state s"
        and t: "if open_state s' then lc_terminal st' jid = lc_terminal st jid else \<exists>v. lc_terminal st' jid = Some (v, snd (mt', f'))"
      with p [OF e] edit(3) show ?thesis by (cases "open_state s'") (auto simp: ended_def)
    next
      assume s: "jm_state (fst (mt, f)) = Some Terminal" "jm_state (fst (mt', f')) = Some Terminal"
        and t: "\<forall>v. lc_terminal st jid = Some (v, snd (mt, f)) \<longrightarrow> lc_terminal st' jid = Some (v, snd (mt', f'))"
      from p [OF edit(2)] s(1) obtain v where "lc_terminal st jid = Some (v, f)" by (auto simp: ended_def open_state_def)
      with t s edit(3) show ?thesis by (auto simp: ended_def open_state_def)
    qed
  qed
  then show ?thesis by (simp add: paired_def)
qed

end
