(* ===== verification/JobClaims.thy ===== *)
theory JobClaims
  imports JobResults
begin

text \<open>
  What clients of the distributed gateway rely on, in every run: capacity is charged exactly and never exceeded, a job is in one
  place, a result that has been read never changes, and no frame of a stream follows the final message of its job.
\<close>

section \<open>What is published\<close>

lemma published_pieces [simp]: "lc_published (retain_job now d jid st) = lc_published st" "lc_published (set_meta now jid f st) = lc_published st"
  "lc_published (drop_lease l m st) = lc_published st" "lc_published (take_lease now l m r d w st) = lc_published st"
  "lc_published (note_origin now jid st) = lc_published st" "lc_published (request_cancel now jid st) = lc_published st"
  "lc_published (drop_reservation m base charge dlq l st) = lc_published st"
  "lc_published (publish p m k x st) = lc_published st @ [(p, m, k, x)]"
  by (simp_all add: retain_job_def set_meta_def publish_def drop_lease_def take_lease_def set_owner_def set_leased_def note_origin_def request_cancel_def
    drop_reservation_def Let_def)

definition over :: "lifecycle \<Rightarrow> member \<Rightarrow> bool" where
  "over st m \<longleftrightarrow> (\<forall>mt. stored_meta st (fst m) = Some mt \<longrightarrow> jm_generation mt = Some (snd m) \<longrightarrow> jm_cancel_requested mt \<or> ended mt)"

definition announced :: "nat \<Rightarrow> lifecycle \<Rightarrow> lifecycle \<Rightarrow> bool" where
  "announced now st st' \<longleftrightarrow>
     lc_published st' = lc_published st \<or>
     (\<exists>p m kind x. lc_published st' = lc_published st @ [(p, m, kind, x)] \<and> has_generation now (fst m) (snd m) st \<and>
        (if kind = StreamFrame then \<not> cancel_requested now (fst m) st \<and> meta_state now (fst m) st = Some Processing else over st' m))"

lemma announced_same: "lc_published st' = lc_published st \<Longrightarrow> announced now st st'"
  by (simp add: announced_def)

lemma announced_final:
  "lc_published st' = lc_published st @ [(p, m, FinalFrame, x)] \<Longrightarrow> has_generation now (fst m) (snd m) st \<Longrightarrow> over st' m \<Longrightarrow> announced now st st'"
  unfolding announced_def by fastforce

lemma over_written: "jm_cancel_requested mt \<or> ended mt \<Longrightarrow> stored_meta st (fst m) = Some mt \<Longrightarrow> over st m"
  by (simp add: over_def)

lemma ended_simps [simp]: "jm_state mt = Some s \<Longrightarrow> ended mt = (\<not> open_state s)"
  by (simp add: ended_def)

lemma cancelled_over: "over (publish p m k x (request_cancel now (fst m) st)) m" "over (request_cancel now (fst m) st) m"
  by (simp_all add: over_def request_cancel_def stored_set_meta)

lemma cancel_noted: "has_generation now jid g st \<Longrightarrow> cancel_requested now jid st \<Longrightarrow> cancel_requested now jid (note_origin now jid st)"
  by (auto simp: note_origin_def cancel_requested_def request_cancel_def meta_of_set_meta split: option.splits)

lemma end_unleased_announced:
  assumes "has_generation now (fst m) (snd m) st" and "same_job note"
  shows "announced now st (end_unleased now l m ttl note envelope st)"
  by (rule announced_final [OF _ assms(1), where x = envelope])
    (use assms(2) in \<open>auto simp: end_unleased_def Let_def over_def stored_set_meta same_job_def open_state_def\<close>)

lemma holds_processing:
  assumes "tidy lims home st" and "holds_lease now l m owner st"
  shows "meta_state now (fst m) st = Some Processing"
  using owned_held [OF assms(1), of l m now] assms(2) by (auto simp: holds_lease_def held_def meta_state_held)

lemma frame_announced:
  assumes "tidy lims home st"
  shows "announced now st (snd (publish_script now l m owner payload n st))"
proof (cases "holds_lease now l m owner st \<and> \<not> cancel_requested now (fst m) (note_origin now (fst m) st)")
  case False
  then show ?thesis by (intro announced_same) (auto simp: publish_script_def Let_def)
next
  case True
  then have g: "has_generation now (fst m) (snd m) st" by (simp add: holds_lease_def)
  with True cancel_noted [OF g] holds_processing [OF assms, of now l m owner] show ?thesis
    by (auto simp: publish_script_def Let_def announced_def)
qed

lemma terminal_announced: "announced now st (snd (terminal_script now l m owner payload envelope st))"
proof (cases "fst (terminal_script now l m owner payload envelope st) = 1")
  case True
  then have g: "has_generation now (fst m) (snd m) st" by (auto simp: terminal_script_def holds_lease_def Let_def split: if_splits)
  from True show ?thesis
    by (intro announced_final [OF _ g, where p = "fst l" and x = "if cancel_requested now (fst m) (note_origin now (fst m) st) then envelope else payload"])
      (auto simp: terminal_script_def Let_def over_def stored_set_meta open_state_def split: if_splits)
next
  case False
  then show ?thesis by (intro announced_same) (auto simp: terminal_script_def Let_def)
qed

lemma dead_letter_announced: "announced now st (snd (dead_letter_script now l m owner dlq_envelope envelope st))"
proof (cases "holds_lease now l m owner st")
  case True
  then have g: "has_generation now (fst m) (snd m) st" by (simp add: holds_lease_def)
  from True show ?thesis
    by (intro announced_final [OF _ g, where p = "fst l" and x = "if cancel_requested now (fst m) st \<or> origin_expired now (fst m) st then envelope else dlq_envelope"])
      (auto simp: dead_letter_script_def Let_def over_def stored_set_meta open_state_def)
qed (simp add: dead_letter_script_def announced_same)

lemma cancel_announced:
  "announced now st (snd (cancel_script now l m ttl token envelope st))"
proof (cases "has_generation now (fst m) (snd m) st")
  case True
  have "announced now st (publish (fst l) m FinalFrame envelope (request_cancel now (fst m) (st\<lparr>lc_origin_expiry := z\<rparr>)))" for z
    by (rule announced_final [OF _ True]) (simp_all add: cancelled_over)
  with True end_unleased_announced [OF True, of id] show ?thesis
    by (auto simp: cancel_script_def Let_def same_job_def intro: announced_same)
qed (simp add: cancel_script_def announced_same)

lemma expire_announced: "announced now st (snd (expire_origin now ttl envelope m st))"
proof (cases "has_generation now (fst m) (snd m) st")
  case True
  have over_forget: "over (st'\<lparr>lc_origin_expiry := z\<rparr>) m = over st' m" for st' z by (simp add: over_def stored_meta_def)
  have "announced now st (publish p m FinalFrame envelope (request_cancel now (fst m) st)\<lparr>lc_origin_expiry := z\<rparr>)" for p z
    by (rule announced_final [OF _ True]) (simp_all add: cancelled_over over_forget)
  with True end_unleased_announced [OF True, of "\<lambda>mt. mt\<lparr>jm_cancel_requested := True\<rparr>"] show ?thesis
    by (auto simp: expire_origin_def Let_def same_job_def intro: announced_same split: option.split)
qed (simp add: expire_origin_def announced_same)

lemma atomic_announced:
  assumes "tidy lims home st" and "atomic_step lims home now st st'"
  shows "announced now st st'"
  using assms(2)
proof cases
  case (script opn)
  then show ?thesis
    by (cases opn) (simp_all add: frame_announced [OF assms(1)] terminal_announced dead_letter_announced cancel_announced,
      auto intro!: announced_same simp: reserve_script_def activate_script_def origin_heartbeat_script_def lease_script_def ack_script_def
        release_script_def refresh_script_def bump_attempts_script_def extend_terminal_script_def Let_def split: option.split list.split)
next
  case (reap_member m l)
  then show ?thesis by (auto intro!: announced_same simp: reap_one_def Let_def)
next
  case (clean_one m)
  then show ?thesis by (auto intro!: announced_same simp: cleanup_one_def split: option.split)
qed (simp add: expire_announced)

section \<open>The invariants\<close>

definition result_fixed :: "string \<Rightarrow> nat \<Rightarrow> string \<Rightarrow> nat \<Rightarrow> lifecycle \<Rightarrow> bool" where
  "result_fixed jid g v now st \<longleftrightarrow> paired now st \<and> g \<le> lc_generation st \<and>
     (\<forall>mt e. lc_meta st jid = Some (mt, e) \<longrightarrow> jm_generation mt = Some g \<longrightarrow> ended mt \<and> (unexpired now e \<longrightarrow> lc_terminal st jid = Some (v, e)))"

definition closed_channels :: "lifecycle \<Rightarrow> bool" where
  "closed_channels st \<longleftrightarrow> (\<forall>p m x. (p, m, FinalFrame, x) \<in> set (lc_published st) \<longrightarrow> snd m \<le> lc_generation st \<and> over st m)"

definition final_last :: "lifecycle \<Rightarrow> bool" where
  "final_last st \<longleftrightarrow> (\<forall>xs p m x ys. lc_published st = xs @ (p, m, FinalFrame, x) # ys \<longrightarrow> (\<forall>p' y. (p', m, StreamFrame, y) \<notin> set ys))"

lemma closedD: "closed_channels st \<Longrightarrow> (p, m, FinalFrame, x) \<in> set (lc_published st) \<Longrightarrow> snd m \<le> lc_generation st \<and> over st m"
  unfolding closed_channels_def by blast

lemma ended_stays:
  assumes "edited st st' jid (mt, e) (mt', e')" and "ended mt"
  shows "ended mt'"
  using assms by (auto simp: edited_def ended_def open_state_def)

lemma over_stays:
  assumes "tidy lims home st" and "atomic_step lims home now st st'" and "over st m" and "snd m \<le> lc_generation st"
  shows "over st' m"
  using atomic_effect [OF assms(1,2), of "fst m"]
proof cases
  case (edit mt e mt' e')
  with assms(3) ended_stays [OF edit(6)] show ?thesis by (auto simp: over_def stored_meta_def)
next
  case (fresh mt e)
  with assms(4) show ?thesis by (auto simp: over_def stored_meta_def)
qed (use assms(3) in \<open>simp_all add: over_def stored_meta_def\<close>)

lemma fixed_atomic:
  assumes "tidy lims home st" and "result_fixed jid g v now st" and "atomic_step lims home now st st'"
  shows "result_fixed jid g v now st'"
proof -
  have p: "paired now st'" and g: "g \<le> lc_generation st'"
    using paired_atomic [OF assms(1) _ assms(3)] generation_grows [OF assms(3)] assms(2) by (auto simp: result_fixed_def)
  have "ended mt \<and> (unexpired now e \<longrightarrow> lc_terminal st' jid = Some (v, e))" if m: "lc_meta st' jid = Some (mt, e)" "jm_generation mt = Some g" for mt e
    using atomic_effect [OF assms(1,3), of jid]
  proof cases
    case (edit mt0 e0 mt' e')
    with m have eq: "mt' = mt" "e' = e" "jm_generation mt0 = Some g" by auto
    with assms(2) edit(1,2) have old: "ended mt0" "lc_terminal st jid = Some (v, e0)" by (auto simp: result_fixed_def)
    with edit(6) ended_stays [OF edit(6)] eq show ?thesis by (auto simp: edited_def)
  next
    case keep
    with m(1) have "lc_meta st jid = Some (mt, e)" by simp
    with assms(2) m(2) keep(2) show ?thesis by (simp add: result_fixed_def)
  qed (use assms(2) m in \<open>auto simp: result_fixed_def\<close>)
  with p g show ?thesis by (simp add: result_fixed_def)
qed

lemma fixed_later: "result_fixed jid g v now st \<Longrightarrow> now \<le> now' \<Longrightarrow> result_fixed jid g v now' st"
  using paired_later unexpired_later by (fastforce simp: result_fixed_def)

lemma channels_atomic:
  assumes "tidy lims home st" and "closed_channels st \<and> final_last st" and "atomic_step lims home now st st'"
  shows "closed_channels st' \<and> final_last st'"
proof -
  note g = generation_grows [OF assms(3)]
  have old: "snd m \<le> lc_generation st' \<and> over st' m" if "(p, m, FinalFrame, x) \<in> set (lc_published st)" for p m x
  proof -
    from that assms(2) have "snd m \<le> lc_generation st \<and> over st m" using closedD by blast
    with over_stays [OF assms(1,3), of m] g show ?thesis by simp
  qed
  from atomic_announced [OF assms(1,3)] show ?thesis
    unfolding announced_def
  proof (elim disjE exE conjE)
    assume "lc_published st' = lc_published st"
    with assms(2) old show ?thesis by (simp add: closed_channels_def final_last_def)
  next
    fix p m kind x
    assume new: "lc_published st' = lc_published st @ [(p, m, kind, x)]" and live: "has_generation now (fst m) (snd m) st"
      and kind: "if kind = StreamFrame then \<not> cancel_requested now (fst m) st \<and> meta_state now (fst m) st = Some Processing else over st' m"
    from live have gen: "snd m \<le> lc_generation st" using held_job [OF assms(1) live] assms(1) by (auto simp: held_def tidy_def)
    obtain mt where mt: "stored_meta st (fst m) = Some mt" "meta_of now (fst m) st = Some mt" "jm_generation mt = Some (snd m)"
      using generationE [OF live] by metis
    have "\<not> over st m" if "kind = StreamFrame"
      using that kind mt by (auto simp: over_def cancel_requested_def meta_state_held open_state_def)
    then have open_channel: "(p', m, FinalFrame, x') \<notin> set (lc_published st)" if "kind = StreamFrame" for p' x'
      using that closedD assms(2) by blast
    have "closed_channels st'" using old new kind gen g by (fastforce simp: closed_channels_def)
    moreover have "final_last st'"
      unfolding final_last_def
    proof (intro allI impI)
      fix xs q k y ys p' z
      assume eq: "lc_published st' = xs @ (q, k, FinalFrame, y) # ys"
      show "(p', k, StreamFrame, z) \<notin> set ys"
      proof (cases ys rule: rev_cases)
        case (snoc ys' entry)
        with eq new have o: "lc_published st = xs @ (q, k, FinalFrame, y) # ys'" and "entry = (p, m, kind, x)" by auto
        moreover have "(q, k, FinalFrame, y) \<in> set (lc_published st)" using o by simp
        ultimately show ?thesis using snoc assms(2) open_channel by (auto simp: final_last_def)
      qed simp
    qed
    ultimately show ?thesis ..
  qed
qed

text \<open>The queues are sorted by score, so that the head of a queue is its most urgent job.\<close>

definition ordered :: "lifecycle \<Rightarrow> bool" where
  "ordered st \<longleftrightarrow> (\<forall>l. sorted (map fst (lc_queue st l)))"

lemma zinsert_scores: "set (map fst (zinsert s m z)) = insert s (set (map fst z))"
  by (induction s m z rule: zinsert.induct) auto

lemma sorted_zinsert: "sorted (map fst z) \<Longrightarrow> sorted (map fst (zinsert s m z))"
proof (induction s m z rule: zinsert.induct)
  case (2 s m t k z)
  have "set (map fst (zinsert s m z)) = insert s (set (map fst z))" by (rule zinsert_scores)
  with 2 show ?case by auto
qed simp

lemma sorted_zrem: "sorted (map fst z) \<Longrightarrow> sorted (map fst (zrem m z))"
  by (simp add: zrem_def sorted_filter)

lemma ordered_zadd: "ordered st \<Longrightarrow> sorted (map fst (zadd s m (lc_queue st l)))"
  by (simp add: ordered_def zadd_def sorted_zinsert sorted_zrem)

lemma queue_pieces [simp]:
  "lc_queue (retain_job now d jid st) = lc_queue st" "lc_queue (set_meta now jid f st) = lc_queue st" "lc_queue (publish p m k x st) = lc_queue st"
  "lc_queue (drop_lease l m st) = lc_queue st" "lc_queue (note_origin now jid st) = lc_queue st" "lc_queue (request_cancel now jid st) = lc_queue st"
  "lc_queue (take_lease now l m r d w st) = (lc_queue st)(l := zrem m (lc_queue st l))"
  "lc_queue (end_unleased now l m ttl f envelope st) = (lc_queue st)(l := zrem m (lc_queue st l))"
  "lc_queue (drop_reservation m base charge dlq l st) = (lc_queue st)(l := zrem m (lc_queue st l))"
  by (simp_all add: retain_job_def set_meta_def publish_def drop_lease_def take_lease_def set_owner_def set_leased_def note_origin_def request_cancel_def
    end_unleased_def drop_reservation_def Let_def)

lemma ordered_queue:
  "ordered st \<Longrightarrow> sorted (map fst z) \<Longrightarrow> lc_queue st' = (lc_queue st)(l := z) \<Longrightarrow> ordered st'"
  by (simp add: ordered_def)

lemma reserve_queue: "lc_queue (snd (reserve_script lims now sb st)) = lc_queue st"
  by (auto simp: reserve_script_def Let_def split: option.split)

lemma ordered_drop: "ordered st \<Longrightarrow> lc_queue st' = (lc_queue st)(l := zrem m (lc_queue st l)) \<Longrightarrow> ordered st'"
  by (rule ordered_queue) (simp_all add: ordered_def sorted_zrem)

lemma ordered_put: "ordered st \<Longrightarrow> lc_queue st' = (lc_queue st)(l := zadd s m (lc_queue st l)) \<Longrightarrow> ordered st'"
  by (rule ordered_queue) (simp_all add: ordered_zadd)

lemma ordered_same: "ordered st \<Longrightarrow> lc_queue st' = lc_queue st \<Longrightarrow> ordered st'"
  by (simp add: ordered_def)

lemma lease_queue: "\<exists>m. lc_queue (snd (lease_script lims now l d w t st)) = lc_queue st \<or>
    lc_queue (snd (lease_script lims now l d w t st)) = (lc_queue st)(l := zrem m (lc_queue st l))"
proof (cases "lc_queue st l")
  case (Cons entry z)
  then show ?thesis
    by (cases entry) (rule exI [of _ "snd entry"], simp add: lease_script_def Let_def split: option.split)
qed (simp add: lease_script_def)

lemma ordered_atomic:
  assumes "tidy lims home st" and "ordered st" and "atomic_step lims home now st st'"
  shows "ordered st'"
  using assms(3)
proof cases
  case (script opn)
  note rules = ordered_drop [OF assms(2)] ordered_put [OF assms(2)] ordered_same [OF assms(2)]
  show ?thesis
  proof (cases opn)
    case (Reserve sb)
    with script show ?thesis using ordered_same [OF assms(2)] reserve_queue by simp
  next
    case (Lease l d w t)
    with script lease_queue [of lims now l d w t st] show ?thesis by (auto intro: rules)
  qed (use script assms(2) in \<open>auto simp: activate_script_def origin_heartbeat_script_def cancel_script_def ack_script_def release_script_def
    refresh_script_def publish_script_def terminal_script_def dead_letter_script_def bump_attempts_script_def extend_terminal_script_def Let_def intro: rules\<close>)
next
  case (expire_one m)
  then show ?thesis by (auto simp: expire_origin_def Let_def intro: ordered_drop [OF assms(2)] ordered_same [OF assms(2)] split: option.split)
next
  case (reap_member m l)
  then show ?thesis by (auto simp: reap_one_def Let_def intro: ordered_put [OF assms(2)] ordered_same [OF assms(2)] split: option.split)
next
  case (clean_one m)
  then show ?thesis by (auto simp: cleanup_one_def intro: ordered_drop [OF assms(2)] ordered_same [OF assms(2)] split: option.split)
qed

interpretation pairs: job_invariant "limits_from_env var" home paired for var home
  by unfold_locales (fact limits_roomy paired_later paired_atomic)+

interpretation results: job_invariant "limits_from_env var" home "result_fixed jid g v" for var home jid g v
  by unfold_locales (fact limits_roomy fixed_later fixed_atomic)+

interpretation channels: job_invariant "limits_from_env var" home "\<lambda>now st. closed_channels st \<and> final_last st" for var home
  by unfold_locales (fact limits_roomy channels_atomic | assumption)+

interpretation queues: job_invariant "limits_from_env var" home "\<lambda>now st. ordered st" for var home
  by unfold_locales (fact limits_roomy ordered_atomic | assumption)+

lemma paired_empty: "paired now (empty_lifecycle old)"
  by (simp add: paired_def empty_lifecycle_def)

lemma generation_given:
  assumes "tidy lims home st" and "has_generation now (fst m) (snd m) st"
  shows "snd m \<le> lc_generation st"
proof -
  obtain mt base t s where "held home now st m mt base t s" by (rule held_job [OF assms])
  with assms(1) show ?thesis by (simp add: held_def tidy_def)
qed

lemma run_result_fixed:
  assumes "job_run (limits_from_env var) home now st" and "read_terminal_script now jid g st = Some v"
  shows "results.good var home jid g v now st"
proof -
  from pairs.run_good [OF assms(1) paired_empty] have t: "tidy (limits_from_env var) home st" "single_leases st" "paired now st"
    by (simp_all add: pairs.good_def)
  from assms(2) have g: "has_generation now jid g st" by (simp add: read_terminal_script_def split: if_splits)
  then obtain mt e where m: "lc_meta st jid = Some (mt, e)" "unexpired now e" "jm_generation mt = Some g" using generationE by metis
  from assms(2) g obtain e' where v: "lc_terminal st jid = Some (v, e')" "unexpired now e'"
    by (auto simp: read_terminal_script_def lookup_live_def split: option.splits if_splits)
  with pairedD [OF t(3) v(2), of jid] m have "e' = e" "ended mt" by auto
  moreover have "g \<le> lc_generation st" using generation_given [OF t(1), of now "(jid, g)"] g by simp
  ultimately show ?thesis using t m v by (auto simp: results.good_def result_fixed_def)
qed

text \<open>Below \<open>2 ^ 53\<close> a virtual deadline is the exact difference.\<close>

lemma deadline_exact:
  assumes "e < 2 ^ 53" and "t * step < 2 ^ 53"
  shows "deadline_score t e step = Fin (rat_of_int (int e - int (t * step)))"
proof -
  have m: "t * step mod 2 ^ 64 = t * step" using assms(2) by simp
  let ?d = "int e - int (t * step)"
  have "int e < 2 ^ 53" "int (t * step) < 2 ^ 53" using assms by (simp_all only: of_nat_less_numeral_power_cancel_iff)
  then have d: "\<bar>?d\<bar> \<le> 2 ^ 53" by linarith
  then have "\<bar>rat_of_int ?d\<bar> \<le> 2 ^ 53" by (metis of_int_abs of_int_le_iff of_int_numeral of_int_power)
  with pow_53_less have "\<bar>rat_of_int ?d\<bar> < 2 ^ 1024" by linarith
  with round_f64_exact [OF round_rat_int [OF d]] have "round_f64 (rat_of_int ?d) = Fin (rat_of_int ?d)" by simp
  with assms m show ?thesis by (simp add: deadline_score_def f64_sub_def f64_of_nat_exact)
qed

section \<open>A run\<close>

definition example_home :: "string \<Rightarrow> lane" where "example_home jid = (ScopedV1, ''p'')"

definition example_submission :: submission where
  "example_submission = \<lparr>sb_id = ''j'', sb_nonce = ''n'', sb_payload = ''{}'', sb_lane = (ScopedV1, ''p''), sb_stream = True, sb_priority = 5,
     sb_origin_lease = 1000, sb_origin_total = 9000, sb_origin_token = ''t''\<rparr>"

definition example_steps :: "(nat \<times> job_op) list" where
  "example_steps = [(0, Reserve example_submission), (1, Activate (''j'', 1) 5 60000 10), (2, Lease (ScopedV1, ''p'') 500 ''w'' 60000),
     (3, PublishFrame (''j'', 1) ''w'' ''a'' 1), (4, Complete (''j'', 1) ''w'' ''r'')]"

definition cancelled_steps :: "(nat \<times> job_op) list" where
  "cancelled_steps = [(0, Reserve example_submission), (1, Activate (''j'', 1) 5 60000 10), (2, Lease (ScopedV1, ''p'') 500 ''w'' 60000),
     (3, PublishFrame (''j'', 1) ''w'' ''a'' 1), (5, Cancel (''j'', 1) ''t''), (6, PublishFrame (''j'', 1) ''w'' ''b'' 1), (7, Complete (''j'', 1) ''w'' ''r'')]"

definition example_run :: "(nat \<times> job_op) list \<Rightarrow> lifecycle" where
  "example_run steps = fold (\<lambda>(now, opn). run_op (limits_from_env (\<lambda>_. None)) example_home now opn) steps (empty_lifecycle (\<lambda>_. 0))"

lemmas store_simps = set_meta_def retain_job_def pexpire_def lookup_live_def unexpired_def meta_of_def has_generation_def meta_state_def
  meta_number_def cancel_requested_def origin_expired_def note_origin_def publish_def drop_lease_def take_lease_def set_owner_def set_leased_def
  zadd_def zrem_def zscore_def holds_lease_def Let_def

lemmas example_simps = example_run_def example_steps_def example_submission_def example_home_def empty_lifecycle_def limits_from_env_def default_lifecycle_limits_def
  MIN_TERMINAL_BYTES_def METADATA_BYTES_def old_sets_def both_protocols_def waiting_jobs_def no_meta_def
  reserve_script_def activate_script_def lease_script_def publish_script_def terminal_script_def read_terminal_script_def
  ACTIVATION_TTL_MS_def CLEANUP_GRACE_MS_def LEASED_GRACE_MS_def DONE_TTL_SECS_def

lemma example_run_ok: "job_run (limits_from_env (\<lambda>_. None)) example_home 4 (example_run example_steps)"
  unfolding example_run_def example_steps_def
  by (simp only: fold_simps prod.case comp_apply, (rule job_run.step)+, rule job_run.start [of _ _ 0])
    (simp_all add: op_home_def example_submission_def example_home_def)

lemma cancelled_run_ok: "job_run (limits_from_env (\<lambda>_. None)) example_home 7 (example_run cancelled_steps)"
  unfolding example_run_def cancelled_steps_def
  by (simp only: fold_simps prod.case comp_apply, (rule job_run.step)+, rule job_run.start [of _ _ 0])
    (simp_all add: op_home_def example_submission_def example_home_def)

lemma envelope_length: "length CANCEL_ENVELOPE = 47"
  by (simp add: CANCEL_ENVELOPE_def)

lemma example_read: "read_terminal_script 4 ''j'' 1 (example_run example_steps) = Some ''r''"
  by (simp add: example_simps store_simps)

section \<open>The claims\<close>

text \<open>C34. A result is read once and for all: in every run, once a reader has seen a result of a job, every later read for the same
  generation gives that result as long as the metadata of the generation is there, and nothing afterwards. No worker with a stale
  lease, no cancellation, no reaper and no reuse of the id replaces it.\<close>

theorem results_never_change:
  assumes "job_run (limits_from_env var) home now st" and "read_terminal_script now jid g st = Some v"
    and "job_path (limits_from_env var) home now st now' st'"
  shows "read_terminal_script now' jid g st' = (if has_generation now' jid g st' then Some v else None)"
proof -
  from results.path_good [OF assms(3) run_result_fixed [OF assms(1,2)]] have "result_fixed jid g v now' st'" by (simp add: results.good_def)
  then show ?thesis
    by (cases "has_generation now' jid g st'")
      (auto elim!: generationE simp: read_terminal_script_def result_fixed_def lookup_live_def)
qed

theorem results_never_change_witness:
  "read_terminal_script 5 ''j'' 1 (run_op (limits_from_env (\<lambda>_. None)) example_home 5 (Cancel (''j'', 1) ''t'') (example_run example_steps)) =
     (if has_generation 5 ''j'' 1 (run_op (limits_from_env (\<lambda>_. None)) example_home 5 (Cancel (''j'', 1) ''t'') (example_run example_steps))
      then Some ''r'' else None)"
proof (rule results_never_change [OF example_run_ok example_read])
  show "job_path (limits_from_env (\<lambda>_. None)) example_home 4 (example_run example_steps) 5
      (run_op (limits_from_env (\<lambda>_. None)) example_home 5 (Cancel (''j'', 1) ''t'') (example_run example_steps))"
    by (rule job_path.further [OF job_path.here]) (simp_all add: op_home_def)
qed

text \<open>C33. Retained capacity is charged exactly and never exceeded: in every run the four counters the scripts check are the number of
  reservations and the sums of what each reservation is charged, whatever scripts failed half way through a job's life, and jobs,
  request bytes, result bytes, dead-letter bytes and dead-letter entries stay within their limits.\<close>

theorem capacity_exact:
  assumes "job_run (limits_from_env var) home now st"
  shows "lc_jobs st = int (card (dom (lc_reservations st))) \<and>
    lc_base_bytes st = int (\<Sum>m \<in> dom (lc_reservations st). the (lc_reservations st m)) \<and>
    lc_terminal_bytes st = int (\<Sum>m \<in> dom (lc_reservations st). the (lc_terminal_res st m)) \<and>
    lc_dlq_bytes st = int (\<Sum>m \<in> dom (lc_reservations st). the (lc_dlq_res st m)) \<and>
    lc_jobs st \<le> int (ll_max_jobs (limits_from_env var)) \<and> lc_base_bytes st \<le> int (ll_max_base_bytes (limits_from_env var)) \<and>
    lc_terminal_bytes st \<le> int (ll_max_terminal_bytes (limits_from_env var)) \<and> lc_dlq_bytes st \<le> int DLQ_MAX_BYTES \<and>
    length (lc_dlq st l) \<le> DLQ_MAX_COUNT"
proof -
  have t: "tidy (limits_from_env var) home st" using run_tidy [OF assms limits_roomy] ..
  then show ?thesis using domains [OF t] by (simp add: tidy_def books_def in_bounds_def total_of_def)
qed

theorem capacity_exact_witness:
  "lc_jobs (example_run example_steps) = int (card (dom (lc_reservations (example_run example_steps)))) \<and>
   lc_terminal_bytes (example_run example_steps) \<le> int (ll_max_terminal_bytes (limits_from_env (\<lambda>_. None)))"
  using capacity_exact [OF example_run_ok, of "(ScopedV1, ''p'')"] by simp

text \<open>C36. A job is in one place: in every run a reserved job waits at most in its home queue, or is leased there to the owner who is
  recorded with its score, or is dead-lettered there, as its state says, and never in two of them; a job that is not reserved is in
  none.\<close>

theorem job_in_one_place:
  assumes "job_run (limits_from_env var) home now st"
  shows "(m \<in> zmembers (lc_queue st l) \<longrightarrow> lc_states st m = Some Waiting \<and> l = home (fst m)) \<and>
    (m \<in> zmembers (lc_processing st l) \<longrightarrow> lc_states st m = Some Processing \<and> l = home (fst m)) \<and>
    (m \<in> zmembers (lc_dlq st l) \<longleftrightarrow> lc_states st m = Some Dlq \<and> l = home (fst m)) \<and>
    (m \<in> zmembers (lc_processing st l) \<longleftrightarrow> lc_owners st l m \<noteq> None) \<and> (lc_owners st l m \<noteq> None \<longleftrightarrow> lc_leased st l m \<noteq> None) \<and>
    distinct (map snd (lc_processing st l)) \<and> (lc_states st m \<noteq> None \<longleftrightarrow> lc_reservations st m \<noteq> None)"
proof -
  have t: "tidy (limits_from_env var) home st" "single_leases st" using run_tidy [OF assms limits_roomy] by simp_all
  have d: "distinct (map snd (lc_processing st l))" using t(2) by (simp add: single_leases_def)
  show ?thesis
  proof (cases rule: view_cases [OF t(1), of m])
    case 1
    with d show ?thesis by (auto simp: about_def absent_view_def nowhere_def fun_eq_iff)
  next
    case (2 base charge s)
    with d show ?thesis by (auto simp: placed_def about_def)
  qed
qed

theorem job_in_one_place_witness: "(''j'', 1) \<notin> zmembers (lc_processing (example_run example_steps) (ScopedV1, ''p''))"
proof -
  have "lc_states (example_run example_steps) (''j'', 1) = Some Terminal" by (simp add: example_simps store_simps)
  with job_in_one_place [OF example_run_ok, of "(''j'', 1)" "(ScopedV1, ''p'')"] show ?thesis by simp
qed

text \<open>C35. No frame follows the final message: in every run, once a worker, a cancellation or the end of an origin has published the
  final message of a job on its channel, no frame of the job's stream is published any more, not even by a worker that still holds
  its lease.\<close>

theorem final_message_is_last:
  assumes "job_run (limits_from_env var) home now st" and "lc_published st = xs @ (p, m, FinalFrame, x) # ys"
  shows "(p', m, StreamFrame, y) \<notin> set ys"
proof -
  have "closed_channels (empty_lifecycle old) \<and> final_last (empty_lifecycle old)" for old
    by (simp add: closed_channels_def final_last_def empty_lifecycle_def)
  from channels.run_good [OF assms(1) this] have "final_last st" by (simp add: channels.good_def)
  with assms(2) show ?thesis unfolding final_last_def by blast
qed

theorem final_message_is_last_witness:
  "lc_published (example_run cancelled_steps) =
     [(ScopedV1, (''j'', 1), StreamFrame, ''a'')] @ (ScopedV1, (''j'', 1), FinalFrame, CANCEL_ENVELOPE) # [(ScopedV1, (''j'', 1), FinalFrame, CANCEL_ENVELOPE)] \<and>
   (ScopedV1, (''j'', 1), StreamFrame, ''b'') \<notin> set [(ScopedV1, (''j'', 1 :: nat), FinalFrame, CANCEL_ENVELOPE)]"
proof -
  have p: "lc_published (example_run cancelled_steps) = [(ScopedV1, (''j'', 1), StreamFrame, ''a'')] @
      (ScopedV1, (''j'', 1), FinalFrame, CANCEL_ENVELOPE) # [(ScopedV1, (''j'', 1), FinalFrame, CANCEL_ENVELOPE)]"
    by (simp add: example_simps store_simps cancelled_steps_def cancel_script_def request_cancel_def envelope_length)
  with final_message_is_last [OF cancelled_run_ok p, of ScopedV1 "''b''"] show ?thesis by blast
qed

text \<open>C37. Workers take the most urgent job: in every run the job a worker leases has the smallest score of its queue. Where the scores
  are the virtual deadlines of the jobs and enqueue times and tier advances are below \<open>2 ^ 53\<close>, the floating point differences are
  exact: a leased job of tier \<open>t\<close> enqueued at \<open>e\<close> was not enqueued later than another waiting one of tier \<open>t'\<close>, each time shifted
  by one aging step per tier. So jobs of one tier are leased first come first served, and a job of a low tier is passed over
  only by jobs enqueued within the advance of their tier.\<close>

theorem lease_most_urgent:
  assumes "job_run (limits_from_env var) home now st"
    and "lease_script (limits_from_env var) now' l d owner timeout st = (Some (m, score, payload), st')"
    and "(s, k) \<in> set (lc_queue st l)"
  shows "(score, m) \<in> set (lc_queue st l) \<and> score \<le> s \<and>
    (deadline_score t e step = Fin score \<and> deadline_score t' e' step = Fin s \<and> e < 2 ^ 53 \<and> e' < 2 ^ 53 \<and> t * step < 2 ^ 53 \<and> t' * step < 2 ^ 53 \<longrightarrow>
       e + t' * step \<le> e' + t * step)"
proof -
  have "ordered (empty_lifecycle old)" for old by (simp add: ordered_def empty_lifecycle_def)
  from queues.run_good [OF assms(1) this] have "ordered st" by (simp add: queues.good_def)
  then have "sorted (map fst (lc_queue st l))" by (simp add: ordered_def)
  moreover from assms(2) obtain z where q: "lc_queue st l = (score, m) # z"
    by (auto simp: lease_script_def Let_def split: list.splits option.splits if_splits)
  ultimately have le: "score \<le> s" using assms(3) by auto
  have "e + t' * step \<le> e' + t * step"
    if "deadline_score t e step = Fin score" "deadline_score t' e' step = Fin s" "e < 2 ^ 53" "e' < 2 ^ 53" "t * step < 2 ^ 53" "t' * step < 2 ^ 53"
  proof -
    have "rat_of_int (int e - int (t * step)) = score" "rat_of_int (int e' - int (t' * step)) = s"
      using deadline_exact [of e t step] deadline_exact [of e' t' step] that by simp_all
    with le have "int e - int (t * step) \<le> int e' - int (t' * step)" by (metis of_int_le_iff)
    then show ?thesis by linarith
  qed
  with le q show ?thesis by simp
qed

theorem lease_most_urgent_witness:
  "(5, (''j'', 1)) \<in> set (lc_queue (example_run (take 2 example_steps)) (ScopedV1, ''p'')) \<and> (5 :: rat) \<le> 5"
proof -
  have run: "job_run (limits_from_env (\<lambda>_. None)) example_home 1 (example_run (take 2 example_steps))"
    unfolding example_run_def example_steps_def
    by (simp only: take_Suc_Cons take_0 numeral_2_eq_2 fold_simps prod.case comp_apply, (rule job_run.step)+, rule job_run.start [of _ _ 0])
      (simp_all add: op_home_def example_submission_def example_home_def)
  have q: "lc_queue (example_run (take 2 example_steps)) (ScopedV1, ''p'') = [(5, (''j'', 1))]" by (simp add: example_simps store_simps)
  have "\<exists>st'. lease_script (limits_from_env (\<lambda>_. None)) 2 (ScopedV1, ''p'') 500 ''w'' 60000 (example_run (take 2 example_steps)) =
      (Some ((''j'', 1), 5, ''{}''), st')"
    by (simp add: example_simps store_simps)
  with lease_most_urgent [OF run, of 2 "(ScopedV1, ''p'')" 500 "''w''" 60000 "(''j'', 1)" 5 "''{}''" _ 5 "(''j'', 1)" 0 0 0 0 0] q show ?thesis by auto
qed

section \<open>A leak\<close>

text \<open>
  \<open>REAP_LUA\<close> writes \<open>cancel_requested\<close> before it compares generations. When the metadata of a leased job has expired, after an
  outage longer than the timeout of the job and the grace of an hour, the write creates a hash that holds nothing else and never
  expires; the job is out of every queue, and \<open>CLEANUP_LUA\<close>, which finds a job in state \<open>processing\<close> with metadata, postpones it for
  ever: its capacity is not given back.
\<close>

lemma leaked_stays:
  assumes "lc_states st m = Some Processing" and "lc_meta st (fst m) = Some (mt, None)"
  shows "lc_states (snd (cleanup_one now m st)) m = Some Processing \<and> lc_meta (snd (cleanup_one now m st)) (fst m) = Some (mt, None) \<and>
    lc_jobs (snd (cleanup_one now m st)) = lc_jobs st"
  using assms by (auto simp: cleanup_one_def meta_of_def lookup_live_def unexpired_def split: option.split)

lemma reap_leaks:
  "(let st = example_run (take 3 example_steps @ [(4000000, Reap (ScopedV1, ''p'') 128), (4000000, Cleanup 128), (1000000000, Cleanup 128)])
    in lc_jobs st = 1 \<and> lc_states st (''j'', 1) = Some Processing \<and> lc_queue st (ScopedV1, ''p'') = [] \<and> lc_processing st (ScopedV1, ''p'') = [])"
  by (simp add: example_simps store_simps reap_script_def cleanup_script_def reap_one_def cleanup_one_def zrange_by_score_def request_cancel_def numeral_3_eq_3)

end
