(* ===== verification/GatewayQueue.thy ===== *)
theory GatewayQueue
  imports Buckets
begin

text \<open>
  The queue of one provider lane of the in-process gateway (\<open>src/gateway/mod.rs\<close>): jobs by sequence number, with an index by tier
  and an index by deadline. A \<open>BTreeSet\<close> of sequence numbers is the sorted list of its members. What happens under the mutex is one
  operation; the clock is an argument; a panic of \<open>unwrap\<close> is \<open>None\<close>. Whether the caller of a job has gone away is an argument too,
  since the channel that tells is part of the lane.
\<close>

section \<open>Jobs and indexes\<close>

record 'p gateway_job =
  gj_tier :: nat
  gj_seqno :: nat
  gj_permits :: nat
  gj_payload :: 'p
  gj_gated :: bool
  gj_stream :: bool
  gj_enqueued_at :: instant
  gj_deadline :: instant

record 'p queue_inner =
  qi_tiers :: "(nat \<times> nat list) list"
  qi_jobs :: "(nat, 'p gateway_job) hash_map"
  qi_deadlines :: "(instant \<times> nat list) list"

record queue_settings =
  qs_max_depth :: nat
  qs_aging_step :: duration
  qs_max_boost :: nat

definition with_aging :: "nat \<Rightarrow> duration \<Rightarrow> nat \<Rightarrow> queue_settings" where
  "with_aging max_depth aging_step max_boost =
     \<lparr>qs_max_depth = max max_depth 1, qs_aging_step = max aging_step (from_millis 1), qs_max_boost = max_boost\<rparr>"

definition new_queue :: "nat \<Rightarrow> queue_settings" where
  "new_queue max_depth = with_aging max_depth (from_secs 5) 16"

definition empty_queue :: "'p queue_inner" where
  "empty_queue = \<lparr>qi_tiers = [], qi_jobs = [], qi_deadlines = []\<rparr>"

definition index_insert :: "'k :: linorder \<Rightarrow> nat \<Rightarrow> ('k \<times> nat list) list \<Rightarrow> ('k \<times> nat list) list" where
  "index_insert k i ix = btree_insert k (insort_insert i (case map_of ix k of Some ids \<Rightarrow> ids | None \<Rightarrow> [])) ix"

definition index_remove :: "'k :: linorder \<Rightarrow> nat \<Rightarrow> ('k \<times> nat list) list \<Rightarrow> ('k \<times> nat list) list" where
  "index_remove k i ix =
     (case map_of ix k of
        None \<Rightarrow> ix
      | Some ids \<Rightarrow> let rest = removeAll i ids in if rest = [] then AList.delete k ix else btree_insert k rest ix)"

definition remove_tier_index :: "nat \<Rightarrow> nat \<Rightarrow> 'p queue_inner \<Rightarrow> 'p queue_inner" where
  "remove_tier_index t i q = q\<lparr>qi_tiers := index_remove t i (qi_tiers q)\<rparr>"

definition remove_deadline_index :: "instant \<Rightarrow> nat \<Rightarrow> 'p queue_inner \<Rightarrow> 'p queue_inner" where
  "remove_deadline_index d i q = q\<lparr>qi_deadlines := index_remove d i (qi_deadlines q)\<rparr>"

definition insert_deadline_index :: "instant \<Rightarrow> nat \<Rightarrow> 'p queue_inner \<Rightarrow> 'p queue_inner" where
  "insert_deadline_index d i q = q\<lparr>qi_deadlines := index_insert d i (qi_deadlines q)\<rparr>"

section \<open>Operations\<close>

text \<open>\<open>x as i64\<close> truncates and saturates.\<close>

fun f64_as_i64 :: "f64 \<Rightarrow> int" where
  "f64_as_i64 (Fin a) = max (- (2 ^ 63)) (min (2 ^ 63 - 1) (if 0 \<le> a then \<lfloor>a\<rfloor> else \<lceil>a\<rceil>))"
| "f64_as_i64 (Inf s) = (if s then - (2 ^ 63) else 2 ^ 63 - 1)"
| "f64_as_i64 NaN = 0"

definition aging_boost :: "queue_settings \<Rightarrow> instant \<Rightarrow> instant \<Rightarrow> int" where
  "aging_boost qs enqueued_at now =
     (let waited = as_secs_f64 (saturating_duration_since now enqueued_at);
          boost = f64_as_i64 (f64_floor (f64_div waited (as_secs_f64 (qs_aging_step qs))))
      in max 0 (min (int (qs_max_boost qs)) boost))"

definition effective_priority :: "queue_settings \<Rightarrow> nat \<Rightarrow> instant \<Rightarrow> instant \<Rightarrow> int" where
  "effective_priority qs t enqueued_at now = int t + aging_boost qs enqueued_at now"

text \<open>The front of each tier competes; the best so far is its priority, its sequence number and its tier.\<close>

fun best_front ::
  "queue_settings \<Rightarrow> instant \<Rightarrow> (nat, 'p gateway_job) hash_map \<Rightarrow> (nat \<times> nat list) list \<Rightarrow> (int \<times> nat \<times> nat) option \<Rightarrow> (int \<times> nat \<times> nat) option option"
where
  "best_front qs now jobs [] best = Some best"
| "best_front qs now jobs ((t, ids) # rest) best =
     (case ids of
        [] \<Rightarrow> best_front qs now jobs rest best
      | i # _ \<Rightarrow>
          (case map_of jobs i of
             None \<Rightarrow> None
           | Some j \<Rightarrow>
               let eff = effective_priority qs t (gj_enqueued_at j) now;
                   seqno = gj_seqno j;
                   better = (case best of None \<Rightarrow> True | Some (be, bs, _) \<Rightarrow> be < eff \<or> eff = be \<and> seqno < bs)
               in best_front qs now jobs rest (if better then Some (eff, seqno, t) else best)))"

definition pop_best :: "queue_settings \<Rightarrow> instant \<Rightarrow> 'p queue_inner \<Rightarrow> ('p gateway_job option \<times> 'p queue_inner) option" where
  "pop_best qs now q =
     (case best_front qs now (qi_jobs q) (qi_tiers q) None of
        None \<Rightarrow> None
      | Some best \<Rightarrow>
          let q = q\<lparr>qi_tiers := filter (\<lambda>(_, ids). ids \<noteq> []) (qi_tiers q)\<rparr> in
          (case best of
             None \<Rightarrow> Some (None, q)
           | Some (_, _, t) \<Rightarrow>
               (case map_of (qi_tiers q) t of
                  Some (i # _) \<Rightarrow>
                    let q = remove_tier_index t i q in
                    (case map_of (qi_jobs q) i of
                       None \<Rightarrow> None
                     | Some j \<Rightarrow> Some (Some j, remove_deadline_index (gj_deadline j) i (q\<lparr>qi_jobs := AList.delete i (qi_jobs q)\<rparr>)))
                | _ \<Rightarrow> None)))"

definition insert_job :: "'p gateway_job \<Rightarrow> 'p queue_inner \<Rightarrow> 'p queue_inner" where
  "insert_job j q =
     (let i = gj_seqno j in
      insert_deadline_index (gj_deadline j) i
        (q\<lparr>qi_jobs := AList.update i j (qi_jobs q), qi_tiers := index_insert (gj_tier j) i (qi_tiers q)\<rparr>))"

definition enqueue :: "queue_settings \<Rightarrow> 'p gateway_job \<Rightarrow> 'p queue_inner \<Rightarrow> 'p queue_inner option" where
  "enqueue qs j q = (if qs_max_depth qs \<le> length (qi_jobs q) then None else Some (insert_job j q))"

definition requeue :: "'p gateway_job \<Rightarrow> 'p queue_inner \<Rightarrow> 'p queue_inner" where
  "requeue j q = insert_job j q"

definition queue_depth :: "'p queue_inner \<Rightarrow> nat" where
  "queue_depth q = length (qi_jobs q)"

text \<open>The jobs whose deadline has passed are taken out, and those of callers who have gone; the former are told. The answer is the
  next deadline, the jobs that timed out and the queue.\<close>

definition index_entries :: "('k \<times> nat list) list \<Rightarrow> nat" where
  "index_entries ix = sum_list (map (\<lambda>(_, ids). length ids) ix)"

function expire_and_earliest_deadline ::
  "(nat \<Rightarrow> bool) \<Rightarrow> instant \<Rightarrow> 'p queue_inner \<Rightarrow> 'p gateway_job list \<Rightarrow> (instant option \<times> 'p gateway_job list \<times> 'p queue_inner) option" where
  "expire_and_earliest_deadline gone now q told =
     (case qi_deadlines q of
        [] \<Rightarrow> Some (None, told, q)
      | (d, []) # _ \<Rightarrow> None
      | (d, i # _) # _ \<Rightarrow>
          let cancelled = (case map_of (qi_jobs q) i of None \<Rightarrow> True | Some _ \<Rightarrow> gone i) in
          if now < d \<and> \<not> cancelled then Some (Some d, told, q)
          else
            let q = remove_deadline_index d i q in
            (case map_of (qi_jobs q) i of
               None \<Rightarrow> expire_and_earliest_deadline gone now q told
             | Some j \<Rightarrow>
                 expire_and_earliest_deadline gone now (remove_tier_index (gj_tier j) i (q\<lparr>qi_jobs := AList.delete i (qi_jobs q)\<rparr>))
                   (if cancelled then told else told @ [j])))"
  by pat_completeness auto

lemma entries_delete: "index_entries (AList.delete k ix) \<le> index_entries ix"
  by (induction ix) (auto simp: index_entries_def)

lemma entries_remove_head: "index_entries (index_remove d i ((d, i # ids) # rest)) < index_entries ((d, i # ids) # rest)"
  using entries_delete [of d rest] length_removeAll_less_eq [of i ids]
  by (auto simp: index_remove_def Let_def index_entries_def le_imp_less_Suc simp del: length_removeAll_less_eq)

termination expire_and_earliest_deadline
  by (relation "measure (\<lambda>(gone, now, q, told). index_entries (qi_deadlines q))")
    (auto simp: remove_deadline_index_def remove_tier_index_def entries_remove_head)

declare expire_and_earliest_deadline.simps [simp del]

section \<open>The indexes agree with the jobs\<close>

definition index_neat :: "('k :: linorder \<times> nat list) list \<Rightarrow> bool" where
  "index_neat ix \<longleftrightarrow> btree_wf ix \<and> (\<forall>k ids. map_of ix k = Some ids \<longrightarrow> ids \<noteq> [] \<and> sorted_wrt (<) ids)"

definition index_members :: "('k \<times> nat list) list \<Rightarrow> 'k \<Rightarrow> nat set" where
  "index_members ix k = (case map_of ix k of Some ids \<Rightarrow> set ids | None \<Rightarrow> {})"

definition index_ok :: "('p gateway_job \<Rightarrow> 'k :: linorder) \<Rightarrow> (nat, 'p gateway_job) hash_map \<Rightarrow> ('k \<times> nat list) list \<Rightarrow> bool" where
  "index_ok key jobs ix \<longleftrightarrow> index_neat ix \<and> (\<forall>k. index_members ix k = {i. \<exists>j. map_of jobs i = Some j \<and> key j = k})"

definition queue_wf :: "'p queue_inner \<Rightarrow> bool" where
  "queue_wf q \<longleftrightarrow>
     hm_wf (qi_jobs q) \<and> (\<forall>i j. map_of (qi_jobs q) i = Some j \<longrightarrow> gj_seqno j = i) \<and>
     index_ok gj_tier (qi_jobs q) (qi_tiers q) \<and> index_ok gj_deadline (qi_jobs q) (qi_deadlines q)"

lemma insort_strict: "sorted_wrt (<) (ids :: nat list) \<Longrightarrow> sorted_wrt (<) (insort_insert i ids)"
  by (simp add: strict_sorted_iff sorted_insort_insert distinct_insort_insert)

lemma btree_wf_delete: "btree_wf m \<Longrightarrow> btree_wf (AList.delete k m)"
  by (induction m) (auto dest: subsetD [OF set_delete_subset])

lemma index_members_insert: "index_members (index_insert k i ix) = (index_members ix)(k := insert i (index_members ix k))"
  by (auto simp: index_members_def index_insert_def set_insort_insert fun_eq_iff split: option.split)

lemma neat_insert: "index_neat ix \<Longrightarrow> index_neat (index_insert k i ix)"
proof -
  have "insort_insert i ids \<noteq> []" for ids :: "nat list" using set_insort_insert [of i ids] by (metis empty_set insert_not_empty)
  then show "index_neat ix \<Longrightarrow> ?thesis"
    by (auto simp: index_neat_def index_insert_def btree_wf_insert insort_strict split: option.split if_splits)
qed

lemma members_remove: "index_members (index_remove k i ix) = (index_members ix)(k := index_members ix k - {i})"
proof -
  have "removeAll i ids = [] \<Longrightarrow> set ids - {i} = {}" for ids :: "nat list" by (metis empty_set set_removeAll)
  then show ?thesis by (auto simp: index_members_def index_remove_def Let_def map_of_delete fun_eq_iff split: option.split)
qed

lemma neat_remove: "index_neat ix \<Longrightarrow> index_neat (index_remove k i ix)"
  by (auto simp: index_neat_def index_remove_def Let_def btree_wf_insert btree_wf_delete map_of_delete removeAll_filter_not_eq sorted_wrt_filter
    split: option.split if_splits)

lemma index_ok_insert:
  "index_ok key jobs ix \<Longrightarrow> map_of jobs i = None \<Longrightarrow> index_ok key (AList.update i j jobs) (index_insert (key j) i ix)"
  by (auto simp: index_ok_def neat_insert index_members_insert map_of_update)

lemma index_ok_remove:
  "index_ok key jobs ix \<Longrightarrow> map_of jobs i = Some j \<Longrightarrow> index_ok key (AList.delete i jobs) (index_remove (key j) i ix)"
  by (auto simp: index_ok_def neat_remove members_remove map_of_delete)

lemma wfD:
  assumes "queue_wf q"
  shows "hm_wf (qi_jobs q)" "\<And>i j. map_of (qi_jobs q) i = Some j \<Longrightarrow> gj_seqno j = i"
    "index_ok gj_tier (qi_jobs q) (qi_tiers q)" "index_ok gj_deadline (qi_jobs q) (qi_deadlines q)"
  using assms unfolding queue_wf_def by blast+

lemma wfI:
  "hm_wf (qi_jobs q) \<Longrightarrow> (\<And>i j. map_of (qi_jobs q) i = Some j \<Longrightarrow> gj_seqno j = i) \<Longrightarrow>
    index_ok gj_tier (qi_jobs q) (qi_tiers q) \<Longrightarrow> index_ok gj_deadline (qi_jobs q) (qi_deadlines q) \<Longrightarrow> queue_wf q"
  unfolding queue_wf_def by blast

lemma insert_job_fields [simp]:
  "qi_jobs (insert_job j q) = AList.update (gj_seqno j) j (qi_jobs q)"
  "qi_tiers (insert_job j q) = index_insert (gj_tier j) (gj_seqno j) (qi_tiers q)"
  "qi_deadlines (insert_job j q) = index_insert (gj_deadline j) (gj_seqno j) (qi_deadlines q)"
  by (simp_all add: insert_job_def Let_def insert_deadline_index_def)

lemma wf_insert:
  assumes "queue_wf q" and "map_of (qi_jobs q) (gj_seqno j) = None"
  shows "queue_wf (insert_job j q)"
proof (rule wfI)
  show "gj_seqno k = i" if "map_of (qi_jobs (insert_job j q)) i = Some k" for i k
    using that wfD(2) [OF assms(1), of i k] by (auto simp: map_of_update split: if_splits)
qed (use wfD(1,3,4) [OF assms(1)] assms(2) in \<open>simp_all add: hm_wf_update index_ok_insert\<close>)

definition take_out :: "'p gateway_job \<Rightarrow> 'p queue_inner \<Rightarrow> 'p queue_inner" where
  "take_out j q = remove_deadline_index (gj_deadline j) (gj_seqno j)
     ((remove_tier_index (gj_tier j) (gj_seqno j) q)\<lparr>qi_jobs := AList.delete (gj_seqno j) (qi_jobs q)\<rparr>)"

lemma take_out_fields [simp]:
  "qi_jobs (take_out j q) = AList.delete (gj_seqno j) (qi_jobs q)"
  "qi_tiers (take_out j q) = index_remove (gj_tier j) (gj_seqno j) (qi_tiers q)"
  "qi_deadlines (take_out j q) = index_remove (gj_deadline j) (gj_seqno j) (qi_deadlines q)"
  by (simp_all add: take_out_def remove_deadline_index_def remove_tier_index_def)

lemma wf_take_out:
  assumes "queue_wf q" and "map_of (qi_jobs q) (gj_seqno j) = Some j"
  shows "queue_wf (take_out j q)"
proof (rule wfI)
  show "gj_seqno k = i" if "map_of (qi_jobs (take_out j q)) i = Some k" for i k
    using that wfD(2) [OF assms(1), of i k] by (auto simp: map_of_delete split: if_splits)
qed (use wfD(1,3,4) [OF assms(1)] assms(2) in \<open>simp_all add: hm_wf_delete index_ok_remove\<close>)

lemma wf_empty: "queue_wf empty_queue"
  by (auto simp: queue_wf_def empty_queue_def index_ok_def index_neat_def index_members_def)

section \<open>The best job is taken\<close>

definition priority :: "queue_settings \<Rightarrow> instant \<Rightarrow> 'p gateway_job \<Rightarrow> int" where
  "priority qs now j = effective_priority qs (gj_tier j) (gj_enqueued_at j) now"

text \<open>The order of the loop: higher priority first, then the lower sequence number.\<close>

definition ahead :: "int \<times> nat \<Rightarrow> int \<times> nat \<Rightarrow> bool" where
  "ahead a b \<longleftrightarrow> fst b < fst a \<or> fst a = fst b \<and> snd a \<le> snd b"

lemma ahead_trans: "ahead a b \<Longrightarrow> ahead b c \<Longrightarrow> ahead a c"
  by (auto simp: ahead_def)

lemma ahead_total: "ahead a b \<or> ahead b a"
  by (auto simp: ahead_def)

definition rank_of :: "queue_settings \<Rightarrow> instant \<Rightarrow> 'p gateway_job \<Rightarrow> int \<times> nat" where
  "rank_of qs now j = (priority qs now j, gj_seqno j)"

text \<open>The loop over the tiers finds the best front.\<close>

lemma best_front_step:
  "map_of jobs i = Some j \<Longrightarrow> gj_tier j = t \<Longrightarrow>
    best_front qs now jobs ((t, i # ids) # rest) best =
      best_front qs now jobs rest
        (case best of None \<Rightarrow> Some (priority qs now j, gj_seqno j, t)
         | Some (be, bs, bt) \<Rightarrow> if ahead (be, bs) (rank_of qs now j) then best else Some (priority qs now j, gj_seqno j, t))"
  by (auto simp: priority_def rank_of_def ahead_def Let_def split: option.split)

lemma best_front_found:
  assumes "\<And>t ids. (t, ids) \<in> set tiers \<Longrightarrow> \<exists>j. ids \<noteq> [] \<and> map_of jobs (hd ids) = Some j \<and> gj_tier j = t \<and> gj_seqno j = hd ids"
    and "\<And>be bs bt. best = Some (be, bs, bt) \<Longrightarrow> \<exists>j. map_of jobs bs = Some j \<and> rank_of qs now j = (be, bs) \<and> gj_tier j = bt \<and> Q bt bs"
    and "\<And>t ids. (t, ids) \<in> set tiers \<Longrightarrow> Q t (hd ids)"
  obtains best' where "best_front qs now jobs tiers best = Some best'" and "best' = None \<longleftrightarrow> best = None \<and> tiers = []"
    and "\<And>be bs bt. best' = Some (be, bs, bt) \<Longrightarrow> \<exists>j. map_of jobs bs = Some j \<and> rank_of qs now j = (be, bs) \<and> gj_tier j = bt \<and> Q bt bs"
    and "\<And>be bs bt ce cs ct. best = Some (ce, cs, ct) \<Longrightarrow> best' = Some (be, bs, bt) \<Longrightarrow> ahead (be, bs) (ce, cs)"
    and "\<And>be bs bt t ids j. best' = Some (be, bs, bt) \<Longrightarrow> (t, ids) \<in> set tiers \<Longrightarrow> map_of jobs (hd ids) = Some j \<Longrightarrow> ahead (be, bs) (rank_of qs now j)"
  using assms
proof (induction tiers arbitrary: best thesis)
  case Nil
  show ?case
  proof (rule Nil.prems(1))
    show "best_front qs now jobs [] best = Some best" by simp
  qed (use Nil.prems(3) in \<open>auto simp: ahead_def\<close>)
next
  case (Cons entry tiers)
  obtain t ids where e: "entry = (t, ids)" by (cases entry) auto
  obtain j i ids' where j: "ids = i # ids'" "map_of jobs i = Some j" "gj_tier j = t" "gj_seqno j = i"
    using Cons.prems(2) [of t ids] e by (cases ids) auto
  let ?best = "case best of None \<Rightarrow> Some (priority qs now j, gj_seqno j, t)
     | Some (be, bs, bt) \<Rightarrow> if ahead (be, bs) (rank_of qs now j) then best else Some (priority qs now j, gj_seqno j, t)"
  have r: "rank_of qs now j = (priority qs now j, i)" by (simp add: rank_of_def j)
  have b: "\<exists>j. map_of jobs bs = Some j \<and> rank_of qs now j = (be, bs) \<and> gj_tier j = bt \<and> Q bt bs" if "?best = Some (be, bs, bt)" for be bs bt
    using that Cons.prems(3) [of be bs bt] Cons.prems(4) [of t ids] e j r by (auto split: option.splits if_splits)
  have up: "\<exists>ce cs ct. ?best = Some (ce, cs, ct) \<and> ahead (ce, cs) (rank_of qs now j) \<and>
      (\<forall>de ds dt. best = Some (de, ds, dt) \<longrightarrow> ahead (ce, cs) (de, ds))"
    using ahead_total [of "rank_of qs now j"] r j(4) by (cases best) (auto simp: ahead_def)
  show ?case
  proof (rule Cons.IH [of ?best])
    fix best'
    assume 1: "best_front qs now jobs tiers ?best = Some best'" and 2: "(best' = None) = (?best = None \<and> tiers = [])"
      and 3: "\<And>be bs bt. best' = Some (be, bs, bt) \<Longrightarrow> \<exists>j. map_of jobs bs = Some j \<and> rank_of qs now j = (be, bs) \<and> gj_tier j = bt \<and> Q bt bs"
      and 4: "\<And>be bs bt ce cs ct. ?best = Some (ce, cs, ct) \<Longrightarrow> best' = Some (be, bs, bt) \<Longrightarrow> ahead (be, bs) (ce, cs)"
      and 5: "\<And>be bs bt t ids j. best' = Some (be, bs, bt) \<Longrightarrow> (t, ids) \<in> set tiers \<Longrightarrow> map_of jobs (hd ids) = Some j \<Longrightarrow> ahead (be, bs) (rank_of qs now j)"
    from up obtain ce cs ct where c: "?best = Some (ce, cs, ct)" "ahead (ce, cs) (rank_of qs now j)"
      "\<And>de ds dt. best = Some (de, ds, dt) \<Longrightarrow> ahead (ce, cs) (de, ds)" by blast
    show ?case
    proof (rule Cons.prems(1))
      show "best_front qs now jobs (entry # tiers) best = Some best'" using 1 unfolding e j(1) best_front_step [OF j(2,3)] .
      show "(best' = None) = (best = None \<and> entry # tiers = [])" using 2 c(1) by simp
      show "\<exists>j. map_of jobs bs = Some j \<and> rank_of qs now j = (be, bs) \<and> gj_tier j = bt \<and> Q bt bs" if "best' = Some (be, bs, bt)" for be bs bt
        using 3 that by blast
      show "ahead (be, bs) (de, ds)" if "best = Some (de, ds, dt)" "best' = Some (be, bs, bt)" for be bs bt de ds dt
        using ahead_trans 4 [OF c(1) that(2)] c(3) [OF that(1)] by blast
      show "ahead (be, bs) (rank_of qs now k)"
        if "best' = Some (be, bs, bt)" "(t', l) \<in> set (entry # tiers)" "map_of jobs (hd l) = Some k" for be bs bt t' l k
        using that 5 [OF that(1)] ahead_trans [OF 4 [OF c(1) that(1)] c(2)] e j by auto
    qed
  qed (use Cons.prems(2,4) b in auto)
qed

text \<open>The front of a tier has its lowest sequence number, so with enqueue times in submission order no other job of the tier is
  ahead of it.\<close>

lemma neat_entry: "index_neat ix \<Longrightarrow> (k, ids) \<in> set ix \<Longrightarrow> map_of ix k = Some ids \<and> ids \<noteq> [] \<and> sorted_wrt (<) ids"
  unfolding index_neat_def by (metis btree_wf_distinct map_of_is_SomeI)

lemma tier_fronts:
  assumes "queue_wf q" and "(t, ids) \<in> set (qi_tiers q)"
  shows "\<exists>j. ids \<noteq> [] \<and> map_of (qi_jobs q) (hd ids) = Some j \<and> gj_tier j = t \<and> gj_seqno j = hd ids"
proof -
  from wfD(3) [OF assms(1)] have ix: "index_neat (qi_tiers q)" "index_members (qi_tiers q) t = {i. \<exists>j. map_of (qi_jobs q) i = Some j \<and> gj_tier j = t}"
    by (simp_all add: index_ok_def)
  with neat_entry [OF ix(1) assms(2)] have "ids \<noteq> []" "hd ids \<in> {i. \<exists>j. map_of (qi_jobs q) i = Some j \<and> gj_tier j = t}"
    by (auto simp: index_members_def)
  with wfD(2) [OF assms(1)] show ?thesis by auto
qed

lemma tier_front_of:
  assumes "queue_wf q" and "map_of (qi_jobs q) i = Some j"
  obtains ids where "(gj_tier j, ids) \<in> set (qi_tiers q)" "i \<in> set ids" "hd ids \<le> i"
proof -
  from wfD(3) [OF assms(1)] assms(2) have ix: "index_neat (qi_tiers q)" "i \<in> index_members (qi_tiers q) (gj_tier j)" by (auto simp: index_ok_def)
  then obtain ids where ids: "map_of (qi_tiers q) (gj_tier j) = Some ids" "i \<in> set ids" by (auto simp: index_members_def split: option.splits)
  with ix(1) have "sorted_wrt (<) ids" by (simp add: index_neat_def)
  with ids(2) have "hd ids \<le> i" by (cases ids) auto
  with ids that [of ids] show ?thesis by (simp add: map_of_SomeD)
qed

lemma pop_shape:
  assumes "queue_wf q"
  shows "(qi_jobs q = [] \<longrightarrow> pop_best qs now q = Some (None, q)) \<and>
    (qi_jobs q \<noteq> [] \<longrightarrow> (\<exists>j ids. pop_best qs now q = Some (Some j, take_out j q) \<and> map_of (qi_jobs q) (gj_seqno j) = Some j \<and>
       (gj_tier j, ids) \<in> set (qi_tiers q) \<and> hd ids = gj_seqno j \<and>
       (\<forall>t l k. (t, l) \<in> set (qi_tiers q) \<longrightarrow> map_of (qi_jobs q) (hd l) = Some k \<longrightarrow> ahead (rank_of qs now j) (rank_of qs now k))))"
proof -
  note fronts = tier_fronts [OF assms]
  have neat: "index_neat (qi_tiers q)" using wfD(3) [OF assms] by (simp add: index_ok_def)
  have same: "filter (\<lambda>(_, ids). ids \<noteq> []) (qi_tiers q) = qi_tiers q" using fronts by (auto simp: filter_id_conv)
  let ?Q = "\<lambda>t i. \<exists>ids. (t, ids) \<in> set (qi_tiers q) \<and> hd ids = i"
  obtain best where b: "best_front qs now (qi_jobs q) (qi_tiers q) None = Some best" "best = None \<longleftrightarrow> qi_tiers q = []"
    "\<And>be bs bt. best = Some (be, bs, bt) \<Longrightarrow> \<exists>j. map_of (qi_jobs q) bs = Some j \<and> rank_of qs now j = (be, bs) \<and> gj_tier j = bt \<and> ?Q bt bs"
    "\<And>be bs bt t ids j. best = Some (be, bs, bt) \<Longrightarrow> (t, ids) \<in> set (qi_tiers q) \<Longrightarrow> map_of (qi_jobs q) (hd ids) = Some j \<Longrightarrow> ahead (be, bs) (rank_of qs now j)"
    by (rule best_front_found [of "qi_tiers q" "qi_jobs q" None qs now ?Q]) (use fronts in auto)
  have empty: "qi_jobs q = [] \<longleftrightarrow> qi_tiers q = []"
  proof
    assume "qi_tiers q = []"
    then have "map_of (qi_jobs q) i = None" for i using tier_front_of [OF assms, of i] by (cases "map_of (qi_jobs q) i") auto
    then have "map_of (qi_jobs q) = Map.empty" by (simp add: fun_eq_iff)
    then show "qi_jobs q = []" by simp
  qed (use fronts in \<open>cases "qi_tiers q"; auto\<close>)
  show ?thesis
  proof (cases best)
    case None
    with b(1,2) empty same show ?thesis by (simp add: pop_best_def)
  next
    case (Some r)
    obtain be bs bt where r: "r = (be, bs, bt)" by (cases r) auto
    with b(3) Some obtain j ids where j: "map_of (qi_jobs q) bs = Some j" "rank_of qs now j = (be, bs)" "gj_tier j = bt"
      "(bt, ids) \<in> set (qi_tiers q)" "hd ids = bs" by blast
    from neat_entry [OF neat j(4)] j(5) obtain l where l: "map_of (qi_tiers q) bt = Some (bs # l)" by (cases ids) auto
    have i: "gj_seqno j = bs" by (rule wfD(2) [OF assms j(1)])
    have "pop_best qs now q = Some (Some j, take_out j q)"
      using b(1) Some r same l j(1,3) i by (simp add: pop_best_def take_out_def remove_tier_index_def)
    with b(2,4) Some r j i empty show ?thesis by (intro conjI impI exI [of _ j] exI [of _ ids]) auto
  qed
qed

section \<open>Aging\<close>

lemma as_secs_mono:
  assumes "d \<le> d'" and "d' \<le> 2 ^ 53 * nanos_per_sec"
  shows "f64_le (as_secs_f64 d) (as_secs_f64 d')"
proof -
  let ?s = "d div nanos_per_sec" and ?s' = "d' div nanos_per_sec"
  have n: "f64_of_nat nanos_per_sec = Fin (of_nat nanos_per_sec)" by (rule f64_of_nat_exact) (simp add: nanos_per_sec_def)
  have frac: "f64_div (f64_of_nat (d mod nanos_per_sec)) (f64_of_nat nanos_per_sec) = round_f64 (of_nat (d mod nanos_per_sec) / of_nat nanos_per_sec)" for d
  proof -
    have "d mod nanos_per_sec < nanos_per_sec" by (simp add: nanos_per_sec_def)
    then have "d mod nanos_per_sec \<le> 2 ^ 53" by (simp add: nanos_per_sec_def)
    then show ?thesis by (simp add: n f64_of_nat_exact) (simp add: nanos_per_sec_def)
  qed
  have nonneg: "f64_le (Fin 0) (f64_div (f64_of_nat (d mod nanos_per_sec)) (f64_of_nat nanos_per_sec))" for d
    unfolding frac by (rule round_f64_nonneg) simp
  show ?thesis
  proof (cases "?s = ?s'")
    case True
    have "d mod nanos_per_sec \<le> d' mod nanos_per_sec" using assms(1) True by (metis add_le_cancel_left div_mult_mod_eq)
    then have "f64_le (f64_div (f64_of_nat (d mod nanos_per_sec)) (f64_of_nat nanos_per_sec)) (f64_div (f64_of_nat (d' mod nanos_per_sec)) (f64_of_nat nanos_per_sec))"
      unfolding frac by (intro round_f64_mono divide_right_mono) simp_all
    then show ?thesis unfolding as_secs_f64_def True by (intro f64_add_mono nonneg) (simp_all add: f64_of_nat_def round_f64_nonneg)
  next
    case False
    with div_le_mono [OF assms(1)] have "Suc ?s \<le> ?s'" by (metis Suc_leI le_neq_implies_less)
    have "?s' \<le> 2 ^ 53" using div_le_mono [OF assms(2), of nanos_per_sec] by (simp add: nanos_per_sec_def)
    with \<open>Suc ?s \<le> ?s'\<close> have ex: "f64_of_nat ?s = Fin (of_nat ?s)" "f64_of_nat ?s' = Fin (of_nat ?s')" by (simp_all add: f64_of_nat_exact)
    have "of_nat (d mod nanos_per_sec) / of_nat nanos_per_sec \<le> (1 :: rat)"
      using mod_less_divisor [of nanos_per_sec d] by (simp add: nanos_per_sec_def)
    then have "f64_le (round_f64 (of_nat (d mod nanos_per_sec) / of_nat nanos_per_sec)) (Fin 1)"
      using round_f64_mono [of "of_nat (d mod nanos_per_sec) / of_nat nanos_per_sec" 1] f64_of_nat_exact [of 1] by (simp add: f64_of_nat_def)
    then have one: "f64_le (f64_div (f64_of_nat (d mod nanos_per_sec)) (f64_of_nat nanos_per_sec)) (Fin 1)" unfolding frac .
    have "f64_le (as_secs_f64 d) (f64_add (Fin (of_nat ?s)) (Fin 1))"
      unfolding as_secs_f64_def ex by (intro f64_add_mono nonneg one) simp_all
    also have "f64_le \<dots> (f64_add (Fin (of_nat ?s')) (Fin 0))"
      using \<open>Suc ?s \<le> ?s'\<close> by (simp, intro round_f64_mono) (metis of_nat_Suc of_nat_le_iff add.commute)
    also have "f64_le \<dots> (as_secs_f64 d')"
      unfolding as_secs_f64_def ex by (intro f64_add_mono nonneg) simp_all
    finally show ?thesis .
  qed
qed

lemma as_i64_mono: "f64_le x y \<Longrightarrow> f64_le (Fin 0) x \<Longrightarrow> f64_as_i64 (f64_floor x) \<le> f64_as_i64 (f64_floor y)"
  by (cases x; cases y) (auto simp: max_def min_def not_le le_floor_iff intro: order_trans [OF of_int_floor_le])

lemma boost_mono:
  assumes "e \<le> e'" and "now \<le> 2 ^ 53 * nanos_per_sec" and "as_secs_f64 (qs_aging_step qs) = Fin r" and "0 < r"
  shows "aging_boost qs e' now \<le> aging_boost qs e now"
proof -
  let ?w = "as_secs_f64 (saturating_duration_since now e)" and ?w' = "as_secs_f64 (saturating_duration_since now e')"
  have "f64_le ?w' ?w" using assms(1,2) by (intro as_secs_mono) (simp_all add: saturating_duration_since_def)
  then have le: "f64_le (f64_div ?w' (Fin r)) (f64_div ?w (Fin r))" using assms(4) by (rule f64_div_mono)
  have "f64_le (f64_div (Fin 0) (Fin r)) (f64_div ?w' (Fin r))"
    using as_secs_f64_nonneg assms(4) by (rule f64_div_mono)
  with assms(4) have "f64_le (Fin 0) (f64_div ?w' (Fin r))" by simp
  from as_i64_mono [OF le this] show ?thesis unfolding aging_boost_def Let_def assms(3) by (intro max.mono min.mono order_refl)
qed

text \<open>A step the constructor makes is positive.\<close>

lemma step_positive:
  assumes "aging_step \<le> 2 ^ 53 * nanos_per_sec"
  obtains r where "as_secs_f64 (qs_aging_step (with_aging depth aging_step boost)) = Fin r" and "0 < r"
proof -
  let ?d = "max aging_step (from_millis 1)"
  have d: "?d \<le> 2 ^ 53 * nanos_per_sec" using assms by (simp add: from_millis_def nanos_per_sec_def)
  have hi: "f64_le (as_secs_f64 ?d) (as_secs_f64 (2 ^ 53 * nanos_per_sec))" by (rule as_secs_mono) (use d in simp_all)
  have g: "f64_of_nat nanos_per_sec = Fin 1000000000" using f64_of_nat_exact [of nanos_per_sec] by (simp add: nanos_per_sec_def)
  have m: "f64_of_nat 1000000 = Fin 1000000" using f64_of_nat_exact [of 1000000] by simp
  have "round_f64 (2 ^ 53) = Fin (2 ^ 53)" using round_f64_exact [of "2 ^ 53"] round_rat_nat [of "2 ^ 53"] pow_53_less by simp
  then have upper: "as_secs_f64 (2 ^ 53 * nanos_per_sec) = Fin (2 ^ 53)"
    using f64_of_nat_exact [of "2 ^ 53"] g by (simp add: as_secs_f64_def) (simp add: nanos_per_sec_def)
  have lo: "f64_le (as_secs_f64 (from_millis 1)) (as_secs_f64 ?d)" by (rule as_secs_mono) (use d in simp_all)
  have k: "round_f64 (1 / 1024) = Fin (1 / 1024)"
    using round_rat_dyadic [of 1 "- 10"] round_f64_exact [of "1 / 1024"] by (simp add: power_int_minus_divide)
  have "f64_le (Fin (1 / 1024)) (round_f64 (1 / 1000))" using round_f64_mono [of "1 / 1024" "1 / 1000"] k by simp
  then have "f64_le (f64_add (Fin 0) (Fin (1 / 1024))) (f64_add (Fin 0) (round_f64 (1 / 1000)))" by (intro f64_add_mono) simp_all
  then have "f64_le (Fin (1 / 1024)) (as_secs_f64 (from_millis 1))" using g m k by (simp add: as_secs_f64_def from_millis_def nanos_per_sec_def)
  with lo have "f64_le (Fin (1 / 1024)) (as_secs_f64 ?d)" by (rule f64_le_trans [rotated])
  with hi show ?thesis unfolding upper using that by (cases "as_secs_f64 ?d") (auto simp: with_aging_def)
qed

section \<open>Expiry\<close>

text \<open>The first entry of the deadline index holds the earliest deadline.\<close>

lemma earliest_entry:
  assumes "queue_wf q" and "qi_deadlines q = (d, ids) # rest"
  obtains i l j where "ids = i # l" "map_of (qi_jobs q) i = Some j" "gj_deadline j = d" "gj_seqno j = i"
    and "\<forall>k m. map_of (qi_jobs q) k = Some m \<longrightarrow> d \<le> gj_deadline m"
proof -
  from wfD(4) [OF assms(1)] have ix: "index_neat (qi_deadlines q)"
    "\<And>k. index_members (qi_deadlines q) k = {i. \<exists>j. map_of (qi_jobs q) i = Some j \<and> gj_deadline j = k}"
    by (simp_all add: index_ok_def)
  from neat_entry [OF ix(1), of d ids] assms(2) obtain i l where l: "ids = i # l" by (cases ids) auto
  with assms(2) have "i \<in> index_members (qi_deadlines q) d" by (simp add: index_members_def)
  then obtain j where j: "map_of (qi_jobs q) i = Some j" "gj_deadline j = d" unfolding ix(2) by blast
  have "d \<le> gj_deadline m" if "map_of (qi_jobs q) k = Some m" for k m
  proof -
    from that have "k \<in> index_members (qi_deadlines q) (gj_deadline m)" unfolding ix(2) by blast
    then have "gj_deadline m \<in> fst ` set (qi_deadlines q)" by (auto simp: index_members_def image_iff split: option.splits dest!: map_of_SomeD) (metis fst_conv)
    with ix(1) assms(2) show ?thesis by (auto simp: index_neat_def less_imp_le)
  qed
  then have "\<forall>k m. map_of (qi_jobs q) k = Some m \<longrightarrow> d \<le> gj_deadline m" by blast
  with that [OF l j wfD(2) [OF assms(1) j(1)]] show ?thesis .
qed

definition expired_ok :: "(nat \<Rightarrow> bool) \<Rightarrow> instant \<Rightarrow> 'p queue_inner \<Rightarrow> instant option \<Rightarrow> 'p gateway_job list \<Rightarrow> 'p queue_inner \<Rightarrow> bool" where
  "expired_ok gone now q earliest told q' \<longleftrightarrow>
     queue_wf q' \<and> (\<forall>i j. map_of (qi_jobs q') i = Some j \<longrightarrow> map_of (qi_jobs q) i = Some j \<and> now < gj_deadline j) \<and>
     (\<forall>j \<in> set told. map_of (qi_jobs q) (gj_seqno j) = Some j \<and> map_of (qi_jobs q') (gj_seqno j) = None \<and> gj_deadline j \<le> now \<and> \<not> gone (gj_seqno j)) \<and>
     distinct (map gj_seqno told) \<and>
     (\<forall>i j. map_of (qi_jobs q) i = Some j \<longrightarrow> map_of (qi_jobs q') i = None \<longrightarrow> j \<in> set told \<or> gone i) \<and>
     (earliest = None \<longleftrightarrow> qi_jobs q' = []) \<and> (\<forall>d i j. earliest = Some d \<longrightarrow> map_of (qi_jobs q') i = Some j \<longrightarrow> d \<le> gj_deadline j)"

lemma expired_okI:
  assumes "queue_wf q'" and "\<And>i j. map_of (qi_jobs q') i = Some j \<Longrightarrow> map_of (qi_jobs q) i = Some j \<and> now < gj_deadline j"
    and "\<And>j. j \<in> set told \<Longrightarrow> map_of (qi_jobs q) (gj_seqno j) = Some j \<and> map_of (qi_jobs q') (gj_seqno j) = None \<and> gj_deadline j \<le> now \<and> \<not> gone (gj_seqno j)"
    and "distinct (map gj_seqno told)" and "\<And>i j. map_of (qi_jobs q) i = Some j \<Longrightarrow> map_of (qi_jobs q') i = None \<Longrightarrow> j \<in> set told \<or> gone i"
    and "earliest = None \<longleftrightarrow> qi_jobs q' = []" and "\<And>d i j. earliest = Some d \<Longrightarrow> map_of (qi_jobs q') i = Some j \<Longrightarrow> d \<le> gj_deadline j"
  shows "expired_ok gone now q earliest told q'"
  using assms unfolding expired_ok_def by blast

lemma expired_okD:
  assumes "expired_ok gone now q earliest told q'"
  shows "queue_wf q'" and "\<And>i j. map_of (qi_jobs q') i = Some j \<Longrightarrow> map_of (qi_jobs q) i = Some j \<and> now < gj_deadline j"
    and "\<And>j. j \<in> set told \<Longrightarrow> map_of (qi_jobs q) (gj_seqno j) = Some j \<and> map_of (qi_jobs q') (gj_seqno j) = None \<and> gj_deadline j \<le> now \<and> \<not> gone (gj_seqno j)"
    and "distinct (map gj_seqno told)" and "\<And>i j. map_of (qi_jobs q) i = Some j \<Longrightarrow> map_of (qi_jobs q') i = None \<Longrightarrow> j \<in> set told \<or> gone i"
    and "earliest = None \<longleftrightarrow> qi_jobs q' = []" and "\<And>d i j. earliest = Some d \<Longrightarrow> map_of (qi_jobs q') i = Some j \<Longrightarrow> d \<le> gj_deadline j"
  using assms unfolding expired_ok_def by blast+

lemma expired_step:
  assumes "expired_ok gone now (take_out j q) earliest told q'" and "map_of (qi_jobs q) (gj_seqno j) = Some j" and "gone (gj_seqno j) \<or> gj_deadline j \<le> now"
  shows "expired_ok gone now q earliest (if gone (gj_seqno j) then told else j # told) q'"
proof -
  have m: "map_of (qi_jobs (take_out j q)) = (map_of (qi_jobs q))(gj_seqno j := None)" by (simp add: map_of_delete)
  note d = expired_okD [OF assms(1), unfolded m]
  have out: "map_of (qi_jobs q') (gj_seqno j) = None"
    using d(2) [of "gj_seqno j"] by (cases "map_of (qi_jobs q') (gj_seqno j)") auto
  have apart: "gj_seqno k \<noteq> gj_seqno j" if "k \<in> set told" for k using d(3) [OF that] by auto
  show ?thesis
  proof (rule expired_okI [OF d(1)], goal_cases)
    case (1 i k)
    with d(2) [of i k] show ?case by (auto split: if_splits)
  next
    case (2 k)
    with d(3) [of k] assms(2,3) out show ?case by (auto split: if_splits)
  next
    case 3
    have "gj_seqno j \<notin> gj_seqno ` set told" using apart by (metis image_iff)
    with d(4) show ?case by simp
  next
    case (4 i k)
    with d(5) [of i k] assms(2) show ?case by (cases "i = gj_seqno j") auto
  qed (use d(6,7) in blast)+
qed

lemma expire_spec:
  assumes "queue_wf q"
  shows "\<exists>earliest told' q'. expire_and_earliest_deadline gone now q told = Some (earliest, told @ told', q') \<and> expired_ok gone now q earliest told' q'"
  using assms
proof (induction "index_entries (qi_deadlines q)" arbitrary: q told rule: less_induct)
  case less
  note wf = \<open>queue_wf q\<close>
  show ?case
  proof (cases "qi_deadlines q")
    case Nil
    have "map_of (qi_jobs q) i = None" for i
    proof (cases "map_of (qi_jobs q) i")
      case (Some j)
      with wfD(4) [OF wf] have "i \<in> index_members (qi_deadlines q) (gj_deadline j)" by (auto simp: index_ok_def)
      with Nil show ?thesis by (simp add: index_members_def)
    qed
    then have "map_of (qi_jobs q) = Map.empty" by (simp add: fun_eq_iff)
    then have "qi_jobs q = []" by simp
    with Nil wf show ?thesis
      by (intro exI [of _ None] exI [of _ "[]"] exI [of _ q]) (simp add: expire_and_earliest_deadline.simps expired_ok_def)
  next
    case (Cons entry rest)
    then obtain d ids where e: "qi_deadlines q = (d, ids) # rest" by (cases entry) auto
    obtain i l j where h: "ids = i # l" "map_of (qi_jobs q) i = Some j" "gj_deadline j = d" "gj_seqno j = i"
      and least: "\<forall>k m. map_of (qi_jobs q) k = Some m \<longrightarrow> d \<le> gj_deadline m"
      by (rule earliest_entry [OF wf e])
    show ?thesis
    proof (cases "now < d \<and> \<not> gone i")
      case True
      with e h have "expire_and_earliest_deadline gone now q told = Some (Some d, told, q)"
        by (simp add: expire_and_earliest_deadline.simps)
      moreover have "expired_ok gone now q (Some d) [] q"
        using True wf h(2) least by (auto simp: expired_ok_def intro: less_le_trans)
      ultimately show ?thesis by (intro exI [of _ "Some d"] exI [of _ "[]"] exI [of _ q]) simp
    next
      case False
      let ?told = "if gone i then told else told @ [j]"
      have step: "expire_and_earliest_deadline gone now q told = expire_and_earliest_deadline gone now (take_out j q) ?told"
      proof -
        have "remove_tier_index (gj_tier j) i (remove_deadline_index d i q\<lparr>qi_jobs := AList.delete i (qi_jobs q)\<rparr>) = take_out j q"
          by (rule queue_inner.equality) (use h in \<open>simp_all add: remove_tier_index_def remove_deadline_index_def\<close>)
        moreover have "qi_jobs (remove_deadline_index d i q) = qi_jobs q" by (simp add: remove_deadline_index_def)
        ultimately show ?thesis using e h False by (subst expire_and_earliest_deadline.simps) auto
      qed
      have wf': "queue_wf (take_out j q)" using wf_take_out [OF wf] h by simp
      have "index_entries (qi_deadlines (take_out j q)) < index_entries (qi_deadlines q)" using e h by (simp add: entries_remove_head)
      from less.hyps [OF this wf', of ?told] obtain earliest told' q' where
        ih: "expire_and_earliest_deadline gone now (take_out j q) ?told = Some (earliest, ?told @ told', q')" "expired_ok gone now (take_out j q) earliest told' q'"
        by blast
      from expired_step [OF ih(2)] h False have "expired_ok gone now q earliest (if gone i then told' else j # told') q'" by auto
      with step ih(1) show ?thesis
        by (intro exI [of _ earliest] exI [of _ "if gone i then told' else j # told'"] exI [of _ q']) simp
    qed
  qed
qed

section \<open>The contract of a queue\<close>

text \<open>What the trait \<open>RequestQueue\<close> promises the one dispatcher that drives it, and what follows for any backend: a job that is put
  back after it was taken leaves the queue as it was, and as many takings as there are jobs serve each of them once.\<close>

primrec serve :: "(instant \<Rightarrow> 'q \<Rightarrow> ('j option \<times> 'q) option) \<Rightarrow> instant list \<Rightarrow> 'q \<Rightarrow> ('j list \<times> 'q) option" where
  "serve pop [] q = Some ([], q)"
| "serve pop (t # ts) q =
     (case pop t q of
        Some (Some j, q') \<Rightarrow> (case serve pop ts q' of Some (js, q'') \<Rightarrow> Some (j # js, q'') | None \<Rightarrow> None)
      | Some (None, q') \<Rightarrow> serve pop ts q'
      | None \<Rightarrow> None)"

locale request_queue =
  fixes wf :: "'q \<Rightarrow> bool" and held :: "'q \<Rightarrow> nat \<rightharpoonup> 'j" and key :: "'j \<Rightarrow> nat" and put :: "'j \<Rightarrow> 'q \<Rightarrow> 'q"
    and pop :: "instant \<Rightarrow> 'q \<Rightarrow> ('j option \<times> 'q) option"
  assumes put_wf: "wf q \<Longrightarrow> held q (key j) = None \<Longrightarrow> wf (put j q)"
    and put_held: "wf q \<Longrightarrow> held q (key j) = None \<Longrightarrow> held (put j q) = (held q)(key j \<mapsto> j)"
    and finite_held: "wf q \<Longrightarrow> finite (dom (held q))"
    and pop_empty: "wf q \<Longrightarrow> dom (held q) = {} \<Longrightarrow> pop t q = Some (None, q)"
    and pop_held: "wf q \<Longrightarrow> dom (held q) \<noteq> {} \<Longrightarrow>
      \<exists>j q'. pop t q = Some (Some j, q') \<and> wf q' \<and> held q (key j) = Some j \<and> held q' = (held q)(key j := None)"
begin

lemma popped:
  assumes "wf q" and "pop t q = Some (Some j, q')"
  shows "wf q'" and "held q (key j) = Some j" and "held q' = (held q)(key j := None)"
proof -
  have "dom (held q) \<noteq> {}" using pop_empty [OF assms(1)] assms(2) by fastforce
  with pop_held [OF assms(1), of t] assms(2) show "wf q'" "held q (key j) = Some j" "held q' = (held q)(key j := None)" by auto
qed

lemma put_back:
  assumes "wf q" and "pop t q = Some (Some j, q')"
  shows "wf (put j q') \<and> held (put j q') = held q"
proof -
  note p = popped [OF assms]
  have "held q' (key j) = None" by (simp add: p(3))
  with put_wf [OF p(1)] put_held [OF p(1)] p(2,3) show ?thesis by (auto simp: fun_upd_idem)
qed

lemma serves_all:
  assumes "wf q" and "length ts = card (dom (held q))"
  shows "\<exists>js q'. serve pop ts q = Some (js, q') \<and> wf q' \<and> dom (held q') = {} \<and> distinct (map key js) \<and> set js = ran (held q) \<and>
    key ` set js = dom (held q)"
  using assms
proof (induction ts arbitrary: q)
  case Nil
  then have "dom (held q) = {}" using finite_held by simp
  then show ?case using Nil.prems(1) by (auto simp: ran_def)
next
  case (Cons t ts)
  then have "dom (held q) \<noteq> {}" by auto
  with pop_held [OF Cons.prems(1), of t] obtain j q' where
    j: "pop t q = Some (Some j, q')" "wf q'" "held q (key j) = Some j" "held q' = (held q)(key j := None)" by blast
  have d: "dom (held q) = insert (key j) (dom (held q'))" "key j \<notin> dom (held q')" using j(3,4) by auto
  then have "length ts = card (dom (held q'))" using Cons.prems(2) finite_held [OF j(2)] by simp
  from Cons.IH [OF j(2) this] obtain js q'' where
    i: "serve pop ts q' = Some (js, q'')" "wf q''" "dom (held q'') = {}" "distinct (map key js)" "set js = ran (held q')" "key ` set js = dom (held q')"
    by blast
  have "held q = (held q')(key j \<mapsto> j)" using j(3,4) by (auto simp: fun_upd_idem)
  then have "ran (held q) = insert j (ran (held q'))" using ran_map_upd [of "held q'" "key j" j] j(4) by simp
  with i j(1) d show ?case by (intro exI [of _ "j # js"] exI [of _ q'']) auto
qed

end

interpretation mq: request_queue queue_wf "\<lambda>q. map_of (qi_jobs q)" gj_seqno requeue "pop_best qs"
  for qs
proof
  fix q :: "'b queue_inner" and t
  assume wf: "queue_wf q"
  show "pop_best qs t q = Some (None, q)" if "dom (map_of (qi_jobs q)) = {}"
    using pop_shape [OF wf, of qs t] that by (simp add: dom_map_of_conv_image_fst)
  show "\<exists>j q'. pop_best qs t q = Some (Some j, q') \<and> queue_wf q' \<and> map_of (qi_jobs q) (gj_seqno j) = Some j \<and>
      map_of (qi_jobs q') = (map_of (qi_jobs q))(gj_seqno j := None)" if "dom (map_of (qi_jobs q)) \<noteq> {}"
  proof -
    from pop_shape [OF wf, of qs t] that obtain j where
      "pop_best qs t q = Some (Some j, take_out j q)" "map_of (qi_jobs q) (gj_seqno j) = Some j" by auto
    with wf_take_out [OF wf] show ?thesis by (auto simp: map_of_delete)
  qed
qed (simp_all add: requeue_def wf_insert map_of_update finite_dom_map_of)

text \<open>The consequence for the queue of a lane: with one look at the clock per job, in any order of times, it is drained, every job is
  served once and nothing panics; and a job that the limiter refuses goes back to where it was.\<close>

lemma queue_drains:
  assumes "queue_wf q" and "length ts = queue_depth q"
  shows "\<exists>js q'. serve (pop_best qs) ts q = Some (js, q') \<and> qi_jobs q' = [] \<and> distinct (map gj_seqno js) \<and> set js = snd ` set (qi_jobs q)"
proof -
  have d: "distinct (map fst (qi_jobs q))" using wfD(1) [OF assms(1)] by simp
  have "card (dom (map_of (qi_jobs q))) = length (qi_jobs q)" using distinct_card [OF d] by (simp add: dom_map_of_conv_image_fst)
  with mq.serves_all [OF assms(1), of ts qs] assms(2) show ?thesis by (auto simp: queue_depth_def dom_map_of_conv_image_fst ran_distinct [OF d])
qed

lemma refusal_restores: "queue_wf q \<Longrightarrow> pop_best qs now q = Some (Some j, q') \<Longrightarrow> map_of (qi_jobs (requeue j q')) = map_of (qi_jobs q)"
  using mq.put_back by blast

section \<open>The claims\<close>


definition example_job :: "nat \<Rightarrow> nat \<Rightarrow> nat \<Rightarrow> nat gateway_job" where
  "example_job t i e = \<lparr>gj_tier = t, gj_seqno = i, gj_permits = 1, gj_payload = i, gj_gated = False, gj_stream = False,
     gj_enqueued_at = e, gj_deadline = e + 100\<rparr>"

definition example_queue :: "nat queue_inner" where
  "example_queue = insert_job (example_job 2 1 5) (insert_job (example_job 0 0 3) empty_queue)"


end
