(* ===== verification/GatewayLane.thy ===== *)
theory GatewayLane
  imports GatewayQueue
begin

text \<open>
  One provider lane of the in-process gateway (\<open>src/gateway/mod.rs\<close>): submitters, the dispatcher task and the tasks it spawns, as a
  machine whose events are the points where these wait or take the lock. Events come in any order the code allows; the clock is an
  argument of each. A receiver that its caller has dropped is in \<open>ln_closed\<close>; what is sent to it is lost. The rate limiter and the
  upstream are choices of the events. The sequence counter is the scheduler's, which all lanes share: a number that a submission to
  another lane has drawn stays among the drawn ones here.
\<close>

section \<open>The machine\<close>

datatype gateway_error = Overloaded duration | Timeout | Upstream string | Shutdown

record gateway_request =
  gr_tier :: nat
  gr_permits :: nat
  gr_gated :: bool
  gr_stream :: bool

text \<open>What the dispatcher task is at: between jobs, waiting for a slot, waiting for the limiter with a slot, backing off.\<close>

datatype 'p dispatcher = Idle | Waiting_slot "'p gateway_job" | Admitting "'p gateway_job" | Backing_off instant

text \<open>A spawned task: not polled yet, in its upstream call, forwarding a stream.\<close>

datatype call_phase = Spawned | Calling | Streaming

datatype answer = Failed gateway_error | Delivered

record 'p gateway_lane =
  ln_settings :: queue_settings
  ln_slots :: nat
  ln_seq :: nat
  ln_drawn :: "nat list"
  ln_queue :: "'p queue_inner"
  ln_dispatcher :: "'p dispatcher"
  ln_running :: "('p gateway_job \<times> call_phase) list"
  ln_started :: "nat set"
  ln_closed :: "nat set"
  ln_shed :: "nat set"
  ln_sent :: "(nat \<times> answer) list"
  ln_admissions :: "nat list"
  ln_calls :: "(nat \<times> bool) list"

definition new_lane :: "nat \<Rightarrow> duration \<Rightarrow> nat \<Rightarrow> nat \<Rightarrow> 'p gateway_lane" where
  "new_lane max_depth aging_step max_boost max_concurrency =
     \<lparr>ln_settings = with_aging max_depth aging_step max_boost, ln_slots = max max_concurrency 1, ln_seq = 0, ln_drawn = [],
      ln_queue = empty_queue, ln_dispatcher = Idle, ln_running = [], ln_started = {}, ln_closed = {}, ln_shed = {}, ln_sent = [],
      ln_admissions = [], ln_calls = []\<rparr>"

definition send_answer :: "nat \<Rightarrow> answer \<Rightarrow> 'p gateway_lane \<Rightarrow> 'p gateway_lane" where
  "send_answer i a st = (if i \<in> ln_closed st then st else st\<lparr>ln_sent := ln_sent st @ [(i, a)]\<rparr>)"

definition send_timeout :: "'p gateway_job \<Rightarrow> 'p gateway_lane \<Rightarrow> 'p gateway_lane" where
  "send_timeout j st = send_answer (gj_seqno j) (Failed Timeout) (st\<lparr>ln_started := insert (gj_seqno j) (ln_started st)\<rparr>)"

definition is_cancelled :: "'p gateway_job \<Rightarrow> 'p gateway_lane \<Rightarrow> bool" where
  "is_cancelled j st \<longleftrightarrow> gj_seqno j \<in> ln_closed st"

definition used_slots :: "'p gateway_lane \<Rightarrow> nat" where
  "used_slots st = length (ln_running st) + (case ln_dispatcher st of Admitting _ \<Rightarrow> 1 | _ \<Rightarrow> 0)"

text \<open>A submission draws its sequence number and later enters the queue with the time it reads in between.\<close>

definition draw_seqno :: "'p gateway_lane \<Rightarrow> 'p gateway_lane" where
  "draw_seqno st = st\<lparr>ln_seq := Suc (ln_seq st), ln_drawn := ln_seq st # ln_drawn st\<rparr>"

definition make_job :: "nat \<Rightarrow> gateway_request \<Rightarrow> 'p \<Rightarrow> instant \<Rightarrow> instant \<Rightarrow> 'p gateway_job" where
  "make_job i rq payload enqueued_at deadline =
     \<lparr>gj_tier = gr_tier rq, gj_seqno = i, gj_permits = max (gr_permits rq) 1, gj_payload = payload, gj_gated = gr_gated rq,
      gj_stream = gr_stream rq, gj_enqueued_at = enqueued_at, gj_deadline = deadline\<rparr>"

definition enter_queue :: "'p gateway_job \<Rightarrow> 'p gateway_lane \<Rightarrow> 'p gateway_lane" where
  "enter_queue j st =
     (let st = st\<lparr>ln_drawn := removeAll (gj_seqno j) (ln_drawn st)\<rparr> in
      case enqueue (ln_settings st) j (ln_queue st) of
        None \<Rightarrow> st\<lparr>ln_shed := insert (gj_seqno j) (ln_shed st)\<rparr>
      | Some q \<Rightarrow> st\<lparr>ln_queue := q\<rparr>)"

definition begin_job :: "'p gateway_job \<Rightarrow> 'p gateway_lane \<Rightarrow> 'p gateway_lane" where
  "begin_job j st =
     (if is_cancelled j st then st\<lparr>ln_dispatcher := Idle\<rparr>
      else st\<lparr>ln_dispatcher := Idle, ln_started := insert (gj_seqno j) (ln_started st), ln_running := ln_running st @ [(j, Spawned)]\<rparr>)"

definition dequeue_job :: "instant \<Rightarrow> 'p gateway_lane \<Rightarrow> 'p gateway_lane option" where
  "dequeue_job now st =
     (case pop_best (ln_settings st) now (ln_queue st) of
        Some (Some j, q) \<Rightarrow>
          Some (st\<lparr>ln_queue := q, ln_dispatcher := (if is_cancelled j st then Idle else Waiting_slot j)\<rparr>)
      | Some (None, q) \<Rightarrow> Some (st\<lparr>ln_queue := q\<rparr>)
      | None \<Rightarrow> None)"

definition got_slot :: "'p gateway_job \<Rightarrow> 'p gateway_lane \<Rightarrow> 'p gateway_lane" where
  "got_slot j st =
     (if is_cancelled j st then st\<lparr>ln_dispatcher := Idle\<rparr>
      else if gj_gated j then begin_job j st
      else st\<lparr>ln_dispatcher := Admitting j\<rparr>)"

definition admitted_job :: "'p gateway_job \<Rightarrow> 'p gateway_lane \<Rightarrow> 'p gateway_lane" where
  "admitted_job j st = begin_job j (st\<lparr>ln_admissions := ln_admissions st @ [gj_seqno j]\<rparr>)"

definition refused_job :: "instant \<Rightarrow> duration \<Rightarrow> 'p gateway_job \<Rightarrow> 'p gateway_lane \<Rightarrow> 'p gateway_lane option" where
  "refused_job now wait j st =
     (case expire_and_earliest_deadline (\<lambda>i. i \<in> ln_closed st) now (requeue j (ln_queue st)) [] of
        None \<Rightarrow> None
      | Some (earliest, told, q) \<Rightarrow>
          let retry = now + wait;
              st = fold send_timeout told (st\<lparr>ln_queue := q\<rparr>)
          in Some (st\<lparr>ln_dispatcher := Backing_off (min (case earliest of Some d \<Rightarrow> d | None \<Rightarrow> retry) retry)\<rparr>))"

definition end_task :: "'p gateway_job \<Rightarrow> 'p gateway_lane \<Rightarrow> 'p gateway_lane" where
  "end_task j st = st\<lparr>ln_running := filter (\<lambda>(k, _). gj_seqno k \<noteq> gj_seqno j) (ln_running st)\<rparr>"

definition set_phase :: "'p gateway_job \<Rightarrow> call_phase \<Rightarrow> 'p gateway_lane \<Rightarrow> 'p gateway_lane" where
  "set_phase j ph st = st\<lparr>ln_running := map (\<lambda>(k, old). (k, if gj_seqno k = gj_seqno j then ph else old)) (ln_running st)\<rparr>"

text \<open>One poll of a spawned task: the receiver first, then the deadline, then the upstream. A stream that is forwarded past its
  deadline ends with an error on its own channel.\<close>

definition poll_task :: "instant \<Rightarrow> 'p gateway_job \<Rightarrow> call_phase \<Rightarrow> 'p gateway_lane \<Rightarrow> 'p gateway_lane" where
  "poll_task now j ph st =
     (if is_cancelled j st then end_task j st
      else if gj_deadline j \<le> now then end_task j (if ph = Streaming then st else send_answer (gj_seqno j) (Failed Timeout) st)
      else if ph = Spawned then set_phase j Calling (st\<lparr>ln_calls := ln_calls st @ [(gj_seqno j, gj_gated j)]\<rparr>)
      else st)"

definition finish_call :: "instant \<Rightarrow> 'p gateway_job \<Rightarrow> string option \<Rightarrow> 'p gateway_lane \<Rightarrow> 'p gateway_lane" where
  "finish_call now j failure st =
     (if gj_deadline j \<le> now then end_task j (send_answer (gj_seqno j) (Failed Timeout) st)
      else
        case failure of
          Some e \<Rightarrow> end_task j (send_answer (gj_seqno j) (Failed (Upstream e)) st)
        | None \<Rightarrow>
            if gj_stream j then
              (if is_cancelled j st then end_task j st else set_phase j Streaming (send_answer (gj_seqno j) Delivered st))
            else end_task j (send_answer (gj_seqno j) Delivered st))"

section \<open>Runs\<close>

inductive lane_step :: "instant \<Rightarrow> 'p gateway_lane \<Rightarrow> 'p gateway_lane \<Rightarrow> bool" for now st where
  draw: "lane_step now st (draw_seqno st)"
| enter: "i \<in> set (ln_drawn st) \<Longrightarrow> lane_step now st (enter_queue (make_job i rq payload enqueued_at deadline) st)"
| give_up: "i < ln_seq st \<Longrightarrow> i \<notin> set (ln_drawn st) \<Longrightarrow> i \<notin> ln_started st \<Longrightarrow> lane_step now st (st\<lparr>ln_closed := insert i (ln_closed st)\<rparr>)"
| disconnect: "i < ln_seq st \<Longrightarrow> i \<notin> set (ln_drawn st) \<Longrightarrow> lane_step now st (st\<lparr>ln_closed := insert i (ln_closed st)\<rparr>)"
| dequeue: "ln_dispatcher st = Idle \<Longrightarrow> dequeue_job now st = Some st' \<Longrightarrow> lane_step now st st'"
| slot_deadline: "ln_dispatcher st = Waiting_slot j \<Longrightarrow> gj_deadline j \<le> now \<Longrightarrow> lane_step now st (send_timeout j (st\<lparr>ln_dispatcher := Idle\<rparr>))"
| slot: "ln_dispatcher st = Waiting_slot j \<Longrightarrow> now < gj_deadline j \<Longrightarrow> used_slots st < ln_slots st \<Longrightarrow> lane_step now st (got_slot j st)"
| admit_deadline: "ln_dispatcher st = Admitting j \<Longrightarrow> gj_deadline j \<le> now \<Longrightarrow> lane_step now st (send_timeout j (st\<lparr>ln_dispatcher := Idle\<rparr>))"
| admit: "ln_dispatcher st = Admitting j \<Longrightarrow> now < gj_deadline j \<Longrightarrow> lane_step now st (admitted_job j st)"
| refuse: "ln_dispatcher st = Admitting j \<Longrightarrow> now < gj_deadline j \<Longrightarrow> refused_job now wait j st = Some st' \<Longrightarrow> lane_step now st st'"
| wake: "ln_dispatcher st = Backing_off t \<Longrightarrow> lane_step now st (st\<lparr>ln_dispatcher := Idle\<rparr>)"
| poll: "(j, ph) \<in> set (ln_running st) \<Longrightarrow> lane_step now st (poll_task now j ph st)"
| finish: "(j, Calling) \<in> set (ln_running st) \<Longrightarrow> lane_step now st (finish_call now j failure st)"
| stream_end: "(j, Streaming) \<in> set (ln_running st) \<Longrightarrow> lane_step now st (end_task j st)"

inductive lane_run :: "nat \<Rightarrow> duration \<Rightarrow> nat \<Rightarrow> nat \<Rightarrow> instant \<Rightarrow> 'p gateway_lane \<Rightarrow> bool" for depth step boost slots where
  opened: "lane_run depth step boost slots now (new_lane depth step boost slots)"
| stepped: "lane_run depth step boost slots now st \<Longrightarrow> now \<le> now' \<Longrightarrow> lane_step now' st st' \<Longrightarrow> lane_run depth step boost slots now' st'"

section \<open>Every job is in one place\<close>

text \<open>The sheet of a lane: the sequence numbers in each place, and what has happened to them.\<close>

record lane_sheet =
  sh_seq :: nat
  sh_drawn :: "nat set"
  sh_queue :: "nat set"
  sh_hand :: "nat set"
  sh_run :: "nat set"
  sh_unanswered :: "nat set"
  sh_spawned :: "nat set"
  sh_ungated :: "nat set"
  sh_sent :: "nat set"
  sh_admitted :: "nat set"
  sh_called :: "nat set"
  sh_ungated_calls :: "nat set"
  sh_shed :: "nat set"
  sh_closed :: "nat set"

definition not_begun :: "lane_sheet \<Rightarrow> nat set" where
  "not_begun s = sh_drawn s \<union> sh_queue s \<union> sh_hand s"

definition past :: "lane_sheet \<Rightarrow> nat set" where
  "past s = sh_sent s \<union> sh_admitted s \<union> sh_called s \<union> sh_shed s"

definition sheet_ok :: "lane_sheet \<Rightarrow> bool" where
  "sheet_ok s \<longleftrightarrow>
     sh_drawn s \<inter> sh_queue s = {} \<and> sh_drawn s \<inter> sh_hand s = {} \<and> sh_queue s \<inter> sh_hand s = {} \<and> not_begun s \<inter> sh_run s = {} \<and>
     not_begun s \<union> sh_run s \<union> past s \<subseteq> {..< sh_seq s} \<and> past s \<inter> not_begun s = {} \<and> sh_ungated_calls s \<subseteq> sh_admitted s \<and>
     sh_unanswered s \<subseteq> sh_run s \<and> sh_spawned s \<subseteq> sh_unanswered s \<and> sh_ungated s \<subseteq> sh_run s \<inter> sh_admitted s \<and>
     sh_unanswered s \<inter> sh_sent s = {} \<and> sh_spawned s \<inter> sh_called s = {} \<and>
     {..< sh_seq s} \<subseteq> not_begun s \<union> sh_run s \<union> sh_sent s \<union> sh_closed s \<union> sh_shed s \<and> sh_run s \<subseteq> sh_unanswered s \<union> sh_sent s \<and>
     sh_shed s \<inter> (sh_run s \<union> sh_sent s \<union> sh_admitted s \<union> sh_called s) = {}"

lemmas sheet_defs = sheet_ok_def not_begun_def past_def

lemma sheet_draw: "sheet_ok s \<Longrightarrow> sheet_ok (s\<lparr>sh_seq := Suc (sh_seq s), sh_drawn := insert (sh_seq s) (sh_drawn s)\<rparr>)"
  by (auto simp: sheet_defs lessThan_Suc)

lemma sheet_close: "sheet_ok s \<Longrightarrow> sheet_ok (s\<lparr>sh_closed := insert i (sh_closed s)\<rparr>)"
  by (auto simp: sheet_defs)

lemma sheet_enter: "sheet_ok s \<Longrightarrow> i \<in> sh_drawn s \<Longrightarrow> sheet_ok (s\<lparr>sh_drawn := sh_drawn s - {i}, sh_queue := insert i (sh_queue s)\<rparr>)"
  by (auto simp: sheet_defs)

lemma sheet_shed: "sheet_ok s \<Longrightarrow> i \<in> sh_drawn s \<Longrightarrow> sheet_ok (s\<lparr>sh_drawn := sh_drawn s - {i}, sh_shed := insert i (sh_shed s)\<rparr>)"
  by (auto simp: sheet_defs)

lemma sheet_take: "sheet_ok s \<Longrightarrow> i \<in> sh_queue s \<Longrightarrow> sh_hand s = {} \<Longrightarrow> sheet_ok (s\<lparr>sh_queue := sh_queue s - {i}, sh_hand := {i}\<rparr>)"
  by (auto simp: sheet_defs)

lemma sheet_skip: "sheet_ok s \<Longrightarrow> i \<in> sh_closed s \<Longrightarrow> sheet_ok (s\<lparr>sh_queue := sh_queue s - {i}\<rparr>)"
  by (auto simp: sheet_defs)

lemma sheet_drop: "sheet_ok s \<Longrightarrow> sh_hand s \<subseteq> sh_closed s \<Longrightarrow> sheet_ok (s\<lparr>sh_hand := {}, sh_admitted := sh_admitted s \<union> (if b then sh_hand s else {})\<rparr>)"
  by (auto simp: sheet_defs)

lemma sheet_begin:
  "sheet_ok s \<Longrightarrow> sh_hand s = {i} \<Longrightarrow> b \<or> g \<Longrightarrow>
    sheet_ok (s\<lparr>sh_hand := {}, sh_run := insert i (sh_run s), sh_unanswered := insert i (sh_unanswered s), sh_spawned := insert i (sh_spawned s),
      sh_ungated := (if g then sh_ungated s else insert i (sh_ungated s)), sh_admitted := sh_admitted s \<union> (if b then {i} else {})\<rparr>)"
  by (auto simp: sheet_defs)

lemma sheet_timeout: "sheet_ok s \<Longrightarrow> sh_hand s = {i} \<Longrightarrow>
    sheet_ok (s\<lparr>sh_hand := {}, sh_sent := (if i \<in> sh_closed s then sh_sent s else insert i (sh_sent s))\<rparr>)"
  by (auto simp: sheet_defs)

lemma sheet_put: "sheet_ok s \<Longrightarrow> sh_hand s = {i} \<Longrightarrow> sheet_ok (s\<lparr>sh_hand := {}, sh_queue := insert i (sh_queue s)\<rparr>)"
  by (auto simp: sheet_defs)

lemma sheet_okD:
  assumes "sheet_ok s"
  shows "sh_drawn s \<inter> sh_queue s = {}" "sh_drawn s \<inter> sh_hand s = {}" "sh_queue s \<inter> sh_hand s = {}" "not_begun s \<inter> sh_run s = {}"
    "not_begun s \<union> sh_run s \<union> past s \<subseteq> {..< sh_seq s}" "past s \<inter> not_begun s = {}" "sh_ungated_calls s \<subseteq> sh_admitted s"
    "sh_unanswered s \<subseteq> sh_run s" "sh_spawned s \<subseteq> sh_unanswered s" "sh_ungated s \<subseteq> sh_run s \<inter> sh_admitted s"
    "sh_unanswered s \<inter> sh_sent s = {}" "sh_spawned s \<inter> sh_called s = {}"
    "{..< sh_seq s} \<subseteq> not_begun s \<union> sh_run s \<union> sh_sent s \<union> sh_closed s \<union> sh_shed s" "sh_run s \<subseteq> sh_unanswered s \<union> sh_sent s"
    "sh_shed s \<inter> (sh_run s \<union> sh_sent s \<union> sh_admitted s \<union> sh_called s) = {}"
  using assms by (simp_all add: sheet_ok_def)

lemma sheet_expire:
  assumes ok: "sheet_ok s" and q: "q \<subseteq> sh_queue s" and t: "t \<subseteq> sh_queue s - q" and c: "sh_queue s \<subseteq> q \<union> t \<union> sh_closed s"
  shows "sheet_ok (s\<lparr>sh_queue := q, sh_sent := sh_sent s \<union> t\<rparr>)" (is "sheet_ok ?s")
proof -
  note d = sheet_okD [OF ok]
  have n: "not_begun ?s \<subseteq> not_begun s" "not_begun s \<subseteq> not_begun ?s \<union> t \<union> sh_closed s" "t \<subseteq> not_begun s"
    using q t c by (auto simp: not_begun_def)
  have p: "past ?s = past s \<union> t" by (auto simp: past_def)
  have tn: "t \<inter> not_begun ?s = {}" using d(1,3) t by (auto simp: not_begun_def)
  show ?thesis
    unfolding sheet_ok_def
  proof (intro conjI)
    show "not_begun ?s \<inter> sh_run ?s = {}" using n(1) d(4) by auto
    show "not_begun ?s \<union> sh_run ?s \<union> past ?s \<subseteq> {..< sh_seq ?s}" using n(1,3) d(5) unfolding p by auto
    show "past ?s \<inter> not_begun ?s = {}" using n(1) d(6) tn unfolding p by auto
    show "sh_unanswered ?s \<inter> sh_sent ?s = {}" using d(4,8,11) n(3) by auto
    show "{..< sh_seq ?s} \<subseteq> not_begun ?s \<union> sh_run ?s \<union> sh_sent ?s \<union> sh_closed ?s \<union> sh_shed ?s" using n(2) d(13) by auto
    have "t \<inter> sh_shed s = {}" using n(3) d(6) by (auto simp: past_def)
    then show "sh_shed ?s \<inter> (sh_run ?s \<union> sh_sent ?s \<union> sh_admitted ?s \<union> sh_called ?s) = {}" using d(15) by auto
  qed (use d q in auto)
qed

lemma sheet_end:
  "sheet_ok s \<Longrightarrow> i \<in> sh_run s \<Longrightarrow> b \<and> i \<in> sh_unanswered s \<or> i \<in> sh_closed s \<union> sh_sent s \<Longrightarrow>
    sheet_ok (s\<lparr>sh_run := sh_run s - {i}, sh_unanswered := sh_unanswered s - {i}, sh_spawned := sh_spawned s - {i}, sh_ungated := sh_ungated s - {i},
      sh_sent := sh_sent s \<union> (if b then {i} else {})\<rparr>)"
  by (auto simp: sheet_defs)

lemma sheet_call:
  "sheet_ok s \<Longrightarrow> i \<in> sh_spawned s \<Longrightarrow> g \<or> i \<in> sh_ungated s \<Longrightarrow>
    sheet_ok (s\<lparr>sh_spawned := sh_spawned s - {i}, sh_called := insert i (sh_called s), sh_ungated_calls := sh_ungated_calls s \<union> (if g then {} else {i})\<rparr>)"
  by (auto simp: sheet_defs)

lemma sheet_stream:
  "sheet_ok s \<Longrightarrow> i \<in> sh_unanswered s \<Longrightarrow> i \<notin> sh_spawned s \<Longrightarrow>
    sheet_ok (s\<lparr>sh_unanswered := sh_unanswered s - {i}, sh_sent := insert i (sh_sent s)\<rparr>)"
  by (auto simp: sheet_defs)

definition in_hand :: "'p gateway_lane \<Rightarrow> nat set" where
  "in_hand st = (case ln_dispatcher st of Waiting_slot j \<Rightarrow> {gj_seqno j} | Admitting j \<Rightarrow> {gj_seqno j} | _ \<Rightarrow> {})"

definition running_ids :: "('p gateway_job \<times> call_phase \<Rightarrow> bool) \<Rightarrow> 'p gateway_lane \<Rightarrow> nat set" where
  "running_ids P st = (gj_seqno \<circ> fst) ` {e \<in> set (ln_running st). P e}"

definition sheet_of :: "'p gateway_lane \<Rightarrow> lane_sheet" where
  "sheet_of st =
     \<lparr>sh_seq = ln_seq st, sh_drawn = set (ln_drawn st), sh_queue = dom (map_of (qi_jobs (ln_queue st))), sh_hand = in_hand st,
      sh_run = running_ids (\<lambda>_. True) st, sh_unanswered = running_ids (\<lambda>(_, ph). ph \<noteq> Streaming) st, sh_spawned = running_ids (\<lambda>(_, ph). ph = Spawned) st,
      sh_ungated = running_ids (\<lambda>(j, _). \<not> gj_gated j) st, sh_sent = fst ` set (ln_sent st), sh_admitted = set (ln_admissions st),
      sh_called = fst ` set (ln_calls st), sh_ungated_calls = {i. (i, False) \<in> set (ln_calls st)}, sh_shed = ln_shed st, sh_closed = ln_closed st\<rparr>"

definition lists_ok :: "'p gateway_lane \<Rightarrow> bool" where
  "lists_ok st \<longleftrightarrow>
     queue_wf (ln_queue st) \<and> distinct (ln_drawn st) \<and> distinct (map (gj_seqno \<circ> fst) (ln_running st)) \<and> distinct (map fst (ln_sent st)) \<and>
     distinct (ln_admissions st) \<and> distinct (map fst (ln_calls st)) \<and> used_slots st \<le> ln_slots st \<and>
     length (qi_jobs (ln_queue st)) + card (in_hand st) \<le> Suc (qs_max_depth (ln_settings st))"

definition lane_ok :: "'p gateway_lane \<Rightarrow> bool" where
  "lane_ok st \<longleftrightarrow> sheet_ok (sheet_of st) \<and> lists_ok st"

lemma sheet_simps [simp]:
  "sh_seq (sheet_of st) = ln_seq st" "sh_drawn (sheet_of st) = set (ln_drawn st)" "sh_queue (sheet_of st) = dom (map_of (qi_jobs (ln_queue st)))"
  "sh_hand (sheet_of st) = in_hand st" "sh_run (sheet_of st) = running_ids (\<lambda>_. True) st" "sh_unanswered (sheet_of st) = running_ids (\<lambda>(_, ph). ph \<noteq> Streaming) st"
  "sh_spawned (sheet_of st) = running_ids (\<lambda>(_, ph). ph = Spawned) st" "sh_ungated (sheet_of st) = running_ids (\<lambda>(j, _). \<not> gj_gated j) st"
  "sh_sent (sheet_of st) = fst ` set (ln_sent st)" "sh_admitted (sheet_of st) = set (ln_admissions st)" "sh_called (sheet_of st) = fst ` set (ln_calls st)"
  "sh_ungated_calls (sheet_of st) = {i. (i, False) \<in> set (ln_calls st)}" "sh_shed (sheet_of st) = ln_shed st" "sh_closed (sheet_of st) = ln_closed st"
  by (simp_all add: sheet_of_def)

lemma sheet_step: "sheet_ok s \<Longrightarrow> sheet_of st' = s \<Longrightarrow> lists_ok st' \<Longrightarrow> lane_ok st'"
  by (simp add: lane_ok_def)

lemma in_hand_simps [simp]: "ln_dispatcher st = Idle \<Longrightarrow> in_hand st = {}" "ln_dispatcher st = Backing_off t \<Longrightarrow> in_hand st = {}"
  "ln_dispatcher st = Waiting_slot j \<Longrightarrow> in_hand st = {gj_seqno j}" "ln_dispatcher st = Admitting j \<Longrightarrow> in_hand st = {gj_seqno j}"
  by (simp_all add: in_hand_def)

lemma lane_opened: "lane_ok (new_lane depth step boost slots)"
  by (simp add: lane_ok_def sheet_defs lists_ok_def new_lane_def running_ids_def used_slots_def wf_empty) (simp add: empty_queue_def)

lemma ok_draw:
  assumes "lane_ok st"
  shows "lane_ok (draw_seqno st)"
proof (rule sheet_step [OF sheet_draw [of "sheet_of st"]])
  show "sheet_of (draw_seqno st) = (sheet_of st)\<lparr>sh_seq := Suc (sh_seq (sheet_of st)), sh_drawn := insert (sh_seq (sheet_of st)) (sh_drawn (sheet_of st))\<rparr>"
    by (simp add: sheet_of_def draw_seqno_def in_hand_def running_ids_def)
  show "lists_ok (draw_seqno st)"
    using assms sheet_okD(5) [of "sheet_of st"] by (auto simp: lane_ok_def lists_ok_def draw_seqno_def used_slots_def in_hand_def not_begun_def)
qed (use assms in \<open>simp add: lane_ok_def\<close>)

lemma ok_close:
  assumes "lane_ok st"
  shows "lane_ok (st\<lparr>ln_closed := insert i (ln_closed st)\<rparr>)"
proof (rule sheet_step [OF sheet_close [of "sheet_of st" i]])
  show "sheet_of (st\<lparr>ln_closed := insert i (ln_closed st)\<rparr>) = (sheet_of st)\<lparr>sh_closed := insert i (sh_closed (sheet_of st))\<rparr>"
    by (simp add: sheet_of_def in_hand_def running_ids_def)
qed (use assms in \<open>simp_all add: lane_ok_def lists_ok_def used_slots_def in_hand_def\<close>)

lemma ok_enter:
  assumes "lane_ok st" and "gj_seqno j \<in> set (ln_drawn st)"
  shows "lane_ok (enter_queue j st)"
proof -
  let ?st = "st\<lparr>ln_drawn := removeAll (gj_seqno j) (ln_drawn st)\<rparr>"
  have ok: "sheet_ok (sheet_of st)" "lists_ok st" and i: "gj_seqno j \<in> sh_drawn (sheet_of st)" using assms by (simp_all add: lane_ok_def)
  have shed: "lane_ok (?st\<lparr>ln_shed := insert (gj_seqno j) (ln_shed st)\<rparr>)"
    by (rule sheet_step [OF sheet_shed [OF ok(1) i]])
      (use ok(2) in \<open>auto simp: sheet_of_def in_hand_def running_ids_def lists_ok_def used_slots_def distinct_removeAll\<close>)
  have fresh: "map_of (qi_jobs (ln_queue st)) (gj_seqno j) = None" using sheet_okD(1) [OF ok(1)] assms(2) by auto
  have "lane_ok (?st\<lparr>ln_queue := insert_job j (ln_queue st)\<rparr>)" if "length (qi_jobs (ln_queue st)) < qs_max_depth (ln_settings st)"
  proof (rule sheet_step [OF sheet_enter [OF ok(1) i]])
    have "card (in_hand st) \<le> 1" by (simp add: in_hand_def split: dispatcher.split)
    with that have "length (AList.update (gj_seqno j) j (qi_jobs (ln_queue st))) + card (in_hand st) \<le> Suc (qs_max_depth (ln_settings st))"
      using length_update_new [OF fresh, of j] by simp
    moreover have "queue_wf (insert_job j (ln_queue st))" using ok(2) fresh by (auto simp: lists_ok_def intro: wf_insert)
    ultimately show "lists_ok (?st\<lparr>ln_queue := insert_job j (ln_queue st)\<rparr>)"
      using ok(2) by (auto simp: lists_ok_def used_slots_def in_hand_def distinct_removeAll)
  qed (auto simp: sheet_of_def in_hand_def running_ids_def map_of_update)
  with shed show ?thesis by (auto simp: enter_queue_def Let_def enqueue_def split: option.splits)
qed

lemma lane_okD: "lane_ok st \<Longrightarrow> sheet_ok (sheet_of st)" "lane_ok st \<Longrightarrow> lists_ok st"
  by (simp_all add: lane_ok_def)

lemmas piece_simps = sheet_of_def in_hand_def running_ids_def lists_ok_def used_slots_def

lemma ok_dequeue:
  assumes "lane_ok st" and "ln_dispatcher st = Idle" and "dequeue_job now st = Some st'"
  shows "lane_ok st'"
proof (cases "qi_jobs (ln_queue st) = []")
  case True
  have "queue_wf (ln_queue st)" using lane_okD(2) [OF assms(1)] by (simp add: lists_ok_def)
  from pop_shape [OF this, of "ln_settings st" now] True assms show ?thesis by (simp add: dequeue_job_def)
next
  case False
  note ok = lane_okD [OF assms(1)]
  have wf: "queue_wf (ln_queue st)" using ok(2) by (simp add: lists_ok_def)
  from pop_shape [OF wf, of "ln_settings st" now] False obtain j where
    j: "pop_best (ln_settings st) now (ln_queue st) = Some (Some j, take_out j (ln_queue st))" "map_of (qi_jobs (ln_queue st)) (gj_seqno j) = Some j" by blast
  have wf': "queue_wf (take_out j (ln_queue st))" by (rule wf_take_out [OF wf j(2)])
  have q: "gj_seqno j \<in> sh_queue (sheet_of st)" "sh_hand (sheet_of st) = {}" using j(2) assms(2) by auto
  have len: "length (qi_jobs (ln_queue st)) = Suc (length (AList.delete (gj_seqno j) (qi_jobs (ln_queue st))))"
    using length_delete_present [OF wfD(1) [OF wf] j(2)] .
  have d: "dom ((map_of (qi_jobs (ln_queue st)))(gj_seqno j := None)) = dom (map_of (qi_jobs (ln_queue st))) - {gj_seqno j}" by simp
  have skip: "lane_ok (st\<lparr>ln_queue := take_out j (ln_queue st), ln_dispatcher := Idle\<rparr>)" if "gj_seqno j \<in> ln_closed st"
    by (rule sheet_step [OF sheet_skip [OF ok(1), of "gj_seqno j"]])
      (use that ok(2) wf' len assms(2) in \<open>simp_all add: piece_simps map_of_delete\<close>)
  have keep: "lane_ok (st\<lparr>ln_queue := take_out j (ln_queue st), ln_dispatcher := Waiting_slot j\<rparr>)"
    by (rule sheet_step [OF sheet_take [OF ok(1) q]])
      (use ok(2) wf' len assms(2) in \<open>simp_all add: piece_simps map_of_delete\<close>)
  from assms(3) j(1) skip keep show ?thesis by (auto simp: dequeue_job_def is_cancelled_def split: if_splits)
qed

lemma ok_timeout:
  assumes "lane_ok st" and "ln_dispatcher st = Waiting_slot j \<or> ln_dispatcher st = Admitting j"
  shows "lane_ok (send_timeout j (st\<lparr>ln_dispatcher := Idle\<rparr>))"
proof -
  note ok = lane_okD [OF assms(1)]
  have h: "sh_hand (sheet_of st) = {gj_seqno j}" using assms(2) by (auto simp: in_hand_def)
  have new: "gj_seqno j \<notin> fst ` set (ln_sent st)" using sheet_okD(6) [OF ok(1)] h by (auto simp: past_def not_begun_def)
  show ?thesis
    by (rule sheet_step [OF sheet_timeout [OF ok(1) h]])
      (use ok(2) new assms(2) in \<open>auto simp: send_timeout_def send_answer_def piece_simps\<close>)
qed

lemma running_append:
  assumes "ln_running st' = ln_running st @ [e]"
  shows "running_ids P st' = running_ids P st \<union> (if P e then {gj_seqno (fst e)} else {})"
proof -
  have "{x \<in> set (ln_running st'). P x} = {x \<in> set (ln_running st). P x} \<union> (if P e then {e} else {})" using assms by auto
  then show ?thesis unfolding running_ids_def by (simp add: image_Un)
qed

lemma ok_begin:
  assumes "lane_ok st" and "ln_dispatcher st = Waiting_slot j \<and> gj_gated j \<and> \<not> b \<and> used_slots st < ln_slots st \<or> ln_dispatcher st = Admitting j \<and> b"
  shows "lane_ok (begin_job j (st\<lparr>ln_admissions := ln_admissions st @ (if b then [gj_seqno j] else [])\<rparr>))"
proof -
  note ok = lane_okD [OF assms(1)]
  let ?st = "st\<lparr>ln_admissions := ln_admissions st @ (if b then [gj_seqno j] else [])\<rparr>"
  have h: "sh_hand (sheet_of st) = {gj_seqno j}" using assms(2) by (auto simp: in_hand_def)
  have new: "gj_seqno j \<notin> set (ln_admissions st)" "gj_seqno j \<notin> running_ids (\<lambda>_. True) st"
    using sheet_okD(4,6) [OF ok(1)] h by (auto simp: past_def not_begun_def)
  have drop: "lane_ok (?st\<lparr>ln_dispatcher := Idle\<rparr>)" if "gj_seqno j \<in> ln_closed st"
    by (rule sheet_step [OF sheet_drop [OF ok(1), of b]])
      (use ok(2) new h assms(2) that in \<open>auto simp: piece_simps\<close>)
  have start: "lane_ok (?st\<lparr>ln_dispatcher := Idle, ln_started := insert (gj_seqno j) (ln_started st), ln_running := ln_running st @ [(j, Spawned)]\<rparr>)"
  proof (rule sheet_step [OF sheet_begin [OF ok(1) h, of b "gj_gated j"]])
    show "lists_ok (?st\<lparr>ln_dispatcher := Idle, ln_started := insert (gj_seqno j) (ln_started st), ln_running := ln_running st @ [(j, Spawned)]\<rparr>)"
      using ok(2) new assms(2) by (auto simp: lists_ok_def used_slots_def in_hand_def running_ids_def)
    show "sheet_of (?st\<lparr>ln_dispatcher := Idle, ln_started := insert (gj_seqno j) (ln_started st), ln_running := ln_running st @ [(j, Spawned)]\<rparr>) =
      (sheet_of st)\<lparr>sh_hand := {}, sh_run := insert (gj_seqno j) (sh_run (sheet_of st)), sh_unanswered := insert (gj_seqno j) (sh_unanswered (sheet_of st)),
        sh_spawned := insert (gj_seqno j) (sh_spawned (sheet_of st)),
        sh_ungated := (if gj_gated j then sh_ungated (sheet_of st) else insert (gj_seqno j) (sh_ungated (sheet_of st))),
        sh_admitted := sh_admitted (sheet_of st) \<union> (if b then {gj_seqno j} else {})\<rparr>"
      by (rule lane_sheet.equality) (simp_all add: running_append [of _ st "(j, Spawned)"] in_hand_def)
  qed (use assms(2) in auto)
  from drop start show ?thesis by (auto simp: begin_job_def is_cancelled_def)
qed

lemma ok_slot:
  assumes "lane_ok st" and "ln_dispatcher st = Waiting_slot j" and "used_slots st < ln_slots st"
  shows "lane_ok (got_slot j st)"
proof -
  note ok = lane_okD [OF assms(1)]
  have "lane_ok (st\<lparr>ln_dispatcher := Idle\<rparr>)" if "gj_seqno j \<in> ln_closed st"
    by (rule sheet_step [OF sheet_drop [OF ok(1), of False]]) (use ok(2) assms(2) that in \<open>auto simp: piece_simps\<close>)
  moreover have "lane_ok (begin_job j st)" if "gj_gated j" using ok_begin [OF assms(1), of j False] assms that by simp
  moreover have "lane_ok (st\<lparr>ln_dispatcher := Admitting j\<rparr>)"
    by (rule sheet_step [OF ok(1)]) (use ok(2) assms(2,3) in \<open>auto simp: piece_simps\<close>)
  ultimately show ?thesis by (auto simp: got_slot_def is_cancelled_def)
qed

lemma told_answers:
  "\<forall>j \<in> set told. gj_seqno j \<notin> ln_closed st \<Longrightarrow>
    fold send_timeout told st = st\<lparr>ln_sent := ln_sent st @ map (\<lambda>j. (gj_seqno j, Failed Timeout)) told, ln_started := ln_started st \<union> gj_seqno ` set told\<rparr>"
proof (induction told arbitrary: st)
  case (Cons j told)
  let ?st = "send_timeout j st"
  have f: "?st = st\<lparr>ln_sent := ln_sent st @ [(gj_seqno j, Failed Timeout)], ln_started := insert (gj_seqno j) (ln_started st)\<rparr>"
    using Cons.prems by (simp add: send_timeout_def send_answer_def)
  show ?case using Cons.IH [of ?st] Cons.prems by (simp add: f)
qed simp

lemma ok_refuse:
  assumes "lane_ok st" and "ln_dispatcher st = Admitting j" and "refused_job now wait j st = Some st'"
  shows "lane_ok st'"
proof -
  note ok = lane_okD [OF assms(1)]
  let ?q = "requeue j (ln_queue st)"
  have h: "sh_hand (sheet_of st) = {gj_seqno j}" using assms(2) by simp
  have wf: "queue_wf (ln_queue st)" using ok(2) by (simp add: lists_ok_def)
  have fresh: "map_of (qi_jobs (ln_queue st)) (gj_seqno j) = None" using sheet_okD(3) [OF ok(1)] h by auto
  have wq: "queue_wf ?q" unfolding requeue_def by (rule wf_insert [OF wf fresh])
  from expire_spec [OF wq, of "\<lambda>i. i \<in> ln_closed st" now "[]"] obtain earliest told q where
    x: "expire_and_earliest_deadline (\<lambda>i. i \<in> ln_closed st) now ?q [] = Some (earliest, told, q)"
      "expired_ok (\<lambda>i. i \<in> ln_closed st) now ?q earliest told q" by auto
  note e = expired_okD [OF x(2)]
  have dq: "dom (map_of (qi_jobs ?q)) = insert (gj_seqno j) (dom (map_of (qi_jobs (ln_queue st))))" by (simp add: requeue_def map_of_update)
  have sub: "dom (map_of (qi_jobs q)) \<subseteq> dom (map_of (qi_jobs ?q))"
  proof
    fix i
    assume "i \<in> dom (map_of (qi_jobs q))"
    then obtain k where "map_of (qi_jobs q) i = Some k" by blast
    from e(2) [OF this] show "i \<in> dom (map_of (qi_jobs ?q))" by (simp add: domIff)
  qed
  have t: "gj_seqno ` set told \<subseteq> dom (map_of (qi_jobs ?q)) - dom (map_of (qi_jobs q))"
  proof
    fix i
    assume "i \<in> gj_seqno ` set told"
    then obtain k where "k \<in> set told" "i = gj_seqno k" by blast
    with e(3) [of k] show "i \<in> dom (map_of (qi_jobs ?q)) - dom (map_of (qi_jobs q))" by (simp add: domIff)
  qed
  have c: "dom (map_of (qi_jobs ?q)) \<subseteq> dom (map_of (qi_jobs q)) \<union> gj_seqno ` set told \<union> ln_closed st"
  proof
    fix i
    assume "i \<in> dom (map_of (qi_jobs ?q))"
    then obtain k where k: "map_of (qi_jobs ?q) i = Some k" by blast
    with e(5) [OF k] wfD(2) [OF wq k] show "i \<in> dom (map_of (qi_jobs q)) \<union> gj_seqno ` set told \<union> ln_closed st"
      by (cases "map_of (qi_jobs q) i") auto
  qed
  let ?s = "(sheet_of st)\<lparr>sh_hand := {}, sh_queue := insert (gj_seqno j) (sh_queue (sheet_of st))\<rparr>"
  have s1: "sheet_ok ?s" by (rule sheet_put [OF ok(1) h])
  have s2: "sheet_ok (?s\<lparr>sh_queue := dom (map_of (qi_jobs q)), sh_sent := sh_sent ?s \<union> gj_seqno ` set told\<rparr>)"
    by (rule sheet_expire [OF s1]) (use sub t c dq in simp_all)
  have told: "\<forall>k \<in> set told. gj_seqno k \<notin> ln_closed (st\<lparr>ln_queue := q\<rparr>)" using e(3) by simp
  have st': "\<exists>d. st' = st\<lparr>ln_queue := q, ln_sent := ln_sent st @ map (\<lambda>j. (gj_seqno j, Failed Timeout)) told,
      ln_started := ln_started st \<union> gj_seqno ` set told, ln_dispatcher := Backing_off d\<rparr>"
    using assms(3) x(1) unfolding refused_job_def by (auto simp: told_answers [OF told] Let_def)
  have "gj_seqno ` set told \<subseteq> not_begun (sheet_of st)" using t h unfolding dq not_begun_def by auto
  moreover have "fst ` set (ln_sent st) \<subseteq> past (sheet_of st)" by (auto simp: past_def)
  ultimately have "gj_seqno ` set told \<inter> fst ` set (ln_sent st) = {}" using sheet_okD(6) [OF ok(1)] by blast
  moreover have "length (qi_jobs q) \<le> Suc (length (qi_jobs (ln_queue st)))"
  proof -
    have "card (dom (map_of (qi_jobs q))) \<le> card (dom (map_of (qi_jobs ?q)))" using sub by (intro card_mono) (simp_all add: finite_dom_map_of)
    then show ?thesis using wfD(1) [OF e(1)] wfD(1) [OF wq] length_update_new [OF fresh, of j]
      by (simp add: dom_map_of_conv_image_fst requeue_def) (metis card_image distinct_card distinct_map length_map list.set_map)
  qed
  ultimately have l: "lists_ok st'" using st' ok(2) assms(2) e(1,4)
    by (auto simp only: lists_ok_def) (auto simp: used_slots_def in_hand_def comp_def Int_commute)
  show ?thesis
  proof (rule sheet_step [OF s2 _ l])
    show "sheet_of st' = ?s\<lparr>sh_queue := dom (map_of (qi_jobs q)), sh_sent := sh_sent ?s \<union> gj_seqno ` set told\<rparr>"
      using st' by (elim exE, intro lane_sheet.equality) (simp_all add: image_Un image_image running_ids_def)
  qed
qed

lemma ok_wake: "lane_ok st \<Longrightarrow> ln_dispatcher st = Backing_off t \<Longrightarrow> lane_ok (st\<lparr>ln_dispatcher := Idle\<rparr>)"
  by (rule sheet_step [OF lane_okD(1)]) (auto simp: lane_ok_def piece_simps)

text \<open>The end of a task and the change of its phase.\<close>

lemma running_end: "running_ids P (end_task j st) = running_ids P st - {gj_seqno j}"
  by (auto simp: running_ids_def end_task_def image_iff)

lemma running_member: "(j, ph) \<in> set (ln_running st) \<Longrightarrow> P (j, ph) \<Longrightarrow> gj_seqno j \<in> running_ids P st"
  by (force simp: running_ids_def)

lemma running_unique:
  assumes "lists_ok st" and "(j, ph) \<in> set (ln_running st)" and "(k, ph') \<in> set (ln_running st)" and "gj_seqno j = gj_seqno k"
  shows "k = j \<and> ph' = ph"
  using assms(1) eq_key_imp_eq_value [of "map (\<lambda>e. (gj_seqno (fst e), e)) (ln_running st)" "gj_seqno j" "(j, ph)" "(k, ph')"] assms(2-4)
  by (force simp: lists_ok_def comp_def)

lemma lists_end:
  assumes "lists_ok st"
  shows "lists_ok (end_task j st)"
proof -
  have "used_slots (end_task j st) \<le> used_slots st" by (simp add: used_slots_def end_task_def)
  moreover have "distinct (map (gj_seqno \<circ> fst) (ln_running (end_task j st)))" using assms by (simp add: lists_ok_def end_task_def distinct_map_filter)
  ultimately show ?thesis using assms by (simp add: lists_ok_def end_task_def in_hand_def)
qed

lemma lists_answer:
  assumes "lists_ok st" and "i \<notin> fst ` set (ln_sent st)"
  shows "lists_ok (send_answer i a st)"
  using assms by (simp add: send_answer_def lists_ok_def used_slots_def in_hand_def)

lemma ok_end:
  assumes "lane_ok st" and "(j, ph) \<in> set (ln_running st)" and "ph \<noteq> Streaming"
  shows "lane_ok (end_task j (send_answer (gj_seqno j) a st))"
proof -
  note ok = lane_okD [OF assms(1)]
  have r: "gj_seqno j \<in> sh_run (sheet_of st)" using running_member [OF assms(2), of "\<lambda>_. True"] by simp
  have u: "gj_seqno j \<in> sh_unanswered (sheet_of st)" using running_member [OF assms(2), of "\<lambda>(_, ph). ph \<noteq> Streaming"] assms(3) by simp
  have new: "gj_seqno j \<notin> fst ` set (ln_sent st)" using sheet_okD(11) [OF ok(1)] u by auto
  show ?thesis
  proof (rule sheet_step [OF sheet_end [OF ok(1) r, of "gj_seqno j \<notin> ln_closed st"]])
    show "lists_ok (end_task j (send_answer (gj_seqno j) a st))" by (intro lists_end lists_answer ok(2) new)
    show "sheet_of (end_task j (send_answer (gj_seqno j) a st)) = (sheet_of st)\<lparr>sh_run := sh_run (sheet_of st) - {gj_seqno j},
        sh_unanswered := sh_unanswered (sheet_of st) - {gj_seqno j}, sh_spawned := sh_spawned (sheet_of st) - {gj_seqno j},
        sh_ungated := sh_ungated (sheet_of st) - {gj_seqno j}, sh_sent := sh_sent (sheet_of st) \<union> (if gj_seqno j \<notin> ln_closed st then {gj_seqno j} else {})\<rparr>"
      by (intro lane_sheet.equality) (simp_all add: running_end, auto simp: end_task_def send_answer_def in_hand_def running_ids_def)
  qed (use u in auto)
qed

lemma ok_stop:
  assumes "lane_ok st" and "(j, ph) \<in> set (ln_running st)" and "gj_seqno j \<in> ln_closed st \<union> fst ` set (ln_sent st)"
  shows "lane_ok (end_task j st)"
proof -
  note ok = lane_okD [OF assms(1)]
  have r: "gj_seqno j \<in> sh_run (sheet_of st)" using running_member [OF assms(2), of "\<lambda>_. True"] by simp
  show ?thesis
  proof (rule sheet_step [OF sheet_end [OF ok(1) r, of False]])
    show "lists_ok (end_task j st)" by (rule lists_end [OF ok(2)])
    show "sheet_of (end_task j st) = (sheet_of st)\<lparr>sh_run := sh_run (sheet_of st) - {gj_seqno j},
        sh_unanswered := sh_unanswered (sheet_of st) - {gj_seqno j}, sh_spawned := sh_spawned (sheet_of st) - {gj_seqno j},
        sh_ungated := sh_ungated (sheet_of st) - {gj_seqno j}, sh_sent := sh_sent (sheet_of st) \<union> (if False then {gj_seqno j} else {})\<rparr>"
      by (intro lane_sheet.equality) (simp_all add: running_end, simp_all add: end_task_def in_hand_def)
  qed (use assms(3) in auto)
qed

lemma phase_ids: "map (gj_seqno \<circ> fst) (ln_running (set_phase j ph st)) = map (gj_seqno \<circ> fst) (ln_running st)"
  by (simp add: set_phase_def comp_def case_prod_unfold)

lemma running_phase:
  assumes "lists_ok st" and "(j, ph) \<in> set (ln_running st)" and "\<And>k. P (k, ph') = Q k" and "\<And>k p. gj_seqno k \<noteq> gj_seqno j \<Longrightarrow> P (k, p) = R (k, p)"
  shows "running_ids P (set_phase j ph' st) = (running_ids R st - {gj_seqno j}) \<union> (if Q j then {gj_seqno j} else {})"
proof -
  have "e = (j, ph)" if "e \<in> set (ln_running st)" "gj_seqno (fst e) = gj_seqno j" for e
    using running_unique [OF assms(1,2), of "fst e" "snd e"] that by (cases e) auto
  then have "(i \<in> running_ids P (set_phase j ph' st)) = (i \<in> (running_ids R st - {gj_seqno j}) \<union> (if Q j then {gj_seqno j} else {}))" for i
    using assms(2) by (cases "i = gj_seqno j") (force simp: running_ids_def set_phase_def assms(3,4))+
  then show ?thesis by blast
qed

lemma running_same:
  assumes "\<And>k p p'. P (k, p) = P (k, p')"
  shows "running_ids P (set_phase j ph st) = running_ids P st"
proof -
  let ?f = "\<lambda>e. (fst e, if gj_seqno (fst e) = gj_seqno j then ph else snd e)"
  have "P (?f e) = P e" for e by (cases e) (simp only: fst_conv snd_conv, rule assms)
  then have "{e \<in> ?f ` set (ln_running st). P e} = ?f ` {e \<in> set (ln_running st). P e}" by auto
  then show ?thesis by (simp add: running_ids_def set_phase_def case_prod_unfold image_image comp_def)
qed

text \<open>The sheet after a task changed its phase.\<close>

lemma sheet_phase:
  assumes "lists_ok st" and "(j, old) \<in> set (ln_running st)"
  shows "sheet_of (set_phase j Calling st) = (sheet_of st)\<lparr>sh_unanswered := insert (gj_seqno j) (sh_unanswered (sheet_of st)), sh_spawned := sh_spawned (sheet_of st) - {gj_seqno j}\<rparr>"
    and "sheet_of (set_phase j Streaming st) = (sheet_of st)\<lparr>sh_unanswered := sh_unanswered (sheet_of st) - {gj_seqno j}, sh_spawned := sh_spawned (sheet_of st) - {gj_seqno j}\<rparr>"
    and "lists_ok (set_phase j ph st)"
proof -
  note r = running_phase [OF assms, of "\<lambda>(_, ph). ph \<noteq> Streaming" _ _ "\<lambda>(_, ph). ph \<noteq> Streaming"]
    running_phase [OF assms, of "\<lambda>(_, ph). ph = Spawned" _ _ "\<lambda>(_, ph). ph = Spawned"]
  have same: "running_ids (\<lambda>_. True) (set_phase j ph st) = running_ids (\<lambda>_. True) st"
    "running_ids (\<lambda>(j, _). \<not> gj_gated j) (set_phase j ph st) = running_ids (\<lambda>(j, _). \<not> gj_gated j) st" for ph
    by (rule running_same, simp)+
  show "sheet_of (set_phase j Calling st) = (sheet_of st)\<lparr>sh_unanswered := insert (gj_seqno j) (sh_unanswered (sheet_of st)), sh_spawned := sh_spawned (sheet_of st) - {gj_seqno j}\<rparr>"
    using r(1) [of Calling "\<lambda>_. True"] r(2) [of Calling "\<lambda>_. False"]
    by (intro lane_sheet.equality) (simp_all add: same, simp_all add: set_phase_def in_hand_def)
  show "sheet_of (set_phase j Streaming st) = (sheet_of st)\<lparr>sh_unanswered := sh_unanswered (sheet_of st) - {gj_seqno j}, sh_spawned := sh_spawned (sheet_of st) - {gj_seqno j}\<rparr>"
    using r(1) [of Streaming "\<lambda>_. False"] r(2) [of Streaming "\<lambda>_. False"]
    by (intro lane_sheet.equality) (simp_all add: same, simp_all add: set_phase_def in_hand_def)
  show "lists_ok (set_phase j ph st)"
    using assms(1) phase_ids [of j ph st] by (simp add: lists_ok_def) (simp add: set_phase_def used_slots_def in_hand_def)
qed

lemma ok_call:
  assumes "lane_ok st" and "(j, Spawned) \<in> set (ln_running st)"
  shows "lane_ok (set_phase j Calling (st\<lparr>ln_calls := ln_calls st @ [(gj_seqno j, gj_gated j)]\<rparr>))"
proof -
  note ok = lane_okD [OF assms(1)]
  let ?st = "st\<lparr>ln_calls := ln_calls st @ [(gj_seqno j, gj_gated j)]\<rparr>"
  have sp: "gj_seqno j \<in> sh_spawned (sheet_of st)" using running_member [OF assms(2), of "\<lambda>(_, ph). ph = Spawned"] by simp
  have un: "gj_gated j \<or> gj_seqno j \<in> sh_ungated (sheet_of st)" using running_member [OF assms(2), of "\<lambda>(j, _). \<not> gj_gated j"] by auto
  have new: "gj_seqno j \<notin> fst ` set (ln_calls st)" using sheet_okD(12) [OF ok(1)] sp by auto
  have l: "lists_ok ?st" using ok(2) new by (simp add: lists_ok_def used_slots_def in_hand_def)
  have m: "(j, Spawned) \<in> set (ln_running ?st)" using assms(2) by simp
  have u: "insert (gj_seqno j) (sh_unanswered (sheet_of st)) = sh_unanswered (sheet_of st)" using sp sheet_okD(9) [OF ok(1)] by auto
  have base: "sheet_of ?st = (sheet_of st)\<lparr>sh_called := insert (gj_seqno j) (sh_called (sheet_of st)),
      sh_ungated_calls := sh_ungated_calls (sheet_of st) \<union> (if gj_gated j then {} else {gj_seqno j})\<rparr>"
    by (intro lane_sheet.equality) (auto simp: in_hand_def running_ids_def)
  show ?thesis
    by (rule sheet_step [OF sheet_call [OF ok(1) sp un] _ sheet_phase(3) [OF l m]], unfold sheet_phase(1) [OF l m] base) (simp add: u [simplified])
qed

lemma ok_stream:
  assumes "lane_ok st" and "(j, Calling) \<in> set (ln_running st)" and "gj_seqno j \<notin> ln_closed st"
  shows "lane_ok (set_phase j Streaming (send_answer (gj_seqno j) Delivered st))"
proof -
  note ok = lane_okD [OF assms(1)]
  let ?st = "send_answer (gj_seqno j) Delivered st"
  have u: "gj_seqno j \<in> sh_unanswered (sheet_of st)" using running_member [OF assms(2), of "\<lambda>(_, ph). ph \<noteq> Streaming"] by simp
  have ns: "gj_seqno j \<notin> sh_spawned (sheet_of st)"
    using running_unique [OF ok(2) assms(2)] by (force simp: running_ids_def)
  have new: "gj_seqno j \<notin> fst ` set (ln_sent st)" using sheet_okD(11) [OF ok(1)] u by auto
  have l: "lists_ok ?st" by (rule lists_answer [OF ok(2) new])
  have m: "(j, Calling) \<in> set (ln_running ?st)" using assms(2) by (simp add: send_answer_def)
  have base: "sheet_of ?st = (sheet_of st)\<lparr>sh_sent := insert (gj_seqno j) (sh_sent (sheet_of st))\<rparr>"
    using assms(3) by (intro lane_sheet.equality) (auto simp: send_answer_def in_hand_def running_ids_def)
  show ?thesis
    by (rule sheet_step [OF sheet_stream [OF ok(1) u ns] _ sheet_phase(3) [OF l m]], unfold sheet_phase(2) [OF l m] base) (use ns in simp)
qed

lemma streaming_sent:
  assumes "lane_ok st" and "(j, Streaming) \<in> set (ln_running st)"
  shows "gj_seqno j \<in> fst ` set (ln_sent st)"
proof -
  note ok = lane_okD [OF assms(1)]
  have "gj_seqno j \<notin> running_ids (\<lambda>(_, ph). ph \<noteq> Streaming) st"
    using running_unique [OF ok(2) assms(2)] by (force simp: running_ids_def)
  moreover have "gj_seqno j \<in> running_ids (\<lambda>_. True) st" by (rule running_member [OF assms(2)]) simp
  ultimately show ?thesis using sheet_okD(14) [OF ok(1)] by auto
qed

lemma ok_poll:
  assumes "lane_ok st" and "(j, ph) \<in> set (ln_running st)"
  shows "lane_ok (poll_task now j ph st)"
  using assms ok_call [OF assms(1), of j] ok_end [OF assms] ok_stop [OF assms] streaming_sent [OF assms(1), of j]
  by (auto simp: poll_task_def is_cancelled_def)

lemma ok_finish:
  assumes "lane_ok st" and "(j, Calling) \<in> set (ln_running st)"
  shows "lane_ok (finish_call now j failure st)"
  using ok_end [OF assms] ok_stream [OF assms] ok_stop [OF assms]
  by (auto simp: finish_call_def is_cancelled_def split: option.split)

section \<open>Every run\<close>

lemma lane_step_ok:
  assumes "lane_step now st st'" and "lane_ok st"
  shows "lane_ok st'"
  using assms
proof (cases rule: lane_step.cases)
  case (enter i rq payload enqueued_at deadline)
  with ok_enter [OF assms(2)] show ?thesis by (simp add: make_job_def)
next
  case (admit j)
  with ok_begin [OF assms(2), of j True] show ?thesis by (simp add: admitted_job_def)
next
  case (stream_end j)
  with ok_stop [OF assms(2)] streaming_sent [OF assms(2)] show ?thesis by blast
qed (use assms(2) in \<open>blast intro: ok_draw ok_close ok_dequeue ok_timeout ok_slot ok_refuse ok_wake ok_poll ok_finish\<close>)+

definition lane_shape :: "'p gateway_lane \<Rightarrow> queue_settings \<times> nat" where
  "lane_shape st = (ln_settings st, ln_slots st)"

lemma shape_simps [simp]: "lane_shape (send_answer i a st) = lane_shape st" "lane_shape (send_timeout j st) = lane_shape st"
  "lane_shape (begin_job j st) = lane_shape st" "lane_shape (end_task j st) = lane_shape st" "lane_shape (set_phase j ph st) = lane_shape st"
  by (simp_all add: lane_shape_def send_timeout_def send_answer_def begin_job_def end_task_def set_phase_def)

lemma shape_told: "ln_settings (fold send_timeout told st) = ln_settings st" "ln_slots (fold send_timeout told st) = ln_slots st"
proof -
  have "lane_shape (fold send_timeout told st) = lane_shape st" by (induction told arbitrary: st) simp_all
  then show "ln_settings (fold send_timeout told st) = ln_settings st" "ln_slots (fold send_timeout told st) = ln_slots st"
    by (simp_all add: lane_shape_def)
qed

lemma step_shape: "lane_step now st st' \<Longrightarrow> lane_shape st' = lane_shape st"
  by (cases rule: lane_step.cases, assumption)
    (auto simp: draw_seqno_def enter_queue_def dequeue_job_def got_slot_def admitted_job_def refused_job_def poll_task_def finish_call_def Let_def
      split: option.splits, auto simp: lane_shape_def shape_told)

lemma lane_run_ok:
  assumes "lane_run depth step boost slots now st"
  shows "lane_ok st \<and> lane_shape st = (with_aging depth step boost, max slots 1)"
  using assms
proof induction
  case (opened now)
  show ?case by (simp add: lane_opened) (simp add: lane_shape_def new_lane_def)
next
  case (stepped now st now' st')
  then show ?case by (simp add: lane_step_ok step_shape)
qed

text \<open>What the dispatcher does next never panics.\<close>

lemma dequeue_returns:
  assumes "lane_ok st"
  shows "dequeue_job now st \<noteq> None"
proof -
  have "queue_wf (ln_queue st)" using lane_okD(2) [OF assms] by (simp add: lists_ok_def)
  from pop_shape [OF this, of "ln_settings st" now] show ?thesis by (cases "qi_jobs (ln_queue st) = []") (auto simp: dequeue_job_def)
qed

lemma refuse_returns:
  assumes "lane_ok st" and "ln_dispatcher st = Admitting j"
  shows "refused_job now wait j st \<noteq> None"
proof -
  note ok = lane_okD [OF assms(1)]
  have "map_of (qi_jobs (ln_queue st)) (gj_seqno j) = None" using sheet_okD(3) [OF ok(1)] assms(2) by auto
  then have "queue_wf (requeue j (ln_queue st))" unfolding requeue_def using ok(2) by (auto simp: lists_ok_def intro: wf_insert)
  from expire_spec [OF this, of "\<lambda>i. i \<in> ln_closed st" now "[]"] show ?thesis by (auto simp: refused_job_def Let_def)
qed

section \<open>The claims\<close>

lemma lane_limit_facts:
  assumes "lane_run depth step boost slots now st"
  shows "used_slots st \<le> max slots 1"
    and "queue_depth (ln_queue st) \<le> Suc (max depth 1)"
    and "distinct (map fst (ln_calls st))" and "distinct (ln_admissions st)"
    and "(i, False) \<in> set (ln_calls st) \<longrightarrow> i \<in> set (ln_admissions st)"
    and "dequeue_job now' st \<noteq> None"
    and "ln_dispatcher st = Admitting j \<longrightarrow> refused_job now' wait j st \<noteq> None"
proof -
  from lane_run_ok [OF assms] have ok: "lane_ok st" and shape: "ln_settings st = with_aging depth step boost" "ln_slots st = max slots 1"
    by (simp_all add: lane_shape_def)
  note l = lane_okD [OF ok]
  show "used_slots st \<le> max slots 1" "queue_depth (ln_queue st) \<le> Suc (max depth 1)"
    using l(2) shape by (simp_all add: lists_ok_def queue_depth_def with_aging_def)
  show "distinct (map fst (ln_calls st))" "distinct (ln_admissions st)" using l(2) by (simp_all add: lists_ok_def)
  show "(i, False) \<in> set (ln_calls st) \<longrightarrow> i \<in> set (ln_admissions st)" using sheet_okD(7) [OF l(1)] by auto
  show "dequeue_job now' st \<noteq> None" by (rule dequeue_returns [OF ok])
  show "ln_dispatcher st = Admitting j \<longrightarrow> refused_job now' wait j st \<noteq> None" using refuse_returns [OF ok] by blast
qed

text \<open>C39. The limits of a lane hold in every run, whatever the submitters, the dispatcher, the limiter and the upstream do and in
  whatever order: the tasks that hold a slot, with the job that is waiting for the limiter, are at most the configured
  concurrency (at least one); the queue holds at most one job more than its configured depth, the one the dispatcher has put back;
  every job is called upstream at most once, and a job without a policy of its own only after the limiter has admitted it, each
  admission serving one job; and neither taking a job nor putting one back panics.\<close>

theorem lane_limits:
  assumes "lane_run depth step boost slots now st"
  shows "used_slots st \<le> max slots 1 \<and> queue_depth (ln_queue st) \<le> Suc (max depth 1) \<and>
    distinct (map fst (ln_calls st)) \<and> distinct (ln_admissions st) \<and>
    ((i, False) \<in> set (ln_calls st) \<longrightarrow> i \<in> set (ln_admissions st)) \<and>
    dequeue_job now' st \<noteq> None \<and>
    (ln_dispatcher st = Admitting j \<longrightarrow> refused_job now' wait j st \<noteq> None)"
  using lane_limit_facts [OF assms] by (intro conjI)

definition example_request :: gateway_request where
  "example_request = \<lparr>gr_tier = 1, gr_permits = 0, gr_gated = False, gr_stream = False\<rparr>"

definition example_lane :: "nat gateway_lane" where
  "example_lane = enter_queue (make_job 0 example_request 7 0 50) (draw_seqno (new_lane 1 0 0 0))"

lemma lane_example_run: "lane_run 1 0 0 0 3 example_lane"
proof -
  let ?st = "draw_seqno (new_lane 1 0 0 0) :: nat gateway_lane"
  have "lane_run 1 0 0 0 3 ?st" by (rule lane_run.stepped [OF lane_run.opened order_refl lane_step.draw])
  moreover have "0 \<in> set (ln_drawn ?st)" by (simp add: draw_seqno_def new_lane_def)
  ultimately show ?thesis unfolding example_lane_def by (intro lane_run.stepped [OF _ order_refl lane_step.enter])
qed

theorem lane_limits_witness:
  "lane_run 1 0 0 0 3 example_lane \<and> used_slots example_lane \<le> max 0 1 \<and> dequeue_job 4 example_lane \<noteq> None \<and> queue_depth (ln_queue example_lane) = 1"
  using lane_limits [OF lane_example_run, of _ 4] lane_example_run
  by (simp add: example_lane_def enter_queue_def draw_seqno_def new_lane_def make_job_def example_request_def enqueue_def with_aging_def queue_depth_def
      empty_queue_def)

lemma job_places:
  assumes "lane_run depth step boost slots now st"
  shows "i < ln_seq st \<longrightarrow> i \<in> set (ln_drawn st) \<or> i \<in> fst ` set (qi_jobs (ln_queue st)) \<or> i \<in> in_hand st \<or>
      (\<exists>(j, _) \<in> set (ln_running st). gj_seqno j = i) \<or> i \<in> fst ` set (ln_sent st) \<or> i \<in> ln_shed st \<or> i \<in> ln_closed st"
    and "set (ln_drawn st) \<inter> fst ` set (qi_jobs (ln_queue st)) = {}"
    and "in_hand st \<inter> (set (ln_drawn st) \<union> fst ` set (qi_jobs (ln_queue st))) = {}"
    and "(j, ph) \<in> set (ln_running st) \<longrightarrow> gj_seqno j \<notin> set (ln_drawn st) \<union> fst ` set (qi_jobs (ln_queue st)) \<union> in_hand st"
    and "distinct (map fst (ln_sent st))"
    and "(fst ` set (ln_sent st) \<union> fst ` set (ln_calls st) \<union> set (ln_admissions st) \<union> ln_shed st) \<inter>
      (set (ln_drawn st) \<union> fst ` set (qi_jobs (ln_queue st)) \<union> in_hand st) = {}"
    and "ln_shed st \<inter> ((gj_seqno \<circ> fst) ` set (ln_running st) \<union> fst ` set (ln_sent st) \<union> fst ` set (ln_calls st) \<union> set (ln_admissions st)) = {}"
proof -
  from lane_run_ok [OF assms] have ok: "lane_ok st" by simp
  note l = lane_okD [OF ok] and d = sheet_okD [OF l(1)]
  have q: "dom (map_of (qi_jobs (ln_queue st))) = fst ` set (qi_jobs (ln_queue st))" by (rule dom_map_of_conv_image_fst)
  have r: "\<exists>(j, _) \<in> set (ln_running st). gj_seqno j = i" if "i \<in> running_ids (\<lambda>_. True) st" for i
    using that by (auto simp: running_ids_def)
  show "i < ln_seq st \<longrightarrow> i \<in> set (ln_drawn st) \<or> i \<in> fst ` set (qi_jobs (ln_queue st)) \<or> i \<in> in_hand st \<or>
      (\<exists>(j, _) \<in> set (ln_running st). gj_seqno j = i) \<or> i \<in> fst ` set (ln_sent st) \<or> i \<in> ln_shed st \<or> i \<in> ln_closed st"
  proof
    assume "i < ln_seq st"
    with d(13) have "i \<in> not_begun (sheet_of st) \<union> running_ids (\<lambda>_. True) st \<union> fst ` set (ln_sent st) \<union> ln_closed st \<union> ln_shed st" by auto
    with r [of i] show "i \<in> set (ln_drawn st) \<or> i \<in> fst ` set (qi_jobs (ln_queue st)) \<or> i \<in> in_hand st \<or>
      (\<exists>(j, _) \<in> set (ln_running st). gj_seqno j = i) \<or> i \<in> fst ` set (ln_sent st) \<or> i \<in> ln_shed st \<or> i \<in> ln_closed st"
      unfolding not_begun_def sheet_simps q by blast
  qed
  show "set (ln_drawn st) \<inter> fst ` set (qi_jobs (ln_queue st)) = {}" using d(1) q by simp
  show "in_hand st \<inter> (set (ln_drawn st) \<union> fst ` set (qi_jobs (ln_queue st))) = {}" using d(2,3) q by auto
  show "(j, ph) \<in> set (ln_running st) \<longrightarrow> gj_seqno j \<notin> set (ln_drawn st) \<union> fst ` set (qi_jobs (ln_queue st)) \<union> in_hand st"
  proof
    assume "(j, ph) \<in> set (ln_running st)"
    from running_member [OF this, of "\<lambda>_. True"] d(4) show "gj_seqno j \<notin> set (ln_drawn st) \<union> fst ` set (qi_jobs (ln_queue st)) \<union> in_hand st"
      unfolding not_begun_def sheet_simps q by blast
  qed
  show "distinct (map fst (ln_sent st))" using l(2) by (simp add: lists_ok_def)
  show "(fst ` set (ln_sent st) \<union> fst ` set (ln_calls st) \<union> set (ln_admissions st) \<union> ln_shed st) \<inter>
      (set (ln_drawn st) \<union> fst ` set (qi_jobs (ln_queue st)) \<union> in_hand st) = {}"
    using d(6) unfolding past_def not_begun_def sheet_simps q by blast
  show "ln_shed st \<inter> ((gj_seqno \<circ> fst) ` set (ln_running st) \<union> fst ` set (ln_sent st) \<union> fst ` set (ln_calls st) \<union> set (ln_admissions st)) = {}"
    using d(15) by (auto simp: running_ids_def)
qed

text \<open>C40. No job is lost: in every run each submitted job is in exactly one place (not entered yet, queued, with the dispatcher, running)
  or has left them all; a job that has left was answered, was shed as overloaded or had been given up by its caller. Nobody is
  answered twice, nobody is answered, called or admitted before its turn, and a job that was shed is never answered nor called.\<close>

theorem no_job_lost:
  assumes "lane_run depth step boost slots now st"
  shows "(i < ln_seq st \<longrightarrow> i \<in> set (ln_drawn st) \<or> i \<in> fst ` set (qi_jobs (ln_queue st)) \<or> i \<in> in_hand st \<or>
      (\<exists>(j, _) \<in> set (ln_running st). gj_seqno j = i) \<or> i \<in> fst ` set (ln_sent st) \<or> i \<in> ln_shed st \<or> i \<in> ln_closed st) \<and>
    set (ln_drawn st) \<inter> fst ` set (qi_jobs (ln_queue st)) = {} \<and>
    in_hand st \<inter> (set (ln_drawn st) \<union> fst ` set (qi_jobs (ln_queue st))) = {} \<and>
    ((j, ph) \<in> set (ln_running st) \<longrightarrow> gj_seqno j \<notin> set (ln_drawn st) \<union> fst ` set (qi_jobs (ln_queue st)) \<union> in_hand st) \<and>
    distinct (map fst (ln_sent st)) \<and>
    (fst ` set (ln_sent st) \<union> fst ` set (ln_calls st) \<union> set (ln_admissions st) \<union> ln_shed st) \<inter>
      (set (ln_drawn st) \<union> fst ` set (qi_jobs (ln_queue st)) \<union> in_hand st) = {} \<and>
    ln_shed st \<inter> ((gj_seqno \<circ> fst) ` set (ln_running st) \<union> fst ` set (ln_sent st) \<union> fst ` set (ln_calls st) \<union> set (ln_admissions st)) = {}"
  using job_places [OF assms] by (intro conjI)

theorem no_job_lost_witness:
  "lane_run 1 0 0 0 3 example_lane \<and> 0 \<in> fst ` set (qi_jobs (ln_queue example_lane)) \<and> 0 \<notin> fst ` set (ln_sent example_lane) \<and>
   0 \<notin> ln_shed example_lane \<and> 0 \<notin> in_hand example_lane"
proof -
  have q: "0 \<in> fst ` set (qi_jobs (ln_queue example_lane))"
    by (simp add: example_lane_def enter_queue_def draw_seqno_def new_lane_def make_job_def example_request_def enqueue_def with_aging_def
        empty_queue_def)
  note n = no_job_lost [OF lane_example_run, THEN conjunct2, THEN conjunct2]
  have h: "0 \<notin> in_hand example_lane" using conjunct1 [OF n] q by blast
  have "0 \<notin> fst ` set (ln_sent example_lane) \<union> fst ` set (ln_calls example_lane) \<union> set (ln_admissions example_lane) \<union> ln_shed example_lane"
    using n [THEN conjunct2, THEN conjunct2, THEN conjunct2, THEN conjunct1] q by blast
  with q h lane_example_run show ?thesis by simp
qed

end
