(* ===== verification/Spec2Isabelle.thy ===== *)
theory Spec2Isabelle
  imports Sse Idempotency Coordinator RedisAgreement Fallback StreamSafety JobClaims GatewayLane
begin

text \<open>
  \<^bold>\<open>llmshim\<close>, a gateway between clients and providers of language models: a library that translates one request format to many
  providers, a proxy over it, and a gateway with tenants, budgets and queues, in one process or in several over Redis. This
  development models the parts that decide: who may spend what, which job runs when, what is retried where, and what a client is told.
  Paths below are relative to \<open>src/\<close>; those of the catalog are relative to \<open>crates/llmshim-catalog/src/\<close>.

  \<^bold>\<open>How the parts meet.\<close> A request is authenticated, charged against quotas and a spend cap, and queued. The dispatcher of its
  provider takes it, waits for a slot and for the rate limiter, and calls. The call goes through the fallback chain, which asks the
  router for targets, the circuit breaker for permission, and the policy hooks for admission of every attempt; the coordinator behind the
  hooks reserves budget and rates, in one instance or by Redis scripts. The answer arrives as JSON or as events; tool calls get
  identities that survive a change of provider; usage is priced from the catalog; a completed answer may be kept for replay.

  \<^bold>\<open>Foundations.\<close>
  \<^item> \<open>Prelude\<close>: strings as bytes, 64-bit arithmetic with wrap, check and saturation written out, durations and instants in
    nanoseconds, hash maps as association lists, ordered maps as sorted ones; sums over a map.
  \<^item> \<open>F64\<close>: IEEE binary64 with rounding to nearest even, on which all prices and buckets rest, with monotonicity and error bounds.
  \<^item> \<open>Json\<close>, \<open>JsonEdit\<close>: \<open>serde_json\<close> values as the code reads and edits them. \<open>BoundedJson\<close> (\<open>bounded_json.rs\<close>,
    \<open>json_bounds.rs\<close>): the reader that counts depth, nodes and bytes accepts exactly the values within its limits, and what
    it returns is well-formed.
  \<^item> \<open>Errors\<close> (\<open>error.rs\<close>): the error type and the predicates the retry code asks.

  \<^bold>\<open>Calls.\<close>
  \<^item> \<open>Catalog\<close> (\<open>variant.rs\<close>, \<open>aliases.rs\<close>, \<open>types.rs\<close>, \<open>capabilities.rs\<close>, \<open>reasoning_option.rs\<close>, \<open>merge.rs\<close>, parts of \<open>lib.rs\<close>
    and \<open>parse.rs\<close>): spellings, metadata, and the merge of rows, which decides each field by the last row of the strongest source. A locale per
    field is interpreted on all of them.
  \<^item> \<open>Router\<close> (\<open>router.rs\<close>): registry, aliases, named routes. \<open>Breaker\<close> (\<open>breaker.rs\<close>): the circuit opens exactly when the
    failures in its window reach the threshold, admits one probe at a time, and recovers. \<open>Fallback\<close> (\<open>fallback.rs\<close>): the outcome of the
    chain on every branch, the bound on its attempts, and that a provider at capacity is not called again.
  \<^item> \<open>Policy\<close> (\<open>policy.rs\<close>): the hooks of an attempt as a machine; whatever the policy answers and however guards are dropped, an
    attempt is closed once.
  \<^item> \<open>Cost\<close> (\<open>cost.rs\<close>): prices, partial rates, and the two accounting members written and read back.
  \<^item> \<open>Sse\<close> (\<open>sse.rs\<close>): the incremental decoder against the event-stream grammar on the whole text, whatever the chunks; polling
    terminates.

  \<^bold>\<open>Admission.\<close>
  \<^item> \<open>Auth\<close> (\<open>gateway/auth.rs\<close>), \<open>Quota\<close> (\<open>gateway/quota.rs\<close>), \<open>RateLimit\<close> and \<open>Estimate\<close> (\<open>proxy/ratelimit.rs\<close>), \<open>Budget\<close>
    (\<open>gateway/budget.rs\<close>). \<open>Buckets\<close> states the contract of a token bucket as a locale, interpreted on the three buckets of the code:
    what a bucket lets through is one burst plus rate times time, up to rounding that is written out.
  \<^item> \<open>Ledger\<close>, \<open>Attempts\<close>, \<open>Coordinator\<close> (\<open>gateway/attempt.rs\<close>): reservations in nano-dollars, windows, penalties, permits. Admission is
    all or nothing, a liability is settled once, and in every interleaving of calls, timeouts, cancellations and events the attempts
    admitted stay within budget and concurrency.
  \<^item> \<open>RedisRates\<close>, \<open>RedisAgreement\<close> (the Lua scripts of \<open>gateway/attempt.rs\<close>): a simulation between the keys of the scripts and the accounts
    of one instance; under its stated scope both give the same answers.
  \<^item> \<open>Idempotency\<close> (\<open>gateway/idempotency.rs\<close>): a replay belongs to the same tenant, credential, route, key and request; index and
    footprint are exact, so no operation panics.

  \<^bold>\<open>Queues.\<close>
  \<^item> \<open>GatewayQueue\<close> (\<open>gateway/mod.rs\<close>): jobs with an index by tier and one by deadline. The search of tier fronts finds the best job of
    all; the contract \<open>RequestQueue\<close> is a locale, interpreted on it.
  \<^item> \<open>GatewayLane\<close> (\<open>gateway/mod.rs\<close>): submitters, dispatcher and tasks as a step relation; slots, depth and admissions are bounded
    and no job is lost or answered twice.
  \<^item> \<open>Lifecycle\<close> (\<open>gateway/distributed.rs\<close>, \<open>gateway/distributed/lifecycle.rs\<close>): one function per Lua script on the shared store.
    \<open>LifecycleLaws\<close> and \<open>LifecycleSteps\<close> prove the invariant of the store script by script, \<open>JobStore\<close> lifts it to runs of any number of
    instances through a locale, \<open>JobResults\<close> and \<open>JobClaims\<close> hold what clients rely on: exact capacity, one place per job, stable results,
    no frame after the final message, leases in order of virtual deadlines.

  \<^bold>\<open>Tool calls.\<close>
  \<^item> \<open>ToolCalls\<close>, \<open>ToolRequests\<close>, \<open>ToolResponses\<close> (\<open>toolcall.rs\<close>, \<open>responses_tools.rs\<close>): the check of a conversation accepts exactly the
    well-paired ones; wire identities are unique; captured identities are restored for the provider they came from.
  \<^item> \<open>Retention\<close> (\<open>stream_retention.rs\<close>, \<open>derived_response.rs\<close>): what a response may keep in memory.
  \<^item> \<open>ToolStream\<close> (\<open>toolcall/streaming.rs\<close>, \<open>toolcall/progress.rs\<close>): calls assembled from native events. \<open>StreamLaws\<close> has the locales that lift
    the laws of single operations to whole streams; \<open>StreamAccounts\<close>, \<open>StreamProgress\<close> and \<open>StreamSafety\<close> are their interpretations:
    exact retention, the protocol of progress reports, only complete calls exposed, fragments that add up, no panic.

  \<^bold>\<open>Conventions.\<close> A \<open>struct\<close> is a record, an \<open>enum\<close> a datatype, what happens under one lock (or in one Lua script) is one function, a panic
  is a value of its own that theorems exclude. The clock is an argument; where a claim needs it, runs keep it from going back.
  Concurrency is the order of steps, which is free. Loops are recursive functions with termination proofs; there is no fuel. Widths
  and limits are those of the source; where a claim is restricted (times below \<open>2 ^ 53\<close> seconds, usage within the context window, keys
  within their retention time) the bound is a hypothesis with a witness. Code outside the repository (the embedder's policy, the upstream,
  hash functions, the callbacks of the providers) is an argument.

  \<^bold>\<open>Not modelled.\<close>
  \<^item> Transport and I/O: the HTTP client, proxy and gateway routes, metrics, credentials and signing, files and refresh of the catalog, the
    command line. Their order is decided by the runtime and their effects are outside the program.
  \<^item> The tokio loops of the distributed gateway and its Redis spend counters; every order of script calls they may make is a run of
    \<open>JobStore\<close>.
  \<^item> The adapters of single providers, images, audio and embeddings: long lists of field renamings whose reference is the
    documentation of the providers, so that a theorem would repeat the definition.
  \<^item> The rewriting of tool schemas, reasoning replay, the reading of native usage counters and the per-response pipeline that calls them. Where a
    modelled part needs their result it is an argument.
  \<^item> In modelled files: the environment variables of the gateway's configuration, log lines, and the content of stream chunks in the lane.
\<close>

end
